(* ===== verification/Prelude.thy ===== *)
theory Prelude
  imports Main "HOL-Library.Word"
begin

text \<open>
  Shared vocabulary of the development: the machine types of the C++ code, C strings and
  zero-terminated arrays, and the list lemmas that the component theories use. A pointer
  to an array is an option: \<open>None\<close> is the null pointer, \<open>Some xs\<close> the elements from the
  address up to the end of the allocated block. A computation whose C++ original reads
  outside of a block, dereferences a null pointer or aborts is an option too, and \<open>None\<close>
  is that outcome.
\<close>

unbundle bit_operations_syntax

named_theorems chars_simps \<open>what the string operations do to the abstract characters\<close>
named_theorems inv_intros \<open>operations keep the representation invariants\<close>
named_theorems consume_simps \<open>how the parsing operations consume input\<close>

type_synonym xmlch = "32 word"
type_synonym u32 = "32 word"

abbreviation NUL :: char where "NUL \<equiv> CHR 0x00"

section \<open>Outcomes\<close>

text \<open>What a computation with a bound on its rounds or calls has come to: a result, an undefined
  operation, or neither of them yet.\<close>

datatype 'a outcome = Returned 'a | Crashed | Running

definition outcome_bind :: "'a outcome \<Rightarrow> ('a \<Rightarrow> 'b outcome) \<Rightarrow> 'b outcome" where
  "outcome_bind x f = (case x of Returned a \<Rightarrow> f a | Crashed \<Rightarrow> Crashed | Running \<Rightarrow> Running)"

lemma outcome_bind_simps [simp]:
  "outcome_bind (Returned a) f = f a" "outcome_bind Crashed f = Crashed" "outcome_bind Running f = Running"
  by (simp_all add: outcome_bind_def)

lemma outcome_bind_Returned: "outcome_bind x f = Returned b \<longleftrightarrow> (\<exists>a. x = Returned a \<and> f a = Returned b)"
  by (cases x) simp_all

section \<open>Zero-terminated arrays\<close>

fun scan_to :: "'a \<Rightarrow> 'a list \<Rightarrow> nat option" where
  "scan_to z [] = None"
| "scan_to z (x # xs) = (if x = z then Some 0 else map_option Suc (scan_to z xs))"

definition c_str :: "string \<Rightarrow> string" where
  "c_str s = takeWhile (\<lambda>c. c \<noteq> NUL) s"

lemma scan_to_append [simp]:
  "z \<notin> set xs \<Longrightarrow> scan_to z (xs @ z # ys) = Some (length xs)"
  by (induction xs) auto

lemma scan_to_Some_iff:
  "scan_to z xs = Some n \<longleftrightarrow> n < length xs \<and> xs ! n = z \<and> z \<notin> set (take n xs)"
proof (induction xs arbitrary: n)
  case Nil
  then show ?case by simp
next
  case (Cons x xs)
  show ?case
    by (cases n) (auto simp: Cons.IH)
qed

lemma scan_to_takeWhile:
  "scan_to z xs = Some n \<Longrightarrow> take n xs = takeWhile (\<lambda>c. c \<noteq> z) xs"
  by (induction xs arbitrary: n) (auto split: if_splits)

lemma scan_to_split:
  assumes "scan_to z xs = Some n"
  shows "take (Suc n) xs = takeWhile (\<lambda>c. c \<noteq> z) xs @ [z]"
  using assms by (simp add: scan_to_Some_iff take_Suc_conv_app_nth
      scan_to_takeWhile [OF assms])

lemma c_str_no_NUL [simp]: "NUL \<notin> set s \<Longrightarrow> c_str s = s"
  unfolding c_str_def by (subst takeWhile_eq_all_conv) auto

lemma c_str_terminated: "NUL \<notin> set s \<Longrightarrow> c_str (s @ NUL # t) = s"
  unfolding c_str_def by (subst takeWhile_append2) auto

lemma NUL_notin_c_str [simp]: "NUL \<notin> set (c_str s)"
  by (auto simp: c_str_def dest: set_takeWhileD)

section \<open>Signed 32-bit arithmetic\<close>

text \<open>An \<open>int\<close> of the code: a value of \<^typ>\<open>int\<close>, brought back into range after each
  operation that can leave it.\<close>

definition wrap32 :: "int \<Rightarrow> int" where
  "wrap32 i = signed_take_bit 31 i"

lemma wrap32_id: "- (2 ^ 31) \<le> i \<Longrightarrow> i < 2 ^ 31 \<Longrightarrow> wrap32 i = i"
  unfolding wrap32_def by (rule signed_take_bit_int_eq_self) simp_all

lemma sint_of_nat_small: "n < 2 ^ 31 \<Longrightarrow> sint (of_nat n :: u32) = int n"
  by (simp add: signed_of_nat signed_take_bit_int_eq_self)

section \<open>Lists\<close>

lemma map_nth_upt [simp]: "n \<le> length xs \<Longrightarrow> map (\<lambda>i. xs ! i) [0..<n] = take n xs"
  by (induction n) (auto simp: take_Suc_conv_app_nth)

lemma map_nth_conv: "n \<le> length xs \<Longrightarrow> map (\<lambda>i. f (xs ! i)) [0..<n] = map f (take n xs)"
  by (induction n) (auto simp: take_Suc_conv_app_nth)

lemma drop_eq_append: "drop n xs = ys @ zs \<Longrightarrow> drop (n + length ys) xs = zs"
  by (metis add.commute append_eq_conv_conj drop_drop)

end
