(* ===== verification/Mini_XML.thy ===== *)
theory Mini_XML
  imports Prelude
begin

text \<open>
  The utility functions of \<^verbatim>\<open>libs/stream_message/src/minixml.cxx\<close>: strings of \<^verbatim>\<open>XMLCh\<close>
  (an unsigned 32-bit integer) and their conversion from and to strings of \<^verbatim>\<open>char\<close>.
  The outer option of a result is undefined behaviour (no terminator in the block), the
  inner one is the null pointer that the functions pass through.
\<close>

definition xml_of_char :: "char \<Rightarrow> xmlch" where
  "xml_of_char c = of_nat (of_char c)"

definition char_of_xml :: "xmlch \<Rightarrow> char" where
  "char_of_xml x = char_of (unat x)"

definition XMLs_len :: "xmlch list option \<Rightarrow> int option" where
  "XMLs_len p = (case p of
     None \<Rightarrow> Some (-1)
   | Some buf \<Rightarrow> map_option int (scan_to 0 buf))"

definition replicate_XMLs :: "xmlch list option \<Rightarrow> xmlch list option option" where
  "replicate_XMLs p = (case p of
     None \<Rightarrow> Some None
   | Some buf \<Rightarrow> (case XMLs_len p of
       None \<Rightarrow> None
     | Some len \<Rightarrow> Some (Some (map (\<lambda>i. buf ! i) [0..<nat len + 1]))))"

definition charsToXMLs :: "string option \<Rightarrow> xmlch list option option" where
  "charsToXMLs p = (case p of
     None \<Rightarrow> Some None
   | Some buf \<Rightarrow> (case scan_to NUL buf of
       None \<Rightarrow> None
     | Some len \<Rightarrow> Some (Some (map (\<lambda>i. xml_of_char (buf ! i)) [0..<len + 1]))))"

definition XMLsToChars :: "xmlch list option \<Rightarrow> string option option" where
  "XMLsToChars p = (case p of
     None \<Rightarrow> Some None
   | Some buf \<Rightarrow> (case XMLs_len p of
       None \<Rightarrow> None
     | Some len \<Rightarrow> Some (Some (map (\<lambda>i. char_of_xml (buf ! i)) [0..<nat len + 1]))))"

fun XMLsToString_loop :: "xmlch list \<Rightarrow> string \<Rightarrow> string option" where
  "XMLsToString_loop [] result = None"
| "XMLsToString_loop (x # p) result =
     (if x \<noteq> 0 then XMLsToString_loop p (result @ [char_of_xml x]) else Some result)"

definition XMLsToString :: "xmlch list option \<Rightarrow> string option" where
  "XMLsToString p = (case p of None \<Rightarrow> Some [] | Some buf \<Rightarrow> XMLsToString_loop buf [])"

section \<open>Characters\<close>

lemma unat_xml_of_char [simp]: "unat (xml_of_char c) = of_char c"
proof -
  have "(of_char c :: nat) < 256"
    using nat_of_char_less_256 by simp
  then show ?thesis
    unfolding xml_of_char_def by (subst unat_of_nat) (simp del: nat_of_char_less_256)
qed

lemma char_of_xml_of_char [simp]: "char_of_xml (xml_of_char c) = c"
  by (simp add: char_of_xml_def)

lemma xml_of_char_inject [simp]: "xml_of_char c = xml_of_char d \<longleftrightarrow> c = d"
  by (metis char_of_xml_of_char)

lemma xml_of_char_NUL [simp]: "xml_of_char NUL = 0"
  by (simp add: xml_of_char_def)

lemma xml_of_char_eq_0 [simp]: "xml_of_char c = 0 \<longleftrightarrow> c = NUL"
  using xml_of_char_inject [of c NUL] by simp

lemma zero_in_xmls [simp]: "0 \<in> xml_of_char ` A \<longleftrightarrow> NUL \<in> A"
  by (auto simp: image_iff)

lemma xml_of_char_of_xml: "x < 256 \<Longrightarrow> xml_of_char (char_of_xml x) = x"
  by (simp add: xml_of_char_def char_of_xml_def word_less_nat_alt)

section \<open>Conversions\<close>

lemma charsToXMLs_Some:
  "scan_to NUL buf = Some n \<Longrightarrow>
   charsToXMLs (Some buf) = Some (Some (map xml_of_char (take (Suc n) buf)))"
  using scan_to_Some_iff [of NUL buf n]
  by (simp add: charsToXMLs_def map_nth_conv del: upt_Suc)

lemma XMLsToString_loop_terminated:
  "0 \<notin> set xs \<Longrightarrow> XMLsToString_loop (xs @ 0 # ys) r = Some (r @ map char_of_xml xs)"
  by (induction xs arbitrary: r) auto

lemma XMLs_len_terminated [simp]: "0 \<notin> set xs \<Longrightarrow> XMLs_len (Some (xs @ 0 # ys)) = Some (int (length xs))"
  by (simp add: XMLs_len_def)

end
