(* ===== verification/DOM_String.thy ===== *)
theory DOM_String
  imports Mini_XML
begin

text \<open>
  The class \<^verbatim>\<open>DOMString\<close> of \<^verbatim>\<open>libs/stream_message/src/minidom.cxx\<close>: a growing buffer of
  \<^verbatim>\<open>XMLCh\<close> that stays zero-terminated. \<open>dbuf\<close> is the whole block \<^verbatim>\<open>buf\<close> points to,
  \<open>dlen\<close> the field \<^verbatim>\<open>len\<close>. \<open>dom_inv\<close> is the comment of the header ("always non-null,
  and null-terminated"), \<open>dom_chars\<close> the characters a string stands for. The locale
  \<open>char_sink\<close> is the interface the message encoder relies on.
\<close>

record domstr =
  dbuf :: "xmlch list"
  dlen :: nat

definition DOMString_empty :: domstr where
  "DOMString_empty = \<lparr>dbuf = [0], dlen = 0\<rparr>"

definition DOMString_copy :: "domstr \<Rightarrow> domstr" where
  "DOMString_copy that =
     \<lparr>dbuf = map (\<lambda>i. dbuf that ! i) [0..<dlen that + 1], dlen = dlen that\<rparr>"

definition DOMString_of_ptr :: "xmlch list option \<Rightarrow> domstr option" where
  "DOMString_of_ptr p = (case p of
     None \<Rightarrow> None
   | Some b \<Rightarrow> (case XMLs_len p of
       None \<Rightarrow> None
     | Some len \<Rightarrow> Some \<lparr>dbuf = map (\<lambda>i. b ! i) [0..<nat len + 1], dlen = nat len\<rparr>))"

definition DOMString_of_ptr_len :: "xmlch list \<Rightarrow> nat \<Rightarrow> domstr option" where
  "DOMString_of_ptr_len p n =
     (if n \<le> length p then Some \<lparr>dbuf = map (\<lambda>i. p ! i) [0..<n] @ [0], dlen = n\<rparr> else None)"

definition DOMString_of_char :: "xmlch \<Rightarrow> domstr" where
  "DOMString_of_char ch = \<lparr>dbuf = [ch, 0], dlen = 1\<rparr>"

definition DOMString_assign :: "domstr \<Rightarrow> domstr \<Rightarrow> domstr" where
  "DOMString_assign s that =
     s\<lparr>dlen := dlen that, dbuf := map (\<lambda>i. dbuf that ! i) [0..<dlen that + 1]\<rparr>"

definition dom_append :: "domstr \<Rightarrow> domstr \<Rightarrow> domstr" where
  "dom_append s that = (let new_len = dlen s + dlen that in
     s\<lparr>dbuf := map (\<lambda>i. dbuf s ! i) [0..<dlen s] @ map (\<lambda>j. dbuf that ! j) [0..<dlen that] @ [0],
       dlen := new_len\<rparr>)"

definition dom_append_ptr :: "domstr \<Rightarrow> xmlch list option \<Rightarrow> domstr option" where
  "dom_append_ptr s p = (case p of
     None \<Rightarrow> None
   | Some b \<Rightarrow> (case XMLs_len p of
       None \<Rightarrow> None
     | Some pl \<Rightarrow> Some (s\<lparr>
         dbuf := map (\<lambda>i. dbuf s ! i) [0..<dlen s] @ map (\<lambda>j. b ! j) [0..<nat pl] @ [0],
         dlen := dlen s + nat pl\<rparr>)))"

definition dom_append_char :: "domstr \<Rightarrow> xmlch \<Rightarrow> domstr" where
  "dom_append_char s ch =
     s\<lparr>dbuf := map (\<lambda>i. dbuf s ! i) [0..<dlen s] @ [ch, 0], dlen := dlen s + 1\<rparr>"

definition dom_equals :: "domstr \<Rightarrow> domstr \<Rightarrow> bool" where
  "dom_equals s that =
     (if dlen s \<noteq> dlen that then False
      else list_all (\<lambda>i. dbuf s ! i = dbuf that ! i) [0..<dlen s])"

definition rawBuffer :: "domstr \<Rightarrow> xmlch list" where
  "rawBuffer s = dbuf s"

definition charAt :: "domstr \<Rightarrow> nat \<Rightarrow> xmlch" where
  "charAt s index = (if dlen s \<le> index then 0 else dbuf s ! index)"

definition trivialFromDOMString :: "domstr \<Rightarrow> string" where
  "trivialFromDOMString str =
     map (\<lambda>i. char_of_xml (rawBuffer str ! i)) [0..<dlen str] @ [NUL]"

definition trivialStringFromDOMString :: "domstr \<Rightarrow> string" where
  "trivialStringFromDOMString src = c_str (trivialFromDOMString src)"

definition trivialToDOMString :: "domstr \<Rightarrow> string option \<Rightarrow> domstr option" where
  "trivialToDOMString str p = (case charsToXMLs p of
     None \<Rightarrow> None
   | Some tmp \<Rightarrow> map_option (DOMString_assign str) (DOMString_of_ptr tmp))"

definition trivialToDOMString_string :: "string \<Rightarrow> domstr option" where
  "trivialToDOMString_string s = trivialToDOMString DOMString_empty (Some (s @ [NUL]))"

section \<open>Representation\<close>

definition dom_inv :: "domstr \<Rightarrow> bool" where
  "dom_inv s \<longleftrightarrow> length (dbuf s) = dlen s + 1 \<and> dbuf s ! dlen s = 0"

definition dom_chars :: "domstr \<Rightarrow> xmlch list" where
  "dom_chars s = take (dlen s) (dbuf s)"

definition dom_of :: "xmlch list \<Rightarrow> domstr" where
  "dom_of cs = \<lparr>dbuf = cs @ [0], dlen = length cs\<rparr>"

lemma dom_chars_dom_of [simp]: "dom_chars (dom_of cs) = cs"
  by (simp add: dom_of_def dom_chars_def)

lemma dom_inv_dom_of [simp, intro]: "dom_inv (dom_of cs)"
  by (simp add: dom_inv_def dom_of_def)

lemma dom_of_dom_chars: "dom_inv s \<Longrightarrow> dom_of (dom_chars s) = s"
  using take_Suc_conv_app_nth [of "dlen s" "dbuf s"]
  by (cases s) (auto simp: dom_inv_def dom_of_def dom_chars_def)

lemma dom_inv_obtain:
  assumes "dom_inv s" obtains cs where "s = dom_of cs"
  using dom_of_dom_chars [OF assms] that by metis

lemma length_dom_chars: "dom_inv s \<Longrightarrow> length (dom_chars s) = dlen s"
  by (simp add: dom_inv_def dom_chars_def)

lemma dlen_dom_of [simp]: "dlen (dom_of cs) = length cs"
  by (simp add: dom_of_def)

lemma dbuf_dom_of [simp]: "dbuf (dom_of cs) = cs @ [0]"
  by (simp add: dom_of_def)

lemma dom_of_inject [simp]: "dom_of a = dom_of b \<longleftrightarrow> a = b"
  by (auto simp: dom_of_def)

lemma DOMString_empty_of: "DOMString_empty = dom_of []"
  by (simp add: DOMString_empty_def dom_of_def)

lemma DOMString_copy_of [simp]: "DOMString_copy (dom_of cs) = dom_of cs"
  by (simp add: DOMString_copy_def dom_of_def del: upt_Suc)

lemma DOMString_assign_of [simp]: "DOMString_assign s (dom_of cs) = dom_of cs"
  using DOMString_copy_of [of cs]
  by (cases s) (simp add: DOMString_assign_def DOMString_copy_def dom_of_def)

lemma dom_append_of [simp]: "dom_append (dom_of a) (dom_of b) = dom_of (a @ b)"
  by (simp add: dom_append_def dom_of_def Let_def)

lemma dom_append_char_of [simp]: "dom_append_char (dom_of a) ch = dom_of (a @ [ch])"
  by (simp add: dom_append_char_def dom_of_def)

lemma DOMString_of_ptr_of:
  "0 \<notin> set xs \<Longrightarrow> DOMString_of_ptr (Some (xs @ 0 # ys)) = Some (dom_of xs)"
  by (simp add: DOMString_of_ptr_def dom_of_def nat_add_distrib del: upt_Suc)

lemma dom_equals_of [simp]: "dom_equals (dom_of a) (dom_of b) \<longleftrightarrow> a = b"
  by (auto simp: dom_equals_def list_all_iff nth_append list_eq_iff_nth_eq [of a b])

lemma charAt_of: "charAt (dom_of cs) i = (if i < length cs then cs ! i else 0)"
  by (simp add: charAt_def nth_append)

lemma trivialFromDOMString_of: "trivialFromDOMString (dom_of cs) = map char_of_xml cs @ [NUL]"
  by (simp add: trivialFromDOMString_def rawBuffer_def map_nth_conv)

lemma trivialToDOMString_Some:
  "NUL \<notin> set s \<Longrightarrow> trivialToDOMString d (Some (s @ NUL # t)) = Some (dom_of (map xml_of_char s))"
  using charsToXMLs_Some [of "s @ NUL # t" "length s"] DOMString_of_ptr_of [of "map xml_of_char s" "[]"]
  by (simp add: trivialToDOMString_def)

lemma dom_append_ptr_of:
  "0 \<notin> set xs \<Longrightarrow> dom_append_ptr (dom_of a) (Some (xs @ 0 # ys)) = Some (dom_of (a @ xs))"
  by (simp add: dom_append_ptr_def dom_of_def)

lemma DOMString_of_ptr_len_of:
  "n \<le> length p \<Longrightarrow> DOMString_of_ptr_len p n = Some (dom_of (take n p))"
  by (simp add: DOMString_of_ptr_len_def dom_of_def)

lemma dom_inv_operations [inv_intros]:
  "dom_inv DOMString_empty"
  "dom_inv s \<Longrightarrow> dom_inv (DOMString_copy s)"
  "dom_inv s \<Longrightarrow> dom_inv (DOMString_assign t s)"
  "dom_inv s \<Longrightarrow> dom_inv t \<Longrightarrow> dom_inv (dom_append s t)"
  "dom_inv s \<Longrightarrow> dom_inv (dom_append_char s c)"
  by (auto simp: DOMString_empty_of elim!: dom_inv_obtain)

lemma dom_chars_operations [chars_simps]:
  "dom_chars DOMString_empty = []"
  "dom_inv s \<Longrightarrow> dom_chars (DOMString_copy s) = dom_chars s"
  "dom_inv s \<Longrightarrow> dom_chars (DOMString_assign t s) = dom_chars s"
  "dom_inv s \<Longrightarrow> dom_inv t \<Longrightarrow> dom_chars (dom_append s t) = dom_chars s @ dom_chars t"
  "dom_inv s \<Longrightarrow> dom_chars (dom_append_char s c) = dom_chars s @ [c]"
  by (auto simp: DOMString_empty_of elim!: dom_inv_obtain)

section \<open>The interface of a character sink\<close>

text \<open>What the encoder of messages relies on: a buffer to which single characters and whole
  strings are appended.\<close>

locale char_sink =
  fixes put :: "'s \<Rightarrow> xmlch \<Rightarrow> 's"
    and put_all :: "'s \<Rightarrow> 't \<Rightarrow> 's"
    and ok :: "'s \<Rightarrow> bool"
    and ok_arg :: "'t \<Rightarrow> bool"
    and chars :: "'s \<Rightarrow> xmlch list"
    and arg_chars :: "'t \<Rightarrow> xmlch list"
  assumes ok_put: "ok s \<Longrightarrow> ok (put s c)"
    and ok_put_all: "ok s \<Longrightarrow> ok_arg t \<Longrightarrow> ok (put_all s t)"
    and chars_put: "ok s \<Longrightarrow> chars (put s c) = chars s @ [c]"
    and chars_put_all: "ok s \<Longrightarrow> ok_arg t \<Longrightarrow> chars (put_all s t) = chars s @ arg_chars t"
begin

lemma puts:
  "ok s \<Longrightarrow> ok (foldl put s cs) \<and> chars (foldl put s cs) = chars s @ cs"
  by (induction cs arbitrary: s) (auto simp: ok_put chars_put)

lemma ok_puts: "ok s \<Longrightarrow> ok (foldl put s cs)"
  by (simp add: puts)

lemma chars_puts: "ok s \<Longrightarrow> chars (foldl put s cs) = chars s @ cs"
  by (simp add: puts)

lemma chunks:
  assumes "ok s" and "\<And>x s. x \<in> set xs \<Longrightarrow> ok s \<Longrightarrow> ok (f s x) \<and> chars (f s x) = chars s @ g x"
  shows "ok (foldl f s xs) \<and> chars (foldl f s xs) = chars s @ concat (map g xs)"
  using assms by (induction xs arbitrary: s) auto

end

interpretation dom_sink: char_sink dom_append_char dom_append dom_inv dom_inv dom_chars dom_chars
  by unfold_locales (simp_all add: inv_intros chars_simps)

section \<open>Properties\<close>

text \<open>Text survives the conversions between the character types: a C string turned into an
  \<^verbatim>\<open>XMLCh\<close> string, a \<^verbatim>\<open>DOMString\<close> or a \<^verbatim>\<open>std::string\<close> and back is the same string, with bytes
  above 127 included.\<close>

theorem string_conversions_roundtrip:
  assumes "NUL \<notin> set s"
  shows "Option.bind (charsToXMLs (Some (s @ [NUL]))) XMLsToChars = Some (Some (s @ [NUL])) \<and>
    Option.bind (charsToXMLs (Some (s @ [NUL]))) XMLsToString = Some s \<and>
    map_option trivialStringFromDOMString (trivialToDOMString_string s) = Some s"
proof -
  have x: "charsToXMLs (Some (s @ [NUL])) = Some (Some (map xml_of_char s @ [0]))"
    using charsToXMLs_Some [of "s @ [NUL]" "length s"] assms by simp
  have z: "0 \<notin> set (map xml_of_char s)" using assms by simp
  have n: "char_of_xml 0 = NUL" by (simp flip: xml_of_char_NUL)
  have "map (\<lambda>i. char_of_xml ((map xml_of_char s @ [0]) ! i)) [0..<length s + 1] = s @ [NUL]"
    using map_nth_conv [of "length s + 1" "map xml_of_char s @ [0]" char_of_xml] by (simp add: o_def n del: upt_Suc)
  then have "XMLsToChars (Some (map xml_of_char s @ [0])) = Some (Some (s @ [NUL]))"
    using XMLs_len_terminated [OF z, of "[]"] by (simp add: XMLsToChars_def nat_add_distrib del: upt_Suc)
  moreover have "XMLsToString (Some (map xml_of_char s @ [0])) = Some s"
    using XMLsToString_loop_terminated [OF z, of "[]" "[]"] by (simp add: XMLsToString_def o_def)
  moreover have "map_option trivialStringFromDOMString (trivialToDOMString_string s) = Some s"
    using trivialToDOMString_Some [OF assms, of DOMString_empty "[]"] assms
    by (simp add: trivialToDOMString_string_def trivialStringFromDOMString_def trivialFromDOMString_of
        c_str_terminated o_def)
  ultimately show ?thesis by (simp add: x)
qed

theorem string_conversions_roundtrip_witness:
  "map_option trivialStringFromDOMString (trivialToDOMString_string [CHR ''a'', CHR 0xE9]) =
     Some [CHR ''a'', CHR 0xE9]"
  using string_conversions_roundtrip [of "[CHR ''a'', CHR 0xE9]"] by simp

end
