(* ===== verification/Message_Tree.thy ===== *)
theory Message_Tree
  imports DOM_String
begin

text \<open>
  The messages of the model builder's driver protocol: the array class \<^verbatim>\<open>TArray\<close>, the
  classes \<^verbatim>\<open>Attribute\<close> and \<^verbatim>\<open>Message\<close> of \<^verbatim>\<open>libs/stream_message/include/mbuildmsg.h\<close>, and
  the member functions of \<^verbatim>\<open>Message\<close> in \<^verbatim>\<open>src/mbuildmsg.cxx\<close> that build, query and encode
  a message. An array keeps its elements and its allocated size; \<^verbatim>\<open>m_nSize\<close> is the number
  of elements. \<open>amsg\<close> is the abstract message: the same tree without buffers and
  allocation sizes, over any type of characters, with the encoder as a function to characters.
\<close>

section \<open>TArray\<close>

datatype 'a tarray = TArray (m_aT: "'a list") (m_nAllocSize: nat)

definition GetSize :: "'a tarray \<Rightarrow> nat" where
  "GetSize a = length (m_aT a)"

definition TArray_empty :: "'a tarray" where
  "TArray_empty = TArray [] 0"

definition TArray_Append :: "('b \<Rightarrow> 'a) \<Rightarrow> 'a tarray \<Rightarrow> 'b tarray \<Rightarrow> 'a tarray" where
  "TArray_Append cp a src =
     TArray (m_aT a @ map cp (m_aT src))
       (if GetSize a + GetSize src > m_nAllocSize a
        then (if m_nAllocSize a + GetSize src = 0 then 1 else m_nAllocSize a + GetSize src)
        else m_nAllocSize a)"

definition TArray_Add :: "('b \<Rightarrow> 'a) \<Rightarrow> 'a tarray \<Rightarrow> 'b \<Rightarrow> 'a tarray" where
  "TArray_Add cp a t =
     TArray (m_aT a @ [cp t])
       (if GetSize a = m_nAllocSize a
        then (if m_nAllocSize a = 0 then 1 else GetSize a * 2)
        else m_nAllocSize a)"

definition TArray_GetAt :: "'a tarray \<Rightarrow> int \<Rightarrow> 'a option" where
  "TArray_GetAt a nIndex =
     (if nIndex < 0 \<or> int (GetSize a) \<le> nIndex then None else Some (m_aT a ! nat nIndex))"

definition TArray_SetAtIndex :: "('b \<Rightarrow> 'a) \<Rightarrow> 'a tarray \<Rightarrow> int \<Rightarrow> 'b \<Rightarrow> 'a tarray option" where
  "TArray_SetAtIndex cp a nIndex t =
     (if nIndex < 0 \<or> int (GetSize a) \<le> nIndex then None
      else Some (TArray ((m_aT a)[nat nIndex := cp t]) (m_nAllocSize a)))"

fun TArray_Find_from :: "('a \<Rightarrow> bool) \<Rightarrow> int \<Rightarrow> 'a list \<Rightarrow> int" where
  "TArray_Find_from eq i [] = -1"
| "TArray_Find_from eq i (x # xs) = (if eq x then i else TArray_Find_from eq (i + 1) xs)"

definition TArray_Find :: "('a \<Rightarrow> 'a \<Rightarrow> bool) \<Rightarrow> 'a tarray \<Rightarrow> 'a \<Rightarrow> int" where
  "TArray_Find eq a t = TArray_Find_from (\<lambda>x. eq x t) 0 (m_aT a)"

text \<open>An index outside of the array destroys what is no element (\<open>None\<close>); at \<open>-1\<close> in an empty array the
  code makes the size negative, which is \<open>None\<close> as well.\<close>

definition TArray_RemoveAt :: "'a tarray \<Rightarrow> int \<Rightarrow> 'a tarray option" where
  "TArray_RemoveAt a nIndex =
     (if nIndex < 0 \<or> int (GetSize a) \<le> nIndex then None
      else Some (TArray
        (if nIndex \<noteq> int (GetSize a) - 1
         then take (nat nIndex) (m_aT a) @ drop (nat nIndex + 1) (m_aT a)
         else take (GetSize a - 1) (m_aT a))
        (m_nAllocSize a)))"

definition TArray_Remove :: "('a \<Rightarrow> 'a \<Rightarrow> bool) \<Rightarrow> 'a tarray \<Rightarrow> 'a \<Rightarrow> (bool \<times> 'a tarray) option" where
  "TArray_Remove eq a t = (let nIndex = TArray_Find eq a t in
     if nIndex = -1 then Some (False, a)
     else map_option (\<lambda>a'. (True, a')) (TArray_RemoveAt a nIndex))"

definition TArray_RemoveAll :: "'a tarray \<Rightarrow> 'a tarray" where
  "TArray_RemoveAll a = TArray [] 0"

definition tarray_inv :: "'a tarray \<Rightarrow> bool" where
  "tarray_inv a \<longleftrightarrow> GetSize a \<le> m_nAllocSize a"

lemma m_aT_simps [simp]:
  "m_aT TArray_empty = []"
  "m_aT (TArray_Append cp a src) = m_aT a @ map cp (m_aT src)"
  "m_aT (TArray_Add cp a t) = m_aT a @ [cp t]"
  by (simp_all add: TArray_empty_def TArray_Append_def TArray_Add_def)

lemma tarray_inv_operations [inv_intros]:
  "tarray_inv TArray_empty"
  "tarray_inv a \<Longrightarrow> tarray_inv (TArray_Append cp a src)"
  "tarray_inv a \<Longrightarrow> tarray_inv (TArray_Add cp a t)"
  "tarray_inv (TArray_RemoveAll a)"
  by (auto simp: tarray_inv_def GetSize_def TArray_empty_def TArray_Append_def TArray_Add_def
      TArray_RemoveAll_def split: if_splits)

lemma tarray_inv_SetAtIndex: "tarray_inv a \<Longrightarrow> TArray_SetAtIndex cp a i t = Some a' \<Longrightarrow> tarray_inv a'"
  by (auto simp: tarray_inv_def GetSize_def TArray_SetAtIndex_def split: if_splits)

lemma tarray_inv_RemoveAt: "tarray_inv a \<Longrightarrow> TArray_RemoveAt a i = Some a' \<Longrightarrow> tarray_inv a'"
  by (auto simp: tarray_inv_def GetSize_def TArray_RemoveAt_def split: if_splits)

lemma TArray_Append_cong [fundef_cong]:
  assumes "a = a'" and "s = s'" and "\<And>x. x \<in> set (m_aT s') \<Longrightarrow> cp x = cp' x"
  shows "TArray_Append cp a s = TArray_Append cp' a' s'"
  using assms by (simp add: TArray_Append_def)

section \<open>Attributes and messages\<close>

datatype attribute = Attribute (m_attributeName: domstr) (m_attributeValue: domstr)

datatype message = Message
  (m_elementName: domstr) (m_text: domstr)
  (m_attributes: "attribute tarray") (m_children: "message tarray")

lemma size_message_child [termination_simp]:
  "c \<in> set (m_aT cs) \<Longrightarrow> size c < Suc (size_tarray size cs)"
  by (cases cs) (auto simp: less_Suc_eq_le intro: le_SucI size_list_estimation')

definition Attribute_ctor :: "domstr \<Rightarrow> domstr \<Rightarrow> attribute" where
  "Attribute_ctor attributeName attributeValue =
     Attribute (DOMString_copy attributeName) (DOMString_copy attributeValue)"

definition copy_attribute :: "attribute \<Rightarrow> attribute" where
  "copy_attribute a = Attribute (DOMString_copy (m_attributeName a)) (DOMString_copy (m_attributeValue a))"

definition Message_default :: message where
  "Message_default = Message DOMString_empty DOMString_empty TArray_empty TArray_empty"

definition Message_named :: "domstr \<Rightarrow> message" where
  "Message_named name = Message (DOMString_copy name) DOMString_empty TArray_empty TArray_empty"

fun copy_message :: "message \<Rightarrow> message" where
  "copy_message (Message n t as cs) =
     Message (DOMString_assign DOMString_empty n) (DOMString_assign DOMString_empty t)
       (TArray_Append copy_attribute TArray_empty as)
       (TArray_Append copy_message TArray_empty cs)"

definition GetTag :: "message \<Rightarrow> domstr \<Rightarrow> domstr" where
  "GetTag m tag = DOMString_assign tag (m_elementName m)"

fun SetText :: "message \<Rightarrow> domstr \<Rightarrow> message" where
  "SetText (Message n t as cs) txt = Message n (DOMString_assign t txt) as cs"

fun AddAttribute :: "message \<Rightarrow> domstr \<Rightarrow> domstr \<Rightarrow> message" where
  "AddAttribute (Message n t as cs) attributeName attributeValue =
     Message n t (TArray_Add copy_attribute as (Attribute_ctor attributeName attributeValue)) cs"

fun AddChild :: "message \<Rightarrow> message \<Rightarrow> message" where
  "AddChild (Message n t as cs) msg = Message n t as (TArray_Add copy_message cs msg)"

fun AddText :: "message \<Rightarrow> domstr \<Rightarrow> message" where
  "AddText (Message n t as cs) txt =
     (let textElement = SetText Message_default txt
      in Message n t as (TArray_Add copy_message cs textElement))"

definition GetAttributeCount :: "message \<Rightarrow> nat" where
  "GetAttributeCount m = GetSize (m_attributes m)"

definition GetAttribute :: "message \<Rightarrow> int \<Rightarrow> domstr option" where
  "GetAttribute m index = map_option m_attributeValue (TArray_GetAt (m_attributes m) index)"

fun GetAttributeByName_loop :: "attribute list \<Rightarrow> nat \<Rightarrow> domstr \<Rightarrow> domstr option" where
  "GetAttributeByName_loop as 0 name = None"
| "GetAttributeByName_loop as (Suc i) name =
     (if dom_equals (m_attributeName (as ! i)) name then Some (m_attributeValue (as ! i))
      else GetAttributeByName_loop as i name)"

definition GetAttributeByName :: "message \<Rightarrow> domstr \<Rightarrow> domstr option" where
  "GetAttributeByName m name =
     GetAttributeByName_loop (m_aT (m_attributes m)) (GetSize (m_attributes m)) name"

definition GetAttributeByName_ptr :: "message \<Rightarrow> xmlch list option \<Rightarrow> domstr option option" where
  "GetAttributeByName_ptr m p =
     (if GetSize (m_attributes m) = 0 then Some None
      else map_option (GetAttributeByName m) (DOMString_of_ptr p))"

fun GetTextInternal :: "message \<Rightarrow> domstr \<Rightarrow> domstr" where
  "GetTextInternal (Message n t as cs) value =
     foldl (\<lambda>v c. if dlen (m_elementName c) = 0 then GetTextInternal c v else v)
       (dom_append value t) (m_aT cs)"

definition GetText :: "message \<Rightarrow> domstr" where
  "GetText m = GetTextInternal m DOMString_empty"

fun next_element :: "message list \<Rightarrow> nat \<Rightarrow> nat option" where
  "next_element [] i = None"
| "next_element (c # cs) i = (if dlen (m_elementName c) \<noteq> 0 then Some i else next_element cs (i + 1))"

definition EnumerateChildren :: "message \<Rightarrow> nat option" where
  "EnumerateChildren m = next_element (m_aT (m_children m)) 0"

definition GetNextChild :: "message \<Rightarrow> nat \<Rightarrow> (message \<times> nat) option" where
  "GetNextChild m enumerator =
     (if enumerator < GetSize (m_children m)
      then Some (m_aT (m_children m) ! enumerator,
        (case next_element (drop (enumerator + 1) (m_aT (m_children m))) (enumerator + 1) of
           Some i \<Rightarrow> i
         | None \<Rightarrow> GetSize (m_children m)))
      else None)"

section \<open>Encoding\<close>

definition chOpenAngle :: xmlch where "chOpenAngle = xml_of_char CHR ''<''"
definition chCloseAngle :: xmlch where "chCloseAngle = xml_of_char CHR ''>''"
definition chAmpersand :: xmlch where "chAmpersand = xml_of_char CHR ''&''"
definition chDoubleQuote :: xmlch where "chDoubleQuote = xml_of_char CHR 0x22"
definition chSpace :: xmlch where "chSpace = xml_of_char CHR '' ''"
definition chEqual :: xmlch where "chEqual = xml_of_char CHR ''=''"
definition chForwardSlash :: xmlch where "chForwardSlash = xml_of_char CHR ''/''"

lemmas ch_defs = chOpenAngle_def chCloseAngle_def chAmpersand_def chDoubleQuote_def
  chSpace_def chEqual_def chForwardSlash_def

abbreviation xmls :: "string \<Rightarrow> xmlch list" where
  "xmls \<equiv> map xml_of_char"

definition EncodeString :: "domstr \<Rightarrow> domstr \<Rightarrow> domstr" where
  "EncodeString result toWrite =
     foldl (\<lambda>r index. let ch = rawBuffer toWrite ! index in
        if ch = chAmpersand then foldl dom_append_char r (xmls ''&amp;'')
        else if ch = chOpenAngle then foldl dom_append_char r (xmls ''&lt;'')
        else if ch = chCloseAngle then foldl dom_append_char r (xmls ''&gt;'')
        else if ch = chDoubleQuote then foldl dom_append_char r (xmls ''&quot;'')
        else dom_append_char r (charAt toWrite index))
       result [0..<dlen toWrite]"

definition encode_attribute :: "domstr \<Rightarrow> attribute \<Rightarrow> domstr" where
  "encode_attribute r attribute =
     (let r1 = dom_append (dom_append_char r chSpace) (m_attributeName attribute);
          r2 = dom_append_char (dom_append_char r1 chEqual) chDoubleQuote;
          r3 = EncodeString r2 (m_attributeValue attribute)
      in dom_append_char r3 chDoubleQuote)"

fun Encode :: "message \<Rightarrow> domstr \<Rightarrow> domstr" where
  "Encode (Message n t as cs) result =
     (if dlen n = 0 then EncodeString result t
      else let r1 = dom_append (dom_append_char result chOpenAngle) n;
               r2 = foldl encode_attribute r1 (m_aT as)
           in if dlen t = 0 \<and> GetSize cs = 0
              then dom_append_char (dom_append_char r2 chForwardSlash) chCloseAngle
              else let r3 = EncodeString (dom_append_char r2 chCloseAngle) t;
                       r4 = foldl (\<lambda>r c. Encode c r) r3 (m_aT cs);
                       r5 = dom_append_char (dom_append_char r4 chOpenAngle) chForwardSlash
                   in dom_append_char (dom_append r5 n) chCloseAngle)"

section \<open>The abstract message\<close>

datatype 'c amsg = AMsg (aname: "'c list") (atext: "'c list")
  (aattrs: "('c list \<times> 'c list) list") (achildren: "'c amsg list")

fun attr_abs :: "attribute \<Rightarrow> xmlch list \<times> xmlch list" where
  "attr_abs (Attribute n v) = (dom_chars n, dom_chars v)"

fun attr_inv :: "attribute \<Rightarrow> bool" where
  "attr_inv (Attribute n v) \<longleftrightarrow> dom_inv n \<and> dom_inv v"

fun msg_abs :: "message \<Rightarrow> xmlch amsg" where
  "msg_abs (Message n t as cs) =
     AMsg (dom_chars n) (dom_chars t) (map attr_abs (m_aT as)) (map msg_abs (m_aT cs))"

fun msg_inv :: "message \<Rightarrow> bool" where
  "msg_inv (Message n t as cs) \<longleftrightarrow> dom_inv n \<and> dom_inv t \<and> tarray_inv as \<and> tarray_inv cs
     \<and> list_all attr_inv (m_aT as) \<and> list_all msg_inv (m_aT cs)"

definition esc_char :: "xmlch \<Rightarrow> xmlch list" where
  "esc_char ch =
     (if ch = xml_of_char CHR ''&'' then xmls ''&amp;''
      else if ch = xml_of_char CHR ''<'' then xmls ''&lt;''
      else if ch = xml_of_char CHR ''>'' then xmls ''&gt;''
      else if ch = xml_of_char CHR 0x22 then xmls ''&quot;''
      else [ch])"

definition esc :: "xmlch list \<Rightarrow> xmlch list" where
  "esc cs = concat (map esc_char cs)"

definition a_attr :: "xmlch list \<times> xmlch list \<Rightarrow> xmlch list" where
  "a_attr a = xmls '' '' @ fst a @ xmls (''='' @ [CHR 0x22]) @ esc (snd a) @ xmls [CHR 0x22]"

fun a_encode :: "xmlch amsg \<Rightarrow> xmlch list" where
  "a_encode (AMsg n t as cs) =
     (if n = [] then esc t
      else xmls ''<'' @ n @ concat (map a_attr as) @
        (if t = [] \<and> cs = [] then xmls ''/>''
         else xmls ''>'' @ esc t @ concat (map a_encode cs) @ xmls ''</'' @ n @ xmls ''>''))"

section \<open>The encoder writes the abstract encoding\<close>

lemma EncodeString_spec:
  assumes "dom_inv r" and "dom_inv s"
  shows "dom_inv (EncodeString r s) \<and> dom_chars (EncodeString r s) = dom_chars r @ esc (dom_chars s)"
proof -
  obtain cs where s: "s = dom_of cs" using assms(2) by (rule dom_inv_obtain)
  define f where "f r index = (let ch = rawBuffer s ! index in
        if ch = chAmpersand then foldl dom_append_char r (xmls ''&amp;'')
        else if ch = chOpenAngle then foldl dom_append_char r (xmls ''&lt;'')
        else if ch = chCloseAngle then foldl dom_append_char r (xmls ''&gt;'')
        else if ch = chDoubleQuote then foldl dom_append_char r (xmls ''&quot;'')
        else dom_append_char r (charAt s index))" for r index
  have step: "dom_inv (f q i) \<and> dom_chars (f q i) = dom_chars q @ esc_char (cs ! i)"
    if "i \<in> set [0..<length cs]" and "dom_inv q" for i q
    using that dom_sink.puts [OF \<open>dom_inv q\<close>]
    by (simp add: f_def s rawBuffer_def nth_append charAt_of esc_char_def ch_defs Let_def
        inv_intros chars_simps)
  have "EncodeString r s = foldl f r [0..<dlen s]"
    by (simp only: EncodeString_def f_def [abs_def])
  moreover have "concat (map (\<lambda>i. esc_char (cs ! i)) [0..<length cs]) = esc cs"
    by (simp add: esc_def map_nth_conv)
  ultimately show ?thesis
    using dom_sink.chunks [of r "[0..<length cs]" f "\<lambda>i. esc_char (cs ! i)", OF assms(1) step]
    by (simp add: s)
qed

lemma encode_attribute_spec:
  assumes "dom_inv r" and "attr_inv a"
  shows "dom_inv (encode_attribute r a) \<and>
    dom_chars (encode_attribute r a) = dom_chars r @ a_attr (attr_abs a)"
  using assms
  by (cases a) (simp add: encode_attribute_def EncodeString_spec inv_intros chars_simps
      a_attr_def ch_defs)

lemma encode_attributes_spec:
  assumes "dom_inv r" and "list_all attr_inv as"
  shows "dom_inv (foldl encode_attribute r as) \<and>
    dom_chars (foldl encode_attribute r as) = dom_chars r @ concat (map a_attr (map attr_abs as))"
  using dom_sink.chunks [of r as encode_attribute "\<lambda>a. a_attr (attr_abs a)"] assms
  by (simp add: encode_attribute_spec list_all_iff o_def)

lemma dom_chars_Nil: "dom_inv s \<Longrightarrow> dom_chars s = [] \<longleftrightarrow> dlen s = 0"
  by (auto elim!: dom_inv_obtain)

lemma Encode_spec:
  "msg_inv m \<Longrightarrow> dom_inv r \<Longrightarrow>
   dom_inv (Encode m r) \<and> dom_chars (Encode m r) = dom_chars r @ a_encode (msg_abs m)"
proof (induction m r rule: Encode.induct)
  case (1 n t as cs result)
  then have inv: "dom_inv n" "dom_inv t" "dom_inv result" "list_all attr_inv (m_aT as)"
      "list_all msg_inv (m_aT cs)" by simp_all
  show ?case
  proof (cases "dlen n = 0 \<or> dlen t = 0 \<and> GetSize cs = 0")
    case True
    then show ?thesis
      using inv encode_attributes_spec
      by (auto simp: EncodeString_spec dom_chars_Nil inv_intros chars_simps ch_defs GetSize_def
          Let_def esc_def)
  next
    case False
    define r1 where "r1 = dom_append (dom_append_char result chOpenAngle) n"
    define r2 where "r2 = foldl encode_attribute r1 (m_aT as)"
    define r3 where "r3 = EncodeString (dom_append_char r2 chCloseAngle) t"
    define r4 where "r4 = foldl (\<lambda>r c. Encode c r) r3 (m_aT cs)"
    note r = r1_def r2_def r3_def r4_def
    have r3: "dom_inv r3" "dom_chars r3 = dom_chars result @ xmls ''<'' @ dom_chars n @
        concat (map a_attr (map attr_abs (m_aT as))) @ xmls ''>'' @ esc (dom_chars t)"
      using inv by (simp_all add: r3_def r2_def r1_def encode_attributes_spec EncodeString_spec
          inv_intros chars_simps ch_defs)
    have "dom_inv (Encode c q) \<and> dom_chars (Encode c q) = dom_chars q @ a_encode (msg_abs c)"
      if "c \<in> set (m_aT cs)" and "dom_inv q" for c q
      using 1(1) [OF _ refl refl _ refl that(1)] False that inv
      by (simp add: list_all_iff)
    then have r4: "dom_inv r4 \<and> dom_chars r4 = dom_chars r3 @ concat (map a_encode (map msg_abs (m_aT cs)))"
      unfolding r4_def
      using dom_sink.chunks [OF r3(1), of "m_aT cs" "\<lambda>r c. Encode c r" "\<lambda>c. a_encode (msg_abs c)"]
      by (simp add: o_def)
    have "Encode (Message n t as cs) result =
        dom_append_char (dom_append (dom_append_char (dom_append_char r4 chOpenAngle) chForwardSlash) n) chCloseAngle"
      using False by (auto simp: r Let_def)
    then show ?thesis
      using inv r3 r4 False
      by (auto simp: inv_intros chars_simps ch_defs dom_chars_Nil GetSize_def)
  qed
qed

section \<open>Building a message\<close>

lemma copy_attribute_spec:
  "attr_inv a \<Longrightarrow> attr_inv (copy_attribute a) \<and> attr_abs (copy_attribute a) = attr_abs a"
  by (cases a) (simp add: copy_attribute_def inv_intros chars_simps)

lemma copy_message_spec:
  "msg_inv m \<Longrightarrow> msg_inv (copy_message m) \<and> msg_abs (copy_message m) = msg_abs m"
proof (induction m rule: copy_message.induct)
  case (1 n t as cs)
  then show ?case
    by (auto simp: inv_intros chars_simps copy_attribute_spec list_all_iff)
qed

lemma Message_named_spec:
  "dom_inv n \<Longrightarrow> msg_inv (Message_named n) \<and> msg_abs (Message_named n) = AMsg (dom_chars n) [] [] []"
  by (simp add: Message_named_def inv_intros chars_simps)

lemma Message_default_spec: "msg_inv Message_default \<and> msg_abs Message_default = AMsg [] [] [] []"
  by (simp add: Message_default_def inv_intros chars_simps)

lemma SetText_spec:
  "msg_inv m \<Longrightarrow> dom_inv t \<Longrightarrow> msg_inv (SetText m t) \<and>
   msg_abs (SetText m t) = AMsg (aname (msg_abs m)) (dom_chars t) (aattrs (msg_abs m)) (achildren (msg_abs m))"
  by (cases m) (simp add: inv_intros chars_simps)

lemma AddAttribute_spec:
  "msg_inv m \<Longrightarrow> dom_inv n \<Longrightarrow> dom_inv v \<Longrightarrow> msg_inv (AddAttribute m n v) \<and>
   msg_abs (AddAttribute m n v) = AMsg (aname (msg_abs m)) (atext (msg_abs m))
     (aattrs (msg_abs m) @ [(dom_chars n, dom_chars v)]) (achildren (msg_abs m))"
  by (cases m) (simp add: Attribute_ctor_def copy_attribute_def inv_intros chars_simps)

definition add_achildren :: "'c amsg \<Rightarrow> 'c amsg list \<Rightarrow> 'c amsg" where
  "add_achildren m cs = AMsg (aname m) (atext m) (aattrs m) (achildren m @ cs)"

lemma add_achildren_append [simp]:
  "add_achildren (add_achildren m cs) ds = add_achildren m (cs @ ds)"
  by (simp add: add_achildren_def)

lemma AddChild_spec:
  "msg_inv m \<Longrightarrow> msg_inv c \<Longrightarrow> msg_inv (AddChild m c) \<and>
   msg_abs (AddChild m c) = add_achildren (msg_abs m) [msg_abs c]"
  by (cases m) (simp add: copy_message_spec inv_intros add_achildren_def)

lemma AddText_spec:
  "msg_inv m \<Longrightarrow> dom_inv t \<Longrightarrow> msg_inv (AddText m t) \<and>
   msg_abs (AddText m t) = add_achildren (msg_abs m) [AMsg [] (dom_chars t) [] []]"
  using copy_message_spec [of "SetText Message_default t"] SetText_spec [of Message_default t]
  by (cases m) (simp add: Message_default_spec inv_intros add_achildren_def)

section \<open>Queries\<close>

text \<open>The text of a message: its own and that of the children that are text nodes.\<close>

fun a_text :: "'c amsg \<Rightarrow> 'c list" where
  "a_text (AMsg n t as cs) = t @ concat (map (\<lambda>c. if aname c = [] then a_text c else []) cs)"

lemma aname_msg_abs: "msg_inv m \<Longrightarrow> aname (msg_abs m) = [] \<longleftrightarrow> dlen (m_elementName m) = 0"
  by (cases m) (simp add: dom_chars_Nil)

lemma GetTextInternal_spec:
  "msg_inv m \<Longrightarrow> dom_inv v \<Longrightarrow> dom_inv (GetTextInternal m v) \<and>
   dom_chars (GetTextInternal m v) = dom_chars v @ a_text (msg_abs m)"
proof (induction m v rule: GetTextInternal.induct)
  case (1 n t as cs v)
  let ?f = "\<lambda>v c. if dlen (m_elementName c) = 0 then GetTextInternal c v else v"
  let ?g = "\<lambda>c. if aname (msg_abs c) = [] then a_text (msg_abs c) else []"
  have inv: "dom_inv (dom_append v t)" "list_all msg_inv (m_aT cs)"
    using 1 by (simp_all add: inv_intros)
  have "dom_inv (?f q c) \<and> dom_chars (?f q c) = dom_chars q @ ?g c"
    if "c \<in> set (m_aT cs)" and "dom_inv q" for c q
    using "1.IH" [OF that(1)] that inv by (auto simp: list_all_iff aname_msg_abs)
  then show ?case
    using dom_sink.chunks [OF inv(1), of "m_aT cs" ?f ?g] "1.prems"
    by (simp add: chars_simps o_def)
qed

lemma GetText_spec: "msg_inv m \<Longrightarrow> dom_chars (GetText m) = a_text (msg_abs m)"
  using GetTextInternal_spec [of m DOMString_empty]
  by (simp add: GetText_def inv_intros chars_simps)

text \<open>The attribute search runs from the last attribute to the first.\<close>

lemma GetAttributeByName_loop_spec:
  "list_all attr_inv as \<Longrightarrow> dom_inv name \<Longrightarrow> i \<le> length as \<Longrightarrow>
   map_option dom_chars (GetAttributeByName_loop as i name) =
     map_of (rev (map attr_abs (take i as))) (dom_chars name)"
proof (induction i)
  case (Suc i)
  obtain k v where a: "as ! i = Attribute k v" by (cases "as ! i")
  then have "dom_inv k" "dom_inv v"
    using Suc.prems(1,3) unfolding list_all_length by (auto dest!: spec [of _ i])
  then show ?case
    using Suc a by (auto simp: take_Suc_conv_app_nth elim!: dom_inv_obtain)
qed simp

lemma GetAttributeByName_spec:
  assumes "msg_inv m" and "dom_inv name"
  shows "map_option dom_chars (GetAttributeByName m name) =
    map_of (rev (aattrs (msg_abs m))) (dom_chars name)"
  using assms by (cases m) (simp add: GetAttributeByName_def GetSize_def GetAttributeByName_loop_spec)

text \<open>Enumerating the children visits the elements, in order.\<close>

function visit_children :: "message \<Rightarrow> nat \<Rightarrow> message list" where
  "visit_children m e = (case GetNextChild m e of
     None \<Rightarrow> []
   | Some (c, e') \<Rightarrow> c # visit_children m e')"
  by pat_completeness auto

lemma next_element_bounds: "next_element cs i = Some j \<Longrightarrow> i \<le> j \<and> j < i + length cs"
  by (induction cs i rule: next_element.induct) (fastforce split: if_splits)+

lemma GetNextChild_advances:
  "GetNextChild m e = Some (c, e') \<Longrightarrow> e < e' \<and> e' \<le> GetSize (m_children m) \<and> e < GetSize (m_children m)"
  by (auto simp: GetNextChild_def GetSize_def split: if_splits option.splits dest: next_element_bounds)

termination visit_children
  by (relation "measure (\<lambda>(m, e). GetSize (m_children m) - e)")
    (auto dest!: GetNextChild_advances)

declare visit_children.simps [simp del]

lemma next_element_None: "next_element cs i = None \<longleftrightarrow> filter (\<lambda>c. dlen (m_elementName c) \<noteq> 0) cs = []"
  by (induction cs i rule: next_element.induct) auto

lemma next_element_Some:
  "next_element cs i = Some j \<Longrightarrow>
   filter (\<lambda>c. dlen (m_elementName c) \<noteq> 0) cs = filter (\<lambda>c. dlen (m_elementName c) \<noteq> 0) (drop (j - i) cs)
   \<and> dlen (m_elementName (cs ! (j - i))) \<noteq> 0"
proof (induction cs i rule: next_element.induct)
  case (2 c cs i)
  then show ?case
    using next_element_bounds [of cs "i + 1" j]
    by (cases "dlen (m_elementName c) \<noteq> 0") (auto simp: Suc_diff_le drop_Cons' nth_Cons')
qed simp

lemma visit_children_from:
  assumes "e < GetSize (m_children m)" and "dlen (m_elementName (m_aT (m_children m) ! e)) \<noteq> 0"
  shows "visit_children m e =
    filter (\<lambda>c. dlen (m_elementName c) \<noteq> 0) (drop e (m_aT (m_children m)))"
  using assms
proof (induction "GetSize (m_children m) - e" arbitrary: e rule: less_induct)
  case less
  let ?cs = "m_aT (m_children m)" and ?P = "\<lambda>c. dlen (m_elementName c) \<noteq> 0"
  have drop: "drop e ?cs = ?cs ! e # drop (e + 1) ?cs"
    using less.prems(1) by (simp add: GetSize_def Cons_nth_drop_Suc)
  show ?case
  proof (cases "next_element (drop (e + 1) ?cs) (e + 1)")
    case None
    then have "GetNextChild m e = Some (?cs ! e, GetSize (m_children m))"
      using less.prems by (simp add: GetNextChild_def)
    then have "visit_children m e = [?cs ! e]"
      by (subst visit_children.simps) (simp add: visit_children.simps [of m "GetSize _"] GetNextChild_def)
    then show ?thesis using None less.prems by (simp add: drop next_element_None)
  next
    case (Some j)
    have j: "e + 1 \<le> j" "j < GetSize (m_children m)"
      using next_element_bounds [OF Some] less.prems(1) by (auto simp: GetSize_def)
    have "GetNextChild m e = Some (?cs ! e, j)"
      using less.prems Some by (simp add: GetNextChild_def)
    then have "visit_children m e = ?cs ! e # visit_children m j"
      by (subst visit_children.simps) simp
    moreover have "filter ?P (drop (e + 1) ?cs) = filter ?P (drop j ?cs)" "?P (?cs ! j)"
      using next_element_Some [OF Some] j by (auto simp: GetSize_def)
    ultimately show ?thesis
      using less.hyps [of j] less.prems j by (simp add: drop)
  qed
qed

lemma enumeration_spec:
  "(case EnumerateChildren m of None \<Rightarrow> [] | Some e \<Rightarrow> visit_children m e) =
   filter (\<lambda>c. dlen (m_elementName c) \<noteq> 0) (m_aT (m_children m))"
proof (cases "EnumerateChildren m")
  case None
  then show ?thesis
    using next_element_None [of "m_aT (m_children m)" 0] by (simp add: EnumerateChildren_def)
next
  case (Some e)
  then have n: "next_element (m_aT (m_children m)) 0 = Some e" by (simp add: EnumerateChildren_def)
  then show ?thesis
    using next_element_Some [OF n] next_element_bounds [OF n] Some
    by (simp add: visit_children_from GetSize_def)
qed

section \<open>Properties\<close>

text \<open>C11: The encoder writes the abstract encoding: on a well-formed message, whatever it holds
  and however its arrays were grown, \<^verbatim>\<open>Message::Encode\<close> appends to the buffer exactly the tags,
  the attributes in order, the escaped text and the children of the message tree, and keeps the
  buffer terminated.\<close>

theorem encode_refines:
  assumes "msg_inv m" "dom_inv r"
  shows "dom_inv (Encode m r) \<and> dom_chars (Encode m r) = dom_chars r @ a_encode (msg_abs m)"
  by (rule Encode_spec [OF assms])


theorem encode_refines_witness:
  "dom_chars (Encode (AddText (Message_named (dom_of (xmls ''a''))) (dom_of (xmls ''<''))) DOMString_empty) =
     xmls ''<a>&lt;</a>''"
proof -
  define m where "m = AddText (Message_named (dom_of (xmls ''a''))) (dom_of (xmls ''<''))"
  have m: "msg_inv m" "msg_abs m = AMsg (xmls ''a'') [] [] [AMsg [] (xmls ''<'') [] []]"
    using AddText_spec [of "Message_named (dom_of (xmls ''a''))" "dom_of (xmls ''<'')"]
      Message_named_spec [of "dom_of (xmls ''a'')"] by (simp_all add: m_def add_achildren_def)
  show ?thesis
    using encode_refines [OF m(1), of DOMString_empty] unfolding m_def [symmetric]
    by (simp add: m(2) esc_def esc_char_def inv_intros chars_simps)
qed

text \<open>C13: The operations that build a message keep it well formed and do what their names say:
  \<^verbatim>\<open>SetText\<close> replaces the text, \<^verbatim>\<open>AddAttribute\<close>, \<^verbatim>\<open>AddChild\<close> and \<^verbatim>\<open>AddText\<close> append, in order,
  an attribute, a deep copy of a child and a nameless text child, and copying a message gives an
  equal one.\<close>

theorem building_refines:
  assumes "msg_inv m" "msg_inv c" "dom_inv n" "dom_inv v"
  shows "msg_inv (copy_message m) \<and> msg_abs (copy_message m) = msg_abs m \<and>
    (case msg_abs m of AMsg tag txt as cs \<Rightarrow>
       msg_inv (SetText m v) \<and> msg_abs (SetText m v) = AMsg tag (dom_chars v) as cs \<and>
       msg_inv (AddAttribute m n v) \<and>
       msg_abs (AddAttribute m n v) = AMsg tag txt (as @ [(dom_chars n, dom_chars v)]) cs \<and>
       msg_inv (AddChild m c) \<and> msg_abs (AddChild m c) = AMsg tag txt as (cs @ [msg_abs c]) \<and>
       msg_inv (AddText m v) \<and>
       msg_abs (AddText m v) = AMsg tag txt as (cs @ [AMsg [] (dom_chars v) [] []]))"
  using copy_message_spec [OF assms(1)] SetText_spec [OF assms(1,4)]
    AddAttribute_spec [OF assms(1,3,4)] AddChild_spec [OF assms(1,2)] AddText_spec [OF assms(1,4)]
  by (cases "msg_abs m") (simp add: add_achildren_def)

theorem building_refines_witness:
  "msg_abs (AddChild Message_default Message_default) = AMsg [] [] [] [AMsg [] [] [] []]"
  using building_refines [of Message_default Message_default DOMString_empty DOMString_empty]
    Message_default_spec by (simp add: inv_intros)

text \<open>The queries read the message tree: \<^verbatim>\<open>GetText\<close> is the message's own text followed by the
  text of its nameless children, in order; \<^verbatim>\<open>GetAttributeByName\<close> is the value of the last
  attribute of that name, if there is one; \<^verbatim>\<open>EnumerateChildren\<close> and \<^verbatim>\<open>GetNextChild\<close> visit
  exactly the children that are elements, in order.\<close>

theorem queries_refine:
  assumes "msg_inv m" "dom_inv name"
  shows "dom_chars (GetText m) = a_text (msg_abs m) \<and>
    map_option dom_chars (GetAttributeByName m name) = map_of (rev (aattrs (msg_abs m))) (dom_chars name) \<and>
    map msg_abs (case EnumerateChildren m of None \<Rightarrow> [] | Some e \<Rightarrow> visit_children m e) =
      filter (\<lambda>c. aname c \<noteq> []) (achildren (msg_abs m))"
proof -
  have "map msg_abs (filter (\<lambda>c. dlen (m_elementName c) \<noteq> 0) cs) =
      filter (\<lambda>c. aname c \<noteq> []) (map msg_abs cs)" if "list_all msg_inv cs" for cs
    using that by (induction cs) (auto simp: aname_msg_abs)
  then have "map msg_abs (filter (\<lambda>c. dlen (m_elementName c) \<noteq> 0) (m_aT (m_children m))) =
      filter (\<lambda>c. aname c \<noteq> []) (achildren (msg_abs m))"
    using assms(1) by (cases m) simp
  then show ?thesis
    using GetText_spec [OF assms(1)] GetAttributeByName_spec [OF assms]
    by (simp add: enumeration_spec)
qed

theorem queries_refine_witness:
  "dom_chars (GetText (AddText Message_default (dom_of (xmls ''t'')))) = xmls ''t''"
  using queries_refine [of "AddText Message_default (dom_of (xmls ''t''))" DOMString_empty]
    AddText_spec [of Message_default "dom_of (xmls ''t'')"] Message_default_spec
  by (simp add: inv_intros add_achildren_def)

end
