(* ===== verification/Mini_SAX.thy ===== *)
theory Mini_SAX
  imports Mini_XML "HOL-Library.Char_ord" "HOL-Library.List_Lexorder"
begin

text \<open>
  The XML parser of \<^verbatim>\<open>libs/stream_message/src/minisax.cxx\<close>: the attribute list, the
  recursive-descent parser \<^verbatim>\<open>ActualParser\<close> and the callbacks of \<^verbatim>\<open>ConcreteParser\<close>. The
  parser's state is its unread input, the line and column counters, whether a document
  handler and an error handler are registered, and the callbacks made so far, in order
  (the parser never reads anything back from a handler). The branch for ISO headers of the
  conditional compilation is the one modelled. \<^verbatim>\<open>getContent\<close> and \<^verbatim>\<open>getElement\<close> call each
  other; they take fuel, one unit per call and per round of the content loop, and
  \<open>getContent_enough\<close> shows that one unit more than there are unread characters is enough.
\<close>

section \<open>Attribute lists\<close>

text \<open>\<^verbatim>\<open>std::map<string, string*>\<close> as the list of its entries in key order; a null value is
  \<open>None\<close>. The result \<open>None\<close> of an access is a dereferenced end iterator or null pointer.\<close>

type_synonym attrs = "(string \<times> string option) list"

definition to_xml :: "string \<Rightarrow> xmlch list" where
  "to_xml s = map xml_of_char (c_str s) @ [0]"

fun attrs_insert :: "string \<Rightarrow> string option \<Rightarrow> attrs \<Rightarrow> attrs" where
  "attrs_insert k v [] = [(k, v)]"
| "attrs_insert k v ((k', v') # xs) =
     (if k = k' then (k', v') # xs
      else if k < k' then (k, v) # (k', v') # xs
      else (k', v') # attrs_insert k v xs)"

definition getLength :: "attrs \<Rightarrow> nat" where
  "getLength a = length a"

definition getName_at :: "attrs \<Rightarrow> nat \<Rightarrow> xmlch list option" where
  "getName_at a i = (if i < length a then Some (to_xml (fst (a ! i))) else None)"

definition getValue_at :: "attrs \<Rightarrow> nat \<Rightarrow> xmlch list option" where
  "getValue_at a i = (if i < length a then map_option to_xml (snd (a ! i)) else None)"

definition getValue_named :: "attrs \<Rightarrow> xmlch list option \<Rightarrow> xmlch list option option" where
  "getValue_named a name = (case XMLsToChars name of
     None \<Rightarrow> None
   | Some None \<Rightarrow> None
   | Some (Some s) \<Rightarrow> (case map_of a (c_str s) of
       Some (Some v) \<Rightarrow> Some (Some (to_xml v))
     | Some None \<Rightarrow> Some None
     | None \<Rightarrow> Some None))"

section \<open>Parser state and callbacks\<close>

datatype sax_event =
    StartDocument
  | EndDocument
  | StartElement "xmlch list" attrs
  | EndElement "xmlch list"
  | Characters "xmlch list" int
  | SAX_Error string nat nat
  | SAX_FatalError string nat nat

record sax =
  input :: string
  curLine :: nat
  curCol :: nat
  docHandler :: bool
  errorHandler :: bool
  events :: "sax_event list"

definition emit :: "sax_event list \<Rightarrow> sax \<Rightarrow> sax" where
  "emit es s = s\<lparr>events := events s @ es\<rparr>"

definition sax_fatalError :: "string \<Rightarrow> sax \<Rightarrow> sax" where
  "sax_fatalError diagnostic s =
     (if errorHandler s then emit [SAX_FatalError diagnostic (curLine s) (curCol s)] s else s)"

definition sax_error :: "string \<Rightarrow> sax \<Rightarrow> sax" where
  "sax_error diagnostic s =
     (if errorHandler s then emit [SAX_Error diagnostic (curLine s) (curCol s)] s else s)"

definition accountChar :: "char \<Rightarrow> sax \<Rightarrow> sax" where
  "accountChar inch s =
     (if inch = CHR 0x0A then s\<lparr>curLine := curLine s + 1, curCol := 0\<rparr>
      else s\<lparr>curCol := curCol s + 1\<rparr>)"

section \<open>Reading characters\<close>

definition matchChar :: "char \<Rightarrow> sax \<Rightarrow> bool \<times> sax" where
  "matchChar ch s = (case input s of
     [] \<Rightarrow> (False, s)
   | inch # rest \<Rightarrow>
       if inch = ch then (True, accountChar inch (s\<lparr>input := rest\<rparr>)) else (False, s))"

definition atChar :: "char \<Rightarrow> sax \<Rightarrow> bool" where
  "atChar ch s = (case input s of [] \<Rightarrow> False | inch # _ \<Rightarrow> inch = ch)"

definition matchTest :: "(char \<Rightarrow> bool) \<Rightarrow> sax \<Rightarrow> char option \<times> sax" where
  "matchTest test s = (case input s of
     [] \<Rightarrow> (None, s)
   | inch # rest \<Rightarrow>
       if \<not> test inch then (None, s) else (Some inch, accountChar inch (s\<lparr>input := rest\<rparr>)))"

definition isalpha :: "char \<Rightarrow> bool" where
  "isalpha c \<longleftrightarrow> CHR ''A'' \<le> c \<and> c \<le> CHR ''Z'' \<or> CHR ''a'' \<le> c \<and> c \<le> CHR ''z''"

definition isspace :: "char \<Rightarrow> bool" where
  "isspace c \<longleftrightarrow> c = CHR '' '' \<or> c = CHR 0x09 \<or> c = CHR 0x0A \<or> c = CHR 0x0B \<or> c = CHR 0x0C \<or> c = CHR 0x0D"

definition is_name_char :: "char \<Rightarrow> bool" where
  "is_name_char ch \<longleftrightarrow> isalpha ch \<or> ch = CHR ''_''"

definition is_whitespace_char :: "char \<Rightarrow> bool" where
  "is_whitespace_char ch \<longleftrightarrow> isspace ch"

definition is_any_char :: "char \<Rightarrow> bool" where
  "is_any_char ch \<longleftrightarrow> True"

definition getChar :: "sax \<Rightarrow> char option \<times> sax" where
  "getChar s = (case input s of
     [] \<Rightarrow> (None, s)
   | matched # rest \<Rightarrow> (Some matched, accountChar matched (s\<lparr>input := rest\<rparr>)))"

lemma input_accountChar [simp]: "input (accountChar c s) = input s"
  by (simp add: accountChar_def)

lemma input_emit [simp]: "input (emit es s) = input s"
  by (simp add: emit_def)

lemma input_sax_error [simp]: "input (sax_error d s) = input s"
  by (simp add: sax_error_def)

lemma matchTest_consumes: "matchTest t s = (Some c, s') \<Longrightarrow> input s = c # input s'"
  by (auto simp: matchTest_def split: list.splits if_splits)

lemma getChar_consumes: "getChar s = (Some c, s') \<Longrightarrow> input s = c # input s'"
  by (auto simp: getChar_def split: list.splits if_splits)

lemma matchChar_True: "matchChar c s = (True, s') \<Longrightarrow> input s = c # input s'"
  by (auto simp: matchChar_def split: list.splits if_splits)

lemma matchChar_False: "matchChar c s = (False, s') \<Longrightarrow> s' = s"
  by (auto simp: matchChar_def split: list.splits if_splits)

lemma matchTest_None: "matchTest t s = (None, s') \<Longrightarrow> s' = s"
  by (auto simp: matchTest_def split: list.splits if_splits)

lemma getChar_None: "getChar s = (None, s') \<Longrightarrow> s' = s \<and> input s = []"
  by (auto simp: getChar_def split: list.splits if_splits)

section \<open>Names, values, whitespace\<close>

function getName_loop :: "string \<Rightarrow> sax \<Rightarrow> string \<times> sax" where
  "getName_loop nm s = (case matchTest is_name_char s of
     (None, s') \<Rightarrow> (nm, s')
   | (Some ch, s') \<Rightarrow> getName_loop (nm @ [ch]) s')"
  by pat_completeness auto
termination
  by (relation "measure (\<lambda>(nm, s). length (input s))") (auto dest!: matchTest_consumes [OF sym])

definition getName :: "sax \<Rightarrow> string option \<times> sax" where
  "getName s = (case matchTest is_name_char s of
     (None, s') \<Rightarrow> (None, s')
   | (Some ch, s') \<Rightarrow> (let (nm, s'') = getName_loop [ch] s' in (Some nm, s'')))"

function getQuotedValue_loop :: "string \<Rightarrow> sax \<Rightarrow> string option \<times> sax" where
  "getQuotedValue_loop val s = (case matchTest is_any_char s of
     (None, s') \<Rightarrow> (None, sax_error ''bad quoted attribute value'' s')
   | (Some ch, s') \<Rightarrow>
       if ch = CHR 0x22 then (Some val, s') else getQuotedValue_loop (val @ [ch]) s')"
  by pat_completeness auto
termination
  by (relation "measure (\<lambda>(val, s). length (input s))") (auto dest!: matchTest_consumes [OF sym])

definition getQuotedValue :: "sax \<Rightarrow> string option \<times> sax" where
  "getQuotedValue s = (case matchChar CHR 0x22 s of
     (False, s') \<Rightarrow> (None, s')
   | (True, s') \<Rightarrow> getQuotedValue_loop [] s')"

function skipWhitespace :: "sax \<Rightarrow> sax" where
  "skipWhitespace s = (case matchTest is_whitespace_char s of
     (None, s') \<Rightarrow> s'
   | (Some _, s') \<Rightarrow> skipWhitespace s')"
  by pat_completeness auto
termination
  by (relation "measure (\<lambda>s. length (input s))") (auto dest!: matchTest_consumes [OF sym])

function recoverFromGarbledTag :: "sax \<Rightarrow> sax" where
  "recoverFromGarbledTag s = (case getChar s of
     (None, s') \<Rightarrow> s'
   | (Some ch, s') \<Rightarrow>
       if ch = CHR ''>'' \<or> ch = CHR 0x0A then s' else recoverFromGarbledTag s')"
  by pat_completeness auto
termination
  by (relation "measure (\<lambda>s. length (input s))") (auto dest!: getChar_consumes [OF sym])

declare getName_loop.simps [simp del] getQuotedValue_loop.simps [simp del]
  skipWhitespace.simps [simp del] recoverFromGarbledTag.simps [simp del]

section \<open>Entities\<close>

text \<open>The end of a list is the terminating NUL of the C string: it matches nothing.\<close>

fun entity_match :: "string \<Rightarrow> string \<Rightarrow> bool" where
  "entity_match p [] = (case p of c # _ \<Rightarrow> c = CHR '';'' | [] \<Rightarrow> False)"
| "entity_match p (n # name) = (case p of c # p' \<Rightarrow> c = n \<and> entity_match p' name | [] \<Rightarrow> False)"

fun substitute_entities :: "string \<Rightarrow> string" where
  "substitute_entities [] = []"
| "substitute_entities (ch # p) =
     (if ch = CHR ''&'' then
        if entity_match p ''quot'' then CHR 0x22 # substitute_entities (drop 5 p)
        else if entity_match p ''amp'' then CHR ''&'' # substitute_entities (drop 4 p)
        else if entity_match p ''lt'' then CHR ''<'' # substitute_entities (drop 3 p)
        else if entity_match p ''gt'' then CHR ''>'' # substitute_entities (drop 3 p)
        else ch # substitute_entities p
      else ch # substitute_entities p)"

section \<open>Consumption\<close>

text \<open>The unread input after a parsing function is a suffix of the input before it.\<close>

definition shrinks :: "sax \<Rightarrow> sax \<Rightarrow> bool" where
  "shrinks s s' \<longleftrightarrow> length (input s') \<le> length (input s)"

lemma getName_loop_shrinks: "getName_loop nm s = (nm', s') \<Longrightarrow> length (input s') \<le> length (input s)"
proof (induction nm s rule: getName_loop.induct)
  case (1 nm s)
  then show ?case
    by (subst (asm) getName_loop.simps)
      (auto split: prod.splits option.splits dest!: matchTest_consumes matchTest_None)
qed

lemma getName_Some: "getName s = (Some nm, s') \<Longrightarrow> length (input s') < length (input s)"
  by (auto simp: getName_def split: prod.splits option.splits
      dest!: matchTest_consumes getName_loop_shrinks)

lemma getName_None: "getName s = (None, s') \<Longrightarrow> s' = s"
  by (auto simp: getName_def split: prod.splits option.splits dest: matchTest_None)

lemma getQuotedValue_loop_shrinks:
  "getQuotedValue_loop v s = (r, s') \<Longrightarrow> length (input s') \<le> length (input s)"
proof (induction v s rule: getQuotedValue_loop.induct)
  case (1 v s)
  then show ?case
    by (subst (asm) getQuotedValue_loop.simps)
      (auto split: prod.splits option.splits if_splits dest!: matchTest_consumes matchTest_None)
qed

lemma getQuotedValue_shrinks: "getQuotedValue s = (r, s') \<Longrightarrow> length (input s') \<le> length (input s)"
  by (auto simp: getQuotedValue_def split: prod.splits bool.splits
      dest!: getQuotedValue_loop_shrinks matchChar_True matchChar_False)

lemma skipWhitespace_cases:
  "skipWhitespace s = s \<or> (\<exists>c s'. matchTest is_whitespace_char s = (Some c, s') \<and>
     skipWhitespace s = skipWhitespace s')"
  using skipWhitespace.simps [of s]
  by (auto split: prod.splits option.splits dest: matchTest_None)

lemma skipWhitespace_shrinks: "length (input (skipWhitespace s)) \<le> length (input s)"
proof (induction "length (input s)" arbitrary: s rule: less_induct)
  case less
  then show ?case
    using skipWhitespace_cases [of s] by (fastforce dest: matchTest_consumes)
qed

lemma recoverFromGarbledTag_cases:
  "recoverFromGarbledTag s = s \<or> (\<exists>c s'. getChar s = (Some c, s') \<and>
     recoverFromGarbledTag s \<in> {s', recoverFromGarbledTag s'})"
  using recoverFromGarbledTag.simps [of s]
  by (auto split: prod.splits option.splits if_splits dest: getChar_None)

lemma recoverFromGarbledTag_shrinks: "length (input (recoverFromGarbledTag s)) \<le> length (input s)"
proof (induction "length (input s)" arbitrary: s rule: less_induct)
  case less
  then show ?case
    using recoverFromGarbledTag_cases [of s] by (fastforce dest: getChar_consumes)
qed

lemma getName_skip_Some:
  "getName (skipWhitespace s) = (Some nm, s') \<Longrightarrow> length (input s') < length (input s)"
  by (meson getName_Some less_le_trans skipWhitespace_shrinks)

lemma getName_skip_None:
  "getName (skipWhitespace s) = (None, s') \<Longrightarrow> length (input s') \<le> length (input s)"
  by (metis getName_None skipWhitespace_shrinks)

lemma matchChar_skip:
  "matchChar c (skipWhitespace s) = (b, s') \<Longrightarrow> length (input s') \<le> length (input s)"
  using skipWhitespace_shrinks [of s]
  by (cases b) (auto dest!: matchChar_True matchChar_False)

lemma getQuotedValue_skip:
  "getQuotedValue (skipWhitespace s) = (r, s') \<Longrightarrow> length (input s') \<le> length (input s)"
  by (meson getQuotedValue_shrinks le_trans skipWhitespace_shrinks)

lemmas skip_dests = getName_skip_Some getName_skip_None matchChar_skip getQuotedValue_skip
  getChar_consumes

section \<open>The attributes of a start tag\<close>

function getAttrs_loop :: "bool \<Rightarrow> attrs \<Rightarrow> sax \<Rightarrow> attrs \<times> sax" where
  "getAttrs_loop garbled as s =
     (case getName (skipWhitespace s) of
        (Some attr_name, s2) \<Rightarrow>
          (case matchChar CHR ''='' (skipWhitespace s2) of
             (True, s4) \<Rightarrow>
               (case getQuotedValue (skipWhitespace s4) of
                  (Some attr_value, s6) \<Rightarrow>
                    getAttrs_loop garbled
                      (attrs_insert attr_name (Some (substitute_entities attr_value)) as) s6
                | (None, s6) \<Rightarrow>
                    getAttrs_loop garbled (attrs_insert attr_name (Some (substitute_entities [])) as)
                      (sax_error (''bad attribute '' @ attr_name) s6))
           | (False, s4) \<Rightarrow> getAttrs_loop garbled (attrs_insert attr_name None as) s4)
      | (None, s2) \<Rightarrow>
          if atChar CHR ''>'' s2 \<or> atChar CHR ''/'' s2
          then (as, if garbled then sax_error ''bad tag'' s2 else s2)
          else (case getChar s2 of
             (None, s3) \<Rightarrow> (as, sax_error ''bad tag'' s3)
           | (Some ch, s3) \<Rightarrow> getAttrs_loop True as s3))"
  by pat_completeness auto
termination
  by (relation "measure (\<lambda>(g, as, s). length (input s))") (auto dest!: skip_dests [OF sym])

declare getAttrs_loop.simps [simp del]

lemma getAttrs_loop_shrinks:
  "getAttrs_loop g as s = (as', s') \<Longrightarrow> length (input s') \<le> length (input s)"
proof (induction "length (input s)" arbitrary: g as s as' s' rule: less_induct)
  case less
  have IH: "getAttrs_loop g as t = (as', s') \<Longrightarrow> length (input t) < length (input s) \<longrightarrow>
      length (input s') \<le> length (input t)" for g as t as' s'
    using less.hyps by blast
  show ?case
    using less.prems
    by (subst (asm) getAttrs_loop.simps)
      (auto split: prod.splits option.splits if_splits bool.splits
        dest!: IH skip_dests getChar_None)
qed

section \<open>Tags that are skipped\<close>

text \<open>A comment (the two hyphens of its start are read), up to the closing sequence.\<close>

function skipComment :: "nat \<Rightarrow> sax \<Rightarrow> sax" where
  "skipComment hyphen_count s = (case getChar s of
     (None, s') \<Rightarrow> sax_error ''bad comment'' s'
   | (Some ch, s') \<Rightarrow>
       if hyphen_count \<ge> 2 \<and> ch = CHR ''>'' then s'
       else skipComment (if ch = CHR ''-'' then hyphen_count + 1 else 0) s')"
  by pat_completeness auto
termination
  by (relation "measure (\<lambda>(n, s). length (input s))") (auto dest!: getChar_consumes [OF sym])

text \<open>The rest of a DOCTYPE tag: the letters of the keyword, then everything up to the
  closing angle.\<close>

fun matchDoctype :: "string \<Rightarrow> sax \<Rightarrow> sax" where
  "matchDoctype [] s = s"
| "matchDoctype (t # tagname) s = (case getChar s of
     (None, s') \<Rightarrow> sax_error ''bad tag'' s'
   | (Some ch, s') \<Rightarrow>
       if t = ch then matchDoctype tagname s'
       else recoverFromGarbledTag (sax_error ''bad tag'' s'))"

function skipToAngle :: "sax \<Rightarrow> sax" where
  "skipToAngle s = (case getChar s of
     (None, s') \<Rightarrow> sax_error ''bad tag'' s'
   | (Some ch, s') \<Rightarrow> if CHR ''>'' = ch then s' else skipToAngle s')"
  by pat_completeness auto
termination
  by (relation "measure (\<lambda>s. length (input s))") (auto dest!: getChar_consumes [OF sym])

function skipXmlHeader :: "bool \<Rightarrow> sax \<Rightarrow> sax" where
  "skipXmlHeader questionmark s = (case getChar s of
     (None, s') \<Rightarrow> sax_error ''bad tag'' s'
   | (Some ch, s') \<Rightarrow>
       if questionmark \<and> CHR ''>'' = ch then s' else skipXmlHeader (CHR ''?'' = ch) s')"
  by pat_completeness auto
termination
  by (relation "measure (\<lambda>(q, s). length (input s))") (auto dest!: getChar_consumes [OF sym])

declare skipComment.simps [simp del] skipToAngle.simps [simp del] skipXmlHeader.simps [simp del]

definition getDeclaration :: "sax \<Rightarrow> sax" where
  "getDeclaration s = (case matchChar CHR ''-'' s of
     (True, s1) \<Rightarrow> (case matchChar CHR ''-'' s1 of
         (True, s2) \<Rightarrow> skipComment 0 s2
       | (False, s2) \<Rightarrow> recoverFromGarbledTag (sax_error ''bad tag'' s2))
   | (False, s1) \<Rightarrow> (case matchChar CHR ''D'' s1 of
         (True, s2) \<Rightarrow> skipToAngle (matchDoctype ''OCTYPE'' s2)
       | (False, s2) \<Rightarrow> recoverFromGarbledTag (sax_error ''bad tag'' s2)))"

definition getEndTag :: "string \<Rightarrow> sax \<Rightarrow> sax" where
  "getEndTag containing_tag s = (case getName (skipWhitespace s) of
     (Some tag, s1) \<Rightarrow>
       (let s2 = (if tag \<noteq> containing_tag then sax_error ''unmatching end tag'' s1 else s1)
        in case matchChar CHR ''>'' (skipWhitespace s2) of
             (True, s3) \<Rightarrow> s3
           | (False, s3) \<Rightarrow> recoverFromGarbledTag (sax_error ''bad end tag'' s3))
   | (None, s1) \<Rightarrow> sax_error ''bad end tag'' s1)"

section \<open>Callbacks of the concrete parser\<close>

definition noteContent :: "string \<Rightarrow> sax \<Rightarrow> sax" where
  "noteContent str s =
     (let strm = substitute_entities (c_str str)
      in if docHandler s
         then emit [Characters (to_xml strm) (int (length (c_str strm)))] s else s)"

definition noteStartElement :: "string \<Rightarrow> attrs \<Rightarrow> sax \<Rightarrow> sax" where
  "noteStartElement tag_name as s =
     (if docHandler s then emit [StartElement (to_xml tag_name) as] s else s)"

definition noteEndElement :: "string \<Rightarrow> sax \<Rightarrow> sax" where
  "noteEndElement tag_name s =
     (if docHandler s then emit [EndElement (to_xml tag_name)] s else s)"

definition noteBeginFile :: "sax \<Rightarrow> sax" where
  "noteBeginFile s = (if docHandler s then emit [StartDocument] s else s)"

definition noteEndFile :: "sax \<Rightarrow> sax" where
  "noteEndFile s = (if docHandler s then emit [EndDocument] s else s)"

lemma input_notes [simp]:
  "input (noteContent str s) = input s"
  "input (noteStartElement tag as s) = input s"
  "input (noteEndElement tag s) = input s"
  "input (noteBeginFile s) = input s"
  "input (noteEndFile s) = input s"
  by (simp_all add: noteContent_def noteStartElement_def noteEndElement_def noteBeginFile_def
      noteEndFile_def Let_def)

section \<open>Content and elements\<close>

fun getContent :: "nat \<Rightarrow> string option \<Rightarrow> string \<Rightarrow> sax \<Rightarrow> sax option"
  and getElement :: "nat \<Rightarrow> sax \<Rightarrow> sax option" where
  "getContent 0 containing_tag chars s = None"
| "getContent (Suc fuel) containing_tag chars s =
     (case getChar s of
        (None, s1) \<Rightarrow>
          Some (noteContent chars
            (if containing_tag \<noteq> None then sax_error ''unmatching start tag'' s1 else s1))
      | (Some ch, s1) \<Rightarrow>
          if ch = CHR ''<'' then
            (let s2 = noteContent chars s1
             in case (case containing_tag of None \<Rightarrow> (False, s2) | Some _ \<Rightarrow> matchChar CHR ''/'' s2) of
                  (True, s3) \<Rightarrow> Some (noteContent [] (getEndTag (the containing_tag) s3))
                | (False, s3) \<Rightarrow> (case matchChar CHR ''!'' s3 of
                      (True, s4) \<Rightarrow> getContent fuel containing_tag [] (getDeclaration s4)
                    | (False, s4) \<Rightarrow> (case matchChar CHR ''?'' s4 of
                          (True, s5) \<Rightarrow> getContent fuel containing_tag [] (skipXmlHeader False s5)
                        | (False, s5) \<Rightarrow> (case getElement fuel s5 of
                              None \<Rightarrow> None
                            | Some s6 \<Rightarrow> getContent fuel containing_tag [] s6))))
          else getContent fuel containing_tag (chars @ [ch]) s1)"
| "getElement 0 s = None"
| "getElement (Suc fuel) s = (case matchChar CHR ''/'' s of
     (True, s1) \<Rightarrow> Some (recoverFromGarbledTag (sax_error ''unmatching end tag'' s1))
   | (False, s1) \<Rightarrow> (case getName (skipWhitespace s1) of
       (Some tag, s2) \<Rightarrow>
         (let (as, s3) = getAttrs_loop False [] s2;
              (ch, s4) = getChar s3;
              is_end = (ch = Some CHR ''/'');
              (ch', s5) = (if is_end then getChar s4 else (ch, s4))
          in if ch' = Some CHR ''>'' then
               (let s6 = noteStartElement tag as s5
                in map_option (noteEndElement tag)
                     (if is_end then Some s6 else getContent fuel (Some tag) [] s6))
             else Some (recoverFromGarbledTag (sax_error ''bad tag'' s5)))
     | (None, s2) \<Rightarrow> Some (recoverFromGarbledTag (sax_error ''bad tag'' s2))))"

definition getFile :: "sax \<Rightarrow> sax option" where
  "getFile s = map_option noteEndFile
     (getContent (Suc (length (input s))) None [] (noteBeginFile s))"

definition sax_init :: "bool \<Rightarrow> bool \<Rightarrow> sax" where
  "sax_init doc err = \<lparr>input = [], curLine = 0, curCol = 0, docHandler = doc, errorHandler = err, events = []\<rparr>"

definition parse_buffer :: "bool \<Rightarrow> bool \<Rightarrow> string \<Rightarrow> sax option" where
  "parse_buffer doc err bufPtr =
     getFile ((sax_init doc err)\<lparr>input := bufPtr, curLine := 1, curCol := 0\<rparr>)"

text \<open>The variant that reads a file: \<open>fs\<close> gives the contents of the files that can be opened.\<close>

definition parse_file :: "(string \<Rightarrow> string option) \<Rightarrow> bool \<Rightarrow> bool \<Rightarrow> string \<Rightarrow> sax option" where
  "parse_file fs doc err config_file = (case fs config_file of
     None \<Rightarrow> Some (sax_fatalError (''file '' @ config_file @ '' failed to open'')
       ((sax_init doc err)\<lparr>curLine := 0, curCol := 0\<rparr>))
   | Some contents \<Rightarrow>
       getFile ((sax_init doc err)\<lparr>input := contents, curLine := 1, curCol := 0\<rparr>))"

section \<open>Fuel\<close>

lemma skipComment_cases:
  obtains (eof) "getChar s = (None, s)" "skipComment n s = sax_error ''bad comment'' s"
  | (stop) c s' where "getChar s = (Some c, s')" "skipComment n s = s'"
  | (more) c s' k where "getChar s = (Some c, s')" "skipComment n s = skipComment k s'"
  using skipComment.simps [of n s]
  by (auto split: prod.splits option.splits if_splits dest: getChar_None)

lemma skipComment_shrinks: "length (input (skipComment n s)) \<le> length (input s)"
proof (induction "length (input s)" arbitrary: n s rule: less_induct)
  case less
  show ?case
  proof (cases rule: skipComment_cases [of s n])
    case (more c s' k)
    then show ?thesis
      using less.hyps [of s' k] by (auto dest!: getChar_consumes)
  qed (auto dest!: getChar_consumes)
qed

lemma skipToAngle_cases:
  obtains (eof) "getChar s = (None, s)" "skipToAngle s = sax_error ''bad tag'' s"
  | (stop) c s' where "getChar s = (Some c, s')" "skipToAngle s = s'"
  | (more) c s' where "getChar s = (Some c, s')" "skipToAngle s = skipToAngle s'"
  using skipToAngle.simps [of s]
  by (auto split: prod.splits option.splits if_splits dest: getChar_None)

lemma skipToAngle_shrinks: "length (input (skipToAngle s)) \<le> length (input s)"
proof (induction "length (input s)" arbitrary: s rule: less_induct)
  case less
  show ?case
    by (rule skipToAngle_cases [of s]) (use less in \<open>fastforce dest!: getChar_consumes\<close>)+
qed

lemma skipXmlHeader_cases:
  obtains (eof) "getChar s = (None, s)" "skipXmlHeader q s = sax_error ''bad tag'' s"
  | (stop) c s' where "getChar s = (Some c, s')" "skipXmlHeader q s = s'"
  | (more) c s' k where "getChar s = (Some c, s')" "skipXmlHeader q s = skipXmlHeader k s'"
  using skipXmlHeader.simps [of q s]
  by (auto split: prod.splits option.splits if_splits dest: getChar_None)

lemma skipXmlHeader_shrinks: "length (input (skipXmlHeader q s)) \<le> length (input s)"
proof (induction "length (input s)" arbitrary: q s rule: less_induct)
  case less
  show ?case
  proof (cases rule: skipXmlHeader_cases [of s q])
    case (more c s' k)
    then show ?thesis
      using less.hyps [of s' k] by (auto dest!: getChar_consumes)
  qed (auto dest!: getChar_consumes)
qed

lemmas shrink_intros =
  le_trans [OF recoverFromGarbledTag_shrinks] le_trans [OF skipToAngle_shrinks]
  le_trans [OF skipComment_shrinks] le_trans [OF skipXmlHeader_shrinks]

lemma matchDoctype_shrinks: "length (input (matchDoctype t s)) \<le> length (input s)"
proof (induction t arbitrary: s)
  case (Cons c t)
  show ?case
    by (auto split: prod.splits option.splits dest!: getChar_None getChar_consumes
        intro!: le_SucI [OF Cons.IH] shrink_intros)
qed simp

lemma getDeclaration_shrinks: "length (input (getDeclaration s)) \<le> length (input s)"
  by (auto simp: getDeclaration_def simp del: matchDoctype.simps split: prod.splits bool.splits
      dest!: matchChar_True matchChar_False
      intro!: shrink_intros le_SucI le_trans [OF matchDoctype_shrinks])

lemma getEndTag_shrinks: "length (input (getEndTag t s)) \<le> length (input s)"
  by (auto simp: getEndTag_def Let_def split: prod.splits option.splits bool.splits if_splits
      dest!: getName_skip_Some getName_skip_None matchChar_skip
      intro: le_trans [OF recoverFromGarbledTag_shrinks])

lemma matchChar_shrinks: "matchChar c s = (b, s') \<Longrightarrow> length (input s') \<le> length (input s)"
  by (cases b) (auto dest!: matchChar_True matchChar_False)

lemma getChar_shrinks: "getChar s = (c, s') \<Longrightarrow> length (input s') \<le> length (input s)"
  by (cases c) (auto dest!: getChar_None getChar_consumes)

lemma getContent_getElement_enough:
  "length (input s) < f \<Longrightarrow> \<exists>s'. getContent f tag chars s = Some s' \<and> length (input s') \<le> length (input s)"
  "length (input s) < f \<Longrightarrow> \<exists>s'. getElement f s = Some s' \<and> length (input s') \<le> length (input s)"
proof (induction f arbitrary: s tag chars)
  case 0
  { case 1 then show ?case by simp }
  { case 2 then show ?case by simp }
next
  case (Suc f)
  have IHc: "\<exists>s'. getContent f t cs r = Some s' \<and> length (input s') \<le> length (input s)"
    if "length (input r) < length (input s)" and "length (input s) < Suc f" for t cs r s
    using Suc.IH(1) [of r t cs] that by fastforce
  { case (1 s tag chars)
    show ?case
    proof (cases "getChar s")
      case (Pair c s1)
      show ?thesis
      proof (cases c)
        case None
        with Pair show ?thesis by (auto dest!: getChar_None)
      next
        case (Some ch)
        then have s1: "Suc (length (input s1)) = length (input s)"
          using Pair by (auto dest: getChar_consumes)
        define s2 where "s2 = noteContent chars s1"
        obtain b s3 where b: "(case tag of None \<Rightarrow> (False, s2) | Some _ \<Rightarrow> matchChar CHR ''/'' s2) = (b, s3)"
          by fastforce
        then have s3: "length (input s3) \<le> length (input s1)"
          by (auto simp: s2_def split: option.splits dest: matchChar_shrinks)
        obtain b4 s4 where b4: "matchChar CHR ''!'' s3 = (b4, s4)" by fastforce
        obtain b5 s5 where b5: "matchChar CHR ''?'' s4 = (b5, s5)" by fastforce
        have s5: "length (input s4) \<le> length (input s1)" "length (input s5) \<le> length (input s1)"
          using matchChar_shrinks [OF b4] matchChar_shrinks [OF b5] s3 by simp_all
        obtain s6 where s6: "getElement f s5 = Some s6" "length (input s6) \<le> length (input s5)"
          using Suc.IH(2) [of s5] s5 s1 1 by auto
        show ?thesis
          using Pair Some b b4 b5 s6 1 s1 s3 s5 getEndTag_shrinks [of "the tag" s3]
            getDeclaration_shrinks [of s4] skipXmlHeader_shrinks [of False s5]
          by (auto simp: Let_def simp flip: s2_def split: bool.splits intro!: IHc)
      qed
    qed }
  { case (2 s)
    obtain b s1 where b: "matchChar CHR ''/'' s = (b, s1)" by fastforce
    obtain nm s2 where nm: "getName (skipWhitespace s1) = (nm, s2)" by fastforce
    obtain as s3 where s3: "getAttrs_loop False [] s2 = (as, s3)" by fastforce
    obtain ch s4 where s4: "getChar s3 = (ch, s4)" by fastforce
    obtain ch' s5 where s5: "(if ch = Some CHR ''/'' then getChar s4 else (ch, s4)) = (ch', s5)"
      by fastforce
    have le: "length (input s5) \<le> length (input s2)" "length (input s1) \<le> length (input s)"
      using getAttrs_loop_shrinks [OF s3] getChar_shrinks [OF s4] s5 matchChar_shrinks [OF b]
      by (auto split: if_splits dest: getChar_shrinks)
    show ?case
    proof (cases nm)
      case None
      then show ?thesis
        using b nm getName_skip_None [of s1 s2] le
        by (auto split: bool.splits intro!: shrink_intros)
    next
      case (Some tag)
      then have s2: "length (input s2) < length (input s)"
        using nm getName_skip_Some [of s1 tag s2] le by simp
      obtain s7 where "getContent f (Some tag) [] (noteStartElement tag as s5) = Some s7"
          "length (input s7) \<le> length (input s)"
        using IHc [of "noteStartElement tag as s5" s "Some tag" "[]"] s2 le 2 by auto
      then show ?thesis
        using b nm Some s3 s4 s5 s2 le
        by (auto simp: Let_def split: bool.splits intro!: shrink_intros)
    qed }
qed

text \<open>The parser returns on every input.\<close>

lemma getFile_returns: "\<exists>s'. getFile s = Some s'"
  using getContent_getElement_enough(1) [of "noteBeginFile s" "Suc (length (input s))" None "[]"]
  by (auto simp: getFile_def)

lemma getContent_getElement_mono:
  "getContent f tag chars s = Some s' \<Longrightarrow> f \<le> g \<Longrightarrow> getContent g tag chars s = Some s'"
  "getElement f s = Some s' \<Longrightarrow> f \<le> g \<Longrightarrow> getElement g s = Some s'"
proof (induction f arbitrary: s tag chars s' g)
  case 0
  { case 1 then show ?case by simp }
  { case 2 then show ?case by simp }
next
  case (Suc f)
  { case 1
    then obtain h where "g = Suc h" "f \<le> h" by (cases g) auto
    then show ?case
      using 1 by (auto simp: Let_def split: prod.splits option.splits bool.splits if_splits
          dest!: Suc.IH(1) [OF _ \<open>f \<le> h\<close>] Suc.IH(2) [OF _ \<open>f \<le> h\<close>]) }
  { case 2
    then obtain h where "g = Suc h" "f \<le> h" by (cases g) auto
    then show ?case
      using 2 by (auto simp: Let_def split: prod.splits option.splits bool.splits if_splits
          dest!: Suc.IH(1) [OF _ \<open>f \<le> h\<close>]) }
qed

end
