(* ===== verification/SAX_Facts.thy ===== *)
theory SAX_Facts
  imports Mini_SAX
begin

text \<open>
  Facts about the parser of \<open>Mini_SAX\<close> that its clients use: the callbacks of a parse are
  well nested, and how the reading functions behave in front of an input of known shape.
  \<open>eat w s\<close> is the state after the characters \<open>w\<close> are read.
\<close>

section \<open>Nesting of the callbacks\<close>

text \<open>How deep a sequence of callbacks leaves the elements open, starting at depth \<open>d\<close>;
  \<open>None\<close> if an element is closed that was never opened.\<close>

fun open_depth :: "nat \<Rightarrow> sax_event list \<Rightarrow> nat option" where
  "open_depth d [] = Some d"
| "open_depth d (StartElement n as # es) = open_depth (Suc d) es"
| "open_depth d (EndElement n # es) = (case d of 0 \<Rightarrow> None | Suc d' \<Rightarrow> open_depth d' es)"
| "open_depth d (e # es) = open_depth d es"

definition nested :: "sax_event list \<Rightarrow> bool" where
  "nested es \<longleftrightarrow> (\<forall>d. open_depth d es = Some d)"

lemma open_depth_append:
  "open_depth d (es @ fs) = Option.bind (open_depth d es) (\<lambda>d'. open_depth d' fs)"
  by (induction d es rule: open_depth.induct) (auto split: nat.splits)

lemma nested_Nil [simp, intro]: "nested []"
  by (simp add: nested_def)

lemma nested_append [intro]: "nested es \<Longrightarrow> nested fs \<Longrightarrow> nested (es @ fs)"
  by (simp add: nested_def open_depth_append)

lemma nested_element [intro]: "nested es \<Longrightarrow> nested (StartElement n as # es @ [EndElement m])"
  by (simp add: nested_def open_depth_append)

text \<open>The arrays of a callback are the ones the parser makes: terminated, and at least as
  long as the length that is passed beside them.\<close>

fun event_ok :: "sax_event \<Rightarrow> bool" where
  "event_ok (StartElement n as) \<longleftrightarrow> (\<exists>nm. n = to_xml nm)"
| "event_ok (EndElement n) \<longleftrightarrow> (\<exists>nm. n = to_xml nm)"
| "event_ok (Characters cs len) \<longleftrightarrow> 0 \<le> len \<and> nat len \<le> length cs"
| "event_ok e \<longleftrightarrow> True"

text \<open>\<open>extends s s'\<close>: the parser went from \<open>s\<close> to \<open>s'\<close> with well nested callbacks.\<close>

definition extends :: "sax \<Rightarrow> sax \<Rightarrow> bool" where
  "extends s s' \<longleftrightarrow> docHandler s' = docHandler s \<and> errorHandler s' = errorHandler s \<and>
     (\<exists>es. events s' = events s @ es \<and> nested es \<and> list_all event_ok es)"

lemma extends_refl [simp, intro]: "extends s s"
  by (simp add: extends_def)

lemma extends_trans [trans]: "extends s t \<Longrightarrow> extends t u \<Longrightarrow> extends s u"
  by (auto simp: extends_def)

lemma extends_input [simp]: "extends s (t\<lparr>input := i\<rparr>) = extends s t"
  by (simp add: extends_def)

lemma extends_accountChar [simp]: "extends s (accountChar c t) = extends s t"
  by (simp add: extends_def accountChar_def)

lemma extends_sax_error: "extends s t \<Longrightarrow> extends s (sax_error d t)"
  by (auto simp: extends_def sax_error_def emit_def nested_def open_depth_append)

lemma extends_noteContent: "extends s t \<Longrightarrow> extends s (noteContent d t)"
  by (auto simp: to_xml_def extends_def noteContent_def emit_def nested_def open_depth_append Let_def)

lemma extends_matchTest: "matchTest p t = (r, t') \<Longrightarrow> extends s t \<Longrightarrow> extends s t'"
  by (auto simp: matchTest_def split: list.splits if_splits)

lemma extends_matchChar: "matchChar p t = (r, t') \<Longrightarrow> extends s t \<Longrightarrow> extends s t'"
  by (auto simp: matchChar_def split: list.splits if_splits)

lemma extends_getChar: "getChar t = (r, t') \<Longrightarrow> extends s t \<Longrightarrow> extends s t'"
  by (auto simp: getChar_def split: list.splits if_splits)

lemmas extends_reads = extends_matchTest extends_matchChar extends_getChar

lemma extends_getName_loop: "getName_loop nm t = (r, t') \<Longrightarrow> extends s t \<Longrightarrow> extends s t'"
proof (induction nm t arbitrary: r t' rule: getName_loop.induct)
  case (1 nm t)
  obtain c t1 where m: "matchTest is_name_char t = (c, t1)" by fastforce
  then have "extends s t1" using extends_matchTest "1.prems" by blast
  then show ?case
    using "1.prems"(1) m "1.IH" [OF m [symmetric]]
    by (cases c) (auto simp: getName_loop.simps [of nm t])
qed

lemma extends_getName: "getName t = (r, t') \<Longrightarrow> extends s t \<Longrightarrow> extends s t'"
  by (auto simp: getName_def split: prod.splits option.splits
      dest: extends_matchTest extends_getName_loop)

lemma extends_getQuotedValue_loop:
  "getQuotedValue_loop v t = (r, t') \<Longrightarrow> extends s t \<Longrightarrow> extends s t'"
proof (induction v t arbitrary: r t' rule: getQuotedValue_loop.induct)
  case (1 v t)
  obtain c t1 where m: "matchTest is_any_char t = (c, t1)" by fastforce
  then have "extends s t1" using extends_matchTest "1.prems" by blast
  then show ?case
    using "1.prems"(1) m "1.IH" [OF m [symmetric]]
    by (cases c) (auto simp: getQuotedValue_loop.simps [of v t] extends_sax_error split: if_splits)
qed

lemma extends_getQuotedValue: "getQuotedValue t = (r, t') \<Longrightarrow> extends s t \<Longrightarrow> extends s t'"
  by (auto simp: getQuotedValue_def split: prod.splits bool.splits
      dest: extends_matchChar extends_getQuotedValue_loop)

lemma extends_skipWhitespace: "extends s t \<Longrightarrow> extends s (skipWhitespace t)"
proof (induction "length (input t)" arbitrary: t rule: less_induct)
  case less
  consider "skipWhitespace t = t" | (more) c t' where "matchTest is_whitespace_char t = (Some c, t')"
      "skipWhitespace t = skipWhitespace t'"
    using skipWhitespace_cases [of t] by blast
  then show ?case
  proof cases
    case more
    then show ?thesis
      using less.hyps [of t'] extends_matchTest [OF more(1) less.prems]
      by (auto dest!: matchTest_consumes)
  qed (simp add: less.prems)
qed

lemma extends_recover: "extends s t \<Longrightarrow> extends s (recoverFromGarbledTag t)"
proof (induction "length (input t)" arbitrary: t rule: less_induct)
  case less
  consider "recoverFromGarbledTag t = t" | (more) c t' where "getChar t = (Some c, t')"
      "recoverFromGarbledTag t \<in> {t', recoverFromGarbledTag t'}"
    using recoverFromGarbledTag_cases [of t] by blast
  then show ?case
  proof cases
    case more
    then show ?thesis
      using less.hyps [of t'] extends_getChar [OF more(1) less.prems]
      by (auto dest!: getChar_consumes)
  qed (simp add: less.prems)
qed

lemma extends_skipComment: "extends s t \<Longrightarrow> extends s (skipComment n t)"
proof (induction "length (input t)" arbitrary: n t rule: less_induct)
  case less
  show ?case
  proof (cases rule: skipComment_cases [of t n])
    case (more c t' k)
    then show ?thesis
      using less.hyps [of t' k] extends_getChar [OF more(1) less.prems] by (auto dest!: getChar_consumes)
  qed (auto simp: less.prems extends_sax_error dest: extends_getChar [OF _ less.prems])
qed

lemma extends_skipToAngle: "extends s t \<Longrightarrow> extends s (skipToAngle t)"
proof (induction "length (input t)" arbitrary: t rule: less_induct)
  case less
  show ?case
  proof (cases rule: skipToAngle_cases [of t])
    case (more c t')
    then show ?thesis
      using less.hyps [of t'] extends_getChar [OF more(1) less.prems] by (auto dest!: getChar_consumes)
  qed (auto simp: less.prems extends_sax_error dest: extends_getChar [OF _ less.prems])
qed

lemma extends_skipXmlHeader: "extends s t \<Longrightarrow> extends s (skipXmlHeader q t)"
proof (induction "length (input t)" arbitrary: q t rule: less_induct)
  case less
  show ?case
  proof (cases rule: skipXmlHeader_cases [of t q])
    case (more c t' k)
    then show ?thesis
      using less.hyps [of t' k] extends_getChar [OF more(1) less.prems] by (auto dest!: getChar_consumes)
  qed (auto simp: less.prems extends_sax_error dest: extends_getChar [OF _ less.prems])
qed

lemma extends_matchDoctype: "extends s t \<Longrightarrow> extends s (matchDoctype k t)"
  by (induction k arbitrary: t)
    (auto split: prod.splits option.splits
      intro: extends_recover extends_sax_error dest: extends_getChar)

lemma extends_getDeclaration: "extends s t \<Longrightarrow> extends s (getDeclaration t)"
  by (auto simp: getDeclaration_def simp del: matchDoctype.simps split: prod.splits bool.splits
      intro!: extends_recover extends_sax_error extends_skipComment extends_skipToAngle
        extends_matchDoctype dest: extends_matchChar)

lemma extends_getEndTag: "extends s t \<Longrightarrow> extends s (getEndTag tag t)"
  by (auto simp: getEndTag_def Let_def split: prod.splits option.splits bool.splits if_splits
      intro!: extends_recover extends_sax_error extends_skipWhitespace
      dest!: extends_getName [OF _ extends_skipWhitespace] extends_matchChar [OF _ extends_skipWhitespace])

lemma extends_getAttrs_loop:
  "getAttrs_loop g as t = (r, t') \<Longrightarrow> extends s t \<Longrightarrow> extends s t'"
proof (induction "length (input t)" arbitrary: g as t r t' rule: less_induct)
  case less
  note e = less.prems(2)
  obtain nm t1 where n: "getName (skipWhitespace t) = (nm, t1)" by fastforce
  have e1: "extends s t1" using n e extends_getName extends_skipWhitespace by blast
  show ?case
  proof (cases nm)
    case None
    obtain c t2 where c: "getChar t1 = (c, t2)" by fastforce
    have e2: "extends s t2" using extends_getChar [OF c e1] .
    have "length (input t2) < length (input t)" if "c = Some ch" for ch
      using getName_skip_None n None c that by (fastforce dest!: getChar_consumes)
    then show ?thesis
      using less.prems(1) n None c e1 e2 less.hyps [of t2]
      by (auto simp: getAttrs_loop.simps [of g as t] extends_sax_error split: option.splits if_splits)
  next
    case (Some a)
    obtain b t2 where b: "matchChar CHR ''='' (skipWhitespace t1) = (b, t2)" by fastforce
    have e2: "extends s t2" using b e1 extends_matchChar extends_skipWhitespace by blast
    obtain v t3 where v: "getQuotedValue (skipWhitespace t2) = (v, t3)" by fastforce
    have e3: "extends s t3" using v e2 extends_getQuotedValue extends_skipWhitespace by blast
    have l2: "length (input t2) < length (input t)"
      using getName_skip_Some n Some matchChar_skip [OF b] by fastforce
    then have l3: "length (input t3) < length (input t)"
      using getQuotedValue_skip [OF v] by simp
    show ?thesis
      using less.prems(1) n Some b v e2 e3 less.hyps [OF l2] less.hyps [OF l3]
        less.hyps [of "sax_error d t3" for d] l3
      by (auto simp: getAttrs_loop.simps [of g as t] extends_sax_error split: option.splits bool.splits)
  qed
qed

lemma extends_element:
  "extends t u \<Longrightarrow> extends (noteStartElement n as u) v \<Longrightarrow> extends t (noteEndElement m v)"
  by (auto simp: extends_def noteStartElement_def noteEndElement_def emit_def nested_def
      open_depth_append split: if_splits)

lemma extends_getContent_getElement:
  "getContent f tag chars t = Some t' \<Longrightarrow> extends t t'"
  "getElement f t = Some t' \<Longrightarrow> extends t t'"
proof (induction f arbitrary: t t' tag chars)
  case 0
  { case 1 then show ?case by simp }
  { case 2 then show ?case by simp }
next
  case (Suc f)
  have IHc: "getContent f tag chars u = Some u' \<Longrightarrow> extends s u \<Longrightarrow> extends s u'" for s u u' tag chars
    using Suc.IH(1) extends_trans by blast
  have IHe: "getElement f u = Some u' \<Longrightarrow> extends s u \<Longrightarrow> extends s u'" for s u u'
    using Suc.IH(2) extends_trans by blast
  { case (1 t t' tag chars)
    obtain c t1 where c: "getChar t = (c, t1)" by fastforce
    define t2 where "t2 = noteContent chars t1"
    obtain b t3 where b: "(case tag of None \<Rightarrow> (False, t2) | Some _ \<Rightarrow> matchChar CHR ''/'' t2) = (b, t3)"
      by fastforce
    obtain b4 t4 where b4: "matchChar CHR ''!'' t3 = (b4, t4)" by fastforce
    obtain b5 t5 where b5: "matchChar CHR ''?'' t4 = (b5, t5)" by fastforce
    have e1: "extends t t1" using extends_getChar [OF c] by simp
    then have e3: "extends t t3"
      using b by (auto simp: t2_def extends_noteContent split: option.splits
          dest: extends_matchChar [OF _ extends_noteContent])
    have e5: "extends t t4" "extends t t5"
      using extends_matchChar [OF b4 e3] extends_matchChar [OF b5] by auto
    show ?case
      using 1 c b b4 b5 e1 e3 e5
      by (auto simp: Let_def extends_noteContent extends_sax_error extends_getEndTag simp flip: t2_def
          split: option.splits bool.splits if_splits
          dest!: IHe IHc [OF _ extends_getDeclaration] IHc [OF _ extends_skipXmlHeader] dest: IHc) }
  { case (2 t t')
    obtain b t1 where b: "matchChar CHR ''/'' t = (b, t1)" by fastforce
    obtain nm t2 where nm: "getName (skipWhitespace t1) = (nm, t2)" by fastforce
    obtain as t3 where t3: "getAttrs_loop False [] t2 = (as, t3)" by fastforce
    obtain ch t4 where t4: "getChar t3 = (ch, t4)" by fastforce
    obtain ch' t5 where t5: "(if ch = Some CHR ''/'' then getChar t4 else (ch, t4)) = (ch', t5)"
      by fastforce
    have e1: "extends t t1" using extends_matchChar [OF b] by simp
    have e2: "extends t t2" using extends_getName [OF nm extends_skipWhitespace [OF e1]] .
    have e5: "extends t t5"
      using extends_getAttrs_loop [OF t3 e2] t4 t5 by (auto split: if_splits dest: extends_getChar)
    show ?case
    proof (cases "\<not> b \<and> nm \<noteq> None \<and> ch' = Some CHR ''>''")
      case True
      then obtain tag t6 where t': "t' = noteEndElement tag t6"
          "t6 = noteStartElement tag as t5 \<or>
           getContent f (Some tag) [] (noteStartElement tag as t5) = Some t6"
        using 2 b nm t3 t4 t5 by (auto simp: Let_def split: if_splits)
      then have "extends (noteStartElement tag as t5) t6"
        using Suc.IH(1) by auto
      then show ?thesis
        using extends_element [OF e5] t' by simp
    next
      case False
      then show ?thesis
        using 2 b nm t3 t4 t5 e1 e2 e5
        by (auto simp: Let_def split: bool.splits option.splits if_splits
            intro!: extends_recover extends_sax_error)
    qed }
qed

lemma getFile_nested:
  assumes "getFile s = Some s'"
  shows "extends s s'"
proof -
  obtain t where t: "getContent (Suc (length (input s))) None [] (noteBeginFile s) = Some t"
      and s': "s' = noteEndFile t"
    using assms by (auto simp: getFile_def)
  have "extends s (noteBeginFile s)"
    by (simp add: noteBeginFile_def extends_def emit_def nested_def)
  also have "extends (noteBeginFile s) t"
    by (rule extends_getContent_getElement(1) [OF t])
  also have "extends t s'"
    by (simp add: s' noteEndFile_def extends_def emit_def nested_def)
  finally show ?thesis .
qed

section \<open>Reading known input\<close>

primrec eat :: "string \<Rightarrow> sax \<Rightarrow> sax" where
  "eat [] s = s"
| "eat (c # cs) s = eat cs (accountChar c (s\<lparr>input := tl (input s)\<rparr>))"

lemma eat_append: "eat (v @ w) s = eat w (eat v s)"
  by (induction v arbitrary: s) auto

lemma input_eat [simp]: "input (eat w s) = drop (length w) (input s)"
  by (induction w arbitrary: s) (auto simp: drop_Suc)

lemma accountChar_emit: "accountChar c (emit es s) = emit es (accountChar c s)"
  by (simp add: accountChar_def emit_def)

lemma eat_emit: "eat w (emit es s) = emit es (eat w s)"
proof (induction w arbitrary: s)
  case (Cons c w)
  have "(emit es s)\<lparr>input := tl (input s)\<rparr> = emit es (s\<lparr>input := tl (input s)\<rparr>)"
    by (simp add: emit_def)
  then show ?case by (simp add: accountChar_emit Cons.IH)
qed simp

lemma emit_emit [simp]: "emit es (emit fs s) = emit (fs @ es) s"
  by (simp add: emit_def)

lemma emit_Nil [simp]: "emit [] s = s"
  by (simp add: emit_def)

lemma docHandler_eat [simp]:
  "docHandler (accountChar c s) = docHandler s"
  "docHandler (eat w s) = docHandler s"
  "docHandler (emit es s) = docHandler s"
proof -
  show *: "docHandler (accountChar c s) = docHandler s" for c s by (simp add: accountChar_def)
  show "docHandler (eat w s) = docHandler s" by (induction w arbitrary: s) (simp_all add: *)
  show "docHandler (emit es s) = docHandler s" by (simp add: emit_def)
qed

lemma getChar_eat: "input s = c # r \<Longrightarrow> getChar s = (Some c, eat [c] s)"
  by (simp add: getChar_def)

lemma matchChar_eat: "input s = c # r \<Longrightarrow> matchChar c s = (True, eat [c] s)"
  by (simp add: matchChar_def)

lemma matchChar_other: "input s = c # r \<Longrightarrow> c \<noteq> d \<Longrightarrow> matchChar d s = (False, s)"
  by (simp add: matchChar_def)

lemma matchTest_eat: "input s = c # r \<Longrightarrow> p c \<Longrightarrow> matchTest p s = (Some c, eat [c] s)"
  by (simp add: matchTest_def)

lemma matchTest_other: "input s = c # r \<Longrightarrow> \<not> p c \<Longrightarrow> matchTest p s = (None, s)"
  by (simp add: matchTest_def)

lemma getName_loop_eat:
  "input s = w @ c # r \<Longrightarrow> list_all is_name_char w \<Longrightarrow> \<not> is_name_char c \<Longrightarrow>
   getName_loop nm s = (nm @ w, eat w s)"
proof (induction w arbitrary: s nm)
  case Nil
  then show ?case by (subst getName_loop.simps) (simp add: matchTest_other)
next
  case (Cons d w)
  then show ?case
    by (subst getName_loop.simps) (simp add: matchTest_eat)
qed

lemma getName_eat:
  "input s = w @ c # r \<Longrightarrow> w \<noteq> [] \<Longrightarrow> list_all is_name_char w \<Longrightarrow> \<not> is_name_char c \<Longrightarrow>
   getName s = (Some w, eat w s)"
  by (cases w) (auto simp: getName_def matchTest_eat getName_loop_eat)

lemma getName_other: "input s = c # r \<Longrightarrow> \<not> is_name_char c \<Longrightarrow> getName s = (None, s)"
  by (simp add: getName_def matchTest_other)

lemma skipWhitespace_eat:
  "input s = w @ c # r \<Longrightarrow> list_all is_whitespace_char w \<Longrightarrow> \<not> is_whitespace_char c \<Longrightarrow>
   skipWhitespace s = eat w s"
proof (induction w arbitrary: s)
  case Nil
  then show ?case by (subst skipWhitespace.simps) (simp add: matchTest_other)
next
  case (Cons d w)
  then show ?case by (subst skipWhitespace.simps) (simp add: matchTest_eat)
qed

lemma skipWhitespace_other: "input s = c # r \<Longrightarrow> \<not> is_whitespace_char c \<Longrightarrow> skipWhitespace s = s"
  using skipWhitespace_eat [of s "[]"] by simp

lemma getQuotedValue_loop_eat:
  "input s = v @ CHR 0x22 # r \<Longrightarrow> CHR 0x22 \<notin> set v \<Longrightarrow>
   getQuotedValue_loop u s = (Some (u @ v), eat (v @ [CHR 0x22]) s)"
proof (induction v arbitrary: s u)
  case Nil
  then show ?case
    by (subst getQuotedValue_loop.simps) (simp add: matchTest_eat is_any_char_def)
next
  case (Cons d v)
  moreover from this have "d \<noteq> CHR 0x22" by auto
  ultimately show ?case
    by (subst getQuotedValue_loop.simps) (simp add: matchTest_eat is_any_char_def)
qed

lemma getQuotedValue_eat:
  "input s = CHR 0x22 # v @ CHR 0x22 # r \<Longrightarrow> CHR 0x22 \<notin> set v \<Longrightarrow>
   getQuotedValue s = (Some v, eat (CHR 0x22 # v @ [CHR 0x22]) s)"
  by (simp add: getQuotedValue_def matchChar_eat getQuotedValue_loop_eat)

lemma getContent_text:
  "CHR ''<'' \<notin> set w \<Longrightarrow> input s = w @ r \<Longrightarrow>
   getContent (f + length w) tag chars s = getContent f tag (chars @ w) (eat w s)"
proof (induction w arbitrary: chars s)
  case (Cons c w)
  moreover from this have "c \<noteq> CHR ''<''" by auto
  ultimately show ?case by (simp add: getChar_eat)
qed simp

end
