(* ===== verification/Message_Parser.thy ===== *)
theory Message_Parser
  imports Message_Tree SAX_Facts
begin

text \<open>
  The receiving half of \<^verbatim>\<open>libs/stream_message/src/mbuildmsg.cxx\<close>: the document and error
  handlers that build a \<^verbatim>\<open>Message\<close> from the parser's callbacks, and \<^verbatim>\<open>Message::Decode\<close>.
  The back of \<^verbatim>\<open>messageStack\<close> is the head of the list. \<^verbatim>\<open>finalRoot\<close> points to the bottom
  of the stack until that message is popped, and to the popped message from then on. A
  handler step is \<open>None\<close> where the code dereferences a null pointer (an attribute without
  a value) or takes the back of an empty stack. The last section shows when a
  parse is free of such a step.
\<close>

section \<open>Handlers\<close>

datatype root = NoRoot | OnStack | Popped message

record mparser =
  messageStack :: "message list"
  finalRoot :: root
  diagnostic :: "string option"
  have_warning :: bool
  have_error :: bool
  have_fatality :: bool

fun show_nat :: "nat \<Rightarrow> string" where
  "show_nat n = (if n < 10 then [char_of (48 + n)]
     else show_nat (n div 10) @ [char_of (48 + n mod 10)])"

definition resetErrors :: "mparser \<Rightarrow> mparser" where
  "resetErrors p = p\<lparr>have_warning := False, have_error := False, have_fatality := False,
     diagnostic := None\<rparr>"

definition updateDiagnostic :: "string \<Rightarrow> string \<Rightarrow> nat \<Rightarrow> mparser \<Rightarrow> mparser" where
  "updateDiagnostic kind message line p =
     p\<lparr>diagnostic := Some (kind @ '' on line '' @ show_nat line @ '': '' @ message)\<rparr>"

definition handler_warning :: "mparser \<Rightarrow> mparser" where
  "handler_warning p = p\<lparr>have_warning := True\<rparr>"

definition handler_error :: "string \<Rightarrow> nat \<Rightarrow> mparser \<Rightarrow> mparser" where
  "handler_error message line p =
     (let p' = (if \<not> (have_error p \<or> have_fatality p)
                then updateDiagnostic ''error'' message line p else p)
      in p'\<lparr>have_error := True\<rparr>)"

definition handler_fatalError :: "string \<Rightarrow> nat \<Rightarrow> mparser \<Rightarrow> mparser" where
  "handler_fatalError message line p =
     (let p' = (if \<not> have_fatality p
                then updateDiagnostic ''fatal error'' message line p else p)
      in p'\<lparr>have_fatality := True\<rparr>)"

definition handler_characters :: "xmlch list \<Rightarrow> int \<Rightarrow> mparser \<Rightarrow> mparser option" where
  "handler_characters chars len p = (case messageStack p of
     [] \<Rightarrow> Some p
   | msg # below \<Rightarrow> map_option (\<lambda>txt. p\<lparr>messageStack := AddText msg txt # below\<rparr>)
       (DOMString_of_ptr_len chars (nat len)))"

definition handler_endElement :: "mparser \<Rightarrow> mparser option" where
  "handler_endElement p = (case messageStack p of
     [] \<Rightarrow> None
   | [msg] \<Rightarrow> Some (p\<lparr>messageStack := [],
       finalRoot := (case finalRoot p of OnStack \<Rightarrow> Popped msg | r \<Rightarrow> r)\<rparr>)
   | msg # parent # below \<Rightarrow> Some (p\<lparr>messageStack := AddChild parent msg # below\<rparr>))"

fun add_attributes :: "attrs \<Rightarrow> nat \<Rightarrow> nat \<Rightarrow> message \<Rightarrow> message option" where
  "add_attributes as i 0 msg = Some msg"
| "add_attributes as i (Suc n) msg =
     (case Option.bind (getName_at as i) (\<lambda>p. DOMString_of_ptr (Some p)) of
        None \<Rightarrow> None
      | Some name \<Rightarrow>
          (case Option.bind (getValue_at as i) (\<lambda>p. DOMString_of_ptr (Some p)) of
             None \<Rightarrow> None
           | Some val \<Rightarrow> add_attributes as (Suc i) n (AddAttribute msg name val)))"

definition handler_startElement :: "xmlch list \<Rightarrow> attrs \<Rightarrow> mparser \<Rightarrow> mparser option" where
  "handler_startElement name as p =
     (case Option.bind (DOMString_of_ptr (Some name))
        (\<lambda>nm. add_attributes as 0 (getLength as) (Message_named nm)) of
        None \<Rightarrow> None
      | Some msg \<Rightarrow>
          Some (p\<lparr>finalRoot := (if messageStack p = [] then OnStack else finalRoot p),
                  messageStack := msg # messageStack p\<rparr>))"

fun handle :: "sax_event \<Rightarrow> mparser \<Rightarrow> mparser option" where
  "handle StartDocument p = Some p"
| "handle EndDocument p = Some p"
| "handle (StartElement name as) p = handler_startElement name as p"
| "handle (EndElement name) p = handler_endElement p"
| "handle (Characters chars len) p = handler_characters chars len p"
| "handle (SAX_Error message line col) p = Some (handler_error message line p)"
| "handle (SAX_FatalError message line col) p = Some (handler_fatalError message line p)"

fun handle_all :: "sax_event list \<Rightarrow> mparser \<Rightarrow> mparser option" where
  "handle_all [] p = Some p"
| "handle_all (e # es) p = Option.bind (handle e p) (handle_all es)"

definition MessageParser_ctor :: mparser where
  "MessageParser_ctor = resetErrors \<lparr>messageStack = [], finalRoot = NoRoot, diagnostic = None,
     have_warning = False, have_error = False, have_fatality = False\<rparr>"

definition mparser_success :: "mparser \<Rightarrow> bool" where
  "mparser_success p \<longleftrightarrow> \<not> (have_error p \<or> have_fatality p)"

definition mparser_parse :: "string \<Rightarrow> mparser \<Rightarrow> mparser option" where
  "mparser_parse bufPtr p =
     Option.bind (parse_buffer True True bufPtr) (\<lambda>s. handle_all (events s) p)"

definition root_message :: "mparser \<Rightarrow> message option" where
  "root_message p = (case finalRoot p of
     NoRoot \<Rightarrow> None
   | OnStack \<Rightarrow> Some (last (messageStack p))
   | Popped m \<Rightarrow> Some m)"

definition Decode :: "string \<Rightarrow> message option option" where
  "Decode bufPtr = map_option root_message (mparser_parse bufPtr MessageParser_ctor)"

section \<open>When decoding is defined\<close>

definition valued :: "attrs \<Rightarrow> bool" where
  "valued as \<longleftrightarrow> (\<forall>kv\<in>set as. snd kv \<noteq> None)"

fun event_valued :: "sax_event \<Rightarrow> bool" where
  "event_valued (StartElement n as) = valued as"
| "event_valued e = True"

lemma DOMString_of_to_xml: "NUL \<notin> set s \<Longrightarrow> DOMString_of_ptr (Some (to_xml s)) = Some (dom_of (map xml_of_char s))"
  using DOMString_of_ptr_of [of "map xml_of_char s" "[]"] by (simp add: to_xml_def)

lemma DOMString_of_to_xml_defined: "\<exists>d. DOMString_of_ptr (Some (to_xml s)) = Some d"
  using DOMString_of_ptr_of [of "map xml_of_char (c_str s)" "[]"] by (simp add: to_xml_def)

lemma add_attributes_defined:
  "i + n = length as \<Longrightarrow> add_attributes as i n msg \<noteq> None \<longleftrightarrow> valued (drop i as)"
proof (induction n arbitrary: i msg)
  case (Suc n)
  then have i: "i < length as" and d: "drop i as = as ! i # drop (Suc i) as"
    by (simp_all add: Cons_nth_drop_Suc)
  obtain k v where kv: "as ! i = (k, v)" by fastforce
  obtain dk where dk: "DOMString_of_ptr (Some (to_xml k)) = Some dk"
    using DOMString_of_to_xml_defined by blast
  show ?case
  proof (cases v)
    case None
    then show ?thesis
      using i d kv dk by (simp add: getName_at_def getValue_at_def valued_def)
  next
    case (Some w)
    obtain dv where "DOMString_of_ptr (Some (to_xml w)) = Some dv"
      using DOMString_of_to_xml_defined by blast
    then show ?thesis
      using Some i d kv dk Suc.IH [of "Suc i"] Suc.prems
      by (simp add: getName_at_def getValue_at_def valued_def)
  qed
qed (simp add: valued_def)

lemma handler_startElement_defined:
  "handler_startElement (to_xml n) as p \<noteq> None \<longleftrightarrow> valued as"
proof -
  obtain d where d: "DOMString_of_ptr (Some (to_xml n)) = Some d"
    using DOMString_of_to_xml_defined by blast
  show ?thesis
    using add_attributes_defined [of 0 "length as" as "Message_named d"]
    by (cases "add_attributes as 0 (length as) (Message_named d)")
      (simp_all add: handler_startElement_def getLength_def d)
qed

lemma handler_startElement_depth:
  "handler_startElement n as p = Some q \<Longrightarrow> length (messageStack q) = Suc (length (messageStack p))"
  by (auto simp: handler_startElement_def split: option.splits)

lemma handle_characters_defined:
  "0 \<le> len \<Longrightarrow> nat len \<le> length cs \<Longrightarrow>
   \<exists>q. handler_characters cs len p = Some q \<and> length (messageStack q) = length (messageStack p)"
  by (auto simp: handler_characters_def DOMString_of_ptr_len_of split: list.split)

lemma handler_endElement_defined:
  "length (messageStack p) = Suc d \<Longrightarrow>
   \<exists>q. handler_endElement p = Some q \<and> length (messageStack q) = d"
  by (auto simp: handler_endElement_def split: list.splits)

lemma depth_error_handlers [simp]:
  "messageStack (handler_error m l p) = messageStack p"
  "messageStack (handler_fatalError m l p) = messageStack p"
  by (simp_all add: handler_error_def handler_fatalError_def updateDiagnostic_def Let_def)

text \<open>Over well nested, well formed callbacks the handlers never pop an empty stack, and the
  only undefined step is the one on an attribute without a value.\<close>

lemma handle_all_defined:
  "list_all event_ok es \<Longrightarrow> open_depth (length (messageStack p)) es = Some d \<Longrightarrow>
   (handle_all es p \<noteq> None \<longleftrightarrow> list_all event_valued es) \<and>
   (\<forall>q. handle_all es p = Some q \<longrightarrow> length (messageStack q) = d)"
proof (induction es arbitrary: p)
  case (Cons e es)
  have rest: ?case if "handle e p = Some q" "event_valued e"
      "open_depth (length (messageStack p)) (e # es) = open_depth (length (messageStack q)) es" for q
  proof -
    have "list_all event_ok es" "open_depth (length (messageStack q)) es = Some d"
      using Cons.prems that(3) by simp_all
    from Cons.IH [OF this] show ?thesis using that(1,2) by simp
  qed
  show ?case
  proof (cases e)
    case (StartElement n as)
    then obtain nm where nm: "n = to_xml nm" using Cons.prems by auto
    show ?thesis
    proof (cases "valued as")
      case True
      then obtain q where "handler_startElement n as p = Some q"
        using handler_startElement_defined [of nm as p] nm by auto
      then show ?thesis
        using True handler_startElement_depth by (intro rest [of q]) (simp_all add: StartElement)
    next
      case False
      then show ?thesis
        using handler_startElement_defined [of nm as p] nm StartElement by auto
    qed
  next
    case (EndElement n)
    then obtain k where k: "length (messageStack p) = Suc k"
      using Cons.prems by (cases "length (messageStack p)") auto
    obtain q where "handler_endElement p = Some q" "length (messageStack q) = k"
      using handler_endElement_defined [OF k] by blast
    then show ?thesis using k by (intro rest [of q]) (simp_all add: EndElement)
  next
    case (Characters cs len)
    then obtain q where "handler_characters cs len p = Some q"
        "length (messageStack q) = length (messageStack p)"
      using handle_characters_defined [of len cs p] Cons.prems(1) by auto
    then show ?thesis by (intro rest [of q]) (simp_all add: Characters)
  next
    case StartDocument then show ?thesis by (intro rest [of p]) simp_all
  next
    case EndDocument then show ?thesis by (intro rest [of p]) simp_all
  next
    case (SAX_Error m l c)
    then show ?thesis by (intro rest [of "handler_error m l p"]) simp_all
  next
    case (SAX_FatalError m l c)
    then show ?thesis by (intro rest [of "handler_fatalError m l p"]) simp_all
  qed
qed simp

lemma parse_buffer_events:
  "\<exists>s. parse_buffer doc err buf = Some s \<and> nested (events s) \<and> list_all event_ok (events s)"
proof -
  obtain s where s: "parse_buffer doc err buf = Some s"
    using getFile_returns by (auto simp: parse_buffer_def)
  then show ?thesis
    using getFile_nested [OF s [unfolded parse_buffer_def]]
    by (auto simp: extends_def sax_init_def)
qed

lemma Decode_defined:
  "Decode buf \<noteq> None \<longleftrightarrow> list_all event_valued (events (the (parse_buffer True True buf)))"
proof -
  obtain s where s: "parse_buffer True True buf = Some s" "nested (events s)"
      "list_all event_ok (events s)"
    using parse_buffer_events by blast
  have "open_depth (length (messageStack MessageParser_ctor)) (events s) = Some 0"
    using s(2) by (simp add: nested_def MessageParser_ctor_def resetErrors_def)
  from handle_all_defined [OF s(3) this] show ?thesis
    by (simp add: Decode_def mparser_parse_def s(1))
qed

section \<open>Properties\<close>

text \<open>C10: The parser returns on every input, and its callbacks are well nested: every element
  that is closed was opened before, all elements are closed at the end, and the arrays passed
  along are terminated and as long as announced.\<close>

theorem parser_returns_nested:
  "\<exists>s. parse_buffer doc err buf = Some s \<and> nested (events s) \<and> list_all event_ok (events s)"
  by (rule parse_buffer_events)

text \<open>C3: Decoding is free of undefined behaviour exactly on the inputs in which the parser
  reports no attribute without a value: \<^verbatim>\<open>endElement\<close> never takes the back of an empty stack,
  and the only null pointer that the handlers dereference is the value of such an attribute.\<close>

theorem decode_defined_iff:
  "Decode buf \<noteq> None \<longleftrightarrow> list_all event_valued (events (the (parse_buffer True True buf)))"
  by (rule Decode_defined)

end
