(* ===== verification/Message_Serializer.thy ===== *)
theory Message_Serializer
  imports Message_Parser
begin

text \<open>
  The class \<^verbatim>\<open>MessageSerializer\<close> of \<^verbatim>\<open>libs/stream_message/src/mbmsgser.cxx\<close>: a frame is
  four bytes of length, most significant first, and that many bytes of encoded message.
  \<open>count\<close> and \<open>dataSize\<close> are the \<^verbatim>\<open>int\<close> fields, a byte of a block that was not written yet is
  \<open>None\<close>. The result \<open>None\<close> of an operation is a failed allocation of a negative
  size, an access outside of the block, or undefined behaviour inside of \<^verbatim>\<open>Message::Decode\<close>.
\<close>

section \<open>Receiving\<close>

record serializer =
  count :: int
  dataSize :: int
  valp :: "message option"
  datap :: "char option list option"

definition MessageSerializer_ctor :: serializer where
  "MessageSerializer_ctor = \<lparr>count = 0, dataSize = 0, valp = None, datap = None\<rparr>"

definition ser_reset :: "serializer \<Rightarrow> serializer" where
  "ser_reset s = s\<lparr>count := 0, dataSize := 0, valp := None, datap := None\<rparr>"

definition numSizeBytes :: int where
  "numSizeBytes = 4"

fun written :: "char option list \<Rightarrow> string option" where
  "written [] = Some []"
| "written (None # xs) = None"
| "written (Some c # xs) = map_option ((#) c) (written xs)"

definition ser_store :: "char \<Rightarrow> serializer \<Rightarrow> serializer option" where
  "ser_store c s =
     (if count s < numSizeBytes then
        Some (s\<lparr>dataSize := wrap32 (push_bit 8 (dataSize s)) OR of_char c\<rparr>)
      else if count s < wrap32 (dataSize s + numSizeBytes) then
        (case datap s of
           None \<Rightarrow> None
         | Some block \<Rightarrow>
             if nat (count s - numSizeBytes) < length block
             then Some (s\<lparr>datap := Some (block[nat (count s - numSizeBytes) := Some c])\<rparr>)
             else None)
      else Some s)"

definition ser_allocate :: "serializer \<Rightarrow> serializer option" where
  "ser_allocate s =
     (if count s = numSizeBytes then
        (if dataSize s < 0 then None
         else Some (s\<lparr>datap := Some (replicate (nat (dataSize s)) None)\<rparr>))
      else Some s)"

definition ser_decode :: "serializer \<Rightarrow> serializer option" where
  "ser_decode s =
     (if count s = wrap32 (dataSize s + numSizeBytes) then
        (case Option.bind (Option.bind (datap s) (\<lambda>b. written (take (nat (dataSize s)) b))) Decode of
           None \<Rightarrow> None
         | Some v \<Rightarrow> Some (s\<lparr>valp := v\<rparr>))
      else Some s)"

definition add_byte :: "char \<Rightarrow> serializer \<Rightarrow> serializer option" where
  "add_byte c s =
     Option.bind (ser_store c s) (\<lambda>s1.
       Option.bind (ser_allocate (s1\<lparr>count := wrap32 (count s1 + 1)\<rparr>)) ser_decode)"

fun add_bytes :: "string \<Rightarrow> serializer \<Rightarrow> serializer option" where
  "add_bytes [] s = Some s"
| "add_bytes (c # cs) s = Option.bind (add_byte c s) (add_bytes cs)"

definition ser_add :: "string \<Rightarrow> serializer \<Rightarrow> (message option \<times> serializer) option" where
  "ser_add chars s = map_option (\<lambda>s'.
     (if numSizeBytes \<le> count s' \<and> count s' = wrap32 (dataSize s' + numSizeBytes)
      then valp s' else None, s')) (add_bytes chars s)"

definition ser_require :: "serializer \<Rightarrow> nat" where
  "ser_require s =
     nat (if count s < numSizeBytes then numSizeBytes - count s
          else if count s < wrap32 (dataSize s + numSizeBytes)
               then wrap32 (wrap32 (dataSize s + numSizeBytes) - count s)
               else 0)"

section \<open>Sending\<close>

definition firstByteMark :: "xmlch list" where
  "firstByteMark = [0x00, 0x00, 0xC0, 0xE0, 0xF0, 0xF8, 0xFC]"

definition bytesToWrite :: "xmlch \<Rightarrow> nat" where
  "bytesToWrite ch =
     (if ch \<le> 0x80 then 1
      else if ch < 0x800 then 2
      else if ch < 0x10000 then 3
      else if ch < 0x200000 then 4
      else if ch < 0x4000000 then 5
      else 6)"

text \<open>The cases of the \<^verbatim>\<open>switch\<close> from \<open>k\<close> down to 1, each writing before the last byte written.\<close>

fun write_bytes :: "nat \<Rightarrow> nat \<Rightarrow> xmlch \<Rightarrow> string \<Rightarrow> string" where
  "write_bytes tot 0 ch out = out"
| "write_bytes tot (Suc 0) ch out = char_of_xml (ch OR firstByteMark ! tot) # out"
| "write_bytes tot (Suc (Suc k)) ch out =
     write_bytes tot (Suc k) (drop_bit 6 ch) (char_of_xml ((ch OR 0x80) AND 0xBF) # out)"

definition utf8_char :: "xmlch \<Rightarrow> string" where
  "utf8_char ch = write_bytes (bytesToWrite ch) (bytesToWrite ch) ch []"

definition length_word :: "nat \<Rightarrow> string" where
  "length_word len = map (\<lambda>k. char_of (drop_bit k len AND 255)) [24, 16, 8, 0]"

text \<open>The data and its length; the block keeps a terminating NUL behind it.\<close>

definition ser_serialize :: "message \<Rightarrow> serializer \<Rightarrow> (string \<times> nat) \<times> serializer" where
  "ser_serialize t s =
     (let s1 = ser_reset s;
          buffer = Encode t DOMString_empty;
          body = concat (map (\<lambda>n. utf8_char (rawBuffer buffer ! n)) [0..<dlen buffer]);
          data = length_word (length body) @ body
      in ((data, length data), s1\<lparr>datap := Some (map Some (data @ [NUL]))\<rparr>))"

definition allocated :: "message \<Rightarrow> nat" where
  "allocated t = dlen (Encode t DOMString_empty) * (4 div 2 * 3) + 5"

section \<open>The bytes of a character\<close>

lemma length_write_bytes: "length (write_bytes t k ch out) = k + length out"
  by (induction t k ch out rule: write_bytes.induct) auto

lemma length_utf8_char: "1 \<le> length (utf8_char ch)" "length (utf8_char ch) \<le> 6"
  by (simp_all add: utf8_char_def length_write_bytes bytesToWrite_def)

lemma utf8_ascii: "x < 0x80 \<Longrightarrow> utf8_char x = [char_of_xml x]"
proof -
  assume "x < 0x80"
  then have "bytesToWrite x = 1" by (simp add: bytesToWrite_def)
  then show ?thesis by (simp add: utf8_char_def firstByteMark_def)
qed

lemma serialized_data:
  assumes "msg_inv t"
  shows "fst (fst (ser_serialize t s)) =
    length_word (length (concat (map utf8_char (a_encode (msg_abs t))))) @
    concat (map utf8_char (a_encode (msg_abs t)))"
proof -
  have e: "dom_inv (Encode t DOMString_empty)"
    "dom_chars (Encode t DOMString_empty) = a_encode (msg_abs t)"
    using Encode_spec [of t DOMString_empty] assms by (simp_all add: inv_intros chars_simps)
  then have "Encode t DOMString_empty = dom_of (a_encode (msg_abs t))"
    by (metis dom_of_dom_chars)
  then have "map (\<lambda>n. utf8_char (rawBuffer (Encode t DOMString_empty) ! n))
      [0..<dlen (Encode t DOMString_empty)] = map utf8_char (a_encode (msg_abs t))"
    using map_nth_conv [of "length (a_encode (msg_abs t))" "a_encode (msg_abs t) @ [0]" utf8_char]
    by (simp add: rawBuffer_def)
  then show ?thesis by (simp add: ser_serialize_def Let_def)
qed

section \<open>Reading a frame\<close>

definition reading :: "int \<Rightarrow> int \<Rightarrow> char option list option \<Rightarrow> serializer" where
  "reading n ds d = \<lparr>count = n, dataSize = ds, valp = None, datap = d\<rparr>"

lemma add_bytes_append:
  "add_bytes (xs @ ys) s = Option.bind (add_bytes xs s) (add_bytes ys)"
  by (induction xs s rule: add_bytes.induct) (auto split: bind_split)

lemma bind_add_bytes_Nil [simp]: "Option.bind x (add_bytes []) = x"
  by (cases x) simp_all

lemma ser_reset_reading: "ser_reset s = reading 0 0 None"
  by (cases s) (simp add: ser_reset_def reading_def)

lemma or_byte: "push_bit 8 (x :: int) OR of_char c = x * 256 + of_char c"
proof -
  have "(of_char c :: int) = take_bit 8 (of_char c)"
    by (simp add: take_bit_eq_mod)
  then have c: "take_bit 8 (of_char c) = (of_char c :: int)" ..
  have "push_bit 8 x AND take_bit 8 (of_char c) = 0"
    by (rule bit_eqI) (simp add: bit_simps)
  then have "push_bit 8 x AND of_char c = 0"
    by (simp only: c)
  from disjunctive_add_eq_or [OF this] show ?thesis
    by (simp add: push_bit_eq_mult)
qed

lemma take_written:
  "written (map Some cs) = Some cs"
  by (induction cs) auto

lemma of_char_int_bounds: "0 \<le> (of_char c :: int)" "(of_char c :: int) < 256"
proof -
  have "(of_char c :: int) = of_char c mod 256" by simp
  then show "0 \<le> (of_char c :: int)" "(of_char c :: int) < 256"
    by (metis Euclidean_Rings.pos_mod_sign zero_less_numeral)
      (metis \<open>of_char c = of_char c mod 256\<close> Euclidean_Rings.pos_mod_bound zero_less_numeral)
qed

lemma header_byte:
  assumes "0 \<le> k" "k < 3" "0 \<le> ds" "ds < 2 ^ 16"
  shows "add_byte c (reading k ds None) = Some (reading (k + 1) (ds * 256 + of_char c) None)"
proof -
  have w: "wrap32 (push_bit 8 ds) OR of_char c = ds * 256 + of_char c"
    using assms by (subst wrap32_id) (simp_all add: push_bit_eq_mult or_byte [unfolded push_bit_eq_mult, simplified])
  have "wrap32 (k + 1) = k + 1" using assms by (simp add: wrap32_id)
  moreover have "wrap32 (ds * 256 + of_char c + 4) = ds * 256 + of_char c + 4"
    using assms of_char_int_bounds [of c] by (intro wrap32_id) auto
  ultimately show ?thesis
    using assms w of_char_int_bounds [of c]
    by (simp add: add_byte_def ser_store_def ser_allocate_def ser_decode_def reading_def numSizeBytes_def)
qed

lemma last_header_byte:
  assumes "0 \<le> ds" "ds < 2 ^ 23" and n: "n = ds * 256 + of_char c" "n < 2 ^ 31 - 4"
  shows "add_byte c (reading 3 ds None) = ser_decode (reading 4 n (Some (replicate (nat n) None)))"
proof -
  have w: "wrap32 (push_bit 8 ds) OR of_char c = n"
    using assms by (subst wrap32_id) (simp_all add: push_bit_eq_mult or_byte [unfolded push_bit_eq_mult, simplified])
  have "wrap32 4 = 4" by (simp add: wrap32_id)
  then show ?thesis
    using assms w of_char_int_bounds [of c]
    by (simp add: add_byte_def ser_store_def ser_allocate_def reading_def numSizeBytes_def)
qed

lemma of_char_length_byte:
  "(of_char (char_of (drop_bit k n AND (255 :: nat))) :: int) = (int n div 2 ^ k) mod 256"
proof -
  have "drop_bit k n AND (255 :: nat) = take_bit 8 (drop_bit k n)"
    by (simp add: take_bit_eq_mask mask_eq_exp_minus_1)
  then have "of_char (char_of (drop_bit k n AND (255 :: nat))) = (n div 2 ^ k) mod (256 :: nat)"
    by (simp add: take_bit_eq_mod drop_bit_eq_div)
  then have "int (of_char (char_of (drop_bit k n AND (255 :: nat)))) = int ((n div 2 ^ k) mod 256)"
    by (rule arg_cong)
  then show ?thesis by (simp only: of_nat_of_char) (simp add: zdiv_int zmod_int)
qed

lemma byte_chain: "0 \<le> p \<Longrightarrow> (n :: int) div (p * 256) * 256 + n div p mod 256 = n div p"
  by (simp add: zdiv_zmult2_eq)

lemma add_length_word:
  assumes "int n < 2 ^ 31 - 4"
  shows "add_bytes (length_word n) (ser_reset s) =
    ser_decode (reading 4 (int n) (Some (replicate n None)))"
proof -
  let ?n = "int n"
  define d where "d k = ?n div 2 ^ k" for k :: nat
  have b: "of_char (char_of (drop_bit k n AND (255 :: nat)) :: char) = d k mod 256" for k
    by (simp only: of_char_length_byte d_def)
  have c: "d (k + 8) * 256 + d k mod 256 = d k" for k
    using byte_chain [of "2 ^ k" ?n] by (simp add: d_def power_add)
  have d24: "d 24 mod 256 = d 24" and lt: "d 24 < 2 ^ 16" "d 16 < 2 ^ 16" "d 8 < 2 ^ 23"
    and ge: "0 \<le> d k" for k
    using assms by (simp_all add: d_def pos_imp_zdiv_nonneg_iff)
  have d0: "d 0 = ?n" by (simp add: d_def)
  have "add_bytes (length_word n) (ser_reset s) =
      add_byte (char_of (drop_bit 0 n AND 255)) (reading 3 (d 8) None)"
    using header_byte [of 0 0 "char_of (drop_bit 24 n AND 255)"]
      header_byte [of 1 "d 24" "char_of (drop_bit 16 n AND 255)"]
      header_byte [of 2 "d 16" "char_of (drop_bit 8 n AND 255)"] c [of 16] c [of 8] lt ge
    by (simp add: length_word_def ser_reset_reading b d24 del: drop_bit_0 add_bytes.simps)
      (simp add: drop_bit_0)
  also have "\<dots> = ser_decode (reading 4 ?n (Some (replicate (nat ?n) None)))"
  proof (rule last_header_byte)
    show "?n = d 8 * 256 + of_char (char_of (drop_bit 0 n AND 255) :: char)"
      using c [of 0] d0 by (simp only: b) simp
  qed (use assms lt ge in simp_all)
  also have "\<dots> = ser_decode (reading 4 (int n) (Some (replicate n None)))" by simp
  finally show ?thesis .
qed

definition partial :: "nat \<Rightarrow> string \<Rightarrow> serializer" where
  "partial n p = reading (4 + int (length p)) (int n)
     (Some (map Some p @ replicate (n - length p) None))"

lemma ser_decode_partial:
  assumes "int n < 2 ^ 31 - 4" "length p \<le> n"
  shows "ser_decode (partial n p) =
    (if length p < n then Some (partial n p)
     else map_option (\<lambda>v. (partial n p)\<lparr>valp := v\<rparr>) (Decode p))"
proof -
  have "wrap32 (int n + 4) = int n + 4" using assms by (intro wrap32_id) auto
  then show ?thesis
    using assms take_written [of p]
    by (auto simp: ser_decode_def partial_def reading_def numSizeBytes_def split: option.split)
qed

lemma add_byte_partial:
  assumes "int n < 2 ^ 31 - 4" "length p < n"
  shows "add_byte c (partial n p) = ser_decode (partial n (p @ [c]))"
proof -
  have w: "wrap32 (int n + 4) = int n + 4" "wrap32 (4 + int (length p) + 1) = 5 + int (length p)"
    using assms by (auto simp: wrap32_id)
  obtain k where k: "n = Suc (length p + k)"
    using assms(2) less_iff_Suc_add by auto
  have "(map Some p @ None # replicate k None)[length p := Some c] =
      map Some (p @ [c]) @ replicate k None"
    by (simp add: list_update_append)
  then show ?thesis
    using w by (simp add: add_byte_def ser_store_def ser_allocate_def partial_def reading_def
        numSizeBytes_def k)
qed

lemma add_bytes_partial:
  assumes "int n < 2 ^ 31 - 4" "length p + length q \<le> n" "q \<noteq> []"
  shows "add_bytes q (partial n p) = ser_decode (partial n (p @ q))"
  using assms(2,3)
proof (induction q arbitrary: p)
  case (Cons c q)
  then have b: "add_byte c (partial n p) = ser_decode (partial n (p @ [c]))"
    using add_byte_partial [OF assms(1)] by simp
  show ?case
  proof (cases "q = []")
    case False
    then have "ser_decode (partial n (p @ [c])) = Some (partial n (p @ [c]))"
      using Cons.prems ser_decode_partial [OF assms(1), of "p @ [c]"] by (cases q) auto
    then show ?thesis using b Cons False by simp
  qed (use b in simp)
qed simp

lemma header_prefix:
  "length p < 4 \<Longrightarrow> \<exists>ds. 0 \<le> ds \<and> ds < 256 ^ length p \<and>
   add_bytes p (reading 0 0 None) = Some (reading (int (length p)) ds None)"
proof (induction p rule: rev_induct)
  case (snoc c p)
  then obtain ds where ds: "0 \<le> ds" "ds < 256 ^ length p"
      "add_bytes p (reading 0 0 None) = Some (reading (int (length p)) ds None)"
    by auto
  have l: "length p \<le> 2" using snoc.prems by simp
  then have "(256 :: int) ^ length p \<le> 256 ^ 2" by (intro power_increasing) auto
  then have "add_byte c (reading (int (length p)) ds None) =
      Some (reading (int (length p) + 1) (ds * 256 + of_char c) None)"
    using ds l by (intro header_byte) auto
  moreover have "ds * 256 + of_char c < 256 ^ length (p @ [c])"
    using ds(2) of_char_int_bounds(2) [of c] by simp
  ultimately show ?case
    using ds(1,3) of_char_int_bounds(1) [of c]
    by (intro exI [of _ "ds * 256 + of_char c"]) (simp add: add_bytes_append add.commute)
qed (simp add: reading_def)

definition frame :: "string \<Rightarrow> string" where
  "frame body = length_word (length body) @ body"

lemma length_length_word [simp]: "length (length_word n) = 4"
  by (simp add: length_word_def)

lemma prefix_of_frame:
  assumes n: "int (length body) < 2 ^ 31 - 4" and pq: "frame body = p @ q"
  shows "add_bytes p (reading 0 0 None) =
    (if length p < 4 then add_bytes p (reading 0 0 None)
     else ser_decode (partial (length body) (drop 4 p)))"
proof -
  have "add_bytes p (reading 0 0 None) = ser_decode (partial (length body) (drop 4 p))"
    if l: "4 \<le> length p"
  proof -
    define b where "b = drop 4 p"
    have "take 4 (frame body) = length_word (length body)" "drop 4 (frame body) = body"
      by (simp_all add: frame_def)
    then have t: "take 4 p = length_word (length body)" "b @ q = body"
      using l by (simp_all add: pq b_def)
    have b: "p = length_word (length body) @ b" "body = b @ q"
      using append_take_drop_id [of 4 p] t by (simp_all add: b_def)
    have h: "add_bytes (length_word (length body)) (reading 0 0 None) =
        ser_decode (partial (length body) [])"
      using add_length_word [OF n, of "undefined"] by (simp add: ser_reset_reading partial_def)
    show ?thesis
    proof (cases "b = []")
      case True
      then show ?thesis using h b by simp
    next
      case False
      then have "ser_decode (partial (length body) []) = Some (partial (length body) [])"
        using ser_decode_partial [OF n, of "[]"] b(2) by simp
      then show ?thesis
        using h b False add_bytes_partial [OF n, of "[]" b] by (simp add: add_bytes_append)
    qed
  qed
  then show ?thesis by simp
qed

text \<open>What the reader of a frame promises: it asks for the bytes that are missing and gives the
  message with the last one.\<close>

definition ser_pending :: "serializer \<Rightarrow> string \<Rightarrow> bool" where
  "ser_pending s p \<longleftrightarrow> add_bytes p (reading 0 0 None) = Some s"

definition framing :: "string \<Rightarrow> message \<Rightarrow> bool" where
  "framing bytes m \<longleftrightarrow> (\<exists>body. bytes = frame body \<and> int (length body) < 2 ^ 31 - 4 \<and>
     Decode body = Some (Some m))"

lemma length_frame_split: "frame body = p @ q \<Longrightarrow> length p + length q = 4 + length body"
  by (metis frame_def length_append length_length_word)

lemma pending_header:
  "ser_pending s p \<Longrightarrow> length p < 4 \<Longrightarrow> \<exists>ds. s = reading (int (length p)) ds None"
  using header_prefix [of p] by (auto simp: ser_pending_def)

lemma pending_body:
  assumes "ser_pending s p" "4 \<le> length p" "int (length body) < 2 ^ 31 - 4" "frame body = p @ q" "q \<noteq> []"
  shows "s = partial (length body) (drop 4 p)"
proof -
  have "length (drop 4 p) < length body"
    using assms(2,5) length_frame_split [OF assms(4)] by (cases q) simp_all
  then show ?thesis
    using prefix_of_frame [OF assms(3,4)] ser_decode_partial [OF assms(3), of "drop 4 p"] assms(1,2)
    by (simp add: ser_pending_def)
qed

lemma ser_require_pending:
  assumes "ser_pending s p" "frame body = p @ q" "int (length body) < 2 ^ 31 - 4" "q \<noteq> []"
  shows "ser_require s = (if length p < 4 then 4 - length p else length q)"
proof -
  have l: "length p + length q = 4 + length body" using assms(2) by (rule length_frame_split)
  show ?thesis
  proof (cases "length p < 4")
    case True
    then show ?thesis
      using pending_header [OF assms(1)]
      by (auto simp: ser_require_def reading_def numSizeBytes_def nat_diff_distrib)
  next
    case False
    then have "s = partial (length body) (drop 4 p)"
      using pending_body [OF assms(1) _ assms(3,2,4)] by simp
    moreover have "wrap32 (int (length body) + 4) = int (length body) + 4"
      "wrap32 (int (length body) + 4 - int (length p)) = int (length body) + 4 - int (length p)"
      using assms(3) l False by (auto simp: wrap32_id)
    moreover have "int (length q) = int (length body) + 4 - int (length p)"
      "int (length p) < int (length body) + 4"
      using l length_greater_0_conv [of q] assms(4) by linarith+
    moreover have "4 + int (length p - 4) = int (length p)" using False by simp
    ultimately show ?thesis
      using False by (simp add: ser_require_def partial_def reading_def numSizeBytes_def)
  qed
qed

lemma ser_add_more:
  assumes "ser_pending s p" "frame body = p @ c @ q" "int (length body) < 2 ^ 31 - 4" "q \<noteq> []"
  shows "\<exists>s'. ser_add c s = Some (None, s') \<and> ser_pending s' (p @ c)"
proof -
  define pc where "pc = p @ c"
  have body: "frame body = pc @ q" using assms(2) by (simp add: pc_def)
  have l: "length pc + length q = 4 + length body" using body by (rule length_frame_split)
  have w: "wrap32 (int (length body) + 4) = int (length body) + 4"
    using assms(3) by (auto simp: wrap32_id)
  have a: "add_bytes c s = add_bytes pc (reading 0 0 None)"
    using assms(1) by (simp add: ser_pending_def add_bytes_append pc_def)
  obtain s' where s': "add_bytes c s = Some s'" "ser_pending s' pc"
  proof (cases "length pc < 4")
    case True
    with header_prefix [OF True] a that show thesis by (auto simp: ser_pending_def)
  next
    case F: False
    have "length (drop 4 pc) < length body" using assms(4) F l by (cases q) auto
    then have "add_bytes c s = Some (partial (length body) (drop 4 pc))"
      using a prefix_of_frame [OF assms(3) body] F ser_decode_partial [OF assms(3), of "drop 4 pc"] by simp
    then show thesis using a that [of "partial (length body) (drop 4 pc)"]
      unfolding ser_pending_def by (simp only:)
  qed
  have "\<not> (numSizeBytes \<le> count s' \<and> count s' = wrap32 (dataSize s' + numSizeBytes))"
  proof (cases "length pc < 4")
    case True
    then show ?thesis using pending_header [OF s'(2)] by (auto simp: reading_def numSizeBytes_def)
  next
    case F: False
    have "s' = partial (length body) (drop 4 pc)"
      using pending_body [OF s'(2) _ assms(3) body assms(4)] F by simp
    then have "count s' = int (length pc)" "dataSize s' = int (length body)"
      using F by (simp_all add: partial_def reading_def)
    moreover have "length q \<noteq> 0" using assms(4) by simp
    then have "length pc \<noteq> length body + 4" using l by linarith
    ultimately show ?thesis using w by (simp add: numSizeBytes_def)
  qed
  then show ?thesis using s' by (auto simp: ser_add_def pc_def)
qed

lemma ser_add_pending:
  assumes "ser_pending s p" "framing (p @ c @ q) m" "c \<noteq> []"
  shows "\<exists>s'. ser_add c s = Some (if q = [] then Some m else None, s') \<and> (q \<noteq> [] \<longrightarrow> ser_pending s' (p @ c))"
proof -
  obtain body where body: "frame body = p @ c @ q" "int (length body) < 2 ^ 31 - 4"
      "Decode body = Some (Some m)"
    using assms(2) by (auto simp: framing_def)
  show ?thesis
  proof (cases "q = []")
    case True
    have "drop 4 (frame body) = body" by (simp add: frame_def)
    then have d: "drop 4 (p @ c) = body" using body(1) True by simp
    have w: "wrap32 (int (length body) + 4) = int (length body) + 4"
      using body(2) by (auto simp: wrap32_id)
    have "add_bytes c s = Some ((partial (length body) body)\<lparr>valp := Some m\<rparr>)"
      using prefix_of_frame [OF body(2), of "p @ c" "[]"] body(1,3) True d assms(1)
        length_frame_split [of body "p @ c" "[]"] ser_decode_partial [OF body(2), of body]
      by (simp add: ser_pending_def add_bytes_append)
    then show ?thesis
      using True w by (simp add: ser_add_def partial_def reading_def numSizeBytes_def)
  next
    case False
    then show ?thesis using ser_add_more [OF assms(1) body(1,2)] by simp
  qed
qed

section \<open>Properties\<close>

text \<open>C14: Serializing stays inside of its buffer: the length word, the bytes of the characters
  and the terminating NUL fit in the block that \<^verbatim>\<open>serialize\<close> allocates, for every message and
  every character.\<close>

theorem serialize_fits:
  assumes "msg_inv t"
  shows "length (fst (fst (ser_serialize t s))) + 1 \<le> allocated t"
proof -
  have e: "dom_inv (Encode t DOMString_empty)" "dom_chars (Encode t DOMString_empty) = a_encode (msg_abs t)"
    using Encode_spec [of t DOMString_empty] assms by (simp_all add: inv_intros chars_simps)
  then have "dlen (Encode t DOMString_empty) = length (a_encode (msg_abs t))"
    using length_dom_chars by metis
  moreover have "length (concat (map utf8_char xs)) \<le> length xs * 6" for xs
    using length_utf8_char(2) by (induction xs) (auto intro: add_mono)
  ultimately show ?thesis by (simp add: serialized_data [OF assms] allocated_def)
qed

theorem serialize_fits_witness:
  "length (fst (fst (ser_serialize Message_default MessageSerializer_ctor))) + 1 \<le> allocated Message_default"
  using serialize_fits [of Message_default MessageSerializer_ctor] Message_default_spec by simp

end
