(* ===== verification/Message_Roundtrip.thy ===== *)
theory Message_Roundtrip
  imports Message_Parser
begin

text \<open>
  Decoding an encoded message. Messages over \<open>char\<close> stand for messages whose characters
  are bytes. \<open>s_encode\<close> is the encoding as a string, \<open>ev\<close> the callbacks that parsing it
  makes, and \<open>norm\<close> the message that the handlers build from them: the same elements with
  the same attributes in key order, where every stretch of text between two elements, also
  an empty one, is one text child.
\<close>

section \<open>Encoding over bytes\<close>

definition s_esc_char :: "char \<Rightarrow> string" where
  "s_esc_char c =
     (if c = CHR ''&'' then ''&amp;''
      else if c = CHR ''<'' then ''&lt;''
      else if c = CHR ''>'' then ''&gt;''
      else if c = CHR 0x22 then ''&quot;''
      else [c])"

definition s_esc :: "string \<Rightarrow> string" where
  "s_esc s = concat (map s_esc_char s)"

definition s_attr :: "string \<times> string \<Rightarrow> string" where
  "s_attr a = '' '' @ fst a @ ''='' @ [CHR 0x22] @ s_esc (snd a) @ [CHR 0x22]"

fun s_encode :: "char amsg \<Rightarrow> string" where
  "s_encode (AMsg n t as cs) =
     (if n = [] then s_esc t
      else ''<'' @ n @ concat (map s_attr as) @
        (if t = [] \<and> cs = [] then ''/>''
         else ''>'' @ s_esc t @ concat (map s_encode cs) @ ''</'' @ n @ ''>''))"

abbreviation xmsg :: "char amsg \<Rightarrow> xmlch amsg" where
  "xmsg \<equiv> map_amsg xml_of_char"

lemma esc_xmls: "esc (xmls s) = xmls (s_esc s)"
  by (induction s) (simp_all add: esc_def s_esc_def esc_char_def s_esc_char_def)

lemma a_encode_xmsg: "a_encode (xmsg m) = xmls (s_encode m)"
proof (induction m)
  case (AMsg n t as cs)
  have "concat (map (a_attr \<circ> map_prod xmls xmls) as) = xmls (concat (map s_attr as))"
    by (induction as) (simp_all add: a_attr_def s_attr_def esc_xmls)
  moreover have "concat (map (a_encode \<circ> xmsg) cs) = xmls (concat (map s_encode cs))"
    using AMsg by (induction cs) simp_all
  ultimately show ?case
    by (simp add: esc_xmls)
qed

section \<open>Well-formed messages and their normal form\<close>

definition name_ok :: "string \<Rightarrow> bool" where
  "name_ok n \<longleftrightarrow> n \<noteq> [] \<and> list_all is_name_char n"

definition attr_ok :: "string \<times> string \<Rightarrow> bool" where
  "attr_ok a \<longleftrightarrow> name_ok (fst a) \<and> NUL \<notin> set (snd a)"

fun wf_node :: "char amsg \<Rightarrow> bool" where
  "wf_node (AMsg n t as cs) \<longleftrightarrow> NUL \<notin> set t \<and>
     (if n = [] then as = [] \<and> cs = []
      else name_ok n \<and> list_all attr_ok as \<and> list_all wf_node cs)"

definition wf_msg :: "char amsg \<Rightarrow> bool" where
  "wf_msg m \<longleftrightarrow> wf_node m \<and> aname m \<noteq> []"

definition text_node :: "'c list \<Rightarrow> 'c amsg" where
  "text_node s = AMsg [] s [] []"

definition event_attrs :: "(string \<times> string) list \<Rightarrow> attrs" where
  "event_attrs as = foldl (\<lambda>a kv. attrs_insert (fst kv) (Some (snd kv)) a) [] as"

definition norm_attrs :: "(string \<times> string) list \<Rightarrow> (string \<times> string) list" where
  "norm_attrs as = map (\<lambda>kv. (fst kv, the (snd kv))) (event_attrs as)"

fun norm :: "char amsg \<Rightarrow> char amsg"
  and norm_content :: "string \<Rightarrow> char amsg list \<Rightarrow> char amsg list" where
  "norm (AMsg n t as cs) =
     AMsg n [] (norm_attrs as) (if t = [] \<and> cs = [] then [] else norm_content t cs)"
| "norm_content acc [] = [text_node acc, text_node []]"
| "norm_content acc (c # cs) =
     (if aname c = [] then norm_content (acc @ atext c) cs
      else text_node acc # norm c # norm_content [] cs)"

definition ev_text :: "string \<Rightarrow> sax_event" where
  "ev_text s = Characters (to_xml s) (int (length s))"

fun ev :: "char amsg \<Rightarrow> sax_event list"
  and ev_content :: "string \<Rightarrow> char amsg list \<Rightarrow> sax_event list" where
  "ev (AMsg n t as cs) = StartElement (to_xml n) (event_attrs as) #
     (if t = [] \<and> cs = [] then [] else ev_content t cs) @ [EndElement (to_xml n)]"
| "ev_content acc [] = [ev_text acc, ev_text []]"
| "ev_content acc (c # cs) =
     (if aname c = [] then ev_content (acc @ atext c) cs
      else ev_text acc # ev c @ ev_content [] cs)"

section \<open>Escaped strings\<close>

lemma s_esc_append [simp]: "s_esc (a @ b) = s_esc a @ s_esc b"
  by (simp add: s_esc_def)

lemma s_esc_simps [simp]: "s_esc [] = []" "s_esc (c # s) = s_esc_char c @ s_esc s"
  by (simp_all add: s_esc_def)

lemma s_esc_no_markup: "CHR ''<'' \<notin> set (s_esc s)" "CHR 0x22 \<notin> set (s_esc s)"
  by (induction s) (auto simp: s_esc_char_def split: if_splits)

lemma s_esc_no_NUL: "NUL \<notin> set s \<Longrightarrow> NUL \<notin> set (s_esc s)"
  by (induction s) (auto simp: s_esc_char_def split: if_splits)

lemma s_encode_no_NUL: "wf_node m \<Longrightarrow> NUL \<notin> set (s_encode m)"
proof (induction m)
  case (AMsg n t as cs)
  have "NUL \<notin> set n" if "name_ok n" for n
    using that by (auto simp: name_ok_def list_all_iff is_name_char_def isalpha_def less_eq_char_def)
  then have "NUL \<notin> set (concat (map s_attr as))" if "list_all attr_ok as"
    using that s_esc_no_NUL by (induction as) (auto simp: s_attr_def attr_ok_def)
  with AMsg \<open>\<And>n. name_ok n \<Longrightarrow> NUL \<notin> set n\<close> show ?case
    by (auto simp: s_esc_no_NUL list_all_iff split: if_splits)
qed

lemma substitute_s_esc: "substitute_entities (s_esc s) = s"
  by (induction s) (simp_all add: s_esc_char_def)

lemma noteContent_s_esc:
  "NUL \<notin> set acc \<Longrightarrow> docHandler s \<Longrightarrow> noteContent (s_esc acc) s = emit [ev_text acc] s"
  by (simp add: noteContent_def ev_text_def s_esc_no_NUL substitute_s_esc Let_def)

lemma noteContent_Nil: "docHandler s \<Longrightarrow> noteContent [] s = emit [ev_text []] s"
  using noteContent_s_esc [of "[]"] by simp

section \<open>Parsing the attributes and the tags\<close>

lemma name_char_facts:
  "\<not> is_name_char CHR '' ''" "\<not> is_name_char CHR ''=''" "\<not> is_name_char CHR ''>''"
  "\<not> is_name_char CHR ''/''" "\<not> is_name_char CHR 0x22"
  "\<not> is_whitespace_char CHR ''=''" "\<not> is_whitespace_char CHR ''>''"
  "\<not> is_whitespace_char CHR ''/''" "\<not> is_whitespace_char CHR 0x22"
  "is_whitespace_char CHR '' ''"
  by (simp_all add: is_name_char_def isalpha_def is_whitespace_char_def isspace_def less_eq_char_def)

lemma name_char_other:
  "is_name_char c \<Longrightarrow> c \<noteq> CHR ''/'' \<and> c \<noteq> CHR ''!'' \<and> c \<noteq> CHR ''?'' \<and> c \<noteq> NUL \<and> \<not> is_whitespace_char c"
  by (auto simp: is_name_char_def isalpha_def is_whitespace_char_def isspace_def less_eq_char_def)

lemma name_okE:
  assumes "name_ok n"
  obtains c cs where "n = c # cs" "is_name_char c" "list_all is_name_char cs"
  using assms by (cases n) (auto simp: name_ok_def)

lemma getName_name:
  "name_ok n \<Longrightarrow> input s = n @ c # r \<Longrightarrow> \<not> is_name_char c \<Longrightarrow>
   getName s = (Some n, eat n s)"
  by (rule getName_eat) (auto simp: name_ok_def)

lemma getAttrs_loop_eat:
  "list_all attr_ok as \<Longrightarrow> input s = concat (map s_attr as) @ c # r \<Longrightarrow>
   c = CHR ''>'' \<or> c = CHR ''/'' \<Longrightarrow>
   getAttrs_loop False a s =
     (foldl (\<lambda>a kv. attrs_insert (fst kv) (Some (snd kv)) a) a as, eat (concat (map s_attr as)) s)"
proof (induction as arbitrary: a s)
  case Nil
  then have "\<not> is_whitespace_char c" "\<not> is_name_char c" by (auto simp: name_char_facts)
  then show ?case
    using Nil by (subst getAttrs_loop.simps)
      (auto simp: skipWhitespace_other [of s c r] getName_other [of s c r] atChar_def)
next
  case (Cons kv as)
  obtain k v where kv: "kv = (k, v)" by fastforce
  then have sk: "s_attr kv = '' '' @ k @ ''='' @ [CHR 0x22] @ s_esc v @ [CHR 0x22]"
    by (simp add: s_attr_def)
  have k: "name_ok k" using Cons.prems(1) kv by (simp add: attr_ok_def)
  then obtain k0 ks where k0: "k = k0 # ks" "is_name_char k0" by (rule name_okE)
  let ?rest = "concat (map s_attr as) @ c # r"
  define s1 where "s1 = eat '' '' s"
  define s2 where "s2 = eat k s1"
  define s3 where "s3 = eat ''='' s2"
  define s4 where "s4 = eat ([CHR 0x22] @ s_esc v @ [CHR 0x22]) s3"
  have i: "input s = '' '' @ k @ ''='' @ [CHR 0x22] @ s_esc v @ [CHR 0x22] @ ?rest"
    using Cons.prems(2) sk by simp
  then have i1: "input s1 = k @ ''='' @ [CHR 0x22] @ s_esc v @ [CHR 0x22] @ ?rest"
    by (simp add: s1_def)
  then have i2: "input s2 = ''='' @ [CHR 0x22] @ s_esc v @ [CHR 0x22] @ ?rest"
    by (simp add: s2_def)
  then have i3: "input s3 = [CHR 0x22] @ s_esc v @ [CHR 0x22] @ ?rest"
    by (simp add: s3_def)
  then have i4: "input s4 = ?rest" by (simp add: s4_def)
  have "skipWhitespace s = s1"
    using skipWhitespace_eat [of s "'' ''" k0] i k0 name_char_other [OF k0(2)]
    by (simp add: s1_def name_char_facts)
  moreover have "getName s1 = (Some k, s2)"
    using getName_name [OF k, of s1 "CHR ''=''"] i1 by (simp add: s2_def name_char_facts)
  moreover have "matchChar CHR ''='' (skipWhitespace s2) = (True, s3)"
    using skipWhitespace_other [of s2 "CHR ''=''"] matchChar_eat [of s2 "CHR ''=''"] i2
    by (simp add: s3_def name_char_facts)
  moreover have "getQuotedValue (skipWhitespace s3) = (Some (s_esc v), s4)"
    using skipWhitespace_other [of s3 "CHR 0x22"] getQuotedValue_eat [of s3 "s_esc v"] i3
    by (simp add: s4_def name_char_facts s_esc_no_markup)
  ultimately have "getAttrs_loop False a s = getAttrs_loop False (attrs_insert k (Some v) a) s4"
    by (subst getAttrs_loop.simps) (simp add: substitute_s_esc)
  moreover have "eat (concat (map s_attr (kv # as))) s = eat (concat (map s_attr as)) s4"
    by (simp add: sk s1_def s2_def s3_def s4_def eat_append)
  ultimately show ?case
    using Cons.IH [of s4] Cons.prems i4 by (simp add: kv)
qed

lemma name_next:
  assumes "list_all attr_ok as" "c = CHR ''>'' \<or> c = CHR ''/''"
  obtains d r' where "concat (map s_attr as) @ c # r = d # r'" "\<not> is_name_char d"
  using assms by (cases as) (auto simp: s_attr_def name_char_facts)

lemma getName_attrs:
  assumes "name_ok n" "list_all attr_ok as" "c = CHR ''>'' \<or> c = CHR ''/''"
    and i: "input s = n @ concat (map s_attr as) @ c # r"
  shows "getName (skipWhitespace s) = (Some n, eat n s)"
proof -
  obtain d r' where d: "concat (map s_attr as) @ c # r = d # r'" "\<not> is_name_char d"
    using name_next assms(2,3) by blast
  obtain n0 ns where n0: "n = n0 # ns" "is_name_char n0" using assms(1) by (rule name_okE)
  have "skipWhitespace s = s"
    using skipWhitespace_other [of s n0] i n0 name_char_other [OF n0(2)] by simp
  then show ?thesis
    using getName_name [OF assms(1), of s d r'] i d by simp
qed

lemma getElement_empty:
  assumes n: "name_ok n" and as: "list_all attr_ok as" and doc: "docHandler s"
    and i: "input s = n @ concat (map s_attr as) @ ''/>'' @ r"
  shows "getElement (Suc f) s =
    Some (emit [StartElement (to_xml n) (event_attrs as), EndElement (to_xml n)]
      (eat (n @ concat (map s_attr as) @ ''/>'') s))"
proof -
  obtain n0 ns where n0: "n = n0 # ns" "is_name_char n0" using n by (rule name_okE)
  define s2 where "s2 = eat n s"
  define s3 where "s3 = eat (concat (map s_attr as)) s2"
  have i2: "input s2 = concat (map s_attr as) @ CHR ''/'' # CHR ''>'' # r"
    using i by (simp add: s2_def)
  have m: "matchChar CHR ''/'' s = (False, s)"
    using matchChar_other [of s n0] i n0 name_char_other [OF n0(2)] by simp
  have g: "getName (skipWhitespace s) = (Some n, s2)"
    using getName_attrs [OF n as, of "CHR ''/''"] i by (simp add: s2_def)
  have a: "getAttrs_loop False [] s2 = (event_attrs as, s3)"
    using getAttrs_loop_eat [OF as i2, of "[]"] by (simp add: event_attrs_def s3_def)
  have c: "getChar s3 = (Some CHR ''/'', eat ''/'' s3)"
    using getChar_eat [of s3 "CHR ''/''"] i2 by (simp add: s3_def)
  have c': "getChar (eat ''/'' s3) = (Some CHR ''>'', eat ''>'' (eat ''/'' s3))"
    using getChar_eat [of "eat ''/'' s3" "CHR ''>''"] i2 by (simp add: s3_def)
  have e: "eat (n @ concat (map s_attr as) @ ''/>'') s = eat ''>'' (eat ''/'' s3)"
    by (simp add: s2_def s3_def eat_append)
  have d: "docHandler (eat ''>'' (eat ''/'' s3))" using doc by (simp add: s2_def s3_def)
  show ?thesis
    unfolding e using m g a c c' d
    by (simp add: noteStartElement_def noteEndElement_def del: eat.simps)
qed

lemma getElement_content:
  assumes n: "name_ok n" and as: "list_all attr_ok as" and doc: "docHandler s"
    and i: "input s = n @ concat (map s_attr as) @ ''>'' @ r"
  shows "getElement (Suc f) s =
    map_option (noteEndElement n) (getContent f (Some n) []
      (emit [StartElement (to_xml n) (event_attrs as)] (eat (n @ concat (map s_attr as) @ ''>'') s)))"
proof -
  obtain n0 ns where n0: "n = n0 # ns" "is_name_char n0" using n by (rule name_okE)
  define s2 where "s2 = eat n s"
  define s3 where "s3 = eat (concat (map s_attr as)) s2"
  have i2: "input s2 = concat (map s_attr as) @ CHR ''>'' # r"
    using i by (simp add: s2_def)
  have m: "matchChar CHR ''/'' s = (False, s)"
    using matchChar_other [of s n0] i n0 name_char_other [OF n0(2)] by simp
  have g: "getName (skipWhitespace s) = (Some n, s2)"
    using getName_attrs [OF n as, of "CHR ''>''"] i by (simp add: s2_def)
  have a: "getAttrs_loop False [] s2 = (event_attrs as, s3)"
    using getAttrs_loop_eat [OF as i2, of "[]"] by (simp add: event_attrs_def s3_def)
  have c: "getChar s3 = (Some CHR ''>'', eat ''>'' s3)"
    using getChar_eat [of s3 "CHR ''>''"] i2 by (simp add: s3_def)
  have e: "eat (n @ concat (map s_attr as) @ ''>'') s = eat ''>'' s3"
    by (simp add: s2_def s3_def eat_append)
  have d: "docHandler (eat ''>'' s3)" using doc by (simp add: s2_def s3_def)
  show ?thesis
    unfolding e using m g a c d
    by (simp add: noteStartElement_def del: eat.simps)
qed

lemma getEndTag_eat:
  assumes n: "name_ok n" and i: "input s = n @ CHR ''>'' # r"
  shows "getEndTag n s = eat (n @ ''>'') s"
proof -
  obtain n0 ns where n0: "n = n0 # ns" "is_name_char n0" using n by (rule name_okE)
  have w: "skipWhitespace s = s"
    using skipWhitespace_other [of s n0] i n0 name_char_other [OF n0(2)] by simp
  have g: "getName s = (Some n, eat n s)"
    using getName_name [OF n i] by (simp add: name_char_facts)
  have m: "matchChar CHR ''>'' (skipWhitespace (eat n s)) = (True, eat ''>'' (eat n s))"
    using skipWhitespace_other [of "eat n s" "CHR ''>''"] matchChar_eat [of "eat n s" "CHR ''>''"] i
    by (simp add: name_char_facts)
  show ?thesis
    unfolding getEndTag_def using w g m by (simp add: eat_append del: eat.simps)
qed

section \<open>Parsing an encoded message\<close>

lemma getContent_end:
  assumes n: "name_ok n" and acc: "NUL \<notin> set acc" and doc: "docHandler s"
    and i: "input s = ''</'' @ n @ ''>'' @ r"
  shows "getContent (Suc f) (Some n) (s_esc acc) s =
    Some (emit [ev_text acc, ev_text []] (eat (''</'' @ n @ ''>'') s))"
proof -
  define s1 where "s1 = eat ''<'' s"
  define s2 where "s2 = emit [ev_text acc] s1"
  define s3 where "s3 = eat ''/'' s2"
  have c: "getChar s = (Some CHR ''<'', s1)"
    using getChar_eat [of s "CHR ''<''"] i by (simp add: s1_def)
  have n1: "noteContent (s_esc acc) s1 = s2"
    using noteContent_s_esc [OF acc] doc by (simp add: s1_def s2_def del: eat.simps)
  have m: "matchChar CHR ''/'' s2 = (True, s3)"
    using matchChar_eat [of s2 "CHR ''/''"] i by (simp add: s3_def s2_def s1_def)
  have e: "getEndTag n s3 = eat (n @ ''>'') s3"
    using getEndTag_eat [OF n, of s3 r] i by (simp add: s3_def s2_def s1_def)
  have n2: "noteContent [] (eat (n @ ''>'') s3) = emit [ev_text []] (eat (n @ ''>'') s3)"
    by (rule noteContent_Nil) (simp add: s3_def s2_def s1_def doc del: eat.simps)
  have "emit [ev_text []] (eat (n @ ''>'') s3) =
      emit [ev_text acc, ev_text []] (eat (''</'' @ n @ ''>'') s)"
    unfolding s3_def s2_def s1_def eat_emit by (simp add: eat_append)
  with c n1 m e n2 show ?thesis by (simp add: Let_def)
qed

lemma getContent_open:
  assumes acc: "NUL \<notin> set acc" and doc: "docHandler s"
    and i: "input s = ''<'' @ c # r" and c: "is_name_char c"
  shows "getContent (Suc f) tag (s_esc acc) s =
    Option.bind (getElement f (emit [ev_text acc] (eat ''<'' s))) (getContent f tag [])"
proof -
  define s1 where "s1 = eat ''<'' s"
  define s2 where "s2 = emit [ev_text acc] s1"
  have i2: "input s2 = c # r" using i by (simp add: s1_def s2_def)
  have g: "getChar s = (Some CHR ''<'', s1)"
    using getChar_eat [of s "CHR ''<''"] i by (simp add: s1_def)
  have n1: "noteContent (s_esc acc) s1 = s2"
    using noteContent_s_esc [OF acc] doc by (simp add: s1_def s2_def del: eat.simps)
  have m: "matchChar CHR ''/'' s2 = (False, s2)" "matchChar CHR ''!'' s2 = (False, s2)"
    "matchChar CHR ''?'' s2 = (False, s2)"
    using matchChar_other [OF i2] name_char_other [OF c] by auto
  show ?thesis
    using g n1 m unfolding s1_def [symmetric] s2_def [symmetric]
    by (cases tag) (simp_all add: Let_def bind_eq_None_conv split: option.split)
qed

definition element_parses :: "char amsg \<Rightarrow> bool" where
  "element_parses c \<longleftrightarrow> (\<forall>s r. docHandler s \<longrightarrow> input s = tl (s_encode c) @ r \<longrightarrow>
     (\<exists>f. getElement f s = Some (emit (ev c) (eat (tl (s_encode c)) s))))"

lemma element_parsesD:
  "element_parses c \<Longrightarrow> docHandler s \<Longrightarrow> input s = tl (s_encode c) @ r \<Longrightarrow>
   \<exists>f. getElement f s = Some (emit (ev c) (eat (tl (s_encode c)) s))"
  unfolding element_parses_def by blast

lemma s_encode_element:
  assumes "wf_node c" "aname c \<noteq> []"
  obtains d w where "s_encode c = CHR ''<'' # d # w" "is_name_char d"
proof -
  obtain n t as cs where c: "c = AMsg n t as cs" by (cases c)
  with assms obtain n0 ns where "n = n0 # ns" "is_name_char n0" by (auto elim: name_okE)
  with c that show thesis by auto
qed

lemma getContent_children:
  assumes "name_ok n" "list_all wf_node cs"
    and "\<And>c. c \<in> set cs \<Longrightarrow> aname c \<noteq> [] \<Longrightarrow> element_parses c"
    and "NUL \<notin> set acc" "docHandler s"
    and "input s = concat (map s_encode cs) @ ''</'' @ n @ ''>'' @ r"
  shows "\<exists>f. getContent f (Some n) (s_esc acc) s =
    Some (emit (ev_content acc cs) (eat (concat (map s_encode cs) @ ''</'' @ n @ ''>'') s))"
  using assms
proof (induction cs arbitrary: acc s)
  case Nil
  then show ?case using getContent_end [of n acc s r 0] by (intro exI [of _ 1]) simp
next
  case (Cons c cs)
  let ?tail = "concat (map s_encode cs) @ ''</'' @ n @ ''>''"
  note IH = Cons.IH [OF Cons.prems(1) _ Cons.prems(3)]
  show ?case
  proof (cases "aname c = []")
    case True
    then obtain t where c: "c = AMsg [] t [] []" "NUL \<notin> set t"
      using Cons.prems(2) by (cases c) auto
    obtain f where f: "getContent f (Some n) (s_esc (acc @ t)) (eat (s_esc t) s) =
        Some (emit (ev_content (acc @ t) cs) (eat ?tail (eat (s_esc t) s)))"
      using IH [of "acc @ t" "eat (s_esc t) s"] Cons.prems c by auto
    have "getContent (f + length (s_esc t)) (Some n) (s_esc acc) s =
        getContent f (Some n) (s_esc acc @ s_esc t) (eat (s_esc t) s)"
      using getContent_text [OF s_esc_no_markup(1), of s t "?tail @ r"] Cons.prems(6) c by simp
    then show ?thesis
      using f c by (intro exI [of _ "f + length (s_esc t)"]) (simp add: eat_append)
  next
    case False
    have wf: "wf_node c" and p: "element_parses c" using Cons.prems False by auto
    obtain d w where d: "s_encode c = CHR ''<'' # d # w" "is_name_char d"
      using s_encode_element [OF wf False] by blast
    define s1 where "s1 = emit [ev_text acc] (eat ''<'' s)"
    define s2 where "s2 = emit (ev c) (eat (d # w) s1)"
    obtain f1 where f1: "getElement f1 s1 = Some s2"
      using element_parsesD [OF p, of s1 "?tail @ r"] Cons.prems(5,6) d by (auto simp: s1_def s2_def)
    obtain f2 where f2: "getContent f2 (Some n) [] s2 = Some (emit (ev_content [] cs) (eat ?tail s2))"
      using IH [of "[]" s2] Cons.prems d by (auto simp: s1_def s2_def)
    have "getContent (Suc (f1 + f2)) (Some n) (s_esc acc) s =
        Option.bind (getElement (f1 + f2) s1) (getContent (f1 + f2) (Some n) [])"
      using getContent_open [OF Cons.prems(4,5) _ d(2), of "w @ ?tail @ r"] Cons.prems(6) d
      by (simp add: s1_def)
    also have "\<dots> = Some (emit (ev_content [] cs) (eat ?tail s2))"
      using getContent_getElement_mono(2) [OF f1, of "f1 + f2"]
        getContent_getElement_mono(1) [OF f2, of "f1 + f2"] by simp
    also have "emit (ev_content [] cs) (eat ?tail s2) =
        emit (ev_content acc (c # cs)) (eat (concat (map s_encode (c # cs)) @ ''</'' @ n @ ''>'') s)"
      using False d by (simp add: s1_def s2_def eat_emit eat_append)
    finally show ?thesis by blast
  qed
qed

lemma element_parses_wf: "wf_node m \<Longrightarrow> aname m \<noteq> [] \<Longrightarrow> element_parses m"
proof (induction m)
  case (AMsg n t as cs)
  then have n: "name_ok n" and as: "list_all attr_ok as" and t: "NUL \<notin> set t"
    and cs: "list_all wf_node cs" "n \<noteq> []"
    by auto
  have IH: "element_parses c" if "c \<in> set cs" "aname c \<noteq> []" for c
    using AMsg.IH that cs by (auto simp: list_all_iff)
  show ?case
    unfolding element_parses_def
  proof (intro allI impI)
    fix s :: sax and r
    assume doc: "docHandler s" and i: "input s = tl (s_encode (AMsg n t as cs)) @ r"
    show "\<exists>f. getElement f s = Some (emit (ev (AMsg n t as cs)) (eat (tl (s_encode (AMsg n t as cs))) s))"
    proof (cases "t = [] \<and> cs = []")
      case True
      then show ?thesis
        using getElement_empty [OF n as doc, of r 0] i cs by (intro exI [of _ 1]) simp
    next
      case False
      let ?tag = "n @ concat (map s_attr as) @ ''>''"
      let ?tail = "concat (map s_encode cs) @ ''</'' @ n @ ''>''"
      define s1 where "s1 = emit [StartElement (to_xml n) (event_attrs as)] (eat ?tag s)"
      obtain f where f: "getContent f (Some n) (s_esc t) (eat (s_esc t) s1) =
          Some (emit (ev_content t cs) (eat ?tail (eat (s_esc t) s1)))"
        using getContent_children [OF n cs(1) IH t, of "eat (s_esc t) s1" r] i False doc cs
        by (auto simp: s1_def)
      have "getContent (f + length (s_esc t)) (Some n) [] s1 =
          getContent f (Some n) (s_esc t) (eat (s_esc t) s1)"
        using getContent_text [OF s_esc_no_markup(1), of s1 t "?tail @ r"] i False cs
        by (auto simp: s1_def)
      then have "getElement (Suc (f + length (s_esc t))) s =
          Some (noteEndElement n (emit (ev_content t cs) (eat ?tail (eat (s_esc t) s1))))"
        using getElement_content [OF n as doc, of "s_esc t @ ?tail @ r"] f i False cs
        by (simp add: s1_def)
      also have "\<dots> = Some (emit (ev (AMsg n t as cs)) (eat (?tag @ s_esc t @ ?tail) s))"
      proof -
        have "ev (AMsg n t as cs) = [StartElement (to_xml n) (event_attrs as)] @ ev_content t cs @
            [EndElement (to_xml n)]"
          using False by auto
        then show ?thesis
          using doc unfolding s1_def noteEndElement_def eat_emit eat_append by simp
      qed
      also have "?tag @ s_esc t @ ?tail = tl (s_encode (AMsg n t as cs))"
        using False cs by auto
      finally show ?thesis by blast
    qed
  qed
qed

lemma events_eat: "events (eat v s) = events s"
  by (induction v arbitrary: s) (simp_all add: accountChar_def)

lemma parse_buffer_s_encode:
  assumes "wf_msg m"
  shows "\<exists>s. parse_buffer True True (s_encode m) = Some s \<and>
    events s = [StartDocument, ev_text []] @ ev m @ [ev_text [], EndDocument]"
proof -
  have wf: "wf_node m" "aname m \<noteq> []" using assms by (auto simp: wf_msg_def)
  obtain d w where d: "s_encode m = CHR ''<'' # d # w" "is_name_char d"
    using s_encode_element [OF wf] by blast
  define s0 where "s0 = noteBeginFile ((sax_init True True)
    \<lparr>input := s_encode m, curLine := 1, curCol := 0\<rparr>)"
  have doc: "docHandler s0" and i: "input s0 = s_encode m" and e0: "events s0 = [StartDocument]"
    by (simp_all add: s0_def noteBeginFile_def sax_init_def emit_def)
  define s1 where "s1 = emit [ev_text []] (eat ''<'' s0)"
  define s2 where "s2 = emit (ev m) (eat (d # w) s1)"
  obtain f1 where f1: "getElement f1 s1 = Some s2"
    using element_parsesD [OF element_parses_wf [OF wf], of s1 "[]"] doc i d
    by (auto simp: s1_def s2_def)
  have c2: "getContent (Suc k) None [] s2 = Some (emit [ev_text []] s2)" for k
    using doc i d by (simp add: s2_def s1_def getChar_def noteContent_Nil)
  have ge: "getElement (Suc f1) s1 = Some s2"
    using getContent_getElement_mono(2) [OF f1, of "Suc f1"] by simp
  have "getContent (Suc (Suc f1)) None (s_esc []) s0 =
      Option.bind (getElement (Suc f1) s1) (getContent (Suc f1) None [])"
    using getContent_open [of "[]" s0 d w "Suc f1" None] doc i d by (simp add: s1_def)
  then have c0: "getContent (Suc (Suc f1)) None [] s0 = Some (emit [ev_text []] s2)"
    by (simp only: ge c2 Option.bind.bind_lunit s_esc_simps(1))
  obtain s' where s': "getContent (Suc (length (input s0))) None [] s0 = Some s'"
    using getContent_getElement_enough(1) [of s0 "Suc (length (input s0))"] by blast
  let ?f = "max (Suc (Suc f1)) (Suc (length (input s0)))"
  have "s' = emit [ev_text []] s2"
    using getContent_getElement_mono(1) [OF s', of ?f] getContent_getElement_mono(1) [OF c0, of ?f]
    by simp
  then have "getContent (Suc (length (s_encode m))) None [] s0 = Some (emit [ev_text []] s2)"
    using s' i by (simp only:)
  then have "parse_buffer True True (s_encode m) = Some (noteEndFile (emit [ev_text []] s2))"
    unfolding parse_buffer_def getFile_def s0_def by (simp del: getContent.simps)
  moreover have "events (noteEndFile (emit [ev_text []] s2)) =
      [StartDocument, ev_text []] @ ev m @ [ev_text [], EndDocument]"
    using doc by (simp add: noteEndFile_def s2_def s1_def emit_def e0 events_eat del: eat.simps)
  ultimately show ?thesis by blast
qed

section \<open>Building the message from the callbacks\<close>

definition good_attrs :: "attrs \<Rightarrow> bool" where
  "good_attrs as \<longleftrightarrow> (\<forall>(k, v) \<in> set as. NUL \<notin> set k \<and> (\<exists>w. v = Some w \<and> NUL \<notin> set w))"

lemma good_attrs_insert:
  "good_attrs as \<Longrightarrow> NUL \<notin> set k \<Longrightarrow> NUL \<notin> set v \<Longrightarrow> good_attrs (attrs_insert k (Some v) as)"
  by (induction k "Some v" as rule: attrs_insert.induct) (auto simp: good_attrs_def)

lemma name_ok_no_NUL: "name_ok n \<Longrightarrow> NUL \<notin> set n"
  using name_char_other by (auto simp: name_ok_def list_all_iff)

lemma good_attrs_foldl:
  "good_attrs a \<Longrightarrow> list_all attr_ok as \<Longrightarrow>
   good_attrs (foldl (\<lambda>a kv. attrs_insert (fst kv) (Some (snd kv)) a) a as)"
  by (induction as arbitrary: a) (auto simp: attr_ok_def good_attrs_insert name_ok_no_NUL)

lemma good_event_attrs: "list_all attr_ok as \<Longrightarrow> good_attrs (event_attrs as)"
  using good_attrs_foldl [of "[]" as] by (simp add: event_attrs_def good_attrs_def)

lemma add_attributes_spec:
  assumes "good_attrs as" and "i + n = length as" and "msg_inv msg"
  shows "\<exists>m'. add_attributes as i n msg = Some m' \<and> msg_inv m' \<and>
    msg_abs m' = AMsg (aname (msg_abs msg)) (atext (msg_abs msg))
      (aattrs (msg_abs msg) @ map (\<lambda>kv. (xmls (fst kv), xmls (the (snd kv)))) (drop i as))
      (achildren (msg_abs msg))"
  using assms
proof (induction n arbitrary: i msg)
  case 0
  then show ?case by (cases "msg_abs msg") auto
next
  case (Suc n)
  then have i: "i < length as" by simp
  obtain k w where kw: "as ! i = (k, Some w)" "NUL \<notin> set k" "NUL \<notin> set w"
    using Suc.prems(1) nth_mem [OF i] by (fastforce simp: good_attrs_def)
  define m1 where "m1 = AddAttribute msg (dom_of (xmls k)) (dom_of (xmls w))"
  have m1: "msg_inv m1" "msg_abs m1 = AMsg (aname (msg_abs msg)) (atext (msg_abs msg))
      (aattrs (msg_abs msg) @ [(xmls k, xmls w)]) (achildren (msg_abs msg))"
    using AddAttribute_spec [OF Suc.prems(3)] by (auto simp: m1_def)
  have "add_attributes as i (Suc n) msg = add_attributes as (Suc i) n m1"
    using i kw by (simp add: getName_at_def getValue_at_def DOMString_of_to_xml m1_def)
  then show ?case
    using Suc.IH [of "Suc i" m1] Suc.prems m1 i kw by (auto simp flip: Cons_nth_drop_Suc)
qed

definition deliver :: "message \<Rightarrow> mparser \<Rightarrow> mparser" where
  "deliver b p = (case messageStack p of
     [] \<Rightarrow> p\<lparr>finalRoot := Popped b\<rparr>
   | parent # below \<Rightarrow> p\<lparr>messageStack := AddChild parent b # below\<rparr>)"

lemma handle_all_append:
  "handle_all (es @ fs) p = Option.bind (handle_all es p) (handle_all fs)"
  by (induction es p rule: handle_all.induct) (auto split: bind_split)

lemma handle_ev_text:
  assumes "NUL \<notin> set t" "messageStack p = b # below" "msg_inv b"
  shows "\<exists>b'. handle (ev_text t) p = Some (p\<lparr>messageStack := b' # below\<rparr>) \<and> msg_inv b' \<and>
    msg_abs b' = add_achildren (msg_abs b) [xmsg (text_node t)]"
  using assms AddText_spec [OF assms(3), of "dom_of (xmls t)"] DOMString_of_ptr_len_of [of "length t" "to_xml t"]
  by (intro exI [of _ "AddText b (dom_of (xmls t))"])
    (simp add: ev_text_def handler_characters_def to_xml_def text_node_def)

lemma handle_StartElement:
  assumes "NUL \<notin> set n" "good_attrs as"
  shows "\<exists>b. handle (StartElement (to_xml n) as) p =
      Some (p\<lparr>finalRoot := (if messageStack p = [] then OnStack else finalRoot p),
        messageStack := b # messageStack p\<rparr>) \<and> msg_inv b \<and>
    msg_abs b = AMsg (xmls n) [] (map (\<lambda>kv. (xmls (fst kv), xmls (the (snd kv)))) as) []"
  using add_attributes_spec [OF assms(2), of 0 "length as" "Message_named (dom_of (xmls n))"]
    Message_named_spec [of "dom_of (xmls n)"] assms(1)
  by (auto simp: handler_startElement_def DOMString_of_to_xml getLength_def)

lemma handle_EndElement:
  assumes "messageStack p = b # messageStack q"
    and "p = q\<lparr>finalRoot := (if messageStack q = [] then OnStack else finalRoot q), messageStack := messageStack p\<rparr>"
  shows "handle (EndElement n) p = Some (deliver b q)"
proof (cases "messageStack q")
  case Nil
  then show ?thesis
    using assms by (cases p; cases q) (simp add: handler_endElement_def deliver_def)
next
  case (Cons parent below)
  then show ?thesis
    using assms by (cases p; cases q) (simp add: handler_endElement_def deliver_def)
qed

lemma handle_ev:
  "wf_node m \<Longrightarrow> aname m \<noteq> [] \<Longrightarrow>
   \<exists>b. handle_all (ev m) p = Some (deliver b p) \<and> msg_inv b \<and> msg_abs b = xmsg (norm m)"
  "list_all wf_node cs \<Longrightarrow> NUL \<notin> set acc \<Longrightarrow> messageStack q = b # below \<Longrightarrow> msg_inv b \<Longrightarrow>
   \<exists>b'. handle_all (ev_content acc cs) q = Some (q\<lparr>messageStack := b' # below\<rparr>) \<and> msg_inv b' \<and>
     msg_abs b' = add_achildren (msg_abs b) (map xmsg (norm_content acc cs))"
proof (induction m and acc cs arbitrary: p and q b below rule: ev_ev_content.induct)
  case (1 n t as cs)
  then have n: "NUL \<notin> set n" and as: "good_attrs (event_attrs as)" and t: "NUL \<notin> set t"
    and cs: "list_all wf_node cs"
    by (auto simp: name_ok_no_NUL good_event_attrs split: if_splits)
  define q where "q b = p\<lparr>finalRoot := (if messageStack p = [] then OnStack else finalRoot p),
    messageStack := b # messageStack p\<rparr>" for b
  obtain b where b: "handle (StartElement (to_xml n) (event_attrs as)) p = Some (q b)" "msg_inv b"
      "msg_abs b = AMsg (xmls n) [] (map (\<lambda>kv. (xmls (fst kv), xmls (the (snd kv)))) (event_attrs as)) []"
    using handle_StartElement [OF n as, of p] by (auto simp: q_def)
  have close: "handle (EndElement (to_xml n)) (q c) = Some (deliver c p)" for c
    by (rule handle_EndElement) (simp_all add: q_def)
  show ?case
  proof (cases "t = [] \<and> cs = []")
    case True
    then show ?thesis using b close by (intro exI [of _ b]) (simp add: norm_attrs_def o_def)
  next
    case False
    obtain b' where b': "handle_all (ev_content t cs) (q b) = Some (q b')" "msg_inv b'"
        "msg_abs b' = add_achildren (msg_abs b) (map xmsg (norm_content t cs))"
      using "1.IH" [OF False cs t _ b(2), of "q b"] by (auto simp: q_def)
    show ?thesis
      using False b b' close
      by (intro exI [of _ b']) (auto simp: handle_all_append norm_attrs_def add_achildren_def o_def)
  qed
next
  case (2 acc)
  obtain b1 where b1: "handle (ev_text acc) q = Some (q\<lparr>messageStack := b1 # below\<rparr>)" "msg_inv b1"
      "msg_abs b1 = add_achildren (msg_abs b) [xmsg (text_node acc)]"
    using handle_ev_text [OF 2(2-4)] by blast
  obtain b2 where b2: "handle (ev_text []) (q\<lparr>messageStack := b1 # below\<rparr>) =
      Some (q\<lparr>messageStack := b2 # below\<rparr>)" "msg_inv b2"
      "msg_abs b2 = add_achildren (msg_abs b1) [xmsg (text_node [])]"
    using handle_ev_text [of "[]" "q\<lparr>messageStack := b1 # below\<rparr>" b1 below] b1(2) by auto
  show ?case using b1 b2 by auto
next
  case (3 acc c cs)
  show ?case
  proof (cases "aname c = []")
    case True
    then have "NUL \<notin> set (acc @ atext c)"
      using 3 by (cases c) auto
    then show ?thesis
      using "3.IH"(1) [OF True, of q b below] "3.prems" True by auto
  next
    case False
    obtain b1 where b1: "handle (ev_text acc) q = Some (q\<lparr>messageStack := b1 # below\<rparr>)" "msg_inv b1"
        "msg_abs b1 = add_achildren (msg_abs b) [xmsg (text_node acc)]"
      using handle_ev_text [OF "3.prems"(2-4)] by blast
    obtain b2 where b2: "handle_all (ev c) (q\<lparr>messageStack := b1 # below\<rparr>) =
        Some (deliver b2 (q\<lparr>messageStack := b1 # below\<rparr>))" "msg_inv b2" "msg_abs b2 = xmsg (norm c)"
      using "3.IH"(2) [OF False, of "q\<lparr>messageStack := b1 # below\<rparr>"] "3.prems" False by auto
    define b3 where "b3 = AddChild b1 b2"
    have b3: "msg_inv b3" "msg_abs b3 = add_achildren (msg_abs b) [xmsg (text_node acc), xmsg (norm c)]"
      using AddChild_spec [OF b1(2) b2(2)] b1(3) b2(3) by (simp_all add: b3_def)
    obtain b4 where b4: "handle_all (ev_content [] cs) (q\<lparr>messageStack := b3 # below\<rparr>) =
        Some (q\<lparr>messageStack := b4 # below\<rparr>)" "msg_inv b4"
        "msg_abs b4 = add_achildren (msg_abs b3) (map xmsg (norm_content [] cs))"
      using "3.IH"(3) [OF False, of "q\<lparr>messageStack := b3 # below\<rparr>" b3 below] "3.prems" b3(1) by auto
    show ?thesis
      using False b1(1) b2(1) b3 b4
      by (intro exI [of _ b4]) (simp add: handle_all_append deliver_def b3_def)
  qed
qed

text \<open>Decoding the encoding of a message gives its normal form.\<close>

lemma Decode_s_encode:
  assumes "wf_msg m"
  shows "\<exists>b. Decode (s_encode m) = Some (Some b) \<and> msg_inv b \<and> msg_abs b = xmsg (norm m)"
proof -
  have wf: "wf_node m" "aname m \<noteq> []" using assms by (auto simp: wf_msg_def)
  obtain s where s: "parse_buffer True True (s_encode m) = Some s"
      "events s = [StartDocument, ev_text []] @ ev m @ [ev_text [], EndDocument]"
    using parse_buffer_s_encode [OF assms] by blast
  obtain b where b: "handle_all (ev m) MessageParser_ctor = Some (deliver b MessageParser_ctor)"
      "msg_inv b" "msg_abs b = xmsg (norm m)"
    using handle_ev(1) [OF wf] by blast
  have e: "messageStack MessageParser_ctor = []"
    by (simp add: MessageParser_ctor_def resetErrors_def)
  have "handle (ev_text []) q = Some q" if "messageStack q = []" for q
    using that by (simp add: ev_text_def handler_characters_def)
  then have "mparser_parse (s_encode m) MessageParser_ctor = Some (deliver b MessageParser_ctor)"
    using s b e by (simp add: mparser_parse_def handle_all_append deliver_def)
  then show ?thesis
    using b e by (simp add: Decode_def root_message_def deliver_def)
qed

section \<open>What the normal form keeps\<close>

lemma a_text_content:
  "list_all wf_node cs \<Longrightarrow>
   concat (map (\<lambda>c. if aname c = [] then a_text c else []) (norm_content acc cs)) =
   acc @ concat (map (\<lambda>c. if aname c = [] then a_text c else []) cs)"
proof (induction cs arbitrary: acc)
  case (Cons c cs)
  show ?case
  proof (cases "aname c = []")
    case True
    then have "a_text c = atext c" using Cons.prems by (cases c) simp
    then show ?thesis using True Cons by simp
  next
    case False
    then have "aname (norm c) \<noteq> []" by (cases c) simp
    then show ?thesis using False Cons by (simp add: text_node_def)
  qed
qed (simp add: text_node_def)

lemma norm_text: "wf_msg m \<Longrightarrow> a_text (norm m) = a_text m"
  by (cases m) (auto simp: wf_msg_def a_text_content)

lemma norm_elements_content:
  "filter (\<lambda>c. aname c \<noteq> []) (norm_content acc cs) = map norm (filter (\<lambda>c. aname c \<noteq> []) cs)"
proof (induction cs arbitrary: acc)
  case (Cons c cs)
  have "aname (norm c) = aname c" by (cases c) simp
  then show ?case using Cons by (simp add: text_node_def)
qed (simp add: text_node_def)

lemma norm_elements:
  "filter (\<lambda>c. aname c \<noteq> []) (achildren (norm m)) = map norm (filter (\<lambda>c. aname c \<noteq> []) (achildren m))"
  by (cases m) (simp add: norm_elements_content)

text \<open>The parser's map keeps the first of several attributes with one name, the lookup in
  the message takes the last: they agree where no name is repeated.\<close>

lemma map_of_attrs_insert:
  "map_of (attrs_insert k v as) x =
     (if x = k \<and> map_of as k = None then Some v else map_of as x)"
  if "sorted_wrt (<) (map fst as)"
  using that by (induction k v as rule: attrs_insert.induct) (auto dest!: map_of_SomeD)

lemma set_attrs_insert: "fst ` set (attrs_insert k v as) = insert k (fst ` set as)"
  by (induction k v as rule: attrs_insert.induct) auto

lemma sorted_attrs_insert:
  "sorted_wrt (<) (map fst as) \<Longrightarrow> sorted_wrt (<) (map fst (attrs_insert k v as))"
proof (induction k v as rule: attrs_insert.induct)
  case (2 k v k' v' xs)
  then show ?case using set_attrs_insert [of k v xs] by auto
qed simp

lemma foldl_attrs_insert:
  "sorted_wrt (<) (map fst a) \<Longrightarrow>
   sorted_wrt (<) (map fst (foldl (\<lambda>a kv. attrs_insert (fst kv) (Some (snd kv)) a) a as)) \<and>
   map_of (foldl (\<lambda>a kv. attrs_insert (fst kv) (Some (snd kv)) a) a as) x =
     (case map_of a x of Some v \<Rightarrow> Some v | None \<Rightarrow> map_option Some (map_of as x))"
proof (induction as arbitrary: a)
  case (Cons kv as)
  then show ?case
    by (cases kv) (auto simp: map_of_attrs_insert sorted_attrs_insert split: option.splits)
qed (auto split: option.split)

lemma map_of_the: "map_of (map (\<lambda>kv. (fst kv, the (snd kv))) as) x = map_option the (map_of as x)"
  by (induction as) auto

lemma distinct_norm_attrs: "distinct (map fst (norm_attrs as))"
proof -
  have "sorted_wrt (<) (map fst (event_attrs as))"
    using foldl_attrs_insert [of "[]" as] by (simp add: event_attrs_def)
  then have "distinct (map fst (event_attrs as))"
    by (auto simp: strict_sorted_iff)
  then show ?thesis by (simp add: norm_attrs_def o_def)
qed

lemma map_of_norm_attrs: "map_of (norm_attrs as) x = map_of as x"
  using foldl_attrs_insert [of "[]" as x]
  by (simp add: norm_attrs_def map_of_the event_attrs_def option.map_comp o_def option.map_ident)

lemma map_of_rev_distinct: "distinct (map fst as) \<Longrightarrow> map_of (rev as) x = map_of as x"
  by (metis distinct_map distinct_rev map_of_eq_Some_iff not_Some_eq rev_map set_rev)

lemma norm_lookup:
  assumes "distinct (map fst (aattrs m))"
  shows "map_of (rev (aattrs (norm m))) x = map_of (rev (aattrs m)) x"
  using assms distinct_norm_attrs
  by (cases m) (simp add: map_of_rev_distinct map_of_norm_attrs)

section \<open>The round trip\<close>

lemma a_text_xmsg: "a_text (xmsg m) = xmls (a_text m)"
proof (induction m)
  case (AMsg n t as cs)
  have "concat (map (\<lambda>c. if aname c = [] then a_text c else []) (map xmsg cs)) =
      xmls (concat (map (\<lambda>c. if aname c = [] then a_text c else []) cs))"
    using AMsg by (induction cs) (simp_all add: amsg.map_sel)
  then show ?case by simp
qed

lemma aattrs_xmsg: "aattrs (xmsg m) = map (map_prod xmls xmls) (aattrs m)"
  by (cases m) simp

lemma inj_xmls: "inj xmls"
  by (intro inj_mapI injI) simp

lemma map_of_map_prod:
  "inj f \<Longrightarrow> map_of (map (map_prod f g) as) x =
     (if x \<in> range f then map_option g (map_of as (inv f x)) else None)"
  by (induction as) (auto simp: inj_eq)

lemma xmsg_lookup:
  assumes "\<And>x. map_of (rev (aattrs a)) x = map_of (rev (aattrs b)) x"
  shows "map_of (rev (aattrs (xmsg a))) y = map_of (rev (aattrs (xmsg b))) y"
  using map_of_map_prod [OF inj_xmls, of xmls "rev (aattrs a)" y]
    map_of_map_prod [OF inj_xmls, of xmls "rev (aattrs b)" y] assms
  by (simp add: aattrs_xmsg rev_map)

lemma encoded_string:
  assumes "msg_inv m" "msg_abs m = xmsg sm" "wf_msg sm"
  shows "trivialStringFromDOMString (Encode m DOMString_empty) = s_encode sm"
proof -
  have "dom_inv (Encode m DOMString_empty)"
    and c: "dom_chars (Encode m DOMString_empty) = xmls (s_encode sm)"
    using Encode_spec [of m DOMString_empty] assms
    by (simp_all add: a_encode_xmsg inv_intros chars_simps)
  then have e: "Encode m DOMString_empty = dom_of (xmls (s_encode sm))"
    by (metis dom_of_dom_chars)
  have "NUL \<notin> set (s_encode sm)"
    using s_encode_no_NUL assms(3) by (simp add: wf_msg_def)
  then show ?thesis
    by (simp add: trivialStringFromDOMString_def e trivialFromDOMString_of c_str_terminated o_def)
qed

lemma Decode_Encode:
  assumes "msg_inv m" "msg_abs m = xmsg sm" "wf_msg sm"
  shows "\<exists>b. Decode (trivialStringFromDOMString (Encode m DOMString_empty)) = Some (Some b) \<and>
    msg_inv b \<and> msg_abs b = xmsg (norm sm)"
  using Decode_s_encode [OF assms(3)] encoded_string [OF assms] by simp

section \<open>Properties\<close>

text \<open>C2: Decoding an encoded message gives the message back in normal form: no message with
  names made of letters and underscores, and text and attribute values without NUL, is lost or
  rejected, whatever markup characters its text holds. The decoded message has the same text, the
  same element children (in normal form themselves) and, where no attribute name is repeated, the
  same value for every attribute name.\<close>

theorem message_roundtrip:
  assumes "msg_inv m" "msg_abs m = xmsg sm" "wf_msg sm"
  shows "\<exists>b. Decode (trivialStringFromDOMString (Encode m DOMString_empty)) = Some (Some b) \<and>
    msg_inv b \<and> msg_abs b = xmsg (norm sm) \<and>
    dom_chars (GetText b) = dom_chars (GetText m) \<and>
    filter (\<lambda>c. aname c \<noteq> []) (achildren (norm sm)) = map norm (filter (\<lambda>c. aname c \<noteq> []) (achildren sm)) \<and>
    (distinct (map fst (aattrs sm)) \<longrightarrow> (\<forall>name. dom_inv name \<longrightarrow>
       map_option dom_chars (GetAttributeByName b name) = map_option dom_chars (GetAttributeByName m name)))"
proof -
  obtain b where b: "Decode (trivialStringFromDOMString (Encode m DOMString_empty)) = Some (Some b)"
      "msg_inv b" "msg_abs b = xmsg (norm sm)"
    using Decode_Encode [OF assms] by blast
  have "dom_chars (GetText b) = dom_chars (GetText m)"
    using b assms norm_text [OF assms(3)] by (simp add: GetText_spec a_text_xmsg)
  moreover have "map_option dom_chars (GetAttributeByName b name) = map_option dom_chars (GetAttributeByName m name)"
    if "distinct (map fst (aattrs sm))" "dom_inv name" for name
    using b assms that xmsg_lookup [of "norm sm" sm] norm_lookup [OF that(1)]
    by (simp add: GetAttributeByName_spec)
  ultimately show ?thesis using b norm_elements by blast
qed

theorem message_roundtrip_witness:
  "\<exists>b. Decode (trivialStringFromDOMString (Encode (Message_named (dom_of (xmls ''a''))) DOMString_empty)) =
     Some (Some b) \<and> msg_abs b = AMsg (xmls ''a'') [] [] []"
proof -
  have m: "msg_inv (Message_named (dom_of (xmls ''a'')))"
    "msg_abs (Message_named (dom_of (xmls ''a''))) = xmsg (AMsg ''a'' [] [] [])"
    "wf_msg (AMsg ''a'' [] [] [])"
    using Message_named_spec [of "dom_of (xmls ''a'')"]
    by (simp_all add: wf_msg_def name_ok_def is_name_char_def isalpha_def less_eq_char_def)
  have "xmsg (norm (AMsg ''a'' [] [] [])) = AMsg (xmls ''a'') [] [] []"
    by (simp add: norm_attrs_def event_attrs_def)
  with message_roundtrip [OF m] show ?thesis by auto
qed

end
