(* ===== verification/Transport.thy ===== *)
theory Transport
  imports Message_Serializer Message_Roundtrip
begin

text \<open>
  Connections: the send and receive loops of \<^verbatim>\<open>libs/stream_message/src/aconnectn.cxx\<close> and
  the class \<^verbatim>\<open>ActualConnection\<close> of \<^verbatim>\<open>include/aconnectn.h\<close>, over the abstract class
  \<^verbatim>\<open>Serializer\<close> of \<^verbatim>\<open>include/tptinterfaces.h\<close>. The system calls \<^verbatim>\<open>recv\<close> and \<^verbatim>\<open>send\<close> are
  parameters over a state \<open>'k\<close> of the socket: they give the result, the bytes stored (for
  \<^verbatim>\<open>recv\<close>) and the socket's new state. A loop takes fuel, one unit per round; without enough
  of it the \<open>outcome\<close> is \<open>Running\<close>. \<open>Crashed\<close> is an undefined operation of the serializer. The
  locale \<open>framed_serializer\<close> states what \<^verbatim>\<open>receive\<close> needs of a serializer.
\<close>

section \<open>The loops over the system calls\<close>

type_synonym 'k recv_call = "'k \<Rightarrow> int \<Rightarrow> int \<times> string \<times> 'k"
type_synonym 'k send_call = "'k \<Rightarrow> string \<Rightarrow> int \<Rightarrow> int \<times> 'k"

fun send_buffer :: "'k send_call \<Rightarrow> nat \<Rightarrow> 'k \<Rightarrow> string \<Rightarrow> int \<Rightarrow> (int \<times> 'k) option" where
  "send_buffer sys 0 k data len = None"
| "send_buffer sys (Suc fuel) k data len =
     (if len \<noteq> 0 then
        (let (res, k') = sys k data len
         in if res \<le> 0 then Some (res, k')
            else send_buffer sys fuel k' (drop (nat res) data) (len - res))
      else Some (1, k))"

fun receiveBuffer :: "'k recv_call \<Rightarrow> nat \<Rightarrow> 'k \<Rightarrow> int \<Rightarrow> (int \<times> string \<times> 'k) option" where
  "receiveBuffer sys 0 k len = None"
| "receiveBuffer sys (Suc fuel) k len =
     (if len \<noteq> 0 then
        (let (res, bytes, k') = sys k len
         in if res \<le> 0 then Some (res, [], k')
            else map_option (\<lambda>(r, more, k''). (r, bytes @ more, k''))
                   (receiveBuffer sys fuel k' (len - res)))
      else Some (1, [], k))"

section \<open>Connections\<close>

record ('s, 'm) serializer_ops =
  op_reset :: "'s \<Rightarrow> 's"
  op_add :: "string \<Rightarrow> 's \<Rightarrow> ('m option \<times> 's) option"
  op_require :: "'s \<Rightarrow> nat"
  op_serialize :: "'m \<Rightarrow> 's \<Rightarrow> (string \<times> nat) \<times> 's"

record ('s, 'k) connection =
  connectedSocket :: 'k
  conn_serializer :: "'s option"
  failed :: bool
  receiveBufLen :: nat
  buf :: "string option"
  didError :: bool

definition connection_ctor :: "'k \<Rightarrow> ('s, 'k) connection" where
  "connection_ctor sock = \<lparr>connectedSocket = sock, conn_serializer = None, failed = False,
     receiveBufLen = 0, buf = None, didError = False\<rparr>"

text \<open>\<^verbatim>\<open>mk\<close> is the result of \<^verbatim>\<open>client.getSerializer()\<close>.\<close>

definition connection_send ::
  "('s, 'm) serializer_ops \<Rightarrow> 's option \<Rightarrow> 'k send_call \<Rightarrow> 'm \<Rightarrow> ('s, 'k) connection \<Rightarrow>
   (bool \<times> ('s, 'k) connection) outcome" where
  "connection_send ops mk sys obj c =
     (if \<not> failed c then
        (let c1 = (if conn_serializer c = None then c\<lparr>conn_serializer := mk\<rparr> else c)
         in case conn_serializer c1 of
              None \<Rightarrow> Returned (False, c1\<lparr>failed := True\<rparr>)
            | Some s \<Rightarrow>
                (let ((data, length_p), s') = op_serialize ops obj s
                 in case send_buffer sys (Suc length_p) (connectedSocket c1) data (int length_p) of
                      None \<Rightarrow> Running
                    | Some (success, k') \<Rightarrow>
                        (let f = (success \<le> 0)
                         in Returned (\<not> f, c1\<lparr>conn_serializer := Some s', connectedSocket := k',
                              failed := f, didError := didError c1 \<or> (f \<and> success \<noteq> 0)\<rparr>))))
      else Returned (False, c))"

definition grow_buf :: "nat \<Rightarrow> ('s, 'k) connection \<Rightarrow> ('s, 'k) connection" where
  "grow_buf len c =
     (if buf c = None \<or> receiveBufLen c < len
      then c\<lparr>buf := Some (replicate len NUL), receiveBufLen := len\<rparr> else c)"

fun receive_loop ::
  "('s, 'm) serializer_ops \<Rightarrow> 'k recv_call \<Rightarrow> nat \<Rightarrow> 's \<Rightarrow> ('s, 'k) connection \<Rightarrow>
   ('m option \<times> ('s, 'k) connection) outcome" where
  "receive_loop ops sys 0 s c = Running"
| "receive_loop ops sys (Suc fuel) s c =
     (let len = op_require ops s;
          c1 = grow_buf len c
      in case receiveBuffer sys (Suc len) (connectedSocket c1) (int len) of
           None \<Rightarrow> Running
         | Some (success, bytes, k') \<Rightarrow>
             (let b = bytes @ drop (length bytes) (the (buf c1));
                  c2 = c1\<lparr>buf := Some b, connectedSocket := k', conn_serializer := Some s\<rparr>
              in if success > 0 then
                   (case op_add ops (take len b) s of
                      None \<Rightarrow> Crashed
                    | Some (obj, s') \<Rightarrow>
                        (let c3 = c2\<lparr>conn_serializer := Some s'\<rparr>
                         in if obj \<noteq> None then Returned (obj, c3)
                            else receive_loop ops sys fuel s' c3))
                 else Returned (None, c2\<lparr>failed := True, didError := didError c2 \<or> success \<noteq> 0\<rparr>)))"

definition connection_receive ::
  "('s, 'm) serializer_ops \<Rightarrow> 's option \<Rightarrow> 'k recv_call \<Rightarrow> nat \<Rightarrow> ('s, 'k) connection \<Rightarrow>
   ('m option \<times> ('s, 'k) connection) outcome" where
  "connection_receive ops mk sys fuel c =
     (if \<not> failed c then
        (case conn_serializer c of
           None \<Rightarrow> (case mk of
               None \<Rightarrow> Returned (None, c\<lparr>failed := True\<rparr>)
             | Some s \<Rightarrow> receive_loop ops sys fuel s (c\<lparr>conn_serializer := Some s\<rparr>))
         | Some s \<Rightarrow> (let s' = op_reset ops s
             in receive_loop ops sys fuel s' (c\<lparr>conn_serializer := Some s'\<rparr>)))
      else Returned (None, c))"

section \<open>Sockets that deliver a stream of bytes\<close>

text \<open>\<open>avail k\<close> are the bytes that the socket can still deliver. While there are some, \<^verbatim>\<open>recv\<close>
  delivers at least one of them, at most as many as asked for.\<close>

definition stream_source :: "'k recv_call \<Rightarrow> ('k \<Rightarrow> string) \<Rightarrow> bool" where
  "stream_source sys avail \<longleftrightarrow> (\<forall>k len. 0 < len \<longrightarrow> avail k \<noteq> [] \<longrightarrow>
     (\<exists>n k'. sys k len = (int n, take n (avail k), k') \<and> 0 < n \<and> int n \<le> len \<and>
        n \<le> length (avail k) \<and> avail k' = drop n (avail k)))"

definition stream_sink :: "'k send_call \<Rightarrow> ('k \<Rightarrow> string) \<Rightarrow> bool" where
  "stream_sink sys sent \<longleftrightarrow> (\<forall>k data. data \<noteq> [] \<longrightarrow>
     (\<exists>n k'. sys k data (int (length data)) = (int n, k') \<and> 0 < n \<and> n \<le> length data \<and>
        sent k' = sent k @ take n data))"

lemma receiveBuffer_stream:
  assumes "stream_source sys avail"
  shows "n < fuel \<Longrightarrow> n \<le> length (avail k) \<Longrightarrow>
    \<exists>k'. receiveBuffer sys fuel k (int n) = Some (1, take n (avail k), k') \<and> avail k' = drop n (avail k)"
proof (induction fuel arbitrary: k n)
  case (Suc fuel)
  show ?case
  proof (cases "n = 0")
    case False
    then have "0 < int n" "avail k \<noteq> []" using Suc.prems(2) by auto
    then obtain r k' where r: "sys k (int n) = (int r, take r (avail k), k')" "0 < r" "int r \<le> int n"
        "avail k' = drop r (avail k)"
      using assms unfolding stream_source_def by blast
    have i: "int n - int r = int (n - r)" using r(3) by (simp add: of_nat_diff)
    obtain k'' where k'': "receiveBuffer sys fuel k' (int (n - r)) = Some (1, take (n - r) (avail k'), k'')"
        "avail k'' = drop (n - r) (avail k')"
    proof -
      have "n - r < fuel" "n - r \<le> length (avail k')" using Suc.prems r(2,4) False by auto
      from Suc.IH [OF this] show thesis using that by blast
    qed
    have t: "take r (avail k) @ take (n - r) (avail k') = take n (avail k)"
      "drop (n - r) (avail k') = drop n (avail k)"
      using r(3) unfolding r(4) by (simp_all add: take_add [symmetric])
    have "receiveBuffer sys (Suc fuel) k (int n) = Some (1, take r (avail k) @ take (n - r) (avail k'), k'')"
      using False r(1,2) k''(1) unfolding i [symmetric] by simp
    then show ?thesis using k''(2) unfolding t by blast
  qed simp
qed simp

lemma send_buffer_stream:
  assumes "stream_sink sys sent"
  shows "length data < fuel \<Longrightarrow>
    \<exists>k'. send_buffer sys fuel k data (int (length data)) = Some (1, k') \<and> sent k' = sent k @ data"
proof (induction fuel arbitrary: k data)
  case (Suc fuel)
  show ?case
  proof (cases "data = []")
    case True
    then show ?thesis by simp
  next
    case False
    then obtain r k' where r: "sys k data (int (length data)) = (int r, k')" "0 < r" "r \<le> length data"
        "sent k' = sent k @ take r data"
      using assms unfolding stream_sink_def by blast
    have i: "int (length data) - int r = int (length (drop r data))" using r(3) by (simp add: of_nat_diff)
    obtain k'' where k'': "send_buffer sys fuel k' (drop r data) (int (length (drop r data))) = Some (1, k'')"
        "sent k'' = sent k' @ drop r data"
      using Suc.IH [of "drop r data" k'] Suc.prems r(2,3) by fastforce
    have "send_buffer sys (Suc fuel) k data (int (length data)) =
        send_buffer sys fuel k' (drop r data) (int (length data) - int r)"
      using False r(1,2) by simp
    then show ?thesis
      using k'' r(4) unfolding i by simp
  qed
qed simp

lemma receive_loop_step:
  assumes "receiveBuffer sys (Suc (op_require ops s)) (connectedSocket c) (int (op_require ops s)) = Some (1, w, k')"
    and "length w = op_require ops s" "op_add ops w s = Some (obj, s')"
  shows "\<exists>c'. receive_loop ops sys (Suc fuel) s c =
      (if obj = None then receive_loop ops sys fuel s' c' else Returned (obj, c')) \<and>
    connectedSocket c' = k' \<and> failed c' = failed c \<and> conn_serializer c' = Some s'"
proof -
  define c1 where "c1 = grow_buf (op_require ops s) c"
  have c1: "connectedSocket c1 = connectedSocket c" "failed c1 = failed c"
    by (simp_all add: c1_def grow_buf_def)
  define c3 where "c3 = c1\<lparr>buf := Some (w @ drop (length w) (the (buf c1))), connectedSocket := k',
    conn_serializer := Some s'\<rparr>"
  have "receive_loop ops sys (Suc fuel) s c =
      (if obj = None then receive_loop ops sys fuel s' c3 else Returned (obj, c3))"
    using assms c1(1) by (simp add: Let_def c3_def flip: c1_def del: receiveBuffer.simps)
  moreover have "connectedSocket c3 = k'" "failed c3 = failed c" "conn_serializer c3 = Some s'"
    by (simp_all add: c3_def c1)
  ultimately show ?thesis by blast
qed

section \<open>The interface of a serializer\<close>

locale framed_serializer =
  fixes ops :: "('s, 'm) serializer_ops"
    and pending :: "'s \<Rightarrow> string \<Rightarrow> bool"
    and is_frame :: "string \<Rightarrow> 'm \<Rightarrow> bool"
    and fresh :: 's
  assumes pending_fresh: "pending fresh []"
    and pending_reset: "pending (op_reset ops s) []"
    and frame_not_empty: "is_frame bytes m \<Longrightarrow> bytes \<noteq> []"
    and require_more: "pending s p \<Longrightarrow> is_frame (p @ q) m \<Longrightarrow> q \<noteq> [] \<Longrightarrow>
      0 < op_require ops s \<and> op_require ops s \<le> length q"
    and add_more: "pending s p \<Longrightarrow> is_frame (p @ c @ q) m \<Longrightarrow> c \<noteq> [] \<Longrightarrow>
      \<exists>s'. op_add ops c s = Some (if q = [] then Some m else None, s') \<and> (q \<noteq> [] \<longrightarrow> pending s' (p @ c))"
begin

lemma receive_loop_frame:
  assumes sys: "stream_source sys avail"
  shows "pending s p \<Longrightarrow> is_frame (p @ q) m \<Longrightarrow> q \<noteq> [] \<Longrightarrow> length q \<le> fuel \<Longrightarrow>
    avail (connectedSocket c) = q @ rest \<Longrightarrow> \<not> failed c \<Longrightarrow>
    \<exists>c'. receive_loop ops sys fuel s c = Returned (Some m, c') \<and>
      avail (connectedSocket c') = rest \<and> \<not> failed c' \<and> conn_serializer c' \<noteq> None"
proof (induction fuel arbitrary: s p q c)
  case (Suc fuel)
  define len where "len = op_require ops s"
  have len: "0 < len" "len \<le> length q"
    using require_more [OF Suc.prems(1-3)] by (simp_all add: len_def)
  define w where "w = take len q"
  define z where "z = drop len q"
  have wz: "q = w @ z" "length w = len" "w \<noteq> []" using len by (auto simp: w_def z_def)
  obtain k' where k': "receiveBuffer sys (Suc len) (connectedSocket c) (int len) = Some (1, w, k')"
      "avail k' = z @ rest"
    using receiveBuffer_stream [OF sys, of len "Suc len" "connectedSocket c"] Suc.prems(5) wz by auto
  obtain s' where s': "op_add ops w s = Some (if z = [] then Some m else None, s')"
      "z \<noteq> [] \<longrightarrow> pending s' (p @ w)"
    using add_more [of s p w z m] Suc.prems(1,2) wz by auto
  from receive_loop_step [OF k'(1) [unfolded len_def] wz(2) [unfolded len_def] s'(1), of fuel]
  obtain c3 where c3: "receive_loop ops sys (Suc fuel) s c =
      (if (if z = [] then Some m else None) = None then receive_loop ops sys fuel s' c3
       else Returned (if z = [] then Some m else None, c3))"
      "connectedSocket c3 = k'" "failed c3 = failed c" "conn_serializer c3 = Some s'"
    by blast
  show ?case
  proof (cases "z = []")
    case True
    then show ?thesis using c3 k'(2) Suc.prems(6) by (simp del: receive_loop.simps)
  next
    case False
    then have "\<exists>c'. receive_loop ops sys fuel s' c3 = Returned (Some m, c') \<and>
        avail (connectedSocket c') = rest \<and> \<not> failed c' \<and> conn_serializer c' \<noteq> None"
      using s'(2) Suc.prems(2,4) Suc.prems(6) len wz c3(2-4) k'(2) by (intro Suc.IH [of _ "p @ w" z]) auto
    then show ?thesis using c3(1) False by (simp del: receive_loop.simps)
  qed
qed simp

text \<open>Receiving takes exactly one frame from the stream and gives its object, also when it is the
  first operation of the connection and the serializer comes from the client.\<close>

lemma receive_frame:
  assumes "stream_source sys avail" "is_frame bytes m" "length bytes \<le> fuel"
    and "avail (connectedSocket c) = bytes @ rest" "\<not> failed c" "conn_serializer c \<noteq> None \<or> mk = Some fresh"
  shows "\<exists>c'. connection_receive ops mk sys fuel c = Returned (Some m, c') \<and>
    avail (connectedSocket c') = rest \<and> \<not> failed c' \<and> conn_serializer c' \<noteq> None"
proof -
  obtain s where s: "pending s []"
      "connection_receive ops mk sys fuel c = receive_loop ops sys fuel s (c\<lparr>conn_serializer := Some s\<rparr>)"
  proof (cases "conn_serializer c")
    case None
    then show thesis using that [of fresh] assms(5, 6) pending_fresh by (simp add: connection_receive_def)
  next
    case (Some s)
    then show thesis using that [of "op_reset ops s"] assms(5) pending_reset by (simp add: connection_receive_def Let_def)
  qed
  then show ?thesis
    using receive_loop_frame [OF assms(1) s(1), of bytes m fuel "c\<lparr>conn_serializer := Some s\<rparr>" rest]
      assms(2-5) frame_not_empty [OF assms(2)] by simp
qed

end

section \<open>The message serializer\<close>

definition message_serializer :: "(serializer, message) serializer_ops" where
  "message_serializer = \<lparr>op_reset = ser_reset, op_add = ser_add, op_require = ser_require,
     op_serialize = ser_serialize\<rparr>"

lemma message_serializer_simps [simp]:
  "op_reset message_serializer = ser_reset"
  "op_add message_serializer = ser_add"
  "op_require message_serializer = ser_require"
  "op_serialize message_serializer = ser_serialize"
  by (simp_all add: message_serializer_def)

lemma framing_length: "framing (p @ q) m \<Longrightarrow> 4 \<le> length p + length q"
  by (auto simp: framing_def dest: length_frame_split [OF sym])

interpretation msgs: framed_serializer message_serializer ser_pending framing MessageSerializer_ctor
proof
  show "ser_pending MessageSerializer_ctor []"
    by (simp add: ser_pending_def MessageSerializer_ctor_def reading_def)
  show "ser_pending (op_reset message_serializer s) []" for s
    by (simp add: ser_pending_def ser_reset_reading)
  show "bytes \<noteq> []" if "framing bytes m" for bytes m
    using that framing_length [of bytes "[]" m] by auto
  show "0 < op_require message_serializer s \<and> op_require message_serializer s \<le> length q"
    if "ser_pending s p" "framing (p @ q) m" "q \<noteq> []" for s p q m
    using ser_require_pending [OF that(1) _ _ that(3)] framing_length [OF that(2)] that
    by (fastforce simp: framing_def)
  show "\<exists>s'. op_add message_serializer c s = Some (if q = [] then Some m else None, s') \<and>
      (q \<noteq> [] \<longrightarrow> ser_pending s' (p @ c))"
    if "ser_pending s p" "framing (p @ c @ q) m" "c \<noteq> []" for s p c q m
    using ser_add_pending [OF that] by simp
qed

definition ascii :: "string \<Rightarrow> bool" where
  "ascii s \<longleftrightarrow> (\<forall>c\<in>set s. (of_char c :: nat) < 128)"

lemma utf8_ascii_string: "ascii s \<Longrightarrow> concat (map utf8_char (xmls s)) = s"
proof (induction s)
  case (Cons c s)
  then have "xml_of_char c < 0x80" by (simp add: ascii_def word_less_nat_alt)
  then show ?case using Cons by (simp add: utf8_ascii ascii_def)
qed simp

lemma serialize_frame:
  assumes "msg_inv m" "msg_abs m = xmsg sm" "ascii (s_encode sm)"
  shows "fst (fst (ser_serialize m s)) = frame (s_encode sm)"
    "snd (fst (ser_serialize m s)) = length (frame (s_encode sm))"
proof -
  show f: "fst (fst (ser_serialize m s)) = frame (s_encode sm)"
    using assms utf8_ascii_string [OF assms(3)] by (simp add: serialized_data a_encode_xmsg frame_def del: map_map)
  have "snd (fst (ser_serialize m s)) = length (fst (fst (ser_serialize m s)))"
    by (simp add: ser_serialize_def Let_def)
  with f show "snd (fst (ser_serialize m s)) = length (frame (s_encode sm))" by simp
qed

lemma connection_send_message:
  assumes "stream_sink sys sent" "\<not> failed c" "conn_serializer c \<noteq> None \<or> mk \<noteq> None"
    and "msg_inv m" "msg_abs m = xmsg sm" "ascii (s_encode sm)"
  shows "\<exists>c'. connection_send message_serializer mk sys m c = Returned (True, c') \<and>
    sent (connectedSocket c') = sent (connectedSocket c) @ frame (s_encode sm) \<and>
    \<not> failed c' \<and> conn_serializer c' \<noteq> None"
proof -
  define c1 where "c1 = (if conn_serializer c = None then c\<lparr>conn_serializer := mk\<rparr> else c)"
  obtain s where s: "conn_serializer c1 = Some s" using assms(3) by (cases "conn_serializer c") (auto simp: c1_def)
  have c1: "connectedSocket c1 = connectedSocket c" by (simp add: c1_def)
  define data where "data = frame (s_encode sm)"
  obtain s' where s': "ser_serialize m s = ((data, length data), s')"
    using serialize_frame [OF assms(4-6), of s] by (cases "ser_serialize m s") (auto simp: data_def)
  obtain k' where "send_buffer sys (Suc (length data)) (connectedSocket c) data (int (length data)) = Some (1, k')"
      "sent k' = sent (connectedSocket c) @ data"
    using send_buffer_stream [OF assms(1), of data "Suc (length data)"] by auto
  then show ?thesis
    using s s' c1 assms(2) by (simp add: connection_send_def Let_def flip: data_def c1_def del: send_buffer.simps)
qed

section \<open>A frame without an element\<close>

lemma receive_loop_stuck:
  "op_require ops s = 0 \<Longrightarrow> op_add ops [] s = Some (None, s) \<Longrightarrow> receive_loop ops sys fuel s c = Running"
  by (induction fuel arbitrary: c) (simp_all add: Let_def)

lemma rootless_frame_state:
  assumes d: "Decode body = Some None" and n: "int (length body) < 2 ^ 31 - 4"
  shows "add_bytes (frame body) (reading 0 0 None) = Some (partial (length body) body)"
    and "ser_require (partial (length body) body) = 0"
    and "ser_add [] (partial (length body) body) = Some (None, partial (length body) body)"
proof -
  have w: "wrap32 (int (length body) + 4) = int (length body) + 4"
    using n by (auto simp: wrap32_id)
  have v: "(partial (length body) body)\<lparr>valp := None\<rparr> = partial (length body) body"
    by (simp add: partial_def reading_def)
  show "add_bytes (frame body) (reading 0 0 None) = Some (partial (length body) body)"
    using prefix_of_frame [OF n, of "frame body" "[]"] ser_decode_partial [OF n, of body] d v
    by (simp add: frame_def)
  show "ser_require (partial (length body) body) = 0"
    "ser_add [] (partial (length body) body) = Some (None, partial (length body) body)"
    using w by (simp_all add: ser_require_def ser_add_def partial_def reading_def numSizeBytes_def)
qed


lemma receive_rootless:
  assumes sys: "stream_source sys avail" and d: "Decode body = Some None"
    and n: "int (length body) < 2 ^ 31 - 4"
    and c: "avail (connectedSocket c) = frame body @ rest" "\<not> failed c" "conn_serializer c \<noteq> None"
  shows "connection_receive message_serializer mk sys fuel c = Running"
proof -
  obtain s0 where s0: "conn_serializer c = Some s0" using c(3) by auto
  define c0 where "c0 = c\<lparr>conn_serializer := Some (ser_reset s0)\<rparr>"
  have hang: "receive_loop message_serializer sys f s d = Running"
    if "ser_pending s p" "frame body = p @ q" "q \<noteq> []" "avail (connectedSocket d) = q @ rest" for f s p q d
    using that
  proof (induction f arbitrary: s p q d)
    case (Suc f)
    define len where "len = ser_require s"
    have len: "0 < len" "len \<le> length q"
      using ser_require_pending [OF Suc.prems(1,2) n Suc.prems(3)] Suc.prems(3)
        length_frame_split [OF Suc.prems(2)] by (auto simp: len_def)
    define w where "w = take len q"
    define z where "z = drop len q"
    have wz: "q = w @ z" "length w = len" "w \<noteq> []" using len by (auto simp: w_def z_def)
    obtain k' where k': "receiveBuffer sys (Suc len) (connectedSocket d) (int len) = Some (1, w, k')"
        "avail k' = z @ rest"
      using receiveBuffer_stream [OF sys, of len "Suc len" "connectedSocket d"] Suc.prems(4) wz by auto
    show ?case
    proof (cases "z = []")
      case True
      have "add_bytes w s = Some (partial (length body) body)"
        using Suc.prems(1,2) rootless_frame_state(1) [OF d n] wz(1) True
        by (simp add: ser_pending_def add_bytes_append)
      then have "ser_add w s = Some (None, partial (length body) body)"
        using rootless_frame_state(3) [OF d n] by (simp add: ser_add_def)
      then show ?thesis
        using receive_loop_step [of sys message_serializer s d w k' None _ f] k'(1) wz(2)
          receive_loop_stuck [of message_serializer "partial (length body) body"]
          rootless_frame_state(2,3) [OF d n]
        by (auto simp flip: len_def simp del: receive_loop.simps receiveBuffer.simps)
    next
      case False
      obtain s' where s': "ser_add w s = Some (None, s')" "ser_pending s' (p @ w)"
        using ser_add_more [OF Suc.prems(1) _ n False, of w] Suc.prems(2) wz(1) by auto
      then show ?thesis
        using receive_loop_step [of sys message_serializer s d w k' None s' f] k' wz False
          Suc.IH [of s' "p @ w" z] Suc.prems(2)
        by (auto simp flip: len_def simp del: receive_loop.simps receiveBuffer.simps)
    qed
  qed simp
  show ?thesis
    using hang [of "ser_reset s0" "[]" "frame body" c0 fuel] s0 c
    by (simp add: connection_receive_def Let_def c0_def ser_pending_def ser_reset_reading frame_def length_word_def)
qed

section \<open>Properties\<close>

text \<open>A socket for the witnesses: the bytes in it, of which a call moves at most three.\<close>

definition pipe_recv :: "string recv_call" where
  "pipe_recv k len = (let n = min 3 (min (nat len) (length k)) in (int n, take n k, drop n k))"

definition pipe_send :: "string send_call" where
  "pipe_send k data len = (let n = min 3 (length data) in (int n, k @ take n data))"

lemma pipe_source: "stream_source pipe_recv (\<lambda>k. k)"
  unfolding stream_source_def pipe_recv_def
  by (intro allI impI exI [of _ "min 3 (min (nat len) (length k))" for len k]
      exI [of _ "drop (min 3 (min (nat len) (length k))) k" for len k]) (auto simp: Let_def)

lemma pipe_sink: "stream_sink pipe_send (\<lambda>k. k)"
  unfolding stream_sink_def pipe_send_def
  by (intro allI impI exI [of _ "min 3 (length data)" for data]
      exI [of _ "k @ take (min 3 (length data)) data" for k data]) (auto simp: Let_def)

text \<open>C1: A message is received at the other end of a connection when its characters are ASCII, its
  names are not empty and of the characters that \<^verbatim>\<open>minisax\<close> takes for names (\<open>wf_msg\<close>), it has no null
  characters, and its encoding is shorter than 2 GB. Sending puts one frame on the stream; whatever the sizes of the pieces in which
  the socket hands out the bytes, receiving takes exactly this frame, leaves the rest of the
  stream, and returns the message in normal form. Both ends may be used for the first time, when
  the client provides a new serializer, or may have sent and received before.\<close>

theorem message_delivery:
  assumes "stream_sink ssys sent" and source: "stream_source rsys avail"
    and m: "msg_inv m" "msg_abs m = xmsg sm" "wf_msg sm" "ascii (s_encode sm)"
      "int (length (s_encode sm)) < 2 ^ 31 - 4"
    and "\<not> failed c" "conn_serializer c \<noteq> None \<or> mk = Some MessageSerializer_ctor"
  shows "\<exists>c' bytes. connection_send message_serializer mk ssys m c = Returned (True, c') \<and>
    sent (connectedSocket c') = sent (connectedSocket c) @ bytes \<and> \<not> failed c' \<and> conn_serializer c' \<noteq> None \<and>
    (\<forall>d rest fuel. \<not> failed d \<and> (conn_serializer d \<noteq> None \<or> mk' = Some MessageSerializer_ctor) \<and>
        avail (connectedSocket d) = bytes @ rest \<and> length bytes \<le> fuel \<longrightarrow>
      (\<exists>b d'. connection_receive message_serializer mk' rsys fuel d = Returned (Some b, d') \<and>
         avail (connectedSocket d') = rest \<and> \<not> failed d' \<and> conn_serializer d' \<noteq> None \<and>
         msg_inv b \<and> msg_abs b = xmsg (norm sm)))"
proof -
  obtain b where b: "Decode (s_encode sm) = Some (Some b)" "msg_inv b" "msg_abs b = xmsg (norm sm)"
    using Decode_s_encode [OF m(3)] by blast
  then have f: "framing (frame (s_encode sm)) b" using m(5) by (auto simp: framing_def)
  have "conn_serializer c \<noteq> None \<or> mk \<noteq> None" using assms(9) by auto
  then obtain c' where c': "connection_send message_serializer mk ssys m c = Returned (True, c')"
      "sent (connectedSocket c') = sent (connectedSocket c) @ frame (s_encode sm)" "\<not> failed c'" "conn_serializer c' \<noteq> None"
    using connection_send_message [OF assms(1,8) _ m(1,2,4)] by blast
  have "\<exists>b d'. connection_receive message_serializer mk' rsys fuel d = Returned (Some b, d') \<and>
      avail (connectedSocket d') = rest \<and> \<not> failed d' \<and> conn_serializer d' \<noteq> None \<and>
      msg_inv b \<and> msg_abs b = xmsg (norm sm)"
    if "\<not> failed d \<and> (conn_serializer d \<noteq> None \<or> mk' = Some MessageSerializer_ctor) \<and>
      avail (connectedSocket d) = frame (s_encode sm) @ rest \<and> length (frame (s_encode sm)) \<le> fuel" for d rest fuel
    using msgs.receive_frame [OF source f, of fuel d rest mk'] that b(2,3) by blast
  then show ?thesis using c' by blast
qed

definition sample :: message where
  "sample = AddText (AddAttribute (Message_named (dom_of (xmls ''a''))) (dom_of (xmls ''k''))
     (dom_of (xmls ''<''))) (dom_of (xmls ''t''))"

definition sample_abs :: "char amsg" where
  "sample_abs = AMsg ''a'' [] [(''k'', ''<'')] [AMsg [] ''t'' [] []]"

lemma sample_facts:
  "msg_inv sample" "msg_abs sample = xmsg sample_abs" "wf_msg sample_abs"
  "s_encode sample_abs = ''<a k='' @ [CHR 0x22] @ ''&lt;'' @ [CHR 0x22] @ ''>t</a>''"
  using Message_named_spec [of "dom_of (xmls ''a'')"]
    AddAttribute_spec [of "Message_named (dom_of (xmls ''a''))" "dom_of (xmls ''k'')" "dom_of (xmls ''<'')"]
    AddText_spec [of "AddAttribute (Message_named (dom_of (xmls ''a''))) (dom_of (xmls ''k'')) (dom_of (xmls ''<''))" "dom_of (xmls ''t'')"]
  by (simp_all add: sample_def sample_abs_def add_achildren_def wf_msg_def name_ok_def attr_ok_def
      is_name_char_def isalpha_def less_eq_char_def s_attr_def s_esc_char_def)

theorem message_delivery_witness:
  "\<exists>c' bytes. connection_send message_serializer (Some MessageSerializer_ctor) pipe_send sample (connection_ctor []) = Returned (True, c') \<and>
    connectedSocket c' = bytes \<and> \<not> failed c' \<and> conn_serializer c' \<noteq> None \<and>
    (\<exists>b d'. connection_receive message_serializer (Some MessageSerializer_ctor) pipe_recv (length bytes)
         (connection_ctor (bytes @ ''x'')) = Returned (Some b, d') \<and>
       connectedSocket d' = ''x'' \<and> msg_inv b \<and> msg_abs b = xmsg (norm sample_abs))"
proof -
  have "ascii (s_encode sample_abs)" "int (length (s_encode sample_abs)) < 2 ^ 31 - 4"
    by (simp_all add: sample_facts(4) ascii_def)
  from message_delivery [OF pipe_sink pipe_source sample_facts(1-3) this, of "connection_ctor []" "Some MessageSerializer_ctor"
      "Some MessageSerializer_ctor"]
  obtain c' where c': "connection_send message_serializer (Some MessageSerializer_ctor) pipe_send sample (connection_ctor []) = Returned (True, c')"
      "\<not> failed c'" "conn_serializer c' \<noteq> None"
      and r: "\<And>(d :: (serializer, string) connection) rest fuel. \<not> failed d \<Longrightarrow> connectedSocket d = connectedSocket c' @ rest \<Longrightarrow> length (connectedSocket c') \<le> fuel \<Longrightarrow>
        (\<exists>b d'. connection_receive message_serializer (Some MessageSerializer_ctor) pipe_recv fuel d = Returned (Some b, d') \<and>
           connectedSocket d' = rest \<and> msg_inv b \<and> msg_abs b = xmsg (norm sample_abs))"
    unfolding connection_ctor_def by auto blast
  show ?thesis using c' r [of "connection_ctor (connectedSocket c' @ ''x'')" "''x''" "length (connectedSocket c')"]
    by (auto simp: connection_ctor_def)
qed

text \<open>A frame whose body has no element (an empty frame, for one) blocks the receiver for
  ever: the serializer asks for no more bytes and has no message to give, so the loop of
  \<^verbatim>\<open>receive\<close> goes round without an exit, with any amount of fuel.\<close>

theorem rootless_frame_never_received:
  assumes "stream_source sys avail" "Decode body = Some None" "int (length body) < 2 ^ 31 - 4"
    and "avail (connectedSocket c) = frame body @ rest" "\<not> failed c" "conn_serializer c \<noteq> None"
  shows "connection_receive message_serializer mk sys fuel c = Running"
  by (rule receive_rootless [OF assms])

lemma Decode_Nil: "Decode [] = Some None"
  by (simp add: Decode_def mparser_parse_def parse_buffer_def getFile_def sax_init_def noteBeginFile_def
      noteEndFile_def getChar_def noteContent_def emit_def MessageParser_ctor_def resetErrors_def
      handler_characters_def root_message_def Let_def)

lemma char_of_0: "char_of (0 :: nat) = NUL"
  by code_simp

theorem rootless_frame_never_received_witness:
  "connection_receive message_serializer None pipe_recv 1000
     ((connection_ctor [NUL, NUL, NUL, NUL])\<lparr>conn_serializer := Some MessageSerializer_ctor\<rparr>) = Running"
  using rootless_frame_never_received [OF pipe_source Decode_Nil, of
      "(connection_ctor [NUL, NUL, NUL, NUL])\<lparr>conn_serializer := Some MessageSerializer_ctor\<rparr>" "[]" None 1000]
  by (simp add: frame_def length_word_def connection_ctor_def char_of_0)

end
