(* ===== verification/Pointer_Array.thy ===== *)
theory Pointer_Array
  imports Prelude
begin

text \<open>
  The array class \<^verbatim>\<open>parray\<close> that \<^verbatim>\<open>libs/els/mapper\<close> uses. Its source is not in the
  repository: its operations are a parameter \<open>A\<close> of the definitions that use it, and
  \<open>parray_laws\<close> states what the code relies on, over the list of the elements. What a read
  outside of the bounds gives is left open. \<open>cquot2\<close> is the truncating division of C.
\<close>

record ('a, 'arr) parray_ops =
  pa_new :: "int \<Rightarrow> 'arr"
  pa_size :: "'arr \<Rightarrow> int"
  pa_at :: "'arr \<Rightarrow> int \<Rightarrow> 'a"
  pa_append :: "'a \<Rightarrow> 'arr \<Rightarrow> 'arr"
  pa_insert :: "'a \<Rightarrow> int \<Rightarrow> 'arr \<Rightarrow> 'arr"
  pa_remove :: "int \<Rightarrow> 'arr \<Rightarrow> 'arr"

definition insert_list :: "'a \<Rightarrow> nat \<Rightarrow> 'a list \<Rightarrow> 'a list" where
  "insert_list x i xs = take i xs @ x # drop i xs"

definition remove_list :: "nat \<Rightarrow> 'a list \<Rightarrow> 'a list" where
  "remove_list i xs = take i xs @ drop (Suc i) xs"

definition parray_laws :: "('a, 'arr) parray_ops \<Rightarrow> ('arr \<Rightarrow> 'a list) \<Rightarrow> bool" where
  "parray_laws A elems \<longleftrightarrow>
     (\<forall>n. elems (pa_new A n) = []) \<and>
     (\<forall>a. pa_size A a = int (length (elems a))) \<and>
     (\<forall>a i. 0 \<le> i \<longrightarrow> i < int (length (elems a)) \<longrightarrow> pa_at A a i = elems a ! nat i) \<and>
     (\<forall>a x. elems (pa_append A x a) = elems a @ [x]) \<and>
     (\<forall>a x i. 0 \<le> i \<longrightarrow> i \<le> int (length (elems a)) \<longrightarrow>
        elems (pa_insert A x i a) = insert_list x (nat i) (elems a)) \<and>
     (\<forall>a i. 0 \<le> i \<longrightarrow> i < int (length (elems a)) \<longrightarrow>
        elems (pa_remove A i a) = remove_list (nat i) (elems a))"

lemma parray_lawsD:
  assumes "parray_laws A elems"
  shows "elems (pa_new A n) = []"
    and "pa_size A a = int (length (elems a))"
    and "0 \<le> i \<Longrightarrow> i < int (length (elems a)) \<Longrightarrow> pa_at A a i = elems a ! nat i"
    and "elems (pa_append A x a) = elems a @ [x]"
    and "0 \<le> i \<Longrightarrow> i \<le> int (length (elems a)) \<Longrightarrow> elems (pa_insert A x i a) = insert_list x (nat i) (elems a)"
    and "0 \<le> i \<Longrightarrow> i < int (length (elems a)) \<Longrightarrow> elems (pa_remove A i a) = remove_list (nat i) (elems a)"
  using assms by (simp_all add: parray_laws_def)

text \<open>An instance for the witnesses: lists, where a read outside of the bounds gives \<open>d\<close>.\<close>

definition list_parray :: "'a \<Rightarrow> ('a, 'a list) parray_ops" where
  "list_parray d = \<lparr>pa_new = (\<lambda>n. []), pa_size = (\<lambda>a. int (length a)),
     pa_at = (\<lambda>a i. if 0 \<le> i \<and> i < int (length a) then a ! nat i else d),
     pa_append = (\<lambda>x a. a @ [x]), pa_insert = (\<lambda>x i a. insert_list x (nat i) a),
     pa_remove = (\<lambda>i a. remove_list (nat i) a)\<rparr>"

lemma list_parray_laws: "parray_laws (list_parray d) (\<lambda>a. a)"
  by (simp add: parray_laws_def list_parray_def)

definition cquot2 :: "int \<Rightarrow> int" where
  "cquot2 x = (if x < 0 then - ((- x) div 2) else x div 2)"

lemma cquot2_between: "0 \<le> low \<Longrightarrow> low \<le> high \<Longrightarrow> low \<le> cquot2 (low + high) \<and> cquot2 (low + high) \<le> high"
  by (auto simp: cquot2_def)

end
