(* ===== verification/Mapped_File.thy ===== *)
theory Mapped_File
  imports Pointer_Array "HOL-Library.Monad_Syntax"
begin

text \<open>
  The class \<^verbatim>\<open>mappedFile\<close> of \<^verbatim>\<open>libs/els/mapper/src/mappedFile.cxx\<close>: files whose table of
  line starts is read on the first use, and the static list of all of them. Byte positions,
  rows and columns start at 1. Objects live in a store of addresses. A file name is the
  pointer of the name cache, where equal names are the same pointer. The file system is the
  parameter \<open>E\<close>: \<^verbatim>\<open>pdisfile\<close>, and opening and reading with the class \<^verbatim>\<open>raFile\<close>; the
  arrays are the parameters \<open>A\<close> (line table) and \<open>B\<close> (list of files).
\<close>

section \<open>Data\<close>

record 'h files_env =
  pdisfile :: "string \<Rightarrow> bool"
  ra_open :: "string \<Rightarrow> 'h option"
  ra_read :: "'h \<Rightarrow> int \<Rightarrow> int \<times> string \<times> 'h"

record 'arr mfile =
  the_filename :: string
  scanned :: bool
  file_exists :: bool
  lines :: 'arr

definition DEFAULT_SCAN_BUFFER_SIZE :: int where
  "DEFAULT_SCAN_BUFFER_SIZE = 256 * 1024"

definition DEFAULT_NUMBER_OF_LINES :: int where
  "DEFAULT_NUMBER_OF_LINES = 128"

definition DEFAULT_NUMBER_OF_FILES :: int where
  "DEFAULT_NUMBER_OF_FILES = 32"

section \<open>Reading the line table\<close>

text \<open>One buffer: \<open>off\<close> is \<^verbatim>\<open>byteOffset + i\<close>. The result is \<^verbatim>\<open>eol\<close> and the table.\<close>

fun scan_buffer :: "(u32, 'arr) parray_ops \<Rightarrow> u32 \<Rightarrow> bool \<Rightarrow> string \<Rightarrow> 'arr \<Rightarrow> bool \<times> 'arr" where
  "scan_buffer A off eol [] t = (eol, t)"
| "scan_buffer A off eol (c # cs) t =
     (let t' = (if eol then pa_append A off t else t)
      in scan_buffer A (off + 1) (c = CHR 0x0A) cs t')"

partial_function (option) scan_reads ::
  "'h files_env \<Rightarrow> (u32, 'arr) parray_ops \<Rightarrow> 'h \<Rightarrow> u32 \<Rightarrow> bool \<Rightarrow> 'arr \<Rightarrow> (u32 \<times> 'arr) option" where
  "scan_reads E A h byteOffset eol t =
     (case ra_read E h DEFAULT_SCAN_BUFFER_SIZE of (bytesRead, buffer, h') \<Rightarrow>
        if bytesRead > 0 then
          (case scan_buffer A byteOffset eol (take (nat bytesRead) buffer) t of (eol', t') \<Rightarrow>
             scan_reads E A h' (byteOffset + of_int bytesRead) eol' t')
        else Some (byteOffset, t))"

definition scanFile :: "'h files_env \<Rightarrow> (u32, 'arr) parray_ops \<Rightarrow> 'arr mfile \<Rightarrow> (int \<times> 'arr mfile) option" where
  "scanFile E A mf =
     (if \<not> scanned mf then
        (let t = pa_append A 0 (lines mf)
         in case ra_open E (the_filename mf) of
              None \<Rightarrow> Some (-1, mf\<lparr>lines := t\<rparr>)
            | Some h \<Rightarrow> map_option (\<lambda>(byteOffset, t').
                (1, mf\<lparr>lines := pa_append A (byteOffset + 1) t', scanned := True\<rparr>))
                (scan_reads E A h 1 True t))
      else Some (-1, mf))"

definition ensure_scanned :: "'h files_env \<Rightarrow> (u32, 'arr) parray_ops \<Rightarrow> 'arr mfile \<Rightarrow> 'arr mfile option" where
  "ensure_scanned E A mf =
     (if file_exists mf \<and> \<not> scanned mf then map_option snd (scanFile E A mf) else Some mf)"

section \<open>Positions in a file\<close>

text \<open>A result \<open>None\<close> of the inner option is the value -1 of the code, with the outputs set to 0.\<close>

definition table_bytepos :: "(u32, 'arr) parray_ops \<Rightarrow> 'arr \<Rightarrow> u32 \<Rightarrow> u32 \<Rightarrow> u32 option" where
  "table_bytepos A t row col =
     (if row < of_int (pa_size A t) then
        if col < pa_at A t (sint (row + 1)) - 1
        then Some (pa_at A t (sint row) + col - 1) else None
      else None)"

definition toBytePos ::
  "'h files_env \<Rightarrow> (u32, 'arr) parray_ops \<Rightarrow> u32 \<Rightarrow> u32 \<Rightarrow> 'arr mfile \<Rightarrow> (u32 option \<times> 'arr mfile) option" where
  "toBytePos E A row col mf =
     (if row > 0 \<and> col > 0 then do {
        mf' \<leftarrow> ensure_scanned E A mf;
        Some (if file_exists mf' \<and> scanned mf' then table_bytepos A (lines mf') row col else None, mf')
      } else Some (None, mf))"

function table_search :: "(u32, 'arr) parray_ops \<Rightarrow> 'arr \<Rightarrow> u32 \<Rightarrow> int \<Rightarrow> int \<Rightarrow> (u32 \<times> u32) option" where
  "table_search A t bp low high =
     (let mid = cquot2 (low + high);
          r1_bp = pa_at A t mid;
          r2_bp = pa_at A t (mid + 1)
      in if bp \<ge> r1_bp \<and> bp < r2_bp then Some (of_int mid, bp - r1_bp + 1)
         else if bp < r1_bp then
           (if mid - 1 < low then None else table_search A t bp low (mid - 1))
         else
           (if mid + 1 > high then None else table_search A t bp (mid + 1) high))"
  by pat_completeness auto
termination
  by (relation "measure (\<lambda>(A, t, bp, low, high). nat (high - low + 1))") (auto simp: cquot2_def split: if_splits)

declare table_search.simps [simp del]

definition table_rowcol :: "(u32, 'arr) parray_ops \<Rightarrow> 'arr \<Rightarrow> u32 \<Rightarrow> (u32 \<times> u32) option" where
  "table_rowcol A t bp = table_search A t bp 1 (pa_size A t - 1)"

definition toRowCol ::
  "'h files_env \<Rightarrow> (u32, 'arr) parray_ops \<Rightarrow> u32 \<Rightarrow> 'arr mfile \<Rightarrow> ((u32 \<times> u32) option \<times> 'arr mfile) option" where
  "toRowCol E A bp mf =
     (if bp > 0 then do {
        mf' \<leftarrow> ensure_scanned E A mf;
        Some (if file_exists mf' \<and> scanned mf' then table_rowcol A (lines mf') bp else None, mf')
      } else Some (None, mf))"

definition resolveRC ::
  "'h files_env \<Rightarrow> (u32, 'arr) parray_ops \<Rightarrow> u32 \<Rightarrow> u32 \<Rightarrow> int \<Rightarrow> 'arr mfile \<Rightarrow>
   ((u32 \<times> u32) option \<times> 'arr mfile) option" where
  "resolveRC E A r_in c_in amount mf =
     (if r_in > 0 then do {
        mf1 \<leftarrow> ensure_scanned E A mf;
        if file_exists mf1 \<and> scanned mf1 then
          (if c_in \<noteq> 0 then do {
             (tmpbp, mf2) \<leftarrow> toBytePos E A r_in c_in mf1;
             case tmpbp of
               None \<Rightarrow> Some (None, mf2)
             | Some bp \<Rightarrow> toRowCol E A (bp + of_int amount) mf2
           } else do {
             (tmpbp, mf2) \<leftarrow> toBytePos E A (r_in + 1) 1 mf1;
             case tmpbp of
               None \<Rightarrow> Some (None, mf2)
             | Some bp \<Rightarrow> toRowCol E A (bp + of_int amount - 1) mf2
           })
        else Some (None, mf1)
      } else Some (None, mf))"

definition fileSize :: "'h files_env \<Rightarrow> (u32, 'arr) parray_ops \<Rightarrow> 'arr mfile \<Rightarrow> (u32 \<times> 'arr mfile) option" where
  "fileSize E A mf =
     (if file_exists mf then do {
        mf' \<leftarrow> ensure_scanned E A mf;
        Some (if scanned mf' then pa_at A (lines mf') (pa_size A (lines mf') - 1) - 2 else 0, mf')
      } else Some (0, mf))"

section \<open>The list of files\<close>

record ('arr, 'brr) file_cache =
  currentFiles :: "'brr option"
  lastfile :: int
  store :: "nat \<Rightarrow> 'arr mfile option"
  next_addr :: nat

definition mappedFile_new ::
  "'h files_env \<Rightarrow> (u32, 'arr) parray_ops \<Rightarrow> (nat, 'brr) parray_ops \<Rightarrow> string \<Rightarrow>
   ('arr, 'brr) file_cache \<Rightarrow> nat \<times> ('arr, 'brr) file_cache" where
  "mappedFile_new E A B file_name fc =
     (let mf = \<lparr>the_filename = file_name, scanned = False, file_exists = pdisfile E file_name,
                lines = pa_new A DEFAULT_NUMBER_OF_LINES\<rparr>;
          fs = (case currentFiles fc of None \<Rightarrow> pa_new B DEFAULT_NUMBER_OF_FILES | Some b \<Rightarrow> b)
      in (next_addr fc, fc\<lparr>currentFiles := Some fs, store := (store fc)(next_addr fc \<mapsto> mf),
            next_addr := next_addr fc + 1\<rparr>))"

text \<open>A round of the two search loops of \<^verbatim>\<open>getFile\<close>, from index \<open>i\<close> up to below \<open>n\<close>: the inner
  option is \<^verbatim>\<open>retval\<close> with the index. The outer one is \<open>None\<close> where the null pointer
  \<^verbatim>\<open>currentFiles\<close> or an address that is not in the store is dereferenced.\<close>

function find_file ::
  "(nat, 'brr) parray_ops \<Rightarrow> ('arr, 'brr) file_cache \<Rightarrow> string \<Rightarrow> int \<Rightarrow> int \<Rightarrow> (nat \<times> int) option option" where
  "find_file B fc file_name i n =
     (if i < n then
        (case currentFiles fc of
           None \<Rightarrow> None
         | Some fs \<Rightarrow> (case store fc (pa_at B fs i) of
             None \<Rightarrow> None
           | Some mf \<Rightarrow> if the_filename mf = file_name then Some (Some (pa_at B fs i, i))
                        else find_file B fc file_name (i + 1) n))
      else Some None)"
  by pat_completeness auto
termination
  by (relation "measure (\<lambda>(B, fc, f, i, n). nat (n - i))") auto

declare find_file.simps [simp del]

definition mappedFile_getFile ::
  "'h files_env \<Rightarrow> (u32, 'arr) parray_ops \<Rightarrow> (nat, 'brr) parray_ops \<Rightarrow> string \<Rightarrow>
   ('arr, 'brr) file_cache \<Rightarrow> (nat \<times> ('arr, 'brr) file_cache) option" where
  "mappedFile_getFile E A B file_name fc =
     (let n = (case currentFiles fc of None \<Rightarrow> 0 | Some fs \<Rightarrow> pa_size B fs)
      in do {
        r1 \<leftarrow> find_file B fc file_name (lastfile fc) n;
        case r1 of
          Some (a, i) \<Rightarrow> Some (a, fc\<lparr>lastfile := i\<rparr>)
        | None \<Rightarrow> do {
            r2 \<leftarrow> find_file B fc file_name 0 (lastfile fc);
            case r2 of
              Some (a, i) \<Rightarrow> Some (a, fc\<lparr>lastfile := i\<rparr>)
            | None \<Rightarrow>
                (let (a, fc') = mappedFile_new E A B file_name fc
                 in case currentFiles fc' of
                      None \<Rightarrow> Some (a, fc')
                    | Some fs \<Rightarrow> Some (a, fc'\<lparr>currentFiles := Some (pa_append B a fs), lastfile := n\<rparr>))
          }
      })"

text \<open>\<^verbatim>\<open>reset\<close> destroys every file; each destructor takes the file out of the list, and the
  last one frees the list. \<^verbatim>\<open>lastfile\<close> is a static variable of \<^verbatim>\<open>getFile\<close> and keeps its value.\<close>

definition files_reset :: "(nat, 'brr) parray_ops \<Rightarrow> ('arr, 'brr) file_cache \<Rightarrow> ('arr, 'brr) file_cache" where
  "files_reset B fc =
     (case currentFiles fc of
        None \<Rightarrow> fc
      | Some fs \<Rightarrow>
          (let addrs = map (\<lambda>i. pa_at B fs (int i)) [0..<nat (pa_size B fs)]
           in fc\<lparr>store := (\<lambda>a. if a \<in> set addrs then None else store fc a), currentFiles := None\<rparr>))"

definition files_init :: "('arr, 'brr) file_cache" where
  "files_init = \<lparr>currentFiles = None, lastfile = 0, store = Map.empty, next_addr = 0\<rparr>"

end
