(* ===== verification/Line_Table.thy ===== *)
theory Line_Table
  imports Mapped_File
begin

text \<open>
  What the line tables of \<open>Mapped_File\<close> hold and what the searches in them give, over the
  contents of a file as a string. \<open>line_starts\<close> are the byte positions at which lines start,
  \<open>row_of\<close> and \<open>col_of\<close> the row and column of a byte by counting newlines.
\<close>

section \<open>Line starts\<close>

abbreviation NL :: char where "NL \<equiv> CHR 0x0A"

fun line_starts :: "nat \<Rightarrow> bool \<Rightarrow> string \<Rightarrow> nat list" where
  "line_starts off eol [] = []"
| "line_starts off eol (c # cs) = (if eol then [off] else []) @ line_starts (Suc off) (c = NL) cs"

definition eol_after :: "bool \<Rightarrow> string \<Rightarrow> bool" where
  "eol_after eol cs = (if cs = [] then eol else last cs = NL)"

definition file_table :: "string \<Rightarrow> nat list" where
  "file_table s = 0 # line_starts 1 True s @ [length s + 2]"

definition row_of :: "string \<Rightarrow> nat \<Rightarrow> nat" where
  "row_of s bp = Suc (length (filter (\<lambda>c. c = NL) (take (bp - 1) s)))"

definition col_of :: "string \<Rightarrow> nat \<Rightarrow> nat" where
  "col_of s bp = Suc (length (takeWhile (\<lambda>c. c \<noteq> NL) (rev (take (bp - 1) s))))"

lemma line_starts_append:
  "line_starts off eol (a @ b) = line_starts off eol a @ line_starts (off + length a) (eol_after eol a) b"
  by (induction off eol a rule: line_starts.induct) (auto simp: eol_after_def)

lemma line_starts_range: "x \<in> set (line_starts off eol cs) \<Longrightarrow> off \<le> x \<and> x < off + length cs"
  by (induction off eol cs rule: line_starts.induct) fastforce+

lemma line_starts_sorted: "sorted_wrt (<) (line_starts off eol cs)"
  by (induction off eol cs rule: line_starts.induct) (auto dest!: line_starts_range)

lemma file_table_sorted: "sorted_wrt (<) (file_table s)"
  using line_starts_range [of _ 1 True s]
  by (force simp: file_table_def sorted_wrt_append line_starts_sorted)

lemma line_starts_last:
  "cs \<noteq> [] \<Longrightarrow> line_starts off True cs \<noteq> [] \<and>
   last (line_starts off True cs) + length (takeWhile (\<lambda>c. c \<noteq> NL) (rev (butlast cs))) = off + length cs - 1 \<and>
   length (line_starts off True cs) = Suc (length (filter (\<lambda>c. c = NL) (butlast cs)))"
proof (induction cs rule: rev_induct)
  case (snoc c cs)
  show ?case
  proof (cases cs rule: rev_cases)
    case (snoc ds d)
    then have ne: "cs \<noteq> []" by simp
    then show ?thesis
      using snoc.IH snoc by (auto simp: line_starts_append eol_after_def butlast_append)
  qed simp
qed simp

text \<open>The row of a byte is the last one that starts at or before it.\<close>

lemma file_table_row:
  assumes "1 \<le> bp" "bp \<le> length s"
  shows "row_of s bp + 1 < length (file_table s)"
    and "file_table s ! row_of s bp + col_of s bp = bp + 1"
    and "bp < file_table s ! (row_of s bp + 1)"
    and "file_table s ! (row_of s bp + 1) = bp + 1 \<longleftrightarrow> bp < length s \<and> s ! (bp - 1) = NL"
proof -
  define a where "a = take bp s"
  define b where "b = drop bp s"
  have ab: "s = a @ b" "length a = bp" "a \<noteq> []" "butlast a = take (bp - 1) s"
    using assms by (auto simp: a_def b_def butlast_take min_def)
  define la where "la = line_starts 1 True a"
  define lb where "lb = line_starts (1 + bp) (eol_after True a) b"
  have t: "file_table s = 0 # la @ lb @ [length s + 2]"
    using ab(2) by (simp add: file_table_def la_def lb_def ab(1) line_starts_append)
  have la: "la \<noteq> []" "last la + length (takeWhile (\<lambda>c. c \<noteq> NL) (rev (take (bp - 1) s))) = bp"
    "length la = row_of s bp"
    using line_starts_last [OF ab(3), of 1] ab(2,4) by (simp_all add: la_def row_of_def)
  show "row_of s bp + 1 < length (file_table s)" by (simp add: t flip: la(3))
  have "file_table s ! row_of s bp = last la"
    using la(1) by (simp add: t nth_append last_conv_nth flip: la(3))
  then show "file_table s ! row_of s bp + col_of s bp = bp + 1"
    using la(2) by (simp add: col_of_def)
  have "file_table s ! (row_of s bp + 1) = (lb @ [length s + 2]) ! 0"
    by (simp add: t nth_append flip: la(3))
  also have "\<dots> > bp"
    using line_starts_range [of "(lb @ [length s + 2]) ! 0" "1 + bp" "eol_after True a" b] assms
    by (cases lb) (auto simp: lb_def)
  finally show "bp < file_table s ! (row_of s bp + 1)" .
  have nl: "eol_after True a \<longleftrightarrow> s ! (bp - 1) = NL"
    using ab(2,3) assms by (simp add: eol_after_def last_conv_nth ab(1) nth_append)
  have "file_table s ! (row_of s bp + 1) = (lb @ [length s + 2]) ! 0"
    by (simp add: t nth_append flip: la(3))
  moreover have "(lb @ [length s + 2]) ! 0 = bp + 1 \<longleftrightarrow> b \<noteq> [] \<and> eol_after True a"
  proof (cases b)
    case Nil
    then show ?thesis using ab(1,2) by (simp add: lb_def)
  next
    case (Cons c cs)
    have "length s = Suc (bp + length cs)" using ab(1,2) Cons by simp
    moreover have "(line_starts (Suc (Suc bp)) (c = NL) cs @ [length s + 2]) ! 0 \<noteq> bp + 1"
      using line_starts_range [of "(line_starts (Suc (Suc bp)) (c = NL) cs @ [length s + 2]) ! 0"
          "Suc (Suc bp)" "c = NL" cs] assms
      by (cases "line_starts (Suc (Suc bp)) (c = NL) cs") auto
    ultimately show ?thesis using Cons by (simp add: lb_def)
  qed
  moreover have "b \<noteq> [] \<longleftrightarrow> bp < length s" using assms by (auto simp: b_def)
  ultimately show "file_table s ! (row_of s bp + 1) = bp + 1 \<longleftrightarrow> bp < length s \<and> s ! (bp - 1) = NL"
    using nl by simp
qed


section \<open>Searching a table\<close>

definition table_of :: "('arr \<Rightarrow> u32 list) \<Rightarrow> string \<Rightarrow> 'arr \<Rightarrow> bool" where
  "table_of elems s t \<longleftrightarrow> elems t = map of_nat (file_table s) \<and> length s + 2 < 2 ^ 31"

lemma file_table_le: "i < length (file_table s) \<Longrightarrow> file_table s ! i \<le> length s + 2"
  using sorted_wrt_nth_less [OF file_table_sorted, of i "length (file_table s) - 1" s]
  by (cases "i = length (file_table s) - 1") (simp_all add: file_table_def nth_append)

lemma length_line_starts: "length (line_starts off eol cs) \<le> length cs"
  by (induction off eol cs rule: line_starts.induct) auto

lemma length_file_table: "2 \<le> length (file_table s)" "length (file_table s) \<le> length s + 2"
  using length_line_starts [of 1 True s] by (simp_all add: file_table_def)

lemma table_at:
  assumes "parray_laws A elems" "table_of elems s t" "0 \<le> i" "i < int (length (file_table s))"
  shows "pa_at A t i = of_nat (file_table s ! nat i)" "unat (pa_at A t i) = file_table s ! nat i"
proof -
  have n: "nat i < length (file_table s)" using assms(3,4) by simp
  show a: "pa_at A t i = of_nat (file_table s ! nat i)"
    using parray_lawsD(3) [OF assms(1), of i t] assms(2-4) n by (simp add: table_of_def)
  show "unat (pa_at A t i) = file_table s ! nat i"
    using file_table_le [OF n] assms(2) unfolding a by (simp add: table_of_def unat_of_nat)
qed

lemma table_size: "parray_laws A elems \<Longrightarrow> table_of elems s t \<Longrightarrow> pa_size A t = int (length (file_table s))"
  by (simp add: parray_lawsD(2) table_of_def)

lemma table_search_finds:
  assumes A: "parray_laws A elems" and t: "table_of elems s t"
    and k: "k + 1 < length (file_table s)" "file_table s ! k \<le> unat bp" "unat bp < file_table s ! (k + 1)"
  shows "0 \<le> low \<Longrightarrow> low \<le> int k \<Longrightarrow> int k \<le> high \<Longrightarrow> high < int (length (file_table s)) \<Longrightarrow>
    table_search A t bp low high = Some (of_nat k, bp - of_nat (file_table s ! k) + 1)"
proof (induction "nat (high - low)" arbitrary: low high rule: less_induct)
  case less
  define T where "T = file_table s"
  define mid where "mid = cquot2 (low + high)"
  have mid: "low \<le> mid" "mid \<le> high"
    using cquot2_between [of low high] less.prems by (simp_all add: mid_def)
  note at = table_at [OF A t, folded T_def]
  have mono: "i < j \<Longrightarrow> j < length T \<Longrightarrow> T ! i < T ! j" for i j
    using sorted_wrt_nth_less [OF file_table_sorted, of i j s] by (simp add: T_def)
  have mono_le: "i \<le> j \<Longrightarrow> j < length T \<Longrightarrow> T ! i \<le> T ! j" for i j
    using mono [of i j] by (cases "i = j") auto
  have r1: "unat (pa_at A t mid) = T ! nat mid"
    using at(2) [of mid] less.prems mid by (simp add: T_def)
  consider (found) "mid = int k" | (left) "int k < mid" | (right) "mid < int k" by linarith
  then show ?case
  proof cases
    case found
    have "unat (pa_at A t (mid + 1)) = T ! (k + 1)"
      using at(2) [of "mid + 1"] k(1) found by (simp add: T_def nat_add_distrib)
    then have "pa_at A t mid \<le> bp" "bp < pa_at A t (mid + 1)"
      using r1 k found by (simp_all add: word_le_nat_alt word_less_nat_alt T_def)
    moreover have "pa_at A t mid = of_nat (T ! k)"
      using at(1) [of mid] less.prems mid found by (simp add: T_def)
    ultimately show ?thesis
      using found by (simp add: table_search.simps [of A t bp low high] Let_def T_def flip: mid_def)
  next
    case left
    have "T ! (k + 1) \<le> T ! nat mid"
      using left less.prems(4) mid(2) by (intro mono_le) (auto simp: T_def)
    then have "bp < pa_at A t mid"
      using r1 k(3) by (simp add: word_less_nat_alt T_def)
    moreover have "table_search A t bp low (mid - 1) = Some (of_nat k, bp - of_nat (file_table s ! k) + 1)"
      using less.prems left mid by (intro less.hyps) auto
    ultimately show ?thesis
      using left less.prems(2) by (auto simp: table_search.simps [of A t bp low high] Let_def simp flip: mid_def)
  next
    case right
    have "unat (pa_at A t (mid + 1)) = T ! nat (mid + 1)"
      using at(2) [of "mid + 1"] k(1) right less.prems(1) mid by (simp add: T_def)
    moreover have "T ! nat (mid + 1) \<le> T ! k"
      using right k(1) less.prems(1) mid by (intro mono_le) (auto simp: T_def)
    moreover have "T ! nat mid < T ! k"
      using mono [of "nat mid" k] right k(1) less.prems(1) mid by (auto simp: T_def)
    ultimately have "\<not> bp < pa_at A t (mid + 1)" "\<not> bp < pa_at A t mid"
      using r1 k(2) by (simp_all add: word_less_nat_alt T_def)
    moreover have "table_search A t bp (mid + 1) high = Some (of_nat k, bp - of_nat (file_table s ! k) + 1)"
      using less.prems right mid by (intro less.hyps) auto
    ultimately show ?thesis
      using right less.prems(3) by (auto simp: table_search.simps [of A t bp low high] Let_def simp flip: mid_def)
  qed
qed


lemma row_of_bounds: "1 \<le> row_of s bp" "1 \<le> col_of s bp"
  by (simp_all add: row_of_def col_of_def)

lemma table_rowcol_spec:
  assumes A: "parray_laws A elems" "table_of elems s t" and bp: "1 \<le> bp" "bp \<le> length s"
  shows "table_rowcol A t (of_nat bp) = Some (of_nat (row_of s bp), of_nat (col_of s bp))"
proof -
  note row = file_table_row [OF bp]
  have u: "unat (of_nat bp :: u32) = bp" using A(2) bp(2) by (simp add: table_of_def unat_of_nat)
  have c: "int (col_of s bp) = int bp - int (file_table s ! row_of s bp) + 1" using row(2) by linarith
  have "table_search A t (of_nat bp) 1 (pa_size A t - 1) =
      Some (of_nat (row_of s bp), of_nat bp - of_nat (file_table s ! row_of s bp) + 1)"
    using row row_of_bounds [of s bp] table_size [OF A]
    by (intro table_search_finds [OF A]) (simp_all add: u)
  moreover have "(of_nat (col_of s bp) :: u32) = of_nat bp - of_nat (file_table s ! row_of s bp) + 1"
    by (metis c of_int_1 of_int_add of_int_diff of_int_of_nat_eq)
  ultimately show ?thesis by (simp add: table_rowcol_def)
qed

lemma table_bytepos_spec:
  assumes A: "parray_laws A elems" "table_of elems s t"
    and row: "row + 1 < length (file_table s)" and col: "1 \<le> col" "col < 2 ^ 32"
  shows "table_bytepos A t (of_nat row) (of_nat col) =
    (if col < file_table s ! (row + 1) - 1 then Some (of_nat (file_table s ! row + col - 1)) else None)"
proof -
  have n: "length (file_table s) < 2 ^ 31" using length_file_table(2) [of s] A(2) by (simp add: table_of_def)
  have sz: "pa_size A t = int (length (file_table s))" by (rule table_size [OF A])
  have s1: "sint (of_nat row + 1 :: u32) = int (row + 1)" "sint (of_nat row :: u32) = int row"
    using row n sint_of_nat_small [of "row + 1"] sint_of_nat_small [of row] by (simp_all add: add.commute)
  have r: "(of_nat row :: u32) < of_int (pa_size A t)"
    using row n unfolding sz by (simp add: word_less_nat_alt unat_of_nat)
  have p: "0 < file_table s ! (row + 1)"
    using sorted_wrt_nth_less [OF file_table_sorted, of row "row + 1" s] row by simp
  have i: "nat (1 + int row) = Suc row" by simp
  from p have "unat (pa_at A t (int (row + 1)) - 1) = file_table s ! (row + 1) - 1"
    using table_at(2) [OF A, of "int (row + 1)"] row i by (subst unat_sub) (simp_all add: word_le_nat_alt)
  then have "of_nat col < pa_at A t (int (row + 1)) - 1 \<longleftrightarrow> col < file_table s ! (row + 1) - 1"
    using col by (simp add: word_less_nat_alt unat_of_nat)
  moreover have "pa_at A t (int row) + of_nat col - 1 = of_nat (file_table s ! row + col - 1)"
    using table_at(1) [OF A, of "int row"] row col(1) by (simp add: of_nat_diff)
  ultimately show ?thesis
    using r by (simp add: table_bytepos_def s1)
qed


section \<open>Reading a file\<close>

lemma scan_buffer_spec:
  assumes A: "parray_laws A elems"
  shows "\<exists>t'. scan_buffer A (of_nat off) eol cs t = (eol_after eol cs, t') \<and>
    elems t' = elems t @ map of_nat (line_starts off eol cs)"
proof (induction cs arbitrary: off eol t)
  case (Cons c cs)
  define t1 where "t1 = (if eol then pa_append A (of_nat off) t else t)"
  have "elems t1 = elems t @ map of_nat (if eol then [off] else [])"
    by (simp add: t1_def parray_lawsD(4) [OF A])
  moreover have "(of_nat off :: u32) + 1 = of_nat (Suc off)" by (simp add: add.commute)
  ultimately show ?case
    using Cons.IH [of "Suc off" "c = NL" t1] by (auto simp: eol_after_def add.commute simp flip: t1_def)
qed (simp add: eol_after_def)

text \<open>A file system whose files have contents: \<open>rest h\<close> is what is still to be read from the
  handle \<open>h\<close>; a read delivers some of it, at least one byte if there is one.\<close>

definition reads_contents :: "'h files_env \<Rightarrow> ('h \<Rightarrow> string) \<Rightarrow> (string \<Rightarrow> string option) \<Rightarrow> bool" where
  "reads_contents E rest contents \<longleftrightarrow>
     (\<forall>h. case ra_read E h DEFAULT_SCAN_BUFFER_SIZE of (r, buffer, h') \<Rightarrow>
        if rest h = [] then r \<le> 0
        else 0 < r \<and> r \<le> int (length (rest h)) \<and> take (nat r) buffer = take (nat r) (rest h) \<and>
             rest h' = drop (nat r) (rest h)) \<and>
     (\<forall>f. map_option rest (ra_open E f) = contents f) \<and>
     (\<forall>f s. contents f = Some s \<longrightarrow> length s + 2 < 2 ^ 31)"

lemma scan_reads_spec:
  assumes A: "parray_laws A elems" and E: "reads_contents E rest contents"
  shows "\<exists>t'. scan_reads E A h (of_nat off) eol t = Some (of_nat (off + length (rest h)), t') \<and>
    elems t' = elems t @ map of_nat (line_starts off eol (rest h))"
proof (induction "length (rest h)" arbitrary: h off eol t rule: less_induct)
  case less
  obtain r buffer h' where rd: "ra_read E h DEFAULT_SCAN_BUFFER_SIZE = (r, buffer, h')"
    using prod_cases3 by blast
  show ?case
  proof (cases "rest h = []")
    case True
    then have "r \<le> 0" using E rd unfolding reads_contents_def by (auto dest!: spec [of _ h])
    then show ?thesis using True rd by (subst scan_reads.simps) simp
  next
    case False
    then have r: "0 < r" "r \<le> int (length (rest h))" "take (nat r) buffer = take (nat r) (rest h)"
        "rest h' = drop (nat r) (rest h)"
      using E rd unfolding reads_contents_def by (auto dest!: spec [of _ h])
    define a where "a = take (nat r) (rest h)"
    have a: "length a = nat r" "rest h = a @ rest h'" using r by (simp_all add: a_def)
    obtain t1 where t1: "scan_buffer A (of_nat off) eol a t = (eol_after eol a, t1)"
        "elems t1 = elems t @ map of_nat (line_starts off eol a)"
      using scan_buffer_spec [OF A] by blast
    have o: "(of_nat off :: u32) + of_int r = of_nat (off + length a)"
      using r(1) by (simp add: a(1))
    obtain t' where t': "scan_reads E A h' (of_nat (off + length a)) (eol_after eol a) t1 =
        Some (of_nat (off + length a + length (rest h')), t')"
        "elems t' = elems t1 @ map of_nat (line_starts (off + length a) (eol_after eol a) (rest h'))"
      using less.hyps [of h' "off + length a" "eol_after eol a" t1] r by fastforce
    have "scan_reads E A h (of_nat off) eol t = Some (of_nat (off + length a + length (rest h')), t')"
      using rd r(1,3) t1(1) t'(1) by (subst scan_reads.simps) (simp add: o flip: a_def)
    moreover have "elems t' = elems t @ map of_nat (line_starts off eol (rest h))"
      unfolding t'(2) t1(2) by (subst a(2)) (simp add: line_starts_append)
    moreover have "off + length a + length (rest h') = off + length (rest h)"
      by (subst a(2)) simp
    ultimately show ?thesis by auto
  qed
qed

text \<open>What holds of a file object at any time: once scanned it has the table of its contents.\<close>

definition mfile_inv :: "('arr \<Rightarrow> u32 list) \<Rightarrow> (string \<Rightarrow> string option) \<Rightarrow> 'arr mfile \<Rightarrow> bool" where
  "mfile_inv elems contents mf \<longleftrightarrow>
     (if scanned mf then \<exists>s. contents (the_filename mf) = Some s \<and> table_of elems s (lines mf)
      else contents (the_filename mf) \<noteq> None \<longrightarrow> elems (lines mf) = [])"

lemma ensure_scanned_spec:
  assumes A: "parray_laws A elems" and E: "reads_contents E rest contents" and mf: "mfile_inv elems contents mf"
  shows "\<exists>mf'. ensure_scanned E A mf = Some mf' \<and> mfile_inv elems contents mf' \<and>
    the_filename mf' = the_filename mf \<and> file_exists mf' = file_exists mf \<and>
    (file_exists mf \<longrightarrow> scanned mf' = (contents (the_filename mf) \<noteq> None))"
proof (cases "file_exists mf \<and> \<not> scanned mf")
  case False
  then show ?thesis using mf by (auto simp: ensure_scanned_def mfile_inv_def)
next
  case True
  show ?thesis
  proof (cases "ra_open E (the_filename mf)")
    case None
    moreover have "map_option rest (ra_open E (the_filename mf)) = contents (the_filename mf)"
      using E by (simp add: reads_contents_def)
    ultimately have "contents (the_filename mf) = None" by simp
    then show ?thesis
      using True None by (simp add: ensure_scanned_def scanFile_def mfile_inv_def)
  next
    case (Some h)
    then have c: "contents (the_filename mf) = Some (rest h)"
      using E unfolding reads_contents_def by (metis option.simps(9))
    then have l: "length (rest h) + 2 < 2 ^ 31" using E unfolding reads_contents_def by blast
    define t where "t = pa_append A 0 (lines mf)"
    have t: "elems t = [0]"
      using True mf c by (simp add: t_def parray_lawsD(4) [OF A] mfile_inv_def)
    obtain t' where t': "scan_reads E A h 1 True t = Some (of_nat (1 + length (rest h)), t')"
        "elems t' = 0 # map of_nat (line_starts 1 True (rest h))"
      using scan_reads_spec [OF A E, of h 1 True t] t by auto
    define mf' where "mf' = mf\<lparr>lines := pa_append A (of_nat (1 + length (rest h)) + 1) t', scanned := True\<rparr>"
    have "ensure_scanned E A mf = Some mf'"
      using True Some t'(1) by (simp add: ensure_scanned_def scanFile_def mf'_def flip: t_def)
    moreover have "(of_nat (1 + length (rest h)) + 1 :: u32) = of_nat (length (rest h) + 2)"
      by (simp add: add.commute)
    then have "table_of elems (rest h) (lines mf')"
      using t'(2) l by (simp add: mf'_def parray_lawsD(4) [OF A] table_of_def file_table_def)
    ultimately show ?thesis
      using c by (intro exI [of _ mf']) (simp add: mfile_inv_def mf'_def)
  qed
qed


lemma ensure_scanned_contents:
  assumes A: "parray_laws A elems" and E: "reads_contents E rest contents" and mf: "mfile_inv elems contents mf"
    and c: "file_exists mf" "contents (the_filename mf) = Some s"
  shows "\<exists>mf'. ensure_scanned E A mf = Some mf' \<and> mfile_inv elems contents mf' \<and>
    the_filename mf' = the_filename mf \<and> file_exists mf' \<and> scanned mf' \<and> table_of elems s (lines mf')"
  using ensure_scanned_spec [OF A E mf] c by (auto simp: mfile_inv_def)

lemma toRowCol_contents:
  assumes A: "parray_laws A elems" and E: "reads_contents E rest contents" and mf: "mfile_inv elems contents mf"
    and c: "file_exists mf" "contents (the_filename mf) = Some s" and bp: "1 \<le> bp" "bp \<le> length s"
  shows "\<exists>mf'. toRowCol E A (of_nat bp) mf = Some (Some (of_nat (row_of s bp), of_nat (col_of s bp)), mf') \<and>
    mfile_inv elems contents mf' \<and> the_filename mf' = the_filename mf \<and> file_exists mf'"
proof -
  obtain mf' where m: "ensure_scanned E A mf = Some mf'" "mfile_inv elems contents mf'"
      "the_filename mf' = the_filename mf" "file_exists mf'" "scanned mf'" "table_of elems s (lines mf')"
    using ensure_scanned_contents [OF assms(1-5)] by blast
  have "bp < 2 ^ 31" using m(6) bp(2) by (simp add: table_of_def)
  then have "(0 :: u32) < of_nat bp" using bp(1) by (simp add: word_less_nat_alt unat_of_nat)
  then show ?thesis
    using m table_rowcol_spec [OF A m(6) bp] by (simp add: toRowCol_def)
qed

lemma toBytePos_contents:
  assumes A: "parray_laws A elems" and E: "reads_contents E rest contents" and mf: "mfile_inv elems contents mf"
    and c: "file_exists mf" "contents (the_filename mf) = Some s"
    and rc: "1 \<le> row" "row + 1 < length (file_table s)" "1 \<le> col" "col < 2 ^ 31"
  shows "\<exists>mf'. toBytePos E A (of_nat row) (of_nat col) mf =
    Some (if col < file_table s ! (row + 1) - 1 then Some (of_nat (file_table s ! row + col - 1)) else None, mf')
    \<and> mfile_inv elems contents mf'"
proof -
  obtain mf' where m: "ensure_scanned E A mf = Some mf'" "mfile_inv elems contents mf'"
      "file_exists mf'" "scanned mf'" "table_of elems s (lines mf')"
    using ensure_scanned_contents [OF assms(1-5)] by blast
  have "row < 2 ^ 31" using m(5) rc(2) length_file_table(2) [of s] by (simp add: table_of_def)
  then have "(0 :: u32) < of_nat row" "(0 :: u32) < of_nat col"
    using rc by (simp_all add: word_less_nat_alt unat_of_nat)
  then show ?thesis
    using m table_bytepos_spec [OF A m(5) rc(2,3)] rc(4) by (simp add: toBytePos_def)
qed

section \<open>Properties\<close>

text \<open>A file system for the witnesses: every file holds two lines, reads deliver two bytes.\<close>

definition demo_files :: "string files_env" where
  "demo_files = \<lparr>pdisfile = (\<lambda>f. True), ra_open = (\<lambda>f. Some [CHR ''a'', NL, CHR ''b'']),
     ra_read = (\<lambda>h n. (int (min 2 (length h)), take 2 h, drop 2 h))\<rparr>"

lemma demo_files_contents: "reads_contents demo_files (\<lambda>h. h) (\<lambda>f. Some [CHR ''a'', NL, CHR ''b''])"
  by (auto simp: reads_contents_def demo_files_def min_def)

definition demo_mfile :: "u32 list mfile" where
  "demo_mfile = \<lparr>the_filename = ''f'', scanned = False, file_exists = True, lines = []\<rparr>"

lemma demo_mfile_inv: "mfile_inv (\<lambda>a. a) (\<lambda>f. Some [CHR ''a'', NL, CHR ''b'']) demo_mfile"
  by (simp add: mfile_inv_def demo_mfile_def)

text \<open>For a file that exists and can be read, whether it was scanned before or not, and
  however the reads deliver its bytes: the row of byte \<open>bp\<close> is one more than the number of
  newlines before it and its column one more than the number of bytes since the last of them,
  and the size is the number of its bytes.\<close>

theorem row_and_column_of_byte:
  assumes A: "parray_laws A elems" and E: "reads_contents E rest contents" and mf: "mfile_inv elems contents mf"
    and c: "file_exists mf" "contents (the_filename mf) = Some s" and bp: "1 \<le> bp" "bp \<le> length s"
  shows "map_option fst (toRowCol E A (of_nat bp) mf) =
      Some (Some (of_nat (row_of s bp), of_nat (col_of s bp))) \<and>
    map_option fst (fileSize E A mf) = Some (of_nat (length s))"
proof -
  obtain mf' where m: "ensure_scanned E A mf = Some mf'" "scanned mf'" "table_of elems s (lines mf')"
    using ensure_scanned_contents [OF assms(1-5)] by blast
  obtain n where n: "length (file_table s) = Suc n"
    using length_file_table(1) [of s] by (cases "length (file_table s)") auto
  have "file_table s ! n = length s + 2"
    using n by (auto simp: file_table_def nth_append)
  then have "pa_at A (lines mf') (pa_size A (lines mf') - 1) = of_nat (length s + 2)"
    using table_at(1) [OF A m(3), of "int n"] table_size [OF A m(3)] n by simp
  then have "map_option fst (fileSize E A mf) = Some (of_nat (length s))"
    using m c(1) by (simp add: fileSize_def)
  then show ?thesis using toRowCol_contents [OF assms] by auto
qed

theorem row_and_column_of_byte_witness:
  "map_option fst (toRowCol demo_files (list_parray 0) 3 demo_mfile) = Some (Some (2, 1))"
  using row_and_column_of_byte [OF list_parray_laws demo_files_contents demo_mfile_inv, of _ 3 0]
  by (simp add: demo_mfile_def row_of_def col_of_def numeral_2_eq_2 numeral_3_eq_3)

text \<open>Going from a byte to its row and column and back gives the byte again, with a single
  exception: the newline that ends the first line of a file with more lines is refused, since the
  column is compared with the offset of the next line in the file and not in its line.\<close>

theorem byte_row_column_roundtrip:
  assumes A: "parray_laws A elems" and E: "reads_contents E rest contents" and mf: "mfile_inv elems contents mf"
    and c: "file_exists mf" "contents (the_filename mf) = Some s" and bp: "1 \<le> bp" "bp \<le> length s"
  shows "map_option fst (Option.bind (toRowCol E A (of_nat bp) mf) (\<lambda>(rc, mf').
      toBytePos E A (fst (the rc)) (snd (the rc)) mf')) =
    Some (if row_of s bp = 1 \<and> s ! (bp - 1) = NL \<and> bp < length s then None else Some (of_nat bp))"
proof -
  note row = file_table_row [OF bp]
  obtain mf' where m: "toRowCol E A (of_nat bp) mf = Some (Some (of_nat (row_of s bp), of_nat (col_of s bp)), mf')"
      "mfile_inv elems contents mf'" "the_filename mf' = the_filename mf" "file_exists mf'"
    using toRowCol_contents [OF assms] by blast
  have l: "length s + 2 < 2 ^ 31" using E c(2) unfolding reads_contents_def by blast
  have f: "row_of s bp = 1 \<longleftrightarrow> file_table s ! row_of s bp = 1" and g: "1 \<le> file_table s ! row_of s bp"
  proof -
    have "line_starts 1 True s \<noteq> []" using bp by (cases s) auto
    then have "file_table s ! 1 = 1" using bp by (cases s) (simp_all add: file_table_def)
    moreover have "file_table s ! 1 < file_table s ! row_of s bp" if "1 < row_of s bp"
      using sorted_wrt_nth_less [OF file_table_sorted that, of s] row(1) by simp
    ultimately show "row_of s bp = 1 \<longleftrightarrow> file_table s ! row_of s bp = 1" "1 \<le> file_table s ! row_of s bp"
      using row_of_bounds(1) [of s bp] by (cases "row_of s bp = 1"; force)+
  qed
  have col: "col_of s bp \<le> bp" using row(2) g by linarith
  obtain mf'' where b: "toBytePos E A (of_nat (row_of s bp)) (of_nat (col_of s bp)) mf' =
      Some (if col_of s bp < file_table s ! (row_of s bp + 1) - 1
        then Some (of_nat (file_table s ! row_of s bp + col_of s bp - 1)) else None, mf'')"
    using toBytePos_contents [OF A E m(2), of s "row_of s bp" "col_of s bp"] m(3,4) c row row_of_bounds [of s bp] col bp l
    by auto
  have "col_of s bp < file_table s ! (row_of s bp + 1) - 1 \<longleftrightarrow>
      \<not> (row_of s bp = 1 \<and> file_table s ! (row_of s bp + 1) = bp + 1)"
    using row(2,3) f g by auto
  then have "col_of s bp < file_table s ! (row_of s bp + 1) - 1 \<longleftrightarrow>
      \<not> (row_of s bp = 1 \<and> s ! (bp - 1) = NL \<and> bp < length s)"
    unfolding row(4) by blast
  then show ?thesis
    using m(1) b row(2) by simp
qed


theorem byte_row_column_roundtrip_witness:
  "map_option fst (Option.bind (toRowCol demo_files (list_parray 0) 2 demo_mfile) (\<lambda>(rc, mf').
      toBytePos demo_files (list_parray 0) (fst (the rc)) (snd (the rc)) mf')) = Some None"
  using byte_row_column_roundtrip [OF list_parray_laws demo_files_contents demo_mfile_inv, of _ 2 0]
  by (simp add: demo_mfile_def row_of_def numeral_2_eq_2)

end
