(* ===== verification/File_Cache.thy ===== *)
theory File_Cache
  imports Line_Table
begin

text \<open>
  The static list of files of \<^verbatim>\<open>mappedFile::getFile\<close> and \<^verbatim>\<open>mappedFile::reset\<close>: one object
  for every name, found again from any starting point of the two search loops. The last
  section shows that the list cannot be used again after a reset that forgets a file past
  the first.
\<close>

section \<open>The invariant of the list\<close>

definition cache_inv :: "('brr \<Rightarrow> nat list) \<Rightarrow> ('arr, 'brr) file_cache \<Rightarrow> bool" where
  "cache_inv addrs fc \<longleftrightarrow>
     (case currentFiles fc of
        None \<Rightarrow> lastfile fc = 0 \<and> store fc = Map.empty
      | Some fs \<Rightarrow> 0 \<le> lastfile fc \<and> lastfile fc \<le> int (length (addrs fs)) \<and>
          set (addrs fs) = dom (store fc) \<and> (\<forall>a\<in>dom (store fc). a < next_addr fc) \<and>
          (\<forall>a b mf mg. store fc a = Some mf \<longrightarrow> store fc b = Some mg \<longrightarrow>
             the_filename mf = the_filename mg \<longrightarrow> a = b))"

lemma cache_inv_init: "cache_inv addrs files_init"
  by (simp add: cache_inv_def files_init_def)

lemma find_file_spec:
  assumes B: "parray_laws B addrs" and fs: "currentFiles fc = Some fs"
    and dom: "set (addrs fs) \<subseteq> dom (store fc)"
  shows "0 \<le> i \<Longrightarrow> n \<le> int (length (addrs fs)) \<Longrightarrow>
    (\<exists>j a mf. find_file B fc f i n = Some (Some (a, j)) \<and> i \<le> j \<and> j < n \<and> a = addrs fs ! nat j \<and>
       store fc a = Some mf \<and> the_filename mf = f) \<or>
    find_file B fc f i n = Some None \<and>
      (\<forall>j mf. i \<le> j \<and> j < n \<longrightarrow> store fc (addrs fs ! nat j) = Some mf \<longrightarrow> the_filename mf \<noteq> f)"
proof (induction "nat (n - i)" arbitrary: i)
  case 0
  then show ?case by (subst (1 2) find_file.simps) auto
next
  case (Suc k)
  then have i: "i < n" by simp
  then have at: "pa_at B fs i = addrs fs ! nat i" "addrs fs ! nat i \<in> set (addrs fs)"
    using parray_lawsD(3) [OF B, of i fs] Suc.prems by auto
  then obtain mf where mf: "store fc (addrs fs ! nat i) = Some mf" using dom by auto
  show ?case
  proof (cases "the_filename mf = f")
    case True
    then have "find_file B fc f i n = Some (Some (addrs fs ! nat i, i))"
      using i fs at mf by (subst find_file.simps) simp
    then show ?thesis using True i mf by auto
  next
    case False
    then have "find_file B fc f i n = find_file B fc f (i + 1) n"
      using i fs at mf by (subst find_file.simps) simp
    moreover have "(\<exists>j a mf. find_file B fc f (i + 1) n = Some (Some (a, j)) \<and> i + 1 \<le> j \<and> j < n \<and>
        a = addrs fs ! nat j \<and> store fc a = Some mf \<and> the_filename mf = f) \<or>
      find_file B fc f (i + 1) n = Some None \<and>
      (\<forall>j mf. i + 1 \<le> j \<and> j < n \<longrightarrow> store fc (addrs fs ! nat j) = Some mf \<longrightarrow> the_filename mf \<noteq> f)"
      using Suc.hyps(1) [of "i + 1"] Suc.hyps(2) Suc.prems by simp
    ultimately show ?thesis
      using False mf i by (smt (verit) option.inject)
  qed
qed

lemma find_file_empty: "find_file B fc f i i = Some None"
  by (subst find_file.simps) simp

section \<open>Getting a file\<close>

lemma getFile_spec:
  assumes B: "parray_laws B addrs" and inv: "cache_inv addrs fc"
  shows "\<exists>a fc' mf. mappedFile_getFile E A B f fc = Some (a, fc') \<and> cache_inv addrs fc' \<and>
    store fc' a = Some mf \<and> the_filename mf = f \<and>
    (\<forall>b mb. store fc b = Some mb \<longrightarrow> store fc' b = Some mb)"
proof (cases "currentFiles fc")
  case None
  define mf where "mf = \<lparr>the_filename = f, scanned = False, file_exists = pdisfile E f,
    lines = pa_new A DEFAULT_NUMBER_OF_LINES\<rparr>"
  define fc' where "fc' = fc\<lparr>currentFiles := Some (pa_append B (next_addr fc) (pa_new B DEFAULT_NUMBER_OF_FILES)),
    store := (store fc)(next_addr fc \<mapsto> mf), next_addr := next_addr fc + 1, lastfile := 0\<rparr>"
  have "mappedFile_getFile E A B f fc = Some (next_addr fc, fc')"
    using None inv
    by (simp add: mappedFile_getFile_def find_file_empty cache_inv_def mappedFile_new_def Let_def fc'_def mf_def)
  moreover have "cache_inv addrs fc'"
    using None inv by (simp add: cache_inv_def fc'_def parray_lawsD(1,4) [OF B])
  moreover have "store fc' (next_addr fc) = Some mf" "the_filename mf = f"
    by (simp_all add: fc'_def mf_def)
  moreover have "store fc = Map.empty" using None inv by (simp add: cache_inv_def)
  ultimately show ?thesis by auto
next
  case (Some fs)
  then have c: "0 \<le> lastfile fc" "lastfile fc \<le> int (length (addrs fs))" "set (addrs fs) = dom (store fc)"
      "\<forall>a\<in>dom (store fc). a < next_addr fc"
    using inv by (simp_all add: cache_inv_def)
  have n: "pa_size B fs = int (length (addrs fs))" by (rule parray_lawsD(2) [OF B])
  note found = find_file_spec [OF B Some equalityD1 [OF c(3)], where f = f]
  have keep: "cache_inv addrs (fc\<lparr>lastfile := j\<rparr>)" if "0 \<le> j" "j < int (length (addrs fs))" for j
    using inv Some that by (simp add: cache_inv_def)
  from found [of "lastfile fc" "int (length (addrs fs))"] c
  consider (first) j a mf where "find_file B fc f (lastfile fc) (pa_size B fs) = Some (Some (a, j))"
      "lastfile fc \<le> j" "j < int (length (addrs fs))" "store fc a = Some mf" "the_filename mf = f"
    | (none) "find_file B fc f (lastfile fc) (pa_size B fs) = Some None"
      "\<forall>j mf. lastfile fc \<le> j \<and> j < int (length (addrs fs)) \<longrightarrow> store fc (addrs fs ! nat j) = Some mf \<longrightarrow> the_filename mf \<noteq> f"
    unfolding n by fastforce
  then show ?thesis
  proof cases
    case first
    then show ?thesis
      using Some keep [of j] c(1) by (auto simp: mappedFile_getFile_def)
  next
    case none
    from found [of 0 "lastfile fc"] c
    consider (second) j a mf where "find_file B fc f 0 (lastfile fc) = Some (Some (a, j))"
        "0 \<le> j" "j < lastfile fc" "store fc a = Some mf" "the_filename mf = f"
      | (new) "find_file B fc f 0 (lastfile fc) = Some None"
        "\<forall>j mf. 0 \<le> j \<and> j < lastfile fc \<longrightarrow> store fc (addrs fs ! nat j) = Some mf \<longrightarrow> the_filename mf \<noteq> f"
      by fastforce
    then show ?thesis
    proof cases
      case second
      then show ?thesis
        using Some none(1) keep [of j] c(2) by (auto simp: mappedFile_getFile_def)
    next
      case new
      have fresh: "the_filename mf \<noteq> f" if "store fc b = Some mf" for b mf
      proof -
        have "b \<in> set (addrs fs)" using that c(3) by auto
        then obtain j where "j < length (addrs fs)" "b = addrs fs ! j" by (auto simp: in_set_conv_nth)
        then show ?thesis
          using that none(2) [rule_format, of "int j" mf] new(2) [rule_format, of "int j" mf]
          by (cases "int j < lastfile fc") auto
      qed
      have lt: "b < Suc (next_addr fc)" if "store fc b = Some mb" for b mb
        using that c(4) by (auto intro: less_SucI)
      define mf where "mf = \<lparr>the_filename = f, scanned = False, file_exists = pdisfile E f,
        lines = pa_new A DEFAULT_NUMBER_OF_LINES\<rparr>"
      define fc' where "fc' = fc\<lparr>currentFiles := Some (pa_append B (next_addr fc) fs),
        store := (store fc)(next_addr fc \<mapsto> mf), next_addr := next_addr fc + 1,
        lastfile := int (length (addrs fs))\<rparr>"
      have "mappedFile_getFile E A B f fc = Some (next_addr fc, fc')"
        using Some none(1) new(1)
        by (simp add: mappedFile_getFile_def mappedFile_new_def Let_def fc'_def mf_def n)
      moreover have "cache_inv addrs fc'"
        using Some inv c
        by (auto simp: cache_inv_def fc'_def parray_lawsD(4) [OF B] mf_def split: if_splits
            intro: lt dest: fresh)
      moreover have "store fc' (next_addr fc) = Some mf" "the_filename mf = f"
        by (simp_all add: fc'_def mf_def)
      moreover have "store fc' b = Some mb" if "store fc b = Some mb" for b mb
        using that c(4) by (auto simp: fc'_def)
      ultimately show ?thesis by blast
    qed
  qed
qed


section \<open>Properties\<close>

text \<open>\<^verbatim>\<open>getFile\<close> gives one object for every name: it never fails, keeps every object it gave
  before, and in the list it leaves the object is the only one with that name, so that a later
  call with the name gives the same address, from whatever index the search starts.\<close>

theorem one_object_per_file:
  assumes "parray_laws B addrs" "cache_inv addrs fc"
  shows "\<exists>a fc'. mappedFile_getFile E A B f fc = Some (a, fc') \<and> cache_inv addrs fc' \<and>
    store fc \<subseteq>\<^sub>m store fc' \<and>
    (\<forall>b mb. store fc' b = Some mb \<longrightarrow> (the_filename mb = f \<longleftrightarrow> b = a)) \<and>
    (\<forall>i. 0 \<le> i \<and> i \<le> int (length (addrs (the (currentFiles fc')))) \<longrightarrow>
       map_option fst (mappedFile_getFile E A B f (fc'\<lparr>lastfile := i\<rparr>)) = Some a)"
proof -
  obtain a fc' mf where a: "mappedFile_getFile E A B f fc = Some (a, fc')" "cache_inv addrs fc'"
      "store fc' a = Some mf" "the_filename mf = f"
      "\<forall>b mb. store fc b = Some mb \<longrightarrow> store fc' b = Some mb"
    using getFile_spec [OF assms] by blast
  have unique: "the_filename mb = f \<longleftrightarrow> b = a" if "store fc' b = Some mb" for b mb
    using a(2-4) that unfolding cache_inv_def by (auto split: option.splits)
  have same: "map_option fst (mappedFile_getFile E A B f (fc'\<lparr>lastfile := i\<rparr>)) = Some a"
    if "0 \<le> i" "i \<le> int (length (addrs (the (currentFiles fc'))))" for i
  proof -
    have inv: "cache_inv addrs (fc'\<lparr>lastfile := i\<rparr>)"
      using a(2,3) that by (auto simp: cache_inv_def split: option.splits)
    obtain b fc2 mg where b: "mappedFile_getFile E A B f (fc'\<lparr>lastfile := i\<rparr>) = Some (b, fc2)" "cache_inv addrs fc2"
        "store fc2 b = Some mg" "the_filename mg = f" "store fc2 a = Some mf"
      using getFile_spec [OF assms(1) inv, of E A f] a(3) by auto
    then have "b = a" using a(4) unfolding cache_inv_def by (auto split: option.splits)
    with b(1) show ?thesis by simp
  qed
  have "store fc \<subseteq>\<^sub>m store fc'" using a(5) by (auto simp: map_le_def)
  with a(1,2) unique same show ?thesis by blast
qed

theorem one_object_per_file_witness:
  "\<exists>a fc'. mappedFile_getFile demo_files (list_parray 0) (list_parray 0) ''f'' files_init = Some (a, fc') \<and>
     map_option fst (mappedFile_getFile demo_files (list_parray 0) (list_parray 0) ''f'' (fc'\<lparr>lastfile := 0\<rparr>)) = Some a"
  using one_object_per_file [OF list_parray_laws [of 0] cache_inv_init, of demo_files "list_parray 0" "''f''"]
  by (metis of_nat_0_le_iff order_refl)

text \<open>The list cannot be used again after a reset: \<^verbatim>\<open>reset\<close> frees the list but the static
  index \<^verbatim>\<open>lastfile\<close> of \<^verbatim>\<open>getFile\<close> keeps its value, so that if the last search ended past the
  first file, the next call of \<^verbatim>\<open>getFile\<close>, with any name, reads through the null pointer.\<close>

theorem getFile_after_reset_crashes:
  assumes "0 < lastfile fc" "currentFiles fc \<noteq> None"
  shows "mappedFile_getFile E A B f (files_reset B fc) = None"
proof -
  obtain fs where fs: "currentFiles fc = Some fs" using assms(2) by auto
  define fc' where "fc' = files_reset B fc"
  have c: "currentFiles fc' = None" "lastfile fc' = lastfile fc"
    by (simp_all add: fc'_def files_reset_def fs Let_def)
  have "find_file B fc' f (lastfile fc') 0 = Some None"
    using assms(1) c(2) by (subst find_file.simps) simp
  moreover have "find_file B fc' f 0 (lastfile fc') = None"
    using assms(1) c by (subst find_file.simps) simp
  ultimately show ?thesis using c(1) by (simp add: mappedFile_getFile_def flip: fc'_def)
qed

definition two_files :: "(u32 list, nat list) file_cache" where
  "two_files = snd (the (mappedFile_getFile demo_files (list_parray 0) (list_parray 0) ''g''
     (snd (the (mappedFile_getFile demo_files (list_parray 0) (list_parray 0) ''f'' files_init)))))"

theorem getFile_after_reset_crashes_witness:
  "mappedFile_getFile demo_files (list_parray 0) (list_parray 0) ''f'' (files_reset (list_parray 0) two_files) = None"
proof (rule getFile_after_reset_crashes)
  show "0 < lastfile two_files" "currentFiles two_files \<noteq> None"
    by (simp_all add: two_files_def mappedFile_getFile_def files_init_def mappedFile_new_def find_file.simps
        list_parray_def Let_def demo_files_def)
qed

end
