(* ===== verification/Positions.thy ===== *)
theory Positions
  imports Pointer_Array "HOL-Library.Monad_Syntax"
begin

text \<open>
  Positions, locations and regions: \<^verbatim>\<open>libs/els/mapper/src/position.cxx\<close>, \<^verbatim>\<open>region.cxx\<close> and
  the structures of \<^verbatim>\<open>libs/els/if_parser\<close>. A pointer to a mapped file is the name of the
  file (\<open>Mapped_File\<close> has one object per name), the null pointer is \<open>None\<close>. The queries on
  mapped files are the parameter \<open>F\<close>; a query through the null pointer is undefined in the
  code and has the arbitrary value that \<open>F\<close> gives it at \<open>None\<close>. A field that a constructor
  leaves uninitialised, and that no operation reads, is 0. The result \<open>None\<close> of an operation
  on regions is a null position dereferenced.
\<close>

section \<open>Files and locations\<close>

record file_view =
  fv_exists :: "string option \<Rightarrow> bool"
  fv_bytepos :: "string option \<Rightarrow> u32 \<Rightarrow> u32 \<Rightarrow> u32 option"
  fv_rowcol :: "string option \<Rightarrow> u32 \<Rightarrow> (u32 \<times> u32) option"
  fv_resolve :: "string option \<Rightarrow> u32 \<Rightarrow> u32 \<Rightarrow> int \<Rightarrow> (u32 \<times> u32) option"

record location =
  loc_filename :: "string option"
  start_line :: u32
  start_column :: u32
  end_line :: u32
  end_column :: u32

record mapline =
  sourceFile :: "string option"
  targetFile :: "string option"
  sourceStart :: u32
  sourceEnd :: u32
  targetStart :: u32

datatype extractflag = START | END
datatype datatype_tag = BP | RC

definition UINT_MAX :: u32 where
  "UINT_MAX = - 1"

record position =
  bp :: u32
  row :: u32
  col :: u32
  ptype :: datatype_tag
  pfile :: "string option"

section \<open>Constructors\<close>

definition position_bp :: "u32 \<Rightarrow> string option \<Rightarrow> position" where
  "position_bp b f = \<lparr>bp = b, row = 0, col = 0, ptype = BP, pfile = f\<rparr>"

definition position_rc :: "u32 \<Rightarrow> u32 \<Rightarrow> string option \<Rightarrow> position" where
  "position_rc r c f = \<lparr>bp = 0, row = r, col = (if c = 0 then UINT_MAX else c), ptype = RC, pfile = f\<rparr>"

definition invalidate :: "position \<Rightarrow> position" where
  "invalidate p = p\<lparr>bp := 0, row := 0, col := 0, pfile := None\<rparr>"

definition position_default :: position where
  "position_default = invalidate \<lparr>bp = 0, row = 0, col = 0, ptype = RC, pfile = None\<rparr>"

text \<open>The assignment copies everything but the constant type.\<close>

definition position_assign :: "position \<Rightarrow> position \<Rightarrow> position" where
  "position_assign this other =
     this\<lparr>bp := bp other, row := row other, col := col other, pfile := pfile other\<rparr>"

definition initType :: "location option \<Rightarrow> extractflag \<Rightarrow> datatype_tag" where
  "initType lo e = (case lo of
     None \<Rightarrow> BP
   | Some l \<Rightarrow>
       if e = START then (if start_line l = 0 then BP else RC)
       else (if end_line l = 0 \<and> start_line l = 0 then BP else RC))"

definition initWithLocation :: "file_view \<Rightarrow> location \<Rightarrow> extractflag \<Rightarrow> position \<Rightarrow> position option" where
  "initWithLocation F l e p = (case loc_filename l of
     None \<Rightarrow> None
   | Some f \<Rightarrow>
       (let p' =
          (if e = START then
             (if start_line l = 0 then p\<lparr>bp := start_column l\<rparr>
              else (case fv_resolve F (Some f) (start_line l) (start_column l) 0 of
                  Some (r, c) \<Rightarrow> p\<lparr>row := r, col := c\<rparr>
                | None \<Rightarrow> p\<lparr>row := start_line l,
                    col := (if start_column l = 0 then UINT_MAX else start_column l)\<rparr>))
           else if end_line l = 0 then
             (if start_line l = 0 then p\<lparr>bp := end_column l + start_column l - 1\<rparr>
              else if end_column l > 0 then
                (case fv_resolve F (Some f) (start_line l) (start_column l) (uint (end_column l - 1)) of
                   Some (r, c) \<Rightarrow> p\<lparr>row := r, col := c\<rparr>
                 | None \<Rightarrow> p\<lparr>row := start_line l, col := start_column l + end_column l - 1\<rparr>)
              else p\<lparr>row := 0, col := 0\<rparr>)
           else (case fv_resolve F (Some f) (end_line l) (end_column l) 0 of
                  Some (r, c) \<Rightarrow> p\<lparr>row := r, col := c\<rparr>
                | None \<Rightarrow> p\<lparr>row := end_line l,
                    col := (if end_column l = 0 then UINT_MAX else end_column l)\<rparr>))
        in Some (p'\<lparr>pfile := Some f\<rparr>)))"

definition position_of_location :: "file_view \<Rightarrow> location option \<Rightarrow> extractflag \<Rightarrow> position" where
  "position_of_location F lo e =
     (let p = invalidate \<lparr>bp = 0, row = 0, col = 0, ptype = initType lo e, pfile = None\<rparr>
      in case Option.bind lo (\<lambda>l. initWithLocation F l e p) of
           None \<Rightarrow> invalidate p
         | Some p' \<Rightarrow> p')"

definition position_of_mapline :: "file_view \<Rightarrow> mapline option \<Rightarrow> extractflag \<Rightarrow> string option \<Rightarrow> position" where
  "position_of_mapline F mlo e which =
     (let p = position_default
      in case mlo of
           None \<Rightarrow> p
         | Some ml \<Rightarrow>
             (if sourceFile ml \<noteq> None \<and> targetFile ml \<noteq> None then
                (let l = (if sourceFile ml = which
                          then \<lparr>loc_filename = sourceFile ml, start_line = sourceStart ml, start_column = 1,
                                end_line = sourceEnd ml, end_column = 0\<rparr>
                          else \<lparr>loc_filename = targetFile ml, start_line = targetStart ml, start_column = 1,
                                end_line = targetStart ml + sourceEnd ml - sourceStart ml, end_column = 0\<rparr>)
                 in case initWithLocation F l e p of None \<Rightarrow> invalidate p | Some p' \<Rightarrow> p')
              else p))"

section \<open>Conversion and comparison\<close>

text \<open>The first component is the return value of the code.\<close>

definition computeRC :: "file_view \<Rightarrow> position \<Rightarrow> bool \<times> u32 \<times> u32" where
  "computeRC F p =
     (if ptype p \<noteq> RC then
        (case fv_resolve F (pfile p) 1 1 (uint (bp p)) of
           None \<Rightarrow> (False, 1, bp p)
         | Some (r, c) \<Rightarrow> (True, r, c))
      else (True, row p, col p))"

definition computeRC_of :: "file_view \<Rightarrow> u32 \<Rightarrow> position \<Rightarrow> bool \<times> u32 \<times> u32" where
  "computeRC_of F inBP p = computeRC F (position_bp inBP (pfile p))"

definition computeBP :: "file_view \<Rightarrow> position \<Rightarrow> bool \<times> u32" where
  "computeBP F p =
     (if ptype p \<noteq> BP then
        (case fv_bytepos F (pfile p) (row p) (col p) of
           None \<Rightarrow> (False, UINT_MAX)
         | Some b \<Rightarrow> (True, b))
      else (True, bp p))"

definition compareBP :: "position \<Rightarrow> position \<Rightarrow> int" where
  "compareBP p q = (if bp p < bp q then -1 else if bp p > bp q then 1 else 0)"

definition compareRC :: "position \<Rightarrow> position \<Rightarrow> int" where
  "compareRC p q =
     (if row p < row q then -1 else if row p > row q then 1
      else if col p < col q then -1 else if col p > col q then 1 else 0)"

definition pos_compare :: "file_view \<Rightarrow> position \<Rightarrow> position \<Rightarrow> int" where
  "pos_compare F p q =
     (if pfile p = pfile q then
        (if ptype p = BP \<and> ptype q = BP then compareBP p q
         else if ptype p = RC \<and> ptype q = RC then compareRC p q
         else if ptype p = BP then compareBP p (position_bp (snd (computeBP F q)) (pfile p))
         else compareBP (position_bp (snd (computeBP F p)) (pfile p)) q)
      else -2)"

definition pos_lt :: "file_view \<Rightarrow> position \<Rightarrow> position \<Rightarrow> bool" where
  "pos_lt F p q \<longleftrightarrow> pos_compare F p q = -1"

definition pos_gt :: "file_view \<Rightarrow> position \<Rightarrow> position \<Rightarrow> bool" where
  "pos_gt F p q \<longleftrightarrow> pos_compare F p q = 1"

definition pos_eq :: "file_view \<Rightarrow> position \<Rightarrow> position \<Rightarrow> bool" where
  "pos_eq F p q \<longleftrightarrow> pos_compare F p q = 0"

definition pos_ne :: "file_view \<Rightarrow> position \<Rightarrow> position \<Rightarrow> bool" where
  "pos_ne F p q \<longleftrightarrow> (let cmp = pos_compare F p q in cmp = 1 \<or> cmp = -1)"

definition pos_le :: "file_view \<Rightarrow> position \<Rightarrow> position \<Rightarrow> bool" where
  "pos_le F p q \<longleftrightarrow> (let cmp = pos_compare F p q in cmp = -1 \<or> cmp = 0)"

definition pos_ge :: "file_view \<Rightarrow> position \<Rightarrow> position \<Rightarrow> bool" where
  "pos_ge F p q \<longleftrightarrow> (let cmp = pos_compare F p q in cmp = 0 \<or> cmp = 1)"

definition pos_valid :: "position \<Rightarrow> bool" where
  "pos_valid p \<longleftrightarrow> pfile p \<noteq> None \<and> (if ptype p = BP then bp p > 0 else row p > 0 \<and> col p > 0)"

definition pos_exists :: "file_view \<Rightarrow> position \<Rightarrow> bool" where
  "pos_exists F p \<longleftrightarrow> pos_valid p \<and> (if ptype p = BP then fst (computeRC F p) else fst (computeBP F p))"

section \<open>Moving a position\<close>

definition pos_next :: "file_view \<Rightarrow> u32 \<Rightarrow> position \<Rightarrow> position" where
  "pos_next F increment p =
     (if ptype p = BP then p\<lparr>bp := bp p + increment\<rparr>
      else (case fv_resolve F (pfile p) (row p) (col p) (uint increment) of
          Some (r, c) \<Rightarrow> p\<lparr>row := r, col := c\<rparr>
        | None \<Rightarrow>
            if col p \<noteq> UINT_MAX then p\<lparr>col := col p + increment\<rparr>
            else p\<lparr>row := row p + 1, col := increment\<rparr>))"

definition pos_prev :: "file_view \<Rightarrow> u32 \<Rightarrow> position \<Rightarrow> position" where
  "pos_prev F decrement p =
     (if ptype p = BP then p\<lparr>bp := bp p - decrement\<rparr>
      else (case fv_resolve F (pfile p) (row p) (col p) (- uint decrement) of
          Some (r, c) \<Rightarrow> p\<lparr>row := r, col := c\<rparr>
        | None \<Rightarrow>
            if decrement > col p then p\<lparr>row := row p - 1, col := UINT_MAX - decrement + 1\<rparr>
            else p\<lparr>col := col p - decrement\<rparr>))"

text \<open>The file of a position is not null where the code calls this; a null file gives no name here.\<close>

definition toLocation :: "position \<Rightarrow> location \<Rightarrow> extractflag \<Rightarrow> location" where
  "toLocation p l e =
     (let l' =
        (if e = START then
           (if ptype p = BP then l\<lparr>start_line := 0, start_column := bp p\<rparr>
            else l\<lparr>start_line := row p, start_column := col p\<rparr>)
         else
           (if ptype p = BP then l\<lparr>end_line := 0, end_column := bp p - start_column l\<rparr>
            else l\<lparr>end_line := row p, end_column := col p\<rparr>))
      in l'\<lparr>loc_filename := pfile p\<rparr>)"

definition offsetWith :: "file_view \<Rightarrow> position option \<Rightarrow> position option \<Rightarrow> position \<Rightarrow> position option" where
  "offsetWith F base_p new_base_p p = (case (base_p, new_base_p) of
     (Some base, Some new_base) \<Rightarrow>
       (if ptype p = ptype base \<and> ptype base = ptype new_base \<and> ptype p = BP then
          Some (p\<lparr>pfile := pfile new_base, bp := bp p - bp base + bp new_base\<rparr>)
        else if ptype p = ptype base \<and> ptype base = ptype new_base \<and> ptype p = RC then
          (let c = (if row p = row base then col p - col base + col new_base else col p);
               q = p\<lparr>pfile := pfile new_base, row := row p - row base + row new_base, col := c\<rparr>
           in Some (if col q = UINT_MAX then
                (case fv_resolve F (pfile q) (row q) 0 0 of
                   Some (r', c') \<Rightarrow> q\<lparr>col := c'\<rparr>
                 | None \<Rightarrow> q\<lparr>col := UINT_MAX\<rparr>)
              else q))
        else if fv_exists F (pfile p) \<and> fv_exists F (pfile new_base) then
          (let b = snd (computeBP F p) - snd (computeBP F base) + snd (computeBP F new_base);
               q = p\<lparr>pfile := pfile new_base, bp := b\<rparr>
           in Some (if ptype q \<noteq> BP then
                (case computeRC_of F b p of (_, r, c) \<Rightarrow> q\<lparr>row := r, col := c\<rparr>) else q))
        else None)
   | _ \<Rightarrow> Some p)"

section \<open>Regions\<close>

datatype regionOrder = PRECEDES | FOLLOWS | CONTAINS | IS_CONTAINED_IN | IS_EXACTLY
  | OVERLAPS_INTO | OVERLAPS_OUT_OF | UNKNOWN | INVALID

record region =
  r_start :: "position option"
  r_end :: "position option"
  from_file :: "string option"

definition region_of_location :: "file_view \<Rightarrow> location option \<Rightarrow> region" where
  "region_of_location F lo = (case Option.bind lo loc_filename of
     None \<Rightarrow> \<lparr>r_start = None, r_end = None, from_file = None\<rparr>
   | Some f \<Rightarrow> \<lparr>r_start = Some (position_of_location F lo START),
       r_end = Some (position_of_location F lo END), from_file = Some f\<rparr>)"

definition region_of_mapline :: "file_view \<Rightarrow> mapline option \<Rightarrow> string option \<Rightarrow> region" where
  "region_of_mapline F ml filename =
     (if filename \<noteq> None \<and> ml \<noteq> None
      then \<lparr>r_start = Some (position_of_mapline F ml START filename),
            r_end = Some (position_of_mapline F ml END filename), from_file = filename\<rparr>
      else \<lparr>r_start = None, r_end = None, from_file = None\<rparr>)"

definition region_of_positions :: "position option \<Rightarrow> position option \<Rightarrow> region" where
  "region_of_positions p1 p2 = (case (p1, p2) of
     (Some a, Some b) \<Rightarrow>
       if pfile a = pfile b then \<lparr>r_start = Some a, r_end = Some b, from_file = pfile a\<rparr>
       else \<lparr>r_start = None, r_end = None, from_file = None\<rparr>
   | _ \<Rightarrow> \<lparr>r_start = None, r_end = None, from_file = None\<rparr>)"

definition region_copy :: "'a region_scheme \<Rightarrow> region option" where
  "region_copy other = do {
     s \<leftarrow> r_start other;
     e \<leftarrow> r_end other;
     Some \<lparr>r_start = Some s, r_end = Some e, from_file = from_file other\<rparr>
   }"

definition region_assign :: "region \<Rightarrow> region \<Rightarrow> region option" where
  "region_assign this other = (if this = other then Some this else region_copy other)"

definition location_of_region :: "location \<Rightarrow> region \<Rightarrow> location" where
  "location_of_region l r = (case (r_start r, r_end r) of
     (Some s, Some e) \<Rightarrow> toLocation e (toLocation s l START) END
   | _ \<Rightarrow> l)"

definition orderWith :: "file_view \<Rightarrow> 'a region_scheme \<Rightarrow> 'b region_scheme option \<Rightarrow> regionOrder option" where
  "orderWith F this other_p = (case other_p of
     None \<Rightarrow> Some INVALID
   | Some other \<Rightarrow>
       if from_file other = from_file this then do {
         s \<leftarrow> r_start this;
         e \<leftarrow> r_end this;
         s' \<leftarrow> r_start other;
         e' \<leftarrow> r_end other;
         Some (if pos_lt F e s' then PRECEDES
               else if pos_gt F s e' then FOLLOWS
               else if pos_eq F s s' \<and> pos_eq F e e' then IS_EXACTLY
               else if pos_ge F s s' \<and> pos_le F e e' then IS_CONTAINED_IN
               else if pos_ge F s' s \<and> pos_le F e' e then CONTAINS
               else if pos_le F s s' \<and> pos_le F e e' then OVERLAPS_INTO
               else if pos_ge F s s' \<and> pos_ge F e e' then OVERLAPS_OUT_OF
               else UNKNOWN)
       } else Some INVALID)"

definition region_valid :: "file_view \<Rightarrow> 'a region_scheme \<Rightarrow> bool" where
  "region_valid F r = (case (r_start r, r_end r, from_file r) of
     (Some s, Some e, Some f) \<Rightarrow> pos_valid s \<and> pos_valid e \<and> pos_ge F e s
   | _ \<Rightarrow> False)"

text \<open>The results are \<^verbatim>\<open>retval\<close>, \<^verbatim>\<open>*before\<close> and \<^verbatim>\<open>*after\<close>. With regions from different files
  the code leaves the outputs as the caller initialised them, to null.\<close>

definition region_split ::
  "file_view \<Rightarrow> 'a region_scheme \<Rightarrow> 'b region_scheme \<Rightarrow> (int \<times> region option \<times> region option) option" where
  "region_split F this around =
     (if from_file around = from_file this then do {
        s \<leftarrow> r_start this;
        e \<leftarrow> r_end this;
        s' \<leftarrow> r_start around;
        e' \<leftarrow> r_end around;
        let before = (if pos_lt F s s' then Some (region_of_positions (Some s) (Some (pos_prev F 1 s'))) else None);
        let after = (if pos_gt F e e' then Some (region_of_positions (Some (pos_next F 1 e')) (Some e)) else None);
        let before' = (case before of Some r \<Rightarrow> if region_valid F r then Some r else None | None \<Rightarrow> None);
        let after' = (case after of Some r \<Rightarrow> if region_valid F r then Some r else None | None \<Rightarrow> None);
        Some (if before' \<noteq> None \<or> after' \<noteq> None then 1 else -1, before', after')
      } else Some (-1, None, None))"

end
