(* ===== verification/Mappings.thy ===== *)
theory Mappings
  imports Positions
begin

text \<open>
  Mappings and lists of mappings: \<^verbatim>\<open>libs/els/mapper/src/mapping.cxx\<close> and
  \<^verbatim>\<open>mappingList.cxx\<close>. A mapping is a region of a target file together with the source region
  it came from. The array of a list is the parameter \<open>M\<close>; an element can be the null
  pointer. \<open>list_insert\<close> is the loop of \<^verbatim>\<open>insert\<close> between \<open>low\<close> and \<open>high\<close>; its result is the
  return value and the array, and \<open>None\<close> stands for a null position dereferenced or for a
  loop that does not end.
\<close>

section \<open>Mappings\<close>

datatype mappingType = FIXED | COPY | LINES

record mapping = region +
  map_source :: region
  mapType :: mappingType

definition mapping_of :: "region \<Rightarrow> region \<Rightarrow> mappingType \<Rightarrow> mapping" where
  "mapping_of src trg t = region.extend trg \<lparr>map_source = src, mapType = t\<rparr>"

definition mapping_new :: "region \<Rightarrow> region \<Rightarrow> mappingType \<Rightarrow> mapping option" where
  "mapping_new src trg t = do {
     trg' \<leftarrow> region_copy trg;
     src' \<leftarrow> region_copy src;
     Some (mapping_of src' trg' t)
   }"

definition mapping_of_locations :: "file_view \<Rightarrow> location option \<Rightarrow> location option \<Rightarrow> mappingType \<Rightarrow> mapping" where
  "mapping_of_locations F src trg t = mapping_of (region_of_location F src) (region_of_location F trg) t"

definition mapping_of_mapline :: "file_view \<Rightarrow> mapline \<Rightarrow> mapping" where
  "mapping_of_mapline F ml =
     mapping_of (region_of_mapline F (Some ml) (sourceFile ml)) (region_of_mapline F (Some ml) (targetFile ml)) LINES"

definition mapping_copy :: "mapping \<Rightarrow> mapping option" where
  "mapping_copy other = do {
     trg \<leftarrow> region_copy other;
     s \<leftarrow> region_copy (map_source other);
     Some (mapping_of s trg (mapType other))
   }"

definition translate_position :: "file_view \<Rightarrow> mapping \<Rightarrow> position \<Rightarrow> position option" where
  "translate_position F m p =
     (if mapType m = LINES \<or> mapType m = COPY
      then offsetWith F (r_start m) (r_start (map_source m)) p else None)"

definition translate_region :: "file_view \<Rightarrow> mapping \<Rightarrow> region \<Rightarrow> region option option" where
  "translate_region F m r =
     (if mapType m \<noteq> FIXED then do {
        s \<leftarrow> r_start r;
        e \<leftarrow> r_end r;
        Some (case (translate_position F m s, translate_position F m e) of
            (Some xs, Some xe) \<Rightarrow> Some (region_of_positions (Some xs) (Some xe))
          | _ \<Rightarrow> None)
      } else map_option Some (region_copy (map_source m)))"

text \<open>One of the three results of a split: null unless both regions are there.\<close>

definition split_part :: "mappingType \<Rightarrow> region option \<Rightarrow> region option \<Rightarrow> mapping option option" where
  "split_part t src_p trg_p = (case (src_p, trg_p) of
     (Some src, Some trg) \<Rightarrow> map_option Some (mapping_new src trg t)
   | _ \<Rightarrow> Some None)"

definition translate_part :: "file_view \<Rightarrow> mapping \<Rightarrow> region option \<Rightarrow> region option option" where
  "translate_part F m trg_p =
     (if mapType m = FIXED then Some (Some (map_source m))
      else (case trg_p of None \<Rightarrow> Some None | Some trg \<Rightarrow> translate_region F m trg))"

definition mapping_split ::
  "file_view \<Rightarrow> mapping \<Rightarrow> 'a region_scheme \<Rightarrow>
   (int \<times> mapping option \<times> mapping option \<times> mapping option) option" where
  "mapping_split F this around =
     (if from_file around = from_file this then do {
        (_, trg_before, trg_after) \<leftarrow> region_split F this around;
        s \<leftarrow> r_start this;
        e \<leftarrow> r_end this;
        s' \<leftarrow> r_start around;
        e' \<leftarrow> r_end around;
        let over_end = (if pos_gt F e' e then e else e');
        let over_start = (if pos_lt F s' s then s else s');
        let trg_over = region_of_positions (Some over_start) (Some over_end);
        src_before \<leftarrow> translate_part F this trg_before;
        src_after \<leftarrow> translate_part F this trg_after;
        src_over \<leftarrow> translate_part F this (Some trg_over);
        before \<leftarrow> split_part (mapType this) src_before trg_before;
        after \<leftarrow> split_part (mapType this) src_after trg_after;
        over \<leftarrow> split_part (mapType this) src_over (Some trg_over);
        Some (if before \<noteq> None \<or> after \<noteq> None \<or> over \<noteq> None then 1 else -1, before, after, over)
      } else Some (-1, None, None, None))"

definition splitAllowed :: "mapping \<Rightarrow> mapping option \<Rightarrow> bool" where
  "splitAllowed this other_p = (case other_p of
     None \<Rightarrow> False
   | Some other \<Rightarrow> (case mapType this of
       LINES \<Rightarrow> True
     | FIXED \<Rightarrow> mapType other = FIXED \<or> mapType other = COPY
     | COPY \<Rightarrow> mapType other = FIXED \<or> mapType other = COPY))"

definition replacementAllowed :: "mapping \<Rightarrow> mapping option \<Rightarrow> bool" where
  "replacementAllowed this other_p = (case other_p of
     None \<Rightarrow> False
   | Some other \<Rightarrow> (case mapType this of
       LINES \<Rightarrow> True
     | FIXED \<Rightarrow> mapType other = FIXED \<or> mapType other = COPY
     | COPY \<Rightarrow> mapType other = COPY))"

section \<open>Lists of mappings\<close>

definition mappingList_new :: "(mapping option, 'arr) parray_ops \<Rightarrow> int \<Rightarrow> 'arr" where
  "mappingList_new M n = pa_new M n"

partial_function (option) list_insert ::
  "file_view \<Rightarrow> (mapping option, 'arr) parray_ops \<Rightarrow> mapping \<Rightarrow> int \<Rightarrow> int \<Rightarrow> 'arr \<Rightarrow> (int \<times> 'arr) option" where
  "list_insert F M m low high arr =
     (if high = -1 then Some (1, pa_append M (Some m) arr)
      else let mid = cquot2 (low + high); mid_elem = pa_at M arr mid
           in Option.bind (orderWith F m mid_elem) (\<lambda>ord.
             if ord = PRECEDES then
               (if mid - 1 < low then Some (1, pa_insert M (Some m) low arr)
                else list_insert F M m low (mid - 1) arr)
             else if ord = FOLLOWS then
               (if mid + 1 > high then Some (1, pa_insert M (Some m) (high + 1) arr)
                else list_insert F M m (mid + 1) high arr)
             else if ord = IS_EXACTLY then
               (if replacementAllowed (the mid_elem) (Some m)
                then Some (1, pa_insert M (Some m) mid (pa_remove M mid arr))
                else Some (-1, arr))
             else if ord = CONTAINS then
               Option.bind (mapping_split F m (the mid_elem)) (\<lambda>(r, before, after, over).
                 if r \<ge> 0 then
                   Option.bind (case before of None \<Rightarrow> Some arr
                     | Some b \<Rightarrow> Option.bind (list_insert F M b 0 (pa_size M arr - 1) arr) (\<lambda>x. Some (snd x))) (\<lambda>arr1.
                   Option.bind (case after of None \<Rightarrow> Some arr1
                     | Some a \<Rightarrow> Option.bind (list_insert F M a 0 (pa_size M arr1 - 1) arr1) (\<lambda>x. Some (snd x))) (\<lambda>arr2.
                   Option.bind (case over of None \<Rightarrow> Some arr2
                     | Some v \<Rightarrow> Option.bind (list_insert F M v 0 (pa_size M arr2 - 1) arr2) (\<lambda>x. Some (snd x))) (\<lambda>arr3.
                   Some (1, arr3))))
                 else Some (-1, arr))
             else if ord = IS_CONTAINED_IN \<or> ord = OVERLAPS_OUT_OF \<or> ord = OVERLAPS_INTO then
               Option.bind (mapping_split F (the mid_elem) m) (\<lambda>(r, before, after, over).
                 if r \<ge> 0 then
                   (let arr0 = pa_insert M over mid (pa_remove M mid arr)
                    in Option.bind (case before of None \<Rightarrow> Some arr0
                     | Some b \<Rightarrow> Option.bind (list_insert F M b 0 (pa_size M arr0 - 1) arr0) (\<lambda>x. Some (snd x))) (\<lambda>arr1.
                   Option.bind (case after of None \<Rightarrow> Some arr1
                     | Some a \<Rightarrow> Option.bind (list_insert F M a 0 (pa_size M arr1 - 1) arr1) (\<lambda>x. Some (snd x))) (\<lambda>arr2.
                   Option.bind (list_insert F M m 0 (pa_size M arr2 - 1) arr2) (\<lambda>(_, arr3).
                   Some (1, arr3)))))
                 else Some (-1, arr))
             else Some (-1, arr)))"

definition mappingList_insert ::
  "file_view \<Rightarrow> (mapping option, 'arr) parray_ops \<Rightarrow> mapping option \<Rightarrow> 'arr \<Rightarrow> (int \<times> 'arr) option" where
  "mappingList_insert F M mp arr = (case mp of
     None \<Rightarrow> Some (-1, arr)
   | Some m \<Rightarrow> list_insert F M m 0 (pa_size M arr - 1) arr)"

function list_extract ::
  "file_view \<Rightarrow> (mapping option, 'arr) parray_ops \<Rightarrow> region \<Rightarrow> int \<Rightarrow> int \<Rightarrow> 'arr \<Rightarrow> region option option" where
  "list_extract F M within low high arr =
     (let mid = cquot2 (low + high); mid_elem = pa_at M arr mid
      in Option.bind (orderWith F within mid_elem) (\<lambda>ord.
        if ord = IS_EXACTLY \<or> ord = IS_CONTAINED_IN then translate_region F (the mid_elem) within
        else if ord = PRECEDES then
          (if mid - 1 < low then Some None else list_extract F M within low (mid - 1) arr)
        else if ord = FOLLOWS then
          (if mid + 1 > high then Some None else list_extract F M within (mid + 1) high arr)
        else Some None))"
  by pat_completeness auto
termination
  by (relation "measure (\<lambda>(F, M, w, low, high, arr). nat (high - low + 1))") (auto simp: cquot2_def split: if_splits)

declare list_extract.simps [simp del]

definition mappingList_extract ::
  "file_view \<Rightarrow> (mapping option, 'arr) parray_ops \<Rightarrow> region option \<Rightarrow> 'arr \<Rightarrow> (int \<times> region option) option" where
  "mappingList_extract F M within_p arr = (case within_p of
     None \<Rightarrow> Some (-1, None)
   | Some within \<Rightarrow> map_option (\<lambda>result. (if result \<noteq> None then 1 else -1, result))
       (list_extract F M within 0 (pa_size M arr - 1) arr))"

fun boundary_from :: "(mapping option, 'arr) parray_ops \<Rightarrow> 'arr \<Rightarrow> string \<Rightarrow> nat \<Rightarrow> position option" where
  "boundary_from M arr filename 0 = None"
| "boundary_from M arr filename (Suc i) =
     (let retval = (case pa_at M arr (int i) of
          None \<Rightarrow> None
        | Some m \<Rightarrow> if from_file (map_source m) = Some filename then r_end m else None)
      in if retval \<noteq> None then retval else boundary_from M arr filename i)"

definition list_getFileBoundary :: "(mapping option, 'arr) parray_ops \<Rightarrow> 'arr \<Rightarrow> string option \<Rightarrow> position option" where
  "list_getFileBoundary M arr filename_p = (case filename_p of
     None \<Rightarrow> None
   | Some filename \<Rightarrow> boundary_from M arr filename (nat (pa_size M arr)))"

end
