(* ===== verification/Els_Mapper.thy ===== *)
theory Els_Mapper
  imports Mappings Mapped_File
begin

text \<open>
  The class \<^verbatim>\<open>elsMapper\<close> of \<^verbatim>\<open>libs/els/mapper/src/elsMapper.cxx\<close>: one object per generated
  file with the list of its mappings, and the static set \<^verbatim>\<open>currentMaps\<close> of all of them. The
  set is a list in the order of creation (the code orders it by address); the null pointer,
  before the first object and after \<^verbatim>\<open>reset\<close>, is \<open>None\<close>. The result \<open>None\<close> of an operation is
  a null pointer dereferenced or a call that does not return. \<open>junk\<close> is what an
  uninitialised \<^verbatim>\<open>location\<close> holds. Printing (\<^verbatim>\<open>dumpTo\<close>, and what \<^verbatim>\<open>showbadlocs\<close> and
  \<^verbatim>\<open>showunmappings\<close> switch on) is not modelled.
\<close>

section \<open>State\<close>

record transformation =
  t_source :: "location option"
  t_target :: "location option"

record 'arr elsMapper =
  forFile :: "string option"
  mappings :: "'arr option"

type_synonym 'arr mapper_set = "'arr elsMapper list option"

definition elsMapper_new :: "string option \<Rightarrow> 'arr mapper_set \<Rightarrow> 'arr mapper_set" where
  "elsMapper_new filename currentMaps =
     (let maps = (case currentMaps of None \<Rightarrow> [] | Some ms \<Rightarrow> ms)
      in Some (maps @ [\<lparr>forFile = filename, mappings = None\<rparr>]))"

text \<open>The destructor of the object at an index.\<close>

definition elsMapper_delete :: "nat \<Rightarrow> 'arr mapper_set \<Rightarrow> 'arr mapper_set" where
  "elsMapper_delete i currentMaps = (case currentMaps of
     None \<Rightarrow> None
   | Some ms \<Rightarrow> (let ms' = remove_list i ms in if length ms' = 0 then None else Some ms'))"

text \<open>The loop of \<^verbatim>\<open>reset\<close> deletes the first object until the set is empty. Its test
  dereferences \<^verbatim>\<open>currentMaps\<close>, which the destructor of the last object has set to null.\<close>

function reset_loop :: "'arr mapper_set \<Rightarrow> 'arr mapper_set option" where
  "reset_loop currentMaps = (case currentMaps of
     None \<Rightarrow> None
   | Some ms \<Rightarrow> if ms = [] then Some currentMaps else reset_loop (elsMapper_delete 0 currentMaps))"
  by pat_completeness auto
termination
  by (relation "measure (\<lambda>cm. case cm of None \<Rightarrow> 0 | Some ms \<Rightarrow> Suc (length ms))")
    (auto simp: elsMapper_delete_def remove_list_def Let_def split: option.split)

declare reset_loop.simps [simp del]

definition elsMapper_reset ::
  "(nat, 'brr) parray_ops \<Rightarrow> 'arr mapper_set \<Rightarrow> ('lrr, 'brr) file_cache \<Rightarrow>
   (int \<times> 'arr mapper_set \<times> ('lrr, 'brr) file_cache) option" where
  "elsMapper_reset B currentMaps files = (case currentMaps of
     None \<Rightarrow> Some (1, None, files_reset B files)
   | Some ms \<Rightarrow> Option.bind (reset_loop currentMaps) (\<lambda>_. Some (1, None, files_reset B files)))"

text \<open>The outer option is the crash, the inner one the null result.\<close>

definition findMapper :: "string option \<Rightarrow> 'arr mapper_set \<Rightarrow> 'arr elsMapper option option" where
  "findMapper filename currentMaps = (case filename of
     None \<Rightarrow> Some None
   | Some f \<Rightarrow> (case currentMaps of
       None \<Rightarrow> None
     | Some ms \<Rightarrow> Some (find (\<lambda>m. forFile m = Some f) ms)))"

section \<open>Adding mappings\<close>

text \<open>The object that the calls work on: the one that \<^verbatim>\<open>findMapper\<close> finds or a new one.\<close>

definition find_or_new :: "string option \<Rightarrow> 'arr mapper_set \<Rightarrow> 'arr mapper_set option" where
  "find_or_new filename currentMaps = do {
     m \<leftarrow> findMapper filename currentMaps;
     Some (case m of None \<Rightarrow> elsMapper_new filename currentMaps | Some _ \<Rightarrow> currentMaps)
   }"

text \<open>The first object of a null name is never found again: its calls work on the new, last one.\<close>

fun update_mapper :: "string option \<Rightarrow> 'arr option \<Rightarrow> 'arr elsMapper list \<Rightarrow> 'arr elsMapper list" where
  "update_mapper filename ml [] = []"
| "update_mapper filename ml (m # ms) =
     (if forFile m = filename \<and> (filename \<noteq> None \<or> ms = []) then m\<lparr>mappings := ml\<rparr> # ms
      else m # update_mapper filename ml ms)"

definition mapper_for :: "string option \<Rightarrow> 'arr elsMapper list \<Rightarrow> 'arr elsMapper option" where
  "mapper_for filename ms =
     (if filename = None then (if ms = [] then None else Some (last ms))
      else find (\<lambda>m. forFile m = filename) ms)"

definition add_mapping ::
  "file_view \<Rightarrow> (mapping option, 'arr) parray_ops \<Rightarrow> string option \<Rightarrow> mapping \<Rightarrow> 'arr mapper_set \<Rightarrow>
   (int \<times> 'arr mapper_set) option" where
  "add_mapping F M filename newEntry currentMaps = do {
     ms \<leftarrow> currentMaps;
     mapper \<leftarrow> mapper_for filename ms;
     let ml = (case mappings mapper of None \<Rightarrow> mappingList_new M 1024 | Some l \<Rightarrow> l);
     (r, ml') \<leftarrow> mappingList_insert F M (Some newEntry) ml;
     Some (1, Some (update_mapper filename (Some ml') ms))
   }"

text \<open>The end of the target, if it is not given: as far from its start as in the source. A
  position without a file is converted to a location through a null pointer.\<close>

definition adjust_target :: "file_view \<Rightarrow> location \<Rightarrow> location \<Rightarrow> location option" where
  "adjust_target F src trg =
     (if end_line trg = 0 \<and> end_column trg = 0 then
        (let srcStart = position_of_location F (Some src) START;
             srcEnd = position_of_location F (Some src) END;
             trgStart = position_of_location F (Some trg) START
         in case offsetWith F (Some srcStart) (Some trgStart) srcEnd of
              None \<Rightarrow> Some trg
            | Some trgEnd \<Rightarrow> if pfile trgEnd = None then None else Some (toLocation trgEnd trg END))
      else Some trg)"

text \<open>The results are \<^verbatim>\<open>retval\<close>, \<^verbatim>\<open>trans\<close>, whose target the call changes, and the set.\<close>

definition addTransformation ::
  "file_view \<Rightarrow> (mapping option, 'arr) parray_ops \<Rightarrow> transformation option \<Rightarrow> int \<Rightarrow> 'arr mapper_set \<Rightarrow>
   (int \<times> transformation option \<times> 'arr mapper_set) option" where
  "addTransformation F M tf copyFlag currentMaps = (case tf of
     None \<Rightarrow> Some (-1, tf, currentMaps)
   | Some tr \<Rightarrow> (case (t_source tr, t_target tr) of
       (Some src, Some trg) \<Rightarrow> do {
         cm \<leftarrow> find_or_new (loc_filename trg) currentMaps;
         trg' \<leftarrow> adjust_target F src trg;
         let newEntry = mapping_of_locations F (Some src) (Some trg') (if copyFlag \<noteq> 0 then COPY else FIXED);
         (retval, cm') \<leftarrow> add_mapping F M (loc_filename trg) newEntry cm;
         Some (retval, Some (tr\<lparr>t_target := Some trg'\<rparr>), cm')
       }
     | _ \<Rightarrow> Some (-1, tf, currentMaps)))"

definition addTransformation_mapline ::
  "file_view \<Rightarrow> (mapping option, 'arr) parray_ops \<Rightarrow> mapline option \<Rightarrow> 'arr mapper_set \<Rightarrow>
   (int \<times> 'arr mapper_set) option" where
  "addTransformation_mapline F M ml currentMaps = (case ml of
     None \<Rightarrow> Some (-1, currentMaps)
   | Some m \<Rightarrow>
       if sourceFile m \<noteq> None \<and> targetFile m \<noteq> None then do {
         cm \<leftarrow> find_or_new (targetFile m) currentMaps;
         add_mapping F M (targetFile m) (mapping_of_mapline F m) cm
       } else Some (-1, currentMaps))"

section \<open>Unmapping\<close>

definition no_location :: location where
  "no_location = \<lparr>loc_filename = None, start_line = 0, start_column = 0, end_line = 0, end_column = 0\<rparr>"

partial_function (option) getTrueLoc2 ::
  "file_view \<Rightarrow> (mapping option, 'arr) parray_ops \<Rightarrow> location \<Rightarrow> 'arr mapper_set \<Rightarrow> region \<Rightarrow>
   (int \<times> location option) option" where
  "getTrueLoc2 F M junk currentMaps reg =
     Option.bind (from_file reg) (\<lambda>f.
     Option.bind (findMapper (Some f) currentMaps) (\<lambda>m.
       case Option.bind m mappings of
         None \<Rightarrow> Some (1, Some (location_of_region junk reg))
       | Some ml \<Rightarrow>
           Option.bind (mappingList_extract F M (Some reg) ml) (\<lambda>(r, unmapped_reg).
             if r \<ge> 0 then
               (case unmapped_reg of
                  None \<Rightarrow> Some (1, Some (location_of_region junk reg))
                | Some u \<Rightarrow> Option.bind (getTrueLoc2 F M junk currentMaps u) (\<lambda>(retval, result).
                    Some (retval, if retval \<noteq> 1 then None else result)))
             else Some (-1, None))))"

definition getTrueLoc ::
  "file_view \<Rightarrow> (mapping option, 'arr) parray_ops \<Rightarrow> location \<Rightarrow> 'arr mapper_set \<Rightarrow> location option \<Rightarrow>
   (int \<times> location option) option" where
  "getTrueLoc F M junk currentMaps mappedLoc = (case mappedLoc of
     None \<Rightarrow> Some (-1, None)
   | Some l \<Rightarrow>
       (let p1 = position_of_location F (Some l) START;
            p2 = position_of_location F (Some l) END
        in if pos_valid p1 then do {
             (r1, startlocpoint) \<leftarrow> getTrueLoc2 F M junk currentMaps (region_of_positions (Some p1) (Some p1));
             (retval, result) \<leftarrow>
               (if r1 \<ge> 0 then do {
                  s \<leftarrow> startlocpoint;
                  Some (1, no_location\<lparr>start_line := start_line s, start_column := start_column s,
                    loc_filename := loc_filename s\<rparr>)
                } else Some (-1, no_location));
             (retval, result) \<leftarrow>
               (if pos_valid p2 then do {
                  (r2, endlocpoint) \<leftarrow> getTrueLoc2 F M junk currentMaps (region_of_positions (Some p2) (Some p2));
                  if r2 \<ge> 0 then do {
                    e \<leftarrow> endlocpoint;
                    Some (1, result\<lparr>end_line := end_line e, end_column := end_column e\<rparr>)
                  } else Some (-1, result)
                } else Some (retval, result));
             Some (retval, if retval \<noteq> 1 then None else Some result)
           } else Some (-1, None)))"

text \<open>The same calls with a bound on the depth of the recursion. Here a crash and a recursion that
  has not come to its end are told apart, as they are not in \<open>None\<close>.\<close>

fun getTrueLoc2_calls ::
  "nat \<Rightarrow> file_view \<Rightarrow> (mapping option, 'arr) parray_ops \<Rightarrow> location \<Rightarrow> 'arr mapper_set \<Rightarrow> region \<Rightarrow>
   (int \<times> location option) outcome" where
  "getTrueLoc2_calls 0 F M junk currentMaps reg = Running"
| "getTrueLoc2_calls (Suc n) F M junk currentMaps reg =
     (case from_file reg of
        None \<Rightarrow> Crashed
      | Some f \<Rightarrow> (case findMapper (Some f) currentMaps of
          None \<Rightarrow> Crashed
        | Some m \<Rightarrow> (case Option.bind m mappings of
            None \<Rightarrow> Returned (1, Some (location_of_region junk reg))
          | Some ml \<Rightarrow> (case mappingList_extract F M (Some reg) ml of
              None \<Rightarrow> Crashed
            | Some (r, unmapped_reg) \<Rightarrow>
                if r \<ge> 0 then
                  (case unmapped_reg of
                     None \<Rightarrow> Returned (1, Some (location_of_region junk reg))
                   | Some u \<Rightarrow> outcome_bind (getTrueLoc2_calls n F M junk currentMaps u) (\<lambda>(retval, result).
                       Returned (retval, if retval \<noteq> 1 then None else result)))
                else Returned (-1, None)))))"

definition getTrueLoc_calls ::
  "nat \<Rightarrow> file_view \<Rightarrow> (mapping option, 'arr) parray_ops \<Rightarrow> location \<Rightarrow> 'arr mapper_set \<Rightarrow> location option \<Rightarrow>
   (int \<times> location option) outcome" where
  "getTrueLoc_calls n F M junk currentMaps mappedLoc = (case mappedLoc of
     None \<Rightarrow> Returned (-1, None)
   | Some l \<Rightarrow>
       (let p1 = position_of_location F (Some l) START;
            p2 = position_of_location F (Some l) END
        in if pos_valid p1 then
             outcome_bind (getTrueLoc2_calls n F M junk currentMaps (region_of_positions (Some p1) (Some p1))) (\<lambda>(r1, startlocpoint).
             outcome_bind
               (if r1 \<ge> 0 then
                  (case startlocpoint of
                     None \<Rightarrow> Crashed
                   | Some s \<Rightarrow> Returned (1, no_location\<lparr>start_line := start_line s, start_column := start_column s,
                       loc_filename := loc_filename s\<rparr>))
                else Returned (-1, no_location)) (\<lambda>(retval, result).
             outcome_bind
               (if pos_valid p2 then
                  outcome_bind (getTrueLoc2_calls n F M junk currentMaps (region_of_positions (Some p2) (Some p2))) (\<lambda>(r2, endlocpoint).
                    if r2 \<ge> 0 then
                      (case endlocpoint of
                         None \<Rightarrow> Crashed
                       | Some e \<Rightarrow> Returned (1, result\<lparr>end_line := end_line e, end_column := end_column e\<rparr>))
                    else Returned (-1, result))
                else Returned (retval, result)) (\<lambda>(retval, result).
             Returned (retval, if retval \<noteq> 1 then None else Some result))))
           else Returned (-1, None)))"

text \<open>The furthest end of a mapping from \<open>filename\<close>. A crash is \<open>None\<close>.\<close>

definition furthest :: "file_view \<Rightarrow> position option \<Rightarrow> position option \<Rightarrow> position option" where
  "furthest F retval tmp = (case tmp of
     None \<Rightarrow> retval
   | Some t \<Rightarrow> (case retval of None \<Rightarrow> Some t | Some r \<Rightarrow> if pos_lt F r t then Some t else Some r))"

definition getFileBoundary ::
  "file_view \<Rightarrow> (mapping option, 'arr) parray_ops \<Rightarrow> string option \<Rightarrow> 'arr mapper_set \<Rightarrow> position option option" where
  "getFileBoundary F M filename currentMaps = (case filename of
     None \<Rightarrow> Some None
   | Some f \<Rightarrow> (case currentMaps of
       None \<Rightarrow> None
     | Some ms \<Rightarrow> Some (fold (\<lambda>m retval. case mappings m of
           None \<Rightarrow> retval
         | Some ml \<Rightarrow> furthest F retval (list_getFileBoundary M ml (Some f))) ms None)))"

end
