(* ===== verification/Mapping_Refinement.thy ===== *)
theory Mapping_Refinement
  imports Mappings
begin

text \<open>
  Lists of byte mappings. When all positions are byte positions in one target file, a
  mapping list denotes a partial function from bytes to the mapping type and the region
  that a byte came from. The lemmas show that the sorted array keeps its elements disjoint
  and in order, that \<^verbatim>\<open>insert\<close> ends, and what it does to that function.
\<close>

section \<open>Byte mappings\<close>

datatype bmap = BMap (lo: u32) (hi: u32) (src: region) (mtyp: mappingType)

definition byte_region :: "string \<Rightarrow> u32 \<Rightarrow> u32 \<Rightarrow> region" where
  "byte_region f a b = \<lparr>r_start = Some (position_bp a (Some f)), r_end = Some (position_bp b (Some f)),
     from_file = Some f\<rparr>"

definition conc :: "string \<Rightarrow> bmap \<Rightarrow> mapping" where
  "conc T e = mapping_of (src e) (byte_region T (lo e) (hi e)) (mtyp e)"

definition bmap_ok :: "bmap \<Rightarrow> bool" where
  "bmap_ok e \<longleftrightarrow> 0 < lo e \<and> lo e \<le> hi e \<and>
     (if mtyp e = FIXED then r_start (src e) \<noteq> None \<and> r_end (src e) \<noteq> None
      else \<exists>S c d. src e = byte_region S c d)"

text \<open>The part of \<open>e\<close> from \<open>a\<close> to \<open>b\<close>, with the source moved along.\<close>

definition moved :: "bmap \<Rightarrow> u32 \<Rightarrow> u32 \<Rightarrow> region" where
  "moved e a b =
     (if mtyp e = FIXED then src e
      else byte_region (the (from_file (src e)))
        (a - lo e + bp (the (r_start (src e)))) (b - lo e + bp (the (r_start (src e)))))"

definition part :: "bmap \<Rightarrow> u32 \<Rightarrow> u32 \<Rightarrow> bmap" where
  "part e a b = BMap a b (moved e a b) (mtyp e)"

definition covers :: "bmap \<Rightarrow> u32 \<Rightarrow> bool" where
  "covers e p \<longleftrightarrow> lo e \<le> p \<and> p \<le> hi e"

definition image_at :: "bmap \<Rightarrow> u32 \<Rightarrow> mappingType \<times> region" where
  "image_at e p = (mtyp e, moved e p p)"

fun lookup :: "bmap list \<Rightarrow> u32 \<Rightarrow> (mappingType \<times> region) option" where
  "lookup [] p = None"
| "lookup (e # es) p = (if covers e p then Some (image_at e p) else lookup es p)"

definition precedes :: "bmap \<Rightarrow> bmap \<Rightarrow> bool" where
  "precedes x y \<longleftrightarrow> hi x < lo y"

definition list_ok :: "bmap list \<Rightarrow> bool" where
  "list_ok es \<longleftrightarrow> sorted_wrt precedes es \<and> list_all bmap_ok es"

text \<open>The kinds of mappings by strength: a mapping of a byte is replaced by one that is at least
  as strong.\<close>

fun strength :: "mappingType \<Rightarrow> nat" where
  "strength LINES = 0"
| "strength FIXED = 1"
| "strength COPY = 2"

instantiation mappingType :: linorder
begin

definition less_eq_mappingType :: "mappingType \<Rightarrow> mappingType \<Rightarrow> bool" where
  "less_eq_mappingType s t \<longleftrightarrow> strength s \<le> strength t"

definition less_mappingType :: "mappingType \<Rightarrow> mappingType \<Rightarrow> bool" where
  "less_mappingType s t \<longleftrightarrow> strength s < strength t"

instance
proof
  fix s t u :: mappingType
  show "s < t \<longleftrightarrow> s \<le> t \<and> \<not> t \<le> s" by (auto simp: less_eq_mappingType_def less_mappingType_def)
  show "s \<le> s" by (simp add: less_eq_mappingType_def)
  show "s \<le> t \<Longrightarrow> t \<le> u \<Longrightarrow> s \<le> u" by (simp add: less_eq_mappingType_def)
  show "s \<le> t \<Longrightarrow> t \<le> s \<Longrightarrow> s = t" by (cases s; cases t) (simp_all add: less_eq_mappingType_def)
  show "s \<le> t \<or> t \<le> s" by (auto simp: less_eq_mappingType_def)
qed

end

definition merge_at :: "bmap \<Rightarrow> (u32 \<Rightarrow> (mappingType \<times> region) option) \<Rightarrow> u32 \<Rightarrow> (mappingType \<times> region) option" where
  "merge_at e f p =
     (if covers e p then
        (case f p of
           None \<Rightarrow> Some (image_at e p)
         | Some (t, r) \<Rightarrow> if t \<le> mtyp e then Some (image_at e p) else Some (t, r))
      else f p)"

section \<open>The operations on byte mappings\<close>

lemma position_bp_simps [simp]:
  "bp (position_bp b f) = b" "ptype (position_bp b f) = BP" "pfile (position_bp b f) = f"
  "(position_bp b f)\<lparr>bp := c\<rparr> = position_bp c f" "(position_bp b f)\<lparr>pfile := g\<rparr> = position_bp b g"
  by (simp_all add: position_bp_def)

lemma byte_region_simps [simp]:
  "r_start (byte_region f a b) = Some (position_bp a (Some f))"
  "r_end (byte_region f a b) = Some (position_bp b (Some f))"
  "from_file (byte_region f a b) = Some f"
  by (simp_all add: byte_region_def)

lemma mapping_of_simps [simp]:
  "r_start (mapping_of s t k) = r_start t" "r_end (mapping_of s t k) = r_end t"
  "from_file (mapping_of s t k) = from_file t" "map_source (mapping_of s t k) = s"
  "mapType (mapping_of s t k) = k"
  by (simp_all add: mapping_of_def region.defs)

lemma conc_simps [simp]:
  "r_start (conc T e) = Some (position_bp (lo e) (Some T))"
  "r_end (conc T e) = Some (position_bp (hi e) (Some T))"
  "from_file (conc T e) = Some T" "map_source (conc T e) = src e" "mapType (conc T e) = mtyp e"
  by (simp_all add: conc_def)

lemma pos_order_bp [simp]:
  "pos_lt F (position_bp a f) (position_bp b f) \<longleftrightarrow> a < b"
  "pos_gt F (position_bp a f) (position_bp b f) \<longleftrightarrow> b < a"
  "pos_eq F (position_bp a f) (position_bp b f) \<longleftrightarrow> a = b"
  "pos_le F (position_bp a f) (position_bp b f) \<longleftrightarrow> a \<le> b"
  "pos_ge F (position_bp a f) (position_bp b f) \<longleftrightarrow> b \<le> a"
  by (auto simp: pos_lt_def pos_gt_def pos_eq_def pos_le_def pos_ge_def pos_compare_def compareBP_def)

lemma pos_moves_bp [simp]:
  "pos_next F k (position_bp a f) = position_bp (a + k) f"
  "pos_prev F k (position_bp a f) = position_bp (a - k) f"
  by (simp_all add: pos_next_def pos_prev_def)

lemma pos_valid_bp [simp]: "pos_valid (position_bp a (Some f)) \<longleftrightarrow> 0 < a"
  by (simp add: pos_valid_def)

lemma region_of_positions_bp [simp]:
  "region_of_positions (Some (position_bp a (Some f))) (Some (position_bp b (Some f))) = byte_region f a b"
  by (simp add: region_of_positions_def byte_region_def)

lemma orderWith_conc:
  "orderWith F (conc T e) (Some (conc T x)) = Some
     (if hi e < lo x then PRECEDES else if hi x < lo e then FOLLOWS
      else if lo e = lo x \<and> hi e = hi x then IS_EXACTLY
      else if lo x \<le> lo e \<and> hi e \<le> hi x then IS_CONTAINED_IN
      else if lo e \<le> lo x \<and> hi x \<le> hi e then CONTAINS
      else if lo e \<le> lo x \<and> hi e \<le> hi x then OVERLAPS_INTO
      else if lo x \<le> lo e \<and> hi x \<le> hi e then OVERLAPS_OUT_OF else UNKNOWN)"
  by (simp add: orderWith_def)

lemma offsetWith_bp:
  "offsetWith F (Some (position_bp a f)) (Some (position_bp c g)) (position_bp p f) =
     Some (position_bp (p - a + c) g)"
  by (simp add: offsetWith_def)

lemma region_copy_byte [simp]: "region_copy (byte_region f a b) = Some (byte_region f a b)"
  by (simp add: region_copy_def byte_region_def)

lemma region_copy_whole: "r_start (r :: region) \<noteq> None \<Longrightarrow> r_end r \<noteq> None \<Longrightarrow> region_copy r = Some r"
  by (auto simp: region_copy_def)

lemma translate_region_conc:
  assumes "bmap_ok e"
  shows "translate_region F (conc T e) (byte_region T a b) = Some (Some (moved e a b))"
proof (cases "mtyp e = FIXED")
  case True
  then show ?thesis using assms by (auto simp: translate_region_def moved_def bmap_ok_def region_copy_whole)
next
  case False
  then obtain S c d where s: "src e = byte_region S c d" using assms by (auto simp: bmap_ok_def)
  have "mtyp e = LINES \<or> mtyp e = COPY" using False by (cases "mtyp e") auto
  then show ?thesis
    using False by (simp add: translate_region_def translate_position_def moved_def s offsetWith_bp)
qed

lemma moved_copy: "bmap_ok e \<Longrightarrow> region_copy (moved e a b) = Some (moved e a b)"
  by (auto simp: moved_def bmap_ok_def region_copy_whole)

lemma conc_part: "conc T (part e a b) = mapping_of (moved e a b) (byte_region T a b) (mtyp e)"
  by (simp add: conc_def part_def)

lemma part_sel [simp]: "lo (part e a b) = a" "hi (part e a b) = b" "mtyp (part e a b) = mtyp e"
  by (simp_all add: part_def)

lemma part_ok: "bmap_ok e \<Longrightarrow> 0 < a \<Longrightarrow> a \<le> b \<Longrightarrow> bmap_ok (part e a b)"
  by (auto simp: bmap_ok_def part_def moved_def)

lemma image_part: "image_at (part e a b) p = image_at e p"
  by (auto simp: image_at_def part_def moved_def algebra_simps)

text \<open>The three parts of a split: before, after and over \<open>x\<close>.\<close>

definition parts :: "bmap \<Rightarrow> bmap \<Rightarrow> bmap option \<times> bmap option \<times> bmap" where
  "parts e x =
     (if lo e < lo x then Some (part e (lo e) (lo x - 1)) else None,
      if hi x < hi e then Some (part e (hi x + 1) (hi e)) else None,
      part e (if lo x < lo e then lo e else lo x) (if hi e < hi x then hi e else hi x))"

lemma word_pred_le: "a < b \<Longrightarrow> a \<le> b - 1" "0 < b \<Longrightarrow> x \<le> b - 1 \<longleftrightarrow> x < b" for a b x :: u32
  by (simp_all add: word_le_nat_alt word_less_nat_alt unat_sub_if_size) (unat_arith)

lemma word_succ_le: "a < b \<Longrightarrow> a + 1 \<le> b" "a < b \<Longrightarrow> a + 1 \<le> x \<longleftrightarrow> a < x" for a b x :: u32
  by unat_arith+

lemma word_succ_pos: "a < b \<Longrightarrow> 0 < a + 1" for a b :: u32
  by unat_arith

lemma region_valid_byte [simp]: "region_valid F (byte_region f a b) \<longleftrightarrow> 0 < a \<and> 0 < b \<and> a \<le> b"
  by (simp add: region_valid_def)

lemma region_split_conc:
  assumes "bmap_ok e" "bmap_ok x"
  shows "region_split F (conc T e) (conc T x) = Some
    (if lo e < lo x \<or> hi x < hi e then 1 else -1,
     if lo e < lo x then Some (byte_region T (lo e) (lo x - 1)) else None,
     if hi x < hi e then Some (byte_region T (hi x + 1) (hi e)) else None)"
proof -
  have "0 < lo e" "0 < hi e" "0 < lo x" using assms by (auto simp: bmap_ok_def)
  then show ?thesis
    using word_pred_le [of "lo e" "lo x"] word_succ_le [of "hi x" "hi e"] word_succ_pos [of "hi x" "hi e"]
    by (auto simp: region_split_def)
qed

lemma mapping_new_conc:
  "bmap_ok e \<Longrightarrow> mapping_new (moved e a b) (byte_region T a b) (mtyp e) = Some (conc T (part e a b))"
  by (simp add: mapping_new_def moved_copy conc_part)

lemma translate_part_conc:
  assumes "bmap_ok e"
  shows "translate_part F (conc T e) (Some (byte_region T a b)) = Some (Some (moved e a b))"
    and "\<exists>y. translate_part F (conc T e) None = Some y"
  using translate_region_conc [OF assms] by (auto simp: translate_part_def moved_def)

lemma split_part_none: "split_part t z None = Some None"
  by (cases z) (simp_all add: split_part_def)

lemma split_part_moved:
  "bmap_ok e \<Longrightarrow> split_part (mtyp e) (Some (moved e a b)) (Some (byte_region T a b)) = Some (Some (conc T (part e a b)))"
  by (simp add: split_part_def mapping_new_conc)

lemma mapping_split_conc:
  assumes "bmap_ok e" "bmap_ok x" "parts e x = (b, a, v)"
  shows "mapping_split F (conc T e) (conc T x) =
    Some (1, map_option (conc T) b, map_option (conc T) a, Some (conc T v))"
proof -
  obtain y where y: "translate_part F (conc T e) None = Some y"
    using translate_part_conc(2) [OF assms(1)] by blast
  show ?thesis
    using assms(3)
    by (auto simp: mapping_split_def region_split_conc [OF assms(1,2)] y translate_part_conc(1) [OF assms(1)]
        split_part_none split_part_moved [OF assms(1)] parts_def)
qed

end
