(* ===== verification/Mapping_Insert.thy ===== *)
theory Mapping_Insert
  imports Mapping_Refinement
begin

text \<open>
  What \<^verbatim>\<open>mappingList::insert\<close> does to a list of byte mappings: the branches of its loop, the
  binary search, the insertion of a mapping that overlaps nothing, and by induction on the
  size of the new mapping and on what it cuts, the insertion of any mapping.
\<close>

section \<open>The branches of the loop\<close>

lemma list_insert_precedes:
  assumes "high \<noteq> -1" "cquot2 (low + high) = mid" "orderWith F m (pa_at M arr mid) = Some PRECEDES"
  shows "list_insert F M m low high arr =
    (if mid - 1 < low then Some (1, pa_insert M (Some m) low arr) else list_insert F M m low (mid - 1) arr)"
  using assms by (subst list_insert.simps) (simp add: Let_def)

lemma list_insert_follows:
  assumes "high \<noteq> -1" "cquot2 (low + high) = mid" "orderWith F m (pa_at M arr mid) = Some FOLLOWS"
  shows "list_insert F M m low high arr =
    (if mid + 1 > high then Some (1, pa_insert M (Some m) (high + 1) arr) else list_insert F M m (mid + 1) high arr)"
  using assms by (subst list_insert.simps) (simp add: Let_def)

lemma cquot2_same [simp]: "cquot2 (2 * i) = i" "cquot2 (i + i) = i"
  by (simp_all add: cquot2_def) presburger+

lemma list_insert_hit:
  assumes "high \<noteq> -1" "cquot2 (low + high) = mid" "0 \<le> mid" "orderWith F m (pa_at M arr mid) = Some ord"
    "ord \<noteq> PRECEDES" "ord \<noteq> FOLLOWS"
  shows "list_insert F M m low high arr = list_insert F M m mid mid arr"
  using assms by (subst (1 2) list_insert.simps) (simp add: Let_def)

lemma list_insert_exact:
  assumes "0 \<le> mid" "pa_at M arr mid = Some x" "orderWith F m (Some x) = Some IS_EXACTLY"
  shows "list_insert F M m mid mid arr =
    (if replacementAllowed x (Some m) then Some (1, pa_insert M (Some m) mid (pa_remove M mid arr)) else Some (-1, arr))"
  using assms by (subst list_insert.simps) (simp add: Let_def)

text \<open>The insertion of a part of a split, which may be the null pointer.\<close>

definition insert_part where
  "insert_part F M part_p arr = (case part_p of None \<Rightarrow> Some arr
     | Some b \<Rightarrow> Option.bind (list_insert F M b 0 (pa_size M arr - 1) arr) (\<lambda>x. Some (snd x)))"

lemma list_insert_contains:
  assumes "0 \<le> mid" "pa_at M arr mid = Some x" "orderWith F m (Some x) = Some CONTAINS"
    "mapping_split F m x = Some (1, before, after, over)"
    "insert_part F M before arr = Some arr1" "insert_part F M after arr1 = Some arr2"
    "insert_part F M over arr2 = Some arr3"
  shows "list_insert F M m mid mid arr = Some (1, arr3)"
  using assms by (subst list_insert.simps) (simp add: Let_def insert_part_def)

lemma list_insert_overlap:
  assumes "0 \<le> mid" "pa_at M arr mid = Some x"
    "orderWith F m (Some x) = Some ord" "ord = IS_CONTAINED_IN \<or> ord = OVERLAPS_OUT_OF \<or> ord = OVERLAPS_INTO"
    "mapping_split F x m = Some (1, before, after, over)"
    "insert_part F M before (pa_insert M over mid (pa_remove M mid arr)) = Some arr1"
    "insert_part F M after arr1 = Some arr2"
    "list_insert F M m 0 (pa_size M arr2 - 1) arr2 = Some (r, arr3)"
  shows "list_insert F M m mid mid arr = Some (1, arr3)"
proof -
  have "ord \<noteq> PRECEDES \<and> ord \<noteq> FOLLOWS \<and> ord \<noteq> IS_EXACTLY \<and> ord \<noteq> CONTAINS" using assms(4) by auto
  then show ?thesis
    using assms by (subst list_insert.simps) (simp add: Let_def insert_part_def)
qed

section \<open>The binary search\<close>

definition overlap :: "bmap \<Rightarrow> bmap \<Rightarrow> bool" where
  "overlap x y \<longleftrightarrow> \<not> precedes x y \<and> \<not> precedes y x"

definition array_of :: "string \<Rightarrow> bmap list \<Rightarrow> mapping option list" where
  "array_of T es = map (\<lambda>e. Some (conc T e)) es"

lemma array_of_simps [simp]: "length (array_of T es) = length es" "i < length es \<Longrightarrow> array_of T es ! i = Some (conc T (es ! i))"
  by (simp_all add: array_of_def)

lemma precedes_trans: "bmap_ok y \<Longrightarrow> precedes x y \<Longrightarrow> precedes y z \<Longrightarrow> precedes x z"
  unfolding precedes_def bmap_ok_def by (meson order.strict_trans1 order.strict_trans)

lemma list_ok_nth:
  "list_ok es \<Longrightarrow> i < length es \<Longrightarrow> bmap_ok (es ! i)"
  "list_ok es \<Longrightarrow> i < j \<Longrightarrow> j < length es \<Longrightarrow> precedes (es ! i) (es ! j)"
  by (simp_all add: list_ok_def sorted_wrt_nth_less list_all_length)

lemma order_conc_cases:
  "precedes e x \<Longrightarrow> orderWith F (conc T e) (Some (conc T x)) = Some PRECEDES"
  "bmap_ok e \<Longrightarrow> bmap_ok x \<Longrightarrow> precedes x e \<Longrightarrow> orderWith F (conc T e) (Some (conc T x)) = Some FOLLOWS"
  by (auto simp: orderWith_conc precedes_def bmap_ok_def)

lemma order_conc_overlap:
  assumes "overlap e x" "orderWith F (conc T e) (Some (conc T x)) = Some ord"
  shows "ord \<noteq> PRECEDES" "ord \<noteq> FOLLOWS"
  using assms by (auto simp: orderWith_conc overlap_def precedes_def split: if_splits)

text \<open>The search between \<open>low\<close> and \<open>high\<close> inserts \<open>e\<close> at its place, or it reaches an element
  that \<open>e\<close> overlaps.\<close>

definition search_outcome where
  "search_outcome F M T es e arr low high \<longleftrightarrow>
    (\<exists>k \<le> length es. list_insert F M (conc T e) low high arr = Some (1, pa_insert M (Some (conc T e)) (int k) arr) \<and>
       (\<forall>i < k. precedes (es ! i) e) \<and> (\<forall>i. k \<le> i \<longrightarrow> i < length es \<longrightarrow> precedes e (es ! i))) \<or>
    (\<exists>mid < length es. overlap e (es ! mid) \<and>
       list_insert F M (conc T e) low high arr = list_insert F M (conc T e) (int mid) (int mid) arr)"

lemma insert_search:
  assumes laws: "parray_laws M elems" and arr: "elems arr = array_of T es" and ok: "list_ok es" "bmap_ok e"
    and "0 \<le> low" "low \<le> high" "high < int (length es)"
    "\<And>i. int i < low \<Longrightarrow> precedes (es ! i) e"
    "\<And>i. high < int i \<Longrightarrow> i < length es \<Longrightarrow> precedes e (es ! i)"
  shows "search_outcome F M T es e arr low high"
  using assms(5-)
proof (induction "nat (high - low)" arbitrary: low high rule: less_induct)
  case less
  obtain mid where mid: "cquot2 (low + high) = int mid" "low \<le> int mid" "int mid \<le> high"
    using cquot2_between [OF less.prems(1,2)] less.prems(1) by (metis nonneg_int_cases order.trans)
  have len: "mid < length es" and h: "high \<noteq> -1" using mid less.prems by auto
  have at: "pa_at M arr (int mid) = Some (conc T (es ! mid))"
    using parray_lawsD(3) [OF laws, of "int mid" arr] len by (simp add: arr)
  have okm: "bmap_ok (es ! mid)" using ok(1) len by (rule list_ok_nth)
  consider "precedes e (es ! mid)" | "precedes (es ! mid) e" | "overlap e (es ! mid)"
    by (auto simp: overlap_def)
  then show ?case
  proof cases
    case 1
    have right: "precedes e (es ! i)" if "mid \<le> i" "i < length es" for i
      using that 1 list_ok_nth(2) [OF ok(1), of mid i] precedes_trans [OF okm 1] by (cases "mid = i") auto
    note step = list_insert_precedes [where F = F and M = M and arr = arr and m = "conc T e", OF h mid(1), unfolded at, OF order_conc_cases(1) [OF 1]]
    show ?thesis
    proof (cases "int mid - 1 < low")
      case True
      then have "low = int mid" using mid by simp
      then have "\<forall>i < mid. precedes (es ! i) e" using less.prems(4) by simp
      then show ?thesis using True right len step \<open>low = int mid\<close> unfolding search_outcome_def by (intro disjI1 exI [of _ mid]) auto
    next
      case False
      have "search_outcome F M T es e arr low (int mid - 1)"
        by (rule less.hyps) (use False mid less.prems right len in auto)
      then show ?thesis using step False by (simp add: search_outcome_def)
    qed
  next
    case 2
    have left: "precedes (es ! i) e" if "i \<le> mid" for i
      using that 2 list_ok_nth(2) [OF ok(1), of i mid] len precedes_trans [OF okm _ 2] by (cases "mid = i") auto
    note step = list_insert_follows [where F = F and M = M and arr = arr and m = "conc T e", OF h mid(1), unfolded at, OF order_conc_cases(2) [OF ok(2) okm 2]]
    show ?thesis
    proof (cases "int mid + 1 > high")
      case True
      then have "high = int mid" using mid by simp
      then have "\<forall>i. Suc mid \<le> i \<longrightarrow> i < length es \<longrightarrow> precedes e (es ! i)" using less.prems(5) by simp
      then show ?thesis using True left len step \<open>high = int mid\<close> unfolding search_outcome_def
        by (intro disjI1 exI [of _ "Suc mid"]) (auto simp: add.commute)
    next
      case False
      have "search_outcome F M T es e arr (int mid + 1) high"
        by (rule less.hyps) (use False mid less.prems left len in auto)
      then show ?thesis using step False by (simp add: search_outcome_def)
    qed
  next
    case 3
    obtain ord where ord: "orderWith F (conc T e) (pa_at M arr (int mid)) = Some ord" using at by (simp add: orderWith_conc)
    have "list_insert F M (conc T e) low high arr = list_insert F M (conc T e) (int mid) (int mid) arr"
      by (rule list_insert_hit [OF h mid(1) _ ord]) (use order_conc_overlap [OF 3] ord at in auto)
    then show ?thesis using 3 len unfolding search_outcome_def by blast
  qed
qed

section \<open>The function of a list\<close>

lemma precedes_covers: "precedes x y \<Longrightarrow> covers x p \<Longrightarrow> \<not> covers y p"
  unfolding precedes_def covers_def by (meson leD order.strict_trans1 order.trans)

lemma list_ok_Cons: "list_ok (x # es) \<longleftrightarrow> bmap_ok x \<and> (\<forall>y\<in>set es. precedes x y) \<and> list_ok es"
  by (auto simp: list_ok_def)

lemma list_ok_in: "list_ok es \<Longrightarrow> x \<in> set es \<Longrightarrow> bmap_ok x"
  by (auto simp: list_ok_def list_all_iff)

lemma lookup_in: "list_ok es \<Longrightarrow> x \<in> set es \<Longrightarrow> covers x p \<Longrightarrow> lookup es p = Some (image_at x p)"
  by (induction es) (auto simp: list_ok_Cons dest: precedes_covers)

lemma lookup_none: "(\<And>x. x \<in> set es \<Longrightarrow> \<not> covers x p) \<Longrightarrow> lookup es p = None"
  by (induction es) auto

lemma list_ok_disjoint: "list_ok es \<Longrightarrow> x \<in> set es \<Longrightarrow> y \<in> set es \<Longrightarrow> x \<noteq> y \<Longrightarrow> \<not> overlap x y"
  by (induction es) (auto simp: list_ok_Cons overlap_def)

lemma overlap_covers: "covers x p \<Longrightarrow> covers y p \<Longrightarrow> overlap x y"
  unfolding overlap_def precedes_def covers_def by (meson leD order.strict_trans1 order.trans)

text \<open>Two lists that hold elements for the same bytes, with the same images, denote the same function.\<close>

lemma lookup_eqI:
  assumes "list_ok es" "\<And>x. x \<in> set es \<Longrightarrow> covers x p \<Longrightarrow> g = Some (image_at x p)"
    "(\<And>x. x \<in> set es \<Longrightarrow> \<not> covers x p) \<Longrightarrow> g = None"
  shows "lookup es p = g"
  using assms lookup_in [OF assms(1)] lookup_none [of es p] by metis

section \<open>A mapping that overlaps nothing\<close>

lemma list_ok_insert_list:
  assumes "list_ok es" "bmap_ok e" "k \<le> length es" "\<forall>i < k. precedes (es ! i) e"
    "\<forall>i. k \<le> i \<longrightarrow> i < length es \<longrightarrow> precedes e (es ! i)"
  shows "list_ok (insert_list e k es)"
proof -
  have s: "sorted_wrt precedes (take k es @ drop k es)" "list_all bmap_ok (take k es @ drop k es)"
    using assms(1) by (simp_all add: list_ok_def)
  have l: "\<forall>x\<in>set (take k es). precedes x e" using assms(3,4) by (auto simp: in_set_conv_nth)
  have r: "\<forall>x\<in>set (drop k es). precedes e x" using assms(5) by (auto simp: in_set_conv_nth)
  show ?thesis
    using s l r assms(2) unfolding list_ok_def insert_list_def sorted_wrt_append list_all_append by auto
qed

lemma set_insert_list: "set (insert_list e k es) = insert e (set es)"
  unfolding insert_list_def by (metis append_take_drop_id set_append Un_insert_right list.simps(15))

lemma array_of_insert: "insert_list (Some (conc T e)) k (array_of T es) = array_of T (insert_list e k es)"
  by (simp add: insert_list_def array_of_def take_map drop_map)

definition insert_result where
  "insert_result F M elems T e arr es' \<longleftrightarrow> (\<exists>r arr'. list_insert F M (conc T e) 0 (pa_size M arr - 1) arr = Some (r, arr') \<and>
     elems arr' = array_of T es' \<and> list_ok es')"

lemma insert_disjoint:
  assumes laws: "parray_laws M elems" and arr: "elems arr = array_of T es" and ok: "list_ok es" "bmap_ok e"
    and dis: "\<And>x. x \<in> set es \<Longrightarrow> \<not> overlap e x"
  shows "\<exists>es'. insert_result F M elems T e arr es' \<and> set es' = insert e (set es)"
proof (cases "es = []")
  case True
  have "list_insert F M (conc T e) 0 (pa_size M arr - 1) arr = Some (1, pa_append M (Some (conc T e)) arr)"
    by (subst list_insert.simps) (simp add: parray_lawsD(2) [OF laws] arr True)
  moreover have "elems (pa_append M (Some (conc T e)) arr) = array_of T [e]"
    by (simp add: parray_lawsD(4) [OF laws] arr True array_of_def)
  moreover have "list_ok [e]" using ok by (simp add: list_ok_def)
  ultimately show ?thesis unfolding insert_result_def using True by fastforce
next
  case False
  have size: "pa_size M arr = int (length es)" by (simp add: parray_lawsD(2) [OF laws] arr)
  have "search_outcome F M T es e arr 0 (int (length es) - 1)"
    by (rule insert_search [where elems = elems, OF laws arr ok]) (use False in \<open>auto simp: Suc_leI\<close>)
  then obtain k where k: "k \<le> length es" "\<forall>i < k. precedes (es ! i) e"
      "\<forall>i. k \<le> i \<longrightarrow> i < length es \<longrightarrow> precedes e (es ! i)"
      "list_insert F M (conc T e) 0 (int (length es) - 1) arr = Some (1, pa_insert M (Some (conc T e)) (int k) arr)"
    using dis nth_mem unfolding search_outcome_def by metis
  have "elems (pa_insert M (Some (conc T e)) (int k) arr) = array_of T (insert_list e k es)"
    using k(1) by (simp add: parray_lawsD(5) [OF laws] arr array_of_insert)
  then show ?thesis
    using k list_ok_insert_list [OF ok k(1-3)] set_insert_list [of e k es] unfolding insert_result_def size
    by blast
qed

section \<open>The parts of a split\<close>

lemma overlap_nat:
  "overlap x y \<longleftrightarrow> unat (lo x) \<le> unat (hi y) \<and> unat (lo y) \<le> unat (hi x)"
  by (auto simp: overlap_def precedes_def word_less_nat_alt)

lemma covers_nat: "covers x p \<longleftrightarrow> unat (lo x) \<le> unat p \<and> unat p \<le> unat (hi x)"
  by (auto simp: covers_def word_le_nat_alt)

lemma unat_pred: "a < b \<Longrightarrow> unat (b - 1) = unat b - 1" for a b :: u32
  by unat_arith

lemma unat_succ: "a < b \<Longrightarrow> unat (a + 1) = Suc (unat a)" for a b :: u32
  by unat_arith

definition pieces :: "bmap \<Rightarrow> bmap \<Rightarrow> bmap set" where
  "pieces x e = (case parts x e of (b, a, v) \<Rightarrow> set_option b \<union> set_option a \<union> {v})"

text \<open>A piece is \<open>part x c d\<close> with \<open>c\<close> and \<open>d\<close> from one of three ranges.\<close>

lemma parts_ranges:
  assumes "parts x e = (b, a, v)"
  shows "b = Some y \<Longrightarrow> lo x < lo e \<and> y = part x (lo x) (lo e - 1)"
    and "a = Some y \<Longrightarrow> hi e < hi x \<and> y = part x (hi e + 1) (hi x)"
    and "b = None \<Longrightarrow> lo e \<le> lo x" "a = None \<Longrightarrow> hi x \<le> hi e"
    and "v = part x (if lo e < lo x then lo x else lo e) (if hi x < hi e then hi x else hi e)"
  using assms by (auto simp: parts_def split: if_splits)

lemma piece_range:
  assumes "y \<in> pieces x e" "bmap_ok x" "bmap_ok e" "overlap x e"
  shows "\<exists>c d. y = part x c d \<and> lo x \<le> c \<and> c \<le> d \<and> d \<le> hi x"
proof -
  obtain b a v where p: "parts x e = (b, a, v)" by (cases "parts x e")
  note ok = assms(2-4)[unfolded overlap_nat bmap_ok_def word_le_nat_alt word_less_nat_alt]
  consider "b = Some y" | "a = Some y" | "y = v" using assms(1) p by (auto simp: pieces_def)
  then show ?thesis
  proof cases
    case 1
    note r = parts_ranges(1) [OF p 1]
    moreover have "lo x \<le> lo e - 1" "lo e - 1 \<le> hi x"
      using r ok unat_pred [of "lo x" "lo e"] by (auto simp: word_le_nat_alt word_less_nat_alt)
    ultimately show ?thesis by blast
  next
    case 2
    note r = parts_ranges(2) [OF p 2]
    moreover have "lo x \<le> hi e + 1" "hi e + 1 \<le> hi x"
      using r ok unat_succ [of "hi e" "hi x"] by (auto simp: word_le_nat_alt word_less_nat_alt)
    ultimately show ?thesis by blast
  next
    case 3
    then show ?thesis using ok parts_ranges(5) [OF p]
      by (intro exI [of _ "if lo e < lo x then lo x else lo e"] exI [of _ "if hi x < hi e then hi x else hi e"])
        (auto simp: word_le_nat_alt word_less_nat_alt)
  qed
qed

lemma piece_facts:
  assumes "y \<in> pieces x e" "bmap_ok x" "bmap_ok e" "overlap x e"
  shows "bmap_ok y" "mtyp y = mtyp x" "image_at y p = image_at x p" "covers y p \<Longrightarrow> covers x p"
    "overlap y z \<Longrightarrow> overlap x z" "overlap z y \<Longrightarrow> overlap z x" "lo x \<le> lo y" "hi y \<le> hi x"
proof -
  obtain c d where y: "y = part x c d" "lo x \<le> c" "c \<le> d" "d \<le> hi x" using piece_range [OF assms] by blast
  have "0 < c" using assms(2) y(2) unfolding bmap_ok_def by (metis order.strict_trans2)
  then show "bmap_ok y" using part_ok [OF assms(2) _ y(3)] y(1) by simp
  show "mtyp y = mtyp x" "image_at y p = image_at x p" "lo x \<le> lo y" "hi y \<le> hi x" using y by (simp_all add: image_part)
  show "covers y p \<Longrightarrow> covers x p" "overlap y z \<Longrightarrow> overlap x z" "overlap z y \<Longrightarrow> overlap z x"
    using y by (auto simp: covers_nat overlap_nat word_le_nat_alt)
qed

lemma parts_apart:
  assumes "parts x e = (b, a, v)" "bmap_ok x" "bmap_ok e" "overlap x e"
  shows "b = Some y \<Longrightarrow> \<not> overlap y e \<and> \<not> overlap y v"
    and "a = Some y \<Longrightarrow> \<not> overlap y e \<and> \<not> overlap y v"
    and "b = Some y \<Longrightarrow> a = Some z \<Longrightarrow> \<not> overlap z y"
    and "lo e \<le> lo v" "hi v \<le> hi e" "v \<in> pieces x e" "b = Some y \<Longrightarrow> y \<in> pieces x e" "a = Some y \<Longrightarrow> y \<in> pieces x e"
proof -
  note ok = assms(2-4)[unfolded overlap_nat bmap_ok_def word_le_nat_alt word_less_nat_alt]
  note rs = parts_ranges [OF assms(1)]
  show b: "b = Some y \<Longrightarrow> \<not> overlap y e \<and> \<not> overlap y v"
    using rs(1) [of y] rs(5) ok unat_pred [of "lo x" "lo e"] by (auto simp: overlap_nat word_le_nat_alt word_less_nat_alt)
  show "a = Some y \<Longrightarrow> \<not> overlap y e \<and> \<not> overlap y v"
    using rs(2) [of y] rs(5) ok unat_succ [of "hi e" "hi x"] by (auto simp: overlap_nat word_le_nat_alt word_less_nat_alt)
  show "b = Some y \<Longrightarrow> a = Some z \<Longrightarrow> \<not> overlap z y"
    using rs(1) [of y] rs(2) [of z] ok unat_pred [of "lo x" "lo e"] unat_succ [of "hi e" "hi x"]
    by (auto simp: overlap_nat word_le_nat_alt word_less_nat_alt)
  show "lo e \<le> lo v" "hi v \<le> hi e" using rs(5) by auto
  show "v \<in> pieces x e" "b = Some y \<Longrightarrow> y \<in> pieces x e" "a = Some y \<Longrightarrow> y \<in> pieces x e"
    using assms(1) by (auto simp: pieces_def)
qed

lemma pieces_cover:
  assumes "bmap_ok x" "bmap_ok e" "covers x p"
  shows "\<exists>y\<in>pieces x e. covers y p"
proof -
  obtain b a v where p: "parts x e = (b, a, v)" by (cases "parts x e")
  consider "p < lo e" | "hi e < p" | "lo e \<le> p" "p \<le> hi e" by force
  then show ?thesis
  proof cases
    case 1
    then have "lo x < lo e" using assms(3) by (auto simp: covers_def)
    then have "b = Some (part x (lo x) (lo e - 1))" using p by (simp add: parts_def)
    moreover have "covers (part x (lo x) (lo e - 1)) p"
      using assms(3) 1 unat_pred [OF 1] by (auto simp: covers_nat word_less_nat_alt)
    ultimately show ?thesis using p by (auto simp: pieces_def)
  next
    case 2
    then have "hi e < hi x" using assms(3) by (auto simp: covers_def)
    then have "a = Some (part x (hi e + 1) (hi x))" using p by (simp add: parts_def)
    moreover have "covers (part x (hi e + 1) (hi x)) p"
      using assms(3) 2 unat_succ [OF 2] by (auto simp: covers_nat word_less_nat_alt)
    ultimately show ?thesis using p by (auto simp: pieces_def)
  next
    case 3
    then have "covers v p" using assms(3) parts_ranges(5) [OF p] by (auto simp: covers_def)
    then show ?thesis using p by (auto simp: pieces_def)
  qed
qed

section \<open>Cutting an element\<close>

lemma insert_part_result:
  assumes laws: "parray_laws M elems" and arr: "elems arr = array_of T es" and ok: "list_ok es"
    and part: "\<And>y. po = Some y \<Longrightarrow> bmap_ok y \<and> (\<forall>x\<in>set es. \<not> overlap y x)"
  shows "\<exists>arr' es'. insert_part F M (map_option (conc T) po) arr = Some arr' \<and> elems arr' = array_of T es' \<and>
    list_ok es' \<and> set es' = set_option po \<union> set es"
proof (cases po)
  case None
  then show ?thesis using arr ok by (auto simp: insert_part_def)
next
  case (Some y)
  then obtain es' where es': "insert_result F M elems T y arr es'" "set es' = insert y (set es)"
    using insert_disjoint [OF laws arr ok] part by metis
  then obtain r arr' where r: "list_insert F M (conc T y) 0 (pa_size M arr - 1) arr = Some (r, arr')"
      "elems arr' = array_of T es'" "list_ok es'"
    by (auto simp: insert_result_def)
  have "insert_part F M (map_option (conc T) po) arr = Some arr'" using r(1) Some by (simp add: insert_part_def)
  then show ?thesis using r(2,3) es'(2) Some by (intro exI [of _ arr'] exI [of _ es']) simp
qed

lemma array_replace:
  assumes laws: "parray_laws M elems" and arr: "elems arr = array_of T es" and mid: "mid < length es"
  shows "elems (pa_insert M (Some (conc T v)) (int mid) (pa_remove M (int mid) arr)) = array_of T (es[mid := v])"
proof -
  have r: "elems (pa_remove M (int mid) arr) = remove_list mid (array_of T es)"
    using mid by (simp add: parray_lawsD(6) [OF laws] arr)
  have "length (remove_list mid (array_of T es)) = length es - 1" using mid by (simp add: remove_list_def)
  then have "elems (pa_insert M (Some (conc T v)) (int mid) (pa_remove M (int mid) arr)) =
      insert_list (Some (conc T v)) mid (remove_list mid (array_of T es))"
    using mid by (simp add: parray_lawsD(5) [OF laws] r)
  also have "\<dots> = array_of T (es[mid := v])"
    using mid by (simp add: insert_list_def remove_list_def array_of_def upd_conv_take_nth_drop take_map drop_map)
  finally show ?thesis .
qed

lemma list_ok_replace:
  assumes ok: "list_ok es" and mid: "mid < length es" and v: "bmap_ok v" "lo (es ! mid) \<le> lo v" "hi v \<le> hi (es ! mid)"
  shows "list_ok (es[mid := v])"
proof -
  have "precedes (es[mid := v] ! i) (es[mid := v] ! j)" if "i < j" "j < length es" for i j
  proof -
    have "precedes (es ! i) (es ! j)" using list_ok_nth(2) [OF ok that] .
    then show ?thesis using that mid v by (auto simp: nth_list_update precedes_def)
  qed
  then show ?thesis
    using ok v(1) mid by (auto simp: list_ok_def sorted_wrt_iff_nth_less list_all_length nth_list_update)
qed

lemma list_ok_distinct: "list_ok es \<Longrightarrow> distinct es"
  by (induction es) (auto simp: list_ok_Cons precedes_def bmap_ok_def)

lemma set_replace: "list_ok es \<Longrightarrow> mid < length es \<Longrightarrow> set (es[mid := v]) = insert v (set es - {es ! mid})"
  by (simp add: list_ok_distinct set_update_distinct)

lemma cut_element:
  assumes laws: "parray_laws M elems" and arr: "elems arr = array_of T es" and ok: "list_ok es" "bmap_ok e"
    and mid: "mid < length es" "overlap (es ! mid) e" and p: "parts (es ! mid) e = (b, a, v)"
  shows "\<exists>arr1 arr2 es2.
    insert_part F M (map_option (conc T) b) (pa_insert M (Some (conc T v)) (int mid) (pa_remove M (int mid) arr)) = Some arr1 \<and>
    insert_part F M (map_option (conc T) a) arr1 = Some arr2 \<and>
    elems arr2 = array_of T es2 \<and> list_ok es2 \<and> set es2 = pieces (es ! mid) e \<union> (set es - {es ! mid})"
proof -
  let ?x = "es ! mid"
  have x: "bmap_ok ?x" "?x \<in> set es" using list_ok_nth(1) [OF ok(1)] mid(1) by auto
  note apart = parts_apart [OF p x(1) ok(2) mid(2)]
  note facts = piece_facts [OF _ x(1) ok(2) mid(2)]
  have far: "\<not> overlap y z" if "y \<in> pieces ?x e" "z \<in> set es - {?x}" for y z
    using facts(5) [OF that(1)] list_ok_disjoint [OF ok(1) x(2)] that(2) by auto
  have ok0: "list_ok (es[mid := v])"
    by (rule list_ok_replace [OF ok(1) mid(1)]) (use facts(1,7,8) [OF apart(6)] in auto)
  have set0: "set (es[mid := v]) = insert v (set es - {?x})" by (rule set_replace [OF ok(1) mid(1)])
  have pb: "bmap_ok y \<and> (\<forall>z\<in>set (es[mid := v]). \<not> overlap y z)" if "b = Some y" for y
    using facts(1) [OF apart(7) [OF that]] apart(1) [OF that] far [OF apart(7) [OF that]] by (simp add: set0)
  obtain arr1 es1 where 1: "insert_part F M (map_option (conc T) b) (pa_insert M (Some (conc T v)) (int mid) (pa_remove M (int mid) arr)) = Some arr1"
      "elems arr1 = array_of T es1" "list_ok es1" "set es1 = set_option b \<union> insert v (set es - {?x})"
    using insert_part_result [OF laws array_replace [OF laws arr mid(1)] ok0 pb] unfolding set0 by blast
  have pa: "bmap_ok y \<and> (\<forall>z\<in>set es1. \<not> overlap y z)" if "a = Some y" for y
    using facts(1) [OF apart(8) [OF that]] apart(2) [OF that] apart(3) [OF _ that] far [OF apart(8) [OF that]] by (auto simp: 1(4))
  obtain arr2 es2 where 2: "insert_part F M (map_option (conc T) a) arr1 = Some arr2"
      "elems arr2 = array_of T es2" "list_ok es2" "set es2 = set_option a \<union> set es1"
    using insert_part_result [OF laws 1(2,3) pa] by blast
  have "set es2 = pieces ?x e \<union> (set es - {?x})" using 1(4) 2(4) p by (auto simp: pieces_def)
  then show ?thesis using 1(1) 2(1-3) by blast
qed

section \<open>What a list denotes after each step\<close>

lemma cut_lookup:
  assumes ok: "list_ok es" "list_ok es2" "bmap_ok e" and x: "x \<in> set es" "overlap x e"
    and set2: "set es2 = pieces x e \<union> (set es - {x})"
  shows "lookup es2 p = lookup es p"
proof (rule lookup_eqI [OF ok(2)])
  note facts = piece_facts [OF _ list_ok_in [OF ok(1) x(1)] ok(3) x(2)]
  show "lookup es p = Some (image_at y p)" if y: "y \<in> set es2" "covers y p" for y
  proof (cases "y \<in> pieces x e")
    case True
    then show ?thesis using facts(3) [OF True] facts(4) [OF True y(2)] lookup_in [OF ok(1) x(1)] by simp
  next
    case False
    then show ?thesis using y set2 lookup_in [OF ok(1)] by blast
  qed
  show "lookup es p = None" if none: "\<And>y. y \<in> set es2 \<Longrightarrow> \<not> covers y p"
  proof (rule lookup_none)
    fix y assume y: "y \<in> set es"
    show "\<not> covers y p"
    proof (cases "y = x")
      case True
      then show ?thesis using pieces_cover [OF list_ok_in [OF ok(1) x(1)] ok(3), of p] none set2 by blast
    next
      case False
      then show ?thesis using none y set2 by blast
    qed
  qed
qed

definition within :: "bmap \<Rightarrow> bmap \<Rightarrow> bool" where
  "within x e \<longleftrightarrow> lo e \<le> lo x \<and> hi x \<le> hi e"

definition cuts :: "bmap list \<Rightarrow> bmap \<Rightarrow> bmap set" where
  "cuts es e = {x \<in> set es. overlap x e \<and> \<not> within x e}"

lemma cut_fewer:
  assumes ok: "list_ok es" "bmap_ok e" and x: "x \<in> cuts es e"
    and set2: "set es2 = pieces x e \<union> (set es - {x})"
  shows "card (cuts es2 e) < card (cuts es e)"
proof -
  obtain b a v where p: "parts x e = (b, a, v)" by (cases "parts x e")
  have "bmap_ok x" "overlap x e" using x list_ok_in [OF ok(1)] by (auto simp: cuts_def)
  note apart = parts_apart [OF p this(1) ok(2) this(2)]
  have "y \<notin> cuts es2 e" if y: "y \<in> pieces x e" for y
  proof -
    consider "b = Some y" | "a = Some y" | "y = v" using y p by (auto simp: pieces_def)
    then show ?thesis using apart(1,2) [of y] apart(4,5) by cases (auto simp: cuts_def within_def)
  qed
  then have "cuts es2 e \<subseteq> cuts es e - {x}" using set2 by (auto simp: cuts_def)
  moreover have "finite (cuts es e)" by (simp add: cuts_def)
  ultimately show ?thesis using x by (metis card_Diff1_less card_mono finite_Diff order.strict_trans1)
qed

lemma merge_disjoint:
  assumes ok: "list_ok es'" and set': "set es' = insert e (set es)" and dis: "\<And>x. x \<in> set es \<Longrightarrow> \<not> overlap e x"
    and old: "list_ok es"
  shows "lookup es' p = merge_at e (lookup es) p"
proof (cases "covers e p")
  case True
  then have "lookup es p = None" using lookup_none [of es p] dis overlap_covers [OF True] by metis
  then show ?thesis using True lookup_in [OF ok, of e p] set' by (simp add: merge_at_def)
next
  case False
  show ?thesis
    by (rule lookup_eqI [OF ok])
      (use False set' lookup_in [OF old] lookup_none [of es p] in \<open>auto simp: merge_at_def\<close>)
qed

definition merge_part where
  "merge_part po f = (case po of None \<Rightarrow> f | Some y \<Rightarrow> merge_at y f)"

lemma merge_pieces:
  assumes ok: "bmap_ok e" "bmap_ok x" "overlap e x" and p: "parts e x = (b, a, v)"
  shows "merge_at v (merge_part a (merge_part b f)) p = merge_at e f p"
proof -
  note apart = parts_apart [OF p ok]
  note facts = piece_facts [OF _ ok]
  have same: "merge_at y g p = (if covers y p then merge_at e g p else g p)" if "y \<in> pieces e x" for y g
    using facts(2-4) [OF that] by (simp add: merge_at_def split: option.split)
  have b: "merge_part b g p = (if \<exists>y. b = Some y \<and> covers y p then merge_at e g p else g p)" for g
    using same apart(7) by (cases b) (auto simp: merge_part_def)
  have a: "merge_part a g p = (if \<exists>y. a = Some y \<and> covers y p then merge_at e g p else g p)" for g
    using same apart(8) by (cases a) (auto simp: merge_part_def)
  have v: "merge_at v g p = (if covers v p then merge_at e g p else g p)" for g
    using same [OF apart(6)] .
  have one: "covers v p \<or> (\<exists>y. a = Some y \<and> covers y p) \<or> (\<exists>y. b = Some y \<and> covers y p) \<longleftrightarrow> covers e p"
    using pieces_cover [OF ok(1,2), of p] facts(4) p apart(6-8) by (fastforce simp: pieces_def)
  have none: "\<not> covers e p \<Longrightarrow> merge_at e g p = g p" for g by (simp add: merge_at_def)
  have cong: "g p = h p \<Longrightarrow> merge_at e g p = merge_at e h p" for g h by (simp add: merge_at_def)
  have ab: "\<not> (covers v p \<and> (\<exists>y. a = Some y \<and> covers y p))" "\<not> (covers v p \<and> (\<exists>y. b = Some y \<and> covers y p))"
    "\<not> ((\<exists>y. a = Some y \<and> covers y p) \<and> (\<exists>y. b = Some y \<and> covers y p))"
    using apart(1-3) overlap_covers by blast+
  consider "covers v p" "\<not> (\<exists>y. a = Some y \<and> covers y p)" "\<not> (\<exists>y. b = Some y \<and> covers y p)"
    | "\<not> covers v p" "\<exists>y. a = Some y \<and> covers y p" "\<not> (\<exists>y. b = Some y \<and> covers y p)"
    | "\<not> covers v p" "\<not> (\<exists>y. a = Some y \<and> covers y p)" "\<exists>y. b = Some y \<and> covers y p"
    | "\<not> covers v p" "\<not> (\<exists>y. a = Some y \<and> covers y p)" "\<not> (\<exists>y. b = Some y \<and> covers y p)" "\<not> covers e p"
    using ab one by blast
  then show ?thesis
  proof cases
    case 1 then show ?thesis by (simp only: v if_True) (rule cong, simp only: a b if_False)
  next
    case 2 then show ?thesis by (simp only: v a if_True if_False) (rule cong, simp only: b if_False)
  next
    case 3 then show ?thesis by (simp only: v a b if_True if_False)
  next
    case 4 then show ?thesis by (simp only: v a b if_False none [OF 4(4)])
  qed
qed

lemma replace_exact:
  assumes ok: "list_ok es" "bmap_ok e" and mid: "mid < length es" and same: "lo e = lo (es ! mid)" "hi e = hi (es ! mid)"
  shows "list_ok (es[mid := e])"
    and "mtyp (es ! mid) \<le> mtyp e \<Longrightarrow> lookup (es[mid := e]) p = merge_at e (lookup es) p"
    and "\<not> (mtyp (es ! mid) \<le> mtyp e) \<Longrightarrow> lookup es p = merge_at e (lookup es) p"
proof -
  let ?x = "es ! mid"
  have x: "?x \<in> set es" using mid by simp
  have cov: "covers e q = covers ?x q" for q using same by (simp add: covers_def)
  show ok': "list_ok (es[mid := e])" using list_ok_replace [OF ok(1) mid ok(2)] same by simp
  note set' = set_replace [OF ok(1) mid]
  show "lookup (es[mid := e]) p = merge_at e (lookup es) p" if "mtyp ?x \<le> mtyp e"
  proof (cases "covers e p")
    case True
    then show ?thesis
      using that lookup_in [OF ok' _ True] lookup_in [OF ok(1) x, of p] set' cov by (simp add: merge_at_def image_at_def)
  next
    case False
    show ?thesis
      by (rule lookup_eqI [OF ok'])
        (use False set' cov lookup_in [OF ok(1)] lookup_none [of es p] in \<open>auto simp: merge_at_def\<close>)
  qed
  show "lookup es p = merge_at e (lookup es) p" if "\<not> (mtyp ?x \<le> mtyp e)"
    using that lookup_in [OF ok(1) x, of p] cov by (auto simp: merge_at_def image_at_def)
qed

section \<open>Insertion\<close>

lemma order_conc_hit:
  assumes "overlap e x"
  shows "orderWith F (conc T e) (Some (conc T x)) = Some
     (if lo e = lo x \<and> hi e = hi x then IS_EXACTLY
      else if within x e then CONTAINS
      else if within e x then IS_CONTAINED_IN
      else if lo e \<le> lo x then OVERLAPS_INTO else OVERLAPS_OUT_OF)"
proof -
  have n: "\<not> hi e < lo x" "\<not> hi x < lo e" using assms by (simp_all add: overlap_def precedes_def)
  have l: "lo e \<le> lo x \<or> lo x \<le> lo e" "hi e \<le> hi x \<or> hi x \<le> hi e" by (rule linear)+
  have eq: "lo e = lo x \<longleftrightarrow> lo e \<le> lo x \<and> lo x \<le> lo e" "hi e = hi x \<longleftrightarrow> hi e \<le> hi x \<and> hi x \<le> hi e"
    by (rule order_eq_iff)+
  show ?thesis
    using l unfolding orderWith_conc within_def eq
    by (cases "lo e \<le> lo x"; cases "lo x \<le> lo e"; cases "hi e \<le> hi x"; cases "hi x \<le> hi e")
      (simp_all only: n simp_thms if_True if_False)
qed

lemma replacementAllowed_conc: "replacementAllowed (conc T x) (Some (conc T e)) = (mtyp x \<le> mtyp e)"
  by (cases "mtyp x"; cases "mtyp e") (simp_all add: replacementAllowed_def less_eq_mappingType_def)

definition inserts where
  "inserts F M elems T e es arr \<longleftrightarrow>
     (\<exists>es'. insert_result F M elems T e arr es' \<and> lookup es' = merge_at e (lookup es))"

lemma insert_part_inserts:
  assumes "\<And>y. po = Some y \<Longrightarrow> inserts F M elems T y es arr" "elems arr = array_of T es" "list_ok es"
  shows "\<exists>arr' es'. insert_part F M (map_option (conc T) po) arr = Some arr' \<and> elems arr' = array_of T es' \<and>
    list_ok es' \<and> lookup es' = merge_part po (lookup es)"
proof (cases po)
  case None
  then show ?thesis using assms(2,3) by (auto simp: insert_part_def merge_part_def)
next
  case (Some y)
  obtain es' r arr' where r: "list_insert F M (conc T y) 0 (pa_size M arr - 1) arr = Some (r, arr')"
      "elems arr' = array_of T es'" "list_ok es'" "lookup es' = merge_at y (lookup es)"
    using assms(1) [OF Some] unfolding inserts_def insert_result_def by blast
  have "insert_part F M (map_option (conc T) po) arr = Some arr'" using r(1) Some by (simp add: insert_part_def)
  then show ?thesis using r Some by (auto simp: merge_part_def)
qed

lemma piece_smaller:
  assumes "y \<in> pieces e x" "bmap_ok e" "bmap_ok x" "overlap e x" "within x e" "\<not> (lo e = lo x \<and> hi e = hi x)"
  shows "unat (hi y) - unat (lo y) < unat (hi e) - unat (lo e)"
proof -
  obtain b a v where p: "parts e x = (b, a, v)" by (cases "parts e x")
  note r = parts_ranges [OF p]
  have w: "unat (lo e) \<le> unat (lo x)" "unat (hi x) \<le> unat (hi e)" "unat (lo x) \<le> unat (hi x)"
      "unat (lo e) < unat (lo x) \<or> unat (hi x) < unat (hi e)"
    using assms(3,5,6) by (auto simp: within_def bmap_ok_def word_le_nat_alt nat_less_le word_unat_eq_iff)
  consider "b = Some y" | "a = Some y" | "y = v" using assms(1) p by (auto simp: pieces_def)
  then show ?thesis
  proof cases
    case 1
    then show ?thesis using r(1) [OF 1] w unat_pred [of "lo e" "lo x"] by (auto simp: word_less_nat_alt)
  next
    case 2
    then show ?thesis using r(2) [OF 2] w unat_succ [of "hi x" "hi e"] by (auto simp: word_less_nat_alt)
  next
    case 3
    then show ?thesis using r(5) w by (auto simp: word_less_nat_alt)
  qed
qed

lemma insert_exact_hit:
  assumes laws: "parray_laws M elems" and arr: "elems arr = array_of T es" and ok: "list_ok es" "bmap_ok e"
    and mid: "mid < length es" "overlap e (es ! mid)" "lo e = lo (es ! mid)" "hi e = hi (es ! mid)"
  shows "\<exists>r arr' es'. list_insert F M (conc T e) (int mid) (int mid) arr = Some (r, arr') \<and>
    elems arr' = array_of T es' \<and> list_ok es' \<and> lookup es' = merge_at e (lookup es)"
proof -
  note same = replace_exact [OF ok mid(1,3,4)]
  have at: "pa_at M arr (int mid) = Some (conc T (es ! mid))"
    using parray_lawsD(3) [OF laws, of "int mid" arr] mid(1) by (simp add: arr)
  have "orderWith F (conc T e) (Some (conc T (es ! mid))) = Some IS_EXACTLY"
    using mid by (simp add: order_conc_hit)
  note step = list_insert_exact [OF _ at this]
  show ?thesis
  proof (cases "mtyp (es ! mid) \<le> mtyp e")
    case True
    then show ?thesis
      using step array_replace [OF laws arr mid(1), of e] same(1) ext [OF same(2) [OF True]]
      by (intro exI [of _ 1] exI [of _ "pa_insert M (Some (conc T e)) (int mid) (pa_remove M (int mid) arr)"]
          exI [of _ "es[mid := e]"]) (simp add: replacementAllowed_conc)
  next
    case False
    then show ?thesis
      using step arr ok(1) ext [OF same(3) [OF False]]
      by (intro exI [of _ "-1"] exI [of _ arr] exI [of _ es]) (simp add: replacementAllowed_conc)
  qed
qed

lemma insert_contains_hit:
  assumes laws: "parray_laws M elems" and arr: "elems arr = array_of T es" and ok: "list_ok es" "bmap_ok e"
    and mid: "mid < length es" "overlap e (es ! mid)" "within (es ! mid) e" "\<not> (lo e = lo (es ! mid) \<and> hi e = hi (es ! mid))"
    and IH: "\<And>y es' arr'. y \<in> pieces e (es ! mid) \<Longrightarrow> elems arr' = array_of T es' \<Longrightarrow> list_ok es' \<Longrightarrow> inserts F M elems T y es' arr'"
  shows "\<exists>r arr' es'. list_insert F M (conc T e) (int mid) (int mid) arr = Some (r, arr') \<and>
    elems arr' = array_of T es' \<and> list_ok es' \<and> lookup es' = merge_at e (lookup es)"
proof -
  let ?x = "es ! mid"
  have x: "bmap_ok ?x" using list_ok_nth(1) [OF ok(1) mid(1)] .
  have at: "pa_at M arr (int mid) = Some (conc T ?x)"
    using parray_lawsD(3) [OF laws, of "int mid" arr] mid(1) by (simp add: arr)
  have ord: "orderWith F (conc T e) (Some (conc T ?x)) = Some CONTAINS"
    using mid order_conc_hit [OF mid(2), of F T] by auto
  obtain b a v where p: "parts e ?x = (b, a, v)" by (cases "parts e ?x")
  note apart = parts_apart [OF p ok(2) x mid(2)]
  obtain arr1 es1 where 1: "insert_part F M (map_option (conc T) b) arr = Some arr1" "elems arr1 = array_of T es1"
      "list_ok es1" "lookup es1 = merge_part b (lookup es)"
    using insert_part_inserts [OF IH [OF apart(7) arr ok(1)] arr ok(1)] by blast
  obtain arr2 es2 where 2: "insert_part F M (map_option (conc T) a) arr1 = Some arr2" "elems arr2 = array_of T es2"
      "list_ok es2" "lookup es2 = merge_part a (lookup es1)"
    using insert_part_inserts [OF IH [OF apart(8) 1(2,3)] 1(2,3)] by blast
  have "y \<in> pieces e ?x" if "Some v = Some y" for y using that apart(6) by simp
  then obtain arr3 es3 where 3: "insert_part F M (map_option (conc T) (Some v)) arr2 = Some arr3" "elems arr3 = array_of T es3"
      "list_ok es3" "lookup es3 = merge_part (Some v) (lookup es2)"
    using insert_part_inserts [OF IH [OF _ 2(2,3)] 2(2,3), of "Some v"] by blast
  have "list_insert F M (conc T e) (int mid) (int mid) arr = Some (1, arr3)"
    by (rule list_insert_contains [OF _ at ord mapping_split_conc [OF ok(2) x p] 1(1) 2(1)]) (use 3(1) in simp_all)
  moreover have "lookup es3 = merge_at e (lookup es)"
    using ext [OF merge_pieces [OF ok(2) x mid(2) p, of "lookup es"]] unfolding 3(4) 2(4) 1(4)
    by (simp add: merge_part_def [of "Some v"])
  ultimately show ?thesis using 3(2,3) by blast
qed

lemma insert_overlap_hit:
  assumes laws: "parray_laws M elems" and arr: "elems arr = array_of T es" and ok: "list_ok es" "bmap_ok e"
    and mid: "mid < length es" "es ! mid \<in> cuts es e"
    and IH: "\<And>es' arr'. card (cuts es' e) < card (cuts es e) \<Longrightarrow> elems arr' = array_of T es' \<Longrightarrow> list_ok es' \<Longrightarrow> inserts F M elems T e es' arr'"
  shows "\<exists>r arr' es'. list_insert F M (conc T e) (int mid) (int mid) arr = Some (r, arr') \<and>
    elems arr' = array_of T es' \<and> list_ok es' \<and> lookup es' = merge_at e (lookup es)"
proof -
  let ?x = "es ! mid"
  have x: "bmap_ok ?x" using list_ok_nth(1) [OF ok(1) mid(1)] .
  have at: "pa_at M arr (int mid) = Some (conc T ?x)"
    using parray_lawsD(3) [OF laws, of "int mid" arr] mid(1) by (simp add: arr)
  have o: "overlap e ?x" "overlap ?x e" "\<not> within ?x e" using mid(2) by (auto simp: cuts_def overlap_def)
  have same: "\<not> (lo e = lo ?x \<and> hi e = hi ?x)" using o(3) by (auto simp: within_def)
  obtain ord where ord: "orderWith F (conc T e) (Some (conc T ?x)) = Some ord"
      "ord = IS_CONTAINED_IN \<or> ord = OVERLAPS_OUT_OF \<or> ord = OVERLAPS_INTO"
    using order_conc_hit [OF o(1), of F T] same o(3) by (simp only: if_False split: if_split_asm) simp_all
  obtain b a v where p: "parts ?x e = (b, a, v)" by (cases "parts ?x e")
  obtain arr1 arr2 es2 where c: "insert_part F M (map_option (conc T) b) (pa_insert M (Some (conc T v)) (int mid) (pa_remove M (int mid) arr)) = Some arr1"
      "insert_part F M (map_option (conc T) a) arr1 = Some arr2"
      "elems arr2 = array_of T es2" "list_ok es2" "set es2 = pieces ?x e \<union> (set es - {?x})"
    using cut_element [OF laws arr ok mid(1) o(2) p] by blast
  obtain es' r arr' where r: "list_insert F M (conc T e) 0 (pa_size M arr2 - 1) arr2 = Some (r, arr')"
      "elems arr' = array_of T es'" "list_ok es'" "lookup es' = merge_at e (lookup es2)"
    using IH [OF cut_fewer [OF ok mid(2) c(5)] c(3,4)] unfolding inserts_def insert_result_def by blast
  have "list_insert F M (conc T e) (int mid) (int mid) arr = Some (1, arr')"
    by (rule list_insert_overlap [OF _ at ord mapping_split_conc [OF x ok(2) p] c(1,2) r(1)]) simp
  moreover have "lookup es2 = lookup es"
    by (rule ext) (use cut_lookup [OF ok(1) c(4) ok(2) nth_mem [OF mid(1)] o(2) c(5)] in simp)
  ultimately show ?thesis using r(2-4) by auto
qed

theorem list_insert_merges:
  assumes laws: "parray_laws M elems"
  shows "elems arr = array_of T es \<Longrightarrow> list_ok es \<Longrightarrow> bmap_ok e \<Longrightarrow> inserts F M elems T e es arr"
proof (induction "(unat (hi e) - unat (lo e), card (cuts es e))" arbitrary: e es arr
    rule: wf_induct_rule [OF wf_lex_prod [OF wf_less_than wf_less_than]])
  case 1
  note arr = "1.prems"(1) and ok = "1.prems"(2,3)
  have size: "pa_size M arr = int (length es)" by (simp add: parray_lawsD(2) [OF laws] arr)
  show ?case
  proof (cases "\<exists>x\<in>set es. overlap e x")
    case False
    then obtain es' where "insert_result F M elems T e arr es'" "set es' = insert e (set es)"
      using insert_disjoint [OF laws arr ok] by blast
    then show ?thesis
      using False merge_disjoint [OF _ _ _ ok(1), of es' e] unfolding inserts_def insert_result_def by blast
  next
    case True
    then have "es \<noteq> []" by auto
    have "search_outcome F M T es e arr 0 (int (length es) - 1)"
      by (rule insert_search [where elems = elems, OF laws arr ok]) (use \<open>es \<noteq> []\<close> in \<open>auto simp: Suc_leI\<close>)
    then obtain mid where mid: "mid < length es" "overlap e (es ! mid)"
        "list_insert F M (conc T e) 0 (int (length es) - 1) arr = list_insert F M (conc T e) (int mid) (int mid) arr"
      unfolding search_outcome_def using True by (metis in_set_conv_nth not_le overlap_def)
    have x: "bmap_ok (es ! mid)" using list_ok_nth(1) [OF ok(1) mid(1)] .
    have "\<exists>r arr' es'. list_insert F M (conc T e) (int mid) (int mid) arr = Some (r, arr') \<and>
      elems arr' = array_of T es' \<and> list_ok es' \<and> lookup es' = merge_at e (lookup es)"
    proof -
      consider "lo e = lo (es ! mid) \<and> hi e = hi (es ! mid)"
        | "within (es ! mid) e" "\<not> (lo e = lo (es ! mid) \<and> hi e = hi (es ! mid))" | "\<not> within (es ! mid) e" by blast
      then show ?thesis
      proof cases
        case 1
        then show ?thesis using insert_exact_hit [OF laws arr ok mid(1,2)] by blast
      next
        case 2
        show ?thesis
          by (rule insert_contains_hit [OF laws arr ok mid(1,2) 2], rule "1.hyps")
            (use piece_smaller [OF _ ok(2) x mid(2) 2] piece_facts(1) [OF _ ok(2) x mid(2)] in auto)
      next
        case 3
        have "es ! mid \<in> cuts es e" using 3 mid by (auto simp: cuts_def overlap_def)
        then show ?thesis by (rule insert_overlap_hit [OF laws arr ok mid(1)], intro "1.hyps") (use ok(2) in auto)
      qed
    qed
    then show ?thesis unfolding inserts_def insert_result_def size mid(3) by blast
  qed
qed

end
