(* ===== verification/Mapping_Properties.thy ===== *)
theory Mapping_Properties
  imports Mapping_Insert
begin

text \<open>
  What mapping lists promise: extraction answers from the function that the list denotes,
  insertion merges one mapping into it, and a list built by insertions denotes the merge of
  all of them.
\<close>

section \<open>Extraction\<close>

lemma orderWith_byte:
  "orderWith F (byte_region T a b) (Some (conc T x)) =
     orderWith F (conc T (BMap a b (src x) (mtyp x))) (Some (conc T x))"
  by (simp add: orderWith_conc) (simp add: orderWith_def)

definition holder :: "bmap list \<Rightarrow> u32 \<Rightarrow> u32 \<Rightarrow> bmap option" where
  "holder es a b = find (\<lambda>x. lo x \<le> a \<and> b \<le> hi x) es"

lemma holder_some:
  assumes "list_ok es" "x \<in> set es" "lo x \<le> a" "b \<le> hi x" "a \<le> b"
  shows "holder es a b = Some x"
proof -
  have "holder es a b \<noteq> None" using assms(2-4) by (auto simp: holder_def find_None_iff)
  then obtain y where y: "holder es a b = Some y" by blast
  then have "y \<in> set es" "lo y \<le> a" "b \<le> hi y" by (auto simp: holder_def find_Some_iff)
  moreover have "overlap x y"
    using assms(3-5) calculation by (auto simp: overlap_nat word_le_nat_alt)
  ultimately show ?thesis using list_ok_disjoint [OF assms(1,2)] y by metis
qed

lemma holder_none: "(\<And>x. x \<in> set es \<Longrightarrow> \<not> (lo x \<le> a \<and> b \<le> hi x)) \<Longrightarrow> holder es a b = None"
  by (auto simp: holder_def find_None_iff)

lemma holder_byte: "lookup es p = map_option (\<lambda>x. image_at x p) (holder es p p)"
  by (induction es) (auto simp: holder_def covers_def)

lemma list_extract_hit:
  assumes "a \<le> b" "overlap (BMap a b r t) x" "bmap_ok x" "pa_at M arr mid = Some (conc T x)" "cquot2 (low + high) = mid"
  shows "list_extract F M (byte_region T a b) low high arr =
    Some (if lo x \<le> a \<and> b \<le> hi x then Some (moved x a b) else None)"
proof -
  have o: "overlap (BMap a b (src x) (mtyp x)) x" using assms(2) by (simp add: overlap_def precedes_def)
  show ?thesis
    using order_conc_hit [OF o, of F T] translate_region_conc [OF assms(3), of F T a b] assms(4,5)
    by (subst list_extract.simps) (auto simp: Let_def orderWith_byte within_def)
qed

lemma list_extract_byte:
  assumes laws: "parray_laws M elems" and arr: "elems arr = array_of T es" and ok: "list_ok es" "0 < a" "a \<le> b"
  shows "0 \<le> low \<Longrightarrow> low \<le> high \<Longrightarrow> high < int (length es) \<Longrightarrow>
    (\<And>i. int i < low \<Longrightarrow> hi (es ! i) < a) \<Longrightarrow>
    (\<And>i. high < int i \<Longrightarrow> i < length es \<Longrightarrow> b < lo (es ! i)) \<Longrightarrow>
    list_extract F M (byte_region T a b) low high arr = Some (map_option (\<lambda>x. moved x a b) (holder es a b))"
proof (induction "nat (high - low)" arbitrary: low high rule: less_induct)
  case less
  obtain mid where mid: "cquot2 (low + high) = int mid" "low \<le> int mid" "int mid \<le> high"
    using cquot2_between [OF less.prems(1,2)] less.prems(1) by (metis nonneg_int_cases order.trans)
  have len: "mid < length es" using mid less.prems by auto
  let ?x = "es ! mid" and ?e = "\<lambda>x. BMap a b (src x) (mtyp x)"
  have at: "pa_at M arr (int mid) = Some (conc T ?x)"
    using parray_lawsD(3) [OF laws, of "int mid" arr] len by (simp add: arr)
  have okm: "bmap_ok ?x" using ok(1) len by (rule list_ok_nth)
  consider "b < lo ?x" | "hi ?x < a" | "overlap (?e ?x) ?x" by (auto simp: overlap_def precedes_def)
  then show ?case
  proof cases
    case 1
    have right: "b < lo (es ! i)" if "mid \<le> i" "i < length es" for i
      using that 1 list_ok_nth(2) [OF ok(1), of mid i] precedes_trans [OF okm, of "?e ?x" "es ! i"]
      by (cases "mid = i") (auto simp: precedes_def)
    have step: "list_extract F M (byte_region T a b) low high arr =
        (if int mid - 1 < low then Some None else list_extract F M (byte_region T a b) low (int mid - 1) arr)"
      using at mid(1) order_conc_cases(1) [of "?e ?x" ?x F T] 1
      by (subst list_extract.simps) (simp add: Let_def orderWith_byte precedes_def)
    show ?thesis
    proof (cases "int mid - 1 < low")
      case True
      have "holder es a b = None"
      proof (rule holder_none)
        fix x assume "x \<in> set es"
        then obtain i where i: "i < length es" "x = es ! i" by (auto simp: in_set_conv_nth)
        show "\<not> (lo x \<le> a \<and> b \<le> hi x)"
          using less.prems(4) [of i] right [of i] i True ok(3) by (cases "mid \<le> i") auto
      qed
      then show ?thesis using True step by simp
    next
      case False
      then show ?thesis
        using step less.hyps [of "int mid - 1" low] mid less.prems right by auto
    qed
  next
    case 2
    have left: "hi (es ! i) < a" if "i \<le> mid" for i
      using that 2 list_ok_nth(2) [OF ok(1), of i mid] len precedes_trans [OF okm, of "es ! i" "?e ?x"]
      by (cases "mid = i") (auto simp: precedes_def)
    have "orderWith F (conc T (?e ?x)) (Some (conc T ?x)) = Some FOLLOWS"
      using 2 ok(3) okm by (auto simp: orderWith_conc bmap_ok_def)
    then have step: "list_extract F M (byte_region T a b) low high arr =
        (if int mid + 1 > high then Some None else list_extract F M (byte_region T a b) (int mid + 1) high arr)"
      using at mid(1) by (subst list_extract.simps) (simp add: Let_def orderWith_byte)
    show ?thesis
    proof (cases "int mid + 1 > high")
      case True
      have "holder es a b = None"
      proof (rule holder_none)
        fix x assume "x \<in> set es"
        then obtain i where i: "i < length es" "x = es ! i" by (auto simp: in_set_conv_nth)
        show "\<not> (lo x \<le> a \<and> b \<le> hi x)"
          using less.prems(5) [of i] left [of i] i True ok(3) by (cases "i \<le> mid") auto
      qed
      then show ?thesis using True step by simp
    next
      case False
      then show ?thesis
        using step less.hyps [of high "int mid + 1"] mid less.prems left by auto
    qed
  next
    case 3
    show ?thesis
    proof (cases "lo ?x \<le> a \<and> b \<le> hi ?x")
      case True
      then show ?thesis
        using list_extract_hit [OF ok(3) 3 okm at mid(1)] holder_some [OF ok(1) nth_mem [OF len] _ _ ok(3)] by simp
    next
      case False
      have "holder es a b = None"
      proof (rule holder_none, rule notI)
        fix y assume y: "y \<in> set es" "lo y \<le> a \<and> b \<le> hi y"
        then have "overlap ?x y" using 3 by (auto simp: overlap_nat word_le_nat_alt)
        then show False using list_ok_disjoint [OF ok(1) nth_mem [OF len] y(1)] y(2) False by metis
      qed
      then show ?thesis using False list_extract_hit [OF ok(3) 3 okm at mid(1)] by simp
    qed
  qed
qed

lemma mappingList_extract_byte:
  assumes "parray_laws M elems" "elems arr = array_of T es" "list_ok es" "es \<noteq> []" "0 < a" "a \<le> b"
  shows "mappingList_extract F M (Some (byte_region T a b)) arr =
    Some (case holder es a b of None \<Rightarrow> (-1, None) | Some x \<Rightarrow> (1, Some (moved x a b)))"
proof -
  have "list_extract F M (byte_region T a b) 0 (pa_size M arr - 1) arr = Some (map_option (\<lambda>x. moved x a b) (holder es a b))"
    unfolding parray_lawsD(2) [OF assms(1)] assms(2)
    by (rule list_extract_byte [OF assms(1,2,3,5,6)]) (use assms(4) in \<open>auto simp: Suc_leI\<close>)
  then show ?thesis by (simp add: mappingList_extract_def split: option.split)
qed

text \<open>A view of files that cannot be read, for the witnesses.\<close>

definition unread_files :: file_view where
  "unread_files = \<lparr>fv_exists = (\<lambda>f. False), fv_bytepos = (\<lambda>f r c. None), fv_rowcol = (\<lambda>f b. None),
     fv_resolve = (\<lambda>f r c n. None)\<rparr>"

text \<open>Extraction from a list of byte mappings finds the mapping that holds the whole
  region, and answers its source region moved to the place of the query; a region that no
  single mapping holds is not mapped.\<close>

theorem extract_answers_from_holder:
  assumes "parray_laws M elems" "elems arr = array_of T es" "list_ok es" "es \<noteq> []" "0 < a" "a \<le> b"
  shows "mappingList_extract F M (Some (byte_region T a b)) arr =
    Some (case find (\<lambda>x. lo x \<le> a \<and> b \<le> hi x) es of
        None \<Rightarrow> (-1, None)
      | Some x \<Rightarrow> (1, Some (if mtyp x = FIXED then src x
          else byte_region (the (from_file (src x)))
            (a - lo x + bp (the (r_start (src x)))) (b - lo x + bp (the (r_start (src x)))))))"
  using mappingList_extract_byte [OF assms, of F] by (simp add: holder_def moved_def split: option.split)

definition example_maps :: "bmap list" where
  "example_maps = [BMap 1 10 (byte_region ''a.c'' 101 110) COPY, BMap 11 14 (byte_region ''b.h'' 7 7) FIXED,
     BMap 20 40 (byte_region ''a.c'' 111 131) COPY]"

lemma example_maps_ok: "list_ok example_maps"
  by (auto simp: list_ok_def example_maps_def precedes_def bmap_ok_def)

theorem extract_answers_from_holder_witness:
  "mappingList_extract unread_files (list_parray None) (Some (byte_region ''out.c'' 21 24)) (array_of ''out.c'' example_maps) =
     Some (1, Some (byte_region ''a.c'' 112 115))"
  using extract_answers_from_holder [where elems = "\<lambda>a. a" and es = example_maps and a = 21 and b = 24 and F = unread_files
      and T = "''out.c''", OF list_parray_laws refl example_maps_ok]
  by (simp add: example_maps_def)

section \<open>Insertion\<close>

lemma mappingList_insert_merges:
  assumes "parray_laws M elems" "elems arr = array_of T es" "list_ok es" "bmap_ok e"
  shows "\<exists>r arr' es'. mappingList_insert F M (Some (conc T e)) arr = Some (r, arr') \<and> elems arr' = array_of T es' \<and>
    list_ok es' \<and> lookup es' = merge_at e (lookup es)"
  using list_insert_merges [OF assms, of F] by (auto simp: inserts_def insert_result_def mappingList_insert_def)

text \<open>C6: insertion of a byte mapping ends, dereferences no null pointer and keeps the elements
  disjoint and in order; afterwards every byte of the new region has the new mapping unless
  the mapping it had before is of a kind that the new one does not replace, and no other byte
  changes.\<close>

theorem insert_merges_mapping:
  assumes "parray_laws M elems" "elems arr = array_of T es" "list_ok es" "bmap_ok e"
  shows "\<exists>r arr' es'. mappingList_insert F M (Some (conc T e)) arr = Some (r, arr') \<and> elems arr' = array_of T es' \<and>
    list_ok es' \<and> (\<forall>p. lookup es' p =
      (if covers e p \<and> (case lookup es p of None \<Rightarrow> True | Some (t, _) \<Rightarrow> t \<le> mtyp e)
       then Some (image_at e p) else lookup es p))"
proof -
  have "merge_at e (lookup es) p =
      (if covers e p \<and> (case lookup es p of None \<Rightarrow> True | Some (t, _) \<Rightarrow> t \<le> mtyp e)
       then Some (image_at e p) else lookup es p)" for p
    by (auto simp: merge_at_def split: option.split)
  then show ?thesis using mappingList_insert_merges [OF assms, of F] by metis
qed

theorem insert_merges_mapping_witness:
  "\<exists>r arr' es'. mappingList_insert unread_files (list_parray None) (Some (conc ''out.c'' (BMap 5 30 (byte_region ''d.h'' 1 26) COPY)))
      (array_of ''out.c'' example_maps) = Some (r, arr') \<and> arr' = array_of ''out.c'' es' \<and> list_ok es' \<and>
    lookup es' 4 = lookup example_maps 4 \<and> lookup es' 12 = Some (COPY, byte_region ''d.h'' 8 8) \<and>
    lookup es' 6 = Some (COPY, byte_region ''d.h'' 2 2)"
proof -
  have ok: "bmap_ok (BMap 5 30 (byte_region ''d.h'' 1 26) COPY)" by (auto simp: bmap_ok_def)
  obtain r arr' es' where 1: "mappingList_insert unread_files (list_parray None) (Some (conc ''out.c'' (BMap 5 30 (byte_region ''d.h'' 1 26) COPY)))
        (array_of ''out.c'' example_maps) = Some (r, arr')" "arr' = array_of ''out.c'' es'" "list_ok es'"
      and at: "\<And>p. lookup es' p = (if covers (BMap 5 30 (byte_region ''d.h'' 1 26) COPY) p \<and>
          (case lookup example_maps p of None \<Rightarrow> True | Some (t, _) \<Rightarrow> t \<le> COPY)
        then Some (image_at (BMap 5 30 (byte_region ''d.h'' 1 26) COPY) p) else lookup example_maps p)"
    using insert_merges_mapping [where elems = "\<lambda>a. a" and es = example_maps and F = unread_files and T = "''out.c''",
      OF list_parray_laws refl example_maps_ok ok, of None] unfolding bmap.sel by metis
  have "lookup es' 4 = lookup example_maps 4" "lookup es' 12 = Some (COPY, byte_region ''d.h'' 8 8)"
      "lookup es' 6 = Some (COPY, byte_region ''d.h'' 2 2)"
    by (simp_all add: at example_maps_def covers_def image_at_def moved_def less_eq_mappingType_def)
  then show ?thesis using 1 by metis
qed

text \<open>A list built from nothing by a sequence of insertions.\<close>

fun insert_all :: "file_view \<Rightarrow> (mapping option, 'arr) parray_ops \<Rightarrow> mapping list \<Rightarrow> 'arr \<Rightarrow> 'arr option" where
  "insert_all F M [] arr = Some arr"
| "insert_all F M (m # ms) arr =
     Option.bind (mappingList_insert F M (Some m) arr) (\<lambda>(r, arr'). insert_all F M ms arr')"

lemma insert_all_merges:
  assumes laws: "parray_laws M elems"
  shows "elems arr = array_of T es \<Longrightarrow> list_ok es \<Longrightarrow> list_all bmap_ok ms \<Longrightarrow>
    \<exists>arr' es'. insert_all F M (map (conc T) ms) arr = Some arr' \<and> elems arr' = array_of T es' \<and> list_ok es' \<and>
      lookup es' = fold merge_at ms (lookup es)"
proof (induction ms arbitrary: arr es)
  case Nil
  then show ?case by auto
next
  case (Cons e ms)
  then obtain r arr' es' where 1: "mappingList_insert F M (Some (conc T e)) arr = Some (r, arr')" "elems arr' = array_of T es'"
      "list_ok es'" "lookup es' = merge_at e (lookup es)"
    using mappingList_insert_merges [OF laws Cons.prems(1,2), of e F] by auto
  show ?case using Cons.IH [OF 1(2,3)] Cons.prems(3) 1(1,4) by simp
qed

lemma fold_merge_nonempty: "ms \<noteq> [] \<Longrightarrow> list_all bmap_ok ms \<Longrightarrow> fold merge_at ms f \<noteq> (\<lambda>p. None)"
proof (induction ms rule: rev_induct)
  case (snoc e ms)
  have "covers e (lo e)" using snoc.prems(2) by (simp add: covers_def bmap_ok_def)
  then have "merge_at e g (lo e) \<noteq> None" for g by (auto simp: merge_at_def split: option.split)
  then show ?case by (metis comp_apply fold_append fold_simps)
qed simp

text \<open>The mapping that decides about a byte: the last one of the strongest kind.\<close>

definition winner :: "bmap list \<Rightarrow> u32 \<Rightarrow> bmap option" where
  "winner ms p =
     (let cs = filter (\<lambda>e. covers e p) ms
      in if cs = [] then None else Some (last (filter (\<lambda>e. mtyp e = Max (set (map mtyp cs))) cs)))"

lemma winner_snoc:
  "winner (ms @ [e]) p =
     (if covers e p \<and> (case winner ms p of None \<Rightarrow> True | Some w \<Rightarrow> mtyp w \<le> mtyp e) then Some e else winner ms p)"
proof (cases "covers e p \<and> filter (\<lambda>e. covers e p) ms \<noteq> []")
  case True
  define cs where "cs = filter (\<lambda>e. covers e p) ms"
  define best where "best = Max (mtyp ` set cs)"
  have cs: "cs \<noteq> []" using True by (simp add: cs_def)
  have "best \<in> mtyp ` set cs" unfolding best_def using cs by (intro Max_in) auto
  then have ne: "filter (\<lambda>x. mtyp x = best) cs \<noteq> []" by (auto simp: filter_empty_conv)
  have w: "winner ms p = Some (last (filter (\<lambda>x. mtyp x = best) cs))"
    using cs by (simp add: winner_def best_def cs_def)
  have "last (filter (\<lambda>x. mtyp x = best) cs) \<in> set (filter (\<lambda>x. mtyp x = best) cs)" using ne by (rule last_in_set)
  then have wt: "mtyp (last (filter (\<lambda>x. mtyp x = best) cs)) = best" by simp
  have max: "Max (insert (mtyp e) (mtyp ` set cs)) = max (mtyp e) best" unfolding best_def using cs by simp
  have all: "x \<in> set cs \<Longrightarrow> mtyp x \<le> best" for x unfolding best_def by simp
  have f: "filter (\<lambda>e. covers e p) (ms @ [e]) = cs @ [e]" using True by (simp add: cs_def)
  have setm: "Max (set (map mtyp (cs @ [e]))) = max (mtyp e) best" using max by simp
  have new: "winner (ms @ [e]) p = Some (last (filter (\<lambda>x. mtyp x = max (mtyp e) best) (cs @ [e])))"
    unfolding winner_def Let_def f setm by simp
  show ?thesis
  proof (cases "best \<le> mtyp e")
    case True
    then show ?thesis using new w wt \<open>covers e p \<and> _\<close> by (simp add: max_def)
  next
    case False
    then have "max (mtyp e) best = best" "mtyp e \<noteq> best" by (auto simp: max_def)
    then show ?thesis using new w wt False by simp
  qed
next
  case False
  then show ?thesis by (auto simp: winner_def)
qed

lemma fold_merge_winner: "fold merge_at ms (\<lambda>_. None) p = map_option (\<lambda>e. image_at e p) (winner ms p)"
proof (induction ms rule: rev_induct)
  case Nil
  then show ?case by (simp add: winner_def)
next
  case (snoc e ms)
  have "fold merge_at (ms @ [e]) (\<lambda>_. None) p = merge_at e (fold merge_at ms (\<lambda>_. None)) p" by simp
  also have "\<dots> = map_option (\<lambda>e. image_at e p) (winner (ms @ [e]) p)"
    unfolding merge_at_def snoc.IH winner_snoc by (auto simp: image_at_def split: option.split)
  finally show ?case .
qed

text \<open>C5: after any sequence of insertions of byte mappings into a new list, extraction of a
  byte answers from the last mapping of the strongest kind among those inserted over it, with
  the source byte moved along, whatever splits the insertions made.\<close>

theorem insertions_give_winner:
  assumes "parray_laws M elems" "list_all bmap_ok ms" "ms \<noteq> []" "0 < p"
  shows "\<exists>arr. insert_all F M (map (conc T) ms) (mappingList_new M n) = Some arr \<and>
    mappingList_extract F M (Some (byte_region T p p)) arr =
      Some (case winner ms p of None \<Rightarrow> (-1, None) | Some e \<Rightarrow> (1, Some (moved e p p)))"
proof -
  have new: "elems (mappingList_new M n) = array_of T []" "list_ok []"
    by (simp_all add: mappingList_new_def parray_lawsD(1) [OF assms(1)] array_of_def list_ok_def)
  have empty: "lookup [] = (\<lambda>_. None)" by (rule ext) simp
  obtain arr es where 1: "insert_all F M (map (conc T) ms) (mappingList_new M n) = Some arr" "elems arr = array_of T es"
      "list_ok es" "lookup es = fold merge_at ms (\<lambda>_. None)"
    using insert_all_merges [OF assms(1) new assms(2), of F] unfolding empty by blast
  have "es \<noteq> []" using fold_merge_nonempty [OF assms(3,2)] 1(4) empty by metis
  then have ext: "mappingList_extract F M (Some (byte_region T p p)) arr =
      Some (case holder es p p of None \<Rightarrow> (-1, None) | Some x \<Rightarrow> (1, Some (moved x p p)))"
    by (intro mappingList_extract_byte [OF assms(1) 1(2,3) _ assms(4) order.refl])
  have "map_option (\<lambda>x. image_at x p) (holder es p p) = map_option (\<lambda>e. image_at e p) (winner ms p)"
    using holder_byte [of es p] fold_merge_winner [of ms p] 1(4) by simp
  then show ?thesis using 1(1) ext by (cases "holder es p p"; cases "winner ms p") (simp_all add: image_at_def)
qed

definition example_inserts :: "bmap list" where
  "example_inserts = [BMap 1 50 (byte_region ''a.c'' 1 50) COPY, BMap 11 14 (byte_region ''b.h'' 7 7) FIXED,
     BMap 12 20 (byte_region ''c.h'' 1 9) COPY]"

theorem insertions_give_winner_witness:
  "\<exists>arr. insert_all unread_files (list_parray None) (map (conc ''out.c'') example_inserts) (mappingList_new (list_parray None) 1024) = Some arr \<and>
     mappingList_extract unread_files (list_parray None) (Some (byte_region ''out.c'' 11 11)) arr =
       Some (1, Some (byte_region ''a.c'' 11 11))"
proof -
  have ok: "list_all bmap_ok example_inserts" "example_inserts \<noteq> []"
    by (auto simp: example_inserts_def bmap_ok_def)
  have w: "winner example_inserts 11 = Some (BMap 1 50 (byte_region ''a.c'' 1 50) COPY)"
    by (simp add: example_inserts_def winner_def covers_def max_def less_eq_mappingType_def)
  show ?thesis
    using insertions_give_winner [where elems = "\<lambda>a. a" and F = unread_files and T = "''out.c''" and n = 1024 and p = 11
        and ms = example_inserts, OF list_parray_laws ok, of None]
    by (simp add: w moved_def)
qed

end
