(* ===== verification/Els_Properties.thy ===== *)
theory Els_Properties
  imports Els_Mapper Mapping_Properties
begin

text \<open>
  What the mapper promises for locations that are byte positions: an abstract state with one
  list of byte mappings per generated file, what adding a transformation does to it, and
  which source location an unmapped location is. A set of mappers must exist: the calls
  before the first mapper, and the reset of a set, go through the null pointer.
\<close>

section \<open>Byte locations\<close>

definition byte_location :: "string \<Rightarrow> u32 \<Rightarrow> u32 \<Rightarrow> location" where
  "byte_location f a k = \<lparr>loc_filename = Some f, start_line = 0, start_column = a, end_line = 0, end_column = k\<rparr>"

lemma byte_location_simps [simp]:
  "loc_filename (byte_location f a k) = Some f" "start_line (byte_location f a k) = 0"
  "start_column (byte_location f a k) = a" "end_line (byte_location f a k) = 0" "end_column (byte_location f a k) = k"
  by (simp_all add: byte_location_def)

lemma position_of_byte_location [simp]:
  "position_of_location F (Some (byte_location f a k)) START = position_bp a (Some f)"
  "position_of_location F (Some (byte_location f a k)) END = position_bp (k + a - 1) (Some f)"
  by (simp_all add: position_of_location_def initWithLocation_def initType_def invalidate_def position_bp_def)

lemma region_of_byte_location [simp]:
  "region_of_location F (Some (byte_location f a k)) = byte_region f a (k + a - 1)"
  by (simp add: region_of_location_def byte_region_def)

lemma mapping_of_byte_locations:
  "mapping_of_locations F (Some (byte_location S c n)) (Some (byte_location T a k)) t =
     conc T (BMap a (k + a - 1) (byte_region S c (n + c - 1)) t)"
  by (simp add: mapping_of_locations_def conc_def)

lemma location_of_byte_region [simp]:
  "location_of_region l (byte_region f a b) = byte_location f a (b - a)"
  by (simp add: location_of_region_def toLocation_def byte_location_def byte_region_def position_bp_def)

text \<open>A location of \<open>n\<close> bytes that is made a region and then a location again has \<open>n - 1\<close>
  bytes: the two conversions of \<^verbatim>\<open>position\<close> disagree about the last byte.\<close>

theorem byte_location_loses_a_byte:
  "location_of_region junk (region_of_location F (Some (byte_location f a n))) = byte_location f a (n - 1)"
  by simp

text \<open>A transformation whose target has no end gets a target region that is one byte shorter
  than the source region.\<close>

theorem target_without_end_is_short:
  "map_option (\<lambda>trg. mapping_of_locations F (Some (byte_location S c n)) (Some trg) t)
     (adjust_target F (byte_location S c n) (byte_location T a 0)) =
   Some (mapping_of (byte_region S c (n + c - 1)) (byte_region T a (n + a - 2)) t)"
proof -
  have "toLocation (position_bp (n + a - 1) (Some T)) (byte_location T a 0) END = byte_location T a (n - 1)"
    by (simp add: toLocation_def byte_location_def position_bp_def)
  then have "adjust_target F (byte_location S c n) (byte_location T a 0) = Some (byte_location T a (n - 1))"
    by (simp add: adjust_target_def offsetWith_bp algebra_simps)
  then show ?thesis by (simp add: mapping_of_byte_locations conc_def algebra_simps)
qed

section \<open>The null set\<close>

text \<open>The first transformation that names its target file is a crash: the set of mappers is
  searched before it exists.\<close>

theorem first_transformation_crashes:
  assumes "loc_filename trg = Some f"
  shows "addTransformation F M (Some \<lparr>t_source = Some sl, t_target = Some trg\<rparr>) copyFlag None = None"
  using assms by (simp add: addTransformation_def find_or_new_def findMapper_def)

theorem first_transformation_crashes_witness:
  "addTransformation unread_files (list_parray None)
     (Some \<lparr>t_source = Some (byte_location ''a.c'' 1 10), t_target = Some (byte_location ''a.i'' 1 10)\<rparr>) 1 None = None"
  by (rule first_transformation_crashes [where f = "''a.i''"]) simp

lemma reset_loop_crashes: "ms \<noteq> [] \<Longrightarrow> reset_loop (Some ms) = None"
proof (induction ms)
  case (Cons m ms)
  have "elsMapper_delete 0 (Some (m # ms)) = (if ms = [] then None else Some ms)"
    by (simp add: elsMapper_delete_def remove_list_def)
  then show ?case using Cons.IH by (cases "ms = []") (simp_all add: reset_loop.simps)
qed simp

text \<open>The reset of a set that has a mapper is a crash: the last destructor sets the pointer
  to the set to null, and the loop tests the set again.\<close>

theorem reset_crashes:
  assumes "ms \<noteq> []"
  shows "elsMapper_reset B (Some ms) files = None"
  using assms by (simp add: elsMapper_reset_def reset_loop_crashes)

theorem reset_crashes_witness:
  "elsMapper_reset (list_parray 0) (elsMapper_new (Some ''a.i'') (None :: mapping option list mapper_set))
     (files_init :: (u32 list, nat list) file_cache) = None"
  using reset_crashes [of "[\<lparr>forFile = Some ''a.i'', mappings = None\<rparr>]" "list_parray 0" files_init]
  by (simp add: elsMapper_new_def)

section \<open>The abstract state\<close>

text \<open>The list of byte mappings of each generated file that has a mapper with mappings.\<close>

type_synonym file_maps = "string \<Rightarrow> bmap list option"

definition mappings_of :: "'arr elsMapper list \<Rightarrow> string \<Rightarrow> 'arr option" where
  "mappings_of ms T = Option.bind (find (\<lambda>m. forFile m = Some T) ms) mappings"

definition byte_state :: "('arr \<Rightarrow> mapping option list) \<Rightarrow> 'arr elsMapper list \<Rightarrow> file_maps \<Rightarrow> bool" where
  "byte_state elems ms \<sigma> \<longleftrightarrow> (\<forall>T. case mappings_of ms T of
     None \<Rightarrow> \<sigma> T = None
   | Some arr \<Rightarrow> \<exists>es. \<sigma> T = Some es \<and> es \<noteq> [] \<and> list_ok es \<and> elems arr = array_of T es)"

definition origin :: "file_maps \<Rightarrow> string \<Rightarrow> u32 \<Rightarrow> (mappingType \<times> region) option" where
  "origin \<sigma> T p = (case \<sigma> T of None \<Rightarrow> None | Some es \<Rightarrow> lookup es p)"

lemma byte_stateD:
  assumes "byte_state elems ms \<sigma>"
  shows "\<sigma> T = None \<Longrightarrow> mappings_of ms T = None"
    and "\<sigma> T = Some es \<Longrightarrow> \<exists>arr. mappings_of ms T = Some arr \<and> es \<noteq> [] \<and> list_ok es \<and> elems arr = array_of T es"
  using assms[unfolded byte_state_def, rule_format, of T] by (auto split: option.splits)

lemma byte_stateI:
  assumes "\<And>T. \<sigma> T = None \<Longrightarrow> mappings_of ms T = None"
    and "\<And>T es. \<sigma> T = Some es \<Longrightarrow> \<exists>arr. mappings_of ms T = Some arr \<and> es \<noteq> [] \<and> list_ok es \<and> elems arr = array_of T es"
  shows "byte_state elems ms \<sigma>"
  unfolding byte_state_def
proof
  fix T
  show "case mappings_of ms T of None \<Rightarrow> \<sigma> T = None
      | Some arr \<Rightarrow> \<exists>es. \<sigma> T = Some es \<and> es \<noteq> [] \<and> list_ok es \<and> elems arr = array_of T es"
    using assms [of T] by (cases "\<sigma> T") auto
qed

lemma find_update_mapper:
  "find (\<lambda>m. forFile m = Some U) (update_mapper (Some T) ml ms) =
     (if U = T then map_option (\<lambda>m. m\<lparr>mappings := ml\<rparr>) (find (\<lambda>m. forFile m = Some T) ms)
      else find (\<lambda>m. forFile m = Some U) ms)"
  by (induction ms) auto

lemma mappings_of_update:
  assumes "find (\<lambda>m. forFile m = Some T) ms \<noteq> None"
  shows "mappings_of (update_mapper (Some T) (Some l) ms) U = (if U = T then Some l else mappings_of ms U)"
  using assms by (auto simp: mappings_of_def find_update_mapper)

lemma find_append: "find P (xs @ ys) = (case find P xs of None \<Rightarrow> find P ys | Some x \<Rightarrow> Some x)"
  by (induction xs) auto

lemma find_or_new_mapper:
  "\<exists>ms'. find_or_new (Some T) (Some ms) = Some (Some ms') \<and> find (\<lambda>m. forFile m = Some T) ms' \<noteq> None \<and>
     (\<forall>U. mappings_of ms' U = mappings_of ms U)"
proof (cases "find (\<lambda>m. forFile m = Some T) ms")
  case None
  then have "find_or_new (Some T) (Some ms) = Some (Some (ms @ [\<lparr>forFile = Some T, mappings = None\<rparr>]))"
    by (simp add: find_or_new_def findMapper_def elsMapper_new_def)
  moreover have "mappings_of (ms @ [\<lparr>forFile = Some T, mappings = None\<rparr>]) U = mappings_of ms U" for U
    using None by (auto simp: mappings_of_def find_append split: option.split)
  ultimately show ?thesis using None by (simp add: find_append)
next
  case (Some m)
  then show ?thesis by (simp add: find_or_new_def findMapper_def)
qed

lemma add_mapping_merges:
  assumes laws: "parray_laws M elems" and st: "byte_state elems ms \<sigma>" and e: "bmap_ok e"
    and found: "find (\<lambda>m. forFile m = Some T) ms \<noteq> None"
  shows "\<exists>ms' es'. add_mapping F M (Some T) (conc T e) (Some ms) = Some (1, Some ms') \<and>
    byte_state elems ms' (\<sigma>(T \<mapsto> es')) \<and> lookup es' = merge_at e (origin \<sigma> T)"
proof -
  obtain m where m: "find (\<lambda>m. forFile m = Some T) ms = Some m" using found by blast
  define arr where "arr = (case mappings m of None \<Rightarrow> mappingList_new M 1024 | Some l \<Rightarrow> l)"
  define es where "es = (case \<sigma> T of None \<Rightarrow> [] | Some es \<Rightarrow> es)"
  have mo: "mappings_of ms T = mappings m" using m by (simp add: mappings_of_def)
  have arr_es: "elems arr = array_of T es \<and> list_ok es"
  proof (cases "\<sigma> T")
    case None
    then have "mappings m = None" using byte_stateD(1) [OF st, of T] mo by simp
    then show ?thesis
      using None by (simp add: arr_def es_def mappingList_new_def parray_lawsD(1) [OF laws] array_of_def list_ok_def)
  next
    case (Some es0)
    then show ?thesis using byte_stateD(2) [OF st Some] mo by (auto simp: arr_def es_def)
  qed
  have lookup_es: "lookup es = origin \<sigma> T"
    by (rule ext) (simp add: es_def origin_def split: option.split)
  obtain r arr' es' where ins: "mappingList_insert F M (Some (conc T e)) arr = Some (r, arr')" "elems arr' = array_of T es'"
      "list_ok es'" "lookup es' = merge_at e (lookup es)"
    using mappingList_insert_merges [OF laws _ _ e, of arr T es F] arr_es by blast
  have "covers e (lo e)" using e by (simp add: covers_def bmap_ok_def)
  then have "lookup es' (lo e) \<noteq> None" unfolding ins(4) by (auto simp: merge_at_def split: option.split)
  then have ne: "es' \<noteq> []" by auto
  have add: "add_mapping F M (Some T) (conc T e) (Some ms) = Some (1, Some (update_mapper (Some T) (Some arr') ms))"
    using ins(1) m by (simp add: add_mapping_def mapper_for_def arr_def)
  have "byte_state elems (update_mapper (Some T) (Some arr') ms) (\<sigma>(T \<mapsto> es'))"
    by (rule byte_stateI)
      (use byte_stateD [OF st] ins(2,3) ne in \<open>auto simp: mappings_of_update [OF found] split: if_splits\<close>)
  then show ?thesis using add ins(4) lookup_es by auto
qed

text \<open>C7: adding a transformation between byte locations, when a set of mappers exists, keeps
  every generated file a list of disjoint mappings in order; it merges the new mapping into
  the mappings of the target file and changes no other file.\<close>

theorem addTransformation_merges:
  assumes "parray_laws M elems" "byte_state elems ms \<sigma>" "0 < a" "0 < k" "a \<le> k + a - 1"
  shows "\<exists>ms' es'. addTransformation F M
      (Some \<lparr>t_source = Some (byte_location S c n), t_target = Some (byte_location T a k)\<rparr>) copyFlag (Some ms) =
      Some (1, Some \<lparr>t_source = Some (byte_location S c n), t_target = Some (byte_location T a k)\<rparr>, Some ms') \<and>
    byte_state elems ms' (\<sigma>(T \<mapsto> es')) \<and>
    lookup es' = merge_at (BMap a (k + a - 1) (byte_region S c (n + c - 1)) (if copyFlag \<noteq> 0 then COPY else FIXED)) (origin \<sigma> T)"
proof -
  let ?e = "BMap a (k + a - 1) (byte_region S c (n + c - 1)) (if copyFlag \<noteq> 0 then COPY else FIXED)"
  have e: "bmap_ok ?e" using assms(3-5) by (auto simp: bmap_ok_def)
  have adj: "adjust_target F (byte_location S c n) (byte_location T a k) = Some (byte_location T a k)"
    using assms(4) by (simp add: adjust_target_def word_gt_0)
  obtain ms1 where 1: "find_or_new (Some T) (Some ms) = Some (Some ms1)" "find (\<lambda>m. forFile m = Some T) ms1 \<noteq> None"
      "\<And>U. mappings_of ms1 U = mappings_of ms U"
    using find_or_new_mapper [of T ms] by blast
  have st1: "byte_state elems ms1 \<sigma>" using assms(2) 1(3) by (simp add: byte_state_def)
  obtain ms' es' where "add_mapping F M (Some T) (conc T ?e) (Some ms1) = Some (1, Some ms')"
      "byte_state elems ms' (\<sigma>(T \<mapsto> es'))" "lookup es' = merge_at ?e (origin \<sigma> T)"
    using add_mapping_merges [OF assms(1) st1 e 1(2), of F] by blast
  then show ?thesis
    using 1(1) adj by (auto simp: addTransformation_def mapping_of_byte_locations)
qed

definition example_mappers :: "mapping option list elsMapper list" where
  "example_mappers = [\<lparr>forFile = Some ''a.i'', mappings = Some (array_of ''a.i'' example_maps)\<rparr>]"

lemma example_state: "byte_state (\<lambda>a. a) example_mappers [''a.i'' \<mapsto> example_maps]"
  unfolding byte_state_def example_mappers_def mappings_of_def
  by (auto simp: example_maps_ok) (simp add: example_maps_def)

theorem addTransformation_merges_witness:
  "\<exists>ms' es'. addTransformation unread_files (list_parray None)
      (Some \<lparr>t_source = Some (byte_location ''a.c'' 1 5), t_target = Some (byte_location ''a.i'' 15 5)\<rparr>) 1 (Some example_mappers) =
      Some (1, Some \<lparr>t_source = Some (byte_location ''a.c'' 1 5), t_target = Some (byte_location ''a.i'' 15 5)\<rparr>, Some ms') \<and>
    byte_state (\<lambda>a. a) ms' [''a.i'' \<mapsto> es'] \<and> lookup es' 17 = Some (COPY, byte_region ''a.c'' 3 3)"
proof -
  have at: "merge_at (BMap 15 19 (byte_region ''a.c'' 1 5) COPY) (origin [''a.i'' \<mapsto> example_maps] ''a.i'') 17 =
      Some (COPY, byte_region ''a.c'' 3 3)"
    by (simp add: merge_at_def origin_def example_maps_def covers_def image_at_def moved_def)
  obtain ms' es' where "addTransformation unread_files (list_parray None)
      (Some \<lparr>t_source = Some (byte_location ''a.c'' 1 5), t_target = Some (byte_location ''a.i'' 15 5)\<rparr>) 1 (Some example_mappers) =
      Some (1, Some \<lparr>t_source = Some (byte_location ''a.c'' 1 5), t_target = Some (byte_location ''a.i'' 15 5)\<rparr>, Some ms')"
      "byte_state (\<lambda>a. a) ms' ([''a.i'' \<mapsto> example_maps](''a.i'' \<mapsto> es'))"
      "lookup es' = merge_at (BMap 15 (5 + 15 - 1) (byte_region ''a.c'' 1 (5 + 1 - 1)) (if (1 :: int) \<noteq> 0 then COPY else FIXED))
        (origin [''a.i'' \<mapsto> example_maps] ''a.i'')"
    using addTransformation_merges [where M = "list_parray None" and elems = "\<lambda>a. a" and F = unread_files and a = 15 and k = 5 and T = "''a.i''"
        and S = "''a.c''" and c = 1 and n = 5 and copyFlag = 1, OF list_parray_laws example_state] by auto
  then show ?thesis using at by (intro exI conjI) (assumption, simp, simp)
qed

section \<open>Where a byte came from\<close>

text \<open>Unmapping as a relation on the abstract state. A region is a file with the first and the
  last byte; the result is \<open>None\<close> where a generated file has no mapping for the region.\<close>

inductive unmaps :: "file_maps \<Rightarrow> string \<Rightarrow> u32 \<Rightarrow> u32 \<Rightarrow> (string \<times> u32 \<times> u32) option \<Rightarrow> bool" for \<sigma> where
  source: "\<sigma> T = None \<Longrightarrow> unmaps \<sigma> T a b (Some (T, a, b))"
| hole: "\<sigma> T = Some es \<Longrightarrow> 0 < a \<Longrightarrow> a \<le> b \<Longrightarrow> holder es a b = None \<Longrightarrow> unmaps \<sigma> T a b None"
| mapped: "\<sigma> T = Some es \<Longrightarrow> 0 < a \<Longrightarrow> a \<le> b \<Longrightarrow> holder es a b = Some x \<Longrightarrow> moved x a b = byte_region S c d \<Longrightarrow>
    unmaps \<sigma> S c d r \<Longrightarrow> unmaps \<sigma> T a b r"

inductive_cases unmapsE: "unmaps \<sigma> T a b r"

lemma findMapper_mappings:
  "\<exists>m. findMapper (Some T) (Some ms) = Some m \<and> Option.bind m mappings = mappings_of ms T"
  by (simp add: findMapper_def mappings_of_def)

lemma getTrueLoc2_source:
  assumes "mappings_of ms T = None"
  shows "getTrueLoc2 F M junk (Some ms) (byte_region T a b) = Some (1, Some (byte_location T a (b - a)))"
proof -
  obtain m where "findMapper (Some T) (Some ms) = Some m" "Option.bind m mappings = None"
    using findMapper_mappings [of T ms] assms by metis
  then show ?thesis by (subst getTrueLoc2.simps) simp
qed

lemma getTrueLoc2_mapped:
  assumes "mappings_of ms T = Some arr" "mappingList_extract F M (Some (byte_region T a b)) arr = Some (r, u)"
  shows "getTrueLoc2 F M junk (Some ms) (byte_region T a b) =
    (if r \<ge> 0 then
       (case u of None \<Rightarrow> Some (1, Some (byte_location T a (b - a)))
        | Some reg \<Rightarrow> Option.bind (getTrueLoc2 F M junk (Some ms) reg) (\<lambda>(retval, result).
            Some (retval, if retval \<noteq> 1 then None else result)))
     else Some (-1, None))"
proof -
  obtain m where "findMapper (Some T) (Some ms) = Some m" "Option.bind m mappings = Some arr"
    using findMapper_mappings [of T ms] assms(1) by metis
  then show ?thesis using assms(2) by (subst getTrueLoc2.simps) (simp split: option.split)
qed

text \<open>What \<^verbatim>\<open>getTrueLoc2\<close> returns for a result of the relation.\<close>

definition true_loc :: "(string \<times> u32 \<times> u32) option \<Rightarrow> int \<times> location option" where
  "true_loc r = (case r of None \<Rightarrow> (-1, None) | Some (S, c, d) \<Rightarrow> (1, Some (byte_location S c (d - c))))"

lemma getTrueLoc2_unmaps:
  assumes laws: "parray_laws M elems" and st: "byte_state elems ms \<sigma>"
  shows "unmaps \<sigma> T a b r \<Longrightarrow> getTrueLoc2 F M junk (Some ms) (byte_region T a b) = Some (true_loc r)"
proof (induction rule: unmaps.induct)
  case (source T a b)
  then have "mappings_of ms T = None" using byte_stateD(1) [OF st] by blast
  then show ?case by (simp add: getTrueLoc2_source true_loc_def)
next
  case (hole T es a b)
  obtain arr where arr: "mappings_of ms T = Some arr" "es \<noteq> []" "list_ok es" "elems arr = array_of T es"
    using byte_stateD(2) [OF st hole(1)] by blast
  have "mappingList_extract F M (Some (byte_region T a b)) arr = Some (-1, None)"
    using mappingList_extract_byte [OF laws arr(4,3,2) hole(2,3), of F] hole(4) by simp
  then show ?case using getTrueLoc2_mapped [OF arr(1)] by (simp add: true_loc_def)
next
  case (mapped T es a b x S c d r)
  obtain arr where arr: "mappings_of ms T = Some arr" "es \<noteq> []" "list_ok es" "elems arr = array_of T es"
    using byte_stateD(2) [OF st mapped(1)] by blast
  have "mappingList_extract F M (Some (byte_region T a b)) arr = Some (1, Some (byte_region S c d))"
    using mappingList_extract_byte [OF laws arr(4,3,2) mapped(2,3), of F] mapped(4,5) by simp
  then have "getTrueLoc2 F M junk (Some ms) (byte_region T a b) =
      Option.bind (getTrueLoc2 F M junk (Some ms) (byte_region S c d)) (\<lambda>(retval, result).
        Some (retval, if retval \<noteq> 1 then None else result))"
    using getTrueLoc2_mapped [OF arr(1)] by simp
  then show ?case by (simp add: mapped.IH true_loc_def split: option.splits)
qed

lemma location_parts:
  "no_location\<lparr>start_line := 0, start_column := c, loc_filename := Some S\<rparr>\<lparr>end_line := 0, end_column := k\<rparr> = byte_location S c k"
  "no_location\<lparr>start_line := 0, start_column := c, loc_filename := Some S, end_line := 0, end_column := k\<rparr> = byte_location S c k"
  by (simp_all add: no_location_def byte_location_def)

text \<open>C9: the true location of a byte range: the start is the byte that unmapping of the first
  byte reaches. The end is reached from the last byte, but its length counts from the start of
  its own region, so that a copied range comes back with no length.\<close>

theorem getTrueLoc_of_bytes:
  assumes "parray_laws M elems" "byte_state elems ms \<sigma>" "0 < p" "0 < n + p - 1"
    "unmaps \<sigma> T p p (Some (S, c, d))" "unmaps \<sigma> T (n + p - 1) (n + p - 1) (Some (S', c', d'))"
  shows "getTrueLoc F M junk (Some ms) (Some (byte_location T p n)) = Some (1, Some (byte_location S c (d' - c')))"
proof -
  note unmap = getTrueLoc2_unmaps [OF assms(1,2), of _ _ _ _ F junk]
  show ?thesis
    using assms(3,4) unmap [OF assms(5)] unmap [OF assms(6)]
    by (simp add: getTrueLoc_def true_loc_def location_parts)
qed

lemma example_unmaps:
  "unmaps [''a.i'' \<mapsto> example_maps] ''a.i'' 21 21 (Some (''a.c'', 112, 112))"
  "unmaps [''a.i'' \<mapsto> example_maps] ''a.i'' 24 24 (Some (''a.c'', 115, 115))"
proof -
  have "moved (BMap 20 40 (byte_region ''a.c'' 111 131) COPY) 21 21 = byte_region ''a.c'' 112 112"
      "moved (BMap 20 40 (byte_region ''a.c'' 111 131) COPY) 24 24 = byte_region ''a.c'' 115 115"
    by (simp_all add: moved_def)
  moreover have "holder example_maps 21 21 = Some (BMap 20 40 (byte_region ''a.c'' 111 131) COPY)"
      "holder example_maps 24 24 = Some (BMap 20 40 (byte_region ''a.c'' 111 131) COPY)"
    by (simp_all add: holder_def example_maps_def)
  moreover have "unmaps [''a.i'' \<mapsto> example_maps] ''a.c'' c d (Some (''a.c'', c, d))" for c d
    by (rule unmaps.source) simp
  ultimately show "unmaps [''a.i'' \<mapsto> example_maps] ''a.i'' 21 21 (Some (''a.c'', 112, 112))"
      "unmaps [''a.i'' \<mapsto> example_maps] ''a.i'' 24 24 (Some (''a.c'', 115, 115))"
    using unmaps.mapped [of "[''a.i'' \<mapsto> example_maps]" "''a.i''" example_maps] by simp_all
qed

theorem getTrueLoc_of_bytes_witness:
  "getTrueLoc unread_files (list_parray None) no_location (Some example_mappers) (Some (byte_location ''a.i'' 21 4)) =
     Some (1, Some (byte_location ''a.c'' 112 0))"
  using getTrueLoc_of_bytes [where p = 21 and n = 4 and F = unread_files and junk = no_location, OF list_parray_laws example_state _ _
      example_unmaps(1)] example_unmaps(2) by simp

section \<open>Termination\<close>

lemma orderWith_byte_some: "\<exists>ord. orderWith F (byte_region T a b) (Some (conc T x)) = Some ord"
  by (simp add: orderWith_byte orderWith_conc)

text \<open>Whatever the region, extraction ends with nothing or with the image under an element.\<close>

lemma list_extract_ends:
  assumes laws: "parray_laws M elems" and arr: "elems arr = array_of T es" and ok: "list_ok es"
  shows "0 \<le> low \<Longrightarrow> low \<le> high \<Longrightarrow> high < int (length es) \<Longrightarrow>
    \<exists>r. list_extract F M (byte_region T a b) low high arr = Some r \<and> (\<forall>u. r = Some u \<longrightarrow> (\<exists>x\<in>set es. u = moved x a b))"
proof (induction "nat (high - low)" arbitrary: low high rule: less_induct)
  case less
  obtain mid where mid: "cquot2 (low + high) = int mid" "low \<le> int mid" "int mid \<le> high"
    using cquot2_between [OF less.prems(1,2)] less.prems(1) by (metis nonneg_int_cases order.trans)
  have len: "mid < length es" using mid less.prems by auto
  have at: "pa_at M arr (int mid) = Some (conc T (es ! mid))"
    using parray_lawsD(3) [OF laws, of "int mid" arr] len by (simp add: arr)
  have okm: "bmap_ok (es ! mid)" using ok len by (rule list_ok_nth)
  obtain ord where ord: "orderWith F (byte_region T a b) (Some (conc T (es ! mid))) = Some ord"
    using orderWith_byte_some by blast
  have step: "list_extract F M (byte_region T a b) low high arr =
      (if ord = IS_EXACTLY \<or> ord = IS_CONTAINED_IN then Some (Some (moved (es ! mid) a b))
       else if ord = PRECEDES then
         (if int mid - 1 < low then Some None else list_extract F M (byte_region T a b) low (int mid - 1) arr)
       else if ord = FOLLOWS then
         (if int mid + 1 > high then Some None else list_extract F M (byte_region T a b) (int mid + 1) high arr)
       else Some None)"
    using mid(1) at ord translate_region_conc [OF okm, of F T a b] by (subst list_extract.simps) (simp add: Let_def)
  have left: "\<not> int mid - 1 < low \<Longrightarrow> \<exists>r. list_extract F M (byte_region T a b) low (int mid - 1) arr = Some r \<and>
      (\<forall>u. r = Some u \<longrightarrow> (\<exists>x\<in>set es. u = moved x a b))"
    by (rule less.hyps) (use mid less.prems in auto)
  have right: "\<not> int mid + 1 > high \<Longrightarrow> \<exists>r. list_extract F M (byte_region T a b) (int mid + 1) high arr = Some r \<and>
      (\<forall>u. r = Some u \<longrightarrow> (\<exists>x\<in>set es. u = moved x a b))"
    by (rule less.hyps) (use mid less.prems in auto)
  show ?case using left right len unfolding step by (auto split: if_splits)
qed

lemma mappingList_extract_ends:
  assumes "parray_laws M elems" "elems arr = array_of T es" "list_ok es" "es \<noteq> []"
  shows "mappingList_extract F M (Some (byte_region T a b)) arr = Some (-1, None) \<or>
    (\<exists>x\<in>set es. mappingList_extract F M (Some (byte_region T a b)) arr = Some (1, Some (moved x a b)))"
proof -
  obtain r where "list_extract F M (byte_region T a b) 0 (pa_size M arr - 1) arr = Some r"
      "\<forall>u. r = Some u \<longrightarrow> (\<exists>x\<in>set es. u = moved x a b)"
    using list_extract_ends [OF assms(1-3), of 0 "pa_size M arr - 1" F a b] assms(4)
    unfolding parray_lawsD(2) [OF assms(1)] assms(2) by (auto simp: Suc_leI)
  then show ?thesis by (cases r) (auto simp: mappingList_extract_def)
qed

text \<open>Every mapping of a file comes from files of a lower rank: the includes have no cycle.\<close>

definition ranked :: "(string \<Rightarrow> nat) \<Rightarrow> file_maps \<Rightarrow> bool" where
  "ranked rank \<sigma> \<longleftrightarrow> (\<forall>T p t r. origin \<sigma> T p = Some (t, r) \<longrightarrow> (\<exists>S c d. r = byte_region S c d \<and> rank S < rank T))"

lemma byte_region_eq: "byte_region f a b = byte_region g c d \<longleftrightarrow> f = g \<and> a = c \<and> b = d"
  by (auto simp: byte_region_def position_bp_def)

lemma ranked_moved:
  assumes "ranked rank \<sigma>" "\<sigma> T = Some es" "list_ok es" "x \<in> set es"
  shows "\<exists>S c d. moved x a b = byte_region S c d \<and> rank S < rank T"
proof -
  have "covers x (lo x)" using list_ok_in [OF assms(3,4)] by (simp add: covers_def bmap_ok_def)
  then have "origin \<sigma> T (lo x) = Some (mtyp x, moved x (lo x) (lo x))"
    using lookup_in [OF assms(3,4)] assms(2) by (simp add: origin_def image_at_def)
  then obtain S c d where "moved x (lo x) (lo x) = byte_region S c d" "rank S < rank T"
    using assms(1) unfolding ranked_def by blast
  then show ?thesis by (cases "mtyp x = FIXED") (auto simp: moved_def byte_region_eq)
qed

lemma getTrueLoc2_ends:
  assumes laws: "parray_laws M elems" and st: "byte_state elems ms \<sigma>" and rank: "ranked rank \<sigma>"
  shows "\<exists>r. getTrueLoc2 F M junk (Some ms) (byte_region T a b) = Some (true_loc r)"
proof (induction "rank T" arbitrary: T a b rule: less_induct)
  case less
  show ?case
  proof (cases "\<sigma> T")
    case None
    then have "mappings_of ms T = None" using byte_stateD(1) [OF st] by blast
    then show ?thesis by (intro exI [of _ "Some (T, a, b)"]) (simp add: getTrueLoc2_source true_loc_def)
  next
    case (Some es)
    then obtain arr where arr: "mappings_of ms T = Some arr" "es \<noteq> []" "list_ok es" "elems arr = array_of T es"
      using byte_stateD(2) [OF st] by blast
    consider "mappingList_extract F M (Some (byte_region T a b)) arr = Some (-1, None)"
      | x where "x \<in> set es" "mappingList_extract F M (Some (byte_region T a b)) arr = Some (1, Some (moved x a b))"
      using mappingList_extract_ends [OF laws arr(4,3,2)] by blast
    then show ?thesis
    proof cases
      case 1
      then show ?thesis using getTrueLoc2_mapped [OF arr(1) 1] by (intro exI [of _ None]) (simp add: true_loc_def)
    next
      case 2
      then obtain S c d where m: "moved x a b = byte_region S c d" "rank S < rank T"
        using ranked_moved [OF rank Some arr(3)] by blast
      obtain r where r: "getTrueLoc2 F M junk (Some ms) (byte_region S c d) = Some (true_loc r)"
        using less.hyps [OF m(2)] by blast
      show ?thesis
        using getTrueLoc2_mapped [OF arr(1) 2(2)] m(1) r
        by (intro exI [of _ r]) (simp add: true_loc_def split: option.splits)
    qed
  qed
qed

text \<open>C8: when the mappings of no file lead back to it, through however many files, every byte
  location gets an answer: \<^verbatim>\<open>getTrueLoc\<close> returns and dereferences no null pointer.\<close>

theorem getTrueLoc_returns:
  assumes "parray_laws M elems" "byte_state elems ms \<sigma>" "ranked rank \<sigma>"
  shows "\<exists>retval result. getTrueLoc F M junk (Some ms) (Some (byte_location T p n)) = Some (retval, result)"
proof -
  obtain r1 r2 where r: "getTrueLoc2 F M junk (Some ms) (byte_region T p p) = Some (true_loc r1)"
      "getTrueLoc2 F M junk (Some ms) (byte_region T (n + p - 1) (n + p - 1)) = Some (true_loc r2)"
    using getTrueLoc2_ends [OF assms] by metis
  then show ?thesis
    by (cases r1; cases r2) (auto simp: getTrueLoc_def true_loc_def Let_def)
qed

theorem getTrueLoc_returns_witness:
  "\<exists>retval result. getTrueLoc unread_files (list_parray None) no_location (Some example_mappers)
     (Some (byte_location ''a.i'' 15 3)) = Some (retval, result)"
proof -
  have "ranked (\<lambda>f. if f = ''a.i'' then 1 else 0) [''a.i'' \<mapsto> example_maps]"
    by (auto simp: ranked_def origin_def example_maps_def image_at_def moved_def byte_region_eq split: if_splits)
  then show ?thesis by (rule getTrueLoc_returns [OF list_parray_laws example_state])
qed

text \<open>One call: a crash, a result, or the region of the recursive call.\<close>

definition one_call ::
  "file_view \<Rightarrow> (mapping option, 'arr) parray_ops \<Rightarrow> location \<Rightarrow> 'arr mapper_set \<Rightarrow> region \<Rightarrow>
   (int \<times> location option + region) option" where
  "one_call F M junk cm reg =
     Option.bind (from_file reg) (\<lambda>f.
     Option.bind (findMapper (Some f) cm) (\<lambda>m.
       case Option.bind m mappings of
         None \<Rightarrow> Some (Inl (1, Some (location_of_region junk reg)))
       | Some ml \<Rightarrow>
           Option.bind (mappingList_extract F M (Some reg) ml) (\<lambda>(r, unmapped_reg).
             if r \<ge> 0 then (case unmapped_reg of
                 None \<Rightarrow> Some (Inl (1, Some (location_of_region junk reg)))
               | Some u \<Rightarrow> Some (Inr u))
             else Some (Inl (-1, None)))))"

definition passed_on :: "int \<times> location option \<Rightarrow> int \<times> location option" where
  "passed_on z = (fst z, if fst z \<noteq> 1 then None else snd z)"

lemma one_call_rec:
  "Option.bind (from_file reg) (\<lambda>fa. Option.bind (findMapper (Some fa) cm) (\<lambda>m.
     case Option.bind m mappings of None \<Rightarrow> Some (1, Some (location_of_region junk reg))
     | Some ml \<Rightarrow> Option.bind (mappingList_extract F M (Some reg) ml) (\<lambda>(r, unmapped_reg).
         if r \<ge> 0 then (case unmapped_reg of
             None \<Rightarrow> Some (1, Some (location_of_region junk reg))
           | Some u \<Rightarrow> Option.bind (g u) (\<lambda>(retval, result). Some (retval, if retval \<noteq> 1 then None else result)))
         else Some (-1, None)))) =
   Option.bind (one_call F M junk cm reg) (case_sum Some (\<lambda>u. map_option passed_on (g u)))"
  by (auto simp: one_call_def passed_on_def map_option_case split: Option.bind_split option.split)

lemma getTrueLoc2_call:
  "getTrueLoc2 F M junk cm reg =
     Option.bind (one_call F M junk cm reg) (case_sum Some (\<lambda>u. map_option passed_on (getTrueLoc2 F M junk cm u)))"
  by (subst getTrueLoc2.simps) (rule one_call_rec)

lemma getTrueLoc2_calls_call:
  "getTrueLoc2_calls (Suc n) F M junk cm reg =
     (case one_call F M junk cm reg of
        None \<Rightarrow> Crashed
      | Some (Inl z) \<Rightarrow> Returned z
      | Some (Inr u) \<Rightarrow> outcome_bind (getTrueLoc2_calls n F M junk cm u) (\<lambda>z. Returned (passed_on z)))"
  by (auto simp: one_call_def passed_on_def case_prod_unfold split: Option.bind_split option.split)

text \<open>The calls with a bound on their depth have the same results, with any greater bound as well.\<close>

lemma getTrueLoc2_calls_more:
  "getTrueLoc2_calls n F M junk cm reg = Returned y \<Longrightarrow> n \<le> k \<Longrightarrow> getTrueLoc2_calls k F M junk cm reg = Returned y"
proof (induction n arbitrary: k reg y)
  case (Suc n)
  then obtain l where k: "k = Suc l" "n \<le> l" by (cases k) auto
  show ?case
    using Suc.prems(1) unfolding k(1) getTrueLoc2_calls_call
    by (auto simp: outcome_bind_Returned split: option.splits sum.splits dest: Suc.IH [OF _ k(2)])
qed simp

lemma getTrueLoc2_calls_returned:
  "getTrueLoc2_calls n F M junk cm reg = Returned y \<Longrightarrow> getTrueLoc2 F M junk cm reg = Some y"
proof (induction n arbitrary: reg y)
  case (Suc n)
  show ?case
    using Suc.prems unfolding getTrueLoc2_calls_call getTrueLoc2_call [of _ _ _ _ reg]
    by (auto simp: outcome_bind_Returned split: option.splits sum.splits dest: Suc.IH)
qed simp

lemma getTrueLoc2_calls_enough:
  assumes "getTrueLoc2 F M junk cm reg = Some y"
  shows "\<exists>n. getTrueLoc2_calls n F M junk cm reg = Returned y"
  using assms
proof (rule getTrueLoc2.raw_induct [where P = "\<lambda>F M junk cm reg y. \<exists>n. getTrueLoc2_calls n F M junk cm reg = Returned y", rotated])
  fix f F M junk cm reg y
  assume IH: "\<And>F M junk cm reg y. f F M junk cm reg = Some y \<Longrightarrow> \<exists>n. getTrueLoc2_calls n F M junk cm reg = Returned y"
    and r: "Option.bind (from_file reg) (\<lambda>fa. Option.bind (findMapper (Some fa) cm) (\<lambda>m.
       case Option.bind m mappings of None \<Rightarrow> Some (1, Some (location_of_region junk reg))
       | Some ml \<Rightarrow> Option.bind (mappingList_extract F M (Some reg) ml) (\<lambda>(r, unmapped_reg).
           if r \<ge> 0 then (case unmapped_reg of
               None \<Rightarrow> Some (1, Some (location_of_region junk reg))
             | Some u \<Rightarrow> Option.bind (f F M junk cm u) (\<lambda>(retval, result). Some (retval, if retval \<noteq> 1 then None else result)))
           else Some (-1, None)))) = Some y"
  then obtain c where c: "one_call F M junk cm reg = Some c" "case_sum Some (\<lambda>u. map_option passed_on (f F M junk cm u)) c = Some y"
    unfolding one_call_rec bind_eq_Some_conv by blast
  show "\<exists>n. getTrueLoc2_calls n F M junk cm reg = Returned y"
  proof (cases c)
    case (Inl z)
    then have "getTrueLoc2_calls (Suc 0) F M junk cm reg = Returned y" unfolding getTrueLoc2_calls_call using c by simp
    then show ?thesis ..
  next
    case (Inr u)
    then obtain z where z: "f F M junk cm u = Some z" "y = passed_on z" using c by auto
    then obtain n where "getTrueLoc2_calls n F M junk cm u = Returned z" using IH by blast
    then have "getTrueLoc2_calls (Suc n) F M junk cm reg = Returned y" unfolding getTrueLoc2_calls_call using c(1) Inr z by simp
    then show ?thesis ..
  qed
qed

theorem getTrueLoc_calls_iff:
  "getTrueLoc F M junk cm l = Some y \<longleftrightarrow> (\<exists>n. getTrueLoc_calls n F M junk cm l = Returned y)"
proof (cases l)
  case None
  then show ?thesis by (auto simp: getTrueLoc_def getTrueLoc_calls_def)
next
  case (Some a)
  let ?p1 = "position_of_location F (Some a) START" and ?p2 = "position_of_location F (Some a) END"
  let ?r1 = "region_of_positions (Some ?p1) (Some ?p1)" and ?r2 = "region_of_positions (Some ?p2) (Some ?p2)"
  show ?thesis
    unfolding Some
  proof
    assume r: "getTrueLoc F M junk cm (Some a) = Some y"
    have e1: "\<exists>n. \<forall>z. getTrueLoc2 F M junk cm reg = Some z \<longrightarrow> getTrueLoc2_calls n F M junk cm reg = Returned z" for reg
      using getTrueLoc2_calls_enough [of F M junk cm reg] by (cases "getTrueLoc2 F M junk cm reg") auto
    obtain n1 where n1: "\<And>z. getTrueLoc2 F M junk cm ?r1 = Some z \<Longrightarrow> getTrueLoc2_calls n1 F M junk cm ?r1 = Returned z" using e1 by blast
    obtain n2 where n2: "\<And>z. getTrueLoc2 F M junk cm ?r2 = Some z \<Longrightarrow> getTrueLoc2_calls n2 F M junk cm ?r2 = Returned z" using e1 by blast
    have "getTrueLoc2 F M junk cm ?r1 = Some z \<Longrightarrow> getTrueLoc2_calls (max n1 n2) F M junk cm ?r1 = Returned z"
        "getTrueLoc2 F M junk cm ?r2 = Some z \<Longrightarrow> getTrueLoc2_calls (max n1 n2) F M junk cm ?r2 = Returned z" for z
      using getTrueLoc2_calls_more [OF n1, of z "max n1 n2"] getTrueLoc2_calls_more [OF n2, of z "max n1 n2"] by simp_all
    then have "getTrueLoc_calls (max n1 n2) F M junk cm (Some a) = Returned y"
      using r by (auto simp: getTrueLoc_def getTrueLoc_calls_def Let_def bind_eq_Some_conv split: if_splits prod.splits option.splits)
    then show "\<exists>n. getTrueLoc_calls n F M junk cm (Some a) = Returned y" ..
  next
    assume "\<exists>n. getTrueLoc_calls n F M junk cm (Some a) = Returned y"
    then show "getTrueLoc F M junk cm (Some a) = Some y"
      by (auto simp: getTrueLoc_def getTrueLoc_calls_def Let_def outcome_bind_Returned
          dest!: getTrueLoc2_calls_returned split: if_splits prod.splits option.splits)
  qed
qed

lemma getTrueLoc2_calls_self:
  assumes laws: "parray_laws M elems" and st: "byte_state elems ms \<sigma>" and p: "0 < p"
    and self: "origin \<sigma> T p = Some (t, byte_region T p p)"
  shows "getTrueLoc2_calls n F M junk (Some ms) (byte_region T p p) = Running"
proof -
  obtain es where es: "\<sigma> T = Some es" "lookup es p = Some (t, byte_region T p p)"
    using self by (auto simp: origin_def split: option.splits)
  obtain arr where arr: "mappings_of ms T = Some arr" "es \<noteq> []" "list_ok es" "elems arr = array_of T es"
    using byte_stateD(2) [OF st es(1)] by blast
  obtain x where x: "holder es p p = Some x" "moved x p p = byte_region T p p"
    using es(2) holder_byte [of es p] by (auto simp: image_at_def)
  have ext: "mappingList_extract F M (Some (byte_region T p p)) arr = Some (1, Some (byte_region T p p))"
    using mappingList_extract_byte [OF laws arr(4,3,2) p order.refl, of F] x by simp
  obtain m where "findMapper (Some T) (Some ms) = Some m" "Option.bind m mappings = Some arr"
    using findMapper_mappings [of T ms] arr(1) by metis
  then show ?thesis using ext by (induction n) simp_all
qed

text \<open>C12: when a byte is mapped to itself, as by a line directive that names its own file,
  \<^verbatim>\<open>getTrueLoc\<close> recurses without end: however deep the calls may go, none of them crashes or returns.\<close>

theorem self_mapping_never_returns:
  assumes "parray_laws M elems" "byte_state elems ms \<sigma>" "0 < p" "origin \<sigma> T p = Some (t, byte_region T p p)"
  shows "(\<forall>k. getTrueLoc_calls k F M junk (Some ms) (Some (byte_location T p n)) = Running) \<and>
    getTrueLoc F M junk (Some ms) (Some (byte_location T p n)) = None"
proof -
  have c: "getTrueLoc_calls k F M junk (Some ms) (Some (byte_location T p n)) = Running" for k
    using getTrueLoc2_calls_self [OF assms, of k F junk] assms(3) by (simp add: getTrueLoc_calls_def)
  then have "getTrueLoc F M junk (Some ms) (Some (byte_location T p n)) \<noteq> Some y" for y
    unfolding getTrueLoc_calls_iff by simp
  then have "getTrueLoc F M junk (Some ms) (Some (byte_location T p n)) = None" by (metis not_None_eq)
  then show ?thesis using c by blast
qed

theorem self_mapping_never_returns_witness:
  "getTrueLoc_calls 1000 unread_files (list_parray None) no_location
     (Some [\<lparr>forFile = Some ''a.c'', mappings = Some (array_of ''a.c'' [BMap 1 9 (byte_region ''a.c'' 1 9) COPY])\<rparr>])
     (Some (byte_location ''a.c'' 4 1)) = Running"
proof -
  have ok: "list_ok [BMap 1 9 (byte_region ''a.c'' 1 9) COPY]" by (auto simp: list_ok_def bmap_ok_def)
  have st: "byte_state (\<lambda>a. a) [\<lparr>forFile = Some ''a.c'', mappings = Some (array_of ''a.c'' [BMap 1 9 (byte_region ''a.c'' 1 9) COPY])\<rparr>]
      [''a.c'' \<mapsto> [BMap 1 9 (byte_region ''a.c'' 1 9) COPY]]"
    unfolding byte_state_def mappings_of_def using ok by auto
  have "origin [''a.c'' \<mapsto> [BMap 1 9 (byte_region ''a.c'' 1 9) COPY]] ''a.c'' 4 = Some (COPY, byte_region ''a.c'' 4 4)"
    by (simp add: origin_def covers_def image_at_def moved_def)
  then show ?thesis using self_mapping_never_returns [OF list_parray_laws st, of 4] by simp
qed

text \<open>When the start of a location cannot be unmapped and its end can, the call reports
  success with a location that has no file.\<close>

theorem failed_start_is_masked:
  assumes "parray_laws M elems" "byte_state elems ms \<sigma>" "0 < p" "0 < n + p - 1"
    "unmaps \<sigma> T p p None" "unmaps \<sigma> T (n + p - 1) (n + p - 1) (Some (S, c, d))"
  shows "getTrueLoc F M junk (Some ms) (Some (byte_location T p n)) =
    Some (1, Some (no_location\<lparr>end_column := d - c\<rparr>))"
proof -
  note unmap = getTrueLoc2_unmaps [OF assms(1,2), of _ _ _ _ F junk]
  show ?thesis
    using assms(3,4) unmap [OF assms(5)] unmap [OF assms(6)]
    by (simp add: getTrueLoc_def true_loc_def no_location_def)
qed

theorem failed_start_is_masked_witness:
  "getTrueLoc unread_files (list_parray None) no_location (Some example_mappers) (Some (byte_location ''a.i'' 18 7)) =
     Some (1, Some no_location)"
proof -
  have "holder example_maps 18 18 = None" by (simp add: holder_def example_maps_def)
  then have "unmaps [''a.i'' \<mapsto> example_maps] ''a.i'' 18 18 None" by (intro unmaps.hole [of _ _ example_maps]) simp_all
  then show ?thesis
    using failed_start_is_masked [where p = 18 and n = 7 and F = unread_files and junk = no_location, OF list_parray_laws example_state _ _ _ ]
      example_unmaps(2) by (simp add: no_location_def)
qed

end
