(* ===== verification/Gen_Mask.thy ===== *)
theory Gen_Mask
  imports Prelude
begin

text \<open>
  The class \<^verbatim>\<open>genMask\<close> of \<^verbatim>\<open>libs/gen\<close>: sets of integers below 65536 as arrays of bits. The
  type \<open>'w word\<close> is the machine's \<^verbatim>\<open>unsigned long\<close>: its length is \<^verbatim>\<open>_ulbits\<close>. The argument
  \<open>fresh\<close> is the content of newly allocated memory. Capacities stay below \<open>2 ^ 17\<close>, so that
  they are natural numbers here. Reads and writes of a single mask are inside of its array, by
  its invariant and the tests of the code; \<open>None\<close> is a write outside of it.
\<close>

section \<open>State\<close>

type_synonym i32 = "32 word"

record 'a genMask =
  cap :: nat
  nwords :: nat
  mask :: "'a list"

text \<open>The loop that doubles the number of words; the code calls it with at least one word.\<close>

function grow :: "nat \<Rightarrow> nat \<Rightarrow> nat" where
  "grow g w = (if w < g \<and> 0 < w then grow g (2 * w) else w)"
  by pat_completeness auto
termination
  by (relation "measure (\<lambda>(g, w). g - w)") auto

declare grow.simps [simp del]

definition provide :: "(nat \<Rightarrow> 'w::len word) \<Rightarrow> nat \<Rightarrow> bool \<Rightarrow> 'w word genMask \<Rightarrow> 'w word genMask" where
  "provide fresh rng clr m =
     (if rng > cap m then
        (let g = (rng + LENGTH('w) - 1) div LENGTH('w);
             w = grow g (if nwords m < 1 then 1 else nwords m)
         in m\<lparr>mask := mask m @ map (\<lambda>i. if clr then 0 else fresh i) [nwords m..<w],
              nwords := w, cap := w * LENGTH('w)\<rparr>)
      else m)"

definition no_mask :: "'w::len word genMask" where
  "no_mask = \<lparr>cap = 0, nwords = 0, mask = []\<rparr>"

definition low16 :: "u32 \<Rightarrow> nat" where
  "low16 value = unat (value AND 0xffff)"

definition genMask_new :: "(nat \<Rightarrow> 'w::len word) \<Rightarrow> u32 \<Rightarrow> bool \<Rightarrow> 'w word genMask" where
  "genMask_new fresh rng clr =
     (let r = low16 rng in provide fresh (if r < 1 then 1 else r) clr no_mask)"

text \<open>The words of \<open>s\<close>, and zero in the words beyond them.\<close>

definition genMask_assign :: "(nat \<Rightarrow> 'w::len word) \<Rightarrow> 'w word genMask \<Rightarrow> 'w word genMask \<Rightarrow> 'w word genMask" where
  "genMask_assign fresh this s =
     (let m = provide fresh (cap s) False this
      in m\<lparr>mask := take (nwords s) (mask s) @
             (if nwords m > nwords s then replicate (nwords m - nwords s) 0 else [])\<rparr>)"

definition genMask_copy :: "(nat \<Rightarrow> 'w::len word) \<Rightarrow> 'w word genMask \<Rightarrow> 'w word genMask" where
  "genMask_copy fresh s = genMask_assign fresh no_mask s"

section \<open>Elements\<close>

definition mask_add :: "(nat \<Rightarrow> 'w::len word) \<Rightarrow> u32 \<Rightarrow> 'w word genMask \<Rightarrow> 'w word genMask" where
  "mask_add fresh value m =
     (let v = low16 value; m' = provide fresh (v + 1) True m; i = v div LENGTH('w)
      in m'\<lparr>mask := (mask m')[i := (mask m' ! i) OR push_bit (v mod LENGTH('w)) 1]\<rparr>)"

definition mask_remove :: "u32 \<Rightarrow> 'w::len word genMask \<Rightarrow> 'w word genMask" where
  "mask_remove value m =
     (let v = low16 value; i = v div LENGTH('w)
      in if v < cap m then m\<lparr>mask := (mask m)[i := (mask m ! i) AND NOT (push_bit (v mod LENGTH('w)) 1)]\<rparr> else m)"

definition mask_clear :: "'w::len word genMask \<Rightarrow> 'w word genMask" where
  "mask_clear m = m\<lparr>mask := replicate (nwords m) 0\<rparr>"

text \<open>The bits are converted to the result type \<^verbatim>\<open>int\<close> of 32 bits.\<close>

definition mask_includes :: "u32 \<Rightarrow> 'w::len word genMask \<Rightarrow> i32" where
  "mask_includes value m =
     (let v = low16 value
      in if v < cap m then ucast ((mask m ! (v div LENGTH('w))) AND push_bit (v mod LENGTH('w)) 1) else 0)"

section \<open>Whole sets\<close>

definition mask_add_all :: "(nat \<Rightarrow> 'w::len word) \<Rightarrow> 'w word genMask \<Rightarrow> 'w word genMask \<Rightarrow> 'w word genMask" where
  "mask_add_all fresh other this =
     (let m = provide fresh (cap other) True this
      in m\<lparr>mask := foldl (\<lambda>xs i. xs[i := (xs ! i) OR (mask other ! i)]) (mask m) [0..<nwords other]\<rparr>)"

definition mask_remove_all :: "'w::len word genMask \<Rightarrow> 'w word genMask \<Rightarrow> 'w word genMask" where
  "mask_remove_all other this =
     (let w = (if nwords this < nwords other then nwords this else nwords other)
      in this\<lparr>mask := foldl (\<lambda>xs i. xs[i := (xs ! i) AND NOT (mask other ! i)]) (mask this) [0..<w]\<rparr>)"

definition mask_retain_all :: "'w::len word genMask \<Rightarrow> 'w word genMask \<Rightarrow> 'w word genMask" where
  "mask_retain_all o_mask this =
     (if nwords this > nwords o_mask then
        this\<lparr>mask := take (nwords o_mask)
               (foldl (\<lambda>xs i. xs[i := (xs ! i) AND (mask o_mask ! i)]) (mask this) [0..<nwords o_mask]) @
             replicate (nwords this - nwords o_mask) 0\<rparr>
      else this\<lparr>mask := foldl (\<lambda>xs i. xs[i := (xs ! i) AND (mask o_mask ! i)]) (mask this) [0..<nwords this]\<rparr>)"

lemma unat_shifted_less: "k \<noteq> 0 \<Longrightarrow> unat (drop_bit 1 k) < unat k" for k :: "'w::len word"
proof -
  assume "k \<noteq> 0"
  then have "0 < unat k" by (simp add: unat_gt_0)
  moreover have "unat (drop_bit 1 k) = unat k div 2 ^ 1" by (metis unat_drop_bit_eq drop_bit_eq_div)
  ultimately show ?thesis by simp
qed

lemma bit_in_word: "push_bit c (1 :: 'w::len word) \<noteq> 0 \<Longrightarrow> c < LENGTH('w)"
  by (metis not_less push_bit_word_beyond)

text \<open>The inner loop of \<^verbatim>\<open>pop\<close>, for a word that is not zero.\<close>

function low_bit :: "'w::len word \<Rightarrow> nat \<Rightarrow> nat" where
  "low_bit k j = (if k AND 1 = 0 \<and> k \<noteq> 0 then low_bit (drop_bit 1 k) (j + 1) else j)"
  by pat_completeness auto
termination
  by (relation "measure (\<lambda>(k, j). unat k)") (simp_all add: unat_shifted_less del: One_nat_def drop_bit_Suc)

declare low_bit.simps [simp del]

function pop_from :: "'w::len word genMask \<Rightarrow> nat \<Rightarrow> int \<times> 'w word genMask" where
  "pop_from m i =
     (if i < nwords m then
        (let k = mask m ! i
         in if k \<noteq> 0 then
              (let j = low_bit k 0
               in (int (i * LENGTH('w) + j), m\<lparr>mask := (mask m)[i := k AND NOT (push_bit j 1)]\<rparr>))
            else pop_from m (i + 1))
      else (-1, m))"
  by pat_completeness auto
termination
  by (relation "measure (\<lambda>(m, i). nwords m - i)") auto

declare pop_from.simps [simp del]

definition mask_pop :: "'w::len word genMask \<Rightarrow> int \<times> 'w word genMask" where
  "mask_pop m = pop_from m 0"

text \<open>The inner loop of \<^verbatim>\<open>peek\<close>: its \<^verbatim>\<open>m\<close> is \<^verbatim>\<open>1UL << c\<close>, which is 0 past the last bit.\<close>

function scan_bits :: "'w::len word \<Rightarrow> nat \<Rightarrow> nat" where
  "scan_bits k c =
     (let m = push_bit c 1 in if m \<noteq> 0 \<and> k AND m = 0 then scan_bits k (c + 1) else c)"
  by pat_completeness auto
termination
  by (relation "measure (\<lambda>(k, c). size k - c)") (auto simp: word_size)

declare scan_bits.simps [simp del]

function peek_from :: "'w::len word genMask \<Rightarrow> nat \<Rightarrow> nat \<Rightarrow> int" where
  "peek_from m i c =
     (if i < nwords m then
        (let k = mask m ! i
         in if k \<noteq> 0 then
              (let c' = scan_bits k c
               in if push_bit c' (1 :: 'w word) \<noteq> 0 then int (i * LENGTH('w) + c') else peek_from m (i + 1) 0)
            else peek_from m (i + 1) 0)
      else -1)"
  by pat_completeness auto
termination
  by (relation "measure (\<lambda>(m, i, c). nwords m - i)") auto

declare peek_from.simps [simp del]

definition mask_peek :: "int \<Rightarrow> 'w::len word genMask \<Rightarrow> int" where
  "mask_peek prev m =
     (let p = nat ((if prev < -1 then -1 else prev) + 1)
      in peek_from m (p div LENGTH('w)) (p mod LENGTH('w)))"

definition mask_empty :: "'w::len word genMask \<Rightarrow> bool" where
  "mask_empty m \<longleftrightarrow> list_all (\<lambda>i. mask m ! i = 0) [0..<nwords m]"

definition mask_equals :: "'w::len word genMask \<Rightarrow> 'w word genMask \<Rightarrow> bool" where
  "mask_equals this other \<longleftrightarrow>
     (let (little, big) = (if nwords this < nwords other then (this, other) else (other, this))
      in list_all (\<lambda>i. mask little ! i = mask big ! i) [0..<nwords little] \<and>
         list_all (\<lambda>i. mask big ! i = 0) [nwords little..<nwords big])"

definition mask_differs :: "'w::len word genMask \<Rightarrow> 'w word genMask \<Rightarrow> bool" where
  "mask_differs this other \<longleftrightarrow>
     (let (little, big) = (if nwords this < nwords other then (this, other) else (other, this))
      in \<not> list_all (\<lambda>i. mask little ! i = mask big ! i) [0..<nwords little] \<or>
         \<not> list_all (\<lambda>i. mask big ! i = 0) [nwords little..<nwords big])"

definition mask_difference :: "(nat \<Rightarrow> 'w::len word) \<Rightarrow> 'w word genMask \<Rightarrow> 'w word genMask \<Rightarrow> 'w word genMask" where
  "mask_difference fresh a b =
     (let w = (if nwords a < nwords b then nwords a else nwords b); temp = genMask_copy fresh a
      in temp\<lparr>mask := foldl (\<lambda>xs i. xs[i := (xs ! i) AND NOT (mask b ! i)]) (mask temp) [0..<w]\<rparr>)"

definition mask_intersection :: "(nat \<Rightarrow> 'w::len word) \<Rightarrow> 'w word genMask \<Rightarrow> 'w word genMask \<Rightarrow> 'w word genMask" where
  "mask_intersection fresh a b =
     (let (little, big) = (if nwords a < nwords b then (a, b) else (b, a)); temp = genMask_copy fresh little
      in temp\<lparr>mask := foldl (\<lambda>xs i. xs[i := (xs ! i) AND (mask big ! i)]) (mask temp) [0..<nwords temp]\<rparr>)"

text \<open>The new set gets the capacity of the big one in 16 bits, and is written without a test.\<close>

definition put :: "nat \<Rightarrow> 'a \<Rightarrow> 'a list \<Rightarrow> 'a list option" where
  "put i x xs = (if i < length xs then Some (xs[i := x]) else None)"

definition mask_union :: "(nat \<Rightarrow> 'w::len word) \<Rightarrow> 'w word genMask \<Rightarrow> 'w word genMask \<Rightarrow> 'w word genMask option" where
  "mask_union fresh a b =
     (let (little, big) = (if nwords a < nwords b then (a, b) else (b, a));
          temp = genMask_new fresh (of_nat (cap big)) False
      in map_option (\<lambda>xs. temp\<lparr>mask := xs\<rparr>)
           (foldl (\<lambda>r i. Option.bind r (put i (if i < nwords little then (mask a ! i) OR (mask b ! i) else mask big ! i)))
              (Some (mask temp)) [0..<nwords big]))"

end
