(* ===== verification/Mask_Refinement.thy ===== *)
theory Mask_Refinement
  imports Gen_Mask
begin

text \<open>
  What \<^verbatim>\<open>genMask\<close> promises: its operations are those of a finite set of natural numbers. The
  locale \<open>ordered_set\<close> is what its clients rely on when they run through a set with \<^verbatim>\<open>peek\<close>
  or empty it with \<^verbatim>\<open>pop\<close>; \<open>mask\<close> interprets it on the model.
\<close>

section \<open>Bits of an array of words\<close>

definition bit_at :: "'w::len word list \<Rightarrow> nat \<Rightarrow> bool" where
  "bit_at xs v \<longleftrightarrow> v div LENGTH('w) < length xs \<and> bit (xs ! (v div LENGTH('w))) (v mod LENGTH('w))"

definition mask_inv :: "'w::len word genMask \<Rightarrow> bool" where
  "mask_inv m \<longleftrightarrow> length (mask m) = nwords m \<and> cap m = nwords m * LENGTH('w)"

definition els :: "'w::len word genMask \<Rightarrow> nat set" where
  "els m = {v. bit_at (mask m) v}"

lemma els_iff: "v \<in> els m \<longleftrightarrow> bit_at (mask m) v"
  by (simp add: els_def)

lemma below_cap: "mask_inv m \<Longrightarrow> v < cap m \<longleftrightarrow> v div LENGTH('w) < nwords m" for m :: "'w::len word genMask"
  by (simp add: mask_inv_def div_less_iff_less_mult)

lemma els_below: "mask_inv m \<Longrightarrow> v \<in> els m \<Longrightarrow> v < cap m"
  using below_cap [of m v] by (auto simp: els_def bit_at_def mask_inv_def)

lemma finite_els: "mask_inv m \<Longrightarrow> finite (els m)"
  by (rule finite_subset [of _ "{..<cap m}"]) (auto dest: els_below)

lemma bit_at_append_zeros: "bit_at (xs @ replicate n 0) v \<longleftrightarrow> bit_at xs v"
  by (auto simp: bit_at_def nth_append)

lemma bit_at_word: "n < LENGTH('w) \<Longrightarrow> bit_at xs (i * LENGTH('w) + n) \<longleftrightarrow> i < length xs \<and> bit (xs ! i) n"
  for xs :: "'w::len word list"
  by (simp add: bit_at_def)

text \<open>A loop that rewrites the words below \<open>n\<close>.\<close>

lemma foldl_update:
  "n \<le> length xs \<Longrightarrow> foldl (\<lambda>xs i. xs[i := f i (xs ! i)]) xs [0..<n] =
     map (\<lambda>i. if i < n then f i (xs ! i) else xs ! i) [0..<length xs]"
proof (induction n)
  case 0
  show ?case by (simp add: map_nth)
next
  case (Suc n)
  then show ?case by (auto intro!: nth_equalityI simp: nth_list_update less_Suc_eq)
qed

lemma bit_at_rewritten:
  "bit_at (map (\<lambda>i. if i < n then f i (xs ! i) else xs ! i) [0..<length xs]) v \<longleftrightarrow>
     (if v div LENGTH('w) < n then v div LENGTH('w) < length xs \<and> bit (f (v div LENGTH('w)) (xs ! (v div LENGTH('w)))) (v mod LENGTH('w))
      else bit_at xs v)"
  for xs :: "'w::len word list"
  by (auto simp: bit_at_def)

section \<open>Room for a range\<close>

lemma grow_ge: "w \<le> grow g w" "0 < w \<Longrightarrow> g \<le> grow g w"
proof -
  have "w \<le> grow g w \<and> (0 < w \<longrightarrow> g \<le> grow g w)"
  proof (induction g w rule: grow.induct)
    case (1 g w)
    show ?case
    proof (cases "w < g \<and> 0 < w")
      case True
      then show ?thesis using 1 by (subst (1 2) grow.simps) simp
    next
      case False
      then show ?thesis by (subst (1 2) grow.simps) auto
    qed
  qed
  then show "w \<le> grow g w" "0 < w \<Longrightarrow> g \<le> grow g w" by auto
qed

lemma provide_facts:
  fixes m :: "'w::len word genMask"
  assumes "mask_inv m"
  shows "mask_inv (provide fresh rng clr m)"
    and "rng \<le> cap (provide fresh rng clr m)"
    and "nwords m \<le> nwords (provide fresh rng clr m)"
    and "\<exists>zs. mask (provide fresh rng clr m) = mask m @ zs \<and> (clr \<longrightarrow> zs = replicate (length zs) 0)"
proof -
  let ?L = "LENGTH('w)"
  define g where "g = (rng + ?L - 1) div ?L"
  define w where "w = grow g (if nwords m < 1 then 1 else nwords m)"
  have w: "nwords m \<le> w" "g \<le> w"
    unfolding w_def using grow_ge(1) [of "nwords m" g] grow_ge(1) [of 1 g] grow_ge(2) [of 1 g] grow_ge(2) [of "nwords m" g] by auto
  have "rng \<le> g * ?L"
  proof -
    have "rng + ?L - 1 < g * ?L + ?L"
      unfolding g_def using dividend_less_times_div [of ?L "rng + ?L - 1"] by (simp add: mult.commute)
    then show ?thesis by simp
  qed
  then have room: "rng \<le> w * ?L" using w(2) by (meson le_trans mult_le_mono1)
  have eq: "provide fresh rng clr m =
      (if rng > cap m then m\<lparr>mask := mask m @ map (\<lambda>i. if clr then 0 else fresh i) [nwords m..<w], nwords := w, cap := w * ?L\<rparr> else m)"
    by (simp add: provide_def g_def w_def Let_def)
  show "mask_inv (provide fresh rng clr m)" "rng \<le> cap (provide fresh rng clr m)"
      "nwords m \<le> nwords (provide fresh rng clr m)"
    using assms w(1) room by (auto simp: eq mask_inv_def)
  show "\<exists>zs. mask (provide fresh rng clr m) = mask m @ zs \<and> (clr \<longrightarrow> zs = replicate (length zs) 0)"
  proof (cases "rng > cap m")
    case True
    then show ?thesis
      by (intro exI [of _ "map (\<lambda>i. if clr then 0 else fresh i) [nwords m..<w]"]) (auto simp: eq map_replicate_const)
  next
    case False
    then show ?thesis by (intro exI [of _ "[]"]) (simp add: eq)
  qed
qed

lemma provide_els: "mask_inv m \<Longrightarrow> els (provide fresh rng True m) = els m"
proof -
  assume "mask_inv m"
  then obtain zs where "mask (provide fresh rng True m) = mask m @ zs" "zs = replicate (length zs) 0"
    using provide_facts(4) [of m fresh rng True] by auto
  then have "mask (provide fresh rng True m) = mask m @ replicate (length zs) 0" by metis
  then show ?thesis by (simp add: els_def bit_at_append_zeros)
qed

lemma no_mask_inv: "mask_inv no_mask"
  by (simp add: mask_inv_def no_mask_def)

lemma new_mask:
  fixes fresh :: "nat \<Rightarrow> 'w::len word"
  shows "mask_inv (genMask_new fresh rng clr)" "els (genMask_new fresh rng True) = {}"
proof -
  show "mask_inv (genMask_new fresh rng clr)"
    unfolding genMask_new_def Let_def by (rule provide_facts(1) [OF no_mask_inv])
  have "els (no_mask :: 'w word genMask) = {}" by (simp add: els_def bit_at_def no_mask_def)
  then show "els (genMask_new fresh rng True) = {}"
    unfolding genMask_new_def Let_def by (simp add: provide_els [OF no_mask_inv])
qed

section \<open>Elements\<close>

lemma low16_mod: "low16 value = unat value mod 65536"
proof -
  have "value AND 0xffff = take_bit 16 value" by (simp add: take_bit_eq_mask mask_eq_exp_minus_1)
  then have "low16 value = take_bit 16 (unat value)" by (simp only: low16_def unsigned_take_bit_eq)
  then show ?thesis by (simp add: take_bit_eq_mod)
qed

lemma low16_less: "low16 value < 65536"
  by (simp add: low16_mod)

lemma bit_single: "n < LENGTH('w) \<Longrightarrow> bit (push_bit j (1 :: 'w::len word)) n \<longleftrightarrow> j = n"
  by (auto simp: bit_simps)

lemma bit_at_update:
  fixes xs :: "'w::len word list"
  assumes "i < length xs"
  shows "bit_at (xs[i := w]) v \<longleftrightarrow> (if v div LENGTH('w) = i then bit w (v mod LENGTH('w)) else bit_at xs v)"
  using assms by (auto simp: bit_at_def nth_list_update)

lemma add_facts:
  fixes m :: "'w::len word genMask"
  assumes "mask_inv m"
  shows "mask_inv (mask_add fresh value m)" "els (mask_add fresh value m) = insert (low16 value) (els m)"
proof -
  let ?v = "low16 value"
  let ?m = "provide fresh (?v + 1) True m"
  let ?i = "?v div LENGTH('w)"
  have inv: "mask_inv ?m" and room: "?v < cap ?m" using provide_facts(1,2) [OF assms, where rng = "?v + 1" and clr = True] by (simp_all add: Suc_le_eq)
  have i: "?i < length (mask ?m)" using room below_cap [OF inv] inv by (simp add: mask_inv_def)
  have eq: "mask_add fresh value m = ?m\<lparr>mask := (mask ?m)[?i := (mask ?m ! ?i) OR push_bit (?v mod LENGTH('w)) 1]\<rparr>"
    by (simp add: mask_add_def Let_def)
  show "mask_inv (mask_add fresh value m)" using inv by (simp add: eq mask_inv_def)
  have "bit_at (mask (mask_add fresh value m)) v \<longleftrightarrow> v = ?v \<or> bit_at (mask ?m) v" for v
  proof (cases "v div LENGTH('w) = ?i")
    case True
    then have "v = ?v \<longleftrightarrow> v mod LENGTH('w) = ?v mod LENGTH('w)" by (metis div_mult_mod_eq)
    then show ?thesis using True i by (auto simp: eq bit_at_update bit_simps bit_at_def)
  next
    case False
    then show ?thesis using i by (auto simp: eq bit_at_update)
  qed
  then show "els (mask_add fresh value m) = insert ?v (els m)"
    using provide_els [OF assms, of fresh "?v + 1"] by (auto simp: els_def)
qed

lemma remove_facts:
  fixes m :: "'w::len word genMask"
  assumes "mask_inv m"
  shows "mask_inv (mask_remove value m)" "els (mask_remove value m) = els m - {low16 value}"
proof -
  let ?v = "low16 value"
  let ?i = "?v div LENGTH('w)"
  show "mask_inv (mask_remove value m)" using assms by (simp add: mask_remove_def mask_inv_def Let_def)
  show "els (mask_remove value m) = els m - {?v}"
  proof (cases "?v < cap m")
    case True
    then have i: "?i < length (mask m)" using below_cap [OF assms] assms by (simp add: mask_inv_def)
    have eq: "mask_remove value m = m\<lparr>mask := (mask m)[?i := (mask m ! ?i) AND NOT (push_bit (?v mod LENGTH('w)) 1)]\<rparr>"
      using True by (simp add: mask_remove_def Let_def)
    have "bit_at (mask (mask_remove value m)) v \<longleftrightarrow> v \<noteq> ?v \<and> bit_at (mask m) v" for v
    proof (cases "v div LENGTH('w) = ?i")
      case True
      then have "v = ?v \<longleftrightarrow> v mod LENGTH('w) = ?v mod LENGTH('w)" by (metis div_mult_mod_eq)
      then show ?thesis using True i by (auto simp: eq bit_at_update bit_simps bit_at_def)
    next
      case False
      then show ?thesis using i by (auto simp: eq bit_at_update)
    qed
    then show ?thesis by (auto simp: els_def)
  next
    case False
    then show ?thesis using els_below [OF assms, of ?v] by (auto simp: mask_remove_def Let_def)
  qed
qed

lemma clear_facts:
  "mask_inv m \<Longrightarrow> mask_inv (mask_clear m)" "els (mask_clear m) = {}"
  by (auto simp: mask_clear_def mask_inv_def els_def bit_at_def)

lemma word_nonzero_bit: "w \<noteq> 0 \<longleftrightarrow> (\<exists>n. bit w n)" for w :: "'w::len word"
proof -
  have "w = 0" if "\<forall>n. \<not> bit w n" by (rule bit_word_eqI) (use that in simp)
  then show ?thesis by auto
qed

lemma bit_and_single: "(k AND 2 ^ j) = (if j < LENGTH('w) \<and> bit k j then 2 ^ j else 0)" for k :: "'w::len word"
  by (rule bit_word_eqI) (auto simp: bit_simps)

lemma includes_facts:
  fixes m :: "'w::len word genMask"
  assumes "mask_inv m"
  shows "mask_includes value m \<noteq> 0 \<longleftrightarrow> low16 value \<in> els m \<and> low16 value mod LENGTH('w) < 32"
proof -
  let ?v = "low16 value"
  have "ucast (push_bit (?v mod LENGTH('w)) (1 :: 'w word)) \<noteq> (0 :: 32 word) \<longleftrightarrow> ?v mod LENGTH('w) < 32"
  proof -
    have "bit (ucast (push_bit (?v mod LENGTH('w)) (1 :: 'w word)) :: 32 word) n \<longleftrightarrow> n < 32 \<and> n = ?v mod LENGTH('w)" for n
      by (auto simp: bit_simps)
    then show ?thesis by (simp only: word_nonzero_bit) auto
  qed
  moreover have "?v \<in> els m \<longleftrightarrow> ?v < cap m \<and> bit (mask m ! (?v div LENGTH('w))) (?v mod LENGTH('w))"
    using assms below_cap [OF assms, of ?v] by (auto simp: els_def bit_at_def mask_inv_def)
  ultimately show ?thesis by (auto simp: mask_includes_def Let_def bit_and_single)
qed

section \<open>The least element\<close>

text \<open>\<open>r\<close> is the least element from \<open>lo\<close> on, or -1 if there is none.\<close>

definition least_from :: "nat set \<Rightarrow> nat \<Rightarrow> int \<Rightarrow> bool" where
  "least_from S lo r \<longleftrightarrow> (r = -1 \<and> (\<forall>v\<in>S. v < lo)) \<or>
     (\<exists>v\<in>S. lo \<le> v \<and> r = int v \<and> (\<forall>u\<in>S. lo \<le> u \<longrightarrow> v \<le> u))"

lemma least_from_later: "least_from S lo' r \<Longrightarrow> lo \<le> lo' \<Longrightarrow> (\<And>v. v \<in> S \<Longrightarrow> lo \<le> v \<Longrightarrow> lo' \<le> v) \<Longrightarrow> least_from S lo r"
  unfolding least_from_def by (meson le_trans not_le)

lemma low_bit_least:
  "k \<noteq> 0 \<Longrightarrow> \<exists>n. bit k n \<and> (\<forall>i<n. \<not> bit k i) \<and> low_bit k j = j + n"
proof (induction k j rule: low_bit.induct)
  case (1 k j)
  show ?case
  proof (cases "bit k 0")
    case True
    then have "odd k" by (simp add: bit_0)
    then have "k AND 1 \<noteq> 0" by (simp add: and_one_eq mod_2_eq_odd)
    then have "low_bit k j = j" by (subst low_bit.simps) (simp del: One_nat_def)
    then show ?thesis using True by (intro exI [of _ 0]) simp
  next
    case False
    then have even: "k AND 1 = 0" by (simp add: and_one_eq bit_0 mod_2_eq_odd)
    have shift: "bit (drop_bit 1 k) i = bit k (Suc i)" for i by (simp only: bit_drop_bit_eq comp_def plus_1_eq_Suc)
    obtain n where n: "bit k n" using 1(2) word_nonzero_bit by blast
    then obtain n' where "n = Suc n'" using False by (cases n) auto
    then have "drop_bit 1 k \<noteq> 0" using n shift [of n'] by auto
    then obtain i where i: "bit k (Suc i)" "\<forall>l<i. \<not> bit k (Suc l)" "low_bit (drop_bit 1 k) (j + 1) = j + 1 + i"
      using 1 even shift by auto
    have "low_bit k j = low_bit (drop_bit 1 k) (j + 1)" using even 1(2) by (subst low_bit.simps) simp
    moreover have "\<not> bit k l" if "l < Suc i" for l using that i(2) False by (cases l) auto
    ultimately show ?thesis using i(1,3) by (intro exI [of _ "Suc i"]) simp
  qed
qed

lemma scan_bits_next:
  "c \<le> LENGTH('w) \<Longrightarrow> c \<le> scan_bits k c \<and> scan_bits k c \<le> LENGTH('w) \<and> (\<forall>i. c \<le> i \<longrightarrow> i < scan_bits k c \<longrightarrow> \<not> bit k i) \<and>
     (scan_bits k c < LENGTH('w) \<longrightarrow> bit k (scan_bits k c))"
  for k :: "'w::len word"
proof (induction k c rule: scan_bits.induct)
  case (1 k c)
  have m: "push_bit c (1 :: 'w word) \<noteq> 0 \<longleftrightarrow> c < LENGTH('w)" by (simp add: not_le)
  have bit: "k AND push_bit c 1 = 0 \<longleftrightarrow> \<not> bit k c" if "c < LENGTH('w)" using that by (simp add: bit_and_single)
  have step: "scan_bits k c = (if c < LENGTH('w) \<and> \<not> bit k c then scan_bits k (c + 1) else c)"
    using bit by (subst scan_bits.simps) (auto simp: Let_def m simp del: push_bit_of_1)
  show ?case
  proof (cases "c < LENGTH('w) \<and> \<not> bit k c")
    case True
    have "c + 1 \<le> scan_bits k (c + 1) \<and> scan_bits k (c + 1) \<le> LENGTH('w) \<and>
        (\<forall>i. c + 1 \<le> i \<longrightarrow> i < scan_bits k (c + 1) \<longrightarrow> \<not> bit k i) \<and>
        (scan_bits k (c + 1) < LENGTH('w) \<longrightarrow> bit k (scan_bits k (c + 1)))"
      by (rule 1(1) [OF refl]) (use True bit m in simp_all)
    moreover have "scan_bits k c = scan_bits k (c + 1)" using True step by simp
    ultimately show ?thesis using True by (metis Suc_eq_plus1 Suc_leD le_antisym not_less_eq_eq)
  next
    case False
    then show ?thesis using step 1(2) by auto
  qed
qed

lemma index_cases:
  assumes "0 < L" "i * L + c \<le> u"
  shows "(u div L = i \<and> u = i * L + u mod L \<and> c \<le> u mod L) \<or> Suc i * L \<le> (u :: nat)"
proof (cases "u div L = i")
  case True
  then have "u = i * L + u mod L" by (metis div_mult_mod_eq)
  then show ?thesis using True assms(2) by linarith
next
  case False
  have "i \<le> u div L" using assms by (simp add: less_eq_div_iff_mult_less_eq)
  then have "Suc i \<le> u div L" using False by simp
  then show ?thesis using assms(1) by (simp add: less_eq_div_iff_mult_less_eq)
qed

lemma peek_from_least:
  fixes m :: "'w::len word genMask"
  assumes "mask_inv m" "c \<le> LENGTH('w)"
  shows "least_from (els m) (i * LENGTH('w) + c) (peek_from m i c)"
  using assms
proof (induction m i c rule: peek_from.induct)
  case (1 m i c)
  let ?L = "LENGTH('w)" and ?k = "mask m ! i"
  have len: "length (mask m) = nwords m" using 1(3) by (simp add: mask_inv_def)
  show ?case
  proof (cases "i < nwords m")
    case False
    have "v < i * ?L + c" if "v \<in> els m" for v
    proof -
      have "v < nwords m * ?L" using els_below [OF 1(3) that] 1(3) by (simp add: mask_inv_def)
      also have "\<dots> \<le> i * ?L" using False by simp
      finally show ?thesis by simp
    qed
    then show ?thesis using False by (subst peek_from.simps) (simp add: least_from_def)
  next
    case True
    have inside: "u \<in> els m \<and> u div ?L = i \<Longrightarrow> bit ?k (u mod ?L)" for u by (auto simp: els_def bit_at_def)
    have later: "least_from (els m) (i * ?L + c) (peek_from m (i + 1) 0)"
      if IH: "least_from (els m) ((i + 1) * ?L + 0) (peek_from m (i + 1) 0)" and none: "\<forall>j. c \<le> j \<longrightarrow> j < ?L \<longrightarrow> \<not> bit ?k j"
    proof (rule least_from_later [OF IH])
      show "i * ?L + c \<le> (i + 1) * ?L + 0" using 1(4) by simp
      show "(i + 1) * ?L + 0 \<le> v" if "v \<in> els m" "i * ?L + c \<le> v" for v
        using index_cases [OF len_gt_0 that(2)] none inside [of v] that(1) by auto
    qed
    show ?thesis
    proof (cases "?k = 0")
      case True
      then have "peek_from m i c = peek_from m (i + 1) 0" using \<open>i < nwords m\<close> by (subst peek_from.simps) simp
      moreover have "least_from (els m) ((i + 1) * ?L + 0) (peek_from m (i + 1) 0)"
        using 1(2) [OF \<open>i < nwords m\<close> refl _ 1(3)] True by simp
      ultimately show ?thesis using later True by simp
    next
      case False
      define c' where "c' = scan_bits ?k c"
      have sc: "c \<le> c'" "c' \<le> ?L" "\<forall>j. c \<le> j \<longrightarrow> j < c' \<longrightarrow> \<not> bit ?k j" "c' < ?L \<longrightarrow> bit ?k c'"
        using scan_bits_next [OF 1(4), of ?k] by (auto simp: c'_def)
      have step: "peek_from m i c = (if c' < ?L then int (i * ?L + c') else peek_from m (i + 1) 0)"
        using \<open>i < nwords m\<close> False by (subst peek_from.simps) (simp add: Let_def c'_def not_le)
      show ?thesis
      proof (cases "c' < ?L")
        case True
        have el: "i * ?L + c' \<in> els m" using True sc(4) \<open>i < nwords m\<close> len by (simp add: els_def bit_at_word)
        have "i * ?L + c' \<le> u" if u: "u \<in> els m" "i * ?L + c \<le> u" for u
          using index_cases [OF len_gt_0 u(2)]
        proof
          assume a: "u div ?L = i \<and> u = i * ?L + u mod ?L \<and> c \<le> u mod ?L"
          then have "c' \<le> u mod ?L" using sc(3) inside [of u] u(1) not_le by blast
          then show ?thesis using a by linarith
        next
          assume "Suc i * ?L \<le> u"
          then show ?thesis using True by simp
        qed
        then show ?thesis using True step el sc(1) unfolding least_from_def by (intro disjI2 bexI [OF _ el]) simp
      next
        case False
        then have "least_from (els m) ((i + 1) * ?L + 0) (peek_from m (i + 1) 0)"
          using 1(1) [OF \<open>i < nwords m\<close> refl \<open>?k \<noteq> 0\<close> refl _ 1(3)] by (simp add: c'_def)
        moreover have "\<forall>j. c \<le> j \<longrightarrow> j < ?L \<longrightarrow> \<not> bit ?k j" using sc False by auto
        ultimately show ?thesis using later step False by simp
      qed
    qed
  qed
qed

lemma peek_least:
  assumes "mask_inv m" "-1 \<le> prev"
  shows "least_from (els m) (nat (prev + 1)) (mask_peek prev m)"
  using peek_from_least [OF assms(1), of "nat (prev + 1) mod LENGTH('a)" "nat (prev + 1) div LENGTH('a)"] assms(2)
  by (simp add: mask_peek_def Let_def)

lemma pop_from_least:
  fixes m :: "'w::len word genMask"
  assumes "mask_inv m" "\<And>v. v \<in> els m \<Longrightarrow> i * LENGTH('w) \<le> v"
  shows "(els m = {} \<and> pop_from m i = (-1, m)) \<or>
    (\<exists>v m'. pop_from m i = (int v, m') \<and> v \<in> els m \<and> (\<forall>u\<in>els m. v \<le> u) \<and> mask_inv m' \<and> els m' = els m - {v})"
  using assms
proof (induction m i rule: pop_from.induct)
  case (1 m i)
  let ?L = "LENGTH('w)" and ?k = "mask m ! i"
  have len: "length (mask m) = nwords m" using 1(2) by (simp add: mask_inv_def)
  show ?case
  proof (cases "i < nwords m")
    case False
    have "els m = {}"
    proof (rule ccontr)
      assume "els m \<noteq> {}"
      then obtain v where v: "v \<in> els m" by blast
      have "v < nwords m * ?L" using els_below [OF 1(2) v] 1(2) by (simp add: mask_inv_def)
      also have "\<dots> \<le> i * ?L" using False by simp
      finally show False using 1(3) [OF v] by simp
    qed
    then show ?thesis using False by (subst pop_from.simps) simp
  next
    case True
    have inside: "u \<in> els m \<and> u div ?L = i \<Longrightarrow> bit ?k (u mod ?L)" for u by (auto simp: els_def bit_at_def)
    show ?thesis
    proof (cases "?k = 0")
      case True
      have "(i + 1) * ?L \<le> v" if "v \<in> els m" for v
        using index_cases [of ?L i 0 v] 1(3) [OF that] inside [of v] that True by auto
      moreover have "pop_from m i = pop_from m (i + 1)" using \<open>i < nwords m\<close> True by (subst pop_from.simps) simp
      ultimately show ?thesis using 1(1) [OF \<open>i < nwords m\<close> refl _ 1(2)] True by simp
    next
      case False
      obtain n where n: "bit ?k n" "\<forall>l<n. \<not> bit ?k l" "low_bit ?k 0 = n" using low_bit_least [OF False, of 0] by auto
      have nL: "n < ?L" using n(1) by (rule bit_imp_le_length)
      define m' where "m' = m\<lparr>mask := (mask m)[i := ?k AND NOT (push_bit n 1)]\<rparr>"
      have pop: "pop_from m i = (int (i * ?L + n), m')"
        using \<open>i < nwords m\<close> False n(3) by (subst pop_from.simps) (simp add: Let_def m'_def)
      have el: "i * ?L + n \<in> els m" using n(1) nL \<open>i < nwords m\<close> len by (simp add: els_def bit_at_word)
      have least: "i * ?L + n \<le> u" if u: "u \<in> els m" for u
      proof -
        have "(u div ?L = i \<and> u = i * ?L + u mod ?L \<and> 0 \<le> u mod ?L) \<or> Suc i * ?L \<le> u"
          by (rule index_cases) (use 1(3) [OF u] in simp_all)
        then show ?thesis
        proof (elim disjE)
        assume a: "u div ?L = i \<and> u = i * ?L + u mod ?L \<and> 0 \<le> u mod ?L"
        then have "n \<le> u mod ?L" using n(2) inside [of u] u not_le by blast
        then show ?thesis using a by linarith
      next
        assume "Suc i * ?L \<le> u"
        then show ?thesis using nL by simp
        qed
      qed
      have inv: "mask_inv m'" using 1(2) by (simp add: m'_def mask_inv_def)
      have "bit_at (mask m') v \<longleftrightarrow> v \<noteq> i * ?L + n \<and> bit_at (mask m) v" for v
      proof (cases "v div ?L = i")
        case True
        have "v = i * ?L + n \<longleftrightarrow> v mod ?L = n" using True nL by (metis div_mult_mod_eq mod_less mod_mult_self3)
        then show ?thesis using True \<open>i < nwords m\<close> len nL by (auto simp: m'_def bit_at_update bit_simps bit_at_def)
      next
        case False
        then have "v \<noteq> i * ?L + n" using nL by auto
        then show ?thesis using False \<open>i < nwords m\<close> len by (simp add: m'_def bit_at_update)
      qed
      then have "els m' = els m - {i * ?L + n}" by (auto simp: els_def)
      then show ?thesis using pop el least inv by blast
    qed
  qed
qed

section \<open>Whole sets\<close>

text \<open>A loop over the words below \<open>n\<close>, and its effect on the elements.\<close>

lemma els_loop:
  fixes m :: "'w::len word genMask"
  assumes "n \<le> length (mask m)" "mask m' = foldl (\<lambda>xs i. xs[i := f i (xs ! i)]) (mask m) [0..<n]"
  shows "length (mask m') = length (mask m)"
    and "v \<in> els m' \<longleftrightarrow> (if v div LENGTH('w) < n
     then bit (f (v div LENGTH('w)) (mask m ! (v div LENGTH('w)))) (v mod LENGTH('w)) else v \<in> els m)"
  unfolding els_iff assms(2) foldl_update [OF assms(1)] bit_at_rewritten using assms(1) by auto

lemma add_all_facts:
  fixes a b :: "'w::len word genMask"
  assumes "mask_inv a" "mask_inv b"
  shows "mask_inv (mask_add_all fresh b a)" "els (mask_add_all fresh b a) = els a \<union> els b"
proof -
  let ?m = "provide fresh (cap b) True a"
  note p = provide_facts [OF assms(1), where fresh = fresh and rng = "cap b" and clr = True]
  have len: "length (mask ?m) = nwords ?m" "length (mask b) = nwords b" using p(1) assms(2) by (auto simp: mask_inv_def)
  have le: "nwords b \<le> length (mask ?m)" using p(1,2) assms(2) len by (simp add: mask_inv_def)
  note loop = els_loop [OF le, of "mask_add_all fresh b a" "\<lambda>i x. x OR (mask b ! i)"]
  show "mask_inv (mask_add_all fresh b a)"
    using p(1) loop(1) by (simp add: mask_inv_def mask_add_all_def Let_def)
  have "v \<in> els (mask_add_all fresh b a) \<longleftrightarrow> v \<in> els ?m \<or> v \<in> els b" for v
    using loop(2) [of v] le len by (auto simp: mask_add_all_def Let_def els_iff bit_at_def bit_or_iff)
  then show "els (mask_add_all fresh b a) = els a \<union> els b" using provide_els [OF assms(1)] by auto
qed

lemma remove_all_facts:
  fixes a b :: "'w::len word genMask"
  assumes "mask_inv a" "mask_inv b"
  shows "mask_inv (mask_remove_all b a)" "els (mask_remove_all b a) = els a - els b"
proof -
  let ?n = "if nwords a < nwords b then nwords a else nwords b"
  have len: "length (mask a) = nwords a" "length (mask b) = nwords b" using assms by (auto simp: mask_inv_def)
  then have le: "?n \<le> length (mask a)" by simp
  note loop = els_loop [OF le, of "mask_remove_all b a" "\<lambda>i x. x AND NOT (mask b ! i)"]
  show "mask_inv (mask_remove_all b a)"
    using assms(1) loop(1) by (simp add: mask_inv_def mask_remove_all_def Let_def)
  have "v \<in> els (mask_remove_all b a) \<longleftrightarrow> v \<in> els a \<and> v \<notin> els b" for v
    using loop(2) [of v] len by (auto simp: mask_remove_all_def Let_def els_iff bit_at_def bit_simps)
  then show "els (mask_remove_all b a) = els a - els b" by auto
qed

lemma retain_all_facts:
  fixes a b :: "'w::len word genMask"
  assumes "mask_inv a" "mask_inv b"
  shows "mask_inv (mask_retain_all b a)" "els (mask_retain_all b a) = els a \<inter> els b"
proof -
  have len: "length (mask a) = nwords a" "length (mask b) = nwords b" using assms by (auto simp: mask_inv_def)
  let ?n = "if nwords a > nwords b then nwords b else nwords a"
  have le: "?n \<le> length (mask a)" using len by simp
  define m where "m = a\<lparr>mask := foldl (\<lambda>xs i. xs[i := (xs ! i) AND (mask b ! i)]) (mask a) [0..<?n]\<rparr>"
  note loop = els_loop [OF le, of m "\<lambda>i x. x AND (mask b ! i)"]
  have l: "length (mask m) = nwords a" using loop(1) len by (simp add: m_def)
  have r: "mask (mask_retain_all b a) =
      (if nwords a > nwords b then take (nwords b) (mask m) @ replicate (nwords a - nwords b) 0 else mask m)"
    by (simp add: mask_retain_all_def m_def)
  show "mask_inv (mask_retain_all b a)"
    using assms(1) r l by (simp add: mask_inv_def mask_retain_all_def)
  have "v \<in> els (mask_retain_all b a) \<longleftrightarrow> v \<in> els a \<and> v \<in> els b" for v
  proof (cases "v div LENGTH('w) < ?n")
    case True
    then have "v \<in> els (mask_retain_all b a) \<longleftrightarrow> v \<in> els m"
      using l by (auto simp: els_iff r bit_at_def nth_append)
    also have "\<dots> \<longleftrightarrow> v \<in> els a \<and> v \<in> els b"
      using loop(2) [of v] True len by (auto simp: m_def els_iff bit_at_def bit_and_iff split: if_splits)
    finally show ?thesis .
  next
    case False
    then show ?thesis using l len by (auto simp: els_iff r bit_at_def nth_append split: if_splits)
  qed
  then show "els (mask_retain_all b a) = els a \<inter> els b" by auto
qed

lemma assign_facts:
  assumes "mask_inv a" "mask_inv s"
  shows "mask_inv (genMask_assign fresh a s)" "els (genMask_assign fresh a s) = els s"
    "nwords s \<le> nwords (genMask_assign fresh a s)"
proof -
  let ?m = "provide fresh (cap s) False a"
  note p = provide_facts [OF assms(1), where fresh = fresh and rng = "cap s" and clr = False]
  show le: "nwords s \<le> nwords (genMask_assign fresh a s)"
    using p(1,2) assms(2) by (simp add: genMask_assign_def Let_def mask_inv_def)
  have m: "mask (genMask_assign fresh a s) = mask s @ replicate (nwords ?m - nwords s) 0"
    using assms(2) by (auto simp: genMask_assign_def Let_def mask_inv_def)
  show "mask_inv (genMask_assign fresh a s)"
    using p(1) assms(2) m le by (simp add: mask_inv_def genMask_assign_def Let_def)
  show "els (genMask_assign fresh a s) = els s" by (simp add: els_def m bit_at_append_zeros)
qed

lemma copy_facts:
  assumes "mask_inv s"
  shows "mask_inv (genMask_copy fresh s)" "els (genMask_copy fresh s) = els s" "nwords s \<le> nwords (genMask_copy fresh s)"
  using assign_facts [OF no_mask_inv assms] by (simp_all add: genMask_copy_def)

text \<open>The number of words of an object is a power of two, so that a copy has as many words.\<close>

definition mask_ok :: "'w::len word genMask \<Rightarrow> bool" where
  "mask_ok m \<longleftrightarrow> mask_inv m \<and> (\<exists>k. nwords m = 2 ^ k)"

lemma mask_okD: "mask_ok m \<Longrightarrow> mask_inv m"
  by (simp add: mask_ok_def)

lemma grow_power: "\<exists>k. grow g (2 ^ j) = 2 ^ k"
proof -
  have "w = 2 ^ j \<Longrightarrow> \<exists>k. grow g w = 2 ^ k" for w :: nat
  proof (induction g w arbitrary: j rule: grow.induct)
    case (1 g w)
    then show ?case by (subst grow.simps) (metis power_Suc)
  qed
  then show ?thesis by blast
qed

lemma grow_exact: "j \<le> k \<Longrightarrow> grow (2 ^ k) (2 ^ j) = 2 ^ k"
proof (induction "k - j" arbitrary: j)
  case 0
  then show ?case by (subst grow.simps) simp
next
  case (Suc n)
  then have "grow (2 ^ k) (2 ^ Suc j) = 2 ^ k" by (metis Suc_diff_Suc Suc_leI diff_Suc_Suc diff_diff_cancel diff_le_self  zero_less_diff zero_less_Suc nat.inject)
  moreover have "j < k" using Suc(2) by simp
  ultimately show ?case by (subst grow.simps) simp
qed

lemma provide_words:
  fixes m :: "'w::len word genMask"
  assumes "(\<exists>j. nwords m = 2 ^ j) \<or> (m = no_mask \<and> 0 < rng)"
  shows "\<exists>k. nwords (provide fresh rng clr m) = 2 ^ k"
proof -
  have "\<exists>j. (if nwords m < 1 then 1 else nwords m) = 2 ^ j"
    using assms by (auto simp: no_mask_def intro: exI [of _ 0])
  then obtain j where j: "(if nwords m < 1 then 1 else nwords m) = 2 ^ j" by blast
  have "\<exists>k. grow ((rng + LENGTH('w) - 1) div LENGTH('w)) (if nwords m < 1 then 1 else nwords m) = 2 ^ k"
    unfolding j by (rule grow_power)
  then show ?thesis using assms by (auto simp: provide_def Let_def no_mask_def)
qed

lemma provide_ok: "mask_ok m \<Longrightarrow> mask_ok (provide fresh rng clr m)"
  using provide_facts(1) provide_words unfolding mask_ok_def by blast

lemma new_mask_ok: "mask_ok (genMask_new fresh rng clr)"
proof -
  have "\<exists>k. nwords (genMask_new fresh rng clr) = 2 ^ k"
    unfolding genMask_new_def Let_def by (rule provide_words) simp
  then show ?thesis using new_mask(1) by (simp add: mask_ok_def)
qed

text \<open>An operation that keeps the number of words keeps the invariant.\<close>

lemma mask_okI: "mask_ok m \<Longrightarrow> mask_inv m' \<Longrightarrow> nwords m' = nwords m \<Longrightarrow> mask_ok m'"
  by (simp add: mask_ok_def)

lemma copy_words: 
  fixes s :: "'w::len word genMask"
  assumes "mask_ok s"
  shows "nwords (genMask_copy fresh s) = nwords s" "mask_ok (genMask_copy fresh s)"
proof -
  obtain k where k: "nwords s = 2 ^ k" "cap s = 2 ^ k * LENGTH('w)" using assms by (auto simp: mask_ok_def mask_inv_def)
  have "2 ^ k * LENGTH('w) + LENGTH('w) - 1 = LENGTH('w) - 1 + 2 ^ k * LENGTH('w)"
    using len_gt_0 [where 'a = 'w] by linarith
  then have "(2 ^ k * LENGTH('w) + LENGTH('w) - 1) div LENGTH('w) = 2 ^ k" by (simp only: div_mult_self1) simp
  then have "nwords (provide fresh (cap s) False (no_mask :: 'w word genMask)) = 2 ^ k"
    using grow_exact [of 0 k] k(2) by (simp add: provide_def no_mask_def Let_def)
  then show "nwords (genMask_copy fresh s) = nwords s"
    using k(1) by (simp add: genMask_copy_def genMask_assign_def Let_def)
  then show "mask_ok (genMask_copy fresh s)" using assms copy_facts(1) mask_okD mask_okI by blast
qed

lemma difference_facts:
  fixes a b :: "'w::len word genMask"
  assumes "mask_ok a" "mask_ok b"
  shows "mask_ok (mask_difference fresh a b)" "els (mask_difference fresh a b) = els a - els b"
proof -
  let ?t = "genMask_copy fresh a"
  let ?n = "if nwords a < nwords b then nwords a else nwords b"
  note c = copy_words [OF assms(1), of fresh] copy_facts(2) [OF mask_okD [OF assms(1)], of fresh]
  have len: "length (mask ?t) = nwords a" "length (mask b) = nwords b"
    using c(1,2) assms(2) by (auto simp: mask_ok_def mask_inv_def)
  then have le: "?n \<le> length (mask ?t)" by simp
  note loop = els_loop [OF le, of "mask_difference fresh a b" "\<lambda>i x. x AND NOT (mask b ! i)"]
  show "mask_ok (mask_difference fresh a b)"
    using c(2) loop(1) by (simp add: mask_ok_def mask_inv_def mask_difference_def Let_def)
  have "v \<in> els (mask_difference fresh a b) \<longleftrightarrow> v \<in> els ?t \<and> v \<notin> els b" for v
    using loop(2) [of v] len by (auto simp: mask_difference_def Let_def els_iff bit_at_def bit_simps)
  then show "els (mask_difference fresh a b) = els a - els b" using c(3) by auto
qed

lemma intersection_facts:
  fixes a b :: "'w::len word genMask"
  assumes "mask_ok a" "mask_ok b"
  shows "mask_ok (mask_intersection fresh a b)" "els (mask_intersection fresh a b) = els a \<inter> els b"
proof -
  define little where "little = (if nwords a < nwords b then a else b)"
  define big where "big = (if nwords a < nwords b then b else a)"
  have lb: "mask_ok little" "mask_ok big" "nwords little \<le> nwords big" "els little \<inter> els big = els a \<inter> els b"
    using assms by (auto simp: little_def big_def)
  let ?t = "genMask_copy fresh little"
  note c = copy_words [OF lb(1), of fresh] copy_facts(2) [OF mask_okD [OF lb(1)], of fresh]
  have eq: "mask_intersection fresh a b = ?t\<lparr>mask := foldl (\<lambda>xs i. xs[i := (xs ! i) AND (mask big ! i)]) (mask ?t) [0..<nwords ?t]\<rparr>"
    by (simp add: mask_intersection_def little_def big_def Let_def)
  have len: "length (mask ?t) = nwords ?t" "length (mask big) = nwords big"
    using c(2) lb(2) by (auto simp: mask_ok_def mask_inv_def)
  then have le: "nwords ?t \<le> length (mask ?t)" by simp
  note loop = els_loop [OF le, of "mask_intersection fresh a b" "\<lambda>i x. x AND (mask big ! i)"]
  show "mask_ok (mask_intersection fresh a b)"
    using c(2) loop(1) by (simp add: mask_ok_def mask_inv_def eq)
  have "v \<in> els (mask_intersection fresh a b) \<longleftrightarrow> v \<in> els ?t \<and> v \<in> els big" for v
    using loop(2) [of v] len lb(3) c(1) by (auto simp: eq els_iff bit_at_def bit_and_iff)
  then show "els (mask_intersection fresh a b) = els a \<inter> els b" using c(3) lb(4) by auto
qed

section \<open>Comparison and union\<close>

lemma words_eq_iff:
  fixes xs ys :: "'w::len word list"
  assumes "length xs \<le> length ys"
  shows "(\<forall>i<length xs. xs ! i = ys ! i) \<and> (\<forall>i. length xs \<le> i \<longrightarrow> i < length ys \<longrightarrow> ys ! i = 0) \<longleftrightarrow>
    (\<forall>v. bit_at xs v = bit_at ys v)"
proof
  assume a: "(\<forall>i<length xs. xs ! i = ys ! i) \<and> (\<forall>i. length xs \<le> i \<longrightarrow> i < length ys \<longrightarrow> ys ! i = 0)"
  show "\<forall>v. bit_at xs v = bit_at ys v"
  proof
    fix v show "bit_at xs v = bit_at ys v"
      using a assms by (cases "v div LENGTH('w) < length xs") (auto simp: bit_at_def)
  qed
next
  assume same: "\<forall>v. bit_at xs v = bit_at ys v"
  have word: "i < length ys \<Longrightarrow> n < LENGTH('w) \<Longrightarrow> bit (ys ! i) n \<longleftrightarrow> i < length xs \<and> bit (xs ! i) n" for i n
    using same [rule_format, of "i * LENGTH('w) + n"] by (simp add: bit_at_word)
  have "xs ! i = ys ! i" if "i < length xs" for i
    by (rule bit_word_eqI) (use word [of i] that assms in auto)
  moreover have "ys ! i = 0" if "length xs \<le> i" "i < length ys" for i
    by (rule bit_word_eqI) (use word [of i] that in auto)
  ultimately show "(\<forall>i<length xs. xs ! i = ys ! i) \<and> (\<forall>i. length xs \<le> i \<longrightarrow> i < length ys \<longrightarrow> ys ! i = 0)" by blast
qed

lemma equals_facts:
  assumes "mask_inv a" "mask_inv b"
  shows "mask_equals a b \<longleftrightarrow> els a = els b" "mask_differs a b \<longleftrightarrow> els a \<noteq> els b"
proof -
  have len: "length (mask a) = nwords a" "length (mask b) = nwords b" using assms by (auto simp: mask_inv_def)
  show "mask_equals a b \<longleftrightarrow> els a = els b"
  proof (cases "nwords a < nwords b")
    case True
    then have "mask_equals a b \<longleftrightarrow> (\<forall>v. bit_at (mask a) v = bit_at (mask b) v)"
      using words_eq_iff [of "mask a" "mask b"] len by (auto simp: mask_equals_def list_all_iff)
    then show ?thesis by (auto simp: els_def)
  next
    case False
    then have "mask_equals a b \<longleftrightarrow> (\<forall>v. bit_at (mask b) v = bit_at (mask a) v)"
      using words_eq_iff [of "mask b" "mask a"] len by (auto simp: mask_equals_def list_all_iff)
    then show ?thesis by (auto simp: els_def)
  qed
  then show "mask_differs a b \<longleftrightarrow> els a \<noteq> els b" by (auto simp: mask_equals_def mask_differs_def Let_def)
qed

lemma empty_facts:
  fixes m :: "'w::len word genMask"
  assumes "mask_inv m"
  shows "mask_empty m \<longleftrightarrow> els m = {}"
proof -
  have "length (mask m) = nwords m" using assms by (simp add: mask_inv_def)
  then have "mask_empty m \<longleftrightarrow> (\<forall>i<length (mask m). mask m ! i = 0)" by (auto simp: mask_empty_def list_all_iff)
  also have "\<dots> \<longleftrightarrow> (\<forall>v. bit_at ([] :: 'w word list) v = bit_at (mask m) v)" using words_eq_iff [of "[] :: 'w word list" "mask m"] by simp
  also have "\<dots> \<longleftrightarrow> els m = {}" unfolding els_def by (simp add: bit_at_def [of "[] :: 'w word list"])
  finally show ?thesis .
qed

lemma foldl_put:
  "foldl (\<lambda>r i. Option.bind r (put i (f i))) (Some xs) [0..<n] =
     (if n \<le> length xs then Some (map f [0..<n] @ drop n xs) else None)"
proof (induction n)
  case (Suc n)
  show ?case
  proof (cases "n < length xs")
    case True
    then have "drop n xs = xs ! n # drop (Suc n) xs" by (simp add: Cons_nth_drop_Suc)
    then show ?thesis using Suc True by (simp add: put_def list_update_append)
  next
    case False
    then show ?thesis using Suc by (cases "n = length xs") (simp_all add: put_def)
  qed
qed simp

lemma union_facts:
  fixes a b :: "'w::len word genMask"
  assumes "mask_ok a" "mask_ok b"
  shows "cap a < 65536 \<Longrightarrow> cap b < 65536 \<Longrightarrow>
      \<exists>m. mask_union fresh a b = Some m \<and> mask_ok m \<and> els m = els a \<union> els b"
    and "cap a = 65536 \<Longrightarrow> LENGTH('w) < 65536 \<Longrightarrow> nwords b \<le> nwords a \<Longrightarrow> mask_union fresh a b = None"
proof -
  define little where "little = (if nwords a < nwords b then a else b)"
  define big where "big = (if nwords a < nwords b then b else a)"
  let ?t = "genMask_new fresh (of_nat (cap big)) False"
  let ?f = "\<lambda>i. if i < nwords little then (mask a ! i) OR (mask b ! i) else mask big ! i"
  have inv: "mask_inv a" "mask_inv b" using assms by (auto simp: mask_okD)
  have eq: "mask_union fresh a b = (if nwords big \<le> length (mask ?t) then Some (?t\<lparr>mask := map ?f [0..<nwords big] @ drop (nwords big) (mask ?t)\<rparr>) else None)"
    by (simp add: mask_union_def little_def big_def Let_def foldl_put)
  have big: "cap big = nwords big * LENGTH('w)" "0 < cap big"
    using assms by (auto simp: big_def mask_ok_def mask_inv_def)
  have t: "mask_ok ?t" by (rule new_mask_ok)
  show "\<exists>m. mask_union fresh a b = Some m \<and> mask_ok m \<and> els m = els a \<union> els b" if "cap a < 65536" "cap b < 65536"
  proof -
    have "cap big < 65536" using that by (simp add: big_def)
    then have "low16 (of_nat (cap big)) = cap big" by (simp add: low16_mod unat_of_nat)
    moreover obtain k where k: "nwords big = 2 ^ k" using assms by (cases "nwords a < nwords b") (auto simp: big_def mask_ok_def)
    ultimately have t_eq: "?t = provide fresh (cap big) False no_mask" using big(2) by (simp add: genMask_new_def Let_def)
    have "nwords ?t = nwords (genMask_copy fresh big)" unfolding t_eq genMask_copy_def genMask_assign_def by (simp add: Let_def)
    also have "\<dots> = nwords big" using assms by (simp add: big_def copy_words(1))
    finally have n: "nwords ?t = nwords big" .
    have len: "length (mask ?t) = nwords big" using t n by (simp add: mask_ok_def mask_inv_def)
    define m where "m = ?t\<lparr>mask := map ?f [0..<nwords big]\<rparr>"
    have "mask_union fresh a b = Some m" using len by (simp add: eq m_def)
    moreover have "mask_ok m" using t n by (simp add: m_def mask_ok_def mask_inv_def)
    moreover have "v \<in> els m \<longleftrightarrow> v \<in> els a \<or> v \<in> els b" for v
      using inv by (auto simp: m_def els_iff bit_at_def little_def big_def mask_inv_def bit_or_iff split: if_splits)
    ultimately show ?thesis by blast
  qed
  show "mask_union fresh a b = None" if "cap a = 65536" "LENGTH('w) < 65536" "nwords b \<le> nwords a"
  proof -
    have b: "big = a" using that(3) by (simp add: big_def)
    have "low16 (of_nat (cap big)) = 0" using that(1) b by (simp add: low16_mod)
    then have "?t = provide fresh 1 False no_mask" by (simp add: genMask_new_def Let_def)
    moreover have "nwords (provide fresh 1 False (no_mask :: 'w word genMask)) = 1"
      using grow_exact [of 0 0] by (simp add: provide_def no_mask_def Let_def)
    ultimately have n: "length (mask ?t) = 1" using t by (simp add: mask_ok_def mask_inv_def)
    have "\<not> nwords big \<le> 1"
    proof
      assume "nwords big \<le> 1"
      then have "nwords big * LENGTH('w) \<le> 1 * LENGTH('w)" by (rule mult_le_mono1)
      then show False using big(1) that(1,2) unfolding b by linarith
    qed
    then show ?thesis using n by (simp add: eq)
  qed
qed

section \<open>Running through a set\<close>

text \<open>What a client relies on that visits the elements in order, or takes them out one by one.
  Sets are finite and hold natural numbers; -1 stands for the end.\<close>

locale ordered_set =
  fixes inv :: "'s \<Rightarrow> bool" and elems :: "'s \<Rightarrow> nat set" and next_el :: "int \<Rightarrow> 's \<Rightarrow> int"
    and take_el :: "'s \<Rightarrow> int \<times> 's"
  assumes finite_elems: "inv s \<Longrightarrow> finite (elems s)"
    and next_least: "inv s \<Longrightarrow> -1 \<le> prev \<Longrightarrow> least_from (elems s) (nat (prev + 1)) (next_el prev s)"
    and take_none: "inv s \<Longrightarrow> elems s = {} \<Longrightarrow> take_el s = (-1, s)"
    and take_some: "inv s \<Longrightarrow> elems s \<noteq> {} \<Longrightarrow> \<exists>v s'. take_el s = (int v, s') \<and> v \<in> elems s \<and>
      (\<forall>u\<in>elems s. v \<le> u) \<and> inv s' \<and> elems s' = elems s - {v}"

text \<open>The loops \<^verbatim>\<open>for (i = m.peek(); i >= 0; i = m.peek(i))\<close> and \<^verbatim>\<open>while ((i = m.pop()) >= 0)\<close>
  with the values they visit.\<close>

function walk :: "(int \<Rightarrow> 's \<Rightarrow> int) \<Rightarrow> nat \<Rightarrow> 's \<Rightarrow> int \<Rightarrow> int list" where
  "walk nxt fuel s i = (if i \<ge> 0 \<and> fuel > 0 then i # walk nxt (fuel - 1) s (nxt i s) else [])"
  by pat_completeness auto
termination
  by (relation "measure (\<lambda>(nxt, fuel, s, i). fuel)") auto

declare walk.simps [simp del]

fun drain :: "('s \<Rightarrow> int \<times> 's) \<Rightarrow> nat \<Rightarrow> 's \<Rightarrow> int list" where
  "drain tk 0 s = []"
| "drain tk (Suc fuel) s = (let (i, s') = tk s in if i \<ge> 0 then i # drain tk fuel s' else [])"

context ordered_set begin

lemma next_cases:
  assumes "inv s" "-1 \<le> prev"
  shows "(next_el prev s = -1 \<and> {v \<in> elems s. prev < int v} = {}) \<or>
    (\<exists>v. next_el prev s = int v \<and> v \<in> elems s \<and> prev < int v \<and> v = Min {v \<in> elems s. prev < int v})"
proof -
  have le: "nat (prev + 1) \<le> v \<longleftrightarrow> prev < int v" for v using assms(2) by linarith
  from next_least [OF assms] show ?thesis unfolding least_from_def
  proof
    assume "next_el prev s = -1 \<and> (\<forall>v\<in>elems s. v < nat (prev + 1))"
    then show ?thesis using le by (metis (no_types, lifting) empty_Collect_eq not_le)
  next
    assume "\<exists>v\<in>elems s. nat (prev + 1) \<le> v \<and> next_el prev s = int v \<and> (\<forall>u\<in>elems s. nat (prev + 1) \<le> u \<longrightarrow> v \<le> u)"
    then obtain v where v: "v \<in> elems s" "prev < int v" "next_el prev s = int v" "\<forall>u\<in>elems s. prev < int u \<longrightarrow> v \<le> u"
      unfolding le by blast
    have "Min {v \<in> elems s. prev < int v} = v"
      by (rule Min_eqI) (use finite_elems [OF assms(1)] v in auto)
    then show ?thesis using v by blast
  qed
qed

lemma walk_from:
  assumes "inv s" "-1 \<le> prev" "card {v \<in> elems s. prev < int v} \<le> fuel"
  shows "walk next_el fuel s (next_el prev s) = map int (sorted_list_of_set {v \<in> elems s. prev < int v})"
  using assms(2,3)
proof (induction fuel arbitrary: prev)
  case 0
  have e: "{v \<in> elems s. prev < int v} = {}" using 0 finite_elems [OF assms(1)] by simp
  show ?case unfolding e by (subst walk.simps) simp
next
  case (Suc fuel)
  let ?S = "{v \<in> elems s. prev < int v}"
  have fin: "finite ?S" using finite_elems [OF assms(1)] by simp
  from next_cases [OF assms(1) Suc.prems(1)] show ?case
  proof (elim disjE exE conjE)
    assume e: "next_el prev s = -1" "?S = {}"
    show ?thesis unfolding e by (subst walk.simps) simp
  next
    fix v assume v: "next_el prev s = int v" "v \<in> elems s" "prev < int v" "v = Min ?S"
    have "\<forall>u\<in>?S. v \<le> u" using fin v(4) by simp
    then have rest: "?S - {v} = {u \<in> elems s. int v < int u}" using v(3) by force
    have "card (?S - {v}) \<le> fuel" using Suc.prems(2) v fin by simp
    then have "walk next_el fuel s (next_el (int v) s) = map int (sorted_list_of_set (?S - {v}))"
      unfolding rest by (intro Suc.IH) auto
    moreover have "sorted_list_of_set ?S = v # sorted_list_of_set (?S - {v})"
      using fin v(2-4) by (metis (mono_tags, lifting) empty_iff mem_Collect_eq sorted_list_of_set_nonempty)
    ultimately show ?thesis using v(1) by (subst walk.simps) simp
  qed
qed

lemma walk_sorted: "inv s \<Longrightarrow> card (elems s) \<le> fuel \<Longrightarrow> walk next_el fuel s (next_el (-1) s) = map int (sorted_list_of_set (elems s))"
proof -
  assume a: "inv s" "card (elems s) \<le> fuel"
  have "{v \<in> elems s. -1 < int v} = elems s" by auto
  then show ?thesis using walk_from [OF a(1), of "-1" fuel] a(2) by simp
qed

lemma drain_sorted: "inv s \<Longrightarrow> card (elems s) \<le> fuel \<Longrightarrow> drain take_el fuel s = map int (sorted_list_of_set (elems s))"
proof (induction fuel arbitrary: s)
  case 0
  then show ?case using finite_elems by simp
next
  case (Suc fuel)
  show ?case
  proof (cases "elems s = {}")
    case True
    then show ?thesis using take_none [OF Suc.prems(1)] by simp
  next
    case False
    obtain v s' where v: "take_el s = (int v, s')" "v \<in> elems s" "\<forall>u\<in>elems s. v \<le> u" "inv s'" "elems s' = elems s - {v}"
      using take_some [OF Suc.prems(1) False] by blast
    have fin: "finite (elems s)" using finite_elems [OF Suc.prems(1)] .
    have "Min (elems s) = v" by (rule Min_eqI) (use fin v in auto)
    then have "sorted_list_of_set (elems s) = v # sorted_list_of_set (elems s - {v})"
      using fin False by (metis sorted_list_of_set_nonempty)
    moreover have "drain take_el fuel s' = map int (sorted_list_of_set (elems s'))"
      by (rule Suc.IH [OF v(4)]) (use Suc.prems(2) fin v in simp)
    ultimately show ?thesis using v(1,5) by simp
  qed
qed

end

interpretation gm: ordered_set mask_inv els mask_peek mask_pop
proof unfold_locales
  fix s :: "'a word genMask" and prev :: int
  assume s: "mask_inv s"
  show "finite (els s)" using s by (rule finite_els)
  show "-1 \<le> prev \<Longrightarrow> least_from (els s) (nat (prev + 1)) (mask_peek prev s)" using peek_least [OF s] .
  show "els s = {} \<Longrightarrow> mask_pop s = (-1, s)" using pop_from_least [OF s, of 0] by (auto simp: mask_pop_def)
  show "els s \<noteq> {} \<Longrightarrow> \<exists>v s'. mask_pop s = (int v, s') \<and> v \<in> els s \<and> (\<forall>u\<in>els s. v \<le> u) \<and> mask_inv s' \<and> els s' = els s - {v}"
    using pop_from_least [OF s, of 0] unfolding mask_pop_def by auto
qed

end
