(* ===== verification/Mask_Properties.thy ===== *)
theory Mask_Properties
  imports Mask_Refinement
begin

text \<open>
  The properties of \<^verbatim>\<open>genMask\<close>: refinement of finite sets, iteration, and the two places where
  the code leaves the specification.
\<close>

lemma els_new: "mask_ok (genMask_new fresh rng clr)" "els (genMask_new fresh rng True) = {}"
  by (rule new_mask_ok, rule new_mask(2))

lemma add_ok: "mask_ok m \<Longrightarrow> mask_ok (mask_add fresh value m)"
proof -
  assume m: "mask_ok m"
  have "nwords (mask_add fresh value m) = nwords (provide fresh (low16 value + 1) True m)"
    by (simp add: mask_add_def Let_def)
  then show ?thesis
    using m add_facts(1) [OF mask_okD [OF m]] provide_ok [OF m] by (simp add: mask_ok_def)
qed

lemma add_all_ok: "mask_ok a \<Longrightarrow> mask_ok b \<Longrightarrow> mask_ok (mask_add_all fresh b a)"
proof -
  assume ok: "mask_ok a" "mask_ok b"
  have "nwords (mask_add_all fresh b a) = nwords (provide fresh (cap b) True a)"
    by (simp add: mask_add_all_def Let_def)
  then show ?thesis
    using ok add_all_facts(1) [OF mask_okD mask_okD] provide_ok [OF ok(1)] by (simp add: mask_ok_def)
qed

lemma assign_ok: "mask_ok a \<Longrightarrow> mask_ok s \<Longrightarrow> mask_ok (genMask_assign fresh a s)"
proof -
  assume ok: "mask_ok a" "mask_ok s"
  have "nwords (genMask_assign fresh a s) = nwords (provide fresh (cap s) False a)"
    by (simp add: genMask_assign_def Let_def)
  then show ?thesis
    using ok assign_facts(1) [OF mask_okD mask_okD] provide_ok [OF ok(1)] by (simp add: mask_ok_def)
qed

lemma same_words_ok:
  "mask_ok a \<Longrightarrow> mask_ok (mask_remove value a)" "mask_ok a \<Longrightarrow> mask_ok (mask_clear a)"
  "mask_ok a \<Longrightarrow> mask_ok b \<Longrightarrow> mask_ok (mask_remove_all b a)"
  "mask_ok a \<Longrightarrow> mask_ok b \<Longrightarrow> mask_ok (mask_retain_all b a)"
proof -
  show "mask_ok a \<Longrightarrow> mask_ok (mask_remove value a)"
    by (rule mask_okI, assumption) (simp_all add: remove_facts(1) mask_okD, simp add: mask_remove_def Let_def)
  show "mask_ok a \<Longrightarrow> mask_ok (mask_clear a)"
    by (rule mask_okI, assumption) (simp_all add: clear_facts(1) mask_okD, simp add: mask_clear_def)
  show "mask_ok a \<Longrightarrow> mask_ok b \<Longrightarrow> mask_ok (mask_remove_all b a)"
    by (rule mask_okI, assumption) (simp_all add: remove_all_facts(1) mask_okD, simp add: mask_remove_all_def Let_def)
  show "mask_ok a \<Longrightarrow> mask_ok b \<Longrightarrow> mask_ok (mask_retain_all b a)"
    by (rule mask_okI, assumption) (simp_all add: retain_all_facts(1) mask_okD, simp add: mask_retain_all_def)
qed

text \<open>The capacity after an operation, without the words.\<close>

lemma provide_size:
  "cap (provide fresh rng clr m) = nwords (provide fresh rng clr m) * LENGTH('w) \<or> rng \<le> cap m"
  "nwords (provide fresh rng clr m) = (if rng > cap m then grow ((rng + LENGTH('w) - 1) div LENGTH('w)) (max 1 (nwords m)) else nwords m)"
  for m :: "'w::len word genMask"
  by (auto simp: provide_def Let_def max_def)

lemma size_add:
  "nwords (mask_add fresh value m) =
     (if low16 value + 1 > cap m then grow ((low16 value + 1 + LENGTH('w) - 1) div LENGTH('w)) (max 1 (nwords m)) else nwords m)"
  for m :: "'w::len word genMask"
  using provide_size(2) [of fresh "low16 value + 1" True m] by (simp add: mask_add_def Let_def)

lemma cap_of_words: "mask_ok m \<Longrightarrow> cap m = nwords m * LENGTH('w)" for m :: "'w::len word genMask"
  by (simp add: mask_ok_def mask_inv_def)

text \<open>C15: the operations of \<^verbatim>\<open>genMask\<close> are those of finite sets of numbers below 65536, and keep
  its invariant: adding and removing an element (of which the low 16 bits count), clearing,
  assignment, the updates with another set, difference, intersection and the comparisons.\<close>

theorem mask_refines_set:
  assumes "mask_ok a" "mask_ok b"
  shows "(mask_ok (mask_add fresh value a) \<and> els (mask_add fresh value a) = insert (unat value mod 65536) (els a)) \<and>
    (mask_ok (mask_remove value a) \<and> els (mask_remove value a) = els a - {unat value mod 65536}) \<and>
    (mask_ok (mask_clear a) \<and> els (mask_clear a) = {}) \<and>
    (mask_ok (genMask_assign fresh a b) \<and> els (genMask_assign fresh a b) = els b) \<and>
    (mask_ok (mask_add_all fresh b a) \<and> els (mask_add_all fresh b a) = els a \<union> els b) \<and>
    (mask_ok (mask_remove_all b a) \<and> els (mask_remove_all b a) = els a - els b) \<and>
    (mask_ok (mask_retain_all b a) \<and> els (mask_retain_all b a) = els a \<inter> els b) \<and>
    (mask_ok (mask_difference fresh a b) \<and> els (mask_difference fresh a b) = els a - els b) \<and>
    (mask_ok (mask_intersection fresh a b) \<and> els (mask_intersection fresh a b) = els a \<inter> els b) \<and>
    (mask_empty a = (els a = {})) \<and> (mask_equals a b = (els a = els b)) \<and> (mask_differs a b = (els a \<noteq> els b))"
proof -
  note inv = mask_okD [OF assms(1)] mask_okD [OF assms(2)]
  show ?thesis
    using add_facts(2) [OF inv(1)] remove_facts(2) [OF inv(1)] assign_facts(2) [OF inv] add_all_facts(2) [OF inv]
      remove_all_facts(2) [OF inv] retain_all_facts(2) [OF inv] difference_facts [OF assms] intersection_facts [OF assms]
      empty_facts [OF inv(1)] equals_facts [OF inv] clear_facts(2) [of a] add_ok [OF assms(1)] add_all_ok [OF assms] assign_ok [OF assms]
      same_words_ok(1,2) [OF assms(1)] same_words_ok(3,4) [OF assms]
    by (simp add: low16_mod)
qed

definition example_mask :: "64 word genMask" where
  "example_mask = mask_add (\<lambda>_. 0) 70 (mask_add (\<lambda>_. 0) 40 (mask_add (\<lambda>_. 0) 7 (genMask_new (\<lambda>_. 0) 256 True)))"

lemma example_mask_ok: "mask_ok example_mask"
  unfolding example_mask_def by (intro add_ok new_mask_ok)

lemma example_mask_els: "els example_mask = {7, 40, 70}"
proof -
  have "mask_inv (genMask_new (\<lambda>_. 0) 256 True :: 64 word genMask)" by (rule new_mask(1))
  then show ?thesis
    unfolding example_mask_def by (simp add: add_facts new_mask(2) low16_mod) blast
qed

theorem mask_refines_set_witness:
  "els (mask_intersection (\<lambda>_. 3) example_mask (mask_clear example_mask)) = {} \<and>
   els (mask_add (\<lambda>_. 3) 65543 example_mask) = {7, 40, 70}"
  using mask_refines_set [OF example_mask_ok same_words_ok(2) [OF example_mask_ok], of "\<lambda>_. 3" 65543]
  by (auto simp: example_mask_els clear_facts)

lemma example_mask_size: "nwords example_mask = 4" "cap example_mask = 256"
proof -
  have new: "nwords (genMask_new (\<lambda>_. 0) 256 True :: 64 word genMask) = 4"
    using provide_size(2) [of "\<lambda>_. 0 :: 64 word" 256 True no_mask]
    by (simp add: genMask_new_def Let_def low16_mod no_mask_def grow.simps)
  have "cap (genMask_new (\<lambda>_. 0) 256 True :: 64 word genMask) = 256"
    using cap_of_words [OF new_mask_ok, of "\<lambda>_. 0 :: 64 word" 256 True] new by simp
  then have "nwords (mask_add (\<lambda>_. 0) 7 (genMask_new (\<lambda>_. 0) 256 True :: 64 word genMask)) = 4"
    using new by (simp add: size_add low16_mod)
  then have "nwords (mask_add (\<lambda>_. 0) 40 (mask_add (\<lambda>_. 0) 7 (genMask_new (\<lambda>_. 0) 256 True :: 64 word genMask))) = 4"
    using cap_of_words [OF add_ok [OF new_mask_ok], of "\<lambda>_. 0 :: 64 word" 7 "\<lambda>_. 0" 256 True]
    by (simp add: size_add [of _ 40] low16_mod)
  then show n: "nwords example_mask = 4"
    using cap_of_words [OF add_ok [OF add_ok [OF new_mask_ok]], of "\<lambda>_. 0 :: 64 word" 40 "\<lambda>_. 0" 7 "\<lambda>_. 0" 256 True]
    by (simp add: example_mask_def size_add [of _ 70] low16_mod)
  show "cap example_mask = 256" using cap_of_words [OF example_mask_ok] n by simp
qed

text \<open>\<^verbatim>\<open>peek\<close> from -1 on visits the elements of a set in ascending order and ends, and so does
  emptying the set with \<^verbatim>\<open>pop\<close>.\<close>

theorem mask_loops_sorted:
  assumes "mask_ok m" "card (els m) \<le> fuel"
  shows "walk mask_peek fuel m (mask_peek (-1) m) = map int (sorted_list_of_set (els m)) \<and>
    drain mask_pop fuel m = map int (sorted_list_of_set (els m))"
  using gm.walk_sorted gm.drain_sorted mask_okD [OF assms(1)] assms(2) by blast

theorem mask_loops_sorted_witness:
  "walk mask_peek 3 example_mask (mask_peek (-1) example_mask) = [7, 40, 70]"
  using mask_loops_sorted [OF example_mask_ok, of 3] by (simp add: example_mask_els)

text \<open>Where \<^verbatim>\<open>unsigned long\<close> has at most 32 bits, \<^verbatim>\<open>includes\<close> tells whether a number is in the
  set. With wider words its result is cut to an \<^verbatim>\<open>int\<close>: the elements in the upper half of a
  word are not found.\<close>

theorem includes_sees_low_bits:
  assumes "mask_ok (m :: 'w::len word genMask)"
  shows "mask_includes value m \<noteq> 0 \<longleftrightarrow> unat value mod 65536 \<in> els m \<and> unat value mod 65536 mod LENGTH('w) < 32"
  using includes_facts [OF mask_okD [OF assms]] by (simp add: low16_mod)

theorem includes_sees_low_bits_witness:
  "mask_includes 7 example_mask \<noteq> 0 \<and> mask_includes 40 example_mask = 0 \<and> 40 \<in> els example_mask"
  using includes_sees_low_bits [OF example_mask_ok, of 7] includes_sees_low_bits [OF example_mask_ok, of 40]
  by (simp add: example_mask_els)

text \<open>The sum of two sets is their union as long as both have room for less than 65536 numbers.\<close>

theorem mask_union_is_union:
  assumes "mask_ok a" "mask_ok b" "cap a < 65536" "cap b < 65536"
  shows "\<exists>m. mask_union fresh a b = Some m \<and> mask_ok m \<and> els m = els a \<union> els b"
  using union_facts(1) [OF assms] .

theorem mask_union_is_union_witness:
  "\<exists>m. mask_union (\<lambda>_. 9) example_mask example_mask = Some m \<and> els m = {7, 40, 70}"
  using mask_union_is_union [OF example_mask_ok example_mask_ok, of "\<lambda>_. 9"] by (auto simp: example_mask_els example_mask_size)

text \<open>When the larger set has room for 65536 numbers, as after adding one from 32768 on, the
  sum writes past the end of the new set: the constructor cuts the capacity to 16 bits.\<close>

theorem mask_union_overflows:
  assumes "mask_ok (a :: 'w::len word genMask)" "mask_ok b" "cap a = 65536" "nwords b \<le> nwords a" "LENGTH('w) < 65536"
  shows "mask_union fresh a b = None"
  using union_facts(2) [OF assms(1,2,3,5,4)] .

theorem mask_union_overflows_witness:
  "mask_union (\<lambda>_. 0) (mask_add (\<lambda>_. 0) 40000 example_mask) example_mask = None"
proof (rule mask_union_overflows)
  show "mask_ok (mask_add (\<lambda>_. 0) 40000 example_mask)" by (intro add_ok example_mask_ok)
  have n: "nwords (mask_add (\<lambda>_. 0) 40000 example_mask) = 1024"
    by (simp add: size_add low16_mod example_mask_size grow.simps)
  then show "cap (mask_add (\<lambda>_. 0) 40000 example_mask) = 65536"
    using cap_of_words [OF add_ok [OF example_mask_ok], of "\<lambda>_. 0" 40000] by simp
  show "nwords example_mask \<le> nwords (mask_add (\<lambda>_. 0) 40000 example_mask)"
    using n by (simp add: example_mask_size)
qed (simp_all add: example_mask_ok)

end
