(* ===== verification/Obj_Tree.thy ===== *)
theory Obj_Tree
  imports Prelude "HOL-Library.Monad_Syntax"
begin

text \<open>
  The class \<^verbatim>\<open>objTree\<close> of \<^verbatim>\<open>model_server/obj\<close>: the tree links that every tree of the model
  server is made of. The nodes live in a store of addresses, where 0 is the null pointer. A
  call or an access through the null pointer is \<open>None\<close>, and so is a loop that does not end: the
  loops follow links, and end on the stores that represent trees.
\<close>

section \<open>Links\<close>

type_synonym addr = nat

record links =
  tree_parent :: addr
  tree_first :: addr
  tree_next :: addr
  tree_prev :: addr

type_synonym store = "addr \<Rightarrow> links"

definition objTree_new :: "addr \<Rightarrow> store \<Rightarrow> store" where
  "objTree_new x h = h(x := \<lparr>tree_parent = 0, tree_first = 0, tree_next = 0, tree_prev = 0\<rparr>)"

definition objTree_copy :: "addr \<Rightarrow> addr \<Rightarrow> store \<Rightarrow> store" where
  "objTree_copy original x h = h(x := \<lparr>tree_parent = 0, tree_first = 0, tree_next = 0, tree_prev = 0\<rparr>)"

definition objTree_assign :: "addr \<Rightarrow> addr \<Rightarrow> store \<Rightarrow> store" where
  "objTree_assign this other h = h"

abbreviation get_parent :: "store \<Rightarrow> addr \<Rightarrow> addr" where "get_parent h x \<equiv> tree_parent (h x)"
abbreviation get_first :: "store \<Rightarrow> addr \<Rightarrow> addr" where "get_first h x \<equiv> tree_first (h x)"
abbreviation get_next :: "store \<Rightarrow> addr \<Rightarrow> addr" where "get_next h x \<equiv> tree_next (h x)"
abbreviation get_prev :: "store \<Rightarrow> addr \<Rightarrow> addr" where "get_prev h x \<equiv> tree_prev (h x)"

definition put_parent_link :: "addr \<Rightarrow> addr \<Rightarrow> store \<Rightarrow> store option" where
  "put_parent_link this t h = (if this = 0 then None else Some (h(this := (h this)\<lparr>tree_parent := t\<rparr>)))"

definition put_first_link :: "addr \<Rightarrow> addr \<Rightarrow> store \<Rightarrow> store option" where
  "put_first_link this t h = (if this = 0 then None else Some (h(this := (h this)\<lparr>tree_first := t\<rparr>)))"

definition put_next_link :: "addr \<Rightarrow> addr \<Rightarrow> store \<Rightarrow> store option" where
  "put_next_link this t h =
     (if this = 0 then None
      else let h = h(this := (h this)\<lparr>tree_next := t\<rparr>)
           in Some (if t \<noteq> 0 then h(t := (h t)\<lparr>tree_prev := this\<rparr>) else h))"

definition put_prev_link :: "addr \<Rightarrow> addr \<Rightarrow> store \<Rightarrow> store option" where
  "put_prev_link this t h =
     (if this = 0 then None
      else let h = h(this := (h this)\<lparr>tree_prev := t\<rparr>)
           in Some (if t \<noteq> 0 then h(t := (h t)\<lparr>tree_next := this\<rparr>) else h))"

lemmas put_link_defs = put_parent_link_def put_first_link_def put_next_link_def put_prev_link_def

section \<open>Changing the tree\<close>

definition remove_from_tree :: "addr \<Rightarrow> store \<Rightarrow> store option" where
  "remove_from_tree this h =
     (if this = 0 then None else do {
        h \<leftarrow> (if get_prev h this = 0 then do {
               h \<leftarrow> (if get_parent h this \<noteq> 0 then put_first_link (get_parent h this) (get_next h this) h else Some h);
               (if get_next h this \<noteq> 0 then put_prev_link (get_next h this) 0 h else Some h)
             } else put_next_link (get_prev h this) (get_next h this) h);
        h \<leftarrow> put_next_link this 0 h;
        h \<leftarrow> put_prev_link this 0 h;
        put_parent_link this 0 h
      })"

definition put_before :: "addr \<Rightarrow> addr \<Rightarrow> store \<Rightarrow> store option" where
  "put_before this t h =
     (if this = 0 then None else do {
        let parent = get_parent h this;
        h \<leftarrow> remove_from_tree t h;
        h \<leftarrow> put_prev_link t (get_prev h this) h;
        h \<leftarrow> put_prev_link this t h;
        h \<leftarrow> put_parent_link t parent h;
        (if get_prev h t = 0 then put_first_link parent t h else Some h)
      })"

definition put_after :: "addr \<Rightarrow> addr \<Rightarrow> store \<Rightarrow> store option" where
  "put_after this t h =
     (if this = 0 then None else do {
        h \<leftarrow> remove_from_tree t h;
        h \<leftarrow> put_next_link t (get_next h this) h;
        h \<leftarrow> put_next_link this t h;
        put_parent_link t (get_parent h this) h
      })"

definition put_first :: "addr \<Rightarrow> addr \<Rightarrow> store \<Rightarrow> store option" where
  "put_first this t h =
     (if this = 0 then None else do {
        h \<leftarrow> remove_from_tree t h;
        h \<leftarrow> put_parent_link t this h;
        h \<leftarrow> put_next_link t (get_first h this) h;
        put_first_link this t h
      })"

text \<open>The loops of \<^verbatim>\<open>add_parent_to_list\<close> and \<^verbatim>\<open>splice\<close>; the second gives the last node.\<close>

partial_function (option) adopt_list :: "addr \<Rightarrow> addr \<Rightarrow> addr \<Rightarrow> store \<Rightarrow> store option" where
  "adopt_list this t2a cr h =
     do { h \<leftarrow> put_parent_link cr this h;
          if cr = t2a then Some h else adopt_list this t2a (get_next h cr) h }"

partial_function (option) adopt_chain :: "addr \<Rightarrow> addr \<Rightarrow> addr \<Rightarrow> store \<Rightarrow> (store \<times> addr) option" where
  "adopt_chain par t lst h =
     (if t = 0 then Some (h, lst)
      else do { h \<leftarrow> put_parent_link t par h; adopt_chain par (get_next h t) t h })"

definition add_parent_to_list :: "addr \<Rightarrow> addr \<Rightarrow> addr \<Rightarrow> store \<Rightarrow> store option" where
  "add_parent_to_list this t1a t2a h =
     (if t1a = 0 \<or> t2a = 0 then None else do {
        let cr = get_parent h t1a;
        h \<leftarrow> (if get_prev h t1a = 0 then put_first_link cr this h else Some h);
        h \<leftarrow> put_parent_link this cr h;
        h \<leftarrow> put_prev_link this (get_prev h t1a) h;
        h \<leftarrow> put_next_link this (get_next h t2a) h;
        h \<leftarrow> put_first_link this t1a h;
        h \<leftarrow> put_prev_link t1a 0 h;
        h \<leftarrow> put_next_link t2a 0 h;
        adopt_list this t2a t1a h
      })"

text \<open>The assertions \<^verbatim>\<open>Assert(par)\<close> and \<^verbatim>\<open>Assert(fst)\<close> are \<open>None\<close> when they fail; then \<^verbatim>\<open>lst\<close> is
  assigned by the loop.\<close>

definition splice :: "addr \<Rightarrow> store \<Rightarrow> store option" where
  "splice this h =
     (if this = 0 then None else
      let par = get_parent h this; prv = get_prev h this; nxt = get_next h this; fst = get_first h this
      in if par = 0 \<or> fst = 0 then None else do {
        h \<leftarrow> put_parent_link this 0 h;
        h \<leftarrow> put_first_link this 0 h;
        (h, lst) \<leftarrow> adopt_chain par fst 0 h;
        h \<leftarrow> (if prv = 0 then put_first_link par (if fst \<noteq> 0 then fst else nxt) h
             else do { h \<leftarrow> put_prev_link this 0 h; put_next_link prv (if fst \<noteq> 0 then fst else nxt) h });
        (if nxt \<noteq> 0 then do { h \<leftarrow> put_next_link this 0 h; put_prev_link nxt (if lst \<noteq> 0 then lst else prv) h }
         else Some h)
      })"

partial_function (option) remove_children :: "addr \<Rightarrow> store \<Rightarrow> store option" where
  "remove_children cur h =
     (if cur = 0 then Some h
      else let next_child = get_next h cur
           in do { h \<leftarrow> remove_from_tree cur h; remove_children next_child h })"

definition tree_remove :: "addr \<Rightarrow> store \<Rightarrow> store option" where
  "tree_remove this h =
     (if this = 0 then None
      else let cur = get_first h this in do { h \<leftarrow> remove_from_tree this h; remove_children cur h })"

text \<open>The destructor.\<close>

definition objTree_delete :: "addr \<Rightarrow> store \<Rightarrow> store option" where
  "objTree_delete this h = tree_remove this h"

partial_function (option) adopt_rest :: "addr \<Rightarrow> addr \<Rightarrow> addr \<Rightarrow> store \<Rightarrow> store option" where
  "adopt_rest this foster last_adopted h =
     (let adopted = get_next h this
      in if adopted = 0 then Some h else do {
           h \<leftarrow> remove_from_tree adopted h;
           h \<leftarrow> (if last_adopted \<noteq> 0 then put_after last_adopted adopted h
                 else if foster = 0 then None
                 else if get_first h foster = 0 then put_first foster adopted h
                 else put_after (get_first h foster) adopted h);
           adopt_rest this foster adopted h
         })"

definition split_family :: "addr \<Rightarrow> addr \<Rightarrow> store \<Rightarrow> store option" where
  "split_family this foster h =
     (if this = 0 then None else do {
        let old_parent = get_parent h this;
        h \<leftarrow> adopt_rest this foster 0 h;
        if old_parent = 0 then None
        else if get_parent h old_parent \<noteq> 0 then put_after old_parent foster h
        else put_after this foster h
      })"

text \<open>The virtual \<^verbatim>\<open>rel_copy\<close> is a parameter; \<open>None\<close> is \<^verbatim>\<open>Error(MISSED_TOP)\<close> too.\<close>

partial_function (option) split_tree_path ::
  "(addr \<Rightarrow> store \<Rightarrow> addr \<times> store) \<Rightarrow> addr \<Rightarrow> addr \<Rightarrow> store \<Rightarrow> store option" where
  "split_tree_path rel_copy bottom_node top_node h =
     (let bottom_parent = get_parent h bottom_node
      in if bottom_node = 0 \<or> bottom_parent = 0 then None else
         let (new_parent, h) = rel_copy bottom_parent h
         in do { h \<leftarrow> split_family bottom_node new_parent h;
                 if bottom_parent \<noteq> top_node then split_tree_path rel_copy bottom_parent top_node h else Some h })"

section \<open>Ancestors\<close>

partial_function (option) depth_loop :: "store \<Rightarrow> addr \<Rightarrow> int \<Rightarrow> int option" where
  "depth_loop h cur d = (if cur = 0 then Some d else depth_loop h (get_parent h cur) (d + 1))"

definition depth :: "store \<Rightarrow> addr \<Rightarrow> int option" where
  "depth h this = depth_loop h this (- 1)"

text \<open>\<open>n\<close> steps to the parent.\<close>

fun climb_up :: "store \<Rightarrow> nat \<Rightarrow> addr \<Rightarrow> addr option" where
  "climb_up h 0 x = Some x"
| "climb_up h (Suc n) x = (if x = 0 then None else climb_up h n (get_parent h x))"

partial_function (option) common_loop :: "store \<Rightarrow> addr \<Rightarrow> addr \<Rightarrow> addr \<Rightarrow> addr \<Rightarrow> (addr \<times> addr \<times> addr) option" where
  "common_loop h node1 node2 x1 x2 =
     (if node1 = node2 then Some (node1, x1, x2)
      else if node1 = 0 \<or> node2 = 0 then None
      else common_loop h (get_parent h node1) (get_parent h node2) node1 node2)"

definition obj_tree_common_root :: "store \<Rightarrow> addr \<Rightarrow> addr \<Rightarrow> (addr \<times> addr \<times> addr) option" where
  "obj_tree_common_root h node1 node2 =
     (if node1 = 0 \<or> node2 = 0 then None else do {
        d2 \<leftarrow> depth h node2;
        d1 \<leftarrow> depth h node1;
        let delta = d2 - d1;
        (node1, node2) \<leftarrow> (if delta > 0 then map_option (Pair node1) (climb_up h (nat delta) node2)
                           else map_option (\<lambda>n. (n, node2)) (climb_up h (nat (- delta)) node1));
        common_loop h node1 node2 0 0
      })"

partial_function (option) chain_includes :: "store \<Rightarrow> addr \<Rightarrow> addr \<Rightarrow> bool option" where
  "chain_includes h cur node2 =
     (if cur = 0 then Some False else if cur = node2 then Some True else chain_includes h (get_next h cur) node2)"

definition is_before :: "store \<Rightarrow> addr \<Rightarrow> addr \<Rightarrow> bool option" where
  "is_before h node1 node2 = do { (r, n1, n2) \<leftarrow> obj_tree_common_root h node1 node2; chain_includes h n1 n2 }"

definition is_between :: "store \<Rightarrow> addr \<Rightarrow> addr \<Rightarrow> addr \<Rightarrow> bool option" where
  "is_between h this n1 n2 = do { b \<leftarrow> is_before h n1 this; if b then is_before h this n2 else Some False }"

partial_function (option) subtree_of :: "store \<Rightarrow> addr \<Rightarrow> addr \<Rightarrow> bool option" where
  "subtree_of h cur root =
     (if cur = 0 then Some False else if cur = root then Some True else subtree_of h (get_parent h cur) root)"

partial_function (option) root_loop :: "store \<Rightarrow> addr \<Rightarrow> addr \<Rightarrow> addr option" where
  "root_loop h par cur = (if par = 0 then Some cur else root_loop h (get_parent h par) par)"

definition get_root :: "store \<Rightarrow> addr \<Rightarrow> addr option" where
  "get_root h this = (if this = 0 then None else root_loop h this 0)"

definition get_root_with :: "store \<Rightarrow> addr \<Rightarrow> addr \<Rightarrow> addr option" where
  "get_root_with h this node = map_option (\<lambda>(r, n1, n2). r) (obj_tree_common_root h this node)"

section \<open>Children and leaves\<close>

partial_function (option) last_loop :: "store \<Rightarrow> addr \<Rightarrow> addr \<Rightarrow> addr option" where
  "last_loop h t p = (if t = 0 then Some p else last_loop h (get_next h t) t)"

definition get_last :: "store \<Rightarrow> addr \<Rightarrow> addr option" where
  "get_last h this = (if this = 0 then None else last_loop h (get_first h this) 0)"

partial_function (option) next_last_loop :: "store \<Rightarrow> addr \<Rightarrow> addr option" where
  "next_last_loop h cur = (if get_next h cur \<noteq> 0 then next_last_loop h (get_next h cur) else Some cur)"

definition get_next_last :: "store \<Rightarrow> addr \<Rightarrow> addr option" where
  "get_next_last h this = (if this = 0 then None else next_last_loop h this)"

partial_function (option) first_leaf_loop :: "store \<Rightarrow> addr \<Rightarrow> addr \<Rightarrow> addr option" where
  "first_leaf_loop h t l = (if t = 0 then Some l else first_leaf_loop h (get_first h t) t)"

definition get_first_leaf :: "store \<Rightarrow> addr \<Rightarrow> addr option" where
  "get_first_leaf h this = first_leaf_loop h this this"

partial_function (option) last_leaf_loop :: "store \<Rightarrow> addr \<Rightarrow> addr \<Rightarrow> addr option" where
  "last_leaf_loop h t l = (if t = 0 then Some l else do { t' \<leftarrow> get_last h t; last_leaf_loop h t' t })"

definition get_last_leaf :: "store \<Rightarrow> addr \<Rightarrow> addr option" where
  "get_last_leaf h this = last_leaf_loop h this this"

text \<open>The inner loop of \<^verbatim>\<open>get_next_leaf\<close> (\<open>sib\<close> is the next link) and of \<^verbatim>\<open>get_prev_leaf\<close> (the
  previous link): the values of \<^verbatim>\<open>t\<close> and \<^verbatim>\<open>w\<close> when it ends. \<^verbatim>\<open>w\<close> is 0 when it starts.\<close>

partial_function (option) climb_to_sibling ::
  "(addr \<Rightarrow> addr) \<Rightarrow> store \<Rightarrow> addr \<Rightarrow> addr \<Rightarrow> (addr \<times> addr) option" where
  "climb_to_sibling sib h root t =
     (if t \<noteq> 0 \<and> t \<noteq> root then
        if sib t \<noteq> 0 then Some (t, sib t) else climb_to_sibling sib h root (get_parent h t)
      else Some (t, 0))"

partial_function (option) next_leaf_loop :: "store \<Rightarrow> addr \<Rightarrow> addr \<Rightarrow> addr \<Rightarrow> addr option" where
  "next_leaf_loop h root this t =
     (if t = 0 then Some t
      else if get_first h t \<noteq> 0 then next_leaf_loop h root this (get_first h t)
      else if t \<noteq> this then Some t
      else do { (t, w) \<leftarrow> climb_to_sibling (get_next h) h root t;
                if t = root then Some 0 else next_leaf_loop h root this w })"

definition get_next_leaf :: "store \<Rightarrow> addr \<Rightarrow> addr \<Rightarrow> addr option" where
  "get_next_leaf h this root = (if this = 0 then None else next_leaf_loop h root this this)"

partial_function (option) prev_leaf_loop :: "store \<Rightarrow> addr \<Rightarrow> addr \<Rightarrow> addr \<Rightarrow> addr option" where
  "prev_leaf_loop h root this t =
     (if t = 0 then Some t else do {
        w \<leftarrow> get_last h t;
        if w \<noteq> 0 then prev_leaf_loop h root this w
        else if t \<noteq> this then Some t
        else do { (t, w) \<leftarrow> climb_to_sibling (get_prev h) h root t;
                  if t = root then Some 0 else prev_leaf_loop h root this w } })"

definition get_prev_leaf :: "store \<Rightarrow> addr \<Rightarrow> addr \<Rightarrow> addr option" where
  "get_prev_leaf h this root = (if this = 0 then None else prev_leaf_loop h root this this)"

text \<open>The recursion of \<^verbatim>\<open>obj_tree_get_leaves\<close> is in its loop over the children; a collection is
  the list of its elements.\<close>

partial_function (option) get_leaves_loop :: "store \<Rightarrow> addr \<Rightarrow> addr list \<Rightarrow> addr list option" where
  "get_leaves_loop h cur coll =
     (if cur = 0 then Some coll else do {
        coll \<leftarrow> (if get_first h cur = 0 then Some (coll @ [cur]) else get_leaves_loop h (get_first h cur) coll);
        get_leaves_loop h (get_next h cur) coll
      })"

definition obj_tree_get_leaves :: "store \<Rightarrow> addr \<Rightarrow> addr list \<Rightarrow> addr list option" where
  "obj_tree_get_leaves h root coll =
     (if root = 0 then None
      else if get_first h root = 0 then Some (coll @ [root]) else get_leaves_loop h (get_first h root) coll)"

text \<open>\<^verbatim>\<open>Relational::propagate\<close> is the parameter; \<^verbatim>\<open>relationMode::USDC\<close> is 58.\<close>

partial_function (option) collect_chain :: "store \<Rightarrow> addr \<Rightarrow> addr list \<Rightarrow> addr list option" where
  "collect_chain h t arr = (if t = 0 then Some arr else collect_chain h (get_next h t) (arr @ [t]))"

definition propagate :: "(u32 \<Rightarrow> addr list \<Rightarrow> addr list) \<Rightarrow> store \<Rightarrow> addr \<Rightarrow> u32 \<Rightarrow> addr list \<Rightarrow> addr list option" where
  "propagate rel h this flag arr =
     (let arr = rel flag arr
      in if flag AND 58 \<noteq> 0 then collect_chain h (get_first h this) arr else Some arr)"

end
