(* ===== verification/Tree_Refinement.thy ===== *)
theory Tree_Refinement
  imports Obj_Tree
begin

text \<open>
  What a store of tree nodes represents: for each node the list of its children. The changes of
  the links are two updates of the store, \<open>unlink\<close> and \<open>link_in\<close>, which are those of the lists.
\<close>

section \<open>Doubly linked lists of siblings\<close>

fun dseg :: "store \<Rightarrow> addr \<Rightarrow> addr \<Rightarrow> addr list \<Rightarrow> addr \<Rightarrow> bool" where
  "dseg h p l [] n \<longleftrightarrow> True"
| "dseg h p l (a # as) n \<longleftrightarrow>
     a \<noteq> 0 \<and> get_parent h a = p \<and> get_prev h a = l \<and> get_next h a = hd (as @ [n]) \<and> dseg h p a as n"

lemma dseg_append: "dseg h p l (as @ bs) n \<longleftrightarrow> dseg h p l as (hd (bs @ [n])) \<and> dseg h p (last (l # as)) bs n"
  by (induction as arbitrary: l) (auto simp: hd_append)

lemma dseg_iff:
  "dseg h p l as n \<longleftrightarrow> (\<forall>xs a ys. as = xs @ a # ys \<longrightarrow>
     a \<noteq> 0 \<and> get_parent h a = p \<and> get_prev h a = last (l # xs) \<and> get_next h a = hd (ys @ [n]))"
proof (induction as arbitrary: l)
  case (Cons b as)
  show ?case
  proof
    assume d: "dseg h p l (b # as) n"
    show "\<forall>xs a ys. b # as = xs @ a # ys \<longrightarrow>
      a \<noteq> 0 \<and> get_parent h a = p \<and> get_prev h a = last (l # xs) \<and> get_next h a = hd (ys @ [n])"
    proof (intro allI impI)
      fix xs a ys
      assume "b # as = xs @ a # ys"
      then show "a \<noteq> 0 \<and> get_parent h a = p \<and> get_prev h a = last (l # xs) \<and> get_next h a = hd (ys @ [n])"
        using d by (cases xs) (auto simp: dseg_append)
    qed
  next
    assume r: "\<forall>xs a ys. b # as = xs @ a # ys \<longrightarrow>
      a \<noteq> 0 \<and> get_parent h a = p \<and> get_prev h a = last (l # xs) \<and> get_next h a = hd (ys @ [n])"
    have "dseg h p b as n"
      unfolding Cons.IH
    proof (intro allI impI)
      fix xs a ys
      assume "as = xs @ a # ys"
      then show "a \<noteq> 0 \<and> get_parent h a = p \<and> get_prev h a = last (b # xs) \<and> get_next h a = hd (ys @ [n])"
        using r [rule_format, of "b # xs" a ys] by simp
    qed
    then show "dseg h p l (b # as) n" using r [rule_format, of "[]" b as] by simp
  qed
qed simp

lemma dseg_change:
  assumes "dseg h p l as n" "distinct as"
    and "\<And>a. a \<in> set as \<Longrightarrow> get_parent h' a = p'"
    and "\<And>a. a \<in> set as \<Longrightarrow> get_next h' a = (if a = last as then n' else get_next h a)"
    and "\<And>a. a \<in> set as \<Longrightarrow> get_prev h' a = (if a = hd as then l' else get_prev h a)"
  shows "dseg h' p' l' as n'"
  unfolding dseg_iff
proof (intro allI impI)
  fix xs a ys
  assume as: "as = xs @ a # ys"
  have old: "a \<noteq> 0 \<and> get_parent h a = p \<and> get_prev h a = last (l # xs) \<and> get_next h a = hd (ys @ [n])"
    using assms(1) as unfolding dseg_iff by blast
  have "a = last as \<longleftrightarrow> ys = []" using as assms(2) by (cases ys rule: rev_cases) auto
  moreover have "a = hd as \<longleftrightarrow> xs = []" using as assms(2) by (cases xs) auto
  moreover have "a \<in> set as" using as by simp
  ultimately show "a \<noteq> 0 \<and> get_parent h' a = p' \<and> get_prev h' a = last (l' # xs) \<and> get_next h' a = hd (ys @ [n'])"
    using old assms(3-5) [of a] by (cases ys) auto
qed

lemma dseg_ends:
  "dseg h p l as n \<Longrightarrow> as \<noteq> [] \<Longrightarrow> get_prev h (hd as) = l \<and> get_next h (last as) = n"
  by (cases as rule: rev_cases) (auto simp: dseg_append hd_append neq_Nil_conv)

lemma dseg_relast:
  assumes "dseg h p l as n" "distinct as"
    and "\<And>a. a \<in> set as \<Longrightarrow> get_parent h' a = p \<and> get_prev h' a = get_prev h a"
    and "\<And>a. a \<in> set as \<Longrightarrow> get_next h' a = (if a = last as then n' else get_next h a)"
  shows "dseg h' p l as n'"
proof (rule dseg_change [OF assms(1,2)])
  fix a
  assume a: "a \<in> set as"
  then have "get_prev h (hd as) = l \<and> get_next h (last as) = n" using dseg_ends [OF assms(1)] by (cases as) auto
  then show "get_parent h' a = p" "get_next h' a = (if a = last as then n' else get_next h a)"
    "get_prev h' a = (if a = hd as then l else get_prev h a)"
    using assms(3,4) [OF a] by auto
qed

lemma dseg_rehead:
  assumes "dseg h p l as n" "distinct as"
    and "\<And>a. a \<in> set as \<Longrightarrow> get_parent h' a = p \<and> get_next h' a = get_next h a"
    and "\<And>a. a \<in> set as \<Longrightarrow> get_prev h' a = (if a = hd as then l' else get_prev h a)"
  shows "dseg h' p l' as n"
proof (rule dseg_change [OF assms(1,2)])
  fix a
  assume a: "a \<in> set as"
  then have "get_prev h (hd as) = l \<and> get_next h (last as) = n" using dseg_ends [OF assms(1)] by (cases as) auto
  then show "get_parent h' a = p" "get_next h' a = (if a = last as then n else get_next h a)"
    "get_prev h' a = (if a = hd as then l' else get_prev h a)"
    using assms(3,4) [OF a] by auto
qed

lemma dseg_cong:
  assumes "dseg h p l as n"
    and "\<And>a. a \<in> set as \<Longrightarrow> get_parent h' a = get_parent h a \<and> get_next h' a = get_next h a \<and> get_prev h' a = get_prev h a"
  shows "dseg h' p l as n"
  using assms by (induction as arbitrary: l) auto

lemma dseg_nonzero: "dseg h p l as n \<Longrightarrow> 0 \<notin> set as"
  by (induction as arbitrary: l) auto

lemma dseg_unique:
  "dseg h p l as 0 \<Longrightarrow> dseg h p l' bs 0 \<Longrightarrow> hd (as @ [0]) = hd (bs @ [0]) \<Longrightarrow> as = bs"
proof (induction as arbitrary: l l' bs)
  case Nil
  then show ?case by (cases bs) auto
next
  case (Cons a as)
  then show ?case by (cases bs) auto
qed

lemma dseg_distinct: "dseg h p l as 0 \<Longrightarrow> distinct as"
proof (induction as arbitrary: l)
  case (Cons a as)
  have "a \<notin> set as"
  proof
    assume "a \<in> set as"
    then obtain xs ys where as: "as = xs @ a # ys" by (auto simp: in_set_conv_decomp)
    then have "dseg h p (last (a # xs)) (a # ys) 0" using Cons.prems by (auto simp: dseg_append)
    then have "a # as = a # ys" by (rule dseg_unique [OF Cons.prems]) simp
    then show False using as by simp
  qed
  then show ?case using Cons by auto
qed simp

section \<open>Stores that represent trees\<close>

type_synonym family = "addr \<Rightarrow> addr list"

definition up_links :: "store \<Rightarrow> (addr \<times> addr) set" where
  "up_links h = {(x, get_parent h x) |x. x \<noteq> 0 \<and> get_parent h x \<noteq> 0}"

definition trees :: "store \<Rightarrow> family \<Rightarrow> bool" where
  "trees h K \<longleftrightarrow> K 0 = [] \<and>
     (\<forall>p. p \<noteq> 0 \<longrightarrow> get_first h p = hd (K p @ [0]) \<and> dseg h p 0 (K p) 0) \<and>
     (\<forall>x. x \<noteq> 0 \<longrightarrow> (if get_parent h x = 0 then get_next h x = 0 \<and> get_prev h x = 0
                     else x \<in> set (K (get_parent h x)))) \<and>
     acyclic (up_links h) \<and> finite (up_links h)"

lemma treesD:
  assumes "trees h K"
  shows "K 0 = []" "p \<noteq> 0 \<Longrightarrow> get_first h p = hd (K p @ [0])" "p \<noteq> 0 \<Longrightarrow> dseg h p 0 (K p) 0"
    "x \<noteq> 0 \<Longrightarrow> get_parent h x = 0 \<Longrightarrow> get_next h x = 0 \<and> get_prev h x = 0"
    "x \<noteq> 0 \<Longrightarrow> get_parent h x \<noteq> 0 \<Longrightarrow> x \<in> set (K (get_parent h x))"
    "acyclic (up_links h)" "finite (up_links h)"
  using assms unfolding trees_def by (auto split: if_splits)

lemma kids_distinct: "trees h K \<Longrightarrow> distinct (K p)"
  using treesD(1) [of h K] treesD(3) [of h K p] dseg_distinct by (cases "p = 0") auto

lemma kid_iff:
  assumes "trees h K"
  shows "x \<in> set (K p) \<longleftrightarrow> x \<noteq> 0 \<and> p \<noteq> 0 \<and> get_parent h x = p"
proof (cases "p = 0")
  case False
  show ?thesis
  proof
    assume "x \<in> set (K p)"
    then obtain as bs where "K p = as @ x # bs" by (auto simp: in_set_conv_decomp)
    then show "x \<noteq> 0 \<and> p \<noteq> 0 \<and> get_parent h x = p" using treesD(3) [OF assms False] False by (simp add: dseg_append)
  next
    assume "x \<noteq> 0 \<and> p \<noteq> 0 \<and> get_parent h x = p"
    then show "x \<in> set (K p)" using treesD(5) [OF assms, of x] by auto
  qed
qed (use treesD(1) [OF assms] in auto)

lemma kid_links:
  assumes "trees h K" "K p = as @ x # bs"
  shows "get_prev h x = last (0 # as)" "get_next h x = hd (bs @ [0])" "get_parent h x = p" "x \<noteq> 0" "p \<noteq> 0"
    "x \<notin> set as" "x \<notin> set bs" "distinct as" "distinct bs" "set as \<inter> set bs = {}"
proof -
  have "x \<in> set (K p)" using assms(2) by simp
  then show p: "get_parent h x = p" "x \<noteq> 0" "p \<noteq> 0" using kid_iff [OF assms(1)] by auto
  show "get_prev h x = last (0 # as)" "get_next h x = hd (bs @ [0])"
    using treesD(3) [OF assms(1) p(3)] assms(2) by (simp_all add: dseg_append)
  show "x \<notin> set as" "x \<notin> set bs" "distinct as" "distinct bs" "set as \<inter> set bs = {}"
    using kids_distinct [OF assms(1), of p] assms(2) by auto
qed

lemma list_ends: "last (0 # as) = 0 \<or> last (0 # as) \<in> set as" "hd (bs @ [0]) = 0 \<or> hd (bs @ [0]) \<in> set bs"
  by (cases as rule: rev_cases; simp) (cases bs; simp)

lemma kid_ends:
  assumes "trees h K" "set as \<union> set bs \<subseteq> set (K p)" "y \<noteq> 0" "get_parent h y \<noteq> p"
  shows "y \<noteq> last (0 # as)" "y \<noteq> hd (bs @ [0])"
  using assms list_ends [of as] list_ends [of bs] kid_iff [OF assms(1), of y p] by auto

lemma no_self_parent: "trees h K \<Longrightarrow> x \<noteq> 0 \<Longrightarrow> get_parent h x \<noteq> x"
  using treesD(6) [of h K] unfolding acyclic_def up_links_def
  by (metis (mono_tags, lifting) mem_Collect_eq r_into_trancl)

text \<open>A change of the lists of the parents in \<open>P\<close>.\<close>

lemma trees_change:
  assumes T: "trees h K" and "0 \<notin> P"
    and "\<And>p. p \<in> P \<Longrightarrow> get_first h' p = hd (K' p @ [0])" "\<And>p. p \<in> P \<Longrightarrow> dseg h' p 0 (K' p) 0"
    and same: "\<And>q. q \<notin> P \<Longrightarrow> K' q = K q" "\<And>q. q \<notin> P \<Longrightarrow> q \<noteq> 0 \<Longrightarrow> get_first h' q = get_first h q"
    and keep: "\<And>y. y \<noteq> 0 \<Longrightarrow> get_parent h y \<noteq> 0 \<Longrightarrow> get_parent h y \<notin> P \<Longrightarrow>
      get_parent h' y = get_parent h y \<and> get_next h' y = get_next h y \<and> get_prev h' y = get_prev h y"
    and new: "\<And>y. y \<noteq> 0 \<Longrightarrow> get_parent h y = 0 \<or> get_parent h y \<in> P \<Longrightarrow>
      (if get_parent h' y = 0 then get_next h' y = 0 \<and> get_prev h' y = 0 else y \<in> set (K' (get_parent h' y)))"
    and "acyclic (up_links h')" "finite (up_links h')"
  shows "trees h' K'"
  unfolding trees_def
proof (intro conjI allI impI)
  show "K' 0 = []" using same(1) [of 0] assms(2) treesD(1) [OF T] by simp
next
  fix q :: addr
  assume q: "q \<noteq> 0"
  show "get_first h' q = hd (K' q @ [0])"
    using assms(3) same [of q] treesD(2) [OF T q] q by (cases "q \<in> P") auto
  show "dseg h' q 0 (K' q) 0"
  proof (cases "q \<in> P")
    case False
    have "dseg h' q 0 (K q) 0"
      by (rule dseg_cong [OF treesD(3) [OF T q]]) (use keep False kid_iff [OF T, of _ q] in auto)
    then show ?thesis using same(1) [OF False] by simp
  qed (rule assms(4))
next
  fix y :: addr
  assume y: "y \<noteq> 0"
  show "if get_parent h' y = 0 then get_next h' y = 0 \<and> get_prev h' y = 0 else y \<in> set (K' (get_parent h' y))"
  proof (cases "get_parent h y = 0 \<or> get_parent h y \<in> P")
    case False
    then show ?thesis using keep [OF y] same(1) treesD(5) [OF T y] by simp
  qed (rule new [OF y])
qed (use assms in auto)

section \<open>The two updates\<close>

definition unlink :: "addr \<Rightarrow> store \<Rightarrow> store" where
  "unlink x h = (\<lambda>y. \<lparr>
     tree_parent = (if y = x then 0 else get_parent h y),
     tree_first = (if y = get_parent h x \<and> y \<noteq> 0 \<and> get_prev h x = 0 then get_next h x else get_first h y),
     tree_next = (if y = x then 0 else if y = get_prev h x \<and> y \<noteq> 0 then get_next h x else get_next h y),
     tree_prev = (if y = x then 0 else if y = get_next h x \<and> y \<noteq> 0 then get_prev h x else get_prev h y)\<rparr>)"

definition link_in :: "addr \<Rightarrow> addr \<Rightarrow> addr \<Rightarrow> addr \<Rightarrow> store \<Rightarrow> store" where
  "link_in p t l n h = (\<lambda>y. \<lparr>
     tree_parent = (if y = t then p else get_parent h y),
     tree_first = (if y = p \<and> l = 0 then t else get_first h y),
     tree_next = (if y = t then n else if y = l \<and> y \<noteq> 0 then t else get_next h y),
     tree_prev = (if y = t then l else if y = n \<and> y \<noteq> 0 then t else get_prev h y)\<rparr>)"

lemma links_eqI:
  "get_parent h x = get_parent h' x' \<Longrightarrow> get_first h x = get_first h' x' \<Longrightarrow> get_next h x = get_next h' x' \<Longrightarrow>
   get_prev h x = get_prev h' x' \<Longrightarrow> h x = h' x'" for h h' :: store
  by (rule links.equality) simp_all

lemma remove_from_tree_eq: "x \<noteq> 0 \<Longrightarrow> remove_from_tree x h = Some (unlink x h)"
  by (auto simp: remove_from_tree_def put_link_defs unlink_def Let_def fun_eq_iff intro!: links.equality)

text \<open>What the updates keep: the other parents' lists.\<close>

lemma up_links_unlink: "up_links (unlink x h) = up_links h - {x} \<times> UNIV"
  by (auto simp: up_links_def unlink_def)

lemma up_links_link_in:
  "t \<noteq> 0 \<Longrightarrow> p \<noteq> 0 \<Longrightarrow> get_parent h t = 0 \<Longrightarrow> up_links (link_in p t l n h) = insert (t, p) (up_links h)"
  by (auto simp: up_links_def link_in_def)

lemma trees_unlink:
  assumes T: "trees h K" and x: "x \<noteq> 0"
  shows "trees (unlink x h) (K(get_parent h x := remove1 x (K (get_parent h x))))"
proof (cases "get_parent h x = 0")
  case True
  then have "unlink x h = h" using treesD(4) [OF T x] by (auto simp: unlink_def fun_eq_iff intro!: links.equality)
  then show ?thesis using T True treesD(1) [OF T] by (simp add: fun_upd_idem)
next
  case False
  define p where "p = get_parent h x"
  have "x \<in> set (K p)" using treesD(5) [OF T x] False by (simp add: p_def)
  then obtain as bs where K: "K p = as @ x # bs" by (auto simp: in_set_conv_decomp)
  note L = kid_links [OF T K]
  have rem: "remove1 x (K p) = as @ bs" using K L by (simp add: remove1_append)
  have seg: "dseg h p 0 as x" "dseg h p x bs 0"
    using treesD(3) [OF T L(5)] K by (auto simp: dseg_append)
  note nz = dseg_nonzero [OF seg(1)] dseg_nonzero [OF seg(2)]
  let ?h = "unlink x h"
  have "dseg ?h p 0 as (hd (bs @ [0]))"
  proof (rule dseg_relast [OF seg(1) L(8)])
    fix a
    assume a: "a \<in> set as"
    then have *: "a \<noteq> x" "get_parent h a = p" "a \<noteq> 0" "last (0 # as) = last as" "a \<noteq> hd (bs @ [0])"
      using L(6,10) nz list_ends [of bs] kid_iff [OF T, of a p] K by auto
    show "get_parent ?h a = p \<and> get_prev ?h a = get_prev h a"
      "get_next ?h a = (if a = last as then hd (bs @ [0]) else get_next h a)"
      using * by (simp_all add: unlink_def L(1,2))
  qed
  moreover have "dseg ?h p (last (0 # as)) bs 0"
  proof (rule dseg_rehead [OF seg(2) L(9)])
    fix a
    assume a: "a \<in> set bs"
    then have *: "a \<noteq> x" "get_parent h a = p" "a \<noteq> 0" "hd (bs @ [0]) = hd bs" "a \<noteq> last (0 # as)"
      using a L(7,10) nz list_ends [of as] kid_iff [OF T, of a p] K by (auto simp: hd_append)
    show "get_parent ?h a = p \<and> get_next ?h a = get_next h a"
      "get_prev ?h a = (if a = hd bs then last (0 # as) else get_prev h a)"
      using * by (simp_all add: unlink_def L(1,2))
  qed
  ultimately have seg': "dseg ?h p 0 (as @ bs) 0" by (simp add: dseg_append)
  have first': "get_first ?h p = hd ((as @ bs) @ [0])"
    using treesD(2) [OF T L(5)] K L nz by (cases as) (auto simp: unlink_def dest: last_in_set)
  have sub: "set as \<union> set bs \<subseteq> set (K p)" using K by auto
  have other: "get_next ?h y = get_next h y \<and> get_prev ?h y = get_prev h y" if "get_parent h y \<noteq> p" for y
  proof -
    have "y \<noteq> x" using that L(3) by auto
    moreover have "y = 0 \<or> y \<noteq> last (0 # as) \<and> y \<noteq> hd (bs @ [0])"
      using kid_ends [OF T sub, of y] that by auto
    ultimately show ?thesis unfolding unlink_def L(1,2) by auto
  qed
  have par: "get_parent ?h y = (if y = x then 0 else get_parent h y)" for y by (simp add: unlink_def)
  have own: "get_next ?h x = 0 \<and> get_prev ?h x = 0" by (simp add: unlink_def)
  show ?thesis
    unfolding p_def [symmetric] rem
  proof (rule trees_change [OF T, where P = "{p}"])
    fix y :: addr
    assume y: "y \<noteq> 0"
    show "get_parent ?h y = get_parent h y \<and> get_next ?h y = get_next h y \<and> get_prev ?h y = get_prev h y"
      if "get_parent h y \<noteq> 0" "get_parent h y \<notin> {p}"
      using that par other [of y] p_def by auto
    show "if get_parent ?h y = 0 then get_next ?h y = 0 \<and> get_prev ?h y = 0
      else y \<in> set ((K(p := as @ bs)) (get_parent ?h y))" if "get_parent h y = 0 \<or> get_parent h y \<in> {p}"
      using that par [of y] other [of y] own treesD(4) [OF T y] kid_iff [OF T, of y p] K y L(5) by auto
  next
    show "acyclic (up_links ?h)" "finite (up_links ?h)"
      using treesD(6,7) [OF T] by (auto simp: up_links_unlink intro: acyclic_subset)
  qed (use L(5) seg' first' in \<open>auto simp: unlink_def p_def [symmetric]\<close>)
qed

lemma trees_link_in:
  assumes T: "trees h K" and t: "t \<noteq> 0" "get_parent h t = 0" and p: "p \<noteq> 0" "(p, t) \<notin> (up_links h)\<^sup>*"
    and K: "K p = as @ bs"
  shows "trees (link_in p t (last (0 # as)) (hd (bs @ [0])) h) (K(p := as @ t # bs))"
proof -
  let ?h = "link_in p t (last (0 # as)) (hd (bs @ [0])) h"
  have seg: "dseg h p 0 as (hd (bs @ [0]))" "dseg h p (last (0 # as)) bs 0"
    using treesD(3) [OF T p(1)] K by (auto simp: dseg_append)
  note nz = dseg_nonzero [OF seg(1)] dseg_nonzero [OF seg(2)]
  have d: "distinct as" "distinct bs" "set as \<inter> set bs = {}" using kids_distinct [OF T, of p] K by auto
  have fresh: "t \<notin> set as" "t \<notin> set bs" using kid_iff [OF T, of t p] t K p by auto
  have "dseg ?h p 0 as t"
  proof (rule dseg_relast [OF seg(1) d(1)])
    fix a
    assume a: "a \<in> set as"
    then have *: "a \<noteq> t" "get_parent h a = p" "a \<noteq> 0" "last (0 # as) = last as" "a \<noteq> hd (bs @ [0])"
      using fresh d(3) nz list_ends [of bs] kid_iff [OF T, of a p] K by auto
    show "get_parent ?h a = p \<and> get_prev ?h a = get_prev h a" "get_next ?h a = (if a = last as then t else get_next h a)"
      using * by (simp_all add: link_in_def)
  qed
  moreover have "dseg ?h p t bs 0"
  proof (rule dseg_rehead [OF seg(2) d(2)])
    fix a
    assume a: "a \<in> set bs"
    then have *: "a \<noteq> t" "get_parent h a = p" "a \<noteq> 0" "hd (bs @ [0]) = hd bs" "a \<noteq> last (0 # as)"
      using a fresh d(3) nz list_ends [of as] kid_iff [OF T, of a p] K by (auto simp: hd_append)
    show "get_parent ?h a = p \<and> get_next ?h a = get_next h a" "get_prev ?h a = (if a = hd bs then t else get_prev h a)"
      using * by (simp_all add: link_in_def)
  qed
  ultimately have seg': "dseg ?h p 0 (as @ t # bs) 0" using t by (simp add: dseg_append link_in_def)
  have first': "get_first ?h p = hd ((as @ t # bs) @ [0])"
    using treesD(2) [OF T p(1)] K nz by (cases as) (auto simp: link_in_def dest: last_in_set)
  have sub: "set as \<union> set bs \<subseteq> set (K p)" using K by auto
  have other: "get_next ?h y = get_next h y \<and> get_prev ?h y = get_prev h y" if "get_parent h y \<noteq> p" "y \<noteq> t" for y
  proof -
    have "y = 0 \<or> y \<noteq> last (0 # as) \<and> y \<noteq> hd (bs @ [0])"
      using kid_ends [OF T sub, of y] that by auto
    then show ?thesis using that(2) unfolding link_in_def by auto
  qed
  have par: "get_parent ?h y = (if y = t then p else get_parent h y)" for y by (simp add: link_in_def)
  show ?thesis
  proof (rule trees_change [OF T, where P = "{p}"])
    fix y :: addr
    assume y: "y \<noteq> 0"
    show "get_parent ?h y = get_parent h y \<and> get_next ?h y = get_next h y \<and> get_prev ?h y = get_prev h y"
      if "get_parent h y \<noteq> 0" "get_parent h y \<notin> {p}"
      using that par other [of y] t by auto
    show "if get_parent ?h y = 0 then get_next ?h y = 0 \<and> get_prev ?h y = 0
      else y \<in> set ((K(p := as @ t # bs)) (get_parent ?h y))" if "get_parent h y = 0 \<or> get_parent h y \<in> {p}"
      using that par [of y] other [of y] treesD(4) [OF T y] kid_iff [OF T, of y p] K y p(1) by auto
  next
    show "acyclic (up_links ?h)" "finite (up_links ?h)"
      using treesD(6,7) [OF T] p(2) by (auto simp: up_links_link_in t p(1) acyclic_insert)
  qed (use p(1) seg' first' in \<open>auto simp: link_in_def\<close>)
qed

section \<open>Ancestors\<close>

lemma up_wf: "trees h K \<Longrightarrow> wf ((up_links h)\<inverse>)"
  using treesD(6,7) by (rule finite_acyclic_wf_converse [rotated])

lemma tree_induct [consumes 2, case_names node]:
  assumes "trees h K" "x \<noteq> 0"
    and "\<And>x. x \<noteq> 0 \<Longrightarrow> (get_parent h x \<noteq> 0 \<Longrightarrow> P (get_parent h x)) \<Longrightarrow> P x"
  shows "P x"
  using assms(2)
proof (induction x rule: wf_induct_rule [OF up_wf [OF assms(1)]])
  case (1 x)
  then show ?case using assms(3) [of x] by (auto simp: up_links_def)
qed

lemma up_step: "(x, y) \<in> (up_links h)\<^sup>* \<longleftrightarrow> x = y \<or> x \<noteq> 0 \<and> get_parent h x \<noteq> 0 \<and> (get_parent h x, y) \<in> (up_links h)\<^sup>*"
proof -
  have "(x, z) \<in> up_links h \<longleftrightarrow> x \<noteq> 0 \<and> get_parent h x \<noteq> 0 \<and> z = get_parent h x" for z
    by (auto simp: up_links_def)
  then show ?thesis by (metis converse_rtranclE converse_rtrancl_into_rtrancl rtrancl.rtrancl_refl)
qed

lemma subtree_of_up:
  assumes "trees h K" "x \<noteq> 0" "r \<noteq> 0"
  shows "subtree_of h x r = Some ((x, r) \<in> (up_links h)\<^sup>*)"
  using assms(1,2)
proof (induction x rule: tree_induct)
  case (node x)
  show ?case
    using node up_step [of x r h] assms(3)
    by (cases "get_parent h x = 0"; cases "x = r"; subst subtree_of.simps) (simp_all add: subtree_of.simps [of h 0])
qed

lemma up_parent: "(x, y) \<in> (up_links h)\<^sup>* \<Longrightarrow> y \<noteq> 0 \<Longrightarrow> get_parent h y \<noteq> 0 \<Longrightarrow> (x, get_parent h y) \<in> (up_links h)\<^sup>*"
  by (erule rtrancl_into_rtrancl) (auto simp: up_links_def)

lemma down_step:
  assumes "trees h K" "x \<noteq> 0"
  shows "(y, x) \<in> (up_links h)\<^sup>* \<longleftrightarrow> y = x \<or> (\<exists>c \<in> set (K x). (y, c) \<in> (up_links h)\<^sup>*)"
proof
  assume "(y, x) \<in> (up_links h)\<^sup>*"
  then show "y = x \<or> (\<exists>c \<in> set (K x). (y, c) \<in> (up_links h)\<^sup>*)"
    by (cases rule: rtranclE) (use kid_iff [OF assms(1), of _ x] in \<open>auto simp: up_links_def\<close>)
next
  assume "y = x \<or> (\<exists>c \<in> set (K x). (y, c) \<in> (up_links h)\<^sup>*)"
  then show "(y, x) \<in> (up_links h)\<^sup>*" using up_parent [of y _ h] kid_iff [OF assms(1), of _ x] by auto
qed

lemma child_not_above:
  assumes T: "trees h K" and "c \<in> set (K x)"
  shows "(x, c) \<notin> (up_links h)\<^sup>*"
proof
  assume "(x, c) \<in> (up_links h)\<^sup>*"
  moreover have "(c, x) \<in> up_links h" using assms(2) kid_iff [OF T, of c x] by (auto simp: up_links_def)
  ultimately have "(c, c) \<in> (up_links h)\<^sup>+" by (rule rtrancl_into_trancl2 [rotated])
  then show False using treesD(6) [OF T] by (auto simp: acyclic_def)
qed

lemma up_of_unlink: "(x, y) \<in> (up_links (unlink t h))\<^sup>* \<Longrightarrow> (x, y) \<in> (up_links h)\<^sup>*"
  unfolding up_links_unlink by (meson Diff_subset rtrancl_mono subsetD)

section \<open>Moving one node\<close>

definition detach :: "addr \<Rightarrow> family \<Rightarrow> family" where
  "detach t K = (\<lambda>p. remove1 t (K p))"

fun insert_behind :: "addr \<Rightarrow> addr \<Rightarrow> addr list \<Rightarrow> addr list" where
  "insert_behind x t [] = []"
| "insert_behind x t (a # as) = (if a = x then a # t # as else a # insert_behind x t as)"

fun insert_ahead :: "addr \<Rightarrow> addr \<Rightarrow> addr list \<Rightarrow> addr list" where
  "insert_ahead x t [] = []"
| "insert_ahead x t (a # as) = (if a = x then t # a # as else a # insert_ahead x t as)"

lemma insert_split [simp]:
  "x \<notin> set as \<Longrightarrow> insert_behind x t (as @ x # bs) = as @ x # t # bs"
  "x \<notin> set as \<Longrightarrow> insert_ahead x t (as @ x # bs) = as @ t # x # bs"
  by (induction as) auto

lemma trees_detach:
  assumes "trees h K" "t \<noteq> 0"
  shows "trees (unlink t h) (detach t K)"
proof -
  have "detach t K = K(get_parent h t := remove1 t (K (get_parent h t)))"
    using kid_iff [OF assms(1), of t] by (auto simp: detach_def fun_eq_iff remove1_idem)
  then show ?thesis using trees_unlink [OF assms] by simp
qed

lemma unlinked_fields:
  "get_parent (unlink t h) t = 0" "get_next (unlink t h) t = 0" "get_prev (unlink t h) t = 0"
  "x \<noteq> t \<Longrightarrow> get_parent (unlink t h) x = get_parent h x"
  by (simp_all add: unlink_def)

lemma put_first_refines:
  assumes "trees h K" "this \<noteq> 0" "t \<noteq> 0" "(this, t) \<notin> (up_links h)\<^sup>*"
  shows "\<exists>h'. put_first this t h = Some h' \<and> trees h' ((detach t K)(this := t # detach t K this))"
proof -
  let ?h = "unlink t h"
  have T: "trees ?h (detach t K)" by (rule trees_detach [OF assms(1,3)])
  have "get_first ?h this \<noteq> t"
    using treesD(2) [OF T assms(2)] list_ends(2) [of "detach t K this"] kid_iff [OF T, of t this] unlinked_fields(1) [of t h] assms(3)
    by auto
  moreover have "this \<noteq> t" using assms(4) by auto
  ultimately have "put_first this t h = Some (link_in this t 0 (get_first ?h this) ?h)"
    using assms(2,3) unlinked_fields(1-3) [of t h] unlinked_fields(4) [of _ t h]
    by (auto simp: put_first_def remove_from_tree_eq put_link_defs Let_def link_in_def fun_eq_iff intro!: links_eqI)
  moreover have "trees (link_in this t (last (0 # [])) (hd (detach t K this @ [0])) ?h) ((detach t K)(this := [] @ t # detach t K this))"
    by (rule trees_link_in [OF T assms(3) _ assms(2)]) (use assms(4) up_of_unlink in \<open>auto simp: unlinked_fields\<close>)
  ultimately show ?thesis using treesD(2) [OF T assms(2)] by simp
qed

lemma put_after_refines:
  assumes "trees h K" "this \<noteq> 0" "t \<noteq> 0" "(this, t) \<notin> (up_links h)\<^sup>*" "get_parent h this = p" "p \<noteq> 0"
  shows "\<exists>h'. put_after this t h = Some h' \<and> trees h' ((detach t K)(p := insert_behind this t (detach t K p)))"
proof -
  let ?h = "unlink t h"
  have T: "trees ?h (detach t K)" by (rule trees_detach [OF assms(1,3)])
  have ne: "this \<noteq> t" using assms(4) by auto
  then have p: "get_parent ?h this = p" using assms(5) unlinked_fields(4) by simp
  have "this \<in> set (detach t K p)" using treesD(5) [OF T assms(2)] p assms(6) by simp
  then obtain as bs where K: "detach t K p = as @ this # bs" by (auto simp: in_set_conv_decomp)
  note L = kid_links [OF T K]
  have "put_after this t h = Some (link_in p t this (get_next ?h this) ?h)"
    using assms(2,3) unlinked_fields(1-3) [of t h] unlinked_fields(4) [of _ t h] p ne
    by (auto simp: put_after_def remove_from_tree_eq put_link_defs Let_def link_in_def fun_eq_iff intro!: links_eqI)
  moreover have "trees (link_in p t (last (0 # (as @ [this]))) (hd (bs @ [0])) ?h) ((detach t K)(p := (as @ [this]) @ t # bs))"
    by (rule trees_link_in [OF T assms(3) _ assms(6)])
      (use assms(2,4,5,6) up_of_unlink up_step [of this t h] K in \<open>auto simp: unlinked_fields\<close>)
  ultimately show ?thesis using L K by simp
qed

lemma put_before_refines:
  assumes "trees h K" "this \<noteq> 0" "t \<noteq> 0" "(this, t) \<notin> (up_links h)\<^sup>*" "get_parent h this = p" "p \<noteq> 0"
  shows "\<exists>h'. put_before this t h = Some h' \<and> trees h' ((detach t K)(p := insert_ahead this t (detach t K p)))"
proof -
  let ?h = "unlink t h"
  have T: "trees ?h (detach t K)" by (rule trees_detach [OF assms(1,3)])
  have ne: "this \<noteq> t" using assms(4) by auto
  then have p: "get_parent ?h this = p" using assms(5) unlinked_fields(4) by simp
  have "this \<in> set (detach t K p)" using treesD(5) [OF T assms(2)] p assms(6) by simp
  then obtain as bs where K: "detach t K p = as @ this # bs" by (auto simp: in_set_conv_decomp)
  note L = kid_links [OF T K]
  have "get_prev ?h this \<noteq> t" "get_prev ?h this \<noteq> this"
    using L list_ends [of as] unlinked_fields(1) [of t h] kid_iff [OF T, of t p] K ne assms(2,3,6) by auto
  then have "put_before this t h = Some (link_in p t (get_prev ?h this) this ?h)"
    using assms(2,3,5,6) unlinked_fields(1-3) [of t h] unlinked_fields(4) [of _ t h] ne
    by (auto simp: put_before_def remove_from_tree_eq put_link_defs Let_def link_in_def fun_eq_iff intro!: links_eqI)
  moreover have "trees (link_in p t (last (0 # as)) (hd ((this # bs) @ [0])) ?h) ((detach t K)(p := as @ t # this # bs))"
    by (rule trees_link_in [OF T assms(3) _ assms(6)])
      (use assms(2,4,5,6) up_of_unlink up_step [of this t h] K in \<open>auto simp: unlinked_fields\<close>)
  ultimately show ?thesis using L K by simp
qed

end
