(* ===== verification/Tree_Moves.thy ===== *)
theory Tree_Moves
  imports Tree_Refinement
begin

text \<open>
  The operations that change more than one node: \<^verbatim>\<open>splice\<close>, \<^verbatim>\<open>add_parent_to_list\<close>,
  \<^verbatim>\<open>remove\<close>, \<^verbatim>\<open>split_family\<close> and \<^verbatim>\<open>split_tree_path\<close>.
\<close>

section \<open>The fields after an update\<close>

definition set_next :: "addr \<Rightarrow> addr \<Rightarrow> store \<Rightarrow> store" where
  "set_next x t h = the (put_next_link x t h)"

definition set_prev :: "addr \<Rightarrow> addr \<Rightarrow> store \<Rightarrow> store" where
  "set_prev x t h = the (put_prev_link x t h)"

definition set_first :: "addr \<Rightarrow> addr \<Rightarrow> store \<Rightarrow> store" where
  "set_first x t h = the (put_first_link x t h)"

definition set_parent :: "addr \<Rightarrow> addr \<Rightarrow> store \<Rightarrow> store" where
  "set_parent x t h = the (put_parent_link x t h)"

lemma put_set:
  "x \<noteq> 0 \<Longrightarrow> put_next_link x t h = Some (set_next x t h)" "x \<noteq> 0 \<Longrightarrow> put_prev_link x t h = Some (set_prev x t h)"
  "x \<noteq> 0 \<Longrightarrow> put_first_link x t h = Some (set_first x t h)" "x \<noteq> 0 \<Longrightarrow> put_parent_link x t h = Some (set_parent x t h)"
  by (simp_all add: put_link_defs set_next_def set_prev_def set_first_def set_parent_def Let_def)

lemma set_fields [simp]:
  "x \<noteq> 0 \<Longrightarrow> get_parent (set_next x t h) y = get_parent h y" "x \<noteq> 0 \<Longrightarrow> get_first (set_next x t h) y = get_first h y"
  "x \<noteq> 0 \<Longrightarrow> get_next (set_next x t h) y = (if y = x then t else get_next h y)"
  "x \<noteq> 0 \<Longrightarrow> get_prev (set_next x t h) y = (if y = t \<and> t \<noteq> 0 then x else get_prev h y)"
  "x \<noteq> 0 \<Longrightarrow> get_parent (set_prev x t h) y = get_parent h y" "x \<noteq> 0 \<Longrightarrow> get_first (set_prev x t h) y = get_first h y"
  "x \<noteq> 0 \<Longrightarrow> get_prev (set_prev x t h) y = (if y = x then t else get_prev h y)"
  "x \<noteq> 0 \<Longrightarrow> get_next (set_prev x t h) y = (if y = t \<and> t \<noteq> 0 then x else get_next h y)"
  "x \<noteq> 0 \<Longrightarrow> get_parent (set_first x t h) y = get_parent h y"
  "x \<noteq> 0 \<Longrightarrow> get_first (set_first x t h) y = (if y = x then t else get_first h y)"
  "x \<noteq> 0 \<Longrightarrow> get_next (set_first x t h) y = get_next h y" "x \<noteq> 0 \<Longrightarrow> get_prev (set_first x t h) y = get_prev h y"
  "x \<noteq> 0 \<Longrightarrow> get_parent (set_parent x t h) y = (if y = x then t else get_parent h y)"
  "x \<noteq> 0 \<Longrightarrow> get_first (set_parent x t h) y = get_first h y"
  "x \<noteq> 0 \<Longrightarrow> get_next (set_parent x t h) y = get_next h y" "x \<noteq> 0 \<Longrightarrow> get_prev (set_parent x t h) y = get_prev h y"
  by (simp_all add: put_link_defs set_next_def set_prev_def set_first_def set_parent_def Let_def)

section \<open>Giving a list of siblings another parent\<close>

definition adopt :: "addr \<Rightarrow> addr list \<Rightarrow> store \<Rightarrow> store" where
  "adopt p as h = (\<lambda>y. if y \<in> set as then (h y)\<lparr>tree_parent := p\<rparr> else h y)"

lemma adopt_Cons: "a \<notin> set as \<Longrightarrow> adopt p as (h(a := (h a)\<lparr>tree_parent := p\<rparr>)) = adopt p (a # as) h"
  by (auto simp: adopt_def fun_eq_iff)

lemma dseg_other_parent:
  "dseg h q l as n \<Longrightarrow> a \<notin> set as \<Longrightarrow> dseg (h(a := (h a)\<lparr>tree_parent := p\<rparr>)) q l as n"
  by (erule dseg_cong) auto

lemma adopt_chain_seg:
  "dseg h q l as 0 \<Longrightarrow> adopt_chain p (hd (as @ [0])) r h = Some (adopt p as h, last (r # as))"
proof (induction as arbitrary: h l r)
  case Nil
  then show ?case by (simp add: adopt_chain.simps adopt_def)
next
  case (Cons a as)
  let ?h = "h(a := (h a)\<lparr>tree_parent := p\<rparr>)"
  have a: "a \<notin> set as" using dseg_distinct [OF Cons.prems] by simp
  have "dseg h q a as 0" using Cons.prems by simp
  from Cons.IH [OF dseg_other_parent [OF this a, of p], of a]
  have "adopt_chain p (hd (as @ [0])) a ?h = Some (adopt p (a # as) h, last (a # as))"
    unfolding adopt_Cons [OF a] .
  then show ?case using Cons.prems by (subst adopt_chain.simps) (cases as; simp add: put_parent_link_def fun_upd_same del: fun_upd_apply)
qed

lemma adopt_list_seg:
  "dseg h q l (a # as) n \<Longrightarrow> distinct (a # as) \<Longrightarrow> adopt_list p (last (a # as)) a h = Some (adopt p (a # as) h)"
proof (induction as arbitrary: h l a)
  case Nil
  then show ?case by (subst adopt_list.simps) (auto simp: put_parent_link_def adopt_def fun_eq_iff)
next
  case (Cons b as)
  let ?h = "h(a := (h a)\<lparr>tree_parent := p\<rparr>)"
  have a: "a \<notin> set (b # as)" "a \<noteq> last (b # as)" using Cons.prems(2) by auto
  have "dseg h q a (b # as) n" "distinct (b # as)" using Cons.prems by simp_all
  from Cons.IH [OF dseg_other_parent [OF this(1) a(1), of p] this(2)]
  have "adopt_list p (last (b # as)) b ?h = Some (adopt p (a # b # as) h)"
    unfolding adopt_Cons [OF a(1)] .
  then show ?case using Cons.prems a by (subst adopt_list.simps) (auto simp: put_parent_link_def)
qed

lemma adopt_fields [simp]:
  "get_parent (adopt p as h) y = (if y \<in> set as then p else get_parent h y)"
  "get_first (adopt p as h) y = get_first h y" "get_next (adopt p as h) y = get_next h y"
  "get_prev (adopt p as h) y = get_prev h y"
  by (simp_all add: adopt_def)

section \<open>Removing a node and its children\<close>

lemma remove_children_refines:
  "trees h K \<Longrightarrow> x \<noteq> 0 \<Longrightarrow> K x = cs \<Longrightarrow> \<exists>h'. remove_children (hd (cs @ [0])) h = Some h' \<and> trees h' (K(x := []))"
proof (induction cs arbitrary: h K)
  case Nil
  then show ?case by (auto simp: remove_children.simps fun_upd_idem)
next
  case (Cons c cs)
  note L = kid_links [OF Cons.prems(1), of x "[]" c cs]
  have c: "c \<noteq> 0" "get_next h c = hd (cs @ [0])" "get_parent h c = x" using L Cons.prems(3) by auto
  have "trees (unlink c h) (K(x := cs))" using trees_unlink [OF Cons.prems(1) c(1)] c(3) Cons.prems(3) by simp
  from Cons.IH [OF this Cons.prems(2) fun_upd_same]
  obtain h' where "remove_children (hd (cs @ [0])) (unlink c h) = Some h'" "trees h' (K(x := []))"
    unfolding fun_upd_upd by blast
  then show ?case using c by (subst remove_children.simps) (simp add: remove_from_tree_eq)
qed

lemma tree_remove_refines:
  assumes "trees h K" "x \<noteq> 0"
  shows "\<exists>h'. tree_remove x h = Some h' \<and> trees h' ((detach x K)(x := []))"
proof -
  have "x \<notin> set (K x)" using no_self_parent [OF assms] kid_iff [OF assms(1), of x x] by auto
  then have "detach x K x = K x" by (simp add: detach_def remove1_idem)
  then obtain h' where "remove_children (hd (K x @ [0])) (unlink x h) = Some h'" "trees h' ((detach x K)(x := []))"
    using remove_children_refines [OF trees_detach [OF assms] assms(2)] by metis
  then show ?thesis using treesD(2) [OF assms] assms(2) by (simp add: tree_remove_def remove_from_tree_eq)
qed

section \<open>Splicing\<close>

definition spliced :: "addr \<Rightarrow> addr list \<Rightarrow> store \<Rightarrow> store" where
  "spliced x cs h = (\<lambda>y. \<lparr>
     tree_parent = (if y = x then 0 else if y \<in> set cs then get_parent h x else get_parent h y),
     tree_first = (if y = x then 0 else if y = get_parent h x \<and> get_prev h x = 0 then hd cs else get_first h y),
     tree_next = (if y = x then 0 else if y \<noteq> 0 \<and> y = get_prev h x then hd cs
                  else if y = last cs then get_next h x else get_next h y),
     tree_prev = (if y = x then 0 else if y = hd cs then get_prev h x
                  else if y \<noteq> 0 \<and> y = get_next h x then last cs else get_prev h y)\<rparr>)"

lemma splice_eq:
  assumes T: "trees h K" and x: "x \<noteq> 0" "get_parent h x = p" "p \<noteq> 0" "K x = cs" "cs \<noteq> []"
  shows "splice x h = Some (spliced x cs h)"
proof -
  have cs: "dseg h x 0 cs 0" "get_first h x = hd cs" using treesD(2,3) [OF T x(1)] x(4,5) by (auto simp: hd_append)
  have x': "x \<notin> set cs" "x \<noteq> p" using no_self_parent [OF T x(1)] kid_iff [OF T, of x x] x by auto
  define g where "g = h(x := (h x)\<lparr>tree_parent := 0, tree_first := 0\<rparr>)"
  have "dseg g x 0 cs 0" by (rule dseg_cong [OF cs(1)]) (use x'(1) in \<open>auto simp: g_def\<close>)
  then have a: "adopt_chain p (hd cs) 0 g = Some (adopt p cs g, last cs)"
    using adopt_chain_seg [of g x 0 cs p 0] x(5) by (simp add: hd_append)
  have kids: "c \<noteq> 0 \<and> get_parent h c = x \<and> c \<noteq> x" if "c \<in> set cs" for c
    using that kid_iff [OF T, of c x] x(4) no_self_parent [OF T, of x] x(1) x'(1) by auto
  obtain as bs where K: "K p = as @ x # bs" using treesD(5) [OF T x(1)] x(2,3) by (metis split_list)
  note L = kid_links [OF T K]
  have sib: "y = 0 \<or> y \<noteq> x \<and> y \<notin> set cs \<and> get_parent h y = p" if "y = get_prev h x \<or> y = get_next h x" for y
    using that L list_ends [of as] list_ends [of bs] kid_iff [OF T, of y p] K x' kids [of y] x(3) by auto
  have nz: "hd cs \<in> set cs" "last cs \<in> set cs" "get_prev h x = 0 \<or> get_prev h x \<noteq> get_next h x"
    using x(5) L list_ends [of as] list_ends [of bs] by auto
  note facts = nz kids [OF nz(1)] kids [OF nz(2)] sib [of "get_prev h x"] sib [of "get_next h x"] x x'
  have step: "splice x h = do {
      k \<leftarrow> (if get_prev h x = 0 then put_first_link p (hd cs) (adopt p cs g)
            else do { k \<leftarrow> put_prev_link x 0 (adopt p cs g); put_next_link (get_prev h x) (hd cs) k });
      (if get_next h x \<noteq> 0 then do { k \<leftarrow> put_next_link x 0 k; put_prev_link (get_next h x) (last cs) k } else Some k) }"
    using facts cs a by (simp add: splice_def Let_def put_parent_link_def put_first_link_def [of x] g_def)
  have g: "get_parent g y = (if y = x then 0 else get_parent h y)" "get_first g y = (if y = x then 0 else get_first h y)"
    "get_next g y = get_next h y" "get_prev g y = get_prev h y" for y
    by (simp_all add: g_def)
  have ends: "get_prev h (hd cs) = 0" "get_next h (last cs) = 0" using dseg_ends [OF cs(1) x(5)] by simp_all
  define k where "k = (if get_prev h x = 0 then set_first p (hd cs) (adopt p cs g)
    else set_next (get_prev h x) (hd cs) (set_prev x 0 (adopt p cs g)))"
  define k' where "k' = (if get_next h x \<noteq> 0 then set_prev (get_next h x) (last cs) (set_next x 0 k) else k)"
  have "splice x h = Some k'" unfolding step k'_def k_def using x by (simp add: put_set)
  moreover have "k' = spliced x cs h"
  proof (intro ext links_eqI)
    fix y
    have k: "get_parent k z = get_parent (adopt p cs g) z"
      "get_first k z = (if get_prev h x = 0 \<and> z = p then hd cs else get_first g z)"
      "get_next k z = (if get_prev h x \<noteq> 0 \<and> z = get_prev h x then hd cs else get_next h z)"
      "get_prev k z = (if get_prev h x \<noteq> 0 then if z = hd cs then get_prev h x else if z = x then 0 else get_prev h z else get_prev h z)" for z
      using facts by (auto simp: k_def g)
    have c: "hd cs \<noteq> 0" "hd cs \<noteq> x" "last cs \<noteq> 0" "last cs \<noteq> x" "hd cs \<in> set cs" "last cs \<in> set cs"
      "get_prev h x \<noteq> 0 \<Longrightarrow> get_prev h x \<noteq> x \<and> get_prev h x \<noteq> last cs \<and> get_prev h x \<noteq> get_next h x"
      "get_next h x \<noteq> 0 \<Longrightarrow> get_next h x \<noteq> x \<and> get_next h x \<noteq> hd cs"
      using kids [OF nz(1)] kids [OF nz(2)] nz sib [OF disjI1 [OF refl]] sib [OF disjI2 [OF refl]] by metis+
    show "get_parent k' y = get_parent (spliced x cs h) y" "get_first k' y = get_first (spliced x cs h) y"
      using facts k by (auto simp: k'_def spliced_def g)
    show "get_next k' y = get_next (spliced x cs h) y"
      by (cases "get_prev h x = 0"; cases "get_next h x = 0"; cases "y = x"; cases "y = last cs"; cases "y = get_prev h x")
        (simp_all add: k'_def spliced_def k c x(1) ends)
    show "get_prev k' y = get_prev (spliced x cs h) y"
      by (cases "get_prev h x = 0"; cases "get_next h x = 0"; cases "y = x"; cases "y = hd cs"; cases "y = get_next h x")
        (simp_all add: k'_def spliced_def k c x(1) ends)
  qed
  ultimately show ?thesis by simp
qed

lemma acyclic_shorter:
  assumes "acyclic r" "s \<subseteq> r\<^sup>+"
  shows "acyclic s"
  using assms trancl_mono [of _ s "r\<^sup>+"] unfolding acyclic_def trancl_id [OF trans_trancl] by blast

lemma trees_spliced:
  assumes T: "trees h K" and x: "x \<noteq> 0" "K p = as @ x # bs" "K x = cs" "cs \<noteq> []"
  shows "trees (spliced x cs h) (K(p := as @ cs @ bs, x := []))"
proof -
  let ?h = "spliced x cs h"
  note L = kid_links [OF T x(2)]
  have px: "x \<noteq> p" using no_self_parent [OF T x(1)] L(3) by auto
  have cs: "dseg h x 0 cs 0" using treesD(3) [OF T x(1)] x(3) by simp
  have seg: "dseg h p 0 as x" "dseg h p x bs 0" using treesD(3) [OF T L(5)] x(2) by (auto simp: dseg_append)
  have kid: "c \<in> set cs \<longleftrightarrow> c \<noteq> 0 \<and> get_parent h c = x" for c using kid_iff [OF T, of c x] x by simp
  have sib: "y \<in> set as \<or> y = x \<or> y \<in> set bs \<longleftrightarrow> y \<noteq> 0 \<and> get_parent h y = p" for y
    using kid_iff [OF T, of y p] x(2) L(5) by auto
  have nz: "hd cs \<in> set cs" "last cs \<in> set cs" using x(4) by simp_all
  have dis: "distinct cs" "x \<notin> set cs" "hd cs \<notin> set as" "last cs \<notin> set as" "hd cs \<notin> set bs" "last cs \<notin> set bs" "p \<notin> set cs \<or> p \<noteq> x"
    using dseg_distinct [OF cs] kid sib px nz L(3) by metis+
  have prv: "get_prev h x = last (0 # as)" and nxt: "get_next h x = hd (bs @ [0])" using L by simp_all
  have apart: "a \<in> set as \<Longrightarrow> a \<noteq> hd (bs @ [0])" "b \<in> set bs \<Longrightarrow> b \<noteq> last (0 # as)"
    "c \<in> set cs \<Longrightarrow> c \<noteq> last (0 # as) \<and> c \<noteq> hd (bs @ [0])" for a b c
    using L(10) list_ends [of as] list_ends [of bs] sib kid px by (metis disjoint_iff)+
  have "dseg ?h p 0 as (hd cs)"
  proof (rule dseg_relast [OF seg(1) L(8)])
    fix a
    assume a: "a \<in> set as"
    then have *: "a \<noteq> x" "a \<noteq> 0" "a \<noteq> hd cs" "a \<noteq> last cs" "a \<notin> set cs" "get_parent h a = p" "last (0 # as) = last as"
      using L(6) dis sib [of a] kid [of a] px by auto
    show "get_parent ?h a = p \<and> get_prev ?h a = get_prev h a"
      using * apart(1) [OF a] by (simp add: spliced_def nxt)
    show "get_next ?h a = (if a = last as then hd cs else get_next h a)"
      using * by (simp add: spliced_def prv)
  qed
  moreover have "dseg ?h p (last (0 # as)) cs (hd (bs @ [0]))"
  proof (rule dseg_change [OF cs dis(1)])
    fix c
    assume c: "c \<in> set cs"
    then have *: "c \<noteq> x" "c \<noteq> 0" using dis(2) kid [of c] by auto
    show "get_parent ?h c = p" using c * L(3) by (simp add: spliced_def)
    show "get_next ?h c = (if c = last cs then hd (bs @ [0]) else get_next h c)"
      using * apart(3) [OF c] by (simp add: spliced_def prv nxt)
    show "get_prev ?h c = (if c = hd cs then last (0 # as) else get_prev h c)"
      using * apart(3) [OF c] by (simp add: spliced_def prv nxt)
  qed
  moreover have "dseg ?h p (last cs) bs 0"
  proof (rule dseg_rehead [OF seg(2) L(9)])
    fix b
    assume b: "b \<in> set bs"
    then have *: "b \<noteq> x" "b \<noteq> 0" "b \<noteq> hd cs" "b \<noteq> last cs" "b \<notin> set cs" "get_parent h b = p" "hd (bs @ [0]) = hd bs"
      using L(7) dis sib [of b] kid [of b] px by (auto simp: hd_append)
    show "get_parent ?h b = p \<and> get_next ?h b = get_next h b"
      using * apart(2) [OF b] by (simp add: spliced_def prv)
    show "get_prev ?h b = (if b = hd bs then last cs else get_prev h b)"
      using * by (simp add: spliced_def nxt)
  qed
  ultimately have seg': "dseg ?h p 0 (as @ cs @ bs) 0"
    using x(4) by (simp add: dseg_append hd_append)
  have first': "get_first ?h p = hd ((as @ cs @ bs) @ [0])"
    using treesD(2) [OF T L(5)] x(2,4) L(3) px prv dseg_nonzero [OF seg(1)]
    by (cases as) (auto simp: spliced_def hd_append dest: last_in_set)
  have par: "get_parent ?h y = (if y = x then 0 else if y \<in> set cs then p else get_parent h y)" for y
    using L(3) by (simp add: spliced_def)
  have "up_links ?h \<subseteq> (up_links h)\<^sup>+"
  proof (rule subrelI)
    fix a b
    assume "(a, b) \<in> up_links ?h"
    then have "a \<noteq> 0 \<and> a \<noteq> x \<and> b = (if a \<in> set cs then p else get_parent h a) \<and> b \<noteq> 0"
      by (auto simp: up_links_def par split: if_splits)
    moreover have "(x, p) \<in> up_links h" "a \<in> set cs \<Longrightarrow> (a, x) \<in> up_links h" using L(3-5) kid [of a] by (auto simp: up_links_def)
    ultimately show "(a, b) \<in> (up_links h)\<^sup>+"
      by (cases "a \<in> set cs") (auto simp: up_links_def intro: trancl.intros)
  qed
  moreover have "up_links ?h \<subseteq> up_links h \<union> set cs \<times> {p}" by (auto simp: up_links_def par split: if_splits)
  ultimately have ac: "acyclic (up_links ?h)" "finite (up_links ?h)"
    using acyclic_shorter [OF treesD(6) [OF T]] treesD(7) [OF T] by (auto elim: finite_subset)
  show ?thesis
  proof (rule trees_change [OF T, where P = "{p, x}"])
    fix y :: addr
    assume y: "y \<noteq> 0"
    show "get_parent ?h y = get_parent h y \<and> get_next ?h y = get_next h y \<and> get_prev ?h y = get_prev h y"
      if "get_parent h y \<noteq> 0" "get_parent h y \<notin> {p, x}"
    proof -
      have "get_parent h y \<noteq> p" "get_parent h y \<noteq> x" using that(2) by auto
      then have "y \<noteq> x" "y \<notin> set cs" "y \<noteq> hd cs" "y \<noteq> last cs" "y \<noteq> last (0 # as)" "y \<noteq> hd (bs @ [0])"
        using L(3) kid [of y] nz sib [of y] list_ends [of as] list_ends [of bs] y by metis+
      then show ?thesis using y by (simp add: spliced_def prv nxt)
    qed
    show "if get_parent ?h y = 0 then get_next ?h y = 0 \<and> get_prev ?h y = 0
      else y \<in> set ((K(p := as @ cs @ bs, x := [])) (get_parent ?h y))" if "get_parent h y = 0 \<or> get_parent h y \<in> {p, x}"
    proof (cases "get_parent h y = 0")
      case True
      then have "y \<noteq> x" "y \<notin> set cs" "y \<noteq> hd cs" "y \<noteq> last cs" "y \<noteq> last (0 # as)" "y \<noteq> hd (bs @ [0])"
        using L(3,5) kid [of y] nz sib [of y] list_ends [of as] list_ends [of bs] y x(1) by metis+
      then show ?thesis using True y treesD(4) [OF T y] by (simp add: spliced_def prv nxt)
    next
      case False
      then have "y \<in> set cs \<or> y \<in> set as \<or> y = x \<or> y \<in> set bs" using that kid [of y] sib [of y] y by auto
      moreover have "y \<notin> set cs \<Longrightarrow> y \<noteq> x \<Longrightarrow> get_parent h y = p" using that False kid [of y] y by auto
      ultimately show ?thesis
        using px L(5) by (cases "y = x"; cases "y \<in> set cs") (auto simp: par, auto simp: spliced_def)
    qed
  next
    show "get_first ?h q = hd ((K(p := as @ cs @ bs, x := [])) q @ [0])" if "q \<in> {p, x}" for q
      using that first' px by (auto simp: spliced_def)
    show "dseg ?h q 0 ((K(p := as @ cs @ bs, x := [])) q) 0" if "q \<in> {p, x}" for q
      using that seg' px by auto
    show "get_first ?h q = get_first h q" if "q \<notin> {p, x}" "q \<noteq> 0" for q
      using that L(3) by (simp add: spliced_def)
  qed (use ac L(5) x(1) in auto)
qed

end
