(* ===== verification/Tree_Grouping.thy ===== *)
theory Tree_Grouping
  imports Tree_Moves
begin

text \<open>
  \<^verbatim>\<open>add_parent_to_list\<close>, which puts a new node in the place of a list of siblings that become its
  children, and \<^verbatim>\<open>split_family\<close>, which moves the siblings after a node to another parent.
\<close>

section \<open>A new parent for a list of siblings\<close>

definition wrapped :: "addr \<Rightarrow> addr list \<Rightarrow> store \<Rightarrow> store" where
  "wrapped n xs h = (\<lambda>y. \<lparr>
     tree_parent = (if y \<in> set xs then n else if y = n then get_parent h (hd xs) else get_parent h y),
     tree_first = (if y = n then hd xs else if y = get_parent h (hd xs) \<and> get_prev h (hd xs) = 0 then n else get_first h y),
     tree_next = (if y = last xs then 0 else if y = n then get_next h (last xs)
                  else if y \<noteq> 0 \<and> y = get_prev h (hd xs) then n else get_next h y),
     tree_prev = (if y = hd xs then 0 else if y = n then get_prev h (hd xs)
                  else if y \<noteq> 0 \<and> y = get_next h (last xs) then n else get_prev h y)\<rparr>)"

lemma add_parent_eq:
  assumes T: "trees h K" and n: "n \<noteq> 0" "get_parent h n = 0" "p \<noteq> n" and K: "K p = as @ xs @ bs" "xs \<noteq> []"
  shows "add_parent_to_list n (hd xs) (last xs) h = Some (wrapped n xs h)"
proof -
  have p: "p \<noteq> 0" using K treesD(1) [OF T] by (cases "p = 0") auto
  have seg: "dseg h p 0 as (hd xs)" "dseg h p (last (0 # as)) xs (hd (bs @ [0]))" "dseg h p (last (as @ xs)) bs 0"
    using treesD(3) [OF T p] K by (auto simp: dseg_append hd_append)
  have dis: "distinct xs" "set as \<inter> set xs = {}" "set bs \<inter> set xs = {}" using kids_distinct [OF T, of p] K(1) by auto
  have kid: "y \<in> set as \<or> y \<in> set xs \<or> y \<in> set bs \<longleftrightarrow> y \<noteq> 0 \<and> get_parent h y = p" for y
    using kid_iff [OF T, of y p] K(1) p by auto
  have t: "hd xs \<in> set xs" "last xs \<in> set xs" using K(2) by simp_all
  have ends: "get_prev h (hd xs) = last (0 # as)" "get_next h (last xs) = hd (bs @ [0])" "get_parent h (hd xs) = p"
    using dseg_ends [OF seg(2) K(2)] kid [of "hd xs"] t by auto
  let ?l = "last (0 # as)" and ?r = "hd (bs @ [0])"
  have l: "?l = 0 \<or> ?l \<notin> set xs \<and> ?l \<noteq> n" and r: "?r = 0 \<or> ?r \<notin> set xs \<and> ?r \<noteq> n" and lr: "?l = 0 \<or> ?l \<noteq> ?r"
    using list_ends(1) [of as] list_ends(2) [of bs] dis(2,3) kid n p kids_distinct [OF T, of p] K(1)
    by (metis disjoint_iff distinct_append Un_iff set_append)+
  have n': "n \<notin> set xs" "hd xs \<noteq> n" "last xs \<noteq> n" using kid [of n] n(2) p t by auto
  have t0: "hd xs \<noteq> 0" "last xs \<noteq> 0" using kid t by auto
  have tl: "last xs \<noteq> ?l" using l t(2) t0(2) by metis
  define k1 where "k1 = (if ?l = 0 then set_first p n h else h)"
  define k2 where "k2 = set_next n ?r (set_prev n ?l (set_parent n p k1))"
  define k3 where "k3 = set_next (last xs) 0 (set_prev (hd xs) 0 (set_first n (hd xs) k2))"
  have f1: "get_parent k1 y = get_parent h y" "get_first k1 y = (if y = p \<and> ?l = 0 then n else get_first h y)"
    "get_next k1 y = get_next h y" "get_prev k1 y = get_prev h y" for y
    using p by (simp_all add: k1_def)
  have f3: "get_parent k3 y = (if y = n then p else get_parent h y)"
    "get_first k3 y = (if y = n then hd xs else if y = p \<and> ?l = 0 then n else get_first h y)"
    "get_next k3 y = (if y = last xs then 0 else if y = n then ?r else if y \<noteq> 0 \<and> y = ?l then n else get_next h y)"
    "get_prev k3 y = (if y = hd xs then 0 else if y = n then ?l else if y \<noteq> 0 \<and> y = ?r then n else get_prev h y)" for y
    unfolding k3_def k2_def using n(1) t0 l r by (simp_all add: f1 del: last.simps) auto
  have "dseg k3 p 0 xs 0"
  proof (rule dseg_change [OF seg(2) dis(1)])
    fix a
    assume a: "a \<in> set xs"
    then have *: "a \<noteq> n" "a \<noteq> 0" "get_parent h a = p" "a \<noteq> ?l" "a \<noteq> ?r" using n'(1) kid [of a] l r by auto
    show "get_parent k3 a = p" "get_next k3 a = (if a = last xs then 0 else get_next h a)"
      "get_prev k3 a = (if a = hd xs then 0 else get_prev h a)"
      using * by (simp_all add: f3 del: last.simps)
  qed
  then have loop: "adopt_list n (last xs) (hd xs) k3 = Some (adopt n xs k3)"
    using adopt_list_seg [of k3 p 0 "hd xs" "tl xs" 0 n] K(2) dis(1) by simp
  have "add_parent_to_list n (hd xs) (last xs) h = adopt_list n (last xs) (hd xs) k3"
    unfolding k3_def k2_def k1_def add_parent_to_list_def using n(1) t0 p l tl ends
    by (auto simp add: put_set Let_def f1 simp del: last.simps)
  moreover have "adopt n xs k3 = wrapped n xs h"
    using n' ends by (intro ext links_eqI) (auto simp: wrapped_def f3 simp del: last.simps)
  ultimately show ?thesis using loop by simp
qed

text \<open>Edges from a set of nodes to \<open>n\<close>, which does not reach them.\<close>

lemma acyclic_add_edges:
  "finite X \<Longrightarrow> acyclic r \<Longrightarrow> (\<And>x. x \<in> X \<Longrightarrow> (n, x) \<notin> r\<^sup>*) \<Longrightarrow>
   acyclic (r \<union> X \<times> {n}) \<and> (\<forall>y. (n, y) \<in> (r \<union> X \<times> {n})\<^sup>* \<longrightarrow> (n, y) \<in> r\<^sup>*)"
proof (induction X rule: finite_induct)
  case (insert x X)
  have "r \<union> insert x X \<times> {n} = insert (x, n) (r \<union> X \<times> {n})" by auto
  moreover have "acyclic (r \<union> X \<times> {n})" "\<forall>y. (n, y) \<in> (r \<union> X \<times> {n})\<^sup>* \<longrightarrow> (n, y) \<in> r\<^sup>*" "(n, x) \<notin> r\<^sup>*"
    using insert by auto
  ultimately show ?case by (auto simp: acyclic_insert rtrancl_insert)
qed simp

lemma trees_wrapped:
  assumes T: "trees h K" and n: "n \<noteq> 0" "get_parent h n = 0" "K n = []" "p \<noteq> n" and K: "K p = as @ xs @ bs" "xs \<noteq> []"
  shows "trees (wrapped n xs h) (K(p := as @ n # bs, n := xs))"
proof -
  let ?h = "wrapped n xs h"
  have p: "p \<noteq> 0" using K treesD(1) [OF T] by (cases "p = 0") auto
  have seg: "dseg h p 0 as (hd xs)" "dseg h p (last (0 # as)) xs (hd (bs @ [0]))" "dseg h p (last (as @ xs)) bs 0"
    using treesD(3) [OF T p] K by (auto simp: dseg_append hd_append)
  have dis: "distinct xs" "distinct as" "distinct bs" "set as \<inter> set xs = {}" "set bs \<inter> set xs = {}" "set as \<inter> set bs = {}"
    using kids_distinct [OF T, of p] K(1) by auto
  have kid: "y \<in> set as \<or> y \<in> set xs \<or> y \<in> set bs \<longleftrightarrow> y \<noteq> 0 \<and> get_parent h y = p" for y
    using kid_iff [OF T, of y p] K(1) p by auto
  have t: "hd xs \<in> set xs" "last xs \<in> set xs" using K(2) by simp_all
  have ends: "get_prev h (hd xs) = last (0 # as)" "get_next h (last xs) = hd (bs @ [0])" "get_parent h (hd xs) = p"
    using dseg_ends [OF seg(2) K(2)] kid [of "hd xs"] t by auto
  let ?l = "last (0 # as)" and ?r = "hd (bs @ [0])"
  have f: "get_parent ?h y = (if y \<in> set xs then n else if y = n then p else get_parent h y)"
    "get_first ?h y = (if y = n then hd xs else if y = p \<and> ?l = 0 then n else get_first h y)"
    "get_next ?h y = (if y = last xs then 0 else if y = n then ?r else if y \<noteq> 0 \<and> y = ?l then n else get_next h y)"
    "get_prev ?h y = (if y = hd xs then 0 else if y = n then ?l else if y \<noteq> 0 \<and> y = ?r then n else get_prev h y)" for y
    by (simp_all add: wrapped_def ends del: last.simps)
  have n': "n \<notin> set as" "n \<notin> set xs" "n \<notin> set bs" using kid [of n] n(2) p by auto
  have l: "?l = 0 \<or> ?l \<in> set as" and r: "?r = 0 \<or> ?r \<in> set bs" by (rule list_ends)+
  have "dseg ?h p 0 as n"
  proof (rule dseg_relast [OF seg(1) dis(2)])
    fix a
    assume a: "a \<in> set as"
    then have *: "a \<noteq> n" "a \<noteq> 0" "a \<notin> set xs" "a \<noteq> hd xs" "a \<noteq> last xs" "get_parent h a = p" "?l = last as" "a \<noteq> ?r"
      using n' dis(4,6) t r kid [of a] by (auto simp del: last.simps simp: last_ConsR, auto)
    show "get_parent ?h a = p \<and> get_prev ?h a = get_prev h a" "get_next ?h a = (if a = last as then n else get_next h a)"
      using * by (simp_all add: f del: last.simps)
  qed
  moreover have "dseg ?h p n bs 0"
  proof (rule dseg_rehead [OF seg(3) dis(3)])
    fix b
    assume b: "b \<in> set bs"
    then have *: "b \<noteq> n" "b \<noteq> 0" "b \<notin> set xs" "b \<noteq> hd xs" "b \<noteq> last xs" "get_parent h b = p" "?r = hd bs" "b \<noteq> ?l"
      using n' dis(5,6) t l kid [of b] by (auto simp del: last.simps simp: hd_append)
    show "get_parent ?h b = p \<and> get_next ?h b = get_next h b" "get_prev ?h b = (if b = hd bs then n else get_prev h b)"
      using * by (simp_all add: f del: last.simps)
  qed
  ultimately have seg_p: "dseg ?h p 0 (as @ n # bs) 0"
    using n(1) n' t by (auto simp: dseg_append f simp del: last.simps)
  have seg_n: "dseg ?h n 0 xs 0"
  proof (rule dseg_change [OF seg(2) dis(1)])
    fix a
    assume a: "a \<in> set xs"
    then have *: "a \<noteq> n" "a \<noteq> 0" "a \<noteq> ?l" "a \<noteq> ?r" using n' kid [of a] l r dis(4,5) by (auto simp del: last.simps)
    show "get_parent ?h a = n" "get_next ?h a = (if a = last xs then 0 else get_next h a)"
      "get_prev ?h a = (if a = hd xs then 0 else get_prev h a)"
      using * a by (simp_all add: f del: last.simps)
  qed
  have first_p: "get_first ?h p = hd ((as @ n # bs) @ [0])"
    using treesD(2) [OF T p] K n(4) dseg_nonzero [OF seg(1)] by (cases as) (auto simp: f dest: last_in_set)
  have up_n: "(y, n) \<notin> (up_links h)\<^sup>*" if "y \<noteq> n" for y
    using down_step [OF T n(1)] that n(3) by auto
  have "up_links ?h \<subseteq> insert (n, p) (up_links h) \<union> set xs \<times> {n}" by (auto simp: up_links_def f split: if_splits)
  moreover have "acyclic (insert (n, p) (up_links h))" using treesD(6) [OF T] up_n n(4) by (auto simp: acyclic_insert)
  moreover have "(n, x) \<notin> (insert (n, p) (up_links h))\<^sup>*" if "x \<in> set xs" for x
    using that K(1) child_not_above [OF T, of x p] up_step [of n x h] n(2) n' by (auto simp: rtrancl_insert)
  ultimately have ac: "acyclic (up_links ?h)" "finite (up_links ?h)"
    using acyclic_add_edges [of "set xs" "insert (n, p) (up_links h)" n] treesD(7) [OF T]
    by (auto intro: acyclic_subset finite_subset)
  show ?thesis
  proof (rule trees_change [OF T, where P = "{p, n}"])
    fix y :: addr
    assume y: "y \<noteq> 0"
    have not_n: "get_parent h y \<noteq> n" using kid_iff [OF T, of y n] n(1,3) y by auto
    show "get_parent ?h y = get_parent h y \<and> get_next ?h y = get_next h y \<and> get_prev ?h y = get_prev h y"
      if "get_parent h y \<noteq> 0" "get_parent h y \<notin> {p, n}"
    proof -
      have "get_parent h y \<noteq> p" using that(2) by auto
      then have "y \<noteq> n" "y \<notin> set xs" "y \<noteq> hd xs" "y \<noteq> last xs" "y \<noteq> ?l" "y \<noteq> ?r"
        using that(1) n(2) kid [of y] t l r y by metis+
      then show ?thesis using y by (simp add: f del: last.simps)
    qed
    show "if get_parent ?h y = 0 then get_next ?h y = 0 \<and> get_prev ?h y = 0
      else y \<in> set ((K(p := as @ n # bs, n := xs)) (get_parent ?h y))" if "get_parent h y = 0 \<or> get_parent h y \<in> {p, n}"
    proof (cases "y = n \<or> get_parent h y = p")
      case True
      then have "y = n \<or> y \<in> set as \<or> y \<in> set xs \<or> y \<in> set bs" using kid [of y] y by auto
      moreover have "get_parent ?h y = (if y \<in> set xs then n else p)" using True unfolding f(1) by auto
      ultimately show ?thesis using n(1,4) n'(2) p by (cases "y \<in> set xs") simp_all
    next
      case False
      moreover from this have "get_parent h y = 0" using that not_n by blast
      moreover have "y \<notin> set as" "y \<notin> set xs" "y \<notin> set bs" using False kid [of y] by auto
      moreover from this have "y \<noteq> hd xs" "y \<noteq> last xs" "y \<noteq> ?l" "y \<noteq> ?r" using t l r y by metis+
      ultimately have "get_parent h y = 0" "y \<noteq> n" "y \<notin> set xs" "y \<noteq> hd xs" "y \<noteq> last xs" "y \<noteq> ?l" "y \<noteq> ?r"
        by blast+
      then show ?thesis using treesD(4) [OF T y] by (simp add: f del: last.simps)
    qed
  next
    show "get_first ?h q = hd ((K(p := as @ n # bs, n := xs)) q @ [0])" if "q \<in> {p, n}" for q
      using that first_p n(4) K(2) by (auto simp: f hd_append)
    show "dseg ?h q 0 ((K(p := as @ n # bs, n := xs)) q) 0" if "q \<in> {p, n}" for q
      using that seg_p seg_n n(4) by auto
    show "get_first ?h q = get_first h q" if "q \<notin> {p, n}" "q \<noteq> 0" for q
      using that by (simp add: f del: last.simps)
  qed (use ac n(1) p in auto)
qed

end
