(* ===== verification/Tree_Queries.thy ===== *)
theory Tree_Queries
  imports Tree_Refinement
begin

text \<open>
  The queries of trees: paths to the root, the common root and the order of two nodes, children
  and leaves.
\<close>

section \<open>Paths\<close>

fun up_path :: "store \<Rightarrow> addr \<Rightarrow> addr list \<Rightarrow> bool" where
  "up_path h x [] \<longleftrightarrow> x = 0"
| "up_path h x (a # as) \<longleftrightarrow> a = x \<and> x \<noteq> 0 \<and> up_path h (get_parent h x) as"

lemma up_path_unique: "up_path h x as \<Longrightarrow> up_path h x bs \<Longrightarrow> as = bs"
proof (induction as arbitrary: x bs)
  case Nil
  then show ?case by (cases bs) auto
next
  case (Cons a as)
  then show ?case by (cases bs) auto
qed

lemma up_path_exists: "trees h K \<Longrightarrow> \<exists>as. up_path h x as"
proof (cases "x = 0")
  case False
  assume T: "trees h K"
  show ?thesis
    using T False
  proof (induction x rule: tree_induct)
    case (node x)
    show ?case
    proof (cases "get_parent h x = 0")
      case True
      then show ?thesis using node by (intro exI [of _ "[x]"]) simp
    next
      case False
      then obtain as where "up_path h (get_parent h x) as" using node by auto
      then show ?thesis using node by (intro exI [of _ "x # as"]) simp
    qed
  qed
qed (intro exI [of _ "[]"], simp)

lemma up_path_append: "up_path h x (as @ bs) \<Longrightarrow> up_path h (hd (bs @ [0])) bs"
  by (induction as arbitrary: x) (cases bs; auto)+

lemma up_path_hd: "up_path h x as \<Longrightarrow> x = hd (as @ [0])"
  by (cases as) auto

lemma up_path_distinct: "up_path h x as \<Longrightarrow> distinct as"
proof (induction as arbitrary: x)
  case (Cons a as)
  have "a \<notin> set as"
  proof
    assume "a \<in> set as"
    then obtain xs ys where as: "as = xs @ a # ys" by (auto simp: in_set_conv_decomp)
    then have "up_path h (get_parent h x) (xs @ a # ys)" using Cons.prems as by auto
    from up_path_append [OF this] have "up_path h a (a # ys)" by (simp del: up_path.simps)
    then have "as = ys" using Cons.prems up_path_unique [of h "get_parent h x" as ys] by auto
    then show False using as by simp
  qed
  then show ?case using Cons by auto
qed simp

lemma up_path_nonzero: "up_path h x as \<Longrightarrow> y \<in> set as \<Longrightarrow> y \<noteq> 0"
  by (induction as arbitrary: x) auto

lemma up_path_set: "up_path h x as \<Longrightarrow> x \<noteq> 0 \<Longrightarrow> y \<in> set as \<longleftrightarrow> (x, y) \<in> (up_links h)\<^sup>*"
proof (induction as arbitrary: x)
  case (Cons a as)
  show ?case
  proof (cases "get_parent h x = 0")
    case True
    then have "as = []" using Cons.prems by (cases as) auto
    then show ?thesis using Cons.prems True up_step [of x y h] by auto
  next
    case False
    then show ?thesis using Cons.IH [of "get_parent h x"] Cons.prems up_step [of x y h] by auto
  qed
qed simp

text \<open>A node of a path is followed by its parent.\<close>

lemma up_path_next: "up_path h x (as @ y # bs) \<Longrightarrow> get_parent h y = hd (bs @ [0])"
  using up_path_append [of h x as "y # bs"] up_path_hd [of h "get_parent h y" bs] by simp

lemma path_child_unique:
  assumes "up_path h x as" "c \<in> set as" "d \<in> set as" "get_parent h c = get_parent h d" "get_parent h c \<noteq> 0"
  shows "c = d"
proof -
  obtain as1 bs1 where 1: "as = as1 @ c # bs1" using assms(2) by (auto simp: in_set_conv_decomp)
  obtain as2 bs2 where 2: "as = as2 @ d # bs2" using assms(3) by (auto simp: in_set_conv_decomp)
  have "up_path h (get_parent h c) bs1" "up_path h (get_parent h d) bs2"
    using up_path_append [of h x as1 "c # bs1"] up_path_append [of h x as2 "d # bs2"] assms(1) 1 2 by auto
  then have "bs1 = bs2" using assms(4) up_path_unique by metis
  then show ?thesis using 1 2 by (metis append_eq_append_conv list.inject length_append length_Cons add_right_cancel)
qed

section \<open>Depth and roots\<close>

lemma depth_loop_path: "up_path h x as \<Longrightarrow> depth_loop h x d = Some (d + int (length as))"
  by (induction as arbitrary: x d) (subst depth_loop.simps, simp)+

lemma depth_path: "up_path h x as \<Longrightarrow> depth h x = Some (int (length as) - 1)"
  by (simp add: depth_def depth_loop_path)

lemma root_loop_path: "up_path h x as \<Longrightarrow> root_loop h x r = Some (last (r # as))"
  by (induction as arbitrary: x r) (subst root_loop.simps, simp)+

lemma climb_up_path:
  "up_path h x as \<Longrightarrow> n \<le> length as \<Longrightarrow> climb_up h n x = Some (hd (drop n as @ [0])) \<and> up_path h (hd (drop n as @ [0])) (drop n as)"
proof (induction n arbitrary: x as)
  case 0
  then show ?case using up_path_hd [of h x as] by simp
next
  case (Suc n)
  then show ?case by (cases as) auto
qed

lemma common_loop_path:
  "up_path h x as \<Longrightarrow> up_path h y bs \<Longrightarrow> length as = length bs \<Longrightarrow>
   \<exists>as' bs' cs. common_loop h x y x1 y1 = Some (hd (cs @ [0]), last (x1 # as'), last (y1 # bs')) \<and>
     as = as' @ cs \<and> bs = bs' @ cs \<and> length as' = length bs' \<and> (\<forall>i < length as'. as' ! i \<noteq> bs' ! i)"
proof (induction as arbitrary: x y bs x1 y1)
  case Nil
  then show ?case by (intro exI [of _ "[]"]) (simp add: common_loop.simps)
next
  case (Cons a as)
  then obtain b bs0 where bs: "bs = b # bs0" by (cases bs) auto
  show ?case
  proof (cases "a = b")
    case True
    then have "a # as = bs" using Cons.prems bs up_path_unique [of h a "a # as" bs] by auto
    then show ?thesis
      using Cons.prems True bs by (intro exI [of _ "[]"] exI [of _ bs]) (auto simp: common_loop.simps)
  next
    case False
    obtain as' bs' cs where "common_loop h (get_parent h a) (get_parent h b) a b = Some (hd (cs @ [0]), last (a # as'), last (b # bs'))"
      "as = as' @ cs" "bs0 = bs' @ cs" "length as' = length bs'" "\<forall>i < length as'. as' ! i \<noteq> bs' ! i"
      using Cons.IH [of "get_parent h a" "get_parent h b" bs0 a b] Cons.prems bs by auto
    moreover from this have "\<forall>i < length (a # as'). (a # as') ! i \<noteq> (b # bs') ! i"
      using False by (auto simp: less_Suc_eq_0_disj)
    ultimately show ?thesis
      using Cons.prems False bs
      by (intro exI [of _ "a # as'"] exI [of _ "b # bs'"] exI [of _ cs]) (auto simp: common_loop.simps [of h x y])
  qed
qed

lemma common_suffix:
  assumes "up_path h x (as' @ cs)" "up_path h y (bs' @ cs)" "length as' = length bs'" "\<forall>i < length as'. as' ! i \<noteq> bs' ! i"
    and "z \<in> set (as' @ cs)" "z \<in> set (bs' @ cs)"
  shows "z \<in> set cs"
proof -
  obtain p q where 1: "as' @ cs = p @ z # q" using assms(5) by (meson split_list)
  obtain p' q' where 2: "bs' @ cs = p' @ z # q'" using assms(6) by (meson split_list)
  have "q = q'"
    using up_path_append [of h x p "z # q"] up_path_append [of h y p' "z # q'"] assms(1,2) 1 2
      up_path_unique [of h z "z # q" "z # q'"] by simp
  moreover have "length (as' @ cs) = length (bs' @ cs)" using assms(3) by simp
  ultimately have len: "length p = length p'" using 1 2 by simp
  have "\<not> length p < length as'"
  proof
    assume "length p < length as'"
    then have "as' ! length p = z" "bs' ! length p = z"
      using 1 2 len assms(3) by (metis nth_append nth_append_length)+
    then show False using assms(4) \<open>length p < length as'\<close> by auto
  qed
  then show ?thesis using 1 by (metis append_eq_append_conv_if in_set_conv_decomp set_drop_subset subsetD leI)
qed

section \<open>The common root\<close>

lemma common_root_path:
  assumes "up_path h x as" "up_path h y bs" "x \<noteq> 0" "y \<noteq> 0"
  shows "\<exists>as' bs' cs i j. obj_tree_common_root h x y = Some (hd (cs @ [0]), last (0 # as'), last (0 # bs')) \<and>
    drop i as = as' @ cs \<and> drop j bs = bs' @ cs \<and> length as' = length bs' \<and> (\<forall>i < length as'. as' ! i \<noteq> bs' ! i) \<and>
    i \<le> length as \<and> j \<le> length bs \<and> (i = 0 \<or> j = 0)"
proof -
  define i where "i = length as - length bs"
  define j where "j = length bs - length as"
  have i: "climb_up h i x = Some (hd (drop i as @ [0]))" "up_path h (hd (drop i as @ [0])) (drop i as)"
    using climb_up_path [OF assms(1), of i] by (auto simp: i_def)
  have j: "climb_up h j y = Some (hd (drop j bs @ [0]))" "up_path h (hd (drop j bs @ [0])) (drop j bs)"
    using climb_up_path [OF assms(2), of j] by (auto simp: j_def)
  have "obj_tree_common_root h x y = common_loop h (hd (drop i as @ [0])) (hd (drop j bs @ [0])) 0 0"
  proof (cases "length as < length bs")
    case True
    then have "i = 0" "nat (int (length bs) - int (length as)) = j" by (simp_all add: i_def j_def)
    then show ?thesis
      using True j up_path_hd [OF assms(1), symmetric]
      by (simp add: obj_tree_common_root_def assms(3,4) depth_path [OF assms(1)] depth_path [OF assms(2)])
  next
    case False
    then have "j = 0" "nat (int (length as) - int (length bs)) = i" by (simp_all add: i_def j_def)
    then show ?thesis
      using False i up_path_hd [OF assms(2), symmetric]
      by (simp add: obj_tree_common_root_def assms(3,4) depth_path [OF assms(1)] depth_path [OF assms(2)])
  qed
  moreover have "length (drop i as) = length (drop j bs)" by (simp add: i_def j_def)
  moreover have "i \<le> length as" "j \<le> length bs" "i = 0 \<or> j = 0" by (auto simp: i_def j_def)
  ultimately show ?thesis using common_loop_path [OF i(2) j(2), of 0 0] by metis
qed

text \<open>The nearest common ancestor, and the two children of it on the way to the nodes, which are 0
  when one of the nodes is an ancestor of the other.\<close>

lemma common_root_facts:
  assumes T: "trees h K" and "x \<noteq> 0" "y \<noteq> 0"
  shows "\<exists>r x1 y1. obj_tree_common_root h x y = Some (r, x1, y1) \<and>
    (r \<noteq> 0 \<longrightarrow> (x, r) \<in> (up_links h)\<^sup>* \<and> (y, r) \<in> (up_links h)\<^sup>*) \<and>
    (\<forall>z. (x, z) \<in> (up_links h)\<^sup>* \<longrightarrow> (y, z) \<in> (up_links h)\<^sup>* \<longrightarrow> r \<noteq> 0 \<and> (r, z) \<in> (up_links h)\<^sup>*) \<and>
    (x1 = 0 \<longleftrightarrow> y1 = 0) \<and> (x1 = 0 \<longleftrightarrow> (x, y) \<in> (up_links h)\<^sup>* \<or> (y, x) \<in> (up_links h)\<^sup>*) \<and>
    (x1 \<noteq> 0 \<longrightarrow> x1 \<noteq> y1 \<and> get_parent h x1 = r \<and> get_parent h y1 = r \<and>
      (x, x1) \<in> (up_links h)\<^sup>* \<and> (y, y1) \<in> (up_links h)\<^sup>*)"
proof -
  obtain as bs where p: "up_path h x as" "up_path h y bs" using up_path_exists [OF T] by metis
  obtain as' bs' cs i j where c: "obj_tree_common_root h x y = Some (hd (cs @ [0]), last (0 # as'), last (0 # bs'))"
    "drop i as = as' @ cs" "drop j bs = bs' @ cs" "length as' = length bs'" "\<forall>i < length as'. as' ! i \<noteq> bs' ! i"
    "i \<le> length as" "j \<le> length bs" "i = 0 \<or> j = 0"
    using common_root_path [OF p assms(2,3)] by metis
  note up = up_path_set [OF p(1) assms(2)] up_path_set [OF p(2) assms(3)]
  have d: "up_path h (hd (drop i as @ [0])) (as' @ cs)" "up_path h (hd (drop j bs @ [0])) (bs' @ cs)"
    using climb_up_path [OF p(1) c(6)] climb_up_path [OF p(2) c(7)] c(2,3) by simp_all
  have e: "as = take i as @ as' @ cs" "bs = take j bs @ bs' @ cs" using c(2,3) append_take_drop_id by metis+
  have common: "z \<in> set cs" if z: "z \<in> set as" "z \<in> set bs" for z
  proof -
    have len: "length as - i = length bs - j" using c(2-4) by (metis length_append length_drop)
    obtain q q' where q: "as = q @ z # q'" using split_list [OF z(1)] by blast
    obtain w w' where w: "bs = w @ z # w'" using split_list [OF z(2)] by blast
    have "q' = w'"
      using up_path_append [of h x q "z # q'"] up_path_append [of h y w "z # w'"] p q w
        up_path_unique [of h z "z # q'" "z # w'"] by simp
    then have "i \<le> length q" "j \<le> length w" using len c(6-8) q w by auto
    then have "z \<in> set (as' @ cs)" "z \<in> set (bs' @ cs)"
      unfolding c(2,3) [symmetric] using q w by auto
    then show ?thesis by (rule common_suffix [OF d c(4,5)])
  qed
  have path_r: "up_path h (hd (cs @ [0])) cs" by (rule up_path_append [OF d(1)])
  have x1: "last (0 # as') = 0 \<longleftrightarrow> as' = []" "last (0 # bs') = 0 \<longleftrightarrow> bs' = []"
    using up_path_nonzero [OF d(1)] up_path_nonzero [OF d(2)] by (auto dest: last_in_set)
  have rel: "as' = [] \<longleftrightarrow> (x, y) \<in> (up_links h)\<^sup>* \<or> (y, x) \<in> (up_links h)\<^sup>*"
  proof
    have x: "x \<in> set as" "y \<in> set bs" using up by simp_all
    assume "as' = []"
    then have "x \<in> set bs \<or> y \<in> set as" using c(4,8) e x by (metis append_Nil in_set_conv_decomp length_0_conv set_append take_0 Un_iff)
    then show "(x, y) \<in> (up_links h)\<^sup>* \<or> (y, x) \<in> (up_links h)\<^sup>*" using up by auto
  next
    have hds: "x = hd (as @ [0])" "y = hd (bs @ [0])" using p up_path_hd by blast+
    have dis: "distinct as" "distinct bs" using p up_path_distinct by blast+
    assume "(x, y) \<in> (up_links h)\<^sup>* \<or> (y, x) \<in> (up_links h)\<^sup>*"
    then have "y \<in> set cs \<or> x \<in> set cs" using up common by auto
    then have "bs' = [] \<or> as' = []"
      using hds dis e assms(2,3) by (cases "take i as @ as'"; cases "take j bs @ bs'") (auto, (metis Cons_eq_appendI distinct.simps(2) hd_append2 list.sel(1) append_assoc Un_iff set_append list.distinct(1))+)
    then show "as' = []" using c(4) by auto
  qed
  have f0: "get_parent h (last as') = hd (cs @ [0]) \<and> get_parent h (last bs') = hd (cs @ [0]) \<and> last as' \<noteq> last bs'"
    if "as' \<noteq> []"
  proof -
    have n: "bs' \<noteq> []" using that c(4) by auto
    have "last as' \<noteq> last bs'" using c(4,5) that n by (simp add: last_conv_nth)
    moreover have "get_parent h (last as') = hd (cs @ [0])"
      using up_path_next [of h _ "butlast as'" "last as'" cs] d(1) that by (metis append.assoc append_butlast_last_id append_Cons append_Nil)
    moreover have "get_parent h (last bs') = hd (cs @ [0])"
      using up_path_next [of h _ "butlast bs'" "last bs'" cs] d(2) n by (metis append.assoc append_butlast_last_id append_Cons append_Nil)
    ultimately show ?thesis by simp
  qed
  have f1: "last as' \<in> set as \<and> last bs' \<in> set bs" if "as' \<noteq> []"
    using that c(4) e last_in_set by (metis Un_iff length_0_conv set_append)
  have f2: "hd (cs @ [0]) \<in> set cs" if "hd (cs @ [0]) \<noteq> 0" using that list_ends(2) [of cs] by auto
  have f3: "hd (cs @ [0]) \<noteq> 0" if "z \<in> set cs" for z using that path_r by (cases cs) auto
  have f4: "set cs \<subseteq> set as" "set cs \<subseteq> set bs" using e by (metis Un_iff set_append subsetI)+
  show ?thesis
  proof (intro exI conjI allI impI)
    show "obj_tree_common_root h x y = Some (hd (cs @ [0]), last (0 # as'), last (0 # bs'))" by (rule c(1))
    show "(x, hd (cs @ [0])) \<in> (up_links h)\<^sup>*" "(y, hd (cs @ [0])) \<in> (up_links h)\<^sup>*" if "hd (cs @ [0]) \<noteq> 0"
      using f2 [OF that] f4 up by auto
    show "hd (cs @ [0]) \<noteq> 0" "(hd (cs @ [0]), z) \<in> (up_links h)\<^sup>*"
      if "(x, z) \<in> (up_links h)\<^sup>*" "(y, z) \<in> (up_links h)\<^sup>*" for z
      using that up common [of z] f3 [of z] up_path_set [OF path_r] by auto
    show "(last (0 # as') = 0) = (last (0 # bs') = 0)" using x1 c(4) by auto
    show "(last (0 # as') = 0) = ((x, y) \<in> (up_links h)\<^sup>* \<or> (y, x) \<in> (up_links h)\<^sup>*)" using x1 rel by blast
    assume "last (0 # as') \<noteq> 0"
    then have n: "as' \<noteq> []" "bs' \<noteq> []" using c(4) by auto
    then show "last (0 # as') \<noteq> last (0 # bs')" "get_parent h (last (0 # as')) = hd (cs @ [0])"
      "get_parent h (last (0 # bs')) = hd (cs @ [0])" using f0 by simp_all
    show "(x, last (0 # as')) \<in> (up_links h)\<^sup>*" "(y, last (0 # bs')) \<in> (up_links h)\<^sup>*" using n f1 up by auto
  qed
qed

section \<open>Document order\<close>

lemma chain_includes_seg: "dseg h p l as 0 \<Longrightarrow> chain_includes h (hd (as @ [0])) y = Some (y \<in> set as)"
proof (induction as arbitrary: l)
  case (Cons a as)
  then show ?case by (subst chain_includes.simps) auto
qed (simp add: chain_includes.simps)

definition precedes :: "store \<Rightarrow> family \<Rightarrow> addr \<Rightarrow> addr \<Rightarrow> bool" where
  "precedes h K x y \<longleftrightarrow> (\<exists>p as c bs d. K p = as @ c # bs \<and> d \<in> set bs \<and> (x, c) \<in> (up_links h)\<^sup>* \<and> (y, d) \<in> (up_links h)\<^sup>*)"

text \<open>Of the children of \<open>p\<close> at most one is an ancestor of \<open>x\<close>, and it is on the way to \<open>p\<close>.\<close>

lemma child_on_path:
  assumes "trees h K" "x \<noteq> 0" "(x, c) \<in> (up_links h)\<^sup>*" "(x, d) \<in> (up_links h)\<^sup>*"
    "get_parent h c = get_parent h d" "get_parent h c \<noteq> 0"
  shows "c = d"
proof -
  obtain as where "up_path h x as" using up_path_exists [OF assms(1)] by blast
  then show ?thesis using path_child_unique [of h x as c d] up_path_set [of h x as] assms by blast
qed

lemma child_below:
  assumes "(r, p) \<in> (up_links h)\<^sup>*" "r \<noteq> p"
  shows "\<exists>q. (r, q) \<in> (up_links h)\<^sup>* \<and> q \<noteq> 0 \<and> p \<noteq> 0 \<and> get_parent h q = p"
  using assms(1)
proof (cases rule: rtranclE)
  case (step q)
  then show ?thesis by (intro exI [of _ q]) (auto simp: up_links_def)
qed (use assms(2) in simp)

lemma common_root_split:
  assumes T: "trees h K" and xy: "x \<noteq> 0" "y \<noteq> 0" and r: "obj_tree_common_root h x y = Some (r, x1, y1)"
    and K: "c \<in> set (K p)" "d \<in> set (K p)" "c \<noteq> d" "(x, c) \<in> (up_links h)\<^sup>*" "(y, d) \<in> (up_links h)\<^sup>*"
  shows "x1 \<noteq> 0 \<and> r = p \<and> x1 = c \<and> y1 = d"
proof -
  have c: "r \<noteq> 0 \<Longrightarrow> (x, r) \<in> (up_links h)\<^sup>* \<and> (y, r) \<in> (up_links h)\<^sup>*"
    "\<And>z. (x, z) \<in> (up_links h)\<^sup>* \<Longrightarrow> (y, z) \<in> (up_links h)\<^sup>* \<Longrightarrow> r \<noteq> 0 \<and> (r, z) \<in> (up_links h)\<^sup>*"
    "x1 = 0 \<longleftrightarrow> (x, y) \<in> (up_links h)\<^sup>* \<or> (y, x) \<in> (up_links h)\<^sup>*"
    "x1 \<noteq> 0 \<Longrightarrow> get_parent h x1 = r \<and> get_parent h y1 = r \<and> (x, x1) \<in> (up_links h)\<^sup>* \<and> (y, y1) \<in> (up_links h)\<^sup>*"
    using common_root_facts [OF T xy] r by auto
  have L: "c \<noteq> 0" "get_parent h c = p" "d \<noteq> 0" "get_parent h d = p" "p \<noteq> 0"
    using kid_iff [OF T, of c p] kid_iff [OF T, of d p] K(1,2) by auto
  have "(x, p) \<in> (up_links h)\<^sup>*" "(y, p) \<in> (up_links h)\<^sup>*" using up_parent [OF K(4)] up_parent [OF K(5)] L by simp_all
  then have r0: "r \<noteq> 0" "(r, p) \<in> (up_links h)\<^sup>*" using c(2) by auto
  have "r = p"
  proof (rule ccontr)
    assume "r \<noteq> p"
    then obtain q where q: "(r, q) \<in> (up_links h)\<^sup>*" "q \<noteq> 0" "get_parent h q = p" using child_below [OF r0(2)] by blast
    then have "(x, q) \<in> (up_links h)\<^sup>*" "(y, q) \<in> (up_links h)\<^sup>*" using c(1) [OF r0(1)] by (auto dest: rtrancl_trans)
    then have "q = c" "q = d" using child_on_path [OF T] K(4,5) q(3) L xy by metis+
    then show False using K(3) by simp
  qed
  have "x1 \<noteq> 0"
  proof
    assume "x1 = 0"
    then have "(x, d) \<in> (up_links h)\<^sup>* \<or> (y, c) \<in> (up_links h)\<^sup>*" using c(3) K(4,5) by (auto dest: rtrancl_trans)
    then show False using child_on_path [OF T] K(3-5) L xy by metis
  qed
  then show ?thesis using c(4) child_on_path [OF T] K(4,5) L xy \<open>r = p\<close> by metis
qed

lemma is_before_precedes:
  assumes T: "trees h K" and "x \<noteq> 0" "y \<noteq> 0"
  shows "is_before h x y = Some (precedes h K x y)"
proof -
  obtain r x1 y1 where c: "obj_tree_common_root h x y = Some (r, x1, y1)" "x1 = 0 \<longleftrightarrow> y1 = 0"
    "x1 \<noteq> 0 \<Longrightarrow> x1 \<noteq> y1 \<and> get_parent h x1 = r \<and> get_parent h y1 = r \<and> (x, x1) \<in> (up_links h)\<^sup>* \<and> (y, y1) \<in> (up_links h)\<^sup>*"
    using common_root_facts [OF assms] by blast
  have chain: "is_before h x y = chain_includes h x1 y1" using c(1) by (simp add: is_before_def)
  have split: "x1 \<noteq> 0 \<and> r = p \<and> x1 = c \<and> y1 = d"
    if "K p = as @ c # bs" "d \<in> set bs" "(x, c) \<in> (up_links h)\<^sup>*" "(y, d) \<in> (up_links h)\<^sup>*" for p as c bs d
    using common_root_split [OF assms c(1), of c p d] that kid_links(7) [OF T that(1)] by auto
  show ?thesis
  proof (cases "x1 = 0 \<or> r = 0")
    case True
    then have "\<not> precedes h K x y" using split kid_links(5) [OF T] unfolding precedes_def by metis
    moreover have "chain_includes h x1 y1 = Some False"
    proof (cases "x1 = 0")
      case False
      then have "get_next h x1 = 0" using True c(3) treesD(4) [OF T False] by simp
      then show ?thesis using False c(3) by (simp add: chain_includes.simps [of h x1] chain_includes.simps [of h 0])
    qed (simp add: chain_includes.simps)
    ultimately show ?thesis using chain by simp
  next
    case False
    then have y1: "x1 \<noteq> 0" "y1 \<noteq> 0" "x1 \<in> set (K r)" "x1 \<noteq> y1" using c(2,3) kid_iff [OF T, of x1 r] by auto
    then obtain as bs where K: "K r = as @ x1 # bs" by (meson split_list)
    have "dseg h r (last (0 # as)) (x1 # bs) 0" using treesD(3) [OF T, of r] False K by (simp add: dseg_append)
    then have "chain_includes h x1 y1 = Some (y1 \<in> set bs)" using chain_includes_seg [of h r _ "x1 # bs" y1] y1(4) by simp
    moreover have "precedes h K x y \<longleftrightarrow> y1 \<in> set bs"
    proof
      assume "precedes h K x y"
      then obtain p as2 k bs2 d where p: "K p = as2 @ k # bs2" "d \<in> set bs2" "(x, k) \<in> (up_links h)\<^sup>*" "(y, d) \<in> (up_links h)\<^sup>*"
        unfolding precedes_def by blast
      then have "r = p" "x1 = k" "y1 = d" using split by blast+
      then have "as @ x1 # bs = as2 @ x1 # bs2" using p(1) K by simp
      then have "bs2 = bs" using append_Cons_eq_iff [OF kid_links(6,7) [OF T K]] by auto
      then show "y1 \<in> set bs" using p(2) \<open>y1 = d\<close> by simp
    next
      assume "y1 \<in> set bs"
      then show "precedes h K x y" unfolding precedes_def using K c(3) y1(1) by blast
    qed
    ultimately show ?thesis using chain by simp
  qed
qed

end
