(* ===== verification/Tree_Leaves.thy ===== *)
theory Tree_Leaves
  imports Tree_Queries
begin

text \<open>
  Children and leaves: the loops over siblings, the collection of the leaves and the iteration
  over them in both directions.
\<close>

section \<open>Siblings\<close>

lemma last_loop_seg: "dseg h p l as 0 \<Longrightarrow> last_loop h (hd (as @ [0])) r = Some (last (r # as))"
proof (induction as arbitrary: l r)
  case (Cons a as)
  then show ?case by (subst last_loop.simps) auto
qed (simp add: last_loop.simps)

lemma get_last_kids: "trees h K \<Longrightarrow> x \<noteq> 0 \<Longrightarrow> get_last h x = Some (last (0 # K x))"
  using treesD(2,3) [of h K x] last_loop_seg [of h x 0 "K x" 0] by (simp add: get_last_def)

lemma collect_chain_seg: "dseg h p l as 0 \<Longrightarrow> collect_chain h (hd (as @ [0])) xs = Some (xs @ as)"
proof (induction as arbitrary: l xs)
  case (Cons a as)
  then show ?case by (subst collect_chain.simps) auto
qed (simp add: collect_chain.simps)

lemma propagate_kids:
  "trees h K \<Longrightarrow> x \<noteq> 0 \<Longrightarrow> propagate rel h x flag arr = Some (rel flag arr @ (if flag AND 58 \<noteq> 0 then K x else []))"
  using treesD(2,3) [of h K x] collect_chain_seg [of h x 0 "K x" "rel flag arr"] by (simp add: propagate_def)

lemma next_last_seg: "dseg h p l (a # as) 0 \<Longrightarrow> next_last_loop h a = Some (last (a # as))"
proof (induction as arbitrary: l a)
  case Nil
  then show ?case by (subst next_last_loop.simps) simp
next
  case (Cons b as)
  then show ?case by (subst next_last_loop.simps) auto
qed

section \<open>The leaves of a subtree\<close>

lemma down_induct [consumes 1, case_names node]:
  assumes T: "trees h K" and "\<And>x. (\<And>c. c \<in> set (K x) \<Longrightarrow> P c) \<Longrightarrow> P x"
  shows "P x"
proof -
  have "wf (up_links h)" using treesD(6,7) [OF T] by (rule finite_acyclic_wf [rotated])
  then show ?thesis
  proof (induction x rule: wf_induct_rule)
    case (less x)
    then show ?case using assms(2) [of x] kid_iff [OF T, of _ x] by (auto simp: up_links_def)
  qed
qed

definition leaves :: "store \<Rightarrow> addr \<Rightarrow> addr list" where
  "leaves h x = the (obj_tree_get_leaves h x [])"

lemma get_leaves_loop_seg:
  assumes "dseg h p l as 0" "\<And>c xs. c \<in> set as \<Longrightarrow> obj_tree_get_leaves h c xs = Some (xs @ leaves h c)"
  shows "get_leaves_loop h (hd (as @ [0])) xs = Some (xs @ concat (map (leaves h) as))"
  using assms
proof (induction as arbitrary: l xs)
  case (Cons a as)
  have "(if get_first h a = 0 then Some (xs @ [a]) else get_leaves_loop h (get_first h a) xs) = Some (xs @ leaves h a)"
    using Cons.prems(2) [of a xs] Cons.prems(1) by (auto simp: obj_tree_get_leaves_def split: if_splits)
  then show ?case
    using Cons.IH [of a "xs @ leaves h a"] Cons.prems by (subst get_leaves_loop.simps) auto
qed (simp add: get_leaves_loop.simps)

lemma get_leaves_facts:
  assumes T: "trees h K"
  shows "x \<noteq> 0 \<Longrightarrow> obj_tree_get_leaves h x xs = Some (xs @ (if K x = [] then [x] else concat (map (leaves h) (K x))))"
  using T
proof (induction x arbitrary: xs rule: down_induct)
  case (node x)
  have kids: "obj_tree_get_leaves h c xs = Some (xs @ leaves h c)" if "c \<in> set (K x)" for c xs
    using node(1) [OF that] kid_iff [OF T, of c x] that by (simp add: leaves_def)
  show ?case
    using node(2) treesD(2,3) [OF T node(2)] get_leaves_loop_seg [OF treesD(3) [OF T node(2)] kids, of xs]
    by (cases "K x") (auto simp: obj_tree_get_leaves_def dest: dseg_nonzero)
qed

lemma leaves_kids:
  "trees h K \<Longrightarrow> x \<noteq> 0 \<Longrightarrow> leaves h x = (if K x = [] then [x] else concat (map (leaves h) (K x)))"
  using get_leaves_facts [of h K x "[]"] by (simp add: leaves_def)

lemma get_leaves_leaves: "trees h K \<Longrightarrow> x \<noteq> 0 \<Longrightarrow> obj_tree_get_leaves h x xs = Some (xs @ leaves h x)"
  using get_leaves_facts [of h K x] leaves_kids [of h K x] by simp

lemma leaf_iff: "trees h K \<Longrightarrow> x \<noteq> 0 \<Longrightarrow> get_first h x = 0 \<longleftrightarrow> K x = []"
  using treesD(2,3) [of h K x] by (cases "K x") auto

lemma leaves_set:
  assumes T: "trees h K"
  shows "x \<noteq> 0 \<Longrightarrow> set (leaves h x) = {y. y \<noteq> 0 \<and> get_first h y = 0 \<and> (y, x) \<in> (up_links h)\<^sup>*}"
  using T
proof (induction x rule: down_induct)
  case (node x)
  have "y \<in> set (leaves h x) \<longleftrightarrow> y \<noteq> 0 \<and> get_first h y = 0 \<and> (y, x) \<in> (up_links h)\<^sup>*" for y
  proof (cases "K x = []")
    case True
    then show ?thesis using leaves_kids [OF T node(2)] node(2) down_step [OF T node(2)] leaf_iff [OF T node(2)] by auto
  next
    case False
    then have "y \<in> set (leaves h x) \<longleftrightarrow> (\<exists>c \<in> set (K x). y \<in> set (leaves h c))"
      using leaves_kids [OF T node(2)] by auto
    also have "\<dots> \<longleftrightarrow> (\<exists>c \<in> set (K x). y \<noteq> 0 \<and> get_first h y = 0 \<and> (y, c) \<in> (up_links h)\<^sup>*)"
      using node(1) kid_iff [OF T, of _ x] by auto
    also have "\<dots> \<longleftrightarrow> y \<noteq> 0 \<and> get_first h y = 0 \<and> (y, x) \<in> (up_links h)\<^sup>*"
      using down_step [OF T node(2)] False leaf_iff [OF T node(2)] by auto
    finally show ?thesis .
  qed
  then show ?case by blast
qed

lemma leaves_nonempty:
  assumes T: "trees h K"
  shows "x \<noteq> 0 \<Longrightarrow> leaves h x \<noteq> []"
  using T
proof (induction x rule: down_induct)
  case (node x)
  then show ?case using leaves_kids [OF T node(2)] kid_iff [OF T, of _ x] by (cases "K x") auto
qed

lemma siblings_apart:
  assumes T: "trees h K" and "c \<in> set (K x)" "d \<in> set (K x)" "c \<noteq> d"
  shows "set (leaves h c) \<inter> set (leaves h d) = {}"
  using assms(2-4) child_on_path [OF T, of _ c d] kid_iff [OF T, of _ x] leaves_set [OF T, of c] leaves_set [OF T, of d]
  by auto

lemma concat_distinct:
  "distinct xs \<Longrightarrow> (\<And>x. x \<in> set xs \<Longrightarrow> distinct (f x)) \<Longrightarrow>
   (\<And>x y. x \<in> set xs \<Longrightarrow> y \<in> set xs \<Longrightarrow> x \<noteq> y \<Longrightarrow> set (f x) \<inter> set (f y) = {}) \<Longrightarrow> distinct (concat (map f xs))"
proof (induction xs)
  case (Cons x xs)
  have "set (f x) \<inter> set (f y) = {}" if "y \<in> set xs" for y using Cons.prems(1) Cons.prems(3) [of x y] that by auto
  moreover have "distinct (concat (map f xs))" using Cons by auto
  ultimately show ?case using Cons.prems(2) [of x] by auto
qed simp

lemma leaves_distinct:
  assumes T: "trees h K"
  shows "x \<noteq> 0 \<Longrightarrow> distinct (leaves h x)"
  using T
proof (induction x rule: down_induct)
  case (node x)
  have "distinct (concat (map (leaves h) (K x)))"
    using kids_distinct [OF T] node(1) kid_iff [OF T, of _ x] siblings_apart [OF T, of _ x]
    by (intro concat_distinct) auto
  then show ?case using leaves_kids [OF T node(2)] by simp
qed

section \<open>Iteration\<close>

lemma concat_consecutive:
  "concat xss = as @ l # l' # bs \<Longrightarrow> [] \<notin> set xss \<Longrightarrow>
   (\<exists>xs \<in> set xss. \<exists>a b. xs = a @ l # l' # b) \<or> (\<exists>p c d q. xss = p @ c # d # q \<and> l = last c \<and> l' = hd d)"
proof (induction xss arbitrary: as)
  case (Cons xs xss)
  consider "length xs \<le> length as" | "length xs = Suc (length as)" | "Suc (length as) < length xs" by linarith
  then show ?case
  proof cases
    case 1
    then obtain as' where "concat xss = as' @ l # l' # bs"
      using Cons.prems(1) by (auto simp: append_eq_append_conv2)
    then show ?thesis using Cons.IH [of as'] Cons.prems(2) by (metis append_Cons list.set_intros(2))
  next
    case 2
    then have "xs = take (Suc (length as)) (as @ l # l' # bs)" "concat xss = drop (Suc (length as)) (as @ l # l' # bs)"
      using Cons.prems(1) by (metis append_eq_conv_conj concat.simps(2))+
    then have "xs = as @ [l]" "concat xss = l' # bs" by simp_all
    moreover from this obtain d q where d: "xss = d # q" by (cases xss) auto
    moreover from this have "hd d = l'" using calculation(2) Cons.prems(2) by (cases d) auto
    ultimately have "xs # xss = [] @ xs # d # q \<and> l = last xs \<and> l' = hd d" by simp
    then show ?thesis by blast
  next
    case 3
    have "xs = take (length xs) (as @ l # l' # bs)" using Cons.prems(1) by (metis append_eq_conv_conj concat.simps(2))
    also have "\<dots> = as @ l # l' # take (length xs - Suc (Suc (length as))) bs"
      using 3 by (simp add: take_Cons' Suc_diff_le)
    finally show ?thesis by (intro disjI1 bexI [of _ xs]) auto
  qed
qed simp

lemma climb_to_end:
  assumes T: "trees h K"
    and e: "\<And>x. K x \<noteq> [] \<Longrightarrow> c x \<in> set (K x) \<and> sib (c x) = 0" "\<And>x. x \<noteq> 0 \<Longrightarrow> e x = (if K x = [] then x else e (c x))"
  shows "x \<noteq> 0 \<Longrightarrow> (root, x) \<in> (up_links h)\<^sup>* \<longrightarrow> root = x \<Longrightarrow> climb_to_sibling sib h root (e x) = climb_to_sibling sib h root x"
  using T
proof (induction x rule: down_induct)
  case (node x)
  show ?case
  proof (cases "K x = []")
    case False
    note k = e(1) [OF False]
    then have c: "c x \<noteq> 0" "get_parent h (c x) = x" using kid_iff [OF T, of "c x" x] by auto
    have "(root, c x) \<notin> (up_links h)\<^sup>*"
      using node(2,3) child_not_above [OF T] up_parent [of root "c x" h] k c by auto
    then have "climb_to_sibling sib h root (e (c x)) = climb_to_sibling sib h root (c x)" "c x \<noteq> root"
      using node(1) k c by auto
    then show ?thesis using e(2) [OF node(2)] False k c by (subst (asm) (2) climb_to_sibling.simps) simp
  qed (use e(2) node(2) in simp)
qed

text \<open>Descending to the first and the last leaf.\<close>

lemma kids_hd: "trees h K \<Longrightarrow> x \<noteq> 0 \<Longrightarrow> K x \<noteq> [] \<Longrightarrow> get_first h x = hd (K x) \<and> hd (K x) \<in> set (K x) \<and> hd (K x) \<noteq> 0"
  using treesD(2) [of h K x] kid_iff [of h K "hd (K x)" x] by (cases "K x") auto

lemma kids_last: "trees h K \<Longrightarrow> x \<noteq> 0 \<Longrightarrow> K x \<noteq> [] \<Longrightarrow> get_last h x = Some (last (K x)) \<and> last (K x) \<in> set (K x) \<and> last (K x) \<noteq> 0"
  using get_last_kids [of h K x] kid_iff [of h K "last (K x)" x] by auto

lemma leaves_hd:
  assumes T: "trees h K" and "x \<noteq> 0"
  shows "hd (leaves h x) = (if K x = [] then x else hd (leaves h (hd (K x))))"
  using leaves_kids [OF assms] leaves_nonempty [OF T, of "hd (K x)"] kids_hd [OF assms] by (cases "K x") (auto simp: hd_append)

lemma leaves_last:
  assumes T: "trees h K" and "x \<noteq> 0"
  shows "last (leaves h x) = (if K x = [] then x else last (leaves h (last (K x))))"
  using leaves_kids [OF assms] leaves_nonempty [OF T, of "last (K x)"] kids_last [OF assms] by (cases "K x" rule: rev_cases) auto

lemma first_leaf_loop_leaf:
  assumes T: "trees h K"
  shows "x \<noteq> 0 \<Longrightarrow> first_leaf_loop h x l = Some (hd (leaves h x))"
  using T
proof (induction x arbitrary: l rule: down_induct)
  case (node x)
  then show ?case
    using leaves_hd [OF T node(2)] leaf_iff [OF T node(2)] kids_hd [OF T node(2)]
    by (subst first_leaf_loop.simps) (auto simp: first_leaf_loop.simps [of h 0])
qed

lemma last_leaf_loop_leaf:
  assumes T: "trees h K"
  shows "x \<noteq> 0 \<Longrightarrow> last_leaf_loop h x l = Some (last (leaves h x))"
  using T
proof (induction x arbitrary: l rule: down_induct)
  case (node x)
  then show ?case
    using leaves_last [OF T node(2)] get_last_kids [OF T node(2)] kids_last [OF T node(2)]
    by (subst last_leaf_loop.simps) (auto simp: last_leaf_loop.simps [of h 0])
qed

lemma next_leaf_descends:
  assumes T: "trees h K"
  shows "x \<noteq> 0 \<Longrightarrow> hd (leaves h x) \<noteq> this \<Longrightarrow> next_leaf_loop h root this x = Some (hd (leaves h x))"
  using T
proof (induction x rule: down_induct)
  case (node x)
  then show ?case
    using leaves_hd [OF T node(2)] leaf_iff [OF T node(2)] kids_hd [OF T node(2)]
    by (subst next_leaf_loop.simps) auto
qed

lemma prev_leaf_descends:
  assumes T: "trees h K"
  shows "x \<noteq> 0 \<Longrightarrow> last (leaves h x) \<noteq> this \<Longrightarrow> prev_leaf_loop h root this x = Some (last (leaves h x))"
  using T
proof (induction x rule: down_induct)
  case (node x)
  then show ?case
    using leaves_last [OF T node(2)] get_last_kids [OF T node(2)] kids_last [OF T node(2)]
    by (subst prev_leaf_loop.simps) auto
qed

lemma climb_from_last:
  assumes T: "trees h K" and "x \<noteq> 0" "(root, x) \<in> (up_links h)\<^sup>* \<longrightarrow> root = x"
  shows "climb_to_sibling (get_next h) h root (last (leaves h x)) = climb_to_sibling (get_next h) h root x"
proof (rule climb_to_end [OF T _ leaves_last [OF T] assms(2,3)])
  fix x
  assume "K x \<noteq> []"
  then have "K x = butlast (K x) @ last (K x) # []" by simp
  then show "last (K x) \<in> set (K x) \<and> get_next h (last (K x)) = 0"
    using kid_links(2) [OF T] \<open>K x \<noteq> []\<close> by fastforce
qed

lemma climb_from_first:
  assumes T: "trees h K" and "x \<noteq> 0" "(root, x) \<in> (up_links h)\<^sup>* \<longrightarrow> root = x"
  shows "climb_to_sibling (get_prev h) h root (hd (leaves h x)) = climb_to_sibling (get_prev h) h root x"
proof (rule climb_to_end [OF T _ leaves_hd [OF T] assms(2,3)])
  fix x
  assume "K x \<noteq> []"
  then have "K x = [] @ hd (K x) # tl (K x)" by simp
  then show "hd (K x) \<in> set (K x) \<and> get_prev h (hd (K x)) = 0"
    using kid_links(1) [OF T] \<open>K x \<noteq> []\<close> by fastforce
qed

text \<open>The iteration at a leaf: it goes to the leaf that \<open>climb_to_sibling\<close> and the descent give.\<close>

lemma next_leaf_at:
  assumes T: "trees h K" and "l \<noteq> 0" "get_first h l = 0" "climb_to_sibling (get_next h) h root l = Some (t, w)"
    and "t \<noteq> root \<Longrightarrow> w \<noteq> 0 \<and> hd (leaves h w) \<noteq> l"
  shows "get_next_leaf h l root = Some (if t = root then 0 else hd (leaves h w))"
  using assms next_leaf_descends [OF T, of w l root]
  by (auto simp: get_next_leaf_def next_leaf_loop.simps [of h root l l])

lemma prev_leaf_at:
  assumes T: "trees h K" and "l \<noteq> 0" "get_first h l = 0" "climb_to_sibling (get_prev h) h root l = Some (t, w)"
    and "t \<noteq> root \<Longrightarrow> w \<noteq> 0 \<and> last (leaves h w) \<noteq> l"
  shows "get_prev_leaf h l root = Some (if t = root then 0 else last (leaves h w))"
  using assms prev_leaf_descends [OF T, of w l root] get_last_kids [OF T, of l] leaf_iff [OF T, of l]
  by (auto simp: get_prev_leaf_def prev_leaf_loop.simps [of h root l l])

text \<open>Two leaves that follow each other are the last and the first leaf of neighbouring children.\<close>

lemma leaves_neighbours:
  assumes T: "trees h K"
  shows "x \<noteq> 0 \<Longrightarrow> leaves h x = as @ l # l' # bs \<Longrightarrow>
    \<exists>p cs c d ds. p \<noteq> 0 \<and> (p, x) \<in> (up_links h)\<^sup>* \<and> K p = cs @ c # d # ds \<and> l = last (leaves h c) \<and> l' = hd (leaves h d)"
  using T
proof (induction x arbitrary: as bs rule: down_induct)
  case (node x)
  then have ne: "K x \<noteq> []" "concat (map (leaves h) (K x)) = as @ l # l' # bs"
    using leaves_kids [OF T node(2)] by (auto split: if_splits)
  have "leaves h c \<noteq> []" if "c \<in> set (K x)" for c using that leaves_nonempty [OF T, of c] kid_iff [OF T, of c x] by auto
  then have "[] \<notin> set (map (leaves h) (K x))" by (metis in_set_conv_nth length_map nth_map nth_mem)
  then consider c a b where "c \<in> set (K x)" "leaves h c = a @ l # l' # b"
    | cs c d ds where "map (leaves h) (K x) = cs @ c # d # ds" "l = last c" "l' = hd d"
    using concat_consecutive [OF ne(2)] by auto
  then show ?case
  proof cases
    case (1 c a b)
    then have c: "c \<noteq> 0" "get_parent h c = x" using kid_iff [OF T, of c x] by auto
    show ?thesis using node(1) [OF 1(1) c(1) 1(2)] up_parent [of _ c h] c node(2) by metis
  next
    case (2 cs c d ds)
    then show ?thesis using node(2) by (auto simp: map_eq_append_conv) blast
  qed
qed

lemma leaf_steps:
  assumes T: "trees h K" and x: "x \<noteq> 0" "leaves h x = as @ l # l' # bs" and r: "(root, x) \<in> (up_links h)\<^sup>* \<longrightarrow> root = x"
  shows "get_next_leaf h l root = Some l'" "get_prev_leaf h l' root = Some l"
proof -
  obtain p cs c d ds where p: "p \<noteq> 0" "(p, x) \<in> (up_links h)\<^sup>*" "K p = cs @ c # d # ds"
    "l = last (leaves h c)" "l' = hd (leaves h d)" using leaves_neighbours [OF T x] by blast
  note C = kid_links [OF T p(3)] and D = kid_links [OF T, of p "cs @ [c]" d ds]
  have kids: "c \<in> set (K p)" "d \<in> set (K p)" "c \<noteq> d" using p(3) C(7) by auto
  have apart: "(root, k) \<notin> (up_links h)\<^sup>*" if k: "k \<in> set (K p)" for k
  proof
    assume "(root, k) \<in> (up_links h)\<^sup>*"
    moreover from this have "(root, x) \<in> (up_links h)\<^sup>*"
      using p(1,2) k kid_iff [OF T, of k p] up_parent [of root k h] by (auto dest: rtrancl_trans)
    ultimately have "(p, k) \<in> (up_links h)\<^sup>*" using r p(2) by (auto dest: rtrancl_trans)
    then show False using child_not_above [OF T k] by blast
  qed
  have ne: "c \<noteq> root" "d \<noteq> root" using apart kids by auto
  have d0: "d \<noteq> 0" using D(4) p(3) by simp
  have "l \<in> set (leaves h c)" "l' \<in> set (leaves h d)"
    unfolding p(4,5) using leaves_nonempty [OF T C(4)] leaves_nonempty [OF T d0] by simp_all
  then have ll: "l \<noteq> l'" "l \<noteq> 0" "l' \<noteq> 0" "get_first h l = 0" "get_first h l' = 0"
    using siblings_apart [OF T kids] leaves_set [OF T C(4)] leaves_set [OF T d0] by (blast, simp_all)
  have "climb_to_sibling (get_next h) h root l = Some (c, d)"
    using climb_from_last [OF T C(4), of root] apart [OF kids(1)] p(4) ne C(2,4) d0
    by (simp add: climb_to_sibling.simps [of _ h root c])
  then show "get_next_leaf h l root = Some l'"
    using next_leaf_at [OF T ll(2,4)] ne p(5) d0 ll(1) by simp
  have "climb_to_sibling (get_prev h) h root l' = Some (d, c)"
    using climb_from_first [OF T d0, of root] apart [OF kids(2)] p(3,5) ne C(4) D(1) d0
    by (simp add: climb_to_sibling.simps [of _ h root d])
  then show "get_prev_leaf h l' root = Some l"
    using prev_leaf_at [OF T ll(3,5)] ne p(4) C(4) ll(1) by simp
qed

lemma leaf_ends:
  assumes T: "trees h K" and x: "x \<noteq> 0" and r: "root = x \<or> root = 0 \<and> get_parent h x = 0"
  shows "get_next_leaf h (last (leaves h x)) root = Some 0" "get_prev_leaf h (hd (leaves h x)) root = Some 0"
proof -
  have nz: "last (leaves h x) \<noteq> 0 \<and> get_first h (last (leaves h x)) = 0" "hd (leaves h x) \<noteq> 0 \<and> get_first h (hd (leaves h x)) = 0"
    using leaves_nonempty [OF T x] leaves_set [OF T x] last_in_set [of "leaves h x"] hd_in_set [of "leaves h x"] by auto
  have "(root, x) \<in> (up_links h)\<^sup>* \<longrightarrow> root = x" using r up_step [of 0 x h] by auto
  note climb = climb_from_last [OF T x this] climb_from_first [OF T x this]
  have "climb_to_sibling sib h root x = Some (root, 0)" if "get_parent h x = 0 \<Longrightarrow> sib x = 0" for sib
  proof (cases "root = x")
    case False
    then have "root = 0" "sib x = 0" "get_parent h x = 0" using r that by auto
    then show ?thesis
      using x by (simp add: climb_to_sibling.simps [of sib h 0 x] climb_to_sibling.simps [of sib h 0 0])
  qed (simp add: climb_to_sibling.simps)
  then have "climb_to_sibling (get_next h) h root x = Some (root, 0)" "climb_to_sibling (get_prev h) h root x = Some (root, 0)"
    using treesD(4) [OF T x] by simp_all
  then show "get_next_leaf h (last (leaves h x)) root = Some 0" "get_prev_leaf h (hd (leaves h x)) root = Some 0"
    using next_leaf_at [OF T, of "last (leaves h x)"] prev_leaf_at [OF T, of "hd (leaves h x)"] nz climb by simp_all
qed

end
