(* ===== verification/Tree_Splitting.thy ===== *)
theory Tree_Splitting
  imports Tree_Grouping Tree_Leaves
begin

text \<open>
  \<^verbatim>\<open>split_family\<close>, which moves the siblings after a node to another parent, and
  \<^verbatim>\<open>split_tree_path\<close>, which does so at every node on the way to an ancestor.
\<close>

lemma parent_by_kids:
  assumes "trees h K" "x \<noteq> 0"
  shows "get_parent h x = q \<longleftrightarrow> (if q = 0 then \<forall>p. x \<notin> set (K p) else x \<in> set (K q))"
  using kid_iff [OF assms(1), of x] assms(2) by auto

lemma detach_idem: "(\<And>q. b \<notin> set (K q)) \<Longrightarrow> detach b K = K"
  by (simp add: detach_def fun_eq_iff remove1_idem)

lemma detach_kid:
  assumes "trees h K" "K p = as @ b # bs"
  shows "detach b K = K(p := as @ bs)"
proof
  fix q
  show "detach b K q = (K(p := as @ bs)) q"
    using kid_iff [OF assms(1), of b] kid_links [OF assms] assms(2)
    by (cases "q = p") (simp_all add: detach_def remove1_append remove1_idem)
qed

lemma detached:
  assumes "trees h K" "b \<noteq> 0"
  shows "b \<notin> set (detach b K q)" "get_parent (unlink b h) b = 0"
  using kid_iff [OF trees_detach [OF assms], of b q] by (auto simp: unlinked_fields)

lemma adopt_rest_refines:
  "trees h K \<Longrightarrow> K p = as @ x # bs \<Longrightarrow> f \<noteq> 0 \<Longrightarrow> f \<noteq> p \<Longrightarrow> get_parent h f = 0 \<Longrightarrow> K f = ds \<Longrightarrow>
   r = (if ds = [] then 0 else last ds) \<Longrightarrow>
   \<exists>h'. adopt_rest x f r h = Some h' \<and> trees h' (K(p := as @ [x], f := ds @ bs))"
proof (induction bs arbitrary: h K ds r)
  case Nil
  note L = kid_links [OF Nil.prems(1,2)]
  have "K(p := as @ [x], f := ds @ []) = K" using Nil.prems by (simp add: fun_eq_iff)
  then show ?case using L(2) Nil.prems(1) by (subst adopt_rest.simps) simp
next
  case (Cons b bs)
  note T = Cons.prems(1) and L = kid_links [OF Cons.prems(1,2)]
  have b: "K p = (as @ [x]) @ b # bs" using Cons.prems(2) by simp
  note B = kid_links [OF T b]
  let ?K = "detach b K"
  have T1: "trees (unlink b h) ?K" by (rule trees_detach [OF T B(4)])
  have K1: "?K = K(p := as @ x # bs)" using detach_kid [OF T b] by simp
  have K1f: "?K f = ds" "?K p = as @ x # bs" using K1 Cons.prems(4,6) by simp_all
  have bf: "b \<noteq> f" using B(3,5) Cons.prems(5) by auto
  have up_f: "(f, b) \<notin> (up_links (unlink b h))\<^sup>*"
    using bf up_step [of f b "unlink b h"] Cons.prems(5) unlinked_fields(4) [of f b h] by auto
  have bd: "b \<notin> set ds" using kid_iff [OF T, of b f] B(3) Cons.prems(4,6) by auto
  have keep: "detach b ?K = ?K" by (rule detach_idem) (rule detached(1) [OF T B(4)])
  obtain h1 where h1: "(if r \<noteq> 0 then put_after r b (unlink b h)
      else if get_first (unlink b h) f = 0 then put_first f b (unlink b h)
      else put_after (get_first (unlink b h) f) b (unlink b h)) = Some h1" "trees h1 (?K(f := ds @ [b]))"
  proof (cases "ds = []")
    case True
    moreover have "get_first (unlink b h) f = 0" using treesD(2) [OF T1 Cons.prems(3)] K1f True by simp
    ultimately show ?thesis
      using that put_first_refines [OF T1 Cons.prems(3) B(4) up_f] Cons.prems(7) keep K1f by auto
  next
    case False
    then have r: "r \<in> set ds" "ds = butlast ds @ r # []" using Cons.prems(7) by auto
    then have rf: "r \<noteq> 0" "get_parent (unlink b h) r = f" using kid_iff [OF T1, of r f] K1f by auto
    have "(r, b) \<notin> (up_links (unlink b h))\<^sup>*" using up_step [of r b "unlink b h"] rf up_f bd r(1) by auto
    then obtain h1 where "put_after r b (unlink b h) = Some h1" "trees h1 (?K(f := insert_behind r b ds))"
      using put_after_refines [OF T1 rf(1) B(4) _ rf(2) Cons.prems(3)] keep K1f by auto
    moreover have "insert_behind r b ds = ds @ [b]"
    proof -
      have "r \<notin> set (butlast ds)" using kids_distinct [OF T1, of f] K1f(1) r(2) by (metis distinct_append not_distinct_conv_prefix append.assoc append_Cons append_Nil)
      then show ?thesis using insert_split(1) [of r "butlast ds" b "[]"] r(2) by simp
    qed
    ultimately show ?thesis using that rf(1) by simp
  qed
  have T2: "trees h1 (K(p := as @ x # bs, f := ds @ [b]))" using h1(2) K1 by simp
  have nk: "f \<notin> set (K q)" for q using kid_iff [OF T, of f q] Cons.prems(3,5) by auto
  have "f \<notin> set ((K(p := as @ x # bs, f := ds @ [b])) q)" for q
    using nk [of q] nk [of p] nk [of f] Cons.prems(2,6) bf by (cases "q = f"; cases "q = p") auto
  then have f1: "get_parent h1 f = 0" using parent_by_kids [OF T2 Cons.prems(3), of 0] by simp
  have new: "(K(p := as @ x # bs, f := ds @ [b])) p = as @ x # bs" "(K(p := as @ x # bs, f := ds @ [b])) f = ds @ [b]"
    "b = (if ds @ [b] = [] then 0 else last (ds @ [b]))" using Cons.prems(4) by simp_all
  obtain h' where "adopt_rest x f b h1 = Some h'"
    "trees h' ((K(p := as @ x # bs, f := ds @ [b]))(p := as @ [x], f := (ds @ [b]) @ bs))"
    using Cons.IH [OF T2 new(1) Cons.prems(3,4) f1 new(2,3)] by blast
  moreover have "(K(p := as @ x # bs, f := ds @ [b]))(p := as @ [x], f := (ds @ [b]) @ bs) = K(p := as @ [x], f := ds @ b # bs)"
    by (simp add: fun_eq_iff)
  ultimately show ?case
    using L(2) B(4) h1(1) Cons.prems(3) by (subst adopt_rest.simps) (auto simp: Let_def remove_from_tree_eq split: if_splits)
qed

lemma split_family_refines:
  assumes T: "trees h K" and K: "K p = as @ x # bs" and f: "f \<noteq> 0" "get_parent h f = 0" "K f = []"
  shows "\<exists>h'. split_family x f h = Some h' \<and> trees h'
    (if get_parent h p = 0 then K(p := as @ [x, f], f := bs)
     else K(p := as @ [x], f := bs, get_parent h p := insert_behind p f (K (get_parent h p))))"
proof -
  note L = kid_links [OF T K]
  have fp: "f \<noteq> p" using K f(3) by auto
  let ?K = "K(p := as @ [x], f := bs)"
  have "\<exists>h1. adopt_rest x f 0 h = Some h1 \<and> trees h1 (K(p := as @ [x], f := [] @ bs))"
    by (rule adopt_rest_refines [OF T K f(1) fp f(2,3)]) simp
  then obtain h1 where h1: "adopt_rest x f 0 h = Some h1" and T1: "trees h1 ?K" by auto
  have nf: "f \<notin> set (K q)" for q using kid_iff [OF T, of f q] f(2) by auto
  have nf1: "f \<notin> set (?K q)" for q using nf [of q] nf [of p] K by auto
  have f1: "get_parent h1 f = 0" using parent_by_kids [OF T1 f(1), of 0] nf1 by simp
  have par: "get_parent h1 y = (if y \<in> set bs then f else get_parent h y)" if y: "y \<noteq> 0" for y
  proof -
    have "y \<in> set (?K (get_parent h y))" if "get_parent h y \<noteq> 0" "y \<notin> set bs"
      using that parent_by_kids [OF T y, of "get_parent h y"] K f(3) by (cases "get_parent h y = p") auto
    moreover have "y \<notin> set (?K q)" if "get_parent h y = 0" for q
      using that kid_iff [OF T, of y q] kid_iff [OF T, of y p] K by auto
    ultimately show ?thesis
      using parent_by_kids [OF T1 y, of "get_parent h y"] parent_by_kids [OF T1 y, of f] f(1) kid_iff [OF T, of y p] K L(5)
      by (cases "y \<in> set bs") auto
  qed
  have stay: "(p, y) \<in> (up_links h1)\<^sup>* \<Longrightarrow> (p, y) \<in> (up_links h)\<^sup>* \<and> y \<noteq> f" for y
  proof (induction rule: rtrancl_induct)
    case base
    then show ?case using fp by simp
  next
    case (step y z)
    have "y \<notin> set bs" using step.IH child_not_above [OF T, of y p] K by auto
    then have "(y, z) \<in> up_links h" using step.hyps(2) par [of y] by (auto simp: up_links_def)
    then show ?case using step.IH nf [of z] kid_iff [OF T, of y f] f(3)
      by (auto simp: up_links_def intro: rtrancl_into_rtrancl)
  qed
  have keep: "detach f ?K = ?K" by (rule detach_idem) (rule nf1)
  have pp: "get_parent h1 p = get_parent h p" using par [OF L(5)] kid_iff [OF T, of p p] no_self_parent [OF T L(5)] K by auto
  show ?thesis
  proof (cases "get_parent h p = 0")
    case True
    have "x \<noteq> f" using nf [of p] K by auto
    then have "(x, f) \<notin> (up_links h1)\<^sup>*"
      using up_step [of x f h1] up_step [of p f h1] par [OF L(4)] L(3,7) pp True fp by auto
    then obtain h' where "put_after x f h1 = Some h'" "trees h' (?K(p := insert_behind x f (?K p)))"
      using put_after_refines [OF T1 L(4) f(1) _ _ L(5)] par [OF L(4)] L(3,7) keep by auto
    moreover have "?K(p := insert_behind x f (?K p)) = K(p := as @ [x, f], f := bs)"
      using L(6) fp by (auto simp: fun_eq_iff insert_split(1) [of x as f "[]", simplified])
    ultimately show ?thesis using True h1 L pp by (simp add: split_family_def Let_def)
  next
    case False
    let ?g = "get_parent h p"
    have g: "?g \<noteq> p" "?g \<noteq> f"
      using no_self_parent [OF T L(5)] kid_iff [OF T, of p f] f(1,3) L(5) by auto
    obtain h' where "put_after p f h1 = Some h'" "trees h' (?K(?g := insert_behind p f (?K ?g)))"
      using put_after_refines [OF T1 L(5) f(1) _ pp False] stay keep by auto
    then show ?thesis using False h1 L pp g by (simp add: split_family_def Let_def)
  qed
qed

lemma set_insert_behind: "set (insert_behind x t as) = set as \<union> (if x \<in> set as then {t} else {})"
  by (induction as) auto

lemma split_family_parents:
  assumes T: "trees h K" and K: "K p = as @ x # bs" and f: "f \<noteq> 0" "get_parent h f = 0" "K f = []"
    and T': "trees h' (if get_parent h p = 0 then K(p := as @ [x, f], f := bs)
     else K(p := as @ [x], f := bs, get_parent h p := insert_behind p f (K (get_parent h p))))" (is "trees h' ?K")
    and y: "y \<noteq> 0" "y \<notin> set bs" "y \<noteq> f"
  shows "get_parent h' y = get_parent h y"
proof -
  note L = kid_links [OF T K]
  have g: "get_parent h p \<noteq> p" "get_parent h p \<noteq> f"
    using no_self_parent [OF T L(5)] kid_iff [OF T, of p f] f(1,3) L(5) by auto
  have "f \<noteq> p" using K f(3) by auto
  then have "y \<in> set (?K q) \<longleftrightarrow> y \<in> set (K q)" for q
    using K y f(3) g by (cases "q = f"; cases "q = p") (auto simp: set_insert_behind)
  then show ?thesis
    using parent_by_kids [OF T y(1), of "get_parent h y"] parent_by_kids [OF T' y(1), of "get_parent h y"] by simp
qed

lemma up_path_cong: "up_path h x as \<Longrightarrow> (\<And>y. y \<in> set as \<Longrightarrow> get_parent h' y = get_parent h y) \<Longrightarrow> up_path h' x as"
  by (induction as arbitrary: x) auto

text \<open>What \<^verbatim>\<open>rel_copy\<close> does: it constructs a copy at a new address.\<close>

definition makes_copies :: "(addr \<Rightarrow> store \<Rightarrow> addr \<times> store) \<Rightarrow> bool" where
  "makes_copies rel_copy \<longleftrightarrow> (\<forall>h K x. trees h K \<longrightarrow> x \<noteq> 0 \<longrightarrow> (case rel_copy x h of (n, h') \<Rightarrow>
     n \<noteq> 0 \<and> get_parent h n = 0 \<and> get_first h n = 0 \<and> h' = objTree_copy x n h))"

lemma makes_copiesD:
  assumes "makes_copies rel_copy" "trees h K" "x \<noteq> 0"
  obtains n where "rel_copy x h = (n, h)" "n \<noteq> 0" "get_parent h n = 0" "K n = []"
proof -
  obtain n h' where n: "rel_copy x h = (n, h')" by (cases "rel_copy x h")
  then have 1: "n \<noteq> 0" "get_parent h n = 0" "get_first h n = 0" "h' = objTree_copy x n h"
    using assms(1) [unfolded makes_copies_def, rule_format, OF assms(2,3)] by simp_all
  have "h n = \<lparr>tree_parent = 0, tree_first = 0, tree_next = 0, tree_prev = 0\<rparr>"
    using treesD(4) [OF assms(2) 1(1,2)] 1(2,3) by (intro links.equality) simp_all
  then have "h' = h" unfolding 1(4) objTree_copy_def by (simp add: fun_upd_idem)
  then show ?thesis using that n 1 leaf_iff [OF assms(2) 1(1)] by blast
qed

lemma split_tree_path_up:
  assumes copies: "makes_copies rel_copy"
  shows "trees h K \<Longrightarrow> up_path h b (b # ps) \<Longrightarrow> r \<in> set ps \<Longrightarrow>
    \<exists>h' K'. split_tree_path rel_copy b r h = Some h' \<and> trees h' K'"
proof (induction ps arbitrary: b h K)
  case (Cons p ps)
  note T = Cons.prems(1)
  have p: "b \<noteq> 0" "get_parent h b = p" "p \<noteq> 0" "up_path h p (p # ps)" using Cons.prems(2) by auto
  then obtain as bs where K: "K p = as @ b # bs" using treesD(5) [OF T p(1)] by (metis split_list)
  obtain n where n: "rel_copy p h = (n, h)" "n \<noteq> 0" "get_parent h n = 0" "K n = []"
    using makes_copiesD [OF copies T p(3)] by blast
  from split_family_refines [OF T K n(2-4)] obtain h1 where h1: "split_family b n h = Some h1"
    "trees h1 (if get_parent h p = 0 then K(p := as @ [b, n], n := bs)
     else K(p := as @ [b], n := bs, get_parent h p := insert_behind p n (K (get_parent h p))))" by blast
  have step: "split_tree_path rel_copy b r h = (if p \<noteq> r then split_tree_path rel_copy p r h1 else Some h1)"
    using p n(1) h1(1) by (subst split_tree_path.simps) (simp add: Let_def)
  show ?case
  proof (cases "p = r")
    case False
    have "get_parent h1 y = get_parent h y" if "y \<in> set (p # ps)" for y
    proof (rule split_family_parents [OF T K n(2-4) h1(2)])
      have y: "(p, y) \<in> (up_links h)\<^sup>*" using up_path_set [OF p(4,3)] that by simp
      show "y \<noteq> 0" using up_path_nonzero [OF p(4)] that by blast
      show "y \<notin> set bs" using y child_not_above [OF T, of y p] K by auto
      show "y \<noteq> n" using y down_step [OF T n(2), of p] n(4) K by auto
    qed
    then have "up_path h1 p (p # ps)" using up_path_cong [OF p(4)] by blast
    then show ?thesis using Cons.IH [OF h1(2)] Cons.prems(3) False step by simp
  qed (use step h1(2) in auto)
qed simp

end
