(* ===== verification/Tree_Iteration.thy ===== *)
theory Tree_Iteration
  imports Tree_Leaves
begin

text \<open>
  Loops over linked items: the interface that the children of a node and the leaves below it share,
  what a loop from either end of such a list visits, and that both provide it.
\<close>

text \<open>The items that a loop visits from \<open>x\<close> on, in at most \<open>n\<close> rounds.\<close>

fun visit :: "(addr \<Rightarrow> addr option) \<Rightarrow> nat \<Rightarrow> addr \<Rightarrow> addr list option" where
  "visit f n x = (if x = 0 then Some [] else case n of 0 \<Rightarrow> None
     | Suc m \<Rightarrow> (case f x of None \<Rightarrow> None | Some y \<Rightarrow> map_option (Cons x) (visit f m y)))"

declare visit.simps [simp del]

locale linked_items =
  fixes ok :: "'s \<Rightarrow> bool" and items :: "'s \<Rightarrow> addr list"
    and first_item last_item :: "'s \<Rightarrow> addr option" and next_item prev_item :: "'s \<Rightarrow> addr \<Rightarrow> addr option"
  assumes nonzero: "ok s \<Longrightarrow> 0 \<notin> set (items s)"
    and first_item: "ok s \<Longrightarrow> first_item s = Some (hd (items s @ [0]))"
    and last_item: "ok s \<Longrightarrow> last_item s = Some (last (0 # items s))"
    and next_item: "ok s \<Longrightarrow> items s = xs @ x # ys \<Longrightarrow> next_item s x = Some (hd (ys @ [0]))"
    and prev_item: "ok s \<Longrightarrow> items s = xs @ x # ys \<Longrightarrow> prev_item s x = Some (last (0 # xs))"
begin

lemma visit_suffix:
  "ok s \<Longrightarrow> items s = xs @ ys \<Longrightarrow> length ys \<le> n \<Longrightarrow> visit (next_item s) n (hd (ys @ [0])) = Some ys"
proof (induction ys arbitrary: xs n)
  case (Cons y ys)
  then have "y \<noteq> 0" using nonzero by fastforce
  moreover obtain m where "n = Suc m" "length ys \<le> m" using Cons.prems(3) by (cases n) auto
  moreover have "visit (next_item s) m (hd (ys @ [0])) = Some ys" using Cons.IH [of "xs @ [y]" m] Cons.prems calculation(3) by simp
  ultimately show ?case using next_item [OF Cons.prems(1,2)] by (subst visit.simps) simp
qed (simp add: visit.simps)

lemma visit_prefix:
  "ok s \<Longrightarrow> items s = xs @ ys \<Longrightarrow> length xs \<le> n \<Longrightarrow> visit (prev_item s) n (last (0 # xs)) = Some (rev xs)"
proof (induction xs arbitrary: ys n rule: rev_induct)
  case (snoc x xs)
  then have "x \<noteq> 0" using nonzero by fastforce
  moreover obtain m where "n = Suc m" "length xs \<le> m" using snoc.prems(3) by (cases n) auto
  moreover have "visit (prev_item s) m (last (0 # xs)) = Some (rev xs)" using snoc.IH [of "x # ys" m] snoc.prems calculation(3) by simp
  ultimately show ?case using prev_item [OF snoc.prems(1), of xs x ys] snoc.prems(2) by (subst visit.simps) simp
qed (simp add: visit.simps)

lemma loops_visit_items:
  assumes "ok s" "length (items s) \<le> n"
  shows "Option.bind (first_item s) (visit (next_item s) n) = Some (items s)"
    "Option.bind (last_item s) (visit (prev_item s) n) = Some (rev (items s))"
  using visit_suffix [OF assms(1), of "[]" "items s" n] visit_prefix [OF assms(1), of "items s" "[]" n]
    first_item [OF assms(1)] last_item [OF assms(1)] assms(2) by simp_all

end

text \<open>The children of a node.\<close>

interpretation kids: linked_items "\<lambda>(h, K, x). trees h K \<and> x \<noteq> 0" "\<lambda>(h, K, x). K x"
  "\<lambda>(h, K, x). Some (get_first h x)" "\<lambda>(h, K, x). get_last h x"
  "\<lambda>(h, K, x) c. Some (get_next h c)" "\<lambda>(h, K, x) c. Some (get_prev h c)"
  by unfold_locales
    (auto simp: kid_iff get_last_kids treesD(2) kid_links(1,2) simp del: last.simps)

definition leaf_root :: "store \<Rightarrow> addr \<Rightarrow> addr \<Rightarrow> bool" where
  "leaf_root h x root \<longleftrightarrow> x \<noteq> 0 \<and> (\<exists>K. trees h K) \<and> (root = x \<or> root = 0 \<and> get_parent h x = 0)"

lemma leaf_next:
  assumes "leaf_root h x root" "leaves h x = xs @ l # ys"
  shows "get_next_leaf h l root = Some (hd (ys @ [0]))" "get_prev_leaf h l root = Some (last (0 # xs))"
proof -
  obtain K where T: "trees h K" "x \<noteq> 0" "root = x \<or> root = 0 \<and> get_parent h x = 0"
    using assms(1) by (auto simp: leaf_root_def)
  then have r: "(root, x) \<in> (up_links h)\<^sup>* \<longrightarrow> root = x" using up_step [of 0 x h] by auto
  show "get_next_leaf h l root = Some (hd (ys @ [0]))"
    using leaf_steps(1) [OF T(1,2) _ r, of xs l] leaf_ends(1) [OF T] assms(2) by (cases ys) auto
  show "get_prev_leaf h l root = Some (last (0 # xs))"
    using leaf_steps(2) [OF T(1,2) _ r, of "butlast xs" "last xs" l ys] leaf_ends(2) [OF T] assms(2)
    by (cases xs rule: rev_cases) auto
qed

text \<open>The leaves below a node.\<close>

interpretation leaf: linked_items "\<lambda>(h, x, root). leaf_root h x root" "\<lambda>(h, x, root). leaves h x"
  "\<lambda>(h, x, root). get_first_leaf h x" "\<lambda>(h, x, root). get_last_leaf h x"
  "\<lambda>(h, x, root) l. get_next_leaf h l root" "\<lambda>(h, x, root) l. get_prev_leaf h l root"
proof (unfold_locales, goal_cases)
  case (1 s)
  then show ?case using leaves_set by (auto simp: leaf_root_def)
next
  case (2 s)
  then show ?case using first_leaf_loop_leaf leaves_nonempty by (auto simp: leaf_root_def get_first_leaf_def hd_append)
next
  case (3 s)
  then show ?case using last_leaf_loop_leaf leaves_nonempty by (auto simp: leaf_root_def get_last_leaf_def)
next
  case (4 s xs x ys)
  then show ?case using leaf_next(1) by (cases s) auto
next
  case (5 s xs x ys)
  then show ?case using leaf_next(2) by (cases s) (auto simp del: last.simps)
qed

end
