(* ===== verification/Tree_Properties.thy ===== *)
theory Tree_Properties
  imports Tree_Splitting Tree_Iteration
begin

text \<open>
  The properties of \<^verbatim>\<open>objTree\<close>: the changes of the links are changes of lists of children, the
  queries answer for the tree that these lists make, and what happens without the preconditions.
\<close>

section \<open>An example\<close>

definition no_links :: links where
  "no_links = \<lparr>tree_parent = 0, tree_first = 0, tree_next = 0, tree_prev = 0\<rparr>"

definition example_store :: store where
  "example_store = (\<lambda>_. no_links)
     (1 := \<lparr>tree_parent = 0, tree_first = 2, tree_next = 0, tree_prev = 0\<rparr>,
      2 := \<lparr>tree_parent = 1, tree_first = 0, tree_next = 3, tree_prev = 0\<rparr>,
      3 := \<lparr>tree_parent = 1, tree_first = 5, tree_next = 4, tree_prev = 2\<rparr>,
      4 := \<lparr>tree_parent = 1, tree_first = 0, tree_next = 0, tree_prev = 3\<rparr>,
      5 := \<lparr>tree_parent = 3, tree_first = 0, tree_next = 6, tree_prev = 0\<rparr>,
      6 := \<lparr>tree_parent = 3, tree_first = 0, tree_next = 0, tree_prev = 5\<rparr>)"

definition example_family :: family where
  "example_family = (\<lambda>_. [])(1 := [2, 3, 4], 3 := [5, 6])"

lemma example_simps [simp]:
  "get_parent example_store x = (if x \<in> {2, 3, 4} then 1 else if x \<in> {5, 6} then 3 else 0)"
  "get_first example_store x = (if x = 1 then 2 else if x = 3 then 5 else 0)"
  "get_next example_store x = (if x = 2 then 3 else if x = 3 then 4 else if x = 5 then 6 else 0)"
  "get_prev example_store x = (if x = 3 then 2 else if x = 4 then 3 else if x = 6 then 5 else 0)"
  by (auto simp: example_store_def no_links_def)

lemma example_trees: "trees example_store example_family"
proof -
  have "up_links example_store \<subseteq> {1..6} \<times> {1..6}" "up_links example_store \<subseteq> {(a, b). b < a}"
    by (auto simp: up_links_def split: if_splits)
  moreover have "acyclic {(a, b). b < (a :: nat)}"
  proof -
    have "trans {(a, b). b < (a :: nat)}" by (auto intro!: transI)
    then show ?thesis by (simp add: acyclic_def trancl_id)
  qed
  ultimately have "finite (up_links example_store)" "acyclic (up_links example_store)"
    by (auto intro: finite_subset acyclic_subset)
  then show ?thesis by (auto simp: trees_def example_family_def)
qed

lemma example_up: "subtree_of example_store x r = Some b \<Longrightarrow> x \<noteq> 0 \<Longrightarrow> r \<noteq> 0 \<Longrightarrow> (x, r) \<in> (up_links example_store)\<^sup>* \<longleftrightarrow> b"
  using subtree_of_up [OF example_trees] by simp

section \<open>Changes\<close>

text \<open>C16: removing a node, and putting a node in front of, behind or as the first child of another
  that is not in its subtree, changes the lists of children just so.\<close>

theorem moves_refine:
  assumes "trees h K" "this \<noteq> 0" "t \<noteq> 0" "subtree_of h this t = Some False"
  shows "(\<exists>h'. remove_from_tree t h = Some h' \<and> trees h' (detach t K)) \<and>
    (\<exists>h'. put_first this t h = Some h' \<and> trees h' ((detach t K)(this := t # detach t K this))) \<and>
    (get_parent h this \<noteq> 0 \<longrightarrow> (let p = get_parent h this in
      (\<exists>h'. put_after this t h = Some h' \<and> trees h' ((detach t K)(p := insert_behind this t (detach t K p)))) \<and>
      (\<exists>h'. put_before this t h = Some h' \<and> trees h' ((detach t K)(p := insert_ahead this t (detach t K p))))))"
proof -
  have up: "(this, t) \<notin> (up_links h)\<^sup>*" using subtree_of_up [OF assms(1-3)] assms(4) by simp
  show ?thesis
    unfolding Let_def
    using trees_detach [OF assms(1,3)] remove_from_tree_eq [OF assms(3), of h] put_first_refines [OF assms(1-3) up]
      put_after_refines [OF assms(1-3) up refl] put_before_refines [OF assms(1-3) up refl] by blast
qed

theorem moves_refine_witness:
  "\<exists>h'. put_before 2 3 example_store = Some h' \<and> trees h' ((\<lambda>_. [])(1 := [3, 2, 4], 3 := [5, 6]))"
proof -
  have "subtree_of example_store 2 3 = Some False" by (simp add: subtree_of.simps)
  from moves_refine [OF example_trees _ _ this]
  have "\<exists>h'. put_before 2 3 example_store = Some h' \<and>
    trees h' ((detach 3 example_family)(1 := insert_ahead 2 3 (detach 3 example_family 1)))" by simp
  moreover have "(detach 3 example_family)(1 := insert_ahead 2 3 (detach 3 example_family 1)) = (\<lambda>_. [])(1 := [3, 2, 4], 3 := [5, 6])"
    by (auto simp: detach_def example_family_def fun_eq_iff)
  ultimately show ?thesis by simp
qed

text \<open>C17: the operations on several nodes. \<^verbatim>\<open>remove\<close> detaches a node and all of its children,
  \<^verbatim>\<open>splice\<close> puts the children of a node in its place, \<^verbatim>\<open>add_parent_to_list\<close> puts a new node in
  the place of a list of siblings, which become its children, and \<^verbatim>\<open>split_family\<close> moves the
  siblings after a node to a new one, which it puts behind the parent (or, under a root, behind the
  node).\<close>

theorem regrouping_refines:
  assumes "trees h K" "K p = as @ x # bs" "n \<noteq> 0" "get_parent h n = 0" "get_first h n = 0"
  shows "(\<exists>h'. tree_remove x h = Some h' \<and> trees h' (K(p := as @ bs, x := []))) \<and>
    (K x \<noteq> [] \<longrightarrow> (\<exists>h'. splice x h = Some h' \<and> trees h' (K(p := as @ K x @ bs, x := [])))) \<and>
    (\<forall>ys zs. bs = ys @ zs \<longrightarrow>
      (\<exists>h'. add_parent_to_list n x (last (x # ys)) h = Some h' \<and> trees h' (K(p := as @ n # zs, n := x # ys)))) \<and>
    (\<exists>h'. split_family x n h = Some h' \<and> trees h'
      (if get_parent h p = 0 then K(p := as @ [x, n], n := bs)
       else K(p := as @ [x], n := bs, get_parent h p := insert_behind p n (K (get_parent h p)))))"
proof -
  note L = kid_links [OF assms(1,2)]
  have n: "K n = []" using leaf_iff [OF assms(1,3)] assms(5) by simp
  then have "p \<noteq> n" using assms(2) by auto
  then have add: "\<exists>h'. add_parent_to_list n x (last (x # ys)) h = Some h' \<and> trees h' (K(p := as @ n # zs, n := x # ys))"
    if "bs = ys @ zs" for ys zs
    using add_parent_eq [OF assms(1,3,4), of p as "x # ys" zs] trees_wrapped [OF assms(1,3,4) n, of p as "x # ys" zs] that assms(2)
    by simp
  have rem: "\<exists>h'. tree_remove x h = Some h' \<and> trees h' (K(p := as @ bs, x := []))"
    using tree_remove_refines [OF assms(1) L(4)] detach_kid [OF assms(1,2)] by simp
  have spl: "\<exists>h'. splice x h = Some h' \<and> trees h' (K(p := as @ K x @ bs, x := []))" if "K x \<noteq> []"
    using splice_eq [OF assms(1) L(4,3,5) refl that] trees_spliced [OF assms(1) L(4) assms(2) refl that] by blast
  show ?thesis using add rem spl split_family_refines [OF assms(1,2,3,4) n] by blast
qed

theorem regrouping_refines_witness:
  "(\<exists>h'. splice 3 example_store = Some h' \<and> trees h' ((\<lambda>_. [])(1 := [2, 5, 6, 4]))) \<and>
   (\<exists>h'. add_parent_to_list 7 3 4 example_store = Some h' \<and> trees h' ((\<lambda>_. [])(1 := [2, 7], 7 := [3, 4], 3 := [5, 6])))"
proof -
  have K: "example_family 1 = [2] @ 3 # [4]" by (simp add: example_family_def)
  have n: "(7 :: addr) \<noteq> 0" "get_parent example_store 7 = 0" "get_first example_store 7 = 0" by simp_all
  note r = regrouping_refines [OF example_trees K n]
  have 1: "example_family(1 := [2] @ example_family 3 @ [4], 3 := []) = (\<lambda>_. [])(1 := [2, 5, 6, 4])"
    "example_family(1 := [2] @ [7], 7 := [3, 4]) = (\<lambda>_. [])(1 := [2, 7], 7 := [3, 4], 3 := [5, 6])"
    by (auto simp: example_family_def fun_eq_iff)
  have k: "example_family 3 \<noteq> []" by (simp add: example_family_def)
  have "\<exists>h'. splice 3 example_store = Some h' \<and> trees h' (example_family(1 := [2] @ example_family 3 @ [4], 3 := []))"
    using r k by blast
  moreover have "\<exists>h'. add_parent_to_list 7 3 (last (3 # [4])) example_store = Some h' \<and> trees h' (example_family(1 := [2] @ 7 # [], 7 := 3 # [4]))"
    using r [THEN conjunct2, THEN conjunct2, THEN conjunct1, rule_format, of "[4]" "[]"] by simp
  ultimately show ?thesis unfolding 1 by simp
qed

section \<open>Queries\<close>

text \<open>The ancestors of a node are a finite path; \<^verbatim>\<open>depth\<close> is its length, \<^verbatim>\<open>get_root\<close> its end,
  and the common root of two nodes is the nearest common ancestor: it is null when there is none,
  and its ancestors are the common ones.\<close>

theorem ancestors_of_nodes:
  assumes "trees h K" "x \<noteq> 0" "y \<noteq> 0"
  shows "(\<exists>as. up_path h x as \<and> depth h x = Some (int (length as) - 1) \<and> get_root h x = Some (last as) \<and>
      (\<forall>z. z \<noteq> 0 \<longrightarrow> subtree_of h x z = Some (z \<in> set as))) \<and>
    (\<exists>r. get_root_with h x y = Some r \<and>
      (\<forall>z. z \<noteq> 0 \<longrightarrow> (r \<noteq> 0 \<and> subtree_of h r z = Some True \<longleftrightarrow> subtree_of h x z = Some True \<and> subtree_of h y z = Some True)))"
proof (rule conjI)
  obtain as where as: "up_path h x as" using up_path_exists [OF assms(1)] by blast
  then have "get_root h x = Some (last as)"
    using root_loop_path [OF as, of 0] assms(2) by (cases as) (auto simp: get_root_def)
  then show "\<exists>as. up_path h x as \<and> depth h x = Some (int (length as) - 1) \<and> get_root h x = Some (last as) \<and>
      (\<forall>z. z \<noteq> 0 \<longrightarrow> subtree_of h x z = Some (z \<in> set as))"
    using as depth_path [OF as] up_path_set [OF as assms(2)] subtree_of_up [OF assms(1,2)] by auto
next
  obtain r x1 y1 where r: "obj_tree_common_root h x y = Some (r, x1, y1)"
    "r \<noteq> 0 \<longrightarrow> (x, r) \<in> (up_links h)\<^sup>* \<and> (y, r) \<in> (up_links h)\<^sup>*"
    "\<forall>z. (x, z) \<in> (up_links h)\<^sup>* \<longrightarrow> (y, z) \<in> (up_links h)\<^sup>* \<longrightarrow> r \<noteq> 0 \<and> (r, z) \<in> (up_links h)\<^sup>*"
    using common_root_facts [OF assms] by blast
  have "r \<noteq> 0 \<and> subtree_of h r z = Some True \<longleftrightarrow> subtree_of h x z = Some True \<and> subtree_of h y z = Some True" if "z \<noteq> 0" for z
    using r(2,3) subtree_of_up [OF assms(1) _ that] assms(2,3) rtrancl_trans [of x r "up_links h" z] rtrancl_trans [of y r "up_links h" z]
    by (cases "r = 0") auto
  then show "\<exists>r. get_root_with h x y = Some r \<and>
      (\<forall>z. z \<noteq> 0 \<longrightarrow> (r \<noteq> 0 \<and> subtree_of h r z = Some True \<longleftrightarrow> subtree_of h x z = Some True \<and> subtree_of h y z = Some True))"
    using r(1) by (simp add: get_root_with_def)
qed

theorem ancestors_of_nodes_witness:
  "(\<exists>r. get_root_with example_store 5 4 = Some r \<and> (r \<noteq> 0 \<and> subtree_of example_store r 1 = Some True) \<and>
    \<not> (r \<noteq> 0 \<and> subtree_of example_store r 3 = Some True))"
proof -
  have "subtree_of example_store 5 1 = Some True \<and> subtree_of example_store 4 1 = Some True \<and> subtree_of example_store 4 3 = Some False"
    by (simp add: subtree_of.simps)
  then show ?thesis using ancestors_of_nodes [OF example_trees, of 5 4] by auto
qed

text \<open>\<^verbatim>\<open>is_before\<close> is the document order: one node is before another if children of one node,
  in this order, are above them (or are the nodes). Of two nodes below one root, each of which is
  not below the other, exactly one is before the other, and no others are related.\<close>

theorem document_order:
  assumes "trees h K" "x \<noteq> 0" "y \<noteq> 0"
  shows "is_before h x y = Some (precedes h K x y) \<and> \<not> (precedes h K x y \<and> precedes h K y x) \<and>
    (precedes h K x y \<or> precedes h K y x \<longleftrightarrow>
      get_root_with h x y \<noteq> Some 0 \<and> subtree_of h x y = Some False \<and> subtree_of h y x = Some False)"
proof -
  obtain r x1 y1 where c: "obj_tree_common_root h x y = Some (r, x1, y1)"
    "x1 = 0 \<longleftrightarrow> (x, y) \<in> (up_links h)\<^sup>* \<or> (y, x) \<in> (up_links h)\<^sup>*" "x1 = 0 \<longleftrightarrow> y1 = 0"
    "x1 \<noteq> 0 \<Longrightarrow> x1 \<noteq> y1 \<and> get_parent h x1 = r \<and> get_parent h y1 = r \<and> (x, x1) \<in> (up_links h)\<^sup>* \<and> (y, y1) \<in> (up_links h)\<^sup>*"
    using common_root_facts [OF assms] by blast
  have xy: "r \<noteq> 0 \<and> x1 \<noteq> 0 \<and> K r = as @ x1 # bs \<and> y1 \<in> set bs"
    if "K p = as @ c # bs" "d \<in> set bs" "(x, c) \<in> (up_links h)\<^sup>*" "(y, d) \<in> (up_links h)\<^sup>*" for p as c bs d
    using common_root_split [OF assms c(1), of c p d] that kid_links(5,7) [OF assms(1) that(1)] by auto
  have yx: "r \<noteq> 0 \<and> x1 \<noteq> 0 \<and> K r = as @ y1 # bs \<and> x1 \<in> set bs"
    if "K p = as @ c # bs" "d \<in> set bs" "(y, c) \<in> (up_links h)\<^sup>*" "(x, d) \<in> (up_links h)\<^sup>*" for p as c bs d
    using common_root_split [OF assms c(1), of d p c] that kid_links(5,7) [OF assms(1) that(1)] by auto
  have "\<not> (precedes h K x y \<and> precedes h K y x)"
  proof
    assume "precedes h K x y \<and> precedes h K y x"
    then obtain as bs as' bs' where k: "K r = as @ x1 # bs" "y1 \<in> set bs" "K r = as' @ y1 # bs'" "x1 \<in> set bs'"
      unfolding precedes_def using xy yx by metis
    obtain us vs where "bs' = us @ x1 # vs" using k(4) by (meson split_list)
    then have "as @ x1 # bs = (as' @ y1 # us) @ x1 # vs" using k(1,3) by simp
    then have "as = as' @ y1 # us"
      using append_Cons_eq_iff [OF kid_links(6,7) [OF assms(1) k(1)], of "as' @ y1 # us" vs] by blast
    then show False using k(2) kid_links(10) [OF assms(1) k(1)] by auto
  qed
  moreover have "precedes h K x y \<or> precedes h K y x \<longleftrightarrow> r \<noteq> 0 \<and> x1 \<noteq> 0"
  proof
    assume "precedes h K x y \<or> precedes h K y x"
    then show "r \<noteq> 0 \<and> x1 \<noteq> 0" unfolding precedes_def using xy yx by metis
  next
    assume r: "r \<noteq> 0 \<and> x1 \<noteq> 0"
    then have m: "x1 \<in> set (K r)" "y1 \<in> set (K r)" "x1 \<noteq> y1" using c kid_iff [OF assms(1), of _ r] by auto
    then obtain as bs where k: "K r = as @ x1 # bs" by (meson split_list)
    show "precedes h K x y \<or> precedes h K y x"
    proof (cases "y1 \<in> set bs")
      case False
      then obtain us vs where "as = us @ y1 # vs" using m k by (auto dest: split_list)
      then have "K r = us @ y1 # (vs @ x1 # bs)" "x1 \<in> set (vs @ x1 # bs)" using k by auto
      then show ?thesis unfolding precedes_def using c(4) r by blast
    qed (use k c(4) r in \<open>unfold precedes_def, blast\<close>)
  qed
  moreover have "get_root_with h x y = Some r" using c(1) by (simp add: get_root_with_def)
  ultimately show ?thesis
    using is_before_precedes [OF assms] c(2) subtree_of_up [OF assms(1)] assms(2,3) by auto
qed

theorem document_order_witness:
  "is_before example_store 6 4 = Some True \<and> is_before example_store 3 6 = Some False"
proof -
  have s: "subtree_of example_store 3 6 = Some False" "subtree_of example_store 6 3 = Some True"
    by (simp_all add: subtree_of.simps)
  have "example_family 1 = [2] @ 3 # [4]" "(4::addr) \<in> set [4]" by (simp_all add: example_family_def)
  moreover have "(6, 3) \<in> (up_links example_store)\<^sup>*" "(4, 4) \<in> (up_links example_store)\<^sup>*" using example_up [OF s(2)] by auto
  ultimately have "precedes example_store example_family 6 4" unfolding precedes_def by blast
  then show ?thesis
    using document_order [OF example_trees, of 6 4] document_order [OF example_trees, of 3 6] s by auto
qed

text \<open>C18: the recursive collection of the leaves below a node and the iteration over them agree:
  a loop from the first leaf with \<^verbatim>\<open>get_next_leaf\<close> visits the collected leaves in their order and
  ends, and one from the last leaf with \<^verbatim>\<open>get_prev_leaf\<close> does so in the other direction. The leaves are the nodes without
  children below the node, each of them once.\<close>

theorem leaf_iteration:
  assumes "trees h K" "x \<noteq> 0" "root = x \<or> root = 0 \<and> get_parent h x = 0"
  shows "\<exists>ls. (\<forall>coll. obj_tree_get_leaves h x coll = Some (coll @ ls)) \<and> distinct ls \<and>
    set ls = {y. y \<noteq> 0 \<and> get_first h y = 0 \<and> subtree_of h y x = Some True} \<and>
    (\<forall>n. length ls \<le> n \<longrightarrow>
      Option.bind (get_first_leaf h x) (visit (\<lambda>l. get_next_leaf h l root) n) = Some ls \<and>
      Option.bind (get_last_leaf h x) (visit (\<lambda>l. get_prev_leaf h l root) n) = Some (rev ls))"
proof (intro exI [of _ "leaves h x"] conjI allI impI)
  note T = assms(1) and x = assms(2)
  show "obj_tree_get_leaves h x coll = Some (coll @ leaves h x)" for coll by (rule get_leaves_leaves [OF T x])
  show "distinct (leaves h x)" by (rule leaves_distinct [OF T x])
  show "set (leaves h x) = {y. y \<noteq> 0 \<and> get_first h y = 0 \<and> subtree_of h y x = Some True}"
    using leaves_set [OF T x] subtree_of_up [OF T _ x] by auto
  have r: "leaf_root h x root" using assms by (auto simp: leaf_root_def)
  fix n
  assume "length (leaves h x) \<le> n"
  then show "Option.bind (get_first_leaf h x) (visit (\<lambda>l. get_next_leaf h l root) n) = Some (leaves h x)"
    "Option.bind (get_last_leaf h x) (visit (\<lambda>l. get_prev_leaf h l root) n) = Some (rev (leaves h x))"
    using leaf.loops_visit_items [of "(h, x, root)" n] r by simp_all
qed

lemma example_leaves: "obj_tree_get_leaves example_store 1 [] = Some [2, 5, 6, 4]"
  by (simp add: obj_tree_get_leaves_def get_leaves_loop.simps)

theorem leaf_iteration_witness:
  "Option.bind (get_last_leaf example_store 1) (visit (\<lambda>l. get_prev_leaf example_store l 1) 9) = Some [4, 6, 5, 2]"
proof -
  obtain ls where ls: "\<forall>coll. obj_tree_get_leaves example_store 1 coll = Some (coll @ ls)"
    "\<forall>n. length ls \<le> n \<longrightarrow>
      Option.bind (get_last_leaf example_store 1) (visit (\<lambda>l. get_prev_leaf example_store l 1) n) = Some (rev ls)"
    using leaf_iteration [OF example_trees, of 1 1] by auto
  moreover have "ls = [2, 5, 6, 4]" using ls(1) [rule_format, of "[]"] example_leaves by simp
  ultimately show ?thesis by simp
qed

section \<open>Splitting, and what the preconditions are for\<close>

text \<open>\<^verbatim>\<open>split_tree_path\<close> ends for a node and one of its ancestors, without an error, and leaves
  trees behind, if \<^verbatim>\<open>rel_copy\<close> constructs its copies at new addresses.\<close>

theorem split_tree_path_returns:
  assumes "makes_copies rel_copy" "trees h K" "b \<noteq> 0" "r \<noteq> 0" "b \<noteq> r" "subtree_of h b r = Some True"
  shows "\<exists>h' K'. split_tree_path rel_copy b r h = Some h' \<and> trees h' K'"
proof -
  obtain as where as: "up_path h b as" using up_path_exists [OF assms(2)] by blast
  then obtain ps where ps: "as = b # ps" using assms(3) by (cases as) auto
  have "r \<in> set as" using up_path_set [OF as assms(3)] subtree_of_up [OF assms(2-4)] assms(6) by simp
  then have "r \<in> set ps" using ps assms(5) by simp
  then show ?thesis using split_tree_path_up [OF assms(1,2)] as ps by blast
qed

definition next_free :: "addr \<Rightarrow> store \<Rightarrow> addr \<times> store" where
  "next_free x h = (LEAST n. n \<noteq> 0 \<and> h n = no_links, h)"

lemma next_free_copies: "makes_copies next_free"
  unfolding makes_copies_def
proof (intro allI impI)
  fix h K x
  assume T: "trees h K"
  have "n \<in> fst ` up_links h \<union> snd ` up_links h" if "n \<noteq> 0" "h n \<noteq> no_links" for n
  proof (cases "get_parent h n = 0")
    case True
    then have "get_first h n \<noteq> 0" using treesD(4) [OF T that(1)] that(2) by (auto simp: no_links_def intro!: links.equality)
    then have "hd (K n) \<in> set (K n)" using leaf_iff [OF T that(1)] by simp
    then have "(hd (K n), n) \<in> up_links h" using kid_iff [OF T, of "hd (K n)" n] by (auto simp: up_links_def)
    then show ?thesis by force
  next
    case False
    then have "(n, get_parent h n) \<in> up_links h" using that(1) by (auto simp: up_links_def)
    then show ?thesis by force
  qed
  then have "{n. n \<noteq> 0 \<and> h n \<noteq> no_links} \<subseteq> fst ` up_links h \<union> snd ` up_links h" by blast
  then have "finite ({n. n \<noteq> 0 \<and> h n \<noteq> no_links} \<union> {0})" using treesD(7) [OF T] by (auto intro: finite_subset)
  then obtain m where "m \<notin> {n. n \<noteq> 0 \<and> h n \<noteq> no_links} \<union> {0}" using ex_new_if_finite infinite_UNIV_nat by metis
  then have "m \<noteq> 0 \<and> h m = no_links" by auto
  then have n: "(LEAST n. n \<noteq> 0 \<and> h n = no_links) \<noteq> 0 \<and> h (LEAST n. n \<noteq> 0 \<and> h n = no_links) = no_links"
    by (rule LeastI)
  then have "objTree_copy x (LEAST n. n \<noteq> 0 \<and> h n = no_links) h = h"
    unfolding objTree_copy_def no_links_def [symmetric] by (auto simp: fun_eq_iff)
  then show "case next_free x h of (n, h') \<Rightarrow> n \<noteq> 0 \<and> get_parent h n = 0 \<and> get_first h n = 0 \<and> h' = objTree_copy x n h"
    using n by (simp add: next_free_def no_links_def)
qed

theorem split_tree_path_returns_witness:
  "\<exists>h' K'. split_tree_path next_free 5 1 example_store = Some h' \<and> trees h' K'"
proof (rule split_tree_path_returns [OF next_free_copies example_trees])
  show "subtree_of example_store 5 1 = Some True" by (simp add: subtree_of.simps)
qed simp_all

text \<open>Nothing tests the preconditions. Putting a node in front of a root goes through a null
  pointer; and a root that is put below one of its own descendants makes a cycle: the call ends as
  usual, and \<^verbatim>\<open>depth\<close> of the descendant does not return any more.\<close>

lemma depth_loop_ends:
  assumes "depth_loop h x d = Some r"
  shows "\<exists>as. up_path h x as"
proof (rule depth_loop.raw_induct [where P = "\<lambda>h x d r. \<exists>as. up_path h x as", OF _ assms])
  fix loop h x d r
  assume step: "\<And>h x d r. loop h x d = Some r \<Longrightarrow> \<exists>as. up_path h x as"
    "(if x = 0 then Some d else loop h (get_parent h x) (d + 1)) = Some r"
  show "\<exists>as. up_path h x as"
  proof (cases "x = 0")
    case False
    then obtain as where "up_path h (get_parent h x) as" using step(1) [of h "get_parent h x" "d + 1" r] step(2) by auto
    then show ?thesis using False by (intro exI [of _ "x # as"]) simp
  qed (intro exI [of _ "[]"], simp)
qed

lemma no_path_on_cycle:
  assumes "(x, x) \<in> (up_links h)\<^sup>+"
  shows "\<not> up_path h x as"
proof
  assume p: "up_path h x as"
  obtain y where y: "(x, y) \<in> up_links h" "(y, x) \<in> (up_links h)\<^sup>*" using tranclD [OF assms] by blast
  then have n: "x \<noteq> 0" "y \<noteq> 0" "y = get_parent h x" by (auto simp: up_links_def)
  then obtain bs where bs: "as = x # bs" "up_path h y bs" using p by (cases as) auto
  then have "x \<in> set bs" using up_path_set [OF bs(2) n(2), of x] y(2) by simp
  then show False using up_path_distinct [OF p] bs(1) by simp
qed

theorem preconditions_untested:
  assumes "trees h K" "this \<noteq> 0" "t \<noteq> 0" "get_parent h t = 0"
  shows "(this \<noteq> t \<longrightarrow> put_before t this h = None) \<and>
    (subtree_of h this t = Some True \<longrightarrow> (\<exists>h'. put_first this t h = Some h' \<and> depth h' this = None))"
proof (intro conjI impI)
  assume ne: "this \<noteq> t"
  have "get_parent (unlink this h) t = 0 \<and> get_prev (unlink this h) t = 0"
    using treesD(4) [OF trees_detach [OF assms(1,2)] assms(3)] unlinked_fields(4) [of t this h] ne assms(4) by auto
  then show "put_before t this h = None"
    using assms ne unlinked_fields(1-3) [of this h]
    by (auto simp: put_before_def remove_from_tree_eq put_link_defs Let_def)
next
  assume s: "subtree_of h this t = Some True"
  have u: "unlink t h = h" using treesD(4) [OF assms(1,3,4)] assms(4) by (auto simp: unlink_def fun_eq_iff intro!: links.equality)
  define h' where "h' = the (put_first this t h)"
  have h': "put_first this t h = Some h'" "\<And>y. get_parent h' y = (if y = t then this else get_parent h y)"
    using assms(2,3) by (auto simp: h'_def put_first_def remove_from_tree_eq u put_link_defs Let_def)
  have "(this, t) \<in> (up_links h)\<^sup>*" using subtree_of_up [OF assms(1-3)] s by simp
  moreover have "up_links h \<subseteq> up_links h'" using h'(2) assms(4) by (auto simp: up_links_def)
  ultimately have "(this, t) \<in> (up_links h')\<^sup>*" using rtrancl_mono by blast
  moreover have "(t, this) \<in> up_links h'" using h'(2) assms(2,3) by (auto simp: up_links_def)
  ultimately have "\<not> up_path h' this as" for as using no_path_on_cycle by (metis rtrancl_into_trancl1)
  then have "depth h' this = None" using depth_loop_ends by (metis depth_def not_Some_eq)
  then show "\<exists>h'. put_first this t h = Some h' \<and> depth h' this = None" using h'(1) by blast
qed

theorem preconditions_untested_witness:
  "put_before 1 5 example_store = None \<and> (\<exists>h'. put_first 5 1 example_store = Some h' \<and> depth h' 5 = None)"
proof -
  have "subtree_of example_store 5 1 = Some True" by (simp add: subtree_of.simps)
  then show ?thesis using preconditions_untested [OF example_trees, of 5 1] by simp
qed

end
