(* ===== verification/Transactions.thy ===== *)
theory Transactions
  imports Prelude "HOL-Library.Monad_Syntax"
begin

text \<open>
  Transactions of \<^verbatim>\<open>model_server/obj\<close> (\<^verbatim>\<open>transaction.cxx\<close>): nested transactions with a pool of
  memory, which is released when they end, and with objects that are deleted at the end of the
  outermost one. A \<^verbatim>\<open>char *\<close> into the pool is a block of memory and an offset. \<^verbatim>\<open>malloc\<close> and
  \<^verbatim>\<open>psetmalloc\<close> give addresses and blocks that were not used before. The address 0 is the null pointer and 1 that of the static
  \<^verbatim>\<open>memory_list\<close>. A failing
  assertion, an access outside of \<^verbatim>\<open>memory_arr\<close> and a loop that does not end are \<open>None\<close>.
\<close>

section \<open>State\<close>

type_synonym caddr = nat
type_synonym block = nat
type_synonym cptr = "block \<times> nat"
type_synonym obj = nat

record memory_info =
  mi_last_chunk :: caddr
  mi_memory_ptr :: cptr

record transactions =
  chunk_memory :: "caddr \<Rightarrow> block"
  chunk_next :: "caddr \<Rightarrow> caddr"
  last_chunk :: caddr
  initial_pool :: block
  memory_pool :: block
  memory_ptr :: cptr
  memory_limit :: cptr
  memory_arr :: "nat \<Rightarrow> memory_info"
  transac_level :: int
  new_chunk :: caddr
  new_block :: block
  freed_blocks :: "block list"
  obj_to_dispose :: "obj list"
  obj_id :: "obj \<Rightarrow> int"

definition POOL_SIZE :: nat where
  "POOL_SIZE = 100000"

definition MAX_TRANSAC_LEVEL :: int where
  "MAX_TRANSAC_LEVEL = 100"

definition SIZEOF_INT :: nat where
  "SIZEOF_INT = 4"

definition memory_list :: caddr where
  "memory_list = 1"

text \<open>The static initializers; the pool is the first block.\<close>

definition transactions_init :: "(obj \<Rightarrow> int) \<Rightarrow> transactions" where
  "transactions_init ids = \<lparr>chunk_memory = (\<lambda>_. 0), chunk_next = (\<lambda>_. 0), last_chunk = 0, initial_pool = 0,
     memory_pool = 0, memory_ptr = (0, 0), memory_limit = (0, POOL_SIZE - 1),
     memory_arr = (\<lambda>_. \<lparr>mi_last_chunk = 0, mi_memory_ptr = (0, 0)\<rparr>), transac_level = 0,
     new_chunk = 2, new_block = 1, freed_blocks = [], obj_to_dispose = [], obj_id = ids\<rparr>"

section \<open>Memory\<close>

definition allocate_memory_chunk :: "caddr \<Rightarrow> 'z transactions_scheme \<Rightarrow> caddr \<times> 'z transactions_scheme" where
  "allocate_memory_chunk current s =
     (let c = new_chunk s; b = new_block s
      in (c, s\<lparr>new_chunk := c + 1, new_block := b + 1,
               chunk_next := (chunk_next s)(current := c, c := 0), chunk_memory := (chunk_memory s)(c := b)\<rparr>))"

definition add_new_memory_chunk :: "'z transactions_scheme \<Rightarrow> 'z transactions_scheme" where
  "add_new_memory_chunk s =
     (let (c, s) = allocate_memory_chunk (last_chunk s) s; b = chunk_memory s c
      in s\<lparr>last_chunk := c, memory_pool := b, memory_ptr := (b, 0), memory_limit := (b, POOL_SIZE - 1)\<rparr>)"

text \<open>The loop over the chunks that follow; it frees their blocks.\<close>

partial_function (option) free_chunks :: "caddr \<Rightarrow> 'z transactions_scheme \<Rightarrow> 'z transactions_scheme option" where
  "free_chunks temp s =
     (if temp = 0 then Some s
      else let s = s\<lparr>freed_blocks := chunk_memory s temp # freed_blocks s\<rparr> in free_chunks (chunk_next s temp) s)"

definition dispose_memory_chunks :: "memory_info \<Rightarrow> 'z transactions_scheme \<Rightarrow> 'z transactions_scheme option" where
  "dispose_memory_chunks m s =
     (let b = chunk_memory s (mi_last_chunk m);
          s = s\<lparr>memory_pool := b, memory_ptr := mi_memory_ptr m, memory_limit := (b, POOL_SIZE - 1)\<rparr>
      in do { s \<leftarrow> free_chunks (chunk_next s (mi_last_chunk m)) s;
              Some (s\<lparr>chunk_next := (chunk_next s)(mi_last_chunk m := 0), last_chunk := mi_last_chunk m\<rparr>) })"

definition round_up :: "nat \<Rightarrow> nat" where
  "round_up sz = (let rem = sz mod SIZEOF_INT in if rem \<noteq> 0 then sz + (SIZEOF_INT - rem) else sz)"

definition advance :: "cptr \<Rightarrow> nat \<Rightarrow> cptr" where
  "advance p n = (fst p, snd p + n)"

text \<open>The pointer and the limit are in the same block.\<close>

definition transactional_new :: "nat \<Rightarrow> 'z transactions_scheme \<Rightarrow> (cptr \<times> 'z transactions_scheme) option" where
  "transactional_new sz s =
     (if \<not> transac_level s > 0 then None
      else let ob = memory_ptr s; sz = round_up sz; s = s\<lparr>memory_ptr := advance (memory_ptr s) sz\<rparr>
           in if snd (memory_ptr s) > snd (memory_limit s) then
                (let s = add_new_memory_chunk s; ob = memory_ptr s; sz = round_up sz
                 in Some (ob, s\<lparr>memory_ptr := advance (memory_ptr s) sz\<rparr>))
              else Some (ob, s))"

definition transactional_delete :: "cptr \<Rightarrow> 'z transactions_scheme \<Rightarrow> 'z transactions_scheme" where
  "transactional_delete p s = s"

section \<open>Disposal\<close>

text \<open>The classes of the objects, and what deletion and notification do, are parameters.\<close>

record classes =
  is_appTree :: "obj \<Rightarrow> bool"
  is_commonTree :: "obj \<Rightarrow> bool"
  is_Hierarchical :: "obj \<Rightarrow> bool"
  has_header :: "obj \<Rightarrow> bool"
  is_ddElement :: "obj \<Rightarrow> bool"
  is_projModule :: "obj \<Rightarrow> bool"

record 'z effects =
  softassoc_deleted :: "obj \<Rightarrow> 'z transactions_scheme \<Rightarrow> 'z transactions_scheme option"
  real_delete :: "obj list \<Rightarrow> 'z transactions_scheme \<Rightarrow> 'z transactions_scheme option"
  notifier_apply :: "'z transactions_scheme \<Rightarrow> 'z transactions_scheme option"
  propagate_headers :: "'z transactions_scheme \<Rightarrow> 'z transactions_scheme option"
  clear_incremental :: "'z transactions_scheme \<Rightarrow> 'z transactions_scheme option"

text \<open>The assertions refuse objects that are deleted (-1), in a deletion (-4) or processed by it (-5);
  -3 marks the objects that wait.\<close>

definition obj_dispose :: "classes \<Rightarrow> 'z effects \<Rightarrow> obj \<Rightarrow> 'z transactions_scheme \<Rightarrow> 'z transactions_scheme option" where
  "obj_dispose C E ob s =
     (let id = obj_id s ob
      in if id = -1 \<or> id = -4 \<or> id = -5 then None
         else if id = -3 then Some s
         else let s = s\<lparr>obj_id := (obj_id s)(ob := -3), obj_to_dispose := obj_to_dispose s @ [ob]\<rparr>
              in if is_appTree C ob then softassoc_deleted E ob s else Some s)"

definition obj_remove_from_dispose :: "bool \<Rightarrow> obj \<Rightarrow> 'z transactions_scheme \<Rightarrow> 'z transactions_scheme" where
  "obj_remove_from_dispose root_is_other ob s =
     (if root_is_other then s\<lparr>obj_to_dispose := remove1 ob (obj_to_dispose s)\<rparr> else s)"

definition skipped :: "classes \<Rightarrow> obj \<Rightarrow> bool" where
  "skipped C el \<longleftrightarrow> is_commonTree C el \<and> \<not> is_Hierarchical C el \<and>
     has_header C el \<and> \<not> (is_ddElement C el \<or> is_projModule C el)"

partial_function (option) dispose_loop :: "classes \<Rightarrow> 'z effects \<Rightarrow> 'z transactions_scheme \<Rightarrow> 'z transactions_scheme option" where
  "dispose_loop C E s =
     (if obj_to_dispose s = [] then Some s
      else let disp_arr = filter (\<lambda>el. \<not> skipped C el) (obj_to_dispose s); s = s\<lparr>obj_to_dispose := []\<rparr>
           in do { s \<leftarrow> (if disp_arr \<noteq> [] then real_delete E disp_arr s else Some s);
                   s \<leftarrow> notifier_apply E s;
                   s \<leftarrow> propagate_headers E s;
                   dispose_loop C E s })"

section \<open>Transactions\<close>

definition obj_transaction_start :: "'z transactions_scheme \<Rightarrow> 'z transactions_scheme option" where
  "obj_transaction_start s =
     do { s \<leftarrow> (if transac_level s = 0 then
             if obj_to_dispose s \<noteq> [] then None
             else Some (s\<lparr>memory_ptr := (initial_pool s, 0), memory_limit := (initial_pool s, POOL_SIZE - 1),
                     chunk_memory := (chunk_memory s)(memory_list := initial_pool s),
                     chunk_next := (chunk_next s)(memory_list := 0), last_chunk := memory_list\<rparr>)
           else if transac_level s < MAX_TRANSAC_LEVEL then Some s else None);
          if transac_level s < 0 then None
          else Some (s\<lparr>memory_arr := (memory_arr s)(nat (transac_level s) :=
                         \<lparr>mi_last_chunk = last_chunk s, mi_memory_ptr = memory_ptr s\<rparr>),
                       transac_level := transac_level s + 1\<rparr>) }"

definition obj_transaction_end :: "classes \<Rightarrow> 'z effects \<Rightarrow> 'z transactions_scheme \<Rightarrow> 'z transactions_scheme option" where
  "obj_transaction_end C E s =
     (if transac_level s > 1 then
        (let s = s\<lparr>transac_level := transac_level s - 1\<rparr>
         in dispose_memory_chunks (memory_arr s (nat (transac_level s))) s)
      else do {
        s \<leftarrow> (if obj_to_dispose s = [] then do { s \<leftarrow> notifier_apply E s; propagate_headers E s } else Some s);
        s \<leftarrow> dispose_loop C E s;
        s \<leftarrow> clear_incremental E s;
        Some (s\<lparr>transac_level := transac_level s - 1\<rparr>)
      })"

definition obj_transaction_abort :: "classes \<Rightarrow> 'z effects \<Rightarrow> 'z transactions_scheme \<Rightarrow> 'z transactions_scheme option" where
  "obj_transaction_abort C E s =
     (if transac_level s = 0 then Some s else obj_transaction_end C E (s\<lparr>transac_level := 1\<rparr>))"

end
