(* ===== verification/Transaction_Memory.thy ===== *)
theory Transaction_Memory
  imports Transactions
begin

text \<open>
  Runs of transactions with the memory that they hand out: the allocations of the transactions
  that are open do not overlap.
\<close>

section \<open>Steps\<close>

text \<open>A live allocation: the level of its transaction, its address and its size. The runs have no
  allocation that is larger than a chunk; \<open>oversized_allocation_overruns\<close> says what becomes of one.\<close>

type_synonym live = "(int \<times> cptr \<times> nat) list"

definition up_to_level :: "int \<Rightarrow> live \<Rightarrow> live" where
  "up_to_level k L = filter (\<lambda>a. fst a \<le> k) L"

inductive tstep :: "classes \<Rightarrow> 'z effects \<Rightarrow> 'z transactions_scheme \<times> live \<Rightarrow> 'z transactions_scheme \<times> live \<Rightarrow> bool" for C E where
  start: "obj_transaction_start s = Some s' \<Longrightarrow> tstep C E (s, L) (s', L)"
| finish: "transac_level s > 0 \<Longrightarrow> obj_transaction_end C E s = Some s' \<Longrightarrow> tstep C E (s, L) (s', up_to_level (transac_level s') L)"
| abort: "obj_transaction_abort C E s = Some s' \<Longrightarrow> tstep C E (s, L) (s', up_to_level (transac_level s') L)"
| alloc: "transactional_new sz s = Some (p, s') \<Longrightarrow> sz \<le> POOL_SIZE \<Longrightarrow> tstep C E (s, L) (s', (transac_level s, p, sz) # L)"
| dispose: "obj_dispose C E ob s = Some s' \<Longrightarrow> tstep C E (s, L) (s', L)"
| forget: "tstep C E (s, L) (obj_remove_from_dispose other ob s, L)"

inductive reached :: "classes \<Rightarrow> 'z effects \<Rightarrow> (obj \<Rightarrow> int) \<Rightarrow> 'z transactions_scheme \<times> live \<Rightarrow> bool" for C E ids where
  init: "transactions.truncate s = transactions_init ids \<Longrightarrow> reached C E ids (s, [])"
| step: "reached C E ids c \<Longrightarrow> tstep C E c c' \<Longrightarrow> reached C E ids c'"

inductive_cases tstep_cases: "tstep C E c c'"

text \<open>Deletion and notification only change what waits for deletion; transactions of their own are
  closed again.\<close>

definition memory_part :: "'z transactions_scheme \<Rightarrow> transactions" where
  "memory_part s = (transactions.truncate s)\<lparr>obj_to_dispose := [], obj_id := (\<lambda>_. 0)\<rparr>"

lemma memory_part_eq: "memory_part s = memory_part t \<longleftrightarrow>
   chunk_memory s = chunk_memory t \<and> chunk_next s = chunk_next t \<and> last_chunk s = last_chunk t \<and> initial_pool s = initial_pool t \<and>
   memory_pool s = memory_pool t \<and> memory_ptr s = memory_ptr t \<and> memory_limit s = memory_limit t \<and> memory_arr s = memory_arr t \<and>
   transac_level s = transac_level t \<and> new_chunk s = new_chunk t \<and> new_block s = new_block t \<and> freed_blocks s = freed_blocks t"
  by (cases s; cases t) (simp add: memory_part_def transactions.truncate_def)

definition keeps_memory :: "'z effects \<Rightarrow> bool" where
  "keeps_memory E \<longleftrightarrow> (\<forall>s s'.
     (\<forall>ob. softassoc_deleted E ob s = Some s' \<longrightarrow> memory_part s' = memory_part s) \<and>
     (\<forall>obs. real_delete E obs s = Some s' \<longrightarrow> memory_part s' = memory_part s) \<and>
     (notifier_apply E s = Some s' \<longrightarrow> memory_part s' = memory_part s) \<and>
     (propagate_headers E s = Some s' \<longrightarrow> memory_part s' = memory_part s) \<and>
     (clear_incremental E s = Some s' \<longrightarrow> memory_part s' = memory_part s))"

section \<open>Positions in the pool\<close>

text \<open>The number of the chunk and the offset, as one number.\<close>

definition index_of :: "'a list \<Rightarrow> 'a \<Rightarrow> nat" where
  "index_of xs x = length (takeWhile (\<lambda>y. y \<noteq> x) xs)"

definition position :: "block list \<Rightarrow> cptr \<Rightarrow> nat" where
  "position bs p = index_of bs (fst p) * (POOL_SIZE + 1) + snd p"

lemma index_of_nth: "distinct xs \<Longrightarrow> j < length xs \<Longrightarrow> index_of xs (xs ! j) = j"
  unfolding index_of_def by (subst takeWhile_eq_take_P_nth [of j]) (auto simp: nth_eq_iff_index_eq)

lemma index_of_append: "x \<in> set xs \<Longrightarrow> index_of (xs @ ys) x = index_of xs x"
  by (auto simp: index_of_def takeWhile_append1)

lemma index_of_new: "x \<notin> set xs \<Longrightarrow> index_of (xs @ x # ys) x = length xs"
  by (induction xs) (auto simp: index_of_def)

lemma index_of_less: "x \<in> set xs \<Longrightarrow> index_of xs x < length xs"
  by (induction xs) (auto simp: index_of_def)

lemma nth_index_of: "x \<in> set xs \<Longrightarrow> xs ! index_of xs x = x"
  by (induction xs) (auto simp: index_of_def)

lemma position_index:
  assumes "position bs p \<le> position bs q" "snd p \<le> POOL_SIZE" "snd q \<le> POOL_SIZE"
  shows "index_of bs (fst p) \<le> index_of bs (fst q)"
proof (rule ccontr)
  assume "\<not> ?thesis"
  then have "index_of bs (fst q) + 1 \<le> index_of bs (fst p)" by simp
  then have "(index_of bs (fst q) + 1) * (POOL_SIZE + 1) \<le> index_of bs (fst p) * (POOL_SIZE + 1)" by (rule mult_le_mono1)
  then show False using assms unfolding position_def by (simp add: algebra_simps)
qed

section \<open>The invariant\<close>

definition base_ok :: "'z transactions_scheme \<Rightarrow> bool" where
  "base_ok s \<longleftrightarrow> memory_list < new_chunk s \<and> initial_pool s < new_block s \<and> initial_pool s \<notin> set (freed_blocks s) \<and>
     (\<forall>b \<in> set (freed_blocks s). b < new_block s)"

definition chunks_ok :: "'z transactions_scheme \<Rightarrow> caddr list \<Rightarrow> bool" where
  "chunks_ok s cs \<longleftrightarrow> cs \<noteq> [] \<and> hd cs = memory_list \<and> distinct cs \<and> 0 \<notin> set cs \<and>
     (\<forall>j. Suc j < length cs \<longrightarrow> chunk_next s (cs ! j) = cs ! Suc j) \<and> chunk_next s (last cs) = 0 \<and> last_chunk s = last cs \<and>
     distinct (map (chunk_memory s) cs) \<and> chunk_memory s memory_list = initial_pool s \<and>
     (\<forall>c \<in> set cs. c < new_chunk s \<and> chunk_memory s c < new_block s \<and> chunk_memory s c \<notin> set (freed_blocks s)) \<and>
     fst (memory_ptr s) = chunk_memory s (last cs) \<and> snd (memory_ptr s) \<le> POOL_SIZE \<and>
     memory_limit s = (chunk_memory s (last cs), POOL_SIZE - 1)"

definition saved :: "'z transactions_scheme \<Rightarrow> nat \<Rightarrow> cptr" where
  "saved s i = mi_memory_ptr (memory_arr s i)"

definition levels_ok :: "'z transactions_scheme \<Rightarrow> caddr list \<Rightarrow> bool" where
  "levels_ok s cs \<longleftrightarrow> (\<forall>i < nat (transac_level s).
     mi_last_chunk (memory_arr s i) \<in> set cs \<and> fst (saved s i) = chunk_memory s (mi_last_chunk (memory_arr s i)) \<and>
     snd (saved s i) \<le> POOL_SIZE \<and>
     (\<forall>j < nat (transac_level s). i \<le> j \<longrightarrow>
        position (map (chunk_memory s) cs) (saved s i) \<le> position (map (chunk_memory s) cs) (saved s j)) \<and>
     position (map (chunk_memory s) cs) (saved s i) \<le> position (map (chunk_memory s) cs) (memory_ptr s))"

definition live_ok :: "'z transactions_scheme \<Rightarrow> caddr list \<Rightarrow> live \<Rightarrow> bool" where
  "live_ok s cs L \<longleftrightarrow>
     (\<forall>(l, p, z) \<in> set L. 1 \<le> l \<and> l \<le> transac_level s \<and> fst p \<in> chunk_memory s ` set cs \<and> snd p + z \<le> POOL_SIZE \<and>
        position (map (chunk_memory s) cs) p + z \<le> position (map (chunk_memory s) cs) (memory_ptr s) \<and>
        (\<forall>i < nat (transac_level s). l \<le> int i \<longrightarrow>
           position (map (chunk_memory s) cs) p + z \<le> position (map (chunk_memory s) cs) (saved s i))) \<and>
     sorted_wrt (\<lambda>(_, p, z) (_, q, w). position (map (chunk_memory s) cs) q + w \<le> position (map (chunk_memory s) cs) p) L"

definition pool_ok :: "'z transactions_scheme \<times> live \<Rightarrow> bool" where
  "pool_ok c \<longleftrightarrow> (case c of (s, L) \<Rightarrow> base_ok s \<and> 0 \<le> transac_level s \<and> (transac_level s = 0 \<longrightarrow> L = []) \<and>
     (0 < transac_level s \<longrightarrow> (\<exists>cs. chunks_ok s cs \<and> levels_ok s cs \<and> live_ok s cs L)))"

lemma pool_ok_memory_part: "memory_part s' = memory_part s \<Longrightarrow> pool_ok (s', L) \<longleftrightarrow> pool_ok (s, L)"
  by (simp add: memory_part_eq pool_ok_def base_ok_def chunks_ok_def levels_ok_def live_ok_def saved_def)

lemma start_keeps:
  assumes cs: "chunks_ok s cs" "levels_ok s cs" "live_ok s cs L" and b: "base_ok s" and k: "0 < transac_level s"
    and s': "obj_transaction_start s = Some s'"
  shows "chunks_ok s' cs" "levels_ok s' cs" "live_ok s' cs L" "base_ok s'"
proof -
  have s'': "s' = s\<lparr>memory_arr := (memory_arr s)(nat (transac_level s) := \<lparr>mi_last_chunk = last_chunk s, mi_memory_ptr = memory_ptr s\<rparr>),
      transac_level := transac_level s + 1\<rparr>"
    using s' k by (auto simp: obj_transaction_start_def split: if_splits)
  have n: "nat (transac_level s + 1) = Suc (nat (transac_level s))" using k by simp
  show "chunks_ok s' cs" using cs(1) by (simp add: s'' chunks_ok_def)
  show "levels_ok s' cs"
    using cs(1,2) by (auto simp: s'' levels_ok_def saved_def n less_Suc_eq chunks_ok_def)
  show "live_ok s' cs L"
    using cs(3) k by (auto simp: s'' live_ok_def saved_def n less_Suc_eq split: prod.splits)
  show "base_ok s'" using b by (simp add: s'' base_ok_def)
qed

lemma pool_ok_start:
  assumes P: "pool_ok (s, L)" and s': "obj_transaction_start s = Some s'"
  shows "pool_ok (s', L)"
proof (cases "transac_level s = 0")
  case True
  then have L: "L = []" and b: "base_ok s" using P by (auto simp: pool_ok_def)
  have e: "obj_to_dispose s = []" using s' True by (auto simp: obj_transaction_start_def split: if_splits)
  have "chunks_ok s' [memory_list] \<and> levels_ok s' [memory_list] \<and> live_ok s' [memory_list] L"
    using s' True b e L
    by (auto simp: obj_transaction_start_def chunks_ok_def levels_ok_def live_ok_def base_ok_def saved_def memory_list_def)
  moreover have "base_ok s'" "transac_level s' = 1" using s' True b e by (auto simp: obj_transaction_start_def base_ok_def)
  ultimately show ?thesis by (auto simp: pool_ok_def)
next
  case False
  then obtain cs where cs: "chunks_ok s cs" "levels_ok s cs" "live_ok s cs L" and b: "base_ok s" and k: "0 < transac_level s"
    using P by (auto simp: pool_ok_def)
  have "0 < transac_level s'" using s' k by (auto simp: obj_transaction_start_def split: if_splits)
  then show ?thesis using start_keeps [OF cs b k s'] by (auto simp: pool_ok_def)
qed

section \<open>Allocation\<close>

lemma round_up_facts:
  "z \<le> round_up z" "z \<le> POOL_SIZE \<Longrightarrow> round_up z \<le> POOL_SIZE" "round_up (round_up z) = round_up z"
proof -
  have eq: "round_up z = (if z mod 4 = 0 then z else z + (4 - z mod 4))" by (simp add: round_up_def SIZEOF_INT_def Let_def)
  have m: "round_up z mod 4 = 0" unfolding eq by presburger
  show "z \<le> round_up z" unfolding eq by presburger
  show "round_up (round_up z) = round_up z" using m by (simp add: round_up_def SIZEOF_INT_def Let_def)
  show "z \<le> POOL_SIZE \<Longrightarrow> round_up z \<le> POOL_SIZE" unfolding eq POOL_SIZE_def by presburger
qed

lemma position_append: "fst p \<in> set bs \<Longrightarrow> position (bs @ xs) p = position bs p"
  by (simp add: position_def index_of_append)

lemma position_last:
  assumes "chunks_ok s cs"
  shows "position (map (chunk_memory s) cs) (memory_ptr s) = (length cs - 1) * (POOL_SIZE + 1) + snd (memory_ptr s)"
proof -
  have "cs \<noteq> []" "distinct (map (chunk_memory s) cs)" "fst (memory_ptr s) = chunk_memory s (last cs)"
    using assms by (auto simp: chunks_ok_def)
  then have "map (chunk_memory s) cs ! (length cs - 1) = fst (memory_ptr s)" "length cs - 1 < length (map (chunk_memory s) cs)"
    by (auto simp: last_conv_nth)
  then have "index_of (map (chunk_memory s) cs) (fst (memory_ptr s)) = length cs - 1"
    using index_of_nth \<open>distinct (map (chunk_memory s) cs)\<close> by metis
  then show ?thesis by (simp add: position_def)
qed

text \<open>The pointer moves on in the same chunk.\<close>

lemma pool_ok_advance:
  assumes cs: "chunks_ok s cs" "levels_ok s cs" "live_ok s cs L" and k: "0 < transac_level s"
    and r: "snd (memory_ptr s) + r \<le> POOL_SIZE" "z \<le> r"
  defines "s' \<equiv> s\<lparr>memory_ptr := advance (memory_ptr s) r\<rparr>"
  shows "chunks_ok s' cs" "levels_ok s' cs" "live_ok s' cs ((transac_level s, memory_ptr s, z) # L)"
proof -
  let ?bs = "map (chunk_memory s) cs"
  have p: "position ?bs (advance (memory_ptr s) r) = position ?bs (memory_ptr s) + r" by (simp add: position_def advance_def)
  show "chunks_ok s' cs" using cs(1) r(1) by (simp add: s'_def chunks_ok_def advance_def)
  show "levels_ok s' cs" using cs(2) by (auto simp: s'_def levels_ok_def p saved_def intro: trans_le_add1)
  have "fst (memory_ptr s) \<in> chunk_memory s ` set cs" using cs(1) by (auto simp: chunks_ok_def)
  then show "live_ok s' cs ((transac_level s, memory_ptr s, z) # L)"
    using cs(3) k r by (auto simp: s'_def live_ok_def p saved_def intro: trans_le_add1)
qed

text \<open>A new chunk.\<close>

lemma pool_ok_new_chunk:
  fixes q :: cptr
  assumes cs: "chunks_ok s cs" "levels_ok s cs" "live_ok s cs L" and b: "base_ok s"
  defines "s' \<equiv> add_new_memory_chunk (s\<lparr>memory_ptr := q\<rparr>)"
  shows "chunks_ok s' (cs @ [new_chunk s])" "levels_ok s' (cs @ [new_chunk s])" "live_ok s' (cs @ [new_chunk s]) L"
    "base_ok s'" "transac_level s' = transac_level s" "snd (memory_ptr s') = 0"
proof -
  let ?c = "new_chunk s" and ?bs = "map (chunk_memory s) cs"
  have s': "s' = s\<lparr>new_chunk := ?c + 1, new_block := new_block s + 1, chunk_next := (chunk_next s)(last_chunk s := ?c, ?c := 0),
      chunk_memory := (chunk_memory s)(?c := new_block s), last_chunk := ?c, memory_pool := new_block s,
      memory_ptr := (new_block s, 0), memory_limit := (new_block s, POOL_SIZE - 1)\<rparr>"
    by (simp add: s'_def add_new_memory_chunk_def allocate_memory_chunk_def Let_def)
  have c: "?c \<notin> set cs" "new_block s \<notin> chunk_memory s ` set cs" "cs \<noteq> []" "last_chunk s = last cs"
    using cs(1) by (auto simp: chunks_ok_def)
  have bs: "map (chunk_memory s') (cs @ [?c]) = ?bs @ [new_block s]" using c(1) by (simp add: s')
  have old: "position (?bs @ [new_block s]) p = position ?bs p" if "fst p \<in> chunk_memory s ` set cs" for p
    using that by (simp add: position_append)
  have "memory_ptr s' = (new_block s, 0)" by (simp add: s')
  then have new: "position (?bs @ [new_block s]) (memory_ptr s') = length cs * (POOL_SIZE + 1)"
    using c(2) index_of_new [of "new_block s" ?bs "[]"] by (simp add: position_def)
  have "snd (memory_ptr s) \<le> POOL_SIZE" "0 < length cs" using cs(1) c(3) by (auto simp: chunks_ok_def)
  then have up: "position ?bs (memory_ptr s) \<le> length cs * (POOL_SIZE + 1)"
    unfolding position_last [OF cs(1)] by (cases cs) auto
  show "base_ok s'" "transac_level s' = transac_level s" "snd (memory_ptr s') = 0" using b by (auto simp: s' base_ok_def)
  show "chunks_ok s' (cs @ [?c])"
    unfolding chunks_ok_def bs
  proof (intro conjI allI impI)
    fix j
    assume "Suc j < length (cs @ [?c])"
    then consider "Suc j < length cs" | "Suc j = length cs" by force
    then show "chunk_next s' ((cs @ [?c]) ! j) = (cs @ [?c]) ! Suc j"
    proof cases
      case 1
      then have "cs ! j \<noteq> last cs" using cs(1) c(3) by (auto simp: chunks_ok_def last_conv_nth nth_eq_iff_index_eq)
      moreover have "cs ! j \<noteq> ?c" using 1 c(1) by (metis nth_mem Suc_lessD)
      moreover note 1
      ultimately have 1: "Suc j < length cs" "cs ! j \<noteq> last cs" "cs ! j \<noteq> ?c" by blast+
      then show ?thesis using 1 cs(1) c(4) by (simp add: s' chunks_ok_def nth_append)
    next
      case 2
      then have "j = length cs - 1" by simp
      then have "cs ! j = last cs" using c(3) by (simp add: last_conv_nth)
      moreover have "last cs \<noteq> ?c" using last_in_set [OF c(3)] c(1) by metis
      ultimately show ?thesis using 2 c(4) by (simp add: s' nth_append)
    qed
  qed (use cs(1) c b in \<open>auto simp: s' chunks_ok_def base_ok_def image_iff\<close>)
  have sv: "saved s' i = saved s i" for i by (simp add: s' saved_def)
  show "levels_ok s' (cs @ [?c])"
    unfolding levels_ok_def bs new sv
  proof (intro allI impI)
    fix i
    assume "i < nat (transac_level s')"
    then have i: "i < nat (transac_level s)" by (simp add: s')
    let ?m = "mi_last_chunk (memory_arr s i)"
    have l: "?m \<in> set cs" "fst (saved s i) = chunk_memory s ?m" "snd (saved s i) \<le> POOL_SIZE"
      "position ?bs (saved s i) \<le> position ?bs (memory_ptr s)" using cs(2) i by (auto simp: levels_ok_def)
    have m: "\<forall>j < nat (transac_level s). i \<le> j \<longrightarrow> position ?bs (saved s i) \<le> position ?bs (saved s j)"
      "\<forall>j < nat (transac_level s). fst (saved s j) \<in> chunk_memory s ` set cs" using cs(2) i by (auto simp: levels_ok_def)
    have "?m \<noteq> ?c" using l(1) c(1) by auto
    then show "mi_last_chunk (memory_arr s' i) \<in> set (cs @ [?c]) \<and>
        fst (saved s i) = chunk_memory s' (mi_last_chunk (memory_arr s' i)) \<and> snd (saved s i) \<le> POOL_SIZE \<and>
        (\<forall>j < nat (transac_level s'). i \<le> j \<longrightarrow>
          position (?bs @ [new_block s]) (saved s i) \<le> position (?bs @ [new_block s]) (saved s j)) \<and>
        position (?bs @ [new_block s]) (saved s i) \<le> length cs * (POOL_SIZE + 1)"
      using l m i up by (auto simp: s' old)
  qed
  have lv: "fst p \<in> chunk_memory s ` set cs" if "(l, p, z) \<in> set L" for l p z using cs(3) that by (auto simp: live_ok_def)
  have sl: "fst (saved s i) \<in> chunk_memory s ` set cs" if "i < nat (transac_level s)" for i
    using cs(2) that by (auto simp: levels_ok_def)
  have img: "chunk_memory s' ` set (cs @ [?c]) = insert (new_block s) (chunk_memory s ` set cs)" using c(1) by (auto simp: s' image_iff)
  show "live_ok s' (cs @ [?c]) L"
    unfolding live_ok_def bs new sv img
  proof (intro conjI)
    show "sorted_wrt (\<lambda>(_, p, z) (_, q, w). position (?bs @ [new_block s]) q + w \<le> position (?bs @ [new_block s]) p) L"
      by (rule sorted_wrt_mono_rel [of L "\<lambda>(_, p, z) (_, q, w). position ?bs q + w \<le> position ?bs p"])
        (use cs(3) lv in \<open>auto simp: live_ok_def old\<close>)
    show "\<forall>(l, p, z) \<in> set L. 1 \<le> l \<and> l \<le> transac_level s' \<and> fst p \<in> insert (new_block s) (chunk_memory s ` set cs) \<and>
        snd p + z \<le> POOL_SIZE \<and> position (?bs @ [new_block s]) p + z \<le> length cs * (POOL_SIZE + 1) \<and>
        (\<forall>i < nat (transac_level s'). l \<le> int i \<longrightarrow>
          position (?bs @ [new_block s]) p + z \<le> position (?bs @ [new_block s]) (saved s i))"
      using cs(3) up lv sl unfolding live_ok_def by (force simp: old s')
  qed
qed

lemma pool_ok_alloc:
  assumes P: "pool_ok (s, L)" and s': "transactional_new z s = Some (p, s')" and z: "z \<le> POOL_SIZE"
  shows "pool_ok (s', (transac_level s, p, z) # L)"
proof -
  have k: "0 < transac_level s" using s' by (auto simp: transactional_new_def split: if_splits)
  then obtain cs where cs: "chunks_ok s cs" "levels_ok s cs" "live_ok s cs L" and b: "base_ok s" using P by (auto simp: pool_ok_def)
  note r = round_up_facts [of z]
  have lim: "snd (memory_limit s) = POOL_SIZE - 1" using cs(1) by (simp add: chunks_ok_def)
  show ?thesis
  proof (cases "snd (memory_ptr s) + round_up z > POOL_SIZE - 1")
    case False
    then have e: "s' = s\<lparr>memory_ptr := advance (memory_ptr s) (round_up z)\<rparr>" "p = memory_ptr s"
      using s' k lim by (auto simp: transactional_new_def advance_def Let_def)
    have "snd (memory_ptr s) + round_up z \<le> POOL_SIZE" using False by simp
    from pool_ok_advance [OF cs k this r(1)] show ?thesis
      using k b by (auto simp: pool_ok_def e base_ok_def)
  next
    case True
    define t where "t = add_new_memory_chunk (s\<lparr>memory_ptr := advance (memory_ptr s) (round_up z)\<rparr>)"
    have e: "s' = t\<lparr>memory_ptr := advance (memory_ptr t) (round_up z)\<rparr>" "p = memory_ptr t"
      using s' k lim True r(3) by (auto simp: transactional_new_def advance_def Let_def t_def)
    note n = pool_ok_new_chunk [OF cs b, of "advance (memory_ptr s) (round_up z)", folded t_def]
    have kt: "0 < transac_level t" using k n(5) by simp
    have "snd (memory_ptr t) + round_up z \<le> POOL_SIZE" using n(6) r(2) z by simp
    from pool_ok_advance [OF n(1-3) kt this r(1)] show ?thesis
      using k n(4,5) by (auto simp: pool_ok_def e base_ok_def)
  qed
qed

section \<open>The end of a transaction\<close>

lemma free_chunks_chain:
  assumes "\<forall>j. Suc j < length cs \<longrightarrow> nxt (cs ! j) = cs ! Suc j" "cs \<noteq> []" "nxt (last cs) = 0" "0 \<notin> set cs"
  shows "j \<le> length cs \<Longrightarrow> chunk_next s = nxt \<Longrightarrow> free_chunks (hd (drop j cs @ [0])) s =
    Some (s\<lparr>freed_blocks := rev (map (chunk_memory s) (drop j cs)) @ freed_blocks s\<rparr>)"
proof (induction "length cs - j" arbitrary: j s)
  case 0
  then show ?case by (simp add: free_chunks.simps)
next
  case (Suc n)
  then have j: "j < length cs" by simp
  then have d: "drop j cs = cs ! j # drop (Suc j) cs" by (simp add: Cons_nth_drop_Suc)
  have c: "cs ! j \<noteq> 0" using assms(4) j by (metis nth_mem)
  have nx: "nxt (cs ! j) = hd (drop (Suc j) cs @ [0])"
  proof (cases "Suc j < length cs")
    case True
    then show ?thesis using assms(1) by (simp add: hd_append hd_drop_conv_nth)
  next
    case False
    then have "cs ! j = last cs" using j assms(2) by (simp add: last_conv_nth Suc_leI le_antisym not_less_eq_eq flip: Suc_pred) (metis One_nat_def Suc_lessI diff_Suc_1)
    then show ?thesis using assms(3) False by simp
  qed
  show ?case
    using Suc.hyps(1) [of "Suc j" "s\<lparr>freed_blocks := chunk_memory s (cs ! j) # freed_blocks s\<rparr>"] Suc.hyps(2) Suc.prems j c nx d
    by (subst free_chunks.simps) simp
qed

text \<open>Back to the chunk and the address at the start of the inner transaction.\<close>

lemma pool_ok_inner_end:
  assumes cs: "chunks_ok s cs" "levels_ok s cs" "live_ok s cs L" and b: "base_ok s" and k: "1 < transac_level s"
    and s': "dispose_memory_chunks (memory_arr s (nat (transac_level s - 1))) (s\<lparr>transac_level := transac_level s - 1\<rparr>) = Some s'"
  shows "pool_ok (s', up_to_level (transac_level s') L) \<and> transac_level s' = transac_level s - 1"
proof -
  let ?i = "nat (transac_level s - 1)" and ?bs = "map (chunk_memory s) cs"
  let ?m = "mi_last_chunk (memory_arr s ?i)"
  have i: "?i < nat (transac_level s)" using k by simp
  then have l: "?m \<in> set cs" "fst (saved s ?i) = chunk_memory s ?m" "snd (saved s ?i) \<le> POOL_SIZE"
    using cs(2) by (auto simp: levels_ok_def)
  then obtain j where j: "j < length cs" "cs ! j = ?m" by (auto simp: in_set_conv_nth)
  have chain: "\<forall>j. Suc j < length cs \<longrightarrow> chunk_next s (cs ! j) = cs ! Suc j" "cs \<noteq> []" "chunk_next s (last cs) = 0" "0 \<notin> set cs"
    "distinct cs" "distinct ?bs" using cs(1) by (auto simp: chunks_ok_def)
  have nx: "chunk_next s ?m = hd (drop (Suc j) cs @ [0])"
  proof (cases "Suc j < length cs")
    case True
    then show ?thesis using chain(1) j(2) by (auto simp: hd_append hd_drop_conv_nth)
  next
    case False
    then have "j = length cs - 1" using j(1) by simp
    then show ?thesis using chain(2,3) j by (simp add: last_conv_nth)
  qed
  have e: "s' = s\<lparr>transac_level := transac_level s - 1, memory_pool := chunk_memory s ?m, memory_ptr := saved s ?i,
      memory_limit := (chunk_memory s ?m, POOL_SIZE - 1), freed_blocks := rev (map (chunk_memory s) (drop (Suc j) cs)) @ freed_blocks s,
      chunk_next := (chunk_next s)(?m := 0), last_chunk := ?m\<rparr>"
    using s' free_chunks_chain [OF chain(1-4), of "Suc j" "s\<lparr>transac_level := transac_level s - 1, memory_pool := chunk_memory s ?m,
      memory_ptr := saved s ?i, memory_limit := (chunk_memory s ?m, POOL_SIZE - 1)\<rparr>"] j(1)
    by (simp add: dispose_memory_chunks_def Let_def saved_def nx)
  define ds where "ds = take (Suc j) cs"
  have bs: "map (chunk_memory s') ds = take (Suc j) ?bs" by (simp add: e ds_def take_map)
  have ds: "ds \<noteq> []" "last ds = ?m" "set ds \<subseteq> set cs" "hd ds = hd cs"
    using j chain(2) by (auto simp: ds_def last_conv_nth hd_take dest: in_set_takeD)
  have low: "fst p \<in> chunk_memory s ` set ds \<and> position (take (Suc j) ?bs) p = position ?bs p"
    if "fst p \<in> set ?bs" "snd p \<le> POOL_SIZE" "position ?bs p \<le> position ?bs (saved s ?i)" for p
  proof -
    have "?bs ! j = fst (saved s ?i)" using j l(2) by simp
    then have "index_of ?bs (fst (saved s ?i)) = j" using index_of_nth [OF chain(6), of j] j(1) by simp
    then have "index_of ?bs (fst p) < Suc j" using position_index [OF that(3,2) l(3)] by simp
    then have m: "fst p \<in> set (take (Suc j) ?bs)"
      using nth_index_of [OF that(1)] index_of_less [OF that(1)] by (metis in_set_conv_nth length_take min_less_iff_conj nth_take)
    have "position (take (Suc j) ?bs @ drop (Suc j) ?bs) p = position (take (Suc j) ?bs) p" by (rule position_append [OF m])
    moreover have "set (take (Suc j) ?bs) = chunk_memory s ` set ds" by (simp add: ds_def take_map)
    ultimately show ?thesis using m by simp
  qed
  have sv: "saved s' i = saved s i" for i by (simp add: e saved_def)
  have base: "base_ok s'"
  proof -
    have "initial_pool s \<in> set (take (Suc j) ?bs)" using cs(1) by (cases cs) (auto simp: chunks_ok_def)
    moreover have "set (take (Suc j) ?bs) \<inter> set (drop (Suc j) ?bs) = {}"
      using chain(6) by (metis append_take_drop_id distinct_append)
    ultimately have "initial_pool s \<notin> set (drop (Suc j) ?bs)" by blast
    moreover have "\<forall>c \<in> set (drop (Suc j) cs). chunk_memory s c < new_block s"
      using cs(1) by (auto simp: chunks_ok_def dest: in_set_dropD)
    ultimately show ?thesis using b by (auto simp: e base_ok_def drop_map)
  qed
  have "chunk_memory s c \<notin> chunk_memory s ` set (drop (Suc j) cs)" if "c \<in> set ds" for c
  proof -
    have "distinct (take (Suc j) ?bs @ drop (Suc j) ?bs)" using chain(6) by simp
    then show ?thesis using that by (auto simp: ds_def take_map drop_map)
  qed
  moreover have "chunk_next s' (ds ! q) = ds ! Suc q" if "Suc q < length ds" for q
  proof -
    have q: "q < length cs" "Suc q < length cs" "q \<noteq> j" using that by (auto simp: ds_def)
    then have "cs ! q \<noteq> ?m" using nth_eq_iff_index_eq [OF chain(5)] j by metis
    then show ?thesis using that q chain(1) by (simp add: e ds_def)
  qed
  moreover have "distinct ds" "0 \<notin> set ds" using chain(4,5) ds(3) by (auto simp: ds_def)
  moreover have "distinct (map (chunk_memory s') ds)" unfolding bs using chain(6) by simp
  ultimately have 1: "chunks_ok s' ds"
    using cs(1) ds l unfolding chunks_ok_def by (auto simp: e)
  have lev: "nat (transac_level s') = ?i" by (simp add: e)
  have sd: "fst (saved s i') \<in> chunk_memory s ` set ds \<and> position (take (Suc j) ?bs) (saved s i') = position ?bs (saved s i') \<and>
      position ?bs (saved s i') \<le> position ?bs (saved s ?i)" if "i' \<le> ?i" for i'
  proof -
    have "i' < nat (transac_level s)" using that i by simp
    then have "fst (saved s i') \<in> set ?bs" "snd (saved s i') \<le> POOL_SIZE" "position ?bs (saved s i') \<le> position ?bs (saved s ?i)"
      using cs(2) i that by (auto simp: levels_ok_def)
    then show ?thesis using low by simp
  qed
  have 2: "levels_ok s' ds"
    unfolding levels_ok_def bs sv lev
  proof (intro allI impI)
    fix i'
    assume i': "i' < ?i"
    then have "i' < nat (transac_level s)" using i by simp
    then have old: "mi_last_chunk (memory_arr s i') \<in> set cs" "fst (saved s i') = chunk_memory s (mi_last_chunk (memory_arr s i'))"
      "snd (saved s i') \<le> POOL_SIZE"
      "\<forall>j < nat (transac_level s). i' \<le> j \<longrightarrow> position ?bs (saved s i') \<le> position ?bs (saved s j)"
      using cs(2) by (auto simp: levels_ok_def)
    obtain d where "d \<in> set ds" "fst (saved s i') = chunk_memory s d" using sd [of i'] i' by auto
    then have "mi_last_chunk (memory_arr s i') = d"
      using old(1,2) ds(3) chain(6) by (metis distinct_map inj_onD subsetD)
    moreover have "memory_ptr s' = saved s ?i" by (simp add: e)
    ultimately show "mi_last_chunk (memory_arr s' i') \<in> set ds \<and>
        fst (saved s i') = chunk_memory s' (mi_last_chunk (memory_arr s' i')) \<and> snd (saved s i') \<le> POOL_SIZE \<and>
        (\<forall>j' < ?i. i' \<le> j' \<longrightarrow> position (take (Suc j) ?bs) (saved s i') \<le> position (take (Suc j) ?bs) (saved s j')) \<and>
        position (take (Suc j) ?bs) (saved s i') \<le> position (take (Suc j) ?bs) (memory_ptr s')"
      using \<open>d \<in> set ds\<close> old sd i' i by (auto simp: e)
  qed
  have lv: "fst p \<in> chunk_memory s ` set ds \<and> position (take (Suc j) ?bs) p = position ?bs p \<and>
      position ?bs p + z \<le> position ?bs (saved s ?i)" if "(q, p, z) \<in> set L" "q \<le> transac_level s - 1" for q p z
  proof -
    have "fst p \<in> set ?bs" "snd p \<le> POOL_SIZE" "position ?bs p + z \<le> position ?bs (saved s ?i)"
      using cs(3) that i unfolding live_ok_def by auto
    then show ?thesis using low [of p] by simp
  qed
  have 3: "live_ok s' ds (up_to_level (transac_level s') L)"
    unfolding live_ok_def bs sv lev
  proof (intro conjI)
    show "sorted_wrt (\<lambda>(_, p, z) (_, q, w). position (take (Suc j) ?bs) q + w \<le> position (take (Suc j) ?bs) p)
        (up_to_level (transac_level s') L)"
      by (rule sorted_wrt_mono_rel [of _ "\<lambda>(_, p, z) (_, q, w). position ?bs q + w \<le> position ?bs p"])
        (use cs(3) lv in \<open>auto simp: live_ok_def up_to_level_def e intro: sorted_wrt_filter\<close>)
    show "\<forall>(q, p, z) \<in> set (up_to_level (transac_level s') L). 1 \<le> q \<and> q \<le> transac_level s' \<and>
        fst p \<in> chunk_memory s' ` set ds \<and> snd p + z \<le> POOL_SIZE \<and>
        position (take (Suc j) ?bs) p + z \<le> position (take (Suc j) ?bs) (memory_ptr s') \<and>
        (\<forall>i' < ?i. q \<le> int i' \<longrightarrow> position (take (Suc j) ?bs) p + z \<le> position (take (Suc j) ?bs) (saved s i'))"
    proof clarify
      fix q p z
      assume "(q, p, z) \<in> set (up_to_level (transac_level s') L)"
      then have m: "(q, p, z) \<in> set L" "q \<le> transac_level s - 1" by (auto simp: up_to_level_def e)
      moreover have "1 \<le> q" "snd p + z \<le> POOL_SIZE" "\<forall>i' < nat (transac_level s). q \<le> int i' \<longrightarrow> position ?bs p + z \<le> position ?bs (saved s i')"
        using cs(3) m(1) unfolding live_ok_def by auto
      moreover have "memory_ptr s' = saved s ?i" by (simp add: e)
      ultimately show "1 \<le> q \<and> q \<le> transac_level s' \<and> fst p \<in> chunk_memory s' ` set ds \<and> snd p + z \<le> POOL_SIZE \<and>
        position (take (Suc j) ?bs) p + z \<le> position (take (Suc j) ?bs) (memory_ptr s') \<and>
        (\<forall>i' < ?i. q \<le> int i' \<longrightarrow> position (take (Suc j) ?bs) p + z \<le> position (take (Suc j) ?bs) (saved s i'))"
        using lv [OF m] sd i by (auto simp: e)
    qed
  qed
  show ?thesis using base 1 2 3 k by (auto simp: pool_ok_def e)
qed

lemma memory_part_insert: "memory_part (s\<lparr>obj_id := f, obj_to_dispose := xs\<rparr>) = memory_part s" by (simp add: memory_part_eq)

lemma memory_part_idem: "memory_part s = memory_part (s\<lparr>obj_to_dispose := xs\<rparr>)" by (simp add: memory_part_eq)

lemma dispose_loop_keeps:
  assumes E: "keeps_memory E" and r: "dispose_loop C E s = Some s'"
  shows "memory_part s' = memory_part s"
proof -
  have "E' = E \<longrightarrow> memory_part s' = memory_part s" if "dispose_loop C' E' s = Some s'" for C' E' s s'
  proof (rule dispose_loop.raw_induct [where P = "\<lambda>C' E' s s'. E' = E \<longrightarrow> memory_part s' = memory_part s", OF _ that], rule impI)
    fix f C' E' s s'
    assume f: "\<And>C' E' s s'. f C' E' s = Some s' \<Longrightarrow> E' = E \<longrightarrow> memory_part s' = memory_part s" and e: "E' = E"
      and r: "(if obj_to_dispose s = [] then Some s
        else let disp_arr = filter (\<lambda>el. \<not> skipped C' el) (obj_to_dispose s); s = s\<lparr>obj_to_dispose := []\<rparr>
             in do { s \<leftarrow> (if disp_arr \<noteq> [] then real_delete E' disp_arr s else Some s);
                     s \<leftarrow> notifier_apply E' s; s \<leftarrow> propagate_headers E' s; f C' E' s }) = Some s'"
    show "memory_part s' = memory_part s"
    proof (cases "obj_to_dispose s = []")
      case False
      let ?d = "filter (\<lambda>el. \<not> skipped C' el) (obj_to_dispose s)"
      obtain a b c where r: "(if ?d \<noteq> [] then real_delete E' ?d (s\<lparr>obj_to_dispose := []\<rparr>) else Some (s\<lparr>obj_to_dispose := []\<rparr>)) = Some a"
        "notifier_apply E' a = Some b" "propagate_headers E' b = Some c" "f C' E' c = Some s'"
        using r False by (auto simp: Let_def bind_eq_Some_conv)
      have "memory_part a = memory_part (s\<lparr>obj_to_dispose := []\<rparr>)"
        using r(1) E e by (auto simp: keeps_memory_def split: if_splits)
      moreover have "memory_part b = memory_part a" "memory_part c = memory_part b" using r(2,3) E e by (auto simp: keeps_memory_def)
      ultimately show ?thesis using f [OF r(4)] e memory_part_idem [of s "[]"] by simp
    qed (use r in simp)
  qed
  then show ?thesis using r by blast
qed

lemma obj_dispose_keeps:
  assumes E: "keeps_memory E" and r: "obj_dispose C E ob s = Some s'"
  shows "memory_part s' = memory_part s"
proof -
  let ?s = "s\<lparr>obj_id := (obj_id s)(ob := - 3), obj_to_dispose := obj_to_dispose s @ [ob]\<rparr>"
  consider "Some s = Some s'" | "softassoc_deleted E ob ?s = Some s'" | "Some ?s = Some s'"
    using r unfolding obj_dispose_def Let_def by (metis option.distinct(1))
  then show ?thesis
  proof cases
    case 2
    then have "memory_part s' = memory_part ?s" using E unfolding keeps_memory_def by blast
    then show ?thesis by (simp only: memory_part_insert)
  next
    case 3
    then show ?thesis using memory_part_insert by (metis option.inject)
  qed simp
qed

lemma outer_end:
  assumes E: "keeps_memory E" and "\<not> 1 < transac_level s" "obj_transaction_end C E s = Some s'"
  shows "base_ok s \<Longrightarrow> base_ok s'" "transac_level s' = transac_level s - 1" "freed_blocks s' = freed_blocks s"
proof -
  obtain a b c where r: "(if obj_to_dispose s = [] then do { s \<leftarrow> notifier_apply E s; propagate_headers E s } else Some s) = Some a"
    "dispose_loop C E a = Some b" "clear_incremental E b = Some c" "s' = c\<lparr>transac_level := transac_level c - 1\<rparr>"
    using assms(2,3) by (auto simp: obj_transaction_end_def bind_eq_Some_conv)
  have "memory_part a = memory_part s"
    using r(1) E by (auto simp: keeps_memory_def bind_eq_Some_conv split: if_splits)
  then have "memory_part c = memory_part s"
    using r(3) dispose_loop_keeps [OF E r(2)] E by (simp add: keeps_memory_def)
  then show "base_ok s \<Longrightarrow> base_ok s'" "transac_level s' = transac_level s - 1" "freed_blocks s' = freed_blocks s"
    by (simp_all add: r(4) memory_part_eq base_ok_def)
qed

lemma up_to_level_0:
  assumes "live_ok s cs L"
  shows "up_to_level 0 L = []"
proof -
  have "1 \<le> fst a" if "a \<in> set L" for a
    using bspec [OF conjunct1 [OF assms [unfolded live_ok_def]] that] by (simp add: case_prod_unfold)
  then have "\<not> fst a \<le> 0" if "a \<in> set L" for a using that by fastforce
  then show ?thesis unfolding up_to_level_def filter_empty_conv by blast
qed

lemma pool_ok_end:
  assumes P: "pool_ok (s, L)" and E: "keeps_memory E" and k: "0 < transac_level s" and s': "obj_transaction_end C E s = Some s'"
  shows "pool_ok (s', up_to_level (transac_level s') L)"
proof -
  obtain cs where cs: "chunks_ok s cs" "levels_ok s cs" "live_ok s cs L" and b: "base_ok s" using P k by (auto simp: pool_ok_def)
  show ?thesis
  proof (cases "1 < transac_level s")
    case True
    have "dispose_memory_chunks (memory_arr s (nat (transac_level s - 1))) (s\<lparr>transac_level := transac_level s - 1\<rparr>) = Some s'"
      using s' unfolding obj_transaction_end_def Let_def if_P [OF True] by simp
    from pool_ok_inner_end [OF cs b True this] show ?thesis by (rule conjunct1)
  next
    case False
    have "transac_level s' = 0" "base_ok s'" using outer_end [OF E False s'] b k False by auto
    moreover have "up_to_level 0 L = []" by (rule up_to_level_0 [OF cs(3)])
    ultimately show ?thesis by (simp add: pool_ok_def)
  qed
qed

lemma pool_ok_abort:
  assumes P: "pool_ok (s, L)" and E: "keeps_memory E" and s': "obj_transaction_abort C E s = Some s'"
  shows "pool_ok (s', up_to_level (transac_level s') L)"
proof (cases "transac_level s = 0")
  case True
  then show ?thesis using P s' by (auto simp: obj_transaction_abort_def pool_ok_def up_to_level_def)
next
  case False
  then have r: "obj_transaction_end C E (s\<lparr>transac_level := 1\<rparr>) = Some s'" using s' by (simp add: obj_transaction_abort_def)
  have "base_ok s'" "transac_level s' = 0"
    using outer_end [OF E _ r] P by (auto simp: pool_ok_def base_ok_def)
  moreover obtain cs where "live_ok s cs L" using P False by (auto simp: pool_ok_def)
  then have "up_to_level 0 L = []" by (rule up_to_level_0)
  ultimately show ?thesis by (simp add: pool_ok_def)
qed

theorem pool_ok_reached:
  assumes E: "keeps_memory E"
  shows "reached C E ids c \<Longrightarrow> pool_ok c"
proof (induction rule: reached.induct)
  case (init s)
  then have "memory_part s = memory_part (transactions_init ids)"
    by (simp add: memory_part_def) (simp add: transactions_init_def transactions.truncate_def)
  then show ?case
    by (simp add: memory_part_eq pool_ok_def transactions_init_def base_ok_def memory_list_def)
next
  case (step c c')
  note IH = step.IH
  from step.hyps(2) show ?case
  proof (cases rule: tstep.cases)
    case (start s s' L)
    then show ?thesis using pool_ok_start IH by auto
  next
    case (finish s s' L)
    then show ?thesis using pool_ok_end [OF _ E] IH by auto
  next
    case (abort s s' L)
    then show ?thesis using pool_ok_abort [OF _ E] IH by auto
  next
    case (alloc sz s p s' L)
    then show ?thesis using pool_ok_alloc [of s L sz p s'] IH by simp
  next
    case (dispose ob s s' L)
    have "memory_part s' = memory_part s" by (rule obj_dispose_keeps [OF E dispose(3)])
    then show ?thesis using pool_ok_memory_part IH dispose by blast
  next
    case (forget s L other ob)
    have "memory_part (obj_remove_from_dispose other ob s) = memory_part s"
      by (simp add: obj_remove_from_dispose_def memory_part_eq)
    then show ?thesis using pool_ok_memory_part IH forget by blast
  qed
qed

end
