(* ===== verification/Transaction_Properties.thy ===== *)
theory Transaction_Properties
  imports Transaction_Memory
begin

text \<open>
  What the transactions promise: the memory that is handed out does not overlap, and a transaction
  that is nested in another gives all of its memory back. The outermost one does not, and an
  allocation that is larger than a chunk runs over its end.
\<close>

section \<open>Allocations of one transaction\<close>

fun allocations :: "nat list \<Rightarrow> 'z transactions_scheme \<Rightarrow> (cptr list \<times> 'z transactions_scheme) option" where
  "allocations [] s = Some ([], s)"
| "allocations (z # zs) s = do { (p, s) \<leftarrow> transactional_new z s; (ps, s) \<leftarrow> allocations zs s; Some (p # ps, s) }"

text \<open>The chunks \<open>cs\<close> of \<open>s\<close> are followed by the chunks \<open>ds\<close> of \<open>t\<close>.\<close>

definition grown :: "'z transactions_scheme \<Rightarrow> caddr list \<Rightarrow> 'z transactions_scheme \<Rightarrow> caddr list \<Rightarrow> bool" where
  "grown s cs t ds \<longleftrightarrow> base_ok t \<and> chunks_ok t (cs @ ds) \<and> levels_ok t (cs @ ds) \<and> (\<exists>L. live_ok t (cs @ ds) L) \<and>
     memory_arr t = memory_arr s \<and> transac_level t = transac_level s \<and> 0 < transac_level t \<and> freed_blocks t = freed_blocks s \<and>
     new_block s \<le> new_block t \<and> map (chunk_memory t) ds = [new_block s..<new_block t] \<and>
     (\<forall>c \<in> set cs. chunk_memory t c = chunk_memory s c)"

lemma grown_new:
  assumes g: "grown s cs t ds" and n: "transactional_new z t = Some (p, t')" and z: "z \<le> POOL_SIZE"
  shows "\<exists>ds'. grown s cs t' ds'"
proof -
  obtain L where t: "chunks_ok t (cs @ ds)" "levels_ok t (cs @ ds)" "live_ok t (cs @ ds) L" "base_ok t" "0 < transac_level t"
    using g by (auto simp: grown_def)
  note r = round_up_facts [of z]
  have lim: "snd (memory_limit t) = POOL_SIZE - 1" using t(1) by (simp add: chunks_ok_def)
  show ?thesis
  proof (cases "snd (memory_ptr t) + round_up z > POOL_SIZE - 1")
    case False
    then have e: "t' = t\<lparr>memory_ptr := advance (memory_ptr t) (round_up z)\<rparr>"
      using n t(5) lim by (auto simp: transactional_new_def advance_def Let_def)
    have "snd (memory_ptr t) + round_up z \<le> POOL_SIZE" using False by simp
    from pool_ok_advance [OF t(1-3,5) this r(1)] have "grown s cs t' ds"
      using g unfolding grown_def e base_ok_def by auto
    then show ?thesis ..
  next
    case True
    define u where "u = add_new_memory_chunk (t\<lparr>memory_ptr := advance (memory_ptr t) (round_up z)\<rparr>)"
    have e: "t' = u\<lparr>memory_ptr := advance (memory_ptr u) (round_up z)\<rparr>"
      using n t(5) lim True r(3) by (auto simp: transactional_new_def advance_def Let_def u_def)
    note k = pool_ok_new_chunk [OF t(1-4), of "advance (memory_ptr t) (round_up z)", folded u_def]
    have same: "memory_arr u = memory_arr t" "freed_blocks u = freed_blocks t" "new_block u = new_block t + 1"
      "chunk_memory u = (chunk_memory t)(new_chunk t := new_block t)"
      by (simp_all add: u_def add_new_memory_chunk_def allocate_memory_chunk_def Let_def)
    have fresh: "new_chunk t \<notin> set cs" "new_chunk t \<notin> set ds" using t(1) by (auto simp: chunks_ok_def)
    have "snd (memory_ptr u) + round_up z \<le> POOL_SIZE" "0 < transac_level u" using k(5,6) r(2) z t(5) by simp_all
    from pool_ok_advance [OF k(1-3) this(2,1) r(1)] have "grown s cs t' (ds @ [new_chunk t])"
      using g k(4,5) fresh unfolding grown_def e base_ok_def by (auto simp: same)
    then show ?thesis ..
  qed
qed

lemma grown_allocations:
  "allocations zs t = Some (ps, t') \<Longrightarrow> grown s cs t ds \<Longrightarrow> \<forall>z \<in> set zs. z \<le> POOL_SIZE \<Longrightarrow> \<exists>ds'. grown s cs t' ds'"
proof (induction zs arbitrary: t ps ds)
  case (Cons z zs)
  then obtain p u qs where u: "transactional_new z t = Some (p, u)" "allocations zs u = Some (qs, t')"
    by (auto simp: bind_eq_Some_conv split: prod.splits)
  obtain es where "grown s cs u es" using grown_new [OF Cons.prems(2) u(1)] Cons.prems(3) by auto
  then show ?case using Cons.IH u(2) Cons.prems(3) by auto
qed auto

text \<open>The end of the transaction that starts at \<open>s\<close>, after its allocations have made \<open>t\<close>.\<close>

lemma grown_end:
  assumes s: "chunks_ok s cs" and g: "grown s1 cs t ds" and k: "transac_level t = transac_level s + 1" "0 < transac_level s"
    and arr: "memory_arr t (nat (transac_level s)) = \<lparr>mi_last_chunk = last_chunk s, mi_memory_ptr = memory_ptr s\<rparr>"
    and s1: "chunk_memory s1 = chunk_memory s"
  shows "\<exists>s'. obj_transaction_end C E t = Some s' \<and> memory_ptr s' = memory_ptr s \<and> memory_limit s' = memory_limit s \<and>
    last_chunk s' = last_chunk s \<and> transac_level s' = transac_level s \<and> new_block s' = new_block t \<and>
    freed_blocks s' = rev [new_block s1..<new_block t] @ freed_blocks s1"
proof -
  have t: "\<forall>j. Suc j < length (cs @ ds) \<longrightarrow> chunk_next t ((cs @ ds) ! j) = (cs @ ds) ! Suc j" "cs @ ds \<noteq> []"
    "chunk_next t (last (cs @ ds)) = 0" "0 \<notin> set (cs @ ds)" using g by (auto simp: grown_def chunks_ok_def)
  have cs: "cs \<noteq> []" "last_chunk s = last cs" "memory_limit s = (chunk_memory s (last cs), POOL_SIZE - 1)"
    using s by (auto simp: chunks_ok_def)
  have same: "chunk_memory t (last cs) = chunk_memory s (last cs)" "map (chunk_memory t) ds = [new_block s1..<new_block t]"
    "freed_blocks t = freed_blocks s1" using g cs(1) s1 by (auto simp: grown_def)
  have nx: "chunk_next t (last cs) = hd (drop (length cs) (cs @ ds) @ [0])"
  proof (cases ds)
    case Nil
    then show ?thesis using t(3) by simp
  next
    case (Cons d es)
    then have "Suc (length cs - 1) = length cs" "(cs @ ds) ! (length cs - 1) = last cs" using cs(1)
      by (auto simp: nth_append last_conv_nth)
    then show ?thesis using t(1)[rule_format, of "length cs - 1"] Cons by (simp add: nth_append)
  qed
  note f = free_chunks_chain [OF t, of "length cs" "t\<lparr>transac_level := transac_level s, memory_pool := chunk_memory s (last cs),
    memory_ptr := memory_ptr s, memory_limit := (chunk_memory s (last cs), POOL_SIZE - 1)\<rparr>"]
  show ?thesis
    using k cs f same unfolding obj_transaction_end_def dispose_memory_chunks_def Let_def
    by (simp add: arr nx)
qed

section \<open>Properties\<close>

text \<open>C19: In every run in which no allocation is larger than a chunk (\<open>POOL_SIZE\<close>, the bound in the
  step \<open>alloc\<close>), the regions of the open transactions are apart: each of them lies in a block of the
  pool that is not freed, within the bounds of the block, and two of them do not overlap: when they
  are in the same block, the later one begins behind the end of the earlier one. (The list has the
  latest allocation first.)\<close>

theorem allocations_disjoint:
  assumes "keeps_memory E" "reached C E ids (s, L)"
  shows "(\<forall>(k, p, z) \<in> set L. fst p \<notin> set (freed_blocks s) \<and> fst p < new_block s \<and> snd p + z \<le> POOL_SIZE) \<and>
    (\<forall>i j k p z l q w. i < j \<and> j < length L \<and> L ! i = (k, p, z) \<and> L ! j = (l, q, w) \<and> fst p = fst q \<longrightarrow> snd q + w \<le> snd p)"
proof (cases "L = []")
  case False
  then have "transac_level s \<noteq> 0" "0 \<le> transac_level s" using pool_ok_reached [OF assms] by (auto simp: pool_ok_def)
  then obtain cs where cs: "chunks_ok s cs" "live_ok s cs L"
    using pool_ok_reached [OF assms] by (auto simp: pool_ok_def)
  have "fst p \<notin> set (freed_blocks s) \<and> fst p < new_block s \<and> snd p + z \<le> POOL_SIZE" if "(k, p, z) \<in> set L" for k p z
  proof -
    have p: "fst p \<in> chunk_memory s ` set cs" "snd p + z \<le> POOL_SIZE" using cs(2) that by (auto simp: live_ok_def)
    then show ?thesis using cs(1) by (auto simp: chunks_ok_def)
  qed
  moreover have "snd q + w \<le> snd p"
    if "i < j" "j < length L" "L ! i = (k, p, z)" "L ! j = (l, q, w)" "fst p = fst q" for i j k p z l q w
    using sorted_wrt_nth_less [OF conjunct2 [OF cs(2) [unfolded live_ok_def]] that(1,2)] that(3-5) by (simp add: position_def)
  ultimately show ?thesis by blast
qed simp

text \<open>A run for the witnesses: a transaction with two allocations, the second one in a new chunk.\<close>

definition no_effects :: "'z effects" where
  "no_effects = \<lparr>softassoc_deleted = (\<lambda>_. Some), real_delete = (\<lambda>_. Some), notifier_apply = Some,
     propagate_headers = Some, clear_incremental = Some\<rparr>"

definition demo_classes :: classes where
  "demo_classes = \<lparr>is_appTree = (\<lambda>_. False), is_commonTree = (\<lambda>_. False), is_Hierarchical = (\<lambda>_. False),
     has_header = (\<lambda>_. False), is_ddElement = (\<lambda>_. False), is_projModule = (\<lambda>_. False)\<rparr>"

definition demo_1 :: transactions where
  "demo_1 = the (obj_transaction_start (transactions_init (\<lambda>_. 0)))"

definition demo_2 :: transactions where
  "demo_2 = snd (the (transactional_new 6 demo_1))"

definition demo_3 :: transactions where
  "demo_3 = snd (the (transactional_new 99996 demo_2))"

lemmas demo_simps = demo_1_def demo_2_def demo_3_def transactions_init_def obj_transaction_start_def transactional_new_def
  add_new_memory_chunk_def allocate_memory_chunk_def advance_def round_up_def POOL_SIZE_def SIZEOF_INT_def memory_list_def
  MAX_TRANSAC_LEVEL_def Let_def

lemma no_effects_keep: "keeps_memory no_effects"
  by (simp add: keeps_memory_def no_effects_def)

lemma demo_steps:
  "obj_transaction_start (transactions_init (\<lambda>_. 0)) = Some demo_1"
  "transactional_new 6 demo_1 = Some ((0, 0), demo_2)"
  "transactional_new 99996 demo_2 = Some ((1, 0), demo_3)"
  "transac_level demo_1 = 1" "transac_level demo_2 = 1" "transac_level demo_3 = 1"
  "freed_blocks demo_3 = []" "new_block demo_3 = 2" "obj_to_dispose demo_3 = []"
  by (simp_all add: demo_simps)

lemma demo_reached: "reached demo_classes no_effects (\<lambda>_. 0) (demo_3, [(1, (1, 0), 99996), (1, (0, 0), 6)])"
proof -
  have "reached demo_classes no_effects (\<lambda>_. 0) (demo_1, [])"
    by (rule reached.step [OF reached.init tstep.start [OF demo_steps(1)]]) (simp add: transactions_init_def transactions.truncate_def)
  from reached.step [OF this tstep.alloc [OF demo_steps(2)]]
  have "reached demo_classes no_effects (\<lambda>_. 0) (demo_2, [(1, (0, 0), 6)])" by (simp add: demo_steps POOL_SIZE_def)
  from reached.step [OF this tstep.alloc [OF demo_steps(3)]]
  show ?thesis by (simp add: demo_steps POOL_SIZE_def)
qed

text \<open>C20: A transaction inside another gives back what it took: after its start, any allocations and
  its end, the next address, the limit, the chunk and the level are those from before, and exactly
  the blocks that were made since are freed.\<close>

theorem inner_transaction_undone:
  assumes E: "keeps_memory E" "reached C E ids (s, L)" and k: "0 < transac_level s"
    and s1: "obj_transaction_start s = Some s1"
    and t: "allocations zs s1 = Some (ps, t)" "\<forall>z \<in> set zs. z \<le> POOL_SIZE"
  shows "\<exists>s'. obj_transaction_end C E t = Some s' \<and> memory_ptr s' = memory_ptr s \<and> memory_limit s' = memory_limit s \<and>
    last_chunk s' = last_chunk s \<and> transac_level s' = transac_level s \<and>
    freed_blocks s' = rev [new_block s..<new_block s'] @ freed_blocks s"
proof -
  have e: "s1 = s\<lparr>memory_arr := (memory_arr s)(nat (transac_level s) := \<lparr>mi_last_chunk = last_chunk s, mi_memory_ptr = memory_ptr s\<rparr>),
      transac_level := transac_level s + 1\<rparr>"
    using s1 k by (auto simp: obj_transaction_start_def split: if_splits)
  obtain cs where s: "chunks_ok s cs" "levels_ok s cs" "live_ok s cs L" "base_ok s"
    using pool_ok_reached [OF E] k by (auto simp: pool_ok_def)
  have "grown s1 cs s1 []"
    using start_keeps [OF s k s1] k unfolding grown_def by (auto simp: e)
  then obtain ds where g: "grown s1 cs t ds" using grown_allocations [OF t(1) _ t(2)] by blast
  have "transac_level t = transac_level s + 1"
    "memory_arr t (nat (transac_level s)) = \<lparr>mi_last_chunk = last_chunk s, mi_memory_ptr = memory_ptr s\<rparr>"
    using g by (auto simp: grown_def e)
  from grown_end [OF s(1) g this(1) k this(2), of C E] obtain s' where
    "obj_transaction_end C E t = Some s'" "memory_ptr s' = memory_ptr s" "memory_limit s' = memory_limit s"
    "last_chunk s' = last_chunk s" "transac_level s' = transac_level s" "new_block s' = new_block t"
    "freed_blocks s' = rev [new_block s1..<new_block t] @ freed_blocks s1" by (auto simp: e)
  then show ?thesis by (simp add: e)
qed

text \<open>The end of the outermost transaction frees no block, also when it allocated chunks: they are
  lost, since the next start forgets the list of chunks.\<close>

theorem outermost_end_frees_nothing:
  assumes "keeps_memory E" "transac_level s = 1" "obj_transaction_end C E s = Some s'" "obj_transaction_start s' = Some s''"
  shows "freed_blocks s'' = freed_blocks s \<and> chunk_next s'' memory_list = 0 \<and> last_chunk s'' = memory_list"
proof -
  have "freed_blocks s' = freed_blocks s" "transac_level s' = 0" using outer_end [OF assms(1) _ assms(3)] assms(2) by simp_all
  then show ?thesis using assms(4) by (auto simp: obj_transaction_start_def split: if_splits)
qed

text \<open>An allocation of more than the size of a chunk succeeds with an address at the start of a new
  chunk, and ends behind the end of that chunk.\<close>

theorem oversized_allocation_overruns:
  assumes "keeps_memory E" "reached C E ids (s, L)" "0 < transac_level s" "POOL_SIZE < z"
  shows "\<exists>s'. transactional_new z s = Some ((new_block s, 0), s') \<and> fst (memory_ptr s') = new_block s \<and> POOL_SIZE < snd (memory_ptr s')"
proof -
  obtain cs where "chunks_ok s cs" using pool_ok_reached [OF assms(1,2)] assms(3) by (auto simp: pool_ok_def)
  then have "snd (memory_limit s) = POOL_SIZE - 1" by (simp add: chunks_ok_def)
  moreover have "\<not> snd (memory_ptr s) + round_up z \<le> POOL_SIZE - Suc 0" if "POOL_SIZE < round_up z" using that by simp
  moreover have "POOL_SIZE < round_up z" using round_up_facts(1) [of z] assms(4) by simp
  ultimately show ?thesis
    using assms(3) round_up_facts(3) [of z] unfolding not_le
    by (simp add: transactional_new_def advance_def add_new_memory_chunk_def allocate_memory_chunk_def Let_def)
qed

section \<open>Witnesses\<close>

theorem allocations_disjoint_witness:
  "(1::nat) \<notin> set (freed_blocks demo_3) \<and> (0::nat) \<notin> set (freed_blocks demo_3) \<and> 1 < new_block demo_3 \<and>
    0 + 99996 \<le> POOL_SIZE \<and> 0 + 6 \<le> POOL_SIZE"
  using allocations_disjoint [OF no_effects_keep demo_reached] by simp

definition demo_4 :: transactions where
  "demo_4 = the (obj_transaction_start demo_3)"

theorem inner_transaction_undone_witness:
  "\<exists>ps t s'. allocations [99999, 7, 50000, 60000] demo_4 = Some (ps, t) \<and> obj_transaction_end demo_classes no_effects t = Some s' \<and>
    memory_ptr s' = (1, 99996) \<and> rev (freed_blocks s') = [2..<new_block s']"
proof -
  have s: "obj_transaction_start demo_3 = Some demo_4" "memory_ptr demo_3 = (1, 99996)" by (simp_all add: demo_4_def demo_simps)
  have "\<exists>ps t. allocations [99999, 7, 50000, 60000] demo_4 = Some (ps, t)" by (simp add: demo_4_def demo_simps)
  then obtain ps t where t: "allocations [99999, 7, 50000, 60000] demo_4 = Some (ps, t)" by blast
  show ?thesis
    using inner_transaction_undone [OF no_effects_keep demo_reached _ s(1) t] t s(2) demo_steps by (auto simp: POOL_SIZE_def)
qed

theorem outermost_end_frees_nothing_witness:
  "\<exists>s' s''. obj_transaction_end demo_classes no_effects demo_3 = Some s' \<and> obj_transaction_start s' = Some s'' \<and>
    freed_blocks s'' = [] \<and> new_block s'' = 2 \<and> chunk_next s'' memory_list = 0"
proof -
  have e: "obj_transaction_end demo_classes no_effects demo_3 = Some (demo_3\<lparr>transac_level := 0\<rparr>)"
    using demo_steps by (simp add: obj_transaction_end_def no_effects_def dispose_loop.simps)
  obtain s'' where s: "obj_transaction_start (demo_3\<lparr>transac_level := 0\<rparr>) = Some s''" "new_block s'' = 2"
    using demo_steps by (simp add: obj_transaction_start_def)
  show ?thesis
    using outermost_end_frees_nothing [OF no_effects_keep demo_steps(6) e s(1)] e s demo_steps(7) by auto
qed

theorem oversized_allocation_overruns_witness:
  "\<exists>s'. transactional_new 100001 demo_3 = Some ((2, 0), s') \<and> fst (memory_ptr s') = 2 \<and> POOL_SIZE < snd (memory_ptr s')"
  using oversized_allocation_overruns [OF no_effects_keep demo_reached, of 100001] demo_steps by (simp add: POOL_SIZE_def)

end
