(* ===== verification/Relations.thy ===== *)
theory Relations
  imports Transactions
begin

unbundle bit_operations_syntax

text \<open>
  The relations between the objects of the model server (\<^verbatim>\<open>objRelation.h.cxx\<close>, \<^verbatim>\<open>relArr.cxx\<close>,
  \<^verbatim>\<open>objSet.h.cxx\<close> of \<^verbatim>\<open>model_server/obj\<close>). A relation type is dynamic, and its links are in the
  array \<^verbatim>\<open>rel_list\<close> of the object, or fixed, and they are in a field of the object at its \<^verbatim>\<open>offset\<close>;
  \<open>ptr_fields\<close> names such a field by its type. A field or an entry holds one object or a set of its
  own. The class \<^verbatim>\<open>Set\<close> is not in the repository: it is the parameter \<open>S\<close>, with the laws
  \<open>set_laws\<close>. What hooks, virtual functions and the database do is the parameter \<open>E\<close>. The state
  is that of the transactions with the links of the objects. Address 0 is the null pointer; a
  failing assertion or an access through the null pointer is \<open>None\<close>, and so is a loop that does not end.
\<close>

section \<open>State\<close>

type_synonym rel = nat

datatype 's members = One obj | Many 's

record 's relation =
  rel_type :: rel
  members :: "'s members"

record 's relations = transactions +
  rel_list :: "obj \<Rightarrow> 's relation list"
  ptr_fields :: "obj \<Rightarrow> rel \<Rightarrow> 's members option"

record rtype =
  inverse_type :: rel
  cardinality :: int
  flags :: int
  offset :: nat
  hcs :: bool

record 's nih_set =
  set_new :: "nat \<Rightarrow> 's"
  set_add :: "obj \<Rightarrow> 's \<Rightarrow> 's"
  set_remove :: "obj \<Rightarrow> 's \<Rightarrow> 's"
  set_includes :: "'s \<Rightarrow> obj \<Rightarrow> bool"
  set_size :: "'s \<Rightarrow> nat"
  set_elems :: "'s \<Rightarrow> obj list"

definition set_laws :: "'s nih_set \<Rightarrow> bool" where
  "set_laws S \<longleftrightarrow> (\<forall>n. set_elems S (set_new S n) = []) \<and>
     (\<forall>x s. set (set_elems S (set_add S x s)) = insert x (set (set_elems S s))) \<and>
     (\<forall>x s. set (set_elems S (set_remove S x s)) = set (set_elems S s) - {x}) \<and>
     (\<forall>x s. set_includes S s x \<longleftrightarrow> x \<in> set (set_elems S s)) \<and>
     (\<forall>s. distinct (set_elems S s) \<and> set_size S s = length (set_elems S s))"

text \<open>The relation types, whose table is fixed before any object exists; \<open>class_rels\<close> is the chain of
  fixed types of the object's class, \<open>None\<close> when it has no class descriptor.\<close>

record 's env =
  types :: "rel \<Rightarrow> rtype"
  class_rels :: "obj \<Rightarrow> rel list option"
  hook :: "rel \<Rightarrow> (int \<Rightarrow> 's members \<Rightarrow> 's members \<Rightarrow> rel \<Rightarrow> 's relations \<Rightarrow> 's relations option) option"
  ref_smt_of_dd :: rel
  db_null :: obj
  db_restore_complete :: "obj \<Rightarrow> 's relations \<Rightarrow> (bool \<times> 's relations) option"

definition relationMode_M :: int where "relationMode_M = 4"
definition relationMode_D :: int where "relationMode_D = 8"
definition relationMode_UD :: int where "relationMode_UD = 40"

section \<open>Members\<close>

text \<open>The elements that \<^verbatim>\<open>ForEach\<close> visits.\<close>

fun elems :: "'s nih_set \<Rightarrow> 's members \<Rightarrow> obj list" where
  "elems S (One b) = [b]"
| "elems S (Many s) = set_elems S s"

fun members_size :: "'s nih_set \<Rightarrow> 's members \<Rightarrow> nat" where
  "members_size S (One b) = 1"
| "members_size S (Many s) = set_size S s"

fun collectionp :: "'s members \<Rightarrow> bool" where
  "collectionp (One b) = False"
| "collectionp (Many s) = True"

text \<open>\<^verbatim>\<open>includes\<close> of an object or a set, for an object.\<close>

fun incl :: "'s nih_set \<Rightarrow> 's members \<Rightarrow> obj \<Rightarrow> bool" where
  "incl S (One b) m = (b = m)"
| "incl S (Many s) m = set_includes S s m"

fun objSet_of :: "'s nih_set \<Rightarrow> 's members \<Rightarrow> 's" where
  "objSet_of S (One b) = set_add S b (set_new S 2)"
| "objSet_of S (Many s) = s"

section \<open>The array of relations\<close>

fun relArr_find :: "'s relation list \<Rightarrow> rel \<Rightarrow> 's members option" where
  "relArr_find [] rt = None"
| "relArr_find (r # rs) rt = (if rel_type r = rt then Some (members r) else relArr_find rs rt)"

fun relArr_index :: "'s relation list \<Rightarrow> rel \<Rightarrow> nat option" where
  "relArr_index [] rt = None"
| "relArr_index (r # rs) rt = (if rel_type r = rt then Some 0 else map_option Suc (relArr_index rs rt))"

definition relArr_at :: "'s relation list \<Rightarrow> int \<Rightarrow> 's relation option" where
  "relArr_at rs ind = (if ind < 0 \<or> ind \<ge> int (length rs) then None else Some (rs ! nat ind))"

definition relArr_append :: "rel \<Rightarrow> 's members \<Rightarrow> 's relation list \<Rightarrow> 's relation list" where
  "relArr_append rt m rs = rs @ [\<lparr>rel_type = rt, members = m\<rparr>]"

definition relArr_remove :: "int \<Rightarrow> 's relation list \<Rightarrow> 's relation list" where
  "relArr_remove ind rs = (if ind < 0 \<or> ind \<ge> int (length rs) then rs else take (nat ind) rs @ drop (Suc (nat ind)) rs)"

definition put_rels :: "obj \<Rightarrow> 's relation list \<Rightarrow> 's relations \<Rightarrow> 's relations" where
  "put_rels x rs w = w\<lparr>rel_list := (rel_list w)(x := rs)\<rparr>"

definition put_members :: "obj \<Rightarrow> nat \<Rightarrow> 's members \<Rightarrow> 's relations \<Rightarrow> 's relations" where
  "put_members x i m w = put_rels x ((rel_list w x)[i := (rel_list w x ! i)\<lparr>members := m\<rparr>]) w"

definition put_field :: "obj \<Rightarrow> rel \<Rightarrow> 's members option \<Rightarrow> 's relations \<Rightarrow> 's relations" where
  "put_field x rt m w = w\<lparr>ptr_fields := (ptr_fields w)(x := (ptr_fields w x)(rt := m))\<rparr>"

section \<open>Reading\<close>

definition get_raw_ptr :: "'s env \<Rightarrow> obj \<Rightarrow> rel \<Rightarrow> 's relations \<Rightarrow> 's members option" where
  "get_raw_ptr E x rt w = (if offset (types E rt) \<noteq> 0 then ptr_fields w x rt else relArr_find (rel_list w x) rt)"

text \<open>\<^verbatim>\<open>DB_NULL\<close> stands for links that are still in the database.\<close>

definition get_loaded_rel :: "'s env \<Rightarrow> obj \<Rightarrow> rel \<Rightarrow> 's relations \<Rightarrow> ('s members option \<times> 's relations) option" where
  "get_loaded_rel E r rt w =
     (let targ = relArr_find (rel_list w r) rt
      in if targ = Some (One (db_null E)) then
           if obj_id w r > 0 then
             do { (complete, w) \<leftarrow> db_restore_complete E r w;
                  Some (if complete then relArr_find (rel_list w r) rt else None, w) }
           else Some (None, w)
         else Some (targ, w))"

definition get_ptr :: "'s env \<Rightarrow> obj \<Rightarrow> rel \<Rightarrow> 's relations \<Rightarrow> ('s members option \<times> 's relations) option" where
  "get_ptr E x rt w = (if offset (types E rt) \<noteq> 0 then Some (ptr_fields w x rt, w) else get_loaded_rel E x rt w)"

definition get_rel :: "'s env \<Rightarrow> obj \<Rightarrow> rel \<Rightarrow> 's relations \<Rightarrow> ('s members option \<times> 's relations) option" where
  "get_rel E x rt w = get_ptr E x rt w"

definition test_rel :: "'s nih_set \<Rightarrow> obj \<Rightarrow> obj \<Rightarrow> rel \<Rightarrow> 's relations \<Rightarrow> bool" where
  "test_rel S x m rt w = (case relArr_find (rel_list w x) rt of None \<Rightarrow> False | Some ms \<Rightarrow> incl S ms m)"

section \<open>Hooks\<close>

definition not_call_hook :: "rel \<Rightarrow> bool" where
  "not_call_hook rt = False"

definition run_hook :: "'s env \<Rightarrow> int \<Rightarrow> 's members \<Rightarrow> 's members \<Rightarrow> rel \<Rightarrow> 's relations \<Rightarrow> 's relations option" where
  "run_hook E type from to rt w = (case hook E rt of None \<Rightarrow> Some w | Some h \<Rightarrow> h type from to rt w)"

definition call_rel_hook :: "'s env \<Rightarrow> int \<Rightarrow> rel \<Rightarrow> rel \<Rightarrow> 's members \<Rightarrow> 's members \<Rightarrow> 's relations \<Rightarrow> 's relations option" where
  "call_rel_hook E type rt irt from to w =
     (if not_call_hook rt then Some w
      else do { w \<leftarrow> run_hook E type from to rt w;
                if irt \<noteq> 0 then run_hook E type to from irt w else Some w })"

section \<open>Removing one side\<close>

text \<open>The field is cleared whichever object it holds.\<close>

definition priv_rem_one_ptr :: "'s nih_set \<Rightarrow> obj \<Rightarrow> obj \<Rightarrow> rel \<Rightarrow> 's relations \<Rightarrow> 's relations" where
  "priv_rem_one_ptr S x m rt w =
     (case ptr_fields w x rt of
        None \<Rightarrow> w
      | Some (Many s) \<Rightarrow>
          (let s = set_remove S m s in put_field x rt (if set_size S s = 0 then None else Some (Many s)) w)
      | Some (One b) \<Rightarrow> put_field x rt None w)"

definition priv_rem_one_rel :: "'s nih_set \<Rightarrow> 's env \<Rightarrow> obj \<Rightarrow> obj \<Rightarrow> rel \<Rightarrow> 's relations \<Rightarrow> 's relations option" where
  "priv_rem_one_rel S E x m rt w =
     (if x = 0 \<or> rt = 0 \<or> m = 0 then None
      else if offset (types E rt) \<noteq> 0 then Some (priv_rem_one_ptr S x m rt w)
      else case relArr_index (rel_list w x) rt of
        None \<Rightarrow> Some w
      | Some i \<Rightarrow>
          (let m1 = members (rel_list w x ! i)
           in if \<not> incl S m1 m then Some w
              else case m1 of
                Many s \<Rightarrow>
                  (let s = set_remove S m s
                   in if set_size S s = 0 then Some (put_rels x (relArr_remove (int i) (rel_list w x)) w)
                      else Some (put_members x i (Many s) w))
              | One b \<Rightarrow> Some (put_rels x (relArr_remove (int i) (rel_list w x)) w)))"

section \<open>Adding one side\<close>

text \<open>With cardinality 1 the old link is removed at its other end, and replaced. A set in a relation
  of cardinality 1 would be taken for an object.\<close>

definition priv_add_one_ptr :: "'s nih_set \<Rightarrow> 's env \<Rightarrow> obj \<Rightarrow> obj \<Rightarrow> rel \<Rightarrow> 's relations \<Rightarrow> 's relations option" where
  "priv_add_one_ptr S E x m rt w =
     (case ptr_fields w x rt of
        None \<Rightarrow> Some (put_field x rt (Some (One m)) w)
      | Some mb \<Rightarrow>
          if cardinality (types E rt) = 1 then
            (case mb of
               Many s \<Rightarrow> None
             | One m1 \<Rightarrow>
                 if m1 \<noteq> m then
                   do { let irt = inverse_type (types E rt);
                        w \<leftarrow> call_rel_hook E (-1) rt irt (One x) (One m1) w;
                        w \<leftarrow> priv_rem_one_rel S E m1 x irt w;
                        Some (put_field x rt (Some (One m)) w) }
                 else Some w)
          else Some (put_field x rt (Some (Many (set_add S m (objSet_of S mb)))) w))"

definition priv_add_one_rel :: "'s nih_set \<Rightarrow> 's env \<Rightarrow> obj \<Rightarrow> obj \<Rightarrow> rel \<Rightarrow> 's relations \<Rightarrow> 's relations option" where
  "priv_add_one_rel S E x m rt w =
     (if x = 0 \<or> m = 0 \<or> rt = 0 then None
      else if offset (types E rt) \<noteq> 0 then priv_add_one_ptr S E x m rt w
      else case relArr_index (rel_list w x) rt of
        None \<Rightarrow> Some (put_rels x (relArr_append rt (One m) (rel_list w x)) w)
      | Some i \<Rightarrow>
          if cardinality (types E rt) = 1 then
            (case members (rel_list w x ! i) of
               Many s \<Rightarrow> None
             | One m1 \<Rightarrow>
                 if m1 \<noteq> m then
                   do { let irt = inverse_type (types E rt);
                        w \<leftarrow> call_rel_hook E (-1) rt irt (One x) (One m1) w;
                        w \<leftarrow> priv_rem_one_rel S E m1 x irt w;
                        case relArr_index (rel_list w x) rt of
                          None \<Rightarrow> Some (put_rels x (relArr_append rt (One m) (rel_list w x)) w)
                        | Some i \<Rightarrow> Some (put_members x i (One m) w) }
                 else Some w)
          else
            (let mb = members (rel_list w x ! i)
             in if incl S mb m then Some w
                else Some (put_members x i (Many (set_add S m (objSet_of S mb))) w)))"

section \<open>Both sides\<close>

definition put_rel :: "'s nih_set \<Rightarrow> 's env \<Rightarrow> obj \<Rightarrow> obj \<Rightarrow> rel \<Rightarrow> 's relations \<Rightarrow> 's relations option" where
  "put_rel S E x m rt w =
     do { let irt = inverse_type (types E rt);
          w \<leftarrow> priv_add_one_rel S E x m rt w;
          w \<leftarrow> (if irt \<noteq> 0 then priv_add_one_rel S E m x irt w else Some w);
          call_rel_hook E 1 rt irt (One x) (One m) w }"

text \<open>The macro, which ignores null pointers.\<close>

definition put_relation :: "'s nih_set \<Rightarrow> 's env \<Rightarrow> rel \<Rightarrow> obj \<Rightarrow> obj \<Rightarrow> 's relations \<Rightarrow> 's relations option" where
  "put_relation S E rt x m w = (if \<not> (x = 0 \<or> m = 0) then put_rel S E x m rt w else Some w)"

definition restore_rel :: "'s nih_set \<Rightarrow> 's env \<Rightarrow> obj \<Rightarrow> obj \<Rightarrow> rel \<Rightarrow> 's relations \<Rightarrow> 's relations option" where
  "restore_rel S E x m rt w =
     do { let irt = inverse_type (types E rt);
          w \<leftarrow> priv_add_one_rel S E x m rt w;
          w \<leftarrow> (if irt \<noteq> 0 then priv_add_one_rel S E m x irt w else Some w);
          call_rel_hook E 0 rt irt (One x) (One m) w }"

definition put_dbnull :: "'s nih_set \<Rightarrow> 's env \<Rightarrow> obj \<Rightarrow> rel \<Rightarrow> 's relations \<Rightarrow> 's relations option" where
  "put_dbnull S E x rt w = priv_add_one_rel S E x (db_null E) rt w"

definition rem_dbnull :: "'s nih_set \<Rightarrow> 's env \<Rightarrow> obj \<Rightarrow> rel \<Rightarrow> 's relations \<Rightarrow> 's relations option" where
  "rem_dbnull S E x rt w = priv_rem_one_rel S E x (db_null E) rt w"

definition rem_rel :: "'s nih_set \<Rightarrow> 's env \<Rightarrow> obj \<Rightarrow> obj \<Rightarrow> rel \<Rightarrow> 's relations \<Rightarrow> 's relations option" where
  "rem_rel S E x m rt w =
     (if rt = 0 \<or> m = 0 then None
      else do { let irt = inverse_type (types E rt);
                w \<leftarrow> (if obj_id w x > 0 then call_rel_hook E (-1) rt irt (One x) (One m) w else Some w);
                w \<leftarrow> priv_rem_one_rel S E x m rt w;
                if irt \<noteq> 0 then priv_rem_one_rel S E m x irt w else Some w })"

fun rem_rels_to :: "'s nih_set \<Rightarrow> 's env \<Rightarrow> obj \<Rightarrow> obj list \<Rightarrow> rel \<Rightarrow> 's relations \<Rightarrow> 's relations option" where
  "rem_rels_to S E x [] rt w = Some w"
| "rem_rels_to S E x (el # els) rt w = do { w \<leftarrow> rem_rel S E x el rt w; rem_rels_to S E x els rt w }"

definition rem_rel_type :: "'s nih_set \<Rightarrow> 's env \<Rightarrow> obj \<Rightarrow> rel \<Rightarrow> 's relations \<Rightarrow> 's relations option" where
  "rem_rel_type S E x rt w =
     (if rt = 0 then None
      else case get_raw_ptr E x rt w of
        None \<Rightarrow> Some w
      | Some m \<Rightarrow> rem_rels_to S E x (elems S m) rt w)"

definition rem_relation :: "'s nih_set \<Rightarrow> 's env \<Rightarrow> rel \<Rightarrow> obj \<Rightarrow> obj \<Rightarrow> 's relations \<Rightarrow> 's relations option" where
  "rem_relation S E rt x m w =
     (if x = 0 then Some w else if m \<noteq> 0 then rem_rel S E x m rt w else rem_rel_type S E x rt w)"

partial_function (option) rem_rel_all :: "'s nih_set \<Rightarrow> 's env \<Rightarrow> obj \<Rightarrow> 's relations \<Rightarrow> 's relations option" where
  "rem_rel_all S E x w =
     (if rel_list w x = [] then Some w
      else do { w \<leftarrow> rem_rel_type S E x (rel_type (hd (rel_list w x))) w; rem_rel_all S E x w })"

fun rem_rel_from :: "'s nih_set \<Rightarrow> 's env \<Rightarrow> obj \<Rightarrow> rel list \<Rightarrow> 's relations \<Rightarrow> 's relations option" where
  "rem_rel_from S E x [] w = Some w"
| "rem_rel_from S E x (rt # rts) w = do { w \<leftarrow> rem_rel_type S E x rt w; rem_rel_from S E x rts w }"

definition rem_pointers :: "'s nih_set \<Rightarrow> 's env \<Rightarrow> obj \<Rightarrow> 's relations \<Rightarrow> 's relations option" where
  "rem_pointers S E x w = (case class_rels E x of None \<Rightarrow> Some w | Some rts \<Rightarrow> rem_rel_from S E x rts w)"

section \<open>Hooks of all relations\<close>

definition get_next_rel :: "'s relation list \<Rightarrow> rel \<Rightarrow> 's relation option" where
  "get_next_rel rs rt =
     (let i = (case relArr_index rs rt of None \<Rightarrow> length rs | Some i \<Rightarrow> i)
      in if int i < int (length rs) - 1 then Some (rs ! (i + 1)) else None)"

fun hooks_to :: "'s env \<Rightarrow> int \<Rightarrow> rel \<Rightarrow> rel \<Rightarrow> obj \<Rightarrow> obj list \<Rightarrow> 's relations \<Rightarrow> 's relations option" where
  "hooks_to E fla rt irt x [] w = Some w"
| "hooks_to E fla rt irt x (el # els) w =
     do { w \<leftarrow> call_rel_hook E fla rt irt (One x) (One el) w; hooks_to E fla rt irt x els w }"

text \<open>The loop from the relation type \<open>rt\<close> on. With \<open>fla = 1\<close> the code iterates over the set itself and
  not over a copy; what a hook that changes that set does to the iteration is left out.\<close>

partial_function (option) hooks_from :: "'s nih_set \<Rightarrow> 's env \<Rightarrow> int \<Rightarrow> obj \<Rightarrow> rel \<Rightarrow> 's relations \<Rightarrow> 's relations option" where
  "hooks_from S E fla x rt w =
     do { let irt = inverse_type (types E rt);
          (m, w) \<leftarrow> get_ptr E x rt w;
          w \<leftarrow> (case m of
             None \<Rightarrow> Some w
           | Some m \<Rightarrow>
               if rt = 0 then Some w
               else if hook E rt = None \<and> irt = 0 then None
               else if hook E rt = None \<and> hook E irt = None then Some w
               else if \<not> hcs (types E rt) \<and> irt = 0 then None
               else if collectionp m \<and> \<not> (hcs (types E rt) \<or> hcs (types E irt)) then
                 hooks_to E fla rt irt x
                   (if fla = 1 \<and> rt = ref_smt_of_dd E then take 1 (elems S m) else elems S m) w
               else call_rel_hook E fla rt irt (One x) m w);
          case get_next_rel (rel_list w x) rt of
            None \<Rightarrow> Some w
          | Some rl \<Rightarrow> hooks_from S E fla x (rel_type rl) w }"

definition call_rel_hooks :: "'s nih_set \<Rightarrow> 's env \<Rightarrow> int \<Rightarrow> obj \<Rightarrow> 's relations \<Rightarrow> 's relations option" where
  "call_rel_hooks S E fla x w =
     (case rel_list w x of [] \<Rightarrow> Some w | r # _ \<Rightarrow> hooks_from S E fla x (rel_type r) w)"

section \<open>Propagation\<close>

text \<open>The elements that have no other owner.\<close>

fun sole_owned :: "'s nih_set \<Rightarrow> 's env \<Rightarrow> rel \<Rightarrow> obj list \<Rightarrow> 's relations \<Rightarrow> (obj list \<times> 's relations) option" where
  "sole_owned S E irt [] w = Some ([], w)"
| "sole_owned S E irt (el # els) w =
     do { (that, w) \<leftarrow> get_ptr E el irt w;
          m \<leftarrow> that;
          (rest, w) \<leftarrow> sole_owned S E irt els w;
          Some ((if members_size S m = 1 then el # rest else rest), w) }"

fun rel_propagate_from :: "nat \<Rightarrow> 's nih_set \<Rightarrow> 's env \<Rightarrow> int \<Rightarrow> obj \<Rightarrow> 's relations \<Rightarrow> (obj list \<times> 's relations) option" where
  "rel_propagate_from 0 S E flag x w = Some ([], w)"
| "rel_propagate_from (Suc i) S E flag x w =
     do { r \<leftarrow> relArr_at (rel_list w x) (int i);
          let rt = rel_type r;
          (found, w) \<leftarrow>
            (if flags (types E rt) AND flag \<noteq> 0 then
               if flag AND relationMode_D \<noteq> 0 then
                 if inverse_type (types E rt) = 0 then None
                 else if cardinality (types E (inverse_type (types E rt))) > 1 then
                   sole_owned S E (inverse_type (types E rt)) (elems S (members r)) w
                 else Some (elems S (members r), w)
               else Some (elems S (members r), w)
             else Some ([], w));
          (rest, w) \<leftarrow> rel_propagate_from i S E flag x w;
          Some (found @ rest, w) }"

definition rel_propagate :: "'s nih_set \<Rightarrow> 's env \<Rightarrow> int \<Rightarrow> obj \<Rightarrow> 's relations \<Rightarrow> (obj list \<times> 's relations) option" where
  "rel_propagate S E flag x w = rel_propagate_from (length (rel_list w x)) S E flag x w"

end
