(* ===== verification/Object_Deletion.thy ===== *)
theory Object_Deletion
  imports Relations
begin

text \<open>
  The deletion of objects (\<^verbatim>\<open>objOp.cxx\<close> of \<^verbatim>\<open>model_server/obj\<close>, and the destructors): the objects that
  an object owns are collected along the relations that propagate deletion, their neighbours are
  notified, and all of them are deleted, headers last. The identifier of an object is its state:
  positive for an object that exists, -3 when it waits for its deletion, -4 in the array \<^verbatim>\<open>pend\<close>, -5
  in the array \<^verbatim>\<open>proc\<close>, 0 and -1 during destruction, and -2 from then on. \<open>D\<close> has what is defined
  for each class elsewhere.
\<close>

record 's methods =
  destroy :: "obj \<Rightarrow> 's relations \<Rightarrow> 's relations option"
  notify :: "int \<Rightarrow> obj \<Rightarrow> obj \<Rightarrow> rel \<Rightarrow> 's relations \<Rightarrow> 's relations option"
  is_app :: "obj \<Rightarrow> bool"
  is_header_rel :: "rel \<Rightarrow> bool"
  is_objTree :: "obj \<Rightarrow> bool"
  tree_children :: "obj \<Rightarrow> obj list"
  get_header :: "obj \<Rightarrow> obj"
  obj_remove :: "obj \<Rightarrow> obj \<Rightarrow> 's relations \<Rightarrow> 's relations option"
  delete_node_views :: "obj \<Rightarrow> 's relations \<Rightarrow> 's relations option"

definition relationMode_USDC :: int where "relationMode_USDC = 58"

definition put_id :: "obj \<Rightarrow> int \<Rightarrow> 's relations \<Rightarrow> 's relations" where
  "put_id x new w = w\<lparr>obj_id := (obj_id w)(x := new)\<rparr>"

section \<open>Collecting\<close>

fun insert_if_not_there :: "obj list \<Rightarrow> obj list \<Rightarrow> 's relations \<Rightarrow> (obj list \<times> 's relations) option" where
  "insert_if_not_there [] arr w = Some (arr, w)"
| "insert_if_not_there (staff # objs) arr w =
     (let id = obj_id w staff
      in if id = -4 \<or> id = -5 then insert_if_not_there objs arr w
         else if \<not> (id = -3 \<or> id > 0) then None
         else insert_if_not_there objs (arr @ [staff]) (put_id staff (-4) w))"

text \<open>The virtual function \<^verbatim>\<open>propagate\<close>: nodes of trees add their children.\<close>

definition node_propagate :: "'s nih_set \<Rightarrow> 's env \<Rightarrow> 's methods \<Rightarrow> int \<Rightarrow> obj \<Rightarrow> 's relations \<Rightarrow> (obj list \<times> 's relations) option" where
  "node_propagate S E D flag x w =
     do { (arr, w) \<leftarrow> rel_propagate S E flag x w;
          Some (if is_objTree D x \<and> flag AND relationMode_USDC \<noteq> 0 then arr @ tree_children D x else arr, w) }"

fun insert_pointers :: "'s nih_set \<Rightarrow> 's env \<Rightarrow> obj \<Rightarrow> rel list \<Rightarrow> obj list \<Rightarrow> 's relations \<Rightarrow> (obj list \<times> 's relations) option" where
  "insert_pointers S E node [] pend w = Some (pend, w)"
| "insert_pointers S E node (rt # rts) pend w =
     do { (pend, w) \<leftarrow>
            (if flags (types E rt) AND relationMode_D \<noteq> 0 then
               case get_raw_ptr E node rt w of None \<Rightarrow> Some (pend, w) | Some els \<Rightarrow> insert_if_not_there (elems S els) pend w
             else Some (pend, w));
          insert_pointers S E node rts pend w }"

partial_function (option) collect :: "'s nih_set \<Rightarrow> 's env \<Rightarrow> 's methods \<Rightarrow> int \<Rightarrow> obj list \<Rightarrow> obj list \<Rightarrow> 's relations \<Rightarrow> (obj list \<times> 's relations) option" where
  "collect S E D flag pend proc w =
     (if pend = [] then Some (proc, w)
      else let node = last pend
           in do { (prop, w) \<leftarrow> node_propagate S E D flag node w;
                   (pend, w) \<leftarrow> insert_if_not_there prop (butlast pend) w;
                   (pend, w) \<leftarrow> (case class_rels E node of
                      None \<Rightarrow> Some (pend, w)
                    | Some rts \<Rightarrow> insert_pointers S E node rts pend w);
                   collect S E D flag pend (proc @ [node]) (put_id node (-5) w) })"

section \<open>Notification\<close>

fun notify_all :: "'s methods \<Rightarrow> int \<Rightarrow> obj \<Rightarrow> rel \<Rightarrow> obj list \<Rightarrow> 's relations \<Rightarrow> 's relations option" where
  "notify_all D flag node rt [] w = Some w"
| "notify_all D flag node rt (el # els) w =
     do { w \<leftarrow> (if obj_id w el \<ge> 0 then notify D flag node el rt w else Some w); notify_all D flag node rt els w }"

text \<open>The loop over the first \<^verbatim>\<open>sz\<close> entries of the array, which is read anew for each.\<close>

fun obj_notify_from :: "'s nih_set \<Rightarrow> 's env \<Rightarrow> 's methods \<Rightarrow> int \<Rightarrow> obj \<Rightarrow> nat list \<Rightarrow> 's relations \<Rightarrow> 's relations option" where
  "obj_notify_from S E D flag node [] w = Some w"
| "obj_notify_from S E D flag node (ii # iis) w =
     do { rel \<leftarrow> relArr_at (rel_list w node) (int ii);
          let rt = rel_type rel;
          w \<leftarrow> (if flags (types E rt) AND flag \<noteq> 0 then Some w
                else if is_header_rel D rt then Some w
                else notify_all D flag node rt (elems S (members rel)) w);
          obj_notify_from S E D flag node iis w }"

definition obj_notify :: "'s nih_set \<Rightarrow> 's env \<Rightarrow> 's methods \<Rightarrow> int \<Rightarrow> obj \<Rightarrow> 's relations \<Rightarrow> 's relations option" where
  "obj_notify S E D flag node w = obj_notify_from S E D flag node [0..<length (rel_list w node)] w"

section \<open>Destruction\<close>

text \<open>The destructors of the fields of fixed relations, of \<^verbatim>\<open>Relational\<close> and of \<^verbatim>\<open>Obj\<close>.\<close>

fun rem_ptr_fields :: "'s nih_set \<Rightarrow> 's env \<Rightarrow> obj \<Rightarrow> rel list \<Rightarrow> 's relations \<Rightarrow> 's relations option" where
  "rem_ptr_fields S E x [] w = Some w"
| "rem_ptr_fields S E x (rt # rts) w =
     do { w \<leftarrow> (if ptr_fields w x rt \<noteq> None then rem_rel_type S E x rt w else Some w); rem_ptr_fields S E x rts w }"

definition relational_destructor :: "'s nih_set \<Rightarrow> 's env \<Rightarrow> obj \<Rightarrow> 's relations \<Rightarrow> 's relations option" where
  "relational_destructor S E x w = do { w \<leftarrow> rem_rel_all S E x w; Some (put_id x (-1) w) }"

definition obj_destructor :: "obj \<Rightarrow> 's relations \<Rightarrow> 's relations option" where
  "obj_destructor x w = (if obj_id w x \<ge> -1 then Some (put_id x (-2) w) else None)"

definition delete_object :: "'s nih_set \<Rightarrow> 's env \<Rightarrow> 's methods \<Rightarrow> obj \<Rightarrow> 's relations \<Rightarrow> 's relations option" where
  "delete_object S E D x w =
     do { w \<leftarrow> destroy D x w;
          w \<leftarrow> rem_ptr_fields S E x (case class_rels E x of None \<Rightarrow> [] | Some rts \<Rightarrow> rts) w;
          w \<leftarrow> relational_destructor S E x w;
          obj_destructor x w }"

text \<open>The two loops over \<^verbatim>\<open>proc\<close> from its end: the first keeps the headers, the second deletes them.\<close>

fun delete_non_headers :: "'s nih_set \<Rightarrow> 's env \<Rightarrow> 's methods \<Rightarrow> bool \<Rightarrow> bool \<Rightarrow> obj list \<Rightarrow> 's relations \<Rightarrow> (obj list \<times> 's relations) option" where
  "delete_non_headers S E D other delete_flag [] w = Some ([], w)"
| "delete_non_headers S E D other delete_flag (node # nodes) w =
     do { w \<leftarrow> obj_notify S E D relationMode_D node w;
          w \<leftarrow> (if delete_flag then call_rel_hooks S E (-1) node w else Some w);
          let w = obj_remove_from_dispose other node w;
          if \<not> is_app D node then
            do { w \<leftarrow> delete_object S E D node (put_id node (if delete_flag then 0 else -1) w);
                 delete_non_headers S E D other delete_flag nodes w }
          else
            do { (headers, w) \<leftarrow> delete_non_headers S E D other delete_flag nodes w;
                 Some (node # headers, w) } }"

fun delete_headers :: "'s nih_set \<Rightarrow> 's env \<Rightarrow> 's methods \<Rightarrow> bool \<Rightarrow> obj list \<Rightarrow> 's relations \<Rightarrow> 's relations option" where
  "delete_headers S E D delete_flag [] w = Some w"
| "delete_headers S E D delete_flag (node # nodes) w =
     do { w \<leftarrow> delete_object S E D node (put_id node (if delete_flag then 0 else -1) w);
          delete_headers S E D delete_flag nodes w }"

definition obj_delete_or_unload :: "'s nih_set \<Rightarrow> 's env \<Rightarrow> 's methods \<Rightarrow> bool \<Rightarrow> obj list \<Rightarrow> bool \<Rightarrow> 's relations \<Rightarrow> 's relations option" where
  "obj_delete_or_unload S E D other root delete_flag w =
     do { (pend, w) \<leftarrow> insert_if_not_there root [] w;
          (proc, w) \<leftarrow> collect S E D (if delete_flag then relationMode_D else relationMode_UD) pend [] w;
          (headers, w) \<leftarrow> delete_non_headers S E D other delete_flag (rev proc) w;
          delete_headers S E D delete_flag headers w }"

definition obj_real_delete :: "'s nih_set \<Rightarrow> 's env \<Rightarrow> 's methods \<Rightarrow> bool \<Rightarrow> obj list \<Rightarrow> 's relations \<Rightarrow> 's relations option" where
  "obj_real_delete S E D other root w = obj_delete_or_unload S E D other root True w"

definition obj_unload :: "'s nih_set \<Rightarrow> 's env \<Rightarrow> 's methods \<Rightarrow> obj \<Rightarrow> 's relations \<Rightarrow> 's relations option" where
  "obj_unload S E D root w = do { w \<leftarrow> delete_node_views D root w; obj_delete_or_unload S E D True [root] False w }"

section \<open>Deletion in a transaction\<close>

text \<open>At the end of the outermost transaction the pending objects are deleted by \<^verbatim>\<open>obj_real_delete\<close>;
  they are in an array other than \<^verbatim>\<open>obj_to_dispose\<close>.\<close>

definition deleting :: "'s nih_set \<Rightarrow> 's env \<Rightarrow> 's methods \<Rightarrow> ('s, unit) relations_ext effects \<Rightarrow> ('s, unit) relations_ext effects" where
  "deleting S E D F = F\<lparr>real_delete := (\<lambda>obs w. obj_real_delete S E D True obs w)\<rparr>"

definition obj_delete :: "'s nih_set \<Rightarrow> 's env \<Rightarrow> 's methods \<Rightarrow> classes \<Rightarrow> ('s, unit) relations_ext effects \<Rightarrow> obj \<Rightarrow> 's relations \<Rightarrow> 's relations option" where
  "obj_delete S E D C F root w =
     (if \<not> (obj_id w root > 0 \<or> obj_id w root = -3) then Some w
      else do { w \<leftarrow> obj_transaction_start w;
                w \<leftarrow> (if is_ddElement C root \<or> is_projModule C root then obj_dispose C (deleting S E D F) root w
                      else if is_appTree C root \<and> get_header D root \<noteq> 0 then obj_remove D (get_header D root) root w
                      else obj_dispose C (deleting S E D F) root w);
                obj_transaction_end C (deleting S E D F) w })"

end
