(* ===== verification/Relation_Refinement.thy ===== *)
theory Relation_Refinement
  imports Relations Transaction_Memory
begin

text \<open>
  What the arrays and fields of relations stand for: for each object and type of relation the set of
  related objects. Each of the private operations changes one of these sets; the public ones keep
  both directions of a link together.
\<close>

section \<open>Links\<close>

definition links :: "'s nih_set \<Rightarrow> 's env \<Rightarrow> 's relations \<Rightarrow> obj \<Rightarrow> rel \<Rightarrow> obj set" where
  "links S E w x rt = (case get_raw_ptr E x rt w of None \<Rightarrow> {} | Some m \<Rightarrow> set (elems S m))"

definition upd :: "(obj \<Rightarrow> rel \<Rightarrow> obj set) \<Rightarrow> obj \<Rightarrow> rel \<Rightarrow> obj set \<Rightarrow> obj \<Rightarrow> rel \<Rightarrow> obj set" where
  "upd L x rt A = L(x := (L x)(rt := A))"

lemma upd_apply [simp]: "upd L x rt A y r = (if y = x \<and> r = rt then A else L y r)"
  by (simp add: upd_def)

definition members_ok :: "'s nih_set \<Rightarrow> 's env \<Rightarrow> rel \<Rightarrow> 's members \<Rightarrow> bool" where
  "members_ok S E rt m \<longleftrightarrow> elems S m \<noteq> [] \<and> 0 \<notin> set (elems S m) \<and> (cardinality (types E rt) = 1 \<longrightarrow> \<not> collectionp m)"

definition row_ok :: "'s nih_set \<Rightarrow> 's env \<Rightarrow> obj \<Rightarrow> 's relation list \<Rightarrow> bool" where
  "row_ok S E x rs \<longleftrightarrow> distinct (map rel_type rs) \<and>
     (\<forall>r \<in> set rs. x \<noteq> 0 \<and> rel_type r \<noteq> 0 \<and> offset (types E (rel_type r)) = 0 \<and> members_ok S E (rel_type r) (members r))"

definition rels_ok :: "'s nih_set \<Rightarrow> 's env \<Rightarrow> 's relations \<Rightarrow> bool" where
  "rels_ok S E w \<longleftrightarrow> (\<forall>x. row_ok S E x (rel_list w x)) \<and>
     (\<forall>x rt m. ptr_fields w x rt = Some m \<longrightarrow> x \<noteq> 0 \<and> rt \<noteq> 0 \<and> offset (types E rt) \<noteq> 0 \<and> members_ok S E rt m)"

definition types_ok :: "'s env \<Rightarrow> bool" where
  "types_ok E \<longleftrightarrow> (\<forall>rt. inverse_type (types E rt) \<noteq> 0 \<longrightarrow> inverse_type (types E (inverse_type (types E rt))) = rt)"

definition symmetric :: "'s nih_set \<Rightarrow> 's env \<Rightarrow> 's relations \<Rightarrow> bool" where
  "symmetric S E w \<longleftrightarrow> (\<forall>x y rt. inverse_type (types E rt) \<noteq> 0 \<longrightarrow>
     (y \<in> links S E w x rt \<longleftrightarrow> x \<in> links S E w y (inverse_type (types E rt))))"

text \<open>The rest of the state.\<close>

definition same :: "'s relations \<Rightarrow> 's relations \<Rightarrow> bool" where
  "same w w' \<longleftrightarrow> obj_id w' = obj_id w \<and> obj_to_dispose w' = obj_to_dispose w \<and> memory_part w' = memory_part w"

definition quiet :: "('s relations \<Rightarrow> 's relations option) \<Rightarrow> bool" where
  "quiet f \<longleftrightarrow> (\<forall>w. \<exists>w'. f w = Some w' \<and> same w w' \<and> rel_list w' = rel_list w \<and> ptr_fields w' = ptr_fields w)"

definition quiet_hooks :: "'s env \<Rightarrow> bool" where
  "quiet_hooks E \<longleftrightarrow> (\<forall>rt h t a b. hook E rt = Some h \<longrightarrow> quiet (h t a b rt))"

lemma same_refl [simp]: "same w w" by (simp add: same_def)

lemma same_trans: "same a b \<Longrightarrow> same b c \<Longrightarrow> same a c" by (simp add: same_def)

lemma same_put [simp]:
  "same (put_rels x rs w) w' = same w w'" "same w (put_rels x rs w') = same w w'"
  "same (put_field x rt m w) w' = same w w'" "same w (put_field x rt m w') = same w w'"
  "same (put_members x i ms w) w' = same w w'" "same w (put_members x i ms w') = same w w'"
  by (simp_all add: same_def put_rels_def put_field_def put_members_def memory_part_eq)

lemma links_cong: "rel_list w' = rel_list w \<Longrightarrow> ptr_fields w' = ptr_fields w \<Longrightarrow> links S E w' = links S E w"
  by (intro ext) (simp add: links_def get_raw_ptr_def)

lemma rels_ok_cong: "rel_list w' = rel_list w \<Longrightarrow> ptr_fields w' = ptr_fields w \<Longrightarrow> rels_ok S E w' = rels_ok S E w"
  by (simp add: rels_ok_def)

text \<open>A computation that returns, keeps the shape and the rest of the state, and makes the links \<open>L\<close>.\<close>

definition makes :: "'s nih_set \<Rightarrow> 's env \<Rightarrow> 's relations \<Rightarrow> 's relations option \<Rightarrow> (obj \<Rightarrow> rel \<Rightarrow> obj set) \<Rightarrow> bool" where
  "makes S E w c L \<longleftrightarrow> (\<exists>w'. c = Some w' \<and> rels_ok S E w' \<and> same w w' \<and> links S E w' = L)"

lemma makesE:
  assumes "makes S E w c L"
  obtains w' where "c = Some w'" "rels_ok S E w'" "same w w'" "links S E w' = L"
  using assms by (auto simp: makes_def)

lemma quiet_hook: "quiet_hooks E \<Longrightarrow> quiet (call_rel_hook E t rt irt a b)"
  unfolding quiet_def call_rel_hook_def not_call_hook_def
proof
  fix w
  assume "quiet_hooks E"
  then have run: "\<exists>w'. run_hook E t a b r w = Some w' \<and> same w w' \<and> rel_list w' = rel_list w \<and> ptr_fields w' = ptr_fields w" for r t a b w
    by (auto simp: run_hook_def quiet_hooks_def quiet_def split: option.splits)
  obtain w1 where 1: "run_hook E t a b rt w = Some w1" "same w w1" "rel_list w1 = rel_list w" "ptr_fields w1 = ptr_fields w" using run by blast
  obtain w2 where 2: "run_hook E t b a irt w1 = Some w2" "same w1 w2" "rel_list w2 = rel_list w1" "ptr_fields w2 = ptr_fields w1" using run by blast
  show "\<exists>w'. (if False then Some w else run_hook E t a b rt w \<bind> (\<lambda>w. if irt \<noteq> 0 then run_hook E t b a irt w else Some w)) = Some w' \<and>
      same w w' \<and> rel_list w' = rel_list w \<and> ptr_fields w' = ptr_fields w"
    using 1 2 same_trans by (cases "irt = 0") auto
qed

lemma quietE:
  assumes "quiet f"
  obtains w' where "f w = Some w'" "same w w'" "rel_list w' = rel_list w" "ptr_fields w' = ptr_fields w"
  using assms by (auto simp: quiet_def)

section \<open>Arrays\<close>

lemma relArr_index_None: "relArr_index rs rt = None \<longleftrightarrow> rt \<notin> rel_type ` set rs"
  by (induction rs) auto

lemma relArr_index_Some: "relArr_index rs rt = Some i \<Longrightarrow> i < length rs \<and> rel_type (rs ! i) = rt \<and> (\<forall>j < i. rel_type (rs ! j) \<noteq> rt)"
proof (induction rs arbitrary: i)
  case (Cons r rs)
  show ?case
  proof (cases "rel_type r = rt")
    case False
    then obtain k where "relArr_index rs rt = Some k" "i = Suc k" using Cons.prems by auto
    then show ?thesis using Cons.IH [of k] False by (auto simp: less_Suc_eq_0_disj)
  qed (use Cons.prems in auto)
qed simp

lemma relArr_find_index: "relArr_find rs rt = map_option (\<lambda>i. members (rs ! i)) (relArr_index rs rt)"
  by (induction rs) (auto simp: option.map_comp o_def)

lemma relArr_find_in: "distinct (map rel_type rs) \<Longrightarrow> r \<in> set rs \<Longrightarrow> relArr_find rs (rel_type r) = Some (members r)"
  by (induction rs) auto

lemma relArr_find_append: "relArr_find (rs @ [r]) rt = (case relArr_find rs rt of None \<Rightarrow> if rel_type r = rt then Some (members r) else None | m \<Rightarrow> m)"
  by (induction rs) (auto split: option.splits)

lemma relArr_find_update:
  "i < length rs \<Longrightarrow> distinct (map rel_type rs) \<Longrightarrow>
    relArr_find (rs[i := (rs ! i)\<lparr>members := m\<rparr>]) rt = (if rt = rel_type (rs ! i) then Some m else relArr_find rs rt)"
proof (induction rs arbitrary: i)
  case (Cons r rs)
  show ?case
  proof (cases i)
    case (Suc j)
    then have "rel_type (rs ! j) \<noteq> rel_type r" using Cons.prems by (auto simp: image_iff) (metis nth_mem)
    then show ?thesis using Cons Suc by auto
  qed auto
qed simp

lemma relArr_remove_eq: "i < length rs \<Longrightarrow> relArr_remove (int i) rs = take i rs @ drop (Suc i) rs"
  by (simp add: relArr_remove_def)

lemma relArr_find_remove:
  "i < length rs \<Longrightarrow> distinct (map rel_type rs) \<Longrightarrow>
    relArr_find (take i rs @ drop (Suc i) rs) rt = (if rt = rel_type (rs ! i) then None else relArr_find rs rt)"
proof (induction rs arbitrary: i)
  case (Cons r rs)
  show ?case
  proof (cases i)
    case 0
    have "relArr_find rs (rel_type r) = None" using Cons.prems by (simp add: relArr_find_index relArr_index_None)
    then show ?thesis using 0 by auto
  next
    case (Suc j)
    then have "rel_type (rs ! j) \<noteq> rel_type r" using Cons.prems by (auto simp: image_iff) (metis nth_mem)
    then show ?thesis using Cons Suc by auto
  qed
qed simp

lemma relArr_facts:
  assumes "rels_ok S E w"
  shows "distinct (map rel_type (rel_list w x))"
    "r \<in> set (rel_list w x) \<Longrightarrow> x \<noteq> 0 \<and> rel_type r \<noteq> 0 \<and> offset (types E (rel_type r)) = 0 \<and> members_ok S E (rel_type r) (members r)"
    "ptr_fields w x rt = Some m \<Longrightarrow> x \<noteq> 0 \<and> rt \<noteq> 0 \<and> offset (types E rt) \<noteq> 0 \<and> members_ok S E rt m"
  using assms by (auto simp: rels_ok_def row_ok_def)

lemma rels_ok_put_rels: "rels_ok S E w \<Longrightarrow> row_ok S E x rs \<Longrightarrow> rels_ok S E (put_rels x rs w)"
  by (simp add: rels_ok_def put_rels_def)

lemma distinct_remove: "distinct xs \<Longrightarrow> distinct (take i xs @ drop (Suc i) xs)"
  by (simp add: set_take_disj_set_drop_if_distinct)

section \<open>Changing one slot\<close>

text \<open>The four updates of the state and what they do to the links.\<close>

lemma put_rels_append:
  assumes w: "rels_ok S E w" and n: "relArr_index (rel_list w x) rt = None" and o: "offset (types E rt) = 0" "rt \<noteq> 0" "x \<noteq> 0"
    and m: "members_ok S E rt m"
  shows "makes S E w (Some (put_rels x (relArr_append rt m (rel_list w x)) w)) (upd (links S E w) x rt (set (elems S m)))"
proof -
  let ?w = "put_rels x (relArr_append rt m (rel_list w x)) w"
  have "relArr_find (rel_list w x) rt = None" using n by (simp add: relArr_find_index)
  then have "links S E ?w = upd (links S E w) x rt (set (elems S m))"
    using o by (intro ext) (auto simp: links_def get_raw_ptr_def put_rels_def relArr_append_def relArr_find_append split: option.splits)
  moreover have "rels_ok S E ?w"
    using relArr_facts [OF w] n o m by (intro rels_ok_put_rels [OF w]) (auto simp: row_ok_def relArr_append_def relArr_index_None)
  ultimately show ?thesis by (simp add: makes_def)
qed

lemma put_members_makes:
  assumes w: "rels_ok S E w" and i: "relArr_index (rel_list w x) rt = Some i" and m: "members_ok S E rt m"
  shows "makes S E w (Some (put_members x i m w)) (upd (links S E w) x rt (set (elems S m)))"
proof -
  note f = relArr_index_Some [OF i] relArr_facts [OF w]
  let ?rs = "(rel_list w x)[i := (rel_list w x ! i)\<lparr>members := m\<rparr>]"
  have "map rel_type ?rs = map rel_type (rel_list w x)" using f(1) by (simp add: map_update list_update_same_conv)
  moreover have "r \<in> set (rel_list w x) \<or> r = (rel_list w x ! i)\<lparr>members := m\<rparr>" if "r \<in> set ?rs" for r
    using that set_update_subset_insert [of "rel_list w x"] by fastforce
  moreover have "rel_list w x ! i \<in> set (rel_list w x)" using f(1) by simp
  ultimately have "row_ok S E x ?rs"
    unfolding row_ok_def using f m by (metis relation.select_convs relation.surjective relation.update_convs(2))
  then have "rels_ok S E (put_members x i m w)" unfolding put_members_def by (rule rels_ok_put_rels [OF w])
  moreover have "offset (types E rt) = 0" using f(1) f(3) [OF nth_mem [of i "rel_list w x"]] by auto
  then have "links S E (put_members x i m w) = upd (links S E w) x rt (set (elems S m))"
    using f relArr_find_update [of i "rel_list w x"]
    by (intro ext) (auto simp: links_def get_raw_ptr_def put_members_def put_rels_def)
  ultimately show ?thesis by (simp add: makes_def)
qed

lemma put_rels_remove:
  assumes w: "rels_ok S E w" and i: "relArr_index (rel_list w x) rt = Some i"
  shows "makes S E w (Some (put_rels x (relArr_remove (int i) (rel_list w x)) w)) (upd (links S E w) x rt {})"
proof -
  note f = relArr_index_Some [OF i] relArr_facts [OF w]
  let ?rs = "take i (rel_list w x) @ drop (Suc i) (rel_list w x)"
  have "set ?rs \<subseteq> set (rel_list w x)" by (auto dest: in_set_takeD in_set_dropD)
  then have "row_ok S E x ?rs"
    using f distinct_remove [of "map rel_type (rel_list w x)" i] by (auto simp: row_ok_def take_map drop_map)
  then have "rels_ok S E (put_rels x (relArr_remove (int i) (rel_list w x)) w)"
    using f by (simp add: relArr_remove_eq rels_ok_put_rels [OF w])
  moreover have "offset (types E rt) = 0" using f(1) f(3) [OF nth_mem [of i "rel_list w x"]] by auto
  then have "links S E (put_rels x (relArr_remove (int i) (rel_list w x)) w) = upd (links S E w) x rt {}"
    using f relArr_find_remove [of i "rel_list w x"]
    by (intro ext) (auto simp: links_def get_raw_ptr_def put_rels_def relArr_remove_eq)
  ultimately show ?thesis by (simp add: makes_def)
qed

lemma put_field_makes:
  assumes w: "rels_ok S E w" and o: "offset (types E rt) \<noteq> 0" "rt \<noteq> 0" "x \<noteq> 0" and m: "\<And>v. m = Some v \<Longrightarrow> members_ok S E rt v"
  shows "makes S E w (Some (put_field x rt m w)) (upd (links S E w) x rt (case m of None \<Rightarrow> {} | Some v \<Rightarrow> set (elems S v)))"
proof -
  have "rels_ok S E (put_field x rt m w)" using w o m by (auto simp: rels_ok_def put_field_def)
  moreover have "links S E (put_field x rt m w) = upd (links S E w) x rt (case m of None \<Rightarrow> {} | Some v \<Rightarrow> set (elems S v))"
    using o by (intro ext) (auto simp: links_def get_raw_ptr_def put_field_def)
  ultimately show ?thesis by (simp add: makes_def)
qed

section \<open>One side\<close>

lemma set_facts:
  assumes "set_laws S"
  shows "set (set_elems S (set_add S x s)) = insert x (set (set_elems S s))"
    "set (set_elems S (set_remove S x s)) = set (set_elems S s) - {x}"
    "set_includes S s x \<longleftrightarrow> x \<in> set (set_elems S s)" "set_size S s = length (set_elems S s)"
    "set_elems S (set_new S n) = []"
  using assms by (auto simp: set_laws_def)

lemma incl_elems: "set_laws S \<Longrightarrow> incl S m x \<longleftrightarrow> x \<in> set (elems S m)"
  by (cases m) (auto simp: set_facts)

lemma members_size_elems: "set_laws S \<Longrightarrow> members_size S m = card (set (elems S m))"
  by (cases m) (auto simp: set_laws_def distinct_card)

lemma objSet_of_elems: "set_laws S \<Longrightarrow> set (set_elems S (objSet_of S m)) = set (elems S m)"
  by (cases m) (auto simp: set_facts)

lemma elems_nonempty: "elems S m \<noteq> [] \<longleftrightarrow> set (elems S m) \<noteq> {}" by simp

lemma links_field: "offset (types E rt) \<noteq> 0 \<Longrightarrow> links S E w x rt = (case ptr_fields w x rt of None \<Rightarrow> {} | Some m \<Rightarrow> set (elems S m))"
  by (simp add: links_def get_raw_ptr_def)

lemma links_row: "offset (types E rt) = 0 \<Longrightarrow>
    links S E w x rt = (case relArr_index (rel_list w x) rt of None \<Rightarrow> {} | Some i \<Rightarrow> set (elems S (members (rel_list w x ! i))))"
  by (simp add: links_def get_raw_ptr_def relArr_find_index split: option.splits)

lemma row_members_ok: "rels_ok S E w \<Longrightarrow> relArr_index (rel_list w x) rt = Some i \<Longrightarrow> members_ok S E rt (members (rel_list w x ! i)) \<and> x \<noteq> 0 \<and> rt \<noteq> 0"
  using relArr_facts(2) [of S E w "rel_list w x ! i" x] relArr_index_Some [of "rel_list w x" rt i] by auto

lemma makes_eq: "makes S E w c L \<Longrightarrow> L = L' \<Longrightarrow> makes S E w c L'" by simp

lemma makes_trans: "same w w1 \<Longrightarrow> makes S E w1 c L \<Longrightarrow> makes S E w c L"
  by (auto simp: makes_def intro: same_trans)

lemma makes_same: "rels_ok S E w \<Longrightarrow> L = links S E w \<Longrightarrow> makes S E w (Some w) L"
  by (simp add: makes_def)

lemma links_members:
  assumes "rels_ok S E w" "y \<in> links S E w x rt"
  obtains m where "members_ok S E rt m" "y \<in> set (elems S m)" "links S E w x rt = set (elems S m)" "x \<noteq> 0" "rt \<noteq> 0"
  using assms relArr_facts(3) [OF assms(1), of x rt] row_members_ok [OF assms(1), of x rt]
  by (cases "offset (types E rt) = 0") (auto simp: links_field links_row split: option.splits)

lemma links_nonzero: "rels_ok S E w \<Longrightarrow> y \<in> links S E w x rt \<Longrightarrow> x \<noteq> 0 \<and> y \<noteq> 0 \<and> rt \<noteq> 0"
  using links_members [of S E w y x rt] unfolding members_ok_def by metis

lemma links_one:
  assumes "rels_ok S E w" "y \<in> links S E w x rt" "cardinality (types E rt) = 1"
  shows "links S E w x rt = {y}"
proof -
  obtain m where m: "members_ok S E rt m" "y \<in> set (elems S m)" "links S E w x rt = set (elems S m)"
    using links_members [OF assms(1,2)] by metis
  then show ?thesis using assms(3) by (cases m) (auto simp: members_ok_def)
qed

text \<open>Removal takes one object out, unless a field holds another object.\<close>

definition holds_only :: "'s relations \<Rightarrow> obj \<Rightarrow> obj \<Rightarrow> rel \<Rightarrow> bool" where
  "holds_only w x m rt \<longleftrightarrow> (\<forall>b. ptr_fields w x rt = Some (One b) \<longrightarrow> b = m)"

lemma holds_only_related: "rels_ok S E w \<Longrightarrow> m \<in> links S E w x rt \<Longrightarrow> holds_only w x m rt"
  using relArr_facts(3) [of S E w x rt] by (auto simp: holds_only_def links_field)

lemma rem_one_makes:
  assumes S: "set_laws S" and w: "rels_ok S E w" and nz: "x \<noteq> 0" "rt \<noteq> 0" "m \<noteq> 0" and h: "holds_only w x m rt"
  shows "makes S E w (priv_rem_one_rel S E x m rt w) (upd (links S E w) x rt (links S E w x rt - {m}))"
proof (cases "offset (types E rt) = 0")
  case False
  note p = put_field_makes [OF w False nz(2,1)]
  show ?thesis
  proof (cases "ptr_fields w x rt")
    case None
    then have "upd (links S E w) x rt (links S E w x rt - {m}) = links S E w" using False by (intro ext) (auto simp: links_field)
    then show ?thesis using None False nz w by (simp add: priv_rem_one_rel_def priv_rem_one_ptr_def makes_same)
  next
    case (Some v)
    show ?thesis
    proof (cases v)
      case (One b)
      then have e: "links S E w x rt - {m} = {}" using Some h False by (auto simp: links_field holds_only_def)
      have "priv_rem_one_rel S E x m rt w = Some (put_field x rt None w)"
        using Some One False nz by (simp add: priv_rem_one_rel_def priv_rem_one_ptr_def)
      then show ?thesis unfolding e using p [of None] by simp
    next
      case (Many s)
      let ?s = "set_remove S m s"
      have e: "links S E w x rt - {m} = set (set_elems S ?s)" using Some Many False by (simp add: links_field set_facts [OF S])
      have r: "priv_rem_one_rel S E x m rt w = Some (put_field x rt (if set_size S ?s = 0 then None else Some (Many ?s)) w)"
        using Some Many False nz by (simp add: priv_rem_one_rel_def priv_rem_one_ptr_def Let_def)
      have "members_ok S E rt v" using relArr_facts(3) [OF w Some] by simp
      then have ok: "members_ok S E rt (Many ?s)" if "set_size S ?s \<noteq> 0"
        using that Many by (auto simp: members_ok_def set_facts [OF S])
      show ?thesis
      proof (cases "set_size S ?s = 0")
        case True
        then have e': "links S E w x rt - {m} = {}" using e by (simp add: set_facts(4) [OF S])
        show ?thesis unfolding r e' using p [of None] True by simp
      next
        case False
        then show ?thesis unfolding r e using p [of "Some (Many ?s)"] ok by simp
      qed
    qed
  qed
next
  case True
  show ?thesis
  proof (cases "relArr_index (rel_list w x) rt")
    case None
    then have "upd (links S E w) x rt (links S E w x rt - {m}) = links S E w" using True by (intro ext) (auto simp: links_row)
    then show ?thesis using None True nz w by (simp add: priv_rem_one_rel_def makes_same)
  next
    case (Some i)
    let ?v = "members (rel_list w x ! i)"
    have L: "links S E w x rt = set (elems S ?v)" using Some True by (simp add: links_row)
    have v: "members_ok S E rt ?v" using row_members_ok [OF w Some] by simp
    show ?thesis
    proof (cases "m \<in> set (elems S ?v)")
      case False
      then have "upd (links S E w) x rt (links S E w x rt - {m}) = links S E w" using L by (intro ext) auto
      then show ?thesis using Some True nz w False incl_elems [OF S] by (simp add: priv_rem_one_rel_def makes_same)
    next
      case m: True
      show ?thesis
      proof (cases ?v)
        case (One b)
        then have e: "links S E w x rt - {m} = {}" using L m by simp
        then show ?thesis unfolding e using put_rels_remove [OF w Some] Some True nz m One incl_elems [OF S] by (simp add: priv_rem_one_rel_def)
      next
        case (Many s)
        let ?s = "set_remove S m s"
        have e: "links S E w x rt - {m} = set (set_elems S ?s)" using L Many by (simp add: set_facts [OF S])
        have ok: "members_ok S E rt (Many ?s)" if "set_size S ?s \<noteq> 0"
          using that v Many by (auto simp: members_ok_def set_facts [OF S])
        show ?thesis
        proof (cases "set_size S ?s = 0")
          case True
          then have e': "links S E w x rt - {m} = {}" using e by (simp add: set_facts(4) [OF S])
          have "priv_rem_one_rel S E x m rt w = Some (put_rels x (relArr_remove (int i) (rel_list w x)) w)"
            using True Some \<open>offset (types E rt) = 0\<close> nz m Many incl_elems [OF S] by (simp add: priv_rem_one_rel_def)
          then show ?thesis unfolding e' using put_rels_remove [OF w Some] by simp
        next
          case False
          then show ?thesis using put_members_makes [OF w Some ok] Some True nz m Many e incl_elems [OF S]
            by (simp add: priv_rem_one_rel_def)
        qed
      qed
    qed
  qed
qed

lemma rem_one_field:
  assumes "offset (types E rt) \<noteq> 0" "priv_rem_one_rel S E x m rt w = Some w'"
  shows "ptr_fields w' x rt \<noteq> Some (One b)"
  using assms
  by (auto simp: priv_rem_one_rel_def priv_rem_one_ptr_def put_field_def Let_def split: if_splits option.splits members.splits)

text \<open>Addition puts one object in. With cardinality 1 the other end of the old link loses it.\<close>

lemma put_one_makes:
  assumes w: "rels_ok S E w" and nz: "x \<noteq> 0" "rt \<noteq> 0" "m \<noteq> 0"
  shows "makes S E w (if offset (types E rt) \<noteq> 0 then Some (put_field x rt (Some (One m)) w)
      else case relArr_index (rel_list w x) rt of None \<Rightarrow> Some (put_rels x (relArr_append rt (One m) (rel_list w x)) w)
        | Some i \<Rightarrow> Some (put_members x i (One m) w)) (upd (links S E w) x rt {m})"
proof -
  have m: "members_ok S E rt (One m)" using nz by (simp add: members_ok_def)
  show ?thesis
    using put_field_makes [OF w _ nz(2,1), of "Some (One m)"] m put_members_makes [OF w _ m]
      put_rels_append [OF w _ _ nz(2,1) m] by (auto split: option.splits)
qed

lemma field_one:
  assumes "rels_ok S E w" "y \<in> links S E w x rt" "cardinality (types E rt) = 1" "offset (types E rt) \<noteq> 0"
  shows "ptr_fields w x rt = Some (One y)"
proof -
  obtain v where v: "ptr_fields w x rt = Some v" "y \<in> set (elems S v)" using assms(2,4) by (auto simp: links_field split: option.splits)
  then show ?thesis using relArr_facts(3) [OF assms(1) v(1)] assms(3) by (cases v) (auto simp: members_ok_def)
qed

lemma row_one:
  assumes "rels_ok S E w" "y \<in> links S E w x rt" "cardinality (types E rt) = 1" "offset (types E rt) = 0"
  shows "\<exists>i. relArr_index (rel_list w x) rt = Some i \<and> members (rel_list w x ! i) = One y"
proof -
  obtain i where i: "relArr_index (rel_list w x) rt = Some i" "y \<in> set (elems S (members (rel_list w x ! i)))"
    using assms(2,4) by (auto simp: links_row split: option.splits)
  then show ?thesis using row_members_ok [OF assms(1) i(1)] assms(3)
    by (cases "members (rel_list w x ! i)") (auto simp: members_ok_def)
qed

definition displace :: "'s env \<Rightarrow> (obj \<Rightarrow> rel \<Rightarrow> obj set) \<Rightarrow> obj \<Rightarrow> obj \<Rightarrow> rel \<Rightarrow> obj \<Rightarrow> rel \<Rightarrow> obj set" where
  "displace E L x m rt y r =
     (if r = inverse_type (types E rt) \<and> y \<in> L x rt \<and> y \<noteq> m then L y r - {x} else L y r)"

lemma swap_makes:
  assumes S: "set_laws S" and H: "quiet_hooks E" and w: "rels_ok S E w" and nz: "x \<noteq> 0" "rt \<noteq> 0" "m \<noteq> 0"
    and c: "cardinality (types E rt) = 1" and i: "inverse_type (types E rt) \<noteq> 0"
    and L: "links S E w x rt = {m1}" "m1 \<noteq> m" "x \<in> links S E w m1 (inverse_type (types E rt))"
  shows "makes S E w
     (do { w \<leftarrow> call_rel_hook E (-1) rt (inverse_type (types E rt)) (One x) (One m1) w;
           w \<leftarrow> priv_rem_one_rel S E m1 x (inverse_type (types E rt)) w;
           if offset (types E rt) \<noteq> 0 then Some (put_field x rt (Some (One m)) w)
           else case relArr_index (rel_list w x) rt of None \<Rightarrow> Some (put_rels x (relArr_append rt (One m) (rel_list w x)) w)
             | Some i \<Rightarrow> Some (put_members x i (One m) w) })
     (upd (displace E (links S E w) x m rt) x rt {m})"
proof -
  let ?irt = "inverse_type (types E rt)"
  obtain w1 where w1: "call_rel_hook E (-1) rt ?irt (One x) (One m1) w = Some w1" "same w w1" "rel_list w1 = rel_list w"
    "ptr_fields w1 = ptr_fields w"
    using quietE [OF quiet_hook [OF H]] by blast
  note e = links_cong [OF w1(3,4), of S E] rels_ok_cong [OF w1(3,4), of S E]
  have ok: "rels_ok S E w1" "holds_only w1 m1 x ?irt"
    using w e holds_only_related [OF w L(3)] w1(4) by (simp_all add: holds_only_def)
  have "m1 \<noteq> 0" using links_nonzero [OF w, of m1 x rt] L(1) by simp
  then obtain w2 where w2: "priv_rem_one_rel S E m1 x ?irt w1 = Some w2" "rels_ok S E w2" "same w1 w2"
    "links S E w2 = upd (links S E w1) m1 ?irt (links S E w1 m1 ?irt - {x})"
    using makesE [OF rem_one_makes [OF S ok(1) _ i nz(1) ok(2)]] by metis
  have "upd (links S E w2) x rt {m} = upd (displace E (links S E w) x m rt) x rt {m}"
    using L by (intro ext) (auto simp: w2(4) e displace_def)
  with put_one_makes [OF w2(2) nz] have "makes S E w2 (if offset (types E rt) \<noteq> 0 then Some (put_field x rt (Some (One m)) w2)
      else case relArr_index (rel_list w2 x) rt of None \<Rightarrow> Some (put_rels x (relArr_append rt (One m) (rel_list w2 x)) w2)
        | Some i \<Rightarrow> Some (put_members x i (One m) w2)) (upd (displace E (links S E w) x m rt) x rt {m})" by simp
  from makes_trans [OF same_trans [OF w1(2) w2(3)] this] show ?thesis by (simp add: w1(1) w2(1))
qed

definition add_links :: "'s env \<Rightarrow> (obj \<Rightarrow> rel \<Rightarrow> obj set) \<Rightarrow> obj \<Rightarrow> obj \<Rightarrow> rel \<Rightarrow> obj \<Rightarrow> rel \<Rightarrow> obj set" where
  "add_links E L x m rt =
     (if cardinality (types E rt) = 1 then upd (displace E L x m rt) x rt {m} else upd L x rt (insert m (L x rt)))"

lemma add_one_makes:
  assumes S: "set_laws S" and H: "quiet_hooks E" and w: "rels_ok S E w" and nz: "x \<noteq> 0" "m \<noteq> 0" "rt \<noteq> 0"
    and L: "\<And>y. cardinality (types E rt) = 1 \<Longrightarrow> y \<in> links S E w x rt \<Longrightarrow> y \<noteq> m \<Longrightarrow>
      inverse_type (types E rt) \<noteq> 0 \<and> x \<in> links S E w y (inverse_type (types E rt))"
  shows "makes S E w (priv_add_one_rel S E x m rt w) (add_links E (links S E w) x m rt)"
proof (cases "links S E w x rt = {}")
  case True
  have n: "ptr_fields w x rt = None" if "offset (types E rt) \<noteq> 0"
    using True that relArr_facts(3) [OF w, of x rt] by (auto simp: links_field members_ok_def split: option.splits)
  have n': "relArr_index (rel_list w x) rt = None" if "offset (types E rt) = 0"
    using True that row_members_ok [OF w, of x rt] by (auto simp: links_row members_ok_def split: option.splits)
  have "add_links E (links S E w) x m rt = upd (links S E w) x rt {m}"
    using True by (intro ext) (auto simp: add_links_def displace_def)
  then show ?thesis
    using put_one_makes [OF w nz(1,3,2)] n n' nz by (auto simp: priv_add_one_rel_def priv_add_one_ptr_def)
next
  case False
  then obtain y where y: "y \<in> links S E w x rt" by blast
  show ?thesis
  proof (cases "cardinality (types E rt) = 1")
    case c: True
    note one = links_one [OF w y c]
    show ?thesis
    proof (cases "y = m")
      case True
      then have "add_links E (links S E w) x m rt = links S E w" using one c by (intro ext) (auto simp: add_links_def displace_def)
      moreover have "priv_add_one_rel S E x m rt w = Some w"
        using field_one [OF w y c] row_one [OF w y c] c nz True by (cases "offset (types E rt) = 0")
          (auto simp: priv_add_one_rel_def priv_add_one_ptr_def)
      ultimately show ?thesis by (simp add: makes_same [OF w])
    next
      case n: False
      have "priv_add_one_rel S E x m rt w = do { w \<leftarrow> call_rel_hook E (-1) rt (inverse_type (types E rt)) (One x) (One y) w;
           w \<leftarrow> priv_rem_one_rel S E y x (inverse_type (types E rt)) w;
           if offset (types E rt) \<noteq> 0 then Some (put_field x rt (Some (One m)) w)
           else case relArr_index (rel_list w x) rt of None \<Rightarrow> Some (put_rels x (relArr_append rt (One m) (rel_list w x)) w)
             | Some i \<Rightarrow> Some (put_members x i (One m) w) }"
        using field_one [OF w y c] row_one [OF w y c] c nz n by (cases "offset (types E rt) = 0")
          (auto simp: priv_add_one_rel_def priv_add_one_ptr_def Let_def)
      then show ?thesis using swap_makes [OF S H w nz(1,3,2) c _ one n] L [OF c y n] by (simp add: add_links_def c)
    qed
  next
    case c: False
    have a: "add_links E (links S E w) x m rt = upd (links S E w) x rt (insert m (links S E w x rt))" by (simp add: add_links_def c)
    show ?thesis
    proof (cases "offset (types E rt) = 0")
      case o: False
      then obtain v where v: "ptr_fields w x rt = Some v" using y by (auto simp: links_field split: option.splits)
      let ?v = "Many (set_add S m (objSet_of S v))"
      have e: "set (elems S ?v) = insert m (links S E w x rt)" using v o by (simp add: set_facts [OF S] objSet_of_elems [OF S] links_field)
      then have "members_ok S E rt ?v"
        unfolding members_ok_def elems_nonempty using c nz links_nonzero [OF w] by auto
      then show ?thesis
        using put_field_makes [OF w o nz(3,1), of "Some ?v"] v o nz c e a by (simp add: priv_add_one_rel_def priv_add_one_ptr_def)
    next
      case o: True
      then obtain i where i: "relArr_index (rel_list w x) rt = Some i" using y by (auto simp: links_row split: option.splits)
      let ?m = "members (rel_list w x ! i)"
      let ?v = "Many (set_add S m (objSet_of S ?m))"
      have l: "set (elems S ?m) = links S E w x rt" using i o by (simp add: links_row)
      have e: "set (elems S ?v) = insert m (links S E w x rt)" using l by (simp add: set_facts [OF S] objSet_of_elems [OF S])
      then have ok: "members_ok S E rt ?v"
        unfolding members_ok_def elems_nonempty using c nz links_nonzero [OF w] by auto
      show ?thesis
      proof (cases "m \<in> links S E w x rt")
        case True
        then have "upd (links S E w) x rt (insert m (links S E w x rt)) = links S E w" by (intro ext) auto
        then show ?thesis using i o nz c True l incl_elems [OF S] by (simp add: a priv_add_one_rel_def makes_same [OF w])
      next
        case False
        then show ?thesis using put_members_makes [OF w i ok] i o nz c l e incl_elems [OF S] by (simp add: a priv_add_one_rel_def)
      qed
    qed
  qed
qed

section \<open>Both sides\<close>

text \<open>After \<open>put_rel\<close> the two objects are related; what they were related to is displaced where the
  cardinality is 1.\<close>

definition displaced :: "'s env \<Rightarrow> obj \<Rightarrow> obj \<Rightarrow> rel \<Rightarrow> obj \<Rightarrow> rel \<Rightarrow> obj \<Rightarrow> bool" where
  "displaced E x m rt y r z \<longleftrightarrow> cardinality (types E rt) = 1 \<and>
     (y = x \<and> r = rt \<and> z \<noteq> m \<or> z = x \<and> r = inverse_type (types E rt) \<and> y \<noteq> m)"

definition linked :: "'s env \<Rightarrow> obj \<Rightarrow> obj \<Rightarrow> rel \<Rightarrow> obj \<Rightarrow> rel \<Rightarrow> obj \<Rightarrow> bool" where
  "linked E x m rt y r z \<longleftrightarrow> y = x \<and> r = rt \<and> z = m \<or> y = m \<and> r = inverse_type (types E rt) \<and> z = x"

definition put_links :: "'s env \<Rightarrow> obj \<Rightarrow> obj \<Rightarrow> rel \<Rightarrow> (obj \<Rightarrow> rel \<Rightarrow> obj set) \<Rightarrow> obj \<Rightarrow> rel \<Rightarrow> obj set" where
  "put_links E x m rt L y r =
     {z. z \<in> L y r \<and> \<not> displaced E x m rt y r z \<and> \<not> displaced E m x (inverse_type (types E rt)) y r z \<or> linked E x m rt y r z}"

definition rem_links :: "'s env \<Rightarrow> obj \<Rightarrow> obj \<Rightarrow> rel \<Rightarrow> (obj \<Rightarrow> rel \<Rightarrow> obj set) \<Rightarrow> obj \<Rightarrow> rel \<Rightarrow> obj set" where
  "rem_links E x m rt L y r = {z. z \<in> L y r \<and> \<not> linked E x m rt y r z}"

lemma inv_inv: "types_ok E \<Longrightarrow> inverse_type (types E rt) \<noteq> 0 \<Longrightarrow> inverse_type (types E (inverse_type (types E rt))) = rt"
  by (simp add: types_ok_def)

lemma symmetricD: "symmetric S E w \<Longrightarrow> inverse_type (types E rt) \<noteq> 0 \<Longrightarrow> y \<in> links S E w x rt \<longleftrightarrow> x \<in> links S E w y (inverse_type (types E rt))"
  by (simp add: symmetric_def)

definition both_ways :: "'s env \<Rightarrow> (obj \<Rightarrow> rel \<Rightarrow> obj set) \<Rightarrow> bool" where
  "both_ways E L \<longleftrightarrow> (\<forall>x y rt. inverse_type (types E rt) \<noteq> 0 \<longrightarrow> (y \<in> L x rt \<longleftrightarrow> x \<in> L y (inverse_type (types E rt))))"

lemma symmetric_links: "symmetric S E w \<longleftrightarrow> both_ways E (links S E w)"
  by (simp add: symmetric_def both_ways_def)

lemma put_links_both_ways:
  assumes "types_ok E" "inverse_type (types E rt) \<noteq> 0" "rt \<noteq> 0" "both_ways E L"
  shows "both_ways E (put_links E x m rt L)"
proof -
  have i: "inverse_type (types E r) = rt \<longleftrightarrow> r = inverse_type (types E rt)" if "inverse_type (types E r) \<noteq> 0" for r
    using that assms(1-3) inv_inv [of E] by metis
  have j: "inverse_type (types E r) = inverse_type (types E rt) \<longleftrightarrow> r = rt" if "inverse_type (types E r) \<noteq> 0" for r
    using that assms(1-3) inv_inv [of E] by metis
  have k: "inverse_type (types E (inverse_type (types E rt))) = rt" using inv_inv assms(1,2) .
  show ?thesis
    unfolding both_ways_def
  proof (intro allI impI)
    fix y z r
    assume n: "inverse_type (types E r) \<noteq> 0"
    have "z \<in> L y r \<longleftrightarrow> y \<in> L z (inverse_type (types E r))" using assms(4) n by (simp add: both_ways_def)
    then show "z \<in> put_links E x m rt L y r \<longleftrightarrow> y \<in> put_links E x m rt L z (inverse_type (types E r))"
      using i [OF n] j [OF n] by (auto simp: put_links_def displaced_def linked_def k)
  qed
qed

lemma rem_links_both_ways:
  assumes "types_ok E" "inverse_type (types E rt) \<noteq> 0" "rt \<noteq> 0" "both_ways E L"
  shows "both_ways E (rem_links E x m rt L)"
proof -
  have i: "inverse_type (types E r) = rt \<longleftrightarrow> r = inverse_type (types E rt)" if "inverse_type (types E r) \<noteq> 0" for r
    using that assms(1-3) inv_inv [of E] by metis
  have j: "inverse_type (types E r) = inverse_type (types E rt) \<longleftrightarrow> r = rt" if "inverse_type (types E r) \<noteq> 0" for r
    using that assms(1-3) inv_inv [of E] by metis
  show ?thesis
    using assms(4) i j unfolding both_ways_def rem_links_def linked_def by (auto 4 3)
qed

lemma hook_makes: "quiet_hooks E \<Longrightarrow> rels_ok S E w \<Longrightarrow> makes S E w (call_rel_hook E t rt irt a b w) (links S E w)"
  using quietE [OF quiet_hook [of E t rt irt a b], of w] by (metis links_cong makes_def rels_ok_cong)

lemma makes_bind:
  assumes "makes S E w c L" "\<And>w'. rels_ok S E w' \<Longrightarrow> same w w' \<Longrightarrow> links S E w' = L \<Longrightarrow> makes S E w' (f w') L'"
  shows "makes S E w (c \<bind> f) L'"
  using assms(1)
proof (rule makesE)
  fix w'
  assume w': "c = Some w'" "rels_ok S E w'" "same w w'" "links S E w' = L"
  show ?thesis using makes_trans [OF w'(3) assms(2) [OF w'(2-4)]] w'(1) by simp
qed

lemma add_links_iff:
  assumes "\<And>y. x \<in> L y (inverse_type (types E rt)) \<Longrightarrow> y \<noteq> m \<Longrightarrow> y \<in> L x rt"
  shows "z \<in> add_links E L x m rt y r \<longleftrightarrow> y = x \<and> r = rt \<and> z = m \<or> z \<in> L y r \<and> \<not> displaced E x m rt y r z"
  using assms [of y] by (auto simp: add_links_def displace_def displaced_def)

lemma add_links_back:
  assumes T: "types_ok E" and i: "inverse_type (types E rt) \<noteq> 0" and L: "both_ways E L" and y: "y \<noteq> x"
  shows "m \<in> add_links E L x m rt y rt \<longleftrightarrow> y \<in> add_links E L x m rt m (inverse_type (types E rt))"
proof -
  have b: "b \<in> L a rt \<longleftrightarrow> a \<in> L b (inverse_type (types E rt))" for a b using L i by (simp add: both_ways_def)
  have iff: "z \<in> add_links E L x m rt c r \<longleftrightarrow> c = x \<and> r = rt \<and> z = m \<or> z \<in> L c r \<and> \<not> displaced E x m rt c r z" for z c r
    by (rule add_links_iff) (use b in blast)
  show ?thesis unfolding iff using b [of m y] y by (auto simp: displaced_def)
qed

lemma add_add_links:
  assumes T: "types_ok E" and i: "inverse_type (types E rt) \<noteq> 0" and L: "both_ways E L"
  shows "add_links E (add_links E L x m rt) m x (inverse_type (types E rt)) = put_links E x m rt L"
proof (intro ext set_eqI)
  fix y r z
  let ?irt = "inverse_type (types E rt)" and ?L = "add_links E L x m rt"
  have k: "inverse_type (types E ?irt) = rt" using inv_inv T i .
  have b: "b \<in> L a rt \<longleftrightarrow> a \<in> L b ?irt" for a b using L i by (simp add: both_ways_def)
  have "m \<in> ?L y (inverse_type (types E ?irt)) \<Longrightarrow> y \<noteq> x \<Longrightarrow> y \<in> ?L m ?irt" for y
    using add_links_back [OF T i L] by (simp add: k)
  then have iff2: "z \<in> add_links E ?L m x ?irt y r \<longleftrightarrow> y = m \<and> r = ?irt \<and> z = x \<or> z \<in> ?L y r \<and> \<not> displaced E m x ?irt y r z"
    by (rule add_links_iff)
  have iff: "z \<in> add_links E L x m rt c r \<longleftrightarrow> c = x \<and> r = rt \<and> z = m \<or> z \<in> L c r \<and> \<not> displaced E x m rt c r z" for z c r
    by (rule add_links_iff) (use b in blast)
  show "z \<in> add_links E ?L m x ?irt y r \<longleftrightarrow> z \<in> put_links E x m rt L y r"
    unfolding iff2 iff by (auto simp: put_links_def linked_def displaced_def k)
qed

lemma put_rel_makes:
  assumes S: "set_laws S" and H: "quiet_hooks E" and T: "types_ok E" and w: "rels_ok S E w" "symmetric S E w"
    and nz: "x \<noteq> 0" "m \<noteq> 0" "rt \<noteq> 0" and i: "inverse_type (types E rt) \<noteq> 0"
  shows "makes S E w (put_rel S E x m rt w) (put_links E x m rt (links S E w))"
proof -
  let ?irt = "inverse_type (types E rt)" and ?L = "links S E w"
  have k: "inverse_type (types E ?irt) = rt" using inv_inv T i .
  have b: "both_ways E ?L" using w(2) by (simp add: symmetric_links)
  have s: "b \<in> ?L a rt \<longleftrightarrow> a \<in> ?L b ?irt" for a b using symmetricD [OF w(2) i] .
  have 1: "makes S E w (priv_add_one_rel S E x m rt w) (add_links E ?L x m rt)"
    by (rule add_one_makes [OF S H w(1) nz]) (use s i in auto)
  have 2: "makes S E w' (priv_add_one_rel S E m x ?irt w') (put_links E x m rt ?L)"
    if "rels_ok S E w'" "links S E w' = add_links E ?L x m rt" for w'
  proof -
    have "inverse_type (types E ?irt) \<noteq> 0 \<and> m \<in> links S E w' y (inverse_type (types E ?irt))"
      if "y \<in> links S E w' m ?irt" "y \<noteq> x" for y
      using that nz k add_links_back [OF T i b that(2)] \<open>links S E w' = add_links E ?L x m rt\<close> by simp
    from add_one_makes [OF S H that(1) nz(2,1) i this] show ?thesis
      using add_add_links [OF T i b] that(2) by simp
  qed
  show ?thesis
    unfolding put_rel_def Let_def
  proof (rule makes_bind [OF 1])
    fix w' assume w': "rels_ok S E w'" "links S E w' = add_links E ?L x m rt"
    show "makes S E w' ((if ?irt \<noteq> 0 then priv_add_one_rel S E m x ?irt w' else Some w') \<bind> call_rel_hook E 1 rt ?irt (One x) (One m))
        (put_links E x m rt ?L)"
      unfolding if_P [OF i] by (rule makes_bind [OF 2 [OF w']]) (use hook_makes [OF H] in metis)
  qed
qed

lemma rem_rel_makes:
  assumes S: "set_laws S" and H: "quiet_hooks E" and T: "types_ok E" and w: "rels_ok S E w" "symmetric S E w"
    and nz: "x \<noteq> 0" "m \<noteq> 0" "rt \<noteq> 0" and i: "inverse_type (types E rt) \<noteq> 0"
    and h: "m \<in> links S E w x rt \<or> offset (types E rt) = 0 \<and> offset (types E (inverse_type (types E rt))) = 0"
  shows "makes S E w (rem_rel S E x m rt w) (rem_links E x m rt (links S E w))"
proof -
  let ?irt = "inverse_type (types E rt)" and ?L = "links S E w"
  have s: "b \<in> ?L a rt \<longleftrightarrow> a \<in> ?L b ?irt" for a b using symmetricD [OF w(2) i] .
  have e: "upd (upd ?L x rt (?L x rt - {m})) m ?irt (upd ?L x rt (?L x rt - {m}) m ?irt - {x}) = rem_links E x m rt ?L"
    by (intro ext) (auto simp: rem_links_def linked_def)
  have ho: "holds_only w' a b r" if "rels_ok S E w'" "b \<in> links S E w' a r \<or> offset (types E r) = 0" for w' a b r
  proof (cases "offset (types E r) = 0")
    case True
    then show ?thesis using relArr_facts(3) [OF that(1), of a r] by (auto simp: holds_only_def)
  next
    case False
    then show ?thesis using that(2) holds_only_related [OF that(1)] by simp
  qed
  have zero: "\<not> (rt = 0 \<or> m = 0)" using nz by simp
  have 1: "makes S E w (if obj_id w x > 0 then call_rel_hook E (-1) rt ?irt (One x) (One m) w else Some w) ?L"
    using hook_makes [OF H w(1)] makes_same [OF w(1)] by simp
  have 2: "makes S E w' (priv_rem_one_rel S E x m rt w') (upd ?L x rt (?L x rt - {m}))"
    if "rels_ok S E w'" "links S E w' = ?L" for w'
    using rem_one_makes [OF S that(1) nz(1,3,2) ho [OF that(1)]] h that(2) by auto
  have 3: "makes S E w' (priv_rem_one_rel S E m x ?irt w') (rem_links E x m rt ?L)"
    if w': "rels_ok S E w'" "links S E w' = upd ?L x rt (?L x rt - {m})" "holds_only w' m x ?irt" for w'
    using rem_one_makes [OF S w'(1) nz(2) i nz(1) w'(3)] e by (simp only: w'(2))
  have 4: "makes S E w' (priv_rem_one_rel S E x m rt w' \<bind> (\<lambda>w. if ?irt \<noteq> 0 then priv_rem_one_rel S E m x ?irt w else Some w))
      (rem_links E x m rt ?L)" if w': "rels_ok S E w'" "links S E w' = ?L" for w'
  proof -
    obtain w2 where w2: "priv_rem_one_rel S E x m rt w' = Some w2" "rels_ok S E w2" "same w' w2" "links S E w2 = upd ?L x rt (?L x rt - {m})"
      using makesE [OF 2 [OF w']] by metis
    have "holds_only w2 m x ?irt"
    proof (cases "m = x \<and> ?irt = rt \<and> offset (types E rt) \<noteq> 0")
      case True
      then show ?thesis using rem_one_field [OF _ w2(1)] by (simp add: holds_only_def)
    next
      case False
      from h have "x \<in> ?L m ?irt \<or> offset (types E ?irt) = 0"
      proof
        assume "m \<in> ?L x rt"
        then show ?thesis by (simp only: s simp_thms)
      qed simp
      then have "x \<in> links S E w2 m ?irt \<or> offset (types E ?irt) = 0" unfolding w2(4) upd_apply using False by (metis (full_types))
      then show ?thesis by (rule ho [OF w2(2)])
    qed
    from makes_trans [OF w2(3) 3 [OF w2(2,4) this]] show ?thesis using w2(1) i by simp
  qed
  show ?thesis
    unfolding rem_rel_def Let_def if_not_P [OF zero] by (rule makes_bind [OF 1]) (rule 4)
qed

end
