(* ===== verification/Relation_Properties.thy ===== *)
theory Relation_Properties
  imports Relation_Refinement
begin

text \<open>
  What the relations promise: links go both ways and are added and removed at both ends, and an
  object can be cut off from all others. The promises end where a fixed relation is asked to remove a
  link that does not exist, and where a relation has no inverse.
\<close>

section \<open>Removing many links\<close>

definition cut :: "'s env \<Rightarrow> obj \<Rightarrow> rel set \<Rightarrow> (obj \<Rightarrow> rel \<Rightarrow> obj set) \<Rightarrow> obj \<Rightarrow> rel \<Rightarrow> obj set" where
  "cut E x R L y r = {z. z \<in> L y r \<and> \<not> (y = x \<and> r \<in> R) \<and> \<not> (z = x \<and> r \<in> (\<lambda>rt. inverse_type (types E rt)) ` R)}"

lemma cut_cut: "cut E x R (cut E x Q L) = cut E x (Q \<union> R) L"
  by (intro ext) (auto simp: cut_def)

lemma inverse_image:
  assumes "types_ok E" "inverse_type (types E r) \<noteq> 0" "r \<noteq> 0"
  shows "r \<in> (\<lambda>rt. inverse_type (types E rt)) ` R \<longleftrightarrow> inverse_type (types E r) \<in> R"
proof
  assume "r \<in> (\<lambda>rt. inverse_type (types E rt)) ` R"
  then obtain q where "q \<in> R" "r = inverse_type (types E q)" by auto
  then show "inverse_type (types E r) \<in> R" using inv_inv [OF assms(1), of q] assms(3) by simp
next
  assume "inverse_type (types E r) \<in> R"
  then show "r \<in> (\<lambda>rt. inverse_type (types E rt)) ` R" using inv_inv [OF assms(1,2)] by (metis image_eqI)
qed

lemma cut_both_ways:
  assumes "types_ok E" "both_ways E L" "\<And>y z r. z \<in> L y r \<Longrightarrow> r \<noteq> 0"
  shows "both_ways E (cut E x R L)"
  unfolding both_ways_def
proof (intro allI impI)
  fix y z r
  assume n: "inverse_type (types E r) \<noteq> 0"
  have b: "z \<in> L y r \<longleftrightarrow> y \<in> L z (inverse_type (types E r))" using assms(2) n by (simp add: both_ways_def)
  have k: "inverse_type (types E (inverse_type (types E r))) = r" using inv_inv [OF assms(1) n] .
  note i = inverse_image [OF assms(1) n]
  have j: "inverse_type (types E r) \<in> (\<lambda>rt. inverse_type (types E rt)) ` R \<longleftrightarrow> r \<in> R"
  proof
    assume "inverse_type (types E r) \<in> (\<lambda>rt. inverse_type (types E rt)) ` R"
    then obtain q where "q \<in> R" "inverse_type (types E r) = inverse_type (types E q)" by auto
    then show "r \<in> R" using inv_inv [OF assms(1), of q] k n by metis
  qed simp
  show "z \<in> cut E x R L y r \<longleftrightarrow> y \<in> cut E x R L z (inverse_type (types E r))"
    using b i j assms(3) [of z y r] by (auto simp: cut_def)
qed

lemma rem_related_makes:
  assumes S: "set_laws S" and H: "quiet_hooks E" and T: "types_ok E" and w: "rels_ok S E w" "symmetric S E w"
    and m: "m \<in> links S E w x rt"
  shows "makes S E w (rem_rel S E x m rt w) (rem_links E x m rt (links S E w))"
proof (cases "inverse_type (types E rt) = 0")
  case False
  then show ?thesis using rem_rel_makes [OF S H T w _ _ _ False] m links_nonzero [OF w(1) m] by simp
next
  case True
  have nz: "x \<noteq> 0" "m \<noteq> 0" "rt \<noteq> 0" using links_nonzero [OF w(1) m] by simp_all
  have z: "\<not> (rt = 0 \<or> m = 0)" using nz by simp
  have "links S E w y 0 = {}" for y using links_nonzero [OF w(1), of _ y 0] by blast
  then have e: "upd (links S E w) x rt (links S E w x rt - {m}) = rem_links E x m rt (links S E w)"
    using True nz by (intro ext) (auto simp: rem_links_def linked_def)
  have 1: "makes S E w (if obj_id w x > 0 then call_rel_hook E (-1) rt (inverse_type (types E rt)) (One x) (One m) w else Some w)
      (links S E w)"
    using hook_makes [OF H w(1)] makes_same [OF w(1)] by simp
  show ?thesis
    unfolding rem_rel_def Let_def if_not_P [OF z]
  proof (rule makes_bind [OF 1])
    fix w' assume w': "rels_ok S E w'" "links S E w' = links S E w"
    have "holds_only w' x m rt" using holds_only_related [OF w'(1)] w'(2) m by simp
    from rem_one_makes [OF S w'(1) nz(1,3,2) this]
    show "makes S E w' (priv_rem_one_rel S E x m rt w' \<bind> (\<lambda>w. if inverse_type (types E rt) \<noteq> 0
        then priv_rem_one_rel S E m x (inverse_type (types E rt)) w else Some w)) (rem_links E x m rt (links S E w))"
      by (simp add: True w'(2) e)
  qed
qed

lemma rem_links_symmetric:
  assumes T: "types_ok E" and w: "rels_ok S E w" "symmetric S E w" and m: "m \<in> links S E w x rt"
    and e: "links S E w' = rem_links E x m rt (links S E w)" "rels_ok S E w'"
  shows "symmetric S E w'"
proof (cases "inverse_type (types E rt) = 0")
  case False
  then show ?thesis
    using rem_links_both_ways [OF T False _ w(2) [unfolded symmetric_links]] links_nonzero [OF w(1) m] e by (simp add: symmetric_links)
next
  case True
  have "links S E w y 0 = {}" for y using links_nonzero [OF w(1), of _ y 0] by blast
  then have "rem_links E x m rt (links S E w) y r = {z. z \<in> links S E w y r \<and> \<not> (y = x \<and> r = rt \<and> z = m)}" for y r
    unfolding rem_links_def linked_def True by (intro Collect_cong) (cases "r = 0", simp_all)
  then have same: "links S E w' y r = links S E w y r" if "r \<noteq> rt" for y r using that by (simp add: e)
  show ?thesis
    unfolding symmetric_def
  proof (intro allI impI)
    fix y z r
    assume n: "inverse_type (types E r) \<noteq> 0"
    have r: "r \<noteq> rt" using n True by auto
    show "z \<in> links S E w' y r \<longleftrightarrow> y \<in> links S E w' z (inverse_type (types E r))"
    proof (cases "r = 0")
      case True
      have "z \<notin> links S E w y r" using True links_nonzero [OF w(1), of z y r] by auto
      then show ?thesis using symmetricD [OF w(2) n, of z y] same [OF r] e(1) by (simp add: rem_links_def)
    next
      case False
      then have "inverse_type (types E r) \<noteq> rt" using inv_inv [OF T n] True by auto
      then show ?thesis using symmetricD [OF w(2) n, of z y] same r by simp
    qed
  qed
qed

lemma rem_rels_to_makes:
  assumes S: "set_laws S" and H: "quiet_hooks E" and T: "types_ok E"
  shows "rels_ok S E w \<Longrightarrow> symmetric S E w \<Longrightarrow> distinct els \<Longrightarrow> set els \<subseteq> links S E w x rt \<Longrightarrow>
    makes S E w (rem_rels_to S E x els rt w) (\<lambda>y r. {z. z \<in> links S E w y r \<and> \<not> (\<exists>el \<in> set els. linked E x el rt y r z)})"
proof (induction els arbitrary: w)
  case Nil
  then show ?case by (auto simp: makes_same)
next
  case (Cons el els)
  have m: "el \<in> links S E w x rt" using Cons.prems by simp
  show ?case
    unfolding rem_rels_to.simps
  proof (rule makes_bind [OF rem_related_makes [OF S H T Cons.prems(1,2) m]])
    fix w' assume w': "rels_ok S E w'" "links S E w' = rem_links E x el rt (links S E w)"
    have "symmetric S E w'" by (rule rem_links_symmetric [OF T Cons.prems(1,2) m w'(2,1)])
    moreover have "set els \<subseteq> links S E w' x rt"
      using Cons.prems(3,4) by (auto simp: w'(2) rem_links_def linked_def)
    ultimately show "makes S E w' (rem_rels_to S E x els rt w')
        (\<lambda>y r. {z. z \<in> links S E w y r \<and> \<not> (\<exists>e \<in> set (el # els). linked E x e rt y r z)})"
      using Cons.IH [OF w'(1)] Cons.prems(3) by (auto elim!: makes_eq simp: w'(2) rem_links_def)
  qed
qed

lemma rem_rel_type_makes:
  assumes S: "set_laws S" and H: "quiet_hooks E" and T: "types_ok E" and w: "rels_ok S E w" "symmetric S E w" and rt: "rt \<noteq> 0"
  shows "makes S E w (rem_rel_type S E x rt w) (cut E x {rt} (links S E w))"
proof (cases "get_raw_ptr E x rt w")
  case None
  then have n: "links S E w x rt = {}" by (simp add: links_def)
  have "x \<notin> links S E w y (inverse_type (types E rt))" for y
    using symmetricD [OF w(2), of rt y x] n links_nonzero [OF w(1), of x y "inverse_type (types E rt)"] by auto
  then have "cut E x {rt} (links S E w) = links S E w" using n by (intro ext) (auto simp: cut_def)
  then show ?thesis using None rt makes_same [OF w(1)] by (simp add: rem_rel_type_def)
next
  case (Some v)
  have e: "set (elems S v) = links S E w x rt" "distinct (elems S v)"
    using Some S by (cases v; simp add: links_def set_laws_def)+
  have "(\<lambda>y r. {z. z \<in> links S E w y r \<and> \<not> (\<exists>el \<in> set (elems S v). linked E x el rt y r z)}) = cut E x {rt} (links S E w)"
  proof (intro ext set_eqI)
    fix y r z
    have "y \<in> links S E w x rt" if "x \<in> links S E w y (inverse_type (types E rt))"
      using that symmetricD [OF w(2), of rt y x] links_nonzero [OF w(1) that] by simp
    then show "z \<in> {z. z \<in> links S E w y r \<and> \<not> (\<exists>el \<in> set (elems S v). linked E x el rt y r z)} \<longleftrightarrow> z \<in> cut E x {rt} (links S E w) y r"
      unfolding e by (auto simp: cut_def linked_def)
  qed
  moreover have "rem_rel_type S E x rt w = rem_rels_to S E x (elems S v) rt w" using Some rt by (simp add: rem_rel_type_def)
  ultimately show ?thesis
    using rem_rels_to_makes [OF S H T w e(2), of x rt] e(1) by simp
qed

lemma cut_symmetric:
  assumes "types_ok E" "rels_ok S E w" "symmetric S E w" "links S E w' = cut E x R (links S E w)"
  shows "symmetric S E w'"
  using cut_both_ways [OF assms(1) assms(3) [unfolded symmetric_links]] links_nonzero [OF assms(2)] assms(4)
  unfolding symmetric_links by metis

section \<open>Removing all links\<close>

lemma rel_list_types:
  assumes "rels_ok S E w"
  shows "set (map rel_type (rel_list w x)) = {r. offset (types E r) = 0 \<and> links S E w x r \<noteq> {}}"
proof (intro set_eqI iffI)
  fix r
  assume "r \<in> set (map rel_type (rel_list w x))"
  then obtain e where e: "e \<in> set (rel_list w x)" "rel_type e = r" by auto
  then have "relArr_find (rel_list w x) r = Some (members e)" using relArr_find_in relArr_facts(1) [OF assms] by metis
  then show "r \<in> {r. offset (types E r) = 0 \<and> links S E w x r \<noteq> {}}"
    using relArr_facts(2) [OF assms e(1)] e(2) by (auto simp: links_def get_raw_ptr_def members_ok_def)
next
  fix r
  assume "r \<in> {r. offset (types E r) = 0 \<and> links S E w x r \<noteq> {}}"
  then show "r \<in> set (map rel_type (rel_list w x))"
    by (auto simp: links_row relArr_index_None split: option.splits dest: relArr_index_Some)
      (metis imageI nth_mem relArr_index_Some)
qed

lemma rem_rel_all_makes:
  assumes S: "set_laws S" and H: "quiet_hooks E" and T: "types_ok E"
  shows "rels_ok S E w \<Longrightarrow> symmetric S E w \<Longrightarrow>
    makes S E w (rem_rel_all S E x w) (cut E x {r. offset (types E r) = 0} (links S E w))"
proof (induction "length (rel_list w x)" arbitrary: w rule: less_induct)
  case less
  note types = rel_list_types [OF less.prems(1), of x]
  show ?case
  proof (cases "rel_list w x")
    case Nil
    then have "{r. offset (types E r) = 0 \<and> links S E w x r \<noteq> {}} = {}" using types by simp
    then have n: "links S E w x r = {}" if "offset (types E r) = 0" for r using that by blast
    have "x \<notin> links S E w y (inverse_type (types E r))" if "offset (types E r) = 0" for r y
      using symmetricD [OF less.prems(2), of r y x] n [OF that] links_nonzero [OF less.prems(1), of x y "inverse_type (types E r)"] by auto
    then have "cut E x {r. offset (types E r) = 0} (links S E w) = links S E w" using n by (intro ext) (auto simp: cut_def)
    then show ?thesis using Nil makes_same [OF less.prems(1)] by (simp add: rem_rel_all.simps)
  next
    case (Cons e rs)
    let ?rt = "rel_type e"
    have rt: "?rt \<noteq> 0" "offset (types E ?rt) = 0" using relArr_facts(2) [OF less.prems(1), of e x] Cons by simp_all
    have "makes S E w (rem_rel_type S E x ?rt w \<bind> rem_rel_all S E x) (cut E x {r. offset (types E r) = 0} (links S E w))"
    proof (rule makes_bind [OF rem_rel_type_makes [OF S H T less.prems rt(1)]])
      fix w' assume w': "rels_ok S E w'" "links S E w' = cut E x {?rt} (links S E w)"
      have "set (map rel_type (rel_list w' x)) \<subseteq> set (map rel_type (rel_list w x)) - {?rt}"
        unfolding types rel_list_types [OF w'(1)] by (auto simp: w'(2) cut_def)
      then have "set (map rel_type (rel_list w' x)) \<subset> set (map rel_type (rel_list w x))" using Cons by auto
      then have "card (set (map rel_type (rel_list w' x))) < card (set (map rel_type (rel_list w x)))" by (rule psubset_card_mono [OF finite_set])
      then have l: "length (rel_list w' x) < length (rel_list w x)"
        unfolding distinct_card [OF relArr_facts(1) [OF w'(1)]] distinct_card [OF relArr_facts(1) [OF less.prems(1)]] by simp
      have "symmetric S E w'" by (rule cut_symmetric [OF T less.prems w'(2)])
      from less.hyps [OF l w'(1) this]
      show "makes S E w' (rem_rel_all S E x w') (cut E x {r. offset (types E r) = 0} (links S E w))"
        using rt(2) by (simp add: w'(2) cut_cut insert_absorb)
    qed
    then show ?thesis using Cons by (subst rem_rel_all.simps) simp
  qed
qed

end
