(* ===== verification/Deletion_Closure.thy ===== *)
theory Deletion_Closure
  imports Object_Deletion Relation_Properties
begin

text \<open>
  What is collected for deletion: the objects that can be reached from the given ones by the
  relations that propagate it. Reading the relations changes nothing as long as no link is
  still in the database.
\<close>

section \<open>Quiet steps\<close>

definition keeps :: "'s relations \<Rightarrow> 's relations option \<Rightarrow> bool" where
  "keeps w c \<longleftrightarrow> (\<exists>w'. c = Some w' \<and> same w w' \<and> rel_list w' = rel_list w \<and> ptr_fields w' = ptr_fields w)"

lemma quiet_keeps: "quiet f \<longleftrightarrow> (\<forall>w. keeps w (f w))" by (simp add: quiet_def keeps_def)

lemma keeps_Some [simp]: "keeps w (Some w)" by (simp add: keeps_def)

lemma keeps_bind:
  assumes "keeps w c" "\<And>w'. same w w' \<Longrightarrow> rel_list w' = rel_list w \<Longrightarrow> ptr_fields w' = ptr_fields w \<Longrightarrow> keeps w' (f w')"
  shows "keeps w (c \<bind> f)"
proof -
  obtain w1 where 1: "c = Some w1" "same w w1" "rel_list w1 = rel_list w" "ptr_fields w1 = ptr_fields w"
    using assms(1) by (auto simp: keeps_def)
  then show ?thesis using assms(2) [OF 1(2-4)] by (auto simp: keeps_def intro: same_trans)
qed

lemma keeps_makes: "keeps w c \<Longrightarrow> rels_ok S E w \<Longrightarrow> makes S E w c (links S E w)"
  unfolding keeps_def makes_def using links_cong rels_ok_cong by metis

section \<open>Reading\<close>

definition loaded :: "'s nih_set \<Rightarrow> 's env \<Rightarrow> 's relations \<Rightarrow> bool" where
  "loaded S E w \<longleftrightarrow> (\<forall>x rt. db_null E \<notin> links S E w x rt)"

definition two_way :: "'s env \<Rightarrow> bool" where
  "two_way E \<longleftrightarrow> (\<forall>rt. rt \<noteq> 0 \<longrightarrow> inverse_type (types E rt) \<noteq> 0)"

lemma get_ptr_pure: "loaded S E w \<Longrightarrow> get_ptr E x rt w = Some (get_raw_ptr E x rt w, w)"
proof -
  assume "loaded S E w"
  then have "get_raw_ptr E x rt w \<noteq> Some (One (db_null E))"
    by (auto simp: loaded_def links_def dest: spec [where x = x] spec [where x = rt])
      (metis elems.simps(1) list.set_intros(1) option.simps(5))
  then show ?thesis by (auto simp: get_ptr_def get_loaded_rel_def get_raw_ptr_def)
qed

text \<open>The objects that an object owns. An object with several owners of the same kind is left.\<close>

definition owns :: "'s nih_set \<Rightarrow> 's env \<Rightarrow> 's relations \<Rightarrow> int \<Rightarrow> obj \<Rightarrow> rel \<Rightarrow> obj \<Rightarrow> bool" where
  "owns S E w flag x rt y \<longleftrightarrow> flags (types E rt) AND flag \<noteq> 0 \<and>
     (flag AND relationMode_D \<noteq> 0 \<and> cardinality (types E (inverse_type (types E rt))) > 1 \<longrightarrow>
        links S E w y (inverse_type (types E rt)) = {x})"

definition propagated :: "'s nih_set \<Rightarrow> 's env \<Rightarrow> 's methods \<Rightarrow> int \<Rightarrow> 's relations \<Rightarrow> obj \<Rightarrow> obj set" where
  "propagated S E D flag w x =
     {y. \<exists>rt. offset (types E rt) = 0 \<and> y \<in> links S E w x rt \<and> owns S E w flag x rt y} \<union>
     (if is_objTree D x \<and> flag AND relationMode_USDC \<noteq> 0 then set (tree_children D x) else {}) \<union>
     {y. \<exists>rts rt. class_rels E x = Some rts \<and> rt \<in> set rts \<and> flags (types E rt) AND relationMode_D \<noteq> 0 \<and> y \<in> links S E w x rt}"

lemma sole_owned_pure:
  assumes S: "set_laws S" and l: "loaded S E w"
  shows "\<forall>el \<in> set els. links S E w el irt \<noteq> {} \<Longrightarrow>
    sole_owned S E irt els w = Some (filter (\<lambda>el. card (links S E w el irt) = 1) els, w)"
proof (induction els)
  case (Cons el els)
  then obtain m where m: "get_raw_ptr E el irt w = Some m" by (auto simp: links_def split: option.splits)
  then have "members_size S m = card (links S E w el irt)" by (simp add: links_def members_size_elems [OF S])
  then show ?case using Cons m by (simp add: get_ptr_pure [OF l])
qed simp

definition found :: "'s nih_set \<Rightarrow> 's env \<Rightarrow> 's relations \<Rightarrow> int \<Rightarrow> 's relation \<Rightarrow> obj list" where
  "found S E w flag r =
     (if flags (types E (rel_type r)) AND flag \<noteq> 0 then
        if flag AND relationMode_D \<noteq> 0 \<and> cardinality (types E (inverse_type (types E (rel_type r)))) > 1 then
          filter (\<lambda>el. card (links S E w el (inverse_type (types E (rel_type r)))) = 1) (elems S (members r))
        else elems S (members r)
      else [])"

lemma rel_propagate_from_pure:
  assumes S: "set_laws S" and l: "loaded S E w" and w: "rels_ok S E w" "symmetric S E w" and T: "two_way E"
  shows "i \<le> length (rel_list w x) \<Longrightarrow>
    rel_propagate_from i S E flag x w = Some (concat (map (found S E w flag) (rev (take i (rel_list w x)))), w)"
proof (induction i)
  case (Suc i)
  let ?r = "rel_list w x ! i"
  have r: "?r \<in> set (rel_list w x)" using Suc.prems by simp
  have ok: "rel_type ?r \<noteq> 0" "offset (types E (rel_type ?r)) = 0" using relArr_facts(2) [OF w(1) r] by simp_all
  then have i: "inverse_type (types E (rel_type ?r)) \<noteq> 0" using T by (simp add: two_way_def)
  have "links S E w x (rel_type ?r) = set (elems S (members ?r))"
    using relArr_find_in [OF relArr_facts(1) [OF w(1)] r] ok(2) by (simp add: links_def get_raw_ptr_def)
  then have "\<forall>el \<in> set (elems S (members ?r)). links S E w el (inverse_type (types E (rel_type ?r))) \<noteq> {}"
    using symmetricD [OF w(2) i] by blast
  note so = sole_owned_pure [OF S l this]
  have at: "relArr_at (rel_list w x) (int i) = Some ?r" using Suc.prems by (simp add: relArr_at_def)
  have "take (Suc i) (rel_list w x) = take i (rel_list w x) @ [?r]" using Suc.prems by (simp add: take_Suc_conv_app_nth)
  then show ?case
    using Suc.IH Suc.prems i by (simp add: at Let_def so found_def)
qed simp

lemma node_propagate_pure:
  assumes S: "set_laws S" and l: "loaded S E w" and w: "rels_ok S E w" "symmetric S E w" and T: "two_way E"
  obtains arr where "node_propagate S E D flag x w = Some (arr, w)"
    "set arr = {y. \<exists>rt. offset (types E rt) = 0 \<and> y \<in> links S E w x rt \<and> owns S E w flag x rt y} \<union>
      (if is_objTree D x \<and> flag AND relationMode_USDC \<noteq> 0 then set (tree_children D x) else {})"
proof -
  let ?a = "concat (map (found S E w flag) (rev (rel_list w x)))"
  have p: "rel_propagate S E flag x w = Some (?a, w)"
    using rel_propagate_from_pure [OF assms, of "length (rel_list w x)" x flag] by (simp add: rel_propagate_def)
  have f: "set (found S E w flag r) = {y. y \<in> links S E w x (rel_type r) \<and> owns S E w flag x (rel_type r) y}"
    if r: "r \<in> set (rel_list w x)" for r
  proof -
    have ok: "rel_type r \<noteq> 0" "offset (types E (rel_type r)) = 0" using relArr_facts(2) [OF w(1) r] by simp_all
    then have i: "inverse_type (types E (rel_type r)) \<noteq> 0" using T by (simp add: two_way_def)
    have e: "links S E w x (rel_type r) = set (elems S (members r))"
      using relArr_find_in [OF relArr_facts(1) [OF w(1)] r] ok(2) by (simp add: links_def get_raw_ptr_def)
    have "card (links S E w y (inverse_type (types E (rel_type r)))) = 1 \<longleftrightarrow> links S E w y (inverse_type (types E (rel_type r))) = {x}"
      if "y \<in> links S E w x (rel_type r)" for y
      using that symmetricD [OF w(2) i, of y x] by (auto simp: card_1_singleton_iff)
    then show ?thesis by (auto simp: found_def owns_def simp flip: e)
  qed
  have "set ?a = {y. \<exists>rt. offset (types E rt) = 0 \<and> y \<in> links S E w x rt \<and> owns S E w flag x rt y}" (is "_ = ?Q")
  proof (intro set_eqI iffI)
    fix y assume "y \<in> set ?a"
    then obtain r where "r \<in> set (rel_list w x)" "y \<in> set (found S E w flag r)" by auto
    then show "y \<in> ?Q" using f relArr_facts(2) [OF w(1)] by blast
  next
    fix y assume "y \<in> ?Q"
    then obtain rt where rt: "offset (types E rt) = 0" "y \<in> links S E w x rt" "owns S E w flag x rt y" by blast
    then have "rt \<in> set (map rel_type (rel_list w x))" unfolding rel_list_types [OF w(1)] by blast
    then obtain r where "r \<in> set (rel_list w x)" "rel_type r = rt" by auto
    then show "y \<in> set ?a" using f rt by auto
  qed
  then show ?thesis by (intro that) (auto simp: node_propagate_def p)
qed

section \<open>Collecting\<close>

text \<open>A new table of identifiers does not change the links.\<close>

definition with_ids :: "(obj \<Rightarrow> int) \<Rightarrow> 's relations \<Rightarrow> 's relations" where
  "with_ids ids w = w\<lparr>obj_id := ids\<rparr>"

lemma with_ids_simps [simp]:
  "rel_list (with_ids ids w) = rel_list w" "ptr_fields (with_ids ids w) = ptr_fields w" "obj_id (with_ids ids w) = ids"
  "with_ids ids' (with_ids ids w) = with_ids ids' w" "with_ids (obj_id w) w = w"
  "links S E (with_ids ids w) = links S E w" "rels_ok S E (with_ids ids w) = rels_ok S E w"
  "symmetric S E (with_ids ids w) = symmetric S E w" "loaded S E (with_ids ids w) = loaded S E w"
  "propagated S E D flag (with_ids ids w) = propagated S E D flag w" "get_raw_ptr E x rt (with_ids ids w) = get_raw_ptr E x rt w"
proof -
  show 1: "links S E (with_ids ids w) = links S E w" by (rule links_cong) (simp_all add: with_ids_def)
  show "symmetric S E (with_ids ids w) = symmetric S E w" "loaded S E (with_ids ids w) = loaded S E w"
    by (simp_all add: symmetric_links loaded_def 1)
  show "propagated S E D flag (with_ids ids w) = propagated S E D flag w"
    by (intro ext) (simp add: propagated_def owns_def 1)
qed (simp_all add: with_ids_def rels_ok_def get_raw_ptr_def)

lemma put_id_with_ids: "put_id x i (with_ids ids w) = with_ids (ids(x := i)) w"
  by (simp add: put_id_def with_ids_def)

definition exists_id :: "int \<Rightarrow> bool" where
  "exists_id i \<longleftrightarrow> i = -3 \<or> i > 0"

definition mark :: "int \<Rightarrow> (obj \<Rightarrow> int) \<Rightarrow> obj set \<Rightarrow> obj \<Rightarrow> int" where
  "mark i ids A y = (if y \<in> A then i else ids y)"

definition good_id :: "int \<Rightarrow> bool" where
  "good_id i \<longleftrightarrow> i = -4 \<or> i = -5 \<or> exists_id i"

lemma mark_simps [simp]:
  "mark i (mark i ids A) B = mark i ids (A \<union> B)" "mark i ids {} = ids"
  "exists_id (mark (-4) ids A y) \<longleftrightarrow> y \<notin> A \<and> exists_id (ids y)" "good_id (mark (-4) ids A y) \<longleftrightarrow> y \<in> A \<or> good_id (ids y)"
  by (auto simp: mark_def exists_id_def good_id_def)

lemma put_id_mark: "put_id x i (with_ids ids w) = with_ids (mark i ids {x}) w"
proof -
  have "ids(x := i) = mark i ids {x}" by (auto simp: mark_def)
  then show ?thesis by (simp add: put_id_with_ids)
qed

lemma insert_if_not_there_pure:
  "\<forall>y \<in> set objs. good_id (ids y) \<Longrightarrow>
    \<exists>news. insert_if_not_there objs arr (with_ids ids w) = Some (arr @ news, with_ids (mark (-4) ids (set news)) w) \<and>
      distinct news \<and> set news = {y \<in> set objs. exists_id (ids y)}"
proof (induction objs arbitrary: arr ids)
  case Nil
  then show ?case by simp
next
  case (Cons y ys)
  show ?case
  proof (cases "exists_id (ids y)")
    case True
    obtain news where n: "insert_if_not_there ys (arr @ [y]) (with_ids (mark (-4) ids {y}) w) =
        Some ((arr @ [y]) @ news, with_ids (mark (-4) (mark (-4) ids {y}) (set news)) w)"
      "distinct news" "set news = {z \<in> set ys. exists_id (mark (-4) ids {y} z)}"
      using Cons.IH [of "mark (-4) ids {y}" "arr @ [y]"] Cons.prems by force
    have "y \<notin> set news" using n(3) by simp
    moreover have "set (y # news) = {z \<in> set (y # ys). exists_id (ids z)}" using n(3) True by auto
    moreover have "insert_if_not_there (y # ys) arr (with_ids ids w) = insert_if_not_there ys (arr @ [y]) (with_ids (mark (-4) ids {y}) w)"
      using True by (auto simp: exists_id_def put_id_mark)
    ultimately show ?thesis using n(1,2) by (intro exI [of _ "y # news"]) simp
  next
    case False
    then have "insert_if_not_there (y # ys) arr (with_ids ids w) = insert_if_not_there ys arr (with_ids ids w)"
      using Cons.prems by (auto simp: good_id_def)
    moreover have "{z \<in> set (y # ys). exists_id (ids z)} = {z \<in> set ys. exists_id (ids z)}" using False by auto
    ultimately show ?thesis using Cons.IH [of ids arr] Cons.prems by simp
  qed
qed

definition by_pointer :: "'s nih_set \<Rightarrow> 's env \<Rightarrow> 's relations \<Rightarrow> obj \<Rightarrow> rel list \<Rightarrow> obj set" where
  "by_pointer S E w node rts = {y. \<exists>rt \<in> set rts. flags (types E rt) AND relationMode_D \<noteq> 0 \<and> y \<in> links S E w node rt}"

lemma by_pointer_Cons: "by_pointer S E w node (rt # rts) =
    (if flags (types E rt) AND relationMode_D \<noteq> 0 then links S E w node rt else {}) \<union> by_pointer S E w node rts"
  by (auto simp: by_pointer_def)

lemma insert_pointers_pure:
  "\<forall>y \<in> by_pointer S E w node rts. good_id (ids y) \<Longrightarrow>
    \<exists>news. insert_pointers S E node rts pend (with_ids ids w) = Some (pend @ news, with_ids (mark (-4) ids (set news)) w) \<and>
      distinct news \<and> set news = {y \<in> by_pointer S E w node rts. exists_id (ids y)}"
proof (induction rts arbitrary: pend ids)
  case Nil
  then show ?case by (simp add: by_pointer_def)
next
  case (Cons rt rts)
  show ?case
  proof (cases "flags (types E rt) AND relationMode_D \<noteq> 0 \<and> get_raw_ptr E node rt w \<noteq> None")
    case False
    then have e: "insert_pointers S E node (rt # rts) pend (with_ids ids w) = insert_pointers S E node rts pend (with_ids ids w)" by auto
    have n: "by_pointer S E w node (rt # rts) = by_pointer S E w node rts"
      unfolding by_pointer_Cons using False by (auto simp: links_def)
    show ?thesis unfolding e n using Cons.IH [of ids pend] Cons.prems n by simp
  next
    case True
    then obtain els where els: "get_raw_ptr E node rt w = Some els" "set (elems S els) = links S E w node rt" by (auto simp: links_def)
    then have "\<forall>y \<in> set (elems S els). good_id (ids y)" using True Cons.prems by (simp add: by_pointer_Cons)
    then obtain n1 where 1: "insert_if_not_there (elems S els) pend (with_ids ids w) = Some (pend @ n1, with_ids (mark (-4) ids (set n1)) w)"
      "distinct n1" "set n1 = {y \<in> links S E w node rt. exists_id (ids y)}"
      using insert_if_not_there_pure [of "elems S els" ids pend w] els(2) by auto
    have "\<forall>y \<in> by_pointer S E w node rts. good_id (mark (-4) ids (set n1) y)" using Cons.prems by (simp add: by_pointer_Cons)
    then obtain n2 where 2: "insert_pointers S E node rts (pend @ n1) (with_ids (mark (-4) ids (set n1)) w) =
        Some ((pend @ n1) @ n2, with_ids (mark (-4) (mark (-4) ids (set n1)) (set n2)) w)" "distinct n2"
      "set n2 = {y \<in> by_pointer S E w node rts. exists_id (mark (-4) ids (set n1) y)}"
      using Cons.IH [of "mark (-4) ids (set n1)" "pend @ n1"] by blast
    have "insert_pointers S E node (rt # rts) pend (with_ids ids w) = Some (pend @ (n1 @ n2), with_ids (mark (-4) ids (set (n1 @ n2))) w)"
      using True els 1 2(1) by simp
    moreover have "set (n1 @ n2) = {y \<in> by_pointer S E w node (rt # rts). exists_id (ids y)}"
      using 1(3) 2(3) True by (auto simp: by_pointer_Cons)
    moreover have "distinct (n1 @ n2)" using 1(2) 2(2,3) by auto
    ultimately show ?thesis by blast
  qed
qed

text \<open>The loop. What is in \<^verbatim>\<open>proc\<close> has its owned objects in \<^verbatim>\<open>proc\<close> or \<^verbatim>\<open>pend\<close>.\<close>

definition reach :: "'s nih_set \<Rightarrow> 's env \<Rightarrow> 's methods \<Rightarrow> int \<Rightarrow> 's relations \<Rightarrow> obj set \<Rightarrow> obj set" where
  "reach S E D flag w R = {(x, y). y \<in> propagated S E D flag w x}\<^sup>* `` R"

lemma reach_base: "R \<subseteq> reach S E D flag w R" by (auto simp: reach_def)

lemma reach_step: "x \<in> reach S E D flag w R \<Longrightarrow> y \<in> propagated S E D flag w x \<Longrightarrow> y \<in> reach S E D flag w R"
  by (auto simp: reach_def intro: rtrancl_into_rtrancl)

lemma reach_least:
  assumes "R \<subseteq> A" "\<And>x. x \<in> A \<Longrightarrow> propagated S E D flag w x \<subseteq> A"
  shows "reach S E D flag w R \<subseteq> A"
proof
  fix y assume "y \<in> reach S E D flag w R"
  then obtain x where "x \<in> R" "(x, y) \<in> {(x, y). y \<in> propagated S E D flag w x}\<^sup>*" by (auto simp: reach_def)
  from this(2,1) show "y \<in> A" by (induction rule: rtrancl_induct) (use assms in auto)
qed

definition coll_ids :: "(obj \<Rightarrow> int) \<Rightarrow> obj list \<Rightarrow> obj list \<Rightarrow> obj \<Rightarrow> int" where
  "coll_ids ids pend proc = mark (-5) (mark (-4) ids (set pend)) (set proc)"

definition coll_ok :: "'s nih_set \<Rightarrow> 's env \<Rightarrow> 's methods \<Rightarrow> int \<Rightarrow> 's relations \<Rightarrow> obj set \<Rightarrow> obj list \<Rightarrow> obj list \<Rightarrow> bool" where
  "coll_ok S E D flag w R pend proc \<longleftrightarrow> distinct (pend @ proc) \<and> set pend \<union> set proc \<subseteq> reach S E D flag w R \<and>
     R \<subseteq> set pend \<union> set proc \<and> (\<forall>x \<in> set proc. propagated S E D flag w x \<subseteq> set pend \<union> set proc)"

lemma coll_ids_exists: "exists_id (coll_ids ids pend proc y) \<longleftrightarrow> y \<notin> set pend \<union> set proc \<and> exists_id (ids y)"
  by (simp add: coll_ids_def mark_def exists_id_def)

lemma coll_ids_good: "good_id (ids y) \<Longrightarrow> good_id (coll_ids ids pend proc y)"
  by (simp add: coll_ids_def mark_def good_id_def)

definition pointer_rels :: "'s env \<Rightarrow> obj \<Rightarrow> rel list" where
  "pointer_rels E x = (case class_rels E x of None \<Rightarrow> [] | Some rts \<Rightarrow> rts)"

lemma propagated_pointers: "propagated S E D flag w x =
    {y. \<exists>rt. offset (types E rt) = 0 \<and> y \<in> links S E w x rt \<and> owns S E w flag x rt y} \<union>
    (if is_objTree D x \<and> flag AND relationMode_USDC \<noteq> 0 then set (tree_children D x) else {}) \<union> by_pointer S E w x (pointer_rels E x)"
proof -
  have "{y. \<exists>rts rt. class_rels E x = Some rts \<and> rt \<in> set rts \<and> flags (types E rt) AND relationMode_D \<noteq> 0 \<and> y \<in> links S E w x rt} =
      by_pointer S E w x (pointer_rels E x)"
    by (cases "class_rels E x") (auto simp: by_pointer_def pointer_rels_def)
  then show ?thesis by (simp only: propagated_def)
qed

lemma collect_step:
  assumes S: "set_laws S" and l: "loaded S E w" and w: "rels_ok S E w" "symmetric S E w" and T: "two_way E"
    and c: "coll_ok S E D flag w R pend proc" and ne: "pend \<noteq> []" and ids: "\<forall>y \<in> reach S E D flag w R. exists_id (ids y)"
  obtains pend' where
    "collect S E D flag pend proc (with_ids (coll_ids ids pend proc) w) =
       collect S E D flag pend' (proc @ [last pend]) (with_ids (coll_ids ids pend' (proc @ [last pend])) w)"
    "coll_ok S E D flag w R pend' (proc @ [last pend])"
proof -
  let ?n = "last pend" and ?ids = "coll_ids ids pend proc"
  have n: "?n \<in> reach S E D flag w R" using c ne by (auto simp: coll_ok_def)
  have g: "\<forall>y \<in> propagated S E D flag w ?n. good_id (?ids y)"
    using ids reach_step [OF n] coll_ids_good by (auto simp: good_id_def)
  obtain arr where arr: "node_propagate S E D flag ?n (with_ids ?ids w) = Some (arr, with_ids ?ids w)"
    "set arr = {y. \<exists>rt. offset (types E rt) = 0 \<and> y \<in> links S E w ?n rt \<and> owns S E (with_ids ?ids w) flag ?n rt y} \<union>
      (if is_objTree D ?n \<and> flag AND relationMode_USDC \<noteq> 0 then set (tree_children D ?n) else {})"
    using node_propagate_pure [of S E "with_ids ?ids w" D flag ?n] S l w T by auto
  have o: "owns S E (with_ids ?ids w) = owns S E w" by (intro ext) (simp add: owns_def)
  have P: "propagated S E D flag w ?n = set arr \<union> by_pointer S E w ?n (pointer_rels E ?n)"
    using arr(2) by (simp add: propagated_pointers o)
  obtain n1 where 1: "insert_if_not_there arr (butlast pend) (with_ids ?ids w) = Some (butlast pend @ n1, with_ids (mark (-4) ?ids (set n1)) w)"
    "distinct n1" "set n1 = {y \<in> set arr. exists_id (?ids y)}"
    using insert_if_not_there_pure [of arr ?ids "butlast pend" w] g P by blast
  obtain n2 where 2: "insert_pointers S E ?n (pointer_rels E ?n) (butlast pend @ n1) (with_ids (mark (-4) ?ids (set n1)) w) =
      Some ((butlast pend @ n1) @ n2, with_ids (mark (-4) (mark (-4) ?ids (set n1)) (set n2)) w)" "distinct n2"
    "set n2 = {y \<in> by_pointer S E w ?n (pointer_rels E ?n). exists_id (mark (-4) ?ids (set n1) y)}"
    using insert_pointers_pure [of S E w ?n "pointer_rels E ?n" "mark (-4) ?ids (set n1)" "butlast pend @ n1"] g P by auto
  define pend' where "pend' = butlast pend @ n1 @ n2"
  have new: "set n1 \<union> set n2 = {y \<in> propagated S E D flag w ?n. y \<notin> set pend \<union> set proc}"
    unfolding 1(3) 2(3) P using ids reach_step [OF n] P by (auto simp: coll_ids_exists)
  have pend: "set pend = insert ?n (set (butlast pend))" "pend = butlast pend @ [?n]"
    using append_butlast_last_id [OF ne] by (metis list.set(2) rotate1.simps(2) set_rotate1, simp)
  have d: "distinct (butlast pend)" "?n \<notin> set (butlast pend)" "set (butlast pend) \<inter> set proc = {}" "?n \<notin> set proc" "distinct proc"
    using c pend by (metis coll_ok_def distinct_append distinct_butlast, metis coll_ok_def distinct_append not_distinct_conv_prefix pend(2),
      auto simp: coll_ok_def)
  have p': "set pend' \<union> set (proc @ [?n]) = set pend \<union> set proc \<union> propagated S E D flag w ?n"
    using new pend(1) by (auto simp: pend'_def)
  have "coll_ok S E D flag w R pend' (proc @ [?n])"
    unfolding coll_ok_def p'
  proof (intro conjI)
    show "distinct (pend' @ proc @ [?n])"
      using d 1(2) 2(2) new pend(1) 2(3) by (auto simp: pend'_def)
    show "set pend \<union> set proc \<union> propagated S E D flag w ?n \<subseteq> reach S E D flag w R"
      using c reach_step [OF n] by (auto simp: coll_ok_def)
  qed (use c in \<open>auto simp: coll_ok_def\<close>)
  moreover have "mark (-5) (mark (-4) (mark (-4) ?ids (set n1)) (set n2)) {?n} = coll_ids ids pend' (proc @ [?n])"
    using new d pend by (auto simp: coll_ids_def mark_def pend'_def)
  ultimately show ?thesis
  proof (intro that)
    assume e: "mark (-5) (mark (-4) (mark (-4) ?ids (set n1)) (set n2)) {?n} = coll_ids ids pend' (proc @ [?n])"
    have ptr: "(case class_rels E ?n of None \<Rightarrow> Some (pend, v) | Some rts \<Rightarrow> insert_pointers S E ?n rts pend v) =
        insert_pointers S E ?n (pointer_rels E ?n) pend v" for pend v
      by (simp add: pointer_rels_def split: option.splits)
    show "collect S E D flag pend proc (with_ids ?ids w) = collect S E D flag pend' (proc @ [?n]) (with_ids (coll_ids ids pend' (proc @ [?n])) w)"
      using ne by (subst collect.simps) (simp add: Let_def arr(1) 1(1) ptr 2(1) put_id_mark e [simplified] pend'_def)
  qed
qed

theorem collect_reach:
  assumes S: "set_laws S" and l: "loaded S E w" and w: "rels_ok S E w" "symmetric S E w" and T: "two_way E"
    and ids: "\<forall>y \<in> reach S E D flag w R. exists_id (ids y)" and fin: "finite (reach S E D flag w R)"
  shows "coll_ok S E D flag w R pend proc \<Longrightarrow>
    \<exists>proc'. collect S E D flag pend proc (with_ids (coll_ids ids pend proc) w) = Some (proc', with_ids (mark (-5) ids (set proc')) w) \<and>
      distinct proc' \<and> set proc' = reach S E D flag w R"
proof (induction "card (reach S E D flag w R - set proc)" arbitrary: pend proc rule: less_induct)
  case less
  show ?case
  proof (cases "pend = []")
    case True
    then have "reach S E D flag w R \<subseteq> set proc" using less.prems by (intro reach_least) (auto simp: coll_ok_def)
    then have "set proc = reach S E D flag w R" using less.prems by (auto simp: coll_ok_def)
    then show ?thesis using True less.prems by (simp add: collect.simps coll_ids_def coll_ok_def)
  next
    case False
    obtain pend' where p: "collect S E D flag pend proc (with_ids (coll_ids ids pend proc) w) =
        collect S E D flag pend' (proc @ [last pend]) (with_ids (coll_ids ids pend' (proc @ [last pend])) w)"
      "coll_ok S E D flag w R pend' (proc @ [last pend])"
      using collect_step [OF S l w T less.prems False ids] by metis
    have "last pend \<in> reach S E D flag w R - set proc" using less.prems last_in_set [OF False] by (auto simp: coll_ok_def)
    then have "reach S E D flag w R - set (proc @ [last pend]) \<subset> reach S E D flag w R - set proc" by auto
    then have "card (reach S E D flag w R - set (proc @ [last pend])) < card (reach S E D flag w R - set proc)"
      by (rule psubset_card_mono [OF finite_Diff [OF fin]])
    from less.hyps [OF this p(2)] show ?thesis by (simp add: p(1))
  qed
qed

end
