(* ===== verification/Deletion_Properties.thy ===== *)
theory Deletion_Properties
  imports Deletion_Closure
begin

text \<open>
  What the deletion of objects promises: everything that the given objects own is deleted, nothing else
  is, and no link leads to a deleted object.
\<close>

section \<open>Hooks and notifications\<close>

definition quiet_methods :: "'s methods \<Rightarrow> bool" where
  "quiet_methods D \<longleftrightarrow> (\<forall>x. quiet (destroy D x)) \<and> (\<forall>t x y rt. quiet (notify D t x y rt))"

lemma keeps_hook: "quiet_hooks E \<Longrightarrow> keeps w (call_rel_hook E t rt irt a b w)"
  using quiet_hook [of E t rt irt a b] by (simp add: quiet_keeps)

lemma keeps_notify_all: "quiet_methods D \<Longrightarrow> keeps w (notify_all D flag node rt els w)"
proof (induction els arbitrary: w)
  case (Cons el els)
  show ?case
    unfolding notify_all.simps
    by (rule keeps_bind) (use Cons in \<open>auto simp: quiet_methods_def quiet_keeps\<close>)
qed simp

lemma keeps_obj_notify_from:
  assumes "quiet_methods D"
  shows "\<forall>ii \<in> set iis. ii < length (rel_list w node) \<Longrightarrow> keeps w (obj_notify_from S E D flag node iis w)"
proof (induction iis arbitrary: w)
  case (Cons ii iis)
  have "relArr_at (rel_list w node) (int ii) = Some (rel_list w node ! ii)" using Cons.prems by (simp add: relArr_at_def)
  moreover have "keeps w ((if flags (types E rt) AND flag \<noteq> 0 then Some w else if is_header_rel D rt then Some w
      else notify_all D flag node rt els w) \<bind> obj_notify_from S E D flag node iis)" for rt els
    by (rule keeps_bind) (use keeps_notify_all [OF assms] Cons in auto)
  ultimately show ?case by (simp add: Let_def)
qed simp

lemma keeps_obj_notify: "quiet_methods D \<Longrightarrow> keeps w (obj_notify S E D flag node w)"
  unfolding obj_notify_def by (rule keeps_obj_notify_from) auto

lemma keeps_hooks_to: "quiet_hooks E \<Longrightarrow> keeps w (hooks_to E fla rt irt x els w)"
proof (induction els arbitrary: w)
  case (Cons el els)
  show ?case unfolding hooks_to.simps by (rule keeps_bind) (use Cons keeps_hook in auto)
qed simp

lemma relArr_index_nth: "distinct (map rel_type rs) \<Longrightarrow> i < length rs \<Longrightarrow> relArr_index rs (rel_type (rs ! i)) = Some i"
proof (induction rs arbitrary: i)
  case (Cons r rs)
  show ?case
  proof (cases i)
    case (Suc j)
    then have "rel_type (rs ! j) \<noteq> rel_type r" using Cons.prems by (auto simp: image_iff) (metis nth_mem)
    then show ?thesis using Cons Suc by auto
  qed simp
qed simp

lemma loaded_cong: "rel_list w' = rel_list w \<Longrightarrow> ptr_fields w' = ptr_fields w \<Longrightarrow> loaded S E w' = loaded S E w"
  unfolding loaded_def using links_cong by metis

lemma keeps_hooks_from:
  assumes H: "quiet_hooks E" and T: "two_way E"
  shows "rels_ok S E w \<Longrightarrow> loaded S E w \<Longrightarrow> i < length (rel_list w x) \<Longrightarrow> keeps w (hooks_from S E fla x (rel_type (rel_list w x ! i)) w)"
proof (induction "length (rel_list w x) - i" arbitrary: i w rule: less_induct)
  case less
  let ?rt = "rel_type (rel_list w x ! i)" and ?m = "get_raw_ptr E x (rel_type (rel_list w x ! i)) w"
  have rt: "?rt \<noteq> 0" using relArr_facts(2) [OF less.prems(1) nth_mem [OF less.prems(3)]] by simp
  then have irt: "inverse_type (types E ?rt) \<noteq> 0" using T by (simp add: two_way_def)
  let ?body = "case ?m of None \<Rightarrow> Some w
       | Some m \<Rightarrow>
           if hook E ?rt = None \<and> hook E (inverse_type (types E ?rt)) = None then Some w
           else if collectionp m \<and> \<not> (hcs (types E ?rt) \<or> hcs (types E (inverse_type (types E ?rt)))) then
             hooks_to E fla ?rt (inverse_type (types E ?rt)) x
               (if fla = 1 \<and> ?rt = ref_smt_of_dd E then take 1 (elems S m) else elems S m) w
           else call_rel_hook E fla ?rt (inverse_type (types E ?rt)) (One x) m w"
  have e: "hooks_from S E fla x ?rt w = ?body \<bind>
      (\<lambda>w. case get_next_rel (rel_list w x) ?rt of None \<Rightarrow> Some w | Some rl \<Rightarrow> hooks_from S E fla x (rel_type rl) w)"
    using rt irt by (subst hooks_from.simps, cases ?m) (simp_all add: get_ptr_pure [OF less.prems(2)] Let_def)
  have b: "keeps w ?body" using keeps_hook [OF H] keeps_hooks_to [OF H] by (auto split: option.splits)
  show ?case
    unfolding e
  proof (rule keeps_bind [OF b])
    fix w'
    assume w': "same w w'" "rel_list w' = rel_list w" "ptr_fields w' = ptr_fields w"
    have i: "relArr_index (rel_list w x) ?rt = Some i" using relArr_index_nth [OF relArr_facts(1) [OF less.prems(1)] less.prems(3)] .
    show "keeps w' (case get_next_rel (rel_list w' x) ?rt of None \<Rightarrow> Some w' | Some rl \<Rightarrow> hooks_from S E fla x (rel_type rl) w')"
    proof (cases "i + 1 < length (rel_list w x)")
      case True
      then have "get_next_rel (rel_list w' x) ?rt = Some (rel_list w' x ! (i + 1))" using i w'(2) by (auto simp: get_next_rel_def)
      moreover have "keeps w' (hooks_from S E fla x (rel_type (rel_list w' x ! (i + 1))) w')"
        by (rule less.hyps) (use less.prems True w' rels_ok_cong [OF w'(2,3)] loaded_cong [OF w'(2,3)] in auto)
      ultimately show ?thesis by simp
    next
      case False
      then have "get_next_rel (rel_list w' x) ?rt = None" using i w'(2) by (auto simp: get_next_rel_def)
      then show ?thesis by simp
    qed
  qed
qed

lemma keeps_call_rel_hooks:
  assumes "quiet_hooks E" "two_way E" "rels_ok S E w" "loaded S E w"
  shows "keeps w (call_rel_hooks S E fla x w)"
proof (cases "rel_list w x")
  case (Cons r rs)
  then show ?thesis using keeps_hooks_from [OF assms(1-4), of 0 x fla] by (simp add: call_rel_hooks_def)
qed (simp add: call_rel_hooks_def)

section \<open>Destruction\<close>

definition without :: "obj set \<Rightarrow> (obj \<Rightarrow> rel \<Rightarrow> obj set) \<Rightarrow> obj \<Rightarrow> rel \<Rightarrow> obj set" where
  "without A L y r = {z. z \<in> L y r \<and> y \<notin> A \<and> z \<notin> A}"

lemma without_without: "without A (without B L) = without (A \<union> B) L"
  by (intro ext) (auto simp: without_def)

lemma without_empty [simp]: "without {} L = L"
  by (intro ext) (simp add: without_def)

text \<open>Every field is known to the class of its object.\<close>

definition complete :: "'s env \<Rightarrow> (obj \<Rightarrow> rel \<Rightarrow> obj set) \<Rightarrow> bool" where
  "complete E L \<longleftrightarrow> (\<forall>x rt. offset (types E rt) \<noteq> 0 \<and> L x rt \<noteq> {} \<longrightarrow> rt \<in> set (pointer_rels E x))"

lemma complete_without: "complete E L \<Longrightarrow> complete E (without A L)"
  by (auto simp: complete_def without_def)

lemma cut_links_cong:
  assumes T: "types_ok E" "two_way E" and w: "rels_ok S E w" "symmetric S E w"
    and e: "\<And>rt. links S E w x rt \<noteq> {} \<Longrightarrow> rt \<in> Q \<longleftrightarrow> rt \<in> R"
  shows "cut E x Q (links S E w) = cut E x R (links S E w)"
proof (intro ext set_eqI)
  fix y r z
  have "r \<in> (\<lambda>rt. inverse_type (types E rt)) ` Q \<longleftrightarrow> r \<in> (\<lambda>rt. inverse_type (types E rt)) ` R" if "x \<in> links S E w y r"
  proof -
    have r: "r \<noteq> 0" using links_nonzero [OF w(1) that] by simp
    have i: "inverse_type (types E r) \<noteq> 0" using T(2) r by (simp add: two_way_def)
    have "links S E w x (inverse_type (types E r)) \<noteq> {}" using symmetricD [OF w(2) i] that by blast
    from e [OF this] show ?thesis by (simp only: inverse_image [OF T(1) i r])
  qed
  then show "z \<in> cut E x Q (links S E w) y r \<longleftrightarrow> z \<in> cut E x R (links S E w) y r"
    using e [of r] by (auto simp: cut_def)
qed

lemma cut_all:
  assumes T: "types_ok E" "two_way E" and w: "rels_ok S E w"
  shows "cut E x UNIV (links S E w) = without {x} (links S E w)"
proof (intro ext set_eqI)
  fix y r z
  have "r \<in> range (\<lambda>rt. inverse_type (types E rt))" if "z \<in> links S E w y r"
  proof -
    have "inverse_type (types E r) \<noteq> 0" using T(2) links_nonzero [OF w that] by (simp add: two_way_def)
    then show ?thesis using inv_inv [OF T(1)] by (metis rangeI)
  qed
  then show "z \<in> cut E x UNIV (links S E w) y r \<longleftrightarrow> z \<in> without {x} (links S E w) y r"
    by (auto simp: cut_def without_def)
qed

lemma rem_ptr_fields_makes:
  assumes S: "set_laws S" and H: "quiet_hooks E" and T: "types_ok E" "two_way E"
  shows "rels_ok S E w \<Longrightarrow> symmetric S E w \<Longrightarrow>
    makes S E w (rem_ptr_fields S E x rts w) (cut E x {rt \<in> set rts. offset (types E rt) \<noteq> 0} (links S E w))"
proof (induction rts arbitrary: w)
  case Nil
  have "cut E x {} (links S E w) = links S E w" by (intro ext) (simp add: cut_def)
  then show ?case using Nil by (simp add: makes_same)
next
  case (Cons rt rts)
  have 1: "makes S E w (if ptr_fields w x rt \<noteq> None then rem_rel_type S E x rt w else Some w)
      (cut E x (if offset (types E rt) \<noteq> 0 then {rt} else {}) (links S E w))"
  proof (cases "ptr_fields w x rt")
    case None
    then have "offset (types E rt) \<noteq> 0 \<Longrightarrow> links S E w x rt = {}" by (simp add: links_field)
    then have "cut E x (if offset (types E rt) \<noteq> 0 then {rt} else {}) (links S E w) = cut E x {} (links S E w)"
      by (intro cut_links_cong [OF T Cons.prems]) auto
    also have "cut E x {} (links S E w) = links S E w" by (intro ext) (simp add: cut_def)
    finally show ?thesis using None makes_same [OF Cons.prems(1)] by simp
  next
    case (Some m)
    then have "rt \<noteq> 0" "offset (types E rt) \<noteq> 0" using relArr_facts(3) [OF Cons.prems(1)] by simp_all
    then show ?thesis using rem_rel_type_makes [OF S H T(1) Cons.prems, of rt x] Some by simp
  qed
  show ?case
    unfolding rem_ptr_fields.simps
  proof (rule makes_bind [OF 1])
    fix w'
    assume w': "rels_ok S E w'" "links S E w' = cut E x (if offset (types E rt) \<noteq> 0 then {rt} else {}) (links S E w)"
    have "symmetric S E w'" by (rule cut_symmetric [OF T(1) Cons.prems w'(2)])
    from Cons.IH [OF w'(1) this]
    have "makes S E w' (rem_ptr_fields S E x rts w') (cut E x ((if offset (types E rt) \<noteq> 0 then {rt} else {}) \<union>
        {rt \<in> set rts. offset (types E rt) \<noteq> 0}) (links S E w))" by (simp only: w'(2) cut_cut)
    moreover have "(if offset (types E rt) \<noteq> 0 then {rt} else {}) \<union> {rt \<in> set rts. offset (types E rt) \<noteq> 0} =
        {q \<in> set (rt # rts). offset (types E q) \<noteq> 0}" by auto
    ultimately show "makes S E w' (rem_ptr_fields S E x rts w') (cut E x {q \<in> set (rt # rts). offset (types E q) \<noteq> 0} (links S E w))" by simp
  qed
qed

text \<open>The state after the deletion of the objects in \<open>A\<close>.\<close>

definition deleted :: "'s nih_set \<Rightarrow> 's env \<Rightarrow> obj set \<Rightarrow> 's relations \<Rightarrow> 's relations \<Rightarrow> bool" where
  "deleted S E A w w' \<longleftrightarrow> rels_ok S E w' \<and> links S E w' = without A (links S E w) \<and> obj_id w' = mark (-2) (obj_id w) A \<and>
     memory_part w' = memory_part w"

lemma put_id_facts [simp]:
  "rels_ok S E (put_id x i w) = rels_ok S E w" "links S E (put_id x i w) = links S E w"
  "obj_id (put_id x i w) = (obj_id w)(x := i)" "memory_part (put_id x i w) = memory_part w"
  "obj_to_dispose (put_id x i w) = obj_to_dispose w" "rel_list (put_id x i w) = rel_list w" "ptr_fields (put_id x i w) = ptr_fields w"
proof -
  show "links S E (put_id x i w) = links S E w" by (rule links_cong) (simp_all add: put_id_def)
qed (simp_all add: put_id_def rels_ok_def memory_part_eq)

lemma delete_object_deletes:
  assumes S: "set_laws S" and H: "quiet_hooks E" and Q: "quiet_methods D" and T: "types_ok E" "two_way E"
    and w: "rels_ok S E w" "symmetric S E w" "complete E (links S E w)"
  obtains w' where "delete_object S E D x w = Some w'" "deleted S E {x} w w'" "obj_to_dispose w' = obj_to_dispose w"
proof -
  let ?R = "{rt \<in> set (pointer_rels E x). offset (types E rt) \<noteq> 0}"
  have 1: "makes S E w (destroy D x w) (links S E w)"
    using Q by (intro keeps_makes w(1)) (simp add: quiet_methods_def quiet_keeps)
  have 2: "makes S E w (destroy D x w \<bind> (\<lambda>w. rem_ptr_fields S E x (pointer_rels E x) w \<bind> rem_rel_all S E x))
      (cut E x (?R \<union> {rt. offset (types E rt) = 0}) (links S E w))"
  proof (rule makes_bind [OF 1])
    fix w1 assume w1: "rels_ok S E w1" "links S E w1 = links S E w"
    then have s1: "symmetric S E w1" using w(2) by (simp add: symmetric_links)
    show "makes S E w1 (rem_ptr_fields S E x (pointer_rels E x) w1 \<bind> rem_rel_all S E x)
        (cut E x (?R \<union> {rt. offset (types E rt) = 0}) (links S E w))"
    proof (rule makes_bind [OF rem_ptr_fields_makes [OF S H T w1(1) s1]])
      fix w2 assume w2: "rels_ok S E w2" "links S E w2 = cut E x ?R (links S E w1)"
      have "symmetric S E w2" by (rule cut_symmetric [OF T(1) w1(1) s1 w2(2)])
      from rem_rel_all_makes [OF S H T(1) w2(1) this, of x]
      show "makes S E w2 (rem_rel_all S E x w2) (cut E x (?R \<union> {rt. offset (types E rt) = 0}) (links S E w))"
        by (simp only: w2(2) w1(2) cut_cut)
    qed
  qed
  have "rt \<in> ?R \<union> {rt. offset (types E rt) = 0}" if "links S E w x rt \<noteq> {}" for rt
    using that w(3) by (cases "offset (types E rt) = 0") (simp_all add: complete_def)
  then have "cut E x (?R \<union> {rt. offset (types E rt) = 0}) (links S E w) = cut E x UNIV (links S E w)"
    by (intro cut_links_cong [OF T w(1,2)]) blast
  also have "\<dots> = without {x} (links S E w)" by (rule cut_all [OF T w(1)])
  finally have e: "cut E x (?R \<union> {rt. offset (types E rt) = 0}) (links S E w) = without {x} (links S E w)" .
  obtain w3 where w3: "(destroy D x w \<bind> (\<lambda>w. rem_ptr_fields S E x (pointer_rels E x) w \<bind> rem_rel_all S E x)) = Some w3"
    "rels_ok S E w3" "same w w3" "links S E w3 = without {x} (links S E w)"
    using 2 unfolding e by (rule makesE)
  have "delete_object S E D x w = Some (put_id x (-2) (put_id x (-1) w3))"
    using w3(1) by (auto simp: delete_object_def relational_destructor_def obj_destructor_def pointer_rels_def bind_eq_Some_conv)
  moreover have "deleted S E {x} w (put_id x (-2) (put_id x (-1) w3))"
    using w3(2-4) by (auto simp: deleted_def same_def mark_def)
  moreover have "obj_to_dispose (put_id x (-2) (put_id x (-1) w3)) = obj_to_dispose w" using w3(3) by (simp add: same_def)
  ultimately show ?thesis by (rule that)
qed

section \<open>The two loops\<close>

text \<open>What holds of a state in which objects can be deleted.\<close>

definition consistent :: "'s nih_set \<Rightarrow> 's env \<Rightarrow> 's relations \<Rightarrow> bool" where
  "consistent S E w \<longleftrightarrow> rels_ok S E w \<and> symmetric S E w \<and> complete E (links S E w) \<and> loaded S E w"

lemma without_both_ways: "both_ways E L \<Longrightarrow> both_ways E (without A L)"
  unfolding both_ways_def without_def by blast

lemma consistent_links:
  assumes "consistent S E w" "rels_ok S E w'" "links S E w' = without A (links S E w)"
  shows "consistent S E w'"
  using assms complete_without without_both_ways [of E "links S E w" A]
  by (auto simp: consistent_def symmetric_links loaded_def without_def)

lemma consistent_deleted: "consistent S E w \<Longrightarrow> deleted S E A w w' \<Longrightarrow> consistent S E w'"
  by (rule consistent_links) (auto simp: deleted_def)

lemma deleted_trans:
  assumes "deleted S E A w w1" "deleted S E B w1 w2"
  shows "deleted S E (A \<union> B) w w2"
  using assms unfolding deleted_def by (auto simp: without_without mark_def Un_commute)

definition deletable :: "'s nih_set \<Rightarrow> 's env \<Rightarrow> 's methods \<Rightarrow> bool" where
  "deletable S E D \<longleftrightarrow> set_laws S \<and> quiet_hooks E \<and> quiet_methods D \<and> types_ok E \<and> two_way E"

lemma delete_step:
  assumes d: "deletable S E D" and w: "consistent S E w"
  obtains w' where "delete_object S E D x (put_id x i w) = Some w'" "deleted S E {x} w w'" "obj_to_dispose w' = obj_to_dispose w"
proof -
  have "consistent S E (put_id x i w)" by (rule consistent_links [OF w, of _ "{}"]) (use w in \<open>auto simp: consistent_def\<close>)
  then obtain w' where w': "delete_object S E D x (put_id x i w) = Some w'" "deleted S E {x} (put_id x i w) w'"
    "obj_to_dispose w' = obj_to_dispose (put_id x i w)"
    using delete_object_deletes [of S E D "put_id x i w" x] d by (auto simp: deletable_def consistent_def)
  have "deleted S E {x} w w'" using w'(2) by (auto simp: deleted_def mark_def)
  then show ?thesis using that w' by simp
qed

lemma delete_headers_deletes:
  assumes d: "deletable S E D"
  shows "consistent S E w \<Longrightarrow>
    \<exists>w'. delete_headers S E D fl nodes w = Some w' \<and> deleted S E (set nodes) w w' \<and> obj_to_dispose w' = obj_to_dispose w"
proof (induction nodes arbitrary: w)
  case Nil
  then show ?case by (auto simp: deleted_def mark_def consistent_def)
next
  case (Cons x nodes)
  obtain w1 where 1: "delete_object S E D x (put_id x (if fl then 0 else -1) w) = Some w1" "deleted S E {x} w w1" "obj_to_dispose w1 = obj_to_dispose w"
    using delete_step [OF d Cons.prems] by metis
  obtain w2 where 2: "delete_headers S E D fl nodes w1 = Some w2" "deleted S E (set nodes) w1 w2" "obj_to_dispose w2 = obj_to_dispose w1"
    using Cons.IH [OF consistent_deleted [OF Cons.prems 1(2)]] by blast
  show ?case using deleted_trans [OF 1(2) 2(2)] 1 2 by simp
qed

lemma delete_non_headers_deletes:
  assumes d: "deletable S E D"
  shows "consistent S E w \<Longrightarrow>
    \<exists>w'. delete_non_headers S E D other fl nodes w = Some (filter (is_app D) nodes, w') \<and>
      deleted S E {x \<in> set nodes. \<not> is_app D x} w w' \<and>
      obj_to_dispose w' = (if other then fold remove1 nodes (obj_to_dispose w) else obj_to_dispose w)"
proof (induction nodes arbitrary: w)
  case Nil
  then show ?case by (auto simp: deleted_def mark_def consistent_def)
next
  case (Cons x nodes)
  have ok: "rels_ok S E w" "loaded S E w" using Cons.prems by (simp_all add: consistent_def)
  have "keeps w (obj_notify S E D relationMode_D x w)" using d by (intro keeps_obj_notify) (simp add: deletable_def)
  then obtain w1 where 1: "obj_notify S E D relationMode_D x w = Some w1" "same w w1" "rel_list w1 = rel_list w" "ptr_fields w1 = ptr_fields w"
    by (auto simp: keeps_def)
  have ok1: "rels_ok S E w1" "loaded S E w1" using ok rels_ok_cong [OF 1(3,4)] loaded_cong [OF 1(3,4)] by simp_all
  have "keeps w1 (if fl then call_rel_hooks S E (-1) x w1 else Some w1)"
    using keeps_call_rel_hooks [OF _ _ ok1] d by (simp add: deletable_def)
  then obtain w2 where 2: "(if fl then call_rel_hooks S E (-1) x w1 else Some w1) = Some w2" "same w1 w2" "rel_list w2 = rel_list w1" "ptr_fields w2 = ptr_fields w1"
    by (auto simp: keeps_def)
  define w3 where "w3 = obj_remove_from_dispose other x w2"
  have w3: "rel_list w3 = rel_list w" "ptr_fields w3 = ptr_fields w" "obj_id w3 = obj_id w" "memory_part w3 = memory_part w"
    "obj_to_dispose w3 = (if other then remove1 x (obj_to_dispose w) else obj_to_dispose w)"
    using 1 2 by (auto simp: w3_def obj_remove_from_dispose_def same_def memory_part_eq)
  have c3: "consistent S E w3" by (rule consistent_links [OF Cons.prems, of _ "{}"])
      (use ok rels_ok_cong [OF w3(1,2)] links_cong [OF w3(1,2)] in auto)
  have d3: "deleted S E A w3 w' \<longleftrightarrow> deleted S E A w w'" for A w'
    using links_cong [OF w3(1,2), of S E] w3(3,4) by (simp add: deleted_def)
  show ?case
  proof (cases "is_app D x")
    case True
    obtain w4 where 4: "delete_non_headers S E D other fl nodes w3 = Some (filter (is_app D) nodes, w4)"
      "deleted S E {y \<in> set nodes. \<not> is_app D y} w3 w4"
      "obj_to_dispose w4 = (if other then fold remove1 nodes (obj_to_dispose w3) else obj_to_dispose w3)"
      using Cons.IH [OF c3] by blast
    have "{y \<in> set (x # nodes). \<not> is_app D y} = {y \<in> set nodes. \<not> is_app D y}" using True by auto
    then show ?thesis using 4 d3 w3(5) True 1(1) 2(1) by (simp add: Let_def flip: w3_def)
  next
    case False
    obtain w4 where 4: "delete_object S E D x (put_id x (if fl then 0 else -1) w3) = Some w4" "deleted S E {x} w3 w4" "obj_to_dispose w4 = obj_to_dispose w3"
      using delete_step [OF d c3] by metis
    obtain w5 where 5: "delete_non_headers S E D other fl nodes w4 = Some (filter (is_app D) nodes, w5)"
      "deleted S E {y \<in> set nodes. \<not> is_app D y} w4 w5"
      "obj_to_dispose w5 = (if other then fold remove1 nodes (obj_to_dispose w4) else obj_to_dispose w4)"
      using Cons.IH [OF consistent_deleted [OF c3 4(2)]] by blast
    have "{y \<in> set (x # nodes). \<not> is_app D y} = {x} \<union> {y \<in> set nodes. \<not> is_app D y}" using False by auto
    then have "deleted S E {y \<in> set (x # nodes). \<not> is_app D y} w w5" using deleted_trans [OF 4(2) 5(2)] d3 by simp
    then show ?thesis using 4 5 w3(5) False 1(1) 2(1) by (simp add: Let_def flip: w3_def)
  qed
qed

section \<open>The whole deletion\<close>

lemma deletion_deletes_reached:
  assumes d: "deletable S E D" and w: "consistent S E w"
    and ids: "\<forall>y \<in> reach S E D (if fl then relationMode_D else relationMode_UD) w (set root). exists_id (obj_id w y)"
    and fin: "finite (reach S E D (if fl then relationMode_D else relationMode_UD) w (set root))"
  shows "\<exists>w'. obj_delete_or_unload S E D other root fl w = Some w' \<and>
    deleted S E (reach S E D (if fl then relationMode_D else relationMode_UD) w (set root)) w w' \<and> consistent S E w' \<and>
    set (obj_to_dispose w') \<subseteq> set (obj_to_dispose w)"
proof -
  let ?f = "if fl then relationMode_D else relationMode_UD"
  let ?R = "reach S E D ?f w (set root)"
  have r: "\<forall>y \<in> set root. good_id (obj_id w y)" using ids reach_base [of "set root" S E D ?f w] unfolding good_id_def by blast
  obtain news where n: "insert_if_not_there root [] (with_ids (obj_id w) w) = Some ([] @ news, with_ids (mark (-4) (obj_id w) (set news)) w)"
    "distinct news" "set news = {y \<in> set root. exists_id (obj_id w y)}"
    using insert_if_not_there_pure [OF r, of "[]" w] by blast
  have e: "set news = set root" using n(3) ids reach_base [of "set root" S E D ?f w] by auto
  have ok: "rels_ok S E w" "symmetric S E w" "loaded S E w" using w by (simp_all add: consistent_def)
  have lw: "set_laws S" "two_way E" using d by (simp_all add: deletable_def)
  have "coll_ok S E D ?f w (set root) news []"
    using n(2) e reach_base [of "set root" S E D ?f w] by (auto simp: coll_ok_def)
  then obtain proc where p: "collect S E D ?f news [] (with_ids (coll_ids (obj_id w) news []) w) = Some (proc, with_ids (mark (-5) (obj_id w) (set proc)) w)"
    "distinct proc" "set proc = ?R"
    using collect_reach [OF lw(1) ok(3,1,2) lw(2) ids fin] by blast
  let ?w = "with_ids (mark (-5) (obj_id w) ?R) w"
  have c: "consistent S E ?w" using w by (simp add: consistent_def)
  obtain w1 where 1: "delete_non_headers S E D other fl (rev proc) ?w = Some (filter (is_app D) (rev proc), w1)"
    "deleted S E {x \<in> set (rev proc). \<not> is_app D x} ?w w1"
    "obj_to_dispose w1 = (if other then fold remove1 (rev proc) (obj_to_dispose ?w) else obj_to_dispose ?w)"
    using delete_non_headers_deletes [OF d c] by blast
  obtain w2 where 2: "delete_headers S E D fl (filter (is_app D) (rev proc)) w1 = Some w2"
    "deleted S E (set (filter (is_app D) (rev proc))) w1 w2" "obj_to_dispose w2 = obj_to_dispose w1"
    using delete_headers_deletes [OF d consistent_deleted [OF c 1(2)]] by blast
  have "{x \<in> set (rev proc). \<not> is_app D x} \<union> set (filter (is_app D) (rev proc)) = ?R" using p(3) by auto
  then have del: "deleted S E ?R ?w w2" using deleted_trans [OF 1(2) 2(2)] by simp
  have "set (fold remove1 xs ys) \<subseteq> set ys" for xs ys :: "obj list"
    by (induction xs arbitrary: ys) (simp_all, meson order_trans set_remove1_subset)
  then have "set (obj_to_dispose w2) \<subseteq> set (obj_to_dispose w)" using 1(3) 2(3) by (auto simp: with_ids_def)
  moreover have "obj_delete_or_unload S E D other root fl w = Some w2"
    using n(1) p(1,3) 1(1) 2(1) by (simp add: obj_delete_or_unload_def coll_ids_def)
  moreover have memory: "memory_part ?w = memory_part w" by (simp add: with_ids_def memory_part_eq)
  have "deleted S E ?R w w2"
    using del memory by (auto simp: deleted_def mark_def)
  ultimately show ?thesis using consistent_deleted [OF w] by blast
qed

end
