(* ===== verification/Relation_Restore.thy ===== *)
theory Relation_Restore
  imports Relation_Refinement "HOL-Library.Multiset"
begin

text \<open>
  Restoring many relations at once (\<^verbatim>\<open>Relational::restore_rel\<close> of an array, \<^verbatim>\<open>objRelation.h.cxx\<close>):
  the array is grown by the reversed links, neighbours of the same object and type are put in one
  step, and then the hooks are called. It is compared with restoring one link after the other.
\<close>

record rel_struct =
  rs_src :: obj
  rs_trg :: obj
  rs_rel :: rel

section \<open>The code\<close>

definition reverse_struct :: "'s env \<Rightarrow> rel_struct \<Rightarrow> rel_struct" where
  "reverse_struct E l = \<lparr>rs_src = rs_trg l, rs_trg = rs_src l, rs_rel = inverse_type (types E (rs_rel l))\<rparr>"

definition with_reversed :: "'s env \<Rightarrow> rel_struct list \<Rightarrow> rel_struct list" where
  "with_reversed E ls = ls @ map (reverse_struct E) (filter (\<lambda>l. rs_trg l \<noteq> db_null E) ls)"

fun add_ptrs :: "'s nih_set \<Rightarrow> 's env \<Rightarrow> obj \<Rightarrow> obj list \<Rightarrow> rel \<Rightarrow> 's relations \<Rightarrow> 's relations option" where
  "add_ptrs S E src [] rt w = Some w"
| "add_ptrs S E src (t # ts) rt w = do { w \<leftarrow> priv_add_one_ptr S E src t rt w; add_ptrs S E src ts rt w }"

text \<open>A group of links of the object \<open>src\<close> by the type \<open>rt\<close>.\<close>

definition apply_set :: "'s nih_set \<Rightarrow> 's env \<Rightarrow> obj \<Rightarrow> obj list \<Rightarrow> rel \<Rightarrow> 's relations \<Rightarrow> 's relations option" where
  "apply_set S E src ts rt w =
     (if src = 0 \<or> rt = 0 \<or> 0 \<in> set ts then None
      else if offset (types E rt) \<noteq> 0 then add_ptrs S E src ts rt w
      else if length ts = 1 then priv_add_one_rel S E src (hd ts) rt w
      else case relArr_index (rel_list w src) rt of
        None \<Rightarrow> Some (put_rels src (rel_list w src @ [\<lparr>rel_type = rt, members = Many (fold (set_add S) ts (set_new S (length ts)))\<rparr>]) w)
      | Some i \<Rightarrow>
          (let os = (case members (rel_list w src ! i) of Many s \<Rightarrow> s | One b \<Rightarrow> set_add S b (set_new S (length ts + 1)))
           in Some (put_members src i (Many (fold (set_add S) ts os)) w)))"

function apply_sets :: "'s nih_set \<Rightarrow> 's env \<Rightarrow> rel_struct list \<Rightarrow> 's relations \<Rightarrow> 's relations option" where
  "apply_sets S E [] w = Some w"
| "apply_sets S E (l # ls) w =
     (let same_key = (\<lambda>k. rs_src k = rs_src l \<and> rs_rel k = rs_rel l); group = l # takeWhile same_key ls
      in do { w \<leftarrow> apply_set S E (rs_src l) (map rs_trg group) (rs_rel l) w;
              apply_sets S E (dropWhile same_key ls) w })"
  by pat_completeness auto

termination apply_sets
  by (relation "measure (\<lambda>(S, E, ls, w). length ls)") (auto simp: length_dropWhile_le le_imp_less_Suc)

fun restore_hooks :: "'s env \<Rightarrow> rel_struct list \<Rightarrow> 's relations \<Rightarrow> 's relations option" where
  "restore_hooks E [] w = Some w"
| "restore_hooks E (l # ls) w =
     do { w \<leftarrow> (if rs_trg l \<noteq> db_null E then run_hook E 0 (One (rs_src l)) (One (rs_trg l)) (rs_rel l) w else Some w);
          restore_hooks E ls w }"

definition restore_rels :: "'s nih_set \<Rightarrow> 's env \<Rightarrow> rel_struct list \<Rightarrow> 's relations \<Rightarrow> 's relations option" where
  "restore_rels S E ls w =
     do { let all_ls = with_reversed E ls;
          w \<leftarrow> apply_sets S E all_ls w;
          restore_hooks E all_ls w }"

text \<open>The reference: one link after the other.\<close>

fun restore_each :: "'s nih_set \<Rightarrow> 's env \<Rightarrow> rel_struct list \<Rightarrow> 's relations \<Rightarrow> 's relations option" where
  "restore_each S E [] w = Some w"
| "restore_each S E (l # ls) w =
     do { w \<leftarrow> (if rs_trg l = db_null E then put_dbnull S E (rs_src l) (rs_rel l) w
               else restore_rel S E (rs_src l) (rs_trg l) (rs_rel l) w);
          restore_each S E ls w }"

section \<open>What is added\<close>

definition adds :: "(obj \<Rightarrow> rel \<Rightarrow> obj set) \<Rightarrow> rel_struct list \<Rightarrow> obj \<Rightarrow> rel \<Rightarrow> obj set" where
  "adds L ls x rt = L x rt \<union> rs_trg ` {l \<in> set ls. rs_src l = x \<and> rs_rel l = rt}"

lemma adds_simps [simp]:
  "adds L [] = L" "adds (adds L ks) ls = adds L (ks @ ls)"
  by (auto simp: adds_def fun_eq_iff)

lemma adds_filter: "adds L ls x rt = L x rt \<union> set (map rs_trg (filter (\<lambda>l. rs_src l = x \<and> rs_rel l = rt) ls))"
  by (auto simp: adds_def)

lemma adds_set: "set ks = set ls \<Longrightarrow> adds L ks = adds L ls"
  by (simp add: adds_def fun_eq_iff)

text \<open>Links by a type of cardinality 1 occur once, and the object has no other.\<close>

definition keyed :: "rel_struct \<Rightarrow> rel_struct list \<Rightarrow> rel_struct list" where
  "keyed l ls = filter (\<lambda>k. rs_src k = rs_src l \<and> rs_rel k = rs_rel l) ls"

definition fits :: "'s env \<Rightarrow> (obj \<Rightarrow> rel \<Rightarrow> obj set) \<Rightarrow> rel_struct list \<Rightarrow> bool" where
  "fits E L ls \<longleftrightarrow> (\<forall>l \<in> set ls. rs_src l \<noteq> 0 \<and> rs_trg l \<noteq> 0 \<and> rs_rel l \<noteq> 0 \<and>
     (cardinality (types E (rs_rel l)) = 1 \<longrightarrow> L (rs_src l) (rs_rel l) \<subseteq> {rs_trg l} \<and> length (keyed l ls) = 1))"

lemma keyed_append: "keyed l (ks @ ls) = keyed l ks @ keyed l ls" by (simp add: keyed_def)

lemma keyed_in: "l \<in> set ls \<Longrightarrow> length (keyed l ls) \<ge> 1"
  by (auto simp: keyed_def Suc_le_eq filter_empty_conv)

lemma fits_append:
  assumes "fits E L (ks @ ls)"
  shows "fits E L ks" "fits E (adds L ks) ls"
proof -
  show "fits E L ks"
    using assms keyed_in unfolding fits_def keyed_append by (fastforce simp: keyed_in)
  show "fits E (adds L ks) ls"
    unfolding fits_def
  proof (intro ballI conjI impI)
    fix l assume l: "l \<in> set ls"
    then have a: "rs_src l \<noteq> 0 \<and> rs_trg l \<noteq> 0 \<and> rs_rel l \<noteq> 0 \<and> (cardinality (types E (rs_rel l)) = 1 \<longrightarrow>
        L (rs_src l) (rs_rel l) \<subseteq> {rs_trg l} \<and> length (keyed l ks) + length (keyed l ls) = 1)"
      using assms by (auto simp: fits_def keyed_append)
    then show "rs_src l \<noteq> 0" "rs_trg l \<noteq> 0" "rs_rel l \<noteq> 0" by simp_all
    assume c: "cardinality (types E (rs_rel l)) = 1"
    then have "length (keyed l ks) = 0" using a keyed_in [OF l] by linarith
    then have k: "keyed l ks = []" by simp
    then show "adds L ks (rs_src l) (rs_rel l) \<subseteq> {rs_trg l}"
      using a c by (auto simp: adds_def keyed_def filter_empty_conv)
    show "length (keyed l ls) = 1" using a c k by simp
  qed
qed

section \<open>The groups\<close>

lemma add_makes:
  assumes "set_laws S" "quiet_hooks E" "rels_ok S E w" and f: "fits E (links S E w) [l]"
  shows "makes S E w (priv_add_one_rel S E (rs_src l) (rs_trg l) (rs_rel l) w) (adds (links S E w) [l])"
proof -
  let ?x = "rs_src l" and ?m = "rs_trg l" and ?rt = "rs_rel l" and ?L = "links S E w"
  have nz: "?x \<noteq> 0" "?m \<noteq> 0" "?rt \<noteq> 0" and c: "cardinality (types E ?rt) = 1 \<Longrightarrow> ?L ?x ?rt \<subseteq> {?m}"
    using f by (simp_all add: fits_def)
  have "makes S E w (priv_add_one_rel S E ?x ?m ?rt w) (add_links E ?L ?x ?m ?rt)"
    using c by (intro add_one_makes [OF assms(1-3) nz]) blast
  moreover have "add_links E ?L ?x ?m ?rt = adds ?L [l]"
  proof (cases "cardinality (types E ?rt) = 1")
    case True
    then have "displace E ?L ?x ?m ?rt = ?L" using c by (intro ext) (auto simp: displace_def)
    then show ?thesis using True c by (intro ext) (auto simp: add_links_def adds_def)
  next
    case False
    then show ?thesis by (intro ext) (auto simp: add_links_def adds_def)
  qed
  ultimately show ?thesis by simp
qed

definition grouped :: "obj \<Rightarrow> rel \<Rightarrow> rel_struct list \<Rightarrow> bool" where
  "grouped src rt gs \<longleftrightarrow> (\<forall>l \<in> set gs. rs_src l = src \<and> rs_rel l = rt)"

lemma keyed_grouped: "grouped src rt gs \<Longrightarrow> l \<in> set gs \<Longrightarrow> keyed l gs = gs"
  by (auto simp: grouped_def keyed_def filter_id_conv)

lemma adds_grouped: "grouped src rt gs \<Longrightarrow> adds L gs = upd L src rt (L src rt \<union> rs_trg ` set gs)"
  by (intro ext) (auto simp: adds_def grouped_def)

lemma add_ptrs_makes:
  assumes "set_laws S" "quiet_hooks E" "offset (types E rt) \<noteq> 0"
  shows "rels_ok S E w \<Longrightarrow> grouped src rt gs \<Longrightarrow> fits E (links S E w) gs \<Longrightarrow>
    makes S E w (add_ptrs S E src (map rs_trg gs) rt w) (adds (links S E w) gs)"
proof (induction gs arbitrary: w)
  case Nil
  then show ?case by (simp add: makes_def)
next
  case (Cons l gs)
  have f: "fits E (links S E w) [l]" "fits E (adds (links S E w) [l]) gs"
    using fits_append [of E "links S E w" "[l]" gs] Cons.prems(3) by simp_all
  have "rs_src l = src" "rs_rel l = rt" "grouped src rt gs" using Cons.prems(2) by (simp_all add: grouped_def)
  then have "priv_add_one_ptr S E src (rs_trg l) rt w = priv_add_one_rel S E (rs_src l) (rs_trg l) (rs_rel l) w"
    using assms(3) f(1) by (simp add: priv_add_one_rel_def fits_def)
  then have 1: "makes S E w (priv_add_one_ptr S E src (rs_trg l) rt w) (adds (links S E w) [l])"
    using add_makes [OF assms(1,2) Cons.prems(1) f(1)] by simp
  show ?case
    unfolding list.map add_ptrs.simps
  proof (rule makes_bind [OF 1])
    fix w' assume "rels_ok S E w'" "links S E w' = adds (links S E w) [l]"
    then show "makes S E w' (add_ptrs S E src (map rs_trg gs) rt w') (adds (links S E w) (l # gs))"
      using Cons.IH [of w'] f(2) \<open>grouped src rt gs\<close> by simp
  qed
qed

lemma set_fold_add: "set_laws S \<Longrightarrow> set (set_elems S (fold (set_add S) ts s)) = set ts \<union> set (set_elems S s)"
  by (induction ts arbitrary: s) (auto simp: set_facts)

lemma apply_set_makes:
  assumes S: "set_laws S" and H: "quiet_hooks E" and w: "rels_ok S E w"
    and g: "grouped src rt gs" "gs \<noteq> []" and f: "fits E (links S E w) gs"
  shows "makes S E w (apply_set S E src (map rs_trg gs) rt w) (adds (links S E w) gs)"
proof -
  have nz: "src \<noteq> 0" "rt \<noteq> 0" "0 \<notin> rs_trg ` set gs"
    using f g by (cases gs; force simp: fits_def grouped_def)+
  show ?thesis
  proof (cases "offset (types E rt) \<noteq> 0 \<or> length gs = 1")
    case True
    then consider "offset (types E rt) \<noteq> 0" | l where "gs = [l]" "offset (types E rt) = 0" by (auto simp: length_Suc_conv)
    then show ?thesis
    proof cases
      case 1
      then show ?thesis using add_ptrs_makes [OF S H 1 w g(1) f] nz by (simp add: apply_set_def)
    next
      case 2
      then show ?thesis using add_makes [OF S H w, of l] f g(1) nz by (simp add: apply_set_def grouped_def)
    qed
  next
    case False
    then have o: "offset (types E rt) = 0" "length gs \<noteq> 1" by simp_all
    have c: "cardinality (types E rt) \<noteq> 1"
      using f g o(2) keyed_grouped [OF g(1)] by (cases gs) (auto simp: fits_def grouped_def)
    let ?ts = "map rs_trg gs"
    have e: "set (elems S (Many (fold (set_add S) ?ts s))) = rs_trg ` set gs \<union> set (set_elems S s)" for s
      using set_fold_add [OF S, of ?ts s] by simp
    have m: "members_ok S E rt (Many (fold (set_add S) ?ts s))" if "0 \<notin> set (set_elems S s)" for s
      unfolding members_ok_def elems_nonempty e using nz(3) that c g(2) by simp
    show ?thesis
    proof (cases "relArr_index (rel_list w src) rt")
      case None
      let ?m = "Many (fold (set_add S) ?ts (set_new S (length ?ts)))"
      have "links S E w src rt = {}" using None o(1) by (simp add: links_row)
      then have "upd (links S E w) src rt (set (elems S ?m)) = adds (links S E w) gs"
        unfolding e adds_grouped [OF g(1)] by (simp add: set_facts(5) [OF S])
      then show ?thesis
        using put_rels_append [OF w None o(1) nz(2,1) m [of "set_new S (length ?ts)"]] None o nz
        by (simp add: apply_set_def relArr_append_def set_facts(5) [OF S])
    next
      case (Some i)
      let ?os = "case members (rel_list w src ! i) of Many s \<Rightarrow> s | One b \<Rightarrow> set_add S b (set_new S (length ?ts + 1))"
      have old: "set (set_elems S ?os) = set (elems S (members (rel_list w src ! i)))"
        by (cases "members (rel_list w src ! i)") (simp_all add: set_facts [OF S])
      moreover have "members_ok S E rt (members (rel_list w src ! i))" using row_members_ok [OF w Some] by blast
      ultimately have z: "0 \<notin> set (set_elems S ?os)" by (simp add: members_ok_def)
      have "links S E w src rt = set (set_elems S ?os)" using Some o(1) old by (simp add: links_row)
      then have "upd (links S E w) src rt (set (elems S (Many (fold (set_add S) ?ts ?os)))) = adds (links S E w) gs"
        unfolding e adds_grouped [OF g(1)] by (simp add: Un_commute)
      then show ?thesis using put_members_makes [OF w Some m [OF z]] Some o nz by (simp add: apply_set_def Let_def)
    qed
  qed
qed

lemma apply_sets_makes:
  assumes "set_laws S" "quiet_hooks E"
  shows "rels_ok S E w \<Longrightarrow> fits E (links S E w) ls \<Longrightarrow> makes S E w (apply_sets S E ls w) (adds (links S E w) ls)"
proof (induction "length ls" arbitrary: ls w rule: less_induct)
  case less
  show ?case
  proof (cases ls)
    case Nil
    then show ?thesis using less.prems by (simp add: makes_def)
  next
    case (Cons l ks)
    let ?k = "\<lambda>k. rs_src k = rs_src l \<and> rs_rel k = rs_rel l"
    let ?g = "l # takeWhile ?k ks" and ?r = "dropWhile ?k ks"
    have ls: "ls = ?g @ ?r" using Cons by simp
    have f: "fits E (links S E w) ?g" "fits E (adds (links S E w) ?g) ?r"
      using fits_append [of E "links S E w" ?g ?r] less.prems(2) ls by simp_all
    have g: "grouped (rs_src l) (rs_rel l) ?g" by (auto simp: grouped_def dest: set_takeWhileD)
    have "makes S E w (apply_set S E (rs_src l) (map rs_trg ?g) (rs_rel l) w \<bind> apply_sets S E ?r) (adds (links S E w) ls)"
    proof (rule makes_bind [OF apply_set_makes [OF assms less.prems(1) g _ f(1)]])
      fix w' assume w': "rels_ok S E w'" "links S E w' = adds (links S E w) ?g"
      have "length ?r < length ls" using Cons by (simp add: length_dropWhile_le le_imp_less_Suc)
      then show "makes S E w' (apply_sets S E ?r w') (adds (links S E w) ls)"
        using less.hyps [of ?r w'] w' f(2) ls by simp
    qed simp
    then show ?thesis using Cons by (simp add: Let_def)
  qed
qed

lemma run_hook_makes: "quiet_hooks E \<Longrightarrow> rels_ok S E w \<Longrightarrow> makes S E w (run_hook E t a b rt w) (links S E w)"
proof (cases "hook E rt")
  case (Some h)
  assume "quiet_hooks E" "rels_ok S E w"
  then obtain w' where w': "h t a b rt w = Some w'" "same w w'" "rel_list w' = rel_list w" "ptr_fields w' = ptr_fields w"
    using Some unfolding quiet_hooks_def quiet_def by blast
  then show ?thesis
    using \<open>rels_ok S E w\<close> links_cong [OF w'(3,4), of S E] rels_ok_cong [OF w'(3,4), of S E] Some by (simp add: run_hook_def makes_def)
qed (simp add: run_hook_def makes_def)

lemma restore_hooks_makes:
  assumes "quiet_hooks E"
  shows "rels_ok S E w \<Longrightarrow> makes S E w (restore_hooks E ls w) (links S E w)"
proof (induction ls arbitrary: w)
  case Nil
  then show ?case by (simp add: makes_def)
next
  case (Cons l ls)
  have "makes S E w (if rs_trg l \<noteq> db_null E then run_hook E 0 (One (rs_src l)) (One (rs_trg l)) (rs_rel l) w else Some w) (links S E w)"
    using run_hook_makes [OF assms Cons.prems] makes_same [OF Cons.prems] by simp
  then show ?case
    unfolding restore_hooks.simps
  proof (rule makes_bind)
    fix w' assume "rels_ok S E w'" "links S E w' = links S E w"
    then show "makes S E w' (restore_hooks E ls w') (links S E w)" using Cons.IH [of w'] by simp
  qed
qed

text \<open>Restoring all at once adds the links and their reverse links.\<close>

lemma restore_rels_makes:
  assumes "set_laws S" "quiet_hooks E" "rels_ok S E w" "fits E (links S E w) (with_reversed E ls)"
  shows "makes S E w (restore_rels S E ls w) (adds (links S E w) (with_reversed E ls))"
proof -
  have "makes S E w (apply_sets S E (with_reversed E ls) w \<bind> restore_hooks E (with_reversed E ls)) (adds (links S E w) (with_reversed E ls))"
    by (rule makes_bind [OF apply_sets_makes [OF assms]]) (use restore_hooks_makes [OF assms(2)] in metis)
  then show ?thesis by (simp add: restore_rels_def Let_def)
qed

section \<open>One after the other\<close>

definition each_struct :: "'s env \<Rightarrow> rel_struct \<Rightarrow> rel_struct list" where
  "each_struct E l = (if rs_trg l = db_null E then [l] else [l, reverse_struct E l])"

lemma mset_each: "mset (concat (map (each_struct E) ls)) = mset (with_reversed E ls)"
proof (induction ls)
  case (Cons l ls)
  then show ?case by (cases "rs_trg l = db_null E") (simp_all add: with_reversed_def each_struct_def)
qed (simp add: with_reversed_def)

lemma fits_mset: "mset ks = mset ls \<Longrightarrow> fits E L ks = fits E L ls"
proof -
  assume m: "mset ks = mset ls"
  have "size (mset (keyed l ks)) = size (mset (keyed l ls))" for l by (simp only: keyed_def mset_filter m)
  then have "length (keyed l ks) = length (keyed l ls)" for l by simp
  then show ?thesis using mset_eq_setD [OF m] by (simp add: fits_def)
qed

lemma restore_rel_makes:
  assumes "set_laws S" "quiet_hooks E" "rels_ok S E w" "rs_trg l \<noteq> db_null E" and f: "fits E (links S E w) (each_struct E l)"
  shows "makes S E w (restore_rel S E (rs_src l) (rs_trg l) (rs_rel l) w) (adds (links S E w) (each_struct E l))"
proof -
  let ?k = "reverse_struct E l"
  have e: "each_struct E l = [l] @ [?k]" using assms(4) by (simp add: each_struct_def)
  have f: "fits E (links S E w) [l]" "fits E (adds (links S E w) [l]) [?k]" using fits_append f unfolding e by blast+
  then have i: "inverse_type (types E (rs_rel l)) \<noteq> 0" by (simp add: fits_def reverse_struct_def)
  have "makes S E w (priv_add_one_rel S E (rs_src l) (rs_trg l) (rs_rel l) w \<bind>
      (\<lambda>w. priv_add_one_rel S E (rs_src ?k) (rs_trg ?k) (rs_rel ?k) w \<bind>
        call_rel_hook E 0 (rs_rel l) (inverse_type (types E (rs_rel l))) (One (rs_src l)) (One (rs_trg l))))
      (adds (links S E w) (each_struct E l))"
  proof (rule makes_bind [OF add_makes [OF assms(1-3) f(1)]])
    fix w1 assume 1: "rels_ok S E w1" "links S E w1 = adds (links S E w) [l]"
    have "makes S E w1 (priv_add_one_rel S E (rs_src ?k) (rs_trg ?k) (rs_rel ?k) w1) (adds (links S E w) (each_struct E l))"
      using add_makes [OF assms(1,2) 1(1), of ?k] f(2) 1(2) unfolding e by simp
    then show "makes S E w1 (priv_add_one_rel S E (rs_src ?k) (rs_trg ?k) (rs_rel ?k) w1 \<bind>
        call_rel_hook E 0 (rs_rel l) (inverse_type (types E (rs_rel l))) (One (rs_src l)) (One (rs_trg l))) (adds (links S E w) (each_struct E l))"
      by (rule makes_bind) (use hook_makes [OF assms(2)] in metis)
  qed
  then show ?thesis using i by (simp add: restore_rel_def Let_def reverse_struct_def)
qed

lemma restore_each_makes:
  assumes "set_laws S" "quiet_hooks E"
  shows "rels_ok S E w \<Longrightarrow> fits E (links S E w) (concat (map (each_struct E) ls)) \<Longrightarrow>
    makes S E w (restore_each S E ls w) (adds (links S E w) (concat (map (each_struct E) ls)))"
proof (induction ls arbitrary: w)
  case Nil
  then show ?case by (simp add: makes_def)
next
  case (Cons l ls)
  let ?c = "concat (map (each_struct E) ls)"
  have f: "fits E (links S E w) (each_struct E l)" "fits E (adds (links S E w) (each_struct E l)) ?c"
    using fits_append [of E "links S E w" "each_struct E l" ?c] Cons.prems(2) by simp_all
  have 1: "makes S E w (if rs_trg l = db_null E then put_dbnull S E (rs_src l) (rs_rel l) w
      else restore_rel S E (rs_src l) (rs_trg l) (rs_rel l) w) (adds (links S E w) (each_struct E l))"
  proof (cases "rs_trg l = db_null E")
    case True
    then have "each_struct E l = [l]" by (simp add: each_struct_def)
    then show ?thesis using add_makes [OF assms Cons.prems(1), of l] f(1) True by (simp add: put_dbnull_def)
  next
    case False
    then show ?thesis using restore_rel_makes [OF assms Cons.prems(1) False f(1)] by simp
  qed
  show ?case
    unfolding restore_each.simps
  proof (rule makes_bind [OF 1])
    fix w' assume w': "rels_ok S E w'" "links S E w' = adds (links S E w) (each_struct E l)"
    show "makes S E w' (restore_each S E ls w') (adds (links S E w) (concat (map (each_struct E) (l # ls))))"
      using Cons.IH [OF w'(1)] f(2) w'(2) by simp
  qed
qed

lemma adds_symmetric:
  assumes T: "types_ok E" and s: "symmetric S E w" and n: "db_null E \<notin> rs_trg ` set ls"
    and l: "links S E w' = adds (links S E w) (with_reversed E ls)" and f: "fits E (links S E w) (with_reversed E ls)"
  shows "symmetric S E w'"
proof -
  let ?all = "set (with_reversed E ls)"
  have all: "with_reversed E ls = ls @ map (reverse_struct E) ls"
    using n by (subst with_reversed_def, subst filter_True) (auto simp: image_iff)
  have twice: "reverse_struct E (reverse_struct E k) = k" if "k \<in> set ls" for k
  proof -
    have "reverse_struct E k \<in> ?all" using that by (simp add: all)
    then have "rs_rel (reverse_struct E k) \<noteq> 0" using f unfolding fits_def by blast
    then have "inverse_type (types E (rs_rel k)) \<noteq> 0" by (simp add: reverse_struct_def)
    then show ?thesis using inv_inv [OF T] by (simp add: reverse_struct_def)
  qed
  have closed: "reverse_struct E k \<in> ?all" if "k \<in> ?all" for k
    using that twice by (auto simp: all)
  have one: "x \<in> rs_trg ` {k \<in> ?all. rs_src k = y \<and> rs_rel k = inverse_type (types E rt)}"
    if "y \<in> rs_trg ` {k \<in> ?all. rs_src k = x \<and> rs_rel k = rt}" for x y rt
    using that closed by (force simp: reverse_struct_def)
  show ?thesis
    unfolding symmetric_def
  proof (intro allI impI)
    fix x y rt assume i: "inverse_type (types E rt) \<noteq> 0"
    have "y \<in> links S E w x rt \<longleftrightarrow> x \<in> links S E w y (inverse_type (types E rt))" using s i by (simp add: symmetric_def)
    then show "y \<in> links S E w' x rt \<longleftrightarrow> x \<in> links S E w' y (inverse_type (types E rt))"
      unfolding l adds_def using one [of y x rt] one [of x y "inverse_type (types E rt)"] inv_inv [OF T i] by auto
  qed
qed

end
