(* ===== verification/Object_Properties.thy ===== *)
theory Object_Properties
  imports Deletion_Properties Relation_Restore
begin

text \<open>
  The properties of the relations between objects and of their deletion, also at the end of a
  transaction.
\<close>

section \<open>An example\<close>

text \<open>Sets as lists; the types 1 and 2 are dynamic and many to many, 3 and 4 fixed and one to one, 5 is
  one-way, and every other type is its own inverse. Type 1 and 3 propagate deletion.\<close>

definition list_set :: "obj list nih_set" where
  "list_set = \<lparr>set_new = (\<lambda>_. []), set_add = (\<lambda>x s. s @ [x]), set_remove = (\<lambda>x s. filter (\<lambda>y. y \<noteq> x) s),
     set_includes = (\<lambda>s x. x \<in> set s), set_size = (\<lambda>s. length (remdups s)), set_elems = remdups\<rparr>"

definition demo_env :: "bool \<Rightarrow> obj list env" where
  "demo_env one_way = \<lparr>types = (\<lambda>rt.
       if rt = 1 then \<lparr>inverse_type = 2, cardinality = 100000, flags = 8, offset = 0, hcs = False\<rparr>
       else if rt = 2 then \<lparr>inverse_type = 1, cardinality = 100000, flags = 0, offset = 0, hcs = False\<rparr>
       else if rt = 3 then \<lparr>inverse_type = 4, cardinality = 1, flags = 8, offset = 16, hcs = False\<rparr>
       else if rt = 4 then \<lparr>inverse_type = 3, cardinality = 1, flags = 0, offset = 24, hcs = False\<rparr>
       else if rt = 5 \<and> one_way then \<lparr>inverse_type = 0, cardinality = 1, flags = 0, offset = 0, hcs = False\<rparr>
       else \<lparr>inverse_type = rt, cardinality = 1, flags = 0, offset = 0, hcs = False\<rparr>),
     class_rels = (\<lambda>_. Some [3, 4]), hook = (\<lambda>_. None), ref_smt_of_dd = 0, db_null = 99, db_restore_complete = (\<lambda>_ w. Some (True, w))\<rparr>"

definition demo_methods :: "obj list methods" where
  "demo_methods = \<lparr>destroy = (\<lambda>_. Some), notify = (\<lambda>_ _ _ _. Some), is_app = (\<lambda>x. x = 1), is_header_rel = (\<lambda>_. False),
     is_objTree = (\<lambda>_. False), tree_children = (\<lambda>_. []), get_header = (\<lambda>_. 0), obj_remove = (\<lambda>_ _. Some), delete_node_views = (\<lambda>_. Some)\<rparr>"

definition demo_world :: "(obj \<Rightarrow> obj list relation list) \<Rightarrow> (obj \<Rightarrow> rel \<Rightarrow> obj list members option) \<Rightarrow> obj list \<Rightarrow> obj list relations" where
  "demo_world rels ptrs pending = transactions.extend ((transactions_init (\<lambda>_. 1))\<lparr>transac_level := 1, obj_to_dispose := pending\<rparr>)
     (relations.fields rels ptrs)"

lemma demo_world_simps [simp]:
  "rel_list (demo_world rels ptrs p) = rels" "ptr_fields (demo_world rels ptrs p) = ptrs" "obj_id (demo_world rels ptrs p) = (\<lambda>_. 1)"
  "obj_to_dispose (demo_world rels ptrs p) = p" "transac_level (demo_world rels ptrs p) = 1"
  by (simp_all add: demo_world_def transactions.extend_def relations.fields_def transactions_init_def)

lemma demo_type_simps [simp]:
  "inverse_type (types (demo_env b) rt) = (if rt = 1 then 2 else if rt = 2 then 1 else if rt = 3 then 4 else if rt = 4 then 3
     else if rt = 5 \<and> b then 0 else rt)"
  "cardinality (types (demo_env b) rt) = (if rt = 1 \<or> rt = 2 then 100000 else 1)"
  "flags (types (demo_env b) rt) = (if rt = 1 \<or> rt = 3 then 8 else 0)"
  "offset (types (demo_env b) rt) = (if rt = 3 then 16 else if rt = 4 then 24 else 0)"
  "pointer_rels (demo_env b) x = [3, 4]" "db_null (demo_env b) = 99"
  by (simp_all add: demo_env_def pointer_rels_def)

lemma list_set_laws: "set_laws list_set"
  by (auto simp: set_laws_def list_set_def)

lemma demo_quiet: "quiet_hooks (demo_env b)" "quiet_methods demo_methods"
  by (auto simp: quiet_hooks_def quiet_methods_def quiet_def demo_env_def demo_methods_def)

lemma demo_types: "types_ok (demo_env b)" "two_way (demo_env False)"
  by (auto simp: types_ok_def two_way_def)

lemma demo_deletable: "deletable list_set (demo_env False) demo_methods"
  using list_set_laws demo_quiet demo_types by (simp add: deletable_def)

text \<open>Object 1 owns 2 and 3, object 4 owns 3, and 2 is fixed to 5.\<close>

definition demo_rels :: "obj \<Rightarrow> obj list relation list" where
  "demo_rels = (\<lambda>_. [])(1 := [\<lparr>rel_type = 1, members = Many [2, 3]\<rparr>], 2 := [\<lparr>rel_type = 2, members = One 1\<rparr>],
     3 := [\<lparr>rel_type = 2, members = Many [1, 4]\<rparr>], 4 := [\<lparr>rel_type = 1, members = One 3\<rparr>])"

definition demo_ptrs :: "obj \<Rightarrow> rel \<Rightarrow> obj list members option" where
  "demo_ptrs = (\<lambda>_ _. None)(2 := (\<lambda>_. None)(3 := Some (One 5)), 5 := (\<lambda>_. None)(4 := Some (One 2)))"

abbreviation demo :: "obj list \<Rightarrow> obj list relations" where
  "demo \<equiv> demo_world demo_rels demo_ptrs"

lemma demo_links: "links list_set (demo_env b) (demo p) x rt =
   (if rt = 1 then if x = 1 then {2, 3} else if x = 4 then {3} else {}
    else if rt = 2 then if x = 2 then {1} else if x = 3 then {1, 4} else {}
    else if rt = 3 then if x = 2 then {5} else {}
    else if rt = 4 then if x = 5 then {2} else {} else {})"
  by (auto simp: links_def get_raw_ptr_def demo_rels_def demo_ptrs_def list_set_def)

lemma demo_consistent: "rels_ok list_set (demo_env b) (demo p)" "symmetric list_set (demo_env b) (demo p)"
  "consistent list_set (demo_env b) (demo p)"
proof -
  show 1: "rels_ok list_set (demo_env b) (demo p)"
    by (auto simp: rels_ok_def row_ok_def members_ok_def demo_rels_def demo_ptrs_def list_set_def split: if_splits)
  show 2: "symmetric list_set (demo_env b) (demo p)"
    unfolding symmetric_def
  proof (intro allI impI)
    fix x y rt :: nat
    consider "rt = 1" | "rt = 2" | "rt = 3" | "rt = 4" | "rt \<notin> {1, 2, 3, 4}" by blast
    then show "y \<in> links list_set (demo_env b) (demo p) x rt \<longleftrightarrow>
        x \<in> links list_set (demo_env b) (demo p) y (inverse_type (types (demo_env b) rt))"
      by cases (simp_all add: demo_links)
  qed
  have 3: "loaded list_set (demo_env b) (demo p)" by (simp add: loaded_def demo_links)
  have "complete (demo_env b) (links list_set (demo_env b) (demo p))"
    by (simp add: complete_def demo_links)
  then show "consistent list_set (demo_env b) (demo p)" using 1 2 3 by (simp add: consistent_def)
qed

section \<open>Links\<close>

text \<open>C21: Relating two objects links them in both directions, and displaces what either was linked
  to where the cardinality is 1; removing a link takes it out in both directions. All other links
  stay as they are, and every link keeps its reverse.\<close>

theorem links_refine:
  assumes "set_laws S" "quiet_hooks E" "types_ok E" "rels_ok S E w" "symmetric S E w"
    and "x \<noteq> 0" "m \<noteq> 0" "rt \<noteq> 0" "inverse_type (types E rt) \<noteq> 0"
  shows "(\<exists>w'. put_rel S E x m rt w = Some w' \<and> rels_ok S E w' \<and> symmetric S E w' \<and> obj_id w' = obj_id w \<and>
      links S E w' = put_links E x m rt (links S E w)) \<and>
    (m \<in> links S E w x rt \<longrightarrow> (\<exists>w'. rem_rel S E x m rt w = Some w' \<and> rels_ok S E w' \<and> symmetric S E w' \<and> obj_id w' = obj_id w \<and>
      links S E w' = rem_links E x m rt (links S E w)))"
proof (intro conjI impI)
  have b: "both_ways E (links S E w)" using assms(5) by (simp add: symmetric_links)
  show "\<exists>w'. put_rel S E x m rt w = Some w' \<and> rels_ok S E w' \<and> symmetric S E w' \<and> obj_id w' = obj_id w \<and>
      links S E w' = put_links E x m rt (links S E w)"
    using put_rel_makes [OF assms] put_links_both_ways [OF assms(3,9,8) b] by (auto simp: makes_def symmetric_links same_def)
  assume "m \<in> links S E w x rt"
  then show "\<exists>w'. rem_rel S E x m rt w = Some w' \<and> rels_ok S E w' \<and> symmetric S E w' \<and> obj_id w' = obj_id w \<and>
      links S E w' = rem_links E x m rt (links S E w)"
    using rem_rel_makes [OF assms] rem_links_both_ways [OF assms(3,9,8) b] by (auto simp: makes_def symmetric_links same_def)
qed

theorem links_refine_witness:
  "\<exists>w'. put_rel list_set (demo_env False) 2 1 3 (demo []) = Some w' \<and> symmetric list_set (demo_env False) w' \<and>
     links list_set (demo_env False) w' 2 3 = {1} \<and> links list_set (demo_env False) w' 5 4 = {}"
proof -
  have "inverse_type (types (demo_env False) 3) \<noteq> 0" by simp
  from links_refine [OF list_set_laws demo_quiet(1) demo_types(1) demo_consistent(1,2) _ _ _ this, of 2 1 "[]"]
  obtain w' where w': "put_rel list_set (demo_env False) 2 1 3 (demo []) = Some w'" "symmetric list_set (demo_env False) w'"
    "links list_set (demo_env False) w' = put_links (demo_env False) 2 1 3 (links list_set (demo_env False) (demo []))" by auto
  have "links list_set (demo_env False) w' 2 3 = {1}" "links list_set (demo_env False) w' 5 4 = {}"
    unfolding w'(3) by (auto simp: put_links_def displaced_def linked_def demo_links)
  then show ?thesis using w' by simp
qed

text \<open>Removing all relations of an object ends, and takes away exactly the links of the dynamic types
  that start at it and their reverse links.\<close>

theorem all_relations_removed:
  assumes "set_laws S" "quiet_hooks E" "types_ok E" "rels_ok S E w" "symmetric S E w"
  shows "\<exists>w'. rem_rel_all S E x w = Some w' \<and> rels_ok S E w' \<and> rel_list w' x = [] \<and>
    (\<forall>y r. links S E w' y r = {z. z \<in> links S E w y r \<and> \<not> (y = x \<and> offset (types E r) = 0) \<and>
       \<not> (z = x \<and> r \<in> (\<lambda>rt. inverse_type (types E rt)) ` {rt. offset (types E rt) = 0})})"
proof -
  obtain w' where w': "rem_rel_all S E x w = Some w'" "rels_ok S E w'" "links S E w' = cut E x {r. offset (types E r) = 0} (links S E w)"
    using makesE [OF rem_rel_all_makes [OF assms, of x]] by metis
  have "set (map rel_type (rel_list w' x)) = {}" unfolding rel_list_types [OF w'(2)] by (auto simp: w'(3) cut_def)
  then show ?thesis using w' by (simp add: cut_def)
qed

theorem all_relations_removed_witness:
  "\<exists>w'. rem_rel_all list_set (demo_env False) 1 (demo []) = Some w' \<and> rel_list w' 1 = [] \<and> links list_set (demo_env False) w' 3 2 = {4}"
proof -
  let ?E = "demo_env False"
  obtain w' where w': "rem_rel_all list_set ?E 1 (demo []) = Some w'" "rel_list w' 1 = []"
    "\<forall>y r. links list_set ?E w' y r = {z. z \<in> links list_set ?E (demo []) y r \<and> \<not> (y = 1 \<and> offset (types ?E r) = 0) \<and>
       \<not> (z = 1 \<and> r \<in> (\<lambda>rt. inverse_type (types ?E rt)) ` {rt. offset (types ?E rt) = 0})}"
    using all_relations_removed [OF list_set_laws demo_quiet(1) demo_types(1) demo_consistent(1,2) [of False "[]"], where x = 1] by (elim exE conjE)
  have "2 \<in> (\<lambda>rt. inverse_type (types (demo_env False) rt)) ` {rt. offset (types (demo_env False) rt) = 0}"
    by (rule image_eqI [of _ _ 1]) simp_all
  then have "links list_set ?E w' 3 2 = {4}" unfolding w'(3) [rule_format] demo_links by auto
  then show ?thesis using w' by blast
qed

text \<open>Removing a link that does not exist from a fixed relation clears the field although it holds
  another object, whose reverse link stays: the links no longer go both ways.\<close>

theorem removal_of_no_link_clears_field:
  assumes "quiet_hooks E" "rels_ok S E w" "ptr_fields w x rt = Some (One b)" "m \<noteq> b" "m \<noteq> 0" "x \<noteq> b" "symmetric S E w"
    and "inverse_type (types E rt) \<noteq> 0" "offset (types E (inverse_type (types E rt))) \<noteq> 0"
  shows "\<exists>w'. rem_rel S E x m rt w = Some w' \<and> ptr_fields w' x rt = None \<and> x \<in> links S E w' b (inverse_type (types E rt)) \<and>
    \<not> symmetric S E w'"
proof -
  let ?irt = "inverse_type (types E rt)"
  have f: "x \<noteq> 0" "rt \<noteq> 0" "offset (types E rt) \<noteq> 0" using relArr_facts(3) [OF assms(2,3)] by simp_all
  have b: "x \<in> links S E w b ?irt" using symmetricD [OF assms(7,8), of b x] assms(3) f(3) by (simp add: links_field)
  obtain w1 where 1: "(if obj_id w x > 0 then call_rel_hook E (-1) rt ?irt (One x) (One m) w else Some w) = Some w1"
    "rel_list w1 = rel_list w" "ptr_fields w1 = ptr_fields w"
    using keeps_hook [OF assms(1), of w "-1" rt ?irt "One x" "One m"] by (cases "obj_id w x > 0") (auto simp: keeps_def)
  define w2 where "w2 = put_field x rt None w1"
  have 2: "priv_rem_one_rel S E x m rt w1 = Some w2"
    using f assms(3,5) 1(3) by (simp add: priv_rem_one_rel_def priv_rem_one_ptr_def w2_def)
  define w3 where "w3 = priv_rem_one_ptr S m x ?irt w2"
  have 3: "priv_rem_one_rel S E m x ?irt w2 = Some w3" using f assms(5,8,9) by (simp add: priv_rem_one_rel_def w3_def)
  have r: "rem_rel S E x m rt w = Some w3" using f assms(5,8) 1(1) 2 3 by (simp add: rem_rel_def Let_def)
  have same: "ptr_fields w3 y r = ptr_fields w y r" if "(y, r) \<noteq> (x, rt)" "(y, r) \<noteq> (m, ?irt)" for y r
    using that 1(3) by (auto simp: w3_def w2_def priv_rem_one_ptr_def put_field_def Let_def split: option.splits members.splits)
  have cleared: "ptr_fields w3 x rt = None"
    by (auto simp: w3_def w2_def priv_rem_one_ptr_def put_field_def Let_def split: option.splits members.splits)
  have kept: "x \<in> links S E w3 b ?irt"
    using b same [of b ?irt] assms(4,6,9) by (simp add: links_field)
  have "b \<notin> links S E w3 x rt" using cleared f(3) by (simp add: links_field)
  then have "\<not> symmetric S E w3" using kept assms(8) unfolding symmetric_def by blast
  then show ?thesis using r cleared kept by blast
qed

theorem removal_of_no_link_clears_field_witness:
  "\<exists>w'. rem_rel list_set (demo_env False) 2 1 3 (demo []) = Some w' \<and> ptr_fields w' 2 3 = None \<and> 2 \<in> links list_set (demo_env False) w' 5 4 \<and>
    \<not> symmetric list_set (demo_env False) w'"
proof -
  have "ptr_fields (demo []) 2 3 = Some (One 5)" by (simp add: demo_ptrs_def)
  moreover have "inverse_type (types (demo_env False) 3) = 4" "offset (types (demo_env False) 4) \<noteq> 0" by simp_all
  ultimately show ?thesis
    using removal_of_no_link_clears_field [OF demo_quiet(1) demo_consistent(1) _ _ _ _ demo_consistent(2), of "[]" 2 3 5 1 False] by simp
qed

text \<open>In a relation without an inverse whose cardinality is 1 the first link can be put, and putting
  a different one fails: the code asks the old object to remove a link of the type NULL.\<close>

theorem one_way_replacement_fails:
  assumes "set_laws S" "quiet_hooks E" "rels_ok S E w" "x \<noteq> 0" "m \<noteq> 0" "rt \<noteq> 0"
    and "inverse_type (types E rt) = 0" "cardinality (types E rt) = 1"
  shows "put_rel S E x m rt w = None \<longleftrightarrow> (\<exists>b \<in> links S E w x rt. b \<noteq> m)"
proof (cases "\<exists>b \<in> links S E w x rt. b \<noteq> m")
  case True
  then obtain b where b: "b \<in> links S E w x rt" "b \<noteq> m" by blast
  have "call_rel_hook E (-1) rt 0 (One x) (One b) w \<bind> (\<lambda>w. priv_rem_one_rel S E b x 0 w \<bind> f) = None" for f
    by (cases "call_rel_hook E (-1) rt 0 (One x) (One b) w") (simp_all add: priv_rem_one_rel_def)
  then have "priv_add_one_rel S E x m rt w = None"
    using field_one [OF assms(3) b(1) assms(8)] row_one [OF assms(3) b(1) assms(8)] assms(4-8) b(2)
    by (cases "offset (types E rt) = 0") (auto simp: priv_add_one_rel_def priv_add_one_ptr_def Let_def)
  then show ?thesis using True by (simp add: put_rel_def Let_def)
next
  case False
  then have "makes S E w (priv_add_one_rel S E x m rt w) (add_links E (links S E w) x m rt)"
    by (intro add_one_makes [OF assms(1-6)]) auto
  then obtain w1 where 1: "priv_add_one_rel S E x m rt w = Some w1" by (auto simp: makes_def)
  have "keeps w1 (call_rel_hook E 1 rt 0 (One x) (One m) w1)" by (rule keeps_hook [OF assms(2)])
  then show ?thesis using False 1 assms(7) by (auto simp: put_rel_def Let_def keeps_def)
qed

theorem one_way_replacement_fails_witness:
  "put_rel list_set (demo_env True) 7 8 5 (demo_world ((\<lambda>_. [])(7 := [\<lparr>rel_type = 5, members = One 6\<rparr>])) (\<lambda>_ _. None) []) = None"
proof -
  let ?w = "demo_world ((\<lambda>_. [])(7 := [\<lparr>rel_type = 5, members = One 6\<rparr>])) (\<lambda>_ _. None) []"
  have ok: "rels_ok list_set (demo_env True) ?w" by (auto simp: rels_ok_def row_ok_def members_ok_def)
  have "links list_set (demo_env True) ?w 7 5 = {6}" by (simp add: links_def get_raw_ptr_def)
  moreover have "inverse_type (types (demo_env True) 5) = 0" "cardinality (types (demo_env True) 5) = 1" by simp_all
  ultimately show ?thesis using one_way_replacement_fails [OF list_set_laws demo_quiet(1) ok, of 7 8 5] by simp
qed

text \<open>C30: Restoring an array of links at once ends and gives the same links as restoring one after the other: the old
  ones, the given ones and their reverse, which keep every link reversed. This is so when the links fit (\<open>fits\<close>): their
  objects, their types and the inverses of these are not null, and a link by a type of cardinality 1, given or reversed, is the
  only one of its object and type in the array and meets no other in the store. Without this the two ways differ: the array
  puts a set where one member is allowed, and reads through a null pointer for a type without an inverse.\<close>

theorem bulk_restore_equivalent:
  assumes "set_laws S" "quiet_hooks E" "rels_ok S E w" and f: "fits E (links S E w) (with_reversed E ls)"
  shows "\<exists>w1 w2. restore_rels S E ls w = Some w1 \<and> restore_each S E ls w = Some w2 \<and> rels_ok S E w1 \<and>
    links S E w1 = links S E w2 \<and> links S E w1 = adds (links S E w) (with_reversed E ls) \<and>
    (types_ok E \<and> symmetric S E w \<and> db_null E \<notin> rs_trg ` set ls \<longrightarrow> symmetric S E w1)"
proof -
  let ?each = "concat (map (each_struct E) ls)"
  obtain w1 where 1: "restore_rels S E ls w = Some w1" "rels_ok S E w1" "links S E w1 = adds (links S E w) (with_reversed E ls)"
    using makesE [OF restore_rels_makes [OF assms]] by metis
  have "fits E (links S E w) ?each" using f fits_mset [OF mset_each] by blast
  from restore_each_makes [OF assms(1-3) this]
  obtain w2 where 2: "restore_each S E ls w = Some w2" "links S E w2 = adds (links S E w) ?each" by (rule makesE)
  have "adds (links S E w) ?each = adds (links S E w) (with_reversed E ls)"
    by (rule adds_set) (rule mset_eq_setD [OF mset_each])
  then show ?thesis using 1 2 adds_symmetric [OF _ _ _ 1(3) f] by auto
qed

lemma demo_restore_fits: "fits (demo_env False) (links list_set (demo_env False) (demo []))
    (with_reversed (demo_env False) [\<lparr>rs_src = 6, rs_trg = 7, rs_rel = 1\<rparr>, \<lparr>rs_src = 6, rs_trg = 8, rs_rel = 1\<rparr>, \<lparr>rs_src = 7, rs_trg = 9, rs_rel = 3\<rparr>])"
  by (simp add: fits_def with_reversed_def reverse_struct_def keyed_def demo_links)

theorem bulk_restore_equivalent_witness:
  "\<exists>w1. restore_rels list_set (demo_env False)
      [\<lparr>rs_src = 6, rs_trg = 7, rs_rel = 1\<rparr>, \<lparr>rs_src = 6, rs_trg = 8, rs_rel = 1\<rparr>, \<lparr>rs_src = 7, rs_trg = 9, rs_rel = 3\<rparr>] (demo []) = Some w1 \<and>
    links list_set (demo_env False) w1 6 1 = {7, 8} \<and> links list_set (demo_env False) w1 9 4 = {7} \<and> symmetric list_set (demo_env False) w1"
proof -
  let ?ls = "[\<lparr>rs_src = 6, rs_trg = 7, rs_rel = 1\<rparr>, \<lparr>rs_src = 6, rs_trg = 8, rs_rel = 1\<rparr>, \<lparr>rs_src = 7, rs_trg = 9, rs_rel = 3\<rparr>]"
  obtain w1 where 1: "restore_rels list_set (demo_env False) ?ls (demo []) = Some w1"
    "links list_set (demo_env False) w1 = adds (links list_set (demo_env False) (demo [])) (with_reversed (demo_env False) ?ls)"
    "types_ok (demo_env False) \<and> symmetric list_set (demo_env False) (demo []) \<and> db_null (demo_env False) \<notin> rs_trg ` set ?ls \<longrightarrow>
       symmetric list_set (demo_env False) w1"
    using bulk_restore_equivalent [OF list_set_laws demo_quiet(1) demo_consistent(1) demo_restore_fits] by (elim exE conjE)
  have "links list_set (demo_env False) w1 6 1 = {7, 8}" "links list_set (demo_env False) w1 9 4 = {7}"
    by (simp_all add: 1(2) adds_filter with_reversed_def reverse_struct_def demo_links)
  moreover have "symmetric list_set (demo_env False) w1" using 1(3) demo_types(1) demo_consistent(2) by simp
  ultimately show ?thesis using 1(1) by blast
qed

section \<open>Deletion\<close>

abbreviation owned_by :: "'s nih_set \<Rightarrow> 's env \<Rightarrow> 's methods \<Rightarrow> 's relations \<Rightarrow> obj list \<Rightarrow> obj set" where
  "owned_by S E D w root \<equiv> reach S E D relationMode_D w (set root)"

lemma demo_more_simps [simp]:
  "class_rels (demo_env b) x = Some [3, 4]" "is_objTree demo_methods x = False" "tree_children demo_methods x = []"
  by (simp_all add: demo_env_def demo_methods_def)

lemma demo_owns: "offset (types (demo_env False) rt) = 0 \<and> y \<in> links list_set (demo_env False) (demo p) x rt \<and>
    owns list_set (demo_env False) (demo p) relationMode_D x rt y \<longleftrightarrow> rt = 1 \<and> x = 1 \<and> y = 2"
proof (cases "rt = 1")
  case True
  then show ?thesis by (auto simp: owns_def demo_links relationMode_D_def split: if_splits)
next
  case False
  then show ?thesis by (cases "rt = 3") (simp_all add: owns_def)
qed

lemma demo_propagated: "propagated list_set (demo_env False) demo_methods relationMode_D (demo p) x =
    (if x = 1 then {2} else if x = 2 then {5} else {})"
  unfolding propagated_def demo_owns
  by (auto simp: demo_links relationMode_D_def split: if_splits intro: exI [of _ "[3, 4]"])

lemma demo_owned_1: "owned_by list_set (demo_env False) demo_methods (demo p) [1] = {1, 2, 5}"
proof
  let ?R = "owned_by list_set (demo_env False) demo_methods (demo p) [1]"
  show "?R \<subseteq> {1, 2, 5}" by (rule reach_least) (auto simp: demo_propagated split: if_splits)
  have 1: "1 \<in> ?R" using reach_base [of "set [1]"] by auto
  have 2: "2 \<in> ?R" by (rule reach_step [OF 1]) (simp add: demo_propagated)
  have 5: "5 \<in> ?R" by (rule reach_step [OF 2]) (simp add: demo_propagated)
  show "{1, 2, 5} \<subseteq> ?R" using 1 2 5 by simp
qed

lemma demo_owned_14: "owned_by list_set (demo_env False) demo_methods (demo p) [1, 4] \<subseteq> {1, 2, 4, 5}"
  by (rule reach_least) (auto simp: demo_propagated split: if_splits)

lemma deleted_keeps:
  assumes "deleted S E A w w1" "keeps w1 c"
  shows "\<exists>w2. c = Some w2 \<and> deleted S E A w w2 \<and> obj_to_dispose w2 = obj_to_dispose w1"
proof -
  obtain w2 where 2: "c = Some w2" "same w1 w2" "rel_list w2 = rel_list w1" "ptr_fields w2 = ptr_fields w1"
    using assms(2) by (auto simp: keeps_def)
  have "deleted S E A w w2"
    using assms(1) 2(2) rels_ok_cong [OF 2(3,4), of S E] links_cong [OF 2(3,4), of S E] by (simp add: deleted_def same_def)
  then show ?thesis using 2 by (simp add: same_def)
qed

text \<open>C4: The deletion of objects deletes exactly those that they own directly or indirectly: the
  identifiers of these become -2, those of all others stay, the links between objects that are
  left stay, and no link leads from or to a deleted object.\<close>

theorem deletion_deletes_owned:
  assumes "deletable S E D" "consistent S E w" "finite (owned_by S E D w root)"
    and "\<forall>y \<in> owned_by S E D w root. exists_id (obj_id w y)"
  shows "\<exists>w'. obj_real_delete S E D other root w = Some w' \<and> consistent S E w' \<and>
    (\<forall>y. obj_id w' y = (if y \<in> owned_by S E D w root then -2 else obj_id w y)) \<and>
    (\<forall>x y rt. y \<in> links S E w' x rt \<longleftrightarrow>
       y \<in> links S E w x rt \<and> x \<notin> owned_by S E D w root \<and> y \<notin> owned_by S E D w root)"
  using deletion_deletes_reached [OF assms(1,2), of True root other] assms(3,4)
  by (auto simp: obj_real_delete_def deleted_def mark_def without_def)

theorem deletion_deletes_owned_witness:
  "\<exists>w'. obj_real_delete list_set (demo_env False) demo_methods True [1] (demo []) = Some w' \<and>
     obj_id w' 5 = -2 \<and> obj_id w' 3 = 1 \<and> links list_set (demo_env False) w' 3 2 = {4}"
proof -
  obtain w' where w': "obj_real_delete list_set (demo_env False) demo_methods True [1] (demo []) = Some w'"
    "\<forall>y. obj_id w' y = (if y \<in> {1, 2, 5} then -2 else obj_id (demo []) y)"
    "\<forall>x y rt. y \<in> links list_set (demo_env False) w' x rt \<longleftrightarrow>
       y \<in> links list_set (demo_env False) (demo []) x rt \<and> x \<notin> {1, 2, 5} \<and> y \<notin> {1, 2, 5}"
    using deletion_deletes_owned [OF demo_deletable demo_consistent(3), of "[]" "[1]" True]
    unfolding demo_owned_1 by (elim meta_impE exE conjE) (simp_all add: exists_id_def)
  have "links list_set (demo_env False) w' 3 2 = {4}" by (rule set_eqI) (auto simp: w'(3) demo_links)
  then show ?thesis using w'(1,2) by (intro exI [of _ w']) simp
qed

lemma propagatedE:
  assumes "y \<in> propagated S E D flag w x"
  obtains (dynamic) r where "y \<in> links S E w x r" "owns S E w flag x r y"
  | (child) "y \<in> set (tree_children D x)"
  | (fixed) rts r where "class_rels E x = Some rts" "r \<in> set rts" "flags (types E r) AND relationMode_D \<noteq> 0" "y \<in> links S E w x r"
  using assms by (auto simp: propagated_def split: if_splits)

text \<open>An object with several owners is not deleted with them, also when all of them are deleted at
  once: it stays, and nothing owns it any more.\<close>

theorem shared_objects_survive:
  assumes "deletable S E D" "consistent S E w" "finite (owned_by S E D w root)"
    and "\<forall>y \<in> owned_by S E D w root. exists_id (obj_id w y)"
    and "offset (types E rt) = 0" "inverse_type (types E rt) \<noteq> 0" "cardinality (types E (inverse_type (types E rt))) > 1"
    and "links S E w y (inverse_type (types E rt)) \<subseteq> set root" "card (links S E w y (inverse_type (types E rt))) > 1"
    and "y \<notin> set root" "\<forall>x. y \<notin> set (tree_children D x)"
    and "\<forall>x r. y \<in> links S E w x r \<and> flags (types E r) AND relationMode_D \<noteq> 0 \<longrightarrow> r = rt"
    and "\<forall>x rts. class_rels E x = Some rts \<longrightarrow> rt \<notin> set rts"
  shows "\<exists>w'. obj_real_delete S E D other root w = Some w' \<and> obj_id w' y = obj_id w y \<and>
    (\<forall>x. y \<notin> links S E w' x rt)"
proof -
  let ?R = "owned_by S E D w root"
  have two: "links S E w y (inverse_type (types E rt)) \<noteq> {x}" for x using assms(9) by auto
  have d: "relationMode_D AND relationMode_D \<noteq> 0" by (simp add: relationMode_D_def)
  have "y \<notin> propagated S E D relationMode_D w x" for x
  proof
    assume "y \<in> propagated S E D relationMode_D w x"
    then consider (dynamic) r where "y \<in> links S E w x r" "owns S E w relationMode_D x r y"
      | (fixed) rts r where "class_rels E x = Some rts" "r \<in> set rts" "flags (types E r) AND relationMode_D \<noteq> 0" "y \<in> links S E w x r"
      using assms(11) by (elim propagatedE) blast+
    then show False
    proof cases
      case dynamic
      then have "r = rt" using assms(12) [rule_format, of x r] by (simp add: owns_def)
      then show False using dynamic(2) assms(7) two [of x] d by (simp add: owns_def)
    next
      case fixed
      then have "r = rt" using assms(12) [rule_format, of x r] by simp
      then show False using fixed(1,2) assms(13) by blast
    qed
  qed
  then have "?R \<subseteq> - {y}" using assms(10) by (intro reach_least) blast+
  then have y: "y \<notin> ?R" by blast
  obtain w' where w': "obj_real_delete S E D other root w = Some w'" "obj_id w' y = obj_id w y"
    "\<forall>x. y \<in> links S E w' x rt \<longleftrightarrow> y \<in> links S E w x rt \<and> x \<notin> ?R"
    using deletion_deletes_reached [OF assms(1,2), of True root other] assms(3,4) y
    by (auto simp: obj_real_delete_def deleted_def mark_def without_def)
  have "x \<in> ?R" if "y \<in> links S E w x rt" for x
    using symmetricD [OF _ assms(6), of S w y x] that assms(2,8) reach_base [of "set root"] by (fastforce simp: consistent_def)
  then show ?thesis using w' by blast
qed

theorem shared_objects_survive_witness:
  "\<exists>w'. obj_real_delete list_set (demo_env False) demo_methods True [1, 4] (demo []) = Some w' \<and> obj_id w' 3 = 1 \<and>
     (\<forall>x. 3 \<notin> links list_set (demo_env False) w' x 1)"
proof -
  let ?R = "owned_by list_set (demo_env False) demo_methods (demo []) [1, 4]"
  have fin: "finite ?R" by (rule finite_subset [OF demo_owned_14]) simp
  have ids: "\<forall>y \<in> ?R. exists_id (obj_id (demo []) y)" by (simp add: exists_id_def)
  have type: "offset (types (demo_env False) 1) = 0" "inverse_type (types (demo_env False) 1) \<noteq> 0"
    "cardinality (types (demo_env False) (inverse_type (types (demo_env False) 1))) > 1" by simp_all
  have l: "links list_set (demo_env False) (demo []) 3 (inverse_type (types (demo_env False) 1)) = {1, 4}" by (simp add: demo_links)
  have owners: "links list_set (demo_env False) (demo []) 3 (inverse_type (types (demo_env False) 1)) \<subseteq> set [1, 4]"
    "card (links list_set (demo_env False) (demo []) 3 (inverse_type (types (demo_env False) 1))) > 1" unfolding l by simp_all
  have other: "\<forall>x r. 3 \<in> links list_set (demo_env False) (demo []) x r \<and> flags (types (demo_env False) r) AND relationMode_D \<noteq> 0 \<longrightarrow> r = 1"
    by (auto simp: demo_links split: if_splits)
  have none: "3 \<notin> set [1, 4 :: obj]" "\<forall>x. 3 \<notin> set (tree_children demo_methods x)"
    "\<forall>x rts. class_rels (demo_env False) x = Some rts \<longrightarrow> 1 \<notin> set rts" by simp_all
  have "obj_id (demo []) 3 = 1" by simp
  then show ?thesis
    using shared_objects_survive [OF demo_deletable demo_consistent(3) fin ids type owners none(1,2) other none(3), of True] by metis
qed

text \<open>C22: The end of the outermost transaction deletes what the pending objects own, except for those
  that it skips, leaves nothing pending and takes the level down.\<close>

theorem transaction_end_deletes:
  assumes disp: "disp = filter (\<lambda>el. \<not> skipped C el) (obj_to_dispose w)"
    and "deletable S E D" "consistent S E w" "transac_level w \<le> 1"
    and "quiet (notifier_apply F)" "quiet (propagate_headers F)" "quiet (clear_incremental F)"
    and "finite (owned_by S E D w disp)" "\<forall>y \<in> owned_by S E D w disp. exists_id (obj_id w y)"
  shows "\<exists>w'. obj_transaction_end C (deleting S E D F) w = Some w' \<and> consistent S E w' \<and>
    obj_id w' = mark (-2) (obj_id w) (owned_by S E D w disp) \<and> links S E w' = without (owned_by S E D w disp) (links S E w) \<and>
    obj_to_dispose w' = [] \<and> transac_level w' = transac_level w - 1"
proof -
  let ?R = "owned_by S E D w disp" and ?F = "deleting S E D F"
  have F: "keeps v (notifier_apply ?F v)" "keeps v (propagate_headers ?F v)" "keeps v (clear_incremental ?F v)" for v
    using assms(5-7) by (simp_all add: deleting_def quiet_keeps)
  have none: "deleted S E {} w w" using assms(3) by (simp add: deleted_def mark_def consistent_def)
  obtain w1 where 1: "(if obj_to_dispose w = [] then notifier_apply ?F w \<bind> propagate_headers ?F else Some w) = Some w1"
    "deleted S E {} w w1" "obj_to_dispose w1 = obj_to_dispose w" "obj_to_dispose w \<noteq> [] \<Longrightarrow> w1 = w"
    using deleted_keeps [OF none F(1)] deleted_keeps [OF _ F(2)] none by (cases "obj_to_dispose w = []") fastforce+
  have "\<exists>w2. dispose_loop C ?F w1 = Some w2 \<and> deleted S E ?R w w2 \<and> obj_to_dispose w2 = []"
  proof (cases "obj_to_dispose w = []")
    case True
    then have "?R = {}" using reach_least [of "set disp" "{}" S E D relationMode_D w] by (simp add: disp)
    then show ?thesis using True 1 by (subst dispose_loop.simps) simp
  next
    case False
    let ?w = "w\<lparr>obj_to_dispose := []\<rparr>"
    have l: "links S E ?w = links S E w" by (rule links_cong) simp_all
    have c: "consistent S E ?w" by (rule consistent_links [OF assms(3), of _ "{}"])
      (use assms(3) l in \<open>simp_all add: consistent_def rels_ok_def\<close>)
    have R: "owned_by S E D ?w disp = ?R" by (simp add: reach_def propagated_def owns_def l)
    have "\<exists>v. (if disp \<noteq> [] then real_delete ?F disp ?w else Some ?w) = Some v \<and> deleted S E ?R ?w v \<and> obj_to_dispose v = []"
    proof (cases "disp = []")
      case True
      then have "?R = {}" using reach_least [of "set disp" "{}" S E D relationMode_D w] by simp
      then show ?thesis using True c by (simp add: deleted_def mark_def consistent_def)
    next
      case False
      then show ?thesis using deletion_deletes_reached [OF assms(2) c, of True disp True] assms(8,9)
        by (auto simp: R deleting_def obj_real_delete_def)
    qed
    then obtain v where v: "(if disp \<noteq> [] then real_delete ?F disp ?w else Some ?w) = Some v" "deleted S E ?R ?w v" "obj_to_dispose v = []"
      by blast
    obtain v2 where v2: "notifier_apply ?F v = Some v2" "deleted S E ?R ?w v2" "obj_to_dispose v2 = []"
      using deleted_keeps [OF v(2) F(1)] v(3) by auto
    obtain v3 where v3: "propagate_headers ?F v2 = Some v3" "deleted S E ?R ?w v3" "obj_to_dispose v3 = []"
      using deleted_keeps [OF v2(2) F(2)] v2(3) by auto
    have "dispose_loop C ?F w = Some v3"
      using False v(1) v2 v3 by (subst dispose_loop.simps) (simp add: Let_def flip: disp, simp add: dispose_loop.simps)
    moreover have "deleted S E ?R w v3" using v3(2) l by (simp add: deleted_def memory_part_eq)
    ultimately show ?thesis using 1(4) False v3(3) by simp
  qed
  then obtain w2 where 2: "dispose_loop C ?F w1 = Some w2" "deleted S E ?R w w2" "obj_to_dispose w2 = []" by blast
  obtain w3 where 3: "clear_incremental ?F w2 = Some w3" "deleted S E ?R w w3" "obj_to_dispose w3 = []"
    using deleted_keeps [OF 2(2) F(3)] 2(3) by auto
  let ?v = "w3\<lparr>transac_level := transac_level w3 - 1\<rparr>"
  have l: "links S E ?v = links S E w3" by (rule links_cong) simp_all
  have "obj_transaction_end C ?F w = Some ?v"
    using assms(4) 1(1) 2(1) 3(1) by (simp add: obj_transaction_end_def)
  moreover have "consistent S E ?v"
    by (rule consistent_links [OF assms(3), of _ ?R]) (use 3(2) l in \<open>simp_all add: deleted_def rels_ok_def\<close>)
  moreover have "obj_id ?v = mark (-2) (obj_id w) ?R" "links S E ?v = without ?R (links S E w)" "transac_level ?v = transac_level w - 1"
    using 3(2) l by (simp_all add: deleted_def memory_part_eq)
  ultimately show ?thesis using 3(3) by fastforce
qed

definition demo_classes :: classes where
  "demo_classes = \<lparr>is_appTree = (\<lambda>_. False), is_commonTree = (\<lambda>x. x = 4), is_Hierarchical = (\<lambda>_. False), has_header = (\<lambda>_. True),
     is_ddElement = (\<lambda>_. False), is_projModule = (\<lambda>_. False)\<rparr>"

definition demo_effects :: "(obj list, unit) relations_ext effects" where
  "demo_effects = \<lparr>softassoc_deleted = (\<lambda>_. Some), real_delete = (\<lambda>_. Some), notifier_apply = Some, propagate_headers = Some,
     clear_incremental = Some\<rparr>"

theorem transaction_end_deletes_witness:
  "\<exists>w'. obj_transaction_end demo_classes (deleting list_set (demo_env False) demo_methods demo_effects) (demo [1, 4]) = Some w' \<and>
     obj_id w' 5 = -2 \<and> obj_id w' 4 = 1 \<and> obj_to_dispose w' = [] \<and> transac_level w' = 0"
proof -
  have pending: "[1] = filter (\<lambda>el. \<not> skipped demo_classes el) (obj_to_dispose (demo [1, 4]))"
    by (simp add: skipped_def demo_classes_def)
  have level: "transac_level (demo [1, 4]) \<le> 1" by simp
  have quiet: "quiet (notifier_apply demo_effects)" "quiet (propagate_headers demo_effects)" "quiet (clear_incremental demo_effects)"
    by (simp_all add: demo_effects_def quiet_def)
  have "finite (owned_by list_set (demo_env False) demo_methods (demo [1, 4]) [1])"
    "\<forall>y \<in> owned_by list_set (demo_env False) demo_methods (demo [1, 4]) [1]. exists_id (obj_id (demo [1, 4]) y)"
    unfolding demo_owned_1 by (simp_all add: exists_id_def)
  from transaction_end_deletes [OF pending demo_deletable demo_consistent(3) level quiet this]
  obtain w' where w': "obj_transaction_end demo_classes (deleting list_set (demo_env False) demo_methods demo_effects) (demo [1, 4]) = Some w'"
    "obj_id w' = mark (-2) (obj_id (demo [1, 4])) {1, 2, 5}" "obj_to_dispose w' = []" "transac_level w' = transac_level (demo [1, 4]) - 1"
    unfolding demo_owned_1 by blast
  then show ?thesis by (intro exI [of _ w']) (simp add: mark_def)
qed

end
