(* ===== verification/Class_Descriptors.thy ===== *)
theory Class_Descriptors
  imports "HOL-Library.Word" "HOL-Library.Monad_Syntax"
begin

unbundle bit_operations_syntax

text \<open>
  The relation types and the class descriptors of the model server (\<^verbatim>\<open>class_descriptor\<close>,
  \<^verbatim>\<open>RelType\<close>, \<^verbatim>\<open>init_rel_ptrs\<close> and \<^verbatim>\<open>is_subclass\<close> of \<^verbatim>\<open>objRelation.h.cxx\<close>). Both kinds of
  objects are static: their constructors run before the program, in an order the linker chooses,
  and \<^verbatim>\<open>init_rel_ptrs\<close> then gives every class the list of its fixed relation types and the depth in
  the hierarchy that \<^verbatim>\<open>is_subclass\<close> uses. Types and descriptors are in two stores; the address 0 is
  the null pointer. A computation that goes through it or does not end is \<open>None\<close>.
\<close>

section \<open>State\<close>

type_synonym rt_addr = nat
type_synonym cd_addr = nat

record rel_type_rec =
  rt_name :: string
  rt_inverse :: rt_addr
  rt_cardinality :: int
  rt_flags :: int
  rt_assoc :: nat
  rt_next :: rt_addr
  rt_offset :: nat
  rt_forw :: bool
  rt_save :: bool
  rt_ifl :: bool

record class_descr =
  cd_name :: string
  cd_depth :: "8 word"
  cd_rel :: rt_addr
  cd_base :: cd_addr

text \<open>\<open>pointed_data\<close> and \<open>rel_classes\<close> are pointers to arrays, null until the first entry is made.\<close>

record registry =
  rtypes :: "rt_addr \<Rightarrow> rel_type_rec"
  descrs :: "cd_addr \<Rightarrow> class_descr"
  first_type :: rt_addr
  pointed_data :: "(rt_addr \<times> cd_addr) list option"
  rel_classes :: "cd_addr list option"

definition MAX_NAME_LEN :: nat where "MAX_NAME_LEN = 32"
definition relationMode_S :: int where "relationMode_S = 16"
definition relationMode_C :: int where "relationMode_C = 2"
definition IFL_ASSOC :: nat where "IFL_ASSOC = 3"

definition put_rt :: "rt_addr \<Rightarrow> rel_type_rec \<Rightarrow> registry \<Rightarrow> registry" where
  "put_rt a r s = s\<lparr>rtypes := (rtypes s)(a := r)\<rparr>"

definition put_cd :: "cd_addr \<Rightarrow> class_descr \<Rightarrow> registry \<Rightarrow> registry" where
  "put_cd a d s = s\<lparr>descrs := (descrs s)(a := d)\<rparr>"

section \<open>Constructors\<close>

text \<open>Only classes that have a base are recorded in \<open>rel_classes\<close>.\<close>

definition class_descriptor_new :: "cd_addr \<Rightarrow> string \<Rightarrow> cd_addr \<Rightarrow> registry \<Rightarrow> registry" where
  "class_descriptor_new this n bs s =
     (let s = put_cd this \<lparr>cd_name = n, cd_depth = 0, cd_rel = 0, cd_base = bs\<rparr> s;
          arr = (case rel_classes s of None \<Rightarrow> [] | Some a \<Rightarrow> a)
      in s\<lparr>rel_classes := Some (if bs \<noteq> 0 then arr @ [this] else arr)\<rparr>)"

text \<open>The name is copied without its leading blanks to an array of \<^verbatim>\<open>MAX_NAME_LEN\<close> characters; a longer
  one is \<open>None\<close>. The pointer 1 stands for the new type itself.\<close>

definition type_flags :: "nat \<Rightarrow> int \<Rightarrow> int" where
  "type_flags assoc ff =
     (if assoc = IFL_ASSOC \<and> ff AND relationMode_S \<noteq> 0 then (ff OR relationMode_C) XOR relationMode_S else ff)"

definition link_inverse :: "rt_addr \<Rightarrow> rt_addr \<Rightarrow> registry \<Rightarrow> registry" where
  "link_inverse this invr s =
     (if invr = 1 then put_rt this ((rtypes s this)\<lparr>rt_inverse := this, rt_forw := False\<rparr>) s
      else if invr \<noteq> 0 then
        (let s = put_rt invr ((rtypes s invr)\<lparr>rt_inverse := this\<rparr>) s
         in put_rt this ((rtypes s this)\<lparr>rt_forw := False\<rparr>) s)
      else put_rt this ((rtypes s this)\<lparr>rt_forw := True\<rparr>) s)"

definition new_type :: "rt_addr \<Rightarrow> string \<Rightarrow> int \<Rightarrow> int \<Rightarrow> rt_addr \<Rightarrow> nat \<Rightarrow> nat \<Rightarrow> registry \<Rightarrow> registry option" where
  "new_type this nnn cc ff invr assoc off s =
     (let n = dropWhile (\<lambda>c. c = CHR '' '') nnn
      in if length n \<ge> MAX_NAME_LEN then None
         else Some (link_inverse this invr (put_rt this
           \<lparr>rt_name = n, rt_inverse = invr, rt_cardinality = cc, rt_flags = type_flags assoc ff, rt_assoc = assoc,
            rt_next = 0, rt_offset = off, rt_forw = True, rt_save = (assoc \<noteq> 0), rt_ifl = (assoc = IFL_ASSOC)\<rparr> s)))"

definition add_first :: "rt_addr \<Rightarrow> registry \<Rightarrow> registry" where
  "add_first this s = (put_rt this ((rtypes s this)\<lparr>rt_next := first_type s\<rparr>) s)\<lparr>first_type := this\<rparr>"

definition RelType_fixed :: "rt_addr \<Rightarrow> string \<Rightarrow> int \<Rightarrow> int \<Rightarrow> rt_addr \<Rightarrow> nat \<Rightarrow> nat \<Rightarrow> cd_addr \<Rightarrow> registry \<Rightarrow> registry option" where
  "RelType_fixed this nnn cc ff invr assoc off desc s =
     do { s \<leftarrow> new_type this nnn cc ff invr assoc off s;
          Some (if off \<noteq> 0 then
              s\<lparr>pointed_data := Some ((case pointed_data s of None \<Rightarrow> [] | Some p \<Rightarrow> p) @ [(this, desc)])\<rparr>
            else add_first this s) }"

definition RelType_dynamic :: "rt_addr \<Rightarrow> string \<Rightarrow> int \<Rightarrow> int \<Rightarrow> rt_addr \<Rightarrow> nat \<Rightarrow> registry \<Rightarrow> registry option" where
  "RelType_dynamic this nnn cc ff invr assoc s =
     do { s \<leftarrow> new_type this nnn cc ff invr assoc 0 s; Some (add_first this s) }"

partial_function (option) find_from :: "string \<Rightarrow> rt_addr \<Rightarrow> registry \<Rightarrow> rt_addr option" where
  "find_from n r s =
     (if r = 0 then Some 0 else if rt_name (rtypes s r) = n then Some r else find_from n (rt_next (rtypes s r)) s)"

definition RelType_find :: "string \<Rightarrow> registry \<Rightarrow> rt_addr option" where
  "RelType_find n s = find_from n (first_type s) s"

section \<open>Initialisation\<close>

fun init_ptr_from :: "(rt_addr \<times> cd_addr) list \<Rightarrow> registry \<Rightarrow> registry option" where
  "init_ptr_from [] s = Some s"
| "init_ptr_from ((rt, dd) # ps) s =
     (if rt = 0 \<or> dd = 0 then None
      else let s = put_rt rt ((rtypes s rt)\<lparr>rt_next := cd_rel (descrs s dd)\<rparr>) s
           in init_ptr_from ps (put_cd dd ((descrs s dd)\<lparr>cd_rel := rt\<rparr>) s))"

definition init_ptr :: "registry \<Rightarrow> registry option" where
  "init_ptr s = (case pointed_data s of None \<Rightarrow> Some s | Some ps \<Rightarrow> init_ptr_from ps s)"

partial_function (option) last_type :: "rt_addr \<Rightarrow> registry \<Rightarrow> rt_addr option" where
  "last_type ct s = (let n = rt_next (rtypes s ct) in if n \<noteq> 0 then last_type n s else Some ct)"

definition init_descr :: "cd_addr \<Rightarrow> registry \<Rightarrow> registry option" where
  "init_descr cd s =
     (let bd = cd_base (descrs s cd)
      in if bd = 0 then Some s
         else let bt = cd_rel (descrs s bd)
              in if bt = 0 then Some s
                 else let ct = cd_rel (descrs s cd)
                      in if ct = 0 then Some (put_cd cd ((descrs s cd)\<lparr>cd_rel := bt\<rparr>) s)
                         else do { ct \<leftarrow> last_type ct s; Some (put_rt ct ((rtypes s ct)\<lparr>rt_next := bt\<rparr>) s) })"

text \<open>The depth is an unsigned char.\<close>

partial_function (option) obj_get_depth :: "cd_addr \<Rightarrow> registry \<Rightarrow> (8 word \<times> registry) option" where
  "obj_get_depth cd s =
     (if cd_depth (descrs s cd) = 0 then
        do { (d, s) \<leftarrow> (if cd_base (descrs s cd) \<noteq> 0 then
                          do { (d, s) \<leftarrow> obj_get_depth (cd_base (descrs s cd)) s; Some (d + 1, s) }
                        else Some (1, s));
             Some (d, put_cd cd ((descrs s cd)\<lparr>cd_depth := d\<rparr>) s) }
      else Some (cd_depth (descrs s cd), s))"

fun init_depths :: "cd_addr list \<Rightarrow> registry \<Rightarrow> registry option" where
  "init_depths [] s = Some s"
| "init_depths (dd # ds) s = do { (d, s) \<leftarrow> obj_get_depth dd s; init_depths ds s }"

text \<open>The insertion sort: entries that are deeper than \<open>di\<close> move up by one.\<close>

fun shift_up :: "(cd_addr \<Rightarrow> 8 word) \<Rightarrow> cd_addr list \<Rightarrow> nat \<Rightarrow> cd_addr \<Rightarrow> cd_addr list \<times> nat" where
  "shift_up depth darr 0 di = (darr, 0)"
| "shift_up depth darr (Suc j) di =
     (let dd = darr ! j in if depth dd > depth di then shift_up depth (darr[Suc j := dd]) j di else (darr, Suc j))"

definition insert_descr :: "(cd_addr \<Rightarrow> 8 word) \<Rightarrow> cd_addr list \<Rightarrow> nat \<Rightarrow> cd_addr list" where
  "insert_descr depth darr ii =
     (let di = darr ! ii; (darr, jj) = shift_up depth darr ii di in darr[jj := di])"

definition sort_descrs :: "(cd_addr \<Rightarrow> 8 word) \<Rightarrow> cd_addr list \<Rightarrow> cd_addr list" where
  "sort_descrs depth darr = foldl (insert_descr depth) darr [0..<length darr]"

fun init_descrs :: "cd_addr list \<Rightarrow> registry \<Rightarrow> registry option" where
  "init_descrs [] s = Some s"
| "init_descrs (dd # ds) s = do { s \<leftarrow> init_descr dd s; init_descrs ds s }"

definition init_rel_ptrs :: "registry \<Rightarrow> registry option" where
  "init_rel_ptrs s =
     (case rel_classes s of
        None \<Rightarrow> None
      | Some darr \<Rightarrow>
          do { s \<leftarrow> init_depths darr s;
               s \<leftarrow> init_ptr s;
               let darr = sort_descrs (\<lambda>d. cd_depth (descrs s d)) darr;
               init_descrs darr (s\<lparr>rel_classes := Some darr\<rparr>) })"

section \<open>Subclasses\<close>

text \<open>The loop climbs the bases \<open>n\<close> times.\<close>

fun climb_bases :: "nat \<Rightarrow> cd_addr \<Rightarrow> registry \<Rightarrow> cd_addr option" where
  "climb_bases 0 d s = Some d"
| "climb_bases (Suc n) d s = (if d = 0 then None else climb_bases n (cd_base (descrs s d)) s)"

definition is_subclass :: "cd_addr \<Rightarrow> cd_addr \<Rightarrow> registry \<Rightarrow> bool option" where
  "is_subclass d1 d2 s =
     (if d1 = d2 then Some True
      else if d1 = 0 then Some False
      else if d2 = 0 then Some True
      else let depth1 = unat (cd_depth (descrs s d1)); depth2 = unat (cd_depth (descrs s d2))
           in if depth1 \<le> depth2 then Some False
              else do { d \<leftarrow> climb_bases (depth1 - depth2) d1 s; Some (d = d2) })"

end
