(* ===== verification/Chains.thy ===== *)
theory Chains
  imports Main
begin

text \<open>
  Lists of linked objects: the addresses that following \<open>nx\<close> from \<open>a\<close> visits before \<open>b\<close>.
\<close>

fun seg :: "(nat \<Rightarrow> nat) \<Rightarrow> nat \<Rightarrow> nat list \<Rightarrow> nat \<Rightarrow> bool" where
  "seg nx a [] b \<longleftrightarrow> a = b"
| "seg nx a (x # xs) b \<longleftrightarrow> a = x \<and> x \<noteq> 0 \<and> seg nx (nx x) xs b"

abbreviation chain :: "(nat \<Rightarrow> nat) \<Rightarrow> nat \<Rightarrow> nat list \<Rightarrow> bool" where
  "chain nx a xs \<equiv> seg nx a xs 0"

lemma seg_append [simp]: "seg nx a (xs @ ys) b \<longleftrightarrow> (\<exists>c. seg nx a xs c \<and> seg nx c ys b)"
  by (induction xs arbitrary: a) auto

lemma chain_other [simp]: "y \<notin> set xs \<Longrightarrow> seg (nx(y := z)) a xs b = seg nx a xs b"
  by (induction xs arbitrary: a) auto

lemma seg_nonzero: "seg nx a xs b \<Longrightarrow> 0 \<notin> set xs"
  by (induction xs arbitrary: a) auto

lemma chain_append:
  assumes "distinct xs" "xs \<noteq> []" "chain nx a xs" "chain (nx(last xs := b)) b ys"
  shows "chain (nx(last xs := b)) a (xs @ ys)"
proof -
  obtain us x where xs: "xs = us @ [x]" using assms(2) by (cases xs rule: rev_cases) auto
  then show ?thesis using assms by auto
qed

lemma seg_cong: "\<forall>x \<in> set xs. nx x = ny x \<Longrightarrow> seg nx a xs b = seg ny a xs b"
  by (induction xs arbitrary: a) auto

text \<open>The last address, 0 for an empty list.\<close>

definition last0 :: "nat list \<Rightarrow> nat" where
  "last0 xs = (if xs = [] then 0 else last xs)"

lemma last0_simps [simp]: "last0 [] = 0" "last0 (xs @ [x]) = x" "last0 (x # xs) = (if xs = [] then x else last0 xs)"
  by (simp_all add: last0_def)

lemma last0_append [simp]: "last0 (xs @ ys) = (if ys = [] then last0 xs else last0 ys)"
  by (simp add: last0_def)

lemma last0_in: "last0 xs = 0 \<or> last0 xs \<in> set xs" by (simp add: last0_def)

section \<open>Linked in both directions\<close>

text \<open>
  The addresses from \<open>a\<close>, whose predecessor is \<open>p\<close>, up to \<open>b\<close>; \<open>q\<close> is the last one, or \<open>p\<close> when there
  is none.
\<close>

fun bseg :: "(nat \<Rightarrow> nat) \<Rightarrow> (nat \<Rightarrow> nat) \<Rightarrow> nat \<Rightarrow> nat \<Rightarrow> nat list \<Rightarrow> nat \<Rightarrow> nat \<Rightarrow> bool" where
  "bseg nx pv p a [] q b \<longleftrightarrow> a = b \<and> p = q"
| "bseg nx pv p a (x # xs) q b \<longleftrightarrow> a = x \<and> x \<noteq> 0 \<and> pv x = p \<and> bseg nx pv x (nx x) xs q b"

lemma bseg_append [simp]:
  "bseg nx pv p a (xs @ ys) q b \<longleftrightarrow> (\<exists>m c. bseg nx pv p a xs m c \<and> bseg nx pv m c ys q b)"
  by (induction xs arbitrary: p a) auto

lemma bseg_other [simp]:
  "y \<notin> set xs \<Longrightarrow> bseg (nx(y := z)) pv p a xs q b = bseg nx pv p a xs q b"
  "y \<notin> set xs \<Longrightarrow> bseg nx (pv(y := z)) p a xs q b = bseg nx pv p a xs q b"
  by (induction xs arbitrary: p a) auto

lemma bseg_nonzero: "bseg nx pv p a xs q b \<Longrightarrow> 0 \<notin> set xs"
  by (induction xs arbitrary: p a) auto

lemma bseg_last: "bseg nx pv p a xs q b \<Longrightarrow> q = (if xs = [] then p else last xs)"
  by (induction xs arbitrary: p a) auto

lemma bseg_head: "bseg nx pv p a xs q b \<Longrightarrow> a = (case xs of [] \<Rightarrow> b | x # _ \<Rightarrow> x)"
  by (cases xs) auto

lemma bseg_seg: "bseg nx pv p a xs q b \<Longrightarrow> seg nx a xs b"
  by (induction xs arbitrary: p a) auto

text \<open>A new first element, and the removal of an element, with the tests of the null pointer.\<close>

lemma bseg_cons:
  assumes "bseg nx pv 0 a xs q 0" "distinct xs" "x \<notin> set xs" "x \<noteq> 0"
  shows "\<exists>q. bseg (nx(x := a)) ((if a \<noteq> 0 then pv(a := x) else pv)(x := 0)) 0 x (x # xs) q 0"
  using assms by (cases xs) auto

lemma bseg_remove:
  assumes d: "bseg nx pv 0 a (us @ x # vs) q 0" "distinct (us @ x # vs)"
  shows "\<exists>q. bseg (if pv x \<noteq> 0 then nx(pv x := nx x) else nx) (if nx x \<noteq> 0 then pv(nx x := pv x) else pv)
           0 (if pv x \<noteq> 0 then a else nx x) (us @ vs) q 0"
proof -
  obtain m where us: "bseg nx pv 0 a us m x" and x: "pv x = m" "x \<noteq> 0" and vs: "bseg nx pv x (nx x) vs q 0"
    using d(1) by auto
  have m: "m = last0 us" using bseg_last [OF us] by (simp add: last0_def)
  have nx: "nx x = (case vs of [] \<Rightarrow> 0 | v # _ \<Rightarrow> v)" using bseg_head [OF vs] .
  have vs': "\<exists>q. bseg (if m \<noteq> 0 then nx(m := nx x) else nx)
      (if nx x \<noteq> 0 then pv(nx x := m) else pv) m (nx x) vs q 0"
  proof -
    have "m \<noteq> 0 \<Longrightarrow> m \<notin> set vs" using m last0_in [of us] d(2) by auto
    then show ?thesis using vs d(2) by (cases vs) auto
  qed
  show ?thesis
  proof (cases us rule: rev_cases)
    case Nil
    then show ?thesis using vs' us x m by (cases "nx x = 0") auto
  next
    case (snoc ws p)
    have "m \<noteq> 0" using snoc us m by auto
    moreover have "nx x \<notin> set us" using nx bseg_nonzero [OF us] d(2) by (cases vs) auto
    ultimately show ?thesis using vs' us x m snoc d(2) by auto
  qed
qed

end
