(* ===== verification/Class_Hierarchy.thy ===== *)
theory Class_Hierarchy
  imports Class_Descriptors Chains "HOL-Library.Multiset"
begin

text \<open>
  What \<^verbatim>\<open>init_rel_ptrs\<close> establishes: the depth of a class is the length of its line of bases, and
  its list of fixed types has its own ones and then those that it inherits.
\<close>

section \<open>Lines of bases and chains of types\<close>

inductive lineage :: "(cd_addr \<Rightarrow> cd_addr) \<Rightarrow> cd_addr \<Rightarrow> cd_addr list \<Rightarrow> bool" for base where
  root: "c \<noteq> 0 \<Longrightarrow> base c = 0 \<Longrightarrow> lineage base c [c]"
| derived: "c \<noteq> 0 \<Longrightarrow> base c \<noteq> 0 \<Longrightarrow> lineage base (base c) cs \<Longrightarrow> lineage base c (c # cs)"

inductive_cases lineage_ConsE: "lineage base c (d # cs)"

lemma lineage_nonempty: "lineage base c cs \<Longrightarrow> \<exists>ds. cs = c # ds"
  by (cases rule: lineage.cases) auto

lemma lineage_unique: "lineage base c cs \<Longrightarrow> lineage base c ds \<Longrightarrow> cs = ds"
proof (induction arbitrary: ds rule: lineage.induct)
  case (root c)
  from root(3) show ?case using root(2) by cases simp_all
next
  case (derived c cs)
  from derived(5) show ?case
  proof cases
    case root
    then show ?thesis using derived(2) by simp
  next
    case (derived cs')
    then show ?thesis using \<open>\<And>ds. lineage base (base c) ds \<Longrightarrow> cs = ds\<close> by simp
  qed
qed

lemma lineage_drop: "lineage base c cs \<Longrightarrow> i < length cs \<Longrightarrow> lineage base (cs ! i) (drop i cs)"
proof (induction arbitrary: i rule: lineage.induct)
  case (root c)
  then show ?case by (auto intro: lineage.root)
next
  case (derived c cs)
  then show ?case by (cases i) (auto intro: lineage.derived)
qed

lemma lineage_member: "lineage base c cs \<Longrightarrow> d \<in> set cs \<Longrightarrow> lineage base d ds \<Longrightarrow>
    length ds \<le> length cs \<and> cs ! (length cs - length ds) = d"
proof -
  assume c: "lineage base c cs" and d: "d \<in> set cs" "lineage base d ds"
  obtain i where i: "i < length cs" "cs ! i = d" using d(1) by (auto simp: in_set_conv_nth)
  have "ds = drop i cs" using lineage_drop [OF c i(1)] lineage_unique d(2) i(2) by blast
  then show ?thesis using i by simp
qed

lemma lineage_base: "lineage base c cs \<Longrightarrow> base c \<noteq> 0 \<Longrightarrow> \<exists>ds. cs = c # ds \<and> lineage base (base c) ds"
  by (erule lineage.cases) auto

lemma lineage_nonzero: "lineage base c cs \<Longrightarrow> 0 \<notin> set cs"
  by (induction rule: lineage.induct) auto

lemma last_type_chain: "chain (\<lambda>r. rt_next (rtypes s r)) a xs \<Longrightarrow> xs \<noteq> [] \<Longrightarrow> last_type a s = Some (last xs)"
proof (induction xs arbitrary: a)
  case (Cons x xs)
  then show ?case
    by (cases xs) (subst last_type.simps, auto simp: Let_def)+
qed simp

section \<open>Sorting\<close>

text \<open>One step of the sort puts the next entry into the sorted ones, which are here in descending order.\<close>

fun insert_deep :: "(cd_addr \<Rightarrow> 8 word) \<Rightarrow> cd_addr \<Rightarrow> cd_addr list \<Rightarrow> cd_addr list" where
  "insert_deep dp di [] = [di]"
| "insert_deep dp di (r # rs) = (if dp r > dp di then r # insert_deep dp di rs else di # r # rs)"

lemma mset_insert_deep [simp]: "mset (insert_deep dp di rs) = add_mset di (mset rs)"
  by (induction rs) auto

lemma set_insert_deep [simp]: "set (insert_deep dp di rs) = insert di (set rs)"
  by (induction rs) auto

lemma sorted_insert_deep: "sorted_wrt (\<lambda>a b. dp b \<le> dp a) rs \<Longrightarrow> sorted_wrt (\<lambda>a b. dp b \<le> dp a) (insert_deep dp di rs)"
  by (induction rs) (auto simp: not_less intro: order_trans)

lemma shift_up_array:
  "(let (darr, jj) = shift_up dp (rev rs @ x # zs) (length rs) di in darr[jj := di]) = rev (insert_deep dp di rs) @ zs"
proof (induction rs arbitrary: x zs)
  case (Cons r rs)
  have u: "(rev rs @ r # x # zs)[Suc (length rs) := r] = rev rs @ r # r # zs" by (simp add: list_update_append)
  have n: "(rev rs @ r # x # zs) ! length rs = r" by (simp add: nth_append)
  show ?case using Cons.IH [of r "r # zs"] by (simp add: u n Let_def list_update_append)
qed simp

lemma insert_descr_array: "insert_descr dp (rev rs @ x # zs) (length rs) = rev (insert_deep dp x rs) @ zs"
  using shift_up_array [of dp rs x zs x] by (simp add: insert_descr_def nth_append)

lemma sort_descrs_sorts: "mset (sort_descrs dp xs) = mset xs \<and> sorted_wrt (\<lambda>a b. dp a \<le> dp b) (sort_descrs dp xs)"
proof -
  have "\<exists>rs. foldl (insert_descr dp) xs [0..<n] = rev rs @ drop n xs \<and> mset rs = mset (take n xs) \<and>
      sorted_wrt (\<lambda>a b. dp b \<le> dp a) rs" if "n \<le> length xs" for n
    using that
  proof (induction n)
    case 0
    then show ?case by (intro exI [of _ "[]"]) simp
  next
    case (Suc n)
    then obtain rs where rs: "foldl (insert_descr dp) xs [0..<n] = rev rs @ drop n xs" "mset rs = mset (take n xs)"
      "sorted_wrt (\<lambda>a b. dp b \<le> dp a) rs" by auto
    have "length rs = n" using mset_eq_length [OF rs(2)] Suc.prems by simp
    moreover have "drop n xs = xs ! n # drop (Suc n) xs" using Suc.prems by (simp add: Cons_nth_drop_Suc)
    ultimately have "foldl (insert_descr dp) xs [0..<Suc n] = rev (insert_deep dp (xs ! n) rs) @ drop (Suc n) xs"
      using insert_descr_array [of dp rs "xs ! n" "drop (Suc n) xs"] rs(1) by simp
    moreover have "mset (insert_deep dp (xs ! n) rs) = mset (take (Suc n) xs)"
      using Suc.prems rs(2) by (simp add: take_Suc_conv_app_nth)
    ultimately show ?case using sorted_insert_deep [OF rs(3)] by blast
  qed
  from this [of "length xs"] obtain rs where "sort_descrs dp xs = rev rs" "mset rs = mset xs" "sorted_wrt (\<lambda>a b. dp b \<le> dp a) rs"
    by (auto simp: sort_descrs_def)
  then show ?thesis by (simp add: sorted_wrt_rev)
qed

section \<open>Depths\<close>

text \<open>What a depth can be before and while they are computed.\<close>

definition only_depths :: "registry \<Rightarrow> registry \<Rightarrow> bool" where
  "only_depths s s' \<longleftrightarrow> (\<exists>dp. s' = s\<lparr>descrs := \<lambda>c. (descrs s c)\<lparr>cd_depth := dp c\<rparr>\<rparr>)"

abbreviation base_of :: "registry \<Rightarrow> cd_addr \<Rightarrow> cd_addr" where
  "base_of s c \<equiv> cd_base (descrs s c)"

abbreviation depth_of :: "registry \<Rightarrow> cd_addr \<Rightarrow> 8 word" where
  "depth_of s c \<equiv> cd_depth (descrs s c)"

definition depths_ok :: "registry \<Rightarrow> bool" where
  "depths_ok s \<longleftrightarrow> (\<forall>c cs. lineage (base_of s) c cs \<longrightarrow> length cs < 256 \<and>
     (depth_of s c \<noteq> 0 \<longrightarrow> (\<forall>d \<in> set cs. depth_of s d \<noteq> 0) \<and> depth_of s c = word_of_nat (length cs)))"

lemma depths_okD: "depths_ok s \<Longrightarrow> lineage (base_of s) c cs \<Longrightarrow> length cs < 256"
  by (simp add: depths_ok_def)

lemma only_depths_facts:
  assumes "only_depths s s'"
  shows "base_of s' = base_of s" "cd_rel (descrs s' c) = cd_rel (descrs s c)" "rtypes s' = rtypes s" "pointed_data s' = pointed_data s"
    "rel_classes s' = rel_classes s" "first_type s' = first_type s"
  using assms by (auto simp: only_depths_def)

lemma only_depths_trans: "only_depths a b \<Longrightarrow> only_depths b c \<Longrightarrow> only_depths a c"
  by (auto simp: only_depths_def)

lemma only_depths_put: "only_depths s (put_cd c ((descrs s c)\<lparr>cd_depth := d\<rparr>) s)"
  unfolding only_depths_def put_cd_def
  by (rule exI [of _ "\<lambda>x. if x = c then d else depth_of s x"]) (auto intro!: registry.equality)

lemma only_depths_refl: "only_depths s s"
  unfolding only_depths_def by (rule exI [of _ "depth_of s"]) simp

lemma word_of_length: "0 < n \<Longrightarrow> n < 256 \<Longrightarrow> (word_of_nat n :: 8 word) \<noteq> 0"
  by (simp add: word_of_nat_eq_0_iff) (use nat_dvd_not_less in fastforce)

lemma depths_ok_put:
  assumes "depths_ok s" "lineage (base_of s) c (c # cs)" "\<forall>d \<in> set cs. depth_of s d \<noteq> 0"
  shows "depths_ok (put_cd c ((descrs s c)\<lparr>cd_depth := word_of_nat (Suc (length cs))\<rparr>) s)"
proof -
  let ?s = "put_cd c ((descrs s c)\<lparr>cd_depth := word_of_nat (Suc (length cs))\<rparr>) s"
  have b: "base_of ?s = base_of s" using only_depths_facts(1) [OF only_depths_put] .
  have n: "(word_of_nat (Suc (length cs)) :: 8 word) \<noteq> 0"
    using assms(1,2) depths_okD [of s c "c # cs"] by (intro word_of_length) auto
  have d: "depth_of ?s x = (if x = c then word_of_nat (Suc (length cs)) else depth_of s x)" for x by (simp add: put_cd_def)
  have u: "xs = c # cs" if "lineage (base_of s) c xs" for xs using that assms(2) lineage_unique by blast
  show ?thesis
    using assms(1,3) n unfolding depths_ok_def b d by (auto dest: u)
qed

lemma depth_done:
  assumes "lineage b c cs" "depths_ok s" "b = base_of s" "depth_of s c \<noteq> 0"
  shows "obj_get_depth c s = Some (word_of_nat (length cs), s)"
  using assms by (subst obj_get_depth.simps) (auto simp: depths_ok_def)

lemma obj_get_depth_spec:
  "lineage b c cs \<Longrightarrow> b = base_of s \<Longrightarrow> depths_ok s \<Longrightarrow>
    \<exists>s'. obj_get_depth c s = Some (word_of_nat (length cs), s') \<and> only_depths s s' \<and> depths_ok s' \<and>
      (\<forall>x. depth_of s x \<noteq> 0 \<longrightarrow> depth_of s' x \<noteq> 0) \<and> depth_of s' c \<noteq> 0"
proof (induction arbitrary: s rule: lineage.induct)
  case (root c)
  have l: "lineage b c [c]" using root by (blast intro: lineage.root)
  show ?case
  proof (cases "depth_of s c = 0")
    case True
    let ?s = "put_cd c ((descrs s c)\<lparr>cd_depth := 1\<rparr>) s"
    have "obj_get_depth c s = Some (1, ?s)" using True root by (subst obj_get_depth.simps) simp
    moreover have "depths_ok ?s" using depths_ok_put [of s c "[]"] l root by simp
    moreover have "only_depths s ?s" by (rule only_depths_put)
    moreover have "\<forall>x. depth_of s x \<noteq> 0 \<longrightarrow> depth_of ?s x \<noteq> 0" "depth_of ?s c \<noteq> 0" by (simp_all add: put_cd_def)
    ultimately show ?thesis by auto
  next
    case False
    then show ?thesis using depth_done [OF l] root only_depths_refl by auto
  qed
next
  case (derived c cs)
  have l: "lineage b c (c # cs)" using derived by (blast intro: lineage.derived)
  show ?case
  proof (cases "depth_of s c = 0")
    case True
    obtain s1 where 1: "obj_get_depth (b c) s = Some (word_of_nat (length cs), s1)" "only_depths s s1" "depths_ok s1"
      "\<forall>x. depth_of s x \<noteq> 0 \<longrightarrow> depth_of s1 x \<noteq> 0" "depth_of s1 (b c) \<noteq> 0" using derived by blast
    have b: "base_of s1 = b" using only_depths_facts(1) [OF 1(2)] derived by simp
    let ?s = "put_cd c ((descrs s1 c)\<lparr>cd_depth := word_of_nat (Suc (length cs))\<rparr>) s1"
    have "obj_get_depth c s = Some (word_of_nat (Suc (length cs)), ?s)"
      using True derived(2,5) 1(1) by (subst obj_get_depth.simps) (simp add: add.commute)
    moreover have "\<forall>d \<in> set cs. depth_of s1 d \<noteq> 0" using 1(3,5) derived(3) b unfolding depths_ok_def by metis
    then have "depths_ok ?s" using depths_ok_put [OF 1(3)] l b by simp
    moreover have "only_depths s ?s" using only_depths_trans [OF 1(2) only_depths_put] .
    moreover have "(word_of_nat (Suc (length cs)) :: 8 word) \<noteq> 0"
      using l b depths_okD [OF 1(3), of c "c # cs"] by (intro word_of_length) auto
    then have "\<forall>x. depth_of s x \<noteq> 0 \<longrightarrow> depth_of ?s x \<noteq> 0" "depth_of ?s c \<noteq> 0" using 1(4) by (simp_all add: put_cd_def)
    ultimately show ?thesis by auto
  next
    case False
    then show ?thesis using depth_done [OF l] derived only_depths_refl by auto
  qed
qed

lemma init_depths_spec:
  "depths_ok s \<Longrightarrow> \<forall>c \<in> set ds. \<exists>cs. lineage (base_of s) c cs \<Longrightarrow>
    \<exists>s'. init_depths ds s = Some s' \<and> only_depths s s' \<and> depths_ok s' \<and>
      (\<forall>x. depth_of s x \<noteq> 0 \<longrightarrow> depth_of s' x \<noteq> 0) \<and> (\<forall>c \<in> set ds. depth_of s' c \<noteq> 0)"
proof (induction ds arbitrary: s)
  case Nil
  then show ?case using only_depths_refl by auto
next
  case (Cons c ds)
  obtain cs where "lineage (base_of s) c cs" using Cons.prems by auto
  from obj_get_depth_spec [OF this refl Cons.prems(1)] obtain s1 where 1: "obj_get_depth c s = Some (word_of_nat (length cs), s1)"
    "only_depths s s1" "depths_ok s1" "\<forall>x. depth_of s x \<noteq> 0 \<longrightarrow> depth_of s1 x \<noteq> 0" "depth_of s1 c \<noteq> 0" by blast
  obtain s2 where 2: "init_depths ds s1 = Some s2" "only_depths s1 s2" "depths_ok s2"
    "\<forall>x. depth_of s1 x \<noteq> 0 \<longrightarrow> depth_of s2 x \<noteq> 0" "\<forall>c \<in> set ds. depth_of s2 c \<noteq> 0"
    using Cons.IH [OF 1(3)] Cons.prems only_depths_facts(1) [OF 1(2)] by auto
  then show ?case using 1 only_depths_trans [OF 1(2) 2(2)] by auto
qed

section \<open>Lists of fixed types\<close>

text \<open>The fixed types that are declared for a class, the last one first.\<close>

definition own_types :: "registry \<Rightarrow> cd_addr \<Rightarrow> rt_addr list" where
  "own_types s c = rev (map fst (filter (\<lambda>(rt, dd). dd = c) (case pointed_data s of None \<Rightarrow> [] | Some ps \<Rightarrow> ps)))"

abbreviation next_of :: "registry \<Rightarrow> rt_addr \<Rightarrow> rt_addr" where
  "next_of s r \<equiv> rt_next (rtypes s r)"

abbreviation types_of :: "registry \<Rightarrow> cd_addr \<Rightarrow> rt_addr list \<Rightarrow> bool" where
  "types_of s c rts \<equiv> chain (next_of s) (cd_rel (descrs s c)) rts"

text \<open>A step that changes only the lists.\<close>

definition only_lists :: "registry \<Rightarrow> registry \<Rightarrow> bool" where
  "only_lists s s' \<longleftrightarrow> base_of s' = base_of s \<and> depth_of s' = depth_of s \<and> pointed_data s' = pointed_data s \<and>
     rel_classes s' = rel_classes s \<and> first_type s' = first_type s \<and> (\<forall>r. (rtypes s' r)\<lparr>rt_next := 0\<rparr> = (rtypes s r)\<lparr>rt_next := 0\<rparr>)"

lemma only_lists_refl: "only_lists s s" by (simp add: only_lists_def)

lemma only_lists_trans: "only_lists a b \<Longrightarrow> only_lists b c \<Longrightarrow> only_lists a c" by (simp add: only_lists_def)

lemma only_lists_put: "only_lists s (put_rt r ((rtypes s r)\<lparr>rt_next := x\<rparr>) s)" "only_lists s (put_cd c ((descrs s c)\<lparr>cd_rel := x\<rparr>) s)"
  by (auto simp: only_lists_def put_rt_def put_cd_def)

lemma init_ptr_from_spec:
  "distinct (map fst ps) \<Longrightarrow> \<forall>(rt, dd) \<in> set ps. rt \<noteq> 0 \<and> dd \<noteq> 0 \<Longrightarrow>
    \<forall>c. types_of s c (ts c) \<and> set (ts c) \<inter> fst ` set ps = {} \<Longrightarrow>
    \<exists>s'. init_ptr_from ps s = Some s' \<and> only_lists s s' \<and>
      (\<forall>c. types_of s' c (rev (map fst (filter (\<lambda>(rt, dd). dd = c) ps)) @ ts c))"
proof (induction ps arbitrary: s ts)
  case Nil
  then show ?case using only_lists_refl by simp
next
  case (Cons p ps)
  obtain rt dd where p: "p = (rt, dd)" by (cases p)
  define s1 where "s1 = put_rt rt ((rtypes s rt)\<lparr>rt_next := cd_rel (descrs s dd)\<rparr>) s"
  define s2 where "s2 = put_cd dd ((descrs s1 dd)\<lparr>cd_rel := rt\<rparr>) s1"
  define ts' where "ts' = ts(dd := rt # ts dd)"
  have nx: "next_of s2 = (next_of s)(rt := cd_rel (descrs s dd))" by (auto simp: s2_def s1_def put_cd_def put_rt_def)
  have rel: "cd_rel (descrs s2 c) = (if c = dd then rt else cd_rel (descrs s c))" for c by (simp add: s2_def s1_def put_cd_def put_rt_def)
  have "types_of s2 c (ts' c) \<and> set (ts' c) \<inter> fst ` set ps = {}" for c
  proof -
    have "rt \<notin> set (ts c)" "rt \<notin> set (ts dd)" "rt \<noteq> 0" "rt \<notin> fst ` set ps" using Cons.prems p by auto
    then show ?thesis using Cons.prems(3) [rule_format, of c] Cons.prems(3) [rule_format, of dd] p
      by (auto simp: ts'_def rel nx chain_other)
  qed
  then obtain s' where s': "init_ptr_from ps s2 = Some s'" "only_lists s2 s'"
    "\<forall>c. types_of s' c (rev (map fst (filter (\<lambda>(rt, dd). dd = c) ps)) @ ts' c)"
    using Cons.IH [of s2 ts'] Cons.prems(1,2) by auto
  have "only_lists s s2" unfolding s2_def s1_def using only_lists_trans only_lists_put by blast
  then have "only_lists s s'" using only_lists_trans s'(2) by blast
  moreover have "rev (map fst (filter (\<lambda>(rt, dd). dd = c) (p # ps))) @ ts c = rev (map fst (filter (\<lambda>(rt, dd). dd = c) ps)) @ ts' c" for c
    by (auto simp: p ts'_def)
  moreover have "init_ptr_from (p # ps) s = Some s'"
    using s'(1) Cons.prems(2) p by (auto simp: Let_def s2_def s1_def)
  ultimately show ?case using s'(3) by auto
qed

definition inherited :: "registry \<Rightarrow> cd_addr list \<Rightarrow> rt_addr list" where
  "inherited s cs = concat (map (own_types s) cs)"

lemma own_types_cong: "pointed_data s' = pointed_data s \<Longrightarrow> own_types s' = own_types s"
  by (simp add: own_types_def fun_eq_iff)

lemma inherited_cong: "pointed_data s' = pointed_data s \<Longrightarrow> inherited s' = inherited s"
  using own_types_cong [of s' s] by (intro ext) (simp only: inherited_def)

definition types_apart :: "registry \<Rightarrow> bool" where
  "types_apart s \<longleftrightarrow> (case pointed_data s of None \<Rightarrow> True
     | Some ps \<Rightarrow> distinct (map fst ps) \<and> (\<forall>(rt, dd) \<in> set ps. rt \<noteq> 0 \<and> dd \<noteq> 0))"

lemma own_types_apart:
  assumes "types_apart s"
  shows "distinct (own_types s c)" "c \<noteq> d \<Longrightarrow> set (own_types s c) \<inter> set (own_types s d) = {}"
proof -
  define ps where "ps = (case pointed_data s of None \<Rightarrow> [] | Some ps \<Rightarrow> ps)"
  have ps: "own_types s d = rev (map fst (filter (\<lambda>(rt, dd). dd = d) ps))" "distinct (map fst ps)" for d
    using assms by (simp add: own_types_def ps_def) (use assms in \<open>auto simp: ps_def types_apart_def split: option.splits\<close>)
  show "distinct (own_types s c)" using ps(2) by (simp add: ps(1) distinct_map distinct_filter inj_on_def)
  show "set (own_types s c) \<inter> set (own_types s d) = {}" if "c \<noteq> d"
    using that inj_onD [OF distinct_map [THEN iffD1, OF ps(2), THEN conjunct2]] unfolding ps(1) by fastforce
qed

lemma inherited_apart: "types_apart s \<Longrightarrow> c \<notin> set cs \<Longrightarrow> set (own_types s c) \<inter> set (inherited s cs) = {}"
  using own_types_apart(2) [of s c] by (fastforce simp: inherited_def)

lemma init_descr_step:
  assumes t: "types_apart s" "types_of s c (own_types s c)" "types_of s (base_of s c) ts"
    and ne: "base_of s c \<noteq> 0" and a: "set (own_types s c) \<inter> set ts = {}"
  obtains s' where "init_descr c s = Some s'" "only_lists s s'" "types_of s' c (own_types s c @ ts)"
    "\<And>d us. d \<noteq> c \<Longrightarrow> types_of s d us \<Longrightarrow> set us \<inter> set (own_types s c) = {} \<Longrightarrow> types_of s' d us"
proof -
  let ?b = "base_of s c"
  consider (unrelated) "cd_rel (descrs s ?b) = 0" | (shared) "cd_rel (descrs s ?b) \<noteq> 0" "own_types s c = []"
    | (linked) "cd_rel (descrs s ?b) \<noteq> 0" "own_types s c \<noteq> []" by blast
  then show ?thesis
  proof cases
    case unrelated
    then have "ts = []" using t(3) by (cases ts) auto
    have "init_descr c s = Some s" using unrelated by (simp add: init_descr_def Let_def)
    then show ?thesis using that [of s] t(2) only_lists_refl \<open>ts = []\<close> by simp
  next
    case shared
    let ?s = "put_cd c ((descrs s c)\<lparr>cd_rel := cd_rel (descrs s ?b)\<rparr>) s"
    have "cd_rel (descrs s c) = 0" using t(2) shared by simp
    then have "init_descr c s = Some ?s" using shared ne by (simp add: init_descr_def Let_def)
    then show ?thesis using that [of ?s] only_lists_put(2) shared(2) t(3) by (simp add: put_cd_def)
  next
    case linked
    let ?l = "last (own_types s c)"
    let ?s = "put_rt ?l ((rtypes s ?l)\<lparr>rt_next := cd_rel (descrs s ?b)\<rparr>) s"
    have nz: "cd_rel (descrs s c) \<noteq> 0" using t(2) linked by (cases "own_types s c") auto
    have 1: "init_descr c s = Some ?s"
      using linked ne nz last_type_chain [OF t(2)] by (simp add: init_descr_def Let_def)
    have nx: "next_of ?s = (next_of s)(?l := cd_rel (descrs s ?b))" by (auto simp: put_rt_def)
    have l: "?l \<in> set (own_types s c)" using linked by simp
    then have "?l \<notin> set ts" using a by blast
    then have "chain (next_of ?s) (cd_rel (descrs s c)) (own_types s c @ ts)"
      unfolding nx using own_types_apart(1) [OF t(1)] linked t(2,3) by (intro chain_append) (simp_all add: chain_other)
    then have "types_of ?s c (own_types s c @ ts)" by (simp add: put_rt_def)
    moreover have "types_of ?s d us" if "types_of s d us" "set us \<inter> set (own_types s c) = {}" for d us
    proof -
      have "?l \<notin> set us" using that(2) l by blast
      then have "chain (next_of ?s) (cd_rel (descrs s d)) us" unfolding nx using that(1) by (simp add: chain_other)
      then show ?thesis by (simp add: put_rt_def)
    qed
    ultimately show ?thesis using that [of ?s] 1 only_lists_put(1) by blast
  qed
qed

text \<open>The loop over the classes, of which those in \<open>M\<close> are done.\<close>

definition lists_ok :: "registry \<Rightarrow> cd_addr set \<Rightarrow> bool" where
  "lists_ok s M \<longleftrightarrow> types_apart s \<and> (\<forall>c \<in> M. base_of s c \<in> M \<or> base_of s (base_of s c) = 0) \<and>
     (\<forall>c cs. lineage (base_of s) c cs \<longrightarrow> types_of s c (if c \<in> M then inherited s cs else own_types s c))"

lemma lineage_closed:
  "lineage b c cs \<Longrightarrow> \<forall>c \<in> M. b c \<in> M \<or> b (b c) = 0 \<Longrightarrow> c \<in> M \<or> b c = 0 \<Longrightarrow> d \<in> set cs \<Longrightarrow> d \<in> M \<or> b d = 0"
  by (induction rule: lineage.induct) auto

lemma lists_ok_root: "lists_ok s M \<Longrightarrow> lineage (base_of s) c cs \<Longrightarrow> c \<in> M \<or> base_of s c = 0 \<Longrightarrow> types_of s c (inherited s cs)"
proof -
  assume a: "lists_ok s M" "lineage (base_of s) c cs" "c \<in> M \<or> base_of s c = 0"
  have t: "types_of s c (if c \<in> M then inherited s cs else own_types s c)" using a(1,2) unfolding lists_ok_def by blast
  show ?thesis
  proof (cases "c \<in> M")
    case False
    then have "cs = [c]" using a(2,3) by (auto elim: lineage.cases)
    then show ?thesis using t False by (simp add: inherited_def)
  qed (use t in simp)
qed

lemma lists_ok_own: "lists_ok s M \<Longrightarrow> lineage (base_of s) c cs \<Longrightarrow> c \<notin> M \<Longrightarrow> types_of s c (own_types s c)"
proof -
  assume "lists_ok s M" "lineage (base_of s) c cs" "c \<notin> M"
  then have "types_of s c (if c \<in> M then inherited s cs else own_types s c)" unfolding lists_ok_def by blast
  then show ?thesis using \<open>c \<notin> M\<close> by simp
qed

lemma init_descrs_spec:
  "lists_ok s M \<Longrightarrow> \<forall>c \<in> set ds. base_of s c \<noteq> 0 \<and> (\<exists>cs. lineage (base_of s) c cs) \<Longrightarrow>
    \<forall>c \<in> set ds. base_of s c \<in> set ds \<or> base_of s c \<in> M \<or> base_of s (base_of s c) = 0 \<Longrightarrow>
    sorted_wrt (\<lambda>a b. base_of s a \<noteq> b) ds \<Longrightarrow> distinct ds \<Longrightarrow> set ds \<inter> M = {} \<Longrightarrow>
    \<exists>s'. init_descrs ds s = Some s' \<and> only_lists s s' \<and> lists_ok s' (M \<union> set ds)"
proof (induction ds arbitrary: s M)
  case Nil
  then show ?case using only_lists_refl by auto
next
  case (Cons c ds)
  let ?b = "base_of s c"
  obtain bs where l: "lineage (base_of s) c (c # bs)" "lineage (base_of s) ?b bs" and ne: "?b \<noteq> 0"
    using Cons.prems(2) lineage_base by (metis list.set_intros(1))
  have "?b \<noteq> c" using lineage_member [OF l(1) _ l(1)] lineage_unique l by fastforce
  then have b: "?b \<in> M \<or> base_of s ?b = 0" using Cons.prems(3,4) by auto
  have M: "types_apart s" "\<forall>c \<in> M. base_of s c \<in> M \<or> base_of s (base_of s c) = 0" using Cons.prems(1) by (simp_all add: lists_ok_def)
  have c: "c \<notin> M" "base_of s c \<noteq> 0" using Cons.prems(2,6) by auto
  have away: "c \<notin> set cs" if "lineage (base_of s) d cs" "d \<in> M \<or> base_of s d = 0" for d cs
  proof
    assume "c \<in> set cs"
    then have "c \<in> M \<or> base_of s c = 0" by (rule lineage_closed [OF that(1) M(2) that(2)])
    then show False using c by simp
  qed
  note 0 = lists_ok_own [OF Cons.prems(1) l(1) c(1)] lists_ok_root [OF Cons.prems(1) l(2) b]
  obtain s1 where 1: "init_descr c s = Some s1" "only_lists s s1" "types_of s1 c (own_types s c @ inherited s bs)"
    "\<And>d us. d \<noteq> c \<Longrightarrow> types_of s d us \<Longrightarrow> set us \<inter> set (own_types s c) = {} \<Longrightarrow> types_of s1 d us"
    by (rule init_descr_step [OF M(1) 0 ne inherited_apart [OF M(1) away [OF l(2) b]]]) blast
  have same: "base_of s1 = base_of s" "own_types s1 = own_types s" "inherited s1 = inherited s" "pointed_data s1 = pointed_data s"
    using 1(2) own_types_cong [of s1 s] inherited_cong [of s1 s] by (simp_all add: only_lists_def)
  have at: "base_of s1 x = base_of s x" for x using fun_cong [OF same(1)] .
  have lists: "types_of s1 d (if d \<in> insert c M then inherited s ds else own_types s d)" if d: "lineage (base_of s) d ds" for d ds
  proof (cases "d = c")
    case True
    then have "ds = c # bs" using d l(1) lineage_unique by blast
    then show ?thesis using 1(3) True by (simp add: inherited_def)
  next
    case False
    have "set (if d \<in> M then inherited s ds else own_types s d) \<inter> set (own_types s c) = {}"
      using inherited_apart [OF M(1) away [OF d]] own_types_apart(2) [OF M(1) False] by auto
    moreover have "types_of s d (if d \<in> M then inherited s ds else own_types s d)"
      using Cons.prems(1) d unfolding lists_ok_def by blast
    ultimately show ?thesis using 1(4) [OF False] False by simp
  qed
  have "\<forall>d \<in> insert c M. base_of s1 d \<in> insert c M \<or> base_of s1 (base_of s1 d) = 0" using M(2) b by (auto simp: at)
  moreover have "types_apart s1" using M(1) by (simp add: types_apart_def same(4))
  ultimately have "lists_ok s1 (insert c M)" using lists unfolding lists_ok_def same by blast
  moreover have "\<forall>x \<in> set ds. base_of s1 x \<noteq> 0 \<and> (\<exists>cs. lineage (base_of s1) x cs)" using Cons.prems(2) unfolding same at by simp
  moreover have "\<forall>x \<in> set ds. base_of s1 x \<in> set ds \<or> base_of s1 x \<in> insert c M \<or> base_of s1 (base_of s1 x) = 0"
    using Cons.prems(3) by (auto simp: at)
  moreover have "sorted_wrt (\<lambda>a b. base_of s1 a \<noteq> b) ds" using Cons.prems(4) unfolding at by simp
  moreover have "distinct ds" "set ds \<inter> insert c M = {}" using Cons.prems(5,6) by auto
  ultimately obtain s2 where 2: "init_descrs ds s1 = Some s2" "only_lists s1 s2" "lists_ok s2 (insert c M \<union> set ds)"
    using Cons.IH [of s1 "insert c M"] by blast
  then show ?case using 1(1) only_lists_trans [OF 1(2) 2(2)] by auto
qed

section \<open>The whole initialisation\<close>

text \<open>What the constructors leave: classes with a base are recorded once, the lines of bases end and are
  shorter than an unsigned char can count, and the fixed types are different objects.\<close>

definition declared :: "registry \<Rightarrow> bool" where
  "declared s \<longleftrightarrow> types_apart s \<and> (\<forall>c. depth_of s c = 0 \<and> cd_rel (descrs s c) = 0) \<and>
     (\<exists>darr. rel_classes s = Some darr \<and> distinct darr \<and> (\<forall>c. c \<in> set darr \<longleftrightarrow> base_of s c \<noteq> 0)) \<and>
     (\<forall>c. base_of s c \<noteq> 0 \<longrightarrow> (\<exists>cs. lineage (base_of s) c cs)) \<and>
     (\<forall>c cs. lineage (base_of s) c cs \<longrightarrow> length cs < 256)"

lemma init_ptr_spec:
  assumes "types_apart s" "\<forall>c. cd_rel (descrs s c) = 0"
  shows "\<exists>s'. init_ptr s = Some s' \<and> only_lists s s' \<and> (\<forall>c. types_of s' c (own_types s c))"
proof (cases "pointed_data s")
  case None
  then show ?thesis using assms only_lists_refl by (auto simp: init_ptr_def own_types_def)
next
  case (Some ps)
  have "\<forall>c. types_of s c [] \<and> set ([] :: rt_addr list) \<inter> fst ` set ps = {}" using assms(2) by simp
  from init_ptr_from_spec [of ps s "\<lambda>_. []", OF _ _ this]
  obtain s' where "init_ptr_from ps s = Some s'" "only_lists s s'" "\<forall>c. types_of s' c (rev (map fst (filter (\<lambda>(rt, dd). dd = c) ps)) @ [])"
    using assms(1) Some by (auto simp: types_apart_def)
  then show ?thesis using Some by (auto simp: init_ptr_def own_types_def)
qed

lemma depths_ok_unat:
  assumes "depths_ok s" "lineage (base_of s) c cs" "depth_of s c \<noteq> 0"
  shows "unat (depth_of s c) = length cs"
proof -
  have "depth_of s c = word_of_nat (length cs)" using assms unfolding depths_ok_def by blast
  then show ?thesis using depths_okD [OF assms(1,2)] by (simp add: unat_of_nat)
qed

lemma base_less_deep:
  assumes "depths_ok s" "lineage (base_of s) c cs" "base_of s c \<noteq> 0" "depth_of s c \<noteq> 0"
  shows "depth_of s (base_of s c) < depth_of s c"
proof -
  obtain bs where bs: "cs = c # bs" "lineage (base_of s) (base_of s c) bs" using lineage_base [OF assms(2,3)] by blast
  obtain b' where b': "bs = base_of s c # b'" using lineage_nonempty [OF bs(2)] by blast
  have "depth_of s (base_of s c) \<noteq> 0" using assms(1,2,4) bs(1) b' by (auto simp: depths_ok_def)
  then have "unat (depth_of s (base_of s c)) = length bs" "unat (depth_of s c) = length cs"
    using depths_ok_unat assms(1,2,4) bs(2) by blast+
  then show ?thesis using bs(1) by (simp add: word_less_nat_alt)
qed

lemma init_rel_ptrs_spec:
  assumes d: "declared s"
  shows "\<exists>s'. init_rel_ptrs s = Some s' \<and> base_of s' = base_of s \<and> depths_ok s' \<and> (\<forall>c. base_of s c \<noteq> 0 \<longrightarrow> depth_of s' c \<noteq> 0) \<and>
    (\<forall>c cs. lineage (base_of s) c cs \<longrightarrow> types_of s' c (inherited s cs)) \<and>
    (\<forall>r. (rtypes s' r)\<lparr>rt_next := 0\<rparr> = (rtypes s r)\<lparr>rt_next := 0\<rparr>)"
proof -
  obtain darr where darr: "rel_classes s = Some darr" "distinct darr" "\<forall>c. c \<in> set darr \<longleftrightarrow> base_of s c \<noteq> 0"
    using d by (auto simp: declared_def)
  have ok: "depths_ok s" "types_apart s" "\<forall>c \<in> set darr. \<exists>cs. lineage (base_of s) c cs" "\<forall>c. cd_rel (descrs s c) = 0"
    using d darr by (auto simp: declared_def depths_ok_def)
  obtain s1 where 1: "init_depths darr s = Some s1" "only_depths s s1" "depths_ok s1" "\<forall>c \<in> set darr. depth_of s1 c \<noteq> 0"
    using init_depths_spec [OF ok(1,3)] by blast
  note f1 = only_depths_facts [OF 1(2)]
  have "types_apart s1" "\<forall>c. cd_rel (descrs s1 c) = 0" using ok(2,4) f1 by (simp_all add: types_apart_def)
  then obtain s2 where 2: "init_ptr s1 = Some s2" "only_lists s1 s2" "\<forall>c. types_of s2 c (own_types s1 c)"
    using init_ptr_spec by blast
  have b2: "base_of s2 = base_of s" "depth_of s2 = depth_of s1" "pointed_data s2 = pointed_data s"
    using 2(2) f1 by (simp_all add: only_lists_def)
  have at: "base_of s2 x = base_of s x" "depth_of s2 x = depth_of s1 x" for x using fun_cong [OF b2(1)] fun_cong [OF b2(2)] by auto
  define ds where "ds = sort_descrs (\<lambda>d. depth_of s2 d) darr"
  let ?s2 = "s2\<lparr>rel_classes := Some ds\<rparr>"
  have set: "set ds = set darr" "distinct ds" "sorted_wrt (\<lambda>a b. depth_of s2 a \<le> depth_of s2 b) ds"
    using sort_descrs_sorts [of "depth_of s2" darr] darr(2) mset_eq_setD mset_eq_imp_distinct_iff unfolding ds_def by blast+
  have d2: "depths_ok s2" using 1(3) b2(1) f1(1) at(2) unfolding depths_ok_def by simp
  have less: "depth_of s2 (base_of s2 c) < depth_of s2 c" if "c \<in> set ds" for c
    using base_less_deep [OF d2, of c] ok(3) that set(1) darr(3) 1(4) unfolding b2(1) at by blast
  have sorted: "sorted_wrt (\<lambda>a b. base_of ?s2 a \<noteq> b) ds"
    by (rule sorted_wrt_mono_rel [OF _ set(3)]) (use less in force)
  have own: "own_types ?s2 = own_types s1" "own_types s1 = own_types s"
    using own_types_cong [of ?s2 s1] own_types_cong [of s1 s] b2(3) f1(4) by simp_all
  have "types_apart ?s2" using ok(2) b2(3) by (simp add: types_apart_def)
  then have "lists_ok ?s2 {}" using 2(3) own(1) by (simp add: lists_ok_def)
  moreover have "\<forall>c \<in> set ds. base_of ?s2 c \<noteq> 0 \<and> (\<exists>cs. lineage (base_of ?s2) c cs)"
    using ok(3) darr(3) set(1) b2(1) at(1) by simp
  moreover have "\<forall>c \<in> set ds. base_of ?s2 c \<in> set ds \<or> base_of ?s2 c \<in> {} \<or> base_of ?s2 (base_of ?s2 c) = 0"
    using darr(3) set(1) at(1) by auto
  ultimately obtain s3 where 3: "init_descrs ds ?s2 = Some s3" "only_lists ?s2 s3" "lists_ok s3 ({} \<union> set ds)"
    using init_descrs_spec [of ?s2 "{}" ds] sorted set(2) by blast
  have "init_rel_ptrs s = Some s3" using darr(1) 1(1) 2(1) 3(1) by (simp add: init_rel_ptrs_def Let_def ds_def)
  moreover have b3: "base_of s3 = base_of s" "depth_of s3 = depth_of s2" "pointed_data s3 = pointed_data s"
    using 3(2) b2 by (simp_all add: only_lists_def)
  moreover have "depths_ok s3" using d2 b3 b2(1) fun_cong [OF b3(2)] unfolding depths_ok_def by simp
  moreover have "\<forall>c. base_of s c \<noteq> 0 \<longrightarrow> depth_of s3 c \<noteq> 0"
    using fun_cong [OF b3(2)] at(2) darr(3) 1(4) by simp
  moreover have "types_of s3 c (inherited s cs)" if l: "lineage (base_of s) c cs" for c cs
  proof -
    have "c \<in> set ds \<or> base_of s3 c = 0" using darr(3) set(1) fun_cong [OF b3(1)] by auto
    then show ?thesis using lists_ok_root [OF 3(3), of c cs] l b3(1) inherited_cong [OF b3(3)] by simp
  qed
  moreover have "\<forall>r. (rtypes s3 r)\<lparr>rt_next := 0\<rparr> = (rtypes s r)\<lparr>rt_next := 0\<rparr>"
    using 3(2) 2(2) f1(3) by (simp add: only_lists_def)
  ultimately show ?thesis by blast
qed

section \<open>Subclasses\<close>

lemma climb_bases_lineage:
  "lineage b c cs \<Longrightarrow> b = base_of s \<Longrightarrow>
    (n < length cs \<longrightarrow> climb_bases n c s = Some (cs ! n)) \<and> climb_bases (length cs) c s = Some 0"
proof (induction arbitrary: n rule: lineage.induct)
  case (root c)
  then show ?case by (cases n) simp_all
next
  case (derived c cs)
  then show ?case by (cases n) simp_all
qed

lemma is_subclass_spec:
  assumes ok: "depths_ok s" "\<forall>c. base_of s c \<noteq> 0 \<longrightarrow> depth_of s c \<noteq> 0"
    and c: "lineage (base_of s) c cs" and d: "lineage (base_of s) d ds"
  shows "is_subclass c d s = Some (d \<in> set cs)"
proof (cases "c = d")
  case True
  then show ?thesis using lineage_nonempty [OF c] by (auto simp: is_subclass_def)
next
  case False
  have nz: "c \<noteq> 0" "d \<noteq> 0" using c d by (auto elim: lineage.cases)
  have depth: "unat (depth_of s x) = (if depth_of s x = 0 then 0 else length xs)" if "lineage (base_of s) x xs" for x xs
    using depths_ok_unat [OF ok(1) that] by simp
  have single: "xs = [x]" if "lineage (base_of s) x xs" "depth_of s x = 0" for x xs
    using that ok(2) by (auto elim: lineage.cases)
  have below: "depth_of s d \<noteq> 0" if "d \<in> set cs" "depth_of s c \<noteq> 0"
    using that ok(1) c by (auto simp: depths_ok_def)
  show ?thesis
  proof (cases "unat (depth_of s c) \<le> unat (depth_of s d)")
    case True
    have "d \<notin> set cs"
    proof
      assume m: "d \<in> set cs"
      then have "depth_of s c \<noteq> 0" using single [OF c] False by auto
      then have "length cs \<le> length ds" using True below m depth [OF c] depth [OF d] by simp
      then have "cs ! 0 = d" using lineage_member [OF c m d] by (metis diff_is_0_eq)
      then show False using lineage_nonempty [OF c] False by auto
    qed
    then show ?thesis using True False nz by (simp add: is_subclass_def)
  next
    case less: False
    then have dc: "depth_of s c \<noteq> 0" by auto
    let ?n = "unat (depth_of s c) - unat (depth_of s d)"
    have sub: "is_subclass c d s = climb_bases ?n c s \<bind> (\<lambda>x. Some (x = d))"
      using less False nz by (simp add: is_subclass_def)
    show ?thesis
    proof (cases "depth_of s d = 0")
      case True
      then have "d \<notin> set cs" using below dc by blast
      moreover have "?n = length cs" using True depth [OF c] dc by simp
      ultimately show ?thesis using climb_bases_lineage [OF c refl] nz by (simp add: sub)
    next
      case nd: False
      have "0 < length ds" using lineage_nonempty [OF d] by auto
      then have n: "?n = length cs - length ds" "?n < length cs" using depth [OF c] depth [OF d] dc nd less by (simp_all del: length_greater_0_conv)
      then have "climb_bases ?n c s = Some (cs ! ?n)" using climb_bases_lineage [OF c refl] by blast
      moreover have "cs ! ?n = d \<longleftrightarrow> d \<in> set cs" using n lineage_member [OF c _ d] by force
      ultimately show ?thesis by (simp add: sub)
    qed
  qed
qed

end
