(* ===== verification/Class_Properties.thy ===== *)
theory Class_Properties
  imports Class_Hierarchy Relation_Refinement
begin

text \<open>
  The properties of relation types and class descriptors: what the constructors establish in the
  order in which the program's static objects are made, and what \<^verbatim>\<open>init_rel_ptrs\<close> makes of it.
\<close>

section \<open>Declarations\<close>

datatype decl =
    Class cd_addr string cd_addr
  | Fixed rt_addr string int int rt_addr nat nat cd_addr
  | Dynamic rt_addr string int int rt_addr nat

fun declare_static :: "decl \<Rightarrow> registry \<Rightarrow> registry option" where
  "declare_static (Class this n bs) s = Some (class_descriptor_new this n bs s)"
| "declare_static (Fixed this n cc ff invr assoc off desc) s = RelType_fixed this n cc ff invr assoc off desc s"
| "declare_static (Dynamic this n cc ff invr assoc) s = RelType_dynamic this n cc ff invr assoc s"

definition registry_init :: registry where
  "registry_init = \<lparr>rtypes = (\<lambda>_. \<lparr>rt_name = [], rt_inverse = 0, rt_cardinality = 0, rt_flags = 0, rt_assoc = 0, rt_next = 0,
       rt_offset = 0, rt_forw = False, rt_save = False, rt_ifl = False\<rparr>),
     descrs = (\<lambda>_. \<lparr>cd_name = [], cd_depth = 0, cd_rel = 0, cd_base = 0\<rparr>), first_type = 0, pointed_data = None, rel_classes = None\<rparr>"

abbreviation inverse_of :: "registry \<Rightarrow> rt_addr \<Rightarrow> rt_addr" where
  "inverse_of s r \<equiv> rt_inverse (rtypes s r)"

definition pointed :: "registry \<Rightarrow> (rt_addr \<times> cd_addr) list" where
  "pointed s = (case pointed_data s of None \<Rightarrow> [] | Some ps \<Rightarrow> ps)"

text \<open>Every object is constructed once, and a type is named as the reverse of at most one other.\<close>

definition new_pair :: "rt_addr \<Rightarrow> rt_addr \<Rightarrow> registry \<Rightarrow> bool" where
  "new_pair this invr s \<longleftrightarrow> this > 1 \<and> inverse_of s this = 0 \<and> (\<forall>r. inverse_of s r \<noteq> this) \<and> this \<notin> fst ` set (pointed s) \<and>
     (invr = 0 \<or> invr = 1 \<or> invr \<noteq> this \<and> inverse_of s invr = 0)"

fun valid_decl :: "decl \<Rightarrow> registry \<Rightarrow> bool" where
  "valid_decl (Class this n bs) s \<longleftrightarrow> this \<noteq> 0 \<and> base_of s this = 0"
| "valid_decl (Fixed this n cc ff invr assoc off desc) s \<longleftrightarrow> new_pair this invr s \<and> desc \<noteq> 0"
| "valid_decl (Dynamic this n cc ff invr assoc) s \<longleftrightarrow> new_pair this invr s"

inductive well_declared :: "registry \<Rightarrow> bool" where
  none: "well_declared registry_init"
| one: "well_declared s \<Longrightarrow> valid_decl d s \<Longrightarrow> declare_static d s = Some s' \<Longrightarrow> well_declared s'"

definition paired :: "registry \<Rightarrow> bool" where
  "paired s \<longleftrightarrow> (\<forall>r. inverse_of s r \<noteq> 0 \<longrightarrow> inverse_of s (inverse_of s r) = r) \<and> (\<forall>r. inverse_of s r \<noteq> 1) \<and> inverse_of s 0 = 0"

definition classes_once :: "registry \<Rightarrow> bool" where
  "classes_once s \<longleftrightarrow> (case rel_classes s of None \<Rightarrow> \<forall>c. base_of s c = 0
     | Some darr \<Rightarrow> distinct darr \<and> (\<forall>c. c \<in> set darr \<longleftrightarrow> base_of s c \<noteq> 0))"

definition untouched :: "registry \<Rightarrow> bool" where
  "untouched s \<longleftrightarrow> (\<forall>c. depth_of s c = 0 \<and> cd_rel (descrs s c) = 0) \<and> base_of s 0 = 0"

lemma new_type_facts:
  assumes "new_type this n cc ff invr assoc off s = Some s'" "new_pair this invr s" "paired s"
  shows "paired s'" "descrs s' = descrs s" "pointed_data s' = pointed_data s" "rel_classes s' = rel_classes s" "first_type s' = first_type s"
proof -
  have inv: "inverse_of s' = (if invr = 1 then (inverse_of s)(this := this)
      else if invr = 0 then inverse_of s else (inverse_of s)(this := invr, invr := this))"
    using assms(1,2) by (auto simp: new_type_def link_inverse_def put_rt_def Let_def new_pair_def split: if_splits)
  have p: "inverse_of s r \<noteq> 0 \<Longrightarrow> inverse_of s (inverse_of s r) = r" "inverse_of s r \<noteq> 1" "inverse_of s 0 = 0" for r
    using assms(3) by (auto simp: paired_def)
  have n: "this > 1" "inverse_of s this = 0" "\<And>r. inverse_of s r \<noteq> this" "invr = 0 \<or> invr = 1 \<or> invr \<noteq> this \<and> inverse_of s invr = 0"
    using assms(2) by (auto simp: new_pair_def)
  show "paired s'"
    unfolding paired_def
  proof (intro conjI allI impI)
    fix r assume r: "inverse_of s' r \<noteq> 0"
    show "inverse_of s' (inverse_of s' r) = r"
    proof (cases "invr = 0 \<or> invr = 1")
      case True
      then show ?thesis using r p(1) [of r] p(2) [of r] n(2) n(3) [of r] fun_cong [OF inv] by (auto split: if_splits)
    next
      case False
      then show ?thesis using r p(1,3) n fun_cong [OF inv] by (auto split: if_splits)
    qed
  next
    fix r
    show "inverse_of s' r \<noteq> 1" using p(2) n(1,4) fun_cong [OF inv, of r] by (auto split: if_splits)
  next
    show "inverse_of s' 0 = 0" using p(3) n(1) fun_cong [OF inv, of 0] by (auto split: if_splits)
  qed
  show "descrs s' = descrs s" "pointed_data s' = pointed_data s" "rel_classes s' = rel_classes s" "first_type s' = first_type s"
    using assms(1) by (auto simp: new_type_def link_inverse_def put_rt_def Let_def split: if_splits)
qed

lemma add_first_facts:
  "inverse_of (add_first this s) = inverse_of s" "descrs (add_first this s) = descrs s" "pointed_data (add_first this s) = pointed_data s"
  "rel_classes (add_first this s) = rel_classes s"
  by (auto simp: add_first_def put_rt_def)

lemma fixed_facts:
  assumes "RelType_fixed this n cc ff invr assoc off desc s = Some s'" "new_pair this invr s" "paired s"
  shows "paired s'" "descrs s' = descrs s" "rel_classes s' = rel_classes s"
    "pointed s' = (if off = 0 then pointed s else pointed s @ [(this, desc)])"
proof -
  obtain s1 where 1: "new_type this n cc ff invr assoc off s = Some s1"
    "s' = (if off \<noteq> 0 then s1\<lparr>pointed_data := Some (pointed s1 @ [(this, desc)])\<rparr> else add_first this s1)"
    using assms(1) by (auto simp: RelType_fixed_def pointed_def bind_eq_Some_conv)
  note f = new_type_facts [OF 1(1) assms(2,3)]
  have "inverse_of s' = inverse_of s1" by (simp add: 1(2) add_first_facts)
  then show "paired s'" using f(1) fun_cong [of "inverse_of s'" "inverse_of s1"] unfolding paired_def by simp
  show "descrs s' = descrs s" "rel_classes s' = rel_classes s" using f by (auto simp: 1(2) add_first_facts)
  show "pointed s' = (if off = 0 then pointed s else pointed s @ [(this, desc)])"
    using f(3) by (simp add: 1(2) add_first_facts pointed_def)
qed

lemma dynamic_is_fixed: "RelType_dynamic this n cc ff invr assoc s = RelType_fixed this n cc ff invr assoc 0 0 s"
  by (simp add: RelType_dynamic_def RelType_fixed_def)

lemma types_apart_pointed: "types_apart s \<longleftrightarrow> distinct (map fst (pointed s)) \<and> (\<forall>(rt, dd) \<in> set (pointed s). rt \<noteq> 0 \<and> dd \<noteq> 0)"
  by (auto simp: types_apart_def pointed_def split: option.splits)

lemma fixed_keeps:
  assumes "RelType_fixed this n cc ff invr assoc off desc s = Some s'" "new_pair this invr s" "desc \<noteq> 0 \<or> off = 0"
    and "paired s" "types_apart s" "classes_once s" "untouched s"
  shows "paired s' \<and> types_apart s' \<and> classes_once s' \<and> untouched s'"
proof -
  note f = fixed_facts [OF assms(1,2,4)]
  have "this \<noteq> 0" "this \<notin> fst ` set (pointed s)" using assms(2) by (auto simp: new_pair_def)
  then have "types_apart s'" using assms(3,5) unfolding types_apart_pointed f(4) by auto
  moreover have "classes_once s'" using assms(6) by (simp add: classes_once_def f(2,3) split: option.splits)
  moreover have "untouched s'" using assms(7) by (simp add: untouched_def f(2))
  ultimately show ?thesis using f(1) by blast
qed

lemma class_keeps:
  assumes "this \<noteq> 0" "base_of s this = 0" "classes_once s" "untouched s"
  shows "classes_once (class_descriptor_new this n bs s) \<and> untouched (class_descriptor_new this n bs s)"
proof
  let ?s = "class_descriptor_new this n bs s"
  have d: "descrs ?s = (descrs s)(this := \<lparr>cd_name = n, cd_depth = 0, cd_rel = 0, cd_base = bs\<rparr>)"
    by (simp add: class_descriptor_new_def put_cd_def Let_def)
  then show "untouched ?s" using assms(1,4) by (simp add: untouched_def)
  have r: "rel_classes ?s = Some ((case rel_classes s of None \<Rightarrow> [] | Some a \<Rightarrow> a) @ (if bs \<noteq> 0 then [this] else []))"
    by (simp add: class_descriptor_new_def put_cd_def Let_def)
  show "classes_once ?s" using assms(2,3) by (cases "rel_classes s") (auto simp: classes_once_def d r)
qed

text \<open>The constructors of the static relation types and classes keep the registry in order,
  whatever their sequence: every type that has an inverse is the inverse of that type, the fixed
  types are different, and each class with a base is recorded once.\<close>

theorem constructors_keep_registry: "well_declared s \<Longrightarrow> paired s \<and> types_apart s \<and> classes_once s \<and> untouched s"
proof (induction rule: well_declared.induct)
  case none
  then show ?case by (simp add: paired_def types_apart_def classes_once_def untouched_def registry_init_def)
next
  case (one s d s')
  then show ?case
  proof (cases d)
    case (Class this n bs)
    let ?s = "class_descriptor_new this n bs s"
    have "paired ?s" "types_apart ?s"
      using one.IH by (simp_all add: paired_def types_apart_def class_descriptor_new_def put_cd_def Let_def)
    then show ?thesis using class_keeps [of this s n bs] one Class by simp
  next
    case (Fixed this n cc ff invr assoc off desc)
    then show ?thesis using fixed_keeps [of this n cc ff invr assoc off desc s s'] one by simp
  next
    case (Dynamic this n cc ff invr assoc)
    then show ?thesis using fixed_keeps [of this n cc ff invr assoc 0 0 s s'] one by (simp add: dynamic_is_fixed)
  qed
qed

section \<open>Initialisation\<close>

text \<open>The loop over the fixed types of a class.\<close>

partial_function (option) rel_chain :: "rt_addr \<Rightarrow> registry \<Rightarrow> rt_addr list option" where
  "rel_chain rt s = (if rt = 0 then Some [] else do { rts \<leftarrow> rel_chain (rt_next (rtypes s rt)) s; Some (rt # rts) })"

lemma rel_chain_chain: "chain (next_of s) rt rts \<Longrightarrow> rel_chain rt s = Some rts"
  by (induction rts arbitrary: rt) (subst rel_chain.simps, simp)+

definition hierarchy_ok :: "registry \<Rightarrow> bool" where
  "hierarchy_ok s \<longleftrightarrow> (\<forall>c. base_of s c \<noteq> 0 \<longrightarrow> (\<exists>cs. lineage (base_of s) c cs)) \<and>
     (\<forall>c cs. lineage (base_of s) c cs \<longrightarrow> length cs < 256)"

lemma well_declared_declared:
  "well_declared s \<Longrightarrow> rel_classes s \<noteq> None \<Longrightarrow> hierarchy_ok s \<Longrightarrow> declared s"
  using constructors_keep_registry [of s] by (auto simp: declared_def hierarchy_ok_def classes_once_def untouched_def)

text \<open>What the relations see of the registry: the types, and the fixed types of an object by its class,
  which the virtual function \<open>descr\<close> gives.\<close>

definition registry_env :: "registry \<Rightarrow> (obj \<Rightarrow> cd_addr) \<Rightarrow> 's env \<Rightarrow> 's env" where
  "registry_env s descr E = E\<lparr>types := (\<lambda>r. \<lparr>inverse_type = rt_inverse (rtypes s r), cardinality = rt_cardinality (rtypes s r),
       flags = rt_flags (rtypes s r), offset = rt_offset (rtypes s r), hcs = False\<rparr>),
     class_rels := (\<lambda>x. if descr x = 0 then None else rel_chain (cd_rel (descrs s (descr x))) s)\<rparr>"

text \<open>The initialisation ends; then every class has the list of the fixed types that are declared for
  it, the last one first, followed by those of its bases, and the inverse types are inverse to each
  other, as the operations on relations need it.\<close>

theorem fixed_types_inherited:
  assumes "well_declared s" "rel_classes s \<noteq> None" "hierarchy_ok s"
  shows "\<exists>s'. init_rel_ptrs s = Some s' \<and> types_ok (registry_env s' descr E) \<and>
    (\<forall>x cs. lineage (base_of s) (descr x) cs \<longrightarrow> class_rels (registry_env s' descr E) x = Some (inherited s cs))"
proof -
  obtain s' where s': "init_rel_ptrs s = Some s'" "\<forall>c cs. lineage (base_of s) c cs \<longrightarrow> types_of s' c (inherited s cs)"
    "\<forall>r. (rtypes s' r)\<lparr>rt_next := 0\<rparr> = (rtypes s r)\<lparr>rt_next := 0\<rparr>"
    using init_rel_ptrs_spec [OF well_declared_declared [OF assms]] by blast
  have inv: "inverse_of s' r = inverse_of s r" for r
    using arg_cong [OF s'(3) [rule_format, of r], of rt_inverse] by simp
  have "paired s" using constructors_keep_registry [OF assms(1)] by blast
  then have "types_ok (registry_env s' descr E)" by (simp add: types_ok_def paired_def registry_env_def inv)
  moreover have "class_rels (registry_env s' descr E) x = Some (inherited s cs)" if "lineage (base_of s) (descr x) cs" for x cs
    using rel_chain_chain s'(2) that by (auto simp: registry_env_def elim: lineage.cases)
  ultimately show ?thesis using s'(1) by blast
qed

text \<open>C29: After the initialisation \<^verbatim>\<open>is_subclass\<close> never goes through a null pointer, and says of any two
  classes whether the second is the first one or among its bases.\<close>

theorem subclass_is_ancestor:
  assumes "well_declared s" "rel_classes s \<noteq> None" "hierarchy_ok s"
  shows "\<exists>s'. init_rel_ptrs s = Some s' \<and>
    (\<forall>c d cs. lineage (base_of s) c cs \<and> d \<noteq> 0 \<longrightarrow> is_subclass c d s' = Some (d \<in> set cs))"
proof -
  obtain s' where s': "init_rel_ptrs s = Some s'" "base_of s' = base_of s" "depths_ok s'" "\<forall>c. base_of s c \<noteq> 0 \<longrightarrow> depth_of s' c \<noteq> 0"
    using init_rel_ptrs_spec [OF well_declared_declared [OF assms]] by blast
  have "is_subclass c d s' = Some (d \<in> set cs)" if l: "lineage (base_of s) c cs" and d: "d \<noteq> 0" for c d cs
  proof -
    obtain ds where "lineage (base_of s) d ds"
      using assms(3) d lineage.root [of d "base_of s"] unfolding hierarchy_ok_def by blast
    then show ?thesis using is_subclass_spec [of s' c cs d ds] s' l by metis
  qed
  then show ?thesis using s'(1) by blast
qed

section \<open>An example\<close>

text \<open>The class 3 is declared before its base 2, whose base is 1.\<close>

definition classes_1 :: registry where "classes_1 = class_descriptor_new 3 ''app'' 2 registry_init"
definition classes_2 :: registry where "classes_2 = class_descriptor_new 1 ''Relational'' 0 classes_1"
definition classes_3 :: registry where "classes_3 = class_descriptor_new 2 ''objTree'' 1 classes_2"
definition classes_4 :: registry where "classes_4 = the (RelType_fixed 10 ''a_of_b'' 1 8 0 1 16 2 classes_3)"
definition classes_5 :: registry where "classes_5 = the (RelType_fixed 11 ''b_of_a'' 1 0 10 1 24 3 classes_4)"

lemmas classes_defs = classes_1_def classes_2_def classes_3_def classes_4_def classes_5_def registry_init_def
  class_descriptor_new_def put_cd_def RelType_fixed_def new_type_def link_inverse_def put_rt_def MAX_NAME_LEN_def Let_def

lemma classes_5_facts:
  "RelType_fixed 10 ''a_of_b'' 1 8 0 1 16 2 classes_3 = Some classes_4"
  "RelType_fixed 11 ''b_of_a'' 1 0 10 1 24 3 classes_4 = Some classes_5"
  by (simp_all add: classes_defs)

lemma classes_declared: "well_declared classes_5"
proof -
  have "well_declared classes_1" by (rule well_declared.one [OF well_declared.none, of "Class 3 ''app'' 2"])
      (simp_all add: classes_defs)
  then have "well_declared classes_2" by (rule well_declared.one [where d = "Class 1 ''Relational'' 0"])
      (simp_all add: classes_defs)
  then have "well_declared classes_3" by (rule well_declared.one [where d = "Class 2 ''objTree'' 1"])
      (simp_all add: classes_defs)
  then have "well_declared classes_4" by (rule well_declared.one [where d = "Fixed 10 ''a_of_b'' 1 8 0 1 16 2"])
      (simp_all add: classes_5_facts, simp_all add: new_pair_def pointed_def classes_defs)
  then show ?thesis by (rule well_declared.one [where d = "Fixed 11 ''b_of_a'' 1 0 10 1 24 3"])
      (simp_all add: classes_5_facts, simp_all add: new_pair_def pointed_def classes_defs)
qed

lemma classes_bases: "base_of classes_5 c = (if c = 3 then 2 else if c = 2 then 1 else 0)"
  "rel_classes classes_5 = Some [3, 2]" "pointed_data classes_5 = Some [(10, 2), (11, 3)]"
  by (simp_all add: classes_defs)

lemma classes_lineages: "lineage (base_of classes_5) 1 [1]" "lineage (base_of classes_5) 2 [2, 1]" "lineage (base_of classes_5) 3 [3, 2, 1]"
proof -
  show 1: "lineage (base_of classes_5) 1 [1]" by (rule lineage.root) (simp_all add: classes_bases)
  show 2: "lineage (base_of classes_5) 2 [2, 1]" by (rule lineage.derived) (use 1 in \<open>simp_all add: classes_bases\<close>)
  show "lineage (base_of classes_5) 3 [3, 2, 1]" by (rule lineage.derived) (use 2 in \<open>simp_all add: classes_bases\<close>)
qed

lemma classes_hierarchy: "hierarchy_ok classes_5"
proof -
  have "length cs < 256" if l: "lineage (base_of classes_5) c cs" for c cs
  proof (cases "c = 2 \<or> c = 3")
    case True
    then show ?thesis using lineage_unique [OF l] classes_lineages(2,3) by fastforce
  next
    case False
    then have "base_of classes_5 c = 0" by (simp add: classes_bases)
    moreover have "c \<noteq> 0" using lineage_nonzero [OF l] lineage_nonempty [OF l] by auto
    ultimately show ?thesis using lineage_unique [OF l lineage.root] by simp
  qed
  then show ?thesis unfolding hierarchy_ok_def using classes_lineages by (auto simp: classes_bases split: if_splits)
qed

theorem constructors_keep_registry_witness: "paired classes_5 \<and> inverse_of classes_5 10 = 11 \<and> inverse_of classes_5 11 = 10"
  using constructors_keep_registry [OF classes_declared] by (simp add: classes_defs)

definition empty_env :: "obj list env" where
  "empty_env = \<lparr>types = (\<lambda>_. \<lparr>inverse_type = 0, cardinality = 0, flags = 0, offset = 0, hcs = False\<rparr>), class_rels = (\<lambda>_. None),
     hook = (\<lambda>_. None), ref_smt_of_dd = 0, db_null = 0, db_restore_complete = (\<lambda>_ w. Some (True, w))\<rparr>"

theorem fixed_types_inherited_witness:
  "\<exists>s'. init_rel_ptrs classes_5 = Some s' \<and> types_ok (registry_env s' (\<lambda>x. 3) empty_env) \<and>
     class_rels (registry_env s' (\<lambda>x. 3) empty_env) 7 = Some [11, 10]"
proof -
  have "rel_classes classes_5 \<noteq> None" by (simp add: classes_bases)
  then obtain s' where s': "init_rel_ptrs classes_5 = Some s'" "types_ok (registry_env s' (\<lambda>x. 3) empty_env)"
    "\<forall>x cs. lineage (base_of classes_5) 3 cs \<longrightarrow> class_rels (registry_env s' (\<lambda>x. 3) empty_env) x = Some (inherited classes_5 cs)"
    using fixed_types_inherited [OF classes_declared _ classes_hierarchy, of "\<lambda>x. 3" empty_env] by (elim meta_impE exE conjE) 
  have "class_rels (registry_env s' (\<lambda>x. 3) empty_env) 7 = Some (inherited classes_5 [3, 2, 1])"
    using s'(3) classes_lineages(3) by simp
  moreover have "inherited classes_5 [3, 2, 1] = [11, 10]" by (simp add: inherited_def own_types_def classes_bases)
  ultimately show ?thesis using s'(1,2) by (intro exI [of _ s']) simp
qed

theorem subclass_is_ancestor_witness:
  "\<exists>s'. init_rel_ptrs classes_5 = Some s' \<and> is_subclass 3 1 s' = Some True \<and> is_subclass 1 3 s' = Some False"
proof -
  have "rel_classes classes_5 \<noteq> None" by (simp add: classes_bases)
  from subclass_is_ancestor [OF classes_declared this classes_hierarchy]
  obtain s' where s': "init_rel_ptrs classes_5 = Some s'" "is_subclass 3 1 s' = Some (1 \<in> set [3, 2, 1 :: nat])"
    "is_subclass 1 3 s' = Some (3 \<in> set [1 :: nat])"
    using classes_lineages(1,3) by (metis zero_neq_numeral zero_neq_one)
  then show ?thesis by simp
qed

end
