(* ===== verification/Xref_Names.thy ===== *)
theory Xref_Names
  imports Prelude
begin

text \<open>
  Names of symbols in a cross reference table (\<^verbatim>\<open>model_server/xref\<close>): the comparison of two names
  and the hash value of a name. Spaces inside a name do not count, in either of them.
\<close>

section \<open>Comparison\<close>

fun strcmp_ignore_space :: "string \<Rightarrow> string \<Rightarrow> bool" where
  "strcmp_ignore_space [] s2 \<longleftrightarrow> s2 \<noteq> []"
| "strcmp_ignore_space (c # s1) [] \<longleftrightarrow> True"
| "strcmp_ignore_space (c # s1) (d # s2) \<longleftrightarrow>
     (if c = CHR '' '' then strcmp_ignore_space s1 (d # s2)
      else if d = CHR '' '' then strcmp_ignore_space (c # s1) s2
      else if c \<noteq> d then True
      else strcmp_ignore_space s1 s2)"

definition DD_UNKNOWN :: nat where "DD_UNKNOWN = 0"
definition DD_MODULE :: nat where "DD_MODULE = 17"
definition DD_PROJECT :: nat where "DD_PROJECT = 18"
definition DD_STRING :: nat where "DD_STRING = 44"

lemmas dd_kinds = DD_UNKNOWN_def DD_MODULE_def DD_PROJECT_def DD_STRING_def

definition strcmp_name :: "nat \<Rightarrow> string \<Rightarrow> string \<Rightarrow> bool" where
  "strcmp_name kind s1 s2 \<longleftrightarrow>
     (if kind = DD_STRING \<or> kind = DD_MODULE \<or> kind = DD_PROJECT then s1 \<noteq> s2
      else strcmp_ignore_space s1 s2)"

section \<open>The hash value\<close>

fun Mhash_from :: "u32 \<Rightarrow> string \<Rightarrow> u32 \<Rightarrow> u32 \<Rightarrow> u32" where
  "Mhash_from tm [] pow val = val"
| "Mhash_from tm (c # s) pow val =
     (if c = CHR '' '' then Mhash_from tm s pow val
      else let val = (if val > 0x00FFFFFF then val mod tm else val);
               pow = (if pow > 0x00FFFFFF then pow mod tm else pow);
               val = val + of_char c * pow
           in Mhash_from tm s (push_bit 7 pow) val)"

definition Mhash :: "u32 \<Rightarrow> string \<Rightarrow> u32" where
  "Mhash tm s = Mhash_from tm s 1 0"

section \<open>Names without their spaces\<close>

definition despace :: "string \<Rightarrow> string" where
  "despace s = filter (\<lambda>c. c \<noteq> CHR '' '') s"

lemma despace_simps [simp]:
  "despace [] = []"
  "despace (c # s) = (if c = CHR '' '' then despace s else c # despace s)"
  by (simp_all add: despace_def)

definition space_last :: "string \<Rightarrow> bool" where
  "space_last s \<longleftrightarrow> s \<noteq> [] \<and> last s = CHR '' ''"

lemma space_last_simps [simp]:
  "space_last [] = False"
  "space_last (c # s) = (if s = [] then c = CHR '' '' else space_last s)"
  by (simp_all add: space_last_def)

lemma despace_Nil: "despace s = [] \<Longrightarrow> s = [] \<or> space_last s"
  by (induction s) (auto split: if_splits)

lemma same_name_iff:
  "\<not> strcmp_ignore_space s1 s2 \<longleftrightarrow>
     despace s1 = despace s2 \<and> \<not> space_last s1 \<and> \<not> space_last s2"
proof (induction s1 s2 rule: strcmp_ignore_space.induct)
  case (1 s2)
  then show ?case using despace_Nil [of s2] by (cases s2) (auto simp del: space_last_simps(2))
next
  case (2 c s1)
  then show ?case using despace_Nil [of "c # s1"] by (simp del: space_last_simps(2) despace_simps(2))
next
  case (3 c s1 d s2)
  show ?case
  proof (cases "c = CHR '' ''")
    case True
    have "\<not> strcmp_ignore_space (c # s1) (d # s2) \<longleftrightarrow> \<not> strcmp_ignore_space s1 (d # s2)"
      using True by simp
    also have "\<dots> \<longleftrightarrow> despace s1 = despace (d # s2) \<and> \<not> space_last s1 \<and> \<not> space_last (d # s2)"
      by (rule 3(1) [OF True])
    finally have step: "\<not> strcmp_ignore_space (c # s1) (d # s2) \<longleftrightarrow>
        despace s1 = despace (d # s2) \<and> \<not> space_last s1 \<and> \<not> space_last (d # s2)" .
    have "despace (c # s1) = despace s1" "s1 \<noteq> [] \<Longrightarrow> space_last (c # s1) = space_last s1"
      "s1 = [] \<Longrightarrow> space_last (c # s1)" "s1 = [] \<Longrightarrow> despace s1 = []"
      using True by simp_all
    then show ?thesis unfolding step using despace_Nil [of "d # s2"] by (metis list.distinct(1))
  next
    case c: False
    show ?thesis
    proof (cases "d = CHR '' ''")
      case True
      have "\<not> strcmp_ignore_space (c # s1) (d # s2) \<longleftrightarrow> \<not> strcmp_ignore_space (c # s1) s2"
        using c True by simp
      also have "\<dots> \<longleftrightarrow> despace (c # s1) = despace s2 \<and> \<not> space_last (c # s1) \<and> \<not> space_last s2"
        by (rule 3(2) [OF c True])
      finally have step: "\<not> strcmp_ignore_space (c # s1) (d # s2) \<longleftrightarrow>
          despace (c # s1) = despace s2 \<and> \<not> space_last (c # s1) \<and> \<not> space_last s2" .
      have "despace (d # s2) = despace s2" "s2 \<noteq> [] \<Longrightarrow> space_last (d # s2) = space_last s2"
        "s2 = [] \<Longrightarrow> space_last (d # s2)" "s2 = [] \<Longrightarrow> despace s2 = []"
        using True by simp_all
      then show ?thesis unfolding step using despace_Nil [of "c # s1"] by (metis list.distinct(1))
    next
      case False
      then show ?thesis using c 3(3) despace_Nil [of s1] despace_Nil [of s2]
        by (cases "c = d"; cases "s1 = []"; cases "s2 = []") auto
    qed
  qed
qed

lemma Mhash_from_despace: "Mhash_from tm (despace s) pow val = Mhash_from tm s pow val"
  by (induction s arbitrary: pow val) (auto simp: Let_def)

lemma Mhash_despace: "Mhash tm (despace s) = Mhash tm s"
  by (simp add: Mhash_def Mhash_from_despace)

lemma same_name_same_hash: "\<not> strcmp_name k s1 s2 \<Longrightarrow> Mhash tm s1 = Mhash tm s2"
  by (metis strcmp_name_def same_name_iff Mhash_despace)

lemma strcmp_name_refl: "strcmp_name k s s \<longleftrightarrow> k \<notin> {DD_STRING, DD_MODULE, DD_PROJECT} \<and> space_last s"
  using same_name_iff [of s s] by (simp add: strcmp_name_def)

end
