(* ===== verification/Xref_Table.thy ===== *)
theory Xref_Table
  imports Xref_Names "HOL-Library.Monad_Syntax"
begin

text \<open>
  The symbol table of a project model (\<^verbatim>\<open>XrefTable.h.cxx\<close>, \<^verbatim>\<open>xrefSymbol.h.cxx\<close>): the symbols of the
  index file, the characters of the symbol file that their names are in, and the hash table that
  finds a symbol by its name. A symbol is its position in the index file. Hash elements are objects
  with an address, 0 is the null pointer, and a computation that divides by zero, goes through a
  null pointer or ends the program is \<open>None\<close>.
\<close>

section \<open>State\<close>

record link =
  lt :: nat
  link_index :: nat

record xsymbol =
  has_def_file :: bool
  symbol_index :: nat
  kind :: nat
  offset_to_start_link :: int
  name_offset :: nat
  hash_val :: u32

text \<open>
  \<open>writable\<close> stands for the tests of a new symbol (the table is that of a home project that is
  writable) and of renaming (the symbol file is writable), which are taken to agree.
  \<open>symbolIndex_table\<close> holds the links made since the table was opened, one array (or a null
  pointer) for each symbol, after a first entry that stands for no symbol. \<open>cache_app\<close> is the
  static cache of the file whose symbol was looked up last, when it belongs to this table.
\<close>

record xtab =
  table_max :: u32
  entry_cnt :: u32
  names :: string
  syms :: "xsymbol list"
  table :: "nat \<Rightarrow> nat"
  h_el :: "nat \<Rightarrow> nat"
  h_next :: "nat \<Rightarrow> nat"
  h_prev :: "nat \<Rightarrow> nat"
  h_free :: nat
  symbolIndex_table :: "link list option list option"
  orig_link_offsets :: "int list"
  link_file :: "link list"
  next_offset_link :: int
  saved_next_loffset :: int
  writable :: bool
  link_is_writable :: bool
  need_to_mv :: bool
  cache_app :: "(string \<times> nat) option"

definition TABLE_MAX :: u32 where "TABLE_MAX = 6113"
definition XREF_LIMIT_SIZE :: nat where "XREF_LIMIT_SIZE = 1024 * 1024 * 16"
definition lt_last :: nat where "lt_last = 84"

definition reset_pmod :: xtab where
  "reset_pmod = \<lparr>table_max = TABLE_MAX, entry_cnt = 0, names = [], syms = [], table = (\<lambda>_. 0),
     h_el = (\<lambda>_. 0), h_next = (\<lambda>_. 0), h_prev = (\<lambda>_. 0), h_free = 1, symbolIndex_table = None,
     orig_link_offsets = [], link_file = [], next_offset_link = 0, saved_next_loffset = 0,
     writable = True, link_is_writable = True, need_to_mv = False,
     cache_app = None\<rparr>"

definition get_name :: "xtab \<Rightarrow> nat \<Rightarrow> string" where
  "get_name t sy = c_str (drop (name_offset (syms t ! sy)) (names t))"

section \<open>New symbols\<close>

definition update_sym_addr_offset :: "nat \<Rightarrow> xtab \<Rightarrow> nat \<times> xtab" where
  "update_sym_addr_offset n t = (length (names t), t\<lparr>names := names t @ replicate n NUL\<rparr>)"

definition strncpy :: "nat \<Rightarrow> string \<Rightarrow> string" where
  "strncpy n s = take n (s @ replicate n NUL)"

definition insert_xrefSymbol_name :: "nat \<Rightarrow> string \<Rightarrow> nat \<Rightarrow> xtab \<Rightarrow> xtab" where
  "insert_xrefSymbol_name off ns nl t =
     t\<lparr>names := take off (names t) @ strncpy (nl + 1) ns @ drop (off + nl + 1) (names t)\<rparr>"

definition insert_xrefSymbol :: "xtab \<Rightarrow> nat \<times> xtab" where
  "insert_xrefSymbol t = (length (syms t), t\<lparr>syms := syms t @
     [\<lparr>has_def_file = False, symbol_index = 0, kind = 0, offset_to_start_link = 0, name_offset = 0,
       hash_val = 0\<rparr>]\<rparr>)"

definition init :: "nat \<Rightarrow> nat \<Rightarrow> nat \<Rightarrow> u32 \<Rightarrow> xsymbol" where
  "init sym_index knd sym_name_off hsh =
     \<lparr>has_def_file = False, symbol_index = sym_index mod 2 ^ 24, kind = knd mod 2 ^ 8, offset_to_start_link = 0,
      name_offset = sym_name_off, hash_val = hsh\<rparr>"

definition init_symbolIndex_table :: "xtab \<Rightarrow> xtab" where
  "init_symbolIndex_table t =
     t\<lparr>symbolIndex_table := Some (replicate (length (syms t) + 1) None),
       orig_link_offsets := orig_link_offsets t @ -1 # map offset_to_start_link (syms t)\<rparr>"

definition make_new_symbolIndex :: "xtab \<Rightarrow> (nat \<times> xtab) option" where
  "make_new_symbolIndex t =
     (let t = (if symbolIndex_table t = None \<and> link_is_writable t then init_symbolIndex_table t else t)
      in do { xs \<leftarrow> symbolIndex_table t;
              if length xs > XREF_LIMIT_SIZE then None
              else Some (length xs, t\<lparr>symbolIndex_table := Some (xs @ [None]),
                                      orig_link_offsets := orig_link_offsets t @ [-1]\<rparr>) })"

text \<open>The position of the new link in the array of its symbol; a new link is a last link.\<close>

definition last_link :: link where "last_link = \<lparr>lt = lt_last, link_index = 0\<rparr>"

definition make_new_link :: "nat \<Rightarrow> xtab \<Rightarrow> (nat \<times> xtab) option" where
  "make_new_link sind t =
     (let t = (if symbolIndex_table t = None \<and> link_is_writable t then init_symbolIndex_table t else t)
      in do { xs \<leftarrow> symbolIndex_table t;
              let ls = (case xs ! sind of None \<Rightarrow> [] | Some ls \<Rightarrow> ls);
                  sz = length ls
              in Some (if ls \<noteq> [] \<and> lt (ls ! (sz - 1)) = lt_last then sz - 1 else sz,
                       t\<lparr>symbolIndex_table := Some (xs[sind := Some (ls @ [last_link])])\<rparr>) })"

section \<open>The hash table\<close>

definition bucket :: "xtab \<Rightarrow> u32 \<Rightarrow> nat option" where
  "bucket t h = (if table_max t = 0 then None else Some (unat (h mod table_max t)))"

definition new_hashElmt :: "nat \<Rightarrow> xtab \<Rightarrow> nat \<times> xtab" where
  "new_hashElmt si t = (h_free t, t\<lparr>h_free := h_free t + 1, h_el := (h_el t)(h_free t := si),
     h_next := (h_next t)(h_free t := 0), h_prev := (h_prev t)(h_free t := 0)\<rparr>)"

definition link_first :: "nat \<Rightarrow> nat \<Rightarrow> xtab \<Rightarrow> xtab" where
  "link_first h he t =
     (let t = (if table t h \<noteq> 0 then t\<lparr>h_prev := (h_prev t)(table t h := he)\<rparr> else t);
          t = t\<lparr>h_next := (h_next t)(he := table t h)\<rparr>;
          t = t\<lparr>h_prev := (h_prev t)(he := 0)\<rparr>
      in t\<lparr>table := (table t)(h := he)\<rparr>)"

definition re_insert :: "nat \<Rightarrow> xtab \<Rightarrow> xtab option" where
  "re_insert xe t =
     (let sy = h_el t xe;
          h = Mhash (table_max t) (get_name t sy);
          t = t\<lparr>syms := (syms t)[sy := (syms t ! sy)\<lparr>hash_val := h\<rparr>]\<rparr>
      in do { b \<leftarrow> bucket t h; Some (link_first b xe t) })"

partial_function (option) re_insert_chain :: "nat \<Rightarrow> xtab \<Rightarrow> xtab option" where
  "re_insert_chain xe t =
     (if xe = 0 then Some t
      else let new_xe = h_next t xe in do { t \<leftarrow> re_insert xe t; re_insert_chain new_xe t })"

fun re_insert_all :: "(nat \<Rightarrow> nat) \<Rightarrow> nat list \<Rightarrow> xtab \<Rightarrow> xtab option" where
  "re_insert_all tmp_table [] t = Some t"
| "re_insert_all tmp_table (i # is) t =
     do { t \<leftarrow> re_insert_chain (tmp_table i) t; re_insert_all tmp_table is t }"

definition rehash_xref :: "xtab \<Rightarrow> xtab option" where
  "rehash_xref t =
     re_insert_all (table t) [0..<unat (table_max t)]
       (t\<lparr>table := (\<lambda>_. 0), table_max := table_max t * 2 + 1\<rparr>)"

definition newSymbol :: "nat \<Rightarrow> nat \<Rightarrow> string \<Rightarrow> xtab \<Rightarrow> (nat option \<times> xtab) option" where
  "newSymbol knd nl ns t =
     (if \<not> writable t then Some (None, t)
      else do {
        let t = t\<lparr>need_to_mv := True\<rparr>;
        (symbol_index, t) \<leftarrow> make_new_symbolIndex t;
        let (sy, t) = insert_xrefSymbol t;
        let h = Mhash (table_max t) ns;
        let (sym_name_offset, t) = update_sym_addr_offset (nl + 1) t;
        let t = insert_xrefSymbol_name sym_name_offset ns nl t;
        let t = t\<lparr>syms := (syms t)[sy := init symbol_index knd sym_name_offset h]\<rparr>;
        let (he, t) = new_hashElmt sy t;
        (lnk, t) \<leftarrow> make_new_link symbol_index t;
        let t = t\<lparr>entry_cnt := entry_cnt t + 1\<rparr>;
        b \<leftarrow> bucket t h;
        let t = link_first b he t;
        t \<leftarrow> (if entry_cnt t > table_max t then rehash_xref t else Some t);
        Some (Some sy, t) })"

text \<open>A table from its files: every symbol gets a hash element again.\<close>

fun restore_elements :: "nat list \<Rightarrow> xtab \<Rightarrow> xtab option" where
  "restore_elements [] t = Some t"
| "restore_elements (ii # is) t =
     (let (he, t) = new_hashElmt ii t
      in do { h \<leftarrow> bucket t (hash_val (syms t ! ii)); restore_elements is (link_first h he t) })"

definition restore_table :: "xtab \<Rightarrow> xtab option" where
  "restore_table t =
     restore_elements [0..<length (syms t)]
       (t\<lparr>table := (\<lambda>_. 0), h_el := (\<lambda>_. 0), h_next := (\<lambda>_. 0), h_prev := (\<lambda>_. 0), h_free := 1,
          symbolIndex_table := None, orig_link_offsets := [], need_to_mv := False, cache_app := None,
          saved_next_loffset := next_offset_link t\<rparr>)"

section \<open>Lookup\<close>

definition confirm_is_symbol ::
    "xtab \<Rightarrow> (nat \<Rightarrow> string option) \<Rightarrow> nat \<Rightarrow> string \<Rightarrow> string option \<Rightarrow> nat \<Rightarrow> bool" where
  "confirm_is_symbol t dfn k name file_sym_name sy \<longleftrightarrow>
     (k = kind (syms t ! sy) \<or> k = DD_UNKNOWN) \<and>
     \<not> strcmp_name k name (get_name t sy) \<and>
     (case file_sym_name of None \<Rightarrow> True
      | Some f \<Rightarrow> (case (if has_def_file (syms t ! sy) then dfn sy else None) of
                     None \<Rightarrow> True
                   | Some name2 \<Rightarrow> f = name2))"

partial_function (option) lookup_hits ::
    "xtab \<Rightarrow> (nat \<Rightarrow> string option) \<Rightarrow> nat \<Rightarrow> string \<Rightarrow> string option \<Rightarrow> nat \<Rightarrow> nat list option" where
  "lookup_hits t dfn k name f hel =
     (if hel = 0 then Some []
      else let lh = Mhash (table_max t) name;
               sy = h_el t hel;
               hv = hash_val (syms t ! sy);
               wf = (if hv < table_max t \<and> lh \<ge> table_max t then lh mod table_max t else lh)
           in do { rest \<leftarrow> lookup_hits t dfn k name f (h_next t hel);
                   Some (if wf = hv \<and> confirm_is_symbol t dfn k name f sy then sy # rest else rest) })"

definition xref_lookup ::
    "xtab \<Rightarrow> (nat \<Rightarrow> string option) \<Rightarrow> nat list \<Rightarrow> nat \<Rightarrow> string \<Rightarrow> string option \<Rightarrow> (nat list \<times> nat option) option" where
  "xref_lookup t dfn res k name file_sym =
     do { h \<leftarrow> bucket t (Mhash (table_max t) name);
          new_res \<leftarrow> lookup_hits t dfn k name file_sym (table t h);
          if new_res = [] then Some (res, None)
          else let unique_res = (case file_sym of None \<Rightarrow> None
                 | Some f \<Rightarrow> find (\<lambda>i. has_def_file (syms t ! i) \<and> dfn i = Some f) new_res);
                   res' = (case unique_res of Some i \<Rightarrow> res @ [i] | None \<Rightarrow> res @ new_res)
               in Some (res', Some (res' ! length res)) }"

definition lookup_module :: "xtab \<Rightarrow> (nat \<Rightarrow> string option) \<Rightarrow> string option \<Rightarrow> nat option option" where
  "lookup_module t dfn filename =
     (case filename of None \<Rightarrow> Some None
      | Some fn \<Rightarrow>
          (case cache_app t of
             Some (c, sy) \<Rightarrow> if c = fn then Some (Some sy)
                             else map_option snd (xref_lookup t dfn [] DD_MODULE fn None)
           | None \<Rightarrow> map_option snd (xref_lookup t dfn [] DD_MODULE fn None)))"

definition insert_symbol ::
    "(nat \<Rightarrow> string option) \<Rightarrow> nat \<Rightarrow> nat \<Rightarrow> string \<Rightarrow> xtab \<Rightarrow> (nat option \<times> xtab) option" where
  "insert_symbol dfn knd nl ns t =
     do { (res, _) \<leftarrow> xref_lookup t dfn [] knd ns None;
          if res = [] then newSymbol knd nl ns t else Some (Some (res ! 0), t) }"

text \<open>A symbol of another table, with its kind, its name and the name of the file that defines it.\<close>

definition insert_symbol_of ::
    "(nat \<Rightarrow> string option) \<Rightarrow> nat \<Rightarrow> string \<Rightarrow> string option \<Rightarrow> xtab \<Rightarrow> (nat option \<times> xtab) option" where
  "insert_symbol_of dfn knd ns filename t =
     do { dfs \<leftarrow> (case filename of None \<Rightarrow> Some None | Some _ \<Rightarrow> lookup_module t dfn filename);
          (res, _) \<leftarrow> xref_lookup t dfn [] knd ns (map_option (get_name t) dfs);
          if res = [] then newSymbol knd (length ns) ns t else Some (Some (res ! 0), t) }"

section \<open>Renaming\<close>

text \<open>The byte order of the machine is a parameter: \<open>ntohl\<close> turns a word around on a little endian one.\<close>

definition ntohl :: "bool \<Rightarrow> u32 \<Rightarrow> u32" where
  "ntohl little_endian w =
     (if little_endian
      then push_bit 24 (w AND 0xFF) OR push_bit 8 (w AND 0xFF00) OR
           (drop_bit 8 w AND 0xFF00) OR (drop_bit 24 w AND 0xFF)
      else w)"

partial_function (option) find_hashElmt :: "xtab \<Rightarrow> nat \<Rightarrow> nat \<Rightarrow> nat option option" where
  "find_hashElmt t sy hel =
     (if hel = 0 then Some None
      else if h_el t hel = sy then Some (Some hel)
      else find_hashElmt t sy (h_next t hel))"

definition unlink_hashElmt :: "nat \<Rightarrow> nat \<Rightarrow> xtab \<Rightarrow> xtab" where
  "unlink_hashElmt h hel t =
     (if h_prev t hel \<noteq> 0
      then let t = t\<lparr>h_next := (h_next t)(h_prev t hel := h_next t hel)\<rparr>
           in (if h_next t hel \<noteq> 0 then t\<lparr>h_prev := (h_prev t)(h_next t hel := h_prev t hel)\<rparr> else t)
      else let t = (if h_next t hel \<noteq> 0 then t\<lparr>h_prev := (h_prev t)(h_next t hel := 0)\<rparr> else t)
           in t\<lparr>table := (table t)(h := h_next t hel)\<rparr>)"

definition update_name :: "bool \<Rightarrow> nat \<Rightarrow> string \<Rightarrow> xtab \<Rightarrow> (nat option \<times> xtab) option" where
  "update_name little_endian sy new_name t =
     (if \<not> writable t then Some (None, t)
      else do {
        h \<leftarrow> bucket t (Mhash (table_max t) (get_name t sy));
        found \<leftarrow> find_hashElmt t sy (table t h);
        case found of
          None \<Rightarrow> Some (None, t)
        | Some hel \<Rightarrow> do {
            let hv = Mhash (table_max t) new_name;
            let (off, t) = update_sym_addr_offset (length new_name + 1) t;
            let t = insert_xrefSymbol_name off new_name (length new_name) t;
            let t = t\<lparr>syms := (syms t)[sy := (syms t ! sy)\<lparr>hash_val := hv, name_offset := off\<rparr>]\<rparr>;
            ind \<leftarrow> bucket t (ntohl little_endian hv);
            let t = link_first ind hel (unlink_hashElmt h hel t);
            Some (Some sy, t) } })"

section \<open>The check of the hash table\<close>

partial_function (option) consistent_chain :: "xtab \<Rightarrow> nat \<Rightarrow> nat \<Rightarrow> (nat \<times> bool) option" where
  "consistent_chain t i xe =
     (if xe = 0 then Some (0, True)
      else let new_xe = h_next t xe;
               good = ((new_xe = 0 \<or> h_prev t new_xe = xe) \<and>
                       unat (hash_val (syms t ! h_el t xe) mod table_max t) = i \<and>
                       h_el t xe < length (syms t))
           in do { (n, rest) \<leftarrow> consistent_chain t i new_xe; Some (Suc n, good \<and> rest) })"

fun consistent_buckets :: "xtab \<Rightarrow> nat list \<Rightarrow> (nat \<times> bool) option" where
  "consistent_buckets t [] = Some (0, True)"
| "consistent_buckets t (i # is) =
     do { (n, good) \<leftarrow> consistent_chain t i (table t i);
          (m, rest) \<leftarrow> consistent_buckets t is;
          Some (n + m, good \<and> rest) }"

definition is_consistent_hashElmts :: "xtab \<Rightarrow> bool option" where
  "is_consistent_hashElmts t =
     do { (num_elmts, good) \<leftarrow> consistent_buckets t [0..<unat (table_max t)];
          Some (good \<and> num_elmts = unat (entry_cnt t)) }"

end
