(* ===== verification/Xref_Table_Chains.thy ===== *)
theory Xref_Table_Chains
  imports Xref_Table Chains
begin

text \<open>
  The chains of the hash table: every bucket is a doubly linked list of hash elements, and the
  buckets share none. Linking and unlinking an element are the operations on these lists.
\<close>

definition layout :: "xtab \<Rightarrow> (nat \<Rightarrow> nat list) \<Rightarrow> bool" where
  "layout t L \<longleftrightarrow>
     (\<forall>h. \<exists>q. bseg (h_next t) (h_prev t) 0 (table t h) (L h) q 0) \<and>
     (\<forall>h. distinct (L h)) \<and> (\<forall>h h'. h \<noteq> h' \<longrightarrow> set (L h) \<inter> set (L h') = {})"

definition elements :: "(nat \<Rightarrow> nat list) \<Rightarrow> nat set" where
  "elements L = (\<Union>h. set (L h))"

lemma elements_link: "elements (L(h := x # L h)) = insert x (elements L)"
  by (auto simp: elements_def split: if_splits)

lemma in_elements: "x \<in> set (L h) \<Longrightarrow> x \<in> elements L"
  by (auto simp: elements_def)

lemma layout_empty: "layout (t\<lparr>table := (\<lambda>_. 0)\<rparr>) (\<lambda>_. [])"
  by (simp add: layout_def)

lemma layout_chain: "layout t L \<Longrightarrow> seg (h_next t) (table t h) (L h) 0"
  unfolding layout_def using bseg_seg by blast

lemma layout_head: "layout t L \<Longrightarrow> table t h = 0 \<or> table t h \<in> set (L h)"
  using layout_chain [of t L h] by (cases "L h") auto

lemma layoutD:
  assumes "layout t L"
  shows "\<exists>q. bseg (h_next t) (h_prev t) 0 (table t h) (L h) q 0" "distinct (L h)"
    "h \<noteq> h' \<Longrightarrow> set (L h) \<inter> set (L h') = {}"
  using assms unfolding layout_def by blast+

lemma layout_nonzero: "layout t L \<Longrightarrow> x \<in> elements L \<Longrightarrow> x \<noteq> 0"
  unfolding elements_def by (metis UN_iff layout_chain seg_nonzero)

text \<open>Only the links of the elements and the heads matter.\<close>

lemma bseg_cong:
  "\<forall>x \<in> set xs. nx x = nx' x \<and> pv x = pv' x \<Longrightarrow> bseg nx pv p a xs q b = bseg nx' pv' p a xs q b"
  by (induction xs arbitrary: p a) auto

lemma layout_cong:
  assumes "table t = table u" "\<forall>x \<in> elements L. h_next t x = h_next u x \<and> h_prev t x = h_prev u x"
  shows "layout t L = layout u L"
proof -
  have "bseg (h_next t) (h_prev t) 0 a (L h) q 0 = bseg (h_next u) (h_prev u) 0 a (L h) q 0" for a h q
    by (rule bseg_cong) (use assms(2) in_elements in blast)
  then show ?thesis unfolding layout_def assms(1) by simp
qed

lemma layout_link_first:
  assumes "layout t L" "he \<notin> elements L" "he \<noteq> 0"
  shows "layout (link_first h he t) (L(h := he # L h))"
proof -
  have fresh: "he \<notin> set (L h')" for h' using assms(2) in_elements by blast
  have d: "distinct (L h')" "h' \<noteq> h'' \<Longrightarrow> set (L h') \<inter> set (L h'') = {}" for h' h''
    using layoutD(2, 3) [OF assms(1)] by simp_all
  obtain q where q: "bseg (h_next t) (h_prev t) 0 (table t h) (L h) q 0"
    using layoutD(1) [OF assms(1)] by blast
  have this_one: "\<exists>q. bseg (h_next (link_first h he t)) (h_prev (link_first h he t)) 0 he (he # L h) q 0"
    using bseg_cons [OF q d(1) fresh assms(3)]
    by (cases "table t h = 0") (simp_all add: link_first_def Let_def)
  have "\<exists>q. bseg (h_next (link_first h he t)) (h_prev (link_first h he t)) 0 (table t h') (L h') q 0"
    if "h' \<noteq> h" for h'
  proof -
    obtain q where q: "bseg (h_next t) (h_prev t) 0 (table t h') (L h') q 0"
      using layoutD(1) [OF assms(1)] by blast
    have "table t h \<noteq> 0 \<Longrightarrow> table t h \<notin> set (L h')"
      using layout_head [OF assms(1), of h] d(2) [OF that] by auto
    then show ?thesis using q fresh [of h'] by (auto simp: link_first_def Let_def)
  qed
  moreover have "table (link_first h he t) = (table t)(h := he)"
    by (simp add: link_first_def Let_def)
  ultimately show ?thesis
    unfolding layout_def using this_one d fresh by auto
qed

lemma layout_unlink:
  assumes "layout t L" "L h = us @ x # vs"
  shows "layout (unlink_hashElmt h x t) (L(h := us @ vs))"
proof -
  have d: "distinct (L h')" "h' \<noteq> h'' \<Longrightarrow> set (L h') \<inter> set (L h'') = {}" for h' h''
    using layoutD(2, 3) [OF assms(1)] by simp_all
  obtain q where q: "bseg (h_next t) (h_prev t) 0 (table t h) (us @ x # vs) q 0"
    using layoutD(1) [OF assms(1), of h] unfolding assms(2) by blast
  have dx: "distinct (us @ x # vs)" using d(1) [of h] assms(2) by simp
  obtain m where us: "bseg (h_next t) (h_prev t) 0 (table t h) us m x" and m: "h_prev t x = m"
    and vs: "bseg (h_next t) (h_prev t) x (h_next t x) vs q 0"
    using q by auto
  have pm: "h_prev t x \<noteq> 0 \<Longrightarrow> h_prev t x \<in> set us"
    using bseg_last [OF us] m by (auto split: if_splits)
  have nm: "h_next t x \<noteq> 0 \<Longrightarrow> h_next t x \<in> set vs"
    using bseg_head [OF vs] by (cases vs) auto
  have links: "h_next (unlink_hashElmt h x t) =
      (if h_prev t x \<noteq> 0 then (h_next t)(h_prev t x := h_next t x) else h_next t)"
    "h_prev (unlink_hashElmt h x t) =
      (if h_next t x \<noteq> 0 then (h_prev t)(h_next t x := h_prev t x) else h_prev t)"
    "table (unlink_hashElmt h x t) = (if h_prev t x \<noteq> 0 then table t else (table t)(h := h_next t x))"
    using pm nm dx by (auto simp: unlink_hashElmt_def Let_def)
  have "\<exists>q. bseg (h_next (unlink_hashElmt h x t)) (h_prev (unlink_hashElmt h x t)) 0
      (table t h') (L h') q 0" if "h' \<noteq> h" for h'
  proof -
    obtain q where q: "bseg (h_next t) (h_prev t) 0 (table t h') (L h') q 0"
      using layoutD(1) [OF assms(1)] by blast
    have "h_prev t x \<noteq> 0 \<Longrightarrow> h_prev t x \<notin> set (L h')" "h_next t x \<noteq> 0 \<Longrightarrow> h_next t x \<notin> set (L h')"
      using pm nm d(2) [OF that] assms(2) by auto
    then show ?thesis using q by (auto simp: links)
  qed
  moreover have "\<exists>q. bseg (h_next (unlink_hashElmt h x t)) (h_prev (unlink_hashElmt h x t)) 0
      (table (unlink_hashElmt h x t) h) (us @ vs) q 0"
    using bseg_remove [OF q dx] by (auto simp: links split: if_splits)
  moreover have "set (us @ vs) \<inter> set (L h') = {}" if "h' \<noteq> h" for h'
    using d(2) [OF that] assms(2) by auto
  ultimately show ?thesis
    unfolding layout_def using d dx by (auto simp: links)
qed

lemma elements_unlink:
  assumes "layout t L" "L h = us @ x # vs"
  shows "elements (L(h := us @ vs)) = elements L - {x}"
proof -
  have "distinct (us @ x # vs)" "h' \<noteq> h \<Longrightarrow> x \<notin> set (L h')" for h'
    using layoutD(2) [OF assms(1), of h] layoutD(3) [OF assms(1), of h' h] assms(2) by auto
  moreover have "elements (L(h := xs)) = set xs \<union> (\<Union>h' \<in> - {h}. set (L h'))" for xs
    by (auto simp: elements_def split: if_splits)
  from this [of "us @ vs"] this [of "L h", unfolded fun_upd_triv] have "elements (L(h := us @ vs)) = set us \<union> set vs \<union> (\<Union>h' \<in> - {h}. set (L h'))"
    "elements L = set us \<union> {x} \<union> set vs \<union> (\<Union>h' \<in> - {h}. set (L h'))"
    by (simp_all add: assms(2))
  ultimately show ?thesis by auto
qed

end
