(* ===== verification/Xref_Table_Invariant.thy ===== *)
theory Xref_Table_Invariant
  imports Xref_Table_Chains
begin

text \<open>
  The representation invariant of the symbol table, and that growing the hash table keeps it: every
  symbol has one hash element, in the bucket of the hash value of its name.
\<close>

section \<open>What the hash table does not touch\<close>

definition core :: "xtab \<Rightarrow> xtab" where
  "core t = t\<lparr>table := (\<lambda>_. 0), h_next := (\<lambda>_. 0), h_prev := (\<lambda>_. 0),
     syms := map (\<lambda>s. s\<lparr>hash_val := 0\<rparr>) (syms t)\<rparr>"

lemma core_fields:
  assumes "core t = core u"
  shows "table_max t = table_max u" "entry_cnt t = entry_cnt u" "names t = names u"
    "h_el t = h_el u" "h_free t = h_free u" "symbolIndex_table t = symbolIndex_table u"
    "orig_link_offsets t = orig_link_offsets u" "writable t = writable u"
    "link_is_writable t = link_is_writable u" "need_to_mv t = need_to_mv u" "cache_app t = cache_app u"
    "length (syms t) = length (syms u)"
  using assms by (cases t; cases u; auto simp: core_def dest: map_eq_imp_length_eq)+

lemma core_syms:
  assumes "core t = core u" "i < length (syms t)"
  shows "has_def_file (syms t ! i) = has_def_file (syms u ! i)" "kind (syms t ! i) = kind (syms u ! i)"
    "name_offset (syms t ! i) = name_offset (syms u ! i)" "get_name t i = get_name u i"
    "symbol_index (syms t ! i) = symbol_index (syms u ! i)"
    "offset_to_start_link (syms t ! i) = offset_to_start_link (syms u ! i)"
proof -
  have "map (\<lambda>s. s\<lparr>hash_val := 0\<rparr>) (syms t) = map (\<lambda>s. s\<lparr>hash_val := 0\<rparr>) (syms u)"
    using assms(1) by (cases t; cases u) (auto simp: core_def)
  then have "map (\<lambda>s. s\<lparr>hash_val := 0\<rparr>) (syms t) ! i = map (\<lambda>s. s\<lparr>hash_val := 0\<rparr>) (syms u) ! i"
    by simp
  then have "(syms t ! i)\<lparr>hash_val := 0\<rparr> = (syms u ! i)\<lparr>hash_val := 0\<rparr>"
    using assms(2) core_fields(12) [OF assms(1)] by simp
  then show "has_def_file (syms t ! i) = has_def_file (syms u ! i)" "kind (syms t ! i) = kind (syms u ! i)"
    and n: "name_offset (syms t ! i) = name_offset (syms u ! i)"
    and "symbol_index (syms t ! i) = symbol_index (syms u ! i)"
    "offset_to_start_link (syms t ! i) = offset_to_start_link (syms u ! i)"
    by (cases "syms t ! i"; cases "syms u ! i"; simp)+
  show "get_name t i = get_name u i"
    by (simp add: get_name_def n core_fields(3) [OF assms(1)])
qed

lemma core_link_first [simp]: "core (link_first h he t) = core t"
  by (simp add: core_def link_first_def Let_def)

lemma core_unlink [simp]: "core (unlink_hashElmt h he t) = core t"
  by (simp add: core_def unlink_hashElmt_def Let_def)

lemma core_hash [simp]:
  "core (t\<lparr>syms := (syms t)[i := (syms t ! i)\<lparr>hash_val := h\<rparr>]\<rparr>) = core t"
proof (cases "i < length (syms t)")
  case True
  then show ?thesis by (simp add: core_def map_update) (metis (no_types, lifting) list_update_id map_update)
next
  case False
  then show ?thesis by (simp add: core_def list_update_beyond)
qed

section \<open>The elements are in their buckets\<close>

definition placed :: "xtab \<Rightarrow> (nat \<Rightarrow> nat list) \<Rightarrow> bool" where
  "placed t L \<longleftrightarrow> (\<forall>h. \<forall>x \<in> set (L h). h_el t x < length (syms t) \<and>
     hash_val (syms t ! h_el t x) = Mhash (table_max t) (get_name t (h_el t x)) \<and>
     unat (hash_val (syms t ! h_el t x) mod table_max t) = h)"

lemma placedD:
  assumes "placed t L" "x \<in> set (L h)"
  shows "h_el t x < length (syms t)" "hash_val (syms t ! h_el t x) = Mhash (table_max t) (get_name t (h_el t x))"
    "unat (Mhash (table_max t) (get_name t (h_el t x)) mod table_max t) = h"
  using assms unfolding placed_def by metis+

lemma re_insert_placed:
  assumes "layout t L" "placed t L" "table_max t \<noteq> 0" "xe \<notin> elements L" "xe \<noteq> 0"
    "h_el t xe < length (syms t)"
  shows "\<exists>t' h. re_insert xe t = Some t' \<and> layout t' (L(h := xe # L h)) \<and> placed t' (L(h := xe # L h)) \<and>
    core t' = core t \<and> (\<forall>y. y \<noteq> xe \<longrightarrow> h_next t' y = h_next t y)"
proof -
  define si where "si = h_el t xe"
  define hv where "hv = Mhash (table_max t) (get_name t si)"
  define u where "u = t\<lparr>syms := (syms t)[si := (syms t ! si)\<lparr>hash_val := hv\<rparr>]\<rparr>"
  define h where "h = unat (hv mod table_max t)"
  define t' where "t' = link_first h xe u"
  have b: "bucket u hv = Some h" using assms(3) by (simp add: bucket_def u_def h_def)
  have r: "re_insert xe t = Some t'"
    using b by (simp add: re_insert_def Let_def t'_def u_def si_def hv_def)
  have c: "core t' = core t" by (simp add: t'_def u_def)
  have nm: "get_name t' i = get_name t i" if "i < length (syms t)" for i
    using core_syms(4) [OF c] core_fields(12) [OF c] that by simp
  have "layout u L" using assms(1) layout_cong [of u t L] by (simp add: u_def)
  then have l: "layout t' (L(h := xe # L h))"
    unfolding t'_def by (rule layout_link_first) (use assms in simp_all)
  have s: "syms t' = (syms t)[si := (syms t ! si)\<lparr>hash_val := hv\<rparr>]"
    by (simp add: t'_def u_def link_first_def Let_def)
  have si: "si < length (syms t)" using assms(6) by (simp add: si_def)
  have hash: "hash_val (syms t' ! i) = (if i = si then hv else hash_val (syms t ! i))"
    if "i < length (syms t)" for i
    using that by (simp add: s nth_list_update)
  have "placed t' (L(h := xe # L h))"
    unfolding placed_def
  proof (intro allI ballI)
    fix h' x assume x: "x \<in> set ((L(h := xe # L h)) h')"
    have e: "h_el t' = h_el t" "table_max t' = table_max t" "length (syms t') = length (syms t)"
      using core_fields [OF c] by simp_all
    show "h_el t' x < length (syms t') \<and>
        hash_val (syms t' ! h_el t' x) = Mhash (table_max t') (get_name t' (h_el t' x)) \<and>
        unat (hash_val (syms t' ! h_el t' x) mod table_max t') = h'"
    proof (cases "x = xe")
      case True
      have "h' = h" using x True assms(4) in_elements [of xe L h'] by (auto split: if_splits)
      then show ?thesis using True si by (simp add: e hash nm hv_def h_def flip: si_def)
    next
      case False
      then have x: "x \<in> set (L h')" using x by (auto split: if_splits)
      show ?thesis using placedD [OF assms(2) x] by (auto simp: e hash nm hv_def)
    qed
  qed
  moreover have "\<forall>y. y \<noteq> xe \<longrightarrow> h_next t' y = h_next t y"
    by (simp add: t'_def u_def link_first_def Let_def)
  ultimately show ?thesis using r l c by blast
qed

section \<open>Growing the table\<close>

lemma re_insert_chain_placed:
  assumes "layout t L" "placed t L" "table_max t \<noteq> 0" "seg (h_next t) a xs 0" "distinct xs"
    "set xs \<inter> elements L = {}" "\<forall>x \<in> set xs. h_el t x < length (syms t)"
  shows "\<exists>t' L'. re_insert_chain a t = Some t' \<and> layout t' L' \<and> placed t' L' \<and>
    elements L' = set xs \<union> elements L \<and> core t' = core t \<and> (\<forall>y. y \<notin> set xs \<longrightarrow> h_next t' y = h_next t y)"
  using assms
proof (induction xs arbitrary: a t L)
  case Nil
  have "re_insert_chain a t = Some t" using Nil by (subst re_insert_chain.simps) simp
  then show ?case using Nil by auto
next
  case (Cons x xs)
  have a: "a = x" "x \<noteq> 0" and seg: "seg (h_next t) (h_next t x) xs 0" using Cons.prems(4) by auto
  have "x \<notin> elements L" "h_el t x < length (syms t)" using Cons.prems(6, 7) by auto
  then obtain u h where u: "re_insert x t = Some u" "layout u (L(h := x # L h))" "placed u (L(h := x # L h))"
      "core u = core t" and nx: "\<forall>y. y \<noteq> x \<longrightarrow> h_next u y = h_next t y"
    using re_insert_placed [OF Cons.prems(1-3) _ a(2)] by blast
  have "\<forall>y \<in> set xs. h_next u y = h_next t y" using nx Cons.prems(5) by auto
  then have segu: "seg (h_next u) (h_next t x) xs 0" using seg seg_cong by blast
  have new: "set xs \<inter> elements (L(h := x # L h)) = {}"
    using Cons.prems(5, 6) by (auto simp: elements_link)
  have els: "\<forall>y \<in> set xs. h_el u y < length (syms u)" and tm: "table_max u \<noteq> 0"
    using Cons.prems(3, 7) core_fields [OF u(4)] by simp_all
  have dx: "distinct xs" using Cons.prems(5) by simp
  obtain t' L' where t': "re_insert_chain (h_next t x) u = Some t'" "layout t' L'" "placed t' L'"
      "elements L' = set xs \<union> elements (L(h := x # L h))" "core t' = core u"
      "\<forall>y. y \<notin> set xs \<longrightarrow> h_next t' y = h_next u y"
    using Cons.IH [OF u(2, 3) tm segu dx new els] by blast
  have "re_insert_chain a t = Some t'"
    using a u(1) t'(1) by (subst re_insert_chain.simps) (simp add: Let_def)
  moreover have "elements L' = set (x # xs) \<union> elements L" using t'(4) by (auto simp: elements_link)
  moreover have "\<forall>y. y \<notin> set (x # xs) \<longrightarrow> h_next t' y = h_next t y" using t'(6) nx by auto
  ultimately show ?case using t'(2, 3, 5) u(4) by (intro exI [of _ t'] exI [of _ L']) simp
qed

lemma re_insert_all_placed:
  assumes "layout t L" "placed t L" "table_max t \<noteq> 0" "distinct is"
    "\<forall>i \<in> set is. seg (h_next t) (tmp i) (M i) 0 \<and> distinct (M i) \<and> set (M i) \<inter> elements L = {} \<and>
       (\<forall>x \<in> set (M i). h_el t x < length (syms t))"
    "\<forall>i j. i \<noteq> j \<longrightarrow> set (M i) \<inter> set (M j) = {}"
  shows "\<exists>t' L'. re_insert_all tmp is t = Some t' \<and> layout t' L' \<and> placed t' L' \<and>
    elements L' = (\<Union>i \<in> set is. set (M i)) \<union> elements L \<and> core t' = core t"
  using assms
proof (induction "is" arbitrary: t L)
  case Nil
  then show ?case by auto
next
  case (Cons i js)
  obtain u L2 where u: "re_insert_chain (tmp i) t = Some u" "layout u L2" "placed u L2"
      "elements L2 = set (M i) \<union> elements L" "core u = core t"
      and nx: "\<forall>y. y \<notin> set (M i) \<longrightarrow> h_next u y = h_next t y"
    using re_insert_chain_placed [OF Cons.prems(1-3), of "tmp i" "M i"] Cons.prems(5) by auto
  have other: "seg (h_next u) (tmp j) (M j) 0 \<and> distinct (M j) \<and> set (M j) \<inter> elements L2 = {} \<and>
      (\<forall>x \<in> set (M j). h_el u x < length (syms u))" if j: "j \<in> set js" for j
  proof -
    have d: "set (M i) \<inter> set (M j) = {}" using Cons.prems(4, 6) j by (metis distinct.simps(2))
    then have "seg (h_next u) (tmp j) (M j) 0 = seg (h_next t) (tmp j) (M j) 0"
      using nx by (intro seg_cong) auto
    then show ?thesis using d u(4) Cons.prems(5) j core_fields [OF u(5)] by auto
  qed
  have tm: "table_max u \<noteq> 0" and dj: "distinct js"
    using Cons.prems(3, 4) core_fields(1) [OF u(5)] by simp_all
  obtain t' L' where t': "re_insert_all tmp js u = Some t'" "layout t' L'" "placed t' L'"
      "elements L' = (\<Union>i \<in> set js. set (M i)) \<union> elements L2" "core t' = core u"
    using Cons.IH [OF u(2, 3) tm dj] other Cons.prems(6) by blast
  then show ?case
    using u by (intro exI [of _ t'] exI [of _ L']) auto
qed

section \<open>The invariant\<close>

definition names_ok :: "xtab \<Rightarrow> bool" where
  "names_ok t \<longleftrightarrow> (\<forall>i < length (syms t). NUL \<in> set (drop (name_offset (syms t ! i)) (names t)))"

definition hashed :: "xtab \<Rightarrow> (nat \<Rightarrow> nat list) \<Rightarrow> bool" where
  "hashed t L \<longleftrightarrow> table_max t \<noteq> 0 \<and> layout t L \<and> placed t L \<and>
     bij_betw (h_el t) (elements L) {..<length (syms t)} \<and> elements L \<subseteq> {..<h_free t} \<and> 0 < h_free t"

definition xref_ok :: "xtab \<Rightarrow> bool" where
  "xref_ok t \<longleftrightarrow> (\<exists>L. hashed t L) \<and> names_ok t \<and> entry_cnt t = of_nat (length (syms t)) \<and>
     (\<forall>xs. symbolIndex_table t = Some xs \<longrightarrow> length xs = length (syms t) + 1)"

lemma placed_small: "placed t L \<Longrightarrow> table_max t \<noteq> 0 \<Longrightarrow> \<not> h < unat (table_max t) \<Longrightarrow> L h = []"
proof (rule ccontr)
  assume a: "placed t L" "table_max t \<noteq> 0" "\<not> h < unat (table_max t)" "L h \<noteq> []"
  then obtain x where "x \<in> set (L h)" by (cases "L h") auto
  then have "unat (Mhash (table_max t) (get_name t (h_el t x)) mod table_max t) = h" using placedD a(1) by blast
  moreover have "unat (v mod table_max t) < unat (table_max t)" for v
    using a(2) by (simp add: unat_mod unat_gt_0)
  ultimately show False using a(3) by metis
qed

lemma core_names_ok: "core t = core u \<Longrightarrow> names_ok t = names_ok u"
proof -
  assume c: "core t = core u"
  show ?thesis
    unfolding names_ok_def core_fields(3, 12) [OF c] using core_syms(3) [OF c] core_fields(12) [OF c] by simp
qed

lemma odd_not_0: "2 * (w :: u32) + 1 \<noteq> 0"
proof
  assume "2 * w + 1 = 0"
  then have "bit (2 * w + 1) 0 = bit (0 :: u32) 0" by simp
  then show False by (simp add: bit_0)
qed

lemma rehash_hashed:
  assumes "hashed t L"
  shows "\<exists>t' L'. rehash_xref t = Some t' \<and> hashed t' L' \<and>
    core t' = core (t\<lparr>table_max := table_max t * 2 + 1\<rparr>)"
proof -
  have t: "table_max t \<noteq> 0" "layout t L" "placed t L" "bij_betw (h_el t) (elements L) {..<length (syms t)}"
      "elements L \<subseteq> {..<h_free t}" "0 < h_free t"
    using assms by (simp_all add: hashed_def)
  let ?u = "t\<lparr>table := (\<lambda>_. 0), table_max := table_max t * 2 + 1\<rparr>"
  have odd: "table_max ?u \<noteq> 0" using odd_not_0 [of "table_max t"] by (simp add: mult.commute)
  have lay: "layout ?u (\<lambda>_. [])" by (simp add: layout_def)
  have plc: "placed ?u (\<lambda>_. [])" by (simp add: placed_def)
  have old: "\<forall>i \<in> set [0..<unat (table_max t)]. seg (h_next ?u) (table t i) (L i) 0 \<and> distinct (L i) \<and>
      set (L i) \<inter> elements (\<lambda>_. []) = {} \<and> (\<forall>x \<in> set (L i). h_el ?u x < length (syms ?u))"
    using layout_chain [OF t(2)] layoutD(2) [OF t(2)] placedD(1) [OF t(3)]
    by (auto simp: elements_def)
  have dis: "\<forall>i j. i \<noteq> j \<longrightarrow> set (L i) \<inter> set (L j) = {}" using layoutD(3) [OF t(2)] by blast
  obtain t' L' where t': "rehash_xref t = Some t'" "layout t' L'" "placed t' L'"
      "elements L' = (\<Union>i \<in> set [0..<unat (table_max t)]. set (L i)) \<union> elements (\<lambda>_. [])" "core t' = core ?u"
    using re_insert_all_placed [OF lay plc odd distinct_upt old dis] unfolding rehash_xref_def by blast
  have "elements L' = elements L"
  proof -
    have "x \<in> set (L h) \<Longrightarrow> h < unat (table_max t)" for x h
      using placed_small [OF t(3, 1), of h] by (cases "h < unat (table_max t)") simp_all
    then have "elements L = (\<Union>i \<in> set [0..<unat (table_max t)]. set (L i))"
      by (auto simp: elements_def) (metis atLeastLessThan_iff zero_le)
    then show ?thesis using t'(4) by (simp add: elements_def)
  qed
  moreover have "table_max t' = table_max ?u" "h_el t' = h_el t" "length (syms t') = length (syms t)"
    "h_free t' = h_free t"
    using core_fields [OF t'(5)] by simp_all
  ultimately have "hashed t' L'"
    using t t'(2, 3) odd by (simp add: hashed_def)
  moreover have "core ?u = core (t\<lparr>table_max := table_max t * 2 + 1\<rparr>)" by (simp add: core_def)
  ultimately show ?thesis using t'(1, 5) by metis
qed

end
