(* ===== verification/Xref_Table_Refinement.thy ===== *)
theory Xref_Table_Refinement
  imports Xref_Table_Invariant "HOL-Library.Multiset"
begin

text \<open>
  The symbol table as a list of symbols, and the operations on it: a new symbol is a new last
  entry, a lookup is a scan of the list.
\<close>

definition listing :: "xtab \<Rightarrow> (nat \<times> string \<times> bool) list" where
  "listing t = map (\<lambda>i. (kind (syms t ! i), get_name t i, has_def_file (syms t ! i))) [0..<length (syms t)]"

lemma length_listing [simp]: "length (listing t) = length (syms t)"
  by (simp add: listing_def)

lemma nth_listing [simp]:
  "i < length (syms t) \<Longrightarrow> listing t ! i = (kind (syms t ! i), get_name t i, has_def_file (syms t ! i))"
  by (simp add: listing_def)

lemma core_listing: "core t = core u \<Longrightarrow> listing t = listing u"
proof -
  assume c: "core t = core u"
  show ?thesis
  proof (rule nth_equalityI)
    show "length (listing t) = length (listing u)" using core_fields(12) [OF c] by simp
  next
    fix i assume "i < length (listing t)"
    then have i: "i < length (syms t)" by simp
    then have "i < length (syms u)" using core_fields(12) [OF c] by simp
    then show "listing t ! i = listing u ! i"
      unfolding nth_listing [OF i] nth_listing [OF \<open>i < length (syms u)\<close>]
        core_syms(1) [OF c i] core_syms(2) [OF c i] core_syms(4) [OF c i] by simp
  qed
qed

section \<open>Names in the symbol file\<close>

lemma c_str_append: "NUL \<in> set xs \<Longrightarrow> c_str (xs @ ys) = c_str xs"
  by (simp add: c_str_def takeWhile_append1)

lemma strncpy_terminated [simp]:
  "strncpy (length s + 1) s = s @ [NUL]" "strncpy (Suc (length s)) s = s @ [NUL]"
  by (simp_all add: strncpy_def)

lemma in_drop_le: "x \<in> set (drop n xs) \<Longrightarrow> n \<le> length xs"
  by (cases "n \<le> length xs") simp_all

lemma get_name_appended:
  assumes "names u = names t @ ys" "name_offset (syms u ! i) = name_offset (syms t ! i)"
    "NUL \<in> set (drop (name_offset (syms t ! i)) (names t))"
  shows "get_name u i = get_name t i" "NUL \<in> set (drop (name_offset (syms u ! i)) (names u))"
  using assms in_drop_le [OF assms(3)] by (simp_all add: get_name_def c_str_append)

section \<open>A new symbol\<close>

lemma insert_name_new:
  "update_sym_addr_offset (length ns + 1) t = (off, u) \<Longrightarrow>
   insert_xrefSymbol_name off ns (length ns) u = t\<lparr>names := names t @ ns @ [NUL]\<rparr> \<and> off = length (names t)"
  by (auto simp: update_sym_addr_offset_def insert_xrefSymbol_name_def)

text \<open>The table after the symbol, its name and its hash element are there, before it grows.\<close>

definition with_symbol :: "nat \<Rightarrow> nat \<Rightarrow> string \<Rightarrow> xtab \<Rightarrow> xtab" where
  "with_symbol index knd ns t =
     link_first (unat (Mhash (table_max t) ns mod table_max t)) (h_free t)
       (t\<lparr>entry_cnt := entry_cnt t + 1, names := names t @ ns @ [NUL],
          syms := syms t @ [init index knd (length (names t)) (Mhash (table_max t) ns)],
          h_free := h_free t + 1, h_el := (h_el t)(h_free t := length (syms t)),
          h_next := (h_next t)(h_free t := 0), h_prev := (h_prev t)(h_free t := 0)\<rparr>)"

lemma with_symbol_fields:
  "names (with_symbol x k ns t) = names t @ ns @ [NUL]"
  "syms (with_symbol x k ns t) = syms t @ [init x k (length (names t)) (Mhash (table_max t) ns)]"
  "h_el (with_symbol x k ns t) = (h_el t)(h_free t := length (syms t))"
  "h_free (with_symbol x k ns t) = h_free t + 1"
  "table_max (with_symbol x k ns t) = table_max t"
  "entry_cnt (with_symbol x k ns t) = entry_cnt t + 1"
  "symbolIndex_table (with_symbol x k ns t) = symbolIndex_table t"
  "writable (with_symbol x k ns t) = writable t"
  by (simp_all add: with_symbol_def link_first_def Let_def)

lemma with_symbol_names:
  assumes "names_ok t" "NUL \<notin> set ns"
  shows "names_ok (with_symbol x k ns t)"
    "i < length (syms t) \<Longrightarrow> get_name (with_symbol x k ns t) i = get_name t i"
    "get_name (with_symbol x k ns t) (length (syms t)) = ns"
    "listing (with_symbol x k ns t) = listing t @ [(k mod 2 ^ 8, ns, False)]"
proof -
  let ?u = "with_symbol x k ns t"
  have old: "get_name ?u i = get_name t i" "NUL \<in> set (drop (name_offset (syms ?u ! i)) (names ?u))"
    if "i < length (syms t)" for i
    using assms(1) that get_name_appended [of ?u t "ns @ [NUL]" i]
    by (simp_all add: names_ok_def with_symbol_fields nth_append)
  have new: "name_offset (syms ?u ! length (syms t)) = length (names t)"
    by (simp add: with_symbol_fields init_def)
  show g: "get_name ?u (length (syms t)) = ns"
    using c_str_terminated [OF assms(2), of "[]"]
    by (simp add: get_name_def new) (simp add: with_symbol_fields)
  have "NUL \<in> set (drop (name_offset (syms ?u ! i)) (names ?u))" if "i < length (syms ?u)" for i
  proof (cases "i = length (syms t)")
    case True
    then show ?thesis unfolding True new by (simp add: with_symbol_fields)
  next
    case False
    then show ?thesis using that old by (simp add: with_symbol_fields)
  qed
  then show "names_ok ?u" by (simp add: names_ok_def)
  show "i < length (syms t) \<Longrightarrow> get_name ?u i = get_name t i" by (rule old)
  show "listing ?u = listing t @ [(k mod 2 ^ 8, ns, False)]"
  proof (rule nth_equalityI)
    show "length (listing ?u) = length (listing t @ [(k mod 2 ^ 8, ns, False)])"
      by (simp add: with_symbol_fields)
  next
    fix i assume "i < length (listing ?u)"
    then have i: "i < length (syms ?u)" "i < length (syms t) \<or> i = length (syms t)"
      by (auto simp: with_symbol_fields)
    show "listing ?u ! i = (listing t @ [(k mod 2 ^ 8, ns, False)]) ! i"
    proof (cases "i = length (syms t)")
      case True
      then show ?thesis unfolding nth_listing [OF i(1)] using g
        by (simp add: nth_append with_symbol_fields init_def)
    next
      case False
      then show ?thesis unfolding nth_listing [OF i(1)] using i(2) old
        by (simp add: nth_append with_symbol_fields)
    qed
  qed
qed

lemma with_symbol_hashed:
  assumes h: "hashed t L" and n: "names_ok t" "NUL \<notin> set ns"
  shows "\<exists>L'. hashed (with_symbol x k ns t) L'"
proof -
  have t: "table_max t \<noteq> 0" "layout t L" "placed t L" "bij_betw (h_el t) (elements L) {..<length (syms t)}"
      "elements L \<subseteq> {..<h_free t}" "0 < h_free t"
    using h by (simp_all add: hashed_def)
  let ?u = "with_symbol x k ns t" and ?b = "unat (Mhash (table_max t) ns mod table_max t)"
  let ?L = "L(?b := h_free t # L ?b)"
  let ?v = "t\<lparr>entry_cnt := entry_cnt t + 1, names := names t @ ns @ [NUL],
          syms := syms t @ [init x k (length (names t)) (Mhash (table_max t) ns)],
          h_free := h_free t + 1, h_el := (h_el t)(h_free t := length (syms t)),
          h_next := (h_next t)(h_free t := 0), h_prev := (h_prev t)(h_free t := 0)\<rparr>"
  have fresh: "h_free t \<notin> elements L" using t(5) by auto
  have "layout ?v L" using layout_cong [of t ?v L] t(2) fresh by auto
  then have lay: "layout ?u ?L"
    unfolding with_symbol_def by (rule layout_link_first) (use fresh t(6) in simp_all)
  have "placed ?u ?L"
    unfolding placed_def
  proof (intro allI ballI)
    fix h' y assume y: "y \<in> set (?L h')"
    show "h_el ?u y < length (syms ?u) \<and>
        hash_val (syms ?u ! h_el ?u y) = Mhash (table_max ?u) (get_name ?u (h_el ?u y)) \<and>
        unat (hash_val (syms ?u ! h_el ?u y) mod table_max ?u) = h'"
    proof (cases "y = h_free t")
      case True
      have "h' = ?b" using y True fresh in_elements [of "h_free t" L h'] by (auto split: if_splits)
      then show ?thesis
        using True with_symbol_names(3) [OF n] by (simp add: with_symbol_fields init_def)
    next
      case False
      then have y: "y \<in> set (L h')" using y by (auto split: if_splits)
      have p: "h_el t y < length (syms t)" using placedD(1) [OF t(3) y] .
      have "h_el ?u y = h_el t y" using False by (simp add: with_symbol_fields)
      then show ?thesis
        using p placedD [OF t(3) y] with_symbol_names(2) [OF n p] by (simp add: with_symbol_fields nth_append)
    qed
  qed
  moreover have "bij_betw (h_el ?u) (elements ?L) {..<length (syms ?u)}"
  proof -
    have "bij_betw (h_el ?u) (elements L) {..<length (syms t)}"
    proof -
      have "h_el t a = h_el ?u a" if "a \<in> elements L" for a
        using that fresh by (auto simp: with_symbol_fields)
      from bij_betw_cong [of "elements L", OF this] t(4) show ?thesis by simp
    qed
    then have "bij_betw (h_el ?u) (elements L \<union> {h_free t}) ({..<length (syms t)} \<union> {length (syms t)})"
      by (intro bij_betw_combine) (auto simp: with_symbol_fields)
    moreover have "{..<length (syms t)} \<union> {length (syms t)} = {..<length (syms ?u)}"
      by (auto simp: with_symbol_fields)
    ultimately show ?thesis by (simp add: elements_link)
  qed
  moreover have "elements ?L \<subseteq> {..<h_free ?u}" using t(5) by (auto simp: elements_link with_symbol_fields)
  ultimately show ?thesis using lay t(1) by (auto simp: hashed_def with_symbol_fields)
qed

text \<open>The fields that neither the hash table nor the names depend on.\<close>

definition other_fields :: "bool \<Rightarrow> link list option list option \<Rightarrow> int list \<Rightarrow> xtab \<Rightarrow> xtab" where
  "other_fields b xs os t = t\<lparr>need_to_mv := b, symbolIndex_table := xs, orig_link_offsets := os\<rparr>"

lemma other_fields_simps [simp]:
  "hashed (other_fields b xs os t) L = hashed t L" "names_ok (other_fields b xs os t) = names_ok t"
  "listing (other_fields b xs os t) = listing t" "syms (other_fields b xs os t) = syms t"
  "table_max (other_fields b xs os t) = table_max t" "symbolIndex_table (other_fields b xs os t) = xs"
  "writable (other_fields b xs os t) = writable t" "entry_cnt (other_fields b xs os t) = entry_cnt t"
  "link_is_writable (other_fields b xs os t) = link_is_writable t"
  "cache_app (other_fields b xs os t) = cache_app t"
  by (simp_all add: other_fields_def hashed_def layout_def placed_def get_name_def names_ok_def listing_def)

definition can_grow :: "xtab \<Rightarrow> bool" where
  "can_grow t \<longleftrightarrow> writable t \<and> (link_is_writable t \<or> symbolIndex_table t \<noteq> None)"

definition with_index :: "xtab \<Rightarrow> xtab" where
  "with_index t = (if symbolIndex_table t = None \<and> link_is_writable t then init_symbolIndex_table t else t)"

lemma with_index_flag:
  "symbolIndex_table (with_index (t\<lparr>need_to_mv := b\<rparr>)) = symbolIndex_table (with_index t)"
  "orig_link_offsets (with_index (t\<lparr>need_to_mv := b\<rparr>)) = orig_link_offsets (with_index t)"
  by (simp_all add: with_index_def init_symbolIndex_table_def)

lemma make_new_symbolIndex_ok:
  assumes "xref_ok t" "can_grow t" "length (syms t) < XREF_LIMIT_SIZE"
  shows "\<exists>xs os. make_new_symbolIndex t =
    Some (length (syms t) + 1, t\<lparr>symbolIndex_table := Some xs, orig_link_offsets := os\<rparr>) \<and>
    length xs = length (syms t) + 2 \<and>
    xs = the (symbolIndex_table (with_index t)) @ [None] \<and> os = orig_link_offsets (with_index t) @ [-1]"
proof (cases "symbolIndex_table t")
  case None
  then show ?thesis using assms
    by (auto simp: make_new_symbolIndex_def init_symbolIndex_table_def can_grow_def with_index_def simp del: replicate.simps)
next
  case (Some xs)
  then have "length xs = length (syms t) + 1" using assms(1) by (simp add: xref_ok_def)
  then show ?thesis using assms Some by (auto simp: make_new_symbolIndex_def with_index_def)
qed

lemma make_new_link_ok:
  assumes "symbolIndex_table t = Some xs"
  shows "\<exists>n xs'. make_new_link i t = Some (n, t\<lparr>symbolIndex_table := Some xs'\<rparr>) \<and> length xs' = length xs \<and>
    (xs ! i = None \<longrightarrow> xs' = xs[i := Some [last_link]])"
  using assms by (simp add: make_new_link_def Let_def) (intro exI conjI impI, rule refl, simp_all)

lemma newSymbol_grown:
  assumes "xref_ok t" "can_grow t" "length (syms t) < XREF_LIMIT_SIZE"
  shows "\<exists>xs os u. u = with_symbol (length (syms t) + 1) k ns (other_fields True (Some xs) os t) \<and>
    length xs = length (syms t) + 2 \<and>
    xs = the (symbolIndex_table (with_index t)) @ [Some [last_link]] \<and> os = orig_link_offsets (with_index t) @ [-1] \<and>
    newSymbol k (length ns) ns t =
      map_option (\<lambda>t'. (Some (length (syms t)), t')) (if entry_cnt u > table_max u then rehash_xref u else Some u)"
proof -
  have tm: "table_max t \<noteq> 0" and w: "writable t"
    using assms(1, 2) by (auto simp: xref_ok_def hashed_def can_grow_def)
  have "xref_ok (t\<lparr>need_to_mv := True\<rparr>)" "can_grow (t\<lparr>need_to_mv := True\<rparr>)"
    using assms by (simp_all add: xref_ok_def hashed_def layout_def placed_def get_name_def names_ok_def can_grow_def)
  then obtain xs os where xs: "make_new_symbolIndex (t\<lparr>need_to_mv := True\<rparr>) =
      Some (length (syms t) + 1, t\<lparr>need_to_mv := True, symbolIndex_table := Some xs, orig_link_offsets := os\<rparr>)"
      "length xs = length (syms t) + 2"
      "xs = the (symbolIndex_table (with_index t)) @ [None]" "os = orig_link_offsets (with_index t) @ [-1]"
    using make_new_symbolIndex_ok [of "t\<lparr>need_to_mv := True\<rparr>"] assms(3)
    unfolding with_index_flag by auto
  define u3 where "u3 = t\<lparr>need_to_mv := True, symbolIndex_table := Some xs, orig_link_offsets := os,
     names := names t @ ns @ [NUL],
     syms := syms t @ [init (length (syms t) + 1) k (length (names t)) (Mhash (table_max t) ns)],
     h_free := h_free t + 1, h_el := (h_el t)(h_free t := length (syms t)),
     h_next := (h_next t)(h_free t := 0), h_prev := (h_prev t)(h_free t := 0)\<rparr>"
  have u3_index: "symbolIndex_table u3 = Some xs" by (simp add: u3_def)
  obtain n xs' where l: "make_new_link (length (syms t) + 1) u3 = Some (n, u3\<lparr>symbolIndex_table := Some xs'\<rparr>)"
      "length xs' = length xs" "xs ! (length (syms t) + 1) = None \<longrightarrow> xs' = xs[length (syms t) + 1 := Some [last_link]]"
    using make_new_link_ok [OF u3_index, of "length (syms t) + 1"] by (elim exE conjE)
  have xs': "xs' = the (symbolIndex_table (with_index t)) @ [Some [last_link]]"
  proof -
    have len: "length (the (symbolIndex_table (with_index t))) = length (syms t) + 1" using xs(2, 3) by simp
    then have "xs ! (length (syms t) + 1) = None" unfolding xs(3) by (metis nth_append_length)
    then show ?thesis using l(3) len unfolding xs(3) by (metis list_update_length)
  qed
  define u where "u = with_symbol (length (syms t) + 1) k ns (other_fields True (Some xs') os t)"
  have "newSymbol k (length ns) ns t =
      map_option (\<lambda>t'. (Some (length (syms t)), t')) (if entry_cnt u > table_max u then rehash_xref u else Some u)"
  proof -
    have u: "u = link_first (unat (Mhash (table_max t) ns mod table_max t)) (h_free t)
        (u3\<lparr>symbolIndex_table := Some xs', entry_cnt := entry_cnt t + 1\<rparr>)"
      by (cases t) (simp add: u_def u3_def with_symbol_def other_fields_def)
    have e: "entry_cnt u3 = entry_cnt t" "table_max u3 = table_max t" by (simp_all add: u3_def)
    have step: "newSymbol k (length ns) ns t =
      do { (lnk, t') \<leftarrow> make_new_link (length (syms t) + 1) u3;
           let t' = t'\<lparr>entry_cnt := entry_cnt t' + 1\<rparr>;
           b \<leftarrow> bucket t' (Mhash (table_max t) ns);
           let t' = link_first b (h_free t) t';
           t' \<leftarrow> (if entry_cnt t' > table_max t' then rehash_xref t' else Some t');
           Some (Some (length (syms t)), t') }"
      using w xs(1)
      by (simp add: newSymbol_def Let_def insert_xrefSymbol_def update_sym_addr_offset_def
          insert_xrefSymbol_name_def new_hashElmt_def u3_def cong: if_cong)
    show ?thesis
      unfolding step l(1) using tm
      by (simp add: Let_def bucket_def u e map_option_case split: option.splits)
  qed
  then show ?thesis using xs(2) l(2) xs' xs(4) u_def by metis
qed

lemma newSymbol_refines:
  assumes ok: "xref_ok t" and g: "can_grow t" "length (syms t) < XREF_LIMIT_SIZE" and n: "NUL \<notin> set ns"
  shows "\<exists>t'. newSymbol k (length ns) ns t = Some (Some (length (syms t)), t') \<and> xref_ok t' \<and>
    listing t' = listing t @ [(k mod 2 ^ 8, ns, False)] \<and> can_grow t' \<and> cache_app t' = cache_app t"
proof -
  obtain xs os u where u: "u = with_symbol (length (syms t) + 1) k ns (other_fields True (Some xs) os t)"
      "length xs = length (syms t) + 2"
      "newSymbol k (length ns) ns t =
        map_option (\<lambda>t'. (Some (length (syms t)), t')) (if entry_cnt u > table_max u then rehash_xref u else Some u)"
    using newSymbol_grown [OF ok g] by blast
  obtain L where L: "hashed t L" and nm: "names_ok t" and cnt: "entry_cnt t = of_nat (length (syms t))"
    using ok by (auto simp: xref_ok_def)
  obtain L2 where L2: "hashed u L2"
    using with_symbol_hashed [of "other_fields True (Some xs) os t" L ns] L nm n u(1) by auto
  have fu: "names_ok u" "listing u = listing t @ [(k mod 2 ^ 8, ns, False)]"
    using with_symbol_names [of "other_fields True (Some xs) os t" ns] nm n u(1) by simp_all
  have su: "symbolIndex_table u = Some xs" "length (syms u) = length (syms t) + 1"
    "entry_cnt u = of_nat (length (syms u))" "writable u" "cache_app u = cache_app t"
    using g(1) cnt by (simp_all add: u(1) with_symbol_fields can_grow_def) (simp add: with_symbol_def link_first_def Let_def)
  obtain t' L' where t': "(if entry_cnt u > table_max u then rehash_xref u else Some u) = Some t'" "hashed t' L'"
      "core t' = core u \<or> core t' = core (u\<lparr>table_max := table_max u * 2 + 1\<rparr>)"
    using rehash_hashed [OF L2] L2 by (cases "entry_cnt u > table_max u") auto
  have c: "names_ok t'" "listing t' = listing u" "symbolIndex_table t' = symbolIndex_table u"
    "length (syms t') = length (syms u)" "entry_cnt t' = entry_cnt u" "writable t' = writable u" "cache_app t' = cache_app u"
  proof -
    obtain w where w: "core t' = core w" "names_ok w = names_ok u" "listing w = listing u"
        "symbolIndex_table w = symbolIndex_table u" "length (syms w) = length (syms u)"
        "entry_cnt w = entry_cnt u" "writable w = writable u" "cache_app w = cache_app u"
      using t'(3)
    proof
      assume "core t' = core u"
      then show ?thesis by (rule that) simp_all
    next
      assume "core t' = core (u\<lparr>table_max := table_max u * 2 + 1\<rparr>)"
      then show ?thesis by (rule that) (simp_all add: names_ok_def listing_def get_name_def)
    qed
    show "names_ok t'" using core_names_ok [OF w(1)] w(2) fu(1) by simp
    show "listing t' = listing u" using core_listing [OF w(1)] w(3) by simp
    show "symbolIndex_table t' = symbolIndex_table u" using core_fields(6) [OF w(1)] w(4) by simp
    show "length (syms t') = length (syms u)" using core_fields(12) [OF w(1)] w(5) by simp
    show "entry_cnt t' = entry_cnt u" using core_fields(2) [OF w(1)] w(6) by simp
    show "writable t' = writable u" using core_fields(8) [OF w(1)] w(7) by simp
    show "cache_app t' = cache_app u" using core_fields(11) [OF w(1)] w(8) by simp
  qed
  have "xref_ok t'"
    unfolding xref_ok_def using t'(2) c su u(2) by auto
  then show ?thesis
    using u(3) t'(1) c fu(2) su by (auto simp: can_grow_def)
qed

section \<open>Lookup is a scan of the symbols\<close>

lemma same_name_hash:
  "confirm_is_symbol t dfn k name f i \<Longrightarrow> Mhash tm name = Mhash tm (get_name t i)"
  by (auto simp: confirm_is_symbol_def intro: same_name_same_hash)

lemma lookup_hits_chain:
  assumes "seg (h_next t) a xs 0"
    "\<forall>x \<in> set xs. hash_val (syms t ! h_el t x) = Mhash (table_max t) (get_name t (h_el t x))"
  shows "lookup_hits t dfn k name f a = Some (filter (confirm_is_symbol t dfn k name f) (map (h_el t) xs))"
  using assms
proof (induction xs arbitrary: a)
  case Nil
  then show ?case by (subst lookup_hits.simps) simp
next
  case (Cons x xs)
  let ?i = "h_el t x" and ?lh = "Mhash (table_max t) name"
  have a: "a = x" "x \<noteq> 0" and seg: "seg (h_next t) (h_next t x) xs 0" using Cons.prems(1) by auto
  have hv: "hash_val (syms t ! ?i) = Mhash (table_max t) (get_name t ?i)" using Cons.prems(2) by simp
  have rest: "lookup_hits t dfn k name f (h_next t x) =
      Some (filter (confirm_is_symbol t dfn k name f) (map (h_el t) xs))"
    using Cons.IH [OF seg] Cons.prems(2) by simp
  have "(if hash_val (syms t ! ?i) < table_max t \<and> table_max t \<le> ?lh then ?lh mod table_max t else ?lh) =
      hash_val (syms t ! ?i)" if "confirm_is_symbol t dfn k name f ?i"
    using same_name_hash [OF that, of "table_max t"] hv by auto
  then show ?case
    using a rest by (subst lookup_hits.simps) (auto simp: Let_def)
qed

lemma lookup_hits_scan:
  assumes h: "hashed t L" and b: "b = unat (Mhash (table_max t) name mod table_max t)"
  shows "\<exists>hits. lookup_hits t dfn k name f (table t b) = Some hits \<and> distinct hits \<and>
    set hits = {i. i < length (syms t) \<and> confirm_is_symbol t dfn k name f i}"
proof -
  have t: "table_max t \<noteq> 0" "layout t L" "placed t L" "bij_betw (h_el t) (elements L) {..<length (syms t)}"
    using h by (simp_all add: hashed_def)
  let ?hits = "filter (confirm_is_symbol t dfn k name f) (map (h_el t) (L b))"
  have "lookup_hits t dfn k name f (table t b) = Some ?hits"
    using lookup_hits_chain [OF layout_chain [OF t(2)]] placedD(2) [OF t(3)] by blast
  moreover have "distinct ?hits"
  proof -
    have "inj_on (h_el t) (set (L b))"
      using t(4) in_elements by (metis bij_betw_def inj_on_subset subsetI)
    then show ?thesis using layoutD(2) [OF t(2), of b] by (simp add: distinct_map)
  qed
  moreover have "set ?hits = {i. i < length (syms t) \<and> confirm_is_symbol t dfn k name f i}"
  proof (intro equalityI subsetI)
    fix i assume "i \<in> set ?hits"
    then show "i \<in> {i. i < length (syms t) \<and> confirm_is_symbol t dfn k name f i}"
      using placedD(1) [OF t(3)] by auto
  next
    fix i assume "i \<in> {i. i < length (syms t) \<and> confirm_is_symbol t dfn k name f i}"
    then have i: "i < length (syms t)" "confirm_is_symbol t dfn k name f i" by simp_all
    then obtain x where "x \<in> elements L" and x: "h_el t x = i"
      using t(4) by (metis bij_betw_iff_bijections lessThan_iff)
    then obtain h' where h': "x \<in> set (L h')" by (auto simp: elements_def)
    have "h' = b"
      using placedD(3) [OF t(3) h'] same_name_hash [OF i(2), of "table_max t"] x b by simp
    then show "i \<in> set ?hits" using h' x i(2) by auto
  qed
  ultimately show ?thesis by blast
qed

text \<open>The reference: all symbols are tested, in the order of the index file.\<close>

definition scan :: "xtab \<Rightarrow> (nat \<Rightarrow> string option) \<Rightarrow> nat \<Rightarrow> string \<Rightarrow> string option \<Rightarrow> nat list" where
  "scan t dfn k name f = filter (confirm_is_symbol t dfn k name f) [0..<length (syms t)]"

lemma set_scan: "set (scan t dfn k name f) = {i. i < length (syms t) \<and> confirm_is_symbol t dfn k name f i}"
  by (auto simp: scan_def)

lemma distinct_scan: "distinct (scan t dfn k name f)"
  by (simp add: scan_def)

lemma lookup_scan:
  assumes "xref_ok t"
  shows "\<exists>new. mset new = mset (scan t dfn k name None) \<and>
    xref_lookup t dfn res k name None = Some (res @ new, if new = [] then None else Some (hd new))"
proof -
  obtain L where L: "hashed t L" using assms by (auto simp: xref_ok_def)
  then obtain hits where hits: "lookup_hits t dfn k name None (table t (unat (Mhash (table_max t) name mod table_max t))) = Some hits"
      "distinct hits" "set hits = set (scan t dfn k name None)"
    using lookup_hits_scan [OF L refl] by (metis set_scan)
  have "mset hits = mset (scan t dfn k name None)"
    using set_eq_iff_mset_eq_distinct [OF hits(2) distinct_scan] hits(3) by blast
  moreover have "xref_lookup t dfn res k name None = Some (res @ hits, if hits = [] then None else Some (hd hits))"
    using hits(1) L by (cases hits) (simp_all add: xref_lookup_def bucket_def hashed_def Let_def)
  ultimately show ?thesis by blast
qed

lemma lookup_scan_file:
  assumes "xref_ok t"
  shows "\<exists>new. mset new = mset (scan t dfn k name (Some f)) \<and>
    xref_lookup t dfn res k name (Some f) =
      (case find (\<lambda>i. has_def_file (syms t ! i) \<and> dfn i = Some f) new of
         Some i \<Rightarrow> Some (res @ [i], Some i)
       | None \<Rightarrow> Some (res @ new, if new = [] then None else Some (hd new)))"
proof -
  obtain L where L: "hashed t L" using assms by (auto simp: xref_ok_def)
  then obtain hits where hits: "lookup_hits t dfn k name (Some f) (table t (unat (Mhash (table_max t) name mod table_max t))) = Some hits"
      "distinct hits" "set hits = set (scan t dfn k name (Some f))"
    using lookup_hits_scan [OF L refl] by (metis set_scan)
  have "mset hits = mset (scan t dfn k name (Some f))"
    using set_eq_iff_mset_eq_distinct [OF hits(2) distinct_scan] hits(3) by blast
  moreover have "xref_lookup t dfn res k name (Some f) =
      (case find (\<lambda>i. has_def_file (syms t ! i) \<and> dfn i = Some f) hits of
         Some i \<Rightarrow> Some (res @ [i], Some i)
       | None \<Rightarrow> Some (res @ hits, if hits = [] then None else Some (hd hits)))"
    using hits(1) L by (cases hits) (auto simp: xref_lookup_def bucket_def hashed_def Let_def split: option.splits)
  ultimately show ?thesis by blast
qed

text \<open>What makes a symbol match, over the list of symbols.\<close>

definition matches :: "nat \<Rightarrow> string \<Rightarrow> nat \<times> string \<times> bool \<Rightarrow> bool" where
  "matches k name e \<longleftrightarrow> (k = fst e \<or> k = DD_UNKNOWN) \<and> \<not> strcmp_name k name (fst (snd e))"

lemma confirm_matches:
  "i < length (syms t) \<Longrightarrow> confirm_is_symbol t dfn k name None i \<longleftrightarrow> matches k name (listing t ! i)"
  by (simp add: confirm_is_symbol_def matches_def)

lemma scan_empty: "scan t dfn k name None = [] \<longleftrightarrow> \<not> (\<exists>e \<in> set (listing t). matches k name e)"
proof -
  have "scan t dfn k name None = [] \<longleftrightarrow> \<not> (\<exists>i < length (syms t). matches k name (listing t ! i))"
    by (auto simp: scan_def filter_empty_conv confirm_matches simp del: nth_listing)
  then show ?thesis by (metis in_set_conv_nth length_listing)
qed

lemma insert_symbol_refines:
  assumes ok: "xref_ok t" and g: "can_grow t" "length (syms t) < XREF_LIMIT_SIZE" and n: "NUL \<notin> set ns"
  shows "\<exists>i t'. insert_symbol dfn k (length ns) ns t = Some (Some i, t') \<and> xref_ok t' \<and> can_grow t' \<and>
    (if \<exists>e \<in> set (listing t). matches k ns e
     then t' = t \<and> i < length (syms t) \<and> matches k ns (listing t ! i)
     else i = length (syms t) \<and> listing t' = listing t @ [(k mod 2 ^ 8, ns, False)])"
proof -
  obtain new where new: "mset new = mset (scan t dfn k ns None)"
      "xref_lookup t dfn [] k ns None = Some (new, if new = [] then None else Some (hd new))"
    using lookup_scan [OF ok, of dfn k ns "[]"] by auto
  show ?thesis
  proof (cases "new = []")
    case True
    then have "\<not> (\<exists>e \<in> set (listing t). matches k ns e)" using new(1) scan_empty by (metis mset_zero_iff mset.simps(1))
    then show ?thesis
      using newSymbol_refines [OF ok g n, of k] new(2) True by (auto simp: insert_symbol_def)
  next
    case False
    then have "new ! 0 \<in> set new" by (cases new) auto
    moreover have "set new = set (scan t dfn k ns None)" using new(1) by (rule mset_eq_setD)
    ultimately have i: "new ! 0 < length (syms t)" "matches k ns (listing t ! (new ! 0))"
      using confirm_matches [of "new ! 0" t dfn k ns] by (auto simp: scan_def)
    then have "\<exists>e \<in> set (listing t). matches k ns e" by (metis length_listing nth_mem)
    then show ?thesis
      using new(2) False i ok g by (auto simp: insert_symbol_def)
  qed
qed

end
