(* ===== verification/Xref_Table_Restore.thy ===== *)
theory Xref_Table_Restore
  imports Xref_Table_Refinement
begin

text \<open>
  Reading a symbol table from its files builds the hash table again, from the hash values in the
  index file; and the check of the hash table that the code has, which every table passes.
\<close>

section \<open>Reading a table back\<close>

lemma new_element:
  assumes t: "layout t L" "placed t L" "table_max t \<noteq> 0" "elements L \<subseteq> {..<h_free t}" "0 < h_free t"
    "bij_betw (h_el t) (elements L) {..<i}"
    and i: "i < length (syms t)" "hash_val (syms t ! i) = Mhash (table_max t) (get_name t i)"
    and u: "u = link_first (unat (hash_val (syms t ! i) mod table_max t)) (h_free t)
      (t\<lparr>h_free := h_free t + 1, h_el := (h_el t)(h_free t := i),
         h_next := (h_next t)(h_free t := 0), h_prev := (h_prev t)(h_free t := 0)\<rparr>)"
  shows "\<exists>M. layout u M \<and> placed u M \<and> elements M \<subseteq> {..<h_free u} \<and> 0 < h_free u \<and>
    bij_betw (h_el u) (elements M) {..<Suc i}"
proof -
  let ?b = "unat (hash_val (syms t ! i) mod table_max t)"
  let ?v = "t\<lparr>h_free := h_free t + 1, h_el := (h_el t)(h_free t := i),
         h_next := (h_next t)(h_free t := 0), h_prev := (h_prev t)(h_free t := 0)\<rparr>"
  let ?M = "L(?b := h_free t # L ?b)"
  have fresh: "h_free t \<notin> elements L" using t(4) by auto
  have "layout ?v L" using layout_cong [of t ?v L] t(1) fresh by auto
  then have lay: "layout u ?M"
    unfolding u by (rule layout_link_first) (use fresh t(5) in simp_all)
  have f: "h_el u = (h_el t)(h_free t := i)" "syms u = syms t" "names u = names t" "table_max u = table_max t"
    "h_free u = h_free t + 1"
    by (simp_all add: u link_first_def Let_def)
  have nm: "get_name u j = get_name t j" for j by (simp add: get_name_def f)
  have "placed u ?M"
    unfolding placed_def
  proof (intro allI ballI)
    fix h y assume y: "y \<in> set (?M h)"
    show "h_el u y < length (syms u) \<and> hash_val (syms u ! h_el u y) = Mhash (table_max u) (get_name u (h_el u y)) \<and>
        unat (hash_val (syms u ! h_el u y) mod table_max u) = h"
    proof (cases "y = h_free t")
      case True
      have "h = ?b" using y True fresh in_elements [of "h_free t" L h] by (auto split: if_splits)
      then show ?thesis using True i by (simp add: f nm)
    next
      case False
      then have "y \<in> set (L h)" using y by (auto split: if_splits)
      then show ?thesis using False placedD [OF t(2), of y h] by (simp add: f nm)
    qed
  qed
  moreover have "bij_betw (h_el u) (elements ?M) {..<Suc i}"
  proof -
    have "h_el t a = h_el u a" if "a \<in> elements L" for a using that fresh by (auto simp: f)
    from bij_betw_cong [of "elements L", OF this] t(6) have "bij_betw (h_el u) (elements L) {..<i}" by simp
    then have "bij_betw (h_el u) (elements L \<union> {h_free t}) ({..<i} \<union> {i})"
      by (intro bij_betw_combine) (auto simp: f)
    moreover have "{..<i} \<union> {i} = {..<Suc i}" by auto
    ultimately show ?thesis by (simp add: elements_link)
  qed
  moreover have "elements ?M \<subseteq> {..<h_free u}" using t(4) by (auto simp: elements_link f)
  ultimately show ?thesis using lay f(5) by (metis zero_less_Suc Suc_eq_plus1)
qed

lemma restore_elements_ok:
  assumes "layout t L" "placed t L" "table_max t \<noteq> 0" "elements L \<subseteq> {..<h_free t}" "0 < h_free t"
    "bij_betw (h_el t) (elements L) {..<i}" "i + n = length (syms t)"
    "\<forall>j < length (syms t). hash_val (syms t ! j) = Mhash (table_max t) (get_name t j)"
  shows "\<exists>t' L'. restore_elements [i..<i + n] t = Some t' \<and> hashed t' L' \<and> syms t' = syms t \<and>
    names t' = names t \<and> entry_cnt t' = entry_cnt t \<and> table_max t' = table_max t \<and>
    symbolIndex_table t' = symbolIndex_table t"
  using assms
proof (induction n arbitrary: i t L)
  case 0
  then show ?case by (auto simp: hashed_def)
next
  case (Suc n)
  have i: "i < length (syms t)" "hash_val (syms t ! i) = Mhash (table_max t) (get_name t i)"
    using Suc.prems(7, 8) by simp_all
  define u where "u = link_first (unat (hash_val (syms t ! i) mod table_max t)) (h_free t)
      (t\<lparr>h_free := h_free t + 1, h_el := (h_el t)(h_free t := i),
         h_next := (h_next t)(h_free t := 0), h_prev := (h_prev t)(h_free t := 0)\<rparr>)"
  have f: "syms u = syms t" "names u = names t" "table_max u = table_max t" "entry_cnt u = entry_cnt t"
    "symbolIndex_table u = symbolIndex_table t"
    by (simp_all add: u_def link_first_def Let_def)
  have nm: "get_name u j = get_name t j" for j by (simp add: get_name_def f)
  obtain M where M: "layout u M" "placed u M" "elements M \<subseteq> {..<h_free u}" "0 < h_free u"
      "bij_betw (h_el u) (elements M) {..<Suc i}"
    using new_element [OF Suc.prems(1-6) i u_def] by blast
  have rest: "\<exists>t' L'. restore_elements [Suc i..<Suc i + n] u = Some t' \<and> hashed t' L' \<and> syms t' = syms u \<and>
    names t' = names u \<and> entry_cnt t' = entry_cnt u \<and> table_max t' = table_max u \<and>
    symbolIndex_table t' = symbolIndex_table u"
    by (rule Suc.IH [OF M(1, 2) _ M(3, 4, 5)]) (use Suc.prems(3, 7, 8) in \<open>simp_all add: f nm\<close>)
  have "restore_elements [i..<i + Suc n] t = restore_elements [Suc i..<Suc i + n] u"
  proof -
    have "[i..<i + Suc n] = i # [Suc i..<Suc i + n]" using upt_conv_Cons [of i "i + Suc n"] by simp
    then show ?thesis using Suc.prems(3) by (simp add: new_hashElmt_def bucket_def u_def del: upt_Suc)
  qed
  then show ?case using rest f by simp
qed

lemma xref_ok_hash:
  assumes "xref_ok t" "j < length (syms t)"
  shows "hash_val (syms t ! j) = Mhash (table_max t) (get_name t j)"
proof -
  obtain L where L: "hashed t L" using assms(1) by (auto simp: xref_ok_def)
  then obtain x where "x \<in> elements L" "h_el t x = j"
    using assms(2) by (metis hashed_def bij_betw_iff_bijections lessThan_iff)
  then show ?thesis using L placedD(2) by (auto simp: elements_def hashed_def)
qed

lemma restore_table_ok:
  assumes "table_max t \<noteq> 0" "names_ok t" "entry_cnt t = of_nat (length (syms t))"
    "\<forall>j < length (syms t). hash_val (syms t ! j) = Mhash (table_max t) (get_name t j)"
  shows "\<exists>t'. restore_table t = Some t' \<and> xref_ok t' \<and> listing t' = listing t"
proof -
  let ?v = "t\<lparr>table := (\<lambda>_. 0), h_el := (\<lambda>_. 0), h_next := (\<lambda>_. 0), h_prev := (\<lambda>_. 0), h_free := 1,
          symbolIndex_table := None, orig_link_offsets := [], need_to_mv := False, cache_app := None,
          saved_next_loffset := next_offset_link t\<rparr>"
  have "\<exists>t' L'. restore_elements [0..<0 + length (syms t)] ?v = Some t' \<and> hashed t' L' \<and> syms t' = syms ?v \<and>
    names t' = names ?v \<and> entry_cnt t' = entry_cnt ?v \<and> table_max t' = table_max ?v \<and>
    symbolIndex_table t' = symbolIndex_table ?v"
    by (rule restore_elements_ok [of ?v "\<lambda>_. []"])
      (use assms in \<open>simp_all add: layout_def placed_def elements_def get_name_def bij_betw_def\<close>)
  then obtain t' L' where t': "restore_table t = Some t'" "hashed t' L'" "syms t' = syms t" "names t' = names t"
      "entry_cnt t' = entry_cnt t" "symbolIndex_table t' = None"
    unfolding restore_table_def by auto
  have "names_ok t'" using assms(2) t'(3, 4) by (simp add: names_ok_def)
  then have "xref_ok t'" using t' assms(3) unfolding xref_ok_def by auto
  moreover have "listing t' = listing t" by (simp add: listing_def get_name_def t'(3, 4))
  ultimately show ?thesis using t'(1) by blast
qed

section \<open>The check of the hash table\<close>

lemma consistent_chain_ok:
  assumes "bseg (h_next t) (h_prev t) p a xs q 0"
    "\<forall>x \<in> set xs. unat (hash_val (syms t ! h_el t x) mod table_max t) = i \<and> h_el t x < length (syms t)"
  shows "consistent_chain t i a = Some (length xs, True)"
  using assms
proof (induction xs arbitrary: p a)
  case Nil
  then show ?case by (subst consistent_chain.simps) simp
next
  case (Cons x xs)
  have a: "a = x" "x \<noteq> 0" and d: "bseg (h_next t) (h_prev t) x (h_next t x) xs q 0" using Cons.prems(1) by auto
  have "h_next t x = 0 \<or> h_prev t (h_next t x) = x" using d by (cases xs) auto
  then show ?case
    using a Cons.IH [OF d] Cons.prems(2) by (subst consistent_chain.simps) (simp add: Let_def)
qed

lemma consistent_buckets_ok:
  assumes "hashed t L"
  shows "consistent_buckets t is = Some (sum_list (map (\<lambda>i. length (L i)) is), True)"
proof (induction "is")
  case Nil
  then show ?case by simp
next
  case (Cons i js)
  obtain q where "bseg (h_next t) (h_prev t) 0 (table t i) (L i) q 0"
    using layoutD(1) assms by (metis hashed_def)
  then have "consistent_chain t i (table t i) = Some (length (L i), True)"
    using placedD [of t L _ i] assms by (intro consistent_chain_ok) (auto simp: hashed_def)
  then show ?case using Cons by simp
qed

lemma card_elements:
  assumes "hashed t L"
  shows "sum_list (map (\<lambda>i. length (L i)) [0..<unat (table_max t)]) = length (syms t)"
proof -
  have t: "table_max t \<noteq> 0" "layout t L" "placed t L" "bij_betw (h_el t) (elements L) {..<length (syms t)}"
    using assms by (simp_all add: hashed_def)
  let ?n = "unat (table_max t)"
  have "elements L = (\<Union>i \<in> {..<?n}. set (L i))"
  proof -
    have "x \<in> set (L h) \<Longrightarrow> h < ?n" for x h
      using placed_small [OF t(3, 1), of h] by (cases "h < ?n") simp_all
    then show ?thesis by (auto simp: elements_def)
  qed
  then have "card (elements L) = (\<Sum>i<?n. card (set (L i)))"
    using layoutD(3) [OF t(2)] by (simp add: card_UN_disjoint)
  also have "\<dots> = (\<Sum>i<?n. length (L i))" using layoutD(2) [OF t(2)] by (simp add: distinct_card)
  also have "\<dots> = sum_list (map (\<lambda>i. length (L i)) [0..<?n])"
    by (simp add: sum_list_distinct_conv_sum_set atLeast0LessThan)
  finally show ?thesis using bij_betw_same_card [OF t(4)] by simp
qed

lemma xref_ok_consistent:
  assumes "xref_ok t" "length (syms t) < 2 ^ 32"
  shows "is_consistent_hashElmts t = Some True"
proof -
  obtain L where L: "hashed t L" using assms(1) by (auto simp: xref_ok_def)
  have "unat (entry_cnt t) = length (syms t)"
    using assms by (simp add: xref_ok_def unat_of_nat take_bit_nat_eq_self)
  then show ?thesis
    by (simp add: is_consistent_hashElmts_def consistent_buckets_ok [OF L] card_elements [OF L])
qed

end
