(* ===== verification/Xref_Table_Rename.thy ===== *)
theory Xref_Table_Rename
  imports Xref_Table_Restore
begin

text \<open>
  A symbol gets a new name: its characters go to the end of the symbol file, and its hash element
  to the bucket of the new hash value. The code computes that bucket from the bytes of the hash
  value in the order of the network, which is the right one on a big endian machine only.
\<close>

lemma find_hashElmt_chain:
  assumes "seg (h_next t) a (us @ x # vs) 0" "h_el t x = i" "\<forall>y \<in> set us. h_el t y \<noteq> i"
  shows "find_hashElmt t i a = Some (Some x)"
  using assms
proof (induction us arbitrary: a)
  case Nil
  then show ?case by (subst find_hashElmt.simps) simp
next
  case (Cons u us)
  then show ?case by (subst find_hashElmt.simps) auto
qed

text \<open>The table after the name and the hash value have changed, before its element moves.\<close>

definition named :: "nat \<Rightarrow> string \<Rightarrow> xtab \<Rightarrow> xtab" where
  "named i ns t = t\<lparr>names := names t @ ns @ [NUL],
     syms := (syms t)[i := (syms t ! i)\<lparr>hash_val := Mhash (table_max t) ns, name_offset := length (names t)\<rparr>]\<rparr>"

lemma named_fields [simp]:
  "table_max (named i ns t) = table_max t" "h_el (named i ns t) = h_el t" "h_next (named i ns t) = h_next t"
  "h_prev (named i ns t) = h_prev t" "table (named i ns t) = table t" "h_free (named i ns t) = h_free t"
  "length (syms (named i ns t)) = length (syms t)" "entry_cnt (named i ns t) = entry_cnt t"
  "symbolIndex_table (named i ns t) = symbolIndex_table t" "writable (named i ns t) = writable t"
  by (simp_all add: named_def)

lemma update_name_step:
  assumes h: "hashed t L" and w: "writable t" and i: "i < length (syms t)"
  shows "\<exists>x us vs b. b = unat (Mhash (table_max t) (get_name t i) mod table_max t) \<and>
    L b = us @ x # vs \<and> h_el t x = i \<and>
    update_name le i ns t = Some (Some i,
      link_first (unat (ntohl le (Mhash (table_max t) ns) mod table_max t)) x (unlink_hashElmt b x (named i ns t)))"
proof -
  have t: "table_max t \<noteq> 0" "layout t L" "placed t L" "bij_betw (h_el t) (elements L) {..<length (syms t)}"
    using h by (simp_all add: hashed_def)
  obtain x where x: "x \<in> elements L" "h_el t x = i"
    using t(4) i by (metis bij_betw_iff_bijections lessThan_iff)
  then obtain b where b: "x \<in> set (L b)" by (auto simp: elements_def)
  have bh: "b = unat (Mhash (table_max t) (get_name t i) mod table_max t)"
    using placedD(3) [OF t(3) b] x(2) by simp
  obtain us vs where L: "L b = us @ x # vs" using b by (meson split_list)
  have "inj_on (h_el t) (elements L)" using t(4) by (simp add: bij_betw_def)
  moreover have "set us \<subseteq> elements L"
  proof
    fix y assume "y \<in> set us"
    then have "y \<in> set (L b)" using L by simp
    then show "y \<in> elements L" by (rule in_elements)
  qed
  moreover have "x \<notin> set us" using L layoutD(2) [OF t(2), of b] by simp
  ultimately have "\<forall>y \<in> set us. h_el t y \<noteq> i" using x by (metis inj_onD subsetD)
  then have f: "find_hashElmt t i (table t b) = Some (Some x)"
    using layout_chain [OF t(2), of b] L x(2) find_hashElmt_chain by metis
  have "update_name le i ns t = Some (Some i,
      link_first (unat (ntohl le (Mhash (table_max t) ns) mod table_max t)) x (unlink_hashElmt b x (named i ns t)))"
    using w t(1) f bh
    by (simp add: update_name_def bucket_def Let_def update_sym_addr_offset_def insert_xrefSymbol_name_def
        named_def)
  then show ?thesis using L x(2) bh by blast
qed

lemma named_names:
  assumes "names_ok t" "NUL \<notin> set ns" "i < length (syms t)"
  shows "names_ok (named i ns t)" "get_name (named i ns t) i = ns"
    "j \<noteq> i \<Longrightarrow> j < length (syms t) \<Longrightarrow> get_name (named i ns t) j = get_name t j"
    "listing (named i ns t) = (listing t)[i := (kind (syms t ! i), ns, has_def_file (syms t ! i))]"
proof -
  let ?u = "named i ns t"
  have other: "get_name ?u j = get_name t j" "NUL \<in> set (drop (name_offset (syms ?u ! j)) (names ?u))"
    if "j \<noteq> i" "j < length (syms t)" for j
    using assms(1) that get_name_appended [of ?u t "ns @ [NUL]" j] by (simp_all add: names_ok_def named_def)
  have own: "get_name ?u i = ns" "NUL \<in> set (drop (name_offset (syms ?u ! i)) (names ?u))"
    using c_str_terminated [OF assms(2), of "[]"] assms(3) by (simp_all add: get_name_def named_def)
  show "names_ok ?u" using other(2) own(2) unfolding names_ok_def by (metis named_fields(7))
  show "get_name ?u i = ns" by (rule own)
  show "j \<noteq> i \<Longrightarrow> j < length (syms t) \<Longrightarrow> get_name ?u j = get_name t j" by (rule other)
  show "listing ?u = (listing t)[i := (kind (syms t ! i), ns, has_def_file (syms t ! i))]"
  proof (rule nth_equalityI)
    fix j assume "j < length (listing ?u)"
    then have j: "j < length (syms ?u)" "j < length (syms t)" by simp_all
    have "kind (syms ?u ! j) = kind (syms t ! j)" "has_def_file (syms ?u ! j) = has_def_file (syms t ! j)"
      using j by (cases "j = i"; simp add: named_def)+
    then show "listing ?u ! j = (listing t)[i := (kind (syms t ! i), ns, has_def_file (syms t ! i))] ! j"
      using j own(1) other(1) [of j] by (cases "j = i") simp_all
  qed simp
qed

lemma named_layout: "layout t L \<Longrightarrow> layout (named i ns t) L"
  by (simp add: layout_def)

lemma moved_layout:
  assumes "layout t L" "L b = us @ x # vs" "x \<in> elements L"
  shows "layout (link_first c x (unlink_hashElmt b x t)) ((L(b := us @ vs))(c := x # (L(b := us @ vs)) c))"
    "elements ((L(b := us @ vs))(c := x # (L(b := us @ vs)) c)) = elements L"
proof -
  let ?M = "L(b := us @ vs)"
  have e: "elements ?M = elements L - {x}" using elements_unlink [OF assms(1, 2)] .
  show "layout (link_first c x (unlink_hashElmt b x t)) (?M(c := x # ?M c))"
    by (rule layout_link_first [OF layout_unlink [of t L b us x vs]]) (use assms e layout_nonzero [OF assms(1, 3)] in auto)
  show "elements (?M(c := x # ?M c)) = elements L"
    unfolding elements_link e using assms(3) by auto
qed

lemma update_name_refines:
  assumes ok: "xref_ok t" and w: "writable t" and i: "i < length (syms t)" and n: "NUL \<notin> set ns"
  shows "\<exists>t'. update_name False i ns t = Some (Some i, t') \<and> xref_ok t' \<and>
    listing t' = (listing t)[i := (kind (syms t ! i), ns, has_def_file (syms t ! i))]"
proof -
  obtain L where L: "hashed t L" and nm: "names_ok t" and cnt: "entry_cnt t = of_nat (length (syms t))"
      and ix: "\<forall>xs. symbolIndex_table t = Some xs \<longrightarrow> length xs = length (syms t) + 1"
    using ok by (auto simp: xref_ok_def)
  have t: "table_max t \<noteq> 0" "layout t L" "placed t L" "bij_betw (h_el t) (elements L) {..<length (syms t)}"
      "elements L \<subseteq> {..<h_free t}" "0 < h_free t"
    using L by (simp_all add: hashed_def)
  let ?c = "unat (Mhash (table_max t) ns mod table_max t)"
  let ?u = "named i ns t"
  obtain x us vs b where x: "L b = us @ x # vs" "h_el t x = i"
      "update_name False i ns t = Some (Some i, link_first ?c x (unlink_hashElmt b x ?u))"
    using update_name_step [OF L w i, of False ns] unfolding ntohl_def by auto
  define t' where "t' = link_first ?c x (unlink_hashElmt b x ?u)"
  define L' where "L' = (L(b := us @ vs))(?c := x # (L(b := us @ vs)) ?c)"
  have xe: "x \<in> elements L" using x(1) by (auto simp: elements_def intro: exI [of _ b])
  have lay: "layout t' L'" "elements L' = elements L"
    using moved_layout [OF named_layout [OF t(2)] x(1) xe, of ?c] unfolding t'_def L'_def by simp_all
  have c: "core t' = core ?u" by (simp add: t'_def)
  have f: "h_el t' = h_el t" "table_max t' = table_max t" "length (syms t') = length (syms t)" "h_free t' = h_free t"
    "entry_cnt t' = entry_cnt t" "symbolIndex_table t' = symbolIndex_table t"
    using core_fields [OF c] by simp_all
  have s: "syms t' = syms ?u" by (simp add: t'_def link_first_def unlink_hashElmt_def Let_def)
  have nm': "get_name t' j = (if j = i then ns else get_name t j)" if "j < length (syms t)" for j
    using core_syms(4) [OF c, of j] f(3) that named_names(2, 3) [OF nm n i] by simp
  have hv: "hash_val (syms t' ! j) = (if j = i then Mhash (table_max t) ns else hash_val (syms t ! j))"
    if "j < length (syms t)" for j
    using that by (simp add: s named_def nth_list_update)
  have inj: "inj_on (h_el t) (elements L)" using t(4) by (simp add: bij_betw_def)
  have "placed t' L'"
    unfolding placed_def
  proof (intro allI ballI)
    fix h y assume y: "y \<in> set (L' h)"
    have ye: "y \<in> elements L" using y lay(2) in_elements by metis
    show "h_el t' y < length (syms t') \<and> hash_val (syms t' ! h_el t' y) = Mhash (table_max t') (get_name t' (h_el t' y)) \<and>
        unat (hash_val (syms t' ! h_el t' y) mod table_max t') = h"
    proof (cases "y = x")
      case True
      have "x \<notin> set (us @ vs)" "b \<noteq> h \<Longrightarrow> x \<notin> set (L h)"
        using layoutD(2) [OF t(2), of b] layoutD(3) [OF t(2), of b h] x(1) by auto
      then have "h = ?c" using y True unfolding L'_def by (auto split: if_splits)
      then show ?thesis using True x(2) i by (simp add: f hv nm')
    next
      case False
      then have "h_el t y \<noteq> i" using inj ye xe x(2) by (metis inj_onD)
      moreover have "y \<in> set (L h)" using y False x(1) unfolding L'_def by (auto split: if_splits)
      ultimately show ?thesis using placedD [OF t(3)] by (simp add: f hv nm')
    qed
  qed
  then have "hashed t' L'" using t lay by (simp add: hashed_def f)
  moreover have "names_ok t'" using core_names_ok [OF c] named_names(1) [OF nm n i] by simp
  ultimately have "xref_ok t'" unfolding xref_ok_def f using cnt ix by blast
  moreover have "listing t' = (listing t)[i := (kind (syms t ! i), ns, has_def_file (syms t ! i))]"
    using core_listing [OF c] named_names(4) [OF nm n i] by simp
  ultimately show ?thesis using x(3) t'_def by blast
qed

section \<open>The other byte order\<close>

lemma lookup_hits_bucket:
  assumes "seg (h_next t) a xs 0"
  shows "\<exists>hits. lookup_hits t dfn k name f a = Some hits \<and> set hits \<subseteq> h_el t ` set xs"
  using assms
proof (induction xs arbitrary: a)
  case Nil
  then show ?case by (subst lookup_hits.simps) simp
next
  case (Cons x xs)
  then have a: "a = x" "x \<noteq> 0" "seg (h_next t) (h_next t x) xs 0" by auto
  then obtain hits where "lookup_hits t dfn k name f (h_next t x) = Some hits" "set hits \<subseteq> h_el t ` set xs"
    using Cons.IH by blast
  then show ?case using a by (subst lookup_hits.simps) (auto simp: Let_def)
qed

lemma lookup_in_bucket:
  assumes "layout t L" "table_max t \<noteq> 0"
  shows "\<exists>new r. xref_lookup t dfn res k name f = Some (res @ new, r) \<and>
    set new \<subseteq> h_el t ` set (L (unat (Mhash (table_max t) name mod table_max t)))"
proof -
  let ?b = "unat (Mhash (table_max t) name mod table_max t)"
  obtain hits where h: "lookup_hits t dfn k name f (table t ?b) = Some hits" "set hits \<subseteq> h_el t ` set (L ?b)"
    using lookup_hits_bucket [OF layout_chain [OF assms(1)]] by blast
  show ?thesis
  proof (cases "case f of None \<Rightarrow> None | Some f \<Rightarrow> find (\<lambda>i. has_def_file (syms t ! i) \<and> dfn i = Some f) hits")
    case None
    then show ?thesis using h assms(2)
      by (cases "hits = []") (auto simp: xref_lookup_def bucket_def Let_def intro: exI [of _ "[]"])
  next
    case (Some i)
    then have "i \<in> set hits" by (auto split: option.splits simp: find_Some_iff in_set_conv_nth)
    then show ?thesis using h assms(2) Some
      by (cases "hits = []") (auto simp: xref_lookup_def bucket_def Let_def intro: exI [of _ "[i]"])
  qed
qed

lemma update_name_loses:
  assumes ok: "xref_ok t" and w: "writable t" and i: "i < length (syms t)" and n: "NUL \<notin> set ns"
    and bytes: "ntohl True (Mhash (table_max t) ns) mod table_max t \<noteq> Mhash (table_max t) ns mod table_max t"
  shows "\<exists>t'. update_name True i ns t = Some (Some i, t') \<and> get_name t' i = ns \<and>
    kind (syms t' ! i) = kind (syms t ! i) \<and>
    (\<forall>dfn k f. \<exists>new r. xref_lookup t' dfn [] k ns f = Some (new, r) \<and> i \<notin> set new)"
proof -
  obtain L where L: "hashed t L" and nm: "names_ok t" using ok by (auto simp: xref_ok_def)
  have t: "table_max t \<noteq> 0" "layout t L" "placed t L" "bij_betw (h_el t) (elements L) {..<length (syms t)}"
    using L by (simp_all add: hashed_def)
  let ?h = "unat (Mhash (table_max t) ns mod table_max t)"
  let ?c = "unat (ntohl True (Mhash (table_max t) ns) mod table_max t)"
  let ?u = "named i ns t"
  obtain x us vs b where x: "L b = us @ x # vs" "h_el t x = i"
      "update_name True i ns t = Some (Some i, link_first ?c x (unlink_hashElmt b x ?u))"
    using update_name_step [OF L w i, of True ns] by auto
  define t' where "t' = link_first ?c x (unlink_hashElmt b x ?u)"
  define L' where "L' = (L(b := us @ vs))(?c := x # (L(b := us @ vs)) ?c)"
  have xe: "x \<in> elements L" using x(1) by (auto simp: elements_def intro: exI [of _ b])
  have lay: "layout t' L'" "elements L' = elements L"
    using moved_layout [OF named_layout [OF t(2)] x(1) xe, of ?c] unfolding t'_def L'_def by simp_all
  have c: "core t' = core ?u" by (simp add: t'_def)
  have f: "h_el t' = h_el t" "table_max t' = table_max t" using core_fields [OF c] by simp_all
  have "?c \<noteq> ?h" using bytes by (simp add: word_unat_eq_iff)
  then have "x \<notin> set (L' ?h)"
    using layoutD(2) [OF t(2), of b] layoutD(3) [OF t(2), of b ?h] x(1) unfolding L'_def by auto
  moreover have "inj_on (h_el t) (elements L)" using t(4) by (simp add: bij_betw_def)
  ultimately have "i \<notin> h_el t ` set (L' ?h)"
    using x(2) xe lay(2) in_elements by (metis (no_types, lifting) imageE inj_onD)
  moreover have "table_max t' \<noteq> 0" using t(1) f(2) by simp
  ultimately have "\<exists>new r. xref_lookup t' dfn [] k ns f = Some (new, r) \<and> i \<notin> set new" for dfn k f
    using lookup_in_bucket [OF lay(1), of dfn "[]" k ns f] f by auto
  moreover have "get_name t' i = ns" "kind (syms t' ! i) = kind (syms t ! i)"
    using core_syms(2, 4) [OF c, of i] core_fields(12) [OF c] i named_names(2) [OF nm n i]
    by (simp_all add: named_def)
  moreover have "update_name True i ns t = Some (Some i, t')" using x(3) by (simp add: t'_def)
  ultimately show ?thesis by (intro exI [of _ t']) simp
qed

text \<open>In either byte order the files are right: the symbol has its name, and the hash value of it.\<close>

lemma update_name_file:
  assumes ok: "xref_ok t" and w: "writable t" and i: "i < length (syms t)" and n: "NUL \<notin> set ns"
  shows "\<exists>t'. update_name le i ns t = Some (Some i, t') \<and> table_max t' \<noteq> 0 \<and> names_ok t' \<and>
    entry_cnt t' = of_nat (length (syms t')) \<and>
    (\<forall>j < length (syms t'). hash_val (syms t' ! j) = Mhash (table_max t') (get_name t' j)) \<and>
    listing t' = (listing t)[i := (kind (syms t ! i), ns, has_def_file (syms t ! i))]"
proof -
  obtain L where L: "hashed t L" and nm: "names_ok t" and cnt: "entry_cnt t = of_nat (length (syms t))"
    using ok by (auto simp: xref_ok_def)
  have tm: "table_max t \<noteq> 0" using L by (simp add: hashed_def)
  let ?u = "named i ns t"
  obtain x us vs b where up: "update_name le i ns t = Some (Some i,
      link_first (unat (ntohl le (Mhash (table_max t) ns) mod table_max t)) x (unlink_hashElmt b x ?u))"
    using update_name_step [OF L w i, of le ns] by auto
  define t' where "t' = link_first (unat (ntohl le (Mhash (table_max t) ns) mod table_max t)) x (unlink_hashElmt b x ?u)"
  have c: "core t' = core ?u" by (simp add: t'_def)
  have f: "table_max t' = table_max t" "length (syms t') = length (syms t)" "entry_cnt t' = entry_cnt t"
    using core_fields [OF c] by simp_all
  have s: "syms t' = syms ?u" by (simp add: t'_def link_first_def unlink_hashElmt_def Let_def)
  have "hash_val (syms t' ! j) = Mhash (table_max t') (get_name t' j)" if j: "j < length (syms t')" for j
  proof -
    have g: "get_name t' j = get_name ?u j" using core_syms(4) [OF c j] .
    show ?thesis
    proof (cases "j = i")
      case True
      then show ?thesis using g i named_names(2) [OF nm n i] by (simp add: s f named_def)
    next
      case False
      then show ?thesis
        using g j f(2) named_names(3) [OF nm n i False] xref_ok_hash [OF ok, of j] by (simp add: s f(1)) (simp add: named_def)
    qed
  qed
  moreover have "names_ok t'" using core_names_ok [OF c] named_names(1) [OF nm n i] by simp
  moreover have "listing t' = (listing t)[i := (kind (syms t ! i), ns, has_def_file (syms t ! i))]"
    using core_listing [OF c] named_names(4) [OF nm n i] by simp
  ultimately show ?thesis using up t'_def tm cnt f by (intro exI [of _ t']) simp
qed

end
