(* ===== verification/Xref_Properties.thy ===== *)
theory Xref_Properties
  imports Xref_Table_Rename
begin

text \<open>
  The properties of the symbol table: a lookup through the hash table is a scan of the symbols, new
  symbols and new names keep the table right however it grows, a table that was written is read
  back, and what goes wrong with names that end in a space and with the byte order of the machine.
\<close>

lemma xref_ok_reset: "xref_ok reset_pmod" "can_grow reset_pmod" "listing reset_pmod = []" "syms reset_pmod = []"
proof -
  have "hashed reset_pmod (\<lambda>_. [])"
    by (simp add: hashed_def reset_pmod_def TABLE_MAX_def layout_def placed_def elements_def bij_betw_def)
  then show "xref_ok reset_pmod" by (auto simp: xref_ok_def names_ok_def reset_pmod_def)
qed (simp_all add: reset_pmod_def can_grow_def listing_def)

text \<open>C23: lookup through the hash table gives what testing every symbol of the index file gives.\<close>

theorem lookup_is_scan:
  assumes "xref_ok t"
  shows "\<exists>hits. mset hits = mset (filter (confirm_is_symbol t dfn k name f) [0..<length (syms t)]) \<and>
    xref_lookup t dfn res k name f =
      (case (case f of None \<Rightarrow> None | Some fn \<Rightarrow> find (\<lambda>i. has_def_file (syms t ! i) \<and> dfn i = Some fn) hits) of
         Some i \<Rightarrow> Some (res @ [i], Some i)
       | None \<Rightarrow> Some (res @ hits, if hits = [] then None else Some (hd hits)))"
proof (cases f)
  case None
  then show ?thesis using lookup_scan [OF assms, of dfn k name res] by (auto simp: scan_def)
next
  case (Some fn)
  then show ?thesis using lookup_scan_file [OF assms, of dfn k name fn res] by (auto simp: scan_def)
qed

text \<open>C24: a new symbol is a new last entry, and the table, which may have grown, stays right.\<close>

theorem new_symbol_refines:
  assumes "xref_ok t" "can_grow t" "length (syms t) < XREF_LIMIT_SIZE" "NUL \<notin> set ns"
  shows "\<exists>t'. newSymbol k (length ns) ns t = Some (Some (length (syms t)), t') \<and> xref_ok t' \<and> can_grow t' \<and>
    listing t' = listing t @ [(k mod 2 ^ 8, ns, False)] \<and>
    (\<forall>dfn. length (syms t) \<in> set (scan t' dfn DD_UNKNOWN ns None) \<longleftrightarrow> \<not> space_last ns)"
proof -
  obtain t' where t': "newSymbol k (length ns) ns t = Some (Some (length (syms t)), t')" "xref_ok t'" "can_grow t'"
      "listing t' = listing t @ [(k mod 2 ^ 8, ns, False)]"
    using newSymbol_refines [OF assms, of k] by blast
  have n: "length (syms t') = length (syms t) + 1" using arg_cong [OF t'(4), of length] by simp
  then have "listing t' ! length (syms t) = (k mod 2 ^ 8, ns, False)" by (simp add: t'(4) nth_append del: nth_listing)
  then have "confirm_is_symbol t' dfn DD_UNKNOWN ns None (length (syms t)) \<longleftrightarrow> \<not> strcmp_name DD_UNKNOWN ns ns" for dfn
    using confirm_matches [of "length (syms t)" t' dfn DD_UNKNOWN ns] n by (simp add: matches_def del: nth_listing)
  then have "length (syms t) \<in> set (scan t' dfn DD_UNKNOWN ns None) \<longleftrightarrow> \<not> space_last ns" for dfn
    using n by (simp add: set_scan strcmp_name_refl dd_kinds)
  then show ?thesis using t' by blast
qed

text \<open>A fresh table with one symbol.\<close>

lemma one_symbol:
  assumes "NUL \<notin> set ns"
  shows "\<exists>t. newSymbol k (length ns) ns reset_pmod = Some (Some 0, t) \<and> xref_ok t \<and> can_grow t \<and>
    listing t = [(k mod 2 ^ 8, ns, False)] \<and> length (syms t) = 1 \<and> table_max t = 6113"
proof -
  have "length (syms reset_pmod) < XREF_LIMIT_SIZE" by (simp add: xref_ok_reset XREF_LIMIT_SIZE_def)
  note newSymbol_refines [OF xref_ok_reset(1, 2) this assms, of k]
    and grown = newSymbol_grown [OF xref_ok_reset(1, 2) this, of k ns]
  then obtain t where t: "newSymbol k (length ns) ns reset_pmod = Some (Some 0, t)" "xref_ok t" "can_grow t"
      "listing t = [(k mod 2 ^ 8, ns, False)]"
    by (auto simp: xref_ok_reset)
  have "table_max t = 6113"
    using grown t(1)
    by (auto simp: with_symbol_fields other_fields_def xref_ok_reset reset_pmod_def TABLE_MAX_def split: if_splits)
  moreover have "length (syms t) = 1" using arg_cong [OF t(4), of length] by simp
  ultimately show ?thesis using t by blast
qed

theorem lookup_is_scan_witness:
  "\<exists>t. newSymbol 9 2 ''ab'' reset_pmod = Some (Some 0, t) \<and>
     xref_lookup t (\<lambda>_. None) [] 9 ''a b'' None = Some ([0], Some 0) \<and> xref_lookup t (\<lambda>_. None) [] 9 ''b'' None = Some ([], None)"
proof -
  obtain t where t: "newSymbol 9 2 ''ab'' reset_pmod = Some (Some 0, t)" "xref_ok t" "listing t = [(9, ''ab'', False)]"
      "length (syms t) = 1"
    using one_symbol [of "''ab''" 9] by (auto simp flip: numeral_2_eq_2)
  have c: "confirm_is_symbol t (\<lambda>_. None) 9 n None 0 \<longleftrightarrow> matches 9 n (9, ''ab'', False)" for n
    using confirm_matches [of 0 t "\<lambda>_. None" 9 n] t(3, 4) by (simp del: nth_listing)
  have yes: "filter (confirm_is_symbol t (\<lambda>_. None) 9 ''a b'' None) [0..<length (syms t)] = [0]"
    and no: "filter (confirm_is_symbol t (\<lambda>_. None) 9 ''b'' None) [0..<length (syms t)] = []"
    by (simp_all add: t(4) c matches_def strcmp_name_def dd_kinds)
  obtain h where "mset h = mset [0]" "xref_lookup t (\<lambda>_. None) [] 9 ''a b'' None = Some (h, if h = [] then None else Some (hd h))"
    using lookup_is_scan [OF t(2), of "\<lambda>_. None" 9 "''a b''" None "[]"] yes by auto
  moreover obtain h' where "mset h' = mset []" "xref_lookup t (\<lambda>_. None) [] 9 ''b'' None = Some (h', if h' = [] then None else Some (hd h'))"
    using lookup_is_scan [OF t(2), of "\<lambda>_. None" 9 "''b''" None "[]"] no by auto
  ultimately show ?thesis using t(1) by auto
qed

theorem new_symbol_refines_witness:
  "\<exists>t. newSymbol 9 2 ''ab'' reset_pmod = Some (Some 0, t) \<and> listing t = [(9, ''ab'', False)]"
proof -
  have "length (syms reset_pmod) < XREF_LIMIT_SIZE" by (simp add: xref_ok_reset XREF_LIMIT_SIZE_def)
  from new_symbol_refines [OF xref_ok_reset(1, 2) this, of "''ab''" 9]
  show ?thesis by (auto simp: xref_ok_reset simp flip: numeral_2_eq_2)
qed

text \<open>Inserting a symbol that is there already returns it and changes nothing.\<close>

theorem insert_symbol_twice:
  assumes "xref_ok t" "can_grow t" "length (syms t) < XREF_LIMIT_SIZE" "NUL \<notin> set ns" "k < 256"
    "k \<in> {DD_STRING, DD_MODULE, DD_PROJECT} \<or> \<not> space_last ns"
  shows "\<exists>i t'. insert_symbol dfn k (length ns) ns t = Some (Some i, t') \<and>
    insert_symbol dfn k (length ns) ns t' = Some (Some i, t') \<and> matches k ns (listing t' ! i)"
proof -
  obtain i t' where it: "insert_symbol dfn k (length ns) ns t = Some (Some i, t')" "xref_ok t'" "can_grow t'"
      "if \<exists>e \<in> set (listing t). matches k ns e
       then t' = t \<and> i < length (syms t) \<and> matches k ns (listing t ! i)
       else i = length (syms t) \<and> listing t' = listing t @ [(k mod 2 ^ 8, ns, False)]"
    using insert_symbol_refines [OF assms(1-4), of dfn k] by blast
  have own: "matches k ns (k mod 2 ^ 8, ns, False)"
    using assms(5, 6) by (auto simp: matches_def strcmp_name_refl)
  show ?thesis
  proof (cases "\<exists>e \<in> set (listing t). matches k ns e")
    case True
    then have "t' = t" "matches k ns (listing t' ! i)" using it(4) by auto
    then show ?thesis using it(1) by blast
  next
    case False
    then have l: "i = length (syms t)" "listing t' = listing t @ [(k mod 2 ^ 8, ns, False)]" using it(4) by auto
    have n: "length (syms t') = Suc i" using arg_cong [OF l(2), of length] l(1) by simp
    have m: "matches k ns (listing t' ! i)" using own l by (simp add: nth_append del: nth_listing)
    have "\<not> matches k ns (listing t' ! j)" if "j < i" for j
      using False that l by (auto simp: nth_append simp del: nth_listing)
    then have "scan t' dfn k ns None = [i]"
      using n m confirm_matches [of _ t' dfn k ns] by (simp add: scan_def del: nth_listing)
    moreover obtain new where "mset new = mset (scan t' dfn k ns None)"
        "xref_lookup t' dfn [] k ns None = Some (new, if new = [] then None else Some (hd new))"
      using lookup_scan [OF it(2), of dfn k ns "[]"] by auto
    ultimately have "insert_symbol dfn k (length ns) ns t' = Some (Some i, t')" by (simp add: insert_symbol_def)
    then show ?thesis using it(1) m by blast
  qed
qed

theorem insert_symbol_twice_witness:
  "\<exists>t. insert_symbol (\<lambda>_. None) 9 3 ''a b'' reset_pmod = Some (Some 0, t) \<and>
       insert_symbol (\<lambda>_. None) 9 3 ''a b'' t = Some (Some 0, t)"
proof -
  have "length (syms reset_pmod) < XREF_LIMIT_SIZE" by (simp add: xref_ok_reset XREF_LIMIT_SIZE_def)
  from insert_symbol_twice [OF xref_ok_reset(1, 2) this, of "''a b''" 9 "\<lambda>_. None"]
  obtain i t where t: "insert_symbol (\<lambda>_. None) 9 3 ''a b'' reset_pmod = Some (Some i, t)"
      "insert_symbol (\<lambda>_. None) 9 3 ''a b'' t = Some (Some i, t)"
    by (auto simp flip: numeral_3_eq_3)
  have "insert_symbol (\<lambda>_. None) 9 3 ''a b'' reset_pmod = newSymbol 9 3 ''a b'' reset_pmod"
    using lookup_scan [OF xref_ok_reset(1), of "\<lambda>_. None" 9 "''a b''" "[]"]
    by (auto simp: insert_symbol_def scan_def xref_ok_reset)
  moreover obtain t' where "newSymbol 9 3 ''a b'' reset_pmod = Some (Some 0, t')"
    using one_symbol [of "''a b''" 9] by (auto simp flip: numeral_3_eq_3)
  ultimately show ?thesis using t by auto
qed

text \<open>A symbol whose name ends in a space is never found, and every insertion makes another one.\<close>

theorem trailing_space_never_found:
  assumes "xref_ok t" "can_grow t" "length (syms t) < XREF_LIMIT_SIZE - 1" "NUL \<notin> set ns"
    "k \<notin> {DD_STRING, DD_MODULE, DD_PROJECT}" "space_last ns"
  shows "\<exists>t1 t2. insert_symbol dfn k (length ns) ns t = Some (Some (length (syms t)), t1) \<and>
    insert_symbol dfn k (length ns) ns t1 = Some (Some (length (syms t) + 1), t2) \<and>
    xref_lookup t2 dfn [] k ns None = Some ([], None)"
proof -
  have no: "\<not> matches k ns e" for e
    using assms(5, 6) same_name_iff [of ns "fst (snd e)"] by (auto simp: matches_def strcmp_name_def)
  have step: "\<exists>u. insert_symbol dfn k (length ns) ns s = Some (Some (length (syms s)), u) \<and> xref_ok u \<and> can_grow u \<and>
      length (syms u) = length (syms s) + 1"
    if s: "xref_ok s" "can_grow s" "length (syms s) < XREF_LIMIT_SIZE" for s
  proof -
    obtain i u where u: "insert_symbol dfn k (length ns) ns s = Some (Some i, u)" "xref_ok u" "can_grow u"
        "i = length (syms s)" "listing u = listing s @ [(k mod 2 ^ 8, ns, False)]"
      using insert_symbol_refines [OF s assms(4), of dfn k] no by (auto split: if_splits)
    moreover have "length (syms u) = length (syms s) + 1" using arg_cong [OF u(5), of length] by simp
    ultimately show ?thesis by blast
  qed
  have lim: "length (syms t) < XREF_LIMIT_SIZE" using assms(3) by simp
  obtain t1 where t1: "insert_symbol dfn k (length ns) ns t = Some (Some (length (syms t)), t1)" "xref_ok t1" "can_grow t1"
      "length (syms t1) = length (syms t) + 1"
    using step [OF assms(1, 2) lim] by blast
  have lim1: "length (syms t1) < XREF_LIMIT_SIZE" using t1(4) assms(3) by simp
  obtain t2 where t2: "insert_symbol dfn k (length ns) ns t1 = Some (Some (length (syms t1)), t2)" "xref_ok t2"
    using step [OF t1(2, 3) lim1] by blast
  have "scan t2 dfn k ns None = []" using scan_empty no by blast
  then have "xref_lookup t2 dfn [] k ns None = Some ([], None)"
    using lookup_scan [OF t2(2), of dfn k ns "[]"] by auto
  then show ?thesis using t1 t2 by auto
qed

theorem trailing_space_never_found_witness:
  "\<exists>t1 t2. insert_symbol (\<lambda>_. None) 9 2 ''a '' reset_pmod = Some (Some 0, t1) \<and>
     insert_symbol (\<lambda>_. None) 9 2 ''a '' t1 = Some (Some 1, t2)"
proof -
  have "length (syms reset_pmod) < XREF_LIMIT_SIZE - 1" by (simp add: xref_ok_reset XREF_LIMIT_SIZE_def)
  from trailing_space_never_found [OF xref_ok_reset(1, 2) this, of "''a ''" 9 "\<lambda>_. None"]
  show ?thesis by (auto simp: xref_ok_reset dd_kinds simp flip: numeral_2_eq_2)
qed

text \<open>C27: on a big endian machine a symbol with a new name is the symbol of that name, in a table that
  is right.
\<close>

theorem rename_refines:
  assumes "xref_ok t" "writable t" "i < length (syms t)" "NUL \<notin> set ns"
  shows "\<exists>t'. update_name False i ns t = Some (Some i, t') \<and> xref_ok t' \<and>
    listing t' = (listing t)[i := (kind (syms t ! i), ns, has_def_file (syms t ! i))]"
  using update_name_refines [OF assms] .

theorem rename_refines_witness:
  "\<exists>t t'. newSymbol 9 2 ''ab'' reset_pmod = Some (Some 0, t) \<and> update_name False 0 ''xyz'' t = Some (Some 0, t') \<and>
     listing t' = [(9, ''xyz'', False)]"
proof -
  obtain t where t: "newSymbol 9 2 ''ab'' reset_pmod = Some (Some 0, t)" "xref_ok t" "can_grow t"
      "listing t = [(9, ''ab'', False)]" "length (syms t) = 1"
    using one_symbol [of "''ab''" 9] by (auto simp flip: numeral_2_eq_2)
  have s: "kind (syms t ! 0) = 9" "\<not> has_def_file (syms t ! 0)" using nth_listing [of 0 t] t(4, 5) by auto
  have "writable t" using t(3) by (simp add: can_grow_def)
  from rename_refines [OF t(2) this, of 0 "''xyz''"] show ?thesis using t(1, 4, 5) s by auto
qed

text \<open>C28: on a little endian machine a symbol with a new name is not found by that name, unless the
  bucket happens to be the same: the bucket is computed from the hash value with its bytes turned
  around once more.
\<close>

theorem rename_loses_symbol:
  assumes "xref_ok t" "writable t" "i < length (syms t)" "NUL \<notin> set ns"
    "ntohl True (Mhash (table_max t) ns) mod table_max t \<noteq> Mhash (table_max t) ns mod table_max t"
  shows "\<exists>t'. update_name True i ns t = Some (Some i, t') \<and> get_name t' i = ns \<and>
    kind (syms t' ! i) = kind (syms t ! i) \<and>
    (\<forall>dfn k f. \<exists>new r. xref_lookup t' dfn [] k ns f = Some (new, r) \<and> i \<notin> set new)"
  using update_name_loses [OF assms] .

theorem rename_loses_symbol_witness:
  "\<exists>t t'. newSymbol 9 2 ''ab'' reset_pmod = Some (Some 0, t) \<and> update_name True 0 ''xyz'' t = Some (Some 0, t') \<and>
     get_name t' 0 = ''xyz'' \<and> (\<exists>new r. xref_lookup t' (\<lambda>_. None) [] 9 ''xyz'' None = Some (new, r) \<and> 0 \<notin> set new)"
proof -
  obtain t where t: "newSymbol 9 2 ''ab'' reset_pmod = Some (Some 0, t)" "xref_ok t" "can_grow t" "length (syms t) = 1"
      and tm: "table_max t = 6113"
    using one_symbol [of "''ab''" 9] by (auto simp flip: numeral_2_eq_2)
  have w: "writable t" using t(3) by (simp add: can_grow_def)
  have "ntohl True (Mhash (table_max t) ''xyz'') mod table_max t \<noteq> Mhash (table_max t) ''xyz'' mod table_max t"
    by (simp add: tm Mhash_def ntohl_def)
  from rename_loses_symbol [OF t(2) w _ _ this, of 0] show ?thesis using t(1, 4) by auto
qed

text \<open>C26: reading the files of a table back gives a table that is right and has the same symbols, also
  after a renaming in either byte order: the hash value that is written is that of the new name.
\<close>

theorem written_table_restored:
  assumes "xref_ok t" "writable t" "i < length (syms t)" "NUL \<notin> set ns"
  shows "\<exists>t1 u u1. restore_table t = Some u \<and> xref_ok u \<and> listing u = listing t \<and>
    update_name le i ns t = Some (Some i, t1) \<and> restore_table t1 = Some u1 \<and> xref_ok u1 \<and>
    listing u1 = (listing t)[i := (kind (syms t ! i), ns, has_def_file (syms t ! i))]"
proof -
  have "table_max t \<noteq> 0" "names_ok t" "entry_cnt t = of_nat (length (syms t))"
    using assms(1) by (auto simp: xref_ok_def hashed_def)
  then obtain u where u: "restore_table t = Some u" "xref_ok u" "listing u = listing t"
    using restore_table_ok [of t] xref_ok_hash [OF assms(1)] by blast
  obtain t1 where t1: "update_name le i ns t = Some (Some i, t1)" "table_max t1 \<noteq> 0" "names_ok t1"
      "entry_cnt t1 = of_nat (length (syms t1))"
      "\<forall>j < length (syms t1). hash_val (syms t1 ! j) = Mhash (table_max t1) (get_name t1 j)"
      "listing t1 = (listing t)[i := (kind (syms t ! i), ns, has_def_file (syms t ! i))]"
    using update_name_file [OF assms, of le] by blast
  then obtain u1 where "restore_table t1 = Some u1" "xref_ok u1" "listing u1 = listing t1"
    using restore_table_ok [of t1] by blast
  then show ?thesis using u t1(1, 6) by auto
qed

theorem written_table_restored_witness:
  "\<exists>t t1 u1. newSymbol 9 2 ''ab'' reset_pmod = Some (Some 0, t) \<and> update_name True 0 ''xyz'' t = Some (Some 0, t1) \<and>
     restore_table t1 = Some u1 \<and> listing u1 = [(9, ''xyz'', False)]"
proof -
  obtain t where t: "newSymbol 9 2 ''ab'' reset_pmod = Some (Some 0, t)" "xref_ok t" "can_grow t"
      "listing t = [(9, ''ab'', False)]" "length (syms t) = 1"
    using one_symbol [of "''ab''" 9] by (auto simp flip: numeral_2_eq_2)
  have s: "kind (syms t ! 0) = 9" "\<not> has_def_file (syms t ! 0)" using nth_listing [of 0 t] t(4, 5) by auto
  have "writable t" using t(3) by (simp add: can_grow_def)
  from written_table_restored [OF t(2) this, of 0 "''xyz''" True]
  obtain t1 u1 where "update_name True 0 ''xyz'' t = Some (Some 0, t1)" "restore_table t1 = Some u1"
      "listing u1 = [(9, ''xyz'', False)]"
    using t(4, 5) s by auto
  then show ?thesis using t(1) by blast
qed

text \<open>The tables that a sequence of operations makes. A renaming is followed by reading the table back,
  unless the bucket that it computes is that of the new name (\<open>rename_fits\<close>), as it always is on a big
  endian machine.\<close>

definition rename_fits :: "bool \<Rightarrow> string \<Rightarrow> xtab \<Rightarrow> bool" where
  "rename_fits le ns t \<longleftrightarrow> ntohl le (Mhash (table_max t) ns) mod table_max t = Mhash (table_max t) ns mod table_max t"

lemma rename_fits_big_endian [simp]: "rename_fits False ns t"
  by (simp add: rename_fits_def ntohl_def)

lemma update_name_fits: "rename_fits le ns t \<Longrightarrow> update_name le i ns t = update_name False i ns t"
  by (auto simp: rename_fits_def update_name_def bucket_def ntohl_def Let_def update_sym_addr_offset_def
      insert_xrefSymbol_name_def split: Option.bind_split option.split)

inductive built :: "xtab \<Rightarrow> bool" where
  built_reset: "built reset_pmod"
| built_new: "built t \<Longrightarrow> can_grow t \<Longrightarrow> length (syms t) < XREF_LIMIT_SIZE \<Longrightarrow> NUL \<notin> set ns \<Longrightarrow>
    newSymbol k (length ns) ns t = Some (r, u) \<Longrightarrow> built u"
| built_insert: "built t \<Longrightarrow> can_grow t \<Longrightarrow> length (syms t) < XREF_LIMIT_SIZE \<Longrightarrow> NUL \<notin> set ns \<Longrightarrow>
    insert_symbol dfn k (length ns) ns t = Some (r, u) \<Longrightarrow> built u"
| built_rename: "built t \<Longrightarrow> writable t \<Longrightarrow> i < length (syms t) \<Longrightarrow> NUL \<notin> set ns \<Longrightarrow> rename_fits le ns t \<Longrightarrow>
    update_name le i ns t = Some (r, u) \<Longrightarrow> built u"
| built_rename_restore: "built t \<Longrightarrow> writable t \<Longrightarrow> i < length (syms t) \<Longrightarrow> NUL \<notin> set ns \<Longrightarrow>
    update_name le i ns t = Some (r, u) \<Longrightarrow> restore_table u = Some v \<Longrightarrow> built v"
| built_restore: "built t \<Longrightarrow> restore_table t = Some u \<Longrightarrow> built u"

lemma listing_length: "listing u = xs \<Longrightarrow> length (syms u) = length xs"
  using length_listing by metis

lemma built_ok: "built t \<Longrightarrow> xref_ok t \<and> length (syms t) \<le> XREF_LIMIT_SIZE"
proof (induction rule: built.induct)
  case built_reset
  then show ?case by (simp add: xref_ok_reset)
next
  case (built_new t ns k r u)
  then obtain t' where t': "newSymbol k (length ns) ns t = Some (Some (length (syms t)), t')" "xref_ok t'"
      "listing t' = listing t @ [(k mod 2 ^ 8, ns, False)]"
    using newSymbol_refines [of t ns k] by blast
  then show ?case using built_new listing_length [OF t'(3)] by simp
next
  case (built_insert t ns dfn k r u)
  then obtain i t' where t': "insert_symbol dfn k (length ns) ns t = Some (Some i, t')" "xref_ok t'"
      "t' = t \<or> listing t' = listing t @ [(k mod 2 ^ 8, ns, False)]"
    using insert_symbol_refines [of t ns dfn k] by metis
  have "length (syms t') = length (syms t) \<or> length (syms t') = length (syms t) + 1"
    using t'(3)
  proof
    assume "listing t' = listing t @ [(k mod 2 ^ 8, ns, False)]"
    from listing_length [OF this] show ?thesis by simp
  qed simp
  then show ?case using built_insert t' by auto
next
  case (built_rename_restore t i ns le r u v)
  then obtain t1 where t1: "update_name le i ns t = Some (Some i, t1)" "table_max t1 \<noteq> 0" "names_ok t1"
      "entry_cnt t1 = of_nat (length (syms t1))"
      "\<forall>j < length (syms t1). hash_val (syms t1 ! j) = Mhash (table_max t1) (get_name t1 j)"
      "listing t1 = (listing t)[i := (kind (syms t ! i), ns, has_def_file (syms t ! i))]"
    using update_name_file [of t i ns le] by blast
  have n: "length (syms t1) = length (syms t)" using listing_length [OF t1(6)] by simp
  obtain t2 where t2: "restore_table t1 = Some t2" "xref_ok t2" "listing t2 = listing t1"
    using restore_table_ok [of t1] t1(2-5) by blast
  have "length (syms t2) = length (syms t1)" using listing_length [OF t2(3)] by simp
  then show ?case using built_rename_restore t1(1) t2(1, 2) n by auto
next
  case (built_rename t i ns le r u)
  then obtain t' where t': "update_name False i ns t = Some (Some i, t')" "xref_ok t'"
      "listing t' = (listing t)[i := (kind (syms t ! i), ns, has_def_file (syms t ! i))]"
    using update_name_refines [of t i ns] by blast
  have "length (syms t') = length (syms t)" using listing_length [OF t'(3)] by simp
  then show ?case using built_rename t' update_name_fits [OF built_rename.hyps(5), of i] by auto
next
  case (built_restore t u)
  then have "table_max t \<noteq> 0" "names_ok t" "entry_cnt t = of_nat (length (syms t))"
    by (auto simp: xref_ok_def hashed_def)
  then obtain t' where t': "restore_table t = Some t'" "xref_ok t'" "listing t' = listing t"
    using restore_table_ok [of t] xref_ok_hash built_restore by blast
  have "length (syms t') = length (syms t)" using listing_length [OF t'(3)] by simp
  then show ?case using built_restore t' by auto
qed

text \<open>C25: whatever symbols are made, inserted, renamed on a big endian machine, or read back, the
  check of the hash table that the code has finds nothing wrong, and the operations return. On a little
  endian machine this holds for the renamings that come upon the right bucket, and for others when the
  table is read back before it is used again; else the renamed symbol is in a bucket where it is not found.
\<close>

theorem hash_table_consistent:
  assumes "built t" "NUL \<notin> set ns"
  shows "is_consistent_hashElmts t = Some True \<and>
    (can_grow t \<and> length (syms t) < XREF_LIMIT_SIZE \<longrightarrow>
       (\<exists>i u. insert_symbol dfn k (length ns) ns t = Some (Some i, u) \<and> is_consistent_hashElmts u = Some True)) \<and>
    (writable t \<and> i < length (syms t) \<longrightarrow>
       (\<exists>u v. update_name le i ns t = Some (Some i, u) \<and> (rename_fits le ns t \<longrightarrow> is_consistent_hashElmts u = Some True) \<and>
          restore_table u = Some v \<and> is_consistent_hashElmts v = Some True))"
proof -
  have small: "n \<le> XREF_LIMIT_SIZE \<Longrightarrow> n < 2 ^ 32" for n :: nat by (simp add: XREF_LIMIT_SIZE_def)
  have c: "is_consistent_hashElmts u = Some True" if "built u" for u
    using xref_ok_consistent [of u] built_ok [OF that] small by blast
  have "can_grow t \<Longrightarrow> length (syms t) < XREF_LIMIT_SIZE \<Longrightarrow>
       \<exists>i u. insert_symbol dfn k (length ns) ns t = Some (Some i, u) \<and> is_consistent_hashElmts u = Some True"
    using insert_symbol_refines [of t ns dfn k] built_ok [OF assms(1)] built_insert [OF assms(1)] c assms(2) by metis
  moreover have "\<exists>u v. update_name le i ns t = Some (Some i, u) \<and> (rename_fits le ns t \<longrightarrow> is_consistent_hashElmts u = Some True) \<and>
      restore_table u = Some v \<and> is_consistent_hashElmts v = Some True" if w: "writable t" "i < length (syms t)"
  proof -
    have "xref_ok t" using built_ok [OF assms(1)] by simp
    from update_name_file [OF this w assms(2), of le] obtain u where u: "update_name le i ns t = Some (Some i, u)"
        "table_max u \<noteq> 0" "names_ok u" "entry_cnt u = of_nat (length (syms u))"
        "\<forall>j < length (syms u). hash_val (syms u ! j) = Mhash (table_max u) (get_name u j)" by blast
    obtain v where v: "restore_table u = Some v" using restore_table_ok [of u] u(2-5) by blast
    have "is_consistent_hashElmts v = Some True" by (rule c [OF built_rename_restore [OF assms(1) w assms(2) u(1) v]])
    moreover have "rename_fits le ns t \<Longrightarrow> is_consistent_hashElmts u = Some True"
      by (rule c [OF built_rename [OF assms(1) w assms(2) _ u(1)]])
    ultimately show ?thesis using u(1) v by blast
  qed
  ultimately show ?thesis using c [OF assms(1)] by blast
qed

theorem hash_table_consistent_witness:
  "\<exists>i u. insert_symbol (\<lambda>_. None) 9 2 ''ab'' reset_pmod = Some (Some i, u) \<and> is_consistent_hashElmts u = Some True"
proof -
  have "length (syms reset_pmod) < XREF_LIMIT_SIZE" by (simp add: xref_ok_reset XREF_LIMIT_SIZE_def)
  with hash_table_consistent [OF built_reset, of "''ab''" "\<lambda>_. None" 9] xref_ok_reset(2)
  show ?thesis by (simp flip: numeral_2_eq_2)
qed

end
