(* ===== verification/Xref_Links.thy ===== *)
theory Xref_Links
  imports Xref_Table
begin

text \<open>
  The links of the symbols of a table (\<^verbatim>\<open>xrefSymbol.h.cxx\<close>, \<^verbatim>\<open>Link.h\<close>). The links that a symbol had
  when the table was opened are in the link file, up to a last link; the links made since are in an
  array of the symbol, which is read before the file. A link that is removed becomes junk, and its
  place is used again.
\<close>

section \<open>The places of links\<close>

datatype link_ref = In_array nat nat | In_file nat

definition lt_junk :: nat where "lt_junk = 2"
definition is_defining :: nat where "is_defining = 8"
definition is_defined_in :: nat where "is_defined_in = 9"
definition lt_lmd :: nat where "lt_lmd = 16"
definition lt_filetype :: nat where "lt_filetype = 18"
definition has_type :: nat where "has_type = 20"
definition type_has :: nat where "type_has = 21"
definition lt_lmdhigh :: nat where "lt_lmdhigh = 24"
definition lt_attribute :: nat where "lt_attribute = 25"

lemmas link_types = lt_junk_def is_defining_def is_defined_in_def lt_lmd_def lt_filetype_def has_type_def
  type_has_def lt_lmdhigh_def lt_attribute_def lt_last_def

definition mk_link :: "nat \<Rightarrow> nat \<Rightarrow> link" where
  "mk_link l idx = \<lparr>lt = l mod 2 ^ 8, link_index = idx mod 2 ^ 24\<rparr>"

definition get_reverse_link :: "nat \<Rightarrow> nat" where
  "get_reverse_link l = l XOR 1"

definition link_at :: "xtab \<Rightarrow> link_ref \<Rightarrow> link option" where
  "link_at t r =
     (case r of
        In_file n \<Rightarrow> if n < length (link_file t) then Some (link_file t ! n) else None
      | In_array si n \<Rightarrow> do { xs \<leftarrow> symbolIndex_table t; ls \<leftarrow> xs ! si;
                            if n < length ls then Some (ls ! n) else None })"

definition assign :: "link_ref \<Rightarrow> link \<Rightarrow> xtab \<Rightarrow> xtab" where
  "assign r l t =
     (case r of
        In_file n \<Rightarrow> t\<lparr>link_file := (link_file t)[n := l]\<rparr>
      | In_array si n \<Rightarrow>
          (case symbolIndex_table t of
             None \<Rightarrow> t
           | Some xs \<Rightarrow>
               (case xs ! si of
                  None \<Rightarrow> t
                | Some ls \<Rightarrow> t\<lparr>symbolIndex_table := Some (xs[si := Some (ls[n := l])])\<rparr>)))"

fun succ_ref :: "link_ref \<Rightarrow> link_ref" where
  "succ_ref (In_array si n) = In_array si (Suc n)"
| "succ_ref (In_file n) = In_file (Suc n)"

text \<open>An offset in the link file is in bytes; a link has four of them.\<close>

definition file_ref :: "int \<Rightarrow> link_ref option" where
  "file_ref off = (if off < 0 \<or> off mod 4 \<noteq> 0 then None else Some (In_file (nat (off div 4))))"

text \<open>The first element of an array that is empty is \<open>None\<close> here; no array of the table is.\<close>

definition get_start_link :: "nat \<Rightarrow> xtab \<Rightarrow> link_ref option" where
  "get_start_link sy t =
     (case symbolIndex_table t of
        None \<Rightarrow> file_ref (offset_to_start_link (syms t ! sy))
      | Some xs \<Rightarrow>
          (let si = symbol_index (syms t ! sy)
           in case xs ! si of
                None \<Rightarrow> file_ref (orig_link_offsets t ! si)
              | Some ls \<Rightarrow> if ls = [] then None else Some (In_array si 0)))"

definition get_next_link :: "link_ref \<Rightarrow> nat \<Rightarrow> xtab \<Rightarrow> link_ref option option" where
  "get_next_link lnk sy t =
     (case symbolIndex_table t of
        None \<Rightarrow> Some (Some (succ_ref lnk))
      | Some xs \<Rightarrow>
          (let si = symbol_index (syms t ! sy)
           in case xs ! si of
                None \<Rightarrow> Some (Some (succ_ref lnk))
              | Some ls \<Rightarrow>
                  if lnk \<noteq> In_array si (length ls - 1) then Some (Some (succ_ref lnk))
                  else do { l \<leftarrow> link_at t lnk;
                            if lt l \<noteq> lt_last then map_option Some (file_ref (orig_link_offsets t ! si))
                            else Some None }))"

text \<open>The loop over the links of a symbol that its operations have in common.\<close>

partial_function (option) links_from :: "nat \<Rightarrow> xtab \<Rightarrow> link_ref option \<Rightarrow> (link_ref \<times> link) list option" where
  "links_from sy t lnk =
     (case lnk of
        None \<Rightarrow> Some []
      | Some r \<Rightarrow> do { l \<leftarrow> link_at t r;
                     if lt l = lt_last then Some []
                     else do { nx \<leftarrow> get_next_link r sy t;
                               rest \<leftarrow> links_from sy t nx;
                               Some ((r, l) # rest) } })"

definition links_of :: "nat \<Rightarrow> xtab \<Rightarrow> (link_ref \<times> link) list option" where
  "links_of sy t = do { lnk \<leftarrow> get_start_link sy t; links_from sy t (Some lnk) }"

section \<open>Reading\<close>

text \<open>The symbol of a link: indexes count from 1.\<close>

definition get_symbol_of_link :: "link \<Rightarrow> nat" where
  "get_symbol_of_link l = link_index l - 1"

definition get_local_link_internal :: "nat \<Rightarrow> nat \<Rightarrow> xtab \<Rightarrow> nat list option" where
  "get_local_link_internal l sy t =
     do { ls \<leftarrow> links_of sy t;
          let found = map (get_symbol_of_link \<circ> snd) (filter (\<lambda>(r, k). lt k = l) ls)
          in Some (if l = is_defined_in then take 1 found else found) }"

definition has_link :: "nat \<Rightarrow> nat \<Rightarrow> nat \<Rightarrow> xtab \<Rightarrow> bool option" where
  "has_link l ref sy t =
     do { ls \<leftarrow> links_of sy t;
          Some (\<exists>(r, k) \<in> set ls. lt k = l \<and> symbol_index (syms t ! ref) = link_index k) }"

definition find_link :: "nat \<Rightarrow> nat \<Rightarrow> nat \<Rightarrow> xtab \<Rightarrow> link_ref option option" where
  "find_link l ref sy t =
     do { ls \<leftarrow> links_of sy t;
          Some (map_option fst (find (\<lambda>(r, k). lt k = l \<and>
            (l = lt_lmd \<or> l = lt_lmdhigh \<or> link_index k = symbol_index (syms t ! ref))) ls)) }"

definition get_link_offset :: "nat \<Rightarrow> nat \<Rightarrow> nat \<Rightarrow> xtab \<Rightarrow> int option" where
  "get_link_offset l count sy t =
     do { ls \<leftarrow> links_of sy t;
          let found = map (link_index \<circ> snd) (filter (\<lambda>(r, k). lt k = l) ls)
          in Some (if count < length found then int (found ! count) else -1) }"

section \<open>A place for a new link\<close>

definition unique_link :: "nat \<Rightarrow> bool" where
  "unique_link l \<longleftrightarrow> l = has_type"

definition num_link :: "nat \<Rightarrow> bool" where
  "num_link l \<longleftrightarrow> l = lt_lmd \<or> l = lt_lmdhigh \<or> l = lt_filetype \<or> l = lt_attribute"

datatype spot = Exists | Spot link_ref | No_spot

fun sym_spot :: "nat \<Rightarrow> nat \<Rightarrow> (link_ref \<times> link) list \<Rightarrow> link_ref option \<Rightarrow> spot" where
  "sym_spot l idx [] junk_link = (case junk_link of None \<Rightarrow> No_spot | Some r \<Rightarrow> Spot r)"
| "sym_spot l idx ((r, k) # ls) junk_link =
     (if lt k = l \<and> link_index k = idx then Exists
      else if lt k = l \<and> unique_link l then Spot r
      else sym_spot l idx ls (if lt k = lt_junk \<and> junk_link = None then Some r else junk_link))"

fun num_spot :: "link \<Rightarrow> (link_ref \<times> link) list \<Rightarrow> link_ref option \<Rightarrow> spot" where
  "num_spot lin [] junk_link = (case junk_link of None \<Rightarrow> No_spot | Some r \<Rightarrow> Spot r)"
| "num_spot lin ((r, k) # ls) junk_link =
     (if k = lin then Exists
      else if (num_link (lt lin) \<or> unique_link (lt lin)) \<and> lt k = lt lin then Spot r
      else num_spot lin ls (if lt k = lt_junk \<and> junk_link = None then Some r else junk_link))"

definition spot_place :: "nat \<Rightarrow> spot \<Rightarrow> xtab \<Rightarrow> (link_ref option \<times> xtab) option" where
  "spot_place sy p t =
     (case p of
        Exists \<Rightarrow> Some (None, t)
      | Spot r \<Rightarrow> Some (Some r, t)
      | No_spot \<Rightarrow>
          (let si = symbol_index (syms t ! sy)
           in do { (n, t) \<leftarrow> make_new_link si t;
                   Some (Some (In_array si n), assign (In_array si n) last_link t) }))"

definition get_spot_to_insert_link :: "nat \<Rightarrow> nat \<Rightarrow> nat \<Rightarrow> xtab \<Rightarrow> (link_ref option \<times> xtab) option" where
  "get_spot_to_insert_link l ref sy t =
     do { ls \<leftarrow> links_of sy t; spot_place sy (sym_spot l (symbol_index (syms t ! ref)) ls None) t }"

definition get_spot_to_insert_num :: "link \<Rightarrow> nat \<Rightarrow> xtab \<Rightarrow> (link_ref option \<times> xtab) option" where
  "get_spot_to_insert_num lin sy t =
     do { ls \<leftarrow> links_of sy t; spot_place sy (num_spot lin ls None) t }"

section \<open>Numeric links: the date of a file\<close>

definition add_num_link :: "nat \<Rightarrow> nat \<Rightarrow> nat \<Rightarrow> xtab \<Rightarrow> xtab option" where
  "add_num_link l n sy t =
     (if \<not> writable t then Some t
      else do { let t = t\<lparr>need_to_mv := True\<rparr>;
                (lnk, t) \<leftarrow> get_spot_to_insert_num (mk_link l n) sy t;
                Some (case lnk of None \<Rightarrow> t | Some r \<Rightarrow> assign r (mk_link l n) t) })"

definition rm_num_link :: "nat \<Rightarrow> nat \<Rightarrow> xtab \<Rightarrow> xtab option" where
  "rm_num_link l sy t =
     (if \<not> writable t then Some t
      else do { ls \<leftarrow> links_of sy t;
                Some (case find (\<lambda>(r, k). lt k = l) ls of
                        None \<Rightarrow> t
                      | Some (r, k) \<Rightarrow> assign r (mk_link lt_junk 0) (t\<lparr>need_to_mv := True\<rparr>)) })"

definition get_last_mod_date :: "nat \<Rightarrow> xtab \<Rightarrow> int option" where
  "get_last_mod_date sy t =
     do { high \<leftarrow> get_link_offset lt_lmdhigh 0 sy t;
          low \<leftarrow> get_link_offset lt_lmd 0 sy t;
          if high = -1 \<and> low = -1 then Some 0
          else let high = (if high = -1 then if low > 0x070000 then 0x2b else 0x2c else high);
                   low = (if high = 0 \<and> low = 0 then 1 else low)
               in Some (low mod 2 ^ 24 + high * 2 ^ 24) }"

fun clear_dates :: "nat \<Rightarrow> nat \<Rightarrow> xtab \<Rightarrow> xtab option" where
  "clear_dates i sy t =
     do { date \<leftarrow> get_last_mod_date sy t;
          if date = 0 then Some t
          else case i of
                 0 \<Rightarrow> Some t
               | Suc i \<Rightarrow> do { t \<leftarrow> rm_num_link lt_lmd sy t; t \<leftarrow> rm_num_link lt_lmdhigh sy t; clear_dates i sy t } }"

declare clear_dates.simps [simp del]

definition set_last_mod_date :: "nat \<Rightarrow> nat \<Rightarrow> xtab \<Rightarrow> xtab option" where
  "set_last_mod_date date sy t =
     (if date = 0 \<or> \<not> writable t then Some t
      else do { t \<leftarrow> clear_dates 10 sy t;
                t \<leftarrow> add_num_link lt_lmd (date mod 2 ^ 24) sy t;
                add_num_link lt_lmdhigh (date div 2 ^ 24) sy t })"

section \<open>Links between symbols\<close>

definition set_has_def :: "bool \<Rightarrow> nat \<Rightarrow> xtab \<Rightarrow> xtab" where
  "set_has_def b sy t = t\<lparr>syms := (syms t)[sy := (syms t ! sy)\<lparr>has_def_file := b\<rparr>]\<rparr>"

definition rm_link1 :: "nat \<Rightarrow> nat \<Rightarrow> nat \<Rightarrow> xtab \<Rightarrow> xtab option" where
  "rm_link1 l ref sy t =
     (if \<not> writable t \<or> l = lt_junk then Some t
      else do { found \<leftarrow> find_link l ref sy t;
                case found of
                  None \<Rightarrow> Some t
                | Some r \<Rightarrow>
                    (let t = assign r (mk_link lt_junk 0) (t\<lparr>need_to_mv := True\<rparr>)
                     in if l = is_defined_in then Some (set_has_def False sy t)
                        else if l = is_defining \<and> kind (syms t ! sy) = DD_MODULE then set_last_mod_date 1 sy t
                        else Some t) })"

definition rm_link :: "nat \<Rightarrow> nat \<Rightarrow> nat \<Rightarrow> xtab \<Rightarrow> xtab option" where
  "rm_link l ref sy t =
     (if \<not> writable t then Some t
      else do { t \<leftarrow> rm_link1 l ref sy t; rm_link1 (get_reverse_link l) sy ref t })"

text \<open>
  \<open>same\<close> says whether a file that is linked to itself belongs to the project, which the code asks
  the project manager.
\<close>

definition add_link :: "bool \<Rightarrow> nat \<Rightarrow> nat \<Rightarrow> nat \<Rightarrow> xtab \<Rightarrow> xtab option" where
  "add_link same l ref sy t =
     (if \<not> writable t \<or> l = lt_junk then Some t
      else do {
        let t = t\<lparr>need_to_mv := True\<rparr>;
        (lnk, t) \<leftarrow> get_spot_to_insert_link l ref sy t;
        case lnk of
          None \<Rightarrow> Some t
        | Some r \<Rightarrow>
            if l = is_defined_in then
              if kind (syms t ! sy) \<noteq> DD_MODULE \<or> sy \<noteq> ref \<or> same
              then Some (assign r (mk_link l (symbol_index (syms t ! ref))) (set_has_def True sy t))
              else Some (assign r (mk_link lt_junk 0) t)
            else do {
              k \<leftarrow> link_at t r;
              t \<leftarrow> (if l = has_type \<and> lt k = l then rm_link1 type_has sy (get_symbol_of_link k) t else Some t);
              Some (assign r (mk_link l (symbol_index (syms t ! ref))) t) } })"

definition add_link_both :: "bool \<Rightarrow> nat \<Rightarrow> nat \<Rightarrow> nat \<Rightarrow> xtab \<Rightarrow> xtab option" where
  "add_link_both same l ref sy t =
     (if \<not> writable t then Some t
      else do { t \<leftarrow> add_link same l ref sy t; add_link same (get_reverse_link l) sy ref t })"

section \<open>Writing the link file\<close>

text \<open>
  The links of every symbol are written behind each other, the new ones first and without junk,
  and the offsets of the symbols follow.
\<close>

fun update_offset_array :: "int list \<Rightarrow> int \<Rightarrow> int list" where
  "update_offset_array [] n = []"
| "update_offset_array (x # xs) n = (if x \<ge> 0 then (x + n) # update_offset_array xs n else x # xs)"

definition merge_symbol :: "xtab \<Rightarrow> nat \<Rightarrow> link list \<times> int list \<times> int \<Rightarrow> link list \<times> int list \<times> int" where
  "merge_symbol t i = (\<lambda>(out, nlo, total_offset).
     let xs = the (symbolIndex_table t);
         cur_offset = orig_link_offsets t ! i;
         new = (case xs ! i of None \<Rightarrow> [] | Some ls \<Rightarrow> filter (\<lambda>l. lt l \<noteq> lt_junk) ls);
         copied = int (length new) * 4;
         nlo = (if new = [] then nlo else take (i + 1) nlo @ update_offset_array (drop (i + 1) nlo) copied);
         (old, nlo, total_offset) =
           (if cur_offset < 0 then ([], nlo[i := total_offset], total_offset)
            else let num = (if i + 1 < length xs then orig_link_offsets t ! (i + 1) - cur_offset else 0);
                     num = (if num \<le> 0 \<and> (i + 1 = length xs \<or> orig_link_offsets t ! (i + 1) < 0)
                            then saved_next_loffset t - cur_offset else num)
                 in if num > 0
                    then (take (nat (num div 4)) (drop (nat (cur_offset div 4)) (link_file t)), nlo, total_offset + num)
                    else ([], nlo, total_offset))
     in (out @ new @ old, nlo, total_offset + copied))"

definition dump_new_links :: "xtab \<Rightarrow> (link list \<times> xtab) option" where
  "dump_new_links t =
     (case symbolIndex_table t of
        None \<Rightarrow> None
      | Some xs \<Rightarrow>
          (let (out, nlo, total_offset) = fold (merge_symbol t) [1..<length xs] ([], orig_link_offsets t, 0)
           in Some (out, t\<lparr>next_offset_link := total_offset,
                syms := map (\<lambda>i. (syms t ! i)\<lparr>offset_to_start_link := nlo ! (i + 1)\<rparr>) [0..<length (syms t)]\<rparr>)))"

end
