(* ===== verification/Xref_Link_Storage.thy ===== *)
theory Xref_Link_Storage
  imports Xref_Links "HOL-Library.Multiset"
begin

text \<open>
  Where the links of a symbol are: the invariant of the arrays and the link file, the places that
  the loop over the links of a symbol visits, and what writing to a place and adding a place do.
\<close>

section \<open>The places of the links of a symbol\<close>

definition file_links :: "xtab \<Rightarrow> nat \<Rightarrow> link list" where
  "file_links t k = takeWhile (\<lambda>l. lt l \<noteq> lt_last) (drop k (link_file t))"

definition file_start :: "int \<Rightarrow> nat" where
  "file_start off = nat (off div 4)"

definition file_ok :: "xtab \<Rightarrow> int \<Rightarrow> bool" where
  "file_ok t off \<longleftrightarrow> off \<ge> 0 \<and> off mod 4 = 0 \<and>
     file_start off + length (file_links t (file_start off)) < length (link_file t)"

definition file_refs :: "xtab \<Rightarrow> int \<Rightarrow> link_ref list" where
  "file_refs t off = map In_file [file_start off..<file_start off + length (file_links t (file_start off))]"

definition arr :: "xtab \<Rightarrow> nat \<Rightarrow> link list option" where
  "arr t i = (case symbolIndex_table t of None \<Rightarrow> None | Some xs \<Rightarrow> xs ! symbol_index (syms t ! i))"

definition offset :: "xtab \<Rightarrow> nat \<Rightarrow> int" where
  "offset t i = (case symbolIndex_table t of None \<Rightarrow> offset_to_start_link (syms t ! i)
     | Some xs \<Rightarrow> orig_link_offsets t ! symbol_index (syms t ! i))"

definition ends_here :: "link list \<Rightarrow> bool" where
  "ends_here ls \<longleftrightarrow> lt (last ls) = lt_last"

definition refs :: "xtab \<Rightarrow> nat \<Rightarrow> link_ref list" where
  "refs t i = (case arr t i of
      None \<Rightarrow> file_refs t (offset t i)
    | Some ls \<Rightarrow> (if ends_here ls then map (In_array (symbol_index (syms t ! i))) [0..<length ls - 1]
                 else map (In_array (symbol_index (syms t ! i))) [0..<length ls] @ file_refs t (offset t i)))"

definition shape_ok :: "xtab \<Rightarrow> nat \<Rightarrow> bool" where
  "shape_ok t i \<longleftrightarrow> (case arr t i of
      None \<Rightarrow> file_ok t (offset t i)
    | Some ls \<Rightarrow> ls \<noteq> [] \<and> (\<forall>l \<in> set (butlast ls). lt l \<noteq> lt_last) \<and>
        (ends_here ls \<or> file_ok t (offset t i)))"

definition links_ok :: "xtab \<Rightarrow> bool" where
  "links_ok t \<longleftrightarrow>
     (\<forall>i < length (syms t). symbol_index (syms t ! i) = i + 1 \<and> shape_ok t i) \<and>
     (case symbolIndex_table t of
        None \<Rightarrow> orig_link_offsets t = []
      | Some xs \<Rightarrow> length xs = length (syms t) + 1 \<and> length (orig_link_offsets t) = length (syms t) + 1) \<and>
     (\<forall>i < length (syms t). \<forall>j < length (syms t). i \<noteq> j \<longrightarrow> set (refs t i) \<inter> set (refs t j) = {})"

section \<open>The loop over the links\<close>

lemma file_link_at:
  assumes "file_ok t off" "m < length (file_links t (file_start off))"
  shows "link_at t (In_file (file_start off + m)) = Some (link_file t ! (file_start off + m))"
    "lt (link_file t ! (file_start off + m)) \<noteq> lt_last"
proof -
  let ?k = "file_start off"
  have "?k + m < length (link_file t)" using assms by (simp add: file_ok_def)
  then show "link_at t (In_file (?k + m)) = Some (link_file t ! (?k + m))" by (simp add: link_at_def)
  have "file_links t ?k ! m = link_file t ! (?k + m)"
    using assms(2) takeWhile_nth [of m "\<lambda>l. lt l \<noteq> lt_last" "drop ?k (link_file t)"]
      length_takeWhile_le [of "\<lambda>l. lt l \<noteq> lt_last" "drop ?k (link_file t)"]
    by (simp add: file_links_def)
  then show "lt (link_file t ! (?k + m)) \<noteq> lt_last"
    using nth_mem [OF assms(2)] by (auto simp: file_links_def dest: set_takeWhileD)
qed

lemma file_end:
  assumes "file_ok t off"
  shows "lt (link_file t ! (file_start off + length (file_links t (file_start off)))) = lt_last"
proof -
  let ?k = "file_start off"
  have "length (file_links t ?k) < length (drop ?k (link_file t))"
    using assms unfolding file_ok_def length_drop by linarith
  from nth_length_takeWhile [OF this [unfolded file_links_def]] show ?thesis
    using assms by (simp add: file_links_def file_ok_def)
qed

lemma next_in_file: "get_next_link (In_file n) i t = Some (Some (In_file (Suc n)))"
  by (simp add: get_next_link_def Let_def split: option.splits)

lemma links_from_file:
  assumes "file_ok t off" "m \<le> length (file_links t (file_start off))"
  shows "links_from i t (Some (In_file (file_start off + m))) =
    Some (map (\<lambda>r. (r, the (link_at t r)))
      (map In_file [file_start off + m..<file_start off + length (file_links t (file_start off))]))"
  using assms(2)
proof (induction "length (file_links t (file_start off)) - m" arbitrary: m)
  case 0
  then have m: "m = length (file_links t (file_start off))" by simp
  have "file_start off + m < length (link_file t)" using assms(1) m by (simp add: file_ok_def)
  then show ?case
    using file_end [OF assms(1)] by (subst links_from.simps) (simp add: m link_at_def)
next
  case (Suc n)
  then have m: "m < length (file_links t (file_start off))" by simp
  have "links_from i t (Some (In_file (file_start off + Suc m))) =
    Some (map (\<lambda>r. (r, the (link_at t r)))
      (map In_file [file_start off + Suc m..<file_start off + length (file_links t (file_start off))]))"
    using Suc.hyps(1) [of "Suc m"] Suc.hyps(2) m by simp
  moreover have "[file_start off + m..<file_start off + length (file_links t (file_start off))] =
      (file_start off + m) # [file_start off + Suc m..<file_start off + length (file_links t (file_start off))]"
    using m by (simp add: upt_conv_Cons)
  ultimately show ?case
    using file_link_at [OF assms(1) m] by (subst links_from.simps) (simp add: next_in_file)
qed

lemma file_ref_ok: "file_ok t off \<Longrightarrow> file_ref off = Some (In_file (file_start off))"
  by (simp add: file_ref_def file_ok_def file_start_def)

lemma links_from_array:
  assumes "symbolIndex_table t = Some xs" "xs ! symbol_index (syms t ! i) = Some ls" "ls \<noteq> []"
    "\<forall>l \<in> set (butlast ls). lt l \<noteq> lt_last" "ends_here ls \<or> file_ok t (offset t i)" "n < length ls"
  shows "links_from i t (Some (In_array (symbol_index (syms t ! i)) n)) =
    Some (map (\<lambda>r. (r, the (link_at t r)))
      (if ends_here ls then map (In_array (symbol_index (syms t ! i))) [n..<length ls - 1]
       else map (In_array (symbol_index (syms t ! i))) [n..<length ls] @ file_refs t (offset t i)))"
  using assms(6)
proof (induction "length ls - Suc n" arbitrary: n)
  case 0
  then have n: "n = length ls - 1" by simp
  let ?si = "symbol_index (syms t ! i)"
  have at: "link_at t (In_array ?si n) = Some (last ls)"
    using assms(1-3) n by (simp add: link_at_def last_conv_nth)
  show ?case
  proof (cases "ends_here ls")
    case True
    then show ?thesis using at n by (subst links_from.simps) (simp add: ends_here_def)
  next
    case False
    then have f: "file_ok t (offset t i)" using assms(5) by simp
    have "orig_link_offsets t ! ?si = offset t i" using assms(1) by (simp add: offset_def)
    then have "get_next_link (In_array ?si n) i t = Some (Some (In_file (file_start (offset t i))))"
      using assms(1, 2) n at False f by (simp add: get_next_link_def Let_def ends_here_def file_ref_ok)
    moreover have "[n..<length ls] = [n]" using n assms(3) by (cases ls) simp_all
    ultimately show ?thesis
      using at False links_from_file [OF f, of 0 i] by (subst links_from.simps) (simp add: ends_here_def file_refs_def)
  qed
next
  case (Suc m)
  let ?si = "symbol_index (syms t ! i)"
  have n: "Suc n < length ls" using Suc.hyps(2) by simp
  have at: "link_at t (In_array ?si n) = Some (ls ! n)"
    using assms(1, 2) n by (simp add: link_at_def)
  have "ls ! n \<in> set (butlast ls)" using n by (metis Suc_lessD in_set_conv_nth length_butlast less_diff_conv nth_butlast Suc_eq_plus1)
  then have "lt (ls ! n) \<noteq> lt_last" using assms(4) by blast
  moreover have "get_next_link (In_array ?si n) i t = Some (Some (In_array ?si (Suc n)))"
    using assms(1, 2) n by (cases "n = length ls - 1") (simp_all add: get_next_link_def Let_def)
  moreover have "[n..<length ls - 1] = n # [Suc n..<length ls - 1]" "[n..<length ls] = n # [Suc n..<length ls]"
    using n by (simp_all add: upt_conv_Cons)
  ultimately show ?case
    using Suc.hyps(1) [of "Suc n"] Suc.hyps(2) n at by (subst links_from.simps) simp
qed

lemma links_of_refs:
  assumes "shape_ok t i"
  shows "links_of i t = Some (map (\<lambda>r. (r, the (link_at t r))) (refs t i))"
proof (cases "symbolIndex_table t")
  case None
  then have "file_ok t (offset t i)" "offset t i = offset_to_start_link (syms t ! i)" "arr t i = None"
    using assms by (simp_all add: shape_ok_def arr_def offset_def)
  then show ?thesis
    using links_from_file [of t "offset t i" 0 i] None
    by (simp add: links_of_def get_start_link_def file_ref_ok refs_def file_refs_def)
next
  case (Some xs)
  then have o: "offset t i = orig_link_offsets t ! symbol_index (syms t ! i)"
      and a: "arr t i = xs ! symbol_index (syms t ! i)"
    by (simp_all add: offset_def arr_def)
  show ?thesis
  proof (cases "arr t i")
    case None
    then have "file_ok t (offset t i)" using assms by (simp add: shape_ok_def)
    then show ?thesis
      using links_from_file [of t "offset t i" 0 i] None Some o a
      by (simp add: links_of_def get_start_link_def file_ref_ok refs_def file_refs_def Let_def)
  next
    case (Some ls)
    then have "ls \<noteq> []" "\<forall>l \<in> set (butlast ls). lt l \<noteq> lt_last" "ends_here ls \<or> file_ok t (offset t i)"
      using assms by (simp_all add: shape_ok_def)
    then show ?thesis
      using links_from_array [of t xs i ls 0] \<open>symbolIndex_table t = Some xs\<close> Some a
      by (simp add: links_of_def get_start_link_def refs_def Let_def)
  qed
qed

text \<open>At each place is a link that is not the last one.\<close>

lemma refs_links:
  assumes "shape_ok t i" "r \<in> set (refs t i)"
  shows "\<exists>l. link_at t r = Some l \<and> lt l \<noteq> lt_last"
proof -
  have infile: "\<exists>l. link_at t r = Some l \<and> lt l \<noteq> lt_last" if fr: "file_ok t (offset t i)" "r \<in> set (file_refs t (offset t i))"
  proof -
    obtain m where "m < length (file_links t (file_start (offset t i)))" "r = In_file (file_start (offset t i) + m)"
      using fr(2) by (auto simp: file_refs_def) (metis add_diff_inverse_nat linorder_not_le nat_add_left_cancel_less)
    then show ?thesis using file_link_at [OF fr(1)] by blast
  qed
  show ?thesis
  proof (cases "arr t i")
    case None
    then show ?thesis using assms infile by (simp add: shape_ok_def refs_def)
  next
    case (Some ls)
    then obtain xs where xs: "symbolIndex_table t = Some xs" "xs ! symbol_index (syms t ! i) = Some ls"
      by (auto simp: arr_def split: option.splits)
    have sh: "ls \<noteq> []" "\<forall>l \<in> set (butlast ls). lt l \<noteq> lt_last" "ends_here ls \<or> file_ok t (offset t i)"
      using assms(1) Some by (simp_all add: shape_ok_def)
    have inner: "lt (ls ! n) \<noteq> lt_last" if "n < length ls - 1" for n
      using that sh(2) by (metis in_set_conv_nth length_butlast nth_butlast)
    have array: "\<exists>l. link_at t r = Some l \<and> lt l \<noteq> lt_last" if "r = In_array (symbol_index (syms t ! i)) n"
        "n < length ls" "\<not> ends_here ls \<or> n < length ls - 1" for n
    proof -
      have "lt (ls ! n) \<noteq> lt_last"
      proof (cases "n < length ls - 1")
        case True
        then show ?thesis by (rule inner)
      next
        case False
        then have "n = length ls - 1" using that(2) by simp
        then show ?thesis using that(3) False sh(1) by (simp add: ends_here_def last_conv_nth)
      qed
      then show ?thesis using xs that(1, 2) by (simp add: link_at_def)
    qed
    show ?thesis
      using assms(2) Some sh(3) array infile by (auto simp: refs_def split: if_splits)
  qed
qed

lemma distinct_refs: "distinct (refs t i)"
  by (auto simp: refs_def file_refs_def distinct_map inj_on_def split: option.splits)

section \<open>Writing to a place\<close>

lemma takeWhile_length_update:
  assumes "n < length xs" "P (xs ! n) = P y"
  shows "length (takeWhile P (drop k (xs[n := y]))) = length (takeWhile P (drop k xs))"
proof -
  have len: "length (takeWhile P ys) = length (takeWhile id (map P ys))" for ys
    by (induction ys) simp_all
  have "map P (xs[n := y]) = map P xs"
    using assms list_update_id [of "map P xs" n] by (simp add: map_update)
  then have "map P (drop k (xs[n := y])) = map P (drop k xs)" by (metis drop_map)
  then show ?thesis using len by metis
qed

lemma assign_file:
  assumes "n < length (link_file t)" "lt (link_file t ! n) \<noteq> lt_last" "lt l \<noteq> lt_last"
  shows "length (file_links (assign (In_file n) l t) k) = length (file_links t k)"
    "file_ok (assign (In_file n) l t) off = file_ok t off"
    "file_refs (assign (In_file n) l t) off = file_refs t off"
proof -
  have e: "length (file_links (assign (In_file n) l t) k) = length (file_links t k)" for k
    using assms takeWhile_length_update [of n "link_file t" "\<lambda>l. lt l \<noteq> lt_last" l k]
    by (simp add: file_links_def assign_def)
  then show "length (file_links (assign (In_file n) l t) k) = length (file_links t k)" .
  show "file_ok (assign (In_file n) l t) off = file_ok t off" "file_refs (assign (In_file n) l t) off = file_refs t off"
    by (simp_all add: file_ok_def file_refs_def e) (simp add: assign_def)
qed

text \<open>The hash table and the names, which the operations on links do not touch.\<close>

definition table_part :: "xtab \<Rightarrow> _" where
  "table_part t = (table_max t, entry_cnt t, names t, table t, h_el t, h_next t, h_prev t, h_free t)"

definition other_same :: "xtab \<Rightarrow> xtab \<Rightarrow> bool" where
  "other_same t u \<longleftrightarrow> syms t = syms u \<and> writable t = writable u \<and> link_is_writable t = link_is_writable u \<and>
     table_part t = table_part u"

lemma assign_same: "other_same (assign r l t) t" "orig_link_offsets (assign r l t) = orig_link_offsets t"
  "need_to_mv (assign r l t) = need_to_mv t"
  by (simp_all add: other_same_def table_part_def assign_def split: link_ref.splits option.splits)

lemma in_array_place:
  assumes "shape_ok t i" "In_array si n \<in> set (refs t i)"
  shows "\<exists>xs ls. symbolIndex_table t = Some xs \<and> si = symbol_index (syms t ! i) \<and> xs ! si = Some ls \<and> arr t i = Some ls \<and>
    n < length ls \<and> (ends_here ls \<longrightarrow> n < length ls - 1) \<and> lt (ls ! n) \<noteq> lt_last"
proof -
  obtain ls where a: "arr t i = Some ls"
    using assms(2) by (auto simp: refs_def file_refs_def split: option.splits)
  then obtain xs where xs: "symbolIndex_table t = Some xs" "xs ! symbol_index (syms t ! i) = Some ls"
    by (auto simp: arr_def split: option.splits)
  have n: "si = symbol_index (syms t ! i)" "n < length ls" "ends_here ls \<longrightarrow> n < length ls - 1"
    using assms(2) a by (auto simp: refs_def file_refs_def split: if_splits)
  obtain l where "link_at t (In_array si n) = Some l" "lt l \<noteq> lt_last" using refs_links [OF assms] by blast
  then have "lt (ls ! n) \<noteq> lt_last" using xs n by (simp add: link_at_def)
  then show ?thesis using a xs n by blast
qed

lemma in_file_place:
  assumes "shape_ok t i" "In_file n \<in> set (refs t i)"
  shows "n < length (link_file t) \<and> lt (link_file t ! n) \<noteq> lt_last"
proof -
  obtain l where "link_at t (In_file n) = Some l" "lt l \<noteq> lt_last" using refs_links [OF assms] by blast
  then show ?thesis by (auto simp: link_at_def split: if_splits)
qed

text \<open>Places that the symbols of a table have keep everything but the link that is written.\<close>

lemma links_okD:
  assumes "links_ok t" "i < length (syms t)"
  shows "symbol_index (syms t ! i) = i + 1" "shape_ok t i"
    "symbolIndex_table t = Some xs \<Longrightarrow> length xs = length (syms t) + 1"
    "symbolIndex_table t = Some xs \<Longrightarrow> length (orig_link_offsets t) = length (syms t) + 1"
    "j < length (syms t) \<Longrightarrow> i \<noteq> j \<Longrightarrow> set (refs t i) \<inter> set (refs t j) = {}"
  using assms by (simp_all add: links_ok_def)

lemma ends_here_update:
  assumes "n < length ls" "ends_here ls \<longrightarrow> n < length ls - 1" "lt l \<noteq> lt_last"
  shows "ends_here (ls[n := l]) = ends_here ls"
proof (cases "n = length ls - 1")
  case True
  then have "\<not> ends_here ls" using assms(2) by auto
  moreover have "last (ls[n := l]) = l" using True assms(1) by (cases "ls = []") (simp_all add: last_list_update)
  ultimately show ?thesis using assms(3) by (simp add: ends_here_def)
next
  case False
  then show ?thesis using assms(1) by (cases "ls = []") (simp_all add: ends_here_def last_list_update)
qed

lemma assign_refs:
  assumes ok: "links_ok t" and i: "i < length (syms t)" and r: "r \<in> set (refs t i)" and l: "lt l \<noteq> lt_last"
  shows "j < length (syms t) \<Longrightarrow> refs (assign r l t) j = refs t j \<and> shape_ok (assign r l t) j"
    "links_ok (assign r l t)"
    "r' \<in> set (refs t j) \<Longrightarrow> j < length (syms t) \<Longrightarrow>
       link_at (assign r l t) r' = (if r' = r then Some l else link_at t r')"
proof -
  let ?u = "assign r l t"
  have s: "syms ?u = syms t" "orig_link_offsets ?u = orig_link_offsets t"
    using assign_same [of r l t] by (simp_all add: other_same_def)
  have both: "refs ?u j = refs t j \<and> shape_ok ?u j" if j: "j < length (syms t)" for j
  proof (cases r)
    case (In_file n)
    have f: "n < length (link_file t)" "lt (link_file t ! n) \<noteq> lt_last"
      using in_file_place [OF links_okD(2) [OF ok i]] r In_file by simp_all
    have "symbolIndex_table ?u = symbolIndex_table t" by (simp add: In_file assign_def)
    then have "arr ?u j = arr t j" "offset ?u j = offset t j" by (simp_all add: arr_def offset_def s cong: option.case_cong)
    then show ?thesis
      using assign_file(2, 3) [OF f l] links_okD(2) [OF ok j] s(1)
      unfolding refs_def shape_ok_def In_file by (cases "arr t j") simp_all
  next
    case (In_array si n)
    obtain xs ls where a: "symbolIndex_table t = Some xs" "si = symbol_index (syms t ! i)" "xs ! si = Some ls"
        "n < length ls" "ends_here ls \<longrightarrow> n < length ls - 1" "lt (ls ! n) \<noteq> lt_last" "arr t i = Some ls"
      using in_array_place [OF links_okD(2) [OF ok i]] r In_array by metis
    have u: "symbolIndex_table ?u = Some (xs[si := Some (ls[n := l])])" "link_file ?u = link_file t"
      using a by (simp_all add: In_array assign_def)
    have fl: "file_links ?u k = file_links t k" for k by (simp add: file_links_def u(2))
    have f: "file_ok ?u off = file_ok t off" "file_refs ?u off = file_refs t off" for off
      by (simp_all add: file_ok_def file_refs_def fl u(2))
    have o: "offset ?u j = offset t j" by (simp add: offset_def u(1) a(1) s)
    have si: "si < length xs" using a(1, 2) links_okD(1, 3) [OF ok i] i by simp
    show ?thesis
    proof (cases "j = i")
      case True
      have "arr ?u j = Some (ls[n := l])" using u(1) a(2) si True by (simp add: arr_def s)
      moreover have "\<forall>k \<in> set (butlast (ls[n := l])). lt k \<noteq> lt_last"
        using links_okD(2) [OF ok i] a(7) l by (auto simp: shape_ok_def butlast_list_update dest!: set_update_subset_insert [THEN subsetD])
      ultimately show ?thesis
        using links_okD(2) [OF ok j] True a(7) ends_here_update [OF a(4, 5) l]
        by (simp add: refs_def shape_ok_def s f o [unfolded True])
    next
      case False
      have "symbol_index (syms t ! j) \<noteq> si" using links_okD(1) [OF ok] i j False a(2) by simp
      then have "arr ?u j = arr t j" using u(1) a(1) by (simp add: arr_def s)
      then show ?thesis using links_okD(2) [OF ok j] by (cases "arr t j") (simp_all add: refs_def shape_ok_def s f o)
    qed
  qed
  then show "j < length (syms t) \<Longrightarrow> refs ?u j = refs t j \<and> shape_ok ?u j" by simp
  have "case symbolIndex_table ?u of None \<Rightarrow> orig_link_offsets ?u = []
      | Some xs \<Rightarrow> length xs = length (syms ?u) + 1 \<and> length (orig_link_offsets ?u) = length (syms ?u) + 1"
    using ok by (auto simp: links_ok_def s assign_def split: link_ref.splits option.splits)
  then show "links_ok ?u" using ok both by (simp add: links_ok_def s)
  show "link_at ?u r' = (if r' = r then Some l else link_at t r')" if r': "r' \<in> set (refs t j)" "j < length (syms t)" for j r'
  proof (cases r)
    case (In_file n)
    have "n < length (link_file t)" using in_file_place [OF links_okD(2) [OF ok i]] r In_file by simp
    then show ?thesis by (cases r') (auto simp: In_file link_at_def assign_def)
  next
    case (In_array si n)
    obtain xs ls where a: "symbolIndex_table t = Some xs" "si = symbol_index (syms t ! i)" "xs ! si = Some ls" "n < length ls"
      using in_array_place [OF links_okD(2) [OF ok i]] r In_array by metis
    have si: "si < length xs" using a(1, 2) links_okD(1, 3) [OF ok i] i by simp
    show ?thesis
      using a si by (cases r') (auto simp: In_array link_at_def assign_def nth_list_update)
  qed
qed

section \<open>A new place\<close>

lemma init_links:
  assumes ok: "links_ok t" and n: "symbolIndex_table t = None"
  shows "links_ok (init_symbolIndex_table t)"
    "j < length (syms t) \<Longrightarrow> refs (init_symbolIndex_table t) j = refs t j"
    "link_at (init_symbolIndex_table t) (In_file m) = link_at t (In_file m)"
    "other_same (init_symbolIndex_table t) t"
proof -
  let ?u = "init_symbolIndex_table t"
  have orig: "orig_link_offsets t = []" using ok n by (simp add: links_ok_def)
  have u: "syms ?u = syms t" "symbolIndex_table ?u = Some (replicate (length (syms t) + 1) None)"
    "orig_link_offsets ?u = -1 # map offset_to_start_link (syms t)" "link_file ?u = link_file t"
    by (simp_all add: init_symbolIndex_table_def orig)
  have fl: "file_links ?u k = file_links t k" for k by (simp add: file_links_def u(4))
  have f: "file_ok ?u off = file_ok t off" "file_refs ?u off = file_refs t off" for off
    by (simp_all add: file_ok_def file_refs_def fl u(4))
  have r: "refs ?u j = refs t j \<and> shape_ok ?u j" if j: "j < length (syms t)" for j
  proof -
    have si: "symbol_index (syms t ! j) = j + 1" by (rule links_okD(1) [OF ok j])
    have "arr ?u j = None" using si j by (simp add: arr_def u del: replicate.simps)
    moreover have "arr t j = None" by (simp add: arr_def n)
    moreover have "offset ?u j = offset t j" using si j by (simp add: offset_def u n)
    ultimately show ?thesis using links_okD(2) [OF ok j] by (simp add: refs_def shape_ok_def f)
  qed
  then show "j < length (syms t) \<Longrightarrow> refs ?u j = refs t j" by simp
  show "links_ok ?u" using ok r by (simp add: links_ok_def u)
  show "link_at ?u (In_file m) = link_at t (In_file m)" by (simp add: link_at_def u)
  show "other_same ?u t" by (simp add: other_same_def table_part_def init_symbolIndex_table_def)
qed

lemma refs_in_file:
  assumes "symbolIndex_table t = None" "r \<in> set (refs t j)"
  shows "\<exists>m. r = In_file m"
  using assms by (auto simp: refs_def arr_def file_refs_def)

lemma grown_array:
  assumes ok: "links_ok t" and i: "i < length (syms t)" and xs: "symbolIndex_table t = Some xs"
    and ls: "ls = (case xs ! symbol_index (syms t ! i) of None \<Rightarrow> [] | Some ls \<Rightarrow> ls)"
    and n: "n = (if ls \<noteq> [] \<and> ends_here ls then length ls - 1 else length ls)"
    and l: "lt l \<noteq> lt_last"
    and v: "v = t\<lparr>symbolIndex_table := Some (xs[symbol_index (syms t ! i) := Some ((ls @ [last_link])[n := l])])\<rparr>"
  defines "r \<equiv> In_array (symbol_index (syms t ! i)) n"
  shows "links_ok v \<and> mset (refs v i) = add_mset r (mset (refs t i)) \<and> (\<forall>j < length (syms t). r \<notin> set (refs t j)) \<and>
    (\<forall>j < length (syms t). j \<noteq> i \<longrightarrow> refs v j = refs t j) \<and> link_at v r = Some l \<and>
    (\<forall>j < length (syms t). \<forall>r' \<in> set (refs t j). link_at v r' = link_at t r')"
proof -
  let ?si = "symbol_index (syms t ! i)" and ?ls = "(ls @ [last_link])[n := l]"
  have si: "?si = i + 1" "?si < length xs" using links_okD(1, 3) [OF ok i] xs i by simp_all
  have u: "syms v = syms t" "symbolIndex_table v = Some (xs[?si := Some ?ls])" "orig_link_offsets v = orig_link_offsets t"
    "link_file v = link_file t"
    by (simp_all add: v)
  have fl: "file_links v k = file_links t k" for k by (simp add: file_links_def u(4))
  have f: "file_ok v off = file_ok t off" "file_refs v off = file_refs t off" for off
    by (simp_all add: file_ok_def file_refs_def fl u(4))
  have o: "offset v j = offset t j" for j by (simp add: offset_def u xs)
  have other: "arr v j = arr t j" if "j < length (syms t)" "j \<noteq> i" for j
    using links_okD(1) [OF ok that(1)] si(1) that(2) by (simp add: arr_def u xs)
  have others: "refs v j = refs t j \<and> shape_ok v j" if "j < length (syms t)" "j \<noteq> i" for j
    using links_okD(2) [OF ok that(1)] other [OF that] by (cases "arr t j") (simp_all add: refs_def shape_ok_def u(1) f o)
  have ai: "arr v i = Some ?ls" using si(2) by (simp add: arr_def u)
  have at: "arr t i = xs ! ?si" by (simp add: arr_def xs)
  have fresh_other: "r \<notin> set (refs t j)" if "j < length (syms t)" "j \<noteq> i" for j
    using links_okD(1) [OF ok that(1)] si(1) that(2)
    by (auto simp: r_def refs_def file_refs_def split: option.splits if_splits)
  have own: "mset (refs v i) = add_mset r (mset (refs t i)) \<and> shape_ok v i \<and> r \<notin> set (refs t i)"
  proof (cases "xs ! ?si")
    case None
    then have "?ls = [l]" "n = 0" using ls n by simp_all
    moreover have "file_ok t (offset t i)" using links_okD(2) [OF ok i] None at by (simp add: shape_ok_def)
    ultimately show ?thesis
      using ai at None l by (auto simp: refs_def shape_ok_def u(1) f o ends_here_def r_def) (auto simp: file_refs_def)
  next
    case (Some ks)
    then have ks: "ls = ks" "ls \<noteq> []" "\<forall>k \<in> set (butlast ls). lt k \<noteq> lt_last" "ends_here ls \<or> file_ok t (offset t i)"
      using links_okD(2) [OF ok i] at ls by (simp_all add: shape_ok_def)
    show ?thesis
    proof (cases "ends_here ls")
      case True
      then have n: "n = length ls - 1" using n ks(2) by simp
      have e: "?ls = butlast ls @ [l, last_link]"
        using ks(2) unfolding n by (cases ls rule: rev_cases) simp_all
      have "ends_here ?ls" "butlast ?ls = butlast ls @ [l]" "length ?ls = Suc (length ls)"
        using e ks(2) by (simp_all add: ends_here_def last_link_def butlast_append)
      moreover have "[0..<length ls] = [0..<length ls - 1] @ [length ls - 1]"
        using ks(2) by (cases ls rule: rev_cases) simp_all
      ultimately show ?thesis
        using ai at Some ks l True n
        by (auto simp: refs_def shape_ok_def u(1) f o r_def)
    next
      case False
      then have n: "n = length ls" using n by simp
      have e: "?ls = ls @ [l]" unfolding n by simp
      have fk: "file_ok t (offset t i)" using ks(4) False by simp
      have "lt k \<noteq> lt_last" if "k \<in> set ls" for k
      proof (cases "k = last ls")
        case True
        then show ?thesis using False by (simp add: ends_here_def)
      next
        case False
        then have "k \<in> set (butlast ls)" using that ks(2) by (metis append_butlast_last_id in_set_conv_decomp rotate1.simps(2) set_ConsD set_rotate1)
        then show ?thesis using ks(3) by blast
      qed
      moreover have "\<not> ends_here ?ls" using e l by (simp add: ends_here_def)
      ultimately show ?thesis
        using ai at Some ks fk False n e
        by (auto simp: refs_def shape_ok_def u(1) f o r_def) (auto simp: file_refs_def)
    qed
  qed
  have refs_v: "set (refs v i) = insert r (set (refs t i))" using own by (metis set_mset_add_mset_insert set_mset_mset)
  have "links_ok v"
    unfolding links_ok_def
  proof (intro conjI allI impI)
    fix j assume "j < length (syms v)"
    then have j: "j < length (syms t)" by (simp add: u)
    show "symbol_index (syms v ! j) = j + 1" using links_okD(1) [OF ok j] by (simp add: u)
    show "shape_ok v j" using others [OF j] own by (cases "j = i") simp_all
  next
    show "case symbolIndex_table v of None \<Rightarrow> orig_link_offsets v = []
      | Some xs \<Rightarrow> length xs = length (syms v) + 1 \<and> length (orig_link_offsets v) = length (syms v) + 1"
      using links_okD(3, 4) [OF ok i xs] by (simp add: u)
  next
    fix j k assume "j < length (syms v)" "k < length (syms v)" and jk: "j \<noteq> k"
    then have j: "j < length (syms t)" "k < length (syms t)" by (simp_all add: u)
    then have "set (refs t j) \<inter> set (refs t k) = {}" using links_okD(5) [OF ok] jk by blast
    then show "set (refs v j) \<inter> set (refs v k) = {}"
      using others fresh_other refs_v j jk by (cases "j = i"; cases "k = i") auto
  qed
  moreover have "link_at v r = Some l"
  proof -
    have "n \<le> length ls" unfolding n by auto
    then have "n < length ?ls" "?ls ! n = l" by simp_all
    then show ?thesis using si(2) by (simp add: link_at_def r_def u)
  qed
  moreover have "link_at v r' = link_at t r'" if jr: "j < length (syms t)" "r' \<in> set (refs t j)" for j r'
  proof (cases r')
    case (In_file m)
    then show ?thesis by (simp add: link_at_def u)
  next
    case (In_array sj m)
    show ?thesis
    proof (cases "j = i")
      case True
      obtain ks where ks: "xs ! ?si = Some ks" "sj = ?si" "m < length ks"
        using in_array_place [OF links_okD(2) [OF ok i]] jr(2) True In_array xs by (metis option.inject)
      have "m \<noteq> n" using own jr(2) True In_array ks(2) by (auto simp: r_def)
      then show ?thesis using ks ls si(2) by (simp add: link_at_def u xs In_array nth_append)
    next
      case False
      have "sj = symbol_index (syms t ! j)"
        using in_array_place [OF links_okD(2) [OF ok jr(1)]] jr(2) In_array by metis
      then have "sj \<noteq> ?si" using links_okD(1) [OF ok jr(1)] si(1) False by simp
      then show ?thesis by (simp add: link_at_def u xs In_array)
    qed
  qed
  ultimately show ?thesis using own others fresh_other by (metis (no_types, lifting))
qed

definition can_link :: "xtab \<Rightarrow> bool" where
  "can_link t \<longleftrightarrow> symbolIndex_table t \<noteq> None \<or> link_is_writable t"

lemma new_place:
  assumes ok: "links_ok t" and i: "i < length (syms t)" and c: "can_link t"
  shows "\<exists>r u. spot_place i No_spot t = Some (Some r, u) \<and> link_at u r = Some last_link \<and> other_same u t \<and>
    (\<forall>j < length (syms t). r \<notin> set (refs t j)) \<and>
    (\<forall>l. lt l \<noteq> lt_last \<longrightarrow> links_ok (assign r l u) \<and> mset (refs (assign r l u) i) = add_mset r (mset (refs t i)) \<and>
       (\<forall>j < length (syms t). j \<noteq> i \<longrightarrow> refs (assign r l u) j = refs t j) \<and> link_at (assign r l u) r = Some l \<and>
       (\<forall>j < length (syms t). \<forall>r' \<in> set (refs t j). link_at (assign r l u) r' = link_at t r'))"
proof -
  define t0 where "t0 = (if symbolIndex_table t = None \<and> link_is_writable t then init_symbolIndex_table t else t)"
  have t0: "links_ok t0" "other_same t0 t" "symbolIndex_table t0 \<noteq> None"
      "\<forall>j < length (syms t). refs t0 j = refs t j"
      "\<forall>j < length (syms t). \<forall>r \<in> set (refs t j). link_at t0 r = link_at t r"
  proof -
    show "links_ok t0" using ok init_links(1) [OF ok] by (simp add: t0_def)
    show "other_same t0 t" using init_links(4) [OF ok] by (simp add: t0_def other_same_def)
    show "symbolIndex_table t0 \<noteq> None" using c by (auto simp: t0_def can_link_def init_symbolIndex_table_def)
    show "\<forall>j < length (syms t). refs t0 j = refs t j" using init_links(2) [OF ok] by (simp add: t0_def)
    show "\<forall>j < length (syms t). \<forall>r \<in> set (refs t j). link_at t0 r = link_at t r"
      using init_links(3) [OF ok] refs_in_file [of t] by (fastforce simp: t0_def)
  qed
  then obtain xs where xs: "symbolIndex_table t0 = Some xs" by auto
  have st: "syms t0 = syms t" using t0(2) by (simp add: other_same_def)
  let ?si = "symbol_index (syms t0 ! i)"
  define ls where "ls = (case xs ! ?si of None \<Rightarrow> [] | Some ls \<Rightarrow> ls)"
  define n where "n = (if ls \<noteq> [] \<and> ends_here ls then length ls - 1 else length ls)"
  define r where "r = In_array ?si n"
  define w where "w = t0\<lparr>symbolIndex_table := Some (xs[?si := Some (ls @ [last_link])])\<rparr>"
  define u where "u = t0\<lparr>symbolIndex_table := Some (xs[?si := Some ((ls @ [last_link])[n := last_link])])\<rparr>"
  have i0: "i < length (syms t0)" using i st by simp
  have si: "?si < length xs" using links_okD(1, 3) [OF t0(1) i0] xs i0 by simp
  have nl: "n \<le> length ls" unfolding n_def by auto
  have "make_new_link ?si t = Some (n, w)"
    using xs st
    by (simp add: make_new_link_def Let_def w_def ls_def n_def ends_here_def flip: t0_def)
      (auto simp: last_conv_nth split: option.splits)
  moreover have "assign r last_link w = u"
    using si by (simp add: r_def assign_def w_def u_def)
  ultimately have p: "spot_place i No_spot t = Some (Some r, u)"
    using st by (simp add: spot_place_def Let_def r_def)
  have "link_at u r = Some last_link" using si nl by (simp add: link_at_def r_def u_def)
  moreover have "other_same u t" using t0(2) by (simp add: u_def other_same_def table_part_def)
  moreover have v: "assign r l u = t0\<lparr>symbolIndex_table := Some (xs[?si := Some ((ls @ [last_link])[n := l])])\<rparr>" for l
    using si by (simp add: r_def assign_def u_def)
  note g = grown_array [OF t0(1) i0 xs ls_def n_def _ v, folded r_def, unfolded st]
  have "\<forall>j < length (syms t). r \<notin> set (refs t j)" using g [of last_link] g [of "mk_link 0 0"] t0(4) by (simp add: mk_link_def lt_last_def)
  moreover have "links_ok (assign r l u) \<and> mset (refs (assign r l u) i) = add_mset r (mset (refs t i)) \<and>
       (\<forall>j < length (syms t). j \<noteq> i \<longrightarrow> refs (assign r l u) j = refs t j) \<and> link_at (assign r l u) r = Some l \<and>
       (\<forall>j < length (syms t). \<forall>r' \<in> set (refs t j). link_at (assign r l u) r' = link_at t r')" if "lt l \<noteq> lt_last" for l
    using g [OF that] t0(4, 5) i by simp
  ultimately show ?thesis using p by blast
qed

end
