(* ===== verification/Xref_Link_Content.thy ===== *)
theory Xref_Link_Content
  imports Xref_Link_Storage
begin

text \<open>
  What the links of a table say: a relation between symbols for every type of link. The operations
  on one symbol are changes of this relation; the dates of files are kept apart from it.
\<close>

section \<open>The content of the places\<close>

definition entry :: "xtab \<Rightarrow> link_ref \<Rightarrow> nat \<times> nat" where
  "entry t r = (let l = the (link_at t r) in (lt l, link_index l))"

definition content :: "xtab \<Rightarrow> nat \<Rightarrow> (nat \<times> nat) multiset" where
  "content t i = image_mset (entry t) (mset (refs t i))"

text \<open>The types of links between symbols, which come in pairs.\<close>

definition paired :: "nat \<Rightarrow> bool" where
  "paired l \<longleftrightarrow> 4 \<le> l \<and> l < 16 \<or> 20 \<le> l \<and> l < 24 \<or> 26 \<le> l \<and> l < 84"

lemma paired_types:
  "paired l \<Longrightarrow> l < 256" "paired l \<Longrightarrow> l \<noteq> lt_junk" "paired l \<Longrightarrow> l \<noteq> lt_last" "paired l \<Longrightarrow> \<not> num_link l"
  by (auto simp: paired_def link_types num_link_def)

lemma reverse_link: "get_reverse_link l = (if even l then Suc l else l - 1)"
  unfolding get_reverse_link_def xor_one_eq [of l] by (simp add: of_bool_def)

lemma paired_reverse: "paired l \<Longrightarrow> paired (get_reverse_link l)"
  by (auto simp: paired_def reverse_link elim!: evenE oddE)

lemma reverse_reverse: "get_reverse_link (get_reverse_link l) = l"
  unfolding get_reverse_link_def xor.assoc by (simp only: xor_self_eq xor.right_neutral)

definition conn :: "xtab \<Rightarrow> nat \<Rightarrow> (nat \<times> nat) multiset" where
  "conn t i = filter_mset (\<lambda>e. paired (fst e)) (content t i)"

text \<open>What the operations on links leave alone.\<close>

definition same_syms :: "xtab \<Rightarrow> xtab \<Rightarrow> bool" where
  "same_syms t u \<longleftrightarrow> map (\<lambda>s. s\<lparr>has_def_file := False\<rparr>) (syms t) = map (\<lambda>s. s\<lparr>has_def_file := False\<rparr>) (syms u) \<and>
     writable t = writable u \<and> link_is_writable t = link_is_writable u \<and> table_part t = table_part u"

lemma same_syms_length: "same_syms t u \<Longrightarrow> length (syms t) = length (syms u)"
  unfolding same_syms_def by (metis length_map)

lemma same_syms_fields:
  assumes "same_syms t u" "i < length (syms t)"
  shows "kind (syms t ! i) = kind (syms u ! i)" "symbol_index (syms t ! i) = symbol_index (syms u ! i)"
    "offset_to_start_link (syms t ! i) = offset_to_start_link (syms u ! i)"
proof -
  have "map (\<lambda>s. s\<lparr>has_def_file := False\<rparr>) (syms t) ! i = map (\<lambda>s. s\<lparr>has_def_file := False\<rparr>) (syms u) ! i"
    using assms(1) by (simp add: same_syms_def)
  then have "(syms t ! i)\<lparr>has_def_file := False\<rparr> = (syms u ! i)\<lparr>has_def_file := False\<rparr>"
    using assms(2) same_syms_length [OF assms(1)] by simp
  then show "kind (syms t ! i) = kind (syms u ! i)" "symbol_index (syms t ! i) = symbol_index (syms u ! i)"
    "offset_to_start_link (syms t ! i) = offset_to_start_link (syms u ! i)"
    by (cases "syms t ! i"; cases "syms u ! i"; simp)+
qed

lemma same_syms_refl [simp]: "same_syms t t" by (simp add: same_syms_def)

lemma same_syms_trans: "same_syms t u \<Longrightarrow> same_syms u v \<Longrightarrow> same_syms t v"
  by (simp add: same_syms_def)

lemma other_same_syms: "other_same u t \<Longrightarrow> same_syms t u"
  by (simp add: other_same_def same_syms_def)

text \<open>Fields that the places do not depend on.\<close>

definition same_places :: "xtab \<Rightarrow> xtab \<Rightarrow> bool" where
  "same_places t u \<longleftrightarrow> symbolIndex_table t = symbolIndex_table u \<and> link_file t = link_file u \<and>
     orig_link_offsets t = orig_link_offsets u \<and> same_syms t u"

lemma same_places_simps [simp]:
  "same_places t (t\<lparr>need_to_mv := b\<rparr>)" "same_places t (set_has_def b i t)" "same_places t t"
proof -
  let ?f = "\<lambda>s. s\<lparr>has_def_file := False\<rparr>"
  have "map ?f ((syms t)[i := (syms t ! i)\<lparr>has_def_file := b\<rparr>]) = (map ?f (syms t))[i := ?f ((syms t ! i)\<lparr>has_def_file := b\<rparr>)]"
    by (rule map_update)
  also have "?f ((syms t ! i)\<lparr>has_def_file := b\<rparr>) = ?f (syms t ! i)" by simp
  also have "(map ?f (syms t))[i := ?f (syms t ! i)] = map ?f (syms t)"
    unfolding map_update [of ?f "syms t" i "syms t ! i", symmetric] list_update_id ..
  finally have "map ?f (syms t) = map ?f ((syms t)[i := (syms t ! i)\<lparr>has_def_file := b\<rparr>])" ..
  then show "same_places t (t\<lparr>need_to_mv := b\<rparr>)" "same_places t (set_has_def b i t)" "same_places t t"
    by (simp_all add: same_places_def same_syms_def set_has_def_def table_part_def)
qed

text \<open>The places depend on the links and on the indexes of the symbols.\<close>

definition same_views :: "xtab \<Rightarrow> xtab \<Rightarrow> bool" where
  "same_views t u \<longleftrightarrow> symbolIndex_table t = symbolIndex_table u \<and> link_file t = link_file u \<and>
     orig_link_offsets t = orig_link_offsets u \<and> length (syms t) = length (syms u) \<and> link_is_writable t = link_is_writable u \<and>
     (\<forall>j < length (syms t). symbol_index (syms t ! j) = symbol_index (syms u ! j) \<and>
       offset_to_start_link (syms t ! j) = offset_to_start_link (syms u ! j))"

lemma same_places_views: "same_places t u \<Longrightarrow> same_views t u"
  unfolding same_places_def same_views_def using same_syms_fields same_syms_length unfolding same_syms_def by metis

lemma same_views:
  assumes p: "same_views t u"
  shows "links_ok t = links_ok u" "i < length (syms t) \<Longrightarrow> refs t i = refs u i" "entry t r = entry u r"
    "link_at t r = link_at u r" "i < length (syms t) \<Longrightarrow> content t i = content u i"
    "i < length (syms t) \<Longrightarrow> conn t i = conn u i" "can_link t = can_link u"
proof -
  have n: "length (syms t) = length (syms u)" and w: "link_is_writable t = link_is_writable u"
    using p unfolding same_views_def by blast+
  have x: "symbolIndex_table t = symbolIndex_table u" "link_file t = link_file u" "orig_link_offsets t = orig_link_offsets u"
    using p by (simp_all add: same_views_def)
  have fl: "file_links t k = file_links u k" for k by (simp add: file_links_def x)
  have f: "file_ok t off = file_ok u off" "file_refs t off = file_refs u off" for off
    by (simp_all add: file_ok_def file_refs_def fl x)
  have s: "symbol_index (syms t ! j) = symbol_index (syms u ! j)"
    "offset_to_start_link (syms t ! j) = offset_to_start_link (syms u ! j)" if "j < length (syms t)" for j
    using p that unfolding same_views_def by blast+
  have r: "refs t j = refs u j" "shape_ok t j = shape_ok u j" if "j < length (syms t)" for j
  proof -
    have "arr t j = arr u j" by (simp only: arr_def x s(1) [OF that])
    moreover have "offset t j = offset u j" by (simp only: offset_def x s [OF that])
    ultimately show "refs t j = refs u j" "shape_ok t j = shape_ok u j"
      by (simp_all only: refs_def shape_ok_def f s(1) [OF that])
  qed
  have a: "link_at t q = link_at u q" for q by (cases q) (simp_all add: link_at_def x)
  have e: "entry t q = entry u q" for q by (simp add: entry_def a)
  show "i < length (syms t) \<Longrightarrow> refs t i = refs u i" by (rule r)
  show "entry t r = entry u r" "link_at t r = link_at u r" by (rule e, rule a)
  have "entry t = entry u" by (rule ext) (rule e)
  then show c: "content t i = content u i" if "i < length (syms t)" for i
    using r(1) [OF that] by (simp add: content_def)
  show "i < length (syms t) \<Longrightarrow> conn t i = conn u i" by (simp add: conn_def c)
  show "links_ok t = links_ok u" unfolding links_ok_def x n [symmetric] using r s by auto
  show "can_link t = can_link u" by (simp add: can_link_def x w)
qed

lemmas same_places = same_views [OF same_places_views]

section \<open>Writing and adding\<close>

lemma entry_in: "r \<in> set (refs t i) \<Longrightarrow> entry t r \<in># content t i"
  by (auto simp: content_def)

lemma assign_content:
  assumes ok: "links_ok t" and i: "i < length (syms t)" and r: "r \<in> set (refs t i)" and l: "lt l \<noteq> lt_last"
  shows "links_ok (assign r l t)"
    "content (assign r l t) i = add_mset (lt l, link_index l) (content t i - {#entry t r#})"
    "j < length (syms t) \<Longrightarrow> j \<noteq> i \<Longrightarrow> content (assign r l t) j = content t j"
    "same_syms t (assign r l t)" "can_link (assign r l t) = can_link t"
proof -
  let ?u = "assign r l t"
  show "links_ok ?u" by (rule assign_refs(2) [OF assms])
  show "same_syms t ?u" using assign_same(1) other_same_syms by blast
  have at: "link_at ?u r' = (if r' = r then Some l else link_at t r')" if "r' \<in> set (refs t j)" "j < length (syms t)" for r' j
    using assign_refs(3) [OF assms that] .
  have rf: "refs ?u j = refs t j" if "j < length (syms t)" for j using assign_refs(1) [OF assms that] by simp
  define M where "M = mset (remove1 r (refs t i))"
  have split: "mset (refs t i) = add_mset r M" using r by (simp add: M_def)
  have "set_mset M = set (refs t i) - {r}"
    unfolding M_def set_mset_mset by (rule set_remove1_eq [OF distinct_refs])
  then have "image_mset (entry ?u) M = image_mset (entry t) M"
    using at [OF _ i] by (intro image_mset_cong) (simp add: entry_def)
  moreover have "entry ?u r = (lt l, link_index l)" using at [OF r i] by (simp add: entry_def)
  ultimately show "content ?u i = add_mset (lt l, link_index l) (content t i - {#entry t r#})"
    by (simp add: content_def rf [OF i] split)
  show "content ?u j = content t j" if j: "j < length (syms t)" "j \<noteq> i"
  proof -
    have "image_mset (entry ?u) (mset (refs t j)) = image_mset (entry t) (mset (refs t j))"
    proof (rule image_mset_cong)
      fix q assume "q \<in># mset (refs t j)"
      then have q: "q \<in> set (refs t j)" by simp
      then have "q \<noteq> r" using r links_okD(5) [OF ok i j(1)] j(2) by auto
      then show "entry ?u q = entry t q" using at [OF q j(1)] by (simp add: entry_def)
    qed
    then show ?thesis by (simp add: content_def rf [OF j(1)])
  qed
  show "can_link ?u = can_link t"
    by (auto simp: can_link_def assign_def split: link_ref.splits option.splits)
qed

lemma new_content:
  assumes ok: "links_ok t" and i: "i < length (syms t)" and c: "can_link t"
  shows "\<exists>r u. spot_place i No_spot t = Some (Some r, u) \<and> link_at u r = Some last_link \<and> same_syms t u \<and>
    (\<forall>l. lt l \<noteq> lt_last \<longrightarrow> links_ok (assign r l u) \<and> content (assign r l u) i = add_mset (lt l, link_index l) (content t i) \<and>
       (\<forall>j < length (syms t). j \<noteq> i \<longrightarrow> content (assign r l u) j = content t j) \<and>
       same_syms t (assign r l u) \<and> can_link (assign r l u))"
proof -
  obtain r u where ru: "spot_place i No_spot t = Some (Some r, u)" "link_at u r = Some last_link" "other_same u t"
      "\<forall>j < length (syms t). r \<notin> set (refs t j)"
      "\<forall>l. lt l \<noteq> lt_last \<longrightarrow> links_ok (assign r l u) \<and> mset (refs (assign r l u) i) = add_mset r (mset (refs t i)) \<and>
       (\<forall>j < length (syms t). j \<noteq> i \<longrightarrow> refs (assign r l u) j = refs t j) \<and> link_at (assign r l u) r = Some l \<and>
       (\<forall>j < length (syms t). \<forall>r' \<in> set (refs t j). link_at (assign r l u) r' = link_at t r')"
    using new_place [OF assms] by (elim exE conjE)
  have "links_ok (assign r l u) \<and> content (assign r l u) i = add_mset (lt l, link_index l) (content t i) \<and>
       (\<forall>j < length (syms t). j \<noteq> i \<longrightarrow> content (assign r l u) j = content t j) \<and>
       same_syms t (assign r l u) \<and> can_link (assign r l u)" if l: "lt l \<noteq> lt_last" for l
  proof -
    let ?v = "assign r l u"
    have v: "links_ok ?v" "mset (refs ?v i) = add_mset r (mset (refs t i))" "link_at ?v r = Some l"
      "\<And>j. j < length (syms t) \<Longrightarrow> j \<noteq> i \<Longrightarrow> refs ?v j = refs t j"
      "\<And>j r'. j < length (syms t) \<Longrightarrow> r' \<in> set (refs t j) \<Longrightarrow> link_at ?v r' = link_at t r'"
      using ru(5) l by blast+
    have im: "image_mset (entry ?v) (mset (refs t j)) = image_mset (entry t) (mset (refs t j))" if "j < length (syms t)" for j
      by (rule image_mset_cong) (use v(5) [OF that] in \<open>simp add: entry_def\<close>)
    have "content ?v i = add_mset (lt l, link_index l) (content t i)"
      using im [OF i] by (simp add: content_def v(2)) (simp add: entry_def v(3))
    moreover have "content ?v j = content t j" if "j < length (syms t)" "j \<noteq> i" for j
      using im [OF that(1)] by (simp add: content_def v(4) [OF that])
    moreover have "same_syms t ?v"
      using ru(3) assign_same(1) [of r l u] by (auto simp: other_same_def same_syms_def)
    moreover have "can_link ?v"
    proof -
      have "r \<in> set (refs ?v i)" using v(2) by (metis set_mset_add_mset_insert set_mset_mset insertI1)
      moreover have "symbolIndex_table ?v \<noteq> None \<or> link_is_writable t" using c
        using ru(1) by (auto simp: spot_place_def make_new_link_def can_link_def assign_def Let_def init_symbolIndex_table_def
            split: option.splits link_ref.splits if_splits)
      ultimately show ?thesis using \<open>same_syms t ?v\<close> by (auto simp: can_link_def same_syms_def)
    qed
    ultimately show ?thesis using v(1) by blast
  qed
  then show ?thesis using ru(1, 2, 3) other_same_syms by blast
qed


section \<open>Changes of the connections\<close>

definition becomes :: "xtab \<Rightarrow> (nat \<Rightarrow> (nat \<times> nat) multiset) \<Rightarrow> xtab \<Rightarrow> bool" where
  "becomes t C u \<longleftrightarrow> links_ok u \<and> can_link u \<and> same_syms t u \<and> (\<forall>j < length (syms t). conn u j = C j)"

lemma becomes_trans:
  assumes "becomes t C u" "becomes u D v" "\<And>j. j < length (syms t) \<Longrightarrow> D j = E j"
  shows "becomes t E v"
  using assms same_syms_trans [of t u v] same_syms_length [of t u] by (auto simp: becomes_def)

lemma becomes_cong:
  "becomes t C u \<Longrightarrow> (\<And>j. j < length (syms t) \<Longrightarrow> C j = D j) \<Longrightarrow> becomes t D u"
  by (simp add: becomes_def)

lemma same_places_becomes:
  assumes "same_places t u" "links_ok t" "can_link t"
  shows "becomes t (conn t) u"
  using same_places [OF assms(1)] assms by (auto simp: becomes_def same_places_def)

lemma conn_split:
  "content u i = add_mset (a, b) (content t i - {#e#}) \<Longrightarrow>
   conn u i = (if paired a then {#(a, b)#} else {#}) + (conn t i - (if paired (fst e) then {#e#} else {#}))"
  by (simp add: conn_def)

lemma assign_becomes:
  assumes "links_ok t" "can_link t" "i < length (syms t)" "r \<in> set (refs t i)" "lt l \<noteq> lt_last"
  shows "becomes t ((conn t)(i := (if paired (lt l) then {#(lt l, link_index l)#} else {#}) +
    (conn t i - (if paired (fst (entry t r)) then {#entry t r#} else {#})))) (assign r l t)"
  using assign_content(1, 2, 4, 5) [OF assms(1, 3-5)] assign_content(3) [OF assms(1, 3-5)] conn_split assms(2)
  by (auto simp: becomes_def conn_def)

lemma entry_not_last: "links_ok t \<Longrightarrow> i < length (syms t) \<Longrightarrow> e \<in># content t i \<Longrightarrow> fst e \<noteq> lt_last"
  using refs_links [OF links_okD(2)] by (fastforce simp: content_def entry_def Let_def)

lemma new_becomes:
  assumes ok: "links_ok t" "can_link t" "i < length (syms t)"
  shows "\<exists>r u. spot_place i No_spot t = Some (Some r, u) \<and> link_at u r = Some last_link \<and> same_syms t u \<and>
    (\<forall>l. lt l \<noteq> lt_last \<longrightarrow>
      becomes t ((conn t)(i := (if paired (lt l) then {#(lt l, link_index l)#} else {#}) + conn t i)) (assign r l u))"
proof -
  obtain r u where ru: "spot_place i No_spot t = Some (Some r, u)" "link_at u r = Some last_link" "same_syms t u"
    "\<forall>l. lt l \<noteq> lt_last \<longrightarrow> links_ok (assign r l u) \<and> content (assign r l u) i = add_mset (lt l, link_index l) (content t i) \<and>
       (\<forall>j < length (syms t). j \<noteq> i \<longrightarrow> content (assign r l u) j = content t j) \<and>
       same_syms t (assign r l u) \<and> can_link (assign r l u)"
    using new_content [OF ok(1, 3, 2)] by (elim exE conjE)
  then show ?thesis by (intro exI [of _ r] exI [of _ u]) (simp add: becomes_def conn_def)
qed

end
