(* ===== verification/Xref_Link_Operations.thy ===== *)
theory Xref_Link_Operations
  imports Xref_Link_Content
begin

text \<open>
  What removing and adding a link do to the connections of a table: the search for a place, the
  dates of files, which leave the connections alone, and the operations on one symbol.
\<close>

section \<open>The search for a place\<close>

lemma sym_spot_Exists: "sym_spot l idx ls j = Exists \<Longrightarrow> \<exists>(r, k) \<in> set ls. lt k = l \<and> link_index k = idx"
proof (induction ls arbitrary: j)
  case Nil
  then show ?case by (simp split: option.splits)
next
  case (Cons x ls)
  obtain q k where x: "x = (q, k)" by (cases x)
  from Cons.prems consider "lt k = l" "link_index k = idx"
    | "sym_spot l idx ls (if lt k = lt_junk \<and> j = None then Some q else j) = Exists"
    by (auto simp: x split: if_splits)
  then show ?case by cases (use Cons.IH x in auto)
qed

lemma sym_spot_Spot:
  "sym_spot l idx ls j = Spot r \<Longrightarrow>
   (\<exists>k. (r, k) \<in> set ls \<and> lt k = l \<and> unique_link l \<and> link_index k \<noteq> idx) \<or>
   (\<forall>(r, k) \<in> set ls. lt k \<noteq> l \<or> link_index k \<noteq> idx \<and> \<not> unique_link l) \<and> (j = Some r \<or> (\<exists>k. (r, k) \<in> set ls \<and> lt k = lt_junk))"
proof (induction ls arbitrary: j)
  case Nil
  then show ?case by (auto split: option.splits)
next
  case (Cons x ls)
  obtain q k where x: "x = (q, k)" by (cases x)
  from Cons.prems consider "lt k = l" "unique_link l" "link_index k \<noteq> idx" "q = r"
    | "lt k \<noteq> l \<or> link_index k \<noteq> idx \<and> \<not> unique_link l"
      "sym_spot l idx ls (if lt k = lt_junk \<and> j = None then Some q else j) = Spot r"
    by (auto simp: x split: if_splits)
  then show ?case
  proof cases
    case 1
    then show ?thesis by (auto simp: x)
  next
    case 2
    from Cons.IH [OF 2(2)] 2(1) show ?thesis by (auto simp: x split: if_splits)
  qed
qed

lemma sym_spot_No_spot:
  "sym_spot l idx ls j = No_spot \<Longrightarrow> \<forall>(r, k) \<in> set ls. lt k \<noteq> l \<or> link_index k \<noteq> idx \<and> \<not> unique_link l"
proof (induction ls arbitrary: j)
  case Nil
  then show ?case by simp
next
  case (Cons x ls)
  obtain q k where x: "x = (q, k)" by (cases x)
  have a: "lt k \<noteq> l \<or> link_index k \<noteq> idx \<and> \<not> unique_link l"
    and b: "sym_spot l idx ls (if lt k = lt_junk \<and> j = None then Some q else j) = No_spot"
    using Cons.prems by (auto simp: x split: if_splits)
  from Cons.IH [OF b] a show ?case by (simp add: x)
qed

lemma num_spot_Spot:
  "num_spot lin ls j = Spot r \<Longrightarrow>
   (\<exists>k. (r, k) \<in> set ls \<and> (lt k = lt lin \<or> lt k = lt_junk)) \<or> j = Some r"
proof (induction ls arbitrary: j)
  case Nil
  then show ?case by (auto split: option.splits)
next
  case (Cons x ls)
  obtain q k where x: "x = (q, k)" by (cases x)
  from Cons.prems consider "lt k = lt lin" "q = r"
    | "num_spot lin ls (if lt k = lt_junk \<and> j = None then Some q else j) = Spot r"
    by (auto simp: x split: if_splits)
  then show ?case
  proof cases
    case 1
    then show ?thesis by (auto simp: x)
  next
    case 2
    from Cons.IH [OF 2] show ?thesis by (auto simp: x split: if_splits)
  qed
qed

lemma refs_member:
  "(r, k) \<in> set (map (\<lambda>r. (r, the (link_at t r))) (refs t i)) \<longleftrightarrow> r \<in> set (refs t i) \<and> k = the (link_at t r)"
  by auto

lemma entry_place: "entry t r = (lt (the (link_at t r)), link_index (the (link_at t r)))"
  by (simp add: entry_def Let_def)

lemma conn_member: "paired l \<Longrightarrow> (l, x) \<in># conn t i \<longleftrightarrow> (\<exists>r \<in> set (refs t i). entry t r = (l, x))"
  by (force simp: conn_def content_def)

lemma flagged_places [simp]: "link_at (t\<lparr>need_to_mv := b\<rparr>) = link_at t" "entry (t\<lparr>need_to_mv := b\<rparr>) = entry t"
proof -
  have "same_places t (t\<lparr>need_to_mv := b\<rparr>)" by simp
  then show "link_at (t\<lparr>need_to_mv := b\<rparr>) = link_at t" "entry (t\<lparr>need_to_mv := b\<rparr>) = entry t"
    using same_places(3, 4) by (intro ext, metis)+
qed

section \<open>The dates\<close>

lemma junk_link: "lt (mk_link lt_junk 0) = lt_junk" "link_index (mk_link lt_junk 0) = 0" "lt_junk \<noteq> lt_last" "\<not> paired lt_junk"
  by (simp_all add: mk_link_def link_types paired_def)

lemma flagged:
  assumes "links_ok t" "can_link t"
  shows "becomes t (conn t) (t\<lparr>need_to_mv := b\<rparr>)" "becomes t (conn t) (set_has_def b' i t)" "becomes t (conn t) t"
  using assms by (simp_all add: same_places_becomes)

lemma unpaired_assign:
  assumes "links_ok t" "can_link t" "i < length (syms t)" "r \<in> set (refs t i)" "\<not> paired (lt l)" "lt l \<noteq> lt_last"
    "\<not> paired (fst (entry t r))"
  shows "becomes t (conn t) (assign r l t)"
  using becomes_cong [OF assign_becomes [OF assms(1-4, 6)]] assms(5, 7) by simp

lemma becomes_again:
  assumes "becomes t (conn t) u" "becomes u (conn u) v"
  shows "becomes t (conn t) v"
  by (rule becomes_trans [OF assms]) (use assms(1) in \<open>simp add: becomes_def\<close>)

lemma becomes_ok:
  assumes "becomes t C u"
  shows "links_ok u" "can_link u" "same_syms t u" "length (syms u) = length (syms t)" "writable u = writable t"
    "j < length (syms t) \<Longrightarrow> conn u j = C j"
proof -
  have b: "links_ok u \<and> can_link u \<and> same_syms t u \<and> (\<forall>j < length (syms t). conn u j = C j)"
    using assms unfolding becomes_def .
  then show "links_ok u" "can_link u" "same_syms t u" "j < length (syms t) \<Longrightarrow> conn u j = C j" by blast+
  show "length (syms u) = length (syms t)" using b same_syms_length by metis
  show "writable u = writable t" using b unfolding same_syms_def by metis
qed

lemma rm_num_link_becomes:
  assumes "links_ok t" "can_link t" "i < length (syms t)" "\<not> paired l"
  shows "\<exists>u. rm_num_link l i t = Some u \<and> becomes t (conn t) u"
proof (cases "writable t")
  case True
  let ?ls = "map (\<lambda>r. (r, the (link_at t r))) (refs t i)"
  have ls: "links_of i t = Some ?ls" by (rule links_of_refs [OF links_okD(2) [OF assms(1, 3)]])
  show ?thesis
  proof (cases "find (\<lambda>(r, k). lt k = l) ?ls")
    case None
    then show ?thesis using True ls flagged(3) [OF assms(1, 2)] by (simp add: rm_num_link_def)
  next
    case (Some x)
    obtain r k where x: "x = (r, k)" by (cases x)
    let ?t = "t\<lparr>need_to_mv := True\<rparr>"
    have f: "(r, k) \<in> set ?ls" "lt k = l" using Some x by (auto simp: find_Some_iff)
    have sp: "same_places t ?t" by simp
    note b = flagged(1) [OF assms(1, 2), of True]
    have "becomes ?t (conn ?t) (assign r (mk_link lt_junk 0) ?t)"
    proof (rule unpaired_assign)
      show "r \<in> set (refs ?t i)" using f(1) same_places(2) [OF sp assms(3)] unfolding refs_member by simp
      show "\<not> paired (fst (entry ?t r))"
        using f assms(4) unfolding refs_member entry_place by auto
    qed (use b assms(3) junk_link in \<open>simp_all add: becomes_def\<close>)
    then show ?thesis using becomes_again [OF b] True ls Some x by (simp add: rm_num_link_def)
  qed
next
  case False
  then show ?thesis using flagged(3) [OF assms(1, 2)] by (simp add: rm_num_link_def)
qed

lemma add_num_link_becomes:
  assumes "links_ok t" "can_link t" "i < length (syms t)" "num_link l"
  shows "\<exists>u. add_num_link l n i t = Some u \<and> becomes t (conn t) u"
proof (cases "writable t")
  case True
  let ?t = "t\<lparr>need_to_mv := True\<rparr>" and ?l = "mk_link l n"
  note b = flagged(1) [OF assms(1, 2), of True]
  have i: "i < length (syms ?t)" using assms(3) by simp
  let ?ls = "map (\<lambda>r. (r, the (link_at ?t r))) (refs ?t i)"
  have ls: "links_of i ?t = Some ?ls" by (rule links_of_refs [OF links_okD(2) [OF becomes_ok(1) [OF b] i]])
  have np: "\<not> paired (lt ?l)" "lt ?l = l" "lt ?l \<noteq> lt_last"
    using assms(4) by (auto simp: mk_link_def num_link_def link_types paired_def)
  show ?thesis
  proof (cases "num_spot ?l ?ls None")
    case Exists
    then show ?thesis using True ls b by (simp add: add_num_link_def get_spot_to_insert_num_def spot_place_def)
  next
    case p: (Spot r)
    obtain k where k: "(r, k) \<in> set ?ls" "lt k = l \<or> lt k = lt_junk" using num_spot_Spot [OF p] np(2) by auto
    have "becomes ?t (conn ?t) (assign r ?l ?t)"
    proof (rule unpaired_assign)
      show "r \<in> set (refs ?t i)" using k(1) unfolding refs_member by simp
      show "\<not> paired (fst (entry ?t r))" using k np junk_link(4) unfolding refs_member entry_place by auto
    qed (use becomes_ok [OF b] i np in simp_all)
    then show ?thesis
      using becomes_again [OF b] True ls p by (simp add: add_num_link_def get_spot_to_insert_num_def spot_place_def)
  next
    case No_spot
    obtain r u where ru: "spot_place i No_spot ?t = Some (Some r, u)"
        "\<forall>l. lt l \<noteq> lt_last \<longrightarrow>
          becomes ?t ((conn ?t)(i := (if paired (lt l) then {#(lt l, link_index l)#} else {#}) + conn ?t i)) (assign r l u)"
      using new_becomes [OF becomes_ok(1, 2) [OF b] i] by (elim exE conjE)
    from ru(2) np(3) have "becomes ?t ((conn ?t)(i := (if paired (lt ?l) then {#(lt ?l, link_index ?l)#} else {#}) + conn ?t i)) (assign r ?l u)"
      by blast
    then have "becomes ?t (conn ?t) (assign r ?l u)" using np(1) by simp
    then show ?thesis
      using becomes_again [OF b] True ls No_spot ru(1) by (simp add: add_num_link_def get_spot_to_insert_num_def)
  qed
next
  case False
  then show ?thesis using flagged(3) [OF assms(1, 2)] by (simp add: add_num_link_def)
qed


lemma get_last_mod_date_found:
  assumes "links_ok t" "i < length (syms t)"
  shows "\<exists>d. get_last_mod_date i t = Some d"
  using links_of_refs [OF links_okD(2) [OF assms]]
  by (simp add: get_last_mod_date_def get_link_offset_def Let_def)

lemma then_becomes:
  assumes "becomes t (conn t) u" "i < length (syms t)"
    and "links_ok u \<Longrightarrow> can_link u \<Longrightarrow> i < length (syms u) \<Longrightarrow> \<exists>v. f u = Some v \<and> becomes u (conn u) v"
  shows "\<exists>v. f u = Some v \<and> becomes t (conn t) v"
  using assms(3) becomes_ok(1, 2, 4) [OF assms(1)] assms(2) becomes_again [OF assms(1)] by fastforce

lemma clear_dates_becomes:
  assumes "links_ok t" "can_link t" "i < length (syms t)"
  shows "\<exists>u. clear_dates n i t = Some u \<and> becomes t (conn t) u"
  using assms
proof (induction n arbitrary: t)
  case 0
  then show ?case
    using get_last_mod_date_found [of t i] flagged(3) [of t] by (subst clear_dates.simps) auto
next
  case (Suc n)
  obtain d where d: "get_last_mod_date i t = Some d" using get_last_mod_date_found Suc.prems by blast
  have np: "\<not> paired lt_lmd" "\<not> paired lt_lmdhigh" by (simp_all add: paired_def link_types)
  obtain u where u: "rm_num_link lt_lmd i t = Some u" "becomes t (conn t) u"
    using rm_num_link_becomes [OF Suc.prems np(1)] by blast
  obtain v where v: "rm_num_link lt_lmdhigh i u = Some v" "becomes t (conn t) v"
    using then_becomes [OF u(2) Suc.prems(3), of "rm_num_link lt_lmdhigh i"] rm_num_link_becomes np(2) by blast
  obtain w where "clear_dates n i v = Some w" "becomes t (conn t) w"
    using then_becomes [OF v(2) Suc.prems(3), of "clear_dates n i"] Suc.IH by blast
  then show ?case
    using d u v flagged(3) [OF Suc.prems(1, 2)] by (subst clear_dates.simps) simp
qed

lemma set_last_mod_date_becomes:
  assumes "links_ok t" "can_link t" "i < length (syms t)"
  shows "\<exists>u. set_last_mod_date d i t = Some u \<and> becomes t (conn t) u"
proof (cases "d = 0 \<or> \<not> writable t")
  case True
  then show ?thesis using flagged(3) [OF assms(1, 2)] by (auto simp: set_last_mod_date_def)
next
  case False
  have n: "num_link lt_lmd" "num_link lt_lmdhigh" by (simp_all add: num_link_def)
  obtain u where u: "clear_dates 10 i t = Some u" "becomes t (conn t) u"
    using clear_dates_becomes [OF assms] by blast
  obtain v where v: "add_num_link lt_lmd (d mod 2 ^ 24) i u = Some v" "becomes t (conn t) v"
    using then_becomes [OF u(2) assms(3), of "add_num_link lt_lmd (d mod 2 ^ 24) i"] add_num_link_becomes n(1) by blast
  obtain w where w: "add_num_link lt_lmdhigh (d div 2 ^ 24) i v = Some w" "becomes t (conn t) w"
    using then_becomes [OF v(2) assms(3), of "add_num_link lt_lmdhigh (d div 2 ^ 24) i"] add_num_link_becomes n(2) by blast
  show ?thesis using False u v w by (simp add: set_last_mod_date_def)
qed

section \<open>The links of one symbol\<close>

lemma find_place: "map_option fst (find P (map (\<lambda>r. (r, g r)) rs)) = find (\<lambda>r. P (r, g r)) rs"
  by (induction rs) simp_all

lemma find_paired:
  assumes "links_ok t" "i < length (syms t)" "j < length (syms t)" "paired l"
  shows "\<exists>f. find_link l j i t = Some f \<and>
    (case f of None \<Rightarrow> (l, j + 1) \<notin># conn t i | Some r \<Rightarrow> r \<in> set (refs t i) \<and> entry t r = (l, j + 1))"
proof -
  have "find_link l j i t = Some (find (\<lambda>r. entry t r = (l, j + 1)) (refs t i))"
    using links_okD(1) [OF assms(1, 3)] paired_types(4) [OF assms(4)]
    by (simp add: find_link_def links_of_refs [OF links_okD(2) [OF assms(1, 2)]] find_place entry_place num_link_def)
  then show ?thesis
    unfolding conn_member [OF assms(4)]
    by (auto simp: find_None_iff find_Some_iff split: option.splits)
qed

lemma rm_link1_becomes:
  assumes ok: "links_ok t" "can_link t" "i < length (syms t)" "j < length (syms t)" and p: "paired l" and w: "writable t"
  shows "\<exists>u. rm_link1 l j i t = Some u \<and> becomes t ((conn t)(i := conn t i - {#(l, j + 1)#})) u"
proof -
  obtain f where f: "find_link l j i t = Some f"
    "case f of None \<Rightarrow> (l, j + 1) \<notin># conn t i | Some r \<Rightarrow> r \<in> set (refs t i) \<and> entry t r = (l, j + 1)"
    using find_paired [OF ok(1, 3, 4) p] by blast
  show ?thesis
  proof (cases f)
    case None
    then have "becomes t ((conn t)(i := conn t i - {#(l, j + 1)#})) t"
      using f(2) becomes_cong [OF flagged(3) [OF ok(1, 2)]] by (simp add: diff_single_trivial)
    then show ?thesis using f None w by (simp add: rm_link1_def)
  next
    case (Some r)
    let ?t = "t\<lparr>need_to_mv := True\<rparr>"
    let ?u = "assign r (mk_link lt_junk 0) ?t" and ?C = "(conn t)(i := conn t i - {#(l, j + 1)#})"
    note b = flagged(1) [OF ok(1, 2), of True]
    have sp: "same_places t ?t" by simp
    have r: "r \<in> set (refs ?t i)" "entry ?t r = (l, j + 1)"
      using f(2) Some same_places(2) [OF sp ok(3)] by simp_all
    have "becomes ?t ((conn ?t)(i := (if paired (lt (mk_link lt_junk 0)) then {#(lt (mk_link lt_junk 0), link_index (mk_link lt_junk 0))#} else {#})
      + (conn ?t i - (if paired (fst (entry ?t r)) then {#entry ?t r#} else {#})))) ?u"
      by (rule assign_becomes) (use becomes_ok [OF b] ok r junk_link in simp_all)
    then have "becomes ?t ((conn ?t)(i := conn ?t i - {#(l, j + 1)#})) ?u"
      unfolding r(2) junk_link(1) using junk_link(4) p by simp
    then have u: "becomes t ?C ?u"
      by (rule becomes_trans [OF b]) (use same_places(6) [OF sp] ok(3) in simp)
    have step: "\<exists>v. g = Some v \<and> becomes t ?C v" if gd: "\<exists>v. g = Some v \<and> becomes ?u (conn ?u) v" for g
      using gd becomes_trans [OF u] becomes_ok(6) [OF u] by blast
    have "\<exists>v. set_last_mod_date 1 i ?u = Some v \<and> becomes ?u (conn ?u) v"
      by (rule set_last_mod_date_becomes) (use becomes_ok [OF u] ok in simp_all)
    moreover have "\<exists>v. Some (set_has_def False i ?u) = Some v \<and> becomes ?u (conn ?u) v"
      using flagged(2) becomes_ok(1, 2) [OF u] by blast
    moreover have "\<exists>v. Some ?u = Some v \<and> becomes ?u (conn ?u) v"
      using flagged(3) becomes_ok(1, 2) [OF u] by blast
    ultimately have "\<exists>v. (if l = is_defined_in then Some (set_has_def False i ?u)
        else if l = is_defining \<and> kind (syms ?u ! i) = DD_MODULE then set_last_mod_date 1 i ?u else Some ?u) = Some v \<and>
      becomes ?u (conn ?u) v" by simp
    from step [OF this] show ?thesis
      using f(1) Some w paired_types(2) [OF p] by (simp only: rm_link1_def Let_def bind.bind_lunit option.case
          not_not not_True_eq_False if_False HOL.simp_thms)
  qed
qed


text \<open>Where a link is written, when it does not replace a link of another symbol.\<close>

lemma assign_has_def: "assign r l (set_has_def b i t) = set_has_def b i (assign r l t)"
  by (cases r) (simp_all add: assign_def set_has_def_def split: option.split)

lemma add_link_at:
  assumes "writable t" "l \<noteq> lt_junk" "get_spot_to_insert_link l j i (t\<lparr>need_to_mv := True\<rparr>) = Some (Some r, u)"
    "link_at u r = Some k" "l \<noteq> has_type \<or> lt k \<noteq> l"
    "l = is_defined_in \<longrightarrow> kind (syms u ! i) \<noteq> DD_MODULE \<or> i \<noteq> j \<or> same"
  shows "add_link same l j i t =
    Some (if l = is_defined_in then set_has_def True i (assign r (mk_link l (symbol_index (syms u ! j))) u)
          else assign r (mk_link l (symbol_index (syms u ! j))) u)"
  using assms by (auto simp: add_link_def Let_def assign_has_def)

lemma get_spot:
  assumes "links_ok t" "i < length (syms t)" "j < length (syms t)"
  shows "get_spot_to_insert_link l j i t = spot_place i (sym_spot l (j + 1) (map (\<lambda>r. (r, the (link_at t r))) (refs t i)) None) t"
  using links_okD(1) [OF assms(1, 3)] by (simp add: get_spot_to_insert_link_def links_of_refs [OF links_okD(2) [OF assms(1, 2)]])

lemma mk_link_fields: "paired l \<Longrightarrow> lt (mk_link l x) = l" "x < 2 ^ 24 \<Longrightarrow> link_index (mk_link l x) = x"
  using paired_types(1) by (simp_all add: mk_link_def)

lemma add_link_becomes:
  assumes ok: "links_ok t" "can_link t" "i < length (syms t)" "j < length (syms t)" "j + 1 < 2 ^ 24"
    and p: "paired l" and w: "writable t"
    and d: "l = is_defined_in \<longrightarrow> kind (syms t ! i) \<noteq> DD_MODULE \<or> i \<noteq> j \<or> same"
    and one: "\<And>x. unique_link l \<Longrightarrow> (l, x) \<in># conn t i \<Longrightarrow> x = j + 1"
  shows "\<exists>u. add_link same l j i t = Some u \<and>
    becomes t ((conn t)(i := (if (l, j + 1) \<in># conn t i then conn t i else add_mset (l, j + 1) (conn t i)))) u"
proof -
  let ?t = "t\<lparr>need_to_mv := True\<rparr>" and ?l = "mk_link l (j + 1)"
  let ?C = "(conn t)(i := (if (l, j + 1) \<in># conn t i then conn t i else add_mset (l, j + 1) (conn t i)))"
  note b = flagged(1) [OF ok(1, 2), of True]
  have sp: "same_places t ?t" by simp
  have bt: "links_ok ?t" "can_link ?t" "i < length (syms ?t)" "j < length (syms ?t)" using becomes_ok [OF b] ok by simp_all
  let ?ls = "map (\<lambda>r. (r, the (link_at ?t r))) (refs ?t i)"
  note spot = get_spot [OF bt(1, 3, 4), of l]
  have rf: "refs ?t i = refs t i" using same_places(2) [OF sp ok(3)] by simp
  have ct: "conn ?t j = conn t j" if "j < length (syms t)" for j using same_places(6) [OF sp that] by simp
  have f: "lt ?l = l" "link_index ?l = j + 1" "l \<noteq> lt_last" "l \<noteq> lt_junk"
    using mk_link_fields(1) [OF p] mk_link_fields(2) [OF ok(5)] paired_types [OF p] by simp_all
  have finish: ?thesis if place: "get_spot_to_insert_link l j i ?t = Some (Some r, u)" "link_at u r = Some k"
      "lt k \<noteq> l" "same_syms ?t u" "(l, j + 1) \<notin># conn t i"
      "becomes ?t ((conn ?t)(i := add_mset (l, j + 1) (conn ?t i))) (assign r ?l u)" for r u k
  proof -
    let ?u = "assign r ?l u"
    have k: "kind (syms u ! i) = kind (syms t ! i)" "symbol_index (syms u ! j) = j + 1"
      using same_syms_fields [OF place(4)] ok links_okD(1) [OF ok(1, 4)] by simp_all
    have c: "becomes t ?C ?u"
      by (rule becomes_trans [OF b place(6)]) (use place(5) ct in simp)
    have "becomes t ?C (set_has_def True i ?u)"
      by (rule becomes_trans [OF c flagged(2)]) (use becomes_ok [OF c] in simp_all)
    with c have "becomes t ?C (if l = is_defined_in then set_has_def True i ?u else ?u)"
      by (cases "l = is_defined_in") (simp_all only: if_True if_False simp_thms)
    moreover have "add_link same l j i t = Some (if l = is_defined_in then set_has_def True i ?u else ?u)"
      using add_link_at [OF w f(4) place(1, 2), of same] place(3) d unfolding k by blast
    ultimately show ?thesis by blast
  qed
  show ?thesis
  proof (cases "sym_spot l (j + 1) ?ls None")
    case Exists
    have "\<exists>r \<in> set (refs t i). entry t r = (l, j + 1)"
      using sym_spot_Exists [OF Exists] by (auto simp: rf entry_place)
    then have "(l, j + 1) \<in># conn t i" unfolding conn_member [OF p] .
    then have "becomes t ?C ?t" using becomes_cong [OF b] by simp
    then show ?thesis using spot Exists w f(4) by (simp add: add_link_def spot_place_def)
  next
    case (Spot r)
    have "\<not> (\<exists>k. (r, k) \<in> set ?ls \<and> lt k = l \<and> unique_link l \<and> link_index k \<noteq> j + 1)"
    proof
      assume "\<exists>k. (r, k) \<in> set ?ls \<and> lt k = l \<and> unique_link l \<and> link_index k \<noteq> j + 1"
      then obtain x where x: "r \<in> set (refs t i)" "entry t r = (l, x)" "unique_link l" "x \<noteq> j + 1"
        unfolding refs_member rf by (auto simp: entry_place)
      then have "(l, x) \<in># conn t i" unfolding conn_member [OF p] by blast
      then show False using one x(3, 4) by blast
    qed
    then obtain k where none: "\<forall>(r, k) \<in> set ?ls. lt k \<noteq> l \<or> link_index k \<noteq> j + 1 \<and> \<not> unique_link l"
      and k: "(r, k) \<in> set ?ls" "lt k = lt_junk"
      using sym_spot_Spot [OF Spot] by blast
    have r: "r \<in> set (refs ?t i)" "k = the (link_at ?t r)" using k(1) unfolding refs_member by simp_all
    have at: "link_at ?t r = Some k" using refs_links [OF links_okD(2) [OF bt(1, 3)] r(1)] r(2) by auto
    have nm: "(l, j + 1) \<notin># conn t i"
      unfolding conn_member [OF p] using none by (auto simp: rf entry_place)
    have "\<not> paired (fst (entry ?t r))" using k(2) r(2) junk_link(4) by (simp add: entry_place)
    then have "becomes ?t ((conn ?t)(i := add_mset (l, j + 1) (conn ?t i))) (assign r ?l ?t)"
      using assign_becomes [OF bt(1-3) r(1), of ?l] f p by simp
    then show ?thesis
      using finish [of r ?t k] spot Spot at k(2) f(4) nm by (simp add: spot_place_def)
  next
    case No_spot
    have nm: "(l, j + 1) \<notin># conn t i"
      unfolding conn_member [OF p] using sym_spot_No_spot [OF No_spot] by (auto simp: rf entry_place)
    obtain r u where ru: "spot_place i No_spot ?t = Some (Some r, u)" "link_at u r = Some last_link" "same_syms ?t u"
      "\<forall>l. lt l \<noteq> lt_last \<longrightarrow>
        becomes ?t ((conn ?t)(i := (if paired (lt l) then {#(lt l, link_index l)#} else {#}) + conn ?t i)) (assign r l u)"
      using new_becomes [OF bt(1-3)] by (elim exE conjE)
    have "becomes ?t ((conn ?t)(i := add_mset (l, j + 1) (conn ?t i))) (assign r ?l u)"
      using ru(4) [rule_format, of ?l] f p by simp
    then show ?thesis
      using finish [of r u last_link] spot No_spot ru nm f(3) by (simp add: last_link_def)
  qed
qed


text \<open>A link that is suppressed: a place is found for it, and left as junk.\<close>

lemma suppressed_becomes:
  assumes ok: "links_ok t" "can_link t" "i < length (syms t)" and w: "writable t" and k: "kind (syms t ! i) = DD_MODULE"
  shows "\<exists>u. add_link False is_defined_in i i t = Some u \<and> becomes t (conn t) u"
proof -
  let ?t = "t\<lparr>need_to_mv := True\<rparr>" and ?l = "mk_link lt_junk 0"
  have p: "paired is_defined_in" "\<not> unique_link is_defined_in" "is_defined_in \<noteq> lt_junk"
    by (simp_all add: paired_def link_types unique_link_def)
  note b = flagged(1) [OF ok(1, 2), of True]
  have bt: "links_ok ?t" "can_link ?t" "i < length (syms ?t)" using becomes_ok [OF b] ok by simp_all
  let ?ls = "map (\<lambda>r. (r, the (link_at ?t r))) (refs ?t i)"
  note spot = get_spot [OF bt(1, 3, 3), of is_defined_in]
  have finish: ?thesis if place: "get_spot_to_insert_link is_defined_in i i ?t = Some (Some r, u)" "same_syms ?t u"
      "becomes ?t (conn ?t) (assign r ?l u)" for r u
  proof -
    have "kind (syms u ! i) = DD_MODULE" using same_syms_fields(1) [OF place(2)] ok(3) k by simp
    then have "add_link False is_defined_in i i t = Some (assign r ?l u)"
      using place(1) w p(3) by (simp add: add_link_def)
    then show ?thesis using becomes_again [OF b place(3)] by blast
  qed
  show ?thesis
  proof (cases "sym_spot is_defined_in (i + 1) ?ls None")
    case Exists
    then show ?thesis using spot b w p(3) by (simp add: add_link_def spot_place_def)
  next
    case (Spot r)
    then obtain x where x: "(r, x) \<in> set ?ls" "lt x = lt_junk" using sym_spot_Spot [OF Spot] p(2) by blast
    have "becomes ?t (conn ?t) (assign r ?l ?t)"
      by (rule unpaired_assign) (use bt x junk_link in \<open>auto simp: entry_place\<close>)
    then show ?thesis using finish [of r ?t] spot Spot by (simp add: spot_place_def)
  next
    case No_spot
    obtain r u where ru: "spot_place i No_spot ?t = Some (Some r, u)" "same_syms ?t u"
      "\<forall>l. lt l \<noteq> lt_last \<longrightarrow>
        becomes ?t ((conn ?t)(i := (if paired (lt l) then {#(lt l, link_index l)#} else {#}) + conn ?t i)) (assign r l u)"
      using new_becomes [OF bt] by (elim exE conjE)
    have "becomes ?t (conn ?t) (assign r ?l u)" using ru(3) [rule_format, of ?l] junk_link by simp
    then show ?thesis using finish [of r u] spot No_spot ru(1, 2) by simp
  qed
qed

text \<open>A new type: the place of the old one is used, whose target loses its link back.\<close>

lemma rm_link1_place:
  assumes ok: "links_ok t" "can_link t" "m < length (syms t)" "i < length (syms t)" "writable t"
    and p: "paired l" "l \<noteq> is_defined_in" "l \<noteq> is_defining"
    and r: "r \<in> set (refs t i)" "fst (entry t r) \<noteq> l" and u: "rm_link1 l i m t = Some u"
  shows "r \<in> set (refs u i) \<and> entry u r = entry t r"
proof -
  let ?t = "t\<lparr>need_to_mv := True\<rparr>"
  have sp: "same_places t ?t" by simp
  obtain f where f: "find_link l i m t = Some f"
    "case f of None \<Rightarrow> (l, i + 1) \<notin># conn t m | Some r \<Rightarrow> r \<in> set (refs t m) \<and> entry t r = (l, i + 1)"
    using find_paired [OF ok(1, 3, 4) p(1)] by blast
  show ?thesis
  proof (cases f)
    case None
    then have "u = t" using u f(1) ok(5) p paired_types(2) [OF p(1)] by (simp add: rm_link1_def)
    then show ?thesis using r by simp
  next
    case (Some q)
    then have q: "q \<in> set (refs ?t m)" "q \<noteq> r" using f(2) r(2) same_places(2) [OF sp ok(3)] by auto
    have "u = assign q (mk_link lt_junk 0) ?t"
      using u f(1) Some ok(5) p paired_types(2) [OF p(1)] by (simp add: rm_link1_def Let_def)
    moreover have "links_ok ?t" "m < length (syms ?t)" "i < length (syms ?t)" "r \<in> set (refs ?t i)"
      using ok r(1) same_places(1) [OF sp] same_places(2) [OF sp ok(4)] by simp_all
    ultimately show ?thesis
      using assign_refs(1, 3) [OF _ _ q(1), of "mk_link lt_junk 0"] junk_link(3) q(2) by (simp add: junk_link entry_def)
  qed
qed

lemma add_type_becomes:
  assumes ok: "links_ok t" "can_link t" "i < length (syms t)" "j < length (syms t)" "j + 1 < 2 ^ 24" "writable t"
    and m: "m < length (syms t)" "m \<noteq> j" "(has_type, m + 1) \<in># conn t i" "\<And>x. (has_type, x) \<in># conn t i \<Longrightarrow> x = m + 1"
  shows "\<exists>u. add_link same has_type j i t = Some u \<and>
    becomes t (\<lambda>k. if k = i then add_mset (has_type, j + 1) (((conn t)(m := conn t m - {#(type_has, i + 1)#})) i - {#(has_type, m + 1)#})
      else ((conn t)(m := conn t m - {#(type_has, i + 1)#})) k) u"
proof -
  let ?t = "t\<lparr>need_to_mv := True\<rparr>" and ?l = "mk_link has_type (j + 1)"
  let ?C = "(conn t)(m := conn t m - {#(type_has, i + 1)#})"
  have p: "paired has_type" "paired type_has" "unique_link has_type" and tt: "type_has \<noteq> has_type" "type_has \<noteq> lt_junk"
    "type_has \<noteq> is_defined_in" "type_has \<noteq> is_defining" "has_type \<noteq> is_defined_in" "has_type \<noteq> lt_junk" "has_type \<noteq> lt_last"
    by (simp_all add: paired_def link_types unique_link_def)
  note b = flagged(1) [OF ok(1, 2), of True]
  have sp: "same_places t ?t" by simp
  have bt: "links_ok ?t" "can_link ?t" "i < length (syms ?t)" "j < length (syms ?t)" "m < length (syms ?t)"
    using becomes_ok [OF b] ok m(1) by simp_all
  let ?ls = "map (\<lambda>r. (r, the (link_at ?t r))) (refs ?t i)"
  have rf: "refs ?t i = refs t i" using same_places(2) [OF sp ok(3)] by simp
  obtain q where q: "q \<in> set (refs t i)" "entry t q = (has_type, m + 1)" using m(3) unfolding conn_member [OF p(1)] by blast
  then have qm: "(q, the (link_at t q)) \<in> set ?ls" "lt (the (link_at t q)) = has_type"
    by (auto simp: rf entry_place)
  have only: "link_index k = m + 1" if rk: "(r, k) \<in> set ?ls" "lt k = has_type" for r k
  proof -
    have "r \<in> set (refs t i)" "entry t r = (has_type, link_index k)" using rk by (auto simp: rf entry_place)
    then show ?thesis using m(4) unfolding conn_member [OF p(1)] by blast
  qed
  have "sym_spot has_type (j + 1) ?ls None \<noteq> Exists"
    using sym_spot_Exists [of has_type "j + 1" ?ls None] only m(2) by fastforce
  moreover have "sym_spot has_type (j + 1) ?ls None \<noteq> No_spot"
    using sym_spot_No_spot [of has_type "j + 1" ?ls None] qm p(3) by blast
  ultimately obtain r where spot: "sym_spot has_type (j + 1) ?ls None = Spot r"
    by (cases "sym_spot has_type (j + 1) ?ls None") simp_all
  then obtain k where k: "(r, k) \<in> set ?ls" "lt k = has_type"
    using sym_spot_Spot [OF spot] qm p(3) by blast
  have r: "r \<in> set (refs ?t i)" "k = the (link_at ?t r)" using k(1) unfolding refs_member by simp_all
  have at: "link_at ?t r = Some k" using refs_links [OF links_okD(2) [OF bt(1, 3)] r(1)] r(2) by auto
  have e: "entry ?t r = (has_type, m + 1)" using only [OF k] k(2) r(2) by (simp add: entry_place)
  have old: "get_symbol_of_link k = m" using only [OF k] by (simp add: get_symbol_of_link_def)
  obtain v where v: "rm_link1 type_has i m ?t = Some v" "becomes ?t ((conn ?t)(m := conn ?t m - {#(type_has, i + 1)#})) v"
    using rm_link1_becomes [OF bt(1, 2, 5, 3) p(2)] ok(6) by auto
  have vr: "r \<in> set (refs v i)" "entry v r = (has_type, m + 1)"
    using rm_link1_place [OF bt(1, 2, 5, 3) _ p(2) tt(3, 4) r(1) _ v(1)] ok(6) e tt(1) by simp_all
  have bv: "becomes t ?C v"
    by (rule becomes_trans [OF b v(2)]) (use same_places(6) [OF sp] m(1) in simp)
  note bo = becomes_ok [OF bv]
  have f: "lt ?l = has_type" "link_index ?l = j + 1" using mk_link_fields(1) [OF p(1)] mk_link_fields(2) [OF ok(5)] by simp_all
  have iv: "i < length (syms v)" using bo(4) ok(3) by simp
  have "becomes v ((conn v)(i := {#(has_type, j + 1)#} + (conn v i - {#(has_type, m + 1)#}))) (assign r ?l v)"
    using assign_becomes [OF bo(1, 2) iv vr(1), of ?l] f vr(2) p(1) tt(7) by simp
  then have "becomes t (\<lambda>k. if k = i then add_mset (has_type, j + 1) (?C i - {#(has_type, m + 1)#}) else ?C k) (assign r ?l v)"
    by (rule becomes_trans [OF bv]) (use bo(6) ok(3) in simp)
  moreover have "symbol_index (syms v ! j) = j + 1"
    using links_okD(1) [OF bo(1)] bo(4) ok(4) by simp
  then have "add_link same has_type j i t = Some (assign r ?l v)"
    using ok(6) tt k(2) at old v(1) spot get_spot [OF bt(1, 3, 4), of has_type]
    by (simp add: add_link_def spot_place_def)
  ultimately show ?thesis by blast
qed

end
