(* ===== verification/Xref_Link_Relation.thy ===== *)
theory Xref_Link_Relation
  imports Xref_Link_Operations
begin

text \<open>
  The links of a table as a set of edges: adding and removing a link between two symbols, with its
  reverse, are changes of this set. The edges come in pairs and a symbol has one type at most.
\<close>

section \<open>Tables that hold a set of edges\<close>

definition holds :: "xtab \<Rightarrow> (nat \<times> nat \<times> nat) set \<Rightarrow> bool" where
  "holds t E \<longleftrightarrow> links_ok t \<and> can_link t \<and> length (syms t) < 2 ^ 24 \<and>
     (\<forall>i < length (syms t). \<forall>e. count (conn t i) e \<le> 1) \<and>
     (\<forall>i < length (syms t). \<forall>l x. (l, x) \<in># conn t i \<longleftrightarrow> (\<exists>j. x = j + 1 \<and> (i, l, j) \<in> E)) \<and>
     (\<forall>(i, l, j) \<in> E. i < length (syms t) \<and> j < length (syms t) \<and> paired l)"

definition reversed :: "(nat \<times> nat \<times> nat) set \<Rightarrow> bool" where
  "reversed E \<longleftrightarrow> (\<forall>i l j. (i, l, j) \<in> E \<longrightarrow> (j, get_reverse_link l, i) \<in> E)"

definition typed :: "(nat \<times> nat \<times> nat) set \<Rightarrow> bool" where
  "typed E \<longleftrightarrow> (\<forall>i j k. (i, has_type, j) \<in> E \<longrightarrow> (i, has_type, k) \<in> E \<longrightarrow> j = k)"

definition types_of :: "nat \<Rightarrow> (nat \<times> nat \<times> nat) set" where
  "types_of i = {(i, has_type, k) | k. True} \<union> {(k, type_has, i) | k. True}"

definition link_edges :: "nat \<Rightarrow> nat \<Rightarrow> nat \<Rightarrow> (nat \<times> nat \<times> nat) set \<Rightarrow> (nat \<times> nat \<times> nat) set" where
  "link_edges l i j E = insert (i, l, j) (insert (j, get_reverse_link l, i)
     (if l = has_type then E - types_of i else if l = type_has then E - types_of j else E))"

definition unlink_edges :: "nat \<Rightarrow> nat \<Rightarrow> nat \<Rightarrow> (nat \<times> nat \<times> nat) set \<Rightarrow> (nat \<times> nat \<times> nat) set" where
  "unlink_edges l i j E = E - {(i, l, j), (j, get_reverse_link l, i)}"

text \<open>One direction.\<close>

definition add_edge :: "nat \<Rightarrow> nat \<Rightarrow> nat \<Rightarrow> (nat \<times> nat \<times> nat) set \<Rightarrow> (nat \<times> nat \<times> nat) set" where
  "add_edge l i j E = insert (i, l, j)
     (if l = has_type \<and> (i, l, j) \<notin> E
      then E - {(i, has_type, k) | k. True} - {(k, type_has, i) | k. (i, has_type, k) \<in> E} else E)"

lemma types_distinct: "has_type \<noteq> type_has" "get_reverse_link has_type = type_has" "get_reverse_link type_has = has_type"
  by (simp_all add: link_types reverse_link)

lemma add_edge_typed: "typed E \<Longrightarrow> typed (add_edge l i j E)"
  using types_distinct(1) by (auto simp: typed_def add_edge_def)

lemma both_edges:
  assumes "reversed E" "typed E"
  shows "add_edge (get_reverse_link l) j i (add_edge l i j E) = link_edges l i j E"
proof -
  have r: "get_reverse_link l = has_type \<longleftrightarrow> l = type_has" using types_distinct reverse_reverse by metis
  have t: "(k, type_has, m) \<in> E \<longleftrightarrow> (m, has_type, k) \<in> E" for k m
    using assms(1) types_distinct(2, 3) unfolding reversed_def by metis
  have o: "(m, has_type, k) \<in> E \<Longrightarrow> (m, has_type, k') \<in> E \<Longrightarrow> k = k'" for m k k'
    using assms(2) by (simp add: typed_def)
  consider "l = has_type" | "l = type_has" | "l \<noteq> has_type" "l \<noteq> type_has" by blast
  then show ?thesis
  proof cases
    case 1
    then show ?thesis using t o types_distinct by (auto simp: add_edge_def link_edges_def types_of_def)
  next
    case 2
    then show ?thesis using t o types_distinct by (auto simp: add_edge_def link_edges_def types_of_def)
  next
    case 3
    then show ?thesis using r by (auto simp: add_edge_def link_edges_def)
  qed
qed

lemma link_edges_reversed:
  assumes "reversed E"
  shows "reversed (link_edges l i j E)"
  using assms reverse_reverse types_distinct
  by (auto simp: reversed_def link_edges_def types_of_def) metis+

lemma link_edges_typed: "reversed E \<Longrightarrow> typed E \<Longrightarrow> typed (link_edges l i j E)"
  using both_edges [of E l j i] add_edge_typed by metis

lemma unlink_edges_reversed: "reversed E \<Longrightarrow> reversed (unlink_edges l i j E)"
  using reverse_reverse unfolding reversed_def unlink_edges_def by (metis Diff_iff insert_iff prod.inject singletonD)

lemma unlink_edges_typed: "typed E \<Longrightarrow> typed (unlink_edges l i j E)"
  unfolding typed_def unlink_edges_def by blast

section \<open>The operations\<close>

lemma single_diff:
  assumes "\<And>e. count M e \<le> 1"
  shows "x \<in># M - {#y#} \<longleftrightarrow> x \<in># M \<and> x \<noteq> y"
  using assms [of y] by (cases "x = y") (simp_all flip: count_greater_zero_iff)

lemma holdsD:
  assumes "holds t E"
  shows "links_ok t" "can_link t" "length (syms t) < 2 ^ 24" "i < length (syms t) \<Longrightarrow> count (conn t i) e \<le> 1"
    "i < length (syms t) \<Longrightarrow> (l, x) \<in># conn t i \<longleftrightarrow> (\<exists>j. x = j + 1 \<and> (i, l, j) \<in> E)"
    "(i, l, j) \<in> E \<Longrightarrow> i < length (syms t) \<and> j < length (syms t) \<and> paired l"
  using assms unfolding holds_def by blast+

lemma becomes_holds:
  assumes h: "holds t E" and b: "becomes t C u"
    and "\<And>i e. i < length (syms t) \<Longrightarrow> count (C i) e \<le> 1"
    and "\<And>i l x. i < length (syms t) \<Longrightarrow> (l, x) \<in># C i \<longleftrightarrow> (\<exists>j. x = j + 1 \<and> (i, l, j) \<in> F)"
    and "\<And>i l j. (i, l, j) \<in> F \<Longrightarrow> i < length (syms t) \<and> j < length (syms t) \<and> paired l"
  shows "holds u F"
  using assms(3-5) becomes_ok(1, 2, 4, 6) [OF b] holdsD(3) [OF h] by (auto simp: holds_def)

lemma rm_link1_holds:
  assumes h: "holds t E" and i: "i < length (syms t)" "j < length (syms t)" "paired l" "writable t"
  shows "\<exists>u. rm_link1 l j i t = Some u \<and> holds u (E - {(i, l, j)}) \<and> same_syms t u"
proof -
  obtain u where u: "rm_link1 l j i t = Some u" "becomes t ((conn t)(i := conn t i - {#(l, j + 1)#})) u"
    using rm_link1_becomes [OF holdsD(1, 2) [OF h] i] by blast
  have "holds u (E - {(i, l, j)})"
  proof (rule becomes_holds [OF h u(2)])
    fix k e assume k: "k < length (syms t)"
    show "count (((conn t)(i := conn t i - {#(l, j + 1)#})) k) e \<le> 1"
      using holdsD(4) [OF h k, of e] by (auto simp: le_diff_conv)
  next
    fix k m x assume k: "k < length (syms t)"
    show "(m, x) \<in># ((conn t)(i := conn t i - {#(l, j + 1)#})) k \<longleftrightarrow> (\<exists>n. x = n + 1 \<and> (k, m, n) \<in> E - {(i, l, j)})"
      using holdsD(5) [OF h k, of m x] single_diff [OF holdsD(4) [OF h k]] by auto
  qed (use holdsD(6) [OF h] in blast)
  then show ?thesis using u(1) becomes_ok(3) [OF u(2)] by blast
qed

lemma add_link_holds:
  assumes h: "holds t E" "typed E" and i: "i < length (syms t)" "j < length (syms t)" "paired l" "writable t"
    and d: "l = is_defined_in \<longrightarrow> kind (syms t ! i) \<noteq> DD_MODULE \<or> i \<noteq> j \<or> same"
  shows "\<exists>u. add_link same l j i t = Some u \<and> holds u (add_edge l i j E) \<and> same_syms t u"
proof -
  have j: "j + 1 < 2 ^ 24" using i(2) holdsD(3) [OF h(1)] by simp
  note hD = holdsD [OF h(1)]
  show ?thesis
  proof (cases "\<exists>m. l = has_type \<and> (i, has_type, m) \<in> E \<and> m \<noteq> j")
    case False
    have e: "add_edge l i j E = insert (i, l, j) E"
    proof -
      have "E - {(i, has_type, k) | k. True} - {(k, type_has, i) | k. (i, has_type, k) \<in> E} = E"
        if "l = has_type" "(i, l, j) \<notin> E" using False that by blast
      then show ?thesis unfolding add_edge_def by (cases "l = has_type \<and> (i, l, j) \<notin> E") auto
    qed
    have "x = j + 1" if "unique_link l" "(l, x) \<in># conn t i" for x
      using False that hD(5) [OF i(1)] by (auto simp: unique_link_def)
    then obtain u where u: "add_link same l j i t = Some u"
      "becomes t ((conn t)(i := (if (l, j + 1) \<in># conn t i then conn t i else add_mset (l, j + 1) (conn t i)))) u"
      using add_link_becomes [OF hD(1, 2) i(1, 2) j i(3, 4) d] by blast
    have "holds u (insert (i, l, j) E)"
    proof (rule becomes_holds [OF h(1) u(2)])
      fix k e assume "k < length (syms t)"
      then show "count (((conn t)(i := (if (l, j + 1) \<in># conn t i then conn t i else add_mset (l, j + 1) (conn t i)))) k) e \<le> 1"
        using hD(4) [of k e] by (auto simp: not_in_iff)
    next
      fix k m x assume k: "k < length (syms t)"
      then show "(m, x) \<in># ((conn t)(i := (if (l, j + 1) \<in># conn t i then conn t i else add_mset (l, j + 1) (conn t i)))) k
        \<longleftrightarrow> (\<exists>n. x = n + 1 \<and> (k, m, n) \<in> insert (i, l, j) E)"
        using hD(5) [OF k, of m x] hD(5) [OF i(1), of l "j + 1"] by auto
    qed (use hD(6) i in blast)
    then show ?thesis using u(1) becomes_ok(3) [OF u(2)] e by auto
  next
    case True
    then obtain m where m: "l = has_type" "(i, has_type, m) \<in> E" "m \<noteq> j" by blast
    have one: "(i, has_type, k) \<in> E \<longleftrightarrow> k = m" for k using m(2) h(2) unfolding typed_def by blast
    have e: "add_edge l i j E = insert (i, has_type, j) (E - {(i, has_type, m), (m, type_has, i)})"
      unfolding add_edge_def m(1) using one m(3) by auto
    have ml: "m < length (syms t)" using hD(6) m(2) by blast
    have "(has_type, m + 1) \<in># conn t i" "\<And>x. (has_type, x) \<in># conn t i \<Longrightarrow> x = m + 1"
      using hD(5) [OF i(1)] one by auto
    then obtain u where u: "add_link same has_type j i t = Some u"
      "becomes t (\<lambda>k. if k = i then add_mset (has_type, j + 1) (((conn t)(m := conn t m - {#(type_has, i + 1)#})) i - {#(has_type, m + 1)#})
        else ((conn t)(m := conn t m - {#(type_has, i + 1)#})) k) u" (is "becomes t ?C u")
      using add_type_becomes [OF hD(1, 2) i(1, 2) j i(4) ml m(3)] by blast
    define D where "D = (conn t)(m := conn t m - {#(type_has, i + 1)#})"
    have D: "count (D k) e \<le> 1" "(n, x) \<in># D k \<longleftrightarrow> (n, x) \<in># conn t k \<and> (k = m \<longrightarrow> (n, x) \<noteq> (type_has, i + 1))"
      if "k < length (syms t)" for k e n x
      using hD(4) [OF that, of e] single_diff [OF hD(4) [OF that]] by (auto simp: D_def le_diff_conv)
    have Di: "count (D i - {#(has_type, m + 1)#}) e \<le> 1" for e using D(1) [OF i(1), of e] by (auto simp: le_diff_conv)
    have Dm: "x \<in># D i - {#(has_type, m + 1)#} \<longleftrightarrow> x \<in># D i \<and> x \<noteq> (has_type, m + 1)" for x
      using single_diff [OF D(1) [OF i(1)]] .
    have new: "(has_type, j + 1) \<notin># D i - {#(has_type, m + 1)#}"
      unfolding Dm D(2) [OF i(1)] using hD(5) [OF i(1), of has_type "j + 1"] one m(3) by auto
    have "holds u (insert (i, has_type, j) (E - {(i, has_type, m), (m, type_has, i)}))"
    proof (rule becomes_holds [OF h(1) u(2)], unfold D_def [symmetric])
      fix k e assume "k < length (syms t)"
      then show "count (if k = i then add_mset (has_type, j + 1) (D i - {#(has_type, m + 1)#}) else D k) e \<le> 1"
        using D(1) [of k e] Di [of e] count_eq_zero_iff [THEN iffD2, OF new]
        by (cases "k = i"; cases "e = (has_type, j + 1)") (simp_all del: count_diff count_eq_zero_iff)
    next
      fix k n x assume k: "k < length (syms t)"
      show "(n, x) \<in># (if k = i then add_mset (has_type, j + 1) (D i - {#(has_type, m + 1)#}) else D k)
        \<longleftrightarrow> (\<exists>q. x = q + 1 \<and> (k, n, q) \<in> insert (i, has_type, j) (E - {(i, has_type, m), (m, type_has, i)}))"
        using hD(5) [OF k, of n x] D(2) [OF k, of n x] Dm [of "(n, x)"] by auto
    qed (use hD(6) i m(1) in blast)
    then show ?thesis using u(1) becomes_ok(3) [OF u(2)] e m(1) by auto
  qed
qed


section \<open>Both directions\<close>

text \<open>A link that is not between a file outside of the project and itself, as the place where it is defined.\<close>

definition in_project :: "bool \<Rightarrow> nat \<Rightarrow> nat \<Rightarrow> nat \<Rightarrow> bool" where
  "in_project same l i j \<longleftrightarrow> i \<noteq> j \<or> same \<or> l \<noteq> is_defined_in \<and> l \<noteq> is_defining"

lemma in_project_reverse: "in_project same l i j \<Longrightarrow> in_project same (get_reverse_link l) j i"
proof -
  have "get_reverse_link is_defined_in = is_defining" "get_reverse_link is_defining = is_defined_in"
    by (simp_all add: link_types reverse_link)
  then show "in_project same l i j \<Longrightarrow> in_project same (get_reverse_link l) j i"
    unfolding in_project_def using reverse_reverse by metis
qed

lemma add_link_both_holds:
  assumes h: "holds t E" "reversed E" "typed E" and i: "i < length (syms t)" "j < length (syms t)" "paired l" "writable t"
    and d: "in_project same l i j"
  shows "\<exists>u. add_link_both same l j i t = Some u \<and> holds u (link_edges l i j E) \<and> same_syms t u"
proof -
  obtain u where u: "add_link same l j i t = Some u" "holds u (add_edge l i j E)" "same_syms t u"
    using add_link_holds [OF h(1, 3) i] d unfolding in_project_def by blast
  have n: "i < length (syms u)" "j < length (syms u)" "writable u"
    using same_syms_length [OF u(3)] u(3) i unfolding same_syms_def by simp_all
  obtain v where v: "add_link same (get_reverse_link l) i j u = Some v"
      "holds v (add_edge (get_reverse_link l) j i (add_edge l i j E))" "same_syms u v"
    using add_link_holds [OF u(2) add_edge_typed [OF h(3)] n(2, 1) paired_reverse [OF i(3)] n(3)]
      in_project_reverse [OF d] unfolding in_project_def by blast
  show ?thesis using i(4) u v(1, 2) same_syms_trans [OF u(3) v(3)] both_edges [OF h(2, 3)] by (simp add: add_link_both_def)
qed

lemma rm_link_holds:
  assumes h: "holds t E" and i: "i < length (syms t)" "j < length (syms t)" "paired l" "writable t"
  shows "\<exists>u. rm_link l j i t = Some u \<and> holds u (unlink_edges l i j E) \<and> same_syms t u"
proof -
  obtain u where u: "rm_link1 l j i t = Some u" "holds u (E - {(i, l, j)})" "same_syms t u"
    using rm_link1_holds [OF h i] by blast
  have n: "i < length (syms u)" "j < length (syms u)" "writable u"
    using same_syms_length [OF u(3)] u(3) i unfolding same_syms_def by simp_all
  obtain v where v: "rm_link1 (get_reverse_link l) i j u = Some v"
      "holds v (E - {(i, l, j)} - {(j, get_reverse_link l, i)})" "same_syms u v"
    using rm_link1_holds [OF u(2) n(2, 1) paired_reverse [OF i(3)] n(3)] by blast
  have "E - {(i, l, j)} - {(j, get_reverse_link l, i)} = unlink_edges l i j E" by (auto simp: unlink_edges_def)
  then show ?thesis using i(4) u v(1, 2) same_syms_trans [OF u(3) v(3)] by (simp add: rm_link_def)
qed

section \<open>The queries\<close>

lemma has_link_edge:
  assumes h: "holds t E" and i: "i < length (syms t)" "j < length (syms t)" "paired l"
  shows "has_link l j i t = Some ((i, l, j) \<in> E)"
proof -
  have "has_link l j i t = Some (\<exists>r \<in> set (refs t i). entry t r = (l, j + 1))"
    using links_okD(1) [OF holdsD(1) [OF h] i(2)] links_of_refs [OF links_okD(2) [OF holdsD(1) [OF h] i(1)]]
    by (auto simp: has_link_def entry_place)
  then show ?thesis using conn_member [OF i(3)] holdsD(5) [OF h i(1), of l "j + 1"] by simp
qed

lemma filter_entries: "filter_mset P (image_mset f (mset xs)) = mset (map f (filter (P \<circ> f) xs))"
  by (induction xs) simp_all

lemma entries_distinct:
  assumes "holds t E" "i < length (syms t)"
  shows "distinct (map (entry t) (filter (\<lambda>r. paired (fst (entry t r))) (refs t i)))"
proof -
  let ?xs = "map (entry t) (filter (\<lambda>r. paired (fst (entry t r))) (refs t i))"
  have "conn t i = mset ?xs" unfolding conn_def content_def filter_entries comp_def ..
  then have "count (mset ?xs) e \<le> 1" for e using holdsD(4) [OF assms, of e] by metis
  then show ?thesis unfolding distinct_count_atmost_1
    by (metis count_eq_zero_iff count_greater_eq_one_iff le_antisym set_mset_mset)
qed

lemma get_local_link_edges:
  assumes h: "holds t E" and i: "i < length (syms t)" "paired l" "l \<noteq> is_defined_in"
  shows "\<exists>js. get_local_link_internal l i t = Some js \<and> distinct js \<and> set js = {j. (i, l, j) \<in> E}"
proof -
  define js where "js = map (\<lambda>r. snd (entry t r) - 1) (filter (\<lambda>r. fst (entry t r) = l) (refs t i))"
  have ls: "links_of i t = Some (map (\<lambda>r. (r, the (link_at t r))) (refs t i))"
    by (rule links_of_refs [OF links_okD(2) [OF holdsD(1) [OF h] i(1)]])
  have "get_local_link_internal l i t = Some js"
    using i(3) by (simp add: get_local_link_internal_def ls js_def filter_map comp_def get_symbol_of_link_def entry_place)
  moreover have "set js = {j. (i, l, j) \<in> E}"
  proof (intro set_eqI iffI)
    fix j assume "j \<in> set js"
    then obtain x where x: "(l, x) \<in># conn t i" "j = x - 1"
      unfolding conn_member [OF i(2)] js_def by (auto simp: entry_place)
    then show "j \<in> {j. (i, l, j) \<in> E}" using holdsD(5) [OF h i(1), of l x] by auto
  next
    fix j assume "j \<in> {j. (i, l, j) \<in> E}"
    then have "(l, j + 1) \<in># conn t i" using holdsD(5) [OF h i(1), of l "j + 1"] by simp
    then show "j \<in> set js" unfolding conn_member [OF i(2)] js_def by force
  qed
  moreover have "distinct js"
    unfolding js_def distinct_map
  proof
    show "distinct (filter (\<lambda>r. fst (entry t r) = l) (refs t i))" by (intro distinct_filter distinct_refs)
    show "inj_on (\<lambda>r. snd (entry t r) - 1) (set (filter (\<lambda>r. fst (entry t r) = l) (refs t i)))"
    proof (rule inj_onI)
      fix q r assume qr: "q \<in> set (filter (\<lambda>r. fst (entry t r) = l) (refs t i))"
        "r \<in> set (filter (\<lambda>r. fst (entry t r) = l) (refs t i))" "snd (entry t q) - 1 = snd (entry t r) - 1"
      have pos: "\<exists>j. snd (entry t p) = j + 1" if "p \<in> set (filter (\<lambda>r. fst (entry t r) = l) (refs t i))" for p
      proof -
        have "(l, snd (entry t p)) \<in># conn t i" unfolding conn_member [OF i(2)] using that by (auto intro!: bexI [of _ p] simp: prod_eq_iff)
        then show ?thesis using holdsD(5) [OF h i(1)] by blast
      qed
      obtain a b where ab: "snd (entry t q) = a + 1" "snd (entry t r) = b + 1" using pos [OF qr(1)] pos [OF qr(2)] by blast
      then have e: "entry t q = entry t r" using qr by (auto simp: prod_eq_iff)
      show "q = r"
      proof (rule ccontr)
        assume "q \<noteq> r"
        then show False
          using entries_distinct [OF h i(1)] qr(1, 2) e i(2) by (auto simp: distinct_map dest: inj_onD)
      qed
    qed
  qed
  ultimately show ?thesis by blast
qed

end
