(* ===== verification/Xref_Link_Growth.thy ===== *)
theory Xref_Link_Growth
  imports Xref_Link_Relation Xref_Table_Refinement
begin

text \<open>
  New symbols and links: a new symbol comes without links and keeps those of the other symbols, and
  the operations on links keep the hash table and the names.
\<close>

section \<open>A new symbol\<close>

lemma core_views:
  assumes "core t = core u"
  shows "same_views t u"
proof -
  have "link_file t = link_file u" using assms by (cases t; cases u; simp add: core_def)
  then show ?thesis
    using core_fields(6, 7, 9, 12) [OF assms] core_syms(5, 6) [OF assms] unfolding same_views_def by blast
qed

lemma with_index_links:
  assumes ok: "links_ok t" "can_link t"
  shows "links_ok (with_index t)" "j < length (syms t) \<Longrightarrow> refs (with_index t) j = refs t j"
    "j < length (syms t) \<Longrightarrow> r \<in> set (refs t j) \<Longrightarrow> link_at (with_index t) r = link_at t r"
    "syms (with_index t) = syms t" "symbolIndex_table (with_index t) \<noteq> None" "link_file (with_index t) = link_file t"
    "link_is_writable (with_index t) = link_is_writable t"
proof -
  show "links_ok (with_index t)" "j < length (syms t) \<Longrightarrow> refs (with_index t) j = refs t j"
    using ok init_links(1, 2) [OF ok(1)] by (simp_all add: with_index_def)
  show "j < length (syms t) \<Longrightarrow> r \<in> set (refs t j) \<Longrightarrow> link_at (with_index t) r = link_at t r"
    using init_links(3) [OF ok(1)] refs_in_file [of t r j] by (auto simp: with_index_def)
qed (use ok in \<open>auto simp: with_index_def can_link_def init_symbolIndex_table_def\<close>)

lemma grown_links:
  assumes ok: "links_ok t" "symbolIndex_table t = Some xs" and n: "length (syms t) + 1 < 2 ^ 24"
    and u: "syms u = syms t @ [s]" "symbol_index s = length (syms t) + 1" "symbolIndex_table u = Some (xs @ [Some [last_link]])"
      "orig_link_offsets u = orig_link_offsets t @ [-1]" "link_file u = link_file t"
    and len: "length xs = length (syms t) + 1" "length (orig_link_offsets t) = length (syms t) + 1"
  shows "links_ok u" "j < length (syms t) \<Longrightarrow> refs u j = refs t j" "refs u (length (syms t)) = []"
    "j < length (syms t) \<Longrightarrow> r \<in> set (refs t j) \<Longrightarrow> link_at u r = link_at t r"
proof -
  have fl: "file_links u k = file_links t k" for k by (simp add: file_links_def u(5))
  have f: "file_ok u off = file_ok t off" "file_refs u off = file_refs t off" for off
    by (simp_all add: file_ok_def file_refs_def fl u(5))
  have old: "refs u j = refs t j \<and> shape_ok u j" if j: "j < length (syms t)" for j
  proof -
    have s: "symbol_index (syms t ! j) = j + 1" "syms u ! j = syms t ! j"
      using links_okD(1) [OF ok(1) j] j by (simp_all add: u(1) nth_append)
    have "arr u j = arr t j" "offset u j = offset t j"
      using j len by (simp_all add: arr_def offset_def u ok(2) s nth_append)
    then show ?thesis using links_okD(2) [OF ok(1) j] by (cases "arr t j") (simp_all add: refs_def shape_ok_def f s(2))
  qed
  have new: "refs u (length (syms t)) = [] \<and> shape_ok u (length (syms t))"
    using len by (simp add: refs_def shape_ok_def arr_def u nth_append ends_here_def last_link_def)
  show "j < length (syms t) \<Longrightarrow> refs u j = refs t j" "refs u (length (syms t)) = []" using old new by blast+
  show "links_ok u"
    unfolding links_ok_def
  proof (intro conjI allI impI)
    fix j assume "j < length (syms u)"
    then have j: "j < length (syms t) \<or> j = length (syms t)" by (auto simp: u(1))
    then show "symbol_index (syms u ! j) = j + 1" using links_okD(1) [OF ok(1)] by (auto simp: u(1, 2) nth_append)
    show "shape_ok u j" using j old new by blast
  next
    show "case symbolIndex_table u of None \<Rightarrow> orig_link_offsets u = []
      | Some xs \<Rightarrow> length xs = length (syms u) + 1 \<and> length (orig_link_offsets u) = length (syms u) + 1"
      using len by (simp add: u)
  next
    fix j k assume jk: "j < length (syms u)" "k < length (syms u)" "j \<noteq> k"
    then consider "j < length (syms t)" "k < length (syms t)" | "j = length (syms t)" | "k = length (syms t)"
      by (cases "j = length (syms t)"; cases "k = length (syms t)") (simp_all add: u(1))
    then show "set (refs u j) \<inter> set (refs u k) = {}"
      by cases (use old new links_okD(5) [OF ok(1)] jk(3) in auto)
  qed
  show "link_at u r = link_at t r" if jr: "j < length (syms t)" "r \<in> set (refs t j)" for j r
  proof (cases r)
    case (In_file m)
    then show ?thesis by (simp add: link_at_def u(5))
  next
    case (In_array si m)
    have "si = symbol_index (syms t ! j)"
      using in_array_place [OF links_okD(2) [OF ok(1) jr(1)]] jr(2) In_array by metis
    then have "si < length xs" using links_okD(1) [OF ok(1) jr(1)] jr(1) len by simp
    then show ?thesis by (simp add: In_array link_at_def u(3) ok(2) nth_append)
  qed
qed

lemma views_holds: "same_views t u \<Longrightarrow> holds u E \<Longrightarrow> holds t E"
  using same_views [of t u] unfolding holds_def by (simp add: same_views_def)

lemma newSymbol_holds:
  assumes h: "holds t E" and x: "xref_ok t" "can_grow t" "length (syms t) + 1 < 2 ^ 24" "NUL \<notin> set ns"
  shows "\<exists>u. newSymbol k (length ns) ns t = Some (Some (length (syms t)), u) \<and> holds u E"
proof -
  note hD = holdsD [OF h]
  note n = x(3)
  have lim: "length (syms t) < XREF_LIMIT_SIZE" using n by (simp add: XREF_LIMIT_SIZE_def)
  let ?t = "with_index t"
  note w = with_index_links [OF hD(1, 2)]
  obtain xs0 where xs0: "symbolIndex_table ?t = Some xs0" using w(5) by blast
  have len: "length xs0 = length (syms t) + 1" "length (orig_link_offsets ?t) = length (syms t) + 1"
    using w(1) xs0 w(4) by (simp_all add: links_ok_def)
  define u where "u = with_symbol (length (syms t) + 1) k ns
    (other_fields True (Some (xs0 @ [Some [last_link]])) (orig_link_offsets ?t @ [-1]) t)"
  have nu: "newSymbol k (length ns) ns t =
      map_option (\<lambda>t'. (Some (length (syms t)), t')) (if entry_cnt u > table_max u then rehash_xref u else Some u)"
    using newSymbol_grown [OF x(1, 2) lim, of k ns] xs0 by (auto simp: u_def)
  obtain s where s: "syms u = syms t @ [s]" "symbol_index s = length (syms t) + 1"
    using n by (simp add: u_def with_symbol_fields init_def)
  have u: "symbolIndex_table u = Some (xs0 @ [Some [last_link]])" "orig_link_offsets u = orig_link_offsets ?t @ [-1]"
    "link_file u = link_file ?t" "link_is_writable u = link_is_writable t"
    using w(6, 7) by (simp_all add: u_def with_symbol_def link_first_def Let_def other_fields_def)
  note g = grown_links [OF w(1) xs0 _ _ _ u(1-3), unfolded w(4), OF n s len]
  have conn: "conn u j = conn t j" if "j < length (syms t)" for j
  proof -
    have "image_mset (entry u) (mset (refs t j)) = image_mset (entry t) (mset (refs t j))"
      by (rule image_mset_cong) (use g(4) [OF that] w(2, 3) [OF that] in \<open>simp add: entry_def\<close>)
    then show ?thesis using g(2) [OF that] w(2) [OF that] by (simp add: conn_def content_def)
  qed
  have new: "conn u (length (syms t)) = {#}" using g(3) by (simp add: conn_def content_def)
  have "holds u E"
    unfolding holds_def
  proof (intro conjI allI impI)
    show "links_ok u" by (rule g(1))
    show "can_link u" by (simp add: can_link_def u(1))
    show "length (syms u) < 2 ^ 24" using n by (simp add: s)
    show "\<forall>(i, l, j) \<in> E. i < length (syms u) \<and> j < length (syms u) \<and> paired l" using hD(6) by (fastforce simp: s)
    fix i assume "i < length (syms u)"
    then have i: "i < length (syms t) \<or> i = length (syms t)" by (auto simp: s)
    show "count (conn u i) e \<le> 1" for e
      using i conn hD(4) [of i e] new by (cases "i < length (syms t)") simp_all
    show "(l, x) \<in># conn u i \<longleftrightarrow> (\<exists>j. x = j + 1 \<and> (i, l, j) \<in> E)" for l x
    proof (cases "i < length (syms t)")
      case True
      then show ?thesis using conn hD(5) by simp
    next
      case False
      then have "i = length (syms t)" "(i, l, j) \<notin> E" for j using i hD(6) [of i l j] by auto
      then show ?thesis using new by simp
    qed
  qed
  moreover obtain L where "hashed u L"
    using x(1, 4) with_symbol_hashed [of "other_fields True (Some (xs0 @ [Some [last_link]])) (orig_link_offsets ?t @ [-1]) t" _ ns]
    unfolding u_def xref_ok_def other_fields_simps by blast
  then obtain v where v: "rehash_xref u = Some v" "core v = core (u\<lparr>table_max := table_max u * 2 + 1\<rparr>)"
    using rehash_hashed by blast
  have "same_views v u" using core_views [OF v(2)] by (simp add: same_views_def)
  ultimately show ?thesis using nu v(1) views_holds by simp
qed

section \<open>Links and the hash table\<close>

lemma same_syms_xref_ok:
  assumes s: "same_syms t u" and x: "xref_ok t" and l: "links_ok u"
  shows "xref_ok u" "can_grow t \<Longrightarrow> can_link u \<Longrightarrow> can_grow u"
proof -
  have n: "length (syms u) = length (syms t)" using same_syms_length [OF s] by simp
  have tp: "table_max u = table_max t" "entry_cnt u = entry_cnt t" "names u = names t" "table u = table t" "h_el u = h_el t"
    "h_next u = h_next t" "h_prev u = h_prev t" "h_free u = h_free t" and w: "writable u = writable t"
    using s unfolding same_syms_def table_part_def by simp_all
  have f: "name_offset (syms u ! j) = name_offset (syms t ! j)" "hash_val (syms u ! j) = hash_val (syms t ! j)"
    if "j < length (syms t)" for j
  proof -
    have "map (\<lambda>s. s\<lparr>has_def_file := False\<rparr>) (syms t) ! j = map (\<lambda>s. s\<lparr>has_def_file := False\<rparr>) (syms u) ! j"
      using s unfolding same_syms_def by metis
    then have "(syms t ! j)\<lparr>has_def_file := False\<rparr> = (syms u ! j)\<lparr>has_def_file := False\<rparr>" using that n by simp
    then show "name_offset (syms u ! j) = name_offset (syms t ! j)" "hash_val (syms u ! j) = hash_val (syms t ! j)"
      by (cases "syms t ! j"; cases "syms u ! j"; simp)+
  qed
  have g: "get_name u j = get_name t j" if "j < length (syms t)" for j by (simp add: get_name_def tp f(1) [OF that])
  obtain L where L: "hashed t L" using x by (auto simp: xref_ok_def)
  then have p: "placed t L" by (simp add: hashed_def)
  have "placed u L"
    unfolding placed_def tp n
  proof (intro allI ballI)
    fix h y assume y: "y \<in> set (L h)"
    show "h_el t y < length (syms t) \<and> hash_val (syms u ! h_el t y) = Mhash (table_max t) (get_name u (h_el t y)) \<and>
        unat (hash_val (syms u ! h_el t y) mod table_max t) = h"
      using placedD [OF p y] by (simp add: f(2) g)
  qed
  then have "hashed u L" using L by (simp add: hashed_def layout_def n tp)
  moreover have "names_ok u" using x f(1) by (simp add: xref_ok_def names_ok_def n tp)
  moreover have "\<forall>xs. symbolIndex_table u = Some xs \<longrightarrow> length xs = length (syms u) + 1"
    using l by (auto simp: links_ok_def)
  ultimately show "xref_ok u" using x by (auto simp: xref_ok_def n tp)
  show "can_grow t \<Longrightarrow> can_link u \<Longrightarrow> can_grow u" using w by (auto simp: can_grow_def can_link_def)
qed

end
