(* ===== verification/Xref_Link_Dates.thy ===== *)
theory Xref_Link_Dates
  imports Xref_Link_Relation
begin

text \<open>
  The date of a file is in two numeric links of 24 bits: it is read back after it was set, whatever
  date the file had.
\<close>

definition dates :: "nat \<Rightarrow> xtab \<Rightarrow> nat \<Rightarrow> (nat \<times> nat) multiset" where
  "dates l t i = filter_mset (\<lambda>e. fst e = l) (content t i)"

definition dated :: "xtab \<Rightarrow> nat \<Rightarrow> bool" where
  "dated t i \<longleftrightarrow> size (dates lt_lmd t i) \<le> 1 \<and> size (dates lt_lmdhigh t i) \<le> 1 \<and> (\<forall>e \<in># dates lt_lmd t i. snd e < 2 ^ 24)"

lemma date_types: "lt_lmd \<noteq> lt_lmdhigh" "lt_lmd \<noteq> lt_junk" "lt_lmdhigh \<noteq> lt_junk" "lt_lmd \<noteq> lt_last" "lt_lmdhigh \<noteq> lt_last"
    "num_link lt_lmd" "num_link lt_lmdhigh" "\<not> paired lt_lmd" "\<not> paired lt_lmdhigh" "lt_lmd < 256" "lt_lmdhigh < 256"
  by (simp_all add: link_types num_link_def paired_def)

lemma size_at_most_one: "size (dates l t i) \<le> 1 \<Longrightarrow> dates l t i = {#} \<or> (\<exists>x. dates l t i = {#(l, x)#})"
proof -
  assume "size (dates l t i) \<le> 1"
  then consider "dates l t i = {#}" | e where "dates l t i = {#e#}"
    by (metis One_nat_def le_Suc_eq le_zero_eq size_1_singleton_mset size_eq_0_iff_empty)
  then show ?thesis
  proof cases
    case 2
    have "e \<in># dates l t i" by (simp add: 2)
    then have "fst e = l" by (simp add: dates_def)
    then show ?thesis using 2 by (cases e) auto
  qed simp
qed

lemma get_link_offset_dates:
  assumes "links_ok t" "i < length (syms t)"
  shows "dates l t i = {#} \<Longrightarrow> get_link_offset l 0 i t = Some (-1)"
    "dates l t i = {#(l, x)#} \<Longrightarrow> get_link_offset l 0 i t = Some (int x)"
proof -
  let ?xs = "filter (\<lambda>r. fst (entry t r) = l) (refs t i)"
  have m: "dates l t i = mset (map (entry t) ?xs)"
    unfolding dates_def content_def filter_entries comp_def ..
  have g: "get_link_offset l 0 i t =
      Some (if ?xs = [] then -1 else int (snd (entry t (hd ?xs))))"
    using links_of_refs [OF links_okD(2) [OF assms]]
    by (cases ?xs) (simp_all add: get_link_offset_def Let_def filter_map comp_def entry_place)
  show "dates l t i = {#} \<Longrightarrow> get_link_offset l 0 i t = Some (-1)" using g m by simp
  assume "dates l t i = {#(l, x)#}"
  then have "mset (map (entry t) ?xs) = {#(l, x)#}" using m by metis
  then obtain r where "?xs = [r]" "entry t r = (l, x)" by (cases ?xs) auto
  then show "get_link_offset l 0 i t = Some (int x)" using g by simp
qed

lemma get_last_mod_date_value:
  assumes "links_ok t" "i < length (syms t)" "dated t i"
  shows "dates lt_lmd t i = {#} \<Longrightarrow> dates lt_lmdhigh t i = {#} \<Longrightarrow> get_last_mod_date i t = Some 0"
    "get_last_mod_date i t = Some 0 \<Longrightarrow> dates lt_lmd t i = {#} \<and> dates lt_lmdhigh t i = {#}"
    "dates lt_lmd t i = {#(lt_lmd, x)#} \<Longrightarrow> dates lt_lmdhigh t i = {#(lt_lmdhigh, y)#} \<Longrightarrow> x \<noteq> 0 \<or> y \<noteq> 0 \<Longrightarrow>
       get_last_mod_date i t = Some (int x + int y * 2 ^ 24)"
proof -
  note g = get_link_offset_dates [OF assms(1, 2)]
  have low: "dates lt_lmd t i = {#} \<or> (\<exists>x. dates lt_lmd t i = {#(lt_lmd, x)#} \<and> x < 2 ^ 24)"
    using size_at_most_one [of lt_lmd t i] assms(3) by (auto simp: dated_def)
  have high: "dates lt_lmdhigh t i = {#} \<or> (\<exists>x. dates lt_lmdhigh t i = {#(lt_lmdhigh, x)#})"
    using size_at_most_one [of lt_lmdhigh t i] assms(3) by (auto simp: dated_def)
  show "dates lt_lmd t i = {#} \<Longrightarrow> dates lt_lmdhigh t i = {#} \<Longrightarrow> get_last_mod_date i t = Some 0"
    using g by (simp add: get_last_mod_date_def)
  show "get_last_mod_date i t = Some 0 \<Longrightarrow> dates lt_lmd t i = {#} \<and> dates lt_lmdhigh t i = {#}"
    using low high g by (elim disjE exE conjE) (simp_all add: get_last_mod_date_def Let_def split: if_splits)
  show "get_last_mod_date i t = Some (int x + int y * 2 ^ 24)"
    if "dates lt_lmd t i = {#(lt_lmd, x)#}" "dates lt_lmdhigh t i = {#(lt_lmdhigh, y)#}" "x \<noteq> 0 \<or> y \<noteq> 0"
  proof -
    have "x < 2 ^ 24" using low that(1) by auto
    then show ?thesis using that g by (auto simp: get_last_mod_date_def Let_def)
  qed
qed

section \<open>Removing and adding a number\<close>

lemma dates_assign:
  assumes "links_ok t" "i < length (syms t)" "r \<in> set (refs t i)" "lt l \<noteq> lt_last"
  shows "dates m (assign r l t) i = (if lt l = m then {#(lt l, link_index l)#} else {#}) +
    (dates m t i - (if fst (entry t r) = m then {#entry t r#} else {#}))"
  using assign_content(2) [OF assms] by (simp add: dates_def)

lemma dates_flagged [simp]: "i < length (syms t) \<Longrightarrow> dates m (t\<lparr>need_to_mv := b\<rparr>) i = dates m t i"
  using same_places(5) [of t "t\<lparr>need_to_mv := b\<rparr>" i] by (simp add: dates_def)

lemma rm_num_link_dates:
  assumes ok: "links_ok t" "can_link t" "i < length (syms t)" and w: "writable t" and u: "rm_num_link l i t = Some u"
  shows "size (dates l u i) = size (dates l t i) - 1 \<or> l = lt_junk" "m \<noteq> l \<Longrightarrow> m \<noteq> lt_junk \<Longrightarrow> dates m u i = dates m t i"
proof -
  let ?xs = "filter (\<lambda>r. fst (entry t r) = l) (refs t i)" and ?t = "t\<lparr>need_to_mv := True\<rparr>"
  have md: "dates l t i = mset (map (entry t) ?xs)" unfolding dates_def content_def filter_entries comp_def ..
  have ls: "links_of i t = Some (map (\<lambda>r. (r, the (link_at t r))) (refs t i))"
    by (rule links_of_refs [OF links_okD(2) [OF ok(1, 3)]])
  have f: "map_option fst (find (\<lambda>(r, k). lt k = l) (map (\<lambda>r. (r, the (link_at t r))) (refs t i))) =
      find (\<lambda>r. fst (entry t r) = l) (refs t i)"
    unfolding find_place by (simp add: entry_place)
  have "(size (dates l u i) = size (dates l t i) - 1 \<or> l = lt_junk) \<and> (m \<noteq> l \<longrightarrow> m \<noteq> lt_junk \<longrightarrow> dates m u i = dates m t i)"
  proof (cases "find (\<lambda>r. fst (entry t r) = l) (refs t i)")
    case None
    then have "u = t" using u f w ls by (auto simp: rm_num_link_def split: option.splits)
    moreover have "?xs = []" using None by (auto simp: find_None_iff filter_empty_conv)
    ultimately show ?thesis using md by simp
  next
    case (Some r)
    then have r: "r \<in> set (refs t i)" "fst (entry t r) = l" by (auto simp: find_Some_iff)
    have e: "u = assign r (mk_link lt_junk 0) ?t" using u f w ls Some by (auto simp: rm_num_link_def split: option.splits)
    have sp: "same_places t ?t" by simp
    have rt: "links_ok ?t" "i < length (syms ?t)" "r \<in> set (refs ?t i)" "lt (mk_link lt_junk 0) \<noteq> lt_last"
      using ok r(1) same_places(1) [OF sp] same_places(2) [OF sp ok(3)] junk_link by simp_all
    have "entry t r \<in># dates l t i" using entry_in [OF r(1)] r(2) by (simp add: dates_def)
    then show ?thesis
      unfolding e using dates_assign [OF rt] r(2) ok(3) junk_link by (auto simp: size_Diff_singleton)
  qed
  then show "size (dates l u i) = size (dates l t i) - 1 \<or> l = lt_junk" "m \<noteq> l \<Longrightarrow> m \<noteq> lt_junk \<Longrightarrow> dates m u i = dates m t i"
    by blast+
qed

lemma num_spot_Exists: "num_spot lin ls j = Exists \<Longrightarrow> \<exists>r. (r, lin) \<in> set ls"
proof (induction ls arbitrary: j)
  case Nil
  then show ?case by (simp split: option.splits)
next
  case (Cons x ls)
  obtain q k where x: "x = (q, k)" by (cases x)
  from Cons.prems consider "k = lin" | "num_spot lin ls (if lt k = lt_junk \<and> j = None then Some q else j) = Exists"
    by (auto simp: x split: if_splits)
  then show ?case by cases (use Cons.IH x in auto)
qed

lemma add_num_link_dates:
  assumes ok: "links_ok t" "can_link t" "i < length (syms t)" and w: "writable t" and l: "num_link l" "l < 256" "n < 2 ^ 24"
    and no: "dates l t i = {#}" and u: "add_num_link l n i t = Some u"
  shows "dates l u i = {#(l, n)#}" "m \<noteq> l \<Longrightarrow> m \<noteq> lt_junk \<Longrightarrow> dates m u i = dates m t i"
proof -
  let ?t = "t\<lparr>need_to_mv := True\<rparr>" and ?l = "mk_link l n"
  let ?ls = "map (\<lambda>r. (r, the (link_at ?t r))) (refs ?t i)"
  have f: "lt ?l = l" "link_index ?l = n" "l \<noteq> lt_last" "l \<noteq> lt_junk"
    using l by (auto simp: mk_link_def num_link_def link_types)
  have sp: "same_places t ?t" by simp
  have bt: "links_ok ?t" "can_link ?t" "i < length (syms ?t)"
    using ok same_places(1) [OF sp] same_places(7) [OF sp] by simp_all
  have rf: "refs ?t i = refs t i" using same_places(2) [OF sp ok(3)] by simp
  have ls: "links_of i ?t = Some ?ls" by (rule links_of_refs [OF links_okD(2) [OF bt(1, 3)]])
  have none: "lt k \<noteq> l" if "(r, k) \<in> set ?ls" for r k
  proof
    assume "lt k = l"
    then have "entry t r \<in># dates l t i" using that by (auto simp: rf dates_def content_def entry_place)
    then show False using no by simp
  qed
  have "dates l u i = {#(l, n)#} \<and> (m \<noteq> l \<longrightarrow> m \<noteq> lt_junk \<longrightarrow> dates m u i = dates m t i)"
  proof (cases "num_spot ?l ?ls None")
    case Exists
    then show ?thesis using num_spot_Exists [OF Exists] none f(1) by blast
  next
    case p: (Spot r)
    obtain k where k: "(r, k) \<in> set ?ls" "lt k = lt_junk" using num_spot_Spot [OF p] none f(1) by auto
    then have r: "r \<in> set (refs ?t i)" "fst (entry ?t r) = lt_junk" by (auto simp: entry_place)
    have "u = assign r ?l ?t" using u w ls p by (simp add: add_num_link_def get_spot_to_insert_num_def spot_place_def)
    then show ?thesis using dates_assign [OF bt(1, 3) r(1), of ?l] f r(2) no ok(3) by auto
  next
    case No_spot
    obtain r v where v: "spot_place i No_spot ?t = Some (Some r, v)"
      "\<forall>l. lt l \<noteq> lt_last \<longrightarrow> links_ok (assign r l v) \<and> content (assign r l v) i = add_mset (lt l, link_index l) (content ?t i) \<and>
       (\<forall>j < length (syms ?t). j \<noteq> i \<longrightarrow> content (assign r l v) j = content ?t j) \<and>
       same_syms ?t (assign r l v) \<and> can_link (assign r l v)"
      using new_content [OF bt(1, 3, 2)] by (elim exE conjE)
    have "u = assign r ?l v" using u w ls No_spot v(1) by (simp add: add_num_link_def get_spot_to_insert_num_def)
    moreover have "dates q ?t i = dates q t i" for q using ok(3) by simp
    ultimately show ?thesis using v(2) [rule_format, of ?l] f no by (simp add: dates_def)
  qed
  then show "dates l u i = {#(l, n)#}" "m \<noteq> l \<Longrightarrow> m \<noteq> lt_junk \<Longrightarrow> dates m u i = dates m t i" by blast+
qed


section \<open>The date\<close>

lemma dated_empty: "dates lt_lmd t i = {#} \<Longrightarrow> dates lt_lmdhigh t i = {#} \<Longrightarrow> dated t i"
  by (simp add: dated_def)

lemma clear_dates_empty:
  assumes ok: "links_ok t" "can_link t" "i < length (syms t)" and w: "writable t" and d: "dated t i"
    and u: "clear_dates (Suc (Suc n)) i t = Some u"
  shows "dates lt_lmd u i = {#} \<and> dates lt_lmdhigh u i = {#}"
proof (cases "get_last_mod_date i t = Some 0")
  case True
  then have "u = t" using u by (simp add: clear_dates.simps [of "Suc (Suc n)"])
  then show ?thesis using get_last_mod_date_value(2) [OF ok(1, 3) d True] by simp
next
  case False
  obtain a where a: "rm_num_link lt_lmd i t = Some a" "becomes t (conn t) a"
    using rm_num_link_becomes [OF ok date_types(8)] by blast
  note oa = becomes_ok(1, 2, 4, 5) [OF a(2)]
  have ia: "i < length (syms a)" and wa: "writable a" using oa ok(3) w by simp_all
  obtain b where b: "rm_num_link lt_lmdhigh i a = Some b" "becomes a (conn a) b"
    using rm_num_link_becomes [OF oa(1, 2) ia date_types(9)] by blast
  note ob = becomes_ok(1, 2, 4) [OF b(2)]
  have ib: "i < length (syms b)" using ob ia by simp
  have "size (dates lt_lmd a i) = 0"
    using rm_num_link_dates(1) [OF ok w a(1)] d date_types by (simp add: dated_def)
  moreover have "dates lt_lmdhigh a i = dates lt_lmdhigh t i"
    using rm_num_link_dates(2) [OF ok w a(1)] date_types by simp
  moreover have "size (dates lt_lmdhigh b i) = size (dates lt_lmdhigh a i) - 1" "dates lt_lmd b i = dates lt_lmd a i"
    using rm_num_link_dates [OF oa(1, 2) ia wa b(1)] date_types by auto
  ultimately have e: "dates lt_lmd b i = {#}" "dates lt_lmdhigh b i = {#}" using d by (simp_all add: dated_def)
  have "get_last_mod_date i b = Some 0"
    by (rule get_last_mod_date_value(1) [OF ob(1) ib dated_empty e]) (rule e)+
  then have "clear_dates (Suc n) i b = Some b" by (simp add: clear_dates.simps [of "Suc n"])
  moreover obtain v where "get_last_mod_date i t = Some v" using get_last_mod_date_found [OF ok(1, 3)] by blast
  ultimately have "u = b"
    using u a(1) b(1) False by (simp add: clear_dates.simps [of "Suc (Suc n)"])
  then show ?thesis using e by simp
qed

lemma set_date:
  assumes ok: "links_ok t" "can_link t" "i < length (syms t)" and w: "writable t" and d: "dated t i"
    and date: "0 < date" "date < 2 ^ 32"
  shows "\<exists>u. set_last_mod_date date i t = Some u \<and> becomes t (conn t) u \<and> dated u i \<and> get_last_mod_date i u = Some (int date)"
proof -
  obtain a where a: "clear_dates 10 i t = Some a" "becomes t (conn t) a" using clear_dates_becomes [OF ok] by blast
  note oa = becomes_ok(1, 2, 4, 5) [OF a(2)]
  have ia: "i < length (syms a)" and wa: "writable a" using oa ok(3) w by simp_all
  have "clear_dates (Suc (Suc 8)) i t = Some a" using a(1) by simp
  from clear_dates_empty [OF ok w d this] have e: "dates lt_lmd a i = {#}" "dates lt_lmdhigh a i = {#}" by blast+
  obtain b where b: "add_num_link lt_lmd (date mod 2 ^ 24) i a = Some b" "becomes a (conn a) b"
    using add_num_link_becomes [OF oa(1, 2) ia date_types(6)] by blast
  note ob = becomes_ok(1, 2, 4, 5) [OF b(2)]
  have ib: "i < length (syms b)" and wb: "writable b" using ob ia wa by simp_all
  have low: "date mod 2 ^ 24 < 2 ^ 24" and high: "date div 2 ^ 24 < 2 ^ 24"
    using date(2) by (simp_all add: div_less_iff_less_mult)
  have eb: "dates lt_lmd b i = {#(lt_lmd, date mod 2 ^ 24)#}" "dates lt_lmdhigh b i = {#}"
    using add_num_link_dates [OF oa(1, 2) ia wa date_types(6, 10) low e(1) b(1)] e(2) date_types by auto
  obtain c where c: "add_num_link lt_lmdhigh (date div 2 ^ 24) i b = Some c" "becomes b (conn b) c"
    using add_num_link_becomes [OF ob(1, 2) ib date_types(7)] by blast
  have ec: "dates lt_lmd c i = {#(lt_lmd, date mod 2 ^ 24)#}" "dates lt_lmdhigh c i = {#(lt_lmdhigh, date div 2 ^ 24)#}"
    using add_num_link_dates [OF ob(1, 2) ib wb date_types(7, 11) high eb(2) c(1)] eb(1) date_types by auto
  note oc = becomes_ok(1, 2, 4) [OF c(2)]
  have ic: "i < length (syms c)" using oc ib by simp
  have dc: "dated c i" using ec low by (simp add: dated_def)
  have "date mod 2 ^ 24 \<noteq> 0 \<or> date div 2 ^ 24 \<noteq> 0" using date(1) by (metis div_mult_mod_eq gr_implies_not0 mult_zero_left add_0)
  then have "get_last_mod_date i c = Some (int (date mod 2 ^ 24) + int (date div 2 ^ 24) * 2 ^ 24)"
    by (rule get_last_mod_date_value(3) [OF oc(1) ic dc ec])
  moreover have "int (date mod 2 ^ 24) + int (date div 2 ^ 24) * 2 ^ 24 = int date"
    by (simp add: zmod_int zdiv_int)
  moreover obtain u where u: "set_last_mod_date date i t = Some u" "becomes t (conn t) u"
    using set_last_mod_date_becomes [OF ok] by blast
  moreover have "u = c" using u(1) date(1) w a(1) b(1) c(1) by (simp add: set_last_mod_date_def)
  ultimately show ?thesis using dc by auto
qed

end
