(* ===== verification/Xref_Link_Writing.thy ===== *)
theory Xref_Link_Writing
  imports Xref_Link_Relation
begin

text \<open>
  Writing the link file: the new links of every symbol are put before those it had, the junk among
  the new ones is left out, and the offsets move. A table that is opened again has the same links.
\<close>

section \<open>Tables whose file has the links of the first symbols\<close>

definition chunk_ok :: "link list \<Rightarrow> bool" where
  "chunk_ok c \<longleftrightarrow> c \<noteq> [] \<and> lt (last c) = lt_last \<and> (\<forall>l \<in> set (butlast c). lt l \<noteq> lt_last)"

definition new_part :: "xtab \<Rightarrow> nat \<Rightarrow> link list" where
  "new_part t k = (case the (symbolIndex_table t) ! (k + 1) of None \<Rightarrow> [] | Some ls \<Rightarrow> ls)"

definition file_layout :: "xtab \<Rightarrow> link list list \<Rightarrow> bool" where
  "file_layout t cs \<longleftrightarrow>
     symbolIndex_table t \<noteq> None \<and> length (the (symbolIndex_table t)) = length (syms t) + 1 \<and>
     length (orig_link_offsets t) = length (syms t) + 1 \<and> length cs \<le> length (syms t) \<and>
     (\<forall>k < length (syms t). symbol_index (syms t ! k) = k + 1) \<and>
     link_file t = concat cs \<and> saved_next_loffset t = int (4 * length (link_file t)) \<and>
     (\<forall>c \<in> set cs. chunk_ok c) \<and>
     (\<forall>k < length (syms t). orig_link_offsets t ! (k + 1) =
        (if k < length cs then int (4 * length (concat (take k cs))) else -1)) \<and>
     (\<forall>k < length (syms t). if k < length cs
        then the (symbolIndex_table t) ! (k + 1) \<noteq> Some [] \<and> (\<forall>l \<in> set (new_part t k). lt l \<noteq> lt_last)
        else chunk_ok (new_part t k))"

lemma file_layoutD:
  assumes "file_layout t cs" "k < length (syms t)"
  shows "k < length cs \<Longrightarrow> the (symbolIndex_table t) ! (k + 1) \<noteq> Some []"
    "k < length cs \<Longrightarrow> \<forall>l \<in> set (new_part t k). lt l \<noteq> lt_last"
    "\<not> k < length cs \<Longrightarrow> chunk_ok (new_part t k)"
    "k < length cs \<Longrightarrow> chunk_ok (cs ! k)"
    "orig_link_offsets t ! (k + 1) = (if k < length cs then int (4 * length (concat (take k cs))) else -1)"
    "symbol_index (syms t ! k) = k + 1" "link_file t = concat cs"
proof -
  have "if k < length cs then the (symbolIndex_table t) ! (k + 1) \<noteq> Some [] \<and> (\<forall>l \<in> set (new_part t k). lt l \<noteq> lt_last)
      else chunk_ok (new_part t k)"
    using assms unfolding file_layout_def by blast
  then show "k < length cs \<Longrightarrow> the (symbolIndex_table t) ! (k + 1) \<noteq> Some []"
    "k < length cs \<Longrightarrow> \<forall>l \<in> set (new_part t k). lt l \<noteq> lt_last" "\<not> k < length cs \<Longrightarrow> chunk_ok (new_part t k)"
    by simp_all
  show "k < length cs \<Longrightarrow> chunk_ok (cs ! k)" using assms unfolding file_layout_def by (metis nth_mem)
  show "orig_link_offsets t ! (k + 1) = (if k < length cs then int (4 * length (concat (take k cs))) else -1)"
    "symbol_index (syms t ! k) = k + 1" "link_file t = concat cs"
    using assms unfolding file_layout_def by blast+
qed

definition old_part :: "link list list \<Rightarrow> nat \<Rightarrow> link list" where
  "old_part cs k = (if k < length cs then cs ! k else [])"

definition live :: "link list \<Rightarrow> link list" where
  "live = filter (\<lambda>l. lt l \<noteq> lt_junk)"

definition written :: "xtab \<Rightarrow> link list list \<Rightarrow> nat \<Rightarrow> link list" where
  "written t cs k = live (new_part t k) @ old_part cs k"

definition file_upto :: "xtab \<Rightarrow> link list list \<Rightarrow> nat \<Rightarrow> link list" where
  "file_upto t cs k = concat (map (written t cs) [0..<k])"

definition moved :: "xtab \<Rightarrow> nat \<Rightarrow> nat" where
  "moved t k = length (concat (map (live \<circ> new_part t) [0..<k]))"

lemma file_upto_Suc: "file_upto t cs (Suc k) = file_upto t cs k @ written t cs k"
  by (simp add: file_upto_def)

lemma moved_Suc: "moved t (Suc k) = moved t k + length (live (new_part t k))"
  by (simp add: moved_def)

lemma length_file_upto: "k \<le> length cs \<Longrightarrow> length (file_upto t cs k) = moved t k + length (concat (take k cs))"
proof (induction k)
  case 0
  then show ?case by (simp add: file_upto_def moved_def)
next
  case (Suc k)
  then have "concat (take (Suc k) cs) = concat (take k cs) @ cs ! k" by (simp add: take_Suc_conv_app_nth)
  then show ?case using Suc by (simp add: file_upto_Suc moved_Suc written_def old_part_def)
qed

section \<open>The offsets\<close>

text \<open>The offsets after the links of \<open>k\<close> symbols were written.\<close>

definition offsets_at :: "xtab \<Rightarrow> link list list \<Rightarrow> nat \<Rightarrow> int list" where
  "offsets_at t cs k = orig_link_offsets t ! 0 # map (\<lambda>q. if q < k then int (4 * length (file_upto t cs q))
     else if q < length cs then int (4 * (length (concat (take q cs)) + moved t k)) else -1) [0..<length (syms t)]"

lemma offsets_at_nth:
  "q < length (syms t) \<Longrightarrow> offsets_at t cs k ! Suc q = (if q < k then int (4 * length (file_upto t cs q))
     else if q < length cs then int (4 * (length (concat (take q cs)) + moved t k)) else -1)"
  by (simp add: offsets_at_def)

lemma length_offsets_at: "length (offsets_at t cs k) = length (syms t) + 1"
  by (simp add: offsets_at_def)

lemma update_offset_array_moves:
  "(\<And>i. i < length xs \<Longrightarrow> (xs ! i \<ge> 0) = (i < m)) \<Longrightarrow>
   length (update_offset_array xs n) = length xs \<and>
   (\<forall>i < length xs. update_offset_array xs n ! i = (if i < m then xs ! i + n else xs ! i))"
proof (induction xs arbitrary: m)
  case (Cons x xs)
  show ?case
  proof (cases "0 < m")
    case True
    have x: "x \<ge> 0" using Cons.prems [of 0] True by simp
    have "(xs ! i \<ge> 0) = (i < m - 1)" if "i < length xs" for i using Cons.prems [of "Suc i"] that by auto
    from Cons.IH [OF this] x True show ?thesis by (auto simp: nth_Cons split: nat.split)
  next
    case False
    then have "\<not> x \<ge> 0" using Cons.prems [of 0] by simp
    then show ?thesis using False by simp
  qed
qed simp

lemma moved_offsets:
  assumes l: "file_layout t cs" and k: "k < length (syms t)"
  shows "take (k + 2) (offsets_at t cs k) @ update_offset_array (drop (k + 2) (offsets_at t cs k)) (int (4 * length (live (new_part t k)))) =
    (offsets_at t cs (Suc k)) [k + 1 := offsets_at t cs k ! (k + 1)]"
proof (rule nth_equalityI)
  let ?xs = "drop (k + 2) (offsets_at t cs k)" and ?n = "int (4 * length (live (new_part t k)))"
  have sign: "(?xs ! i \<ge> 0) = (i < length cs - (k + 1))" if "i < length ?xs" for i
    using that offsets_at_nth [of "k + 1 + i" t cs k] by (auto simp: length_offsets_at)
  note u = update_offset_array_moves [OF sign, of ?n]
  then have len: "length (update_offset_array ?xs ?n) = length (syms t) - (k + 1)" by (simp add: length_offsets_at)
  show "length (take (k + 2) (offsets_at t cs k) @ update_offset_array ?xs ?n) =
      length ((offsets_at t cs (Suc k)) [k + 1 := offsets_at t cs k ! (k + 1)])"
    using len k by (simp add: length_offsets_at)
  fix j assume "j < length (take (k + 2) (offsets_at t cs k) @ update_offset_array ?xs ?n)"
  then have j: "j < length (syms t) + 1" using len k by (simp add: length_offsets_at)
  show "(take (k + 2) (offsets_at t cs k) @ update_offset_array ?xs ?n) ! j =
      ((offsets_at t cs (Suc k)) [k + 1 := offsets_at t cs k ! (k + 1)]) ! j"
  proof (cases "j < k + 2")
    case True
    show ?thesis
    proof (cases j)
      case 0
      then show ?thesis using k by (simp add: nth_append length_offsets_at) (simp add: offsets_at_def)
    next
      case (Suc q)
      then show ?thesis
      proof (cases "q = k")
        case True
        then show ?thesis using k Suc by (simp add: nth_append length_offsets_at)
      next
        case False
        then have "q < k" using \<open>j < k + 2\<close> Suc by simp
        then show ?thesis using k Suc offsets_at_nth [of q t cs k] offsets_at_nth [of q t cs "Suc k"]
          by (simp add: nth_append length_offsets_at)
      qed
    qed
  next
    case False
    then obtain i where i: "j = k + 2 + i" using le_Suc_ex by (metis not_less)
    then have "i < length ?xs" using j by (simp add: length_offsets_at)
    then have "update_offset_array ?xs ?n ! i = (if i < length cs - (k + 1) then ?xs ! i + ?n else ?xs ! i)" using u by blast
    then show ?thesis
      using i j k offsets_at_nth [of "k + 1 + i" t cs k] offsets_at_nth [of "k + 1 + i" t cs "Suc k"]
      by (auto simp: nth_append length_offsets_at moved_Suc)
  qed
qed

section \<open>One symbol\<close>

lemma take_chunk:
  assumes "k < length cs"
  shows "take (length (cs ! k)) (drop (length (concat (take k cs))) (concat cs)) = cs ! k"
proof -
  have "concat cs = concat (take k cs) @ cs ! k @ concat (drop (Suc k) cs)"
    by (metis assms concat.simps(2) concat_append id_take_nth_drop)
  then show ?thesis by simp
qed

lemma merge_symbol_step:
  assumes l: "file_layout t cs" and k: "k < length (syms t)"
  shows "merge_symbol t (k + 1) (file_upto t cs k, offsets_at t cs k, int (4 * length (file_upto t cs k))) =
    (file_upto t cs (Suc k), offsets_at t cs (Suc k), int (4 * length (file_upto t cs (Suc k))))"
proof -
  let ?xs = "the (symbolIndex_table t)" and ?new = "live (new_part t k)"
  have len: "length ?xs = length (syms t) + 1" "length cs \<le> length (syms t)" "link_file t = concat cs"
    "saved_next_loffset t = int (4 * length (concat cs))"
    and off: "\<And>q. q < length (syms t) \<Longrightarrow> orig_link_offsets t ! (q + 1) = (if q < length cs then int (4 * length (concat (take q cs))) else -1)"
    and ch: "\<And>c. c \<in> set cs \<Longrightarrow> chunk_ok c"
    using l by (simp_all add: file_layout_def)
  have new: "(case ?xs ! (k + 1) of None \<Rightarrow> [] | Some ls \<Rightarrow> filter (\<lambda>l. lt l \<noteq> lt_junk) ls) = ?new"
    by (simp add: new_part_def live_def split: option.split)
  define nlo where "nlo = (if ?new = [] then offsets_at t cs k else
    take (k + 1 + 1) (offsets_at t cs k) @ update_offset_array (drop (k + 1 + 1) (offsets_at t cs k)) (int (length ?new) * 4))"
  have nlo: "nlo = (offsets_at t cs (Suc k)) [k + 1 := offsets_at t cs k ! (k + 1)]"
  proof (cases "?new = []")
    case True
    have "update_offset_array xs 0 = xs" for xs by (induction xs) simp_all
    then show ?thesis using moved_offsets [OF l k] True by (simp add: nlo_def)
  next
    case False
    then show ?thesis using moved_offsets [OF l k] by (simp add: nlo_def mult.commute)
  qed
  have at: "offsets_at t cs (Suc k) ! (k + 1) = int (4 * length (file_upto t cs k))"
    using k by (simp add: offsets_at_nth)
  show ?thesis
  proof (cases "k < length cs")
    case False
    have "nlo [k + 1 := int (4 * length (file_upto t cs k))] = offsets_at t cs (Suc k)"
      unfolding nlo by (simp only: list_update_overwrite at [symmetric] list_update_id)
    moreover have "orig_link_offsets t ! (k + 1) = -1" using off [OF k] False by simp
    ultimately show ?thesis
      using False unfolding merge_symbol_def Let_def new prod.case nlo_def [symmetric]
      by (simp add: file_upto_Suc written_def old_part_def)
  next
    case True
    have cur: "orig_link_offsets t ! (k + 1) = int (4 * length (concat (take k cs)))" using off [OF k] True by simp
    have "offsets_at t cs k ! (k + 1) = offsets_at t cs (Suc k) ! (k + 1)"
      using k True length_file_upto [of k cs t] offsets_at_nth [OF k, of cs k] at by simp
    then have n: "nlo = offsets_at t cs (Suc k)" unfolding nlo by simp
    define num0 where "num0 = (if k + 1 + 1 < length ?xs then orig_link_offsets t ! (k + 1 + 1) - orig_link_offsets t ! (k + 1) else 0)"
    define num where "num = (if num0 \<le> 0 \<and> (k + 1 + 1 = length ?xs \<or> orig_link_offsets t ! (k + 1 + 1) < 0)
      then saved_next_loffset t - orig_link_offsets t ! (k + 1) else num0)"
    have pos: "0 < length (cs ! k)" using ch [of "cs ! k"] True by (simp add: chunk_ok_def)
    have sz: "length (concat (take (Suc k) cs)) = length (concat (take k cs)) + length (cs ! k)"
      using True by (simp add: take_Suc_conv_app_nth)
    have num: "num = int (4 * length (cs ! k))"
    proof (cases "Suc k < length cs")
      case True
      then have "orig_link_offsets t ! (k + 1 + 1) = int (4 * length (concat (take (Suc k) cs)))" "k + 1 + 1 < length ?xs"
        using off [of "Suc k"] len by simp_all
      then show ?thesis using cur sz pos by (simp add: num_def num0_def)
    next
      case False
      then have e: "Suc k = length cs" using \<open>k < length cs\<close> by simp
      then have "length (concat cs) = length (concat (take k cs)) + length (cs ! k)" using sz by simp
      moreover have "k + 1 + 1 < length ?xs \<Longrightarrow> orig_link_offsets t ! (k + 1 + 1) = -1"
        using off [of "Suc k"] len e by simp
      moreover have "k + 1 + 1 = length ?xs \<or> k + 1 + 1 < length ?xs" using len(1) k by auto
      ultimately show ?thesis using cur len(4) pos by (elim disjE) (simp_all add: num_def num0_def)
    qed
    have "take (nat (num div 4)) (drop (nat (orig_link_offsets t ! (k + 1) div 4)) (link_file t)) = cs ! k"
      using take_chunk [OF True] num cur len(3) by simp
    then have old: "(if orig_link_offsets t ! (k + 1) < 0 then ([], nlo [k + 1 := int (4 * length (file_upto t cs k))], int (4 * length (file_upto t cs k)))
        else if num > 0 then (take (nat (num div 4)) (drop (nat (orig_link_offsets t ! (k + 1) div 4)) (link_file t)), nlo, int (4 * length (file_upto t cs k)) + num)
             else ([], nlo, int (4 * length (file_upto t cs k)))) =
        (cs ! k, nlo, int (4 * length (file_upto t cs k)) + int (4 * length (cs ! k)))"
      using num pos cur by simp
    show ?thesis
      unfolding merge_symbol_def Let_def new prod.case nlo_def [symmetric] num0_def [symmetric] num_def [symmetric] old
      using True n by (simp add: file_upto_Suc written_def old_part_def)
  qed
qed

lemma merge_symbols:
  assumes l: "file_layout t cs" and k: "k \<le> length (syms t)"
  shows "fold (merge_symbol t) [1..<k + 1] ([], orig_link_offsets t, 0) =
    (file_upto t cs k, offsets_at t cs k, int (4 * length (file_upto t cs k)))"
  using k
proof (induction k)
  case 0
  have "orig_link_offsets t = offsets_at t cs 0"
    using l by (intro nth_equalityI) (auto simp: file_layout_def offsets_at_def moved_def nth_Cons split: nat.split)
  then show ?case by (simp add: file_upto_def)
next
  case (Suc k)
  have "[1..<Suc k + 1] = [1..<k + 1] @ [k + 1]" by simp
  then show ?case using Suc merge_symbol_step [OF l, of k] by simp
qed


section \<open>Reading the links\<close>

lemma takeWhile_block: "\<forall>l \<in> set b. P l \<Longrightarrow> \<not> P x \<Longrightarrow> takeWhile P (b @ x # post) = b"
  by (induction b) simp_all

lemma chunk_links:
  assumes f: "link_file t = pre @ b @ x # post" and b: "\<forall>l \<in> set b. lt l \<noteq> lt_last" "lt x = lt_last"
  shows "file_ok t (int (4 * length pre))" "map (\<lambda>r. the (link_at t r)) (file_refs t (int (4 * length pre))) = b"
proof -
  have st: "file_start (int (4 * length pre)) = length pre" by (simp add: file_start_def)
  have fl: "file_links t (length pre) = b" using takeWhile_block [of b "\<lambda>l. lt l \<noteq> lt_last" x post] b f by (simp add: file_links_def)
  show "file_ok t (int (4 * length pre))" unfolding file_ok_def st fl by (simp add: f)
  have "the (link_at t (In_file (length pre + i))) = b ! i" if "i < length b" for i
    using that by (simp add: link_at_def f nth_append)
  then show "map (\<lambda>r. the (link_at t r)) (file_refs t (int (4 * length pre))) = b"
    unfolding file_refs_def st fl by (intro nth_equalityI) simp_all
qed

definition body :: "xtab \<Rightarrow> link list list \<Rightarrow> nat \<Rightarrow> link list" where
  "body t cs k = (if k < length cs then new_part t k @ butlast (cs ! k) else butlast (new_part t k))"

lemma chunk_split: "chunk_ok c \<Longrightarrow> c = butlast c @ [last c]"
  by (simp add: chunk_ok_def)

lemma links_before:
  assumes l: "file_layout t cs" and k: "k < length (syms t)"
  shows "\<exists>ps. links_of k t = Some ps \<and> map snd ps = body t cs k"
proof -
  obtain xs where xs: "symbolIndex_table t = Some xs" using l by (auto simp: file_layout_def)
  have si: "symbol_index (syms t ! k) = k + 1" "k + 1 < length xs" using l k xs by (simp_all add: file_layout_def)
  have arr: "arr t k = xs ! (k + 1)" by (simp add: arr_def xs si)
  have array: "map (\<lambda>r. the (link_at t r)) (map (In_array (k + 1)) [0..<m]) = take m ls"
    if "xs ! (k + 1) = Some ls" "m \<le> length ls" for ls m
    using that by (intro nth_equalityI) (simp_all add: link_at_def xs)
  have "shape_ok t k \<and> map (\<lambda>r. the (link_at t r)) (refs t k) = body t cs k"
  proof (cases "k < length cs")
    case True
    have c: "chunk_ok (cs ! k)" using file_layoutD(4) [OF l k] True by simp
    have o: "offset t k = int (4 * length (concat (take k cs)))" using file_layoutD(5) [OF l k] True xs si by (simp add: offset_def)
    have "concat cs = concat (take k cs) @ cs ! k @ concat (drop (Suc k) cs)"
      by (metis True concat.simps(2) concat_append id_take_nth_drop)
    also have "cs ! k = butlast (cs ! k) @ [last (cs ! k)]" by (rule chunk_split [OF c])
    finally have f: "link_file t = concat (take k cs) @ butlast (cs ! k) @ last (cs ! k) # concat (drop (Suc k) cs)"
      using file_layoutD(7) [OF l k] by simp
    note fil = chunk_links [OF f, folded o] and c' = c [unfolded chunk_ok_def]
    show ?thesis
    proof (cases "xs ! (k + 1)")
      case None
      then show ?thesis using fil c' True arr xs by (simp add: shape_ok_def refs_def body_def new_part_def)
    next
      case (Some ls)
      then have ls: "ls \<noteq> []" "\<forall>l \<in> set ls. lt l \<noteq> lt_last" using file_layoutD(1, 2) [OF l k True] xs by (auto simp: new_part_def)
      then have "\<not> ends_here ls" "\<forall>l \<in> set (butlast ls). lt l \<noteq> lt_last" by (auto simp: ends_here_def dest: in_set_butlastD)
      then show ?thesis
        using fil c' True arr xs Some ls array [OF Some, of "length ls"] si(1)
        by (simp add: shape_ok_def refs_def body_def new_part_def)
    qed
  next
    case False
    then have c: "chunk_ok (new_part t k)" using file_layoutD(3) [OF l k] by simp
    then obtain ls where ls: "xs ! (k + 1) = Some ls" "chunk_ok ls" "new_part t k = ls"
      using xs by (cases "xs ! (k + 1)") (simp_all add: new_part_def chunk_ok_def)
    then have "ends_here ls" "ls \<noteq> []" "\<forall>l \<in> set (butlast ls). lt l \<noteq> lt_last" by (simp_all add: chunk_ok_def ends_here_def)
    then show ?thesis
      using False arr ls array [OF ls(1), of "length ls - 1"] si(1)
      by (simp add: shape_ok_def refs_def body_def butlast_conv_take)
  qed
  then show ?thesis using links_of_refs [of t k] by (intro exI conjI) (blast, simp add: comp_def)
qed

lemma written_block:
  assumes l: "file_layout t cs" and k: "k < length (syms t)"
  shows "\<exists>b x. written t cs k = b @ [x] \<and> lt x = lt_last \<and> (\<forall>l \<in> set b. lt l \<noteq> lt_last) \<and> live b = live (body t cs k)"
proof (cases "k < length cs")
  case True
  then have c: "chunk_ok (cs ! k)" and n: "\<forall>l \<in> set (new_part t k). lt l \<noteq> lt_last"
    using file_layoutD(2, 4) [OF l k] by simp_all
  have "written t cs k = (live (new_part t k) @ butlast (cs ! k)) @ [last (cs ! k)]"
    using True chunk_split [OF c] by (simp add: written_def old_part_def)
  moreover have "live (live (new_part t k) @ butlast (cs ! k)) = live (body t cs k)" using True by (simp add: live_def body_def)
  moreover have "\<forall>l \<in> set (live (new_part t k) @ butlast (cs ! k)). lt l \<noteq> lt_last" using c n by (auto simp: chunk_ok_def live_def)
  ultimately show ?thesis using c unfolding chunk_ok_def by blast
next
  case False
  then have c: "chunk_ok (new_part t k)" using file_layoutD(3) [OF l k] by simp
  then have "lt (last (new_part t k)) \<noteq> lt_junk" by (simp add: chunk_ok_def link_types)
  then have "live (butlast (new_part t k) @ [last (new_part t k)]) = live (butlast (new_part t k)) @ [last (new_part t k)]"
    by (simp add: live_def del: append_butlast_last_id)
  then have "written t cs k = live (butlast (new_part t k)) @ [last (new_part t k)]"
    using False chunk_split [OF c] by (simp add: written_def old_part_def)
  moreover have "live (live (butlast (new_part t k))) = live (body t cs k)" using False by (simp add: live_def body_def)
  moreover have "\<forall>l \<in> set (live (butlast (new_part t k))). lt l \<noteq> lt_last" using c by (auto simp: chunk_ok_def live_def)
  ultimately show ?thesis using c unfolding chunk_ok_def by blast
qed

lemma file_upto_split: "k < n \<Longrightarrow> \<exists>post. file_upto t cs n = file_upto t cs k @ written t cs k @ post"
proof -
  assume "k < n"
  then have "[0..<n] = [0..<k] @ k # [Suc k..<n]" by (metis less_imp_add_positive upt_add_eq_append upt_conv_Cons zero_le)
  then show ?thesis by (simp add: file_upto_def)
qed

lemma links_after:
  assumes l: "file_layout t cs" and k: "k < length (syms t)"
    and v: "symbolIndex_table v = None" "link_file v = file_upto t cs (length (syms t))"
      "offset_to_start_link (syms v ! k) = int (4 * length (file_upto t cs k))"
  shows "\<exists>ps. links_of k v = Some ps \<and> live (map snd ps) = live (body t cs k)"
proof -
  obtain b x where bx: "written t cs k = b @ [x]" "lt x = lt_last" "\<forall>l \<in> set b. lt l \<noteq> lt_last" "live b = live (body t cs k)"
    using written_block [OF l k] by blast
  obtain post where "link_file v = file_upto t cs k @ b @ x # post" using file_upto_split [OF k, of t cs] v(2) bx(1) by auto
  note c = chunk_links [OF this bx(3, 2)]
  have "arr v k = None" "offset v k = int (4 * length (file_upto t cs k))" by (simp_all add: arr_def offset_def v)
  then have "shape_ok v k" "map (\<lambda>r. the (link_at v r)) (refs v k) = b" using c by (simp_all add: shape_ok_def refs_def)
  then show ?thesis using links_of_refs [of v k] bx(4) by (simp add: comp_def)
qed

section \<open>Queries\<close>

lemma local_links: "links_of i t = Some ps \<Longrightarrow> get_local_link_internal l i t =
    Some (let found = map get_symbol_of_link (filter (\<lambda>k. lt k = l) (map snd ps)) in if l = is_defined_in then take 1 found else found)"
  by (simp add: get_local_link_internal_def filter_map comp_def case_prod_unfold Let_def)

lemma live_links: "l \<noteq> lt_junk \<Longrightarrow> filter (\<lambda>k. lt k = l) (live xs) = filter (\<lambda>k. lt k = l) xs"
  by (induction xs) (auto simp: live_def)

lemma same_queries:
  assumes "links_of i t = Some ps" "links_of i v = Some qs" "live (map snd ps) = live (map snd qs)" "l \<noteq> lt_junk"
  shows "get_local_link_internal l i v = get_local_link_internal l i t"
  unfolding local_links [OF assms(1)] local_links [OF assms(2)]
  using assms(3) live_links [OF assms(4)] by metis

lemma restore_elements_views:
  "restore_elements is t = Some u \<Longrightarrow> symbolIndex_table u = symbolIndex_table t \<and> link_file u = link_file t \<and> syms u = syms t"
proof (induction "is" arbitrary: t)
  case (Cons i "is")
  then show ?case by (fastforce simp: new_hashElmt_def link_first_def Let_def bucket_def split: if_splits)
qed simp

lemma restore_elements_total: "table_max t \<noteq> 0 \<Longrightarrow> \<exists>u. restore_elements is t = Some u"
proof (induction "is" arbitrary: t)
  case (Cons i "is")
  have "table_max (link_first h he (snd (new_hashElmt i t))) = table_max t" for h he
    by (simp add: new_hashElmt_def link_first_def Let_def)
  then show ?case using Cons by (simp add: bucket_def case_prod_unfold new_hashElmt_def)
qed simp

lemma written_links:
  assumes l: "file_layout t cs" and m: "table_max t \<noteq> 0"
  shows "\<exists>out u v. dump_new_links t = Some (out, u) \<and> restore_table (u\<lparr>link_file := out\<rparr>) = Some v \<and>
    next_offset_link u = int (4 * length out) \<and>
    (\<forall>i < length (syms t). \<forall>l. l \<noteq> lt_junk \<longrightarrow> get_local_link_internal l i v = get_local_link_internal l i t)"
proof -
  let ?n = "length (syms t)"
  obtain xs where xs: "symbolIndex_table t = Some xs" "length xs = ?n + 1" using l by (auto simp: file_layout_def)
  define u where "u = t\<lparr>next_offset_link := int (4 * length (file_upto t cs ?n)),
    syms := map (\<lambda>i. (syms t ! i)\<lparr>offset_to_start_link := offsets_at t cs ?n ! (i + 1)\<rparr>) [0..<?n]\<rparr>"
  have d: "dump_new_links t = Some (file_upto t cs ?n, u)"
    using merge_symbols [OF l order.refl] xs by (simp add: dump_new_links_def u_def)
  have "table_max u \<noteq> 0" using m by (simp add: u_def)
  then obtain v where v: "restore_table (u\<lparr>link_file := file_upto t cs ?n\<rparr>) = Some v"
    using restore_elements_total unfolding restore_table_def by fastforce
  from restore_elements_views [OF v [unfolded restore_table_def]]
  have f: "symbolIndex_table v = None" "link_file v = file_upto t cs ?n" "syms v = syms u" by simp_all
  have "get_local_link_internal l i v = get_local_link_internal l i t" if i: "i < ?n" and j: "l \<noteq> lt_junk" for i l
  proof -
    obtain ps where ps: "links_of i t = Some ps" "map snd ps = body t cs i" using links_before [OF l i] by blast
    have "offset_to_start_link (syms v ! i) = int (4 * length (file_upto t cs i))"
      using i offsets_at_nth [OF i, of cs ?n] by (simp add: f(3) u_def)
    then obtain qs where qs: "links_of i v = Some qs" "live (map snd qs) = live (body t cs i)"
      using links_after [OF l i f(1, 2)] by blast
    show ?thesis using same_queries [OF ps(1) qs(1) _ j] ps(2) qs(2) by simp
  qed
  moreover have "next_offset_link u = int (4 * length (file_upto t cs ?n))" by (simp add: u_def)
  ultimately show ?thesis using d v by blast
qed

end
