(* ===== verification/Xref_Link_Properties.thy ===== *)
theory Xref_Link_Properties
  imports Xref_Link_Growth Xref_Link_Dates Xref_Link_Writing
begin

text \<open>
  The properties of the links of a symbol table: every link has its reverse, however the table was
  built; adding and removing a link are changes of a set of edges; the date of a file is read back;
  and a link that is suppressed is kept in one direction.
\<close>

section \<open>Sequences of operations\<close>

datatype xref_op = New_symbol nat string | Add_link bool nat nat nat | Rm_link nat nat nat | Set_date nat nat

fun run_op :: "xref_op \<Rightarrow> xtab \<Rightarrow> xtab option" where
  "run_op (New_symbol k ns) t = map_option snd (newSymbol k (length ns) ns t)"
| "run_op (Add_link same l i j) t = add_link_both same l j i t"
| "run_op (Rm_link l i j) t = rm_link l j i t"
| "run_op (Set_date d i) t = set_last_mod_date d i t"

fun run_ops :: "xref_op list \<Rightarrow> xtab \<Rightarrow> xtab option" where
  "run_ops [] t = Some t"
| "run_ops (x # xs) t = do { t \<leftarrow> run_op x t; run_ops xs t }"

text \<open>The symbols that an operation names exist, and names have no null byte.\<close>

fun op_ok :: "xref_op \<Rightarrow> nat \<Rightarrow> bool" where
  "op_ok (New_symbol k ns) n \<longleftrightarrow> n + 1 < 2 ^ 24 \<and> NUL \<notin> set ns"
| "op_ok (Add_link same l i j) n \<longleftrightarrow> i < n \<and> j < n \<and> paired l \<and> in_project same l i j"
| "op_ok (Rm_link l i j) n \<longleftrightarrow> i < n \<and> j < n \<and> paired l"
| "op_ok (Set_date d i) n \<longleftrightarrow> i < n"

fun op_count :: "xref_op \<Rightarrow> nat \<Rightarrow> nat" where
  "op_count (New_symbol k ns) n = n + 1"
| "op_count _ n = n"

fun ops_ok :: "xref_op list \<Rightarrow> nat \<Rightarrow> bool" where
  "ops_ok [] n \<longleftrightarrow> True"
| "ops_ok (x # xs) n \<longleftrightarrow> op_ok x n \<and> ops_ok xs (op_count x n)"

fun op_edges :: "xref_op \<Rightarrow> (nat \<times> nat \<times> nat) set \<Rightarrow> (nat \<times> nat \<times> nat) set" where
  "op_edges (New_symbol k ns) E = E"
| "op_edges (Add_link same l i j) E = link_edges l i j E"
| "op_edges (Rm_link l i j) E = unlink_edges l i j E"
| "op_edges (Set_date d i) E = E"

definition connected :: "xtab \<Rightarrow> (nat \<times> nat \<times> nat) set \<Rightarrow> bool" where
  "connected t E \<longleftrightarrow> holds t E \<and> reversed E \<and> typed E \<and> xref_ok t \<and> can_grow t"

lemma connected_keeps:
  assumes "connected t E" "holds u F" "reversed F" "typed F" "same_syms t u"
  shows "connected u F \<and> length (syms u) = length (syms t)"
  using assms same_syms_xref_ok [OF assms(5)] holdsD(1, 2) [OF assms(2)] same_syms_length [OF assms(5)]
  by (simp add: connected_def)

lemma becomes_same_holds: "holds t E \<Longrightarrow> becomes t (conn t) u \<Longrightarrow> holds u E"
  using becomes_holds [of t E "conn t" u E] holdsD(4, 5, 6) by blast

lemma run_op_connected:
  assumes c: "connected t E" and x: "op_ok x (length (syms t))"
  shows "\<exists>u. run_op x t = Some u \<and> connected u (op_edges x E) \<and> length (syms u) = op_count x (length (syms t))"
proof -
  have h: "holds t E" "reversed E" "typed E" "xref_ok t" "can_grow t" "writable t"
    using c by (simp_all add: connected_def can_grow_def)
  show ?thesis
  proof (cases x)
    case (New_symbol k ns)
    then have n: "length (syms t) + 1 < 2 ^ 24" "NUL \<notin> set ns" using x by simp_all
    obtain u where u: "newSymbol k (length ns) ns t = Some (Some (length (syms t)), u)" "holds u E"
      using newSymbol_holds [OF h(1, 4, 5) n] by blast
    have "length (syms t) < XREF_LIMIT_SIZE" using n(1) by (simp add: XREF_LIMIT_SIZE_def)
    from newSymbol_refines [OF h(4, 5) this n(2), of k] u(1)
    have f: "xref_ok u" "can_grow u" "listing u = listing t @ [(k mod 2 ^ 8, ns, False)]" by auto
    have "length (syms u) = length (syms t) + 1" using arg_cong [OF f(3), of length] by simp
    then show ?thesis using u f h(2, 3) New_symbol by (simp add: connected_def)
  next
    case (Add_link same l i j)
    then obtain u where "add_link_both same l j i t = Some u" "holds u (link_edges l i j E)" "same_syms t u"
      using add_link_both_holds [OF h(1-3), of i j l same] x h(6) by auto
    then show ?thesis using connected_keeps [OF c] link_edges_reversed [OF h(2)] link_edges_typed [OF h(2, 3)] Add_link by simp
  next
    case (Rm_link l i j)
    then obtain u where "rm_link l j i t = Some u" "holds u (unlink_edges l i j E)" "same_syms t u"
      using rm_link_holds [OF h(1), of i j l] x h(6) by auto
    then show ?thesis using connected_keeps [OF c] unlink_edges_reversed [OF h(2)] unlink_edges_typed [OF h(3)] Rm_link by simp
  next
    case (Set_date d i)
    then obtain u where u: "set_last_mod_date d i t = Some u" "becomes t (conn t) u"
      using set_last_mod_date_becomes [OF holdsD(1, 2) [OF h(1)], of i d] x by auto
    then show ?thesis
      using connected_keeps [OF c becomes_same_holds [OF h(1) u(2)] h(2, 3) becomes_ok(3) [OF u(2)]] Set_date by simp
  qed
qed

lemma run_ops_connected:
  assumes "connected t E" "ops_ok xs (length (syms t))"
  shows "\<exists>u. run_ops xs t = Some u \<and> connected u (fold op_edges xs E)"
  using assms
proof (induction xs arbitrary: t E)
  case (Cons x xs)
  then obtain u where "run_op x t = Some u" "connected u (op_edges x E)" "length (syms u) = op_count x (length (syms t))"
    using run_op_connected [of t E x] by auto
  then show ?case using Cons.IH [of u "op_edges x E"] Cons.prems(2) by simp
qed simp

lemma connected_reset: "connected reset_pmod {}" "syms reset_pmod = []"
proof -
  have "hashed reset_pmod (\<lambda>_. [])"
    by (simp add: hashed_def reset_pmod_def TABLE_MAX_def layout_def placed_def elements_def bij_betw_def)
  then have "xref_ok reset_pmod" by (auto simp: xref_ok_def names_ok_def reset_pmod_def)
  then show "connected reset_pmod {}"
    by (auto simp: connected_def holds_def reversed_def typed_def can_grow_def links_ok_def can_link_def reset_pmod_def)
qed (simp add: reset_pmod_def)

section \<open>The properties\<close>

text \<open>C31: whatever symbols, links and dates are made and removed, from an empty table on, the operations succeed, the hash table stays right, every link has its reverse, and a symbol has one type at most. The project may answer for every link whether its file belongs to it; only a file outside of the project is not linked to itself as the place where it is defined, since the code then makes one direction alone.\<close>

theorem links_stay_reversed:
  assumes "ops_ok xs 0"
  shows "\<exists>t. run_ops xs reset_pmod = Some t \<and> xref_ok t \<and>
    (\<forall>i < length (syms t). \<forall>j < length (syms t). \<forall>l. paired l \<longrightarrow> has_link l j i t = has_link (get_reverse_link l) i j t) \<and>
    (\<forall>i < length (syms t). \<exists>js. get_local_link_internal has_type i t = Some js \<and> length js \<le> 1)"
proof -
  obtain t E where t: "run_ops xs reset_pmod = Some t" "connected t E"
    using run_ops_connected [OF connected_reset(1), of xs] assms connected_reset(2) by auto
  have h: "holds t E" "reversed E" "typed E" "xref_ok t" using t(2) by (simp_all add: connected_def)
  have "has_link l j i t = has_link (get_reverse_link l) i j t"
    if "i < length (syms t)" "j < length (syms t)" "paired l" for i j l
  proof -
    have "(i, l, j) \<in> E \<longleftrightarrow> (j, get_reverse_link l, i) \<in> E" using h(2) reverse_reverse unfolding reversed_def by metis
    then show ?thesis using has_link_edge [OF h(1)] that paired_reverse [OF that(3)] by simp
  qed
  moreover have "\<exists>js. get_local_link_internal has_type i t = Some js \<and> length js \<le> 1" if i: "i < length (syms t)" for i
  proof -
    have ty: "paired has_type" "has_type \<noteq> is_defined_in" by (simp_all add: paired_def link_types)
    obtain js where js: "get_local_link_internal has_type i t = Some js" "distinct js" "set js = {j. (i, has_type, j) \<in> E}"
      using get_local_link_edges [OF h(1) i ty] by blast
    have same: "a = b" if "a \<in> set js" "b \<in> set js" for a b using that h(3) unfolding js(3) typed_def by blast
    have "length js \<le> 1"
    proof (rule ccontr)
      assume "\<not> length js \<le> 1"
      then have "1 < length js" by simp
      then have n: "0 < length js" "1 < length js" by linarith+
      then have "js ! 0 = js ! 1" using same nth_mem by blast
      then show False using js(2) n by (simp add: nth_eq_iff_index_eq)
    qed
    then show ?thesis using js(1) by blast
  qed
  ultimately show ?thesis using t(1) h(4) by blast
qed

theorem links_stay_reversed_witness:
  "\<exists>t. run_ops [New_symbol 1 ''Shape'', New_symbol 1 ''Circle'', New_symbol 2 ''c'', Add_link False 6 1 0, Add_link True 20 2 1,
      Add_link False 20 2 0, Rm_link 7 0 1, Set_date 1000 1] reset_pmod = Some t \<and> xref_ok t \<and>
    (\<forall>i < length (syms t). \<forall>j < length (syms t). \<forall>l. paired l \<longrightarrow> has_link l j i t = has_link (get_reverse_link l) i j t) \<and>
    (\<forall>i < length (syms t). \<exists>js. get_local_link_internal has_type i t = Some js \<and> length js \<le> 1)"
  by (rule links_stay_reversed) (simp add: paired_def in_project_def)

text \<open>C32: adding a link refines the change of the set of edges: the link and its reverse are there, and a new type replaces the old type in both directions. The exception is the link of a file outside of the project to itself as the place where it is defined.\<close>

theorem add_link_refines:
  assumes "holds t E" "reversed E" "typed E" "i < length (syms t)" "j < length (syms t)" "paired l" "writable t" "in_project same l i j"
  shows "\<exists>u. add_link_both same l j i t = Some u \<and> holds u (link_edges l i j E) \<and> length (syms u) = length (syms t) \<and>
    has_link l j i u = Some True \<and> has_link (get_reverse_link l) i j u = Some True"
proof -
  obtain u where u: "add_link_both same l j i t = Some u" "holds u (link_edges l i j E)" "same_syms t u"
    using add_link_both_holds [OF assms] by blast
  have n: "length (syms u) = length (syms t)" using same_syms_length [OF u(3)] by simp
  have "(i, l, j) \<in> link_edges l i j E" "(j, get_reverse_link l, i) \<in> link_edges l i j E" by (simp_all add: link_edges_def)
  then show ?thesis
    using u(1, 2) n has_link_edge [OF u(2)] assms(4-6) paired_reverse [OF assms(6)] by simp
qed

lemma two_symbols:
  "\<exists>t. run_ops [New_symbol k ''a'', New_symbol k ''b''] reset_pmod = Some t \<and> connected t {} \<and> length (syms t) = 2 \<and> kind (syms t ! 0) = k mod 2 ^ 8"
proof -
  have l: "length (syms reset_pmod) < XREF_LIMIT_SIZE" "length (syms reset_pmod) + 1 < 2 ^ 24"
    by (simp_all add: connected_reset(2) XREF_LIMIT_SIZE_def)
  have r: "xref_ok reset_pmod" "can_grow reset_pmod" "listing reset_pmod = []"
    using connected_reset by (simp_all add: connected_def listing_def)
  obtain t where t: "newSymbol k (length ''a'') ''a'' reset_pmod = Some (Some (length (syms reset_pmod)), t)"
      "xref_ok t" "can_grow t" "listing t = listing reset_pmod @ [(k mod 2 ^ 8, ''a'', False)]"
    using newSymbol_refines [OF r(1, 2) l(1), of "''a''" k] by auto
  have n: "length (syms t) = 1" using arg_cong [OF t(4), of length] r(3) by simp
  obtain u where u: "newSymbol k (length ''b'') ''b'' t = Some (Some (length (syms t)), u)" "listing u = listing t @ [(k mod 2 ^ 8, ''b'', False)]"
    using newSymbol_refines [OF t(2, 3), of "''b''" k] n by (auto simp: XREF_LIMIT_SIZE_def)
  have nu: "length (syms u) = 2" using arg_cong [OF u(2), of length] n by simp
  have "run_ops [New_symbol k ''a'', New_symbol k ''b''] reset_pmod = Some u" using t(1) u(1) by simp
  moreover have "connected u {}"
    using run_ops_connected [OF connected_reset(1), of "[New_symbol k ''a'', New_symbol k ''b'']"] calculation
    by (simp add: connected_reset(2))
  moreover have "kind (syms u ! 0) = k mod 2 ^ 8"
  proof -
    have "listing u ! 0 = (k mod 2 ^ 8, ''a'', False)" using u(2) t(4) r(3) by (simp del: nth_listing)
    then show ?thesis using nu by (simp add: nth_listing)
  qed
  ultimately show ?thesis using nu by blast
qed

theorem add_link_refines_witness:
  "\<exists>t u. run_ops [New_symbol 1 ''a'', New_symbol 1 ''b''] reset_pmod = Some t \<and> add_link_both False has_type 1 0 t = Some u \<and>
     has_link has_type 1 0 u = Some True \<and> has_link type_has 0 1 u = Some True"
proof -
  obtain t where t: "run_ops [New_symbol 1 ''a'', New_symbol 1 ''b''] reset_pmod = Some t" "connected t {}" "length (syms t) = 2"
    using two_symbols by blast
  then have "holds t {}" "reversed {}" "typed {}" "0 < length (syms t)" "1 < length (syms t)" "paired has_type" "writable t"
      "in_project False has_type 0 1"
    by (simp_all add: connected_def can_grow_def paired_def in_project_def link_types)
  from add_link_refines [OF this] show ?thesis using t(1) types_distinct(2) by auto
qed

text \<open>Removing a link refines the removal of an edge and its reverse from the set of edges.\<close>

theorem rm_link_refines:
  assumes "holds t E" "i < length (syms t)" "j < length (syms t)" "paired l" "writable t"
  shows "\<exists>u. rm_link l j i t = Some u \<and> holds u (unlink_edges l i j E) \<and> length (syms u) = length (syms t) \<and>
    has_link l j i u = Some False \<and> has_link (get_reverse_link l) i j u = Some False"
proof -
  obtain u where u: "rm_link l j i t = Some u" "holds u (unlink_edges l i j E)" "same_syms t u"
    using rm_link_holds [OF assms] by blast
  have n: "length (syms u) = length (syms t)" using same_syms_length [OF u(3)] by simp
  have "(i, l, j) \<notin> unlink_edges l i j E" "(j, get_reverse_link l, i) \<notin> unlink_edges l i j E" by (simp_all add: unlink_edges_def)
  then show ?thesis
    using u(1, 2) n has_link_edge [OF u(2)] assms(2-4) paired_reverse [OF assms(4)] by simp
qed

theorem rm_link_refines_witness:
  "\<exists>t u v. run_ops [New_symbol 1 ''a'', New_symbol 1 ''b''] reset_pmod = Some t \<and> add_link_both False has_type 1 0 t = Some u \<and>
     rm_link type_has 0 1 u = Some v \<and> has_link has_type 1 0 v = Some False"
proof -
  obtain t where t: "run_ops [New_symbol 1 ''a'', New_symbol 1 ''b''] reset_pmod = Some t" "connected t {}" "length (syms t) = 2"
    using two_symbols by blast
  then have "holds t {}" "reversed {}" "typed {}" "0 < length (syms t)" "1 < length (syms t)" "paired has_type" "writable t"
      "in_project False has_type 0 1"
    by (simp_all add: connected_def can_grow_def paired_def in_project_def link_types)
  from add_link_both_holds [OF this] obtain u where u: "add_link_both False has_type 1 0 t = Some u"
      "holds u (link_edges has_type 0 1 {})" "same_syms t u" by blast
  have "1 < length (syms u)" "0 < length (syms u)" "paired type_has" "writable u"
    using same_syms_length [OF u(3)] u(3) t by (simp_all add: same_syms_def connected_def can_grow_def paired_def link_types)
  from rm_link_refines [OF u(2) this] show ?thesis using t(1) u(1) types_distinct(3) by auto
qed

text \<open>C33: the date that a file was given is read back, whatever date it had, and no link between symbols changes.\<close>

theorem date_is_read_back:
  assumes "links_ok t" "can_link t" "i < length (syms t)" "writable t" "dated t i" "0 < date" "date < 2 ^ 32"
  shows "\<exists>u. set_last_mod_date date i t = Some u \<and> dated u i \<and> get_last_mod_date i u = Some (int date) \<and>
    (\<forall>j < length (syms t). conn u j = conn t j)"
  using set_date [OF assms] becomes_ok(6) by blast

lemma one_file:
  fixes t :: xtab
  defines "t \<equiv> reset_pmod\<lparr>syms := [init 1 DD_MODULE 0 0], link_file := [last_link]\<rparr>"
  shows "links_ok t" "can_link t" "0 < length (syms t)" "writable t" "content t 0 = {#}" "kind (syms t ! 0) = DD_MODULE"
    "holds t {}"
proof -
  have sh: "file_links t 0 = []" "symbolIndex_table t = None" "syms t = [init 1 DD_MODULE 0 0]" "link_file t = [last_link]"
    "orig_link_offsets t = []"
    by (simp_all add: t_def file_links_def last_link_def reset_pmod_def)
  have r: "refs t 0 = []" "shape_ok t 0"
    using sh by (simp_all add: refs_def shape_ok_def arr_def offset_def file_refs_def file_ok_def file_start_def init_def)
  show "links_ok t" using sh r by (simp add: links_ok_def init_def)
  show "can_link t" "0 < length (syms t)" "writable t" by (simp_all add: t_def can_link_def reset_pmod_def)
  show "content t 0 = {#}" using r by (simp add: content_def)
  then have "conn t 0 = {#}" by (simp add: conn_def)
  then show "holds t {}" using \<open>links_ok t\<close> \<open>can_link t\<close> sh by (simp add: holds_def)
  show "kind (syms t ! 0) = DD_MODULE" using sh by (simp add: init_def dd_kinds)
qed

theorem date_is_read_back_witness:
  "\<exists>u. set_last_mod_date 1000000000 0 (reset_pmod\<lparr>syms := [init 1 DD_MODULE 0 0], link_file := [last_link]\<rparr>) = Some u \<and>
     get_last_mod_date 0 u = Some 1000000000"
proof -
  let ?t = "reset_pmod\<lparr>syms := [init 1 DD_MODULE 0 0], link_file := [last_link]\<rparr>"
  have "dated ?t 0" using one_file(5) by (simp add: dated_def dates_def)
  from date_is_read_back [OF one_file(1-4) this, of 1000000000] show ?thesis by auto
qed

text \<open>C34: when the link by which a file is defined in itself is suppressed, because the file is not of the project, the link back is made all the same.\<close>

theorem suppressed_link_half_kept:
  assumes "holds t E" "typed E" "i < length (syms t)" "writable t" "kind (syms t ! i) = DD_MODULE" "(i, is_defined_in, i) \<notin> E"
  shows "\<exists>u. add_link_both False is_defined_in i i t = Some u \<and>
    has_link is_defined_in i i u = Some False \<and> has_link is_defining i i u = Some True"
proof -
  have p: "paired is_defined_in" "paired is_defining" "get_reverse_link is_defined_in = is_defining"
    "is_defining \<noteq> is_defined_in" "is_defining \<noteq> has_type"
    by (simp_all add: paired_def link_types reverse_link)
  note hD = holdsD [OF assms(1)]
  obtain u where u: "add_link False is_defined_in i i t = Some u" "becomes t (conn t) u"
    using suppressed_becomes [OF hD(1, 2) assms(3-5)] by blast
  note o = becomes_ok [OF u(2)]
  have i: "i < length (syms u)" "writable u" using o(4, 5) assms(3, 4) by simp_all
  obtain v where v: "add_link False is_defining i i u = Some v" "holds v (add_edge is_defining i i E)" "same_syms u v"
    using add_link_holds [OF becomes_same_holds [OF assms(1) u(2)] assms(2) i(1, 1) p(2) i(2), of False] p(4) by blast
  have "i < length (syms v)" using same_syms_length [OF v(3)] i(1) by simp
  moreover have "(i, is_defined_in, i) \<notin> add_edge is_defining i i E" "(i, is_defining, i) \<in> add_edge is_defining i i E"
    using assms(6) p(4, 5) by (simp_all add: add_edge_def)
  ultimately show ?thesis
    using u(1) v(1) p(1-3) assms(4) has_link_edge [OF v(2)] by (simp add: add_link_both_def)
qed

theorem suppressed_link_half_kept_witness:
  "\<exists>u. add_link_both False is_defined_in 0 0 (reset_pmod\<lparr>syms := [init 1 DD_MODULE 0 0], link_file := [last_link]\<rparr>) = Some u \<and>
     has_link is_defined_in 0 0 u = Some False \<and> has_link is_defining 0 0 u = Some True"
  by (rule suppressed_link_half_kept [OF one_file(7) _ one_file(3, 4, 6)]) (simp_all add: typed_def)

text \<open>C35: writing the link file and opening it again keeps the answer of every query for links, and the size that the header of the file records is the size that was written.\<close>

theorem links_are_read_back:
  assumes "file_layout t cs" "table_max t \<noteq> 0"
  shows "\<exists>out u v. dump_new_links t = Some (out, u) \<and> restore_table (u\<lparr>link_file := out\<rparr>) = Some v \<and>
    next_offset_link u = int (4 * length out) \<and>
    (\<forall>i < length (syms t). \<forall>l. l \<noteq> lt_junk \<longrightarrow> get_local_link_internal l i v = get_local_link_internal l i t)"
  by (rule written_links [OF assms])

text \<open>Two symbols that were in the file, the first with a new link and junk, and a new symbol.\<close>

theorem links_are_read_back_witness:
  "\<exists>out u v. dump_new_links (reset_pmod\<lparr>syms := [init 1 1 0 0, init 2 1 0 0, init 3 1 0 0],
      symbolIndex_table := Some [None, Some [mk_link 20 3, mk_link 2 0], None, Some [mk_link 21 1, last_link]],
      orig_link_offsets := [-1, 0, 8, -1], link_file := [mk_link 4 2, last_link, mk_link 5 1, last_link],
      saved_next_loffset := 16\<rparr>) = Some (out, u) \<and> restore_table (u\<lparr>link_file := out\<rparr>) = Some v \<and>
    next_offset_link u = int (4 * length out)"
proof -
  let ?t = "reset_pmod\<lparr>syms := [init 1 1 0 0, init 2 1 0 0, init 3 1 0 0],
      symbolIndex_table := Some [None, Some [mk_link 20 3, mk_link 2 0], None, Some [mk_link 21 1, last_link]],
      orig_link_offsets := [-1, 0, 8, -1], link_file := [mk_link 4 2, last_link, mk_link 5 1, last_link],
      saved_next_loffset := 16\<rparr>"
  have less3: "(\<forall>k < 3. P k) \<longleftrightarrow> P 0 \<and> P 1 \<and> P 2" for P :: "nat \<Rightarrow> bool"
  proof -
    have "k < 3 \<longleftrightarrow> k = 0 \<or> k = 1 \<or> k = 2" for k :: nat by linarith
    then show ?thesis by metis
  qed
  have "length (syms ?t) = 3" by simp
  then have "file_layout ?t [[mk_link 4 2, last_link], [mk_link 5 1, last_link]]"
    unfolding file_layout_def by (simp only: less3) (simp add: chunk_ok_def new_part_def mk_link_def last_link_def init_def lt_last_def)
  from links_are_read_back [OF this] show ?thesis by (fastforce simp: reset_pmod_def TABLE_MAX_def)
qed

end
