(* ===== verification/Hash_Table.thy ===== *)
theory Hash_Table
  imports Prelude
begin

text \<open>
  The hash tables of \<^verbatim>\<open>libs/gen/include/gen_hash.h\<close>: a table of chains in which a chain that has grown
  too long becomes a table of its own, on a larger prime number. Keys are compared as pointers and
  hashed by their low 32 bits; values are pointers, and 0 is the null pointer.
\<close>

section \<open>Tables\<close>

type_synonym key = "64 word"

datatype cell = Null | Bucket "(key \<times> nat) list" | Table ghash
  and ghash = GHash nat "cell list"

definition MAX_LEVEL :: nat where "MAX_LEVEL = 3"
definition MAX_CHAIN :: nat where "MAX_CHAIN = 7"

definition get_size_of_level :: "nat \<Rightarrow> nat" where
  "get_size_of_level lev = (if lev = 0 then 191 else if lev = 1 then 373 else 739)"

definition hash_of :: "nat \<Rightarrow> key \<Rightarrow> nat" where
  "hash_of lev k = unat (ucast k :: 32 word) mod get_size_of_level lev"

definition new_hash :: "nat \<Rightarrow> ghash" where
  "new_hash lev = GHash lev (replicate (get_size_of_level lev) Null)"

definition cell_at :: "cell list \<Rightarrow> nat \<Rightarrow> cell" where
  "cell_at cs i = (if i < length cs then cs ! i else Null)"

section \<open>Chains\<close>

fun chain_set :: "key \<Rightarrow> nat \<Rightarrow> (key \<times> nat) list \<Rightarrow> (key \<times> nat) list" where
  "chain_set k v [] = []"
| "chain_set k v ((k', v') # bs) = (if k' = k then (k', v) # bs else (k', v') # chain_set k v bs)"

fun lookup_bucket :: "key \<Rightarrow> (key \<times> nat) list \<Rightarrow> nat" where
  "lookup_bucket k [] = 0"
| "lookup_bucket k ((k', v') # bs) = (if k' = k then v' else lookup_bucket k bs)"

text \<open>A new bucket goes behind the first one.\<close>

definition insert_behind :: "key \<times> nat \<Rightarrow> (key \<times> nat) list \<Rightarrow> (key \<times> nat) list" where
  "insert_behind b bs = hd bs # b # tl bs"

definition chain_insert :: "key \<Rightarrow> nat \<Rightarrow> (key \<times> nat) list \<Rightarrow> (key \<times> nat) list" where
  "chain_insert k v bs = (if k \<in> fst ` set bs then chain_set k v bs else insert_behind (k, v) bs)"

text \<open>
  The loop of \<open>remove_bucket\<close> goes on until a value was found that is not null: when the value of
  the bucket is null it goes on in a bucket that was deleted, which has no meaning (\<open>None\<close>).
  The code also reads the next pointer of the first bucket after it was deleted, when the result is
  no longer used. The chain of a cell has a bucket (\<open>hash_ok\<close>).
\<close>

fun remove_bucket :: "key \<Rightarrow> (key \<times> nat) list \<Rightarrow> (nat \<times> (key \<times> nat) list) option" where
  "remove_bucket k [] = Some (0, [])"
| "remove_bucket k ((k', v') # bs) =
     (if k' = k then if v' = 0 then None else Some (v', bs)
      else map_option (\<lambda>(v, bs). (v, (k', v') # bs)) (remove_bucket k bs))"

section \<open>Operations\<close>

text \<open>A table that is being filled from a chain has chains only.\<close>

fun insert_one_bucket :: "key \<times> nat \<Rightarrow> ghash \<Rightarrow> ghash" where
  "insert_one_bucket b (GHash lev cs) =
     (let hv = hash_of lev (fst b)
      in case cell_at cs hv of
           Bucket bl \<Rightarrow> GHash lev (cs[hv := Bucket (insert_behind b bl)])
         | _ \<Rightarrow> GHash lev (cs[hv := Bucket [b]]))"

definition insert_buckets :: "(key \<times> nat) list \<Rightarrow> ghash \<Rightarrow> ghash" where
  "insert_buckets bl t = fold insert_one_bucket bl t"

definition convert_to_table :: "(key \<times> nat) list \<Rightarrow> nat \<Rightarrow> ghash" where
  "convert_to_table bl lev = insert_buckets bl (new_hash lev)"

fun depth :: "ghash \<Rightarrow> nat" and cell_depth :: "cell \<Rightarrow> nat" where
  "depth (GHash lev cs) = fold max (map cell_depth cs) 0"
| "cell_depth Null = 0"
| "cell_depth (Bucket bs) = 0"
| "cell_depth (Table t) = Suc (depth t)"

fun level_of :: "ghash \<Rightarrow> nat" where
  "level_of (GHash lev cs) = lev"

lemma fold_max: "fold max xs n = (m :: nat) \<Longrightarrow> n \<le> m \<and> (\<forall>x \<in> set xs. x \<le> m)"
proof (induction xs arbitrary: n)
  case (Cons x xs)
  then show ?case using Cons.IH [of "max x n"] by fastforce
qed simp

lemma fold_max_le: "n \<le> (m :: nat) \<Longrightarrow> \<forall>x \<in> set xs. x \<le> m \<Longrightarrow> fold max xs n \<le> m"
  by (induction xs arbitrary: n) simp_all

lemma depth_below: "cell_at cs i = Table t \<Longrightarrow> depth t < depth (GHash lev cs)"
  using fold_max [OF refl, of 0 "map cell_depth cs"] nth_mem [of i cs]
  by (fastforce simp: cell_at_def split: if_splits)

lemma insert_one_simple:
  assumes "\<forall>c \<in> set cs. cell_depth c = 0"
  shows "\<exists>cs'. insert_one_bucket b (GHash lev cs) = GHash lev cs' \<and> (\<forall>c \<in> set cs'. cell_depth c = 0)"
  using assms by (fastforce simp: Let_def dest!: set_update_subset_insert [THEN subsetD] split: cell.splits)

lemma convert_depth: "depth (convert_to_table bl lev) = 0 \<and> level_of (convert_to_table bl lev) = lev"
proof -
  have "\<exists>cs'. fold insert_one_bucket bl (GHash lev cs) = GHash lev cs' \<and> (\<forall>c \<in> set cs'. cell_depth c = 0)"
    if "\<forall>c \<in> set cs. cell_depth c = 0" for cs
    using that
  proof (induction bl arbitrary: cs)
    case (Cons b bl)
    obtain cs1 where "insert_one_bucket b (GHash lev cs) = GHash lev cs1" "\<forall>c \<in> set cs1. cell_depth c = 0"
      using insert_one_simple [OF Cons.prems] by blast
    then show ?case using Cons.IH [of cs1] by simp
  qed auto
  from this [of "replicate (get_size_of_level lev) Null"]
  obtain cs' where "convert_to_table bl lev = GHash lev cs'" "\<forall>c \<in> set cs'. cell_depth c = 0"
    by (auto simp: convert_to_table_def insert_buckets_def new_hash_def)
  then show ?thesis using fold_max_le [of 0 0 "map cell_depth cs'"] by simp
qed

text \<open>A chain of more than \<open>MAX_CHAIN\<close> buckets becomes a table before the insertion; a table on the last level keeps its chains.\<close>

function hash_insert :: "key \<Rightarrow> nat \<Rightarrow> ghash \<Rightarrow> ghash" where
  "hash_insert k v (GHash lev cs) =
     (let hv = hash_of lev k
      in case cell_at cs hv of
           Null \<Rightarrow> GHash lev (cs[hv := Bucket [(k, v)]])
         | Table nl \<Rightarrow> GHash lev (cs[hv := Table (hash_insert k v nl)])
         | Bucket bl \<Rightarrow>
             if lev < MAX_LEVEL \<and> length bl > MAX_CHAIN
             then GHash lev (cs[hv := Table (hash_insert k v (convert_to_table bl (lev + 1)))])
             else GHash lev (cs[hv := Bucket (chain_insert k v bl)]))"
  by pat_completeness auto
termination
proof (relation "inv_image ({(a, b). a < b} <*lex*> {(a, b). a < b}) (\<lambda>(k, v, t). (depth t, MAX_LEVEL - level_of t))")
  show "wf (inv_image ({(a, b). a < b} <*lex*> {(a, b). a < b}) (\<lambda>(k, v, t). (depth t, MAX_LEVEL - level_of t)))"
    by (intro wf_inv_image wf_lex_prod) (simp_all add: wf_less)
next
  fix k :: key and v :: nat and lev cs hv nl
  assume "hv = hash_of lev k" "cell_at cs hv = Table nl"
  then show "((k, v, nl), k, v, GHash lev cs) \<in> inv_image ({(a, b). a < b} <*lex*> {(a, b). a < b}) (\<lambda>(k, v, t). (depth t, MAX_LEVEL - level_of t))"
    using depth_below by (simp del: depth.simps)
next
  fix k :: key and v lev :: nat and cs hv and bl :: "(key \<times> nat) list"
  assume "lev < MAX_LEVEL \<and> length bl > MAX_CHAIN"
  then show "((k, v, convert_to_table bl (lev + 1)), k, v, GHash lev cs) \<in> inv_image ({(a, b). a < b} <*lex*> {(a, b). a < b}) (\<lambda>(k, v, t). (depth t, MAX_LEVEL - level_of t))"
    using convert_depth [of bl "lev + 1"] by auto
qed

function hash_lookup :: "key \<Rightarrow> ghash \<Rightarrow> nat" where
  "hash_lookup k (GHash lev cs) =
     (case cell_at cs (hash_of lev k) of
        Null \<Rightarrow> 0
      | Table nl \<Rightarrow> hash_lookup k nl
      | Bucket bl \<Rightarrow> lookup_bucket k bl)"
  by pat_completeness auto
termination
  by (relation "measure (\<lambda>(k, t). depth t)") (use depth_below in \<open>simp_all del: depth.simps\<close>)

function hash_remove :: "key \<Rightarrow> ghash \<Rightarrow> (nat \<times> ghash) option" where
  "hash_remove k (GHash lev cs) =
     (let hv = hash_of lev k
      in case cell_at cs hv of
           Null \<Rightarrow> Some (0, GHash lev cs)
         | Table nl \<Rightarrow> map_option (\<lambda>(v, nl). (v, GHash lev (cs[hv := Table nl]))) (hash_remove k nl)
         | Bucket bl \<Rightarrow>
             map_option (\<lambda>(v, bl). (v, GHash lev (cs[hv := if bl = [] then Null else Bucket bl]))) (remove_bucket k bl))"
  by pat_completeness auto
termination
  by (relation "measure (\<lambda>(k, t). depth t)") (use depth_below in \<open>simp_all del: depth.simps\<close>)

declare hash_insert.simps [simp del] hash_lookup.simps [simp del] hash_remove.simps [simp del]

section \<open>The entries of a table\<close>

fun entries :: "ghash \<Rightarrow> (key \<times> nat) list" and cell_entries :: "cell \<Rightarrow> (key \<times> nat) list" where
  "entries (GHash lev cs) = concat (map cell_entries cs)"
| "cell_entries Null = []"
| "cell_entries (Bucket bs) = bs"
| "cell_entries (Table t) = entries t"

inductive hash_ok :: "ghash \<Rightarrow> bool" and cell_ok :: "nat \<Rightarrow> nat \<Rightarrow> cell \<Rightarrow> bool" where
  hash_okI: "length cs = get_size_of_level lev \<Longrightarrow> (\<And>i. i < length cs \<Longrightarrow> cell_ok lev i (cs ! i)) \<Longrightarrow> hash_ok (GHash lev cs)"
| null_ok: "cell_ok lev i Null"
| bucket_ok: "bs \<noteq> [] \<Longrightarrow> distinct (map fst bs) \<Longrightarrow> (\<And>k v. (k, v) \<in> set bs \<Longrightarrow> hash_of lev k = i) \<Longrightarrow>
    lev < MAX_LEVEL \<longrightarrow> length bs \<le> MAX_CHAIN + 1 \<Longrightarrow> cell_ok lev i (Bucket bs)"
| table_ok: "hash_ok (GHash (Suc lev) cs) \<Longrightarrow> lev < MAX_LEVEL \<Longrightarrow>
    (\<And>k v. (k, v) \<in> set (entries (GHash (Suc lev) cs)) \<Longrightarrow> hash_of lev k = i) \<Longrightarrow> cell_ok lev i (Table (GHash (Suc lev) cs))"

declare entries.simps [simp del]

inductive_simps hash_ok_simps: "hash_ok (GHash lev cs)"
inductive_simps cell_ok_null [simp]: "cell_ok lev i Null"
inductive_simps cell_ok_bs: "cell_ok lev i (Bucket bs)"
inductive_cases table_okE: "cell_ok lev i (Table t)"

lemma cell_ok_bucket [simp]: "cell_ok lev i (Bucket bs) \<longleftrightarrow> bs \<noteq> [] \<and> distinct (map fst bs) \<and>
    (\<forall>e \<in> set bs. hash_of lev (fst e) = i) \<and> (lev < MAX_LEVEL \<longrightarrow> length bs \<le> MAX_CHAIN + 1)"
  unfolding cell_ok_bs by auto

lemma cell_ok_table [simp]: "cell_ok lev i (Table t) \<longleftrightarrow>
    hash_ok t \<and> level_of t = Suc lev \<and> lev < MAX_LEVEL \<and> (\<forall>e \<in> set (entries t). hash_of lev (fst e) = i)"
proof
  assume "cell_ok lev i (Table t)"
  then show "hash_ok t \<and> level_of t = Suc lev \<and> lev < MAX_LEVEL \<and> (\<forall>e \<in> set (entries t). hash_of lev (fst e) = i)"
    by (rule table_okE) (auto simp del: entries.simps)
next
  assume a: "hash_ok t \<and> level_of t = Suc lev \<and> lev < MAX_LEVEL \<and> (\<forall>e \<in> set (entries t). hash_of lev (fst e) = i)"
  obtain lev' cs where t: "t = GHash lev' cs" by (cases t)
  have l: "lev' = Suc lev" using a t by simp
  show "cell_ok lev i (Table t)" unfolding t l by (rule table_ok) (use a t l in auto)
qed

lemma size_pos: "0 < get_size_of_level lev" by (simp add: get_size_of_level_def)

lemma hash_less: "hash_of lev k < get_size_of_level lev"
  using size_pos by (simp add: hash_of_def)

lemma cell_hash: "cell_ok lev i c \<Longrightarrow> (k, v) \<in> set (cell_entries c) \<Longrightarrow> hash_of lev k = i"
  by (cases c) (auto simp del: entries.simps)

lemma entries_cells: "set (entries (GHash lev cs)) = (\<Union>i < length cs. set (cell_entries (cs ! i)))"
  by (fastforce simp: entries.simps in_set_conv_nth)

text \<open>A new cell changes the entries with its hash value only.\<close>

lemma entries_update:
  assumes ok: "hash_ok (GHash lev cs)" and i: "i < length cs"
    and c: "\<And>e. e \<in> set (cell_entries c) \<longleftrightarrow> e \<in> F \<or> e \<in> set (cell_entries (cs ! i)) \<and> P e"
    and P: "\<And>e. hash_of lev (fst e) \<noteq> i \<Longrightarrow> P e"
  shows "e \<in> set (entries (GHash lev (cs[i := c]))) \<longleftrightarrow> e \<in> F \<or> e \<in> set (entries (GHash lev cs)) \<and> P e"
proof -
  have cells: "cell_ok lev j (cs ! j)" if "j < length cs" for j using ok that by (simp add: hash_ok_simps)
  have "e \<in> set (entries (GHash lev (cs[i := c]))) \<longleftrightarrow>
      e \<in> set (cell_entries c) \<or> (\<exists>j < length cs. j \<noteq> i \<and> e \<in> set (cell_entries (cs ! j)))"
    unfolding entries_cells using i by (auto simp: nth_list_update split: if_splits)
  moreover have "e \<in> set (entries (GHash lev cs)) \<longleftrightarrow>
      e \<in> set (cell_entries (cs ! i)) \<or> (\<exists>j < length cs. j \<noteq> i \<and> e \<in> set (cell_entries (cs ! j)))"
    unfolding entries_cells using i by auto
  moreover have "P e" if "j < length cs" "j \<noteq> i" "e \<in> set (cell_entries (cs ! j))" for j
    using P [of e] cell_hash [OF cells [OF that(1)], of "fst e" "snd e"] that by auto
  ultimately show ?thesis using c [of e] by blast
qed

lemma cell_update_ok:
  assumes "hash_ok (GHash lev cs)" "cell_ok lev i c"
  shows "hash_ok (GHash lev (cs[i := c]))"
  using assms by (auto simp: hash_ok_simps) (metis nth_list_update_eq nth_list_update_neq)

end
