(* ===== verification/Hash_Refinement.thy ===== *)
theory Hash_Refinement
  imports Hash_Table "HOL-Library.Multiset"
begin

text \<open>
  The operations of the hash tables are those of a finite map: what they do to chains, to the table
  that a long chain becomes, and to the entries of a table.
\<close>

section \<open>Chains\<close>

lemma chain_set_keys: "map fst (chain_set k v bs) = map fst bs"
  by (induction k v bs rule: chain_set.induct) simp_all

lemma chain_set_entries:
  "distinct (map fst bs) \<Longrightarrow> k \<in> fst ` set bs \<Longrightarrow> e \<in> set (chain_set k v bs) \<longleftrightarrow> e = (k, v) \<or> e \<in> set bs \<and> fst e \<noteq> k"
  by (induction k v bs rule: chain_set.induct) (auto simp: image_iff)

lemma chain_insert_ok:
  assumes "bs \<noteq> []" "distinct (map fst bs)"
  shows "distinct (map fst (chain_insert k v bs))" "e \<in> set (chain_insert k v bs) \<longleftrightarrow> e = (k, v) \<or> e \<in> set bs \<and> fst e \<noteq> k"
    "chain_insert k v bs \<noteq> []" "length (chain_insert k v bs) \<le> length bs + 1"
proof -
  have len: "length (chain_set k v bs) = length bs" using arg_cong [OF chain_set_keys, of length k v bs] by simp
  obtain b bs' where bs: "bs = b # bs'" using assms(1) by (cases bs) simp_all
  show "distinct (map fst (chain_insert k v bs))" "chain_insert k v bs \<noteq> []" "length (chain_insert k v bs) \<le> length bs + 1"
    using assms len chain_set_keys [of k v bs] by (auto simp: chain_insert_def insert_behind_def bs)
  show "e \<in> set (chain_insert k v bs) \<longleftrightarrow> e = (k, v) \<or> e \<in> set bs \<and> fst e \<noteq> k"
  proof (cases "k \<in> fst ` set bs")
    case True
    then show ?thesis using chain_set_entries [OF assms(2) True] by (simp add: chain_insert_def)
  next
    case False
    then have "e \<in> set bs \<Longrightarrow> fst e \<noteq> k" by blast
    then show ?thesis using False by (auto simp: chain_insert_def insert_behind_def bs)
  qed
qed

lemma remove_bucket_cases:
  assumes "distinct (map fst bs)"
  shows "k \<notin> fst ` set bs \<Longrightarrow> remove_bucket k bs = Some (0, bs)"
    "(k, v) \<in> set bs \<Longrightarrow> remove_bucket k bs = (if v = 0 then None else Some (v, filter (\<lambda>e. fst e \<noteq> k) bs))"
  using assms
proof (induction k bs rule: remove_bucket.induct)
  case (2 k k' v' bs)
  { case 1
    then show ?case using 2 by auto
  next
    case 2
    show ?case
    proof (cases "k' = k")
      case True
      then have "k \<notin> fst ` set bs" using 2(2) by auto
      then have "filter (\<lambda>e. fst e \<noteq> k) bs = bs" "v = v'" using 2 True by (auto simp: filter_id_conv image_iff)
      then show ?thesis using True by simp
    next
      case False
      then show ?thesis using 2 "2.IH"(2) by auto
    qed }
qed simp_all

lemma lookup_bucket_cases:
  assumes "distinct (map fst bs)"
  shows "k \<notin> fst ` set bs \<Longrightarrow> lookup_bucket k bs = 0" "(k, v) \<in> set bs \<Longrightarrow> lookup_bucket k bs = v"
  using assms by (induction k bs rule: lookup_bucket.induct) (auto simp: image_iff)

lemma key_absent: "k \<notin> fst ` set bs \<longleftrightarrow> (\<forall>v. (k, v) \<notin> set bs)"
  by force

section \<open>A chain that becomes a table\<close>

definition filled :: "nat \<Rightarrow> cell list \<Rightarrow> (key \<times> nat) list \<Rightarrow> bool" where
  "filled lev cs xs \<longleftrightarrow> length cs = get_size_of_level lev \<and> (\<forall>i < length cs. \<exists>b.
     cs ! i = (if b = [] then Null else Bucket b) \<and> mset b = filter_mset (\<lambda>e. hash_of lev (fst e) = i) (mset xs))"

lemma mset_insert_behind: "b \<noteq> [] \<Longrightarrow> mset (insert_behind e b) = add_mset e (mset b)"
  by (cases b) (simp_all add: insert_behind_def)

lemma insert_one_filled:
  assumes "filled lev cs xs"
  shows "\<exists>cs'. insert_one_bucket e (GHash lev cs) = GHash lev cs' \<and> filled lev cs' (e # xs)"
proof -
  let ?hv = "hash_of lev (fst e)"
  have hv: "?hv < length cs" using assms hash_less by (simp add: filled_def)
  obtain b where b: "cs ! ?hv = (if b = [] then Null else Bucket b)" "mset b = filter_mset (\<lambda>e'. hash_of lev (fst e') = ?hv) (mset xs)"
    using assms hv by (auto simp: filled_def)
  define b' where "b' = (if b = [] then [e] else insert_behind e b)"
  have b': "b' \<noteq> []" "mset b' = add_mset e (mset b)"
    by (cases "b = []"; simp add: b'_def mset_insert_behind; simp add: insert_behind_def)+
  have "insert_one_bucket e (GHash lev cs) = GHash lev (cs[?hv := Bucket b'])"
    using b(1) hv by (auto simp: Let_def cell_at_def b'_def)
  moreover have "filled lev (cs[?hv := Bucket b']) (e # xs)"
    unfolding filled_def
  proof (intro conjI allI impI)
    show "length (cs[?hv := Bucket b']) = get_size_of_level lev" using assms by (simp add: filled_def)
    fix i assume i: "i < length (cs[?hv := Bucket b'])"
    show "\<exists>b. cs[?hv := Bucket b'] ! i = (if b = [] then Null else Bucket b) \<and>
        mset b = filter_mset (\<lambda>e. hash_of lev (fst e) = i) (mset (e # xs))"
    proof (cases "i = ?hv")
      case True
      then show ?thesis using b' b(2) hv by (intro exI [of _ b']) simp
    next
      case False
      then show ?thesis using assms i by (auto simp: filled_def)
    qed
  qed
  ultimately show ?thesis by blast
qed

lemma convert_filled: "\<exists>cs. convert_to_table bl lev = GHash lev cs \<and> filled lev cs (rev bl)"
proof -
  have "\<exists>cs'. fold insert_one_bucket bl (GHash lev cs) = GHash lev cs' \<and> filled lev cs' (rev bl @ xs)" if "filled lev cs xs" for cs xs
    using that
  proof (induction bl arbitrary: cs xs)
    case (Cons e bl)
    obtain cs1 where "insert_one_bucket e (GHash lev cs) = GHash lev cs1" "filled lev cs1 (e # xs)"
      using insert_one_filled [OF Cons.prems] by blast
    then show ?case using Cons.IH [of cs1 "e # xs"] by simp
  qed simp
  from this [of "replicate (get_size_of_level lev) Null" "[]"]
  show ?thesis by (simp add: filled_def convert_to_table_def insert_buckets_def new_hash_def del: replicate.simps)
qed

lemma convert_ok:
  assumes "distinct (map fst bl)" "length bl \<le> MAX_CHAIN + 1"
  shows "\<exists>cs. convert_to_table bl lev = GHash lev cs \<and> hash_ok (GHash lev cs) \<and> set (entries (GHash lev cs)) = set bl"
proof -
  obtain cs where cs: "convert_to_table bl lev = GHash lev cs" "filled lev cs (rev bl)" using convert_filled by blast
  have cell: "\<exists>b. cs ! i = (if b = [] then Null else Bucket b) \<and> mset b = mset (filter (\<lambda>e. hash_of lev (fst e) = i) bl)"
    if "i < length cs" for i
    using cs(2) that by (simp add: filled_def)
  have "cell_ok lev i (cs ! i)" if i: "i < length cs" for i
  proof -
    obtain b where b: "cs ! i = (if b = [] then Null else Bucket b)" "mset b = mset (filter (\<lambda>e. hash_of lev (fst e) = i) bl)"
      using cell [OF i] by blast
    have "distinct (map fst b) = distinct (map fst (filter (\<lambda>e. hash_of lev (fst e) = i) bl))"
      by (rule mset_eq_imp_distinct_iff) (simp only: mset_map b(2))
    then have "distinct (map fst b)" using assms(1) distinct_map_filter by blast
    moreover have "length b \<le> MAX_CHAIN + 1" using assms(2) mset_eq_length [OF b(2)] length_filter_le le_trans by metis
    moreover have "hash_of lev k = i" if "(k, v) \<in> set b" for k v
      using mset_eq_setD [OF b(2)] that by auto
    ultimately show ?thesis using b(1) by auto
  qed
  then have "hash_ok (GHash lev cs)" using cs(2) by (simp add: hash_ok_simps filled_def)
  moreover have "set (entries (GHash lev cs)) = set bl"
  proof -
    have "set (cell_entries (cs ! i)) = {e \<in> set bl. hash_of lev (fst e) = i}" if i: "i < length cs" for i
    proof -
      obtain b where b: "cs ! i = (if b = [] then Null else Bucket b)" "mset b = mset (filter (\<lambda>e. hash_of lev (fst e) = i) bl)"
        using cell [OF i] by blast
      then show ?thesis using mset_eq_setD [OF b(2)] by auto
    qed
    moreover have "hash_of lev k < length cs" for k using cs(2) hash_less by (simp add: filled_def)
    ultimately show ?thesis unfolding entries_cells by auto
  qed
  ultimately show ?thesis using cs(1) by blast
qed

section \<open>Insertion\<close>

lemma cell_at_ok: "hash_ok (GHash lev cs) \<Longrightarrow> cell_at cs (hash_of lev k) = cs ! hash_of lev k \<and> hash_of lev k < length cs \<and>
    cell_ok lev (hash_of lev k) (cs ! hash_of lev k)"
  using hash_less by (simp add: hash_ok_simps cell_at_def)

definition inserted :: "key \<Rightarrow> nat \<Rightarrow> ghash \<Rightarrow> ghash \<Rightarrow> bool" where
  "inserted k v t u \<longleftrightarrow> hash_ok u \<and> level_of u = level_of t \<and>
     (\<forall>e. e \<in> set (entries u) \<longleftrightarrow> e = (k, v) \<or> e \<in> set (entries t) \<and> fst e \<noteq> k)"

lemma inserted_cell:
  assumes ok: "hash_ok (GHash lev cs)" and c: "cell_ok lev (hash_of lev k) c"
    and e: "\<And>e. e \<in> set (cell_entries c) \<longleftrightarrow> e = (k, v) \<or> e \<in> set (cell_entries (cs ! hash_of lev k)) \<and> fst e \<noteq> k"
  shows "inserted k v (GHash lev cs) (GHash lev (cs[hash_of lev k := c]))"
proof -
  note at = cell_at_ok [OF ok, of k]
  have "e \<in> set (entries (GHash lev (cs[hash_of lev k := c]))) \<longleftrightarrow> e \<in> {(k, v)} \<or> e \<in> set (entries (GHash lev cs)) \<and> fst e \<noteq> k" for e
    by (rule entries_update [OF ok]) (use at e in auto)
  then show ?thesis using cell_update_ok [OF ok c] by (simp add: inserted_def)
qed

lemma inserted_table:
  assumes "inserted k v t u" "cell_ok lev (hash_of lev k) (Table t)"
  shows "cell_ok lev (hash_of lev k) (Table u)"
  using assms unfolding inserted_def cell_ok_table by fastforce

lemma hash_insert_inserted:
  assumes "hash_ok t"
  shows "inserted k v t (hash_insert k v t)"
  using assms
proof (induction k v t rule: hash_insert.induct)
  case (1 k v lev cs)
  let ?hv = "hash_of lev k"
  note ok = 1(3)
  note at = cell_at_ok [OF ok, of k]
  show ?case
  proof (cases "cs ! ?hv")
    case Null
    have "inserted k v (GHash lev cs) (GHash lev (cs[?hv := Bucket [(k, v)]]))"
      by (rule inserted_cell [OF ok]) (use Null in auto)
    then show ?thesis using Null at by (simp add: hash_insert.simps)
  next
    case (Table nl)
    then have nl: "cell_ok lev ?hv (Table nl)" using at by simp
    then have "hash_ok nl" by simp
    then have i: "inserted k v nl (hash_insert k v nl)" using 1(2) [OF refl _ \<open>hash_ok nl\<close>] Table at by simp
    have "inserted k v (GHash lev cs) (GHash lev (cs[?hv := Table (hash_insert k v nl)]))"
      by (rule inserted_cell [OF ok inserted_table [OF i nl]]) (use i Table in \<open>simp add: inserted_def del: split_paired_All\<close>)
    then show ?thesis using Table at by (simp add: hash_insert.simps)
  next
    case (Bucket bl)
    then have bl: "bl \<noteq> []" "distinct (map fst bl)" "\<forall>e \<in> set bl. hash_of lev (fst e) = ?hv"
        "lev < MAX_LEVEL \<longrightarrow> length bl \<le> MAX_CHAIN + 1"
      using at by auto
    show ?thesis
    proof (cases "lev < MAX_LEVEL \<and> length bl > MAX_CHAIN")
      case True
      obtain cs' where nl: "convert_to_table bl (Suc lev) = GHash (Suc lev) cs'" "hash_ok (GHash (Suc lev) cs')"
          "set (entries (GHash (Suc lev) cs')) = set bl"
        using convert_ok [OF bl(2)] bl(4) True by blast
      have i: "inserted k v (GHash (Suc lev) cs') (hash_insert k v (GHash (Suc lev) cs'))"
        using 1(1) [OF refl _ True] Bucket at nl(1, 2) by simp
      have "cell_ok lev ?hv (Table (GHash (Suc lev) cs'))" using nl(2, 3) bl(3) True by auto
      then have "inserted k v (GHash lev cs) (GHash lev (cs[?hv := Table (hash_insert k v (GHash (Suc lev) cs'))]))"
        by (intro inserted_cell [OF ok] inserted_table [OF i]) (use i Bucket nl(3) in \<open>simp_all add: inserted_def del: split_paired_All\<close>)
      then show ?thesis using Bucket at True nl(1) by (simp add: hash_insert.simps)
    next
      case False
      have "inserted k v (GHash lev cs) (GHash lev (cs[?hv := Bucket (chain_insert k v bl)]))"
      proof (rule inserted_cell [OF ok])
        have "\<forall>e \<in> set (chain_insert k v bl). hash_of lev (fst e) = ?hv"
          unfolding chain_insert_ok(2) [OF bl(1, 2)] Ball_def using bl(3) by auto
        moreover have "lev < MAX_LEVEL \<longrightarrow> length (chain_insert k v bl) \<le> MAX_CHAIN + 1"
          using chain_insert_ok(4) [OF bl(1, 2)] False le_trans by (meson add_le_mono1 not_less)
        ultimately show "cell_ok lev ?hv (Bucket (chain_insert k v bl))"
          using chain_insert_ok(1, 3) [OF bl(1, 2)] by simp
      qed (use chain_insert_ok(2) [OF bl(1, 2)] Bucket in simp)
      moreover have "hash_insert k v (GHash lev cs) = GHash lev (cs[?hv := Bucket (chain_insert k v bl)])"
        using Bucket at False by (cases "lev < MAX_LEVEL") (simp_all add: hash_insert.simps Let_def)
      ultimately show ?thesis by simp
    qed
  qed
qed

section \<open>Lookup and removal\<close>

lemma entries_at:
  assumes "hash_ok (GHash lev cs)"
  shows "(k, v) \<in> set (entries (GHash lev cs)) \<longleftrightarrow> (k, v) \<in> set (cell_entries (cs ! hash_of lev k))"
  using assms cell_hash [of lev _ _ k v] cell_at_ok [OF assms, of k] unfolding entries_cells hash_ok_simps by blast

lemma hash_lookup_entry:
  assumes "hash_ok t"
  shows "(\<And>v. (k, v) \<notin> set (entries t)) \<Longrightarrow> hash_lookup k t = 0" "(k, v) \<in> set (entries t) \<Longrightarrow> hash_lookup k t = v"
  using assms
proof (induction k t rule: hash_lookup.induct)
  case (1 k lev cs)
  let ?hv = "hash_of lev k"
  have all: "((\<forall>v. (k, v) \<notin> set (entries (GHash lev cs))) \<longrightarrow> hash_lookup k (GHash lev cs) = 0) \<and>
      ((k, v) \<in> set (entries (GHash lev cs)) \<longrightarrow> hash_lookup k (GHash lev cs) = v)" if ok: "hash_ok (GHash lev cs)"
  proof -
    note at = cell_at_ok [OF ok, of k] and en = entries_at [OF ok, of k]
    show ?thesis
    proof (cases "cs ! ?hv")
      case Null
      then show ?thesis using at en by (simp add: hash_lookup.simps)
    next
      case (Table nl)
      then have "hash_ok nl" using at by auto
      then show ?thesis using 1(1, 2) [of nl] Table at en by (simp add: hash_lookup.simps)
    next
      case (Bucket bl)
      then have "distinct (map fst bl)" using at by simp
      then show ?thesis
        using lookup_bucket_cases [of bl k, unfolded key_absent] Bucket at en by (simp add: hash_lookup.simps)
    qed
  qed
  { case 1 then show ?case using all by blast
  next case 2 then show ?case using all by blast }
qed

definition removed :: "key \<Rightarrow> ghash \<Rightarrow> ghash \<Rightarrow> bool" where
  "removed k t u \<longleftrightarrow> hash_ok u \<and> level_of u = level_of t \<and> (\<forall>e. e \<in> set (entries u) \<longleftrightarrow> e \<in> set (entries t) \<and> fst e \<noteq> k)"

lemma removed_cell:
  assumes ok: "hash_ok (GHash lev cs)" and c: "cell_ok lev (hash_of lev k) c"
    and e: "\<And>e. e \<in> set (cell_entries c) \<longleftrightarrow> e \<in> set (cell_entries (cs ! hash_of lev k)) \<and> fst e \<noteq> k"
  shows "removed k (GHash lev cs) (GHash lev (cs[hash_of lev k := c]))"
proof -
  note at = cell_at_ok [OF ok, of k]
  have "e \<in> set (entries (GHash lev (cs[hash_of lev k := c]))) \<longleftrightarrow> e \<in> {} \<or> e \<in> set (entries (GHash lev cs)) \<and> fst e \<noteq> k" for e
    by (rule entries_update [OF ok]) (use at e in auto)
  then show ?thesis using cell_update_ok [OF ok c] by (simp add: removed_def)
qed

lemma hash_remove_absent:
  assumes "hash_ok t" "\<And>v. (k, v) \<notin> set (entries t)"
  shows "hash_remove k t = Some (0, t)"
  using assms
proof (induction k t rule: hash_remove.induct)
  case (1 k lev cs)
  note at = cell_at_ok [OF 1(2), of k] and en = entries_at [OF 1(2), of k]
  show ?case
  proof (cases "cs ! hash_of lev k")
    case Null
    then show ?thesis using at by (simp add: hash_remove.simps)
  next
    case (Table nl)
    then have "hash_ok nl" using at by auto
    then have "hash_remove k nl = Some (0, nl)" using 1(1) [OF refl _ \<open>hash_ok nl\<close>] 1(3) Table at en by simp
    then show ?thesis using Table at by (simp add: hash_remove.simps) (metis list_update_id)
  next
    case (Bucket bl)
    then have "distinct (map fst bl)" "bl \<noteq> []" using at by simp_all
    moreover have "k \<notin> fst ` set bl" using 1(3) Bucket en by auto
    ultimately show ?thesis
      using remove_bucket_cases(1) [of bl k] Bucket at by (simp add: hash_remove.simps) (metis list_update_id)
  qed
qed

lemma hash_remove_present:
  assumes "hash_ok t" "(k, v) \<in> set (entries t)"
  shows "v \<noteq> 0 \<Longrightarrow> \<exists>u. hash_remove k t = Some (v, u) \<and> removed k t u" "v = 0 \<Longrightarrow> hash_remove k t = None"
proof -
  have "if v = 0 then hash_remove k t = None else \<exists>u. hash_remove k t = Some (v, u) \<and> removed k t u"
    using assms
  proof (induction k t rule: hash_remove.induct)
    case (1 k lev cs)
    let ?hv = "hash_of lev k"
    note ok = 1(2)
    note at = cell_at_ok [OF ok, of k]
    have en: "(k, v) \<in> set (cell_entries (cs ! ?hv))" using 1(3) entries_at [OF ok] by blast
    show ?case
    proof (cases "cs ! ?hv")
      case Null
      then show ?thesis using en by simp
    next
      case (Table nl)
      then have nl: "hash_ok nl" "cell_ok lev ?hv (Table nl)" using at by simp_all
      have ih: "if v = 0 then hash_remove k nl = None else \<exists>u. hash_remove k nl = Some (v, u) \<and> removed k nl u"
        using 1(1) [OF refl _ nl(1)] Table at en by simp
      show ?thesis
      proof (cases "v = 0")
        case True
        then show ?thesis using ih Table at by (simp add: hash_remove.simps)
      next
        case False
        then obtain u where u: "hash_remove k nl = Some (v, u)" "removed k nl u" using ih by auto
        have "removed k (GHash lev cs) (GHash lev (cs[?hv := Table u]))"
        proof (rule removed_cell [OF ok])
          show "cell_ok lev ?hv (Table u)" using u(2) nl(2) unfolding removed_def cell_ok_table by auto
        qed (use u(2) Table in \<open>simp add: removed_def del: split_paired_All\<close>)
        then show ?thesis using u(1) Table at False by (simp add: hash_remove.simps)
      qed
    next
      case (Bucket bl)
      then have bl: "distinct (map fst bl)" "\<forall>e \<in> set bl. hash_of lev (fst e) = ?hv"
          "lev < MAX_LEVEL \<longrightarrow> length bl \<le> MAX_CHAIN + 1" "(k, v) \<in> set bl"
        using at en by auto
      let ?bl = "filter (\<lambda>e. fst e \<noteq> k) bl"
      have "removed k (GHash lev cs) (GHash lev (cs[?hv := if ?bl = [] then Null else Bucket ?bl]))"
      proof (rule removed_cell [OF ok])
        have "distinct (map fst ?bl)" "lev < MAX_LEVEL \<longrightarrow> length ?bl \<le> MAX_CHAIN + 1"
          using bl(1, 3) length_filter_le [of "\<lambda>e. fst e \<noteq> k" bl] by (auto simp: distinct_map_filter simp del: length_filter_le)
        then show "cell_ok lev ?hv (if ?bl = [] then Null else Bucket ?bl)" using bl(2) by auto
      qed (use Bucket in \<open>auto simp: filter_empty_conv\<close>)
      then show ?thesis
        using remove_bucket_cases(2) [OF bl(1, 4)] Bucket at by (simp add: hash_remove.simps)
    qed
  qed
  then show "v \<noteq> 0 \<Longrightarrow> \<exists>u. hash_remove k t = Some (v, u) \<and> removed k t u" "v = 0 \<Longrightarrow> hash_remove k t = None" by simp_all
qed

end
