(* ===== verification/Hash_Properties.thy ===== *)
theory Hash_Properties
  imports Hash_Refinement "HOL-Library.Monad_Syntax"
begin

text \<open>
  The properties of the hash tables: they are finite maps through any sequence of operations, the
  chains stay short above the last level and have no bound on it, the last level does not divide its
  entries, and removing a key with a null value goes on in memory that was freed.
\<close>

datatype hash_op = Insert key nat | Remove key

fun run_hash :: "hash_op list \<Rightarrow> ghash \<Rightarrow> ghash option" where
  "run_hash [] t = Some t"
| "run_hash (Insert k v # xs) t = run_hash xs (hash_insert k v t)"
| "run_hash (Remove k # xs) t = do { (v, t) \<leftarrow> hash_remove k t; run_hash xs t }"

text \<open>The same operations on a map; removing a key with a null value is not defined.\<close>

fun run_map :: "hash_op list \<Rightarrow> (key \<rightharpoonup> nat) \<Rightarrow> (key \<rightharpoonup> nat) option" where
  "run_map [] m = Some m"
| "run_map (Insert k v # xs) m = run_map xs (m(k \<mapsto> v))"
| "run_map (Remove k # xs) m = (if m k = Some 0 then None else run_map xs (m(k := None)))"

definition represents :: "ghash \<Rightarrow> (key \<rightharpoonup> nat) \<Rightarrow> bool" where
  "represents t m \<longleftrightarrow> hash_ok t \<and> (\<forall>k v. (k, v) \<in> set (entries t) \<longleftrightarrow> m k = Some v)"

lemma represents_new: "represents (new_hash lev) Map.empty"
  by (simp add: represents_def new_hash_def hash_ok_simps del: replicate.simps) (simp add: entries.simps)

lemma represents_lookup: "represents t m \<Longrightarrow> hash_lookup k t = (case m k of None \<Rightarrow> 0 | Some v \<Rightarrow> v)"
  using hash_lookup_entry [of t k] by (auto simp: represents_def split: option.split)

lemma represents_insert: "represents t m \<Longrightarrow> represents (hash_insert k v t) (m(k \<mapsto> v))"
  using hash_insert_inserted [of t k v] by (auto simp: represents_def inserted_def)

lemma represents_remove:
  assumes "represents t m" "m k \<noteq> Some 0"
  shows "\<exists>u. hash_remove k t = Some (case m k of None \<Rightarrow> 0 | Some v \<Rightarrow> v, u) \<and> represents u (m(k := None))"
proof (cases "m k")
  case None
  then have "hash_remove k t = Some (0, t)" "m(k := None) = m"
    using assms(1) hash_remove_absent [of t k] by (auto simp: represents_def)
  then show ?thesis using assms(1) None by simp
next
  case (Some v)
  then obtain u where "hash_remove k t = Some (v, u)" "removed k t u"
    using assms hash_remove_present(1) [of t k v] by (auto simp: represents_def)
  then show ?thesis using assms(1) Some by (auto simp: represents_def removed_def)
qed

lemma represents_remove_null: "represents t m \<Longrightarrow> m k = Some 0 \<Longrightarrow> hash_remove k t = None"
  using hash_remove_present(2) [of t k 0] by (auto simp: represents_def)

lemma run_hash_map:
  "represents t m \<Longrightarrow> (case run_map xs m of None \<Rightarrow> run_hash xs t = None
     | Some n \<Rightarrow> \<exists>u. run_hash xs t = Some u \<and> represents u n)"
proof (induction xs t arbitrary: m rule: run_hash.induct)
  case (2 k v xs t)
  show ?case using "2.IH" [OF represents_insert [OF "2.prems"]] by (simp only: run_hash.simps run_map.simps)
next
  case (3 k xs t)
  show ?case
  proof (cases "m k = Some 0")
    case True
    then show ?thesis using represents_remove_null [OF "3.prems"] by simp
  next
    case False
    then obtain v u where u: "hash_remove k t = Some (v, u)" "represents u (m(k := None))"
      using represents_remove [OF "3.prems"] by blast
    have r: "run_hash (Remove k # xs) t = run_hash xs u" "run_map (Remove k # xs) m = run_map xs (m(k := None))"
      using u(1) False by simp_all
    show ?thesis unfolding r by (rule "3.IH" [OF u(1) refl u(2)])
  qed
qed simp

text \<open>C36: through any sequence of insertions and removals from the empty table, however chains become
  tables, lookup and removal give what a finite map gives. Only the removal of a key whose value is the null
  pointer is undefined, since it goes on in the deleted bucket; then the sequence is. The read of the link
  of the deleted bucket in the other removals, whose value is not used, is taken to be harmless.\<close>

theorem hash_table_is_map:
  "case run_map xs Map.empty of
     None \<Rightarrow> run_hash xs (new_hash 0) = None
   | Some m \<Rightarrow> \<exists>t. run_hash xs (new_hash 0) = Some t \<and>
       (\<forall>k. hash_lookup k t = (case m k of None \<Rightarrow> 0 | Some v \<Rightarrow> v)) \<and>
       (\<forall>k. if m k = Some 0 then hash_remove k t = None
            else \<exists>u. hash_remove k t = Some (hash_lookup k t, u) \<and> hash_lookup k u = 0)"
proof (cases "run_map xs Map.empty")
  case None
  then show ?thesis using run_hash_map [OF represents_new, of xs 0] by simp
next
  case (Some m)
  then obtain t where t: "run_hash xs (new_hash 0) = Some t" "represents t m"
    using run_hash_map [OF represents_new, of xs 0] by auto
  have "if m k = Some 0 then hash_remove k t = None
      else \<exists>u. hash_remove k t = Some (hash_lookup k t, u) \<and> hash_lookup k u = 0" for k
  proof (cases "m k = Some 0")
    case False
    then obtain u where u: "hash_remove k t = Some (case m k of None \<Rightarrow> 0 | Some v \<Rightarrow> v, u)" "represents u (m(k := None))"
      using represents_remove [OF t(2)] by blast
    then show ?thesis using False represents_lookup [OF t(2), of k] represents_lookup [OF u(2), of k] by simp
  qed (use represents_remove_null [OF t(2)] in simp)
  then show ?thesis unfolding Some option.case using t(1) represents_lookup [OF t(2)] by blast
qed

theorem hash_table_is_map_witness:
  "\<exists>t. run_hash (map (\<lambda>n. Insert (191 * of_nat n) (n + 1)) [0..<12] @ [Remove 191]) (new_hash 0) = Some t \<and>
    hash_lookup 382 t = 3 \<and> hash_lookup 191 t = 0"
proof -
  let ?xs = "map (\<lambda>n. Insert (191 * of_nat n) (n + 1)) [0..<12] @ [Remove 191]"
  obtain m where m: "run_map ?xs Map.empty = Some m" "m 382 = Some 3" "m 191 = None" by (simp add: upt_rec)
  from hash_table_is_map [of ?xs] obtain t where "run_hash ?xs (new_hash 0) = Some t"
      "\<forall>k. hash_lookup k t = (case m k of None \<Rightarrow> 0 | Some v \<Rightarrow> v)" unfolding m(1) option.case by blast
  then show ?thesis using m(2, 3) by auto
qed

text \<open>The tables of the last level have the size of those before and the same hash function, so all
  entries of such a table are in one chain.\<close>

theorem last_level_one_chain:
  assumes "hash_ok (GHash 2 cs)" "i < length cs" "cs ! i = Table (GHash 3 cs')"
  shows "\<exists>bs. cs' = (replicate 739 Null)[i := (if bs = [] then Null else Bucket bs)]"
proof -
  have c: "cell_ok 2 i (Table (GHash 3 cs'))" using assms by (metis hash_ok_simps)
  then have ok: "hash_ok (GHash 3 cs')" and h: "\<And>k v. (k, v) \<in> set (entries (GHash 3 cs')) \<Longrightarrow> hash_of 3 k = i"
    by (auto simp: hash_of_def get_size_of_level_def)
  have n: "length cs' = 739" "length cs = 739" using ok assms(1) by (simp_all add: hash_ok_simps get_size_of_level_def)
  have cells: "\<exists>bs. cs' ! j = (if bs = [] then Null else Bucket bs) \<and> (j \<noteq> i \<longrightarrow> bs = [])" if j: "j < 739" for j
  proof -
    have cj: "cell_ok 3 j (cs' ! j)" using ok j n by (simp add: hash_ok_simps)
    show ?thesis
    proof (cases "cs' ! j")
      case Null
      then show ?thesis by (intro exI [of _ "[]"]) simp
    next
      case (Table t)
      then show ?thesis using cj by (auto simp: MAX_LEVEL_def)
    next
      case (Bucket bs)
      then obtain e where e: "e \<in> set bs" using cj by (cases bs) auto
      then have "hash_of 3 (fst e) = j" using cj Bucket by simp
      moreover have "e \<in> set (entries (GHash 3 cs'))" unfolding entries_cells using e Bucket j n by (intro UN_I [of j]) simp_all
      then have "hash_of 3 (fst e) = i" using h [of "fst e" "snd e"] by simp
      ultimately have "j = i" by simp
      then show ?thesis using Bucket cj by (intro exI [of _ bs]) auto
    qed
  qed
  obtain bs where bs: "cs' ! i = (if bs = [] then Null else Bucket bs)" using cells [of i] assms(2) n by auto
  have "cs' = (replicate 739 Null)[i := (if bs = [] then Null else Bucket bs)]"
  proof (rule nth_equalityI)
    fix j assume "j < length cs'"
    then show "cs' ! j = ((replicate 739 Null)[i := (if bs = [] then Null else Bucket bs)]) ! j"
      using cells [of j] bs n by (cases "j = i") (auto simp del: replicate.simps)
  qed (use n in \<open>simp del: replicate.simps\<close>)
  then show ?thesis by blast
qed

theorem last_level_one_chain_witness:
  "\<exists>bs. (replicate 739 Null)[0 := Bucket [(739, 5), (0, 6)]] = (replicate 739 Null)[0 := (if bs = [] then Null else Bucket bs)]"
proof -
  let ?last = "(replicate 739 Null)[0 := Bucket [(739, 5), (0, 6)]]"
  let ?cs = "(replicate 739 Null)[0 := Table (GHash 3 ?last)]"
  have n: "get_size_of_level 2 = 739" "get_size_of_level 3 = 739" by (simp_all add: get_size_of_level_def)
  have z: "hash_of 2 739 = 0" "hash_of 2 0 = 0" "hash_of 3 739 = 0" "hash_of 3 0 = 0"
    by (simp_all add: hash_of_def get_size_of_level_def)
  have new: "hash_ok (GHash lev (replicate (get_size_of_level lev) Null))" for lev
    using represents_new [of lev] by (simp add: represents_def new_hash_def)
  have "cell_ok 3 0 (Bucket [(739, 5), (0, 6)])" by (auto simp: z MAX_LEVEL_def MAX_CHAIN_def)
  then have last: "hash_ok (GHash 3 ?last)" using cell_update_ok [OF new [of "3", unfolded n]] by blast
  have "\<forall>e \<in> set (entries (GHash 3 ?last)). e = (739, 5) \<or> e = (0, 6)"
    unfolding entries_cells by (auto simp: nth_list_update split: if_splits simp del: replicate.simps)
  then have "cell_ok 2 0 (Table (GHash 3 ?last))"
    using last z by (auto simp: MAX_LEVEL_def simp del: replicate.simps)
  then have "hash_ok (GHash 2 ?cs)" using cell_update_ok [OF new [of 2, unfolded n]] by blast
  moreover have "0 < length ?cs" "?cs ! 0 = Table (GHash 3 ?last)" by (simp_all add: numeral_3_eq_3 numeral_2_eq_2 del: replicate.simps)
  ultimately show ?thesis by (rule last_level_one_chain)
qed




















text \<open>Removing a key whose value is the null pointer goes on in the bucket that was deleted.\<close>

theorem remove_null_undefined:
  assumes "hash_ok t"
  shows "hash_remove k (hash_insert k 0 t) = None"
proof -
  have "inserted k 0 t (hash_insert k 0 t)" by (rule hash_insert_inserted [OF assms])
  then show ?thesis by (intro hash_remove_present(2)) (auto simp: inserted_def)
qed

theorem remove_null_undefined_witness: "hash_remove 7 (hash_insert 7 0 (new_hash 0)) = None"
  by (rule remove_null_undefined) (use represents_new in \<open>simp add: represents_def\<close>)

end
