(* ===== verification/Path_Resolve.thy ===== *)
theory Path_Resolve
  imports Prelude "HOL-Library.Monad_Syntax"
begin

text \<open>
  The names of files without links: \<^verbatim>\<open>local_paraset_resolvepath\<close> of \<^verbatim>\<open>libs/gen/src/resolvepath.cxx\<close>
  removes empty components, \<open>.\<close> and \<open>..\<close> with flags on the array of components, which is shown to be
  the same as pushing the components on a stack. The working directory, which the operating system
  gives, is an argument; the buffers of \<^verbatim>\<open>MAXPATHLEN\<close> characters are taken to be large enough.
\<close>

section \<open>The program\<close>

definition count_separator :: "string \<Rightarrow> char \<Rightarrow> nat" where
  "count_separator p s = length (filter (\<lambda>c. c = s) p)"

text \<open>The component behind every slash, up to the next one, where the code has put a null byte.\<close>

fun tok_buf :: "string \<Rightarrow> string list" where
  "tok_buf [] = []"
| "tok_buf (c # p) = (if c = CHR ''/'' then takeWhile (\<lambda>c. c \<noteq> CHR ''/'') p # tok_buf p else tok_buf p)"

text \<open>The last component before the \<open>j\<close>th that is not flagged gets its flag.\<close>

fun flag_before :: "nat \<Rightarrow> bool list \<Rightarrow> bool list option" where
  "flag_before 0 flag = None"
| "flag_before (Suc j) flag = (if \<not> flag ! j then Some (flag[j := True]) else flag_before j flag)"

fun flag_loop :: "string list \<Rightarrow> nat list \<Rightarrow> bool list \<Rightarrow> bool list option" where
  "flag_loop toks [] flag = Some flag"
| "flag_loop toks (i # is) flag =
     (if toks ! i = [] then flag_loop toks is (flag[i := True])
      else if toks ! i = ''.'' then flag_loop toks is (flag[i := True])
      else if toks ! i = ''..'' then do { flag \<leftarrow> flag_before i (flag[i := True]); flag_loop toks is flag }
      else flag_loop toks is flag)"

definition join_unflagged :: "string list \<Rightarrow> bool list \<Rightarrow> string" where
  "join_unflagged toks flag =
     concat (map (\<lambda>i. if \<not> flag ! i then CHR ''/'' # toks ! i else []) [0..<length toks])"

definition local_resolvepath :: "string option \<Rightarrow> string \<Rightarrow> string option" where
  "local_resolvepath cwd path =
     do { pathname \<leftarrow> (if path \<noteq> [] \<and> hd path = CHR ''/'' then Some path
                       else map_option (\<lambda>d. d @ ''/'' @ path) cwd);
          let count = count_separator pathname CHR ''/'';
              toks = tok_buf pathname
          in do { flag \<leftarrow> flag_loop toks [0..<count] (replicate count False);
                  let ret_buf = join_unflagged toks flag
                  in if ret_buf = [] then None else Some ret_buf } }"

text \<open>
  \<^verbatim>\<open>paraset_resolvepath\<close> follows links: \<open>rl\<close> is what the operating system reads from a link. The
  part of the name before a \<open>..\<close> is resolved first, as it may be a link; the name that is compared
  with the new one (\<open>rel\<close>) is in the result buffer when the name was relative.
\<close>

function find_dots :: "string \<Rightarrow> nat \<Rightarrow> nat option" where
  "find_dots w s =
     (if length w < s + 2 then None
      else if take 2 (drop s w) \<noteq> ''..'' then find_dots w (s + 1)
      else if w ! (s - 1) = CHR ''/'' \<and> (length w = s + 2 \<or> w ! (s + 2) = CHR ''/'') then Some s
      else find_dots w (s + 2))"
  by pat_completeness auto
termination by (relation "measure (\<lambda>(w, s). length w - s)") auto

declare find_dots.simps [simp del]

function skip_dots :: "string \<Rightarrow> nat \<Rightarrow> nat" where
  "skip_dots w q =
     (if take 3 (drop q w) = ''../'' then skip_dots w (q + 3)
      else if drop q w = ''..'' then q + 2
      else q)"
  by pat_completeness auto
termination
proof (relation "measure (\<lambda>(w, q). length w - q)")
  fix w :: string and q assume "take 3 (drop q w) = ''../''"
  then have "q < length w" by (cases "q < length w") simp_all
  then show "((w, q + 3), w, q) \<in> measure (\<lambda>(w, q). length w - q)" by simp
qed simp

declare skip_dots.simps [simp del]

definition dirname :: "string \<Rightarrow> string" where
  "dirname w = (if CHR ''/'' \<in> set w then rev (tl (dropWhile (\<lambda>c. c \<noteq> CHR ''/'') (rev w))) else w)"

text \<open>The end of the loop: the result, or the name that is resolved instead.\<close>

definition follow :: "(string \<Rightarrow> string option) \<Rightarrow> bool \<Rightarrow> string \<Rightarrow> string \<Rightarrow> string + string" where
  "follow rl rel path ret =
     (case rl ret of
        None \<Rightarrow> Inl ret
      | Some l \<Rightarrow>
          if hd l = CHR ''/'' then Inr l
          else let resolve_buf = dirname ret @ ''/'' @ l
               in if resolve_buf = (if rel then ret else path) then Inl resolve_buf else Inr resolve_buf)"

text \<open>One \<open>..\<close> at \<open>p\<close> and those that follow it: the name without them, and what is left to resolve.\<close>

definition dots_step ::
    "(string \<Rightarrow> string option) \<Rightarrow> string option \<Rightarrow> string \<Rightarrow> nat \<Rightarrow> (string \<times> string option) option" where
  "dots_step rl cwd work p =
     do { ret \<leftarrow> local_resolvepath cwd (take (p - 1) work);
          let new_path = (case rl ret of
                            None \<Rightarrow> ret
                          | Some l \<Rightarrow> if hd l = CHR ''/'' then l else ret @ l);
              q = (if length work = p + 2 then p + 2 else skip_dots work (p + 3));
              dots = (if length work \<noteq> p + 2 \<and> work ! (q - 1) = CHR ''/'' then take (q - p) (drop (p - 1) work)
                      else drop (p - 1) work)
          in do { ret \<leftarrow> local_resolvepath cwd (new_path @ dots);
                  Some (ret, if length work \<le> q then None else Some (ret @ drop (q - 1) work)) } }"

partial_function (option) resolve ::
    "(string \<Rightarrow> string option) \<Rightarrow> string option \<Rightarrow> bool \<Rightarrow> string \<Rightarrow> string \<Rightarrow> string option option" where
  "resolve rl cwd rel path work =
     (case find_dots work 0 of
        None \<Rightarrow>
          (case local_resolvepath cwd work of
             None \<Rightarrow> Some None
           | Some ret \<Rightarrow> (case follow rl rel path ret of
                            Inl r \<Rightarrow> Some (Some r)
                          | Inr np \<Rightarrow> resolve rl cwd False np np))
      | Some p \<Rightarrow>
          (case dots_step rl cwd work p of
             None \<Rightarrow> Some None
           | Some (ret, Some w) \<Rightarrow> resolve rl cwd rel path w
           | Some (ret, None) \<Rightarrow> (case follow rl rel path ret of
                            Inl r \<Rightarrow> Some (Some r)
                          | Inr np \<Rightarrow> resolve rl cwd False np np)))"

definition paraset_resolvepath ::
    "(string \<Rightarrow> string option) \<Rightarrow> string option \<Rightarrow> string \<Rightarrow> string option option" where
  "paraset_resolvepath rl cwd path =
     (if path \<noteq> [] \<and> hd path = CHR ''/'' then resolve rl cwd False path path
      else case local_resolvepath cwd path of
             None \<Rightarrow> Some None
           | Some p \<Rightarrow> resolve rl cwd True p p)"

section \<open>Components on a stack\<close>

fun normal :: "string list \<Rightarrow> string list \<Rightarrow> string list option" where
  "normal st [] = Some (rev st)"
| "normal st (t # ts) =
     (if t = [] \<or> t = ''.'' then normal st ts
      else if t = ''..'' then (case st of [] \<Rightarrow> None | _ # st \<Rightarrow> normal st ts)
      else normal (t # st) ts)"

definition join :: "string list \<Rightarrow> string" where
  "join ts = concat (map (\<lambda>t. CHR ''/'' # t) ts)"

definition kept :: "string list \<Rightarrow> bool list \<Rightarrow> nat \<Rightarrow> nat list" where
  "kept toks flag i = filter (\<lambda>j. \<not> flag ! j) [0..<i]"

lemma length_tok_buf: "length (tok_buf p) = count_separator p CHR ''/''"
  by (induction p) (simp_all add: count_separator_def)

lemma flag_before_kept:
  assumes "i \<le> length flag"
  shows "flag_before i flag =
    (case rev (kept toks flag i) of [] \<Rightarrow> None | j # _ \<Rightarrow> Some (flag[j := True]))"
  using assms by (induction i) (simp_all add: kept_def)

lemma kept_update:
  assumes "i \<le> j" "j < length flag"
  shows "kept toks (flag[j := b]) i = kept toks flag i"
  using assms by (auto simp: kept_def intro!: filter_cong)

lemma kept_Suc: "kept toks flag (Suc i) = kept toks flag i @ (if flag ! i then [] else [i])"
  by (simp add: kept_def)

lemma kept_last:
  assumes "rev (kept toks flag i) = j # js" "i \<le> length flag"
  shows "kept toks (flag[j := True]) i = rev js" "j < i"
proof -
  have k: "kept toks flag i = rev js @ [j]" using assms(1) by (simp add: rev_eq_Cons_iff)
  then have j: "j \<in> set (kept toks flag i)" by simp
  then show ji: "j < i" by (simp add: kept_def)
  have "distinct (kept toks flag i)" by (simp add: kept_def)
  then have nj: "j \<notin> set js" using k by simp
  have "kept toks (flag[j := True]) i = filter (\<lambda>k. k \<noteq> j) (kept toks flag i)"
    using ji assms(2) unfolding kept_def filter_filter by (intro filter_cong) (auto simp: nth_list_update)
  also have "\<dots> = rev js" unfolding k using nj by (auto simp: filter_id_conv)
  finally show "kept toks (flag[j := True]) i = rev js" .
qed

text \<open>The flags keep the components that are on the stack.\<close>

lemma flag_loop_normal:
  assumes "n \<le> length toks" "length flag = length toks" "\<forall>j. n \<le> j \<longrightarrow> j < length toks \<longrightarrow> \<not> flag ! j"
    "st = rev (map (\<lambda>j. toks ! j) (kept toks flag n))"
  shows "map_option (\<lambda>flag. map (\<lambda>j. toks ! j) (kept toks flag (length toks))) (flag_loop toks [n..<length toks] flag) =
    normal st (drop n toks)"
  using assms
proof (induction "length toks - n" arbitrary: n flag st)
  case 0
  then show ?case by simp
next
  case (Suc m)
  then have n: "n < length toks" by simp
  then have up: "[n..<length toks] = n # [Suc n..<length toks]" and dr: "drop n toks = toks ! n # drop (Suc n) toks"
    by (simp_all add: upt_conv_Cons Cons_nth_drop_Suc)
  note IH = Suc.hyps(1) [of "Suc n"]
  let ?flag = "flag[n := True]"
  have skip: "kept toks ?flag (Suc n) = kept toks flag n"
    using n Suc.prems(2) kept_update [of n n flag toks True] by (simp add: kept_Suc)
  have rest: "\<forall>j. Suc n \<le> j \<longrightarrow> j < length toks \<longrightarrow> \<not> ?flag ! j" using Suc.prems(3) by simp
  consider "toks ! n = [] \<or> toks ! n = ''.''" | "toks ! n = ''..''"
    | "toks ! n \<noteq> []" "toks ! n \<noteq> ''.''" "toks ! n \<noteq> ''..''" by blast
  then show ?case
  proof cases
    case 1
    have "map_option (\<lambda>flag. map (\<lambda>j. toks ! j) (kept toks flag (length toks))) (flag_loop toks [Suc n..<length toks] ?flag) =
        normal st (drop (Suc n) toks)"
      by (rule IH) (use Suc n rest skip in auto)
    then show ?thesis unfolding up dr using 1 by auto
  next
    case 2
    have fb: "flag_before n ?flag = (case rev (kept toks flag n) of [] \<Rightarrow> None | j # _ \<Rightarrow> Some (?flag[j := True]))"
      using flag_before_kept [of n ?flag toks] kept_update [of n n flag toks True] n Suc.prems(2) by simp
    show ?thesis
    proof (cases "rev (kept toks flag n)")
      case Nil
      then have "st = []" using Suc.prems(4) by simp
      then show ?thesis unfolding up dr using 2 fb Nil by simp
    next
      case (Cons j js)
      have k: "kept toks (?flag[j := True]) n = rev js" "j < n"
        using kept_last [of toks ?flag n j js] Cons kept_update [of n n flag toks True] n Suc.prems(2) by simp_all
      then have "kept toks (?flag[j := True]) (Suc n) = rev js" using n Suc.prems(2) by (simp add: kept_Suc nth_list_update)
      moreover have "st = toks ! j # map (\<lambda>j. toks ! j) js" using Cons Suc.prems(4) by (simp add: rev_map)
      moreover have "\<forall>q. Suc n \<le> q \<longrightarrow> q < length toks \<longrightarrow> \<not> ?flag[j := True] ! q" using rest k(2) by (simp add: nth_list_update)
      ultimately have "map_option (\<lambda>flag. map (\<lambda>j. toks ! j) (kept toks flag (length toks))) (flag_loop toks [Suc n..<length toks] (?flag[j := True])) =
          normal (tl st) (drop (Suc n) toks)"
        by (intro IH) (use Suc n in \<open>simp_all add: rev_map\<close>)
      then show ?thesis unfolding up dr using 2 fb Cons \<open>st = toks ! j # map (\<lambda>j. toks ! j) js\<close> by simp
    qed
  next
    case 3
    have "kept toks flag (Suc n) = kept toks flag n @ [n]" using Suc.prems(3) n by (simp add: kept_Suc)
    then have "map_option (\<lambda>flag. map (\<lambda>j. toks ! j) (kept toks flag (length toks))) (flag_loop toks [Suc n..<length toks] flag) =
        normal (toks ! n # st) (drop (Suc n) toks)"
      by (intro IH) (use Suc n in auto)
    then show ?thesis unfolding up dr using 3 by simp
  qed
qed

lemma join_kept: "join_unflagged toks flag = join (map (\<lambda>j. toks ! j) (kept toks flag (length toks)))"
proof -
  have "concat (map (\<lambda>i. if \<not> flag ! i then CHR ''/'' # toks ! i else []) is) = join (map (\<lambda>j. toks ! j) (filter (\<lambda>j. \<not> flag ! j) is))" for "is"
    by (induction "is") (simp_all add: join_def)
  then show ?thesis by (simp add: join_unflagged_def kept_def)
qed

lemma join_Nil: "join ts = [] \<longleftrightarrow> ts = []"
  by (cases ts) (simp_all add: join_def)

lemma local_resolvepath_normal:
  "local_resolvepath cwd path =
     do { p \<leftarrow> (if path \<noteq> [] \<and> hd path = CHR ''/'' then Some path else map_option (\<lambda>d. d @ ''/'' @ path) cwd);
          ts \<leftarrow> normal [] (tok_buf p);
          if ts = [] then None else Some (join ts) }"
proof -
  have "flag_loop toks [0..<length toks] (replicate (length toks) False) \<bind>
      (\<lambda>flag. if join_unflagged toks flag = [] then None else Some (join_unflagged toks flag)) =
    normal [] toks \<bind> (\<lambda>ts. if ts = [] then None else Some (join ts))" for toks
  proof -
    have "map_option (\<lambda>flag. map (\<lambda>j. toks ! j) (kept toks flag (length toks)))
        (flag_loop toks [0..<length toks] (replicate (length toks) False)) = normal [] toks"
      using flag_loop_normal [of 0 toks "replicate (length toks) False" "[]"] by (simp add: kept_def)
    from this [symmetric] show ?thesis
      by (cases "flag_loop toks [0..<length toks] (replicate (length toks) False)") (simp_all add: join_kept join_Nil)
  qed
  then show ?thesis
    by (simp add: local_resolvepath_def Let_def length_tok_buf [symmetric] cong: if_cong)
qed

section \<open>Normal names\<close>

definition proper :: "string \<Rightarrow> bool" where
  "proper t \<longleftrightarrow> t \<noteq> [] \<and> t \<noteq> ''.'' \<and> t \<noteq> ''..'' \<and> CHR ''/'' \<notin> set t"

lemma tok_buf_slash: "t \<in> set (tok_buf p) \<Longrightarrow> CHR ''/'' \<notin> set t"
  by (induction p) (auto split: if_splits dest: set_takeWhileD)

lemma normal_proper:
  "normal st ts = Some us \<Longrightarrow> (\<forall>t \<in> set st. proper t) \<Longrightarrow> (\<forall>t \<in> set ts. CHR ''/'' \<notin> set t) \<Longrightarrow> \<forall>t \<in> set us. proper t"
proof (induction st ts rule: normal.induct)
  case (1 st)
  then show ?case by auto
next
  case (2 st t ts)
  consider "t = [] \<or> t = ''.''" | "t = ''..''" | "t \<noteq> []" "t \<noteq> ''.''" "t \<noteq> ''..''" by blast
  then show ?case
  proof cases
    case 1
    then have "normal st (t # ts) = normal st ts" by auto
    then show ?thesis using 2(1) [OF 1] 2(4-6) by simp
  next
    case dd: 2
    then obtain s st' where st: "st = s # st'" using 2(4) by (cases st) simp_all
    then have "normal st (t # ts) = normal st' ts" using dd by simp
    then show ?thesis using 2(2) [OF _ dd st] 2(4-6) dd st by simp
  next
    case 3
    then have "proper t" using 2(6) by (simp add: proper_def)
    moreover have "normal st (t # ts) = normal (t # st) ts" using 3 by simp
    ultimately show ?thesis using 2(3) [OF _ 3(3)] 2(4-6) 3 by simp
  qed
qed

lemma tok_buf_no_slash: "CHR ''/'' \<notin> set p \<Longrightarrow> tok_buf (p @ q) = tok_buf q"
  by (induction p) auto

lemma tok_buf_join: "\<forall>t \<in> set ts. CHR ''/'' \<notin> set t \<Longrightarrow> tok_buf (join ts) = ts"
proof (induction ts)
  case (Cons t ts)
  have "takeWhile (\<lambda>c. c \<noteq> CHR ''/'') (t @ join ts) = t"
    using Cons.prems by (cases ts) (auto simp: join_def takeWhile_append intro!: takeWhile_eq_all_conv [THEN iffD2])
  moreover have "join (t # ts) = CHR ''/'' # t @ join ts" by (simp add: join_def)
  ultimately show ?case using Cons tok_buf_no_slash [of t "join ts"] by simp
qed (simp add: join_def)

lemma normal_of_proper: "\<forall>t \<in> set ts. proper t \<Longrightarrow> normal st ts = Some (rev st @ ts)"
  by (induction ts arbitrary: st) (simp_all add: proper_def)

lemma local_resolvepath_proper:
  assumes "local_resolvepath cwd path = Some r"
  shows "\<exists>ts. r = join ts \<and> ts \<noteq> [] \<and> (\<forall>t \<in> set ts. proper t)"
proof -
  from assms obtain p ts where t: "normal [] (tok_buf p) = Some ts" "ts \<noteq> []" "r = join ts"
    by (auto simp: local_resolvepath_normal split: bind_splits if_splits)
  then show ?thesis using normal_proper [OF t(1)] tok_buf_slash by auto
qed

lemma local_resolvepath_of_proper:
  assumes "ts \<noteq> []" "\<forall>t \<in> set ts. proper t"
  shows "local_resolvepath cwd (join ts) = Some (join ts)"
proof -
  have "join ts \<noteq> [] \<and> hd (join ts) = CHR ''/''" using assms(1) by (cases ts) (simp_all add: join_def)
  moreover have "tok_buf (join ts) = ts" using assms(2) by (intro tok_buf_join) (auto simp: proper_def)
  ultimately show ?thesis using normal_of_proper [OF assms(2), of "[]"] assms(1) by (simp add: local_resolvepath_normal)
qed

end
