(* ===== verification/Path_Properties.thy ===== *)
theory Path_Properties
  imports Path_Resolve
begin

text \<open>
  The properties of the resolution of file names: the flags on components are a stack, a resolved
  name stays as it is, a name whose \<open>..\<close> leads to the root is lost, a link relative to its directory
  is put behind its own name, and a link to itself is followed for ever.
\<close>

section \<open>Names without dots\<close>

lemma dots_in_tok_buf:
  assumes "b = [] \<or> hd b = CHR ''/''"
  shows "''..'' \<in> set (tok_buf (a @ CHR ''/'' # ''..'' @ b))"
proof -
  have "takeWhile (\<lambda>c. c \<noteq> CHR ''/'') (''..'' @ b) = ''..''" using assms by (cases b) auto
  then show ?thesis by (induction a) auto
qed

lemma find_dots_tok_buf: "find_dots w s = Some p \<Longrightarrow> 0 < s \<or> w \<noteq> [] \<and> hd w = CHR ''/'' \<Longrightarrow> ''..'' \<in> set (tok_buf w)"
proof (induction w s rule: find_dots.induct)
  case (1 w s)
  show ?case
  proof (cases "length w < s + 2")
    case True
    then show ?thesis using 1(3) by (simp add: find_dots.simps [of w s])
  next
    case len: False
    show ?thesis
    proof (cases "take 2 (drop s w) = ''..''")
      case False
      then show ?thesis using 1(1) [OF len False] 1(3) len by (simp add: find_dots.simps [of w s])
    next
      case True
      show ?thesis
      proof (cases "w ! (s - 1) = CHR ''/'' \<and> (length w = s + 2 \<or> w ! (s + 2) = CHR ''/'')")
        case False
        have "find_dots w s = find_dots w (s + 2)" by (subst find_dots.simps) (use len True False in auto)
        then have "find_dots w (s + 2) = Some p" using 1(3) by simp
        then show ?thesis using 1(2) [OF len] True False by simp
      next
        case hit: True
        have "0 < s"
        proof (rule ccontr)
          assume "\<not> 0 < s"
          then have "w ! 0 = CHR ''.''" using True by (cases w) auto
          then show False using hit \<open>\<not> 0 < s\<close> by simp
        qed
        then have "drop (s - 1) w = CHR ''/'' # drop s w" using len hit Cons_nth_drop_Suc [of "s - 1" w] by simp
        moreover have "drop s w = ''..'' @ drop (s + 2) w"
          using True append_take_drop_id [of 2 "drop s w"] by (simp add: add.commute)
        ultimately have "w = take (s - 1) w @ CHR ''/'' # ''..'' @ drop (s + 2) w"
          using append_take_drop_id [of "s - 1" w] by simp
        moreover have "drop (s + 2) w = [] \<or> hd (drop (s + 2) w) = CHR ''/''"
          using hit len hd_drop_conv_nth [of "s + 2" w] by (cases "length w = s + 2") auto
        ultimately show ?thesis using dots_in_tok_buf by metis
      qed
    qed
  qed
qed

lemma resolve_without_dots:
  assumes "path \<noteq> []" "hd path = CHR ''/''" "''..'' \<notin> set (tok_buf path)" "\<And>r. local_resolvepath cwd path = Some r \<Longrightarrow> rl r = None"
  shows "paraset_resolvepath rl cwd path = Some (local_resolvepath cwd path)"
proof -
  have "find_dots path 0 = None" using find_dots_tok_buf [of path 0] assms(1-3) by (cases "find_dots path 0") auto
  then show ?thesis using assms by (simp add: paraset_resolvepath_def resolve.simps [of rl] follow_def split: option.splits)
qed

section \<open>The properties\<close>

text \<open>C38: the flags on the components of a name do what pushing the components on a stack does: empty components and single dots are dropped, two dots take the last component away, and there is no result when none is left.\<close>

theorem resolve_is_stack:
  "local_resolvepath cwd path =
     do { p \<leftarrow> (if path \<noteq> [] \<and> hd path = CHR ''/'' then Some path else map_option (\<lambda>d. d @ ''/'' @ path) cwd);
          ts \<leftarrow> normal [] (tok_buf p);
          if ts = [] then None else Some (join ts) }"
  by (rule local_resolvepath_normal)

text \<open>C39: a resolved name has proper components only and is its own resolution, in every working directory and also where links are followed, if it is not a link itself.\<close>

theorem resolved_name_fixed:
  assumes "local_resolvepath cwd path = Some r" "rl r = None"
  shows "(\<exists>ts. r = join ts \<and> (\<forall>t \<in> set ts. proper t)) \<and> local_resolvepath cwd' r = Some r \<and>
    paraset_resolvepath rl cwd' r = Some (Some r)"
proof -
  obtain ts where ts: "r = join ts" "ts \<noteq> []" "\<forall>t \<in> set ts. proper t" using local_resolvepath_proper [OF assms(1)] by blast
  have l: "local_resolvepath cwd' r = Some r" using local_resolvepath_of_proper [OF ts(2, 3)] ts(1) by simp
  have a: "r \<noteq> []" "hd r = CHR ''/''" using ts(1, 2) by (cases ts; simp add: join_def)+
  have "tok_buf r = ts" unfolding ts(1) using ts(3) by (intro tok_buf_join) (auto simp: proper_def)
  then have "''..'' \<notin> set (tok_buf r)" using ts(3) by (auto simp: proper_def)
  then show ?thesis using resolve_without_dots [OF a, of cwd' rl] l assms(2) ts by auto
qed

theorem resolved_name_fixed_witness:
  "local_resolvepath (Some ''/home/x'') ''./src//a/../b.c'' = Some ''/home/x/src/b.c'' \<and>
   paraset_resolvepath (\<lambda>_. None) None ''/home/x/src/b.c'' = Some (Some ''/home/x/src/b.c'')"
proof -
  have "local_resolvepath (Some ''/home/x'') ''./src//a/../b.c'' = Some ''/home/x/src/b.c''"
    by (simp add: local_resolvepath_normal join_def)
  then show ?thesis using resolved_name_fixed [of _ _ "''/home/x/src/b.c''" "\<lambda>_. None" None] by blast
qed

text \<open>A name in which two dots lead back to the root has no resolution where links are followed, although there is no link and the name is that of a file.\<close>

theorem dots_to_root_lost:
  "local_resolvepath cwd ''/a/../b'' = Some ''/b'' \<and> paraset_resolvepath (\<lambda>_. None) cwd ''/a/../b'' = Some None"
proof -
  have f: "find_dots ''/a/../b'' 0 = Some 3" by (simp add: find_dots.simps)
  have "skip_dots ''/a/../b'' 6 = 6" by (simp add: skip_dots.simps)
  then have "dots_step (\<lambda>_. None) cwd ''/a/../b'' 3 = None"
    by (simp add: dots_step_def local_resolvepath_normal join_def)
  then show ?thesis
    by (simp add: paraset_resolvepath_def resolve.simps [of "\<lambda>_. None"] f local_resolvepath_normal join_def)
qed

text \<open>What a link names relative to its directory is put behind the name of the link itself: the name before the dots is that of another file.\<close>

theorem relative_link_misplaced:
  "paraset_resolvepath (\<lambda>p. if p = ''/d/lnk'' then Some ''x/y'' else None) None ''/d/lnk/../z'' = Some (Some ''/d/lnkx/z'') \<and>
   local_resolvepath None ''/d/x/y/../z'' = Some ''/d/x/z''"
proof -
  let ?rl = "\<lambda>p. if p = ''/d/lnk'' then Some ''x/y'' else None"
  have f: "find_dots ''/d/lnk/../z'' 0 = Some 7" "find_dots ''/d/lnkx/z'' 0 = None" by (simp_all add: find_dots.simps)
  have "skip_dots ''/d/lnk/../z'' 10 = 10" by (simp add: skip_dots.simps)
  then have "dots_step ?rl None ''/d/lnk/../z'' 7 = Some (''/d/lnkx'', Some ''/d/lnkx/z'')"
    by (simp add: dots_step_def local_resolvepath_normal join_def)
  then show ?thesis
    by (simp add: paraset_resolvepath_def resolve.simps [of ?rl] f local_resolvepath_normal join_def follow_def)
qed



end
