(* ===== verification/Spec2Isabelle.thy ===== *)
theory Spec2Isabelle
  imports Transport Line_Table File_Cache Els_Properties Mask_Properties Tree_Properties
    Transaction_Properties Object_Properties Class_Properties Xref_Properties Xref_Link_Properties
    Hash_Properties Path_Properties
begin

text \<open>
  \<^bold>\<open>The program.\<close> Discover is an environment for the analysis of large programs: parsers make
  model files, the model server (\<^verbatim>\<open>model_server\<close>) holds the models as objects with relations, and
  viewers and tools talk to it by messages (\<^verbatim>\<open>libs/stream_message\<close>). Preprocessed sources are
  traced back to the files they come from by the location mapper (\<^verbatim>\<open>libs/els\<close>). This development
  models six parts that the others rest on: the messages, the mapper, the bit sets of
  \<^verbatim>\<open>libs/gen\<close>, its hash tables and file names, the object store of the model server with its trees, relations, deletion
  and transactions, and the symbol tables of the cross references.

  \<^bold>\<open>Conventions.\<close> Operations have the names of the code. A null pointer is \<open>None\<close> or the address 0,
  as the theory says. A computation that dereferences a null pointer, leaves an array, fails an
  assertion or does not return is an option with the value \<open>None\<close>; what is proved to return is
  proved to be \<open>Some\<close>. Machine integers are words where the code can wrap around, and natural
  numbers or integers where a bound keeps them in range. Code that is not in the repository is an
  argument of the definitions: the array class \<^verbatim>\<open>parray\<close> (\<open>Pointer_Array\<close>, with its laws), the
  file system, sockets, the allocator's choice of addresses, and the content of fresh memory.
  Where not returning is told from a crash, the result is an \<open>outcome\<close>: a value, a crash, or still
  running after the given number of rounds or calls.
  \<open>Prelude\<close> has the machine types, C strings, outcomes and the list lemmas the parts share.

  \<^bold>\<open>Messages\<close> (\<^verbatim>\<open>libs/stream_message\<close>). \<open>Mini_XML\<close> is \<^verbatim>\<open>minixml.cxx\<close> (strings of XML
  characters), \<open>DOM_String\<close> the growing buffer of \<^verbatim>\<open>minidom.cxx\<close>, \<open>Mini_SAX\<close> the parser of
  \<^verbatim>\<open>minisax.cxx\<close> with its callbacks as a list of events, \<open>Message_Tree\<close> the classes of
  \<^verbatim>\<open>mbuildmsg.h\<close> that build, query and encode a message, \<open>Message_Parser\<close> the handlers of
  \<^verbatim>\<open>mbuildmsg.cxx\<close> and \<^verbatim>\<open>Message::Decode\<close>, \<open>Message_Serializer\<close> the framing of
  \<^verbatim>\<open>mbmsgser.cxx\<close>, and \<open>Transport\<close> the loops of \<^verbatim>\<open>aconnectn.cxx\<close> that send and receive frames.
  The recursion of the parser has fuel, and \<open>parser_returns_nested\<close> shows that the length of the
  input is enough of it; a receive loop has one unit of fuel for every round, and
  \<open>message_delivery\<close> gives a number that is enough. Shown: building and queries act on an abstract
  message as their names say; encoding appends the abstract encoding; parsing returns on every
  input, with well-nested callbacks; decoding what was encoded gives the message in normal form;
  decoding is undefined exactly at an attribute without a value; a frame fits in its block; and a
  message that is sent arrives, however the socket cuts the stream and whether or not the connection
  was used before. A frame without an element
  blocks the receiver for ever.

  \<^bold>\<open>The location mapper\<close> (\<^verbatim>\<open>libs/els/mapper\<close>). \<open>Mapped_File\<close> is \<^verbatim>\<open>mappedFile.cxx\<close> (line
  tables, the list of files), with its meaning in \<open>Line_Table\<close> and \<open>File_Cache\<close>. \<open>Positions\<close> is
  \<^verbatim>\<open>position.cxx\<close> and \<^verbatim>\<open>region.cxx\<close>, \<open>Mappings\<close> is \<^verbatim>\<open>mapping.cxx\<close> and \<^verbatim>\<open>mappingList.cxx\<close>,
  \<open>Els_Mapper\<close> is \<^verbatim>\<open>elsMapper.cxx\<close>. \<open>Mapping_Refinement\<close>, \<open>Mapping_Insert\<close> and
  \<open>Mapping_Properties\<close> give a sorted list of mappings its meaning: a partial function from bytes to
  a kind of mapping and a source. Shown: an insertion ends, keeps the list disjoint and sorted and
  merges the new mapping by the table of kinds; extraction answers from that function; in
  \<open>Els_Properties\<close>, a transformation merges into the maps of its target and no other, and
  \<^verbatim>\<open>getTrueLoc\<close> returns when files do not depend on each other in a cycle, with the byte that
  following the maps reaches; a byte that is mapped to itself makes it recurse without end, which is
  stated by the same calls with a bound on their depth (\<open>getTrueLoc_calls\<close>). The statements on lists are about byte locations; locations by row
  and column go through the same code with the line tables. \<open>Els_Properties\<close> also has the calls that
  go through the null set of mappers, and what is lost in the conversions.

  \<^bold>\<open>Bit sets\<close> (\<^verbatim>\<open>libs/gen\<close>, \<^verbatim>\<open>genMask\<close>). \<open>Gen_Mask\<close> has every operation over words of any length.
  \<open>Mask_Refinement\<close> shows that they are those of finite sets of numbers below 65536, through the
  locale \<open>ordered_set\<close> also for the loops with \<^verbatim>\<open>peek\<close> and \<^verbatim>\<open>pop\<close>. \<open>Mask_Properties\<close> has the
  sum, which is the union as long as both capacities are below 65536 and writes outside of its
  array otherwise, and \<^verbatim>\<open>includes\<close>, which sees the low 32 bits of a word.

  \<^bold>\<open>Hash tables and file names\<close> (\<^verbatim>\<open>libs/gen\<close>). \<open>Hash_Table\<close> is the generic table of
  \<^verbatim>\<open>gen_hash.h\<close>: an array of chains, in which a chain of more than seven buckets becomes a table of the
  next level before the next insertion, up to level 3. Its functions recur on the depth of a table and on the levels that
  are left, and always end. \<open>Hash_Refinement\<close> has the entries of a table and how the operations change
  them, \<open>Hash_Properties\<close> shows that any sequence of operations is one on a finite map, except that the
  removal of a null value goes on in a bucket that was deleted, and that chains have at most eight
  buckets above the last level, which does not divide a chain, and no bound on it. Keys are pointers of 64 bits hashed by their low 32; the value 0
  is the null pointer. \<open>Path_Resolve\<close> is \<^verbatim>\<open>resolvepath.cxx\<close>: the flags on the components of a name,
  proved to be a stack, and \<^verbatim>\<open>paraset_resolvepath\<close>, which follows links and so is a partial function
  (\<open>None\<close> when it does not return). The working directory (\<open>cwd\<close>) and what the operating system reads
  from a link (\<open>rl\<close>) are arguments. \<open>Path_Properties\<close> states when a resolved name stays as it is, that a
  link to itself is followed for ever, and which names the loop over \<^verbatim>\<open>..\<close> loses or misplaces.

  \<^bold>\<open>Trees\<close> (\<^verbatim>\<open>model_server/obj\<close>, \<^verbatim>\<open>objTree\<close>). \<open>Obj_Tree\<close> has the operations on a store of nodes.
  \<open>Tree_Refinement\<close> says what a store represents, a list of children for each node, and reduces the
  changes of links to two updates. \<open>Tree_Queries\<close>, \<open>Tree_Leaves\<close> and \<open>Tree_Iteration\<close> have paths,
  the nearest common ancestor, the order of nodes, children and leaves; the locale \<open>linked_items\<close>
  is what the loops over children and over leaves share. \<open>Tree_Moves\<close>, \<open>Tree_Grouping\<close> and
  \<open>Tree_Splitting\<close> have the operations on several nodes. \<open>Tree_Properties\<close> states all of them, and
  what happens without the preconditions that the code does not test.

  \<^bold>\<open>Transactions\<close> (\<^verbatim>\<open>model_server/obj\<close>, \<^verbatim>\<open>transaction.cxx\<close>). \<open>Transactions\<close> has the pool of memory
  of nested transactions and the objects that are deleted at the end. \<open>Transaction_Memory\<close> has its
  runs as a step relation with the list of live allocations as a ghost variable, and their
  invariant. \<open>Transaction_Properties\<close>: live allocations of at most the size of a chunk never overlap and lie in blocks that are not freed, the end of an inner
  transaction puts the pool back, the outermost one frees no chunk, and an allocation larger than
  a chunk runs over its end. What deletion and notification do is a parameter; \<open>keeps_memory\<close>
  says that they leave the pool as it was.

  \<^bold>\<open>Relations and deletion\<close> (\<^verbatim>\<open>model_server/obj\<close>). \<open>Relations\<close> is \<^verbatim>\<open>objRelation.h.cxx\<close>:
  each object has an array of dynamic relations and fields for fixed ones, with one member or a set
  of them, and every relation type has an inverse, a cardinality and flags that say what is
  propagated along it. \<open>Relation_Refinement\<close> gives a state its meaning, a set of objects for every
  object and type, and shows that putting and removing links are changes of these sets that keep
  every link reversed; \<open>Relation_Properties\<close> has the removal of whole relations, and
  \<open>Relation_Restore\<close> the restoring of an array of links at once, which is compared with restoring
  them one by one. \<open>Object_Deletion\<close> is \<^verbatim>\<open>objOp.cxx\<close>: the collection of the objects to delete in the arrays \<^verbatim>\<open>pend\<close> and \<^verbatim>\<open>proc\<close>,
  marked by negative identifiers, and the two loops that delete them with their destructors.
  \<open>Deletion_Closure\<close> shows that the collection ends with the closure under ownership, and
  \<open>Deletion_Properties\<close> that the loops delete just these. \<open>Object_Properties\<close> states the results, also
  for the end of a transaction, whose parameter \<open>real_delete\<close> is here the modelled deletion. Hooks, the
  virtual functions of the classes, the class \<^verbatim>\<open>Set\<close> and the database are parameters; the properties
  assume hooks and notifications that leave the relations alone (\<open>quiet\<close>), the laws of sets
  (\<open>set_laws\<close>), inverse types that are inverse to each other (\<open>types_ok\<close>), and for deletion that no
  link is still in the database (\<open>loaded\<close>).

  \<^bold>\<open>Types and classes\<close> (\<^verbatim>\<open>objRelation.h.cxx\<close>). \<open>Class_Descriptors\<close> has the constructors of the
  static relation types and class descriptors, and \<^verbatim>\<open>init_rel_ptrs\<close>, which computes the depth of each
  class, sorts the classes by it and appends the list of fixed types of the base to that of each
  class. \<open>Class_Hierarchy\<close> follows the depths and the shared lists through these loops, and
  \<open>Class_Properties\<close> shows, for every sequence of constructors, that inverse types are paired, that
  each class gets its own types and then those of its bases, and that \<^verbatim>\<open>is_subclass\<close> decides
  derivation. A line of bases must be shorter than 256: the depth is an unsigned char. \<open>registry_env\<close>
  is the link to the relations: it gives the types that their operations take as a parameter.

  \<^bold>\<open>Symbol tables\<close> (\<^verbatim>\<open>model_server/xref\<close>). The symbols of a project are in three files that
  are mapped into memory: the index file (an array of symbols), the symbol file (their names) and
  the link file. \<open>Xref_Names\<close> has the comparison of names, which ignores spaces, and their hash
  value. \<open>Xref_Table\<close> has the operations of \<^verbatim>\<open>XrefTable.h.cxx\<close> and \<^verbatim>\<open>xrefSymbol.h.cxx\<close> on
  the table: a new symbol, the growth of the hash table, lookup, insertion, renaming, reading back,
  and the check that the code has of its hash table. The buckets are chains of elements that are
  linked in both directions; \<open>Xref_Table_Chains\<close> relates them to lists, with the lemmas of \<open>Chains\<close>.
  \<open>Xref_Table_Invariant\<close> has the invariant (every symbol has one element, in the bucket of the hash
  value of its name) and shows that growing keeps it, \<open>Xref_Table_Refinement\<close> that the operations are
  those of a list of symbols, \<open>Xref_Table_Restore\<close> and \<open>Xref_Table_Rename\<close> have reading back and
  renaming. \<open>Xref_Properties\<close> states the results. The conversions of the byte order in the fields
  cancel out and are left out, except in renaming, where one is made too often: on a little endian machine the symbol comes into a wrong bucket
  until the table is read back. The file that a
  symbol is defined in is a parameter (\<open>dfn\<close>): the code finds it by a query over all projects. The
  files are taken to be large enough, and the notifications of the viewers are left out.

  \<^bold>\<open>Links.\<close> The links between the symbols of a table are records of a type and an index, in the
  link file and, for those made since it was opened, in an array of each symbol. \<open>Xref_Links\<close> has
  the loop over the links of a symbol and the operations: adding a link with its reverse, removing,
  the dates of files, writing the link file. A place of a link is a value (\<open>link_ref\<close>), for a pointer
  into the file or into an array. \<open>Xref_Link_Storage\<close> has the invariant of the places and shows which
  places the loop visits; so the loop, which need not end on a broken file, ends.
  \<open>Xref_Link_Content\<close> abstracts a table to multisets of links and \<open>Xref_Link_Operations\<close> says how the
  operations on one symbol change them. \<open>Xref_Link_Relation\<close> has the abstract specification, a set of
  edges that come in pairs with one type for each symbol, and the refinement; \<open>Xref_Link_Growth\<close> that
  new symbols keep the links and that links keep the hash table; \<open>Xref_Link_Dates\<close> the dates;
  \<open>Xref_Link_Writing\<close> that the links of a file that is written are read back (the header of the file
  is left out, and the offsets are those behind it).
  \<open>Xref_Link_Properties\<close> states the results. Both symbols are taken to be in the table, as the
  operation between tables first inserts the symbol that is not; whether a file belongs to the
  project, which the code asks the project manager, is an argument (\<open>same\<close>). It matters for one link
  only, that of a file to itself as the place where it is defined, which is made in one direction when
  the file is outside of the project; \<open>in_project\<close> excludes it.

  \<^bold>\<open>Not modelled.\<close> Printing and dumping functions of the modelled classes; the services, threads
  and message channels of \<^verbatim>\<open>libs/stream_message\<close>, which wrap operating system calls; the tool kits
  and viewers (\<^verbatim>\<open>libs/gt\<close>, \<^verbatim>\<open>libs/gtxm\<close>, \<^verbatim>\<open>model_server/ui\<close>, \<^verbatim>\<open>newntui\<close> and others), which are
  calls of window systems; the parsers \<^verbatim>\<open>aset_CCcc\<close> and \<^verbatim>\<open>aset_jfe\<close>, of which only parts are in
  the repository; and the parts of the model server above the object store (the queries over
  the cross references, flow analysis, syntax trees, project files).
\<close>

end
